(* ===== verification/Prelude.thy ===== *)
theory Prelude
  imports Main "HOL-Library.Word" "HOL-Library.Multiset"
begin

text \<open>
  The shared vocabulary of the development: the machine integers of the C++ sources, results that
  are either a value, an error the code returns, or an out-of-range access, loops that may leave
  early, the checked arithmetic both protocol files use, and the little-endian byte images of the
  integers with the locale of fixed-width codecs.
\<close>

unbundle bit_operations_syntax

named_theorems res_simps \<open>how the sequencing of fallible steps computes\<close>

type_synonym u8 = "8 word"
type_synonym u16 = "16 word"
type_synonym u32 = "32 word"
type_synonym u64 = "64 word"

section \<open>Results\<close>

text \<open>
  A C++ function of the sources stores its result and returns success (\<open>Inr\<close>), or it returns an
  error code (\<open>Inl (Ret e)\<close>), or it accesses an element of a vector or a byte of a buffer that does
  not exist (\<open>Inl Oob\<close>), which is undefined behaviour, or a loop with a fuel bound is still running
  when its fuel is gone (\<open>Inl Hang\<close>).
\<close>

datatype 'e fault = Ret 'e | Oob | Hang

type_synonym ('e, 'a) res = "'e fault + 'a"

definition rbind :: "('e, 'a) res \<Rightarrow> ('a \<Rightarrow> ('e, 'b) res) \<Rightarrow> ('e, 'b) res" where
  "rbind m f = (case m of Inl e \<Rightarrow> Inl e | Inr x \<Rightarrow> f x)"

definition fail :: "'e \<Rightarrow> ('e, 'a) res" where
  "fail e = Inl (Ret e)"

definition vget :: "'a list \<Rightarrow> nat \<Rightarrow> ('e, 'a) res" where
  "vget xs i = (if i < length xs then Inr (xs ! i) else Inl Oob)"

definition vput :: "'a list \<Rightarrow> nat \<Rightarrow> 'a \<Rightarrow> ('e, 'a list) res" where
  "vput xs i v = (if i < length xs then Inr (xs[i := v]) else Inl Oob)"

lemma rbind_Inr [simp, res_simps]: "rbind (Inr x) f = f x"
  by (simp add: rbind_def)

lemma rbind_Inl [simp, res_simps]: "rbind (Inl e) f = Inl e"
  by (simp add: rbind_def)

lemma fail_neq_Inr [simp]: "fail e \<noteq> Inr x" "Inr x \<noteq> fail e"
  by (simp_all add: fail_def)

lemma fail_inject [simp]: "fail e = fail e' \<longleftrightarrow> e = e'"
  by (simp add: fail_def)

lemma fail_neq_Oob [simp]: "fail e \<noteq> Inl Oob" "Inl Oob \<noteq> fail e"
  by (simp_all add: fail_def)

lemma rbind_fail [simp, res_simps]: "rbind (fail e) f = fail e"
  by (simp add: fail_def)

lemma rbind_eq_Inr: "rbind m f = Inr y \<longleftrightarrow> (\<exists>x. m = Inr x \<and> f x = Inr y)"
  by (cases m) auto

lemma rbind_eq_Oob: "rbind m f = Inl Oob \<longleftrightarrow> m = Inl Oob \<or> (\<exists>x. m = Inr x \<and> f x = Inl Oob)"
  by (cases m) auto

lemma rbind_assoc: "rbind (rbind m f) g = rbind m (\<lambda>x. rbind (f x) g)"
  by (cases m) auto

lemma vget_in [simp]: "i < length xs \<Longrightarrow> vget xs i = Inr (xs ! i)"
  by (simp add: vget_def)

lemma vget_eq_Inr: "vget xs i = Inr x \<longleftrightarrow> i < length xs \<and> x = xs ! i"
  by (auto simp: vget_def)

lemma vget_eq_Oob: "vget xs i = Inl Oob \<longleftrightarrow> length xs \<le> i"
  by (auto simp: vget_def)

lemma vput_in [simp]: "i < length xs \<Longrightarrow> vput xs i v = Inr (xs[i := v])"
  by (simp add: vput_def)

lemma vput_eq_Inr: "vput xs i v = Inr ys \<longleftrightarrow> i < length xs \<and> ys = xs[i := v]"
  by (auto simp: vput_def)

lemma vput_eq_Oob: "vput xs i v = Inl Oob \<longleftrightarrow> length xs \<le> i"
  by (auto simp: vput_def)

lemmas vec_eqs = rbind_eq_Inr rbind_eq_Oob vget_eq_Inr vget_eq_Oob vput_eq_Inr vput_eq_Oob

section \<open>Loops that may leave early\<close>

text \<open>A \<open>for\<close> loop over a range whose body may return from the enclosing function.\<close>

fun mfold :: "('x \<Rightarrow> 's \<Rightarrow> ('e, 's) res) \<Rightarrow> 'x list \<Rightarrow> 's \<Rightarrow> ('e, 's) res" where
  "mfold f [] s = Inr s"
| "mfold f (x # xs) s = rbind (f x s) (mfold f xs)"

lemma mfold_append: "mfold f (xs @ ys) s = rbind (mfold f xs s) (mfold f ys)"
proof (induction xs arbitrary: s)
  case Nil
  then show ?case by simp
next
  case (Cons x xs)
  then show ?case by (cases "f x s") auto
qed

text \<open>
  A loop invariant indexed by the elements already processed: what holds before the loop and is
  kept by every body holds after it.
\<close>

lemma mfold_invariant:
  assumes "mfold f xs s = Inr t" and "P [] s"
    and "\<And>ys x zs u v. xs = ys @ x # zs \<Longrightarrow> P ys u \<Longrightarrow> f x u = Inr v \<Longrightarrow> P (ys @ [x]) v"
  shows "P xs t"
  using assms
proof (induction xs arbitrary: t rule: rev_induct)
  case Nil
  then show ?case by simp
next
  case (snoc x xs)
  from snoc.prems(1) obtain u where u: "mfold f xs s = Inr u" and v: "f x u = Inr t"
    by (auto simp: mfold_append vec_eqs)
  have "P xs u"
  proof (rule snoc.IH [OF u snoc.prems(2)])
    fix ys y zs a b
    assume "xs = ys @ y # zs" "P ys a" "f y a = Inr b"
    then show "P (ys @ [y]) b" using snoc.prems(3) [of ys y "zs @ [x]" a b] by simp
  qed
  then show ?case using snoc.prems(3) [of xs x "[]" u t] v by simp
qed

text \<open>A loop whose body never accesses out of range under the invariant does not either.\<close>

lemma mfold_no_Oob:
  assumes "P s" and "\<And>x u. x \<in> set xs \<Longrightarrow> P u \<Longrightarrow> f x u \<noteq> Inl Oob"
    and "\<And>x u v. x \<in> set xs \<Longrightarrow> P u \<Longrightarrow> f x u = Inr v \<Longrightarrow> P v"
  shows "mfold f xs s \<noteq> Inl Oob"
  using assms
proof (induction xs arbitrary: s)
  case Nil
  then show ?case by simp
next
  case (Cons x xs)
  show ?case
  proof (cases "f x s")
    case (Inl e)
    then show ?thesis using Cons.prems(2) [of x s] Cons.prems(1) by simp
  next
    case (Inr b)
    have "P b" using Cons.prems(1) Cons.prems(3) [of x s b] Inr by simp
    then have "mfold f xs b \<noteq> Inl Oob"
    proof (rule Cons.IH)
      show "f y u \<noteq> Inl Oob" if "y \<in> set xs" "P u" for y u
        using that Cons.prems(2) [of y u] by simp
      show "P v" if "y \<in> set xs" "P u" "f y u = Inr v" for y u v
        using that Cons.prems(3) [of y u v] by simp
    qed
    then show ?thesis using Inr by simp
  qed
qed

text \<open>A loop whose body always succeeds under the invariant runs to its end.\<close>

lemma mfold_total:
  assumes "P [] s"
    and "\<And>ys x zs u. xs = ys @ x # zs \<Longrightarrow> P ys u \<Longrightarrow> \<exists>v. f x u = Inr v \<and> P (ys @ [x]) v"
  shows "\<exists>t. mfold f xs s = Inr t \<and> P xs t"
  using assms
proof (induction xs rule: rev_induct)
  case Nil
  then show ?case by simp
next
  case (snoc x xs)
  have "\<exists>u. mfold f xs s = Inr u \<and> P xs u"
  proof (rule snoc.IH [OF snoc.prems(1)])
    fix ys y zs a
    assume "xs = ys @ y # zs" "P ys a"
    then show "\<exists>v. f y a = Inr v \<and> P (ys @ [y]) v"
      using snoc.prems(2) [of ys y "zs @ [x]" a] by simp
  qed
  then show ?case using snoc.prems(2) [of xs x "[]"] by (fastforce simp: mfold_append)
qed

text \<open>A loop whose body either leaves with one of the errors \<open>E\<close> or keeps the invariant.\<close>

lemma mfold_run:
  assumes "P [] s"
    and "\<And>ys x zs u. xs = ys @ x # zs \<Longrightarrow> P ys u \<Longrightarrow>
      (\<exists>e \<in> E. f x u = fail e) \<or> (\<exists>v. f x u = Inr v \<and> P (ys @ [x]) v)"
  shows "(\<exists>e \<in> E. mfold f xs s = fail e) \<or> (\<exists>t. mfold f xs s = Inr t \<and> P xs t)"
  using assms
proof (induction xs rule: rev_induct)
  case Nil
  then show ?case by simp
next
  case (snoc x xs)
  have "(\<exists>e \<in> E. mfold f xs s = fail e) \<or> (\<exists>u. mfold f xs s = Inr u \<and> P xs u)"
  proof (rule snoc.IH [OF snoc.prems(1)])
    fix ys y zs a
    assume "xs = ys @ y # zs" "P ys a"
    then show "(\<exists>e \<in> E. f y a = fail e) \<or> (\<exists>v. f y a = Inr v \<and> P (ys @ [y]) v)"
      using snoc.prems(2) [of ys y "zs @ [x]" a] by simp
  qed
  then show ?case using snoc.prems(2) [of xs x "[]"] by (fastforce simp: mfold_append)
qed

text \<open>Counting loops: the invariant is indexed by the number of iterations done.\<close>

lemma upt_split:
  assumes "[0..<n] = ys @ l # zs"
  shows "l = length ys \<and> l < n"
proof -
  have n: "length ys < n" using arg_cong [OF assms, of length] by simp
  have "[0..<n] ! length ys = l" by (simp add: assms)
  then show ?thesis using n by simp
qed

lemma mfold_upt_run:
  assumes "P 0 s"
    and "\<And>i u. i < n \<Longrightarrow> P i u \<Longrightarrow> (\<exists>e \<in> E. f i u = fail e) \<or> (\<exists>v. f i u = Inr v \<and> P (Suc i) v)"
  shows "(\<exists>e \<in> E. mfold f [0..<n] s = fail e) \<or> (\<exists>t. mfold f [0..<n] s = Inr t \<and> P n t)"
proof -
  have "(\<exists>e \<in> E. mfold f [0..<n] s = fail e) \<or>
      (\<exists>t. mfold f [0..<n] s = Inr t \<and> P (length [0..<n]) t)"
  proof (rule mfold_run)
    fix ys x zs u
    assume "[0..<n] = ys @ x # zs" "P (length ys) u"
    then show "(\<exists>e \<in> E. f x u = fail e) \<or> (\<exists>v. f x u = Inr v \<and> P (length (ys @ [x])) v)"
      using upt_split [of n ys x zs] assms(2) [of x u] by auto
  qed (simp add: assms(1))
  then show ?thesis by simp
qed

lemma mfold_upt_total:
  assumes "P 0 s" and "\<And>i u. i < n \<Longrightarrow> P i u \<Longrightarrow> \<exists>v. f i u = Inr v \<and> P (Suc i) v"
  shows "\<exists>t. mfold f [0..<n] s = Inr t \<and> P n t"
  using mfold_upt_run [of P s n "{}" f] assms by blast

text \<open>Nested loops are one loop over the concatenation, and an idle element can be left out.\<close>

lemma mfold_map: "mfold f (map h xs) s = mfold (\<lambda>x. f (h x)) xs s"
proof (induction xs arbitrary: s)
  case (Cons x xs)
  then show ?case by (cases "f (h x) s") auto
qed simp

lemma mfold_concat: "mfold f (concat xss) s = mfold (mfold f) xss s"
proof (induction xss arbitrary: s)
  case (Cons xs xss)
  then show ?case by (cases "mfold f xs s") (auto simp: mfold_append)
qed simp

lemma mfold_cong [fundef_cong]:
  "xs = ys \<Longrightarrow> s = t \<Longrightarrow> (\<And>x u. x \<in> set ys \<Longrightarrow> f x u = g x u) \<Longrightarrow> mfold f xs s = mfold g ys t"
proof (induction xs arbitrary: ys s t)
  case (Cons x xs)
  then show ?case by (cases "g x t") auto
qed simp

lemma mfold_filter:
  "(\<And>x u. x \<in> set xs \<Longrightarrow> \<not> Q x \<Longrightarrow> f x u = Inr u) \<Longrightarrow> mfold f xs s = mfold f (filter Q xs) s"
proof (induction xs arbitrary: s)
  case (Cons x xs)
  then show ?case by (cases "f x s") auto
qed simp

section \<open>Lists built from their prefixes\<close>

text \<open>
  A loop that appends one element per iteration, computed from the iterations before it: element
  \<open>i\<close> of the result sees the first \<open>i\<close> inputs.
\<close>

definition prefix_map :: "('a list \<Rightarrow> 'a \<Rightarrow> 'b) \<Rightarrow> 'a list \<Rightarrow> 'b list" where
  "prefix_map f xs = map (\<lambda>i. f (take i xs) (xs ! i)) [0..<length xs]"

lemma prefix_map_Nil [simp]: "prefix_map f [] = []"
  by (simp add: prefix_map_def)

lemma length_prefix_map [simp]: "length (prefix_map f xs) = length xs"
  by (simp add: prefix_map_def)

lemma nth_prefix_map [simp]: "i < length xs \<Longrightarrow> prefix_map f xs ! i = f (take i xs) (xs ! i)"
  by (simp add: prefix_map_def)

lemma prefix_map_snoc [simp]: "prefix_map f (xs @ [x]) = prefix_map f xs @ [f xs x]"
  by (rule nth_equalityI) (auto simp: nth_append less_Suc_eq)

lemma prefix_map_append:
  "prefix_map f (xs @ ys) = prefix_map f xs @ prefix_map (\<lambda>zs. f (xs @ zs)) ys"
  by (induction ys rule: rev_induct) (simp_all add: append_assoc [symmetric] del: append_assoc)

lemma map_prefix_map: "map g (prefix_map f xs) = prefix_map (\<lambda>ys x. g (f ys x)) xs"
  by (simp add: prefix_map_def)

lemma prefix_map_const: "prefix_map (\<lambda>ys x. f x) xs = map f xs"
  by (rule nth_equalityI) auto

section \<open>Widening\<close>

lemma unat_ucast_u64: "unat (ucast (w :: u32) :: u64) = unat w"
  using unsigned_less [of w, where ?'a = nat]
  by (simp add: unsigned_ucast_eq take_bit_nat_eq_self_iff)

lemma unat_ucast_u16_u32: "unat (ucast (w :: u16) :: u32) = unat w"
  using unsigned_less [of w, where ?'a = nat]
  by (simp add: unsigned_ucast_eq take_bit_nat_eq_self_iff)

lemma unat_of_nat_u32: "n < 2 ^ 32 \<Longrightarrow> unat (of_nat n :: u32) = n"
  by (simp add: unat_of_nat)

lemma unat_of_nat_u64: "n < 2 ^ 64 \<Longrightarrow> unat (of_nat n :: u64) = n"
  by (simp add: unat_of_nat)

lemma unat_add_of_nat:
  assumes "unat (b :: u32) + k < 2 ^ 32"
  shows "unat (b + of_nat k) = unat b + k"
proof -
  have "k < 2 ^ 32" using assms by linarith
  then have "unat (of_nat k :: u32) = k" by (simp add: unat_of_nat)
  then show ?thesis using assms by (simp add: unat_word_ariths)
qed

section \<open>Checked 64-bit arithmetic\<close>

text \<open>
  \<open>Add\<close>, \<open>Mul\<close> and \<open>Align\<close> of the protocol files: \<open>None\<close> is their \<open>false\<close>, and the out-parameter
  is the value of \<open>Some\<close>.
\<close>

definition Add :: "u64 \<Rightarrow> u64 \<Rightarrow> u64 option" where
  "Add a b = (if b > - 1 - a then None else Some (a + b))"

definition Mul :: "u64 \<Rightarrow> u64 \<Rightarrow> u64 option" where
  "Mul a b = (if a \<noteq> 0 \<and> b > - 1 div a then None else Some (a * b))"

definition Align :: "u64 \<Rightarrow> u64 \<Rightarrow> u64 option" where
  "Align value alignment =
     (if alignment \<noteq> 0 \<and> alignment AND (alignment - 1) = 0
      then (case Add value (alignment - 1) of
              None \<Rightarrow> None
            | Some expanded \<Rightarrow> Some (expanded div alignment * alignment))
      else None)"

lemma unat_max_u64: "unat (- 1 :: u64) = 2 ^ 64 - 1"
  by (simp add: unsigned_minus_1_eq_mask mask_eq_exp_minus_1)

lemma Add_eq_Some: "Add a b = Some c \<longleftrightarrow> unat a + unat b < 2 ^ 64 \<and> c = a + b"
proof -
  have "unat (- 1 - a) = 2 ^ 64 - 1 - unat a"
    by (subst unat_sub) (simp_all add: unat_max_u64)
  then have "b > - 1 - a \<longleftrightarrow> \<not> unat a + unat b < 2 ^ 64"
    using unsigned_less [of a, where ?'a = nat] unsigned_less [of b, where ?'a = nat]
    by (auto simp: word_less_nat_alt)
  then show ?thesis by (auto simp: Add_def)
qed

lemma Add_unat: "Add a b = Some c \<Longrightarrow> unat c = unat a + unat b"
  by (auto simp: Add_eq_Some unat_add_lem [THEN iffD1])

lemma Mul_eq_Some: "Mul a b = Some c \<longleftrightarrow> unat a * unat b < 2 ^ 64 \<and> c = a * b"
proof (cases "a = 0")
  case True
  then show ?thesis by (auto simp: Mul_def)
next
  case False
  then have pos: "0 < unat a" by (simp add: unat_gt_0)
  have "b > - 1 div a \<longleftrightarrow> (2 ^ 64 - 1) div unat a < unat b"
    by (simp add: word_less_nat_alt unat_div unat_max_u64)
  also have "\<dots> \<longleftrightarrow> 2 ^ 64 - 1 < unat b * unat a"
    using pos by (simp add: div_less_iff_less_mult)
  finally show ?thesis using False by (auto simp: Mul_def mult.commute)
qed

lemma Mul_unat: "Mul a b = Some c \<Longrightarrow> unat c = unat a * unat b"
  by (auto simp: Mul_eq_Some unat_mult_lem [THEN iffD1])

lemma unat_pred: "(a :: u64) \<noteq> 0 \<Longrightarrow> unat (a - 1) = unat a - 1"
  by (simp add: unat_sub word_le_nat_alt unat_gt_0 Suc_leI)

lemma Align_eq_Some:
  "Align v a = Some c \<longleftrightarrow> a \<noteq> 0 \<and> a AND (a - 1) = 0 \<and> unat v + (unat a - 1) < 2 ^ 64 \<and>
     c = (v + (a - 1)) div a * a"
proof (cases "a = 0")
  case False
  then have "Add v (a - 1) = Some e \<longleftrightarrow> unat v + (unat a - 1) < 2 ^ 64 \<and> e = v + (a - 1)" for e
    by (simp add: Add_eq_Some unat_pred)
  moreover have "Align v a = Some c \<longleftrightarrow>
      a AND (a - 1) = 0 \<and> (\<exists>e. Add v (a - 1) = Some e \<and> c = e div a * a)"
    using False by (auto simp: Align_def split: option.splits)
  ultimately show ?thesis using False by auto
qed (simp add: Align_def)

lemma Align_unat:
  assumes "Align v a = Some c"
  shows "unat c = (unat v + (unat a - 1)) div unat a * unat a"
proof -
  from assms have nz: "a \<noteq> 0" and lt: "unat v + (unat a - 1) < 2 ^ 64"
    and c: "c = (v + (a - 1)) div a * a" by (auto simp: Align_eq_Some)
  have e: "unat (v + (a - 1)) = unat v + (unat a - 1)"
    using lt by (simp add: unat_add_lem [THEN iffD1] unat_pred [OF nz])
  have le: "(unat v + (unat a - 1)) div unat a * unat a < 2 ^ 64"
    by (rule le_less_trans [OF div_times_less_eq_dividend lt])
  have "unat ((v + (a - 1)) div a * a) = unat ((v + (a - 1)) div a) * unat a"
    by (rule unat_mult_lem [THEN iffD1]) (use le in \<open>simp add: unat_div e\<close>)
  then show ?thesis by (simp add: c unat_div e)
qed

lemma Align_bounds:
  assumes "Align v a = Some c"
  shows "unat v \<le> unat c" and "unat c < unat v + unat a" and "unat a dvd unat c"
proof -
  have pos: "0 < unat a" using assms by (auto simp: Align_eq_Some unat_gt_0)
  note c = Align_unat [OF assms]
  let ?n = "unat v + (unat a - 1)"
  have eq: "unat c = ?n - ?n mod unat a"
    unfolding c by (rule minus_mod_eq_div_mult [symmetric])
  have "?n mod unat a < unat a" using pos by simp
  with eq pos show "unat v \<le> unat c" "unat c < unat v + unat a"
    by linarith+
  show "unat a dvd unat c" using c by simp
qed

section \<open>Byte images\<close>

text \<open>Integers are laid out in little-endian order, as on the hosts and devices of the program.\<close>

fun le_bytes :: "nat \<Rightarrow> 'a::len word \<Rightarrow> u8 list" where
  "le_bytes 0 w = []"
| "le_bytes (Suc n) w = ucast w # le_bytes n (drop_bit 8 w)"

fun le_word :: "u8 list \<Rightarrow> 'a::len word" where
  "le_word [] = 0"
| "le_word (b # bs) = ucast b OR push_bit 8 (le_word bs)"

lemma length_le_bytes [simp]: "length (le_bytes n w) = n"
  by (induction n arbitrary: w) auto

lemma le_word_le_bytes_take: "le_word (le_bytes n w) = take_bit (8 * n) w"
proof (induction n arbitrary: w)
  case 0
  then show ?case by simp
next
  case (Suc n)
  show ?case
    by (rule bit_word_eqI) (auto simp: Suc.IH bit_simps)
qed

lemma le_word_le_bytes:
  "LENGTH('a::len) \<le> 8 * n \<Longrightarrow> le_word (le_bytes n (w :: 'a word)) = w"
  by (simp add: le_word_le_bytes_take take_bit_word_eq_self)

text \<open>An array of fixed-width records, decoded record by record from a byte image.\<close>

fun decode_array :: "(u8 list \<Rightarrow> 'a) \<Rightarrow> nat \<Rightarrow> nat \<Rightarrow> u8 list \<Rightarrow> 'a list" where
  "decode_array dec w 0 bs = []"
| "decode_array dec w (Suc n) bs = dec (take w bs) # decode_array dec w n (drop w bs)"

lemma length_decode_array [simp]: "length (decode_array dec w n bs) = n"
  by (induction n arbitrary: bs) auto

locale codec =
  fixes enc :: "'a \<Rightarrow> u8 list" and dec :: "u8 list \<Rightarrow> 'a" and width :: nat
  assumes length_enc: "length (enc x) = width"
    and dec_enc: "dec (enc x) = x"
begin

lemma length_encode_array: "length (concat (map enc xs)) = length xs * width"
  by (induction xs) (simp_all add: length_enc)

lemma decode_encode_array:
  "decode_array dec width (length xs) (concat (map enc xs) @ rest) = xs"
  by (induction xs) (simp_all add: length_enc dec_enc)

lemma enc_inject: "enc x = enc y \<longleftrightarrow> x = y"
  by (metis dec_enc)

end

interpretation u16_codec: codec "le_bytes 2 :: u16 \<Rightarrow> u8 list" le_word 2
  by unfold_locales (simp_all add: le_word_le_bytes)

interpretation u32_codec: codec "le_bytes 4 :: u32 \<Rightarrow> u8 list" le_word 4
  by unfold_locales (simp_all add: le_word_le_bytes)

interpretation u64_codec: codec "le_bytes 8 :: u64 \<Rightarrow> u8 list" le_word 8
  by unfold_locales (simp_all add: le_word_le_bytes)

end
