(* ===== verification/Dispatch_Abi.thy ===== *)
theory Dispatch_Abi
  imports Prelude
begin

text \<open>
  The binary interface of the pull protocol (\<open>inc_dc_pull_dispatch_v2_abi.h\<close>): the constants, the
  records that cross the wire or stay in the journal, their byte images, the FNV hash that both
  protocol files run over them, and the journal state machine. A C++ enumeration over an unsigned
  type can hold any value of that type, so \<open>DataType\<close> stays an integer; the float weight of an
  assignment is its IEEE-754 bit pattern.
\<close>

named_theorems abi_consts \<open>the constants of the binary interface\<close>

section \<open>Constants\<close>

definition kPullDispatchMagic :: u32 where
  [abi_consts]: "kPullDispatchMagic = 0x50443249"

definition kPullDispatchAbiVersion :: u16 where
  [abi_consts]: "kPullDispatchAbiVersion = 2"

definition kPullDispatchAlignment :: u32 where
  [abi_consts]: "kPullDispatchAlignment = 64"

definition kPullDispatchMaxWorkers :: u32 where
  [abi_consts]: "kPullDispatchMaxWorkers = 128"

definition kSlotFlagUniformDestinations :: u16 where
  [abi_consts]: "kSlotFlagUniformDestinations = 1"

definition kJournalFlagUniformDestinations :: u32 where
  [abi_consts]: "kJournalFlagUniformDestinations = 1"

definition kJournalFlagDenseAllDestinations :: u32 where
  [abi_consts]: "kJournalFlagDenseAllDestinations = kJournalFlagUniformDestinations"

text \<open>\<open>sizeof\<close> of the records, fixed by the \<open>static_assert\<close>s of the header.\<close>

definition sizeof_Ready :: nat where [abi_consts]: "sizeof_Ready = 64"
definition sizeof_SlotHeader :: nat where [abi_consts]: "sizeof_SlotHeader = 128"
definition sizeof_TokenRecord :: nat where [abi_consts]: "sizeof_TokenRecord = 32"
definition sizeof_AssignmentRecord :: nat where [abi_consts]: "sizeof_AssignmentRecord = 16"
definition sizeof_JournalSlotHeader :: nat where [abi_consts]: "sizeof_JournalSlotHeader = 64"

type_synonym DataType = u32

definition FP16 :: DataType where [abi_consts]: "FP16 = 0"
definition BF16 :: DataType where [abi_consts]: "BF16 = 1"
definition FP32 :: DataType where [abi_consts]: "FP32 = 2"

section \<open>Records\<close>

record RegionRegistration =
  reg_session_id :: u64
  reg_placement_epoch :: u64
  reg_source_rank :: u32
  reg_region_id :: u32
  reg_slot_count :: u32
  reg_alignment :: u32
  reg_region_bytes :: u64
  reg_slot_stride :: u64
  reg_reserved :: "u64 \<times> u64"

record Ready =
  rdy_magic :: u32
  rdy_abi_version :: u16
  rdy_struct_bytes :: u16
  rdy_session_id :: u64
  rdy_placement_epoch :: u64
  rdy_generation :: u64
  rdy_sequence :: u64
  rdy_wave :: u32
  rdy_source_rank :: u32
  rdy_source_region_id :: u32
  rdy_ring_slot :: u16
  rdy_flags :: u16
  rdy_publication :: u64

record SlotHeader =
  sh_magic :: u32
  sh_abi_version :: u16
  sh_header_bytes :: u16
  sh_session_id :: u64
  sh_placement_epoch :: u64
  sh_generation :: u64
  sh_sequence :: u64
  sh_wave :: u32
  sh_source_rank :: u32
  sh_source_region_id :: u32
  sh_ring_slot :: u16
  sh_flags :: u16
  sh_worker_count :: u32
  sh_token_count :: u32
  sh_assignment_count :: u32
  sh_hidden :: u32
  sh_dtype :: u32
  sh_token_record_bytes :: u32
  sh_assignment_record_bytes :: u32
  sh_reserved0 :: u32
  sh_tokens_offset :: u64
  sh_assignments_offset :: u64
  sh_hidden_offset :: u64
  sh_packet_bytes :: u64
  sh_metadata_digest :: u64

record TokenRecord =
  tok_token_id :: u64
  tok_source_token :: u32
  tok_assignment_begin :: u32
  tok_assignment_count :: u32
  tok_reserved0 :: u32
  tok_reserved1 :: u64

record AssignmentRecord =
  asg_destination_rank :: u32
  asg_expert_id :: u32
  asg_ordinal :: u32
  asg_weight :: u32

datatype JournalSlotState =
  FREE | DISPATCH_OPEN | DISPATCH_SEALED | COMBINE_ACTIVE | COMPLETE | ABORTED

record JournalSlotHeader =
  jh_magic :: u32
  jh_abi_version :: u16
  jh_struct_bytes :: u16
  jh_generation :: u64
  jh_sequence :: u64
  jh_dispatch_cookie :: u64
  jh_wave :: u32
  jh_ring_slot :: u16
  jh_state :: u16
  jh_token_count :: u32
  jh_contributor_count :: u32
  jh_status :: u32
  jh_flags :: u32
  jh_reserved :: u64

record JournalTokenEntry =
  jt_route_key :: u64
  jt_token_id :: u64
  jt_owner_rank :: u32
  jt_owner_row :: u32
  jt_contributors_begin :: u32
  jt_contributors_count :: u32
  jt_assignments_begin :: u32
  jt_assignments_count :: u32
  jt_accumulator_index :: u32
  jt_flags :: u32
  jt_reserved :: "u64 \<times> u64"

record JournalContributor =
  jc_worker_rank :: u32
  jc_destination_row :: u32
  jc_assignment_begin :: u32
  jc_assignment_count :: u32

record DestinationRow =
  dr_route_key :: u64
  dr_token_id :: u64
  dr_source_rank :: u32
  dr_source_token :: u32
  dr_destination_row :: u32
  dr_assignments_begin :: u32
  dr_assignments_count :: u32
  dr_reserved :: u32

record ExpertAssignment =
  ea_destination_row :: u32
  ea_expert_id :: u32
  ea_expert_row :: u32
  ea_ordinal :: u32
  ea_weight :: u32
  ea_reserved :: "u32 \<times> u32 \<times> u32"

definition RouteKey :: "u32 \<Rightarrow> u32 \<Rightarrow> u64" where
  "RouteKey owner_rank owner_row = push_bit 32 (ucast owner_rank) OR ucast owner_row"

section \<open>Default member initialisers\<close>

definition Ready_init :: Ready where
  "Ready_init = \<lparr> rdy_magic = kPullDispatchMagic, rdy_abi_version = kPullDispatchAbiVersion,
     rdy_struct_bytes = of_nat sizeof_Ready, rdy_session_id = 0, rdy_placement_epoch = 0,
     rdy_generation = 0, rdy_sequence = 0, rdy_wave = 0, rdy_source_rank = 0,
     rdy_source_region_id = 0, rdy_ring_slot = 0, rdy_flags = 0, rdy_publication = 0 \<rparr>"

definition SlotHeader_init :: SlotHeader where
  "SlotHeader_init = \<lparr> sh_magic = kPullDispatchMagic, sh_abi_version = kPullDispatchAbiVersion,
     sh_header_bytes = of_nat sizeof_SlotHeader, sh_session_id = 0, sh_placement_epoch = 0,
     sh_generation = 0, sh_sequence = 0, sh_wave = 0, sh_source_rank = 0,
     sh_source_region_id = 0, sh_ring_slot = 0, sh_flags = 0, sh_worker_count = 0,
     sh_token_count = 0, sh_assignment_count = 0, sh_hidden = 0, sh_dtype = BF16,
     sh_token_record_bytes = 0, sh_assignment_record_bytes = 0, sh_reserved0 = 0,
     sh_tokens_offset = 0, sh_assignments_offset = 0, sh_hidden_offset = 0,
     sh_packet_bytes = 0, sh_metadata_digest = 0 \<rparr>"

definition JournalSlotHeader_init :: JournalSlotHeader where
  "JournalSlotHeader_init = \<lparr> jh_magic = kPullDispatchMagic,
     jh_abi_version = kPullDispatchAbiVersion, jh_struct_bytes = of_nat sizeof_JournalSlotHeader,
     jh_generation = 0, jh_sequence = 0, jh_dispatch_cookie = 0, jh_wave = 0, jh_ring_slot = 0,
     jh_state = 0, jh_token_count = 0, jh_contributor_count = 0, jh_status = 0, jh_flags = 0,
     jh_reserved = 0 \<rparr>"

section \<open>Journal states\<close>

fun state_code :: "JournalSlotState \<Rightarrow> u16" where
  "state_code FREE = 0"
| "state_code DISPATCH_OPEN = 1"
| "state_code DISPATCH_SEALED = 2"
| "state_code COMBINE_ACTIVE = 3"
| "state_code COMPLETE = 4"
| "state_code ABORTED = 5"

text \<open>A stored state that is no enumerator is \<open>None\<close>: it matches no case of a switch.\<close>

definition state_of_code :: "u16 \<Rightarrow> JournalSlotState option" where
  "state_of_code c = (if c = 0 then Some FREE else if c = 1 then Some DISPATCH_OPEN
     else if c = 2 then Some DISPATCH_SEALED else if c = 3 then Some COMBINE_ACTIVE
     else if c = 4 then Some COMPLETE else if c = 5 then Some ABORTED else None)"

lemma state_of_state_code [simp]: "state_of_code (state_code s) = Some s"
  by (cases s) (simp_all add: state_of_code_def)

lemma state_code_of_state: "state_of_code c = Some s \<longleftrightarrow> c = state_code s"
proof
  assume "state_of_code c = Some s"
  then show "c = state_code s"
    unfolding state_of_code_def by (simp split: if_split_asm)
qed simp

lemma state_code_inject [simp]: "state_code s = state_code t \<longleftrightarrow> s = t"
  by (auto dest: arg_cong [where f = state_of_code])

fun ValidJournalTransition :: "JournalSlotState option \<Rightarrow> JournalSlotState \<Rightarrow> bool" where
  "ValidJournalTransition (Some FREE) to = (to = DISPATCH_OPEN)"
| "ValidJournalTransition (Some DISPATCH_OPEN) to = (to = DISPATCH_SEALED \<or> to = ABORTED)"
| "ValidJournalTransition (Some DISPATCH_SEALED) to = (to = COMBINE_ACTIVE \<or> to = ABORTED)"
| "ValidJournalTransition (Some COMBINE_ACTIVE) to = (to = COMPLETE \<or> to = ABORTED)"
| "ValidJournalTransition (Some COMPLETE) to = (to = FREE)"
| "ValidJournalTransition (Some ABORTED) to = (to = FREE)"
| "ValidJournalTransition None to = False"

section \<open>The hash\<close>

definition kHashOffset :: u64 where
  "kHashOffset = 1469598103934665603"

definition kHashPrime :: u64 where
  "kHashPrime = 1099511628211"

fun HashBytes :: "u64 \<Rightarrow> u8 list \<Rightarrow> u64" where
  "HashBytes hash [] = hash"
| "HashBytes hash (p # ps) = HashBytes ((hash XOR ucast p) * kHashPrime) ps"

lemma HashBytes_append: "HashBytes h (xs @ ys) = HashBytes (HashBytes h xs) ys"
  by (induction xs arbitrary: h) auto

section \<open>Byte images\<close>

definition ready_bytes :: "Ready \<Rightarrow> u8 list" where
  "ready_bytes r =
     le_bytes 4 (rdy_magic r) @ le_bytes 2 (rdy_abi_version r) @ le_bytes 2 (rdy_struct_bytes r) @
     le_bytes 8 (rdy_session_id r) @ le_bytes 8 (rdy_placement_epoch r) @
     le_bytes 8 (rdy_generation r) @ le_bytes 8 (rdy_sequence r) @
     le_bytes 4 (rdy_wave r) @ le_bytes 4 (rdy_source_rank r) @
     le_bytes 4 (rdy_source_region_id r) @ le_bytes 2 (rdy_ring_slot r) @
     le_bytes 2 (rdy_flags r) @ le_bytes 8 (rdy_publication r)"

definition slot_header_bytes :: "SlotHeader \<Rightarrow> u8 list" where
  "slot_header_bytes h =
     le_bytes 4 (sh_magic h) @ le_bytes 2 (sh_abi_version h) @ le_bytes 2 (sh_header_bytes h) @
     le_bytes 8 (sh_session_id h) @ le_bytes 8 (sh_placement_epoch h) @
     le_bytes 8 (sh_generation h) @ le_bytes 8 (sh_sequence h) @
     le_bytes 4 (sh_wave h) @ le_bytes 4 (sh_source_rank h) @ le_bytes 4 (sh_source_region_id h) @
     le_bytes 2 (sh_ring_slot h) @ le_bytes 2 (sh_flags h) @
     le_bytes 4 (sh_worker_count h) @ le_bytes 4 (sh_token_count h) @
     le_bytes 4 (sh_assignment_count h) @ le_bytes 4 (sh_hidden h) @ le_bytes 4 (sh_dtype h) @
     le_bytes 4 (sh_token_record_bytes h) @ le_bytes 4 (sh_assignment_record_bytes h) @
     le_bytes 4 (sh_reserved0 h) @ le_bytes 8 (sh_tokens_offset h) @
     le_bytes 8 (sh_assignments_offset h) @ le_bytes 8 (sh_hidden_offset h) @
     le_bytes 8 (sh_packet_bytes h) @ le_bytes 8 (sh_metadata_digest h)"

definition field_at :: "nat \<Rightarrow> nat \<Rightarrow> u8 list \<Rightarrow> 'a::len word" where
  "field_at off n bs = le_word (take n (drop off bs))"

definition slot_header_of :: "u8 list \<Rightarrow> SlotHeader" where
  "slot_header_of bs = \<lparr> sh_magic = field_at 0 4 bs, sh_abi_version = field_at 4 2 bs,
     sh_header_bytes = field_at 6 2 bs, sh_session_id = field_at 8 8 bs,
     sh_placement_epoch = field_at 16 8 bs, sh_generation = field_at 24 8 bs,
     sh_sequence = field_at 32 8 bs, sh_wave = field_at 40 4 bs,
     sh_source_rank = field_at 44 4 bs, sh_source_region_id = field_at 48 4 bs,
     sh_ring_slot = field_at 52 2 bs, sh_flags = field_at 54 2 bs,
     sh_worker_count = field_at 56 4 bs, sh_token_count = field_at 60 4 bs,
     sh_assignment_count = field_at 64 4 bs, sh_hidden = field_at 68 4 bs,
     sh_dtype = field_at 72 4 bs, sh_token_record_bytes = field_at 76 4 bs,
     sh_assignment_record_bytes = field_at 80 4 bs, sh_reserved0 = field_at 84 4 bs,
     sh_tokens_offset = field_at 88 8 bs, sh_assignments_offset = field_at 96 8 bs,
     sh_hidden_offset = field_at 104 8 bs, sh_packet_bytes = field_at 112 8 bs,
     sh_metadata_digest = field_at 120 8 bs \<rparr>"

definition token_bytes :: "TokenRecord \<Rightarrow> u8 list" where
  "token_bytes t = le_bytes 8 (tok_token_id t) @ le_bytes 4 (tok_source_token t) @
     le_bytes 4 (tok_assignment_begin t) @ le_bytes 4 (tok_assignment_count t) @
     le_bytes 4 (tok_reserved0 t) @ le_bytes 8 (tok_reserved1 t)"

definition token_of :: "u8 list \<Rightarrow> TokenRecord" where
  "token_of bs = \<lparr> tok_token_id = field_at 0 8 bs, tok_source_token = field_at 8 4 bs,
     tok_assignment_begin = field_at 12 4 bs, tok_assignment_count = field_at 16 4 bs,
     tok_reserved0 = field_at 20 4 bs, tok_reserved1 = field_at 24 8 bs \<rparr>"

definition assignment_bytes :: "AssignmentRecord \<Rightarrow> u8 list" where
  "assignment_bytes a = le_bytes 4 (asg_destination_rank a) @ le_bytes 4 (asg_expert_id a) @
     le_bytes 4 (asg_ordinal a) @ le_bytes 4 (asg_weight a)"

definition assignment_of :: "u8 list \<Rightarrow> AssignmentRecord" where
  "assignment_of bs = \<lparr> asg_destination_rank = field_at 0 4 bs, asg_expert_id = field_at 4 4 bs,
     asg_ordinal = field_at 8 4 bs, asg_weight = field_at 12 4 bs \<rparr>"

interpretation slot_header_codec: codec slot_header_bytes slot_header_of sizeof_SlotHeader
  by unfold_locales
    (simp_all add: slot_header_bytes_def slot_header_of_def sizeof_SlotHeader_def field_at_def
      le_word_le_bytes)

interpretation token_codec: codec token_bytes token_of sizeof_TokenRecord
  by unfold_locales
    (simp_all add: token_bytes_def token_of_def sizeof_TokenRecord_def field_at_def
      le_word_le_bytes)

interpretation assignment_codec: codec assignment_bytes assignment_of sizeof_AssignmentRecord
  by unfold_locales
    (simp_all add: assignment_bytes_def assignment_of_def sizeof_AssignmentRecord_def field_at_def
      le_word_le_bytes)

section \<open>Route keys\<close>

lemma RouteKey_rank: "drop_bit 32 (RouteKey r w) = ucast r"
  by (rule bit_word_eqI) (auto simp: RouteKey_def bit_simps dest: bit_imp_le_length)

lemma RouteKey_row: "ucast (RouteKey r w) = w"
  by (rule bit_word_eqI) (auto simp: RouteKey_def bit_simps)

lemma ucast_eq_iff_u32: "(ucast (a :: u32) :: u64) = ucast b \<longleftrightarrow> a = b"
  by (metis RouteKey_row RouteKey_rank RouteKey_def or.right_neutral push_bit_of_0 ucast_0
      or.left_neutral)

lemma RouteKey_inject: "RouteKey r w = RouteKey r' w' \<longleftrightarrow> r = r' \<and> w = w'"
proof
  assume eq: "RouteKey r w = RouteKey r' w'"
  then have "(ucast r :: u64) = ucast r'" by (metis RouteKey_rank)
  then have "r = r'" by (simp add: ucast_eq_iff_u32)
  moreover have "w = w'" using eq by (metis RouteKey_row)
  ultimately show "r = r' \<and> w = w'" by simp
qed simp

end
