(* ===== verification/Dispatch_Slot.thy ===== *)
theory Dispatch_Slot
  imports Dispatch_Abi "HOL-Library.Monad_Syntax"
begin

text \<open>
  The source side and the INC side of a dispatch slot (\<open>inc_dc_pull_dispatch_v2.cpp\<close>, first half):
  a worker builds the byte image of its slot and the READY record that announces it
  (\<open>BuildSlot\<close>), and the INC validates the registration, the READY record and the bytes it finds
  in the slot before it uses them (\<open>ParseReadyAndSlot\<close>). A buffer is the list of its bytes, and a
  read past its end is \<open>Oob\<close>. Out-parameters are returned, so the guards on null out-pointers have
  no counterpart; error texts are left out.
\<close>

section \<open>Model\<close>

datatype Status =
    OK | INVALID_ARGUMENT | INVALID_REGISTRATION | INVALID_READY | INVALID_HEADER | STALE_EPOCH
  | SIZE_OVERFLOW | CAPACITY_EXCEEDED | DIGEST_MISMATCH | INVALID_TOKEN | INVALID_ASSIGNMENT
  | DUPLICATE_SOURCE | INVALID_STATE_TRANSITION

record SessionConfig =
  ses_session_id :: u64
  ses_placement_epoch :: u64
  ses_worker_count :: u32
  ses_expert_count :: u32
  ses_hidden :: u32
  ses_dtype :: DataType
  ses_ring_slots :: u32

record SourceInput =
  in_session :: SessionConfig
  in_generation :: u64
  in_sequence :: u64
  in_wave :: u32
  in_source_rank :: u32
  in_source_region_id :: u32
  in_ring_slot :: u16
  in_token_ids :: "u64 list"
  in_assignment_offsets :: "u32 list"
  in_assignments :: "AssignmentRecord list"
  in_hidden_payload :: "u8 list"

record ParsedSource =
  ps_header :: SlotHeader
  ps_tokens :: "TokenRecord list"
  ps_assignments :: "AssignmentRecord list"
  ps_hidden_payload :: "u8 list"

definition DTypeBytes :: "DataType \<Rightarrow> u32" where
  "DTypeBytes dtype = (if dtype = FP16 \<or> dtype = BF16 then 2 else if dtype = FP32 then 4 else 0)"

definition SessionValid :: "SessionConfig \<Rightarrow> bool" where
  "SessionValid s \<longleftrightarrow> ses_session_id s \<noteq> 0 \<and> ses_placement_epoch s \<noteq> 0 \<and>
     ses_worker_count s \<ge> 2 \<and> ses_worker_count s \<le> kPullDispatchMaxWorkers \<and>
     ses_expert_count s \<noteq> 0 \<and> ses_hidden s \<noteq> 0 \<and> DTypeBytes (ses_dtype s) \<noteq> 0 \<and>
     ses_ring_slots s \<noteq> 0 \<and> ses_ring_slots s \<le> 65535"

definition AllZero :: "u64 list \<Rightarrow> bool" where
  "AllZero values \<longleftrightarrow> list_all (\<lambda>v. v = 0) values"

text \<open>\<open>std::isfinite\<close>: the eight exponent bits are not all set.\<close>

definition isfinite :: "u32 \<Rightarrow> bool" where
  "isfinite w \<longleftrightarrow> drop_bit 23 w AND 255 \<noteq> 255"

definition ReadyPublication :: "Ready \<Rightarrow> u64" where
  "ReadyPublication ready =
     (let canonical = ready\<lparr>rdy_publication := 0\<rparr>;
          hash = HashBytes kHashOffset (ready_bytes canonical)
      in if hash = 0 then 1 else hash)"

definition read_bytes :: "u8 list \<Rightarrow> nat \<Rightarrow> nat \<Rightarrow> ('e, u8 list) res" where
  "read_bytes slot off n =
     (if n = 0 then Inr [] else if off + n \<le> length slot then Inr (take n (drop off slot))
      else Inl Oob)"

definition MetadataDigest :: "SlotHeader \<Rightarrow> u8 list option \<Rightarrow> (Status, u64) res" where
  "MetadataDigest header slot =
     (case slot of None \<Rightarrow> Inr 0
      | Some bytes \<Rightarrow>
        (let canonical = header\<lparr>sh_metadata_digest := 0\<rparr>;
             hash = HashBytes kHashOffset (slot_header_bytes canonical)
         in rbind (read_bytes bytes (unat (sh_tokens_offset header))
                     (unat (sh_token_count header) * sizeof_TokenRecord))
              (\<lambda>tokens. rbind (read_bytes bytes (unat (sh_assignments_offset header))
                     (unat (sh_assignment_count header) * sizeof_AssignmentRecord))
                (\<lambda>assignments. Inr (HashBytes (HashBytes hash tokens) assignments)))))"

definition ValidateRegistration :: "RegionRegistration \<Rightarrow> SessionConfig \<Rightarrow> Status" where
  "ValidateRegistration r s =
     (if \<not> SessionValid s \<or> reg_session_id r \<noteq> ses_session_id s \<or>
         reg_placement_epoch r \<noteq> ses_placement_epoch s \<or>
         reg_source_rank r \<ge> ses_worker_count s \<or>
         reg_region_id r = 0 \<or> reg_slot_count r = 0 \<or>
         reg_slot_count r < ses_ring_slots s \<or>
         reg_alignment r < kPullDispatchAlignment \<or>
         reg_alignment r AND (reg_alignment r - 1) \<noteq> 0 \<or>
         reg_slot_stride r < of_nat sizeof_SlotHeader \<or>
         reg_slot_stride r mod ucast (reg_alignment r) \<noteq> 0 \<or>
         (case Mul (ucast (reg_slot_count r)) (reg_slot_stride r) of
            None \<Rightarrow> True | Some required \<Rightarrow> required > reg_region_bytes r) \<or>
         \<not> AllZero [fst (reg_reserved r), snd (reg_reserved r)]
      then INVALID_REGISTRATION else OK)"

subsection \<open>Building a slot\<close>

definition vslice :: "'a list \<Rightarrow> nat \<Rightarrow> nat \<Rightarrow> 'a list" where
  "vslice xs b e = take (e - b) (drop b xs)"

definition memcpy_at :: "nat \<Rightarrow> u8 list \<Rightarrow> u8 list \<Rightarrow> u8 list" where
  "memcpy_at off src dst = take off dst @ src @ drop (off + length src) dst"

definition source_input_ok :: "SourceInput \<Rightarrow> bool" where
  "source_input_ok i \<longleftrightarrow> SessionValid (in_session i) \<and> in_generation i \<noteq> 0 \<and> in_sequence i \<noteq> 0 \<and>
     in_source_rank i < ses_worker_count (in_session i) \<and> in_source_region_id i \<noteq> 0 \<and>
     ucast (in_ring_slot i) < ses_ring_slots (in_session i) \<and>
     int (length (in_token_ids i)) \<le> 2 ^ 32 - 1 \<and> int (length (in_assignments i)) \<le> 2 ^ 32 - 1 \<and>
     length (in_assignment_offsets i) = length (in_token_ids i) + 1 \<and>
     in_assignment_offsets i \<noteq> [] \<and> hd (in_assignment_offsets i) = 0 \<and>
     unat (last (in_assignment_offsets i)) = length (in_assignments i) \<and>
     sorted (in_assignment_offsets i)"

text \<open>The body of the loop over one token's assignments: flags for the ordinals and destinations
  seen, and whether every destination has come once only.\<close>

fun check_assignment ::
  "SessionConfig \<Rightarrow> nat \<Rightarrow> AssignmentRecord \<Rightarrow> bool list \<times> bool list \<times> bool \<Rightarrow>
     (Status, bool list \<times> bool list \<times> bool) res" where
  "check_assignment s n a (ordinals, destinations, uniform_destinations) =
     (if asg_destination_rank a \<ge> ses_worker_count s \<or> asg_expert_id a \<ge> ses_expert_count s \<or>
         \<not> isfinite (asg_weight a) \<or> unat (asg_ordinal a) \<ge> n \<or> ordinals ! unat (asg_ordinal a)
      then fail INVALID_ASSIGNMENT
      else Inr (ordinals[unat (asg_ordinal a) := True],
                destinations[unat (asg_destination_rank a) := True],
                (if destinations ! unat (asg_destination_rank a) then False
                 else uniform_destinations)))"

fun build_token ::
  "SourceInput \<Rightarrow> nat \<Rightarrow> bool \<times> bool list \<times> TokenRecord list \<Rightarrow>
     (Status, bool \<times> bool list \<times> TokenRecord list) res" where
  "build_token i token (uniform_destinations, reference_destinations, tokens) =
     (let b = in_assignment_offsets i ! token;
          e = in_assignment_offsets i ! (token + 1);
          n = unat (e - b)
      in rbind (mfold (check_assignment (in_session i) n)
                  (vslice (in_assignments i) (unat b) (unat e))
                  (replicate n False,
                   replicate (unat (ses_worker_count (in_session i))) False,
                   uniform_destinations))
           (\<lambda>(ordinals, destinations, uniform').
              Inr (if token = 0 then uniform' else if destinations \<noteq> reference_destinations
                      then False else uniform',
                   if token = 0 then destinations else reference_destinations,
                   tokens @ [\<lparr> tok_token_id = in_token_ids i ! token,
                      tok_source_token = of_nat token, tok_assignment_begin = b,
                      tok_assignment_count = e - b, tok_reserved0 = 0, tok_reserved1 = 0 \<rparr>])))"

text \<open>The offsets of the three areas of a slot and its length, or \<open>None\<close> on 64-bit overflow.\<close>

definition slot_offsets :: "u64 \<Rightarrow> u64 \<Rightarrow> u64 \<Rightarrow> (u64 \<times> u64 \<times> u64 \<times> u64) option" where
  "slot_offsets token_area assignment_area hidden_area =
     do {
       tokens_offset \<leftarrow> Align (of_nat sizeof_SlotHeader) (ucast kPullDispatchAlignment);
       end1 \<leftarrow> Add tokens_offset token_area;
       assignments_offset \<leftarrow> Align end1 (ucast kPullDispatchAlignment);
       end2 \<leftarrow> Add assignments_offset assignment_area;
       hidden_offset \<leftarrow> Align end2 (ucast kPullDispatchAlignment);
       end3 \<leftarrow> Add hidden_offset hidden_area;
       packet_bytes \<leftarrow> Align end3 (ucast kPullDispatchAlignment);
       Some (tokens_offset, assignments_offset, hidden_offset, packet_bytes)
     }"

definition built_offsets :: "nat \<Rightarrow> nat \<Rightarrow> u64 \<Rightarrow> (u64 \<times> u64 \<times> u64 \<times> u64) option" where
  "built_offsets token_count assignment_count hidden_bytes =
     do {
       token_area \<leftarrow> Mul (of_nat token_count) (of_nat sizeof_TokenRecord);
       assignment_area \<leftarrow> Mul (of_nat assignment_count) (of_nat sizeof_AssignmentRecord);
       slot_offsets token_area assignment_area hidden_bytes
     }"

definition hidden_size :: "u64 \<Rightarrow> u32 \<Rightarrow> DataType \<Rightarrow> u64 option" where
  "hidden_size token_count hidden dtype =
     do {
       hidden_elements \<leftarrow> Mul token_count (ucast hidden);
       Mul hidden_elements (ucast (DTypeBytes dtype))
     }"

definition built_header ::
  "SourceInput \<Rightarrow> nat \<Rightarrow> bool \<Rightarrow> u64 \<times> u64 \<times> u64 \<times> u64 \<Rightarrow> SlotHeader" where
  "built_header i token_count uniform_destinations offsets =
     (case offsets of (tokens_offset, assignments_offset, hidden_offset, packet_bytes) \<Rightarrow>
       SlotHeader_init\<lparr>
         sh_session_id := ses_session_id (in_session i),
         sh_placement_epoch := ses_placement_epoch (in_session i),
         sh_generation := in_generation i, sh_sequence := in_sequence i, sh_wave := in_wave i,
         sh_source_rank := in_source_rank i, sh_source_region_id := in_source_region_id i,
         sh_ring_slot := in_ring_slot i,
         sh_flags := (if uniform_destinations then kSlotFlagUniformDestinations else 0),
         sh_worker_count := ses_worker_count (in_session i),
         sh_token_count := of_nat token_count,
         sh_assignment_count := of_nat (length (in_assignments i)),
         sh_hidden := ses_hidden (in_session i), sh_dtype := ses_dtype (in_session i),
         sh_token_record_bytes := of_nat sizeof_TokenRecord,
         sh_assignment_record_bytes := of_nat sizeof_AssignmentRecord,
         sh_tokens_offset := tokens_offset, sh_assignments_offset := assignments_offset,
         sh_hidden_offset := hidden_offset, sh_packet_bytes := packet_bytes \<rparr>)"

definition fill_slot :: "SlotHeader \<Rightarrow> TokenRecord list \<Rightarrow> SourceInput \<Rightarrow> u8 list" where
  "fill_slot built tokens i =
     (let slot0 = replicate (unat (sh_packet_bytes built)) 0;
          slot1 = memcpy_at 0 (slot_header_bytes built) slot0;
          slot2 = (if tokens \<noteq> [] then memcpy_at (unat (sh_tokens_offset built))
                     (concat (map token_bytes tokens)) slot1 else slot1);
          slot3 = (if in_assignments i \<noteq> [] then memcpy_at (unat (sh_assignments_offset built))
                     (concat (map assignment_bytes (in_assignments i))) slot2 else slot2)
      in if in_hidden_payload i \<noteq> [] then memcpy_at (unat (sh_hidden_offset built))
           (in_hidden_payload i) slot3 else slot3)"

definition built_ready :: "SlotHeader \<Rightarrow> Ready" where
  "built_ready built =
     (let r = Ready_init\<lparr> rdy_session_id := sh_session_id built,
            rdy_placement_epoch := sh_placement_epoch built,
            rdy_generation := sh_generation built, rdy_sequence := sh_sequence built,
            rdy_wave := sh_wave built, rdy_source_rank := sh_source_rank built,
            rdy_source_region_id := sh_source_region_id built,
            rdy_ring_slot := sh_ring_slot built \<rparr>
      in r\<lparr>rdy_publication := ReadyPublication r\<rparr>)"

definition BuildSlot :: "SourceInput \<Rightarrow> (Status, u8 list \<times> SlotHeader \<times> Ready) res" where
  "BuildSlot i =
     (if \<not> source_input_ok i then fail INVALID_ARGUMENT
      else case hidden_size (of_nat (length (in_token_ids i))) (ses_hidden (in_session i))
                  (ses_dtype (in_session i)) of
        None \<Rightarrow> fail SIZE_OVERFLOW
      | Some hidden_bytes \<Rightarrow>
        if unat hidden_bytes \<noteq> length (in_hidden_payload i) then fail INVALID_ARGUMENT
        else rbind (mfold (build_token i) [0..<length (in_token_ids i)]
                     (True, replicate (unat (ses_worker_count (in_session i))) False, []))
          (\<lambda>(uniform_destinations, _, tokens).
            case built_offsets (length tokens) (length (in_assignments i)) hidden_bytes of
              None \<Rightarrow> fail SIZE_OVERFLOW
            | Some offsets \<Rightarrow>
              (let built = built_header i (length tokens) uniform_destinations offsets;
                   slot = fill_slot built tokens i
               in rbind (MetadataDigest built (Some slot))
                    (\<lambda>digest.
                       (let built = built\<lparr>sh_metadata_digest := digest\<rparr>
                        in Inr (memcpy_at 0 (slot_header_bytes built) slot, built,
                                built_ready built))))))"

subsection \<open>Parsing a slot\<close>

definition ready_accepted :: "RegionRegistration \<Rightarrow> SessionConfig \<Rightarrow> Ready \<Rightarrow> bool" where
  "ready_accepted reg s ready \<longleftrightarrow>
     rdy_magic ready = kPullDispatchMagic \<and> rdy_abi_version ready = kPullDispatchAbiVersion \<and>
     rdy_struct_bytes ready = of_nat sizeof_Ready \<and> rdy_flags ready = 0 \<and>
     rdy_session_id ready = ses_session_id s \<and> rdy_placement_epoch ready = ses_placement_epoch s \<and>
     rdy_source_rank ready = reg_source_rank reg \<and> rdy_source_region_id ready = reg_region_id reg \<and>
     ucast (rdy_ring_slot ready) < reg_slot_count reg \<and>
     ucast (rdy_ring_slot ready) < ses_ring_slots s \<and>
     rdy_generation ready \<noteq> 0 \<and> rdy_sequence ready \<noteq> 0 \<and>
     rdy_publication ready = ReadyPublication ready"

definition header_matches :: "SessionConfig \<Rightarrow> Ready \<Rightarrow> SlotHeader \<Rightarrow> bool" where
  "header_matches s ready h \<longleftrightarrow>
     sh_magic h = kPullDispatchMagic \<and> sh_abi_version h = kPullDispatchAbiVersion \<and>
     sh_header_bytes h = of_nat sizeof_SlotHeader \<and>
     sh_flags h AND NOT kSlotFlagUniformDestinations = 0 \<and>
     sh_session_id h = rdy_session_id ready \<and> sh_placement_epoch h = rdy_placement_epoch ready \<and>
     sh_generation h = rdy_generation ready \<and> sh_sequence h = rdy_sequence ready \<and>
     sh_wave h = rdy_wave ready \<and> sh_source_rank h = rdy_source_rank ready \<and>
     sh_source_region_id h = rdy_source_region_id ready \<and>
     sh_ring_slot h = rdy_ring_slot ready \<and> sh_worker_count h = ses_worker_count s \<and>
     sh_hidden h = ses_hidden s \<and> sh_dtype h = ses_dtype s \<and>
     sh_token_record_bytes h = of_nat sizeof_TokenRecord \<and>
     sh_assignment_record_bytes h = of_nat sizeof_AssignmentRecord \<and> sh_reserved0 h = 0"

definition parsed_offsets ::
  "SessionConfig \<Rightarrow> SlotHeader \<Rightarrow> (u64 \<times> u64 \<times> u64 \<times> (u64 \<times> u64 \<times> u64 \<times> u64)) option" where
  "parsed_offsets s h =
     do {
       token_area \<leftarrow> Mul (ucast (sh_token_count h)) (of_nat sizeof_TokenRecord);
       assignment_area \<leftarrow> Mul (ucast (sh_assignment_count h)) (of_nat sizeof_AssignmentRecord);
       hidden_area \<leftarrow> hidden_size (ucast (sh_token_count h)) (sh_hidden h) (ses_dtype s);
       offsets \<leftarrow> slot_offsets token_area assignment_area hidden_area;
       Some (token_area, assignment_area, hidden_area, offsets)
     }"

fun check_parsed_assignment ::
  "SessionConfig \<Rightarrow> TokenRecord \<Rightarrow> AssignmentRecord list \<Rightarrow> nat \<Rightarrow> bool list \<Rightarrow>
     (Status, bool list) res" where
  "check_parsed_assignment s record assignments local ordinals =
     rbind (vget assignments (unat (tok_assignment_begin record + of_nat local)))
       (\<lambda>a. if asg_destination_rank a \<ge> ses_worker_count s \<or> asg_expert_id a \<ge> ses_expert_count s \<or>
              \<not> isfinite (asg_weight a) \<or> asg_ordinal a \<ge> tok_assignment_count record
            then fail INVALID_ASSIGNMENT
            else rbind (vget ordinals (unat (asg_ordinal a)))
              (\<lambda>taken. if taken then fail INVALID_ASSIGNMENT
                       else vput ordinals (unat (asg_ordinal a)) True))"

definition check_parsed_token ::
  "SessionConfig \<Rightarrow> SlotHeader \<Rightarrow> TokenRecord list \<Rightarrow> AssignmentRecord list \<Rightarrow> nat \<Rightarrow> u32 \<Rightarrow>
     (Status, u32) res" where
  "check_parsed_token s h tokens assignments token expected_assignment =
     rbind (vget tokens token)
       (\<lambda>record.
          if tok_source_token record \<noteq> of_nat token \<or>
             tok_assignment_begin record \<noteq> expected_assignment \<or>
             tok_assignment_count record > sh_assignment_count h - expected_assignment \<or>
             tok_reserved0 record \<noteq> 0 \<or> tok_reserved1 record \<noteq> 0
          then fail INVALID_TOKEN
          else rbind (mfold (check_parsed_assignment s record assignments)
                        [0..<unat (tok_assignment_count record)]
                        (replicate (unat (tok_assignment_count record)) False))
                 (\<lambda>_. Inr (expected_assignment + tok_assignment_count record)))"

definition check_padding :: "u8 list \<Rightarrow> nat \<Rightarrow> unit \<Rightarrow> (Status, unit) res" where
  "check_padding slot offset _ =
     rbind (vget slot offset) (\<lambda>b. if b \<noteq> 0 then fail INVALID_HEADER else Inr ())"

definition read_source ::
  "u8 list \<Rightarrow> SlotHeader \<Rightarrow> u64 \<Rightarrow> u64 \<Rightarrow> u64 \<Rightarrow> (Status, ParsedSource) res" where
  "read_source slot h token_area assignment_area hidden_area =
     rbind (read_bytes slot (unat (sh_tokens_offset h)) (unat token_area))
       (\<lambda>tb. rbind (read_bytes slot (unat (sh_assignments_offset h)) (unat assignment_area))
         (\<lambda>ab. rbind (read_bytes slot (unat (sh_hidden_offset h)) (unat hidden_area))
           (\<lambda>hb. Inr \<lparr> ps_header = h,
                ps_tokens = decode_array token_of sizeof_TokenRecord (unat (sh_token_count h)) tb,
                ps_assignments = decode_array assignment_of sizeof_AssignmentRecord
                  (unat (sh_assignment_count h)) ab,
                ps_hidden_payload = hb \<rparr>)))"

definition parse_slot ::
  "SessionConfig \<Rightarrow> Ready \<Rightarrow> u8 list \<Rightarrow> u64 \<Rightarrow> (Status, ParsedSource) res" where
  "parse_slot s ready slot slot_capacity =
     rbind (read_bytes slot 0 sizeof_SlotHeader)
      (\<lambda>hb. let h = slot_header_of hb in
        if \<not> header_matches s ready h then fail INVALID_HEADER
        else case parsed_offsets s h of
          None \<Rightarrow> fail SIZE_OVERFLOW
        | Some (token_area, assignment_area, hidden_area,
                canonical_tokens, canonical_assignments, canonical_hidden, canonical_packet) \<Rightarrow>
          if sh_tokens_offset h \<noteq> canonical_tokens \<or>
             sh_assignments_offset h \<noteq> canonical_assignments \<or>
             sh_hidden_offset h \<noteq> canonical_hidden \<or> sh_packet_bytes h \<noteq> canonical_packet \<or>
             sh_packet_bytes h > slot_capacity
          then fail INVALID_HEADER
          else rbind (mfold (check_padding slot)
                  [unat (canonical_assignments + assignment_area)..<unat canonical_hidden] ())
            (\<lambda>_. rbind (MetadataDigest h (Some slot))
              (\<lambda>digest. if digest \<noteq> sh_metadata_digest h then fail DIGEST_MISMATCH
                else rbind (read_source slot h token_area assignment_area hidden_area)
                  (\<lambda>built. rbind (mfold (check_parsed_token s h (ps_tokens built)
                         (ps_assignments built)) [0..<unat (sh_token_count h)] 0)
                    (\<lambda>expected. if expected \<noteq> sh_assignment_count h then fail INVALID_TOKEN
                                else Inr built)))))"

definition ParseReadyAndSlot ::
  "RegionRegistration \<Rightarrow> SessionConfig \<Rightarrow> Ready \<Rightarrow> u8 list option \<Rightarrow> u64 \<Rightarrow>
     (Status, ParsedSource) res" where
  "ParseReadyAndSlot reg s ready slot slot_capacity =
     (case slot of
        None \<Rightarrow> fail INVALID_ARGUMENT
      | Some bytes \<Rightarrow>
        if ValidateRegistration reg s \<noteq> OK then fail INVALID_REGISTRATION
        else if \<not> ready_accepted reg s ready then fail INVALID_READY
        else if slot_capacity < of_nat sizeof_SlotHeader \<or> slot_capacity > reg_slot_stride reg
        then fail CAPACITY_EXCEEDED
        else parse_slot s ready bytes slot_capacity)"

fun StatusString :: "Status \<Rightarrow> string" where
  "StatusString OK = ''ok''"
| "StatusString INVALID_ARGUMENT = ''invalid_argument''"
| "StatusString INVALID_REGISTRATION = ''invalid_registration''"
| "StatusString INVALID_READY = ''invalid_ready''"
| "StatusString INVALID_HEADER = ''invalid_header''"
| "StatusString STALE_EPOCH = ''stale_epoch''"
| "StatusString SIZE_OVERFLOW = ''size_overflow''"
| "StatusString CAPACITY_EXCEEDED = ''capacity_exceeded''"
| "StatusString DIGEST_MISMATCH = ''digest_mismatch''"
| "StatusString INVALID_TOKEN = ''invalid_token''"
| "StatusString INVALID_ASSIGNMENT = ''invalid_assignment''"
| "StatusString DUPLICATE_SOURCE = ''duplicate_source''"
| "StatusString INVALID_STATE_TRANSITION = ''invalid_state_transition''"

section \<open>Well-formed assignments and token tables\<close>

text \<open>
  What both loops over a token's assignments accept, stated without their flags: ranks and experts
  in range, finite weights, and ordinals that are pairwise different and below the count.
\<close>

definition assignments_wf :: "SessionConfig \<Rightarrow> nat \<Rightarrow> AssignmentRecord list \<Rightarrow> bool" where
  "assignments_wf s n as \<longleftrightarrow>
     (\<forall>a \<in> set as. asg_destination_rank a < ses_worker_count s \<and>
        asg_expert_id a < ses_expert_count s \<and> isfinite (asg_weight a) \<and>
        unat (asg_ordinal a) < n) \<and>
     distinct (map asg_ordinal as)"

text \<open>
  The token table from token \<open>k\<close> on, when the assignments before position \<open>b\<close> are taken: every
  token owns the next run of assignments, and the last run ends where the assignments end.
\<close>

fun csr_wf :: "SessionConfig \<Rightarrow> AssignmentRecord list \<Rightarrow> nat \<Rightarrow> nat \<Rightarrow> TokenRecord list \<Rightarrow> bool" where
  "csr_wf s all k b [] = (b = length all)"
| "csr_wf s all k b (t # ts) =
     (tok_source_token t = of_nat k \<and> unat (tok_assignment_begin t) = b \<and>
      b + unat (tok_assignment_count t) \<le> length all \<and>
      tok_reserved0 t = 0 \<and> tok_reserved1 t = 0 \<and>
      assignments_wf s (unat (tok_assignment_count t))
        (vslice all b (b + unat (tok_assignment_count t))) \<and>
      csr_wf s all (Suc k) (b + unat (tok_assignment_count t)) ts)"

lemma assignments_wf_Nil [simp]: "assignments_wf s n []"
  by (simp add: assignments_wf_def)

lemma assignments_wf_Cons:
  "assignments_wf s n (a # as) \<longleftrightarrow>
     asg_destination_rank a < ses_worker_count s \<and> asg_expert_id a < ses_expert_count s \<and>
     isfinite (asg_weight a) \<and> unat (asg_ordinal a) < n \<and>
     asg_ordinal a \<notin> asg_ordinal ` set as \<and> assignments_wf s n as"
  by (auto simp: assignments_wf_def)

lemma check_assignments_iff:
  assumes "length ords = n"
  shows "(\<exists>r. mfold (check_assignment s n) as (ords, dests, u) = Inr r) \<longleftrightarrow>
     assignments_wf s n as \<and> (\<forall>a \<in> set as. \<not> ords ! unat (asg_ordinal a))"
  using assms
proof (induction as arbitrary: ords dests u)
  case Nil
  then show ?case by simp
next
  case (Cons a as)
  let ?o = "unat (asg_ordinal a)"
  let ?d = "unat (asg_destination_rank a)"
  have upd: "?o < n \<Longrightarrow> (\<forall>x \<in> set as. \<not> ords[?o := True] ! unat (asg_ordinal x)) \<longleftrightarrow>
      asg_ordinal a \<notin> asg_ordinal ` set as \<and> (\<forall>x \<in> set as. \<not> ords ! unat (asg_ordinal x))"
    using Cons.prems by (auto simp: nth_list_update word_unat_eq_iff)
  show ?case
    using Cons.IH [of "ords[?o := True]" "dests[?d := True]"
        "if dests ! ?d then False else u"] Cons.prems upd
    by (auto simp: assignments_wf_Cons not_le word_le_nat_alt word_less_nat_alt)
qed

lemma check_assignments_wf:
  "mfold (check_assignment s n) as (replicate n False, dests, u) = Inr r \<Longrightarrow> assignments_wf s n as"
  using check_assignments_iff [of "replicate n False" n s as dests u] by (metis length_replicate)

lemma vslice_Cons: "b < e \<Longrightarrow> e \<le> length xs \<Longrightarrow> vslice xs b e = xs ! b # vslice xs (Suc b) e"
  by (simp add: vslice_def Cons_nth_drop_Suc [symmetric] Suc_diff_Suc [symmetric])

lemma length_vslice [simp]: "e \<le> length xs \<Longrightarrow> length (vslice xs b e) = e - b"
  by (simp add: vslice_def)

lemma vslice_empty [simp]: "vslice xs b b = []"
  by (simp add: vslice_def)

declare check_parsed_assignment.simps [simp del]

lemma check_parsed_assignments_loop:
  assumes "m = n - k" and "length ords = n" and "k \<le> n"
    and "n = unat (tok_assignment_count rec)" and "b = unat (tok_assignment_begin rec)"
    and "b + n \<le> length all" and "length all < 2 ^ 32"
  shows "((\<exists>r. mfold (check_parsed_assignment s rec all) [k..<n] ords = Inr r) \<longleftrightarrow>
     assignments_wf s n (vslice all (b + k) (b + n)) \<and>
     (\<forall>a \<in> set (vslice all (b + k) (b + n)). \<not> ords ! unat (asg_ordinal a))) \<and>
     mfold (check_parsed_assignment s rec all) [k..<n] ords \<noteq> Inl Oob"
  using assms
proof (induction m arbitrary: k ords)
  case 0
  then show ?case by simp
next
  case (Suc m)
  then have k: "k < n" by simp
  have idx: "unat (tok_assignment_begin rec + of_nat k) = b + k"
    using k Suc.prems by (subst unat_add_of_nat) simp_all
  let ?a = "all ! (b + k)"
  let ?o = "unat (asg_ordinal ?a)"
  let ?rest = "vslice all (b + Suc k) (b + n)"
  have cons: "vslice all (b + k) (b + n) = ?a # ?rest"
    using k Suc.prems by (simp add: vslice_Cons)
  have up: "[k..<n] = k # [Suc k..<n]" using k by (simp add: upt_conv_Cons)
  have in_all: "b + k < length all" using k Suc.prems by simp
  have IH: "((\<exists>r. mfold (check_parsed_assignment s rec all) [Suc k..<n] (ords[?o := True]) = Inr r) \<longleftrightarrow>
     assignments_wf s n ?rest \<and> (\<forall>a \<in> set ?rest. \<not> ords[?o := True] ! unat (asg_ordinal a))) \<and>
     mfold (check_parsed_assignment s rec all) [Suc k..<n] (ords[?o := True]) \<noteq> Inl Oob"
    by (rule Suc.IH) (use Suc.prems k in auto)
  have upd: "?o < n \<Longrightarrow>
     (\<forall>x \<in> set ?rest. \<not> ords[?o := True] ! unat (asg_ordinal x)) \<longleftrightarrow>
     asg_ordinal ?a \<notin> asg_ordinal ` set ?rest \<and> (\<forall>x \<in> set ?rest. \<not> ords ! unat (asg_ordinal x))"
    using Suc.prems by (auto simp: nth_list_update word_unat_eq_iff)
  have body: "check_parsed_assignment s rec all k ords =
     (if asg_destination_rank ?a < ses_worker_count s \<and> asg_expert_id ?a < ses_expert_count s \<and>
         isfinite (asg_weight ?a) \<and> ?o < n \<and> \<not> ords ! ?o
      then Inr (ords[?o := True]) else fail INVALID_ASSIGNMENT)"
    using Suc.prems in_all
    by (auto simp: check_parsed_assignment.simps idx not_le word_le_nat_alt word_less_nat_alt)
  show ?case using IH upd by (auto simp: up cons body assignments_wf_Cons)
qed

lemma check_parsed_assignments_iff:
  assumes "unat (tok_assignment_begin rec) + unat (tok_assignment_count rec) \<le> length all"
    and "length all < 2 ^ 32"
  shows "(\<exists>r. mfold (check_parsed_assignment s rec all) [0..<unat (tok_assignment_count rec)]
       (replicate (unat (tok_assignment_count rec)) False) = Inr r) \<longleftrightarrow>
     assignments_wf s (unat (tok_assignment_count rec))
       (vslice all (unat (tok_assignment_begin rec))
          (unat (tok_assignment_begin rec) + unat (tok_assignment_count rec)))"
    and "mfold (check_parsed_assignment s rec all) [0..<unat (tok_assignment_count rec)]
       (replicate (unat (tok_assignment_count rec)) False) \<noteq> Inl Oob"
  using check_parsed_assignments_loop [OF refl _ _ refl refl assms,
      of "replicate (unat (tok_assignment_count rec)) False" 0 s]
  by (auto simp: assignments_wf_def)

lemma check_parsed_tokens_loop:
  assumes "tokens = pre @ ts" and "k = length pre" and "unat e \<le> length all"
    and "length all = unat (sh_assignment_count h)"
  shows "(mfold (check_parsed_token s h tokens all) [k..<length tokens] e =
       Inr (sh_assignment_count h) \<longleftrightarrow> csr_wf s all k (unat e) ts) \<and>
     mfold (check_parsed_token s h tokens all) [k..<length tokens] e \<noteq> Inl Oob"
  using assms
proof (induction ts arbitrary: pre k e)
  case Nil
  then show ?case by (auto simp: word_unat_eq_iff)
next
  case (Cons t ts)
  have lt: "length all < 2 ^ 32"
    using Cons.prems(4) unsigned_less [of "sh_assignment_count h", where ?'a = nat] by simp
  have up: "[k..<length tokens] = k # [Suc k..<length tokens]"
    by (rule upt_conv_Cons) (use Cons.prems in simp)
  have tk: "vget tokens k = Inr t" using Cons.prems by (simp add: vget_def)
  have sub: "unat (sh_assignment_count h - e) = length all - unat e"
    using Cons.prems by (simp add: unat_sub word_le_nat_alt)
  let ?n = "unat (tok_assignment_count t)"
  let ?ok = "tok_source_token t = of_nat k \<and> tok_assignment_begin t = e \<and>
      unat e + ?n \<le> length all \<and> tok_reserved0 t = 0 \<and> tok_reserved1 t = 0"
  let ?wf = "assignments_wf s ?n (vslice all (unat e) (unat e + ?n))"
  have cond: "tok_assignment_count t > sh_assignment_count h - e \<longleftrightarrow> \<not> unat e + ?n \<le> length all"
    using Cons.prems(3) by (auto simp: word_less_nat_alt sub)
  show ?case
  proof (cases ?ok)
    case False
    then have "check_parsed_token s h tokens all k e = fail INVALID_TOKEN"
      by (auto simp: check_parsed_token_def tk cond)
    then show ?thesis using False by (auto simp: up word_unat_eq_iff)
  next
    case True
    have add: "unat (e + tok_assignment_count t) = unat e + ?n"
      using True lt by (subst unat_add_lem [THEN iffD1]) auto
    have IH: "(mfold (check_parsed_token s h tokens all) [Suc k..<length tokens]
         (e + tok_assignment_count t) = Inr (sh_assignment_count h) \<longleftrightarrow>
         csr_wf s all (Suc k) (unat e + ?n) ts) \<and>
       mfold (check_parsed_token s h tokens all) [Suc k..<length tokens]
         (e + tok_assignment_count t) \<noteq> Inl Oob"
      using Cons.IH [of "pre @ [t]" "Suc k" "e + tok_assignment_count t"] Cons.prems True add
      by simp
    let ?inner = "mfold (check_parsed_assignment s t all) [0..<?n] (replicate ?n False)"
    have inner: "(\<exists>r. ?inner = Inr r) \<longleftrightarrow> ?wf" "?inner \<noteq> Inl Oob"
      using check_parsed_assignments_iff [of t all s] True lt by auto
    have "check_parsed_token s h tokens all k e =
        rbind ?inner (\<lambda>_. Inr (e + tok_assignment_count t))"
      using True by (auto simp: check_parsed_token_def tk cond)
    then show ?thesis using IH inner True by (cases ?inner) (auto simp: up)
  qed
qed

lemma check_parsed_tokens_iff:
  assumes "length all = unat (sh_assignment_count h)" and "length tokens = unat (sh_token_count h)"
  shows "mfold (check_parsed_token s h tokens all) [0..<unat (sh_token_count h)] 0 =
       Inr (sh_assignment_count h) \<longleftrightarrow> csr_wf s all 0 0 tokens"
    and "mfold (check_parsed_token s h tokens all) [0..<unat (sh_token_count h)] 0 \<noteq> Inl Oob"
  using check_parsed_tokens_loop [of tokens "[]" tokens 0 0 all h s] assms by simp_all

lemma csr_wf_sum:
  "csr_wf s all k b ts \<Longrightarrow> b + sum_list (map (unat \<circ> tok_assignment_count) ts) = length all"
  by (induction ts arbitrary: k b) fastforce+

lemma csr_wf_nth:
  assumes "csr_wf s all k b ts" and "t < length ts"
  shows "tok_source_token (ts ! t) = of_nat (k + t)"
    and "unat (tok_assignment_begin (ts ! t)) =
      b + sum_list (map (unat \<circ> tok_assignment_count) (take t ts))"
    and "unat (tok_assignment_begin (ts ! t)) + unat (tok_assignment_count (ts ! t)) \<le> length all"
    and "assignments_wf s (unat (tok_assignment_count (ts ! t)))
      (vslice all (unat (tok_assignment_begin (ts ! t)))
        (unat (tok_assignment_begin (ts ! t)) + unat (tok_assignment_count (ts ! t))))"
proof -
  have "tok_source_token (ts ! t) = of_nat (k + t) \<and>
    unat (tok_assignment_begin (ts ! t)) =
      b + sum_list (map (unat \<circ> tok_assignment_count) (take t ts)) \<and>
    unat (tok_assignment_begin (ts ! t)) + unat (tok_assignment_count (ts ! t)) \<le> length all \<and>
    assignments_wf s (unat (tok_assignment_count (ts ! t)))
      (vslice all (unat (tok_assignment_begin (ts ! t)))
        (unat (tok_assignment_begin (ts ! t)) + unat (tok_assignment_count (ts ! t))))"
    using assms
  proof (induction ts arbitrary: k b t)
    case Nil
    then show ?case by simp
  next
    case (Cons r ts)
    show ?case
    proof (cases t)
      case 0
      then show ?thesis using Cons.prems by simp
    next
      case (Suc u)
      then show ?thesis
        using Cons.IH [of "Suc k" "b + unat (tok_assignment_count r)" u] Cons.prems by auto
    qed
  qed
  then show "tok_source_token (ts ! t) = of_nat (k + t)"
    "unat (tok_assignment_begin (ts ! t)) =
      b + sum_list (map (unat \<circ> tok_assignment_count) (take t ts))"
    "unat (tok_assignment_begin (ts ! t)) + unat (tok_assignment_count (ts ! t)) \<le> length all"
    "assignments_wf s (unat (tok_assignment_count (ts ! t)))
      (vslice all (unat (tok_assignment_begin (ts ! t)))
        (unat (tok_assignment_begin (ts ! t)) + unat (tok_assignment_count (ts ! t))))" by blast+
qed

text \<open>Different ordinals below the number of assignments are all of them, each once.\<close>

lemma assignments_wf_ordinals:
  assumes "assignments_wf s (length as) as"
  shows "set (map (unat \<circ> asg_ordinal) as) = {0..<length as}"
proof (rule card_subset_eq)
  have "distinct (map (unat \<circ> asg_ordinal) as)"
    using assms by (auto simp: assignments_wf_def distinct_map inj_on_def word_unat_eq_iff)
  then show "card (set (map (unat \<circ> asg_ordinal) as)) = card {0..<length as}"
    by (simp add: distinct_card del: set_map)
qed (use assms in \<open>auto simp: assignments_wf_def\<close>)

section \<open>The areas of a slot\<close>

lemma slot_offsets_bounds:
  assumes "slot_offsets ta aa ha = Some (t, a, d, p)"
  shows "unat t = sizeof_SlotHeader" and "unat t + unat ta \<le> unat a"
    and "unat a + unat aa \<le> unat d" and "unat d + unat ha \<le> unat p"
    and "unat (a + aa) = unat a + unat aa"
proof -
  from assms obtain e1 e2 e3 where
    t: "Align (of_nat sizeof_SlotHeader) (ucast kPullDispatchAlignment) = Some t"
    and e1: "Add t ta = Some e1" and a: "Align e1 (ucast kPullDispatchAlignment) = Some a"
    and e2: "Add a aa = Some e2" and d: "Align e2 (ucast kPullDispatchAlignment) = Some d"
    and e3: "Add d ha = Some e3" and p: "Align e3 (ucast kPullDispatchAlignment) = Some p"
    by (auto simp: slot_offsets_def bind_eq_Some_conv)
  show "unat t = sizeof_SlotHeader"
    using Align_unat [OF t] by (simp add: abi_consts)
  show "unat t + unat ta \<le> unat a" using Add_unat [OF e1] Align_bounds(1) [OF a] by simp
  show "unat a + unat aa \<le> unat d" using Add_unat [OF e2] Align_bounds(1) [OF d] by simp
  show "unat d + unat ha \<le> unat p" using Add_unat [OF e3] Align_bounds(1) [OF p] by simp
  show "unat (a + aa) = unat a + unat aa" using Add_unat [OF e2] e2 by (auto simp: Add_eq_Some)
qed

lemma parsed_offsets_eq:
  "parsed_offsets s h = Some (ta, aa, ha, offsets) \<longleftrightarrow>
     ta = ucast (sh_token_count h) * of_nat sizeof_TokenRecord \<and>
     aa = ucast (sh_assignment_count h) * of_nat sizeof_AssignmentRecord \<and>
     hidden_size (ucast (sh_token_count h)) (sh_hidden h) (ses_dtype s) = Some ha \<and>
     slot_offsets ta aa ha = Some offsets"
proof -
  have "unat (ucast w :: u64) * 32 < 2 ^ 64" "unat (ucast w :: u64) * 16 < 2 ^ 64" for w :: u32
    using unsigned_less [of w, where ?'a = nat] by (simp_all add: unat_ucast_u64)
  then have "Mul (ucast w) 32 = Some (ucast w * 32)" "Mul (ucast w) 16 = Some (ucast w * 16)"
    for w :: u32 by (simp_all add: Mul_eq_Some)
  then show ?thesis
    by (cases offsets) (auto simp: parsed_offsets_def bind_eq_Some_conv abi_consts)
qed

lemma area_sizes:
  "unat (ucast (w :: u32) * of_nat sizeof_TokenRecord :: u64) = unat w * sizeof_TokenRecord"
  "unat (ucast w * of_nat sizeof_AssignmentRecord :: u64) = unat w * sizeof_AssignmentRecord"
  using unsigned_less [of w, where ?'a = nat]
  by (simp_all add: abi_consts unat_word_ariths unat_ucast_u64)

section \<open>What the parser accepts\<close>

lemma read_bytes_in:
  "off + n \<le> length slot \<Longrightarrow> read_bytes slot off n = Inr (take n (drop off slot))"
  by (simp add: read_bytes_def)

lemma check_padding_loop:
  assumes "y \<le> length slot"
  shows "mfold (check_padding slot) [x..<y] () =
     (if \<forall>off \<in> {x..<y}. slot ! off = 0 then Inr () else fail INVALID_HEADER)"
  using assms
proof (induction "y - x" arbitrary: x)
  case 0
  then show ?case by simp
next
  case (Suc m)
  then have x: "x < y" by simp
  have "{x..<y} = insert x {Suc x..<y}" using x by auto
  then show ?case
    using x Suc.hyps(1) [of "Suc x"] Suc.hyps(2) Suc.prems
    by (simp add: upt_conv_Cons check_padding_def)
qed

text \<open>The source a slot describes under a header, read from its three areas.\<close>

definition slot_source :: "u8 list \<Rightarrow> SlotHeader \<Rightarrow> nat \<Rightarrow> ParsedSource" where
  "slot_source slot h hidden_area = \<lparr> ps_header = h,
     ps_tokens = decode_array token_of sizeof_TokenRecord (unat (sh_token_count h))
       (take (unat (sh_token_count h) * sizeof_TokenRecord)
          (drop (unat (sh_tokens_offset h)) slot)),
     ps_assignments = decode_array assignment_of sizeof_AssignmentRecord
       (unat (sh_assignment_count h))
       (take (unat (sh_assignment_count h) * sizeof_AssignmentRecord)
          (drop (unat (sh_assignments_offset h)) slot)),
     ps_hidden_payload = take hidden_area (drop (unat (sh_hidden_offset h)) slot) \<rparr>"

definition slot_digest :: "u8 list \<Rightarrow> SlotHeader \<Rightarrow> u64" where
  "slot_digest slot h =
     HashBytes (HashBytes (HashBytes kHashOffset (slot_header_bytes (h\<lparr>sh_metadata_digest := 0\<rparr>)))
       (take (unat (sh_token_count h) * sizeof_TokenRecord)
          (drop (unat (sh_tokens_offset h)) slot)))
       (take (unat (sh_assignment_count h) * sizeof_AssignmentRecord)
          (drop (unat (sh_assignments_offset h)) slot))"

text \<open>The canonical geometry of a slot: where the header puts its areas, and that they fit.\<close>

definition canonical_header :: "SessionConfig \<Rightarrow> SlotHeader \<Rightarrow> u64 \<Rightarrow> bool" where
  "canonical_header s h ha \<longleftrightarrow>
     hidden_size (ucast (sh_token_count h)) (sh_hidden h) (ses_dtype s) = Some ha \<and>
     slot_offsets (ucast (sh_token_count h) * of_nat sizeof_TokenRecord)
       (ucast (sh_assignment_count h) * of_nat sizeof_AssignmentRecord) ha =
     Some (sh_tokens_offset h, sh_assignments_offset h, sh_hidden_offset h, sh_packet_bytes h)"

lemma canonical_header_areas:
  assumes "canonical_header s h ha"
  shows "unat (sh_tokens_offset h) = sizeof_SlotHeader"
    and "unat (sh_tokens_offset h) + unat (sh_token_count h) * sizeof_TokenRecord
           \<le> unat (sh_assignments_offset h)"
    and "unat (sh_assignments_offset h) + unat (sh_assignment_count h) * sizeof_AssignmentRecord
           \<le> unat (sh_hidden_offset h)"
    and "unat (sh_hidden_offset h) + unat ha \<le> unat (sh_packet_bytes h)"
    and "unat (sh_assignments_offset h +
             ucast (sh_assignment_count h) * of_nat sizeof_AssignmentRecord) =
           unat (sh_assignments_offset h) + unat (sh_assignment_count h) * sizeof_AssignmentRecord"
  using slot_offsets_bounds [of "ucast (sh_token_count h) * of_nat sizeof_TokenRecord"
      "ucast (sh_assignment_count h) * of_nat sizeof_AssignmentRecord" ha] assms
  by (auto simp: canonical_header_def area_sizes)

lemma MetadataDigest_in:
  assumes "canonical_header s h ha" and "unat (sh_packet_bytes h) \<le> length slot"
  shows "MetadataDigest h (Some slot) = Inr (slot_digest slot h)"
  using canonical_header_areas [OF assms(1)] assms(2)
  by (simp add: MetadataDigest_def slot_digest_def read_bytes_in)

lemma read_source_in:
  assumes "canonical_header s h ha" and "unat (sh_packet_bytes h) \<le> length slot"
  shows "read_source slot h (ucast (sh_token_count h) * of_nat sizeof_TokenRecord)
     (ucast (sh_assignment_count h) * of_nat sizeof_AssignmentRecord) ha =
     Inr (slot_source slot h (unat ha))"
  using canonical_header_areas [OF assms(1)] assms(2)
  by (simp add: read_source_def slot_source_def read_bytes_in area_sizes)

definition padding_zero :: "u8 list \<Rightarrow> SlotHeader \<Rightarrow> bool" where
  "padding_zero slot h \<longleftrightarrow>
     (\<forall>off \<in> {unat (sh_assignments_offset h) +
          unat (sh_assignment_count h) * sizeof_AssignmentRecord..<unat (sh_hidden_offset h)}.
       slot ! off = 0)"

lemma parse_slot_canonical:
  assumes "sizeof_SlotHeader \<le> length slot" and "unat cap \<le> length slot"
    and h: "h = slot_header_of (take sizeof_SlotHeader slot)"
    and "header_matches s ready h" and can: "canonical_header s h ha" and fit: "sh_packet_bytes h \<le> cap"
    and p: "p = slot_source slot h (unat ha)"
  shows "parse_slot s ready slot cap =
     (if \<not> padding_zero slot h then fail INVALID_HEADER
      else if slot_digest slot h \<noteq> sh_metadata_digest h then fail DIGEST_MISMATCH
      else rbind (mfold (check_parsed_token s h (ps_tokens p) (ps_assignments p))
                   [0..<unat (sh_token_count h)] 0)
             (\<lambda>expected. if expected \<noteq> sh_assignment_count h then fail INVALID_TOKEN else Inr p))"
proof -
  have hb: "read_bytes slot 0 sizeof_SlotHeader = Inr (take sizeof_SlotHeader slot)"
    using assms(1) by (simp add: read_bytes_in)
  have off: "parsed_offsets s h = Some (ucast (sh_token_count h) * of_nat sizeof_TokenRecord,
      ucast (sh_assignment_count h) * of_nat sizeof_AssignmentRecord, ha,
      sh_tokens_offset h, sh_assignments_offset h, sh_hidden_offset h, sh_packet_bytes h)"
    using can by (simp add: parsed_offsets_eq canonical_header_def)
  have room: "unat (sh_packet_bytes h) \<le> length slot"
    using fit assms(2) by (simp add: word_le_nat_alt)
  note areas = canonical_header_areas [OF can]
  have hid: "unat (sh_hidden_offset h) \<le> length slot" using areas room by linarith
  have "\<not> cap < sh_packet_bytes h" using fit by simp
  then show ?thesis
    using assms(4) areas(5)
    by (simp add: parse_slot_def hb h [symmetric] Let_def off check_padding_loop [OF hid]
        padding_zero_def [symmetric] MetadataDigest_in [OF can room] read_source_in [OF can room]
        p [symmetric])
qed

lemma parse_slot_rejects:
  assumes "sizeof_SlotHeader \<le> length slot"
    and h: "h = slot_header_of (take sizeof_SlotHeader slot)"
    and bad: "\<not> (header_matches s ready h \<and> (\<exists>ha. canonical_header s h ha) \<and>
      sh_packet_bytes h \<le> cap)"
  shows "\<exists>e. parse_slot s ready slot cap = fail e"
proof -
  have hb: "read_bytes slot 0 sizeof_SlotHeader = Inr (take sizeof_SlotHeader slot)"
    using assms(1) by (simp add: read_bytes_in)
  show ?thesis
  proof (cases "header_matches s ready h")
    case False
    then show ?thesis by (auto simp: parse_slot_def hb h [symmetric] Let_def)
  next
    case True
    show ?thesis
    proof (cases "parsed_offsets s h")
      case None
      then show ?thesis using True by (auto simp: parse_slot_def hb h [symmetric] Let_def)
    next
      case (Some r)
      obtain ta aa ha t a d pk where r: "r = (ta, aa, ha, t, a, d, pk)" by (cases r)
      have "\<not> (sh_tokens_offset h = t \<and> sh_assignments_offset h = a \<and> sh_hidden_offset h = d \<and>
          sh_packet_bytes h = pk \<and> sh_packet_bytes h \<le> cap)"
        using bad True Some [unfolded r] by (auto simp: parsed_offsets_eq canonical_header_def)
      then show ?thesis using True Some [unfolded r]
        by (auto simp: parse_slot_def hb h [symmetric] Let_def not_le)
    qed
  qed
qed

text \<open>
  The parser as a decision: on a buffer that holds the announced capacity it never reads outside
  it, and it returns the source of the slot exactly when the header matches, the geometry is
  canonical, the padding is zero, the digest is right and the token table is well formed.
\<close>

lemma parse_slot_cases:
  assumes "sizeof_SlotHeader \<le> length slot" and "unat cap \<le> length slot"
    and h: "h = slot_header_of (take sizeof_SlotHeader slot)"
  shows "parse_slot s ready slot cap \<noteq> Inl Oob"
    and "parse_slot s ready slot cap = Inr p \<longleftrightarrow>
      header_matches s ready h \<and> (\<exists>ha. canonical_header s h ha \<and> sh_packet_bytes h \<le> cap \<and>
        padding_zero slot h \<and> slot_digest slot h = sh_metadata_digest h \<and>
        p = slot_source slot h (unat ha) \<and> csr_wf s (ps_assignments p) 0 0 (ps_tokens p))"
      (is "_ \<longleftrightarrow> ?accept")
proof -
  have "parse_slot s ready slot cap \<noteq> Inl Oob \<and> (parse_slot s ready slot cap = Inr p \<longleftrightarrow> ?accept)"
  proof (cases "header_matches s ready h \<and> (\<exists>ha. canonical_header s h ha) \<and>
      sh_packet_bytes h \<le> cap")
    case False
    then obtain e where "parse_slot s ready slot cap = fail e"
      using parse_slot_rejects [OF assms(1) h] by blast
    then show ?thesis using False by auto
  next
    case True
    then obtain ha where can: "canonical_header s h ha" by blast
    let ?p = "slot_source slot h (unat ha)"
    note eq = parse_slot_canonical [OF assms(1,2) h _ can _ refl]
    note loop = check_parsed_tokens_iff [of "ps_assignments ?p" h "ps_tokens ?p" s]
    have uniq: "canonical_header s h ha' \<longleftrightarrow> ha' = ha" for ha'
      using can by (auto simp: canonical_header_def)
    show ?thesis
      using True eq loop uniq
      by (cases "mfold (check_parsed_token s h (ps_tokens ?p) (ps_assignments ?p))
            [0..<unat (sh_token_count h)] 0") (auto simp: slot_source_def)
  qed
  then show "parse_slot s ready slot cap \<noteq> Inl Oob"
    and "parse_slot s ready slot cap = Inr p \<longleftrightarrow> ?accept" by blast+
qed

section \<open>What the builder produces\<close>

definition built_tok :: "SourceInput \<Rightarrow> nat \<Rightarrow> TokenRecord" where
  "built_tok i t = \<lparr> tok_token_id = in_token_ids i ! t, tok_source_token = of_nat t,
     tok_assignment_begin = in_assignment_offsets i ! t,
     tok_assignment_count = in_assignment_offsets i ! (t + 1) - in_assignment_offsets i ! t,
     tok_reserved0 = 0, tok_reserved1 = 0 \<rparr>"

lemma source_offsets:
  assumes "source_input_ok i"
  shows "t \<le> t' \<Longrightarrow> t' \<le> length (in_token_ids i) \<Longrightarrow>
      in_assignment_offsets i ! t \<le> in_assignment_offsets i ! t'"
    and "in_assignment_offsets i ! 0 = 0"
    and "unat (in_assignment_offsets i ! length (in_token_ids i)) = length (in_assignments i)"
  using assms by (auto simp: source_input_ok_def sorted_iff_nth_mono hd_conv_nth last_conv_nth)

lemma built_tokens:
  assumes "source_input_ok i"
    and "mfold (build_token i) [0..<length (in_token_ids i)] (True, ref, []) =
      Inr (uniform, ref', tokens)"
  shows "tokens = map (built_tok i) [0..<length (in_token_ids i)]"
    and "t < length (in_token_ids i) \<Longrightarrow>
      assignments_wf (in_session i) (unat (tok_assignment_count (built_tok i t)))
        (vslice (in_assignments i) (unat (in_assignment_offsets i ! t))
          (unat (in_assignment_offsets i ! (t + 1))))"
proof -
  let ?P = "\<lambda>ts (st :: bool \<times> bool list \<times> TokenRecord list).
     snd (snd st) = map (built_tok i) ts \<and>
     (\<forall>t \<in> set ts. assignments_wf (in_session i) (unat (tok_assignment_count (built_tok i t)))
        (vslice (in_assignments i) (unat (in_assignment_offsets i ! t))
          (unat (in_assignment_offsets i ! (t + 1)))))"
  have "?P [0..<length (in_token_ids i)] (uniform, ref', tokens)"
  proof (rule mfold_invariant [OF assms(2)])
    fix ys t zs u v
    assume P: "?P ys u" and step: "build_token i t u = Inr v"
    obtain a b c where u: "u = (a, b, c)" by (cases u)
    from step obtain r where r: "mfold (check_assignment (in_session i)
        (unat (in_assignment_offsets i ! (t + 1) - in_assignment_offsets i ! t)))
        (vslice (in_assignments i) (unat (in_assignment_offsets i ! t))
          (unat (in_assignment_offsets i ! (t + 1))))
        (replicate (unat (in_assignment_offsets i ! (t + 1) - in_assignment_offsets i ! t)) False,
         replicate (unat (ses_worker_count (in_session i))) False, a) = Inr r"
      and v: "snd (snd v) = c @ [built_tok i t]"
      by (auto simp: u Let_def vec_eqs built_tok_def split: prod.splits)
    have "assignments_wf (in_session i) (unat (tok_assignment_count (built_tok i t)))
        (vslice (in_assignments i) (unat (in_assignment_offsets i ! t))
          (unat (in_assignment_offsets i ! (t + 1))))"
      using check_assignments_wf [OF r] by (simp add: built_tok_def)
    with P v show "?P (ys @ [t]) v" by (simp add: u)
  qed simp
  then show "tokens = map (built_tok i) [0..<length (in_token_ids i)]"
    and "t < length (in_token_ids i) \<Longrightarrow>
      assignments_wf (in_session i) (unat (tok_assignment_count (built_tok i t)))
        (vslice (in_assignments i) (unat (in_assignment_offsets i ! t))
          (unat (in_assignment_offsets i ! (t + 1))))" by simp_all
qed

lemma built_csr_wf:
  assumes "source_input_ok i" and "k \<le> length (in_token_ids i)"
    and "\<And>t. t < length (in_token_ids i) \<Longrightarrow>
      assignments_wf (in_session i) (unat (tok_assignment_count (built_tok i t)))
        (vslice (in_assignments i) (unat (in_assignment_offsets i ! t))
          (unat (in_assignment_offsets i ! (t + 1))))"
  shows "csr_wf (in_session i) (in_assignments i) k (unat (in_assignment_offsets i ! k))
     (map (built_tok i) [k..<length (in_token_ids i)])"
  using assms(2)
proof (induction "length (in_token_ids i) - k" arbitrary: k)
  case 0
  then show ?case using source_offsets(3) [OF assms(1)] by simp
next
  case (Suc m)
  then have k: "k < length (in_token_ids i)" by simp
  let ?b = "in_assignment_offsets i ! k" and ?e = "in_assignment_offsets i ! (k + 1)"
  have le: "?b \<le> ?e" using source_offsets(1) [OF assms(1), of k "k + 1"] k by simp
  then have cnt: "unat ?b + unat (tok_assignment_count (built_tok i k)) = unat ?e"
    by (simp add: built_tok_def unat_sub word_le_nat_alt)
  have "?e \<le> in_assignment_offsets i ! length (in_token_ids i)"
    using source_offsets(1) [OF assms(1), of "k + 1" "length (in_token_ids i)"] k by simp
  then have "unat ?e \<le> length (in_assignments i)"
    using source_offsets(3) [OF assms(1)] by (simp add: word_le_nat_alt)
  then show ?case
    using Suc.hyps(1) [of "Suc k"] Suc.hyps(2) k assms(3) [OF k] cnt
    by (simp add: upt_conv_Cons) (simp add: built_tok_def)
qed

lemma memcpy_at_Nil [simp]: "memcpy_at off [] dst = dst"
  by (simp add: memcpy_at_def)

lemma memcpy_at_gap:
  assumes "length pre \<le> off" and "off + length src \<le> length pre + n"
  shows "memcpy_at off src (pre @ replicate n 0) =
     (pre @ replicate (off - length pre) 0 @ src) @
     replicate (length pre + n - (off + length src)) 0"
proof -
  have "take off (pre @ replicate n 0) = pre @ replicate (off - length pre) 0"
    using assms by simp
  moreover have "drop (off + length src) (pre @ replicate n 0) =
      replicate (length pre + n - (off + length src)) 0"
    using assms by simp
  ultimately show ?thesis by (simp add: memcpy_at_def)
qed

lemma memcpy_at_prefix:
  "length src = length old \<Longrightarrow> memcpy_at 0 src (old @ rest) = src @ rest"
  by (simp add: memcpy_at_def)

text \<open>The byte image of a built slot: header, tokens, assignments and payload in their areas,
  zeroes between them.\<close>

definition slot_image :: "SlotHeader \<Rightarrow> TokenRecord list \<Rightarrow> AssignmentRecord list \<Rightarrow> u8 list \<Rightarrow> u8 list"
  where
  "slot_image h tokens assignments payload =
     (let tb = concat (map token_bytes tokens); ab = concat (map assignment_bytes assignments)
      in slot_header_bytes h @ tb @
         replicate (unat (sh_assignments_offset h) - (sizeof_SlotHeader + length tb)) 0 @ ab @
         replicate (unat (sh_hidden_offset h) - (unat (sh_assignments_offset h) + length ab)) 0 @
         payload @
         replicate (unat (sh_packet_bytes h) - (unat (sh_hidden_offset h) + length payload)) 0)"

lemma fill_slot_image:
  assumes can: "canonical_header s h ha" and "length tokens = unat (sh_token_count h)"
    and "length (in_assignments i) = unat (sh_assignment_count h)"
    and "length (in_hidden_payload i) = unat ha"
  shows "fill_slot h tokens i = slot_image h tokens (in_assignments i) (in_hidden_payload i)"
proof -
  note areas = canonical_header_areas [OF can]
  let ?hb = "slot_header_bytes h" and ?tb = "concat (map token_bytes tokens)"
  let ?ab = "concat (map assignment_bytes (in_assignments i))" and ?pl = "in_hidden_payload i"
  let ?A = "unat (sh_assignments_offset h)" and ?H = "unat (sh_hidden_offset h)"
  let ?P = "unat (sh_packet_bytes h)"
  note [simp] = slot_header_codec.length_enc token_codec.length_encode_array
    assignment_codec.length_encode_array
  have len: "length ?tb = unat (sh_token_count h) * sizeof_TokenRecord"
    "length ?ab = unat (sh_assignment_count h) * sizeof_AssignmentRecord" using assms by simp_all
  have 1: "memcpy_at 0 ?hb (replicate ?P 0) = ?hb @ replicate (?P - sizeof_SlotHeader) 0"
    by (simp add: memcpy_at_def)
  have 2: "memcpy_at (unat (sh_tokens_offset h)) ?tb (?hb @ replicate (?P - sizeof_SlotHeader) 0) =
      (?hb @ ?tb) @ replicate (?P - (sizeof_SlotHeader + length ?tb)) 0"
    using areas assms by (subst memcpy_at_gap) (auto simp: len)
  have 3: "memcpy_at ?A ?ab ((?hb @ ?tb) @ replicate (?P - (sizeof_SlotHeader + length ?tb)) 0) =
      (?hb @ ?tb @ replicate (?A - (sizeof_SlotHeader + length ?tb)) 0 @ ?ab) @
      replicate (?P - (?A + length ?ab)) 0"
    using areas assms by (subst memcpy_at_gap) (auto simp: len)
  have 4: "memcpy_at ?H ?pl ((?hb @ ?tb @ replicate (?A - (sizeof_SlotHeader + length ?tb)) 0 @ ?ab) @
      replicate (?P - (?A + length ?ab)) 0) =
      (?hb @ ?tb @ replicate (?A - (sizeof_SlotHeader + length ?tb)) 0 @ ?ab @
       replicate (?H - (?A + length ?ab)) 0 @ ?pl) @ replicate (?P - (?H + length ?pl)) 0"
    using areas assms by (subst memcpy_at_gap) (auto simp: len)
  have "fill_slot h tokens i = memcpy_at ?H ?pl (memcpy_at ?A ?ab
      (memcpy_at (unat (sh_tokens_offset h)) ?tb (memcpy_at 0 ?hb (replicate ?P 0))))"
    by (auto simp: fill_slot_def Let_def)
  then show ?thesis
    unfolding 1 2 3 4 by (simp add: slot_image_def Let_def)
qed

lemma slot_image_reads:
  assumes can: "canonical_header s h ha" and "length tokens = unat (sh_token_count h)"
    and "length as = unat (sh_assignment_count h)" and "length payload = unat ha"
    and mem: "mem = slot_image h tokens as payload @ rest"
  shows "length (slot_image h tokens as payload) = unat (sh_packet_bytes h)"
    and "take sizeof_SlotHeader mem = slot_header_bytes h"
    and "take (unat (sh_token_count h) * sizeof_TokenRecord) (drop (unat (sh_tokens_offset h)) mem)
      = concat (map token_bytes tokens)"
    and "take (unat (sh_assignment_count h) * sizeof_AssignmentRecord)
      (drop (unat (sh_assignments_offset h)) mem) = concat (map assignment_bytes as)"
    and "take (unat ha) (drop (unat (sh_hidden_offset h)) mem) = payload"
    and "padding_zero mem h"
proof -
  note areas = canonical_header_areas [OF can]
  let ?hb = "slot_header_bytes h" and ?tb = "concat (map token_bytes tokens)"
  let ?ab = "concat (map assignment_bytes as)"
  let ?A = "unat (sh_assignments_offset h)" and ?H = "unat (sh_hidden_offset h)"
  let ?z1 = "replicate (?A - (sizeof_SlotHeader + length ?tb)) (0 :: u8)"
  let ?z2 = "replicate (?H - (?A + length ?ab)) (0 :: u8)"
  let ?z3 = "replicate (unat (sh_packet_bytes h) - (?H + length payload)) (0 :: u8)"
  have img: "mem = ?hb @ ?tb @ ?z1 @ ?ab @ ?z2 @ payload @ ?z3 @ rest"
    by (simp add: mem slot_image_def Let_def)
  have lh: "length ?hb = sizeof_SlotHeader" by (rule slot_header_codec.length_enc)
  have lt: "length ?tb = unat (sh_token_count h) * sizeof_TokenRecord"
    using assms(2) by (simp add: token_codec.length_encode_array)
  have la: "length ?ab = unat (sh_assignment_count h) * sizeof_AssignmentRecord"
    using assms(3) by (simp add: assignment_codec.length_encode_array)
  have toA: "length (?hb @ ?tb @ ?z1) = ?A" using areas lh lt by simp
  have toZ: "length (?hb @ ?tb @ ?z1 @ ?ab) = ?A + length ?ab" using toA by simp
  have toH: "length (?hb @ ?tb @ ?z1 @ ?ab @ ?z2) = ?H" using toA areas la by simp
  have dA: "drop ?A mem = ?ab @ ?z2 @ payload @ ?z3 @ rest"
    using append_eq_conv_conj [THEN iffD1, of "?hb @ ?tb @ ?z1" "?ab @ ?z2 @ payload @ ?z3 @ rest" mem]
      img toA by simp
  have dZ: "drop (?A + length ?ab) mem = ?z2 @ payload @ ?z3 @ rest"
    using append_eq_conv_conj [THEN iffD1, of "?hb @ ?tb @ ?z1 @ ?ab" "?z2 @ payload @ ?z3 @ rest" mem]
      img toZ by simp
  have dH: "drop ?H mem = payload @ ?z3 @ rest"
    using append_eq_conv_conj [THEN iffD1, of "?hb @ ?tb @ ?z1 @ ?ab @ ?z2" "payload @ ?z3 @ rest" mem]
      img toH by simp
  show "take sizeof_SlotHeader mem = ?hb" by (simp add: img lh)
  show "take (unat (sh_token_count h) * sizeof_TokenRecord) (drop (unat (sh_tokens_offset h)) mem)
      = ?tb" using areas(1) by (simp add: img lh flip: lt)
  show "take (unat (sh_assignment_count h) * sizeof_AssignmentRecord) (drop ?A mem) = ?ab"
    by (simp add: dA flip: la)
  show "take (unat ha) (drop ?H mem) = payload" by (simp add: dH flip: assms(4))
  show "length (slot_image h tokens as payload) = unat (sh_packet_bytes h)"
    using toH areas assms(4) by (simp add: slot_image_def Let_def)
  have "mem ! off = 0" if "?A + length ?ab \<le> off" "off < ?H" for off
  proof -
    have "mem ! off = drop (?A + length ?ab) mem ! (off - (?A + length ?ab))"
      using that dZ toZ by (subst nth_drop) (simp_all add: img)
    also have "\<dots> = (?z2 @ payload @ ?z3 @ rest) ! (off - (?A + length ?ab))"
      by (simp only: dZ)
    also have "\<dots> = 0"
      using that diff_less_mono [of off ?H "?A + length ?ab"] by (simp add: nth_append)
    finally show ?thesis .
  qed
  then show "padding_zero mem h" by (simp add: padding_zero_def flip: la)
qed

lemma slot_image_digest:
  assumes "canonical_header s h ha" and "length tokens = unat (sh_token_count h)"
    and "length as = unat (sh_assignment_count h)" and "length payload = unat ha"
  shows "slot_digest (slot_image h tokens as payload @ rest) h =
     HashBytes (HashBytes (HashBytes kHashOffset (slot_header_bytes (h\<lparr>sh_metadata_digest := 0\<rparr>)))
       (concat (map token_bytes tokens))) (concat (map assignment_bytes as))"
  using slot_image_reads(3,4) [OF assms refl] by (simp add: slot_digest_def)

lemma slot_image_source:
  assumes "canonical_header s h ha" and "length tokens = unat (sh_token_count h)"
    and "length as = unat (sh_assignment_count h)" and "length payload = unat ha"
  shows "slot_source (slot_image h tokens as payload @ rest) h (unat ha) =
     \<lparr> ps_header = h, ps_tokens = tokens, ps_assignments = as, ps_hidden_payload = payload \<rparr>"
  using slot_image_reads(3-5) [OF assms refl]
    token_codec.decode_encode_array [of tokens "[]"]
    assignment_codec.decode_encode_array [of as "[]"] assms(2,3)
  by (simp add: slot_source_def)

lemma slot_image_memcpy:
  "memcpy_at 0 (slot_header_bytes (h\<lparr>sh_metadata_digest := d\<rparr>)) (slot_image h tokens as payload) =
     slot_image (h\<lparr>sh_metadata_digest := d\<rparr>) tokens as payload"
  by (simp add: slot_image_def Let_def memcpy_at_prefix slot_header_codec.length_enc)

lemma canonical_header_digest [simp]:
  "canonical_header s (h\<lparr>sh_metadata_digest := d\<rparr>) ha = canonical_header s h ha"
  by (simp add: canonical_header_def)

lemma ucast_of_nat_u32: "n < 2 ^ 32 \<Longrightarrow> (ucast (of_nat n :: u32) :: u64) = of_nat n"
  by (simp add: word_unat_eq_iff unat_ucast_u64 unat_of_nat)

lemma built_header_canonical:
  assumes "n < 2 ^ 32" and "length (in_assignments i) < 2 ^ 32"
    and "hidden_size (of_nat n) (ses_hidden (in_session i)) (ses_dtype (in_session i)) = Some ha"
    and "built_offsets n (length (in_assignments i)) ha = Some offsets"
  shows "canonical_header (in_session i) (built_header i n u offsets) ha"
  using assms
  by (cases offsets)
    (auto simp: canonical_header_def built_header_def built_offsets_def bind_eq_Some_conv
      ucast_of_nat_u32 Mul_eq_Some)

text \<open>Everything a successful build says about the input and the three things it hands out.\<close>

lemma BuildSlot_elim:
  assumes "BuildSlot i = Inr (slot, h, r)"
  obtains ha where "source_input_ok i" and "canonical_header (in_session i) h ha"
    and "length (in_token_ids i) = unat (sh_token_count h)"
    and "length (in_assignments i) = unat (sh_assignment_count h)"
    and "length (in_hidden_payload i) = unat ha"
    and "slot = slot_image h (map (built_tok i) [0..<length (in_token_ids i)])
           (in_assignments i) (in_hidden_payload i)"
    and "sh_metadata_digest h = slot_digest (slot @ rest) h"
    and "csr_wf (in_session i) (in_assignments i) 0 0
           (map (built_tok i) [0..<length (in_token_ids i)])"
    and "r = built_ready h" and "header_matches (in_session i) r h"
    and "sh_source_rank h = in_source_rank i" and "sh_source_region_id h = in_source_region_id i"
    and "sh_ring_slot h = in_ring_slot i" and "sh_generation h = in_generation i"
    and "sh_sequence h = in_sequence i" and "sh_session_id h = ses_session_id (in_session i)"
    and "sh_placement_epoch h = ses_placement_epoch (in_session i)" and "sh_wave h = in_wave i"
proof -
  let ?n = "length (in_token_ids i)"
  from assms have ok: "source_input_ok i" by (auto simp: BuildSlot_def split: if_splits)
  from assms ok obtain ha where ha: "hidden_size (of_nat ?n) (ses_hidden (in_session i))
      (ses_dtype (in_session i)) = Some ha" and pl: "length (in_hidden_payload i) = unat ha"
    by (auto simp: BuildSlot_def split: if_splits option.splits)
  from assms ok ha pl obtain u ref tokens where loop: "mfold (build_token i) [0..<?n]
      (True, replicate (unat (ses_worker_count (in_session i))) False, []) = Inr (u, ref, tokens)"
    by (auto simp: BuildSlot_def vec_eqs)
  note tok = built_tokens [OF ok loop]
  have n: "?n < 2 ^ 32" "length (in_assignments i) < 2 ^ 32"
    using ok by (auto simp: source_input_ok_def)
  have lt: "length tokens = ?n" by (simp add: tok(1))
  from assms ok ha pl loop lt obtain offsets where
    off: "built_offsets ?n (length (in_assignments i)) ha = Some offsets"
    by (auto simp: BuildSlot_def split: option.splits)
  define b where "b = built_header i ?n u offsets"
  have b0: "b\<lparr>sh_metadata_digest := 0\<rparr> = b"
    by (simp add: b_def built_header_def SlotHeader_init_def split: prod.splits)
  have can: "canonical_header (in_session i) b ha"
    unfolding b_def by (rule built_header_canonical [OF n ha off])
  have cnt: "?n = unat (sh_token_count b)" "length (in_assignments i) = unat (sh_assignment_count b)"
    using n by (simp_all add: b_def built_header_def unat_of_nat split: prod.splits)
  note img = fill_slot_image [OF can _ cnt(2) pl, of tokens, unfolded lt, OF cnt(1)]
  note len = slot_image_reads(1) [OF can _ cnt(2) pl refl, of tokens, unfolded lt, OF cnt(1)]
  let ?d = "slot_digest (fill_slot b tokens i) b"
  have dig: "MetadataDigest b (Some (fill_slot b tokens i)) = Inr ?d"
    by (rule MetadataDigest_in [OF can]) (simp add: img len)
  let ?h = "b\<lparr>sh_metadata_digest := ?d\<rparr>"
  have res: "h = ?h" "r = built_ready ?h"
    "slot = slot_image ?h tokens (in_assignments i) (in_hidden_payload i)"
    using assms ok ha pl loop off dig
    by (auto simp: BuildSlot_def lt Let_def b_def [symmetric] img slot_image_memcpy)
  have digest: "slot_digest (slot @ rest) h = ?d"
    using slot_image_digest [of "in_session i" h ha tokens "in_assignments i"
        "in_hidden_payload i" rest]
      slot_image_digest [OF can _ cnt(2) pl, of tokens "[]", unfolded lt, OF cnt(1)]
      can cnt pl lt
    by (simp add: res img b0)
  have match: "header_matches (in_session i) r h"
    by (auto simp: res header_matches_def b_def built_header_def built_ready_def SlotHeader_init_def
        Ready_init_def kSlotFlagUniformDestinations_def Let_def split: prod.splits)
  have csr: "csr_wf (in_session i) (in_assignments i) 0 0 (map (built_tok i) [0..<?n])"
    using built_csr_wf [OF ok _ tok(2), of 0] source_offsets(2) [OF ok] by simp
  have fields: "sh_source_rank h = in_source_rank i"
    "sh_source_region_id h = in_source_region_id i" "sh_ring_slot h = in_ring_slot i"
    "sh_generation h = in_generation i" "sh_sequence h = in_sequence i"
    "sh_session_id h = ses_session_id (in_session i)"
    "sh_placement_epoch h = ses_placement_epoch (in_session i)" "sh_wave h = in_wave i"
    by (simp_all add: res b_def built_header_def split: prod.splits)
  have counts: "?n = unat (sh_token_count h)"
    "length (in_assignments i) = unat (sh_assignment_count h)" using cnt by (simp_all add: res(1))
  have canh: "canonical_header (in_session i) h ha" using can by (simp add: res(1))
  have slot: "slot = slot_image h (map (built_tok i) [0..<?n]) (in_assignments i) (in_hidden_payload i)"
    using res(1,3) tok(1) by simp
  have dh: "sh_metadata_digest h = slot_digest (slot @ rest) h" using digest by (simp add: res(1))
  have rh: "r = built_ready h" using res(1,2) by simp
  show thesis by (rule that [OF ok canh counts pl slot dh csr rh match fields])
qed

lemma BuildSlot_parse_slot:
  assumes "BuildSlot i = Inr (slot, h, ready)"
    and "sh_packet_bytes h \<le> cap" and "unat cap \<le> length (slot @ rest)"
  shows "parse_slot (in_session i) ready (slot @ rest) cap =
      Inr \<lparr> ps_header = h, ps_tokens = map (built_tok i) [0..<length (in_token_ids i)],
        ps_assignments = in_assignments i, ps_hidden_payload = in_hidden_payload i \<rparr>"
    and "sizeof_SlotHeader \<le> unat cap"
proof (atomize (full), rule BuildSlot_elim [OF assms(1), of rest])
  fix ha
  let ?toks = "map (built_tok i) [0..<length (in_token_ids i)]"
  let ?p = "\<lparr> ps_header = h, ps_tokens = ?toks, ps_assignments = in_assignments i,
        ps_hidden_payload = in_hidden_payload i \<rparr>"
  assume can: "canonical_header (in_session i) h ha"
    and counts: "length (in_token_ids i) = unat (sh_token_count h)"
      "length (in_assignments i) = unat (sh_assignment_count h)"
    and pl: "length (in_hidden_payload i) = unat ha"
    and slot: "slot = slot_image h ?toks (in_assignments i) (in_hidden_payload i)"
    and dig: "sh_metadata_digest h = slot_digest (slot @ rest) h"
    and csr: "csr_wf (in_session i) (in_assignments i) 0 0 ?toks"
    and match: "header_matches (in_session i) ready h"
  have len: "length ?toks = unat (sh_token_count h)" using counts by simp
  note reads = slot_image_reads [OF can len counts(2) pl, of _ rest,
      OF slot [THEN arg_cong, of "\<lambda>x. x @ rest"]]
  have room: "unat (sh_packet_bytes h) \<le> unat cap" using assms(2) by (simp add: word_le_nat_alt)
  have cap: "sizeof_SlotHeader \<le> unat cap"
    using room canonical_header_areas [OF can] by linarith
  have hd: "slot_header_of (take sizeof_SlotHeader (slot @ rest)) = h"
    using reads(2) by (simp add: slot_header_codec.dec_enc)
  have src: "slot_source (slot @ rest) h (unat ha) = ?p"
    using slot_image_source [OF can len counts(2) pl, of rest] slot by simp
  have "parse_slot (in_session i) ready (slot @ rest) cap = Inr (slot_source (slot @ rest) h (unat ha))"
    using parse_slot_cases(2) [OF _ assms(3) hd [symmetric], of "in_session i" ready] cap assms(2,3)
      match can reads(6) dig csr src by auto
  then show "parse_slot (in_session i) ready (slot @ rest) cap = Inr ?p \<and>
      sizeof_SlotHeader \<le> unat cap" using src cap by simp
qed

lemma BuildSlot_ready_accepted:
  assumes "BuildSlot i = Inr (slot, h, ready)"
    and "ValidateRegistration reg (in_session i) = OK"
    and "reg_source_rank reg = in_source_rank i" and "reg_region_id reg = in_source_region_id i"
  shows "ready_accepted reg (in_session i) ready"
proof (rule BuildSlot_elim [OF assms(1), of "[]"])
  assume ok: "source_input_ok i" and r: "ready = built_ready h"
    and fields: "sh_source_rank h = in_source_rank i"
      "sh_source_region_id h = in_source_region_id i" "sh_ring_slot h = in_ring_slot i"
      "sh_generation h = in_generation i" "sh_sequence h = in_sequence i"
      "sh_session_id h = ses_session_id (in_session i)"
      "sh_placement_epoch h = ses_placement_epoch (in_session i)"
  have "ucast (in_ring_slot i) < reg_slot_count reg"
    using ok assms(2) by (auto simp: source_input_ok_def ValidateRegistration_def not_less
        split: if_splits elim: less_le_trans)
  then show ?thesis
    using ok assms(3,4) fields
    by (simp add: ready_accepted_def r built_ready_def Ready_init_def Let_def source_input_ok_def
        ReadyPublication_def)
qed

lemmas ParseReadyAndSlot_through =
  ParseReadyAndSlot_def word_less_nat_alt not_less word_le_nat_alt abi_consts

section \<open>Properties\<close>

text \<open>A small source, used where a property is applied to concrete data: one token routed to both
  workers of a session.\<close>

definition ex_session :: SessionConfig where
  "ex_session = \<lparr> ses_session_id = 7, ses_placement_epoch = 1, ses_worker_count = 2,
     ses_expert_count = 2, ses_hidden = 1, ses_dtype = FP16, ses_ring_slots = 2 \<rparr>"

definition ex_input :: SourceInput where
  "ex_input = \<lparr> in_session = ex_session, in_generation = 3, in_sequence = 4, in_wave = 0,
     in_source_rank = 1, in_source_region_id = 5, in_ring_slot = 1,
     in_token_ids = [100], in_assignment_offsets = [0, 2],
     in_assignments =
       [\<lparr> asg_destination_rank = 0, asg_expert_id = 1, asg_ordinal = 1, asg_weight = 0x3F800000 \<rparr>,
        \<lparr> asg_destination_rank = 1, asg_expert_id = 0, asg_ordinal = 0, asg_weight = 0x3F800000 \<rparr>],
     in_hidden_payload = [17, 42] \<rparr>"

definition ex_registration :: RegionRegistration where
  "ex_registration = \<lparr> reg_session_id = 7, reg_placement_epoch = 1, reg_source_rank = 1,
     reg_region_id = 5, reg_slot_count = 2, reg_alignment = 64, reg_region_bytes = 4096,
     reg_slot_stride = 1024, reg_reserved = (0, 0) \<rparr>"

lemma ex_build:
  obtains slot h ready where "BuildSlot ex_input = Inr (slot, h, ready)"
    and "sh_packet_bytes h = 320" and "length slot = 320"
proof -
  have "case BuildSlot ex_input of
     Inr (slot, h, ready) \<Rightarrow> sh_packet_bytes h = 320 \<and> length slot = 320 | Inl _ \<Rightarrow> False"
    by code_simp
  then show thesis using that by (auto split: sum.splits)
qed

lemma ex_registration_ok:
  "ValidateRegistration ex_registration (in_session ex_input) = OK"
  "reg_source_rank ex_registration = in_source_rank ex_input"
  "reg_region_id ex_registration = in_source_region_id ex_input"
  "320 \<le> reg_slot_stride ex_registration"
  by code_simp+

text \<open>
  C1 Round trip. Whatever slot and READY record \<open>BuildSlot\<close> hands out, an INC that
  finds the slot at the start of its buffer, under a valid registration of that source and with a
  capacity between the packet length and the slot stride, parses it successfully and recovers
  exactly the header, one token record per token id, the assignments and the hidden payload that
  the worker put in.
\<close>

theorem BuildSlot_ParseReadyAndSlot:
  assumes "BuildSlot i = Inr (slot, h, ready)"
    and "ValidateRegistration reg (in_session i) = OK"
    and "reg_source_rank reg = in_source_rank i" and "reg_region_id reg = in_source_region_id i"
    and "sh_packet_bytes h \<le> cap" and "cap \<le> reg_slot_stride reg"
    and "unat cap \<le> length (slot @ rest)"
  shows "ParseReadyAndSlot reg (in_session i) ready (Some (slot @ rest)) cap =
     Inr \<lparr> ps_header = h,
       ps_tokens = map (\<lambda>t. \<lparr> tok_token_id = in_token_ids i ! t, tok_source_token = of_nat t,
          tok_assignment_begin = in_assignment_offsets i ! t,
          tok_assignment_count = in_assignment_offsets i ! (t + 1) - in_assignment_offsets i ! t,
          tok_reserved0 = 0, tok_reserved1 = 0 \<rparr>) [0..<length (in_token_ids i)],
       ps_assignments = in_assignments i, ps_hidden_payload = in_hidden_payload i \<rparr>"
  using assms(2,6) BuildSlot_parse_slot [OF assms(1,5,7)] BuildSlot_ready_accepted [OF assms(1-4)]
  by (simp add: ParseReadyAndSlot_through built_tok_def)

theorem BuildSlot_ParseReadyAndSlot_witness:
  "\<exists>slot h ready. BuildSlot ex_input = Inr (slot, h, ready) \<and>
     ParseReadyAndSlot ex_registration (in_session ex_input) ready (Some (slot @ [])) 320 =
     Inr \<lparr> ps_header = h,
       ps_tokens = [\<lparr> tok_token_id = 100, tok_source_token = 0, tok_assignment_begin = 0,
          tok_assignment_count = 2, tok_reserved0 = 0, tok_reserved1 = 0 \<rparr>],
       ps_assignments = in_assignments ex_input, ps_hidden_payload = [17, 42] \<rparr>"
proof -
  obtain slot h ready where b: "BuildSlot ex_input = Inr (slot, h, ready)"
    and "sh_packet_bytes h = 320" and "length slot = 320" by (rule ex_build)
  then show ?thesis
    using BuildSlot_ParseReadyAndSlot [OF b ex_registration_ok(1-3), of 320 "[]"]
      ex_registration_ok(4)
    by (simp add: ex_input_def)
qed

text \<open>
  C2 Memory safety of the parser. Whatever the bytes of the slot, the READY record,
  the registration and the session say, as long as the buffer really holds the capacity the caller
  announces, \<open>ParseReadyAndSlot\<close> never reads outside it and never indexes one of its own tables
  out of range: it returns a source or an error.
\<close>

theorem ParseReadyAndSlot_in_bounds:
  assumes "unat cap \<le> length bytes"
  shows "ParseReadyAndSlot reg s ready (Some bytes) cap \<noteq> Inl Oob"
proof -
  have "parse_slot s ready bytes cap \<noteq> Inl Oob" if "\<not> cap < of_nat sizeof_SlotHeader"
    using parse_slot_cases(1) [OF _ assms refl] assms that
    by (simp add: word_less_nat_alt abi_consts)
  then show ?thesis by (simp add: ParseReadyAndSlot_def)
qed

theorem ParseReadyAndSlot_in_bounds_witness:
  "ParseReadyAndSlot ex_registration ex_session (built_ready SlotHeader_init)
     (Some (replicate 128 255)) 128 \<noteq> Inl Oob"
  by (rule ParseReadyAndSlot_in_bounds) simp

text \<open>
  C3 What an accepted source guarantees. The header repeats the epoch, rank and
  ring slot of the READY record; the hidden payload has exactly one row of the session's width per
  token; token \<open>t\<close> is numbered \<open>t\<close> and owns the run of assignments right after those of the tokens
  before it, the runs cover all assignments; and in each run every assignment names a worker and an
  expert of the session, has a finite weight, and the ordinals are the numbers below the run's
  length, each once.
\<close>

theorem ParseReadyAndSlot_sound:
  assumes "ParseReadyAndSlot reg s ready (Some bytes) cap = Inr p" and "unat cap \<le> length bytes"
  shows "sh_generation (ps_header p) = rdy_generation ready \<and>
    sh_sequence (ps_header p) = rdy_sequence ready \<and> sh_wave (ps_header p) = rdy_wave ready \<and>
    sh_source_rank (ps_header p) = reg_source_rank reg \<and>
    sh_ring_slot (ps_header p) = rdy_ring_slot ready \<and>
    sh_source_rank (ps_header p) < ses_worker_count s \<and>
    length (ps_hidden_payload p) =
      length (ps_tokens p) * unat (ses_hidden s) * unat (DTypeBytes (ses_dtype s)) \<and>
    sum_list (map (unat \<circ> tok_assignment_count) (ps_tokens p)) = length (ps_assignments p) \<and>
    (\<forall>t < length (ps_tokens p).
      (let r = ps_tokens p ! t; b = unat (tok_assignment_begin r); n = unat (tok_assignment_count r);
           run = vslice (ps_assignments p) b (b + n)
       in tok_source_token r = of_nat t \<and>
          b = sum_list (map (unat \<circ> tok_assignment_count) (take t (ps_tokens p))) \<and>
          b + n \<le> length (ps_assignments p) \<and>
          (\<forall>a \<in> set run. asg_destination_rank a < ses_worker_count s \<and>
             asg_expert_id a < ses_expert_count s \<and> isfinite (asg_weight a)) \<and>
          distinct (map asg_ordinal run) \<and> set (map (unat \<circ> asg_ordinal) run) = {0..<n}))"
proof -
  let ?h = "slot_header_of (take sizeof_SlotHeader bytes)"
  from assms(1) have val: "ValidateRegistration reg s = OK" and acc: "ready_accepted reg s ready"
    and cap: "\<not> cap < of_nat sizeof_SlotHeader" and par: "parse_slot s ready bytes cap = Inr p"
    by (auto simp: ParseReadyAndSlot_def split: if_splits)
  have len: "sizeof_SlotHeader \<le> length bytes"
    using cap assms(2) by (simp add: word_less_nat_alt abi_consts)
  from par obtain ha where match: "header_matches s ready ?h" and can: "canonical_header s ?h ha"
    and fit: "sh_packet_bytes ?h \<le> cap"
    and p: "p = slot_source bytes ?h (unat ha)" and csr: "csr_wf s (ps_assignments p) 0 0 (ps_tokens p)"
    using parse_slot_cases(2) [OF len assms(2) refl] by blast
  have hid: "length (ps_hidden_payload p) = unat ha"
    using canonical_header_areas [OF can] fit assms(2) by (simp add: p slot_source_def word_le_nat_alt)
  have "unat ha = unat (sh_token_count ?h) * unat (ses_hidden s) * unat (DTypeBytes (ses_dtype s))"
    using can match
    by (auto simp: canonical_header_def hidden_size_def bind_eq_Some_conv header_matches_def
        dest!: Mul_unat simp: unat_ucast_u64)
  moreover have "length (ps_tokens p) = unat (sh_token_count ?h)" "ps_header p = ?h"
    by (simp_all add: p slot_source_def)
  moreover have "distinct (map asg_ordinal run) \<and> set (map (unat \<circ> asg_ordinal) run) = {0..<n}"
    if "assignments_wf s n run" "length run = n" for n run
    using that assignments_wf_ordinals [of s run] by (simp add: assignments_wf_def)
  moreover have "reg_source_rank reg < ses_worker_count s"
    using val by (auto simp: ValidateRegistration_def split: if_splits)
  ultimately show ?thesis
    using match acc csr_wf_sum [OF csr] csr_wf_nth [OF csr] hid
    by (auto simp: Let_def header_matches_def ready_accepted_def assignments_wf_def)
qed

theorem ParseReadyAndSlot_sound_witness:
  "\<exists>slot h ready p. BuildSlot ex_input = Inr (slot, h, ready) \<and>
     ParseReadyAndSlot ex_registration (in_session ex_input) ready (Some (slot @ [])) 320 = Inr p \<and>
     sh_generation (ps_header p) = rdy_generation ready \<and>
     sum_list (map (unat \<circ> tok_assignment_count) (ps_tokens p)) = length (ps_assignments p)"
proof -
  obtain slot h ready where b: "BuildSlot ex_input = Inr (slot, h, ready)"
    and h: "sh_packet_bytes h = 320" and len: "length slot = 320" by (rule ex_build)
  obtain p where p: "parse_slot (in_session ex_input) ready (slot @ []) 320 = Inr p"
    using BuildSlot_parse_slot(1) [OF b, of 320 "[]"] h len by auto
  have "ParseReadyAndSlot ex_registration (in_session ex_input) ready (Some (slot @ [])) 320 = Inr p"
    using BuildSlot_ready_accepted [OF b ex_registration_ok(1-3)] ex_registration_ok p
    by (simp add: ParseReadyAndSlot_through)
  then show ?thesis using ParseReadyAndSlot_sound [of ex_registration "in_session ex_input" ready
        "slot @ []" 320 p] b len by auto
qed

end
