(* ===== verification/Dispatch_Layout.thy ===== *)
theory Dispatch_Layout
  imports Dispatch_Slot
begin

text \<open>
  The layout compiler of the INC (\<open>inc_dc_pull_dispatch_v2.cpp\<close>, second half): from one parsed
  source per worker and the order in which they arrived, \<open>CompileLayout\<close> allocates the rows every
  destination receives and seals the journal that the combine phase replays.
  \<open>TransitionJournal\<close> is the guarded change of a journal slot's state. A null pointer in the table
  of sources is \<open>None\<close>, and using one is \<open>Oob\<close>.
\<close>

section \<open>Model\<close>

record LayoutConfig =
  lc_worker_count :: u32
  lc_expert_count :: u32
  lc_destination_row_capacity :: u64
  lc_destination_assignment_capacity :: u64

record CompiledLayout =
  cl_journal_header :: JournalSlotHeader
  cl_journal_tokens :: "JournalTokenEntry list"
  cl_contributors :: "JournalContributor list"
  cl_journal_assignments :: "AssignmentRecord list"
  cl_destination_rows :: "DestinationRow list list"
  cl_expert_assignments :: "ExpertAssignment list list"
  cl_expert_counts :: "u32 list"

subsection \<open>Collecting the sources\<close>

record Epoch =
  ep_generation :: u64
  ep_sequence :: u64
  ep_wave :: u32
  ep_ring_slot :: u16

definition header_epoch :: "SlotHeader \<Rightarrow> Epoch" where
  "header_epoch h = \<lparr> ep_generation = sh_generation h, ep_sequence = sh_sequence h,
     ep_wave = sh_wave h, ep_ring_slot = sh_ring_slot h \<rparr>"

fun collect_source ::
  "LayoutConfig \<Rightarrow> ParsedSource \<Rightarrow> ParsedSource option list \<times> Epoch \<Rightarrow>
     (Status, ParsedSource option list \<times> Epoch) res" where
  "collect_source config source (by_rank, epoch) =
     (let h = ps_header source; rank = sh_source_rank h
      in if rank \<ge> lc_worker_count config then fail DUPLICATE_SOURCE
         else rbind (vget by_rank (unat rank))
           (\<lambda>present. if present \<noteq> None then fail DUPLICATE_SOURCE
              else if ep_generation epoch = 0
              then Inr (by_rank[unat rank := Some source], header_epoch h)
              else if header_epoch h \<noteq> epoch \<or> sh_worker_count h \<noteq> lc_worker_count config
              then fail STALE_EPOCH
              else Inr (by_rank[unat rank := Some source], epoch)))"

definition check_arrival :: "LayoutConfig \<Rightarrow> u32 \<Rightarrow> bool list \<Rightarrow> (Status, bool list) res" where
  "check_arrival config rank seen =
     (if rank \<ge> lc_worker_count config then fail DUPLICATE_SOURCE
      else rbind (vget seen (unat rank))
        (\<lambda>s. if s then fail DUPLICATE_SOURCE else vput seen (unat rank) True))"

definition source_at :: "ParsedSource option list \<Rightarrow> nat \<Rightarrow> (Status, ParsedSource) res" where
  "source_at by_rank rank =
     rbind (vget by_rank rank) (\<lambda>p. case p of None \<Rightarrow> Inl Oob | Some source \<Rightarrow> Inr source)"

subsection \<open>Placing the rows\<close>

definition group_assignment ::
  "ParsedSource \<Rightarrow> TokenRecord \<Rightarrow> nat \<Rightarrow> AssignmentRecord list list \<Rightarrow>
     (Status, AssignmentRecord list list) res" where
  "group_assignment source record local grouped =
     rbind (vget (ps_assignments source) (unat (tok_assignment_begin record + of_nat local)))
       (\<lambda>a. rbind (vget grouped (unat (asg_destination_rank a)))
          (\<lambda>g. vput grouped (unat (asg_destination_rank a)) (g @ [a])))"

definition place_expert ::
  "LayoutConfig \<Rightarrow> nat \<Rightarrow> u32 \<Rightarrow> AssignmentRecord \<Rightarrow> CompiledLayout \<Rightarrow>
     (Status, CompiledLayout) res" where
  "place_expert config destination destination_row a built =
     (let count_index = unat ((of_nat destination :: u64) * ucast (lc_expert_count config) +
            ucast (asg_expert_id a))
      in rbind (vget (cl_expert_counts built) count_index)
        (\<lambda>n. rbind (vget (cl_expert_assignments built) destination)
          (\<lambda>experts. Inr (built\<lparr>
              cl_expert_counts := (cl_expert_counts built)[count_index := n + 1],
              cl_expert_assignments := (cl_expert_assignments built)[destination := experts @
                [\<lparr> ea_destination_row = destination_row, ea_expert_id = asg_expert_id a,
                   ea_expert_row = n, ea_ordinal = asg_ordinal a, ea_weight = asg_weight a,
                   ea_reserved = (0, 0, 0) \<rparr>]] \<rparr>))))"

definition push_contributor ::
  "nat \<Rightarrow> nat \<Rightarrow> JournalContributor \<Rightarrow> JournalContributor list list list \<Rightarrow>
     (Status, JournalContributor list list list) res" where
  "push_contributor rank token c contributor_map =
     rbind (vget contributor_map rank)
       (\<lambda>tokens. rbind (vget tokens token)
          (\<lambda>cs. vput contributor_map rank (tokens[token := cs @ [c]])))"

fun place_destination ::
  "LayoutConfig \<Rightarrow> nat \<Rightarrow> nat \<Rightarrow> TokenRecord \<Rightarrow> AssignmentRecord list list \<Rightarrow> nat \<Rightarrow>
     CompiledLayout \<times> JournalContributor list list list \<Rightarrow>
     (Status, CompiledLayout \<times> JournalContributor list list list) res" where
  "place_destination config rank token record grouped destination (built, contributor_map) =
     rbind (vget grouped destination) (\<lambda>group.
     if group = [] then Inr (built, contributor_map)
     else rbind (vget (cl_destination_rows built) destination) (\<lambda>rows.
     rbind (vget (cl_expert_assignments built) destination) (\<lambda>experts.
     if length rows \<ge> unat (lc_destination_row_capacity config) \<or>
        length experts + length group > unat (lc_destination_assignment_capacity config)
     then fail CAPACITY_EXCEEDED
     else
       (let destination_row = of_nat (length rows); assignment_begin = of_nat (length experts)
        in rbind (mfold (place_expert config destination destination_row) group built) (\<lambda>built'.
           rbind (vput (cl_destination_rows built') destination
              (rows @ [\<lparr> dr_route_key = RouteKey (of_nat rank) (tok_source_token record),
                         dr_token_id = tok_token_id record, dr_source_rank = of_nat rank,
                         dr_source_token = tok_source_token record,
                         dr_destination_row = destination_row,
                         dr_assignments_begin = assignment_begin,
                         dr_assignments_count = of_nat (length group), dr_reserved = 0 \<rparr>]))
             (\<lambda>rows'. rbind (push_contributor rank token
                 \<lparr> jc_worker_rank = of_nat destination, jc_destination_row = destination_row,
                    jc_assignment_begin = assignment_begin,
                    jc_assignment_count = of_nat (length group) \<rparr> contributor_map)
               (\<lambda>contributor_map'.
                  Inr (built'\<lparr>cl_destination_rows := rows'\<rparr>, contributor_map'))))))))"

definition place_token ::
  "LayoutConfig \<Rightarrow> nat \<Rightarrow> ParsedSource \<Rightarrow> nat \<Rightarrow>
     CompiledLayout \<times> JournalContributor list list list \<Rightarrow>
     (Status, CompiledLayout \<times> JournalContributor list list list) res" where
  "place_token config rank source token st =
     rbind (vget (ps_tokens source) token) (\<lambda>record.
     rbind (mfold (group_assignment source record) [0..<unat (tok_assignment_count record)]
              (replicate (unat (lc_worker_count config)) [])) (\<lambda>grouped.
     mfold (place_destination config rank token record grouped)
       [0..<unat (lc_worker_count config)] st))"

definition place_source ::
  "LayoutConfig \<Rightarrow> ParsedSource option list \<Rightarrow> u32 \<Rightarrow>
     CompiledLayout \<times> JournalContributor list list list \<Rightarrow>
     (Status, CompiledLayout \<times> JournalContributor list list list) res" where
  "place_source config by_rank rank st =
     rbind (source_at by_rank (unat rank)) (\<lambda>source.
       mfold (place_token config (unat rank) source) [0..<length (ps_tokens source)] st)"

subsection \<open>Sealing the journal\<close>

definition journal_token ::
  "nat \<Rightarrow> ParsedSource \<Rightarrow> JournalContributor list list list \<Rightarrow> nat \<Rightarrow> CompiledLayout \<Rightarrow>
     (Status, CompiledLayout) res" where
  "journal_token rank source contributor_map token built =
     rbind (vget (ps_tokens source) token) (\<lambda>record.
     rbind (vget contributor_map rank) (\<lambda>tokens.
     rbind (vget tokens token) (\<lambda>cs.
     if int (length (cl_journal_tokens built)) \<ge> 2 ^ 32 - 1 \<or>
        int (length (cl_contributors built) + length cs) > 2 ^ 32 - 1 \<or>
        int (length (cl_journal_assignments built) + unat (tok_assignment_count record)) > 2 ^ 32 - 1
     then fail SIZE_OVERFLOW
     else if unat (tok_assignment_begin record) + unat (tok_assignment_count record) >
             length (ps_assignments source)
     then Inl Oob
     else Inr (built\<lparr>
       cl_contributors := cl_contributors built @ cs,
       cl_journal_assignments := cl_journal_assignments built @
         vslice (ps_assignments source) (unat (tok_assignment_begin record))
           (unat (tok_assignment_begin record) + unat (tok_assignment_count record)),
       cl_journal_tokens := cl_journal_tokens built @
         [\<lparr> jt_route_key = RouteKey (of_nat rank) (tok_source_token record),
            jt_token_id = tok_token_id record, jt_owner_rank = of_nat rank,
            jt_owner_row = tok_source_token record,
            jt_contributors_begin = of_nat (length (cl_contributors built)),
            jt_contributors_count = of_nat (length cs),
            jt_assignments_begin = of_nat (length (cl_journal_assignments built)),
            jt_assignments_count = tok_assignment_count record,
            jt_accumulator_index = of_nat (length (cl_journal_tokens built)),
            jt_flags = 0, jt_reserved = (0, 0) \<rparr>] \<rparr>))))"

fun journal_source ::
  "ParsedSource option list \<Rightarrow> JournalContributor list list list \<Rightarrow> nat \<Rightarrow>
     u64 \<times> CompiledLayout \<Rightarrow> (Status, u64 \<times> CompiledLayout) res" where
  "journal_source by_rank contributor_map rank (cookie, built) =
     rbind (source_at by_rank rank) (\<lambda>source.
     rbind (mfold (journal_token rank source contributor_map)
              [0..<length (ps_tokens source)] built) (\<lambda>built'.
     Inr (HashBytes cookie (le_bytes 8 (sh_metadata_digest (ps_header source))), built')))"

text \<open>
  The check behind the journal's uniform flag. The inner loop stops at a destination that comes
  twice (\<open>None\<close>); the outer ones stop at the first token that breaks the property (\<open>False\<close>).
\<close>

fun token_destinations ::
  "ParsedSource \<Rightarrow> TokenRecord \<Rightarrow> nat list \<Rightarrow> bool list \<Rightarrow> (Status, bool list option) res" where
  "token_destinations source record [] destinations = Inr (Some destinations)"
| "token_destinations source record (local # locals) destinations =
     rbind (vget (ps_assignments source) (unat (tok_assignment_begin record + of_nat local)))
       (\<lambda>a. rbind (vget destinations (unat (asg_destination_rank a)))
          (\<lambda>taken. if taken then Inr None
             else token_destinations source record locals
                    (destinations[unat (asg_destination_rank a) := True])))"

fun uniform_tokens ::
  "LayoutConfig \<Rightarrow> ParsedSource \<Rightarrow> nat list \<Rightarrow> bool list \<Rightarrow> (Status, bool) res" where
  "uniform_tokens config source [] reference = Inr True"
| "uniform_tokens config source (token # tokens) reference =
     rbind (vget (ps_tokens source) token) (\<lambda>record.
     rbind (token_destinations source record [0..<unat (tok_assignment_count record)]
              (replicate (unat (lc_worker_count config)) False)) (\<lambda>found.
     case found of
       None \<Rightarrow> Inr False
     | Some destinations \<Rightarrow>
         if token = 0 then uniform_tokens config source tokens destinations
         else if destinations \<noteq> reference then Inr False
         else uniform_tokens config source tokens reference))"

fun uniform_sources ::
  "LayoutConfig \<Rightarrow> ParsedSource option list \<Rightarrow> nat list \<Rightarrow> (Status, bool) res" where
  "uniform_sources config by_rank [] = Inr True"
| "uniform_sources config by_rank (rank # ranks) =
     rbind (source_at by_rank rank) (\<lambda>source.
     rbind (uniform_tokens config source [0..<length (ps_tokens source)]
              (replicate (unat (lc_worker_count config)) False)) (\<lambda>ok.
     if \<not> ok then Inr False else uniform_sources config by_rank ranks))"

subsection \<open>The compiler\<close>

definition layout_input_ok :: "ParsedSource list \<Rightarrow> u32 list \<Rightarrow> LayoutConfig \<Rightarrow> bool" where
  "layout_input_ok sources arrival_order config \<longleftrightarrow>
     lc_worker_count config \<ge> 2 \<and> lc_worker_count config \<le> kPullDispatchMaxWorkers \<and>
     lc_expert_count config \<noteq> 0 \<and> lc_destination_row_capacity config \<noteq> 0 \<and>
     lc_destination_assignment_capacity config \<noteq> 0 \<and>
     length sources = unat (lc_worker_count config) \<and>
     length arrival_order = unat (lc_worker_count config)"

definition empty_layout :: "LayoutConfig \<Rightarrow> CompiledLayout" where
  "empty_layout config = \<lparr> cl_journal_header = JournalSlotHeader_init, cl_journal_tokens = [],
     cl_contributors = [], cl_journal_assignments = [],
     cl_destination_rows = replicate (unat (lc_worker_count config)) [],
     cl_expert_assignments = replicate (unat (lc_worker_count config)) [],
     cl_expert_counts = replicate (unat (lc_worker_count config) * unat (lc_expert_count config)) 0 \<rparr>"

definition seal_layout :: "Epoch \<Rightarrow> u64 \<Rightarrow> bool \<Rightarrow> CompiledLayout \<Rightarrow> CompiledLayout" where
  "seal_layout epoch cookie uniform_destinations built =
     built\<lparr> cl_journal_header := (cl_journal_header built)\<lparr>
       jh_generation := ep_generation epoch, jh_sequence := ep_sequence epoch,
       jh_dispatch_cookie := (if cookie = 0 then 1 else cookie), jh_wave := ep_wave epoch,
       jh_ring_slot := ep_ring_slot epoch, jh_state := state_code DISPATCH_SEALED,
       jh_token_count := of_nat (length (cl_journal_tokens built)),
       jh_contributor_count := of_nat (length (cl_contributors built)),
       jh_flags := (if uniform_destinations
         then jh_flags (cl_journal_header built) OR kJournalFlagUniformDestinations
         else jh_flags (cl_journal_header built)) \<rparr> \<rparr>"

definition compile_collected ::
  "LayoutConfig \<Rightarrow> u32 list \<Rightarrow> ParsedSource option list \<Rightarrow> Epoch \<Rightarrow>
     (Status, CompiledLayout) res" where
  "compile_collected config arrival_order by_rank epoch =
     (let ranks = [0..<unat (lc_worker_count config)]
      in rbind (mfold (\<lambda>rank m. rbind (source_at by_rank rank)
              (\<lambda>source. Inr (m @ [replicate (length (ps_tokens source)) []]))) ranks [])
         (\<lambda>contributor_map. rbind (mfold (place_source config by_rank) arrival_order
              (empty_layout config, contributor_map))
         (\<lambda>(built, contributor_map'). rbind (mfold (journal_source by_rank contributor_map')
              ranks (kHashOffset, built))
         (\<lambda>(cookie, built'). rbind (uniform_sources config by_rank ranks)
         (\<lambda>uniform_destinations.
            Inr (seal_layout epoch cookie uniform_destinations built'))))))"

definition CompileLayout ::
  "ParsedSource list \<Rightarrow> u32 list \<Rightarrow> LayoutConfig \<Rightarrow> (Status, CompiledLayout) res" where
  "CompileLayout sources arrival_order config =
     (if \<not> layout_input_ok sources arrival_order config then fail INVALID_ARGUMENT
      else rbind (mfold (collect_source config) sources
             (replicate (unat (lc_worker_count config)) None,
              \<lparr> ep_generation = 0, ep_sequence = 0, ep_wave = 0, ep_ring_slot = 0 \<rparr>))
        (\<lambda>(by_rank, epoch). rbind (mfold (check_arrival config) arrival_order
             (replicate (unat (lc_worker_count config)) False))
           (\<lambda>_. compile_collected config arrival_order by_rank epoch)))"

definition TransitionJournal ::
  "JournalSlotHeader \<Rightarrow> JournalSlotState \<Rightarrow> (Status, JournalSlotHeader) res" where
  "TransitionJournal header to =
     (if jh_magic header \<noteq> kPullDispatchMagic \<or>
         jh_abi_version header \<noteq> kPullDispatchAbiVersion \<or>
         jh_struct_bytes header \<noteq> of_nat sizeof_JournalSlotHeader
      then fail INVALID_ARGUMENT
      else if \<not> ValidJournalTransition (state_of_code (jh_state header)) to
      then fail INVALID_STATE_TRANSITION
      else Inr (header\<lparr>jh_state := state_code to\<rparr>))"

section \<open>What a source offers\<close>

text \<open>
  The run of assignments of a token, the part of it that goes to one destination, and what the
  compiler needs of a source: tokens numbered from zero, runs inside the assignments, workers and
  experts of the layout. Every source that \<open>ParseReadyAndSlot\<close> accepts is of this shape.
\<close>

definition token_run :: "ParsedSource \<Rightarrow> nat \<Rightarrow> AssignmentRecord list" where
  "token_run p t =
     (let b = unat (tok_assignment_begin (ps_tokens p ! t))
      in vslice (ps_assignments p) b (b + unat (tok_assignment_count (ps_tokens p ! t))))"

definition group_of :: "ParsedSource \<Rightarrow> nat \<Rightarrow> nat \<Rightarrow> AssignmentRecord list" where
  "group_of p t d = filter (\<lambda>a. unat (asg_destination_rank a) = d) (token_run p t)"

definition source_wf :: "nat \<Rightarrow> nat \<Rightarrow> ParsedSource \<Rightarrow> bool" where
  "source_wf W E p \<longleftrightarrow> length (ps_tokens p) < 2 ^ 32 \<and> length (ps_assignments p) < 2 ^ 32 \<and>
     (\<forall>t < length (ps_tokens p).
        tok_source_token (ps_tokens p ! t) = of_nat t \<and>
        unat (tok_assignment_begin (ps_tokens p ! t)) + unat (tok_assignment_count (ps_tokens p ! t))
          \<le> length (ps_assignments p) \<and>
        (\<forall>a \<in> set (token_run p t).
           unat (asg_destination_rank a) < W \<and> unat (asg_expert_id a) < E))"

lemma length_token_run:
  assumes "source_wf W E p" and "t < length (ps_tokens p)"
  shows "length (token_run p t) = unat (tok_assignment_count (ps_tokens p ! t))"
  using assms by (simp add: source_wf_def token_run_def Let_def)

lemma vget_run:
  assumes "source_wf W E p" and "t < length (ps_tokens p)"
    and "l < unat (tok_assignment_count (ps_tokens p ! t))"
  shows "vget (ps_assignments p) (unat (tok_assignment_begin (ps_tokens p ! t) + of_nat l)) =
    Inr (token_run p t ! l)"
proof -
  let ?r = "ps_tokens p ! t"
  have le: "unat (tok_assignment_begin ?r) + unat (tok_assignment_count ?r) \<le> length (ps_assignments p)"
    and lt: "length (ps_assignments p) < 2 ^ 32"
    using assms(1,2) by (auto simp: source_wf_def)
  then have "unat (tok_assignment_begin ?r + of_nat l) = unat (tok_assignment_begin ?r) + l"
    using assms(3) by (intro unat_add_of_nat) linarith
  then show ?thesis
    using le assms(3) by (simp add: token_run_def vslice_def Let_def)
qed

definition grouped_upto :: "nat \<Rightarrow> AssignmentRecord list \<Rightarrow> AssignmentRecord list list" where
  "grouped_upto W as = map (\<lambda>d. filter (\<lambda>a. unat (asg_destination_rank a) = d) as) [0..<W]"

lemma length_grouped_upto [simp]: "length (grouped_upto W as) = W"
  by (simp add: grouped_upto_def)

lemma grouped_upto_snoc:
  "unat (asg_destination_rank a) < W \<Longrightarrow>
   (grouped_upto W as)[unat (asg_destination_rank a) :=
      grouped_upto W as ! unat (asg_destination_rank a) @ [a]] = grouped_upto W (as @ [a])"
  by (rule nth_equalityI) (auto simp: grouped_upto_def nth_list_update)

lemma group_assignments:
  assumes "source_wf W E p" and "t < length (ps_tokens p)"
  shows "mfold (group_assignment p (ps_tokens p ! t))
      [0..<unat (tok_assignment_count (ps_tokens p ! t))] (replicate W []) =
    Inr (map (group_of p t) [0..<W])"
proof -
  let ?n = "unat (tok_assignment_count (ps_tokens p ! t))"
  have len: "length (token_run p t) = ?n" by (rule length_token_run [OF assms])
  have "\<exists>g. mfold (group_assignment p (ps_tokens p ! t)) [0..<?n] (replicate W []) = Inr g \<and>
      g = grouped_upto W (take ?n (token_run p t))"
  proof (rule mfold_upt_total)
    show "replicate W [] = grouped_upto W (take 0 (token_run p t))"
      by (simp add: grouped_upto_def map_replicate_const)
  next
    fix l g
    assume l: "l < ?n" and g: "g = grouped_upto W (take l (token_run p t))"
    let ?a = "token_run p t ! l"
    have d: "unat (asg_destination_rank ?a) < W"
      using assms l len by (auto simp: source_wf_def)
    have "take (Suc l) (token_run p t) = take l (token_run p t) @ [?a]"
      using l len by (simp add: take_Suc_conv_app_nth)
    then show "\<exists>v. group_assignment p (ps_tokens p ! t) l g = Inr v \<and>
        v = grouped_upto W (take (Suc l) (token_run p t))"
      using d g grouped_upto_snoc [OF d]
      by (simp add: group_assignment_def vget_run [OF assms l])
  qed
  then show ?thesis using len by (simp add: grouped_upto_def group_of_def comp_def)
qed

section \<open>The placement, job by job\<close>

text \<open>
  A job is one row to place: rank, token and destination. The loops over arrival order, tokens and
  destinations are one loop over the jobs.
\<close>

type_synonym job = "nat \<times> nat \<times> nat"

definition job_group :: "(nat \<Rightarrow> ParsedSource) \<Rightarrow> job \<Rightarrow> AssignmentRecord list" where
  "job_group src j = (case j of (r, t, d) \<Rightarrow> group_of (src r) t d)"

definition jobs_at :: "nat \<Rightarrow> job list \<Rightarrow> job list" where
  "jobs_at d js = filter (\<lambda>j. snd (snd j) = d) js"

definition source_jobs :: "nat \<Rightarrow> (nat \<Rightarrow> ParsedSource) \<Rightarrow> nat \<Rightarrow> job list" where
  "source_jobs W src r = concat (map (\<lambda>t. map (\<lambda>d. (r, t, d))
     (filter (\<lambda>d. group_of (src r) t d \<noteq> []) [0..<W])) [0..<length (ps_tokens (src r))])"

definition layout_jobs :: "nat \<Rightarrow> (nat \<Rightarrow> ParsedSource) \<Rightarrow> nat list \<Rightarrow> job list" where
  "layout_jobs W src ranks = concat (map (source_jobs W src) ranks)"

definition job_ok :: "nat \<Rightarrow> (nat \<Rightarrow> ParsedSource) \<Rightarrow> job \<Rightarrow> bool" where
  "job_ok W src j \<longleftrightarrow> (case j of (r, t, d) \<Rightarrow>
     r < W \<and> t < length (ps_tokens (src r)) \<and> d < W \<and> group_of (src r) t d \<noteq> [])"

lemma set_layout_jobs:
  "set (layout_jobs W src ranks) = {j. fst j \<in> set ranks \<and> fst (snd j) < length (ps_tokens (src (fst j))) \<and>
     snd (snd j) < W \<and> job_group src j \<noteq> []}"
  by (auto simp: layout_jobs_def source_jobs_def job_group_def image_iff)

lemma layout_jobs_ok: "set ranks \<subseteq> {0..<W} \<Longrightarrow> j \<in> set (layout_jobs W src ranks) \<Longrightarrow> job_ok W src j"
  by (cases j) (auto simp: set_layout_jobs job_ok_def job_group_def)

definition place_job ::
  "LayoutConfig \<Rightarrow> (nat \<Rightarrow> ParsedSource) \<Rightarrow> job \<Rightarrow>
     CompiledLayout \<times> JournalContributor list list list \<Rightarrow>
     (Status, CompiledLayout \<times> JournalContributor list list list) res" where
  "place_job config src j = (case j of (r, t, d) \<Rightarrow> place_destination config r t
     (ps_tokens (src r) ! t) (map (group_of (src r) t) [0..<unat (lc_worker_count config)]) d)"

lemma place_source_jobs:
  assumes "by_rank = map (Some \<circ> src) [0..<unat (lc_worker_count config)]"
    and "unat rank < unat (lc_worker_count config)"
    and "source_wf (unat (lc_worker_count config)) E (src (unat rank))"
  shows "place_source config by_rank rank st =
    mfold (place_job config src) (source_jobs (unat (lc_worker_count config)) src (unat rank)) st"
proof -
  let ?W = "unat (lc_worker_count config)" and ?r = "unat rank" and ?p = "src (unat rank)"
  have tok: "place_token config ?r ?p t u = mfold (place_job config src)
      (map (\<lambda>d. (?r, t, d)) (filter (\<lambda>d. group_of ?p t d \<noteq> []) [0..<?W])) u"
    if "t < length (ps_tokens ?p)" for t u
  proof -
    have "mfold (place_destination config ?r t (ps_tokens ?p ! t) (map (group_of ?p t) [0..<?W])) [0..<?W] u =
      mfold (place_destination config ?r t (ps_tokens ?p ! t) (map (group_of ?p t) [0..<?W]))
        (filter (\<lambda>d. group_of ?p t d \<noteq> []) [0..<?W]) u"
      by (rule mfold_filter) (auto simp: vget_def)
    then show ?thesis
      using that group_assignments [OF assms(3) that]
      by (simp add: place_token_def mfold_map place_job_def)
  qed
  have "place_source config by_rank rank st =
      mfold (place_token config ?r ?p) [0..<length (ps_tokens ?p)] st"
    using assms(1,2) by (simp add: place_source_def source_at_def)
  also have "\<dots> = mfold (\<lambda>t. mfold (place_job config src)
      (map (\<lambda>d. (?r, t, d)) (filter (\<lambda>d. group_of ?p t d \<noteq> []) [0..<?W])))
      [0..<length (ps_tokens ?p)] st"
    by (rule mfold_cong) (simp_all add: tok)
  finally show ?thesis
    by (simp add: source_jobs_def mfold_concat mfold_map)
qed

lemma place_sources_jobs:
  assumes "by_rank = map (Some \<circ> src) [0..<unat (lc_worker_count config)]"
    and "\<forall>r < unat (lc_worker_count config). source_wf (unat (lc_worker_count config)) E (src r)"
    and "\<And>r. r \<in> set arrival \<Longrightarrow> r < lc_worker_count config"
  shows "mfold (place_source config by_rank) arrival st =
    mfold (place_job config src)
      (layout_jobs (unat (lc_worker_count config)) src (map unat arrival)) st"
proof -
  have "mfold (place_source config by_rank) arrival st = mfold (\<lambda>rank. mfold (place_job config src)
      (source_jobs (unat (lc_worker_count config)) src (unat rank))) arrival st"
    by (rule mfold_cong)
      (use assms in \<open>auto simp: word_less_nat_alt intro!: place_source_jobs\<close>)
  then show ?thesis by (simp add: layout_jobs_def mfold_concat mfold_map)
qed

text \<open>
  What the jobs of one destination leave behind: the assignments in the order they are appended,
  each with the number of its row; the expert assignments, where the row at an expert is the number
  of earlier assignments to it; and the rows.
\<close>

definition flat :: "(nat \<Rightarrow> ParsedSource) \<Rightarrow> job list \<Rightarrow> (nat \<times> AssignmentRecord) list" where
  "flat src ds = concat (prefix_map (\<lambda>before j. map (Pair (length before)) (job_group src j)) ds)"

definition expert_count :: "nat \<Rightarrow> (nat \<times> AssignmentRecord) list \<Rightarrow> nat" where
  "expert_count e xs = length (filter (\<lambda>(k, a). unat (asg_expert_id a) = e) xs)"

definition expert_of :: "(nat \<times> AssignmentRecord) list \<Rightarrow> nat \<times> AssignmentRecord \<Rightarrow> ExpertAssignment" where
  "expert_of before x = (case x of (k, a) \<Rightarrow>
     \<lparr> ea_destination_row = of_nat k, ea_expert_id = asg_expert_id a,
       ea_expert_row = of_nat (expert_count (unat (asg_expert_id a)) before),
       ea_ordinal = asg_ordinal a, ea_weight = asg_weight a, ea_reserved = (0, 0, 0) \<rparr>)"

definition row_of :: "(nat \<Rightarrow> ParsedSource) \<Rightarrow> job list \<Rightarrow> job \<Rightarrow> DestinationRow" where
  "row_of src before j = (case j of (r, t, d) \<Rightarrow>
     (let record = ps_tokens (src r) ! t
      in \<lparr> dr_route_key = RouteKey (of_nat r) (tok_source_token record),
           dr_token_id = tok_token_id record, dr_source_rank = of_nat r,
           dr_source_token = tok_source_token record,
           dr_destination_row = of_nat (length before),
           dr_assignments_begin = of_nat (length (flat src before)),
           dr_assignments_count = of_nat (length (job_group src j)), dr_reserved = 0 \<rparr>))"

definition contributor_of :: "(nat \<Rightarrow> ParsedSource) \<Rightarrow> job list \<Rightarrow> job \<Rightarrow> JournalContributor" where
  "contributor_of src before j = (case j of (r, t, d) \<Rightarrow>
     \<lparr> jc_worker_rank = of_nat d, jc_destination_row = of_nat (length (jobs_at d before)),
       jc_assignment_begin = of_nat (length (flat src (jobs_at d before))),
       jc_assignment_count = of_nat (length (job_group src j)) \<rparr>)"

definition contributors_at ::
  "(nat \<Rightarrow> ParsedSource) \<Rightarrow> job list \<Rightarrow> nat \<Rightarrow> nat \<Rightarrow> JournalContributor list" where
  "contributors_at src js r t = concat (prefix_map
     (\<lambda>before j. if (fst j, fst (snd j)) = (r, t) then [contributor_of src before j] else []) js)"

definition placed ::
  "nat \<Rightarrow> nat \<Rightarrow> (nat \<Rightarrow> ParsedSource) \<Rightarrow> job list \<Rightarrow>
     CompiledLayout \<times> JournalContributor list list list \<Rightarrow> bool" where
  "placed W E src js st \<longleftrightarrow> (case st of (built, contributor_map) \<Rightarrow>
     cl_destination_rows built = map (\<lambda>d. prefix_map (row_of src) (jobs_at d js)) [0..<W] \<and>
     cl_expert_assignments built =
       map (\<lambda>d. prefix_map expert_of (flat src (jobs_at d js))) [0..<W] \<and>
     length (cl_expert_counts built) = W * E \<and>
     (\<forall>d < W. \<forall>e < E. cl_expert_counts built ! (d * E + e) =
        of_nat (expert_count e (flat src (jobs_at d js)))) \<and>
     contributor_map = map (\<lambda>r. map (contributors_at src js r) [0..<length (ps_tokens (src r))])
       [0..<W] \<and>
     cl_journal_header built = JournalSlotHeader_init \<and> cl_journal_tokens built = [] \<and>
     cl_contributors built = [] \<and> cl_journal_assignments built = [])"

lemma flat_Nil [simp]: "flat src [] = []"
  by (simp add: flat_def)

lemma flat_snoc [simp]:
  "flat src (ds @ [j]) = flat src ds @ map (Pair (length ds)) (job_group src j)"
  by (simp add: flat_def)

lemma jobs_at_Nil [simp]: "jobs_at d [] = []"
  by (simp add: jobs_at_def)

lemma jobs_at_snoc [simp]:
  "jobs_at d (js @ [j]) = jobs_at d js @ (if snd (snd j) = d then [j] else [])"
  by (simp add: jobs_at_def)

lemma contributors_at_Nil [simp]: "contributors_at src [] r t = []"
  by (simp add: contributors_at_def)

lemma contributors_at_snoc [simp]:
  "contributors_at src (js @ [j]) r t = contributors_at src js r t @
     (if (fst j, fst (snd j)) = (r, t) then [contributor_of src js j] else [])"
  by (simp add: contributors_at_def)

lemma index_bound:
  assumes "d < W" and "e < E"
  shows "d * E + e < W * (E :: nat)"
proof -
  have "d * E + e < Suc d * E" using assms(2) by simp
  also have "\<dots> \<le> W * E" using assms(1) by (intro mult_le_mono1) simp
  finally show ?thesis .
qed

lemma placed_empty:
  "placed (unat (lc_worker_count c)) (unat (lc_expert_count c)) src [] (empty_layout c,
     map (\<lambda>r. replicate (length (ps_tokens (src r))) []) [0..<unat (lc_worker_count c)])"
  by (auto simp: placed_def empty_layout_def map_replicate_const expert_count_def index_bound
      intro!: nth_equalityI)

lemma count_index:
  assumes "d < unat W" and "W \<le> kPullDispatchMaxWorkers" and "e < (E :: u32)"
  shows "unat ((of_nat d :: u64) * ucast E + ucast e) = d * unat E + unat e"
proof -
  have d: "d < 128" using assms(1,2) by (simp add: word_le_nat_alt abi_consts)
  have E: "unat E < 2 ^ 32" using unsigned_less [of E, where ?'a = nat] by simp
  have e: "unat e < unat E" using assms(3) by (simp add: word_less_nat_alt)
  have "d * unat E + unat e < 128 * 2 ^ 32"
    using index_bound [OF d e] mult_le_mono2 [OF less_imp_le [OF E], of 128] by linarith
  then have le: "d * unat E + unat e < 2 ^ 64" by simp
  then have m: "unat ((of_nat d :: u64) * ucast E) = d * unat E"
    using d by (simp add: unat_word_ariths unat_of_nat unat_ucast_u64)
  show ?thesis using le by (simp add: unat_word_ariths(1) m unat_ucast_u64)
qed

lemma index_inject:
  "e < E \<Longrightarrow> e' < (E :: nat) \<Longrightarrow> d * E + e = d' * E + e' \<longleftrightarrow> d = d' \<and> e = e'"
  by (metis add.commute add_left_cancel div_mult_self3 div_less add_0_right not_less_zero)

lemma expert_count_snoc:
  "expert_count e (xs @ [(k, a)]) = expert_count e xs + (if unat (asg_expert_id a) = e then 1 else 0)"
  by (simp add: expert_count_def)

definition experts_placed ::
  "nat \<Rightarrow> nat \<Rightarrow> nat \<Rightarrow> CompiledLayout \<Rightarrow> (nat \<times> AssignmentRecord) list \<Rightarrow> CompiledLayout \<Rightarrow> bool" where
  "experts_placed W E d built fl built' \<longleftrightarrow>
     (\<exists>counts. built' = built\<lparr>cl_expert_counts := counts,
        cl_expert_assignments := (cl_expert_assignments built)[d := prefix_map expert_of fl]\<rparr> \<and>
      length counts = W * E \<and>
      (\<forall>d' < W. \<forall>e < E. counts ! (d' * E + e) =
         (if d' = d then of_nat (expert_count e fl) else cl_expert_counts built ! (d' * E + e))))"

lemma place_expert_step:
  assumes c: "W = unat (lc_worker_count c)" "E = unat (lc_expert_count c)"
    and W: "lc_worker_count c \<le> kPullDispatchMaxWorkers" and d: "d < W"
    and len: "length (cl_expert_assignments built) = W"
    and a: "unat (asg_expert_id a) < E"
    and inv: "experts_placed W E d built fl u"
  shows "\<exists>v. place_expert c d (of_nat k) a u = Inr v \<and>
    experts_placed W E d built (fl @ [(k, a)]) v"
proof -
  let ?e = "unat (asg_expert_id a)"
  from inv obtain counts where u: "u = built\<lparr>cl_expert_counts := counts,
        cl_expert_assignments := (cl_expert_assignments built)[d := prefix_map expert_of fl]\<rparr>"
    and lc: "length counts = W * E"
    and cs: "\<And>d' e. d' < W \<Longrightarrow> e < E \<Longrightarrow> counts ! (d' * E + e) =
         (if d' = d then of_nat (expert_count e fl) else cl_expert_counts built ! (d' * E + e))"
    unfolding experts_placed_def by auto
  have ix: "unat ((of_nat d :: u64) * ucast (lc_expert_count c) + ucast (asg_expert_id a)) = d * E + ?e"
    using count_index [of d "lc_worker_count c" "asg_expert_id a" "lc_expert_count c"] c W d a
    by (simp add: word_less_nat_alt)
  have lt: "d * E + ?e < length counts" using index_bound [OF d a] lc by simp
  let ?counts = "counts[d * E + ?e := counts ! (d * E + ?e) + 1]"
  have "?counts ! (d' * E + e) = (if d' = d then of_nat (expert_count e (fl @ [(k, a)]))
      else cl_expert_counts built ! (d' * E + e))" if "d' < W" "e < E" for d' e
  proof (cases "d' = d \<and> e = ?e")
    case True
    then show ?thesis using lt cs [OF d a] by (simp add: expert_count_snoc)
  next
    case False
    then have "d * E + ?e \<noteq> d' * E + e" using index_inject [OF a that(2), of d d'] by auto
    then have "?counts ! (d' * E + e) = counts ! (d' * E + e)" by simp
    also have "\<dots> = (if d' = d then of_nat (expert_count e fl)
        else cl_expert_counts built ! (d' * E + e))" by (rule cs [OF that])
    finally show ?thesis using False by (auto simp: expert_count_snoc)
  qed
  then have "experts_placed W E d built (fl @ [(k, a)]) (built\<lparr>cl_expert_counts := ?counts,
      cl_expert_assignments := (cl_expert_assignments built)[d := prefix_map expert_of (fl @ [(k, a)])]\<rparr>)"
    unfolding experts_placed_def by (intro exI [of _ ?counts]) (simp add: lc)
  moreover have "place_expert c d (of_nat k) a u = Inr (built\<lparr>cl_expert_counts := ?counts,
      cl_expert_assignments := (cl_expert_assignments built)[d := prefix_map expert_of (fl @ [(k, a)])]\<rparr>)"
    using lt len d by (simp add: place_expert_def u Let_def ix expert_of_def cs [OF d a])
  ultimately show ?thesis by blast
qed

lemma place_experts:
  assumes "W = unat (lc_worker_count c)" "E = unat (lc_expert_count c)"
    and "lc_worker_count c \<le> kPullDispatchMaxWorkers" and "d < W"
    and "length (cl_expert_assignments built) = W"
    and "\<forall>a \<in> set as. unat (asg_expert_id a) < E"
    and "experts_placed W E d built fl built"
  shows "\<exists>built'. mfold (place_expert c d (of_nat k)) as built = Inr built' \<and>
    experts_placed W E d built (fl @ map (Pair k) as) built'"
proof (rule mfold_total [where P = "\<lambda>ys. experts_placed W E d built (fl @ map (Pair k) ys)"])
  fix ys a zs u
  assume "as = ys @ a # zs" "experts_placed W E d built (fl @ map (Pair k) ys) u"
  then show "\<exists>v. place_expert c d (of_nat k) a u = Inr v \<and>
      experts_placed W E d built (fl @ map (Pair k) (ys @ [a])) v"
    using place_expert_step [OF assms(1-5), of a "fl @ map (Pair k) ys" u k] assms(6) by simp
qed (use assms(7) in simp)

lemma job_group_wf:
  assumes "job_ok W src j" and "\<forall>r < W. source_wf W E (src r)" and "a \<in> set (job_group src j)"
  shows "unat (asg_expert_id a) < E"
  using assms by (cases j) (auto simp: job_ok_def job_group_def group_of_def source_wf_def)

lemma place_job_step:
  assumes c: "W = unat (lc_worker_count c)" "E = unat (lc_expert_count c)"
    and W: "lc_worker_count c \<le> kPullDispatchMaxWorkers"
    and wf: "\<forall>r < W. source_wf W E (src r)"
    and ok: "job_ok W src j" and inv: "placed W E src js st"
  shows "place_job c src j st = fail CAPACITY_EXCEEDED \<or>
    (\<exists>st'. place_job c src j st = Inr st' \<and> placed W E src (js @ [j]) st')"
proof -
  obtain r t d where j: "j = (r, t, d)" by (cases j)
  obtain built cm where st: "st = (built, cm)" by (cases st)
  have r: "r < W" "t < length (ps_tokens (src r))" and d: "d < W" and g: "group_of (src r) t d \<noteq> []"
    using ok by (auto simp: job_ok_def j)
  let ?at = "jobs_at d js" and ?fl = "flat src (jobs_at d js)" and ?g = "group_of (src r) t d"
  from inv have rows: "cl_destination_rows built = map (\<lambda>d. prefix_map (row_of src) (jobs_at d js)) [0..<W]"
    and exps: "cl_expert_assignments built =
       map (\<lambda>d. prefix_map expert_of (flat src (jobs_at d js))) [0..<W]"
    and cnt: "length (cl_expert_counts built) = W * E"
       "\<And>d e. d < W \<Longrightarrow> e < E \<Longrightarrow> cl_expert_counts built ! (d * E + e) =
        of_nat (expert_count e (flat src (jobs_at d js)))"
    and cm: "cm = map (\<lambda>r. map (contributors_at src js r) [0..<length (ps_tokens (src r))]) [0..<W]"
    by (auto simp: placed_def st)
  have eg: "\<forall>a \<in> set ?g. unat (asg_expert_id a) < E"
    using job_group_wf [OF ok wf] by (simp add: job_group_def j)
  have "(cl_expert_assignments built)[d := prefix_map expert_of ?fl] = cl_expert_assignments built"
    using d by (intro nth_equalityI) (auto simp: exps nth_list_update)
  then have "experts_placed W E d built ?fl built"
    unfolding experts_placed_def using cnt d by (intro exI [of _ "cl_expert_counts built"]) auto
  then obtain built' where ex: "mfold (place_expert c d (of_nat (length ?at))) ?g built = Inr built'"
    and placed': "experts_placed W E d built (?fl @ map (Pair (length ?at)) ?g) built'"
    using place_experts [OF c W d _ eg, of built ?fl "length ?at"] by (auto simp: exps)
  from placed' obtain counts where b': "built' = built\<lparr>cl_expert_counts := counts,
        cl_expert_assignments := (cl_expert_assignments built)[d := prefix_map expert_of
          (?fl @ map (Pair (length ?at)) ?g)]\<rparr>"
    and counts: "length counts = W * E" "\<And>d' e. d' < W \<Longrightarrow> e < E \<Longrightarrow> counts ! (d' * E + e) =
         (if d' = d then of_nat (expert_count e (?fl @ map (Pair (length ?at)) ?g))
          else cl_expert_counts built ! (d' * E + e))"
    unfolding experts_placed_def by auto
  let ?row = "row_of src ?at j" and ?con = "contributor_of src js j"
  let ?built = "built'\<lparr>cl_destination_rows := (cl_destination_rows built)[d := prefix_map (row_of src) ?at @ [?row]]\<rparr>"
  let ?cm = "cm[r := (cm ! r)[t := contributors_at src js r t @ [?con]]]"
  have run: "place_job c src j st = fail CAPACITY_EXCEEDED \<or> place_job c src j st = Inr (?built, ?cm)"
    using r d g ex
    by (auto simp: place_job_def j st rows exps cm c(1) [symmetric] b' Let_def push_contributor_def
        row_of_def contributor_of_def job_group_def)
  have jg: "job_group src j = ?g" and dj: "snd (snd j) = d" "fst j = r" "fst (snd j) = t"
    by (simp_all add: j job_group_def)
  have rows': "cl_destination_rows ?built =
      map (\<lambda>d. prefix_map (row_of src) (jobs_at d (js @ [j]))) [0..<W]"
    using d by (intro nth_equalityI) (auto simp: rows nth_list_update dj)
  have exps': "cl_expert_assignments ?built =
      map (\<lambda>d. prefix_map expert_of (flat src (jobs_at d (js @ [j])))) [0..<W]"
    using d by (intro nth_equalityI) (auto simp: b' exps nth_list_update dj jg)
  have counts': "counts ! (d' * E + e) = of_nat (expert_count e (flat src (jobs_at d' (js @ [j]))))"
    if "d' < W" "e < E" for d' e
    using counts(2) [OF that] cnt(2) [OF that] by (auto simp: dj jg)
  have cm': "?cm = map (\<lambda>r. map (contributors_at src (js @ [j]) r) [0..<length (ps_tokens (src r))]) [0..<W]"
    using r by (intro nth_equalityI) (auto simp: cm nth_list_update dj intro!: nth_equalityI)
  have "placed W E src (js @ [j]) (?built, ?cm)"
    unfolding placed_def prod.case using rows' exps' cm' counts' counts(1) inv
    by (simp add: b' placed_def st)
  then show ?thesis using run by blast
qed

lemma place_jobs:
  assumes "W = unat (lc_worker_count c)" "E = unat (lc_expert_count c)"
    and "lc_worker_count c \<le> kPullDispatchMaxWorkers"
    and "\<forall>r < W. source_wf W E (src r)"
    and "\<And>j. j \<in> set js \<Longrightarrow> job_ok W src j"
  shows "mfold (place_job c src) js (empty_layout c, map (\<lambda>r. replicate (length (ps_tokens (src r))) [])
      [0..<unat (lc_worker_count c)]) = fail CAPACITY_EXCEEDED \<or>
    (\<exists>st. mfold (place_job c src) js (empty_layout c, map (\<lambda>r. replicate (length (ps_tokens (src r))) [])
      [0..<unat (lc_worker_count c)]) = Inr st \<and> placed W E src js st)"
proof -
  let ?s = "(empty_layout c, map (\<lambda>r. replicate (length (ps_tokens (src r))) [])
      [0..<unat (lc_worker_count c)])"
  have "(\<exists>e \<in> {CAPACITY_EXCEEDED}. mfold (place_job c src) js ?s = fail e) \<or>
      (\<exists>st. mfold (place_job c src) js ?s = Inr st \<and> placed W E src js st)"
  proof (rule mfold_run)
    show "placed W E src [] ?s" using placed_empty [of c src] assms(1,2) by simp
  next
    fix ys j zs u
    assume "js = ys @ j # zs" "placed W E src ys u"
    then show "(\<exists>e \<in> {CAPACITY_EXCEEDED}. place_job c src j u = fail e) \<or>
        (\<exists>v. place_job c src j u = Inr v \<and> placed W E src (ys @ [j]) v)"
      using place_job_step [OF assms(1-4), where j = j and js = ys and st = u] assms(5) by simp
  qed
  then show ?thesis by simp
qed

section \<open>Collecting the sources\<close>

abbreviation source_rank :: "ParsedSource \<Rightarrow> nat" where
  "source_rank p \<equiv> unat (sh_source_rank (ps_header p))"

definition rank_source :: "ParsedSource list \<Rightarrow> nat \<Rightarrow> ParsedSource" where
  "rank_source sources r = the (find (\<lambda>p. source_rank p = r) sources)"

lemma find_snoc:
  "find P (xs @ [x]) = (if find P xs = None then if P x then Some x else None else find P xs)"
  by (induction xs) auto

lemma distinct_ranks_cover:
  assumes "distinct xs" and "set xs \<subseteq> {0..<W}" and "length xs = W"
  shows "set xs = {0..<W}"
  by (rule card_subset_eq) (use assms distinct_card [of xs] in auto)

definition collected :: "nat \<Rightarrow> ParsedSource list \<Rightarrow> ParsedSource option list \<times> Epoch \<Rightarrow> bool" where
  "collected W ys st \<longleftrightarrow> (case st of (by_rank, epoch) \<Rightarrow>
     length by_rank = W \<and> distinct (map source_rank ys) \<and> (\<forall>p \<in> set ys. source_rank p < W) \<and>
     (\<forall>r < W. by_rank ! r = find (\<lambda>p. source_rank p = r) ys) \<and>
     (ys = [] \<longrightarrow> ep_generation epoch = 0) \<and>
     ((\<forall>p \<in> set ys. sh_generation (ps_header p) \<noteq> 0) \<longrightarrow>
      (\<forall>p \<in> set ys. header_epoch (ps_header p) = epoch)))"

lemma collect_source_step:
  assumes W: "W = unat (lc_worker_count c)" and inv: "collected W ys st"
  shows "(\<exists>e \<in> {DUPLICATE_SOURCE, STALE_EPOCH}. collect_source c p st = fail e) \<or>
    (\<exists>st'. collect_source c p st = Inr st' \<and> collected W (ys @ [p]) st')"
proof -
  obtain by_rank ep where st: "st = (by_rank, ep)" by (cases st)
  let ?r = "source_rank p"
  have len: "length by_rank = W" and dist: "distinct (map source_rank ys)"
    and rng: "\<forall>p \<in> set ys. source_rank p < W"
    and look: "\<And>r. r < W \<Longrightarrow> by_rank ! r = find (\<lambda>p. source_rank p = r) ys"
    and nil: "ys = [] \<longrightarrow> ep_generation ep = 0"
    and epo: "(\<forall>p \<in> set ys. sh_generation (ps_header p) \<noteq> 0) \<longrightarrow>
      (\<forall>p \<in> set ys. header_epoch (ps_header p) = ep)"
    using inv by (auto simp: collected_def st)
  show ?thesis
  proof (cases "?r < W \<and> by_rank ! ?r = None")
    case False
    then show ?thesis
      using len W by (auto simp: st word_le_nat_alt Let_def)
  next
    case True
    then have new: "\<forall>q \<in> set ys. source_rank q \<noteq> ?r"
      using look [of ?r] by (auto simp: find_None_iff eq_commute [of None])
    have step: "collected W (ys @ [p]) (by_rank[?r := Some p], ep')"
      if "(\<forall>q \<in> set (ys @ [p]). sh_generation (ps_header q) \<noteq> 0) \<longrightarrow>
          (\<forall>q \<in> set (ys @ [p]). header_epoch (ps_header q) = ep')" for ep'
      using that True len dist rng new
      by (auto simp: collected_def nth_list_update look find_snoc find_None_iff)
    have first: "ys = []" if "ep_generation ep = 0" "\<forall>q \<in> set ys. sh_generation (ps_header q) \<noteq> 0"
      using epo that by (cases ys) (auto simp: header_epoch_def)
    have run: "collect_source c p st = (if ep_generation ep = 0
        then Inr (by_rank[?r := Some p], header_epoch (ps_header p))
        else if header_epoch (ps_header p) \<noteq> ep \<or> sh_worker_count (ps_header p) \<noteq> lc_worker_count c
        then fail STALE_EPOCH else Inr (by_rank[?r := Some p], ep))"
      using True len W by (simp add: st Let_def word_le_nat_alt not_le)
    have "collected W (ys @ [p]) (by_rank[?r := Some p], header_epoch (ps_header p))"
      if "ep_generation ep = 0" using first [OF that] by (intro step) auto
    moreover have "collected W (ys @ [p]) (by_rank[?r := Some p], ep)"
      if "header_epoch (ps_header p) = ep" using that epo by (intro step) auto
    ultimately show ?thesis by (simp add: run)
  qed
qed

lemma collect_sources:
  assumes W: "W = unat (lc_worker_count c)" and len: "length sources = W"
  shows "(\<exists>e \<in> {DUPLICATE_SOURCE, STALE_EPOCH}. mfold (collect_source c) sources
        (replicate W None, \<lparr> ep_generation = 0, ep_sequence = 0, ep_wave = 0, ep_ring_slot = 0 \<rparr>) = fail e) \<or>
    (\<exists>epoch. mfold (collect_source c) sources
        (replicate W None, \<lparr> ep_generation = 0, ep_sequence = 0, ep_wave = 0, ep_ring_slot = 0 \<rparr>) =
          Inr (map (Some \<circ> rank_source sources) [0..<W], epoch) \<and>
      (\<forall>r < W. rank_source sources r \<in> set sources \<and> source_rank (rank_source sources r) = r) \<and>
      ((\<forall>p \<in> set sources. sh_generation (ps_header p) \<noteq> 0) \<longrightarrow>
       (\<forall>p \<in> set sources. header_epoch (ps_header p) = epoch)))"
proof -
  let ?s = "(replicate W None, \<lparr> ep_generation = 0, ep_sequence = 0, ep_wave = 0, ep_ring_slot = 0 \<rparr>)"
  have "(\<exists>e \<in> {DUPLICATE_SOURCE, STALE_EPOCH}. mfold (collect_source c) sources ?s = fail e) \<or>
      (\<exists>st. mfold (collect_source c) sources ?s = Inr st \<and> collected W sources st)"
    by (rule mfold_run) (use collect_source_step [OF W] in \<open>auto simp: collected_def\<close>)
  moreover have "\<exists>epoch. st = (map (Some \<circ> rank_source sources) [0..<W], epoch) \<and>
      (\<forall>r < W. rank_source sources r \<in> set sources \<and> source_rank (rank_source sources r) = r) \<and>
      ((\<forall>p \<in> set sources. sh_generation (ps_header p) \<noteq> 0) \<longrightarrow>
       (\<forall>p \<in> set sources. header_epoch (ps_header p) = epoch))" if "collected W sources st" for st
  proof -
    obtain by_rank ep where st: "st = (by_rank, ep)" by (cases st)
    have cover: "set (map source_rank sources) = {0..<W}"
      by (rule distinct_ranks_cover) (use that len in \<open>auto simp: collected_def st\<close>)
    have some: "\<exists>q. find (\<lambda>p. source_rank p = r) sources = Some q \<and> q \<in> set sources \<and> source_rank q = r"
      if "r < W" for r
    proof -
      have "r \<in> source_rank ` set sources" using cover that by auto
      then have "find (\<lambda>p. source_rank p = r) sources \<noteq> None" by (auto simp: find_None_iff)
      then show ?thesis by (auto simp: find_Some_iff intro: nth_mem)
    qed
    have "by_rank = map (Some \<circ> rank_source sources) [0..<W]"
      using that some by (intro nth_equalityI) (auto simp: collected_def st rank_source_def dest!: some)
    then show ?thesis
      using that some by (auto simp: collected_def st rank_source_def dest!: some)
  qed
  ultimately show ?thesis by blast
qed

lemma check_arrivals:
  assumes W: "W = unat (lc_worker_count c)" and len: "length arrival = W"
  shows "mfold (check_arrival c) arrival (replicate W False) = fail DUPLICATE_SOURCE \<or>
    (\<exists>seen. mfold (check_arrival c) arrival (replicate W False) = Inr seen) \<and>
      distinct (map unat arrival) \<and> set (map unat arrival) = {0..<W}"
proof -
  let ?P = "\<lambda>(ys :: u32 list) seen. length seen = W \<and> distinct (map unat ys) \<and> (\<forall>r \<in> set ys. unat r < W) \<and>
    (\<forall>r < W. seen ! r \<longleftrightarrow> r \<in> unat ` set ys)"
  have "(\<exists>e \<in> {DUPLICATE_SOURCE}. mfold (check_arrival c) arrival (replicate W False) = fail e) \<or>
      (\<exists>seen. mfold (check_arrival c) arrival (replicate W False) = Inr seen \<and> ?P arrival seen)"
  proof (rule mfold_run)
    fix ys r zs seen
    assume P: "?P ys seen"
    show "(\<exists>e \<in> {DUPLICATE_SOURCE}. check_arrival c r seen = fail e) \<or>
        (\<exists>v. check_arrival c r seen = Inr v \<and> ?P (ys @ [r]) v)"
    proof (cases "unat r < W \<and> \<not> seen ! unat r")
      case True
      then show ?thesis using P W by (auto simp: check_arrival_def word_le_nat_alt nth_list_update)
    next
      case False
      then show ?thesis using P W by (auto simp: check_arrival_def word_le_nat_alt)
    qed
  qed simp
  then show ?thesis
    using distinct_ranks_cover [of "map unat arrival" W] len by (auto simp: image_subset_iff)
qed

section \<open>The journal, token by token\<close>

type_synonym key = "nat \<times> nat"

definition journal_keys :: "(nat \<Rightarrow> ParsedSource) \<Rightarrow> nat list \<Rightarrow> key list" where
  "journal_keys src ranks = concat (map (\<lambda>r. map (Pair r) [0..<length (ps_tokens (src r))]) ranks)"

definition key_run :: "(nat \<Rightarrow> ParsedSource) \<Rightarrow> key \<Rightarrow> AssignmentRecord list" where
  "key_run src k = token_run (src (fst k)) (snd k)"

definition entry_of ::
  "(nat \<Rightarrow> ParsedSource) \<Rightarrow> (key \<Rightarrow> JournalContributor list) \<Rightarrow> key list \<Rightarrow> key \<Rightarrow> JournalTokenEntry" where
  "entry_of src con before k =
     (let record = ps_tokens (src (fst k)) ! snd k
      in \<lparr> jt_route_key = RouteKey (of_nat (fst k)) (tok_source_token record),
           jt_token_id = tok_token_id record, jt_owner_rank = of_nat (fst k),
           jt_owner_row = tok_source_token record,
           jt_contributors_begin = of_nat (length (concat (map con before))),
           jt_contributors_count = of_nat (length (con k)),
           jt_assignments_begin = of_nat (length (concat (map (key_run src) before))),
           jt_assignments_count = tok_assignment_count record,
           jt_accumulator_index = of_nat (length before),
           jt_flags = 0, jt_reserved = (0, 0) \<rparr>)"

definition journaled ::
  "(nat \<Rightarrow> ParsedSource) \<Rightarrow> (key \<Rightarrow> JournalContributor list) \<Rightarrow> CompiledLayout \<Rightarrow> key list \<Rightarrow>
     CompiledLayout \<Rightarrow> bool" where
  "journaled src con built ks built' \<longleftrightarrow>
     built' = built\<lparr> cl_contributors := concat (map con ks),
       cl_journal_assignments := concat (map (key_run src) ks),
       cl_journal_tokens := prefix_map (entry_of src con) ks \<rparr> \<and>
     length ks < 2 ^ 32 \<and> length (concat (map con ks)) < 2 ^ 32 \<and>
     length (concat (map (key_run src) ks)) < 2 ^ 32"

abbreviation token_map :: "nat \<Rightarrow> (nat \<Rightarrow> ParsedSource) \<Rightarrow> (key \<Rightarrow> 'a) \<Rightarrow> 'a list list" where
  "token_map W src con \<equiv> map (\<lambda>r. map (\<lambda>t. con (r, t)) [0..<length (ps_tokens (src r))]) [0..<W]"

lemma size_limit: "int n > 2 ^ 32 - 1 \<longleftrightarrow> \<not> n < 2 ^ 32" "int n \<ge> 2 ^ 32 - 1 \<longleftrightarrow> \<not> Suc n < 2 ^ 32"
  by auto

lemma journal_token_step:
  assumes r: "r < W" "t < length (ps_tokens (src r))" and wf: "source_wf W E (src r)"
    and inv: "journaled src con built ks u"
  shows "journal_token r (src r) (token_map W src con) t u = fail SIZE_OVERFLOW \<or>
    (\<exists>v. journal_token r (src r) (token_map W src con) t u = Inr v \<and>
       journaled src con built (ks @ [(r, t)]) v)"
proof -
  let ?r = "ps_tokens (src r) ! t"
  have run: "vslice (ps_assignments (src r)) (unat (tok_assignment_begin ?r))
      (unat (tok_assignment_begin ?r) + unat (tok_assignment_count ?r)) = key_run src (r, t)"
    by (simp add: key_run_def token_run_def Let_def)
  have len: "unat (tok_assignment_count ?r) = length (key_run src (r, t))"
    using length_token_run [OF wf r(2)] by (simp add: key_run_def)
  have bnd: "\<not> unat (tok_assignment_begin ?r) + unat (tok_assignment_count ?r) > length (ps_assignments (src r))"
    using wf r(2) by (auto simp: source_wf_def not_less)
  from inv have u: "u = built\<lparr> cl_contributors := concat (map con ks),
       cl_journal_assignments := concat (map (key_run src) ks),
       cl_journal_tokens := prefix_map (entry_of src con) ks \<rparr>" by (simp add: journaled_def)
  let ?big = "int (length ks) \<ge> 2 ^ 32 - 1 \<or> int (length (concat (map con ks)) + length (con (r, t))) > 2 ^ 32 - 1 \<or>
    int (length (concat (map (key_run src) ks)) + unat (tok_assignment_count ?r)) > 2 ^ 32 - 1"
  let ?v = "built\<lparr> cl_contributors := concat (map con (ks @ [(r, t)])),
       cl_journal_assignments := concat (map (key_run src) (ks @ [(r, t)])),
       cl_journal_tokens := prefix_map (entry_of src con) (ks @ [(r, t)]) \<rparr>"
  have "journal_token r (src r) (token_map W src con) t u =
      (if ?big then fail SIZE_OVERFLOW else Inr ?v)"
    unfolding journal_token_def using r bnd by (simp add: u entry_of_def Let_def run del: length_concat)
  moreover have "journaled src con built (ks @ [(r, t)]) ?v" if "\<not> ?big"
    using that unfolding size_limit len by (simp add: journaled_def del: length_concat)
  ultimately show ?thesis by auto
qed

lemma journal_sources:
  assumes "by_rank = map (Some \<circ> src) [0..<W]" and "set ranks \<subseteq> {0..<W}"
  shows "mfold (journal_source by_rank cm) ranks (cookie, built) =
    rbind (mfold (\<lambda>k. journal_token (fst k) (src (fst k)) cm (snd k)) (journal_keys src ranks) built)
      (\<lambda>built'. Inr (fold (\<lambda>r h. HashBytes h (le_bytes 8 (sh_metadata_digest (ps_header (src r)))))
         ranks cookie, built'))"
  using assms(2)
proof (induction ranks arbitrary: cookie built)
  case Nil
  then show ?case by (simp add: journal_keys_def)
next
  case (Cons r ranks)
  have "source_at by_rank r = Inr (src r)" using Cons.prems by (simp add: assms(1) source_at_def)
  moreover have "journal_keys src (r # ranks) = map (Pair r) [0..<length (ps_tokens (src r))] @ journal_keys src ranks"
    by (simp add: journal_keys_def)
  ultimately show ?case
    using Cons by (simp add: mfold_append mfold_map rbind_assoc)
qed

lemma journal_all:
  assumes "\<forall>r < W. source_wf W E (src r)" and "cl_contributors built = []"
    and "cl_journal_assignments built = []" and "cl_journal_tokens built = []"
    and "ks = journal_keys src [0..<W]"
  shows "mfold (\<lambda>k. journal_token (fst k) (src (fst k)) (token_map W src con) (snd k)) ks built =
      fail SIZE_OVERFLOW \<or>
    (\<exists>built'. mfold (\<lambda>k. journal_token (fst k) (src (fst k)) (token_map W src con) (snd k)) ks built =
      Inr built' \<and> journaled src con built ks built')"
proof -
  have "(\<exists>e \<in> {SIZE_OVERFLOW}. mfold (\<lambda>k. journal_token (fst k) (src (fst k)) (token_map W src con) (snd k)) ks built =
      fail e) \<or>
    (\<exists>built'. mfold (\<lambda>k. journal_token (fst k) (src (fst k)) (token_map W src con) (snd k)) ks built =
      Inr built' \<and> journaled src con built ks built')"
  proof (rule mfold_run)
    show "journaled src con built [] built" using assms(2-4) by (simp add: journaled_def)
  next
    fix ys k zs u
    assume "ks = ys @ k # zs" and inv: "journaled src con built ys u"
    then have "k \<in> set (journal_keys src [0..<W])" by (simp add: assms(5))
    then obtain r t where "k = (r, t)" "r < W" "t < length (ps_tokens (src r))"
      by (auto simp: journal_keys_def)
    then show "(\<exists>e \<in> {SIZE_OVERFLOW}. journal_token (fst k) (src (fst k)) (token_map W src con) (snd k) u = fail e) \<or>
       (\<exists>v. journal_token (fst k) (src (fst k)) (token_map W src con) (snd k) u = Inr v \<and>
          journaled src con built (ys @ [k]) v)"
      using journal_token_step [of r W t src E con built ys u] assms(1) inv by simp
  qed
  then show ?thesis by simp
qed

section \<open>The uniform flag\<close>

definition run_dests :: "ParsedSource \<Rightarrow> nat \<Rightarrow> nat list" where
  "run_dests p t = map (\<lambda>a. unat (asg_destination_rank a)) (token_run p t)"

text \<open>The property the flag announces: within a source, every token has one assignment per
  destination and all tokens have the same destinations.\<close>

definition uniform_source :: "ParsedSource \<Rightarrow> bool" where
  "uniform_source p \<longleftrightarrow> (\<forall>t < length (ps_tokens p).
     distinct (run_dests p t) \<and> set (run_dests p t) = set (run_dests p 0))"

definition dest_flags :: "nat \<Rightarrow> nat list \<Rightarrow> bool list" where
  "dest_flags W ds = map (\<lambda>d. d \<in> set ds) [0..<W]"

lemma length_dest_flags [simp]: "length (dest_flags W ds) = W"
  by (simp add: dest_flags_def)

lemma nth_dest_flags [simp]: "d < W \<Longrightarrow> dest_flags W ds ! d \<longleftrightarrow> d \<in> set ds"
  by (simp add: dest_flags_def)

lemma dest_flags_inject:
  assumes "set ds \<subseteq> {0..<W}" and "set es \<subseteq> {0..<W}"
  shows "dest_flags W ds = dest_flags W es \<longleftrightarrow> set ds = set es"
proof
  assume "dest_flags W ds = dest_flags W es"
  then have "\<forall>d \<in> {0..<W}. d \<in> set ds \<longleftrightarrow> d \<in> set es" by (auto simp: dest_flags_def)
  then show "set ds = set es" using assms by blast
qed (simp add: dest_flags_def)

lemma token_destinations_loop:
  assumes wf: "source_wf W E p" "t < length (ps_tokens p)"
    and "i \<le> unat (tok_assignment_count (ps_tokens p ! t))"
    and "distinct (take i (run_dests p t))"
  shows "token_destinations p (ps_tokens p ! t) [i..<unat (tok_assignment_count (ps_tokens p ! t))]
      (dest_flags W (take i (run_dests p t))) =
    Inr (if distinct (run_dests p t) then Some (dest_flags W (run_dests p t)) else None)"
  using assms(3,4)
proof (induction "unat (tok_assignment_count (ps_tokens p ! t)) - i" arbitrary: i)
  case 0
  then show ?case using length_token_run [OF wf] by (simp add: run_dests_def)
next
  case (Suc k)
  let ?n = "unat (tok_assignment_count (ps_tokens p ! t))" and ?ds = "run_dests p t"
  have i: "i < ?n" using Suc.hyps(2) by simp
  have len: "length ?ds = ?n" using length_token_run [OF wf] by (simp add: run_dests_def)
  have d: "?ds ! i < W" using wf i length_token_run [OF wf] by (auto simp: source_wf_def run_dests_def)
  have di: "unat (asg_destination_rank (token_run p t ! i)) = ?ds ! i"
    using i len by (simp add: run_dests_def)
  have tk: "take (Suc i) ?ds = take i ?ds @ [?ds ! i]" using i len by (simp add: take_Suc_conv_app_nth)
  have flags: "(dest_flags W (take i ?ds))[?ds ! i := True] = dest_flags W (take (Suc i) ?ds)"
    using d by (intro nth_equalityI) (auto simp: dest_flags_def tk nth_list_update)
  have nd: "\<not> distinct ?ds" if "?ds ! i \<in> set (take i ?ds)"
  proof
    assume "distinct ?ds"
    then have "distinct (take (Suc i) ?ds)" by (rule distinct_take)
    then show False using that by (simp add: tk)
  qed
  have IH: "token_destinations p (ps_tokens p ! t) [Suc i..<?n] (dest_flags W (take (Suc i) ?ds)) =
      Inr (if distinct ?ds then Some (dest_flags W ?ds) else None)" if "?ds ! i \<notin> set (take i ?ds)"
    by (rule Suc.hyps(1)) (use Suc.hyps(2) Suc.prems i that in \<open>auto simp: tk\<close>)
  show ?case
    using d nd i IH
    by (auto simp: upt_conv_Cons [OF i] vget_run [OF wf i] di flags)
qed

lemma token_destinations_eq:
  assumes "source_wf W E p" "t < length (ps_tokens p)"
  shows "token_destinations p (ps_tokens p ! t) [0..<unat (tok_assignment_count (ps_tokens p ! t))]
      (replicate W False) =
    Inr (if distinct (run_dests p t) then Some (dest_flags W (run_dests p t)) else None)"
  using token_destinations_loop [OF assms, of 0] by (simp add: dest_flags_def map_replicate_const)

lemma run_dests_range: "source_wf W E p \<Longrightarrow> t < length (ps_tokens p) \<Longrightarrow> set (run_dests p t) \<subseteq> {0..<W}"
  by (auto simp: source_wf_def run_dests_def)

lemma uniform_tokens_rest:
  assumes W: "W = unat (lc_worker_count c)" and wf: "source_wf W E p" and "0 < length (ps_tokens p)"
    and "0 \<notin> set ts" and "set ts \<subseteq> {0..<length (ps_tokens p)}"
  shows "uniform_tokens c p ts (dest_flags W (run_dests p 0)) =
    Inr (\<forall>t \<in> set ts. distinct (run_dests p t) \<and> set (run_dests p t) = set (run_dests p 0))"
  using assms(4,5)
proof (induction ts)
  case (Cons t ts)
  have t: "t < length (ps_tokens p)" using Cons.prems by simp
  have "dest_flags W (run_dests p t) = dest_flags W (run_dests p 0) \<longleftrightarrow>
      set (run_dests p t) = set (run_dests p 0)"
    by (rule dest_flags_inject) (use run_dests_range [OF wf] t assms(3) in blast)+
  then show ?case
    using Cons t token_destinations_eq [OF wf t] by (auto simp: W [symmetric])
qed simp

lemma uniform_tokens_eq:
  assumes W: "W = unat (lc_worker_count c)" and wf: "source_wf W E p"
  shows "uniform_tokens c p [0..<length (ps_tokens p)] (replicate W False) = Inr (uniform_source p)"
proof (cases "length (ps_tokens p)")
  case 0
  then show ?thesis by (simp add: uniform_source_def)
next
  case (Suc n)
  then have pos: "0 < length (ps_tokens p)" by simp
  have "uniform_tokens c p [Suc 0..<Suc n] (dest_flags W (run_dests p 0)) =
      Inr (\<forall>t \<in> set [Suc 0..<Suc n]. distinct (run_dests p t) \<and> set (run_dests p t) = set (run_dests p 0))"
    by (rule uniform_tokens_rest [OF W wf pos]) (auto simp: Suc)
  moreover have "uniform_source p \<longleftrightarrow> distinct (run_dests p 0) \<and>
      (\<forall>t \<in> set [Suc 0..<Suc n]. distinct (run_dests p t) \<and> set (run_dests p t) = set (run_dests p 0))"
  proof -
    have "(\<forall>t < Suc n. Q t) \<longleftrightarrow> Q 0 \<and> (\<forall>t \<in> set [Suc 0..<Suc n]. Q t)" for Q
      by (metis atLeastLessThan_iff atLeastLessThan_upt not_less_eq_eq not_less zero_less_Suc le_zero_eq)
    then show ?thesis by (simp add: uniform_source_def Suc del: upt_Suc)
  qed
  ultimately show ?thesis
    using token_destinations_eq [OF wf pos] pos
    by (simp add: Suc upt_conv_Cons W [symmetric] del: upt_Suc)
qed

lemma uniform_sources_eq:
  assumes W: "W = unat (lc_worker_count c)" and wf: "\<forall>r < W. source_wf W E (src r)"
    and "by_rank = map (Some \<circ> src) [0..<W]" and "set ranks \<subseteq> {0..<W}"
  shows "uniform_sources c by_rank ranks = Inr (\<forall>r \<in> set ranks. uniform_source (src r))"
  using assms(4)
proof (induction ranks)
  case (Cons r ranks)
  then show ?case
    using uniform_tokens_eq [OF W wf [rule_format], of r] by (simp add: assms(3) source_at_def W [symmetric])
qed simp

section \<open>The compiled layout\<close>

text \<open>
  What the compiler's loops compute, stated without them, for the sources \<open>src\<close> by rank and the
  jobs \<open>js\<close> in the order of their placement.
\<close>

definition compiled ::
  "nat \<Rightarrow> nat \<Rightarrow> (nat \<Rightarrow> ParsedSource) \<Rightarrow> job list \<Rightarrow> Epoch \<Rightarrow> CompiledLayout \<Rightarrow> bool" where
  "compiled W E src js epoch l \<longleftrightarrow>
     (let con = (\<lambda>k. contributors_at src js (fst k) (snd k)); ks = journal_keys src [0..<W];
          cookie = fold (\<lambda>r h. HashBytes h (le_bytes 8 (sh_metadata_digest (ps_header (src r)))))
            [0..<W] kHashOffset
      in cl_destination_rows l = map (\<lambda>d. prefix_map (row_of src) (jobs_at d js)) [0..<W] \<and>
       cl_expert_assignments l = map (\<lambda>d. prefix_map expert_of (flat src (jobs_at d js))) [0..<W] \<and>
       length (cl_expert_counts l) = W * E \<and>
       (\<forall>d < W. \<forall>e < E. cl_expert_counts l ! (d * E + e) =
          of_nat (expert_count e (flat src (jobs_at d js)))) \<and>
       cl_contributors l = concat (map con ks) \<and>
       cl_journal_assignments l = concat (map (key_run src) ks) \<and>
       cl_journal_tokens l = prefix_map (entry_of src con) ks \<and>
       length ks < 2 ^ 32 \<and> length (concat (map con ks)) < 2 ^ 32 \<and>
       length (concat (map (key_run src) ks)) < 2 ^ 32 \<and>
       cl_journal_header l = JournalSlotHeader_init\<lparr>
         jh_generation := ep_generation epoch, jh_sequence := ep_sequence epoch,
         jh_dispatch_cookie := (if cookie = 0 then 1 else cookie), jh_wave := ep_wave epoch,
         jh_ring_slot := ep_ring_slot epoch, jh_state := state_code DISPATCH_SEALED,
         jh_token_count := of_nat (length ks),
         jh_contributor_count := of_nat (length (concat (map con ks))),
         jh_flags := (if \<forall>r < W. uniform_source (src r)
           then kJournalFlagUniformDestinations else 0) \<rparr>)"

lemma contributor_map_init:
  assumes "by_rank = map (Some \<circ> src) [0..<W]"
  shows "mfold (\<lambda>rank m. rbind (source_at by_rank rank)
      (\<lambda>source. Inr (m @ [replicate (length (ps_tokens source)) []]))) [0..<W] [] =
    Inr (map (\<lambda>r. replicate (length (ps_tokens (src r))) []) [0..<W])"
proof -
  let ?f = "\<lambda>rank m. rbind (source_at by_rank rank)
      (\<lambda>source. Inr (m @ [replicate (length (ps_tokens source)) []]))"
  have "\<exists>m. mfold ?f [0..<W] [] = Inr m \<and> m = map (\<lambda>r. replicate (length (ps_tokens (src r))) []) [0..<W]"
    by (rule mfold_upt_total) (auto simp: assms source_at_def)
  then show ?thesis by simp
qed

lemma compile_collected_cases:
  assumes W: "W = unat (lc_worker_count c)" "E = unat (lc_expert_count c)"
    and max: "lc_worker_count c \<le> kPullDispatchMaxWorkers"
    and wf: "\<forall>r < W. source_wf W E (src r)"
    and by_rank: "by_rank = map (Some \<circ> src) [0..<W]"
    and arrival: "set (map unat arrival) = {0..<W}"
  shows "(\<exists>e \<in> {CAPACITY_EXCEEDED, SIZE_OVERFLOW}. compile_collected c arrival by_rank epoch = fail e) \<or>
    (\<exists>l. compile_collected c arrival by_rank epoch = Inr l \<and>
       compiled W E src (layout_jobs W src (map unat arrival)) epoch l)"
proof -
  let ?js = "layout_jobs W src (map unat arrival)"
  let ?cm = "map (\<lambda>r. replicate (length (ps_tokens (src r))) []) [0..<W]"
  let ?con = "\<lambda>k. contributors_at src ?js (fst k) (snd k)"
  have less: "r < lc_worker_count c" if "r \<in> set arrival" for r
    using arrival that W by (auto simp: word_less_nat_alt)
  have place: "mfold (place_source c by_rank) arrival (empty_layout c, ?cm) =
      mfold (place_job c src) ?js (empty_layout c, ?cm)"
    using place_sources_jobs [of by_rank src c E arrival] by_rank wf less by (simp add: W(1) [symmetric])
  have ok: "\<And>j. j \<in> set ?js \<Longrightarrow> job_ok W src j" using layout_jobs_ok arrival by blast
  have jobs: "mfold (place_job c src) ?js (empty_layout c, ?cm) = fail CAPACITY_EXCEEDED \<or>
      (\<exists>st. mfold (place_job c src) ?js (empty_layout c, ?cm) = Inr st \<and> placed W E src ?js st)"
    by (rule place_jobs [OF W max, folded W(1)]) (use wf ok in blast)+
  note unfold = compile_collected_def [of c arrival by_rank epoch, unfolded W(1) [symmetric] Let_def
      contributor_map_init [OF by_rank] rbind_Inr place]
  show ?thesis
  proof (cases "mfold (place_job c src) ?js (empty_layout c, ?cm)")
    case (Inl e)
    then show ?thesis
      using jobs by (auto simp: unfold)
  next
    case (Inr st)
    then have pl: "placed W E src ?js st" using jobs by auto
    obtain built cm where st: "st = (built, cm)" by (cases st)
    have cm: "cm = token_map W src ?con" using pl by (simp add: placed_def st)
    have fresh: "cl_contributors built = []" "cl_journal_assignments built = []" "cl_journal_tokens built = []"
      using pl by (simp_all add: placed_def st)
    note run = journal_all [OF wf fresh refl, of ?con]
    note js = journal_sources [OF by_rank, of "[0..<W]" cm kHashOffset built]
    note un = uniform_sources_eq [OF W(1) wf by_rank, of "[0..<W]"]
    show ?thesis
    proof (cases "mfold (\<lambda>k. journal_token (fst k) (src (fst k)) cm (snd k)) (journal_keys src [0..<W]) built")
      case (Inl e)
      then show ?thesis
        using run \<open>_ = Inr st\<close> js by (auto simp: unfold st cm)
    next
      case (Inr built')
      then have j: "journaled src ?con built (journal_keys src [0..<W]) built'"
        using run by (auto simp: cm)
      have "compile_collected c arrival by_rank epoch = Inr (seal_layout epoch
          (fold (\<lambda>r h. HashBytes h (le_bytes 8 (sh_metadata_digest (ps_header (src r))))) [0..<W] kHashOffset)
          (\<forall>r < W. uniform_source (src r)) built')"
        using Inr \<open>_ = Inr st\<close> js un by (simp add: unfold st atLeast0LessThan Ball_def)
      moreover have "compiled W E src ?js epoch (seal_layout epoch
          (fold (\<lambda>r h. HashBytes h (le_bytes 8 (sh_metadata_digest (ps_header (src r))))) [0..<W] kHashOffset)
          (\<forall>r < W. uniform_source (src r)) built')"
        using j pl
        by (simp add: compiled_def Let_def journaled_def seal_layout_def placed_def st
            JournalSlotHeader_init_def del: length_concat) blast
      ultimately show ?thesis by blast
    qed
  qed
qed

lemma CompileLayout_cases:
  assumes "\<And>p. p \<in> set sources \<Longrightarrow> source_wf (unat (lc_worker_count c)) (unat (lc_expert_count c)) p"
  shows "(\<exists>e. CompileLayout sources arrival c = fail e) \<or>
    (\<exists>l epoch. CompileLayout sources arrival c = Inr l \<and> layout_input_ok sources arrival c \<and>
       compiled (unat (lc_worker_count c)) (unat (lc_expert_count c)) (rank_source sources)
         (layout_jobs (unat (lc_worker_count c)) (rank_source sources) (map unat arrival)) epoch l \<and>
       distinct (map unat arrival) \<and> set (map unat arrival) = {0..<unat (lc_worker_count c)} \<and>
       (\<forall>r < unat (lc_worker_count c). rank_source sources r \<in> set sources \<and>
          source_rank (rank_source sources r) = r) \<and>
       ((\<forall>p \<in> set sources. sh_generation (ps_header p) \<noteq> 0) \<longrightarrow>
        (\<forall>p \<in> set sources. header_epoch (ps_header p) = epoch)))"
proof (cases "layout_input_ok sources arrival c")
  case False
  then show ?thesis by (auto simp: CompileLayout_def)
next
  case True
  let ?W = "unat (lc_worker_count c)" and ?E = "unat (lc_expert_count c)" and ?src = "rank_source sources"
  have len: "length sources = ?W" "length arrival = ?W" and max: "lc_worker_count c \<le> kPullDispatchMaxWorkers"
    using True by (auto simp: layout_input_ok_def)
  note col = collect_sources [OF refl len(1)]
  note arr = check_arrivals [OF refl len(2)]
  have wf: "\<forall>r < ?W. source_wf ?W ?E (?src r)"
    if "\<forall>r < ?W. ?src r \<in> set sources \<and> source_rank (?src r) = r" using that assms by blast
  from col show ?thesis
  proof (elim disjE exE conjE bexE)
    fix epoch
    assume c: "mfold (collect_source c) sources (replicate ?W None,
        \<lparr> ep_generation = 0, ep_sequence = 0, ep_wave = 0, ep_ring_slot = 0 \<rparr>) =
        Inr (map (Some \<circ> ?src) [0..<?W], epoch)"
      and s: "\<forall>r < ?W. ?src r \<in> set sources \<and> source_rank (?src r) = r"
      and e: "(\<forall>p \<in> set sources. sh_generation (ps_header p) \<noteq> 0) \<longrightarrow>
        (\<forall>p \<in> set sources. header_epoch (ps_header p) = epoch)"
    from arr show ?thesis
    proof (elim disjE conjE exE)
      assume "mfold (check_arrival c) arrival (replicate ?W False) = fail DUPLICATE_SOURCE"
      then show ?thesis using True c by (auto simp: CompileLayout_def)
    next
      fix seen
      assume a: "mfold (check_arrival c) arrival (replicate ?W False) = Inr seen"
        "distinct (map unat arrival)" "set (map unat arrival) = {0..<?W}"
      then have "CompileLayout sources arrival c = compile_collected c arrival (map (Some \<circ> ?src) [0..<?W]) epoch"
        using True c by (simp add: CompileLayout_def)
      moreover have "(\<exists>e. compile_collected c arrival (map (Some \<circ> ?src) [0..<?W]) epoch = fail e) \<or>
          (\<exists>l. compile_collected c arrival (map (Some \<circ> ?src) [0..<?W]) epoch = Inr l \<and>
            compiled ?W ?E ?src (layout_jobs ?W ?src (map unat arrival)) epoch l)"
        using compile_collected_cases [OF refl refl max wf refl a(3), where epoch = epoch] s by blast
      ultimately show ?thesis using s e a True by metis
    qed
  next
    fix e
    assume "mfold (collect_source c) sources (replicate ?W None,
        \<lparr> ep_generation = 0, ep_sequence = 0, ep_wave = 0, ep_ring_slot = 0 \<rparr>) = fail e"
    then show ?thesis using True by (auto simp: CompileLayout_def)
  qed
qed

end
