(* ===== verification/Dispatch_Journal.thy ===== *)
theory Dispatch_Journal
  imports Dispatch_Layout
begin

text \<open>
  What a compiled layout guarantees: memory safety of the compiler, the rows every destination
  receives, the rows at every expert, the journal and its links to the rows, and that the journal
  does not depend on the order in which the sources arrived. \<open>journal_wf\<close> collects what the combine
  phase relies on.
\<close>

section \<open>Jobs and keys\<close>

lemma filter_concat_map:
  assumes "distinct xs" and "x \<in> set xs"
    and "\<And>y. y \<in> set xs \<Longrightarrow> y \<noteq> x \<Longrightarrow> filter P (f y) = []"
  shows "filter P (concat (map f xs)) = filter P (f x)"
  using assms
proof (induction xs)
  case (Cons y ys)
  show ?case
  proof (cases "x = y")
    case True
    then have "filter P (concat (map f ys)) = []"
      using Cons.prems(1,3) by (auto simp: filter_empty_conv)
    then show ?thesis using True by simp
  next
    case False
    then show ?thesis using Cons by simp
  qed
qed simp

lemma mset_partition:
  assumes "distinct ks" and "\<And>x. x \<in> set xs \<Longrightarrow> f x \<in> set ks"
  shows "mset (concat (map (\<lambda>k. filter (\<lambda>x. f x = k) xs) ks)) = mset xs"
  using assms
proof (induction ks arbitrary: xs)
  case (Cons k ks)
  let ?rest = "filter (\<lambda>x. f x \<noteq> k) xs"
  have same: "map (\<lambda>l. filter (\<lambda>x. f x = l) xs) ks = map (\<lambda>l. filter (\<lambda>x. f x = l) ?rest) ks"
    using Cons.prems(1) by (auto intro!: filter_cong)
  have "mset (concat (map (\<lambda>l. filter (\<lambda>x. f x = l) ?rest) ks)) = mset ?rest"
    by (rule Cons.IH) (use Cons.prems in auto)
  then have "mset (concat (map (\<lambda>l. filter (\<lambda>x. f x = l) xs) ks)) = mset ?rest" by (simp only: same)
  moreover have "mset (filter (\<lambda>x. f x = k) xs) + mset ?rest = mset xs" by (induction xs) auto
  ultimately show ?case by (simp del: mset_filter mset_concat)
next
  case Nil
  then show ?case by (cases xs) auto
qed

lemma distinct_concat_map:
  assumes "distinct xs" and "\<And>x. x \<in> set xs \<Longrightarrow> distinct (f x)"
    and "\<And>x y. x \<in> set xs \<Longrightarrow> y \<in> set xs \<Longrightarrow> x \<noteq> y \<Longrightarrow> set (f x) \<inter> set (f y) = {}"
  shows "distinct (concat (map f xs))"
  using assms
proof (induction xs)
  case (Cons x xs)
  have "distinct (concat (map f xs))" by (rule Cons.IH) (use Cons.prems in auto)
  moreover have "set (f x) \<inter> set (f y) = {}" if "y \<in> set xs" for y
    using Cons.prems(1,3) that by auto
  ultimately show ?case using Cons.prems(2) [of x] by auto
qed simp

lemma distinct_journal_keys: "distinct ranks \<Longrightarrow> distinct (journal_keys src ranks)"
  unfolding journal_keys_def
  by (rule distinct_concat_map) (auto simp: distinct_map inj_on_def)

lemma set_journal_keys:
  "set (journal_keys src ranks) = {(r, t). r \<in> set ranks \<and> t < length (ps_tokens (src r))}"
  by (auto simp: journal_keys_def)

abbreviation job_key :: "job \<Rightarrow> key" where
  "job_key j \<equiv> (fst j, fst (snd j))"

lemma distinct_source_jobs: "distinct (source_jobs W src r)"
  unfolding source_jobs_def
  by (rule distinct_concat_map) (auto simp: distinct_map inj_on_def)

lemma distinct_layout_jobs: "distinct ranks \<Longrightarrow> distinct (layout_jobs W src ranks)"
  unfolding layout_jobs_def
  by (rule distinct_concat_map) (auto simp: distinct_source_jobs, auto simp: source_jobs_def)

lemma jobs_of_key:
  assumes "distinct ranks" and "r \<in> set ranks" and "t < length (ps_tokens (src r))"
  shows "filter (\<lambda>j. job_key j = (r, t)) (layout_jobs W src ranks) =
    map (\<lambda>d. (r, t, d)) (filter (\<lambda>d. group_of (src r) t d \<noteq> []) [0..<W])"
proof -
  have "filter (\<lambda>j. job_key j = (r, t)) (layout_jobs W src ranks) =
      filter (\<lambda>j. job_key j = (r, t)) (source_jobs W src r)"
    unfolding layout_jobs_def
    by (rule filter_concat_map [OF assms(1,2)]) (auto simp: source_jobs_def filter_empty_conv)
  also have "\<dots> = filter (\<lambda>j. job_key j = (r, t))
      (map (\<lambda>d. (r, t, d)) (filter (\<lambda>d. group_of (src r) t d \<noteq> []) [0..<W]))"
    unfolding source_jobs_def
    by (rule filter_concat_map) (use assms(3) in \<open>auto simp: filter_empty_conv\<close>)
  finally show ?thesis by (simp add: filter_map comp_def)
qed

text \<open>Position \<open>i\<close> of a list, seen in the sublist of the elements with a property.\<close>

lemma filter_position:
  assumes "i < length xs" and "P (xs ! i)"
  shows "length (filter P (take i xs)) < length (filter P xs)"
    and "filter P xs ! length (filter P (take i xs)) = xs ! i"
    and "take (length (filter P (take i xs))) (filter P xs) = filter P (take i xs)"
proof -
  have "filter P xs = filter P (take i xs) @ xs ! i # filter P (drop (Suc i) xs)"
    using id_take_nth_drop [OF assms(1)] assms(2) by (metis filter.simps(2) filter_append)
  then show "length (filter P (take i xs)) < length (filter P xs)"
    "filter P xs ! length (filter P (take i xs)) = xs ! i"
    "take (length (filter P (take i xs))) (filter P xs) = filter P (take i xs)" by simp_all
qed

lemma contributors_at_zip:
  "contributors_at src js r t = map snd (filter (\<lambda>x. job_key (fst x) = (r, t))
     (zip js (prefix_map (contributor_of src) js)))"
  by (induction js rule: rev_induct) auto

lemma worker_ranks:
  "map jc_worker_rank (contributors_at src js r t) =
     map (\<lambda>j. of_nat (snd (snd j))) (filter (\<lambda>j. job_key j = (r, t)) js)"
  by (induction js rule: rev_induct) (simp_all add: contributor_of_def case_prod_beta)

lemma length_contributors_at:
  "length (contributors_at src js r t) = length (filter (\<lambda>j. job_key j = (r, t)) js)"
  using worker_ranks [of src js r t, THEN arg_cong [where f = length]] by simp

lemma contributors_at_elem:
  assumes "c \<in> set (contributors_at src js r t)"
  obtains i d where "i < length js" and "js ! i = (r, t, d)"
    and "c = contributor_of src (take i js) (r, t, d)"
proof -
  from assms obtain j where "(j, c) \<in> set (zip js (prefix_map (contributor_of src) js))"
    and k: "job_key j = (r, t)" by (auto simp: contributors_at_zip)
  then obtain i where i: "i < length js" "js ! i = j" "c = contributor_of src (take i js) j"
    by (auto simp: set_zip)
  then show thesis using that [of i "snd (snd j)"] k by (cases j) auto
qed

text \<open>All contributors, in whatever order the journal lists them, are those of the jobs.\<close>

lemma mset_contributors:
  assumes "distinct ks" and "\<And>j. j \<in> set js \<Longrightarrow> job_key j \<in> set ks"
  shows "mset (concat (map (\<lambda>k. contributors_at src js (fst k) (snd k)) ks)) =
    mset (prefix_map (contributor_of src) js)"
proof -
  let ?z = "zip js (prefix_map (contributor_of src) js)"
  have "mset (concat (map (\<lambda>k. filter (\<lambda>x. job_key (fst x) = k) ?z) ks)) = mset ?z"
    by (rule mset_partition [OF assms(1)]) (use assms(2) in \<open>auto dest: set_zip_leftD\<close>)
  then have "image_mset snd (mset (concat (map (\<lambda>k. filter (\<lambda>x. job_key (fst x) = k) ?z) ks))) =
      image_mset snd (mset ?z)" by simp
  then show ?thesis
    by (simp add: contributors_at_zip map_concat comp_def flip: mset_map)
qed

text \<open>The rows of the jobs, numbered per destination, are all rows, each once.\<close>

lemma job_rows:
  assumes "\<And>j. j \<in> set js \<Longrightarrow> snd (snd j) < W"
  shows "distinct (prefix_map (\<lambda>before j. (snd (snd j), length (jobs_at (snd (snd j)) before))) js) \<and>
    set (prefix_map (\<lambda>before j. (snd (snd j), length (jobs_at (snd (snd j)) before))) js) =
      {(d, k). d < W \<and> k < length (jobs_at d js)}"
  using assms
proof (induction js rule: rev_induct)
  case (snoc j js)
  let ?f = "\<lambda>before j. (snd (snd j), length (jobs_at (snd (snd j)) before))"
  let ?d = "snd (snd j)"
  have IH: "distinct (prefix_map ?f js)"
    "set (prefix_map ?f js) = {(d, k). d < W \<and> k < length (jobs_at d js)}"
    using snoc.IH snoc.prems by auto
  have "?d < W" using snoc.prems [of j] by simp
  then have "{(d, k). d < W \<and> k < length (jobs_at d (js @ [j]))} =
      insert (?d, length (jobs_at ?d js)) {(d, k). d < W \<and> k < length (jobs_at d js)}"
    by (auto simp: less_Suc_eq split: if_splits)
  then show ?case using IH by simp
qed simp

section \<open>Parsed sources\<close>

text \<open>A source that came out of the parser, for a session whose workers and experts the layout has.\<close>

definition parsed_source :: "LayoutConfig \<Rightarrow> ParsedSource \<Rightarrow> bool" where
  "parsed_source c p \<longleftrightarrow> (\<exists>reg s ready bytes cap.
     ParseReadyAndSlot reg s ready (Some bytes) cap = Inr p \<and> unat cap \<le> length bytes \<and>
     ses_worker_count s \<le> lc_worker_count c \<and> ses_expert_count s \<le> lc_expert_count c)"

definition source_ok :: "LayoutConfig \<Rightarrow> ParsedSource \<Rightarrow> bool" where
  "source_ok c p \<longleftrightarrow> source_wf (unat (lc_worker_count c)) (unat (lc_expert_count c)) p \<and>
     sh_generation (ps_header p) \<noteq> 0 \<and> sh_sequence (ps_header p) \<noteq> 0"

lemma csr_source_wf:
  assumes csr: "csr_wf s (ps_assignments p) 0 0 (ps_tokens p)"
    and size: "length (ps_tokens p) < 2 ^ 32" "length (ps_assignments p) < 2 ^ 32"
    and le: "unat (ses_worker_count s) \<le> W" "unat (ses_expert_count s) \<le> E"
  shows "source_wf W E p"
  unfolding source_wf_def
proof (intro conjI allI impI ballI size)
  fix t a assume t: "t < length (ps_tokens p)" and a: "a \<in> set (token_run p t)"
  have "asg_destination_rank a < ses_worker_count s" "asg_expert_id a < ses_expert_count s"
    using csr_wf_nth(4) [OF csr t] a by (auto simp: assignments_wf_def token_run_def Let_def)
  then show "unat (asg_destination_rank a) < W" "unat (asg_expert_id a) < E"
    using le by (simp_all add: word_less_nat_alt)
qed (use csr_wf_nth(1,3) [OF csr] in auto)

lemma parsed_source_ok:
  assumes "parsed_source c p"
  shows "source_ok c p"
proof -
  from assms obtain reg s ready bytes cap where
    parse: "ParseReadyAndSlot reg s ready (Some bytes) cap = Inr p" and cap: "unat cap \<le> length bytes"
    and s: "ses_worker_count s \<le> lc_worker_count c" "ses_expert_count s \<le> lc_expert_count c"
    unfolding parsed_source_def by blast
  let ?h = "slot_header_of (take sizeof_SlotHeader bytes)"
  from parse have acc: "ready_accepted reg s ready"
    and ge: "\<not> cap < of_nat sizeof_SlotHeader" and par: "parse_slot s ready bytes cap = Inr p"
    by (auto simp: ParseReadyAndSlot_def split: if_splits)
  have "sizeof_SlotHeader \<le> length bytes"
    using ge cap by (simp add: word_less_nat_alt abi_consts)
  from parse_slot_cases(2) [OF this cap refl, THEN iffD1, OF par] obtain ha :: u64 where
    match: "header_matches s ready ?h" and p: "p = slot_source bytes ?h (unat ha)"
    and csr: "csr_wf s (ps_assignments p) 0 0 (ps_tokens p)" by blast
  have "source_wf (unat (lc_worker_count c)) (unat (lc_expert_count c)) p"
  proof (rule csr_source_wf [OF csr])
    show "length (ps_tokens p) < 2 ^ 32" "length (ps_assignments p) < 2 ^ 32"
      using unsigned_less [of "sh_token_count ?h", where ?'a = nat]
        unsigned_less [of "sh_assignment_count ?h", where ?'a = nat] by (simp_all add: p slot_source_def)
  qed (use s in \<open>simp_all add: word_le_nat_alt\<close>)
  moreover have "ps_header p = ?h" by (simp add: p slot_source_def)
  ultimately show ?thesis
    using acc match by (auto simp: source_ok_def ready_accepted_def header_matches_def)
qed

section \<open>Sizes\<close>

definition layout_ctx :: "nat \<Rightarrow> nat \<Rightarrow> (nat \<Rightarrow> ParsedSource) \<Rightarrow> job list \<Rightarrow> bool" where
  "layout_ctx W E src js \<longleftrightarrow> 2 \<le> W \<and> W \<le> 128 \<and> (\<forall>r < W. source_wf W E (src r)) \<and>
     (\<exists>ranks. distinct ranks \<and> set ranks = {0..<W} \<and> js = layout_jobs W src ranks)"

lemma CompileLayout_compiled:
  assumes "CompileLayout sources arrival c = Inr l" and "\<forall>p \<in> set sources. source_ok c p"
  obtains epoch js where "compiled (unat (lc_worker_count c)) (unat (lc_expert_count c)) (rank_source sources) js epoch l"
    and "layout_ctx (unat (lc_worker_count c)) (unat (lc_expert_count c)) (rank_source sources) js"
    and "js = layout_jobs (unat (lc_worker_count c)) (rank_source sources) (map unat arrival)"
    and "layout_input_ok sources arrival c"
    and "\<forall>r < unat (lc_worker_count c). rank_source sources r \<in> set sources \<and>
          source_rank (rank_source sources r) = r"
    and "\<forall>p \<in> set sources. header_epoch (ps_header p) = epoch \<and>
          ep_generation epoch \<noteq> 0 \<and> ep_sequence epoch \<noteq> 0"
proof -
  let ?W = "unat (lc_worker_count c)" and ?E = "unat (lc_expert_count c)" and ?src = "rank_source sources"
  let ?js = "layout_jobs ?W ?src (map unat arrival)"
  have wf: "\<And>p. p \<in> set sources \<Longrightarrow> source_wf ?W ?E p"
    and gen: "\<forall>p \<in> set sources. sh_generation (ps_header p) \<noteq> 0 \<and> sh_sequence (ps_header p) \<noteq> 0"
    using assms(2) by (auto simp: source_ok_def)
  from CompileLayout_cases [OF wf, where sources = sources and arrival = arrival] assms(1)
  obtain epoch where comp: "compiled ?W ?E ?src ?js epoch l" and ok: "layout_input_ok sources arrival c"
    and arr: "distinct (map unat arrival)" "set (map unat arrival) = {0..<?W}"
    and src: "\<forall>r < ?W. ?src r \<in> set sources \<and> source_rank (?src r) = r"
    and ep: "(\<forall>p \<in> set sources. sh_generation (ps_header p) \<noteq> 0) \<longrightarrow>
        (\<forall>p \<in> set sources. header_epoch (ps_header p) = epoch)" by auto
  have "layout_ctx ?W ?E ?src ?js"
    unfolding layout_ctx_def using ok arr src wf
    by (auto simp: layout_input_ok_def word_le_nat_alt abi_consts)
  moreover have "\<forall>p \<in> set sources. header_epoch (ps_header p) = epoch \<and>
          ep_generation epoch \<noteq> 0 \<and> ep_sequence epoch \<noteq> 0"
    using ep gen by (fastforce simp: header_epoch_def)
  ultimately show thesis using that comp ok src by blast
qed

lemma ctx_jobs:
  assumes "layout_ctx W E src js"
  shows "distinct js" and "set js = {j. fst j < W \<and> fst (snd j) < length (ps_tokens (src (fst j))) \<and>
     snd (snd j) < W \<and> job_group src j \<noteq> []}"
  using assms by (auto simp: layout_ctx_def distinct_layout_jobs set_layout_jobs)

lemma length_flat: "length (flat src ds) = sum_list (map (\<lambda>j. length (job_group src j)) ds)"
  by (induction ds rule: rev_induct) simp_all

lemma job_group_le: "length (job_group src j) \<le> length (key_run src (job_key j))"
  by (cases j) (simp add: job_group_def key_run_def group_of_def)

lemma jobs_at_keys:
  assumes "layout_ctx W E src js"
  shows "distinct (map job_key (jobs_at d js))"
    and "d < W \<Longrightarrow> set (map job_key (jobs_at d js)) =
      {(r, t). r < W \<and> t < length (ps_tokens (src r)) \<and> group_of (src r) t d \<noteq> []}"
proof -
  show "distinct (map job_key (jobs_at d js))"
    using ctx_jobs(1) [OF assms] by (auto simp: jobs_at_def distinct_map inj_on_def)
  assume d: "d < W"
  show "set (map job_key (jobs_at d js)) =
      {(r, t). r < W \<and> t < length (ps_tokens (src r)) \<and> group_of (src r) t d \<noteq> []}"
    using ctx_jobs(2) [OF assms] d by (force simp: jobs_at_def job_group_def image_iff)
qed

lemma sum_list_distinct: "distinct xs \<Longrightarrow> sum_list (map f xs) = sum f (set xs)"
  for f :: "'a \<Rightarrow> nat"
  by (induction xs) auto

lemma flat_bound:
  assumes "layout_ctx W E src js" and "d < W"
  shows "length (flat src (jobs_at d js)) \<le> length (concat (map (key_run src) (journal_keys src [0..<W])))"
proof -
  let ?f = "\<lambda>k. length (key_run src k)" and ?ks = "journal_keys src [0..<W]"
  have "length (flat src (jobs_at d js)) \<le> sum_list (map ?f (map job_key (jobs_at d js)))"
    unfolding length_flat by (auto intro!: sum_list_mono job_group_le simp: comp_def)
  also have "\<dots> = sum ?f (set (map job_key (jobs_at d js)))"
    by (rule sum_list_distinct [OF jobs_at_keys(1) [OF assms(1)]])
  also have "\<dots> \<le> sum ?f (set ?ks)"
  proof (rule sum_mono2 [OF finite_set])
    show "set (map job_key (jobs_at d js)) \<subseteq> set ?ks"
      unfolding jobs_at_keys(2) [OF assms] set_journal_keys by auto
  qed simp
  also have "\<dots> = sum_list (map ?f ?ks)"
    by (rule sum_list_distinct [symmetric, OF distinct_journal_keys]) simp
  finally show ?thesis by (simp add: length_concat comp_def)
qed

lemma jobs_bound:
  assumes "layout_ctx W E src js"
  shows "length (concat (map (\<lambda>k. contributors_at src js (fst k) (snd k)) (journal_keys src [0..<W]))) =
    length js"
proof -
  have "mset (concat (map (\<lambda>k. contributors_at src js (fst k) (snd k)) (journal_keys src [0..<W]))) =
      mset (prefix_map (contributor_of src) js)"
    by (rule mset_contributors)
      (use ctx_jobs(2) [OF assms] in \<open>auto simp: distinct_journal_keys set_journal_keys\<close>)
  then show ?thesis by (metis length_prefix_map size_mset)
qed

lemma compiled_sizes:
  assumes "layout_ctx W E src js" and "compiled W E src js epoch l"
  shows "length js < 2 ^ 32" and "length (jobs_at d js) < 2 ^ 32"
    and "d < W \<Longrightarrow> length (flat src (jobs_at d js)) < 2 ^ 32"
proof -
  show js: "length js < 2 ^ 32"
    using assms(2) jobs_bound [OF assms(1)] by (simp add: compiled_def Let_def del: length_concat)
  then show "length (jobs_at d js) < 2 ^ 32"
    unfolding jobs_at_def by (rule le_less_trans [OF length_filter_le])
  show "length (flat src (jobs_at d js)) < 2 ^ 32" if "d < W"
    using assms(2) flat_bound [OF assms(1) that] by (simp add: compiled_def Let_def del: length_concat)
qed

section \<open>Rows\<close>

lemma flat_split:
  assumes "k < length ds"
  obtains rest where "flat src ds = flat src (take k ds) @ map (Pair k) (job_group src (ds ! k)) @ rest"
proof -
  let ?f = "\<lambda>before j. map (Pair (length before)) (job_group src j)"
  have "ds = (take k ds @ [ds ! k]) @ drop (Suc k) ds" using id_take_nth_drop [OF assms] by simp
  then have "flat src ds = concat (prefix_map ?f ((take k ds @ [ds ! k]) @ drop (Suc k) ds))"
    by (simp add: flat_def del: append_assoc)
  then have "flat src ds = concat (prefix_map ?f (take k ds)) @ map (Pair k) (job_group src (ds ! k)) @
      concat (prefix_map (\<lambda>zs. ?f ((take k ds @ [ds ! k]) @ zs)) (drop (Suc k) ds))"
    using assms unfolding prefix_map_append [of ?f "take k ds @ [ds ! k]"] by simp
  then show thesis using that by (simp add: flat_def)
qed

lemma vslice_map: "vslice (map f xs) b e = map f (vslice xs b e)"
  by (simp add: vslice_def take_map drop_map)

lemma vslice_middle: "b = length xs \<Longrightarrow> e = b + length ys \<Longrightarrow> vslice (xs @ ys @ zs) b e = ys"
  by (simp add: vslice_def)

abbreviation expert_data :: "ExpertAssignment \<Rightarrow> u32 \<times> u32 \<times> u32 \<times> u32" where
  "expert_data x \<equiv> (ea_destination_row x, ea_expert_id x, ea_ordinal x, ea_weight x)"

lemma expert_slice:
  assumes "k < length ds"
  shows "map expert_data (vslice (prefix_map expert_of (flat src ds)) (length (flat src (take k ds)))
      (length (flat src (take k ds)) + length (job_group src (ds ! k)))) =
    map (\<lambda>a. (of_nat k, asg_expert_id a, asg_ordinal a, asg_weight a)) (job_group src (ds ! k))"
proof -
  obtain rest where split: "flat src ds = flat src (take k ds) @ map (Pair k) (job_group src (ds ! k)) @ rest"
    by (rule flat_split [OF assms])
  let ?g = "\<lambda>(k, a). (of_nat k, asg_expert_id a, asg_ordinal a, asg_weight a)"
  have "map expert_data (prefix_map expert_of (flat src ds)) = map ?g (flat src ds)"
    by (simp add: map_prefix_map expert_of_def case_prod_beta prefix_map_const)
  moreover have "vslice (flat src ds) (length (flat src (take k ds)))
      (length (flat src (take k ds)) + length (job_group src (ds ! k))) = map (Pair k) (job_group src (ds ! k))"
    by (subst split, rule vslice_middle) simp_all
  ultimately show ?thesis by (simp add: vslice_map [symmetric]) (simp add: vslice_map comp_def)
qed

lemma unat_of_nat_below: "n \<le> m \<Longrightarrow> m < 2 ^ 32 \<Longrightarrow> unat (of_nat n :: u32) = n"
  by (rule unat_of_nat_u32) linarith

lemma flat_take_le: "length (flat src (take k ds)) \<le> length (flat src ds)"
  unfolding length_flat take_map [symmetric]
  by (metis append_take_drop_id le_add1 sum_list_append)

lemma job_group_flat_le: "j \<in> set ds \<Longrightarrow> length (job_group src j) \<le> length (flat src ds)"
  unfolding length_flat by (auto intro!: member_le_sum_list)

lemma compiled_row:
  assumes ctx: "layout_ctx W E src js" and comp: "compiled W E src js epoch l" and d: "d < W"
    and k: "k < length (jobs_at d js)" and x: "x = cl_destination_rows l ! d ! k"
    and job: "jobs_at d js ! k = (r, t, d')"
  shows "dr_source_rank x = of_nat r" and "dr_source_token x = of_nat t"
    and "unat (dr_source_rank x) = r" and "unat (dr_source_token x) = t" and "d' = d"
    and "r < W" and "t < length (ps_tokens (src r))"
    and "dr_destination_row x = of_nat k" and "unat (dr_destination_row x) = k"
    and "dr_route_key x = RouteKey (of_nat r) (of_nat t)"
    and "dr_token_id x = tok_token_id (ps_tokens (src r) ! t)"
    and "unat (dr_assignments_begin x) = length (flat src (take k (jobs_at d js)))"
    and "unat (dr_assignments_count x) = length (group_of (src r) t d)"
proof -
  let ?ds = "jobs_at d js"
  have mem: "(r, t, d') \<in> set ?ds" using nth_mem [OF k] job by simp
  then show d': "d' = d" by (auto simp: jobs_at_def)
  have "(r, t, d') \<in> set js" using mem by (auto simp: jobs_at_def)
  then show r: "r < W" and t: "t < length (ps_tokens (src r))"
    using ctx_jobs(2) [OF ctx] by auto
  have wf: "source_wf W E (src r)" and W: "W \<le> 128" using ctx r by (auto simp: layout_ctx_def)
  have tok: "tok_source_token (ps_tokens (src r) ! t) = of_nat t" and "t < 2 ^ 32"
    using wf t by (auto simp: source_wf_def)
  have xe: "x = row_of src (take k ?ds) (r, t, d')"
    using comp d k job by (simp add: x compiled_def Let_def)
  have fl: "length (flat src ?ds) < 2 ^ 32" and ds: "length ?ds < 2 ^ 32"
    by (rule compiled_sizes [OF ctx comp], rule d) (rule compiled_sizes [OF ctx comp])
  show "dr_source_rank x = of_nat r" "dr_source_token x = of_nat t" "dr_destination_row x = of_nat k"
    "dr_route_key x = RouteKey (of_nat r) (of_nat t)" "dr_token_id x = tok_token_id (ps_tokens (src r) ! t)"
    using k by (simp_all add: xe row_of_def Let_def tok)
  show "unat (dr_source_rank x) = r" "unat (dr_source_token x) = t" "unat (dr_destination_row x) = k"
    using k r W ds \<open>t < 2 ^ 32\<close>
    by (simp_all add: xe row_of_def Let_def tok unat_of_nat_below [of _ 128]
        unat_of_nat_u32 unat_of_nat_below [of _ "length ?ds"])
  show "unat (dr_assignments_begin x) = length (flat src (take k ?ds))"
    using fl flat_take_le [of src k ?ds] by (simp add: xe row_of_def Let_def unat_of_nat_below)
  show "unat (dr_assignments_count x) = length (group_of (src r) t d)"
    using fl job_group_flat_le [OF mem, of src]
    by (simp add: xe row_of_def Let_def d' unat_of_nat_below job_group_def)
qed

lemma compiled_rows_keys:
  assumes ctx: "layout_ctx W E src js" and comp: "compiled W E src js epoch l" and d: "d < W"
  shows "map (\<lambda>x. (unat (dr_source_rank x), unat (dr_source_token x))) (cl_destination_rows l ! d) =
      map job_key (jobs_at d js)"
    and "length (cl_destination_rows l ! d) = length (jobs_at d js)"
    and "sum_list (map (unat \<circ> dr_assignments_count) (take k (cl_destination_rows l ! d))) =
      length (flat src (take k (jobs_at d js)))"
proof -
  show len: "length (cl_destination_rows l ! d) = length (jobs_at d js)"
    using comp d by (simp add: compiled_def Let_def)
  have row: "unat (dr_source_rank (cl_destination_rows l ! d ! k)) = fst (jobs_at d js ! k)"
      "unat (dr_source_token (cl_destination_rows l ! d ! k)) = fst (snd (jobs_at d js ! k))"
      "unat (dr_assignments_count (cl_destination_rows l ! d ! k)) = length (job_group src (jobs_at d js ! k))"
    if k: "k < length (jobs_at d js)" for k
  proof -
    obtain r t d' where j: "jobs_at d js ! k = (r, t, d')" by (cases "jobs_at d js ! k")
    note x = compiled_row [OF ctx comp d k refl j]
    show "unat (dr_source_rank (cl_destination_rows l ! d ! k)) = fst (jobs_at d js ! k)"
      "unat (dr_source_token (cl_destination_rows l ! d ! k)) = fst (snd (jobs_at d js ! k))"
      "unat (dr_assignments_count (cl_destination_rows l ! d ! k)) = length (job_group src (jobs_at d js ! k))"
      by (simp_all add: x(3,4,13) j x(5) job_group_def)
  qed
  show "map (\<lambda>x. (unat (dr_source_rank x), unat (dr_source_token x))) (cl_destination_rows l ! d) =
      map job_key (jobs_at d js)"
    by (rule nth_equalityI) (simp_all add: len row)
  have "map (unat \<circ> dr_assignments_count) (cl_destination_rows l ! d) =
      map (\<lambda>j. length (job_group src j)) (jobs_at d js)"
    by (rule nth_equalityI) (simp_all add: len row)
  then show "sum_list (map (unat \<circ> dr_assignments_count) (take k (cl_destination_rows l ! d))) =
      length (flat src (take k (jobs_at d js)))"
    by (simp add: length_flat take_map [symmetric])
qed

lemma compiled_expert_slice:
  assumes ctx: "layout_ctx W E src js" and comp: "compiled W E src js epoch l" and d: "d < W"
    and k: "k < length (cl_destination_rows l ! d)" and x: "x = cl_destination_rows l ! d ! k"
  shows "map expert_data (vslice (cl_expert_assignments l ! d) (unat (dr_assignments_begin x))
      (unat (dr_assignments_begin x) + unat (dr_assignments_count x))) =
    map (\<lambda>a. (of_nat k, asg_expert_id a, asg_ordinal a, asg_weight a))
      (group_of (src (unat (dr_source_rank x))) (unat (dr_source_token x)) d)"
proof -
  obtain r t d' where j: "jobs_at d js ! k = (r, t, d')" by (cases "jobs_at d js ! k")
  have k': "k < length (jobs_at d js)" using k compiled_rows_keys(2) [OF ctx comp d] by simp
  note row = compiled_row [OF ctx comp d k' x j]
  have "cl_expert_assignments l ! d = prefix_map expert_of (flat src (jobs_at d js))"
    using comp d by (simp add: compiled_def Let_def)
  then show ?thesis
    using expert_slice [OF k', of src] by (simp add: row(3,4,12,13) j row(5) job_group_def)
qed

text \<open>
  C6 The rows a destination receives. For every destination there is exactly one
  row per token that has an assignment to it; rows are numbered by position and carry the route key
  and id of their token; their assignment ranges follow each other and cover the destination's
  expert assignments; and the range of a row is exactly the token's assignments to this
  destination, in the token's order, pointing back to the row.
\<close>

theorem CompileLayout_rows:
  assumes "CompileLayout sources arrival c = Inr l" and "\<forall>p \<in> set sources. source_ok c p"
    and "d < unat (lc_worker_count c)"
    and "rows = cl_destination_rows l ! d" and "experts = cl_expert_assignments l ! d"
  shows "distinct (map (\<lambda>x. (unat (dr_source_rank x), unat (dr_source_token x))) rows) \<and>
    (\<lambda>x. (unat (dr_source_rank x), unat (dr_source_token x))) ` set rows =
      {(r, t). r < unat (lc_worker_count c) \<and> t < length (ps_tokens (rank_source sources r)) \<and>
         (\<exists>a \<in> set (token_run (rank_source sources r) t). unat (asg_destination_rank a) = d)} \<and>
    sum_list (map (unat \<circ> dr_assignments_count) rows) = length experts \<and>
    (\<forall>k < length rows.
      (let x = rows ! k; b = unat (dr_assignments_begin x); n = unat (dr_assignments_count x);
           p = rank_source sources (unat (dr_source_rank x)); t = unat (dr_source_token x)
       in dr_destination_row x = of_nat k \<and>
          dr_route_key x = RouteKey (dr_source_rank x) (dr_source_token x) \<and>
          dr_token_id x = tok_token_id (ps_tokens p ! t) \<and>
          b = sum_list (map (unat \<circ> dr_assignments_count) (take k rows)) \<and>
          map expert_data (vslice experts b (b + n)) =
            map (\<lambda>a. (of_nat k, asg_expert_id a, asg_ordinal a, asg_weight a))
              (filter (\<lambda>a. unat (asg_destination_rank a) = d) (token_run p t))))"
proof -
  let ?W = "unat (lc_worker_count c)" and ?src = "rank_source sources"
  obtain epoch js where comp: "compiled ?W (unat (lc_expert_count c)) ?src js epoch l"
    and ctx: "layout_ctx ?W (unat (lc_expert_count c)) ?src js"
    by (rule CompileLayout_compiled [OF assms(1,2)])
  note d = assms(3)
  note keys = compiled_rows_keys [OF ctx comp d, folded assms(4)]
  note at = jobs_at_keys [OF ctx]
  have cover: "set (map (\<lambda>x. (unat (dr_source_rank x), unat (dr_source_token x))) rows) =
      {(r, t). r < ?W \<and> t < length (ps_tokens (?src r)) \<and> group_of (?src r) t d \<noteq> []}"
    unfolding keys(1) by (rule at(2) [OF d])
  have sum: "sum_list (map (unat \<circ> dr_assignments_count) rows) = length experts"
    using keys(3) [of "length rows"] keys(2) comp d by (simp add: assms(5) compiled_def Let_def)
  have row: "dr_destination_row x = of_nat k \<and> dr_route_key x = RouteKey (dr_source_rank x) (dr_source_token x) \<and>
      dr_token_id x = tok_token_id (ps_tokens (?src (unat (dr_source_rank x))) ! unat (dr_source_token x)) \<and>
      unat (dr_assignments_begin x) = sum_list (map (unat \<circ> dr_assignments_count) (take k rows))"
    if "k < length rows" "x = rows ! k" for k x
  proof -
    obtain r t d' where j: "jobs_at d js ! k = (r, t, d')" by (cases "jobs_at d js ! k")
    have k: "k < length (jobs_at d js)" using that keys(2) by simp
    note row = compiled_row [OF ctx comp d k that(2) [unfolded assms(4)] j]
    show ?thesis by (simp only: row(3,4,8,11,12) keys(3)) (simp add: row(1,2,10))
  qed
  have slice: "map expert_data (vslice experts (unat (dr_assignments_begin x))
        (unat (dr_assignments_begin x) + unat (dr_assignments_count x))) =
      map (\<lambda>a. (of_nat k, asg_expert_id a, asg_ordinal a, asg_weight a))
        (group_of (?src (unat (dr_source_rank x))) (unat (dr_source_token x)) d)"
    if "k < length rows" "x = rows ! k" for k x
    unfolding assms(5) by (rule compiled_expert_slice [OF ctx comp d that [unfolded assms(4)]])
  have "distinct (map (\<lambda>x. (unat (dr_source_rank x), unat (dr_source_token x))) rows)"
    unfolding keys(1) by (rule at(1))
  then show ?thesis
    using cover sum row slice by (simp add: Let_def group_of_def filter_empty_conv)
qed

text \<open>Two small sources: worker 0 has two tokens, worker 1 one; they arrive in the order 1, 0.\<close>

definition ex_header :: "u32 \<Rightarrow> SlotHeader" where
  "ex_header r = SlotHeader_init\<lparr> sh_session_id := 7, sh_placement_epoch := 1, sh_generation := 3,
     sh_sequence := 4, sh_source_rank := r, sh_ring_slot := 1, sh_worker_count := 2 \<rparr>"

definition ex_asg :: "u32 \<Rightarrow> u32 \<Rightarrow> u32 \<Rightarrow> AssignmentRecord" where
  "ex_asg d e i = \<lparr> asg_destination_rank = d, asg_expert_id = e, asg_ordinal = i, asg_weight = 0x3F800000 \<rparr>"

definition ex_tok :: "u64 \<Rightarrow> u32 \<Rightarrow> u32 \<Rightarrow> u32 \<Rightarrow> TokenRecord" where
  "ex_tok i t b n = \<lparr> tok_token_id = i, tok_source_token = t, tok_assignment_begin = b,
     tok_assignment_count = n, tok_reserved0 = 0, tok_reserved1 = 0 \<rparr>"

definition ex_sources :: "ParsedSource list" where
  "ex_sources =
     [\<lparr> ps_header = ex_header 0, ps_tokens = [ex_tok 100 0 0 2, ex_tok 101 1 2 2],
        ps_assignments = [ex_asg 0 1 0, ex_asg 1 0 1, ex_asg 1 0 0, ex_asg 1 1 1],
        ps_hidden_payload = [1, 2, 3, 4] \<rparr>,
      \<lparr> ps_header = ex_header 1, ps_tokens = [ex_tok 200 0 0 1],
        ps_assignments = [ex_asg 1 0 0], ps_hidden_payload = [5, 6] \<rparr>]"

definition ex_layout :: LayoutConfig where
  "ex_layout = \<lparr> lc_worker_count = 2, lc_expert_count = 2, lc_destination_row_capacity = 8,
     lc_destination_assignment_capacity = 8 \<rparr>"

lemma ex_sources_ok: "\<forall>p \<in> set ex_sources. source_ok ex_layout p"
  by (auto simp: ex_sources_def source_ok_def source_wf_def ex_layout_def ex_header_def ex_tok_def
      ex_asg_def token_run_def vslice_def less_Suc_eq)

lemma ex_compile:
  obtains l where "CompileLayout ex_sources [1, 0] ex_layout = Inr l"
    and "length (cl_destination_rows l ! 1) = 3" and "length (cl_expert_assignments l ! 1) = 4"
    and "length (cl_journal_tokens l) = 3" and "length (cl_contributors l) = 4"
    and "map ea_expert_row (cl_expert_assignments l ! 1) = [0, 1, 2, 0]"
    and "cl_expert_counts l = [0, 1, 3, 1]"
proof -
  have "case CompileLayout ex_sources [1, 0] ex_layout of
      Inr l \<Rightarrow> length (cl_destination_rows l ! 1) = 3 \<and> length (cl_expert_assignments l ! 1) = 4 \<and>
        length (cl_journal_tokens l) = 3 \<and> length (cl_contributors l) = 4 \<and>
        map ea_expert_row (cl_expert_assignments l ! 1) = [0, 1, 2, 0] \<and>
        cl_expert_counts l = [0, 1, 3, 1]
    | Inl _ \<Rightarrow> False"
    by code_simp
  then show thesis using that by (auto split: sum.splits)
qed

theorem CompileLayout_rows_witness:
  "\<exists>l. CompileLayout ex_sources [1, 0] ex_layout = Inr l \<and>
     distinct (map (\<lambda>x. (unat (dr_source_rank x), unat (dr_source_token x))) (cl_destination_rows l ! 1)) \<and>
     length (cl_destination_rows l ! 1) = 3 \<and>
     sum_list (map (unat \<circ> dr_assignments_count) (cl_destination_rows l ! 1)) = 4"
proof -
  obtain l where l: "CompileLayout ex_sources [1, 0] ex_layout = Inr l"
    "length (cl_destination_rows l ! 1) = 3" "length (cl_expert_assignments l ! 1) = 4"
    by (rule ex_compile)
  then show ?thesis
    using CompileLayout_rows [OF l(1) ex_sources_ok, of 1, OF _ refl refl]
    by (simp add: ex_layout_def del: One_nat_def)
qed

section \<open>Memory safety\<close>

text \<open>
  C4 Memory safety of the layout compiler. On sources that came out of the parser of sessions with at most the
  workers and experts of the layout (which \<open>CompileLayout\<close> takes for granted, see
  \<open>larger_session_leaves_tables\<close>), and for any arrival order, \<open>CompileLayout\<close> never uses a missing source,
  and never indexes the assignments, the destination tables, the expert counters or the contributor table out of
  range.
\<close>

theorem CompileLayout_in_bounds:
  assumes "\<forall>p \<in> set sources. \<exists>reg s ready bytes cap.
     ParseReadyAndSlot reg s ready (Some bytes) cap = Inr p \<and> unat cap \<le> length bytes \<and>
     ses_worker_count s \<le> lc_worker_count c \<and> ses_expert_count s \<le> lc_expert_count c"
  shows "CompileLayout sources arrival c \<noteq> Inl Oob"
proof -
  have "source_wf (unat (lc_worker_count c)) (unat (lc_expert_count c)) p" if "p \<in> set sources" for p
    using parsed_source_ok [of c p] assms that by (simp add: parsed_source_def source_ok_def)
  from CompileLayout_cases [OF this, of sources arrival] show ?thesis by fastforce
qed

text \<open>The slots of two workers, parsed and compiled.\<close>

definition ex_built :: "u32 \<Rightarrow> SourceInput" where
  "ex_built r = ex_input\<lparr>in_source_rank := r\<rparr>"

definition ex_parsed :: "u32 \<Rightarrow> SlotHeader \<Rightarrow> ParsedSource" where
  "ex_parsed r h = \<lparr> ps_header = h, ps_tokens = map (built_tok (ex_built r)) [0..<length (in_token_ids (ex_built r))],
     ps_assignments = in_assignments (ex_built r), ps_hidden_payload = in_hidden_payload (ex_built r) \<rparr>"

lemma ex_both_built:
  obtains slot0 h0 ready0 slot1 h1 ready1 l where "BuildSlot (ex_built 0) = Inr (slot0, h0, ready0)"
    and "BuildSlot (ex_built 1) = Inr (slot1, h1, ready1)" and "sh_packet_bytes h0 = 320" and "sh_packet_bytes h1 = 320"
    and "length slot0 = 320" and "length slot1 = 320"
    and "CompileLayout [ex_parsed 0 h0, ex_parsed 1 h1] [1, 0] ex_layout = Inr l" and "length (cl_contributors l) = 4"
proof -
  have "case BuildSlot (ex_built 0) of Inl _ \<Rightarrow> False | Inr (slot0, h0, ready0) \<Rightarrow>
     (case BuildSlot (ex_built 1) of Inl _ \<Rightarrow> False | Inr (slot1, h1, ready1) \<Rightarrow>
        sh_packet_bytes h0 = 320 \<and> sh_packet_bytes h1 = 320 \<and> length slot0 = 320 \<and> length slot1 = 320 \<and>
        (case CompileLayout [ex_parsed 0 h0, ex_parsed 1 h1] [1, 0] ex_layout of
           Inl _ \<Rightarrow> False | Inr l \<Rightarrow> length (cl_contributors l) = 4))"
    by code_simp
  then show thesis using that by (auto split: sum.splits)
qed

lemma ex_both_parsed:
  assumes b: "BuildSlot (ex_built r) = Inr (slot, h, ready)" and h: "sh_packet_bytes h = 320" and len: "length slot = 320"
    and r: "r = 0 \<or> r = 1"
  shows "ParseReadyAndSlot (ex_registration\<lparr>reg_source_rank := r\<rparr>) ex_session ready (Some slot) 320 = Inr (ex_parsed r h)"
proof -
  let ?reg = "ex_registration\<lparr>reg_source_rank := r\<rparr>"
  have ses: "in_session (ex_built r) = ex_session" by (simp add: ex_built_def ex_input_def)
  have reg: "ValidateRegistration ?reg ex_session = OK" using r by (auto; code_simp)
  have "parse_slot ex_session ready slot 320 = Inr (ex_parsed r h)"
    using BuildSlot_parse_slot(1) [OF b, of 320 "[]"] h len by (simp add: ses ex_parsed_def)
  moreover have "ready_accepted ?reg ex_session ready"
    using BuildSlot_ready_accepted [OF b, of ?reg] reg by (simp add: ses) (simp add: ex_registration_def ex_built_def ex_input_def)
  ultimately show ?thesis
    using reg by (simp add: ParseReadyAndSlot_through) (simp add: ex_registration_def)
qed

theorem CompileLayout_in_bounds_witness:
  "\<exists>p0 p1 l. (\<forall>p \<in> {p0, p1}. \<exists>reg ready slot. ParseReadyAndSlot reg ex_session ready (Some slot) 320 = Inr p) \<and>
     CompileLayout [p0, p1] [1, 0] ex_layout = Inr l \<and> length (cl_contributors l) = 4 \<and>
     CompileLayout [p0, p1] [1, 0] ex_layout \<noteq> Inl Oob"
proof -
  obtain slot0 h0 ready0 slot1 h1 ready1 l where b: "BuildSlot (ex_built 0) = Inr (slot0, h0, ready0)"
      "BuildSlot (ex_built 1) = Inr (slot1, h1, ready1)" "sh_packet_bytes h0 = 320" "sh_packet_bytes h1 = 320"
      "length slot0 = 320" "length slot1 = 320"
    and l: "CompileLayout [ex_parsed 0 h0, ex_parsed 1 h1] [1, 0] ex_layout = Inr l" "length (cl_contributors l) = 4"
    by (rule ex_both_built)
  note p0 = ex_both_parsed [OF b(1,3,5), simplified] and p1 = ex_both_parsed [OF b(2,4,6), simplified]
  have s: "ses_worker_count ex_session \<le> lc_worker_count ex_layout" "ses_expert_count ex_session \<le> lc_expert_count ex_layout"
    by (simp_all add: ex_session_def ex_layout_def)
  have cap: "unat (320 :: u64) \<le> length slot0" "unat (320 :: u64) \<le> length slot1" using b(5,6) by simp_all
  have "\<forall>q \<in> set [ex_parsed 0 h0, ex_parsed 1 h1]. \<exists>reg s ready bytes cap.
      ParseReadyAndSlot reg s ready (Some bytes) cap = Inr q \<and> unat cap \<le> length bytes \<and>
      ses_worker_count s \<le> lc_worker_count ex_layout \<and> ses_expert_count s \<le> lc_expert_count ex_layout"
    using p0 p1 s cap by (metis empty_iff empty_set set_ConsD)
  from CompileLayout_in_bounds [OF this, of "[1, 0]"] show ?thesis using p0 p1 l by blast
qed

text \<open>
  What the premise is for: the numbers of the session are not compared with those of the layout, and sources of
  a session with more experts make the compiler use an expert counter behind its table.
\<close>

lemma larger_session_leaves_tables:
  "CompileLayout ex_sources [1, 0] (ex_layout\<lparr>lc_expert_count := 1\<rparr>) = Inl Oob"
  by code_simp

section \<open>Expert rows\<close>

lemma expert_rows:
  "map ea_expert_row (filter (\<lambda>x. unat (ea_expert_id x) = e) (prefix_map expert_of fl)) =
     map of_nat [0..<expert_count e fl]"
  by (induction fl rule: rev_induct) (auto simp: expert_count_def expert_of_def split: prod.splits)

lemma expert_count_le: "expert_count e fl \<le> length fl"
  by (simp add: expert_count_def)

text \<open>
  C7 Dense rows at every expert. At every destination, the assignments to one
  expert get the rows 0, 1, 2, ... in the order they are listed, and the counter of that expert is
  the number of them.
\<close>

theorem CompileLayout_expert_rows:
  assumes "CompileLayout sources arrival c = Inr l" and "\<forall>p \<in> set sources. source_ok c p"
    and "d < unat (lc_worker_count c)" and "e < unat (lc_expert_count c)"
  shows "map (unat \<circ> ea_expert_row)
      (filter (\<lambda>x. unat (ea_expert_id x) = e) (cl_expert_assignments l ! d)) =
    [0..<unat (cl_expert_counts l ! (d * unat (lc_expert_count c) + e))]"
proof -
  let ?W = "unat (lc_worker_count c)" and ?E = "unat (lc_expert_count c)" and ?src = "rank_source sources"
  obtain epoch js where comp: "compiled ?W ?E ?src js epoch l" and ctx: "layout_ctx ?W ?E ?src js"
    by (rule CompileLayout_compiled [OF assms(1,2)])
  let ?fl = "flat ?src (jobs_at d js)"
  have es: "cl_expert_assignments l ! d = prefix_map expert_of ?fl"
    and cnt: "cl_expert_counts l ! (d * ?E + e) = of_nat (expert_count e ?fl)"
    using comp assms(3,4) by (simp_all add: compiled_def Let_def)
  have small: "expert_count e ?fl < 2 ^ 32"
    using le_less_trans [OF expert_count_le compiled_sizes(3) [OF ctx comp assms(3)]] .
  have "map (unat \<circ> ea_expert_row) (filter (\<lambda>x. unat (ea_expert_id x) = e) (prefix_map expert_of ?fl)) =
      map unat (map ea_expert_row (filter (\<lambda>x. unat (ea_expert_id x) = e) (prefix_map expert_of ?fl)))"
    by simp
  also have "\<dots> = map unat (map of_nat [0..<expert_count e ?fl] :: u32 list)"
    by (simp only: expert_rows)
  also have "\<dots> = [0..<expert_count e ?fl]"
    using small by (intro nth_equalityI) (simp_all add: unat_of_nat_u32)
  finally show ?thesis using small by (simp add: es cnt unat_of_nat_u32)
qed

theorem CompileLayout_expert_rows_witness:
  "\<exists>l. CompileLayout ex_sources [1, 0] ex_layout = Inr l \<and>
     map (unat \<circ> ea_expert_row) (filter (\<lambda>x. unat (ea_expert_id x) = 0) (cl_expert_assignments l ! 1)) =
       [0, 1, 2]"
proof -
  obtain l where l: "CompileLayout ex_sources [1, 0] ex_layout = Inr l" "cl_expert_counts l = [0, 1, 3, 1]"
    by (rule ex_compile)
  have "[0..<3] = [0, 1, 2 :: nat]" by (simp add: upt_rec)
  then have e: "map (unat \<circ> ea_expert_row) (filter (\<lambda>x. unat (ea_expert_id x) = 0) (cl_expert_assignments l ! 1)) =
      [0, 1, 2]"
    using CompileLayout_expert_rows [OF l(1) ex_sources_ok, of 1 0] l(2)
    by (simp add: ex_layout_def del: One_nat_def)
  show ?thesis by (intro exI [of _ l] conjI l(1) e)
qed

section \<open>The journal\<close>

lemma concat_take_le: "length (concat (map f (take i ks))) \<le> length (concat (map f ks))"
proof -
  have "concat (map f ks) = concat (map f (take i ks)) @ concat (map f (drop i ks))"
    by (metis append_take_drop_id concat_append map_append)
  then show ?thesis by simp
qed

lemma concat_slice:
  assumes "i < length ks"
  shows "vslice (concat (map f ks)) (length (concat (map f (take i ks))))
      (length (concat (map f (take i ks))) + length (f (ks ! i))) = f (ks ! i)"
    and "length (concat (map f (take i ks))) + length (f (ks ! i)) \<le> length (concat (map f ks))"
proof -
  have split: "concat (map f ks) =
      concat (map f (take i ks)) @ f (ks ! i) @ concat (map f (drop (Suc i) ks))"
    using arg_cong [OF id_take_nth_drop [OF assms], of "\<lambda>xs. concat (map f xs)"] by simp
  show "vslice (concat (map f ks)) (length (concat (map f (take i ks))))
      (length (concat (map f (take i ks))) + length (f (ks ! i))) = f (ks ! i)"
    unfolding split by (rule vslice_middle) simp_all
  show "length (concat (map f (take i ks))) + length (f (ks ! i)) \<le> length (concat (map f ks))"
    using arg_cong [OF split, of length] by simp
qed

abbreviation key_contributors :: "(nat \<Rightarrow> ParsedSource) \<Rightarrow> job list \<Rightarrow> key \<Rightarrow> JournalContributor list" where
  "key_contributors src js k \<equiv> contributors_at src js (fst k) (snd k)"

lemma compiled_entry:
  assumes ctx: "layout_ctx W E src js" and comp: "compiled W E src js epoch l"
    and ks: "ks = journal_keys src [0..<W]" and i: "i < length ks" and k: "ks ! i = (r, t)"
    and e: "e = cl_journal_tokens l ! i"
  shows "r < W" and "t < length (ps_tokens (src r))"
    and "unat (jt_owner_rank e) = r" and "unat (jt_owner_row e) = t"
    and "jt_route_key e = RouteKey (jt_owner_rank e) (jt_owner_row e)"
    and "jt_token_id e = tok_token_id (ps_tokens (src r) ! t)"
    and "unat (jt_contributors_begin e) = length (concat (map (key_contributors src js) (take i ks)))"
    and "unat (jt_contributors_count e) = length (contributors_at src js r t)"
    and "unat (jt_assignments_begin e) = length (concat (map (key_run src) (take i ks)))"
    and "unat (jt_assignments_count e) = length (token_run (src r) t)"
    and "unat (jt_accumulator_index e) = i" and "jt_flags e = 0" and "jt_reserved e = (0, 0)"
proof -
  have "(r, t) \<in> set ks" using nth_mem [OF i] k by simp
  then show r: "r < W" and t: "t < length (ps_tokens (src r))" by (auto simp: ks set_journal_keys)
  have wf: "source_wf W E (src r)" and W: "W \<le> 128" using ctx r by (auto simp: layout_ctx_def)
  have tok: "tok_source_token (ps_tokens (src r) ! t) = of_nat t" and t32: "t < 2 ^ 32"
    using wf t by (auto simp: source_wf_def)
  have ee: "e = entry_of src (key_contributors src js) (take i ks) (r, t)"
    and len: "length ks < 2 ^ 32" "length (concat (map (key_contributors src js) ks)) < 2 ^ 32"
      "length (concat (map (key_run src) ks)) < 2 ^ 32"
    using comp i k by (simp_all add: e compiled_def Let_def ks del: length_concat)
  show "unat (jt_owner_rank e) = r" "unat (jt_owner_row e) = t" "unat (jt_accumulator_index e) = i"
    using r W t32 i len(1)
    by (simp_all add: ee entry_of_def Let_def tok unat_of_nat_below [of _ 128] unat_of_nat_u32
        unat_of_nat_below [of _ "length ks"])
  show "jt_route_key e = RouteKey (jt_owner_rank e) (jt_owner_row e)"
    "jt_token_id e = tok_token_id (ps_tokens (src r) ! t)" "jt_flags e = 0" "jt_reserved e = (0, 0)"
    "unat (jt_assignments_count e) = length (token_run (src r) t)"
    using length_token_run [OF wf t] by (simp_all add: ee entry_of_def Let_def)
  show "unat (jt_contributors_begin e) = length (concat (map (key_contributors src js) (take i ks)))"
    using unat_of_nat_below [OF concat_take_le len(2)] by (simp add: ee entry_of_def Let_def del: length_concat)
  show "unat (jt_contributors_count e) = length (contributors_at src js r t)"
  proof -
    have "length (contributors_at src js r t) < 2 ^ 32"
      using concat_slice(2) [OF i, of "key_contributors src js"] len(2) by (simp add: k del: length_concat)
    then show ?thesis by (simp add: ee entry_of_def Let_def unat_of_nat_u32)
  qed
  show "unat (jt_assignments_begin e) = length (concat (map (key_run src) (take i ks)))"
    using unat_of_nat_below [OF concat_take_le len(3)] by (simp add: ee entry_of_def Let_def del: length_concat)
qed

lemma compiled_contributor:
  assumes ctx: "layout_ctx W E src js" and comp: "compiled W E src js epoch l"
    and c: "c \<in> set (contributors_at src js r t)" and d: "d = unat (jc_worker_rank c)"
    and k: "k = unat (jc_destination_row c)"
  shows "d < W" and "k < length (cl_destination_rows l ! d)"
    and "unat (jc_assignment_begin c) + unat (jc_assignment_count c) \<le> length (cl_expert_assignments l ! d)"
    and "jc_assignment_count c \<noteq> 0"
    and "dr_route_key (cl_destination_rows l ! d ! k) = RouteKey (of_nat r) (of_nat t)"
    and "dr_destination_row (cl_destination_rows l ! d ! k) = jc_destination_row c"
    and "dr_assignments_begin (cl_destination_rows l ! d ! k) = jc_assignment_begin c"
    and "dr_assignments_count (cl_destination_rows l ! d ! k) = jc_assignment_count c"
proof -
  obtain i d0 where i: "i < length js" and ji: "js ! i = (r, t, d0)"
    and ce: "c = contributor_of src (take i js) (r, t, d0)" by (rule contributors_at_elem [OF c])
  have "(r, t, d0) \<in> set js" using nth_mem [OF i] ji by simp
  then have d0: "d0 < W" and g: "job_group src (r, t, d0) \<noteq> []" using ctx_jobs(2) [OF ctx] by auto
  have W: "W \<le> 128" using ctx by (simp add: layout_ctx_def)
  have dd: "d = d0" using d0 W by (simp add: d ce contributor_of_def unat_of_nat_below [of _ 128])
  show "d < W" using d0 dd by simp
  let ?ds = "jobs_at d js"
  note pos = filter_position [OF i, where P = "\<lambda>j. snd (snd j) = d", folded jobs_at_def]
  have k0: "length (jobs_at d (take i js)) < length ?ds" using pos(1) ji dd by simp
  have job: "?ds ! length (jobs_at d (take i js)) = (r, t, d)" using pos(2) ji dd by simp
  have take: "take (length (jobs_at d (take i js))) ?ds = jobs_at d (take i js)" using pos(3) ji dd by simp
  have kk: "k = length (jobs_at d (take i js))"
    using k0 compiled_sizes(2) [OF ctx comp, of d]
    by (simp add: k ce contributor_of_def dd unat_of_nat_below [of _ "length ?ds"])
  then have kl: "k < length ?ds" and jk: "?ds ! k = (r, t, d)" using k0 job by simp_all
  then show "k < length (cl_destination_rows l ! d)"
    using compiled_rows_keys(2) [OF ctx comp \<open>d < W\<close>] by simp
  note row = compiled_row [OF ctx comp \<open>d < W\<close> kl refl jk]
  show "dr_route_key (cl_destination_rows l ! d ! k) = RouteKey (of_nat r) (of_nat t)"
    by (rule row)
  have x: "cl_destination_rows l ! d ! k = row_of src (jobs_at d (take i js)) (r, t, d)"
    using comp \<open>d < W\<close> kl jk take by (simp add: compiled_def Let_def kk)
  then show "dr_destination_row (cl_destination_rows l ! d ! k) = jc_destination_row c"
    and b: "dr_assignments_begin (cl_destination_rows l ! d ! k) = jc_assignment_begin c"
    and n: "dr_assignments_count (cl_destination_rows l ! d ! k) = jc_assignment_count c"
    by (simp_all add: ce contributor_of_def row_of_def Let_def dd job_group_def)
  have es: "length (cl_expert_assignments l ! d) = length (flat src ?ds)"
    using comp \<open>d < W\<close> by (simp add: compiled_def Let_def)
  obtain rest where "flat src ?ds = flat src (take k ?ds) @ map (Pair k) (job_group src (?ds ! k)) @ rest"
    by (rule flat_split [OF kl])
  then have "length (flat src (take k ?ds)) + length (group_of (src r) t d) \<le> length (flat src ?ds)"
    by (simp add: jk job_group_def)
  then show "unat (jc_assignment_begin c) + unat (jc_assignment_count c) \<le> length (cl_expert_assignments l ! d)"
    using row(12,13) by (simp add: b n es)
  have "unat (jc_assignment_count c) \<noteq> 0"
    unfolding n [symmetric] row(13) using g by (simp add: dd job_group_def)
  then show "jc_assignment_count c \<noteq> 0" by auto
qed

lemma compiled_contributor_ranks:
  assumes "layout_ctx W E src js" and "r < W" and "t < length (ps_tokens (src r))"
  shows "map (unat \<circ> jc_worker_rank) (contributors_at src js r t) =
    filter (\<lambda>d. group_of (src r) t d \<noteq> []) [0..<W]"
proof -
  obtain ranks where ranks: "distinct ranks" "set ranks = {0..<W}" "js = layout_jobs W src ranks"
    and W: "W \<le> 128" using assms(1) by (auto simp: layout_ctx_def)
  have "map (unat \<circ> jc_worker_rank) (contributors_at src js r t) =
      map unat (map jc_worker_rank (contributors_at src js r t))" by simp
  also have "\<dots> = map unat (map (\<lambda>d. of_nat d :: u32) (filter (\<lambda>d. group_of (src r) t d \<noteq> []) [0..<W]))"
    using ranks(2,3) assms(2,3) jobs_of_key [OF ranks(1), of r t src W] by (simp add: worker_ranks comp_def)
  also have "\<dots> = filter (\<lambda>d. group_of (src r) t d \<noteq> []) [0..<W]"
    using W by (auto intro!: map_idI simp: unat_of_nat_below [of _ 128])
  finally show ?thesis .
qed

lemma compiled_entries:
  assumes "layout_ctx W E src js" and "compiled W E src js epoch l" and "ks = journal_keys src [0..<W]"
  shows "length (cl_journal_tokens l) = length ks"
    and "map (\<lambda>e. (unat (jt_owner_rank e), unat (jt_owner_row e))) (cl_journal_tokens l) = ks"
    and "sum_list (map (unat \<circ> jt_contributors_count) (take i (cl_journal_tokens l))) =
      length (concat (map (key_contributors src js) (take i ks)))"
proof -
  show len: "length (cl_journal_tokens l) = length ks"
    using assms(2,3) by (simp add: compiled_def Let_def)
  have entry: "unat (jt_owner_rank (cl_journal_tokens l ! i)) = fst (ks ! i)"
      "unat (jt_owner_row (cl_journal_tokens l ! i)) = snd (ks ! i)"
      "unat (jt_contributors_count (cl_journal_tokens l ! i)) = length (key_contributors src js (ks ! i))"
    if "i < length ks" for i
  proof -
    obtain r t where k: "ks ! i = (r, t)" by (cases "ks ! i")
    note x = compiled_entry [OF assms that k refl]
    show "unat (jt_owner_rank (cl_journal_tokens l ! i)) = fst (ks ! i)"
      "unat (jt_owner_row (cl_journal_tokens l ! i)) = snd (ks ! i)"
      "unat (jt_contributors_count (cl_journal_tokens l ! i)) = length (key_contributors src js (ks ! i))"
      by (simp_all add: x(3,4,8) k)
  qed
  show "map (\<lambda>e. (unat (jt_owner_rank e), unat (jt_owner_row e))) (cl_journal_tokens l) = ks"
    by (rule nth_equalityI) (simp_all add: len entry)
  have "map (unat \<circ> jt_contributors_count) (cl_journal_tokens l) = map (length \<circ> key_contributors src js) ks"
    by (rule nth_equalityI) (simp_all add: len entry)
  then show "sum_list (map (unat \<circ> jt_contributors_count) (take i (cl_journal_tokens l))) =
      length (concat (map (key_contributors src js) (take i ks)))"
    by (simp add: length_concat take_map [symmetric])
qed

text \<open>
  C5 The sealed journal. It has one entry per token, ordered by owner rank and
  row, whatever the arrival order; entry \<open>i\<close> has accumulator \<open>i\<close>; the contributor ranges follow each
  other and cover the contributors. The contributors of a token are exactly the destinations it has
  assignments to, in increasing order, and each points to an existing row of its destination that
  carries the token's route key and the same assignment range. The journal also keeps every token's
  assignments.
\<close>

theorem CompileLayout_journal:
  assumes "CompileLayout sources arrival c = Inr l" and "\<forall>p \<in> set sources. source_ok c p"
  shows "map (\<lambda>e. (unat (jt_owner_rank e), unat (jt_owner_row e))) (cl_journal_tokens l) =
      concat (map (\<lambda>r. map (Pair r) [0..<length (ps_tokens (rank_source sources r))])
        [0..<unat (lc_worker_count c)]) \<and>
    sum_list (map (unat \<circ> jt_contributors_count) (cl_journal_tokens l)) = length (cl_contributors l) \<and>
    (\<forall>i < length (cl_journal_tokens l).
      (let e = cl_journal_tokens l ! i; b = unat (jt_contributors_begin e);
           cs = vslice (cl_contributors l) b (b + unat (jt_contributors_count e));
           p = rank_source sources (unat (jt_owner_rank e)); t = unat (jt_owner_row e)
       in unat (jt_accumulator_index e) = i \<and>
          b = sum_list (map (unat \<circ> jt_contributors_count) (take i (cl_journal_tokens l))) \<and>
          map (unat \<circ> jc_worker_rank) cs =
            filter (\<lambda>d. \<exists>a \<in> set (token_run p t). unat (asg_destination_rank a) = d)
              [0..<unat (lc_worker_count c)] \<and>
          vslice (cl_journal_assignments l) (unat (jt_assignments_begin e))
            (unat (jt_assignments_begin e) + unat (jt_assignments_count e)) = token_run p t \<and>
          (\<forall>x \<in> set cs.
            (let rows = cl_destination_rows l ! unat (jc_worker_rank x);
                 row = rows ! unat (jc_destination_row x)
             in unat (jc_destination_row x) < length rows \<and> dr_route_key row = jt_route_key e \<and>
                dr_assignments_begin row = jc_assignment_begin x \<and>
                dr_assignments_count row = jc_assignment_count x))))"
proof -
  let ?W = "unat (lc_worker_count c)" and ?src = "rank_source sources"
  obtain epoch js where comp: "compiled ?W (unat (lc_expert_count c)) ?src js epoch l"
    and ctx: "layout_ctx ?W (unat (lc_expert_count c)) ?src js"
    by (rule CompileLayout_compiled [OF assms])
  let ?ks = "journal_keys ?src [0..<?W]"
  note all = compiled_entries [OF ctx comp refl]
  have con: "cl_contributors l = concat (map (key_contributors ?src js) ?ks)"
    and run: "cl_journal_assignments l = concat (map (key_run ?src) ?ks)"
    using comp by (simp_all add: compiled_def Let_def)
  have entry: "unat (jt_accumulator_index e) = i \<and>
      unat (jt_contributors_begin e) = sum_list (map (unat \<circ> jt_contributors_count) (take i (cl_journal_tokens l))) \<and>
      vslice (cl_contributors l) (unat (jt_contributors_begin e))
        (unat (jt_contributors_begin e) + unat (jt_contributors_count e)) = contributors_at ?src js r t \<and>
      vslice (cl_journal_assignments l) (unat (jt_assignments_begin e))
        (unat (jt_assignments_begin e) + unat (jt_assignments_count e)) = token_run (?src r) t \<and>
      jt_route_key e = RouteKey (of_nat r) (of_nat t) \<and> r < ?W \<and> t < length (ps_tokens (?src r)) \<and>
      r = unat (jt_owner_rank e) \<and> t = unat (jt_owner_row e)"
    if "i < length ?ks" "e = cl_journal_tokens l ! i" "?ks ! i = (r, t)" for i e r t
  proof -
    note x = compiled_entry [OF ctx comp refl that(1,3,2)]
    have "jt_owner_rank e = of_nat r" "jt_owner_row e = of_nat t" by (simp_all flip: x(3,4))
    then show ?thesis
      using x(1-5) x(7-11) concat_slice(1) [OF that(1), of "key_contributors ?src js"]
        concat_slice(1) [OF that(1), of "key_run ?src"] all(3) [of i]
      by (simp add: con run that(3) key_run_def del: length_concat)
  qed
  have "unat (jc_destination_row x) < length (cl_destination_rows l ! unat (jc_worker_rank x)) \<and>
      dr_route_key (cl_destination_rows l ! unat (jc_worker_rank x) ! unat (jc_destination_row x)) =
        RouteKey (of_nat r) (of_nat t) \<and>
      dr_assignments_begin (cl_destination_rows l ! unat (jc_worker_rank x) ! unat (jc_destination_row x)) =
        jc_assignment_begin x \<and>
      dr_assignments_count (cl_destination_rows l ! unat (jc_worker_rank x) ! unat (jc_destination_row x)) =
        jc_assignment_count x" if "x \<in> set (contributors_at ?src js r t)" for x r t
    using compiled_contributor [OF ctx comp that refl refl] by blast
  note link = this
  have "sum_list (map (unat \<circ> jt_contributors_count) (cl_journal_tokens l)) = length (cl_contributors l)"
    using all(3) [of "length ?ks"] all(1) by (simp add: con del: length_concat)
  moreover note all(2) [unfolded journal_keys_def]
  moreover have "let e = cl_journal_tokens l ! i; b = unat (jt_contributors_begin e);
           cs = vslice (cl_contributors l) b (b + unat (jt_contributors_count e));
           p = ?src (unat (jt_owner_rank e)); t = unat (jt_owner_row e)
       in unat (jt_accumulator_index e) = i \<and>
          b = sum_list (map (unat \<circ> jt_contributors_count) (take i (cl_journal_tokens l))) \<and>
          map (unat \<circ> jc_worker_rank) cs =
            filter (\<lambda>d. \<exists>a \<in> set (token_run p t). unat (asg_destination_rank a) = d) [0..<?W] \<and>
          vslice (cl_journal_assignments l) (unat (jt_assignments_begin e))
            (unat (jt_assignments_begin e) + unat (jt_assignments_count e)) = token_run p t \<and>
          (\<forall>x \<in> set cs.
            (let rows = cl_destination_rows l ! unat (jc_worker_rank x);
                 row = rows ! unat (jc_destination_row x)
             in unat (jc_destination_row x) < length rows \<and> dr_route_key row = jt_route_key e \<and>
                dr_assignments_begin row = jc_assignment_begin x \<and>
                dr_assignments_count row = jc_assignment_count x))"
    if "i < length (cl_journal_tokens l)" for i
  proof -
    obtain r t where k: "?ks ! i = (r, t)" by (cases "?ks ! i")
    let ?e = "cl_journal_tokens l ! i"
    note x = entry [OF that [unfolded all(1)] refl k]
    have acc: "unat (jt_accumulator_index ?e) = i"
      and b: "unat (jt_contributors_begin ?e) =
        sum_list (map (unat \<circ> jt_contributors_count) (take i (cl_journal_tokens l)))"
      and cs: "vslice (cl_contributors l) (unat (jt_contributors_begin ?e))
        (unat (jt_contributors_begin ?e) + unat (jt_contributors_count ?e)) = contributors_at ?src js r t"
      and js: "vslice (cl_journal_assignments l) (unat (jt_assignments_begin ?e))
        (unat (jt_assignments_begin ?e) + unat (jt_assignments_count ?e)) = token_run (?src r) t"
      and key: "jt_route_key ?e = RouteKey (of_nat r) (of_nat t)"
      and rt: "r < ?W" "t < length (ps_tokens (?src r))"
      and own: "unat (jt_owner_rank ?e) = r" "unat (jt_owner_row ?e) = t" using x by auto
    have ranks: "map (unat \<circ> jc_worker_rank) (contributors_at ?src js r t) =
        filter (\<lambda>d. \<exists>a \<in> set (token_run (?src r) t). unat (asg_destination_rank a) = d) [0..<?W]"
      using compiled_contributor_ranks [OF ctx rt] by (simp add: group_of_def filter_empty_conv)
    show ?thesis
      unfolding Let_def own cs by (intro conjI ballI acc b ranks js) (simp_all add: link key)
  qed
  ultimately show ?thesis by blast
qed

theorem CompileLayout_journal_witness:
  "\<exists>l. CompileLayout ex_sources [1, 0] ex_layout = Inr l \<and>
     map (\<lambda>e. (unat (jt_owner_rank e), unat (jt_owner_row e))) (cl_journal_tokens l) =
       [(0, 0), (0, 1), (1, 0)] \<and>
     sum_list (map (unat \<circ> jt_contributors_count) (cl_journal_tokens l)) = 4"
proof -
  obtain l where l: "CompileLayout ex_sources [1, 0] ex_layout = Inr l" "length (cl_contributors l) = 4"
    by (rule ex_compile)
  have "length (ps_tokens (rank_source ex_sources 0)) = 2" "length (ps_tokens (rank_source ex_sources 1)) = 1"
    by (simp_all add: rank_source_def ex_sources_def ex_header_def)
  then have k: "concat (map (\<lambda>r. map (Pair r) [0..<length (ps_tokens (rank_source ex_sources r))]) [0..<2]) =
      [(0, 0), (0, 1), (1, 0)]" by (simp add: numeral_2_eq_2)
  have "unat (lc_worker_count ex_layout) = 2" by (simp add: ex_layout_def)
  note j = CompileLayout_journal [OF l(1) ex_sources_ok, unfolded this k]
  show ?thesis using j l by (intro exI [of _ l]) simp
qed

section \<open>Independence of the arrival order\<close>

lemma contributor_shape:
  "map (\<lambda>c. (jc_worker_rank c, jc_assignment_count c)) (contributors_at src js r t) =
     map (\<lambda>j. (of_nat (snd (snd j)), of_nat (length (job_group src j))))
       (filter (\<lambda>j. job_key j = (r, t)) js)"
  by (induction js rule: rev_induct) (simp_all add: contributor_of_def case_prod_beta)

lemma key_jobs_eq:
  assumes "layout_ctx W E src js" and "layout_ctx W E src js'" and "k \<in> set (journal_keys src [0..<W])"
  shows "filter (\<lambda>j. job_key j = k) js = filter (\<lambda>j. job_key j = k) js'"
proof -
  obtain r t where k: "k = (r, t)" "r < W" "t < length (ps_tokens (src r))"
    using assms(3) by (auto simp: set_journal_keys)
  show ?thesis
    using assms(1,2) jobs_of_key [of _ r t src W] k by (auto simp: layout_ctx_def)
qed

text \<open>
  C8 The journal does not depend on the arrival order. If two orders both compile,
  the journal entries, the saved assignments and the sealed header (with its cookie) are the same,
  and the contributors agree on their destinations and assignment counts. Only the rows allocated
  at the destinations depend on the order.
\<close>

theorem CompileLayout_arrival_independent:
  assumes "CompileLayout sources arrival c = Inr l" and "CompileLayout sources arrival' c = Inr l'"
    and "\<forall>p \<in> set sources. source_ok c p"
  shows "cl_journal_tokens l = cl_journal_tokens l' \<and>
    cl_journal_assignments l = cl_journal_assignments l' \<and>
    cl_journal_header l = cl_journal_header l' \<and>
    map (\<lambda>c. (jc_worker_rank c, jc_assignment_count c)) (cl_contributors l) =
      map (\<lambda>c. (jc_worker_rank c, jc_assignment_count c)) (cl_contributors l')"
proof -
  let ?W = "unat (lc_worker_count c)" and ?E = "unat (lc_expert_count c)" and ?src = "rank_source sources"
  let ?ks = "journal_keys ?src [0..<?W]" and ?f = "\<lambda>c. (jc_worker_rank c, jc_assignment_count c)"
  obtain epoch js where comp: "compiled ?W ?E ?src js epoch l" and ctx: "layout_ctx ?W ?E ?src js"
    and ok: "layout_input_ok sources arrival c"
    and ep: "\<forall>p \<in> set sources. header_epoch (ps_header p) = epoch \<and> ep_generation epoch \<noteq> 0 \<and> ep_sequence epoch \<noteq> 0"
    by (rule CompileLayout_compiled [OF assms(1,3)])
  obtain epoch' js' where comp': "compiled ?W ?E ?src js' epoch' l'" and ctx': "layout_ctx ?W ?E ?src js'"
    and ep': "\<forall>p \<in> set sources. header_epoch (ps_header p) = epoch' \<and> ep_generation epoch' \<noteq> 0 \<and> ep_sequence epoch' \<noteq> 0"
    by (rule CompileLayout_compiled [OF assms(2,3)])
  have "sources \<noteq> []" using ok by (auto simp: layout_input_ok_def word_le_nat_alt)
  then have epoch: "epoch' = epoch" using ep ep' by (metis hd_in_set)
  have shape: "map ?f (key_contributors ?src js k) = map ?f (key_contributors ?src js' k)" if "k \<in> set ?ks" for k
    using key_jobs_eq [OF ctx ctx' that] by (simp add: contributor_shape)
  then have len: "length (key_contributors ?src js k) = length (key_contributors ?src js' k)" if "k \<in> set ?ks" for k
    using map_eq_imp_length_eq that by blast
  have all: "map ?f (concat (map (key_contributors ?src js) ks)) = map ?f (concat (map (key_contributors ?src js') ks))"
    if "set ks \<subseteq> set ?ks" for ks
  proof -
    have "map (map ?f) (map (key_contributors ?src js) ks) = map (map ?f) (map (key_contributors ?src js') ks)"
      unfolding map_map using that shape by (intro map_cong) auto
    then show ?thesis by (simp only: map_concat)
  qed
  have entry: "entry_of ?src (key_contributors ?src js) (take i ?ks) (?ks ! i) =
      entry_of ?src (key_contributors ?src js') (take i ?ks) (?ks ! i)" if "i < length ?ks" for i
    using len [OF nth_mem [OF that]] map_eq_imp_length_eq [OF all [OF set_take_subset, of i]]
    by (simp add: entry_of_def Let_def del: length_concat)
  have "prefix_map (entry_of ?src (key_contributors ?src js)) ?ks =
      prefix_map (entry_of ?src (key_contributors ?src js')) ?ks"
    by (rule nth_equalityI) (simp_all add: entry)
  then show ?thesis
    using comp comp' all [of ?ks] map_eq_imp_length_eq [OF all [of ?ks]]
    by (simp add: compiled_def Let_def epoch del: length_concat map_concat)
qed

theorem CompileLayout_arrival_independent_witness:
  "\<exists>l l'. CompileLayout ex_sources [1, 0] ex_layout = Inr l \<and> CompileLayout ex_sources [0, 1] ex_layout = Inr l' \<and>
     cl_journal_tokens l = cl_journal_tokens l' \<and> cl_journal_header l = cl_journal_header l'"
proof -
  obtain l where l: "CompileLayout ex_sources [1, 0] ex_layout = Inr l" by (rule ex_compile)
  have "case CompileLayout ex_sources [0, 1] ex_layout of Inr _ \<Rightarrow> True | Inl _ \<Rightarrow> False" by code_simp
  then obtain l' where l': "CompileLayout ex_sources [0, 1] ex_layout = Inr l'" by (auto split: sum.splits)
  show ?thesis using CompileLayout_arrival_independent [OF l l' ex_sources_ok] l l' by auto
qed

text \<open>
  The uniform flag. The compiled journal carries it exactly when, in every
  source, every token has at most one assignment per destination and all tokens have the same
  destinations as the first; the flag the worker put into its slot header plays no role.
\<close>

theorem CompileLayout_uniform_flag:
  assumes "CompileLayout sources arrival c = Inr l" and "\<forall>p \<in> set sources. source_ok c p"
  shows "jh_flags (cl_journal_header l) AND kJournalFlagUniformDestinations \<noteq> 0 \<longleftrightarrow>
    (\<forall>r < unat (lc_worker_count c). \<forall>t < length (ps_tokens (rank_source sources r)).
       distinct (map asg_destination_rank (token_run (rank_source sources r) t)) \<and>
       asg_destination_rank ` set (token_run (rank_source sources r) t) =
         asg_destination_rank ` set (token_run (rank_source sources r) 0))"
proof -
  let ?W = "unat (lc_worker_count c)" and ?src = "rank_source sources"
  obtain epoch js where comp: "compiled ?W (unat (lc_expert_count c)) ?src js epoch l"
    by (rule CompileLayout_compiled [OF assms])
  have inj: "inj (unat :: u32 \<Rightarrow> nat)" by (simp add: inj_def word_unat_eq_iff)
  have inj_on: "inj_on unat A" for A :: "u32 set" using inj by (rule inj_on_subset) simp
  have "run_dests p t = map unat (map asg_destination_rank (token_run p t))" for p t
    by (simp add: run_dests_def)
  then have runs: "distinct (run_dests p t) = distinct (map asg_destination_rank (token_run p t)) \<and>
      (set (run_dests p t) = set (run_dests p u) \<longleftrightarrow>
       asg_destination_rank ` set (token_run p t) = asg_destination_rank ` set (token_run p u))" for p t u
    using inj by (simp add: distinct_map inj_on image_image [symmetric] inj_image_eq_iff
        del: map_map image_image)
  have "uniform_source p \<longleftrightarrow> (\<forall>t < length (ps_tokens p).
      distinct (map asg_destination_rank (token_run p t)) \<and>
      asg_destination_rank ` set (token_run p t) = asg_destination_rank ` set (token_run p 0))" for p
    by (simp only: uniform_source_def runs [THEN conjunct1] runs [THEN conjunct2])
  moreover have "jh_flags (cl_journal_header l) =
      (if \<forall>r < ?W. uniform_source (?src r) then kJournalFlagUniformDestinations else 0)"
    using comp by (simp add: compiled_def Let_def)
  ultimately show ?thesis by (simp add: kJournalFlagUniformDestinations_def)
qed

theorem CompileLayout_uniform_flag_witness:
  "\<exists>l. CompileLayout ex_sources [1, 0] ex_layout = Inr l \<and>
     jh_flags (cl_journal_header l) AND kJournalFlagUniformDestinations = 0"
proof -
  obtain l where l: "CompileLayout ex_sources [1, 0] ex_layout = Inr l" by (rule ex_compile)
  have "\<not> distinct (map asg_destination_rank (token_run (rank_source ex_sources 0) 1))"
    "1 < length (ps_tokens (rank_source ex_sources 0))" "0 < unat (lc_worker_count ex_layout)"
    by (code_simp, simp_all add: rank_source_def ex_sources_def ex_header_def ex_layout_def)
  then show ?thesis using CompileLayout_uniform_flag [OF l ex_sources_ok] l by blast
qed

end
