(* ===== verification/Combine_Plan.thy ===== *)
theory Combine_Plan
  imports Dispatch_Journal "HOL-Library.Product_Lexorder"
begin

text \<open>
  The combine side of the INC (\<open>inc_dc_pull_combine_v2.cpp\<close>): validation of registered regions and
  of READY records, and \<open>CompileCombinePullPlan\<close>, which turns a sealed dispatch journal into the
  list of rows to pull from every worker, the results to publish to every owner and the reduction
  chains. \<open>std::sort\<close> is not stable; ties in its keys make the density checks that follow fail
  whatever their order, so the stable \<open>sort_key\<close> gives the same outcome.
\<close>

section \<open>Model\<close>

definition kPullCombineV2Magic :: u32 where [abi_consts]: "kPullCombineV2Magic = 0x32434e49"
definition kPullCombineV2AbiVersion :: u16 where [abi_consts]: "kPullCombineV2AbiVersion = 1"
definition kPullCombineV2Alignment :: u32 where [abi_consts]: "kPullCombineV2Alignment = 64"
definition kPullCombineV2CanonicalRows :: u32 where [abi_consts]: "kPullCombineV2CanonicalRows = 1"

datatype CombineV2Status =
    OK | INVALID_ARGUMENT | INVALID_JOURNAL | INVALID_REGISTRATION | INVALID_READY
  | COOKIE_MISMATCH | STALE_EPOCH | SIZE_OVERFLOW | CAPACITY_EXCEEDED | DUPLICATE_SOURCE
  | NOT_READY | INVALID_STATE_TRANSITION | ABORTED

type_synonym PartialDataType = u32

record CombineRegionRegistration =
  crg_session_id :: u64
  crg_placement_epoch :: u64
  crg_source_rank :: u32
  crg_region_id :: u32
  crg_slot_count :: u32
  crg_alignment :: u32
  crg_region_bytes :: u64
  crg_slot_stride :: u64
  crg_reserved :: "u64 \<times> u64"

record CombineReadyV2 =
  crd_magic :: u32
  crd_abi_version :: u16
  crd_struct_bytes :: u16
  crd_session_id :: u64
  crd_placement_epoch :: u64
  crd_generation :: u64
  crd_sequence :: u64
  crd_dispatch_cookie :: u64
  crd_wave :: u32
  crd_source_rank :: u32
  crd_source_region_id :: u32
  crd_ring_slot :: u16
  crd_flags :: u16
  crd_row_count :: u32
  crd_hidden :: u32
  crd_partial_dtype :: u32
  crd_source_offset :: u64
  crd_payload_bytes :: u64
  crd_publication :: u64
  crd_reserved :: "u64 \<times> u64 \<times> u64"

record CombineReadyNoticeV2 =
  crn_magic :: u32
  crn_abi_version :: u16
  crn_struct_bytes :: u16
  crn_session_id :: u64
  crn_placement_epoch :: u64
  crn_generation :: u64
  crn_sequence :: u64
  crn_wave :: u32
  crn_source_rank :: u32
  crn_ring_slot :: u16
  crn_flags :: u16
  crn_reserved0 :: u32
  crn_publication :: u64

record CombineV2Config =
  cfg_session_id :: u64
  cfg_placement_epoch :: u64
  cfg_worker_count :: u32
  cfg_hidden :: u32
  cfg_partial_dtype :: PartialDataType
  cfg_ring_slots :: u32

record CombinePullOp =
  po_source_rank :: u32
  po_source_row :: u32
  po_journal_token :: u32
  po_accumulator_index :: u32

record CombineResultOp =
  ro_owner_rank :: u32
  ro_owner_row :: u32
  ro_journal_token :: u32
  ro_accumulator_index :: u32
  ro_expected_contributors :: u32
  ro_reserved :: "u32 \<times> u32 \<times> u32"

record CombinePullPlan =
  pl_generation :: u64
  pl_sequence :: u64
  pl_dispatch_cookie :: u64
  pl_wave :: u32
  pl_ring_slot :: u16
  pl_reserved0 :: u16
  pl_worker_count :: u32
  pl_hidden :: u32
  pl_partial_dtype :: PartialDataType
  pl_accumulator_count :: u32
  pl_source_offsets :: "u64 list"
  pl_source_row_counts :: "u32 list"
  pl_pulls :: "CombinePullOp list"
  pl_owner_offsets :: "u64 list"
  pl_results :: "CombineResultOp list"
  pl_pull_next :: "u32 list"
  pl_accumulator_heads :: "u32 list"
  pl_accumulator_contributor_counts :: "u32 list"
  pl_accumulator_result_index :: "u32 list"

definition PartialBytes :: "PartialDataType \<Rightarrow> u32" where
  "PartialBytes dtype = (if dtype = FP16 \<or> dtype = BF16 then 2 else if dtype = FP32 then 4 else 0)"

definition ConfigValid :: "CombineV2Config \<Rightarrow> bool" where
  "ConfigValid c \<longleftrightarrow> cfg_session_id c \<noteq> 0 \<and> cfg_placement_epoch c \<noteq> 0 \<and>
     cfg_worker_count c \<ge> 2 \<and> cfg_worker_count c \<le> kPullDispatchMaxWorkers \<and>
     cfg_hidden c \<noteq> 0 \<and> PartialBytes (cfg_partial_dtype c) \<noteq> 0 \<and>
     cfg_ring_slots c \<noteq> 0 \<and> cfg_ring_slots c \<le> 65535"

definition ReservedZero :: "u64 list \<Rightarrow> bool" where
  "ReservedZero values \<longleftrightarrow> list_all (\<lambda>v. v = 0) values"

definition HeaderCanonical :: "JournalSlotHeader \<Rightarrow> bool" where
  "HeaderCanonical h \<longleftrightarrow> jh_magic h = kPullDispatchMagic \<and>
     jh_abi_version h = kPullDispatchAbiVersion \<and>
     jh_struct_bytes h = of_nat sizeof_JournalSlotHeader \<and>
     jh_generation h \<noteq> 0 \<and> jh_sequence h \<noteq> 0 \<and> jh_dispatch_cookie h \<noteq> 0 \<and> jh_status h = 0 \<and>
     jh_flags h AND NOT kJournalFlagDenseAllDestinations = 0 \<and> ReservedZero [jh_reserved h]"

definition CombineReadyPublication :: "CombineReadyV2 \<Rightarrow> u64" where
  "CombineReadyPublication r =
     (let hash = HashBytes kHashOffset
        (le_bytes 4 (crd_magic r) @ le_bytes 2 (crd_abi_version r) @ le_bytes 2 (crd_struct_bytes r) @
         le_bytes 8 (crd_session_id r) @ le_bytes 8 (crd_placement_epoch r) @
         le_bytes 8 (crd_generation r) @ le_bytes 8 (crd_sequence r) @
         le_bytes 8 (crd_dispatch_cookie r) @ le_bytes 4 (crd_wave r) @
         le_bytes 4 (crd_source_rank r) @ le_bytes 4 (crd_source_region_id r) @
         le_bytes 2 (crd_ring_slot r) @ le_bytes 2 (crd_flags r) @ le_bytes 4 (crd_row_count r) @
         le_bytes 4 (crd_hidden r) @ le_bytes 4 (crd_partial_dtype r) @
         le_bytes 8 (crd_source_offset r) @ le_bytes 8 (crd_payload_bytes r) @
         (case crd_reserved r of (a, b, c) \<Rightarrow> le_bytes 8 a @ le_bytes 8 b @ le_bytes 8 c))
      in if hash = 0 then 1 else hash)"

definition CombineReadyNoticePublication :: "CombineReadyNoticeV2 \<Rightarrow> u64" where
  "CombineReadyNoticePublication n =
     (let hash = HashBytes kHashOffset
        (le_bytes 4 (crn_magic n) @ le_bytes 2 (crn_abi_version n) @ le_bytes 2 (crn_struct_bytes n) @
         le_bytes 8 (crn_session_id n) @ le_bytes 8 (crn_placement_epoch n) @
         le_bytes 8 (crn_generation n) @ le_bytes 8 (crn_sequence n) @ le_bytes 4 (crn_wave n) @
         le_bytes 4 (crn_source_rank n) @ le_bytes 2 (crn_ring_slot n) @ le_bytes 2 (crn_flags n) @
         le_bytes 4 (crn_reserved0 n))
      in if hash = 0 then 1 else hash)"

definition ValidateCombineRegistration ::
  "CombineRegionRegistration \<Rightarrow> CombineV2Config \<Rightarrow> CombineV2Status" where
  "ValidateCombineRegistration r c =
     (if \<not> ConfigValid c \<or> crg_session_id r \<noteq> cfg_session_id c \<or>
         crg_placement_epoch r \<noteq> cfg_placement_epoch c \<or>
         crg_source_rank r \<ge> cfg_worker_count c \<or> crg_region_id r = 0 \<or>
         crg_slot_count r < cfg_ring_slots c \<or> crg_alignment r < kPullCombineV2Alignment \<or>
         crg_alignment r AND (crg_alignment r - 1) \<noteq> 0 \<or> crg_slot_stride r = 0 \<or>
         crg_slot_stride r mod ucast (crg_alignment r) \<noteq> 0 \<or>
         (case Mul (ucast (crg_slot_count r)) (crg_slot_stride r) of
            None \<Rightarrow> True | Some required \<Rightarrow> required > crg_region_bytes r) \<or>
         \<not> ReservedZero [fst (crg_reserved r), snd (crg_reserved r)]
      then INVALID_REGISTRATION else OK)"

subsection \<open>From the journal to pulls and results\<close>

definition check_previous ::
  "CompiledLayout \<Rightarrow> JournalTokenEntry \<Rightarrow> JournalContributor \<Rightarrow> nat \<Rightarrow> unit \<Rightarrow>
     (CombineV2Status, unit) res" where
  "check_previous dispatch token contributor previous _ =
     rbind (vget (cl_contributors dispatch) (unat (jt_contributors_begin token + of_nat previous)))
       (\<lambda>p. if jc_worker_rank p = jc_worker_rank contributor then fail INVALID_JOURNAL else Inr ())"

definition pull_contributor ::
  "CompiledLayout \<Rightarrow> CombineV2Config \<Rightarrow> nat \<Rightarrow> JournalTokenEntry \<Rightarrow> nat \<Rightarrow> CombinePullOp list \<Rightarrow>
     (CombineV2Status, CombinePullOp list) res" where
  "pull_contributor dispatch config token_index token local pulls =
     rbind (vget (cl_contributors dispatch) (unat (jt_contributors_begin token + of_nat local)))
     (\<lambda>c. if jc_worker_rank c \<ge> cfg_worker_count config then fail INVALID_JOURNAL else
     rbind (vget (cl_destination_rows dispatch) (unat (jc_worker_rank c))) (\<lambda>rows.
     if unat (jc_destination_row c) \<ge> length rows \<or> jc_assignment_count c = 0
     then fail INVALID_JOURNAL else
     rbind (vget (cl_expert_assignments dispatch) (unat (jc_worker_rank c))) (\<lambda>experts.
     if (case Add (ucast (jc_assignment_begin c)) (ucast (jc_assignment_count c)) of
           None \<Rightarrow> True | Some local_assignment_end \<Rightarrow> unat local_assignment_end > length experts)
     then fail INVALID_JOURNAL else
     rbind (vget rows (unat (jc_destination_row c))) (\<lambda>row.
     if dr_route_key row \<noteq> jt_route_key token \<or> dr_destination_row row \<noteq> jc_destination_row c \<or>
        dr_assignments_begin row \<noteq> jc_assignment_begin c \<or>
        dr_assignments_count row \<noteq> jc_assignment_count c
     then fail INVALID_JOURNAL else
     rbind (mfold (check_previous dispatch token c) [0..<local] ()) (\<lambda>_.
     Inr (pulls @ [\<lparr> po_source_rank = jc_worker_rank c, po_source_row = jc_destination_row c,
        po_journal_token = of_nat token_index,
        po_accumulator_index = jt_accumulator_index token \<rparr>]))))))"

definition token_entry_bad ::
  "CompiledLayout \<Rightarrow> CombineV2Config \<Rightarrow> JournalTokenEntry \<Rightarrow> u64 \<Rightarrow> bool" where
  "token_entry_bad dispatch config token expected_contributor_begin \<longleftrightarrow>
     jt_owner_rank token \<ge> cfg_worker_count config \<or>
     jt_route_key token \<noteq> RouteKey (jt_owner_rank token) (jt_owner_row token) \<or>
     ucast (jt_contributors_begin token) \<noteq> expected_contributor_begin \<or>
     (case Add (ucast (jt_contributors_begin token)) (ucast (jt_contributors_count token)) of
        None \<Rightarrow> True
      | Some contributor_end \<Rightarrow> unat contributor_end > length (cl_contributors dispatch)) \<or>
     (case Add (ucast (jt_assignments_begin token)) (ucast (jt_assignments_count token)) of
        None \<Rightarrow> True
      | Some assignment_end \<Rightarrow> unat assignment_end > length (cl_journal_assignments dispatch)) \<or>
     unat (jt_accumulator_index token) \<ge> length (cl_journal_tokens dispatch)"

fun plan_token ::
  "CompiledLayout \<Rightarrow> CombineV2Config \<Rightarrow> nat \<Rightarrow>
     u64 \<times> bool list \<times> CombinePullOp list \<times> CombineResultOp list \<Rightarrow>
     (CombineV2Status, u64 \<times> bool list \<times> CombinePullOp list \<times> CombineResultOp list) res" where
  "plan_token dispatch config token_index (expected, accumulator_seen, pulls, results) =
     rbind (vget (cl_journal_tokens dispatch) token_index) (\<lambda>token.
     if token_entry_bad dispatch config token expected then fail INVALID_JOURNAL else
     rbind (vget accumulator_seen (unat (jt_accumulator_index token))) (\<lambda>seen.
     if seen \<or> jt_flags token \<noteq> 0 \<or>
        \<not> ReservedZero [fst (jt_reserved token), snd (jt_reserved token)]
     then fail INVALID_JOURNAL else
     rbind (vput accumulator_seen (unat (jt_accumulator_index token)) True) (\<lambda>accumulator_seen'.
     rbind (mfold (pull_contributor dispatch config token_index token)
              [0..<unat (jt_contributors_count token)] pulls) (\<lambda>pulls'.
     Inr (ucast (jt_contributors_begin token) + ucast (jt_contributors_count token),
          accumulator_seen', pulls',
          results @ [\<lparr> ro_owner_rank = jt_owner_rank token, ro_owner_row = jt_owner_row token,
            ro_journal_token = of_nat token_index,
            ro_accumulator_index = jt_accumulator_index token,
            ro_expected_contributors = jt_contributors_count token,
            ro_reserved = (0, 0, 0) \<rparr>])))))"

subsection \<open>Density of the sorted lists\<close>

definition source_row ::
  "CombinePullOp list \<Rightarrow> nat \<Rightarrow> nat \<Rightarrow> nat \<Rightarrow> (CombineV2Status, nat) res" where
  "source_row pulls source row pull =
     (if pull \<ge> length pulls then fail INVALID_JOURNAL
      else rbind (vget pulls pull) (\<lambda>p.
        if po_source_rank p \<noteq> of_nat source \<or> po_source_row p \<noteq> of_nat row
        then fail INVALID_JOURNAL else Inr (pull + 1)))"

fun source_rows ::
  "CompiledLayout \<Rightarrow> CombinePullOp list \<Rightarrow> nat \<Rightarrow> nat \<times> u64 list \<times> u32 list \<Rightarrow>
     (CombineV2Status, nat \<times> u64 list \<times> u32 list) res" where
  "source_rows dispatch pulls source (pull, source_offsets, source_row_counts) =
     rbind (vput source_offsets source (of_nat pull)) (\<lambda>source_offsets'.
     rbind (vget (cl_destination_rows dispatch) source) (\<lambda>rows.
     if int (length rows) > 2 ^ 32 - 1 then fail CAPACITY_EXCEEDED else
     rbind (mfold (source_row pulls source) [0..<length rows] pull) (\<lambda>pull'.
     rbind (vput source_row_counts source (of_nat (length rows))) (\<lambda>source_row_counts'.
     Inr (pull', source_offsets', source_row_counts')))))"

fun owner_rows ::
  "u32 \<Rightarrow> CombineResultOp list \<Rightarrow> u32 \<Rightarrow> nat \<Rightarrow> (CombineV2Status, nat) res" where
  "owner_rows owner [] owner_row result = Inr result"
| "owner_rows owner (r # rs) owner_row result =
     (if ro_owner_rank r \<noteq> owner then Inr result
      else if ro_owner_row r \<noteq> owner_row then fail INVALID_JOURNAL
      else owner_rows owner rs (owner_row + 1) (result + 1))"

fun owner_run ::
  "CombineResultOp list \<Rightarrow> nat \<Rightarrow> nat \<times> u64 list \<Rightarrow> (CombineV2Status, nat \<times> u64 list) res" where
  "owner_run results owner (result, owner_offsets) =
     rbind (vput owner_offsets owner (of_nat result)) (\<lambda>owner_offsets'.
     rbind (owner_rows (of_nat owner) (drop result results) 0 result) (\<lambda>result'.
     Inr (result', owner_offsets')))"

subsection \<open>Reduction chains\<close>

definition invalid_index :: u32 where
  "invalid_index = - 1"

text \<open>
  The walk along the chain of an accumulator. A chain has at most as many members as there are
  pulls, so one more step than that is enough fuel.
\<close>

fun walk_chain ::
  "nat \<Rightarrow> CombinePullOp list \<Rightarrow> u32 list \<Rightarrow> u32 \<Rightarrow> u32 \<Rightarrow> (CombineV2Status, unit) res" where
  "walk_chain fuel pulls pull_next rank previous =
     (if previous = invalid_index then Inr ()
      else case fuel of 0 \<Rightarrow> Inl Hang
      | Suc fuel' \<Rightarrow>
        rbind (vget pulls (unat previous)) (\<lambda>p.
          if po_source_rank p = rank then fail DUPLICATE_SOURCE
          else rbind (vget pull_next (unat previous))
                 (walk_chain fuel' pulls pull_next rank)))"

fun link_pull ::
  "CombinePullOp list \<Rightarrow> u32 \<Rightarrow> nat \<Rightarrow> u32 list \<times> u32 list \<times> u32 list \<Rightarrow>
     (CombineV2Status, u32 list \<times> u32 list \<times> u32 list) res" where
  "link_pull pulls accumulator_count index (pull_next, heads, counts) =
     rbind (vget pulls index) (\<lambda>op.
     if po_accumulator_index op \<ge> accumulator_count then fail INVALID_JOURNAL else
     (let a = unat (po_accumulator_index op) in
     rbind (vget heads a) (\<lambda>head.
     rbind (walk_chain (length pulls + 1) pulls pull_next (po_source_rank op) head) (\<lambda>_.
     rbind (vput pull_next index head) (\<lambda>pull_next'.
     rbind (vput heads a (of_nat index)) (\<lambda>heads'.
     rbind (vget counts a) (\<lambda>n.
     rbind (vput counts a (n + 1)) (\<lambda>counts'.
     Inr (pull_next', heads', counts')))))))))"

definition index_result ::
  "CombineResultOp list \<Rightarrow> u32 \<Rightarrow> u32 list \<Rightarrow> nat \<Rightarrow> u32 list \<Rightarrow> (CombineV2Status, u32 list) res" where
  "index_result results accumulator_count counts index result_index =
     rbind (vget results index) (\<lambda>op.
     if ro_accumulator_index op \<ge> accumulator_count then fail INVALID_JOURNAL else
     (let a = unat (ro_accumulator_index op) in
     rbind (vget result_index a) (\<lambda>taken.
     if taken \<noteq> invalid_index then fail INVALID_JOURNAL else
     rbind (vget counts a) (\<lambda>n.
     if ro_expected_contributors op \<noteq> n then fail INVALID_JOURNAL
     else vput result_index a (of_nat index)))))"

subsection \<open>The plan compiler\<close>

definition journal_bad :: "CompiledLayout \<Rightarrow> CombineV2Config \<Rightarrow> bool" where
  "journal_bad dispatch config \<longleftrightarrow>
     (let h = cl_journal_header dispatch in
      \<not> HeaderCanonical h \<or> state_of_code (jh_state h) \<noteq> Some DISPATCH_SEALED \<or>
      ucast (jh_ring_slot h) \<ge> cfg_ring_slots config \<or>
      length (cl_destination_rows dispatch) \<noteq> unat (cfg_worker_count config) \<or>
      length (cl_expert_assignments dispatch) \<noteq> unat (cfg_worker_count config) \<or>
      unat (jh_token_count h) \<noteq> length (cl_journal_tokens dispatch) \<or>
      unat (jh_contributor_count h) \<noteq> length (cl_contributors dispatch) \<or>
      int (length (cl_journal_tokens dispatch)) > 2 ^ 32 - 1)"

definition plan_journal ::
  "CompiledLayout \<Rightarrow> CombineV2Config \<Rightarrow>
     (CombineV2Status, CombinePullOp list \<times> CombineResultOp list) res" where
  "plan_journal dispatch config =
     rbind (mfold (plan_token dispatch config) [0..<length (cl_journal_tokens dispatch)]
              (0, replicate (length (cl_journal_tokens dispatch)) False, [], []))
       (\<lambda>(expected, _, pulls, results).
          if unat expected \<noteq> length (cl_contributors dispatch) then fail INVALID_JOURNAL
          else Inr (pulls, results))"

definition plan_sources ::
  "CompiledLayout \<Rightarrow> CombineV2Config \<Rightarrow> CombinePullOp list \<Rightarrow>
     (CombineV2Status, u64 list \<times> u32 list) res" where
  "plan_sources dispatch config pulls =
     (let W = unat (cfg_worker_count config) in
      rbind (mfold (source_rows dispatch pulls) [0..<W] (0, replicate (W + 1) 0, replicate W 0))
        (\<lambda>(pull, source_offsets, source_row_counts).
           rbind (vput source_offsets W (of_nat pull)) (\<lambda>source_offsets'.
           if pull \<noteq> length pulls then fail INVALID_JOURNAL
           else Inr (source_offsets', source_row_counts))))"

definition plan_owners ::
  "CombineV2Config \<Rightarrow> CombineResultOp list \<Rightarrow> (CombineV2Status, u64 list) res" where
  "plan_owners config results =
     (let W = unat (cfg_worker_count config) in
      rbind (mfold (owner_run results) [0..<W] (0, replicate (W + 1) 0))
        (\<lambda>(result, owner_offsets).
           rbind (vput owner_offsets W (of_nat result)) (\<lambda>owner_offsets'.
           if result \<noteq> length results then fail INVALID_JOURNAL else Inr owner_offsets')))"

definition plan_chains ::
  "CombinePullOp list \<Rightarrow> u32 \<Rightarrow> (CombineV2Status, u32 list \<times> u32 list \<times> u32 list) res" where
  "plan_chains pulls accumulator_count =
     (if int (length pulls) > 2 ^ 32 - 1 then fail CAPACITY_EXCEEDED
      else mfold (link_pull pulls accumulator_count) (rev [0..<length pulls])
        (replicate (length pulls) invalid_index,
         replicate (unat accumulator_count) invalid_index,
         replicate (unat accumulator_count) 0))"

definition plan_results ::
  "CombineResultOp list \<Rightarrow> u32 \<Rightarrow> u32 list \<Rightarrow> (CombineV2Status, u32 list) res" where
  "plan_results results accumulator_count counts =
     rbind (mfold (index_result results accumulator_count counts) [0..<length results]
              (replicate (unat accumulator_count) invalid_index))
       (\<lambda>result_index. if invalid_index \<in> set result_index then fail INVALID_JOURNAL
          else Inr result_index)"

definition CompileCombinePullPlan ::
  "CompiledLayout \<Rightarrow> CombineV2Config \<Rightarrow> (CombineV2Status, CombinePullPlan) res" where
  "CompileCombinePullPlan dispatch config =
     (if \<not> ConfigValid config then fail INVALID_ARGUMENT
      else if journal_bad dispatch config then fail INVALID_JOURNAL
      else rbind (plan_journal dispatch config) (\<lambda>(pulls0, results0).
        (let h = cl_journal_header dispatch;
             accumulator_count = of_nat (length (cl_journal_tokens dispatch));
             pulls = sort_key (\<lambda>p. (po_source_rank p, po_source_row p)) pulls0;
             results = sort_key (\<lambda>r. (ro_owner_rank r, ro_owner_row r)) results0
         in rbind (plan_sources dispatch config pulls) (\<lambda>(source_offsets, source_row_counts).
            rbind (plan_owners config results) (\<lambda>owner_offsets.
            rbind (plan_chains pulls accumulator_count) (\<lambda>(pull_next, heads, counts).
            rbind (plan_results results accumulator_count counts) (\<lambda>result_index.
            Inr \<lparr> pl_generation = jh_generation h, pl_sequence = jh_sequence h,
               pl_dispatch_cookie = jh_dispatch_cookie h, pl_wave = jh_wave h,
               pl_ring_slot = jh_ring_slot h, pl_reserved0 = 0,
               pl_worker_count = cfg_worker_count config, pl_hidden = cfg_hidden config,
               pl_partial_dtype = cfg_partial_dtype config,
               pl_accumulator_count = accumulator_count, pl_source_offsets = source_offsets,
               pl_source_row_counts = source_row_counts, pl_pulls = pulls,
               pl_owner_offsets = owner_offsets, pl_results = results, pl_pull_next = pull_next,
               pl_accumulator_heads = heads, pl_accumulator_contributor_counts = counts,
               pl_accumulator_result_index = result_index \<rparr>)))))))"

subsection \<open>READY records\<close>

definition ready_descriptor_ok ::
  "CombineReadyV2 \<Rightarrow> CombineRegionRegistration \<Rightarrow> CombineV2Config \<Rightarrow> CombinePullPlan \<Rightarrow> bool" where
  "ready_descriptor_ok ready registration config plan \<longleftrightarrow>
     crd_magic ready = kPullCombineV2Magic \<and> crd_abi_version ready = kPullCombineV2AbiVersion \<and>
     crd_struct_bytes ready = 128 \<and> crd_session_id ready = cfg_session_id config \<and>
     crd_placement_epoch ready = cfg_placement_epoch config \<and>
     crd_source_rank ready = crg_source_rank registration \<and>
     crd_source_region_id ready = crg_region_id registration \<and>
     crd_source_rank ready < pl_worker_count plan \<and>
     ucast (crd_ring_slot ready) < cfg_ring_slots config \<and>
     ucast (crd_ring_slot ready) < crg_slot_count registration \<and>
     ucast (crd_flags ready) = kPullCombineV2CanonicalRows \<and>
     crd_hidden ready = cfg_hidden config \<and> crd_partial_dtype ready = cfg_partial_dtype config \<and>
     (case crd_reserved ready of (a, b, c) \<Rightarrow> ReservedZero [a, b, c]) \<and>
     crd_publication ready = CombineReadyPublication ready"

definition ready_range ::
  "CombineReadyV2 \<Rightarrow> CombineRegionRegistration \<Rightarrow> CombineV2Config \<Rightarrow>
     (u64 \<times> u64 \<times> u64 \<times> u64) option" where
  "ready_range ready registration config =
     do {
       row_bytes \<leftarrow> Mul (ucast (cfg_hidden config)) (ucast (PartialBytes (cfg_partial_dtype config)));
       expected_payload \<leftarrow> Mul (ucast (crd_row_count ready)) row_bytes;
       slot_base \<leftarrow> Mul (ucast (crd_ring_slot ready)) (crg_slot_stride registration);
       slot_end \<leftarrow> Add slot_base (crg_slot_stride registration);
       payload_end \<leftarrow> Add (crd_source_offset ready) (crd_payload_bytes ready);
       Some (expected_payload, slot_base, slot_end, payload_end)
     }"

definition ValidateCombineReady ::
  "CombineReadyV2 \<Rightarrow> CombineRegionRegistration \<Rightarrow> CombineV2Config \<Rightarrow> CombinePullPlan \<Rightarrow>
     (CombineV2Status, unit) res" where
  "ValidateCombineReady ready registration config plan =
     (if ValidateCombineRegistration registration config \<noteq> OK then fail INVALID_REGISTRATION
      else if \<not> ready_descriptor_ok ready registration config plan then fail INVALID_READY
      else if crd_dispatch_cookie ready \<noteq> pl_dispatch_cookie plan then fail COOKIE_MISMATCH
      else if crd_generation ready \<noteq> pl_generation plan \<or> crd_sequence ready \<noteq> pl_sequence plan \<or>
              crd_wave ready \<noteq> pl_wave plan \<or> crd_ring_slot ready \<noteq> pl_ring_slot plan
      then fail STALE_EPOCH
      else rbind (vget (pl_source_row_counts plan) (unat (crd_source_rank ready))) (\<lambda>rows.
        if crd_row_count ready \<noteq> rows then fail INVALID_READY
        else case ready_range ready registration config of
          None \<Rightarrow> fail SIZE_OVERFLOW
        | Some (expected_payload, slot_base, slot_end, payload_end) \<Rightarrow>
          if crd_payload_bytes ready \<noteq> expected_payload \<or>
             crd_source_offset ready mod ucast (crg_alignment registration) \<noteq> 0 \<or>
             crd_source_offset ready < slot_base \<or> payload_end > slot_end \<or>
             payload_end > crg_region_bytes registration
          then fail CAPACITY_EXCEEDED else Inr ()))"

fun CombineV2StatusString :: "CombineV2Status \<Rightarrow> string" where
  "CombineV2StatusString OK = ''ok''"
| "CombineV2StatusString INVALID_ARGUMENT = ''invalid_argument''"
| "CombineV2StatusString INVALID_JOURNAL = ''invalid_journal''"
| "CombineV2StatusString INVALID_REGISTRATION = ''invalid_registration''"
| "CombineV2StatusString INVALID_READY = ''invalid_ready''"
| "CombineV2StatusString COOKIE_MISMATCH = ''cookie_mismatch''"
| "CombineV2StatusString STALE_EPOCH = ''stale_epoch''"
| "CombineV2StatusString SIZE_OVERFLOW = ''size_overflow''"
| "CombineV2StatusString CAPACITY_EXCEEDED = ''capacity_exceeded''"
| "CombineV2StatusString DUPLICATE_SOURCE = ''duplicate_source''"
| "CombineV2StatusString NOT_READY = ''not_ready''"
| "CombineV2StatusString INVALID_STATE_TRANSITION = ''invalid_state_transition''"
| "CombineV2StatusString ABORTED = ''aborted''"

declare walk_chain.simps [simp del]

end
