(* ===== verification/Combine_Reduction.thy ===== *)
theory Combine_Reduction
  imports Combine_Plan
begin

text \<open>
  What \<open>CompileCombinePullPlan\<close> computes. Each phase is first described by an equation: the outcome
  of its loop, success or which error, as a condition on the data. Together they show that the
  compiler returns on every journal, what a plan guarantees, and that the journal of a compiled
  dispatch layout always gives a plan.
\<close>

section \<open>Contributors and tokens\<close>

definition contributor_ok :: "CompiledLayout \<Rightarrow> nat \<Rightarrow> JournalTokenEntry \<Rightarrow> JournalContributor \<Rightarrow> bool" where
  "contributor_ok d W token c \<longleftrightarrow>
     (let rows = cl_destination_rows d ! unat (jc_worker_rank c);
          row = rows ! unat (jc_destination_row c)
      in unat (jc_worker_rank c) < W \<and> unat (jc_destination_row c) < length rows \<and>
         jc_assignment_count c \<noteq> 0 \<and>
         unat (jc_assignment_begin c) + unat (jc_assignment_count c)
           \<le> length (cl_expert_assignments d ! unat (jc_worker_rank c)) \<and>
         dr_route_key row = jt_route_key token \<and> dr_destination_row row = jc_destination_row c \<and>
         dr_assignments_begin row = jc_assignment_begin c \<and>
         dr_assignments_count row = jc_assignment_count c)"

definition pull_of :: "nat \<Rightarrow> JournalTokenEntry \<Rightarrow> JournalContributor \<Rightarrow> CombinePullOp" where
  "pull_of i token c = \<lparr> po_source_rank = jc_worker_rank c, po_source_row = jc_destination_row c,
     po_journal_token = of_nat i, po_accumulator_index = jt_accumulator_index token \<rparr>"

definition token_contributors :: "CompiledLayout \<Rightarrow> JournalTokenEntry \<Rightarrow> JournalContributor list" where
  "token_contributors d token = vslice (cl_contributors d) (unat (jt_contributors_begin token))
     (unat (jt_contributors_begin token) + unat (jt_contributors_count token))"

definition result_of :: "nat \<Rightarrow> JournalTokenEntry \<Rightarrow> CombineResultOp" where
  "result_of i token = \<lparr> ro_owner_rank = jt_owner_rank token, ro_owner_row = jt_owner_row token,
     ro_journal_token = of_nat i, ro_accumulator_index = jt_accumulator_index token,
     ro_expected_contributors = jt_contributors_count token, ro_reserved = (0, 0, 0) \<rparr>"

lemma Add_u32: "Add (ucast (a :: u32)) (ucast (b :: u32)) = Some (ucast a + ucast b)"
  and unat_Add_u32: "unat (ucast (a :: u32) + ucast (b :: u32) :: u64) = unat a + unat b"
proof -
  have "unat a + unat b < 2 ^ 64"
    using unsigned_less [of a, where ?'a = nat] unsigned_less [of b, where ?'a = nat] by simp
  then show "Add (ucast a) (ucast b) = Some (ucast a + ucast b)"
    by (simp add: Add_eq_Some unat_ucast_u64)
  then show "unat (ucast a + ucast b :: u64) = unat a + unat b"
    by (simp add: Add_unat unat_ucast_u64)
qed

lemma of_nat_unat_u64: "(of_nat (unat (w :: u32)) :: u64) = ucast w"
proof -
  have "unat w < 2 ^ 64" using unsigned_less [of w, where ?'a = nat] by simp
  then show ?thesis by (simp add: word_unat_eq_iff unat_ucast_u64 unat_of_nat_u64 del: of_nat_unat)
qed

lemma mfold_check:
  assumes "\<And>x. x \<in> set xs \<Longrightarrow> f x () = (if P x then Inr () else fail e)"
  shows "mfold f xs () = (if \<forall>x \<in> set xs. P x then Inr () else fail e)"
  using assms by (induction xs) auto

lemma journal_sizes:
  assumes "\<not> journal_bad d config" and "W = unat (cfg_worker_count config)"
  shows "length (cl_destination_rows d) = W" and "length (cl_expert_assignments d) = W"
    and "length (cl_contributors d) < 2 ^ 32" and "length (cl_journal_tokens d) < 2 ^ 32"
  using assms unsigned_less [of "jh_contributor_count (cl_journal_header d)", where ?'a = nat]
  by (auto simp: journal_bad_def Let_def)

lemma contributor_index:
  assumes "unat (jt_contributors_begin token) + unat (jt_contributors_count token) \<le> length (cl_contributors d)"
    and "length (cl_contributors d) < 2 ^ 32" and "i < unat (jt_contributors_count token)"
  shows "vget (cl_contributors d) (unat (jt_contributors_begin token + of_nat i)) =
      Inr (token_contributors d token ! i)"
    and "length (token_contributors d token) = unat (jt_contributors_count token)"
proof -
  have "unat (jt_contributors_begin token + of_nat i) = unat (jt_contributors_begin token) + i"
    using assms by (intro unat_add_of_nat) linarith
  then show "vget (cl_contributors d) (unat (jt_contributors_begin token + of_nat i)) =
      Inr (token_contributors d token ! i)"
    using assms(1,3) by (simp add: token_contributors_def vslice_def)
  show "length (token_contributors d token) = unat (jt_contributors_count token)"
    using assms(1) by (simp add: token_contributors_def)
qed

lemma pull_contributor_eq:
  assumes jb: "\<not> journal_bad d config" and W: "W = unat (cfg_worker_count config)"
    and rng: "unat (jt_contributors_begin token) + unat (jt_contributors_count token) \<le> length (cl_contributors d)"
    and i: "i < unat (jt_contributors_count token)" and c: "c = token_contributors d token ! i"
  shows "pull_contributor d config t token i pulls =
    (if contributor_ok d W token c \<and>
        (\<forall>j < i. jc_worker_rank (token_contributors d token ! j) \<noteq> jc_worker_rank c)
     then Inr (pulls @ [pull_of t token c]) else fail INVALID_JOURNAL)"
proof -
  note sz = journal_sizes [OF jb W]
  have prev: "mfold (check_previous d token c) [0..<i] () =
      (if \<forall>j \<in> set [0..<i]. jc_worker_rank (token_contributors d token ! j) \<noteq> jc_worker_rank c
       then Inr () else fail INVALID_JOURNAL)"
  proof (rule mfold_check)
    fix j assume "j \<in> set [0..<i]"
    then have j: "j < unat (jt_contributors_count token)" using i by simp
    show "check_previous d token c j () =
        (if jc_worker_rank (token_contributors d token ! j) \<noteq> jc_worker_rank c then Inr () else fail INVALID_JOURNAL)"
      by (simp add: check_previous_def contributor_index(1) [OF rng sz(3) j])
  qed
  have lt: "jc_worker_rank c \<ge> cfg_worker_count config \<longleftrightarrow> \<not> unat (jc_worker_rank c) < W"
    by (auto simp: W word_le_nat_alt)
  show ?thesis
    using prev sz(1,2)
    by (simp add: pull_contributor_def contributor_index(1) [OF rng sz(3) i] c [symmetric] lt
        contributor_ok_def Let_def Add_u32 unat_Add_u32 pull_of_def)
qed

lemma pull_contributors_eq:
  assumes jb: "\<not> journal_bad d config" and W: "W = unat (cfg_worker_count config)"
    and rng: "unat (jt_contributors_begin token) + unat (jt_contributors_count token) \<le> length (cl_contributors d)"
    and n: "n \<le> unat (jt_contributors_count token)" and cs: "cs = take n (token_contributors d token)"
  shows "mfold (pull_contributor d config t token) [0..<n] pulls =
    (if (\<forall>c \<in> set cs. contributor_ok d W token c) \<and> distinct (map jc_worker_rank cs)
     then Inr (pulls @ map (pull_of t token) cs) else fail INVALID_JOURNAL)"
  using n cs
proof (induction n arbitrary: cs)
  case 0
  then show ?case by simp
next
  case (Suc n)
  let ?tc = "token_contributors d token" and ?c = "token_contributors d token ! n"
  have lt: "n < unat (jt_contributors_count token)" using Suc.prems by simp
  have len: "length ?tc = unat (jt_contributors_count token)" using rng by (simp add: token_contributors_def)
  have cs: "cs = take n ?tc @ [?c]" using Suc.prems lt len by (simp add: take_Suc_conv_app_nth)
  have new: "jc_worker_rank ?c \<notin> jc_worker_rank ` set (take n ?tc) \<longleftrightarrow>
      (\<forall>j < n. jc_worker_rank (?tc ! j) \<noteq> jc_worker_rank ?c)"
  proof -
    have "set (take n ?tc) = (!) ?tc ` {0..<n}" using lt len by (simp add: nth_image)
    then show ?thesis by (simp add: image_iff Ball_def) metis
  qed
  show ?case
    using Suc.IH [OF _ refl] lt pull_contributor_eq [OF jb W rng lt refl] new
    by (auto simp: mfold_append cs)
qed

definition token_ok :: "CompiledLayout \<Rightarrow> nat \<Rightarrow> JournalTokenEntry \<Rightarrow> nat \<Rightarrow> bool" where
  "token_ok d W token expected \<longleftrightarrow>
     unat (jt_owner_rank token) < W \<and>
     jt_route_key token = RouteKey (jt_owner_rank token) (jt_owner_row token) \<and>
     unat (jt_contributors_begin token) = expected \<and>
     expected + unat (jt_contributors_count token) \<le> length (cl_contributors d) \<and>
     unat (jt_assignments_begin token) + unat (jt_assignments_count token)
       \<le> length (cl_journal_assignments d) \<and>
     unat (jt_accumulator_index token) < length (cl_journal_tokens d) \<and>
     jt_flags token = 0 \<and> jt_reserved token = (0, 0) \<and>
     (\<forall>c \<in> set (token_contributors d token). contributor_ok d W token c) \<and>
     distinct (map jc_worker_rank (token_contributors d token))"

lemma plan_token_eq:
  assumes jb: "\<not> journal_bad d config" and W: "W = unat (cfg_worker_count config)"
    and i: "i < length (cl_journal_tokens d)" and t: "t = cl_journal_tokens d ! i"
    and seen: "length seen = length (cl_journal_tokens d)"
  shows "plan_token d config i (expected, seen, pulls, results) =
    (if token_ok d W t (unat expected) \<and> \<not> seen ! unat (jt_accumulator_index t)
     then Inr (expected + ucast (jt_contributors_count t),
       seen[unat (jt_accumulator_index t) := True],
       pulls @ map (pull_of i t) (token_contributors d t), results @ [result_of i t])
     else fail INVALID_JOURNAL)"
proof -
  have beg: "ucast (jt_contributors_begin t) = expected \<longleftrightarrow> unat (jt_contributors_begin t) = unat expected"
    by (simp add: word_unat_eq_iff unat_ucast_u64)
  have bad: "token_entry_bad d config t expected \<longleftrightarrow>
      \<not> (unat (jt_owner_rank t) < W \<and>
         jt_route_key t = RouteKey (jt_owner_rank t) (jt_owner_row t) \<and>
         unat (jt_contributors_begin t) = unat expected \<and>
         unat (jt_contributors_begin t) + unat (jt_contributors_count t) \<le> length (cl_contributors d) \<and>
         unat (jt_assignments_begin t) + unat (jt_assignments_count t) \<le> length (cl_journal_assignments d) \<and>
         unat (jt_accumulator_index t) < length (cl_journal_tokens d))"
    by (auto simp: token_entry_bad_def Add_u32 unat_Add_u32 W word_le_nat_alt beg)
  have all: "take (unat (jt_contributors_count t)) (token_contributors d t) = token_contributors d t"
    by (simp add: token_contributors_def vslice_def)
  have res: "ReservedZero [fst (jt_reserved t), snd (jt_reserved t)] \<longleftrightarrow> jt_reserved t = (0, 0)"
    by (cases "jt_reserved t") (simp add: ReservedZero_def)
  show ?thesis
  proof (cases "token_entry_bad d config t expected")
    case True
    then show ?thesis using i by (simp add: t [symmetric]) (auto simp: bad token_ok_def)
  next
    case False
    then have fine: "unat (jt_owner_rank t) < W"
         "jt_route_key t = RouteKey (jt_owner_rank t) (jt_owner_row t)"
         "unat (jt_contributors_begin t) = unat expected"
         "unat (jt_contributors_begin t) + unat (jt_contributors_count t) \<le> length (cl_contributors d)"
         "unat (jt_assignments_begin t) + unat (jt_assignments_count t) \<le> length (cl_journal_assignments d)"
         "unat (jt_accumulator_index t) < length (cl_journal_tokens d)"
      by (auto simp: bad)
    have e: "ucast (jt_contributors_begin t) = expected" using fine(3) beg by simp
    have tok: "token_ok d W t (unat expected) \<longleftrightarrow> jt_flags t = 0 \<and> jt_reserved t = (0, 0) \<and>
        (\<forall>c \<in> set (token_contributors d t). contributor_ok d W t c) \<and>
        distinct (map jc_worker_rank (token_contributors d t))"
      unfolding token_ok_def fine(3) [symmetric] using fine(1,2,4,5,6) by simp
    show ?thesis
      using False i fine(6) seen
      by (simp add: t [symmetric] res pull_contributors_eq [OF jb W fine(4) le_refl refl] all tok e result_of_def)
  qed
qed

text \<open>The journal loop succeeds exactly when every token passes and the accumulators differ.\<close>

definition pulls_upto :: "CompiledLayout \<Rightarrow> nat \<Rightarrow> CombinePullOp list" where
  "pulls_upto d n = concat (map (\<lambda>i. map (pull_of i (cl_journal_tokens d ! i))
     (token_contributors d (cl_journal_tokens d ! i))) [0..<n])"

definition results_upto :: "CompiledLayout \<Rightarrow> nat \<Rightarrow> CombineResultOp list" where
  "results_upto d n = map (\<lambda>i. result_of i (cl_journal_tokens d ! i)) [0..<n]"

definition contributors_before :: "CompiledLayout \<Rightarrow> nat \<Rightarrow> nat" where
  "contributors_before d n = sum_list (map (unat \<circ> jt_contributors_count) (take n (cl_journal_tokens d)))"

definition journal_ok :: "CompiledLayout \<Rightarrow> nat \<Rightarrow> nat \<Rightarrow> bool" where
  "journal_ok d W n \<longleftrightarrow>
     (\<forall>i < n. token_ok d W (cl_journal_tokens d ! i) (contributors_before d i)) \<and>
     distinct (map jt_accumulator_index (take n (cl_journal_tokens d)))"

lemma contributors_before_Suc:
  "n < length (cl_journal_tokens d) \<Longrightarrow>
   contributors_before d (Suc n) = contributors_before d n + unat (jt_contributors_count (cl_journal_tokens d ! n))"
  by (simp add: contributors_before_def take_Suc_conv_app_nth)

lemma journal_ok_before:
  assumes "journal_ok d W n" and "n \<le> length (cl_journal_tokens d)"
  shows "contributors_before d n \<le> length (cl_contributors d)"
proof (cases n)
  case 0
  then show ?thesis by (simp add: contributors_before_def)
next
  case (Suc m)
  then show ?thesis using assms by (auto simp: journal_ok_def token_ok_def contributors_before_Suc)
qed

lemma plan_tokens_eq:
  assumes jb: "\<not> journal_bad d config" and W: "W = unat (cfg_worker_count config)"
    and n: "n \<le> length (cl_journal_tokens d)"
  shows "mfold (plan_token d config) [0..<n] (0, replicate (length (cl_journal_tokens d)) False, [], []) =
    (if journal_ok d W n
     then Inr (of_nat (contributors_before d n),
       map (\<lambda>a. of_nat a \<in> jt_accumulator_index ` set (take n (cl_journal_tokens d)))
         [0..<length (cl_journal_tokens d)], pulls_upto d n, results_upto d n)
     else fail INVALID_JOURNAL)"
  using n
proof (induction n)
  case 0
  then show ?case
    by (simp add: journal_ok_def pulls_upto_def results_upto_def contributors_before_def map_replicate_const)
next
  case (Suc n)
  let ?N = "length (cl_journal_tokens d)" and ?t = "cl_journal_tokens d ! n"
  let ?seen = "\<lambda>n. map (\<lambda>a. of_nat a \<in> jt_accumulator_index ` set (take n (cl_journal_tokens d))) [0..<?N]"
  have n: "n < ?N" using Suc.prems by simp
  have N: "?N < 2 ^ 32" and C: "length (cl_contributors d) < 2 ^ 32" using journal_sizes [OF jb W] by simp_all
  have tk: "take (Suc n) (cl_journal_tokens d) = take n (cl_journal_tokens d) @ [?t]"
    using n by (simp add: take_Suc_conv_app_nth)
  have acc: "of_nat (unat (jt_accumulator_index ?t)) = jt_accumulator_index ?t" by simp
  have small: "unat (of_nat (contributors_before d n) :: u64) = contributors_before d n" if "journal_ok d W n"
    using journal_ok_before [OF that] n C by (intro unat_of_nat_u64) simp
  have seen: "(?seen n)[unat (jt_accumulator_index ?t) := True] = ?seen (Suc n)"
    if "unat (jt_accumulator_index ?t) < ?N"
  proof -
    have "(of_nat i = (w :: u32)) = (i = unat w)" if "i < ?N" for i w
      using that N unat_of_nat_below [of i ?N] by auto
    then show ?thesis
      using that N by (intro nth_equalityI) (auto simp: nth_list_update tk)
  qed
  have ok: "journal_ok d W (Suc n) \<longleftrightarrow> journal_ok d W n \<and> token_ok d W ?t (contributors_before d n) \<and>
      jt_accumulator_index ?t \<notin> jt_accumulator_index ` set (take n (cl_journal_tokens d))"
    by (auto simp: journal_ok_def tk less_Suc_eq)
  have before: "of_nat (contributors_before d n) + ucast (jt_contributors_count ?t) =
      (of_nat (contributors_before d (Suc n)) :: u64)"
    by (simp add: contributors_before_Suc [OF n] of_nat_unat_u64)
  show ?case
  proof (cases "journal_ok d W n \<and> token_ok d W ?t (contributors_before d n)")
    case False
    then show ?thesis
      using Suc.IH n small plan_token_eq [OF jb W n refl]
      by (auto simp: mfold_append ok)
  next
    case True
    then have "unat (jt_accumulator_index ?t) < ?N" by (simp add: token_ok_def)
    moreover have "pulls_upto d (Suc n) = pulls_upto d n @ map (pull_of n ?t) (token_contributors d ?t)"
      "results_upto d (Suc n) = results_upto d n @ [result_of n ?t]"
      by (simp_all add: pulls_upto_def results_upto_def)
    ultimately show ?thesis
      using Suc.IH n small True plan_token_eq [OF jb W n refl] before seen
      by (auto simp: mfold_append ok simp del: plan_token.simps)
  qed
qed

lemma plan_journal_eq:
  assumes jb: "\<not> journal_bad d config" and W: "W = unat (cfg_worker_count config)"
    and n: "n = length (cl_journal_tokens d)"
  shows "plan_journal d config =
    (if journal_ok d W n \<and> contributors_before d n = length (cl_contributors d)
     then Inr (pulls_upto d n, results_upto d n) else fail INVALID_JOURNAL)"
proof (cases "journal_ok d W n")
  case True
  have "contributors_before d n < 2 ^ 64"
    using journal_ok_before [OF True] n journal_sizes(3) [OF jb W] by simp
  then show ?thesis
    using True by (simp add: plan_journal_def plan_tokens_eq [OF jb W] n unat_of_nat_u64)
qed (simp add: plan_journal_def plan_tokens_eq [OF jb W] n)

section \<open>Dense sorted lists\<close>

text \<open>The pairs (0,0), (0,1), ..., (1,0), ... with \<open>n s\<close> entries for \<open>s\<close>.\<close>

definition dense :: "nat \<Rightarrow> (nat \<Rightarrow> nat) \<Rightarrow> (nat \<times> nat) list" where
  "dense W n = concat (map (\<lambda>s. map (Pair s) [0..<n s]) [0..<W])"

lemma dense_Suc: "dense (Suc W) n = dense W n @ map (Pair W) [0..<n W]"
  by (simp add: dense_def)

lemma length_dense: "length (dense W n) = sum_list (map n [0..<W])"
  by (induction W) (simp_all add: dense_def)

lemma set_dense: "set (dense W n) = {(s, k). s < W \<and> k < n s}"
  by (auto simp: dense_def)

lemma distinct_dense: "distinct (dense W n)"
  unfolding dense_def by (rule distinct_concat_map) (auto simp: distinct_map inj_on_def)

lemma sorted_dense: "sorted (dense W n)"
proof (induction W)
  case (Suc W)
  have "sorted (map (Pair W) [0..<n W])"
    by (simp add: sorted_wrt_map less_eq_prod_def)
  moreover have "x \<le> y" if "x \<in> set (dense W n)" "y \<in> set (map (Pair W) [0..<n W])" for x y
    using that by (auto simp: set_dense less_eq_prod_def)
  ultimately show ?case using Suc unfolding dense_Suc sorted_append by blast
qed (simp add: dense_def)

lemma nth_dense:
  assumes "s < W" and "k < n s"
  shows "dense W n ! (sum_list (map n [0..<s]) + k) = (s, k)"
    and "sum_list (map n [0..<s]) + k < length (dense W n)"
proof -
  have "dense W n ! (sum_list (map n [0..<s]) + k) = (s, k) \<and>
      sum_list (map n [0..<s]) + k < length (dense W n)"
    using assms(1)
  proof (induction W)
    case (Suc W)
    show ?case
    proof (cases "s = W")
      case True
      then show ?thesis using assms(2) by (simp add: dense_Suc nth_append length_dense)
    next
      case False
      then show ?thesis using Suc by (auto simp: dense_Suc nth_append)
    qed
  qed simp
  then show "dense W n ! (sum_list (map n [0..<s]) + k) = (s, k)"
    "sum_list (map n [0..<s]) + k < length (dense W n)" by auto
qed

lemma dense_split:
  assumes "s < W"
  obtains rest where "dense W n = dense s n @ map (Pair s) [0..<n s] @ rest"
proof -
  have "[0..<W] = [0..<s] @ [s] @ [Suc s..<W]"
    using assms upt_add_eq_append [of 0 s "W - s"] by (simp add: upt_conv_Cons [of s W])
  then have "dense W n = concat (map (\<lambda>s. map (Pair s) [0..<n s]) ([0..<s] @ [s] @ [Suc s..<W]))"
    by (simp only: dense_def)
  then show thesis using that by (simp add: dense_def)
qed

abbreviation pull_key :: "CombinePullOp \<Rightarrow> nat \<times> nat" where
  "pull_key p \<equiv> (unat (po_source_rank p), unat (po_source_row p))"

abbreviation result_key :: "CombineResultOp \<Rightarrow> nat \<times> nat" where
  "result_key r \<equiv> (unat (ro_owner_rank r), unat (ro_owner_row r))"

lemma of_nat_eq_u32: "n < 2 ^ 32 \<Longrightarrow> w = (of_nat n :: u32) \<longleftrightarrow> unat w = n"
  by (auto simp: unat_of_nat_u32)

lemma source_row_loop:
  assumes "s < 2 ^ 32" and "n < 2 ^ 32" and "pull \<le> length pulls"
  shows "mfold (source_row pulls s) [0..<n] pull =
    (if map pull_key (take n (drop pull pulls)) = map (Pair s) [0..<n] then Inr (pull + n)
     else fail INVALID_JOURNAL)"
  using assms(2)
proof (induction n)
  case (Suc n)
  have n: "n < 2 ^ 32" using Suc.prems by simp
  show ?case
  proof (cases "map pull_key (take n (drop pull pulls)) = map (Pair s) [0..<n]")
    case False
    have "map pull_key (take (Suc n) (drop pull pulls)) \<noteq> map (Pair s) [0..<Suc n]"
    proof
      assume "map pull_key (take (Suc n) (drop pull pulls)) = map (Pair s) [0..<Suc n]"
      then have "take n (map pull_key (take (Suc n) (drop pull pulls))) = take n (map (Pair s) [0..<Suc n])"
        by (simp only:)
      then show False using False by (simp add: take_map min_def)
    qed
    then show ?thesis using Suc.IH [OF n] False by (simp add: mfold_append)
  next
    case True
    show ?thesis
    proof (cases "pull + n < length pulls")
      case False
      have "map pull_key (take (Suc n) (drop pull pulls)) \<noteq> map (Pair s) [0..<Suc n]"
      proof
        assume "map pull_key (take (Suc n) (drop pull pulls)) = map (Pair s) [0..<Suc n]"
        from arg_cong [OF this, of length] show False using False by simp
      qed
      then show ?thesis using Suc.IH [OF n] True False by (simp add: mfold_append source_row_def)
    next
      case in_range: True
      then have "take (Suc n) (drop pull pulls) = take n (drop pull pulls) @ [pulls ! (pull + n)]"
        by (simp add: take_Suc_conv_app_nth)
      then show ?thesis
        using Suc.IH [OF n] True in_range
        by (simp add: mfold_append source_row_def of_nat_eq_u32 [OF assms(1)] of_nat_eq_u32 [OF n])
    qed
  qed
qed simp

lemma source_rows_step:
  assumes "s < W" and "length (cl_destination_rows d) = W" and "W \<le> 128"
    and "length offs = Suc W" and "length counts = W" and "pull \<le> length pulls"
    and "n = length (cl_destination_rows d ! s)"
  shows "source_rows d pulls s (pull, offs, counts) =
    (if \<not> n < 2 ^ 32 then fail CAPACITY_EXCEEDED
     else if map pull_key (take n (drop pull pulls)) = map (Pair s) [0..<n]
     then Inr (pull + n, offs[s := of_nat pull], counts[s := of_nat n]) else fail INVALID_JOURNAL)"
proof -
  have s: "s < 2 ^ 32" using assms(1,3) by simp
  show ?thesis
  proof (cases "n < 2 ^ 32")
    case True
    then show ?thesis
      using assms source_row_loop [OF s True assms(6)] size_limit(1) [of n] by (simp del: One_nat_def)
  next
    case False
    then show ?thesis using assms size_limit(1) [of n] by (simp del: One_nat_def)
  qed
qed

definition offsets_of :: "nat \<Rightarrow> (nat \<Rightarrow> nat) \<Rightarrow> u64 list" where
  "offsets_of W n = map (\<lambda>s. of_nat (sum_list (map n [0..<s]))) [0..<Suc W]"

lemma plan_sources_cases:
  assumes len: "length (cl_destination_rows d) = W" and W: "W = unat (cfg_worker_count config)" "W \<le> 128"
    and n: "n = (\<lambda>s. length (cl_destination_rows d ! s))"
  shows "(\<exists>e. plan_sources d config pulls = fail e) \<or>
    (map pull_key pulls = dense W n \<and> (\<forall>s < W. n s < 2 ^ 32) \<and>
     plan_sources d config pulls = Inr (offsets_of W n, map (\<lambda>s. of_nat (n s)) [0..<W]))"
    and "map pull_key pulls = dense W n \<Longrightarrow> \<forall>s < W. n s < 2 ^ 32 \<Longrightarrow>
     plan_sources d config pulls = Inr (offsets_of W n, map (\<lambda>s. of_nat (n s)) [0..<W])"
proof -
  let ?P = "\<lambda>s (pull, offs :: u64 list, counts :: u32 list). pull \<le> length pulls \<and> map pull_key (take pull pulls) = dense s n \<and>
    (\<forall>r < s. n r < 2 ^ 32) \<and>
    offs = map (\<lambda>r. if r < s then of_nat (sum_list (map n [0..<r])) else 0) [0..<Suc W] \<and>
    counts = map (\<lambda>r. if r < s then of_nat (n r) else 0) [0..<W]"
  have init: "?P 0 (0, replicate (W + 1) 0, replicate W 0)"
    by (simp add: dense_def map_replicate_const)
  have upd: "(map (\<lambda>r. if r < s then f r else 0) [0..<m])[s := f s] = map (\<lambda>r. if r < Suc s then f r else 0) [0..<m]"
    if "s < m" for f :: "nat \<Rightarrow> 'a :: zero" and s m
    using that by (intro nth_equalityI) (auto simp: nth_list_update)
  have pull: "pull = sum_list (map n [0..<s])" if "?P s (pull, offs, counts)" for s pull offs counts
  proof -
    have "length (map pull_key (take pull pulls)) = length (dense s n)" using that by simp
    then show ?thesis using that by (simp add: length_dense)
  qed
  have step: "source_rows d pulls s u = fail (if n s < 2 ^ 32 then INVALID_JOURNAL else CAPACITY_EXCEEDED) \<and>
        \<not> (n s < 2 ^ 32 \<and> map pull_key (take (n s) (drop (fst u) pulls)) = map (Pair s) [0..<n s]) \<or>
      (\<exists>v. source_rows d pulls s u = Inr v \<and> ?P (Suc s) v)" if s: "s < W" and P: "?P s u" for s u
  proof -
    obtain pull offs counts where u: "u = (pull, offs, counts)" by (cases u)
    note P = P [unfolded u]
    have eq: "source_rows d pulls s u = (if \<not> n s < 2 ^ 32 then fail CAPACITY_EXCEEDED
       else if map pull_key (take (n s) (drop pull pulls)) = map (Pair s) [0..<n s]
       then Inr (pull + n s, offs[s := of_nat pull], counts[s := of_nat (n s)]) else fail INVALID_JOURNAL)"
      unfolding u by (rule source_rows_step [OF s len W(2)]) (use P in \<open>auto simp: n\<close>)
    have "?P (Suc s) (pull + n s, offs[s := of_nat pull], counts[s := of_nat (n s)])"
      if m: "map pull_key (take (n s) (drop pull pulls)) = map (Pair s) [0..<n s]" "n s < 2 ^ 32"
    proof -
      have "pull + n s \<le> length pulls"
        using arg_cong [OF m(1), of length] P by auto
      moreover have "map pull_key (take (pull + n s) pulls) = dense (Suc s) n"
        using P m(1) by (simp add: take_add dense_Suc)
      ultimately show ?thesis
        using P m(2) s upd [of s "Suc W" "\<lambda>r. of_nat (sum_list (map n [0..<r]))"] upd [of s W "\<lambda>r. of_nat (n r)"]
          pull [OF P] by (auto simp: less_Suc_eq simp del: upt_Suc)
    qed
    then show ?thesis using eq by (auto simp: u)
  qed
  have fin: "rbind (Inr u) (\<lambda>(pull, source_offsets, source_row_counts).
           rbind (vput source_offsets W (of_nat pull)) (\<lambda>source_offsets'.
           if pull \<noteq> length pulls then fail INVALID_JOURNAL
           else Inr (source_offsets', source_row_counts))) =
      (if map pull_key pulls = dense W n then Inr (offsets_of W n, map (\<lambda>s. of_nat (n s)) [0..<W])
       else fail INVALID_JOURNAL)" if P: "?P W u" for u
  proof -
    obtain pull offs counts where u: "u = (pull, offs, counts)" by (cases u)
    note P = P [unfolded u]
    have "pull = length pulls \<longleftrightarrow> map pull_key pulls = dense W n"
    proof
      assume "map pull_key pulls = dense W n"
      from arg_cong [OF this, of length] show "pull = length pulls" using pull [OF P] by (simp add: length_dense)
    qed (use P in simp)
    moreover have "offs[W := of_nat pull] = offsets_of W n"
      using P pull [OF P]
      by (intro nth_equalityI) (auto simp: offsets_of_def nth_list_update less_Suc_eq simp del: upt_Suc)
    moreover have "counts = map (\<lambda>s. of_nat (n s)) [0..<W]" using P by (auto intro!: map_cong)
    moreover have "length offs = Suc W" using P by simp
    ultimately show ?thesis by (simp add: u)
  qed
  note unf = plan_sources_def [of d config pulls, folded W(1), unfolded Let_def]
  have "(\<exists>e \<in> UNIV. mfold (source_rows d pulls) [0..<W] (0, replicate (W + 1) 0, replicate W 0) = fail e) \<or>
      (\<exists>u. mfold (source_rows d pulls) [0..<W] (0, replicate (W + 1) 0, replicate W 0) = Inr u \<and> ?P W u)"
  proof (rule mfold_upt_run [where P = ?P])
    fix s u assume "s < W" "?P s u"
    from step [OF this] show "(\<exists>e \<in> UNIV. source_rows d pulls s u = fail e) \<or>
        (\<exists>v. source_rows d pulls s u = Inr v \<and> ?P (Suc s) v)" by (elim disjE) auto
  qed (rule init)
  then show "(\<exists>e. plan_sources d config pulls = fail e) \<or>
    (map pull_key pulls = dense W n \<and> (\<forall>s < W. n s < 2 ^ 32) \<and>
     plan_sources d config pulls = Inr (offsets_of W n, map (\<lambda>s. of_nat (n s)) [0..<W]))"
  proof (elim disjE exE bexE conjE)
    fix u assume "mfold (source_rows d pulls) [0..<W] (0, replicate (W + 1) 0, replicate W 0) = Inr u" "?P W u"
    then show ?thesis unfolding unf using fin [of u] by (auto split: if_splits)
  qed (simp add: unf)
  assume dns: "map pull_key pulls = dense W n" and small: "\<forall>s < W. n s < 2 ^ 32"
  have "\<exists>u. mfold (source_rows d pulls) [0..<W] (0, replicate (W + 1) 0, replicate W 0) = Inr u \<and> ?P W u"
  proof (rule mfold_upt_total [where P = ?P, OF init])
    fix s u assume s: "s < W" and P: "?P s u"
    obtain pull offs counts where u: "u = (pull, offs, counts)" by (cases u)
    have "map pull_key (take (n s) (drop pull pulls)) = take (n s) (drop pull (dense W n))"
      by (simp add: dns [symmetric] take_map drop_map)
    also have "\<dots> = map (Pair s) [0..<n s]"
    proof -
      obtain rest where "dense W n = dense s n @ map (Pair s) [0..<n s] @ rest" by (rule dense_split [OF s])
      then show ?thesis using pull [OF P [unfolded u]] by (simp add: length_dense)
    qed
    finally show "\<exists>v. source_rows d pulls s u = Inr v \<and> ?P (Suc s) v"
      using step [OF s P] small s by (simp add: u)
  qed
  then show "plan_sources d config pulls = Inr (offsets_of W n, map (\<lambda>s. of_nat (n s)) [0..<W])"
    unfolding unf using fin dns by auto
qed

lemma owner_rows_eq:
  "owner_rows o' rs row res =
     (let t = takeWhile (\<lambda>r. ro_owner_rank r = o') rs
      in if map ro_owner_row t = map (\<lambda>i. row + of_nat i) [0..<length t] then Inr (res + length t)
         else fail INVALID_JOURNAL)"
proof (induction rs arbitrary: row res)
  case (Cons r rs)
  have shift: "map (\<lambda>i. row + of_nat i) [0..<Suc n] = row # map (\<lambda>i. row + 1 + of_nat i) [0..<n]" for n
    unfolding upt_conv_Cons [OF zero_less_Suc] by (simp add: map_Suc_upt [symmetric] add_ac del: upt_Suc map_Suc_upt)
  show ?case
    using Cons.IH [of "row + 1" "res + 1"] shift by (simp add: Let_def del: upt_Suc)
qed simp

lemma dense_cong: "(\<And>s. s < W \<Longrightarrow> n s = m s) \<Longrightarrow> dense W n = dense W m"
  unfolding dense_def by (rule arg_cong [of _ _ concat]) auto

definition owners_upto :: "CombineResultOp list \<Rightarrow> nat \<Rightarrow> nat \<Rightarrow> (nat \<Rightarrow> nat) \<Rightarrow> nat \<times> u64 list \<Rightarrow> bool" where
  "owners_upto results W s n st \<longleftrightarrow> (case st of (res, offs) \<Rightarrow> res \<le> length results \<and>
     map result_key (take res results) = dense s n \<and>
     offs = map (\<lambda>r. if r < s then of_nat (sum_list (map n [0..<r])) else 0) [0..<Suc W])"

lemma owners_upto_res:
  assumes "owners_upto results W s n (res, offs)"
  shows "res = sum_list (map n [0..<s])"
proof -
  have "res \<le> length results" "map result_key (take res results) = dense s n"
    using assms by (auto simp: owners_upto_def)
  from this(1) arg_cong [OF this(2), of length] show ?thesis by (simp add: length_dense)
qed

lemma owner_run_step:
  assumes s: "s < W" "W \<le> 128" and len: "length results < 2 ^ 32" and P: "owners_upto results W s n (res, offs)"
    and t: "t = takeWhile (\<lambda>r. ro_owner_rank r = of_nat s) (drop res results)"
  shows "owner_run results s (res, offs) = fail INVALID_JOURNAL \<and>
        map result_key t \<noteq> map (Pair s) [0..<length t] \<or>
      (\<exists>v. owner_run results s (res, offs) = Inr v \<and>
        owners_upto results W (Suc s) (n(s := length t)) v)"
proof -
  have lt: "length t \<le> length results - res" unfolding t using length_takeWhile_le [of _ "drop res results"] by simp
  have res: "res \<le> length results" and offs: "length offs = Suc W" using P by (auto simp: owners_upto_def)
  have rank: "\<forall>r \<in> set t. unat (ro_owner_rank r) = s"
    using s by (auto simp: t unat_of_nat_below [of s 128] dest!: set_takeWhileD)
  have rows: "map ro_owner_row t = map (\<lambda>i. 0 + of_nat i) [0..<length t] \<longleftrightarrow> map result_key t = map (Pair s) [0..<length t]"
  proof -
    have "map result_key t = map (Pair s) (map (\<lambda>r. unat (ro_owner_row r)) t)" using rank by simp
    then have "map result_key t = map (Pair s) [0..<length t] \<longleftrightarrow> map (\<lambda>r. unat (ro_owner_row r)) t = [0..<length t]"
      using inj_map_eq_map [of "Pair s"] by (simp add: inj_def del: map_map)
    moreover have "map (\<lambda>r. unat (ro_owner_row r)) t = [0..<length t]"
      if "map ro_owner_row t = map (\<lambda>i. 0 + of_nat i) [0..<length t]"
    proof -
      have "map (\<lambda>r. unat (ro_owner_row r)) t = map unat (map ro_owner_row t)" by simp
      also have "\<dots> = map (\<lambda>i. unat (of_nat i :: u32)) [0..<length t]" unfolding that by simp
      also have "\<dots> = [0..<length t]"
        by (rule map_idI) (use lt len in \<open>simp add: unat_of_nat_u32\<close>)
      finally show ?thesis .
    qed
    moreover have "map ro_owner_row t = map (\<lambda>i. 0 + of_nat i) [0..<length t]"
      if "map (\<lambda>r. unat (ro_owner_row r)) t = [0..<length t]"
      using arg_cong [OF that, of "map (of_nat :: nat \<Rightarrow> u32)"] by (simp add: comp_def)
    ultimately show ?thesis by blast
  qed
  have run: "owner_run results s (res, offs) =
      (if map result_key t = map (Pair s) [0..<length t] then Inr (res + length t, offs[s := of_nat res])
       else fail INVALID_JOURNAL)"
    using offs s(1) rows by (simp add: owner_rows_eq Let_def t [symmetric] del: One_nat_def)
  have tk: "take (length t) (drop res results) = t" unfolding t by (rule takeWhile_eq_take [symmetric])
  have "owners_upto results W (Suc s) (n(s := length t)) (res + length t, offs[s := of_nat res])"
    if "map result_key t = map (Pair s) [0..<length t]"
  proof -
    have "map result_key (take (res + length t) results) = dense (Suc s) (n(s := length t))"
      using P that tk dense_cong [of s n "n(s := length t)"] by (simp add: take_add dense_Suc owners_upto_def)
    moreover have "offs[s := of_nat res] =
        map (\<lambda>r. if r < Suc s then of_nat (sum_list (map (n(s := length t)) [0..<r])) else 0) [0..<Suc W]"
      using P owners_upto_res [OF P] s(1)
      by (intro nth_equalityI) (auto simp: owners_upto_def nth_list_update less_Suc_eq simp del: upt_Suc
          intro!: arg_cong [of _ _ sum_list] arg_cong [of _ _ of_nat])
    ultimately show ?thesis using lt res by (simp add: owners_upto_def)
  qed
  then show ?thesis using run by auto
qed

lemma dense_takeWhile:
  assumes "map result_key rs = map (Pair s) [0..<n] @ rest" and "\<forall>k \<in> set rest. fst k \<noteq> s" and "s < 2 ^ 32"
    and "t = takeWhile (\<lambda>r. ro_owner_rank r = of_nat s) rs"
  shows "map result_key t = map (Pair s) [0..<n]" and "length t = n"
proof -
  have eq: "(\<lambda>r. ro_owner_rank r = of_nat s) = (\<lambda>k. fst k = s) \<circ> result_key"
    using of_nat_eq_u32 [OF assms(3)] by (auto simp: fun_eq_iff)
  have "map result_key t = takeWhile (\<lambda>k. fst k = s) (map result_key rs)"
    unfolding assms(4) eq by (simp add: takeWhile_map)
  also have "\<dots> = map (Pair s) [0..<n]"
    unfolding assms(1) using assms(2) by (subst takeWhile_append2) (auto simp: takeWhile_eq_Nil_iff)
  finally show "map result_key t = map (Pair s) [0..<n]" .
  from arg_cong [OF this, of length] show "length t = n" by simp
qed

lemma plan_owners_cases:
  assumes W: "W = unat (cfg_worker_count config)" "W \<le> 128" and len: "length results < 2 ^ 32"
  shows "(\<exists>e. plan_owners config results = fail e) \<or>
    (\<exists>n. map result_key results = dense W n \<and> plan_owners config results = Inr (offsets_of W n))"
    and "map result_key results = dense W n \<Longrightarrow> plan_owners config results = Inr (offsets_of W n)"
proof -
  have init: "owners_upto results W 0 n (0, replicate (W + 1) 0)" for n
    by (simp add: owners_upto_def dense_def map_replicate_const)
  have fin: "(\<lambda>(result, owner_offsets).
           rbind (vput owner_offsets W (of_nat result)) (\<lambda>owner_offsets'.
           if result \<noteq> length results then fail INVALID_JOURNAL else Inr owner_offsets')) u =
      (if map result_key results = dense W n then Inr (offsets_of W n) else fail INVALID_JOURNAL)"
    if P: "owners_upto results W W n u" for n u
  proof -
    obtain res offs where u: "u = (res, offs)" by (cases u)
    note P = P [unfolded u]
    have "res = length results \<longleftrightarrow> map result_key results = dense W n"
    proof
      assume "map result_key results = dense W n"
      from arg_cong [OF this, of length] show "res = length results"
        using owners_upto_res [OF P] by (simp add: length_dense)
    qed (use P in \<open>simp add: owners_upto_def\<close>)
    moreover have "offs[W := of_nat res] = offsets_of W n"
      using P owners_upto_res [OF P]
      by (intro nth_equalityI) (auto simp: owners_upto_def offsets_of_def nth_list_update less_Suc_eq simp del: upt_Suc)
    moreover have "length offs = Suc W" using P by (simp add: owners_upto_def)
    ultimately show ?thesis by (simp add: u)
  qed
  note unf = plan_owners_def [of config results, folded W(1), unfolded Let_def]
  have "(\<exists>e \<in> UNIV. mfold (owner_run results) [0..<W] (0, replicate (W + 1) 0) = fail e) \<or>
      (\<exists>u. mfold (owner_run results) [0..<W] (0, replicate (W + 1) 0) = Inr u \<and> (\<exists>n. owners_upto results W W n u))"
  proof (rule mfold_upt_run [where P = "\<lambda>s u. \<exists>n. owners_upto results W s n u"])
    fix s u assume "s < W" "\<exists>n. owners_upto results W s n u"
    then show "(\<exists>e \<in> UNIV. owner_run results s u = fail e) \<or>
        (\<exists>v. owner_run results s u = Inr v \<and> (\<exists>n. owners_upto results W (Suc s) n v))"
      using owner_run_step [OF _ W(2) len _ refl] by (cases u) blast
  qed (use init in blast)
  then show "(\<exists>e. plan_owners config results = fail e) \<or>
    (\<exists>n. map result_key results = dense W n \<and> plan_owners config results = Inr (offsets_of W n))"
  proof (elim disjE exE bexE conjE)
    fix u n assume "mfold (owner_run results) [0..<W] (0, replicate (W + 1) 0) = Inr u" "owners_upto results W W n u"
    then show ?thesis unfolding unf using fin [of n u] by (simp split: if_splits) blast
  qed (simp add: unf)
  assume dns: "map result_key results = dense W n"
  have "\<exists>u. mfold (owner_run results) [0..<W] (0, replicate (W + 1) 0) = Inr u \<and> owners_upto results W W n u"
  proof (rule mfold_upt_total [where P = "\<lambda>s u. owners_upto results W s n u", OF init])
    fix s u assume s: "s < W" and P: "owners_upto results W s n u"
    obtain res offs where u: "u = (res, offs)" by (cases u)
    let ?t = "takeWhile (\<lambda>r. ro_owner_rank r = of_nat s) (drop res results)"
    obtain rest where split: "dense W n = dense s n @ map (Pair s) [0..<n s] @ rest" by (rule dense_split [OF s])
    have no: "s' \<noteq> s" if "(s', k) \<in> set rest" for s' k
    proof
      assume "s' = s"
      moreover have "(s', k) \<in> set (dense W n)" using that by (simp add: split)
      ultimately have "(s, k) \<in> set (map (Pair s) [0..<n s])" by (simp add: set_dense)
      then show False using distinct_dense [of W n] that \<open>s' = s\<close> unfolding split by auto
    qed
    have keys: "map result_key (drop res results) = map (Pair s) [0..<n s] @ rest"
      using owners_upto_res [OF P [unfolded u]] by (simp add: drop_map [symmetric] dns split length_dense)
    have "\<forall>k \<in> set rest. fst k \<noteq> s" using no by (metis prod.collapse)
    moreover have "s < 2 ^ 32" using s W(2) by simp
    ultimately have "\<forall>k \<in> set rest. fst k \<noteq> s" "s < 2 ^ 32" .
    from dense_takeWhile [OF keys this refl]
    have t: "map result_key ?t = map (Pair s) [0..<n s]" "length ?t = n s" .
    then show "\<exists>v. owner_run results s u = Inr v \<and> owners_upto results W (Suc s) n v"
      using owner_run_step [OF s W(2) len P [unfolded u] refl] by (simp add: u)
  qed
  then show "plan_owners config results = Inr (offsets_of W n)" unfolding unf using fin dns by auto
qed

section \<open>Reduction chains\<close>

text \<open>\<open>chain next h xs\<close>: following \<open>next\<close> from \<open>h\<close> visits exactly the indices \<open>xs\<close>.\<close>

fun chain :: "u32 list \<Rightarrow> u32 \<Rightarrow> nat list \<Rightarrow> bool" where
  "chain next h [] \<longleftrightarrow> h = invalid_index"
| "chain next h (x # xs) \<longleftrightarrow> h \<noteq> invalid_index \<and> unat h = x \<and> x < length next \<and> chain next (next ! x) xs"

lemma chain_update: "i \<notin> set xs \<Longrightarrow> chain (next[i := v]) h xs \<longleftrightarrow> chain next h xs"
  by (induction xs arbitrary: h) auto

lemma walk_chain_eq:
  assumes "chain next h xs" and "length xs < fuel" and "length next = length pulls"
  shows "walk_chain fuel pulls next r h =
    (if \<exists>x \<in> set xs. po_source_rank (pulls ! x) = r then fail DUPLICATE_SOURCE else Inr ())"
  using assms(1,2)
proof (induction xs arbitrary: h fuel)
  case Nil
  then show ?case by (simp add: walk_chain.simps)
next
  case (Cons x xs)
  then obtain f where f: "fuel = Suc f" by (cases fuel) auto
  show ?case using Cons assms(3) by (subst walk_chain.simps) (auto simp: f)
qed

lemma index_valid: "i < n \<Longrightarrow> n < 2 ^ 32 \<Longrightarrow> (of_nat i :: u32) \<noteq> invalid_index"
proof
  assume i: "i < n" "n < 2 ^ 32" and eq: "(of_nat i :: u32) = invalid_index"
  have "unat (of_nat i :: u32) = i" using i by (intro unat_of_nat_u32) linarith
  moreover have "unat (invalid_index :: u32) = 2 ^ 32 - 1"
    by (simp add: invalid_index_def unsigned_minus_1_eq_mask mask_eq_exp_minus_1)
  ultimately show False using i eq by simp
qed

abbreviation pulls_for :: "CombinePullOp list \<Rightarrow> nat \<Rightarrow> nat \<Rightarrow> nat list" where
  "pulls_for pulls m a \<equiv> filter (\<lambda>i. unat (po_accumulator_index (pulls ! i)) = a) [m..<length pulls]"

definition linked :: "CombinePullOp list \<Rightarrow> nat \<Rightarrow> nat \<Rightarrow> u32 list \<times> u32 list \<times> u32 list \<Rightarrow> bool" where
  "linked pulls A m st \<longleftrightarrow> (case st of (next, heads, counts) \<Rightarrow>
     length next = length pulls \<and> length heads = A \<and> length counts = A \<and>
     (\<forall>a < A. chain next (heads ! a) (pulls_for pulls m a) \<and>
        counts ! a = of_nat (length (pulls_for pulls m a)) \<and>
        distinct (map (\<lambda>i. po_source_rank (pulls ! i)) (pulls_for pulls m a))))"

lemma link_pull_step:
  assumes m: "m < length pulls" and len: "length pulls < 2 ^ 32" and A: "A = unat accs"
    and P: "linked pulls A (Suc m) st" and a: "a = unat (po_accumulator_index (pulls ! m))"
  shows "link_pull pulls accs m st = fail INVALID_JOURNAL \<and> \<not> a < A \<or>
    link_pull pulls accs m st = fail DUPLICATE_SOURCE \<and> a < A \<and>
      \<not> distinct (map (\<lambda>i. po_source_rank (pulls ! i)) (pulls_for pulls m a)) \<or>
    (\<exists>v. link_pull pulls accs m st = Inr v \<and> linked pulls A m v)"
proof -
  obtain nxt heads counts where st: "st = (nxt, heads, counts)" by (cases st)
  have l: "length nxt = length pulls" "length heads = A" "length counts = A"
    and inv: "\<And>a. a < A \<Longrightarrow> chain nxt (heads ! a) (pulls_for pulls (Suc m) a)"
      "\<And>a. a < A \<Longrightarrow> counts ! a = of_nat (length (pulls_for pulls (Suc m) a))"
      "\<And>a. a < A \<Longrightarrow> distinct (map (\<lambda>i. po_source_rank (pulls ! i)) (pulls_for pulls (Suc m) a))"
    using P by (auto simp: linked_def st)
  have split: "pulls_for pulls m b = (if b = a then m # pulls_for pulls (Suc m) b else pulls_for pulls (Suc m) b)" for b
    using m by (simp add: upt_conv_Cons a)
  show ?thesis
  proof (cases "a < A")
    case False
    then show ?thesis using m by (simp add: st word_le_nat_alt a A)
  next
    case True
    have fuel: "length (pulls_for pulls (Suc m) a) < length pulls + 1"
      using length_filter_le [of "\<lambda>i. unat (po_accumulator_index (pulls ! i)) = a" "[Suc m..<length pulls]"] m
      by simp
    note walk = walk_chain_eq [OF inv(1) [OF True] fuel l(1), of "po_source_rank (pulls ! m)"]
    show ?thesis
    proof (cases "\<exists>x \<in> set (pulls_for pulls (Suc m) a). po_source_rank (pulls ! x) = po_source_rank (pulls ! m)")
      case dup: True
      then have "link_pull pulls accs m st = fail DUPLICATE_SOURCE"
        using m True l walk by (simp add: st a [symmetric] word_le_nat_alt A Let_def)
      moreover have "\<not> distinct (map (\<lambda>i. po_source_rank (pulls ! i)) (pulls_for pulls m a))"
        using dup unfolding split [of a] by (simp add: image_iff Bex_def) metis
      ultimately show ?thesis using True by blast
    next
      case new: False
      let ?v = "(nxt[m := heads ! a], heads[a := of_nat m], counts[a := counts ! a + 1])"
      have run: "link_pull pulls accs m st = Inr ?v"
        using m True l walk new by (simp add: st a [symmetric] word_le_nat_alt A Let_def)
      have um: "unat (of_nat m :: u32) = m" using m len by (intro unat_of_nat_u32) linarith
      have "linked pulls A m ?v"
        unfolding linked_def prod.case
      proof (intro conjI allI impI)
        fix b assume b: "b < A"
        have notin: "m \<notin> set (pulls_for pulls (Suc m) c)" for c by simp
        show "chain (nxt[m := heads ! a]) (heads[a := of_nat m] ! b) (pulls_for pulls m b)"
          using inv(1) [OF b] b True m l um index_valid [OF m len]
          by (cases "b = a") (simp_all add: split chain_update [OF notin])
        show "counts[a := counts ! a + 1] ! b = of_nat (length (pulls_for pulls m b))"
          using inv(2) [OF b] b l by (cases "b = a") (simp_all add: split)
        show "distinct (map (\<lambda>i. po_source_rank (pulls ! i)) (pulls_for pulls m b))"
          using inv(3) [OF b] new by (cases "b = a") (auto simp: split)
      qed (simp_all add: l)
      then show ?thesis using run by blast
    qed
  qed
qed

lemma plan_chains_cases:
  assumes A: "A = unat accs"
  shows "(\<exists>e. plan_chains pulls accs = fail e) \<or>
    (\<exists>v. plan_chains pulls accs = Inr v \<and> linked pulls A 0 v \<and> length pulls < 2 ^ 32)"
    and "length pulls < 2 ^ 32 \<Longrightarrow> \<forall>p \<in> set pulls. unat (po_accumulator_index p) < A \<Longrightarrow>
      \<forall>a < A. distinct (map (\<lambda>i. po_source_rank (pulls ! i)) (pulls_for pulls 0 a)) \<Longrightarrow>
      \<exists>v. plan_chains pulls accs = Inr v \<and> linked pulls A 0 v"
proof -
  let ?N = "length pulls"
  let ?s = "(replicate ?N invalid_index, replicate (unat accs) invalid_index, replicate (unat accs) 0)"
  have init: "linked pulls A ?N ?s" by (simp add: linked_def A)
  have down: "rev [0..<?N] = ys @ m # zs \<Longrightarrow> m < ?N \<and> ?N - length ys = Suc m \<and> ?N - length (ys @ [m]) = m" for ys m zs
  proof -
    assume eq: "rev [0..<?N] = ys @ m # zs"
    have "length ys < ?N" using arg_cong [OF eq, of length] by simp
    moreover have "rev [0..<?N] ! length ys = m" by (simp add: eq)
    ultimately show ?thesis by (auto simp: rev_nth)
  qed
  have dst: "distinct (map (\<lambda>i. po_source_rank (pulls ! i)) (pulls_for pulls m a))"
    if "distinct (map (\<lambda>i. po_source_rank (pulls ! i)) (pulls_for pulls 0 a))" "m \<le> ?N" for m a
  proof -
    have "pulls_for pulls 0 a = filter (\<lambda>i. unat (po_accumulator_index (pulls ! i)) = a) [0..<m] @ pulls_for pulls m a"
      using that(2) upt_add_eq_append [of 0 m "?N - m"] by (simp flip: filter_append)
    then show ?thesis using that(1) by simp
  qed
  have run: "(\<exists>e \<in> UNIV. mfold (link_pull pulls accs) (rev [0..<?N]) ?s = fail e) \<or>
      (\<exists>v. mfold (link_pull pulls accs) (rev [0..<?N]) ?s = Inr v \<and> linked pulls A (?N - length (rev [0..<?N])) v)"
    if len: "?N < 2 ^ 32"
  proof (rule mfold_run [where P = "\<lambda>ys. linked pulls A (?N - length ys)"])
    fix ys m zs u
    assume eq: "rev [0..<?N] = ys @ m # zs" and P: "linked pulls A (?N - length ys) u"
    have m: "m < ?N" "?N - length ys = Suc m" "?N - length (ys @ [m]) = m" using down [OF eq] by auto
    show "(\<exists>e \<in> UNIV. link_pull pulls accs m u = fail e) \<or>
        (\<exists>v. link_pull pulls accs m u = Inr v \<and> linked pulls A (?N - length (ys @ [m])) v)"
      using link_pull_step [OF m(1) len A _ refl, of u] P unfolding m(2,3) by blast
  qed (use init in simp)
  then show "(\<exists>e. plan_chains pulls accs = fail e) \<or>
    (\<exists>v. plan_chains pulls accs = Inr v \<and> linked pulls A 0 v \<and> length pulls < 2 ^ 32)"
    using size_limit(1) [of ?N] by (auto simp: plan_chains_def)
  assume len: "?N < 2 ^ 32" and acc: "\<forall>p \<in> set pulls. unat (po_accumulator_index p) < A"
    and dis: "\<forall>a < A. distinct (map (\<lambda>i. po_source_rank (pulls ! i)) (pulls_for pulls 0 a))"
  have "\<exists>v. mfold (link_pull pulls accs) (rev [0..<?N]) ?s = Inr v \<and> linked pulls A (?N - length (rev [0..<?N])) v"
  proof (rule mfold_total [where P = "\<lambda>ys. linked pulls A (?N - length ys)"])
    fix ys m zs u
    assume eq: "rev [0..<?N] = ys @ m # zs" and P: "linked pulls A (?N - length ys) u"
    have m: "m < ?N" "?N - length ys = Suc m" "?N - length (ys @ [m]) = m" using down [OF eq] by auto
    let ?a = "unat (po_accumulator_index (pulls ! m))"
    have a: "?a < A" using acc m(1) by simp
    have d: "distinct (map (\<lambda>i. po_source_rank (pulls ! i)) (pulls_for pulls m ?a))"
      by (rule dst) (use dis a m(1) in simp_all)
    from link_pull_step [OF m(1) len A P [unfolded m(2)] refl]
    show "\<exists>v. link_pull pulls accs m u = Inr v \<and> linked pulls A (?N - length (ys @ [m])) v"
      unfolding m(3) using a d by (elim disjE conjE) simp_all
  qed (use init in simp)
  then show "\<exists>v. plan_chains pulls accs = Inr v \<and> linked pulls A 0 v"
    using len size_limit(1) [of ?N] by (auto simp: plan_chains_def)
qed

definition indexed :: "CombineResultOp list \<Rightarrow> nat \<Rightarrow> u32 list \<Rightarrow> nat \<Rightarrow> u32 list \<Rightarrow> bool" where
  "indexed results A counts m ix \<longleftrightarrow> length ix = A \<and>
     (\<forall>i < m. unat (ro_accumulator_index (results ! i)) < A \<and>
        ix ! unat (ro_accumulator_index (results ! i)) = of_nat i \<and>
        counts ! unat (ro_accumulator_index (results ! i)) = ro_expected_contributors (results ! i)) \<and>
     (\<forall>a < A. ix ! a = invalid_index \<or> (\<exists>i < m. unat (ro_accumulator_index (results ! i)) = a))"

lemma index_result_step:
  assumes m: "m < length results" and len: "length results < 2 ^ 32" and A: "A = unat accs" "length counts = A"
    and P: "indexed results A counts m ix" and a: "a = unat (ro_accumulator_index (results ! m))"
  shows "index_result results accs counts m ix = fail INVALID_JOURNAL \<and>
      \<not> (a < A \<and> counts ! a = ro_expected_contributors (results ! m) \<and>
         (\<forall>i < m. unat (ro_accumulator_index (results ! i)) \<noteq> a)) \<or>
    (\<exists>v. index_result results accs counts m ix = Inr v \<and> indexed results A counts (Suc m) v)"
proof (cases "a < A")
  case False
  then show ?thesis using m by (simp add: index_result_def word_le_nat_alt a A)
next
  case True
  have lx: "length ix = A" using P by (simp add: indexed_def)
  show ?thesis
  proof (cases "ix ! a \<noteq> invalid_index \<or> ro_expected_contributors (results ! m) \<noteq> counts ! a")
    case bad: True
    moreover have "\<exists>i < m. unat (ro_accumulator_index (results ! i)) = a" if "ix ! a \<noteq> invalid_index"
      using P that True by (auto simp: indexed_def)
    ultimately show ?thesis
      using m True lx A by (auto simp: index_result_def word_le_nat_alt a [symmetric] Let_def)
  next
    case fine: False
    have run: "index_result results accs counts m ix = Inr (ix[a := of_nat m])"
      using m True lx A fine by (simp add: index_result_def word_le_nat_alt a [symmetric] Let_def)
    have fresh: "unat (ro_accumulator_index (results ! i)) \<noteq> a" if "i < m" for i
    proof
      assume eq: "unat (ro_accumulator_index (results ! i)) = a"
      then have "ix ! a = of_nat i" using P that by (auto simp: indexed_def)
      moreover have "(of_nat i :: u32) \<noteq> invalid_index" using that m len by (intro index_valid [of _ "length results"]) simp_all
      ultimately show False using fine by simp
    qed
    have "indexed results A counts (Suc m) (ix[a := of_nat m])"
      using P fresh True fine lx
      by (auto simp: indexed_def less_Suc_eq nth_list_update a [symmetric])
    then show ?thesis using run by blast
  qed
qed

lemma plan_results_cases:
  assumes A: "A = unat accs" "length counts = A" and len: "length results < 2 ^ 32"
  shows "(\<exists>e. plan_results results accs counts = fail e) \<or>
    (\<exists>ix. plan_results results accs counts = Inr ix \<and> indexed results A counts (length results) ix \<and>
       invalid_index \<notin> set ix)"
    and "mset (map (\<lambda>r. unat (ro_accumulator_index r)) results) = mset [0..<A] \<Longrightarrow>
      \<forall>r \<in> set results. counts ! unat (ro_accumulator_index r) = ro_expected_contributors r \<Longrightarrow>
      \<exists>ix. plan_results results accs counts = Inr ix"
proof -
  let ?s = "replicate (unat accs) invalid_index" and ?N = "length results"
  have init: "indexed results A counts 0 ?s" by (simp add: indexed_def A)
  have "(\<exists>e \<in> UNIV. mfold (index_result results accs counts) [0..<?N] ?s = fail e) \<or>
      (\<exists>ix. mfold (index_result results accs counts) [0..<?N] ?s = Inr ix \<and> indexed results A counts ?N ix)"
  proof (rule mfold_upt_run [where P = "indexed results A counts"])
    fix m ix assume m: "m < ?N" and P: "indexed results A counts m ix"
    from index_result_step [OF m len A P refl]
    show "(\<exists>e \<in> UNIV. index_result results accs counts m ix = fail e) \<or>
        (\<exists>v. index_result results accs counts m ix = Inr v \<and> indexed results A counts (Suc m) v)"
      by (elim disjE) auto
  qed (rule init)
  then show "(\<exists>e. plan_results results accs counts = fail e) \<or>
    (\<exists>ix. plan_results results accs counts = Inr ix \<and> indexed results A counts (length results) ix \<and>
       invalid_index \<notin> set ix)"
  proof (elim disjE exE bexE conjE)
    fix ix assume "mfold (index_result results accs counts) [0..<?N] ?s = Inr ix" "indexed results A counts ?N ix"
    then show ?thesis unfolding plan_results_def by (cases "invalid_index \<in> set ix") simp_all
  qed (simp add: plan_results_def)
  assume perm: "mset (map (\<lambda>r. unat (ro_accumulator_index r)) results) = mset [0..<A]"
    and cnt: "\<forall>r \<in> set results. counts ! unat (ro_accumulator_index r) = ro_expected_contributors r"
  have set: "(\<lambda>r. unat (ro_accumulator_index r)) ` set results = {0..<A}"
    using arg_cong [OF perm, of set_mset] by simp
  have dis: "distinct (map (\<lambda>r. unat (ro_accumulator_index r)) results)"
    using mset_eq_imp_distinct_iff [OF perm] by simp
  have "\<exists>ix. mfold (index_result results accs counts) [0..<?N] ?s = Inr ix \<and> indexed results A counts ?N ix"
  proof (rule mfold_upt_total [where P = "indexed results A counts", OF init])
    fix m ix assume m: "m < ?N" and P: "indexed results A counts m ix"
    let ?a = "unat (ro_accumulator_index (results ! m))"
    have mem: "results ! m \<in> set results" using m by simp
    have a: "?a < A" using imageI [OF mem, of "\<lambda>r. unat (ro_accumulator_index r)"] unfolding set by simp
    have c: "counts ! ?a = ro_expected_contributors (results ! m)" using cnt mem by blast
    have "unat (ro_accumulator_index (results ! i)) \<noteq> ?a" if "i < m" for i
      using nth_eq_iff_index_eq [OF dis, of i m] that m by simp
    then show "\<exists>v. index_result results accs counts m ix = Inr v \<and> indexed results A counts (Suc m) v"
      using index_result_step [OF m len A P refl] a c by (elim disjE conjE) simp_all
  qed
  then obtain ix where ix: "mfold (index_result results accs counts) [0..<?N] ?s = Inr ix"
    "indexed results A counts ?N ix" by blast
  have "invalid_index \<notin> set ix"
  proof
    assume "invalid_index \<in> set ix"
    then obtain a where a: "a < A" "ix ! a = invalid_index" using ix(2) by (auto simp: indexed_def in_set_conv_nth)
    then obtain i where i: "i < ?N" "unat (ro_accumulator_index (results ! i)) = a"
      using set by (metis (no_types, lifting) atLeast0LessThan imageE in_set_conv_nth lessThan_iff)
    then have "ix ! a = of_nat i" using ix(2) by (auto simp: indexed_def)
    then show False using a index_valid [OF i(1) len] by simp
  qed
  then show "\<exists>ix. plan_results results accs counts = Inr ix" using ix(1) by (simp add: plan_results_def)
qed

section \<open>The plan\<close>

lemma sort_key_cong:
  assumes "\<And>x y. f x \<le> f y \<longleftrightarrow> g x \<le> g y"
  shows "sort_key f xs = sort_key g xs"
proof -
  have "insort_key f x ys = insort_key g x ys" for x ys by (induction ys) (simp_all add: assms)
  then show ?thesis by (induction xs) simp_all
qed

lemma sort_pulls: "sort_key (\<lambda>p. (po_source_rank p, po_source_row p)) = sort_key pull_key"
  by (rule ext, rule sort_key_cong)
    (simp add: less_eq_prod_def word_less_nat_alt word_le_nat_alt)

lemma sort_results: "sort_key (\<lambda>r. (ro_owner_rank r, ro_owner_row r)) = sort_key result_key"
  by (rule ext, rule sort_key_cong)
    (simp add: less_eq_prod_def word_less_nat_alt word_le_nat_alt)

lemma config_workers: "ConfigValid c \<Longrightarrow> 2 \<le> unat (cfg_worker_count c) \<and> unat (cfg_worker_count c) \<le> 128"
  by (simp add: ConfigValid_def word_le_nat_alt abi_consts)

text \<open>The compiler fails with an error code or all its phases succeed.\<close>

lemma CompileCombinePullPlan_phases:
  assumes W: "W = unat (cfg_worker_count config)" and N: "N = length (cl_journal_tokens d)"
    and n: "n = (\<lambda>s. length (cl_destination_rows d ! s))"
  shows "(\<exists>e. CompileCombinePullPlan d config = fail e) \<or>
    (\<exists>plan n'. CompileCombinePullPlan d config = Inr plan \<and> ConfigValid config \<and> \<not> journal_bad d config \<and>
       journal_ok d W N \<and> contributors_before d N = length (cl_contributors d) \<and>
       pl_pulls plan = sort_key pull_key (pulls_upto d N) \<and>
       pl_results plan = sort_key result_key (results_upto d N) \<and>
       unat (pl_accumulator_count plan) = N \<and> pl_worker_count plan = cfg_worker_count config \<and>
       map pull_key (pl_pulls plan) = dense W n \<and> (\<forall>s < W. n s < 2 ^ 32) \<and>
       pl_source_offsets plan = offsets_of W n \<and>
       pl_source_row_counts plan = map (\<lambda>s. of_nat (n s)) [0..<W] \<and>
       map result_key (pl_results plan) = dense W n' \<and> pl_owner_offsets plan = offsets_of W n' \<and>
       length (pl_pulls plan) < 2 ^ 32 \<and>
       linked (pl_pulls plan) N 0 (pl_pull_next plan, pl_accumulator_heads plan,
         pl_accumulator_contributor_counts plan) \<and>
       indexed (pl_results plan) N (pl_accumulator_contributor_counts plan) (length (pl_results plan))
         (pl_accumulator_result_index plan) \<and>
       invalid_index \<notin> set (pl_accumulator_result_index plan))"
proof (cases "ConfigValid config \<and> \<not> journal_bad d config \<and> journal_ok d W N \<and>
    contributors_before d N = length (cl_contributors d)")
  case False
  then show ?thesis
    using plan_journal_eq [OF _ W N] by (auto simp: CompileCombinePullPlan_def)
next
  case True
  then have cfg: "ConfigValid config" and jb: "\<not> journal_bad d config" by auto
  note sz = journal_sizes [OF jb W]
  have W128: "W \<le> 128" using config_workers [OF cfg] W by simp
  let ?pulls = "sort_key pull_key (pulls_upto d N)" and ?results = "sort_key result_key (results_upto d N)"
  let ?accs = "of_nat N :: u32"
  have accs: "N = unat ?accs" using sz(4) N by (simp add: unat_of_nat_u32)
  have rlen: "length ?results < 2 ^ 32" using sz(4) N by (simp add: results_upto_def)
  have pj: "plan_journal d config = Inr (pulls_upto d N, results_upto d N)"
    using plan_journal_eq [OF jb W N] True by simp
  note run = CompileCombinePullPlan_def [of d config, unfolded pj sort_pulls sort_results, folded N]
  show ?thesis
    using plan_sources_cases(1) [OF sz(1) W W128 n, of ?pulls]
  proof (elim disjE exE conjE)
    fix e assume "plan_sources d config ?pulls = fail e"
    then show ?thesis using cfg jb by (simp add: run Let_def)
  next
    assume s: "plan_sources d config ?pulls = Inr (offsets_of W n, map (\<lambda>s. of_nat (n s)) [0..<W])"
      and sd: "map pull_key ?pulls = dense W n" "\<forall>s < W. n s < 2 ^ 32"
    show ?thesis
      using plan_owners_cases(1) [OF W W128 rlen]
    proof (elim disjE exE conjE)
      fix e assume "plan_owners config ?results = fail e"
      then show ?thesis using cfg jb s by (simp add: run Let_def)
    next
      fix n' assume o: "plan_owners config ?results = Inr (offsets_of W n')"
        and od: "map result_key ?results = dense W n'"
      show ?thesis
        using plan_chains_cases(1) [OF accs, of ?pulls]
      proof (elim disjE exE conjE)
        fix e assume "plan_chains ?pulls ?accs = fail e"
        then show ?thesis using cfg jb s o by (simp add: run Let_def)
      next
        fix v assume c: "plan_chains ?pulls ?accs = Inr v" "linked ?pulls N 0 v" "length ?pulls < 2 ^ 32"
        obtain nxt heads counts where v: "v = (nxt, heads, counts)" by (cases v)
        have lc: "length counts = N" using c(2) by (simp add: linked_def v)
        show ?thesis
          using plan_results_cases(1) [OF accs lc rlen]
        proof (elim disjE exE conjE)
          fix e assume "plan_results ?results ?accs counts = fail e"
          then show ?thesis using cfg jb s o c(1) by (simp add: run Let_def v)
        next
          fix ix assume r: "plan_results ?results ?accs counts = Inr ix"
            "indexed ?results N counts (length ?results) ix" "invalid_index \<notin> set ix"
          let ?h = "cl_journal_header d"
          define plan where "plan = \<lparr> pl_generation = jh_generation ?h, pl_sequence = jh_sequence ?h,
               pl_dispatch_cookie = jh_dispatch_cookie ?h, pl_wave = jh_wave ?h,
               pl_ring_slot = jh_ring_slot ?h, pl_reserved0 = 0,
               pl_worker_count = cfg_worker_count config, pl_hidden = cfg_hidden config,
               pl_partial_dtype = cfg_partial_dtype config, pl_accumulator_count = ?accs,
               pl_source_offsets = offsets_of W n, pl_source_row_counts = map (\<lambda>s. of_nat (n s)) [0..<W],
               pl_pulls = ?pulls, pl_owner_offsets = offsets_of W n', pl_results = ?results,
               pl_pull_next = nxt, pl_accumulator_heads = heads,
               pl_accumulator_contributor_counts = counts, pl_accumulator_result_index = ix \<rparr>"
          have plan: "CompileCombinePullPlan d config = Inr plan"
            using cfg jb by (simp add: run Let_def v s o c(1) r(1) plan_def)
          have f: "pl_pulls plan = ?pulls" "pl_results plan = ?results" "pl_accumulator_count plan = ?accs"
              "pl_worker_count plan = cfg_worker_count config"
              "pl_source_offsets plan = offsets_of W n" "pl_source_row_counts plan = map (\<lambda>s. of_nat (n s)) [0..<W]"
              "pl_owner_offsets plan = offsets_of W n'" "pl_pull_next plan = nxt" "pl_accumulator_heads plan = heads"
              "pl_accumulator_contributor_counts plan = counts" "pl_accumulator_result_index plan = ix"
            by (simp_all add: plan_def)
          show ?thesis
            unfolding plan
            by (rule disjI2, rule exI [of _ plan], rule exI [of _ n'], unfold f accs [symmetric])
              (use True sd od c(2,3) r(2,3) v in \<open>simp del: length_sort\<close>)
        qed
      qed
    qed
  qed
qed

text \<open>
  C10 Memory safety and termination of the plan compiler. Whatever the journal and the
  configuration hold, \<open>CompileCombinePullPlan\<close> returns a plan or an error code: it never indexes one
  of its tables or the journal out of range, and the walk along a reduction chain ends within the
  number of pulls.
\<close>

theorem CompileCombinePullPlan_returns:
  "CompileCombinePullPlan d config \<noteq> Inl Oob \<and> CompileCombinePullPlan d config \<noteq> Inl Hang"
  using CompileCombinePullPlan_phases [OF refl refl refl, of d config] by (auto simp: fail_def)

lemma length_pulls:
  assumes "journal_ok d W n" and "n \<le> length (cl_journal_tokens d)"
  shows "length (pulls_upto d n) = contributors_before d n"
  using assms
proof (induction n)
  case 0
  then show ?case by (simp add: pulls_upto_def contributors_before_def)
next
  case (Suc n)
  let ?t = "cl_journal_tokens d ! n"
  have "token_ok d W ?t (contributors_before d n)" using Suc.prems by (simp add: journal_ok_def)
  then have "length (token_contributors d ?t) = unat (jt_contributors_count ?t)"
    by (simp add: token_ok_def token_contributors_def)
  moreover have "journal_ok d W n" using Suc.prems
    by (auto simp: journal_ok_def take_Suc_conv_app_nth)
  ultimately show ?case using Suc by (simp add: pulls_upto_def contributors_before_Suc)
qed

lemma offsets_nth:
  assumes "s \<le> W" and "length (dense W n) < 2 ^ 32"
  shows "unat (offsets_of W n ! s) = sum_list (map n [0..<s])"
proof -
  have "sum_list (map n [0..<s]) \<le> sum_list (map n [0..<W])"
    using assms(1) upt_add_eq_append [of 0 s "W - s"] by simp
  then have "sum_list (map n [0..<s]) < 2 ^ 64" using assms(2) by (simp add: length_dense)
  then show ?thesis using assms(1) by (simp add: offsets_of_def unat_of_nat_u64 del: upt_Suc)
qed

text \<open>
  C11 The lists of a plan. There is one pull per journal contributor and one result
  per journal token. The pulls of worker \<open>b\<close> are the consecutive entries from \<open>source_offsets[b]\<close> to
  \<open>source_offsets[b+1]\<close>, and their source rows are 0, 1, 2, ... up to the number of rows that
  dispatch sent to \<open>b\<close>; the results of owner \<open>o\<close> are the entries between its offsets, with owner
  rows 0, 1, 2, ...
\<close>

theorem CompileCombinePullPlan_dense:
  assumes "CompileCombinePullPlan d config = Inr plan"
  shows "length (pl_pulls plan) = length (cl_contributors d) \<and>
    length (pl_results plan) = length (cl_journal_tokens d) \<and>
    unat (pl_source_offsets plan ! unat (cfg_worker_count config)) = length (pl_pulls plan) \<and>
    unat (pl_owner_offsets plan ! unat (cfg_worker_count config)) = length (pl_results plan) \<and>
    (\<forall>b < unat (cfg_worker_count config).
      (let s = unat (pl_source_offsets plan ! b); n = length (cl_destination_rows d ! b);
           o1 = unat (pl_owner_offsets plan ! b); o2 = unat (pl_owner_offsets plan ! Suc b)
       in unat (pl_source_offsets plan ! Suc b) = s + n \<and>
          unat (pl_source_row_counts plan ! b) = n \<and>
          map (\<lambda>k. pull_key (pl_pulls plan ! (s + k))) [0..<n] = map (Pair b) [0..<n] \<and>
          o1 \<le> o2 \<and>
          map (\<lambda>k. result_key (pl_results plan ! (o1 + k))) [0..<o2 - o1] = map (Pair b) [0..<o2 - o1]))"
proof -
  let ?W = "unat (cfg_worker_count config)" and ?N = "length (cl_journal_tokens d)"
  let ?n = "\<lambda>s. length (cl_destination_rows d ! s)"
  obtain n' where jok: "journal_ok d ?W ?N" "contributors_before d ?N = length (cl_contributors d)"
    and jb: "\<not> journal_bad d config"
    and pulls: "pl_pulls plan = sort_key pull_key (pulls_upto d ?N)"
    and results: "pl_results plan = sort_key result_key (results_upto d ?N)"
    and dp: "map pull_key (pl_pulls plan) = dense ?W ?n" "\<forall>s < ?W. ?n s < 2 ^ 32"
    and so: "pl_source_offsets plan = offsets_of ?W ?n"
    and sc: "pl_source_row_counts plan = map (\<lambda>s. of_nat (?n s)) [0..<?W]"
    and dr: "map result_key (pl_results plan) = dense ?W n'" and oo: "pl_owner_offsets plan = offsets_of ?W n'"
    and len: "length (pl_pulls plan) < 2 ^ 32"
    using CompileCombinePullPlan_phases [OF refl refl refl, of d config] assms by auto
  have lp: "length (pl_pulls plan) = length (cl_contributors d)"
    using length_pulls [OF jok(1)] jok(2) by (simp add: pulls)
  have lr: "length (pl_results plan) = ?N" by (simp add: results results_upto_def)
  have lpd: "length (dense ?W ?n) = length (pl_pulls plan)" using arg_cong [OF dp(1), of length] by simp
  have lrd: "length (dense ?W n') = length (pl_results plan)" using arg_cong [OF dr, of length] by simp
  have small: "length (dense ?W ?n) < 2 ^ 32" "length (dense ?W n') < 2 ^ 32"
    using len lpd lrd lr journal_sizes(4) [OF jb refl] by simp_all
  have pk: "map (\<lambda>k. pull_key (pl_pulls plan ! (sum_list (map ?n [0..<b]) + k))) [0..<?n b] = map (Pair b) [0..<?n b]"
    if b: "b < ?W" for b
  proof (rule map_cong [OF refl])
    fix k assume "k \<in> set [0..<?n b]"
    then have k: "k < ?n b" by simp
    have i: "sum_list (map ?n [0..<b]) + k < length (pl_pulls plan)" using nth_dense(2) [where n = ?n, OF b k] lpd by simp
    have "pull_key (pl_pulls plan ! (sum_list (map ?n [0..<b]) + k)) = dense ?W ?n ! (sum_list (map ?n [0..<b]) + k)"
      using nth_map [OF i, of pull_key] by (simp only: dp(1))
    then show "pull_key (pl_pulls plan ! (sum_list (map ?n [0..<b]) + k)) = (b, k)"
      by (simp only: nth_dense(1) [where n = ?n, OF b k])
  qed
  have rk: "map (\<lambda>k. result_key (pl_results plan ! (sum_list (map n' [0..<b]) + k))) [0..<n' b] = map (Pair b) [0..<n' b]"
    if b: "b < ?W" for b
  proof (rule map_cong [OF refl])
    fix k assume "k \<in> set [0..<n' b]"
    then have k: "k < n' b" by simp
    have i: "sum_list (map n' [0..<b]) + k < length (pl_results plan)" using nth_dense(2) [where n = n', OF b k] lrd by simp
    have "result_key (pl_results plan ! (sum_list (map n' [0..<b]) + k)) = dense ?W n' ! (sum_list (map n' [0..<b]) + k)"
      using nth_map [OF i, of result_key] by (simp only: dr)
    then show "result_key (pl_results plan ! (sum_list (map n' [0..<b]) + k)) = (b, k)"
      by (simp only: nth_dense(1) [where n = n', OF b k])
  qed
  have cnt: "unat (pl_source_row_counts plan ! b) = ?n b" if "b < ?W" for b
    using that dp(2) by (simp add: sc unat_of_nat_u32)
  have so1: "unat (pl_source_offsets plan ! s) = sum_list (map ?n [0..<s])" if "s \<le> ?W" for s
    unfolding so by (rule offsets_nth [OF that small(1)])
  have oo1: "unat (pl_owner_offsets plan ! s) = sum_list (map n' [0..<s])" if "s \<le> ?W" for s
    unfolding oo by (rule offsets_nth [OF that small(2)])
  have body: "let s = unat (pl_source_offsets plan ! b); n = ?n b;
           o1 = unat (pl_owner_offsets plan ! b); o2 = unat (pl_owner_offsets plan ! Suc b)
       in unat (pl_source_offsets plan ! Suc b) = s + n \<and>
          unat (pl_source_row_counts plan ! b) = n \<and>
          map (\<lambda>k. pull_key (pl_pulls plan ! (s + k))) [0..<n] = map (Pair b) [0..<n] \<and>
          o1 \<le> o2 \<and>
          map (\<lambda>k. result_key (pl_results plan ! (o1 + k))) [0..<o2 - o1] = map (Pair b) [0..<o2 - o1]"
    if b: "b < ?W" for b
  proof -
    have s: "unat (pl_source_offsets plan ! b) = sum_list (map ?n [0..<b])"
      "unat (pl_source_offsets plan ! Suc b) = sum_list (map ?n [0..<b]) + ?n b"
      using so1 [of b] so1 [of "Suc b"] b by simp_all
    have o: "unat (pl_owner_offsets plan ! b) = sum_list (map n' [0..<b])"
      "unat (pl_owner_offsets plan ! Suc b) = sum_list (map n' [0..<b]) + n' b"
      using oo1 [of b] oo1 [of "Suc b"] b by simp_all
    show ?thesis
      unfolding Let_def s o cnt [OF b] add_diff_cancel_left' using pk [OF b] rk [OF b] by simp
  qed
  have "unat (pl_source_offsets plan ! ?W) = length (pl_pulls plan)"
    "unat (pl_owner_offsets plan ! ?W) = length (pl_results plan)"
    using so1 [of ?W] oo1 [of ?W] lpd lrd by (simp_all add: length_dense)
  then show ?thesis using lp lr body by blast
qed

text \<open>A combine session over the example layout.\<close>

definition ex_config :: CombineV2Config where
  "ex_config = \<lparr> cfg_session_id = 7, cfg_placement_epoch = 1, cfg_worker_count = 2, cfg_hidden = 1,
     cfg_partial_dtype = FP32, cfg_ring_slots = 2 \<rparr>"

lemma ex_plan:
  obtains l plan where "CompileLayout ex_sources [1, 0] ex_layout = Inr l"
    and "CompileCombinePullPlan l ex_config = Inr plan"
    and "pl_source_offsets plan = [0, 1, 4]" and "unat (pl_accumulator_count plan) = 3"
    and "length (pl_pulls plan) = 4" and "length (cl_contributors l) = 4"
    and "map po_accumulator_index (pl_pulls plan) = [0, 2, 0, 1]"
proof -
  have "case CompileLayout ex_sources [1, 0] ex_layout of Inl _ \<Rightarrow> False
    | Inr l \<Rightarrow> (case CompileCombinePullPlan l ex_config of Inl _ \<Rightarrow> False
      | Inr plan \<Rightarrow> pl_source_offsets plan = [0, 1, 4] \<and> unat (pl_accumulator_count plan) = 3 \<and>
          length (pl_pulls plan) = 4 \<and> length (cl_contributors l) = 4 \<and>
          map po_accumulator_index (pl_pulls plan) = [0, 2, 0, 1])"
    by code_simp
  then show thesis using that by (simp split: sum.splits)
qed

theorem CompileCombinePullPlan_dense_witness:
  "\<exists>l plan. CompileLayout ex_sources [1, 0] ex_layout = Inr l \<and> CompileCombinePullPlan l ex_config = Inr plan \<and>
     length (pl_pulls plan) = 4 \<and> pull_key (pl_pulls plan ! (unat (pl_source_offsets plan ! 0) + 0)) = (0, 0) \<and>
     unat (pl_source_offsets plan ! 2) = 4"
proof -
  obtain l plan where p: "CompileLayout ex_sources [1, 0] ex_layout = Inr l"
    "CompileCombinePullPlan l ex_config = Inr plan" "pl_source_offsets plan = [0, 1, 4]"
    "length (pl_pulls plan) = 4" by (rule ex_plan)
  have W: "unat (cfg_worker_count ex_config) = 2" by (simp add: ex_config_def)
  note d = CompileCombinePullPlan_dense [OF p(2), unfolded W]
  then have s: "unat (pl_source_offsets plan ! Suc 0) = unat (pl_source_offsets plan ! 0) + length (cl_destination_rows l ! 0)"
    and k: "map (\<lambda>k. pull_key (pl_pulls plan ! (unat (pl_source_offsets plan ! 0) + k))) [0..<length (cl_destination_rows l ! 0)] =
      map (Pair 0) [0..<length (cl_destination_rows l ! 0)]"
    by (auto simp: Let_def)
  have "length (cl_destination_rows l ! 0) = 1" using s p(3) by simp
  then have "pull_key (pl_pulls plan ! (unat (pl_source_offsets plan ! 0) + 0)) = (0, 0)" using k by simp
  then show ?thesis using p d by (intro exI [of _ l] exI [of _ plan]) simp
qed

text \<open>
  C12 The reduction index. For every accumulator, following \<open>pull_next\<close> from its
  head visits exactly the pulls of that accumulator, in increasing index order and so independently
  of the order in which READYs arrive; they come from pairwise different workers; the stored count
  is their number; and the result index names the one result of the accumulator, which expects
  that count.
\<close>

theorem CompileCombinePullPlan_chains:
  assumes "CompileCombinePullPlan d config = Inr plan" and "a < unat (pl_accumulator_count plan)"
    and "xs = filter (\<lambda>i. unat (po_accumulator_index (pl_pulls plan ! i)) = a) [0..<length (pl_pulls plan)]"
    and "r = unat (pl_accumulator_result_index plan ! a)"
  shows "chain (pl_pull_next plan) (pl_accumulator_heads plan ! a) xs \<and>
    distinct (map (\<lambda>i. po_source_rank (pl_pulls plan ! i)) xs) \<and>
    unat (pl_accumulator_contributor_counts plan ! a) = length xs \<and>
    r < length (pl_results plan) \<and> unat (ro_accumulator_index (pl_results plan ! r)) = a \<and>
    unat (ro_expected_contributors (pl_results plan ! r)) = length xs"
proof -
  let ?N = "length (cl_journal_tokens d)" and ?R = "length (pl_results plan)"
  have acc: "unat (pl_accumulator_count plan) = ?N" and len: "length (pl_pulls plan) < 2 ^ 32"
    and jb: "\<not> journal_bad d config"
    and res: "pl_results plan = sort_key result_key (results_upto d ?N)"
    and lnk: "linked (pl_pulls plan) ?N 0 (pl_pull_next plan, pl_accumulator_heads plan,
         pl_accumulator_contributor_counts plan)"
    and ind: "indexed (pl_results plan) ?N (pl_accumulator_contributor_counts plan) ?R
         (pl_accumulator_result_index plan)"
    and inv: "invalid_index \<notin> set (pl_accumulator_result_index plan)"
    using CompileCombinePullPlan_phases [OF refl refl refl, of d config] assms(1) by auto
  have a: "a < ?N" using assms(2) acc by simp
  have xs: "length xs \<le> length (pl_pulls plan)"
    unfolding assms(3) by (rule order.trans [OF length_filter_le]) simp
  have ch: "chain (pl_pull_next plan) (pl_accumulator_heads plan ! a) xs"
      "distinct (map (\<lambda>i. po_source_rank (pl_pulls plan ! i)) xs)"
      "pl_accumulator_contributor_counts plan ! a = of_nat (length xs)"
    using lnk a by (auto simp: linked_def assms(3))
  have cnt: "unat (pl_accumulator_contributor_counts plan ! a) = length xs"
    unfolding ch(3) by (rule unat_of_nat_below [OF xs len])
  have "pl_accumulator_result_index plan ! a \<noteq> invalid_index"
    using inv a ind by (metis indexed_def nth_mem)
  then obtain i where i: "i < ?R" "unat (ro_accumulator_index (pl_results plan ! i)) = a"
    using ind a by (auto simp: indexed_def)
  then have "pl_accumulator_result_index plan ! a = of_nat i"
    and exp: "pl_accumulator_contributor_counts plan ! a = ro_expected_contributors (pl_results plan ! i)"
    using ind by (auto simp: indexed_def)
  moreover have "i < 2 ^ 32" using i(1) journal_sizes(4) [OF jb refl] by (simp add: res results_upto_def)
  ultimately have "r = i" by (simp add: assms(4) unat_of_nat_u32)
  then show ?thesis using ch cnt i exp by auto
qed

theorem CompileCombinePullPlan_chains_witness:
  "\<exists>l plan. CompileLayout ex_sources [1, 0] ex_layout = Inr l \<and> CompileCombinePullPlan l ex_config = Inr plan \<and>
     chain (pl_pull_next plan) (pl_accumulator_heads plan ! 0) [0, 2] \<and>
     unat (pl_accumulator_contributor_counts plan ! 0) = 2"
proof -
  obtain l plan where p: "CompileLayout ex_sources [1, 0] ex_layout = Inr l"
    "CompileCombinePullPlan l ex_config = Inr plan" "unat (pl_accumulator_count plan) = 3"
    "length (pl_pulls plan) = 4" "map po_accumulator_index (pl_pulls plan) = [0, 2, 0, 1]" by (rule ex_plan)
  have "po_accumulator_index (pl_pulls plan ! i) = [0, 2, 0, 1] ! i" if "i < 4" for i
    using that p(4) by (simp flip: p(5))
  then have "filter (\<lambda>i. unat (po_accumulator_index (pl_pulls plan ! i)) = 0) [0..<4] =
      filter (\<lambda>i. unat ([0, 2, 0, 1 :: u32] ! i) = 0) [0..<4]" by (intro filter_cong) auto
  also have "\<dots> = [0, 2]" by code_simp
  finally have f: "[0, 2] = filter (\<lambda>i. unat (po_accumulator_index (pl_pulls plan ! i)) = 0) [0..<length (pl_pulls plan)]"
    by (simp add: p(4))
  have "chain (pl_pull_next plan) (pl_accumulator_heads plan ! 0) [0, 2] \<and>
     unat (pl_accumulator_contributor_counts plan ! 0) = 2"
    using CompileCombinePullPlan_chains [OF p(2) _ f refl] p(3) by simp
  then show ?thesis using p by blast
qed

end
