(* ===== verification/Combine_Compose.thy ===== *)
theory Combine_Compose
  imports Combine_Reduction
begin

text \<open>
  Dispatch and combine together: the journal that \<open>CompileLayout\<close> seals passes every check of
  \<open>CompileCombinePullPlan\<close>, so a combine wave over it always gets its plan.
\<close>

lemma compiled_header_ok:
  assumes ctx: "layout_ctx W E src js" and comp: "compiled W E src js epoch l"
    and ep: "ep_generation epoch \<noteq> 0" "ep_sequence epoch \<noteq> 0"
    and W: "W = unat (cfg_worker_count config)"
    and ring: "ucast (jh_ring_slot (cl_journal_header l)) < cfg_ring_slots config"
  shows "\<not> journal_bad l config"
proof -
  have "unat (of_nat (length (cl_journal_tokens l)) :: u32) = length (cl_journal_tokens l)"
    "unat (of_nat (length (cl_contributors l)) :: u32) = length (cl_contributors l)"
    "length (cl_journal_tokens l) < 2 ^ 32"
    using comp by (simp_all add: compiled_def Let_def unat_of_nat_u32 del: length_concat)
  then show ?thesis
    using comp ep ring size_limit(1) [of "length (cl_journal_tokens l)"]
    by (simp add: journal_bad_def Let_def compiled_def HeaderCanonical_def JournalSlotHeader_init_def
        ReservedZero_def W abi_consts state_of_code_def not_le del: length_concat)
qed

lemma compiled_token_contributors:
  assumes ctx: "layout_ctx W E src js" and comp: "compiled W E src js epoch l"
    and i: "i < length (cl_journal_tokens l)" and ks: "ks = journal_keys src [0..<W]" and k: "ks ! i = (r, t)"
  shows "token_contributors l (cl_journal_tokens l ! i) = contributors_at src js r t"
proof -
  have i': "i < length ks" using i compiled_entries(1) [OF ctx comp ks] by simp
  note e = compiled_entry [OF ctx comp ks i' k refl]
  have "cl_contributors l = concat (map (key_contributors src js) ks)"
    using comp by (simp add: compiled_def Let_def ks)
  then show ?thesis
    using concat_slice(1) [OF i', of "key_contributors src js"] e(7,8)
    by (simp add: token_contributors_def k del: length_concat)
qed

lemma compiled_token_ok:
  assumes ctx: "layout_ctx W E src js" and comp: "compiled W E src js epoch l"
    and i: "i < length (cl_journal_tokens l)"
  shows "token_ok l W (cl_journal_tokens l ! i) (contributors_before l i)"
    and "unat (jt_accumulator_index (cl_journal_tokens l ! i)) = i"
proof -
  define ks where "ks = journal_keys src [0..<W]"
  let ?e = "cl_journal_tokens l ! i"
  have i': "i < length ks" using i compiled_entries(1) [OF ctx comp ks_def] by simp
  obtain r t where k: "ks ! i = (r, t)" by (cases "ks ! i")
  note e = compiled_entry [OF ctx comp ks_def i' k refl]
  note tc = compiled_token_contributors [OF ctx comp i ks_def k]
  show "unat (jt_accumulator_index ?e) = i" by (rule e)
  have con: "cl_contributors l = concat (map (key_contributors src js) ks)"
    and run: "cl_journal_assignments l = concat (map (key_run src) ks)"
    using comp by (simp_all add: compiled_def Let_def ks_def)
  have before: "contributors_before l i = length (concat (map (key_contributors src js) (take i ks)))"
    unfolding contributors_before_def by (rule compiled_entries(3) [OF ctx comp ks_def])
  have fit: "contributors_before l i + unat (jt_contributors_count ?e) \<le> length (cl_contributors l)"
    using concat_slice(2) [OF i', of "key_contributors src js"] unfolding before e(8) con k by simp
  have asg: "unat (jt_assignments_begin ?e) + unat (jt_assignments_count ?e) \<le> length (cl_journal_assignments l)"
    using concat_slice(2) [OF i', of "key_run src"] unfolding e(9,10) run k by (simp add: key_run_def)
  have key: "jt_route_key ?e = RouteKey (of_nat r) (of_nat t)"
    unfolding e(5) by (simp flip: e(3,4))
  have "contributor_ok l W ?e c" if "c \<in> set (contributors_at src js r t)" for c
    using compiled_contributor [OF ctx comp that refl refl]
    by (simp add: contributor_ok_def Let_def key)
  moreover have "distinct (map jc_worker_rank (contributors_at src js r t))"
  proof -
    have "distinct (map (unat \<circ> jc_worker_rank) (contributors_at src js r t))"
      using compiled_contributor_ranks [OF ctx e(1,2)] by simp
    then show ?thesis by (simp add: distinct_map inj_on_def)
  qed
  ultimately show "token_ok l W ?e (contributors_before l i)"
    unfolding token_ok_def tc using e(1,3,5,7,11,12,13) fit asg i before by simp
qed

lemma concat_slices:
  assumes "\<forall>i < n. unat (b i) = sum_list (map (\<lambda>j. unat (m j)) [0..<i])"
    and "sum_list (map (\<lambda>j. unat (m j)) [0..<n]) \<le> length xs"
  shows "concat (map (\<lambda>i. vslice xs (unat (b i)) (unat (b i) + unat (m i))) [0..<n]) =
    take (sum_list (map (\<lambda>j. unat (m j)) [0..<n])) xs"
  using assms
proof (induction n)
  case (Suc n)
  then show ?case by (simp add: take_add vslice_def)
qed simp

lemma contributors_of_tokens:
  assumes "journal_ok d W (length (cl_journal_tokens d))"
    and "contributors_before d (length (cl_journal_tokens d)) = length (cl_contributors d)"
  shows "concat (map (\<lambda>i. token_contributors d (cl_journal_tokens d ! i)) [0..<length (cl_journal_tokens d)]) =
    cl_contributors d"
proof -
  let ?N = "length (cl_journal_tokens d)"
  have sum: "contributors_before d i = sum_list (map (\<lambda>j. unat (jt_contributors_count (cl_journal_tokens d ! j))) [0..<i])"
    if "i \<le> ?N" for i
    using that by (induction i) (simp_all add: contributors_before_Suc, simp add: contributors_before_def)
  have "concat (map (\<lambda>i. token_contributors d (cl_journal_tokens d ! i)) [0..<?N]) =
      take (sum_list (map (\<lambda>j. unat (jt_contributors_count (cl_journal_tokens d ! j))) [0..<?N])) (cl_contributors d)"
    unfolding token_contributors_def
    by (rule concat_slices) (use assms sum in \<open>auto simp: journal_ok_def token_ok_def\<close>)
  then show ?thesis using assms(2) sum [of ?N] by simp
qed

lemma compiled_journal_ok:
  assumes ctx: "layout_ctx W E src js" and comp: "compiled W E src js epoch l"
    and N: "N = length (cl_journal_tokens l)"
  shows "journal_ok l W N" and "contributors_before l N = length (cl_contributors l)"
proof -
  note tok = compiled_token_ok [OF ctx comp]
  have "distinct (map jt_accumulator_index (cl_journal_tokens l))"
    unfolding distinct_conv_nth by (metis length_map nth_map tok(2))
  then show "journal_ok l W N" using tok(1) N by (simp add: journal_ok_def)
  have "cl_contributors l = concat (map (key_contributors src js) (journal_keys src [0..<W]))"
    using comp by (simp add: compiled_def Let_def)
  then show "contributors_before l N = length (cl_contributors l)"
    using compiled_entries(3) [OF ctx comp refl, of N] compiled_entries(1) [OF ctx comp refl] N
    by (simp add: contributors_before_def del: length_concat)
qed

lemma filter_nth_upt: "map (\<lambda>i. f (xs ! i)) (filter (\<lambda>i. P (xs ! i)) [0..<length xs]) = map f (filter P xs)"
proof -
  have "map f (filter P xs) = map f (filter P (map ((!) xs) [0..<length xs]))" by (simp only: map_nth)
  then show ?thesis by (simp add: filter_map comp_def)
qed

lemma filter_concat_single:
  assumes "a < n" and "\<And>i x. i < n \<Longrightarrow> x \<in> set (g i) \<Longrightarrow> P x \<longleftrightarrow> i = a"
  shows "filter P (concat (map g [0..<n])) = g a"
proof -
  have "filter P (concat (map g [0..<n])) = filter P (g a)"
    by (rule filter_concat_map) (use assms in \<open>auto simp: filter_empty_conv\<close>)
  also have "\<dots> = g a" using assms by (simp add: filter_id_conv)
  finally show ?thesis .
qed

lemma sorted_keys_eq:
  assumes "distinct (map f xs)" and "distinct ys" and "f ` set xs = set ys" and "sorted ys"
  shows "map f (sort_key f xs) = ys"
proof -
  have "mset (map f (sort_key f xs)) = mset ys"
    using set_eq_iff_mset_eq_distinct [OF assms(1,2)] assms(3) by simp
  moreover have "sorted (map f (sort_key f xs))" by (rule sorted_sort_key)
  ultimately show ?thesis using assms(4) by (metis properties_for_sort)
qed

lemma compiled_pull_keys:
  assumes ctx: "layout_ctx W E src js" and comp: "compiled W E src js epoch l"
  shows "map (\<lambda>c. (unat (jc_worker_rank c), unat (jc_destination_row c))) (cl_contributors l) = ys \<Longrightarrow>
      distinct ys \<and> set ys = {(d, k). d < W \<and> k < length (cl_destination_rows l ! d)}"
proof -
  let ?f = "\<lambda>c. (unat (jc_worker_rank c), unat (jc_destination_row c))"
  let ?g = "\<lambda>before j. (snd (snd j), length (jobs_at (snd (snd j)) before))"
  assume ys: "map ?f (cl_contributors l) = ys"
  have "mset (cl_contributors l) = mset (prefix_map (contributor_of src) js)"
    using comp mset_contributors [of "journal_keys src [0..<W]" js src] ctx_jobs(2) [OF ctx]
    by (auto simp: compiled_def Let_def distinct_journal_keys set_journal_keys)
  then have m: "mset ys = mset (prefix_map (\<lambda>b j. ?f (contributor_of src b j)) js)"
    by (simp flip: ys add: map_prefix_map [symmetric, of ?f] mset_map)
  have "prefix_map (\<lambda>b j. ?f (contributor_of src b j)) js = prefix_map ?g js"
  proof (rule nth_equalityI)
    fix i assume "i < length (prefix_map (\<lambda>b j. ?f (contributor_of src b j)) js)"
    then have i: "i < length js" by simp
    obtain r t d where j: "js ! i = (r, t, d)" by (cases "js ! i")
    have "d < W" using ctx_jobs(2) [OF ctx] nth_mem [OF i] j by auto
    then have "unat (of_nat d :: u32) = d" using ctx by (intro unat_of_nat_u32) (simp add: layout_ctx_def)
    have "length (jobs_at d (take i js)) \<le> length js"
      unfolding jobs_at_def by (rule order.trans [OF length_filter_le]) simp
    then have "unat (of_nat (length (jobs_at d (take i js))) :: u32) = length (jobs_at d (take i js))"
      by (rule unat_of_nat_below) (use compiled_sizes(1) [OF ctx comp] in simp)
    with \<open>unat (of_nat d :: u32) = d\<close> show "prefix_map (\<lambda>b j. ?f (contributor_of src b j)) js ! i = prefix_map ?g js ! i"
      using i j by (simp add: contributor_of_def)
  qed simp
  then have "mset ys = mset (prefix_map ?g js)" using m by simp
  moreover have "distinct (prefix_map ?g js) \<and> set (prefix_map ?g js) = {(d, k). d < W \<and> k < length (jobs_at d js)}"
    by (rule job_rows) (use ctx_jobs(2) [OF ctx] in auto)
  moreover have "{(d, k). d < W \<and> k < length (jobs_at d js)} =
      {(d, k). d < W \<and> k < length (cl_destination_rows l ! d)}"
    using compiled_rows_keys(2) [OF ctx comp] by auto
  ultimately show "distinct ys \<and> set ys = {(d, k). d < W \<and> k < length (cl_destination_rows l ! d)}"
    using mset_eq_imp_distinct_iff [of ys "prefix_map ?g js"] mset_eq_setD [of ys "prefix_map ?g js"] by simp
qed

lemma pulls_contributors:
  assumes "journal_ok d W N" and "contributors_before d N = length (cl_contributors d)"
    and N: "N = length (cl_journal_tokens d)"
  shows "map pull_key (pulls_upto d N) =
    map (\<lambda>c. (unat (jc_worker_rank c), unat (jc_destination_row c))) (cl_contributors d)"
  unfolding contributors_of_tokens [OF assms(1,2) [unfolded N], symmetric] pulls_upto_def N
  by (simp add: map_concat pull_of_def comp_def)

lemma compiled_pulls_dense:
  assumes ctx: "layout_ctx W E src js" and comp: "compiled W E src js epoch l"
    and N: "N = length (cl_journal_tokens l)"
  shows "map pull_key (sort_key pull_key (pulls_upto l N)) = dense W (\<lambda>s. length (cl_destination_rows l ! s))"
proof -
  note key = compiled_pull_keys [OF ctx comp pulls_contributors [OF compiled_journal_ok [OF ctx comp N] N, symmetric]]
  show ?thesis
    by (rule sorted_keys_eq [OF _ distinct_dense _ sorted_dense])
      (use key in \<open>simp_all add: set_dense\<close>)
qed

lemma compiled_results_dense:
  assumes ctx: "layout_ctx W E src js" and comp: "compiled W E src js epoch l"
    and N: "N = length (cl_journal_tokens l)"
  shows "map result_key (sort_key result_key (results_upto l N)) = dense W (\<lambda>r. length (ps_tokens (src r)))"
proof -
  have "map result_key (results_upto l N) =
      map (\<lambda>e. (unat (jt_owner_rank e), unat (jt_owner_row e))) (map ((!) (cl_journal_tokens l)) [0..<N])"
    by (simp add: results_upto_def result_of_def comp_def)
  also have "\<dots> = dense W (\<lambda>r. length (ps_tokens (src r)))"
    using compiled_entries(2) [OF ctx comp refl] unfolding N map_nth by (simp add: dense_def journal_keys_def)
  finally have eq: "map result_key (results_upto l N) = dense W (\<lambda>r. length (ps_tokens (src r)))" .
  then have "result_key ` set (results_upto l N) = set (dense W (\<lambda>r. length (ps_tokens (src r))))"
    by (metis set_map)
  then show ?thesis
    by (intro sorted_keys_eq [OF _ distinct_dense _ sorted_dense])
      (use eq distinct_dense [of W] in simp_all)
qed

text \<open>The pulls of one accumulator are those of the one token that owns it.\<close>

lemma pulls_of_accumulator:
  assumes jok: "journal_ok d W N" and a: "a < N"
    and acc: "\<forall>i < N. unat (jt_accumulator_index (cl_journal_tokens d ! i)) = i"
    and perm: "mset pulls = mset (pulls_upto d N)"
  shows "distinct (map (\<lambda>i. po_source_rank (pulls ! i)) (pulls_for pulls 0 a))"
    and "length (pulls_for pulls 0 a) = unat (jt_contributors_count (cl_journal_tokens d ! a))"
proof -
  let ?e = "cl_journal_tokens d ! a" and ?P = "\<lambda>p. unat (po_accumulator_index p) = a"
  have tok: "token_ok d W ?e (contributors_before d a)" using jok a by (simp add: journal_ok_def)
  have "filter ?P (pulls_upto d N) = map (pull_of a ?e) (token_contributors d ?e)"
    unfolding pulls_upto_def by (rule filter_concat_single [OF a]) (auto simp: pull_of_def acc)
  then have m: "mset (filter ?P pulls) = mset (map (pull_of a ?e) (token_contributors d ?e))"
    using perm by (metis mset_filter)
  have "mset (map po_source_rank (filter ?P pulls)) = mset (map jc_worker_rank (token_contributors d ?e))"
    using arg_cong [OF m, of "image_mset po_source_rank"] by (simp add: pull_of_def image_mset.compositionality comp_def)
  then have "distinct (map po_source_rank (filter ?P pulls))"
    using tok mset_eq_imp_distinct_iff unfolding token_ok_def by blast
  then show "distinct (map (\<lambda>i. po_source_rank (pulls ! i)) (pulls_for pulls 0 a))"
    by (simp add: filter_nth_upt [where f = po_source_rank and P = ?P])
  have "length (pulls_for pulls 0 a) = length (filter ?P pulls)"
    using arg_cong [OF filter_nth_upt [where f = id and P = ?P and xs = pulls], of length] by simp
  also have "\<dots> = length (token_contributors d ?e)"
    using mset_eq_length [OF m] by simp
  finally show "length (pulls_for pulls 0 a) = unat (jt_contributors_count ?e)"
    using tok by (simp add: token_ok_def token_contributors_def)
qed

text \<open>
  C9 Dispatch and combine fit together. When \<open>CompileLayout\<close> seals a layout of sources that
  came out of the slot parser, \<open>CompileCombinePullPlan\<close> accepts its journal under every valid combine
  configuration with the same worker count and a ring that has the journal's slot: it never answers
  with an error, and the plan has one accumulator per dispatched token.
\<close>

theorem CompileLayout_gives_plan:
  assumes lay: "CompileLayout sources arrival c = Inr l" and src: "\<forall>p \<in> set sources. source_ok c p"
    and cfg: "ConfigValid config" and wc: "cfg_worker_count config = lc_worker_count c"
    and ring: "ucast (jh_ring_slot (cl_journal_header l)) < cfg_ring_slots config"
  shows "\<exists>plan. CompileCombinePullPlan l config = Inr plan \<and>
    unat (pl_accumulator_count plan) = length (cl_journal_tokens l)"
proof -
  let ?W = "unat (lc_worker_count c)" and ?N = "length (cl_journal_tokens l)"
  obtain epoch js where comp: "compiled ?W (unat (lc_expert_count c)) (rank_source sources) js epoch l"
    and ctx: "layout_ctx ?W (unat (lc_expert_count c)) (rank_source sources) js"
    and inp: "layout_input_ok sources arrival c"
    and ep: "\<forall>p \<in> set sources. header_epoch (ps_header p) = epoch \<and> ep_generation epoch \<noteq> 0 \<and> ep_sequence epoch \<noteq> 0"
    and ne: "\<forall>r < ?W. rank_source sources r \<in> set sources \<and> source_rank (rank_source sources r) = r"
    by (rule CompileLayout_compiled [OF lay src])
  have W: "?W = unat (cfg_worker_count config)" by (simp add: wc)
  note cw = config_workers [OF cfg, folded W]
  have "rank_source sources 0 \<in> set sources" using ne cw by auto
  then have ep': "ep_generation epoch \<noteq> 0" "ep_sequence epoch \<noteq> 0" using ep by auto
  have jb: "\<not> journal_bad l config" by (rule compiled_header_ok [OF ctx comp ep' W ring])
  note jok = compiled_journal_ok [OF ctx comp refl]
  note sz = journal_sizes [OF jb W]
  let ?pulls = "sort_key pull_key (pulls_upto l ?N)" and ?results = "sort_key result_key (results_upto l ?N)"
  let ?accs = "of_nat ?N :: u32"
  have accs: "?N = unat ?accs" using sz(4) by (simp add: unat_of_nat_u32)
  have acc: "\<forall>i < ?N. unat (jt_accumulator_index (cl_journal_tokens l ! i)) = i"
    using compiled_token_ok(2) [OF ctx comp] by simp
  have rows: "\<forall>s < ?W. length (cl_destination_rows l ! s) < 2 ^ 32"
    using compiled_rows_keys(2) [OF ctx comp] compiled_sizes(2) [OF ctx comp] by simp
  have rlen: "length ?results < 2 ^ 32" using sz(4) by (simp add: results_upto_def)
  have pj: "plan_journal l config = Inr (pulls_upto l ?N, results_upto l ?N)"
    using plan_journal_eq [OF jb W refl] jok by simp
  have s: "plan_sources l config ?pulls = Inr (offsets_of ?W (\<lambda>s. length (cl_destination_rows l ! s)),
      map (\<lambda>s. of_nat (length (cl_destination_rows l ! s))) [0..<?W])"
    by (rule plan_sources_cases(2) [OF sz(1) W _ refl compiled_pulls_dense [OF ctx comp refl] rows])
      (use cw in simp)
  have o: "plan_owners config ?results = Inr (offsets_of ?W (\<lambda>r. length (ps_tokens (rank_source sources r))))"
    by (rule plan_owners_cases(2) [OF W _ rlen compiled_results_dense [OF ctx comp refl]]) (use cw in simp)
  note pa = pulls_of_accumulator [OF jok(1) _ acc, of _ ?pulls, simplified mset_sort, OF _ refl]
  have plen: "length ?pulls < 2 ^ 32"
    using length_pulls [OF jok(1) order.refl] jok(2) sz(3) by simp
  have pacc: "\<forall>p \<in> set ?pulls. unat (po_accumulator_index p) < ?N"
    by (auto simp: pulls_upto_def pull_of_def acc)
  obtain nxt heads counts where c: "plan_chains ?pulls ?accs = Inr (nxt, heads, counts)"
    and lnk: "linked ?pulls ?N 0 (nxt, heads, counts)"
  proof -
    have "\<forall>a < ?N. distinct (map (\<lambda>i. po_source_rank (?pulls ! i)) (pulls_for ?pulls 0 a))"
      using pa(1) by simp
    from plan_chains_cases(2) [OF accs plen pacc this] show thesis using that by auto
  qed
  have cl: "length counts = ?N"
    and cnt: "\<forall>a < ?N. counts ! a = jt_contributors_count (cl_journal_tokens l ! a)"
    using lnk pa(2) by (simp_all add: linked_def)
  have "map (\<lambda>r. unat (ro_accumulator_index r)) (results_upto l ?N) = [0..<?N]"
    by (rule nth_equalityI) (simp_all add: results_upto_def result_of_def acc)
  then have perm: "mset (map (\<lambda>r. unat (ro_accumulator_index r)) ?results) = mset [0..<?N]"
    using mset_map [of "\<lambda>r. unat (ro_accumulator_index r)" "results_upto l ?N"]
    by (simp only: mset_map mset_sort)
  have "\<forall>r \<in> set ?results. counts ! unat (ro_accumulator_index r) = ro_expected_contributors r"
    by (auto simp: results_upto_def result_of_def acc cnt)
  then obtain ix where r: "plan_results ?results ?accs counts = Inr ix"
    using plan_results_cases(2) [OF accs cl rlen perm] by blast
  show ?thesis
    using cfg jb accs by (simp add: CompileCombinePullPlan_def pj sort_pulls sort_results Let_def s o c r)
qed

theorem CompileLayout_gives_plan_witness:
  "\<exists>l plan. CompileLayout ex_sources [1, 0] ex_layout = Inr l \<and> CompileCombinePullPlan l ex_config = Inr plan \<and>
     unat (pl_accumulator_count plan) = 3"
proof -
  obtain l where l: "CompileLayout ex_sources [1, 0] ex_layout = Inr l" "length (cl_journal_tokens l) = 3"
    by (rule ex_compile)
  have "case CompileLayout ex_sources [1, 0] ex_layout of Inl _ \<Rightarrow> False
    | Inr l \<Rightarrow> ucast (jh_ring_slot (cl_journal_header l)) < cfg_ring_slots ex_config" by code_simp
  then have r: "ucast (jh_ring_slot (cl_journal_header l)) < cfg_ring_slots ex_config" by (simp add: l(1))
  have v: "ConfigValid ex_config" "cfg_worker_count ex_config = lc_worker_count ex_layout"
    by code_simp (simp add: ex_config_def ex_layout_def)
  show ?thesis
    using CompileLayout_gives_plan [OF l(1) ex_sources_ok v r] l by auto
qed

end
