(* ===== verification/Device_Arith.thy ===== *)
theory Device_Arith
  imports Dispatch_Abi
begin

text \<open>
  The integer arithmetic of the two device kernels (\<open>inc_dc_pull_combine_v2_device_kernel.cpp\<close>; the dispatch
  kernel repeats it): the target has no wide multiplication, so products are put together from halves, and the
  multiplication by the prime of the hash is spelled as shifts. The lemmas show that these routines compute
  what the host code computes with the operators of the language.
\<close>

section \<open>Model\<close>

definition AddU64 :: "u64 \<Rightarrow> u64 \<Rightarrow> u64 option" where
  "AddU64 a b = (if b > - 1 - a then None else Some (a + b))"

definition MulU32Exact :: "u32 \<Rightarrow> u32 \<Rightarrow> u64" where
  "MulU32Exact a b =
     (let a0 = a AND 0xffff; a1 = drop_bit 16 a; b0 = b AND 0xffff; b1 = drop_bit 16 b;
          p0_native = a0 * b0; p1_native = a0 * b1; p2_native = a1 * b0; p3_native = a1 * b1;
          p0 = ucast p0_native; p1 = ucast p1_native; p2 = ucast p2_native; p3 = ucast p3_native
      in p0 + push_bit 16 (p1 + p2) + push_bit 32 p3)"

definition MulU64ByU32 :: "u64 \<Rightarrow> u32 \<Rightarrow> u64" where
  "MulU64ByU32 value factor =
     MulU32Exact (ucast value) factor + push_bit 32 (MulU32Exact (ucast (drop_bit 32 value)) factor)"

definition CheckedMulU64ByU32 :: "u64 \<Rightarrow> u32 \<Rightarrow> u64 option" where
  "CheckedMulU64ByU32 value factor =
     (if factor \<noteq> 0 \<and> value > - 1 div ucast factor then None else Some (MulU64ByU32 value factor))"

definition HashByte :: "u64 \<Rightarrow> u8 \<Rightarrow> u64" where
  "HashByte hash value =
     (let x = hash XOR ucast value
      in push_bit 40 x + push_bit 8 x + push_bit 7 x + push_bit 5 x + push_bit 4 x + push_bit 1 x + x)"

definition HashGmBytes :: "u64 \<Rightarrow> u8 list \<Rightarrow> u64" where
  "HashGmBytes hash data = fold (\<lambda>d h. HashByte h d) data hash"

definition HashU16 :: "u64 \<Rightarrow> u16 \<Rightarrow> u64" where
  "HashU16 hash value = fold (\<lambda>i h. HashByte h (ucast (drop_bit (8 * i) value))) [0..<2] hash"

definition HashU32 :: "u64 \<Rightarrow> u32 \<Rightarrow> u64" where
  "HashU32 hash value = fold (\<lambda>i h. HashByte h (ucast (drop_bit (8 * i) value))) [0..<4] hash"

definition HashU64 :: "u64 \<Rightarrow> u64 \<Rightarrow> u64" where
  "HashU64 hash value = fold (\<lambda>i h. HashByte h (ucast (drop_bit (8 * i) value))) [0..<8] hash"

section \<open>Products\<close>

lemma AddU64_Add: "AddU64 = Add"
  by (simp add: fun_eq_iff AddU64_def Add_def)

lemma u32_halves: "(a :: u32) AND 0xffff = take_bit 16 a"
  by (simp add: take_bit_eq_mask mask_eq_exp_minus_1)

lemma unat_halves: "unat (a :: u32) = unat (take_bit 16 a) + 2 ^ 16 * unat (drop_bit 16 a)"
  by (simp add: take_bit_eq_mod drop_bit_eq_div unat_div unat_mod)

lemma half_bounds: "unat (take_bit 16 (a :: u32)) < 2 ^ 16" "unat (drop_bit 16 (a :: u32)) < 2 ^ 16"
proof -
  have "unat a < 2 ^ 32" using unsigned_less [of a, where 'a = nat] by simp
  then have "unat a div 2 ^ 16 < 2 ^ 16" by (simp add: less_mult_imp_div_less)
  then show "unat (take_bit 16 a) < 2 ^ 16" "unat (drop_bit 16 a) < 2 ^ 16"
    by (simp_all add: take_bit_eq_mod drop_bit_eq_div unat_div unat_mod)
qed

lemma native_product:
  assumes "unat (a :: u32) < 2 ^ 16" "unat (b :: u32) < 2 ^ 16"
  shows "(ucast (a * b) :: u64) = ucast a * ucast b"
proof -
  have "unat a * unat b < 2 ^ 16 * 2 ^ 16" by (rule mult_strict_mono) (use assms in simp_all)
  then have "unat (a * b) = unat a * unat b" by (simp add: unat_word_ariths)
  then have "(of_nat (unat (a * b)) :: u64) = of_nat (unat a * unat b)" by simp
  then show ?thesis by simp
qed

lemma push_bit_word: "push_bit n (w :: u64) = w * of_nat (2 ^ n)"
  by (simp add: push_bit_eq_mult)

lemma ucast_halves_u32:
  "(ucast (a :: u32) :: u64) = ucast (take_bit 16 a) + ucast (drop_bit 16 a) * of_nat (2 ^ 16)"
proof -
  have "(of_nat (unat a) :: u64) = of_nat (unat (take_bit 16 a) + 2 ^ 16 * unat (drop_bit 16 a))"
    by (simp only: unat_halves [of a])
  then show ?thesis by (simp add: mult.commute)
qed

lemma MulU32Exact_eq: "MulU32Exact a b = ucast a * ucast b"
  unfolding MulU32Exact_def Let_def u32_halves push_bit_word ucast_halves_u32 [of a] ucast_halves_u32 [of b]
  by (simp only: native_product half_bounds) (simp add: algebra_simps)

lemma ucast_halves: "(ucast (ucast (v :: u64) :: u32) :: u64) + ucast (ucast (drop_bit 32 v) :: u32) * of_nat (2 ^ 32) = v"
proof -
  have v: "unat v < 2 ^ 64" using unsigned_less [of v, where 'a = nat] by simp
  have "unat v div 2 ^ 32 < 2 ^ 32" using v by (simp add: less_mult_imp_div_less)
  then have "unat (ucast (drop_bit 32 v) :: u32) = unat v div 2 ^ 32" "unat (ucast v :: u32) = unat v mod 2 ^ 32"
    by (simp_all add: unsigned_ucast_eq take_bit_eq_mod drop_bit_eq_div unat_div unat_mod)
  then have "of_nat (unat (ucast v :: u32) + unat (ucast (drop_bit 32 v) :: u32) * 2 ^ 32) = (of_nat (unat v) :: u64)"
    by (simp only: mod_div_mult_eq)
  then show ?thesis by simp
qed

text \<open>The products of the device are the products of the machine.\<close>

lemma MulU64ByU32_eq: "MulU64ByU32 v f = v * ucast f"
proof -
  have "MulU64ByU32 v f = (ucast (ucast v :: u32) + ucast (ucast (drop_bit 32 v) :: u32) * of_nat (2 ^ 32)) * ucast f"
    by (simp add: MulU64ByU32_def MulU32Exact_eq push_bit_word algebra_simps)
  then show ?thesis by (simp only: ucast_halves)
qed

lemma ucast_u32_u64_zero: "(ucast (f :: u32) :: u64) = 0 \<longleftrightarrow> f = 0"
  by (metis ucast_0 unat_0 unat_ucast_u64 word_unat_eq_iff)

lemma CheckedMulU64ByU32_Mul: "CheckedMulU64ByU32 v f = Mul (ucast f) v"
  by (simp add: CheckedMulU64ByU32_def Mul_def MulU64ByU32_eq ucast_u32_u64_zero mult.commute)

lemma Mul_commute: "Mul a b = Mul b a"
proof (cases "unat a * unat b < 2 ^ 64")
  case True
  then have "Mul a b = Some (a * b)" "Mul b a = Some (b * a)" by (simp_all add: Mul_eq_Some mult.commute)
  then show ?thesis by (simp add: mult.commute)
next
  case False
  then have "Mul a b = None" "Mul b a = None"
    using Mul_eq_Some [of a b] Mul_eq_Some [of b a] by (auto simp: mult.commute intro: option.exhaust)
  then show ?thesis by simp
qed

section \<open>Hashes\<close>

lemma HashByte_eq: "HashByte h v = (h XOR ucast v) * kHashPrime"
proof -
  have "HashByte h v = (h XOR ucast v) * (2 ^ 40 + 2 ^ 8 + 2 ^ 7 + 2 ^ 5 + 2 ^ 4 + 2 + 1)"
    unfolding HashByte_def Let_def push_bit_word by (simp add: algebra_simps)
  then show ?thesis by (simp add: kHashPrime_def)
qed

lemma HashGmBytes_eq: "HashGmBytes h ds = HashBytes h ds"
  by (induction ds arbitrary: h) (simp_all add: HashGmBytes_def HashByte_eq)

lemma hash_word_bytes:
  "fold (\<lambda>i h. HashByte h (ucast (drop_bit (8 * i) (w :: 'a::len word)))) [0..<n] h = HashBytes h (le_bytes n w)"
proof -
  have "le_bytes n w = map (\<lambda>i. ucast (drop_bit (8 * i) w)) [0..<n]"
  proof (induction n arbitrary: w)
    case (Suc n)
    have "map (\<lambda>i. ucast (drop_bit (8 * i) w) :: u8) [0..<Suc n] =
        ucast w # map (\<lambda>i. ucast (drop_bit (8 * Suc i) w)) [0..<n]"
      by (simp only: map_upt_Suc) simp
    then show ?case using Suc.IH [of "drop_bit 8 w"] by (simp add: add.commute)
  qed simp
  then have "HashBytes h (le_bytes n w) = HashGmBytes h (map (\<lambda>i. ucast (drop_bit (8 * i) w)) [0..<n])"
    by (simp add: HashGmBytes_eq)
  then show ?thesis by (simp add: HashGmBytes_def fold_map comp_def)
qed

lemma hash_words:
  "HashU16 h a = HashBytes h (le_bytes 2 a)" "HashU32 h b = HashBytes h (le_bytes 4 b)"
  "HashU64 h c = HashBytes h (le_bytes 8 c)"
  by (simp_all only: HashU16_def HashU32_def HashU64_def hash_word_bytes)

end
