(* ===== verification/Combine_Device.thy ===== *)
theory Combine_Device
  imports Combine_Reduction Device_Arith
begin

text \<open>
  The control checks of the combine kernel on the INC (\<open>inc_dc_pull_combine_v2_device_kernel.cpp\<close>): the digests
  and the validity of notices, registrations and READY records. The kernel repeats the checks of the host
  library with its own arithmetic; the theory shows that the two agree.
\<close>

section \<open>Model\<close>

definition kStatusOk :: u32 where "kStatusOk = 0"
definition kStatusInvalidArgument :: u32 where "kStatusInvalidArgument = 1"
definition kStatusInvalidJournal :: u32 where "kStatusInvalidJournal = 2"
definition kStatusInvalidRegistration :: u32 where "kStatusInvalidRegistration = 3"
definition kStatusInvalidReady :: u32 where "kStatusInvalidReady = 4"
definition kStatusCookieMismatch :: u32 where "kStatusCookieMismatch = 5"
definition kStatusStaleEpoch :: u32 where "kStatusStaleEpoch = 6"
definition kStatusSizeOverflow :: u32 where "kStatusSizeOverflow = 7"
definition kStatusCapacityExceeded :: u32 where "kStatusCapacityExceeded = 8"
definition kStatusDuplicateSource :: u32 where "kStatusDuplicateSource = 9"
definition kStatusNotReady :: u32 where "kStatusNotReady = 10"
definition kStatusInvalidState :: u32 where "kStatusInvalidState = 11"

text \<open>The enumerators of the status of the host library.\<close>

fun status_code :: "CombineV2Status \<Rightarrow> u32" where
  "status_code OK = 0"
| "status_code INVALID_ARGUMENT = 1"
| "status_code INVALID_JOURNAL = 2"
| "status_code INVALID_REGISTRATION = 3"
| "status_code INVALID_READY = 4"
| "status_code COOKIE_MISMATCH = 5"
| "status_code STALE_EPOCH = 6"
| "status_code SIZE_OVERFLOW = 7"
| "status_code CAPACITY_EXCEEDED = 8"
| "status_code DUPLICATE_SOURCE = 9"
| "status_code NOT_READY = 10"
| "status_code INVALID_STATE_TRANSITION = 11"
| "status_code ABORTED = 12"

text \<open>The scalar arguments of a launch.\<close>

record combine_launch =
  la_session_id :: u64
  la_placement_epoch :: u64
  la_generation :: u64
  la_sequence :: u64
  la_dispatch_cookie :: u64
  la_owner_output_slot_stride :: u64
  la_pull_count :: u64
  la_result_count :: u64
  la_pull_index_capacity :: u64
  la_accumulator_index_capacity :: u64
  la_source_scratch_capacity :: u64
  la_accumulator_count :: u32
  la_worker_count :: u32
  la_hidden :: u32
  la_partial_dtype :: u32
  la_inc_pe :: u32
  la_wave :: u32
  la_ring_slot :: u32
  la_slot_count :: u32
  la_spin_cap :: u64

definition ReadyPublication :: "CombineReadyV2 \<Rightarrow> u64" where
  "ReadyPublication ready =
     (let hash = kHashOffset;
          hash = HashU32 hash (crd_magic ready);
          hash = HashU16 hash (crd_abi_version ready);
          hash = HashU16 hash (crd_struct_bytes ready);
          hash = HashU64 hash (crd_session_id ready);
          hash = HashU64 hash (crd_placement_epoch ready);
          hash = HashU64 hash (crd_generation ready);
          hash = HashU64 hash (crd_sequence ready);
          hash = HashU64 hash (crd_dispatch_cookie ready);
          hash = HashU32 hash (crd_wave ready);
          hash = HashU32 hash (crd_source_rank ready);
          hash = HashU32 hash (crd_source_region_id ready);
          hash = HashU16 hash (crd_ring_slot ready);
          hash = HashU16 hash (crd_flags ready);
          hash = HashU32 hash (crd_row_count ready);
          hash = HashU32 hash (crd_hidden ready);
          hash = HashU32 hash (crd_partial_dtype ready);
          hash = HashU64 hash (crd_source_offset ready);
          hash = HashU64 hash (crd_payload_bytes ready);
          (r0, r1, r2) = crd_reserved ready;
          hash = HashU64 (HashU64 (HashU64 hash r0) r1) r2
      in if hash = 0 then 1 else hash)"

definition ReadyNoticePublication :: "CombineReadyNoticeV2 \<Rightarrow> u64" where
  "ReadyNoticePublication notice =
     (let hash = kHashOffset;
          hash = HashU32 hash (crn_magic notice);
          hash = HashU16 hash (crn_abi_version notice);
          hash = HashU16 hash (crn_struct_bytes notice);
          hash = HashU64 hash (crn_session_id notice);
          hash = HashU64 hash (crn_placement_epoch notice);
          hash = HashU64 hash (crn_generation notice);
          hash = HashU64 hash (crn_sequence notice);
          hash = HashU32 hash (crn_wave notice);
          hash = HashU32 hash (crn_source_rank notice);
          hash = HashU16 hash (crn_ring_slot notice);
          hash = HashU16 hash (crn_flags notice);
          hash = HashU32 hash (crn_reserved0 notice)
      in if hash = 0 then 1 else hash)"

definition ReadyNoticeValid :: "CombineReadyNoticeV2 \<Rightarrow> u32 \<Rightarrow> combine_launch \<Rightarrow> bool" where
  "ReadyNoticeValid notice source la \<longleftrightarrow>
     source < la_worker_count la \<and> crn_magic notice = kPullCombineV2Magic \<and>
     crn_abi_version notice = kPullCombineV2AbiVersion \<and>
     crn_struct_bytes notice = 64 \<and>
     crn_session_id notice = la_session_id la \<and>
     crn_placement_epoch notice = la_placement_epoch la \<and>
     crn_generation notice = la_generation la \<and> crn_sequence notice = la_sequence la \<and>
     crn_wave notice = la_wave la \<and> crn_source_rank notice = source \<and>
     crn_ring_slot notice = ucast (la_ring_slot la) \<and> ucast (crn_ring_slot notice) < la_slot_count la \<and>
     crn_flags notice = 0 \<and> crn_reserved0 notice = 0 \<and>
     crn_publication notice \<noteq> 0 \<and>
     crn_publication notice = ReadyNoticePublication notice"

definition RegistrationValid :: "CombineRegionRegistration \<Rightarrow> u32 \<Rightarrow> combine_launch \<Rightarrow> bool" where
  "RegistrationValid registration source la \<longleftrightarrow>
     source < la_worker_count la \<and> crg_session_id registration = la_session_id la \<and>
     crg_placement_epoch registration = la_placement_epoch la \<and>
     crg_source_rank registration = source \<and>
     crg_region_id registration \<noteq> 0 \<and>
     crg_slot_count registration \<ge> la_slot_count la \<and>
     crg_alignment registration \<ge> kPullCombineV2Alignment \<and>
     crg_alignment registration AND (crg_alignment registration - 1) = 0 \<and>
     crg_slot_stride registration \<noteq> 0 \<and>
     crg_slot_stride registration mod ucast (crg_alignment registration) = 0 \<and>
     (case CheckedMulU64ByU32 (crg_slot_stride registration) (crg_slot_count registration) of
        None \<Rightarrow> False
      | Some required \<Rightarrow> required \<le> crg_region_bytes registration) \<and>
     fst (crg_reserved registration) = 0 \<and> snd (crg_reserved registration) = 0"

definition ready_fields_valid ::
  "CombineReadyV2 \<Rightarrow> CombineRegionRegistration \<Rightarrow> u32 \<Rightarrow> combine_launch \<Rightarrow> bool" where
  "ready_fields_valid ready registration source la \<longleftrightarrow>
     crd_magic ready = kPullCombineV2Magic \<and>
     crd_abi_version ready = kPullCombineV2AbiVersion \<and>
     crd_struct_bytes ready = 128 \<and>
     crd_session_id ready = la_session_id la \<and>
     crd_placement_epoch ready = la_placement_epoch la \<and>
     crd_source_rank ready = source \<and> source < la_worker_count la \<and>
     crd_source_region_id ready = crg_region_id registration \<and>
     ucast (crd_ring_slot ready) < la_slot_count la \<and>
     ucast (crd_ring_slot ready) < crg_slot_count registration \<and>
     ucast (crd_flags ready) = kPullCombineV2CanonicalRows \<and>
     crd_hidden ready = la_hidden la \<and>
     crd_partial_dtype ready = FP32 \<and>
     (case crd_reserved ready of (r0, r1, r2) \<Rightarrow> r0 = 0 \<and> r1 = 0 \<and> r2 = 0) \<and>
     crd_publication ready \<noteq> 0 \<and>
     crd_publication ready = ReadyPublication ready"

text \<open>The checked products and sums of \<open>ValidateReady\<close>, in their order.\<close>

definition ready_extent ::
  "CombineReadyV2 \<Rightarrow> CombineRegionRegistration \<Rightarrow> u64 \<Rightarrow> combine_launch \<Rightarrow> (u64 \<times> u64 \<times> u64 \<times> u64) option" where
  "ready_extent ready registration expected_rows la =
     (if expected_rows > 0xffffffff then None
      else do {
        elements \<leftarrow> CheckedMulU64ByU32 expected_rows (la_hidden la);
        expected_bytes \<leftarrow> CheckedMulU64ByU32 elements 4;
        slot_base \<leftarrow> CheckedMulU64ByU32 (crg_slot_stride registration)
          (ucast (ucast (la_ring_slot la) :: u16));
        slot_end \<leftarrow> AddU64 slot_base (crg_slot_stride registration);
        payload_end \<leftarrow> AddU64 (crd_source_offset ready) (crd_payload_bytes ready);
        Some (expected_bytes, slot_base, slot_end, payload_end)
      })"

definition ValidateReady ::
  "CombineReadyV2 \<Rightarrow> CombineRegionRegistration \<Rightarrow> u64 list \<Rightarrow> u32 \<Rightarrow> combine_launch \<Rightarrow> (u32, unit) res" where
  "ValidateReady ready registration source_offsets source la =
     (if \<not> ready_fields_valid ready registration source la then fail kStatusInvalidReady
      else if crd_dispatch_cookie ready \<noteq> la_dispatch_cookie la then fail kStatusCookieMismatch
      else if crd_generation ready \<noteq> la_generation la \<or> crd_sequence ready \<noteq> la_sequence la \<or>
              crd_wave ready \<noteq> la_wave la \<or> crd_ring_slot ready \<noteq> ucast (la_ring_slot la)
      then fail kStatusStaleEpoch
      else rbind (vget source_offsets (unat (source + 1))) (\<lambda>rows_end.
           rbind (vget source_offsets (unat source)) (\<lambda>rows_begin.
           (let expected_rows = rows_end - rows_begin in
            case ready_extent ready registration expected_rows la of
              None \<Rightarrow> fail kStatusSizeOverflow
            | Some (expected_bytes, slot_base, slot_end, payload_end) \<Rightarrow>
              if ucast (crd_row_count ready) \<noteq> expected_rows \<or>
                 crd_payload_bytes ready \<noteq> expected_bytes \<or>
                 crd_source_offset ready mod ucast (crg_alignment registration) \<noteq> 0 \<or>
                 crd_source_offset ready < slot_base \<or> payload_end > slot_end \<or>
                 payload_end > crg_region_bytes registration
              then fail kStatusCapacityExceeded else Inr ()))))"

section \<open>The device and the host agree\<close>

lemma ReadyPublication_host: "ReadyPublication r = CombineReadyPublication r"
  by (simp add: ReadyPublication_def CombineReadyPublication_def hash_words HashBytes_append Let_def split: prod.splits)

lemma ReadyNoticePublication_host: "ReadyNoticePublication n = CombineReadyNoticePublication n"
  by (simp add: ReadyNoticePublication_def CombineReadyNoticePublication_def hash_words HashBytes_append Let_def)

lemma Publication_nonzero: "CombineReadyPublication r \<noteq> 0"
  by (simp add: CombineReadyPublication_def Let_def)

text \<open>A launch of the kernel for a plan of a session, with the numbers of its tables.\<close>

definition launch_of :: "combine_launch \<Rightarrow> CombineV2Config \<Rightarrow> CombinePullPlan \<Rightarrow> bool" where
  "launch_of la config plan \<longleftrightarrow>
     la_session_id la = cfg_session_id config \<and> la_placement_epoch la = cfg_placement_epoch config \<and>
     la_worker_count la = cfg_worker_count config \<and> la_hidden la = cfg_hidden config \<and>
     la_partial_dtype la = cfg_partial_dtype config \<and> cfg_partial_dtype config = FP32 \<and>
     la_slot_count la = cfg_ring_slots config \<and>
     la_generation la = pl_generation plan \<and> la_sequence la = pl_sequence plan \<and>
     la_dispatch_cookie la = pl_dispatch_cookie plan \<and> la_wave la = pl_wave plan \<and>
     la_ring_slot la = ucast (pl_ring_slot plan) \<and>
     la_accumulator_count la = pl_accumulator_count plan \<and>
     la_pull_count la = of_nat (length (pl_pulls plan)) \<and>
     la_result_count la = of_nat (length (pl_results plan))"

lemma RegistrationValid_host:
  assumes "ConfigValid config" "launch_of la config plan"
  shows "RegistrationValid r source la \<longleftrightarrow>
    ValidateCombineRegistration r config = OK \<and> crg_source_rank r = source"
proof -
  have "CheckedMulU64ByU32 (crg_slot_stride r) (crg_slot_count r) = Mul (ucast (crg_slot_count r)) (crg_slot_stride r)"
    by (rule CheckedMulU64ByU32_Mul)
  then show ?thesis
    using assms by (auto simp: RegistrationValid_def ValidateCombineRegistration_def launch_of_def ReservedZero_def
        not_le not_less split: option.splits)
qed

text \<open>The rows of a source, from the offsets and from the counts of a plan.\<close>

lemma plan_rows:
  assumes "CompileCombinePullPlan d config = Inr plan" "s < unat (cfg_worker_count config)"
  shows "pl_source_offsets plan ! Suc s - pl_source_offsets plan ! s = ucast (pl_source_row_counts plan ! s)"
    and "length (pl_source_offsets plan) = Suc (unat (cfg_worker_count config))"
    and "length (pl_source_row_counts plan) = unat (cfg_worker_count config)"
proof -
  let ?W = "unat (cfg_worker_count config)" and ?n = "\<lambda>s. length (cl_destination_rows d ! s)"
  have so: "pl_source_offsets plan = offsets_of ?W ?n" and sc: "pl_source_row_counts plan = map (\<lambda>s. of_nat (?n s)) [0..<?W]"
    and n: "?n s < 2 ^ 32"
    using CompileCombinePullPlan_phases [OF refl refl refl, of d config] assms by auto
  have "pl_source_offsets plan ! Suc s - pl_source_offsets plan ! s = of_nat (?n s)"
    using assms(2) by (simp add: so offsets_of_def del: upt_Suc) simp
  moreover have "(of_nat (?n s) :: u64) = ucast (of_nat (?n s) :: u32)"
    using n by (simp add: unat_of_nat_u32 flip: of_nat_unat_u64)
  ultimately show "pl_source_offsets plan ! Suc s - pl_source_offsets plan ! s = ucast (pl_source_row_counts plan ! s)"
    using assms(2) by (simp add: sc)
  show "length (pl_source_offsets plan) = Suc ?W" "length (pl_source_row_counts plan) = ?W"
    by (simp_all add: so sc offsets_of_def)
qed

lemma u64_product:
  "Mul (ucast (a :: u32)) (ucast (b :: u32)) = Some (ucast a * ucast b)"
  "unat (ucast (a :: u32) * ucast (b :: u32) :: u64) = unat a * unat b"
proof -
  have "unat a * unat b < 2 ^ 32 * 2 ^ 32"
    using unsigned_less [of a, where 'a = nat] unsigned_less [of b, where 'a = nat]
    by (intro mult_strict_mono) simp_all
  then show m: "Mul (ucast a) (ucast b) = Some (ucast a * ucast b)" by (simp add: Mul_eq_Some unat_ucast_u64)
  show "unat (ucast a * ucast b :: u64) = unat a * unat b" using Mul_unat [OF m] by (simp add: unat_ucast_u64)
qed

text \<open>The device multiplies rows, width and element size in another order than the host.\<close>

lemma payload_size:
  "Option.bind (Mul (ucast hidden) (ucast (rows :: u32))) (\<lambda>e. Mul 4 e) =
   Option.bind (Mul (ucast (hidden :: u32)) 4) (\<lambda>row. Mul (ucast rows) row)"
proof -
  have "unat rows * (unat hidden * 4) = 4 * (unat hidden * unat rows)" by simp
  moreover have four: "(4 :: u64) = ucast (4 :: u32)" by simp
  have "Mul (ucast hidden) 4 = Some (ucast hidden * 4)" "unat (ucast hidden * 4 :: u64) = unat hidden * 4"
    using u64_product [of hidden 4] by simp_all
  moreover have "Mul a x = (if unat a * unat x < 2 ^ 64 then Some (a * x) else None)" for a x
    by (metis Mul_eq_Some not_None_eq)
  ultimately show ?thesis
    using u64_product [of hidden rows] by (simp add: unat_ucast_u64 mult_ac)
qed

lemma ready_fields_host:
  assumes "launch_of la config plan" "pl_worker_count plan = cfg_worker_count config" "RegistrationValid r source la"
  shows "ready_fields_valid ready r source la \<longleftrightarrow> ready_descriptor_ok ready r config plan \<and> crd_source_rank ready = source"
proof -
  have rank: "crg_source_rank r = source" using assms(3) by (simp add: RegistrationValid_def)
  have "crd_publication ready \<noteq> 0 \<and> crd_publication ready = ReadyPublication ready \<longleftrightarrow>
      crd_publication ready = CombineReadyPublication ready"
    using Publication_nonzero [of ready] by (auto simp: ReadyPublication_host)
  then show ?thesis
    using assms(1,2) rank
    by (auto simp: ready_fields_valid_def ready_descriptor_ok_def launch_of_def ReservedZero_def split: prod.splits)
qed

lemma ucast_u16_u32: "(ucast (ucast (w :: u16) :: u32) :: u16) = w" "(ucast (ucast (w :: u16) :: u32) :: u64) = ucast w"
  by (rule bit_word_eqI, auto simp: bit_simps dest: bit_imp_le_length)+

lemma ucast_u32_eq: "(ucast (a :: u32) :: u64) = ucast b \<longleftrightarrow> a = b"
  by (metis unat_ucast_u64 word_unat_eq_iff)

lemma unat_Suc_u32: "unat (w :: u32) < 2 ^ 32 - 1 \<Longrightarrow> unat (w + 1) = Suc (unat w)"
  by (simp add: unat_word_ariths)

lemma ready_extent_host:
  assumes "launch_of la config plan" "crd_ring_slot ready = pl_ring_slot plan" "rows = ucast (crd_row_count ready)"
  shows "ready_extent ready r rows la = ready_range ready r config"
proof -
  have small: "rows \<le> 0xffffffff"
    using unsigned_less [of "crd_row_count ready", where 'a = nat] by (simp add: assms(3) word_le_nat_alt unat_ucast_u64)
  note slot = ucast_u16_u32 [of "pl_ring_slot plan"]
  have pb: "PartialBytes FP32 = 4" by (simp add: PartialBytes_def abi_consts)
  have pay: "Option.bind (Mul (ucast (cfg_hidden config)) rows) (\<lambda>e. Option.bind (Mul 4 e) f) =
      Option.bind (Mul (ucast (cfg_hidden config)) 4) (\<lambda>row. Option.bind (Mul rows row) f)" for f :: "u64 \<Rightarrow> (u64 \<times> u64 \<times> u64 \<times> u64) option"
    using arg_cong [OF payload_size [of "cfg_hidden config" "crd_row_count ready"], of "\<lambda>m. Option.bind m f"]
    by (simp add: assms(3))
  have "\<not> rows > 0xffffffff" using small by (simp add: not_less)
  then have "ready_extent ready r rows la = Option.bind (Mul (ucast (cfg_hidden config)) rows) (\<lambda>elements.
      Option.bind (Mul 4 elements) (\<lambda>expected_bytes.
      Option.bind (Mul (ucast (pl_ring_slot plan)) (crg_slot_stride r)) (\<lambda>slot_base.
      Option.bind (Add slot_base (crg_slot_stride r)) (\<lambda>slot_end.
      Option.bind (Add (crd_source_offset ready) (crd_payload_bytes ready)) (\<lambda>payload_end.
      Some (expected_bytes, slot_base, slot_end, payload_end))))))"
    using assms(1) by (simp add: ready_extent_def CheckedMulU64ByU32_Mul AddU64_Add launch_of_def slot)
  then show ?thesis
    unfolding pay using assms by (simp add: ready_range_def launch_of_def pb)
qed

lemma ValidateReady_host:
  assumes "CompileCombinePullPlan d config = Inr plan" "launch_of la config plan" "RegistrationValid r source la"
  shows "ValidateReady ready r (pl_source_offsets plan) source la = Inr () \<longleftrightarrow>
    crd_source_rank ready = source \<and> ValidateCombineReady ready r config plan = Inr ()"
proof (cases "ready_descriptor_ok ready r config plan \<and> crd_source_rank ready = source \<and>
    crd_dispatch_cookie ready = pl_dispatch_cookie plan \<and> crd_generation ready = pl_generation plan \<and>
    crd_sequence ready = pl_sequence plan \<and> crd_wave ready = pl_wave plan \<and> crd_ring_slot ready = pl_ring_slot plan")
  case False
  have wc: "pl_worker_count plan = cfg_worker_count config"
    using CompileCombinePullPlan_phases [OF refl refl refl, of d config] assms(1) by auto
  then have "ValidateReady ready r (pl_source_offsets plan) source la \<noteq> Inr ()"
    using False assms(2) ucast_u16_u32(1) [of "pl_ring_slot plan"]
    by (auto simp: ValidateReady_def ready_fields_host [OF assms(2) wc assms(3)] launch_of_def)
  moreover have "\<not> (crd_source_rank ready = source \<and> ValidateCombineReady ready r config plan = Inr ())"
    using False by (auto simp: ValidateCombineReady_def)
  ultimately show ?thesis by blast
next
  case True
  have cfg: "ConfigValid config" and wc: "pl_worker_count plan = cfg_worker_count config"
    using CompileCombinePullPlan_phases [OF refl refl refl, of d config] assms(1) by auto
  have reg: "ValidateCombineRegistration r config = OK" "crg_source_rank r = source"
    using RegistrationValid_host [OF cfg assms(2)] assms(3) by auto
  let ?s = "unat source"
  have s: "?s < unat (cfg_worker_count config)"
    using assms(2,3) by (simp add: RegistrationValid_def launch_of_def word_less_nat_alt)
  note rows = plan_rows [OF assms(1) s]
  have s1: "unat (source + 1) = Suc ?s"
    using s config_workers [OF cfg] by (intro unat_Suc_u32) simp
  let ?rows = "pl_source_row_counts plan ! ?s"
  have dev: "ValidateReady ready r (pl_source_offsets plan) source la =
     (case ready_extent ready r (ucast ?rows) la of None \<Rightarrow> fail kStatusSizeOverflow
      | Some (expected_bytes, slot_base, slot_end, payload_end) \<Rightarrow>
        if crd_row_count ready \<noteq> ?rows \<or> crd_payload_bytes ready \<noteq> expected_bytes \<or>
           crd_source_offset ready mod ucast (crg_alignment r) \<noteq> 0 \<or> crd_source_offset ready < slot_base \<or>
           payload_end > slot_end \<or> payload_end > crg_region_bytes r
        then fail kStatusCapacityExceeded else Inr ())"
    using True s assms(2) rows ucast_u16_u32(1) [of "pl_ring_slot plan"]
    by (simp add: ValidateReady_def ready_fields_host [OF assms(2) wc assms(3)] launch_of_def s1 Let_def ucast_u32_eq
        cong: option.case_cong prod.case_cong)
  have host: "ValidateCombineReady ready r config plan =
     (if crd_row_count ready \<noteq> ?rows then fail INVALID_READY
      else case ready_range ready r config of None \<Rightarrow> fail SIZE_OVERFLOW
      | Some (expected_payload, slot_base, slot_end, payload_end) \<Rightarrow>
        if crd_payload_bytes ready \<noteq> expected_payload \<or>
           crd_source_offset ready mod ucast (crg_alignment r) \<noteq> 0 \<or> crd_source_offset ready < slot_base \<or>
           payload_end > slot_end \<or> payload_end > crg_region_bytes r
        then fail CAPACITY_EXCEEDED else Inr ())"
    using True s rows reg by (simp add: ValidateCombineReady_def)
  show ?thesis
  proof (cases "crd_row_count ready = ?rows")
    case False
    then show ?thesis unfolding dev host by (auto split: option.splits)
  next
    case same: True
    show ?thesis
      unfolding dev host using ready_extent_host [OF assms(2), of ready "ucast ?rows" r] True same
      by (auto split: option.splits)
  qed
qed

end
