(* ===== verification/Combine_Kernel.thy ===== *)
theory Combine_Kernel
  imports Combine_Device
begin

text \<open>
  The first half of the combine kernel on the INC (\<open>inc_dc_pull_combine_v2_device_kernel.cpp\<close>): block zero
  checks the launch, the journal header, the registrations and the totals of the tables, then all blocks
  check their share of the sealed plan. A table is a list of what its memory holds, so that a read behind it
  shows; \<open>fail\<close> is a failure written to the status word. The strided loops of the validation count in words,
  64 bits wide for the pulls and 32 bits for the accumulators: with more than \<open>2\<^sup>3\<^sup>2 - blocks\<close> accumulators
  the counter wraps, and a loop that does not end is \<open>Hang\<close>. Cache maintenance and pipe barriers have
  no effect in the model; the phases are separated by the barrier of all blocks.
\<close>

section \<open>Model\<close>

definition kTileElements :: u32 where "kTileElements = 2048"
definition kTileElementShift :: nat where "kTileElementShift = 11"
definition kInvalidIndex :: u32 where "kInvalidIndex = NOT 0"

record combine_tables =
  ct_source_offsets :: "u64 list"
  ct_pulls :: "CombinePullOp list"
  ct_owner_offsets :: "u64 list"
  ct_results :: "CombineResultOp list"
  ct_pull_next :: "u32 list"
  ct_heads :: "u32 list"
  ct_counts :: "u32 list"
  ct_result_index :: "u32 list"

definition tiles_per_row :: "combine_launch \<Rightarrow> u64" where
  "tiles_per_row la =
     (if la_hidden la = 0 then 0 else (ucast (la_hidden la) + ucast kTileElements - 1) div ucast kTileElements)"

text \<open>The row bytes, the offset of the output slot and the number of tasks of a valid launch.\<close>

definition launch_valid :: "u32 \<Rightarrow> combine_launch \<Rightarrow> (u64 \<times> u64 \<times> u64) option" where
  "launch_valid blocks la =
     (if blocks \<noteq> 0 \<and> la_worker_count la \<ge> 2 \<and>
         la_worker_count la \<le> kPullDispatchMaxWorkers \<and>
         la_inc_pe la = la_worker_count la \<and>
         la_session_id la \<noteq> 0 \<and> la_placement_epoch la \<noteq> 0 \<and> la_generation la \<noteq> 0 \<and>
         la_sequence la \<noteq> 0 \<and> la_dispatch_cookie la \<noteq> 0 \<and> la_hidden la \<noteq> 0 \<and>
         la_partial_dtype la = FP32 \<and>
         la_ring_slot la < la_slot_count la \<and> la_slot_count la \<noteq> 0 \<and> la_spin_cap la \<noteq> 0 \<and>
         la_pull_count la \<le> 0xffffffff \<and> la_result_count la \<le> 0xffffffff \<and>
         la_result_count la = ucast (la_accumulator_count la) \<and>
         la_pull_count la \<le> la_pull_index_capacity la \<and>
         ucast (la_accumulator_count la) \<le> la_accumulator_index_capacity la \<and>
         ucast (la_worker_count la) \<le> la_source_scratch_capacity la
      then do {
        row_bytes \<leftarrow> CheckedMulU64ByU32 4 (la_hidden la);
        output_slot_offset \<leftarrow> CheckedMulU64ByU32 (la_owner_output_slot_stride la) (la_ring_slot la);
        total_tasks \<leftarrow> CheckedMulU64ByU32 (tiles_per_row la) (la_accumulator_count la);
        Some (row_bytes, output_slot_offset, total_tasks)
      }
      else None)"

definition journal_identity :: "JournalSlotHeader \<Rightarrow> combine_launch \<Rightarrow> bool" where
  "journal_identity h la \<longleftrightarrow>
     jh_magic h = kPullDispatchMagic \<and>
     jh_abi_version h = kPullDispatchAbiVersion \<and>
     jh_struct_bytes h = of_nat sizeof_JournalSlotHeader \<and>
     jh_generation h = la_generation la \<and>
     jh_sequence h = la_sequence la \<and>
     jh_dispatch_cookie h = la_dispatch_cookie la \<and>
     jh_wave h = la_wave la \<and> ucast (jh_ring_slot h) = la_ring_slot la \<and>
     jh_state h = state_code DISPATCH_SEALED \<and>
     jh_token_count h = la_accumulator_count la \<and>
     ucast (jh_contributor_count h) = la_pull_count la \<and>
     jh_status h = 0 \<and>
     jh_flags h AND NOT kJournalFlagDenseAllDestinations = 0 \<and>
     jh_reserved h = 0"

definition check_registration ::
  "CombineRegionRegistration list \<Rightarrow> combine_launch \<Rightarrow> nat \<Rightarrow> unit \<Rightarrow> (u32, unit) res" where
  "check_registration registrations la source _ =
     rbind (vget registrations source) (\<lambda>registration.
       if \<not> RegistrationValid registration (of_nat source) la then fail kStatusInvalidRegistration
       else Inr ())"

definition check_totals :: "combine_tables \<Rightarrow> combine_launch \<Rightarrow> (u32, unit) res" where
  "check_totals T la =
     rbind (vget (ct_source_offsets T) 0) (\<lambda>first.
     if first \<noteq> 0 then fail kStatusInvalidJournal else
     rbind (vget (ct_source_offsets T) (unat (la_worker_count la))) (\<lambda>last.
     if last \<noteq> la_pull_count la then fail kStatusInvalidJournal else
     rbind (vget (ct_owner_offsets T) 0) (\<lambda>first.
     if first \<noteq> 0 then fail kStatusInvalidJournal else
     rbind (vget (ct_owner_offsets T) (unat (la_worker_count la))) (\<lambda>last.
     if last \<noteq> la_result_count la then fail kStatusInvalidJournal else Inr ()))))"

fun count_accumulator ::
  "combine_tables \<Rightarrow> combine_launch \<Rightarrow> nat \<Rightarrow> u64 \<times> bool \<Rightarrow> (u32, u64 \<times> bool) res" where
  "count_accumulator T la accumulator (indexed_pulls, all_two_contributors) =
     rbind (vget (ct_counts T) accumulator) (\<lambda>count.
       if count > la_worker_count la then fail kStatusInvalidJournal
       else case AddU64 indexed_pulls (ucast count) of
         None \<Rightarrow> fail kStatusInvalidJournal
       | Some indexed_pulls \<Rightarrow>
         if indexed_pulls > la_pull_count la then fail kStatusInvalidJournal
         else Inr (indexed_pulls, all_two_contributors \<and> count = 2))"

definition owner_extent ::
  "combine_tables \<Rightarrow> u64 \<Rightarrow> nat \<Rightarrow> u64 \<Rightarrow> (u32, u64) res" where
  "owner_extent T row_bytes owner maximum_owner_bytes =
     rbind (vget (ct_source_offsets T) owner) (\<lambda>source_begin.
     rbind (vget (ct_source_offsets T) (owner + 1)) (\<lambda>source_end.
     if source_begin > source_end then fail kStatusInvalidJournal else
     rbind (vget (ct_owner_offsets T) owner) (\<lambda>owner_begin.
     rbind (vget (ct_owner_offsets T) (owner + 1)) (\<lambda>owner_end.
     if owner_begin > owner_end then fail kStatusInvalidJournal else
     (let owner_rows = owner_end - owner_begin in
      if owner_rows > 0xffffffff then fail kStatusSizeOverflow
      else case CheckedMulU64ByU32 row_bytes (ucast owner_rows) of
        None \<Rightarrow> fail kStatusSizeOverflow
      | Some owner_bytes \<Rightarrow> Inr (if owner_bytes > maximum_owner_bytes then owner_bytes else maximum_owner_bytes))))))"

text \<open>
  Block zero: a valid launch of the sealed journal activates it, whatever the later checks say. The result is
  whether every accumulator has two contributors, with the numbers of the launch.
\<close>

definition init_header :: "u32 \<Rightarrow> combine_launch \<Rightarrow> JournalSlotHeader \<Rightarrow> JournalSlotHeader" where
  "init_header blocks la h =
     (if launch_valid blocks la \<noteq> None \<and> journal_identity h la
      then h\<lparr>jh_state := state_code COMBINE_ACTIVE\<rparr> else h)"

definition init_block ::
  "u32 \<Rightarrow> combine_launch \<Rightarrow> combine_tables \<Rightarrow> CombineRegionRegistration list \<Rightarrow> JournalSlotHeader \<Rightarrow>
     (u32, bool \<times> u64 \<times> u64 \<times> u64) res" where
  "init_block blocks la T registrations h =
     (case launch_valid blocks la of
        None \<Rightarrow> fail kStatusInvalidArgument
      | Some (row_bytes, output_slot_offset, total_tasks) \<Rightarrow>
        if \<not> journal_identity h la then fail kStatusInvalidJournal else
        (let W = unat (la_worker_count la); A = unat (la_accumulator_count la) in
         rbind (mfold (check_registration registrations la) [0..<W] ()) (\<lambda>_.
         rbind (check_totals T la) (\<lambda>_.
         rbind (mfold (count_accumulator T la) [0..<A] (0, A \<noteq> 0)) (\<lambda>(indexed_pulls, all_two).
         if indexed_pulls \<noteq> la_pull_count la then fail kStatusInvalidJournal else
         rbind (mfold (owner_extent T row_bytes) [0..<W] 0) (\<lambda>maximum_owner_bytes.
         if maximum_owner_bytes > la_owner_output_slot_stride la then fail kStatusCapacityExceeded
         else Inr (all_two, row_bytes, output_slot_offset, total_tasks)))))))"

subsection \<open>The distributed validation\<close>

text \<open>
  The loop \<open>for (i = block; i < n; i += blocks)\<close> of one block on a counter that wraps, up to the first failure of
  its body; a loop that runs for ever is \<open>Hang\<close>.
\<close>

partial_function (option) strided_loop ::
  "(nat \<Rightarrow> unit \<Rightarrow> (u32, unit) res) \<Rightarrow> 'w::len word \<Rightarrow> 'w word \<Rightarrow> 'w word \<Rightarrow> (u32, unit) res option" where
  "strided_loop body blocks n i =
     (if i < n then if isl (body (unat i) ()) then Some (body (unat i) ()) else strided_loop body blocks n (i + blocks)
      else Some (Inr ()))"

declare strided_loop.simps [code]

definition run_strided ::
  "(nat \<Rightarrow> unit \<Rightarrow> (u32, unit) res) \<Rightarrow> 'w::len word \<Rightarrow> 'w word \<Rightarrow> 'w word \<Rightarrow> (u32, unit) res" where
  "run_strided body blocks n i = (case strided_loop body blocks n i of None \<Rightarrow> Inl Hang | Some m \<Rightarrow> m)"

text \<open>
  The indices such a loop visits when its counter does not wrap. Without a block the loop would not end; a
  launch has at least one.
\<close>

function strided :: "nat \<Rightarrow> nat \<Rightarrow> nat \<Rightarrow> nat list" where
  "strided i blocks n = (if i < n \<and> 0 < blocks then i # strided (i + blocks) blocks n else [])"
  by pat_completeness auto
termination by (relation "measure (\<lambda>(i, blocks, n). n - i)") auto

declare strided.simps [simp del]

definition SeenSource :: "u64 \<Rightarrow> u64 \<Rightarrow> u32 \<Rightarrow> bool" where
  "SeenSource low high source =
     (let bit = push_bit (unat (source AND 63)) 1
      in if source < 64 then low AND bit \<noteq> 0 else high AND bit \<noteq> 0)"

definition MarkSource :: "u64 \<times> u64 \<Rightarrow> u32 \<Rightarrow> u64 \<times> u64" where
  "MarkSource seen source =
     (let bit = push_bit (unat (source AND 63)) 1
      in if source < 64 then (fst seen OR bit, snd seen) else (fst seen, snd seen OR bit))"

definition check_pull :: "combine_tables \<Rightarrow> combine_launch \<Rightarrow> nat \<Rightarrow> unit \<Rightarrow> (u32, unit) res" where
  "check_pull T la index _ =
     rbind (vget (ct_pulls T) index) (\<lambda>p.
     rbind (vget (ct_pull_next T) index) (\<lambda>successor.
     if po_source_rank p \<ge> la_worker_count la \<or>
        po_accumulator_index p \<ge> la_accumulator_count la \<or>
        po_journal_token p \<ge> la_accumulator_count la
     then fail kStatusInvalidJournal else
     rbind (vget (ct_source_offsets T) (unat (po_source_rank p))) (\<lambda>source_begin.
     if of_nat index < source_begin then fail kStatusInvalidJournal else
     rbind (vget (ct_source_offsets T) (unat (po_source_rank p + 1))) (\<lambda>source_end.
     if of_nat index \<ge> source_end \<or> ucast (po_source_row p) \<noteq> of_nat index - source_begin
     then fail kStatusInvalidJournal
     else if successor = kInvalidIndex then Inr ()
     else if successor \<le> of_nat index \<or> ucast successor \<ge> la_pull_count la
     then fail kStatusInvalidJournal
     else rbind (vget (ct_pulls T) (unat successor)) (\<lambda>q.
       if po_accumulator_index q \<noteq> po_accumulator_index p then fail kStatusInvalidJournal
       else Inr ())))))"

text \<open>The walk of one chain; the first number counts down from the expected contributors.\<close>

fun check_chain ::
  "nat \<Rightarrow> combine_tables \<Rightarrow> combine_launch \<Rightarrow> nat \<Rightarrow> u32 \<Rightarrow> u64 \<times> u64 \<Rightarrow> u32 \<Rightarrow> (u32, unit) res" where
  "check_chain 0 T la accumulator token seen current =
     (if current \<noteq> kInvalidIndex then fail kStatusInvalidJournal else Inr ())"
| "check_chain (Suc remaining) T la accumulator token seen current =
     (if current = kInvalidIndex \<or> ucast current \<ge> la_pull_count la then fail kStatusInvalidJournal
      else rbind (vget (ct_pulls T) (unat current)) (\<lambda>p.
        if po_accumulator_index p \<noteq> of_nat accumulator \<or> po_journal_token p \<noteq> token \<or>
           SeenSource (fst seen) (snd seen) (po_source_rank p)
        then fail kStatusInvalidJournal
        else rbind (vget (ct_pull_next T) (unat current))
          (check_chain remaining T la accumulator token (MarkSource seen (po_source_rank p)))))"

definition check_accumulator :: "combine_tables \<Rightarrow> combine_launch \<Rightarrow> nat \<Rightarrow> unit \<Rightarrow> (u32, unit) res" where
  "check_accumulator T la accumulator _ =
     rbind (vget (ct_counts T) accumulator) (\<lambda>expected.
     rbind (vget (ct_result_index T) accumulator) (\<lambda>result.
     if ucast result \<ge> la_result_count la then fail kStatusInvalidJournal else
     rbind (vget (ct_results T) (unat result)) (\<lambda>r.
     if ro_accumulator_index r \<noteq> of_nat accumulator \<or>
        ro_journal_token r \<ge> la_accumulator_count la \<or>
        ro_expected_contributors r \<noteq> expected \<or>
        ro_owner_rank r \<ge> la_worker_count la
     then fail kStatusInvalidJournal else
     rbind (vget (ct_owner_offsets T) (unat (ro_owner_rank r))) (\<lambda>owner_begin.
     if ucast result < owner_begin then fail kStatusInvalidJournal else
     rbind (vget (ct_owner_offsets T) (unat (ro_owner_rank r + 1))) (\<lambda>owner_end.
     if ucast result \<ge> owner_end \<or> ucast (ro_owner_row r) \<noteq> ucast result - owner_begin \<or>
        ro_reserved r \<noteq> (0, 0, 0)
     then fail kStatusInvalidJournal else
     rbind (vget (ct_heads T) accumulator) (\<lambda>head.
       check_chain (unat expected) T la accumulator (ro_journal_token r) (0, 0) head))))))"

text \<open>
  Both parts run whatever the other does: a failure is remembered in the status word, the first one stays.
\<close>

definition both :: "(u32, unit) res \<Rightarrow> (u32, unit) res \<Rightarrow> (u32, unit) res" where
  "both m1 m2 =
     (case m1 of Inr _ \<Rightarrow> m2
      | Inl (Ret e) \<Rightarrow> (case m2 of Inr _ \<Rightarrow> m1 | Inl (Ret _) \<Rightarrow> m1 | Inl f \<Rightarrow> Inl f)
      | Inl f \<Rightarrow> Inl f)"

definition validate_block :: "u32 \<Rightarrow> combine_launch \<Rightarrow> combine_tables \<Rightarrow> u32 \<Rightarrow> (u32, unit) res" where
  "validate_block blocks la T block =
     both (run_strided (check_pull T la) (ucast blocks :: u64) (la_pull_count la) (ucast block))
          (run_strided (check_accumulator T la) blocks (la_accumulator_count la) block)"

definition validate_plan :: "u32 \<Rightarrow> combine_launch \<Rightarrow> combine_tables \<Rightarrow> (u32, unit) res" where
  "validate_plan blocks la T =
     fold (\<lambda>block m. both m (validate_block blocks la T (of_nat block))) [0..<unat blocks] (Inr ())"

section \<open>Strided loops\<close>

lemma set_strided: "0 < blocks \<Longrightarrow> set (strided i blocks n) = {j. i \<le> j \<and> j < n \<and> j mod blocks = i mod blocks}"
proof (induction i blocks n rule: strided.induct)
  case (1 i blocks n)
  show ?case
  proof (cases "i < n")
    case True
    have "set (strided i blocks n) = insert i {j. i + blocks \<le> j \<and> j < n \<and> j mod blocks = i mod blocks}"
      using 1 True by (subst strided.simps) simp
    moreover have "i + blocks \<le> j" if "i < j" "j mod blocks = i mod blocks" for j
    proof -
      have "blocks dvd j - i" using that by (metis mod_eq_dvd_iff_nat nat_less_le)
      then show ?thesis using that(1) by (auto dest: dvd_imp_le)
    qed
    ultimately show ?thesis using True by (auto simp: nat_less_le)
  qed (use 1 in \<open>auto simp: strided.simps\<close>)
qed

text \<open>The blocks together visit every index.\<close>

lemma strided_blocks: "0 < blocks \<Longrightarrow> (\<Union>block \<in> {0..<blocks}. set (strided block blocks n)) = {0..<n}"
proof -
  assume b: "0 < blocks"
  have "i \<in> (\<Union>block \<in> {0..<blocks}. set (strided block blocks n))" if "i < n" for i
    using b that by (intro UN_I [of "i mod blocks"]) (auto simp: set_strided)
  then show ?thesis using b by (auto simp: set_strided)
qed

lemma mfold_unit: "mfold f xs () = Inr () \<longleftrightarrow> (\<forall>x \<in> set xs. f x () = Inr ())"
  by (induction xs) (auto simp: vec_eqs)

lemma both_Inr: "both m1 m2 = Inr () \<longleftrightarrow> m1 = Inr () \<and> m2 = Inr ()"
  by (cases m1; cases m2) (auto simp: both_def split: fault.splits)

lemma fold_both: "fold (\<lambda>b m. both m (f b)) bs m0 = Inr () \<longleftrightarrow> m0 = Inr () \<and> (\<forall>b \<in> set bs. f b = Inr ())"
  by (induction bs arbitrary: m0) (auto simp: both_Inr)

text \<open>The loop on words does what the list of indices says, unless its counter wraps.\<close>

lemma run_strided_eq:
  fixes blocks n i :: "'w::len word"
  assumes "0 < unat blocks" "unat n + unat blocks \<le> 2 ^ LENGTH('w)"
  shows "run_strided body blocks n i = mfold body (strided (unat i) (unat blocks) (unat n)) ()"
proof (induction "unat i" "unat blocks" "unat n" arbitrary: i rule: strided.induct)
  case 1
  show ?case
  proof (cases "i < n")
    case True
    then have lt: "unat i < unat n" by (simp add: word_less_nat_alt)
    then have "unat (i + blocks) = unat i + unat blocks"
      using assms(2) by (simp add: unat_add_lem [THEN iffD1])
    then show ?thesis
      using 1 True lt assms(1)
      by (cases "body (unat i) ()") (simp_all add: run_strided_def strided_loop.simps [of body blocks n i]
          strided.simps [of "unat i"])
  next
    case False
    then have "\<not> unat i < unat n" by (simp add: word_less_nat_alt)
    then show ?thesis
      using False by (simp add: run_strided_def strided_loop.simps [of body blocks n i] strided.simps [of "unat i"])
  qed
qed

text \<open>Also with a counter that wraps, a loop that ends well has visited all these indices.\<close>

lemma run_strided_visits:
  fixes blocks n i :: "'w::len word"
  assumes "run_strided body blocks n i = Inr ()" "j \<in> set (strided (unat i) (unat blocks) (unat n))"
  shows "body j () = Inr ()"
  using assms
proof (induction "unat i" "unat blocks" "unat n" arbitrary: i rule: strided.induct)
  case 1
  from "1.prems"(2) have lt: "unat i < unat n" "0 < unat blocks"
    and j: "j = unat i \<or> j \<in> set (strided (unat i + unat blocks) (unat blocks) (unat n))"
    by (subst (asm) strided.simps, simp split: if_splits)+
  have i: "body (unat i) () = Inr ()" "run_strided body blocks n (i + blocks) = Inr ()"
    using "1.prems"(1) lt
    by (cases "body (unat i) ()"; simp add: run_strided_def strided_loop.simps [of body blocks n i] word_less_nat_alt)+
  show ?case
  proof (cases "unat i + unat blocks < 2 ^ LENGTH('w)")
    case True
    then have "unat (i + blocks) = unat i + unat blocks" by (simp add: unat_add_lem [THEN iffD1])
    then show ?thesis using 1 i j lt by metis
  next
    case False
    then have "\<not> unat i + unat blocks < unat n" using unsigned_less [of n, where 'a = nat] by linarith
    then show ?thesis using i j by (simp add: strided.simps [of "unat i + unat blocks"])
  qed
qed

lemma strided_loop_rule:
  fixes blocks n i :: "'w::len word"
  assumes run: "strided_loop body blocks n i = Some m" and start: "keeps i"
    and step: "\<And>i. keeps i \<Longrightarrow> i < n \<Longrightarrow> body (unat i) () = Inr () \<Longrightarrow> keeps (i + blocks)"
    and stop: "\<And>i. keeps i \<Longrightarrow> \<not> i < n \<Longrightarrow> Q (Inr ())"
    and abort: "\<And>i f. keeps i \<Longrightarrow> i < n \<Longrightarrow> body (unat i) () = Inl f \<Longrightarrow> Q (Inl f)"
  shows "Q m"
proof -
  have "b = body \<and> s = blocks \<and> k = n \<and> keeps i \<longrightarrow> Q m" if "strided_loop b s k i = Some m" for b s k i m
  proof (rule strided_loop.raw_induct [where P = "\<lambda>b s k i m. b = body \<and> s = blocks \<and> k = n \<and> keeps i \<longrightarrow> Q m", OF _ that])
    fix loop b s k i m
    assume IH: "\<And>b s k i m. loop b s k i = Some m \<Longrightarrow> b = body \<and> s = blocks \<and> k = n \<and> keeps i \<longrightarrow> Q m"
      and eq: "(if i < k then if isl (b (unat i) ()) then Some (b (unat i) ()) else loop b s k (i + s)
        else Some (Inr ())) = Some m"
    show "b = body \<and> s = blocks \<and> k = n \<and> keeps i \<longrightarrow> Q m"
    proof
      assume b: "b = body \<and> s = blocks \<and> k = n \<and> keeps i"
      show "Q m"
      proof (cases "i < n")
        case True
        then show ?thesis
          using eq b IH [of b s k "i + s" m] step [of i] abort [of i] by (cases "body (unat i) ()") auto
      next
        case False
        then show ?thesis using eq b stop [of i] by auto
      qed
    qed
  qed
  then show ?thesis using run start by blast
qed

lemma run_strided_inside:
  fixes blocks n i :: "'w::len word"
  assumes "\<And>j. j < unat n \<Longrightarrow> body j () \<noteq> Inl Oob"
  shows "run_strided body blocks n i \<noteq> Inl Oob"
proof (cases "strided_loop body blocks n i")
  case (Some m)
  have "m \<noteq> Inl Oob"
    by (rule strided_loop_rule [OF Some, of "\<lambda>_. True"]) (use assms in \<open>auto simp: word_less_nat_alt\<close>)
  then show ?thesis by (simp add: run_strided_def Some)
qed (simp add: run_strided_def)

text \<open>A counter that comes back to its start for ever: two blocks and \<open>2\<^sup>3\<^sup>2 - 1\<close> accumulators.\<close>

lemma strided_loop_wraps:
  assumes ok: "\<And>j. body j () = Inr ()"
  shows "run_strided body (2 :: u32) 0xFFFFFFFF 0 = Inl Hang"
proof (cases "strided_loop body (2 :: u32) 0xFFFFFFFF 0")
  case (Some m)
  have False
  proof (rule strided_loop_rule [OF Some, of "\<lambda>i. even (unat i)" "\<lambda>_. False"])
    show "even (unat (i + 2))" if "even (unat i)" for i :: u32
      using that by (simp add: unat_word_ariths dvd_mod_iff)
    show False if "even (unat i)" "\<not> i < 0xFFFFFFFF" for i :: u32
    proof -
      have "unat i = 4294967295"
        using that(2) unsigned_less [of i, where 'a = nat] by (simp add: word_less_nat_alt)
      then show False using that(1) by simp
    qed
  qed (simp_all add: ok)
  then show ?thesis ..
qed (simp add: run_strided_def)

text \<open>The plan is accepted when every pull and every accumulator is, and only then.\<close>

lemma block_words:
  assumes "b < unat (blocks :: u32)"
  shows "unat (of_nat b :: u32) = b" "unat (ucast (of_nat b :: u32) :: u64) = b"
  using assms unsigned_less [of blocks, where 'a = nat] by (simp_all add: unat_of_nat_u32 unat_ucast_u64)

lemma all_strided:
  assumes "0 < blocks"
  shows "(\<forall>b < blocks. \<forall>i \<in> set (strided b blocks n). P i) \<longleftrightarrow> (\<forall>i < n. P i)"
proof -
  have "(\<forall>b < blocks. \<forall>i \<in> set (strided b blocks n). P i) \<longleftrightarrow>
      (\<forall>i \<in> (\<Union>b \<in> {0..<blocks}. set (strided b blocks n)). P i)" by auto
  then show ?thesis by (auto simp: strided_blocks [OF assms])
qed

lemma validate_plan_all:
  assumes "0 < unat blocks" "unat (la_accumulator_count la) + unat blocks \<le> 2 ^ 32" "unat (la_pull_count la) < 2 ^ 32"
    and "\<forall>i < unat (la_pull_count la). check_pull T la i () = Inr ()"
    and "\<forall>a < unat (la_accumulator_count la). check_accumulator T la a () = Inr ()"
  shows "validate_plan blocks la T = Inr ()"
proof -
  have "unat (la_pull_count la) + unat blocks \<le> 2 ^ 64"
    using assms(3) unsigned_less [of blocks, where 'a = nat] by simp
  then have "validate_block blocks la T (of_nat b) = Inr ()" if "b < unat blocks" for b
    using assms that all_strided [OF assms(1), of "unat (la_pull_count la)" "\<lambda>i. check_pull T la i () = Inr ()"]
      all_strided [OF assms(1), of "unat (la_accumulator_count la)" "\<lambda>a. check_accumulator T la a () = Inr ()"]
    by (simp add: validate_block_def both_Inr run_strided_eq mfold_unit block_words [OF that] unat_ucast_u64)
  then show ?thesis by (simp add: validate_plan_def fold_both)
qed

lemma validate_plan_checks:
  assumes "0 < unat blocks" "validate_plan blocks la T = Inr ()"
  shows "\<forall>i < unat (la_pull_count la). check_pull T la i () = Inr ()"
    and "\<forall>a < unat (la_accumulator_count la). check_accumulator T la a () = Inr ()"
proof -
  have run: "run_strided (check_pull T la) (ucast blocks :: u64) (la_pull_count la) (ucast (of_nat b :: u32)) = Inr ()"
    "run_strided (check_accumulator T la) blocks (la_accumulator_count la) (of_nat b) = Inr ()" if "b < unat blocks" for b
    using assms(2) that by (simp_all add: validate_plan_def validate_block_def fold_both both_Inr)
  have "check_pull T la i () = Inr ()" if "b < unat blocks" "i \<in> set (strided b (unat blocks) (unat (la_pull_count la)))" for b i
    by (rule run_strided_visits [OF run(1) [OF that(1)]]) (use that block_words [OF that(1)] in \<open>simp add: unat_ucast_u64\<close>)
  then show "\<forall>i < unat (la_pull_count la). check_pull T la i () = Inr ()"
    using all_strided [OF assms(1), of "unat (la_pull_count la)" "\<lambda>i. check_pull T la i () = Inr ()"] by blast
  have "check_accumulator T la a () = Inr ()"
    if "b < unat blocks" "a \<in> set (strided b (unat blocks) (unat (la_accumulator_count la)))" for b a
    by (rule run_strided_visits [OF run(2) [OF that(1)]]) (use that block_words [OF that(1)] in simp)
  then show "\<forall>a < unat (la_accumulator_count la). check_accumulator T la a () = Inr ()"
    using all_strided [OF assms(1), of "unat (la_accumulator_count la)" "\<lambda>a. check_accumulator T la a () = Inr ()"] by blast
qed

section \<open>The set of seen sources\<close>

definition seen_set :: "u64 \<times> u64 \<Rightarrow> nat set" where
  "seen_set seen = {s. s < 64 \<and> bit (fst seen) s \<or> 64 \<le> s \<and> s < 128 \<and> bit (snd seen) (s - 64)}"

lemma seen_set_empty: "seen_set (0, 0) = {}"
  by (simp add: seen_set_def)

lemma seen_bit:
  assumes "unat (s :: u32) < 128"
  shows "unat (s AND 63) = (if unat s < 64 then unat s else unat s - 64)"
proof -
  have "s AND 63 = take_bit 6 s" by (simp add: take_bit_eq_mask mask_eq_exp_minus_1)
  then have "unat (s AND 63) = unat s mod 64" by (simp add: take_bit_eq_mod unat_mod)
  then show ?thesis using assms by (simp add: mod_if)
qed

lemma and_bit: "(w :: u64) AND push_bit n 1 \<noteq> 0 \<longleftrightarrow> n < 64 \<and> bit w n"
proof (cases "n < 64 \<and> bit w n")
  case True
  then have "bit (w AND push_bit n 1) n" by (simp add: bit_and_iff bit_push_bit_iff del: push_bit_of_1)
  then show ?thesis using True by (metis bit_0_eq bot_apply bot_bool_def)
next
  case False
  have "w AND push_bit n 1 = 0"
    by (rule bit_word_eqI) (use False in \<open>auto simp: bit_and_iff bit_push_bit_iff bit_1_iff le_less simp del: push_bit_of_1\<close>)
  then show ?thesis using False by simp
qed

lemma SeenSource_iff:
  assumes "unat s < 128"
  shows "SeenSource (fst seen) (snd seen) s \<longleftrightarrow> unat s \<in> seen_set seen"
proof -
  have "(s < 64) = (unat s < 64)" by (simp add: word_less_nat_alt)
  then show ?thesis
    using assms by (auto simp: SeenSource_def seen_set_def Let_def seen_bit [OF assms] and_bit simp del: push_bit_of_1)
qed

lemma MarkSource_set:
  assumes "unat s < 128"
  shows "seen_set (MarkSource seen s) = insert (unat s) (seen_set seen)"
proof -
  have "(s < 64) = (unat s < 64)" by (simp add: word_less_nat_alt)
  then show ?thesis
    using assms by (auto simp: MarkSource_def seen_set_def Let_def seen_bit [OF assms] bit_or_iff bit_push_bit_iff bit_1_iff
        simp del: push_bit_of_1)
qed

section \<open>What the checks say\<close>

lemma kInvalidIndex_eq: "kInvalidIndex = invalid_index"
  by (simp add: kInvalidIndex_def invalid_index_def)

definition in_chain :: "combine_tables \<Rightarrow> combine_launch \<Rightarrow> nat \<Rightarrow> u32 \<Rightarrow> nat \<Rightarrow> bool" where
  "in_chain T la accumulator token i \<longleftrightarrow> i < unat (la_pull_count la) \<and> i < length (ct_pulls T) \<and>
     po_accumulator_index (ct_pulls T ! i) = of_nat accumulator \<and> po_journal_token (ct_pulls T ! i) = token"

lemma check_chain_iff:
  assumes src: "\<forall>i < unat (la_pull_count la). i < length (ct_pulls T) \<longrightarrow> unat (po_source_rank (ct_pulls T ! i)) < 128"
  shows "check_chain n T la a token seen current = Inr () \<longleftrightarrow>
    (\<exists>xs. length xs = n \<and> chain (ct_pull_next T) current xs \<and> (\<forall>i \<in> set xs. in_chain T la a token i) \<and>
      distinct (map (\<lambda>i. po_source_rank (ct_pulls T ! i)) xs) \<and>
      (\<forall>i \<in> set xs. unat (po_source_rank (ct_pulls T ! i)) \<notin> seen_set seen))"
proof (induction n arbitrary: seen current)
  case 0
  then show ?case by (simp add: kInvalidIndex_eq)
next
  case (Suc n)
  let ?i = "unat current"
  have lt: "ucast current < la_pull_count la \<longleftrightarrow> ?i < unat (la_pull_count la)"
    by (simp add: word_less_nat_alt unat_ucast_u64)
  show ?case
  proof (cases "current \<noteq> invalid_index \<and> in_chain T la a token ?i \<and> ?i < length (ct_pull_next T) \<and>
      unat (po_source_rank (ct_pulls T ! ?i)) \<notin> seen_set seen")
    case False
    then have "check_chain (Suc n) T la a token seen current \<noteq> Inr ()"
      using src SeenSource_iff [of "po_source_rank (ct_pulls T ! ?i)" seen]
      by (auto simp: kInvalidIndex_eq in_chain_def vec_eqs not_le lt)
    moreover have "\<not> (length xs = Suc n \<and> chain (ct_pull_next T) current xs \<and> (\<forall>i \<in> set xs. in_chain T la a token i) \<and>
        (\<forall>i \<in> set xs. unat (po_source_rank (ct_pulls T ! i)) \<notin> seen_set seen))" for xs
      using False by (cases xs) auto
    ultimately show ?thesis by blast
  next
    case True
    let ?s = "po_source_rank (ct_pulls T ! ?i)"
    have s: "unat ?s < 128" using src True by (simp add: in_chain_def)
    have step: "check_chain (Suc n) T la a token seen current =
        check_chain n T la a token (MarkSource seen ?s) (ct_pull_next T ! ?i)"
      using True SeenSource_iff [OF s, of seen] by (simp add: kInvalidIndex_eq in_chain_def lt flip: not_less)
    show ?thesis unfolding step Suc.IH
    proof (intro iffI; elim exE conjE)
      fix xs assume xs: "length xs = n" "chain (ct_pull_next T) (ct_pull_next T ! ?i) xs"
        "\<forall>i \<in> set xs. in_chain T la a token i" "distinct (map (\<lambda>i. po_source_rank (ct_pulls T ! i)) xs)"
        "\<forall>i \<in> set xs. unat (po_source_rank (ct_pulls T ! i)) \<notin> seen_set (MarkSource seen ?s)"
      then have "?s \<notin> (\<lambda>i. po_source_rank (ct_pulls T ! i)) ` set xs" by (auto simp: MarkSource_set [OF s])
      then show "\<exists>xs. length xs = Suc n \<and> chain (ct_pull_next T) current xs \<and> (\<forall>i \<in> set xs. in_chain T la a token i) \<and>
          distinct (map (\<lambda>i. po_source_rank (ct_pulls T ! i)) xs) \<and>
          (\<forall>i \<in> set xs. unat (po_source_rank (ct_pulls T ! i)) \<notin> seen_set seen)"
        using xs True by (intro exI [of _ "?i # xs"]) (auto simp: MarkSource_set [OF s])
    next
      fix ys assume ys: "length ys = Suc n" "chain (ct_pull_next T) current ys"
        "\<forall>i \<in> set ys. in_chain T la a token i" "distinct (map (\<lambda>i. po_source_rank (ct_pulls T ! i)) ys)"
        "\<forall>i \<in> set ys. unat (po_source_rank (ct_pulls T ! i)) \<notin> seen_set seen"
      then obtain xs where y: "ys = ?i # xs" by (cases ys) auto
      have "unat (po_source_rank (ct_pulls T ! i)) \<noteq> unat ?s" if "i \<in> set xs" for i
        using ys(4) that by (auto simp: y word_unat_eq_iff image_iff)
      then show "\<exists>xs. length xs = n \<and> chain (ct_pull_next T) (ct_pull_next T ! ?i) xs \<and> (\<forall>i \<in> set xs. in_chain T la a token i) \<and>
          distinct (map (\<lambda>i. po_source_rank (ct_pulls T ! i)) xs) \<and>
          (\<forall>i \<in> set xs. unat (po_source_rank (ct_pulls T ! i)) \<notin> seen_set (MarkSource seen ?s))"
        using ys by (intro exI [of _ xs]) (auto simp: y MarkSource_set [OF s])
    qed
  qed
qed

text \<open>
  The tables a launch may use: offsets that cut the pulls and the results into the rows of the workers,
  pulls and results at the places their worker and row name, and for every accumulator the chain of exactly
  its pulls in increasing order, from different workers, with the result of its token.
\<close>

definition offsets_ok :: "u64 list \<Rightarrow> nat \<Rightarrow> nat \<Rightarrow> bool" where
  "offsets_ok offsets W n \<longleftrightarrow> W < length offsets \<and> offsets ! 0 = 0 \<and> unat (offsets ! W) = n \<and>
     (\<forall>s < W. offsets ! s \<le> offsets ! Suc s)"

definition row_at :: "u64 list \<Rightarrow> nat \<Rightarrow> nat \<Rightarrow> u32 \<Rightarrow> u32 \<Rightarrow> bool" where
  "row_at offsets W i s row \<longleftrightarrow> unat s < W \<and> unat (offsets ! unat s) \<le> i \<and> i < unat (offsets ! Suc (unat s)) \<and>
     unat row = i - unat (offsets ! unat s)"

definition chain_of :: "combine_tables \<Rightarrow> combine_launch \<Rightarrow> nat \<Rightarrow> nat list" where
  "chain_of T la a = filter (\<lambda>i. unat (po_accumulator_index (ct_pulls T ! i)) = a) [0..<unat (la_pull_count la)]"

definition result_ok :: "combine_tables \<Rightarrow> combine_launch \<Rightarrow> nat \<Rightarrow> bool" where
  "result_ok T la a \<longleftrightarrow>
     (let r = unat (ct_result_index T ! a); op = ct_results T ! r in
      r < unat (la_result_count la) \<and> r < length (ct_results T) \<and> unat (ro_accumulator_index op) = a \<and>
      unat (ro_journal_token op) < unat (la_accumulator_count la) \<and>
      ro_expected_contributors op = ct_counts T ! a \<and>
      row_at (ct_owner_offsets T) (unat (la_worker_count la)) r (ro_owner_rank op) (ro_owner_row op) \<and>
      ro_reserved op = (0, 0, 0) \<and>
      (\<forall>i \<in> set (chain_of T la a). po_journal_token (ct_pulls T ! i) = ro_journal_token op))"

definition sealed_tables :: "combine_tables \<Rightarrow> combine_launch \<Rightarrow> bool" where
  "sealed_tables T la \<longleftrightarrow>
     (let W = unat (la_worker_count la); P = unat (la_pull_count la); A = unat (la_accumulator_count la) in
      P \<le> length (ct_pulls T) \<and> A \<le> length (ct_heads T) \<and> A \<le> length (ct_counts T) \<and> A \<le> length (ct_result_index T) \<and>
      offsets_ok (ct_source_offsets T) W P \<and> offsets_ok (ct_owner_offsets T) W (unat (la_result_count la)) \<and>
      (\<forall>i < P. row_at (ct_source_offsets T) W i (po_source_rank (ct_pulls T ! i)) (po_source_row (ct_pulls T ! i)) \<and>
         unat (po_accumulator_index (ct_pulls T ! i)) < A \<and> unat (po_journal_token (ct_pulls T ! i)) < A) \<and>
      (\<forall>a < A. chain (ct_pull_next T) (ct_heads T ! a) (chain_of T la a) \<and>
         distinct (map (\<lambda>i. po_source_rank (ct_pulls T ! i)) (chain_of T la a)) \<and>
         unat (ct_counts T ! a) = length (chain_of T la a) \<and> result_ok T la a))"

lemma row_at_words:
  assumes "i < 2 ^ 32" "unat s < W"
  shows "row_at offsets W i s row \<longleftrightarrow> \<not> (of_nat i :: u64) < offsets ! unat s \<and> (of_nat i :: u64) < offsets ! Suc (unat s) \<and>
    (ucast row :: u64) = of_nat i - offsets ! unat s"
proof -
  have i: "unat (of_nat i :: u64) = i" using assms(1) by (simp add: unat_of_nat_u64)
  have "(ucast row :: u64) = of_nat i - offsets ! unat s \<longleftrightarrow> unat row = i - unat (offsets ! unat s)"
    if "unat (offsets ! unat s) \<le> i"
    using that i by (simp add: word_unat_eq_iff unat_ucast_u64 unat_sub_if' word_le_nat_alt)
  then show ?thesis using assms(2) i by (auto simp: row_at_def word_less_nat_alt)
qed

lemma check_pull_iff:
  assumes P: "unat (la_pull_count la) < 2 ^ 32" "i < unat (la_pull_count la)"
    and W: "unat (la_worker_count la) < length (ct_source_offsets T)" "unat (la_worker_count la) \<le> 128"
  shows "check_pull T la i () = Inr () \<longleftrightarrow>
    i < length (ct_pulls T) \<and> i < length (ct_pull_next T) \<and>
    row_at (ct_source_offsets T) (unat (la_worker_count la)) i (po_source_rank (ct_pulls T ! i)) (po_source_row (ct_pulls T ! i)) \<and>
    unat (po_accumulator_index (ct_pulls T ! i)) < unat (la_accumulator_count la) \<and>
    unat (po_journal_token (ct_pulls T ! i)) < unat (la_accumulator_count la) \<and>
    (ct_pull_next T ! i = invalid_index \<or>
      i < unat (ct_pull_next T ! i) \<and> unat (ct_pull_next T ! i) < unat (la_pull_count la) \<and>
      unat (ct_pull_next T ! i) < length (ct_pulls T) \<and>
      po_accumulator_index (ct_pulls T ! unat (ct_pull_next T ! i)) = po_accumulator_index (ct_pulls T ! i))"
proof (cases "i < length (ct_pulls T) \<and> i < length (ct_pull_next T) \<and>
    unat (po_source_rank (ct_pulls T ! i)) < unat (la_worker_count la)")
  case False
  then show ?thesis by (auto simp: check_pull_def vec_eqs row_at_def word_le_nat_alt)
next
  case True
  let ?p = "ct_pulls T ! i" and ?n = "ct_pull_next T ! i"
  have i: "i < 2 ^ 32" using P by simp
  have s: "unat (po_source_rank ?p + 1) = Suc (unat (po_source_rank ?p))" using True W(2) by (intro unat_Suc_u32) simp
  have i32: "unat (of_nat i :: u32) = i" using i by (simp add: unat_of_nat_u32)
  show ?thesis
    using True W(1) unfolding row_at_words [OF i conjunct2 [OF conjunct2 [OF True]]]
    by (auto simp: check_pull_def s kInvalidIndex_eq vec_eqs word_le_nat_alt [of _ "po_source_rank _"]
        word_le_nat_alt [of "la_worker_count la"] word_le_nat_alt [of "la_accumulator_count la"]
        word_le_nat_alt [of ?n] word_le_nat_alt [of "la_pull_count la"] i32 unat_ucast_u64 not_le not_less)
qed

lemma check_accumulator_iff:
  assumes R: "unat (la_result_count la) < 2 ^ 32" and a: "a < unat (la_accumulator_count la)"
    and W: "unat (la_worker_count la) < length (ct_owner_offsets T)" "unat (la_worker_count la) \<le> 128"
    and src: "\<forall>i < unat (la_pull_count la). i < length (ct_pulls T) \<longrightarrow> unat (po_source_rank (ct_pulls T ! i)) < 128"
  shows "check_accumulator T la a () = Inr () \<longleftrightarrow>
    a < length (ct_counts T) \<and> a < length (ct_result_index T) \<and> a < length (ct_heads T) \<and>
    (let r = unat (ct_result_index T ! a); op = ct_results T ! r in
      r < unat (la_result_count la) \<and> r < length (ct_results T) \<and> unat (ro_accumulator_index op) = a \<and>
      unat (ro_journal_token op) < unat (la_accumulator_count la) \<and>
      ro_expected_contributors op = ct_counts T ! a \<and>
      row_at (ct_owner_offsets T) (unat (la_worker_count la)) r (ro_owner_rank op) (ro_owner_row op) \<and>
      ro_reserved op = (0, 0, 0) \<and>
      (\<exists>xs. length xs = unat (ct_counts T ! a) \<and> chain (ct_pull_next T) (ct_heads T ! a) xs \<and>
        (\<forall>i \<in> set xs. in_chain T la a (ro_journal_token op) i) \<and>
        distinct (map (\<lambda>i. po_source_rank (ct_pulls T ! i)) xs)))"
proof (cases "a < length (ct_counts T) \<and> a < length (ct_result_index T) \<and>
    unat (ct_result_index T ! a) < length (ct_results T) \<and>
    unat (ro_owner_rank (ct_results T ! unat (ct_result_index T ! a))) < unat (la_worker_count la)")
  case False
  then show ?thesis
    by (auto simp: check_accumulator_def vec_eqs row_at_def word_le_nat_alt Let_def)
next
  case True
  let ?r = "unat (ct_result_index T ! a)"
  let ?op = "ct_results T ! ?r"
  have r: "?r < 2 ^ 32" using unsigned_less [of "ct_result_index T ! a", where 'a = nat] by simp
  have s: "unat (ro_owner_rank ?op + 1) = Suc (unat (ro_owner_rank ?op))" using True W(2) by (intro unat_Suc_u32) simp
  have a32: "ro_accumulator_index ?op = of_nat a \<longleftrightarrow> unat (ro_accumulator_index ?op) = a"
    using a by (intro of_nat_eq_u32) (use unsigned_less [of "la_accumulator_count la", where 'a = nat] in simp)
  have r64: "(of_nat ?r :: u64) = ucast (ct_result_index T ! a)" by (rule of_nat_unat_u64)
  note chain_iff = check_chain_iff [OF src, of "unat (ct_counts T ! a)" a "ro_journal_token ?op" "(0, 0)"]
  show ?thesis
    using True W(1)
    unfolding row_at_words [OF r conjunct2 [OF conjunct2 [OF conjunct2 [OF True]]]] r64 Let_def
    by (auto simp: check_accumulator_def s a32 vec_eqs chain_iff seen_set_empty unat_ucast_u64
        word_le_nat_alt [of "la_worker_count la"] word_le_nat_alt [of "la_accumulator_count la"]
        word_le_nat_alt [of "la_result_count la"] not_le not_less)
qed

section \<open>The loops of block zero\<close>

lemma count_accumulators_iff:
  assumes "unat (la_pull_count la) < 2 ^ 32"
  shows "mfold (count_accumulator T la) [0..<n] (0, b0) = Inr (t, b) \<longleftrightarrow>
    n \<le> length (ct_counts T) \<and> (\<forall>a < n. ct_counts T ! a \<le> la_worker_count la) \<and>
    (\<Sum>a < n. unat (ct_counts T ! a)) \<le> unat (la_pull_count la) \<and>
    unat t = (\<Sum>a < n. unat (ct_counts T ! a)) \<and> b = (b0 \<and> (\<forall>a < n. ct_counts T ! a = 2))"
proof (induction n arbitrary: t b)
  case 0
  then show ?case by (auto simp: word_unat_eq_iff)
next
  case (Suc n)
  let ?S = "\<Sum>a < n. unat (ct_counts T ! a)" and ?c = "ct_counts T ! n"
  have step: "count_accumulator T la n (u, c) = Inr (t, b) \<longleftrightarrow> n < length (ct_counts T) \<and> ?c \<le> la_worker_count la \<and>
      unat u + unat ?c \<le> unat (la_pull_count la) \<and> unat t = unat u + unat ?c \<and> b = (c \<and> ?c = 2)"
    if u: "unat u \<le> unat (la_pull_count la)" for u c
  proof -
    have c: "unat ?c < 2 ^ 32" using unsigned_less [of ?c, where 'a = nat] by simp
    then have small: "unat u + unat ?c < 2 ^ 64" using u assms by simp
    then have add: "AddU64 u (ucast ?c) = Some (u + ucast ?c)" by (simp add: AddU64_Add Add_eq_Some unat_ucast_u64)
    then have ut: "unat (u + ucast ?c) = unat u + unat ?c" using Add_unat [of u "ucast ?c"] by (simp add: AddU64_Add unat_ucast_u64)
    have le: "u + ucast ?c > la_pull_count la \<longleftrightarrow> \<not> unat u + unat ?c \<le> unat (la_pull_count la)"
      and eq: "u + ucast ?c = t \<longleftrightarrow> unat t = unat u + unat ?c"
      using ut by (auto simp: word_less_nat_alt word_unat_eq_iff)
    show ?thesis
      by (auto simp: vec_eqs not_less add le eq)
  qed
  have "mfold (count_accumulator T la) [0..<Suc n] (0, b0) = Inr (t, b) \<longleftrightarrow>
      (\<exists>u c. mfold (count_accumulator T la) [0..<n] (0, b0) = Inr (u, c) \<and> count_accumulator T la n (u, c) = Inr (t, b))"
    by (simp add: mfold_append vec_eqs)
  also have "\<dots> \<longleftrightarrow> (\<exists>(u :: u64) c. (n \<le> length (ct_counts T) \<and> (\<forall>a < n. ct_counts T ! a \<le> la_worker_count la) \<and>
      ?S \<le> unat (la_pull_count la) \<and> unat u = ?S \<and> c = (b0 \<and> (\<forall>a < n. ct_counts T ! a = 2))) \<and>
      n < length (ct_counts T) \<and> ?c \<le> la_worker_count la \<and>
      ?S + unat ?c \<le> unat (la_pull_count la) \<and> unat t = ?S + unat ?c \<and> b = (c \<and> ?c = 2))"
    unfolding Suc.IH by (intro iff_exI) (use step in auto)
  also have "\<dots> \<longleftrightarrow> Suc n \<le> length (ct_counts T) \<and> (\<forall>a < Suc n. ct_counts T ! a \<le> la_worker_count la) \<and>
    (\<Sum>a < Suc n. unat (ct_counts T ! a)) \<le> unat (la_pull_count la) \<and>
    unat t = (\<Sum>a < Suc n. unat (ct_counts T ! a)) \<and> b = (b0 \<and> (\<forall>a < Suc n. ct_counts T ! a = 2))"
  proof -
    have "\<exists>u :: u64. unat u = ?S" if "?S \<le> unat (la_pull_count la)"
      using that assms by (intro exI [of _ "of_nat ?S"]) (simp add: unat_of_nat_u64 del: of_nat_sum)
    then show ?thesis by (auto simp: less_Suc_eq)
  qed
  finally show ?case .
qed

definition owner_fits :: "combine_tables \<Rightarrow> u64 \<Rightarrow> u64 \<Rightarrow> nat \<Rightarrow> bool" where
  "owner_fits T row_bytes cap owner \<longleftrightarrow>
     owner + 1 < length (ct_source_offsets T) \<and> owner + 1 < length (ct_owner_offsets T) \<and>
     ct_source_offsets T ! owner \<le> ct_source_offsets T ! Suc owner \<and>
     ct_owner_offsets T ! owner \<le> ct_owner_offsets T ! Suc owner \<and>
     (let rows = unat (ct_owner_offsets T ! Suc owner) - unat (ct_owner_offsets T ! owner)
      in rows < 2 ^ 32 \<and> unat row_bytes * rows \<le> unat cap)"

lemma owner_extents_iff:
  "(\<exists>m. mfold (owner_extent T row_bytes) [0..<n] m0 = Inr m \<and> m \<le> cap) \<longleftrightarrow>
    m0 \<le> cap \<and> (\<forall>owner < n. owner_fits T row_bytes cap owner)"
proof (induction n)
  case (Suc n)
  have step: "(\<exists>m. owner_extent T row_bytes n u = Inr m \<and> m \<le> cap) \<longleftrightarrow> u \<le> cap \<and> owner_fits T row_bytes cap n" for u
  proof (cases "n + 1 < length (ct_source_offsets T) \<and> n + 1 < length (ct_owner_offsets T) \<and>
      ct_source_offsets T ! n \<le> ct_source_offsets T ! Suc n \<and> ct_owner_offsets T ! n \<le> ct_owner_offsets T ! Suc n")
    case False
    then show ?thesis by (auto simp: owner_extent_def owner_fits_def vec_eqs)
  next
    case True
    let ?rows = "ct_owner_offsets T ! Suc n - ct_owner_offsets T ! n"
    have rows: "unat ?rows = unat (ct_owner_offsets T ! Suc n) - unat (ct_owner_offsets T ! n)"
      using True by (simp add: unat_sub word_le_nat_alt)
    have run: "owner_extent T row_bytes n u = (if ?rows > 0xffffffff then fail kStatusSizeOverflow
        else case Mul (ucast (ucast ?rows :: u32)) row_bytes of None \<Rightarrow> fail kStatusSizeOverflow
        | Some owner_bytes \<Rightarrow> Inr (if owner_bytes > u then owner_bytes else u))"
      using True by (simp add: owner_extent_def CheckedMulU64ByU32_Mul Let_def flip: not_less)
    show ?thesis
    proof (cases "unat ?rows < 2 ^ 32")
      case False
      then have "?rows > 0xffffffff" by (simp add: word_less_nat_alt)
      then show ?thesis using False unfolding run by (simp add: owner_fits_def rows Let_def)
    next
      case small: True
      then have big: "\<not> ?rows > 0xffffffff" by (simp add: word_less_nat_alt)
      have "unat (ucast ?rows :: u32) = unat ?rows" using small by (simp add: unsigned_ucast_eq take_bit_nat_eq_self_iff)
      then have u: "unat (ucast (ucast ?rows :: u32) :: u64) = unat ?rows" by (simp add: unat_ucast_u64)
      have "Mul (ucast (ucast ?rows :: u32)) row_bytes =
          (if unat ?rows * unat row_bytes < 2 ^ 64 then Some (ucast (ucast ?rows :: u32) * row_bytes) else None)"
        using Mul_eq_Some [of "ucast (ucast ?rows :: u32)" row_bytes] u by (metis not_None_eq)
      moreover have "unat (ucast (ucast ?rows :: u32) * row_bytes) = unat ?rows * unat row_bytes"
        if "unat ?rows * unat row_bytes < 2 ^ 64"
        using that u by (simp add: unat_word_ariths)
      moreover have "unat cap < 2 ^ 64" using unsigned_less [of cap, where 'a = nat] by simp
      ultimately show ?thesis
        using True small big unfolding run
        by (auto simp: owner_fits_def rows Let_def word_le_nat_alt word_less_nat_alt mult.commute)
    qed
  qed
  have "(\<exists>m. mfold (owner_extent T row_bytes) [0..<Suc n] m0 = Inr m \<and> m \<le> cap) \<longleftrightarrow>
      (\<exists>u. mfold (owner_extent T row_bytes) [0..<n] m0 = Inr u \<and> (\<exists>m. owner_extent T row_bytes n u = Inr m \<and> m \<le> cap))"
    by (auto simp: mfold_append vec_eqs)
  then show ?case unfolding step using Suc.IH by (auto simp: less_Suc_eq)
qed simp

section \<open>The accepted tables\<close>

lemma chain_sorted:
  "chain next h xs \<Longrightarrow> \<forall>x \<in> set xs. next ! x = invalid_index \<or> x < unat (next ! x) \<Longrightarrow> sorted_wrt (<) xs"
proof (induction xs arbitrary: h)
  case (Cons x xs)
  have "x < y" if y: "y \<in> set xs" for y
  proof -
    obtain z zs where xs: "xs = z # zs" using y by (cases xs) auto
    have "sorted_wrt (<) xs" using Cons.IH [of "next ! x"] Cons.prems by simp
    moreover have "x < z" using Cons.prems by (auto simp: xs)
    ultimately show ?thesis using y by (auto simp: xs)
  qed
  then show ?case using Cons.IH [of "next ! x"] Cons.prems by simp
qed simp

lemma chain_successor:
  "chain next h xs \<Longrightarrow> sorted_wrt (<) xs \<Longrightarrow> i \<in> set xs \<Longrightarrow>
     next ! i = invalid_index \<or> i < unat (next ! i) \<and> unat (next ! i) \<in> set xs"
proof (induction xs arbitrary: h)
  case (Cons x xs)
  show ?case
  proof (cases "i = x")
    case True
    then show ?thesis using Cons.prems by (cases xs) auto
  next
    case False
    then show ?thesis using Cons.IH [of "next ! x"] Cons.prems by auto
  qed
qed simp

lemma chain_members: "chain next h xs \<Longrightarrow> i \<in> set xs \<Longrightarrow> i < length next"
  by (induction xs arbitrary: h) auto

text \<open>Chains without repetition whose lengths add up to the number of pulls hold every pull.\<close>

lemma chains_cover:
  assumes "\<forall>i < P. acc i < (A :: nat)" "\<forall>a < A. distinct (xs a) \<and> set (xs a) \<subseteq> {i. i < P \<and> acc i = a}"
    and "(\<Sum>a < A. length (xs a)) = P" and "a < A"
  shows "set (xs a) = {i. i < P \<and> acc i = a}"
proof -
  let ?F = "\<lambda>a. {i. i < P \<and> acc i = a}"
  have "{..<P} = (\<Union>a \<in> {..<A}. ?F a)" using assms(1) by auto
  then have "P = card (\<Union>a \<in> {..<A}. ?F a)" by (metis card_lessThan)
  also have "\<dots> = (\<Sum>a < A. card (?F a))" by (rule card_UN_disjoint) auto
  finally have "(\<Sum>a < A. length (xs a)) = (\<Sum>a < A. card (?F a))" using assms(3) by simp
  note total = this
  have le: "length (xs b) \<le> card (?F b)" if "b \<in> {..<A}" for b
  proof -
    have "card (set (xs b)) \<le> card (?F b)" by (rule card_mono) (use assms(2) that in auto)
    then show ?thesis using assms(2) that by (simp add: distinct_card)
  qed
  have "length (xs a) = card (?F a)"
    by (rule sum_mono_inv [OF total le]) (simp_all add: assms(4))
  moreover have "distinct (xs a)" and sub: "set (xs a) \<subseteq> ?F a" using assms(2,4) by blast+
  ultimately have "card (set (xs a)) = card (?F a)" by (simp only: distinct_card)
  then show ?thesis by (intro card_subset_eq [OF _ sub]) simp
qed

lemma launch_numbers:
  assumes "launch_valid blocks la = Some x"
  shows "0 < unat blocks" "2 \<le> unat (la_worker_count la)" "unat (la_worker_count la) \<le> 128"
    "unat (la_pull_count la) < 2 ^ 32" "unat (la_result_count la) < 2 ^ 32"
    "unat (la_result_count la) = unat (la_accumulator_count la)"
    "la_ring_slot la < la_slot_count la" "la_hidden la \<noteq> 0"
    "CheckedMulU64ByU32 4 (la_hidden la) = Some (fst x)"
    "CheckedMulU64ByU32 (la_owner_output_slot_stride la) (la_ring_slot la) = Some (fst (snd x))"
    "CheckedMulU64ByU32 (tiles_per_row la) (la_accumulator_count la) = Some (snd (snd x))"
proof -
  have "blocks \<noteq> 0" using assms by (auto simp: launch_valid_def split: if_splits)
  then show "0 < unat blocks" by (simp add: unat_gt_0)
  show "2 \<le> unat (la_worker_count la)" "unat (la_worker_count la) \<le> 128"
    "unat (la_pull_count la) < 2 ^ 32" "unat (la_result_count la) < 2 ^ 32"
    using assms by (auto simp: launch_valid_def word_le_nat_alt abi_consts split: if_splits)
  show "unat (la_result_count la) = unat (la_accumulator_count la)"
    "la_ring_slot la < la_slot_count la" "la_hidden la \<noteq> 0"
    using assms by (auto simp: launch_valid_def unat_ucast_u64 split: if_splits)
  show "CheckedMulU64ByU32 4 (la_hidden la) = Some (fst x)"
    "CheckedMulU64ByU32 (la_owner_output_slot_stride la) (la_ring_slot la) = Some (fst (snd x))"
    "CheckedMulU64ByU32 (tiles_per_row la) (la_accumulator_count la) = Some (snd (snd x))"
    using assms by (auto simp: launch_valid_def split: if_splits bind_splits)
qed

lemma init_block_iff:
  assumes lv: "launch_valid blocks la = Some (row_bytes, out, tasks)"
    and W: "W = unat (la_worker_count la)" and A: "A = unat (la_accumulator_count la)"
  shows "init_block blocks la T registrations h = Inr (two, row_bytes', out', tasks') \<longleftrightarrow>
    row_bytes' = row_bytes \<and> out' = out \<and> tasks' = tasks \<and> two = (A \<noteq> 0 \<and> (\<forall>a < A. ct_counts T ! a = 2)) \<and>
    journal_identity h la \<and>
    (\<forall>s < W. s < length registrations \<and> RegistrationValid (registrations ! s) (of_nat s) la) \<and>
    W < length (ct_source_offsets T) \<and> W < length (ct_owner_offsets T) \<and>
    ct_source_offsets T ! 0 = 0 \<and> ct_source_offsets T ! W = la_pull_count la \<and>
    ct_owner_offsets T ! 0 = 0 \<and> ct_owner_offsets T ! W = la_result_count la \<and>
    A \<le> length (ct_counts T) \<and> (\<forall>a < A. ct_counts T ! a \<le> la_worker_count la) \<and>
    (\<Sum>a < A. unat (ct_counts T ! a)) = unat (la_pull_count la) \<and>
    (\<forall>owner < W. owner_fits T row_bytes (la_owner_output_slot_stride la) owner)"
proof -
  note n = launch_numbers [OF lv]
  have reg: "mfold (check_registration registrations la) [0..<W] () = Inr () \<longleftrightarrow>
      (\<forall>s < W. s < length registrations \<and> RegistrationValid (registrations ! s) (of_nat s) la)"
    by (auto simp: mfold_unit check_registration_def vec_eqs)
  have tot: "check_totals T la = Inr () \<longleftrightarrow> W < length (ct_source_offsets T) \<and> W < length (ct_owner_offsets T) \<and>
      ct_source_offsets T ! 0 = 0 \<and> ct_source_offsets T ! W = la_pull_count la \<and>
      ct_owner_offsets T ! 0 = 0 \<and> ct_owner_offsets T ! W = la_result_count la"
    by (auto simp: check_totals_def vec_eqs W)
  have cnt: "mfold (count_accumulator T la) [0..<A] (0, A \<noteq> 0) = Inr (la_pull_count la, b) \<longleftrightarrow>
      A \<le> length (ct_counts T) \<and> (\<forall>a < A. ct_counts T ! a \<le> la_worker_count la) \<and>
      (\<Sum>a < A. unat (ct_counts T ! a)) = unat (la_pull_count la) \<and> b = (A \<noteq> 0 \<and> (\<forall>a < A. ct_counts T ! a = 2))" for b
    unfolding count_accumulators_iff [OF n(4)] by auto
  have own: "(\<exists>m. mfold (owner_extent T row_bytes) [0..<W] 0 = Inr m \<and> m \<le> la_owner_output_slot_stride la) \<longleftrightarrow>
      (\<forall>owner < W. owner_fits T row_bytes (la_owner_output_slot_stride la) owner)"
    unfolding owner_extents_iff by simp
  have "init_block blocks la T registrations h = Inr (two, row_bytes', out', tasks') \<longleftrightarrow>
      row_bytes' = row_bytes \<and> out' = out \<and> tasks' = tasks \<and> journal_identity h la \<and>
      mfold (check_registration registrations la) [0..<W] () = Inr () \<and> check_totals T la = Inr () \<and>
      mfold (count_accumulator T la) [0..<A] (0, A \<noteq> 0) = Inr (la_pull_count la, two) \<and>
      (\<exists>m. mfold (owner_extent T row_bytes) [0..<W] 0 = Inr m \<and> m \<le> la_owner_output_slot_stride la)"
    using W A lv by (auto simp: init_block_def Let_def vec_eqs not_less split: if_splits)
  then show ?thesis unfolding reg tot cnt own by blast
qed

definition launch_tables ::
  "combine_launch \<Rightarrow> u64 \<Rightarrow> combine_tables \<Rightarrow> CombineRegionRegistration list \<Rightarrow> JournalSlotHeader \<Rightarrow> bool" where
  "launch_tables la row_bytes T registrations h \<longleftrightarrow>
     journal_identity h la \<and>
     (\<forall>s < unat (la_worker_count la). s < length registrations \<and> RegistrationValid (registrations ! s) (of_nat s) la) \<and>
     (\<forall>owner < unat (la_worker_count la). owner_fits T row_bytes (la_owner_output_slot_stride la) owner) \<and>
     sealed_tables T la"

lemma sealed_tablesD:
  assumes "sealed_tables T la"
  shows "unat (la_pull_count la) \<le> length (ct_pulls T)"
    and "offsets_ok (ct_source_offsets T) (unat (la_worker_count la)) (unat (la_pull_count la))"
    and "offsets_ok (ct_owner_offsets T) (unat (la_worker_count la)) (unat (la_result_count la))"
    and "i < unat (la_pull_count la) \<Longrightarrow> row_at (ct_source_offsets T) (unat (la_worker_count la)) i
      (po_source_rank (ct_pulls T ! i)) (po_source_row (ct_pulls T ! i)) \<and>
      unat (po_accumulator_index (ct_pulls T ! i)) < unat (la_accumulator_count la) \<and>
      unat (po_journal_token (ct_pulls T ! i)) < unat (la_accumulator_count la)"
    and "a < unat (la_accumulator_count la) \<Longrightarrow> a < length (ct_heads T) \<and> a < length (ct_counts T) \<and>
      a < length (ct_result_index T) \<and> chain (ct_pull_next T) (ct_heads T ! a) (chain_of T la a) \<and>
      distinct (map (\<lambda>i. po_source_rank (ct_pulls T ! i)) (chain_of T la a)) \<and>
      unat (ct_counts T ! a) = length (chain_of T la a) \<and> result_ok T la a"
  using assms by (auto simp: sealed_tables_def Let_def)

lemma set_chain_of: "set (chain_of T la a) = {i. i < unat (la_pull_count la) \<and> unat (po_accumulator_index (ct_pulls T ! i)) = a}"
  by (auto simp: chain_of_def)

lemma sorted_chain_of: "sorted_wrt (<) (chain_of T la a)"
  unfolding chain_of_def by (rule sorted_wrt_filter) simp

text \<open>What the checks accept is sealed.\<close>

lemma accepted_pull:
  assumes lv: "launch_valid blocks la = Some x" and val: "validate_plan blocks la T = Inr ()"
    and lens: "unat (la_worker_count la) < length (ct_source_offsets T)" and i: "i < unat (la_pull_count la)"
  shows "i < length (ct_pulls T) \<and> unat (po_source_rank (ct_pulls T ! i)) < 128 \<and>
    row_at (ct_source_offsets T) (unat (la_worker_count la)) i (po_source_rank (ct_pulls T ! i)) (po_source_row (ct_pulls T ! i)) \<and>
    unat (po_accumulator_index (ct_pulls T ! i)) < unat (la_accumulator_count la) \<and>
    unat (po_journal_token (ct_pulls T ! i)) < unat (la_accumulator_count la) \<and>
    (ct_pull_next T ! i = invalid_index \<or> i < unat (ct_pull_next T ! i))"
proof -
  note n = launch_numbers [OF lv]
  have "check_pull T la i () = Inr ()" using validate_plan_checks(1) [OF n(1) val] i by blast
  then show ?thesis
    unfolding check_pull_iff [OF n(4) i lens n(3)] using n(3) by (auto simp: row_at_def)
qed

lemma accepted_accumulator:
  assumes lv: "launch_valid blocks la = Some x" and val: "validate_plan blocks la T = Inr ()"
    and lens: "unat (la_worker_count la) < length (ct_source_offsets T)" "unat (la_worker_count la) < length (ct_owner_offsets T)"
    and a: "a < unat (la_accumulator_count la)"
    and op: "r = unat (ct_result_index T ! a)" "op = ct_results T ! r"
  shows "a < length (ct_counts T) \<and> a < length (ct_result_index T) \<and> a < length (ct_heads T)"
    and "r < unat (la_result_count la) \<and> r < length (ct_results T) \<and> unat (ro_accumulator_index op) = a \<and>
      unat (ro_journal_token op) < unat (la_accumulator_count la) \<and> ro_expected_contributors op = ct_counts T ! a \<and>
      row_at (ct_owner_offsets T) (unat (la_worker_count la)) r (ro_owner_rank op) (ro_owner_row op) \<and> ro_reserved op = (0, 0, 0)"
    and "\<exists>ys. length ys = unat (ct_counts T ! a) \<and> chain (ct_pull_next T) (ct_heads T ! a) ys \<and>
      (\<forall>i \<in> set ys. in_chain T la a (ro_journal_token op) i) \<and> distinct (map (\<lambda>i. po_source_rank (ct_pulls T ! i)) ys) \<and>
      sorted_wrt (<) ys"
proof -
  note n = launch_numbers [OF lv]
  note pull = accepted_pull [OF lv val lens(1)]
  have src: "\<forall>i < unat (la_pull_count la). i < length (ct_pulls T) \<longrightarrow> unat (po_source_rank (ct_pulls T ! i)) < 128"
    using pull by blast
  have "check_accumulator T la a () = Inr ()" using validate_plan_checks(2) [OF n(1) val] a by blast
  note acc = this [unfolded check_accumulator_iff [OF n(5) a lens(2) n(3) src] Let_def, folded op(1), folded op(2)]
  show "a < length (ct_counts T) \<and> a < length (ct_result_index T) \<and> a < length (ct_heads T)" using acc by simp
  show "r < unat (la_result_count la) \<and> r < length (ct_results T) \<and> unat (ro_accumulator_index op) = a \<and>
      unat (ro_journal_token op) < unat (la_accumulator_count la) \<and> ro_expected_contributors op = ct_counts T ! a \<and>
      row_at (ct_owner_offsets T) (unat (la_worker_count la)) r (ro_owner_rank op) (ro_owner_row op) \<and> ro_reserved op = (0, 0, 0)"
    using acc by simp
  obtain ys where ys: "length ys = unat (ct_counts T ! a)" "chain (ct_pull_next T) (ct_heads T ! a) ys"
    "\<forall>i \<in> set ys. in_chain T la a (ro_journal_token op) i" "distinct (map (\<lambda>i. po_source_rank (ct_pulls T ! i)) ys)"
    using acc by blast
  have "sorted_wrt (<) ys"
    using pull ys(3) by (intro chain_sorted [OF ys(2)]) (auto simp: in_chain_def)
  then show "\<exists>ys. length ys = unat (ct_counts T ! a) \<and> chain (ct_pull_next T) (ct_heads T ! a) ys \<and>
      (\<forall>i \<in> set ys. in_chain T la a (ro_journal_token op) i) \<and> distinct (map (\<lambda>i. po_source_rank (ct_pulls T ! i)) ys) \<and>
      sorted_wrt (<) ys" using ys by blast
qed

lemma accepted_sealed:
  assumes lv: "launch_valid blocks la = Some (row_bytes, out, tasks)"
    and init: "init_block blocks la T registrations h = Inr (two, row_bytes, out, tasks)"
    and val: "validate_plan blocks la T = Inr ()"
  shows "sealed_tables T la"
proof -
  define W P A where "W = unat (la_worker_count la)" and "P = unat (la_pull_count la)" and "A = unat (la_accumulator_count la)"
  let ?token = "\<lambda>a. ro_journal_token (ct_results T ! unat (ct_result_index T ! a))"
  note i = init [unfolded init_block_iff [OF lv W_def A_def]]
  have lens: "unat (la_worker_count la) < length (ct_source_offsets T)" "unat (la_worker_count la) < length (ct_owner_offsets T)"
    using i by (simp_all add: W_def)
  note pull = accepted_pull [OF lv val lens(1), folded P_def A_def W_def]
  note acc = accepted_accumulator [OF lv val lens _ refl refl, folded A_def W_def]
  obtain xs where x: "\<forall>a < A. length (xs a) = unat (ct_counts T ! a) \<and> chain (ct_pull_next T) (ct_heads T ! a) (xs a) \<and>
      (\<forall>i \<in> set (xs a). in_chain T la a (?token a) i) \<and> distinct (map (\<lambda>i. po_source_rank (ct_pulls T ! i)) (xs a)) \<and>
      sorted_wrt (<) (xs a)"
    using acc(3) by metis
  have cover: "set (xs a) = {i. i < P \<and> unat (po_accumulator_index (ct_pulls T ! i)) = a}" if a: "a < A" for a
  proof (rule chains_cover [where xs = xs and A = A])
    show "\<forall>i < P. unat (po_accumulator_index (ct_pulls T ! i)) < A" using pull by blast
    show "\<forall>b < A. distinct (xs b) \<and> set (xs b) \<subseteq> {i. i < P \<and> unat (po_accumulator_index (ct_pulls T ! i)) = b}"
    proof (intro allI impI conjI subsetI)
      fix b assume b: "b < A"
      then have "b < 2 ^ 32" using unsigned_less [of "la_accumulator_count la", where 'a = nat] by (simp add: A_def)
      then have "unat (of_nat b :: u32) = b" by (simp add: unat_of_nat_u32)
      then show "i \<in> {i. i < P \<and> unat (po_accumulator_index (ct_pulls T ! i)) = b}" if "i \<in> set (xs b)" for i
        using x b that by (auto simp: in_chain_def P_def)
      show "distinct (xs b)" using x b by (auto simp: distinct_map)
    qed
    have "(\<Sum>a < A. length (xs a)) = (\<Sum>a < A. unat (ct_counts T ! a))" by (rule sum.cong) (use x in auto)
    then show "(\<Sum>a < A. length (xs a)) = P" using i by (simp add: P_def)
  qed (rule a)
  have xs: "xs a = chain_of T la a" if a: "a < A" for a
  proof (rule strict_sorted_equal)
    show "sorted_wrt (<) (xs a)" using x a by blast
    show "set (xs a) = set (chain_of T la a)" using cover [OF a] by (simp add: set_chain_of P_def)
  qed (rule sorted_chain_of)
  have mono: "\<forall>s < W. ct_source_offsets T ! s \<le> ct_source_offsets T ! Suc s \<and> ct_owner_offsets T ! s \<le> ct_owner_offsets T ! Suc s"
    using i by (simp add: owner_fits_def)
  have "offsets_ok (ct_source_offsets T) W P" "offsets_ok (ct_owner_offsets T) W (unat (la_result_count la))"
    using i mono by (auto simp: offsets_ok_def P_def)
  moreover have "result_ok T la a" if a: "a < A" for a
    using acc(2) [OF a] x a by (auto simp: result_ok_def Let_def W_def A_def simp flip: xs [OF a] simp: in_chain_def)
  moreover have "P \<le> length (ct_pulls T)" using pull by (cases P) (auto simp: Suc_le_eq)
  moreover have "A \<le> length (ct_heads T)" "A \<le> length (ct_counts T)" "A \<le> length (ct_result_index T)"
    using acc(1) by (cases A; force simp: Suc_le_eq)+
  ultimately show ?thesis
    using pull x xs unfolding sealed_tables_def Let_def W_def [symmetric] P_def [symmetric] A_def [symmetric] by simp
qed

lemma chains_total:
  assumes "\<forall>i < P. acc i < (A :: nat)"
  shows "(\<Sum>a < A. length (filter (\<lambda>i. acc i = a) [0..<P])) = P"
proof -
  have "{..<P} = (\<Union>a \<in> {..<A}. {i. i < P \<and> acc i = a})" using assms by auto
  then have "P = card (\<Union>a \<in> {..<A}. {i. i < P \<and> acc i = a})" by (metis card_lessThan)
  also have "\<dots> = (\<Sum>a < A. card {i. i < P \<and> acc i = a})" by (rule card_UN_disjoint) auto
  also have "\<dots> = (\<Sum>a < A. length (filter (\<lambda>i. acc i = a) [0..<P]))"
    by (intro sum.cong refl) (simp add: length_filter_conv_card cong: conj_cong)
  finally show ?thesis by simp
qed

lemma distinct_ranks_bound:
  assumes "distinct (map f xs)" "\<forall>x \<in> set xs. unat (f x :: u32) < W"
  shows "length xs \<le> W"
proof -
  have "distinct (map (unat \<circ> f) xs)" using assms(1) by (auto simp: distinct_map inj_on_def word_unat_eq_iff)
  then have "length xs = card (set (map (unat \<circ> f) xs))" using distinct_card by fastforce
  also have "\<dots> \<le> card {..<W}" by (intro card_mono) (use assms(2) in auto)
  finally show ?thesis by simp
qed

lemma sealed_init:
  assumes lv: "launch_valid blocks la = Some (row_bytes, out, tasks)" and tab: "launch_tables la row_bytes T registrations h"
  shows "\<exists>two. init_block blocks la T registrations h = Inr (two, row_bytes, out, tasks)"
proof -
  define W P A where "W = unat (la_worker_count la)" and "P = unat (la_pull_count la)" and "A = unat (la_accumulator_count la)"
  have st: "sealed_tables T la" using tab by (simp add: launch_tables_def)
  note s = sealed_tablesD [OF st, folded W_def P_def A_def]
  have acc: "\<forall>i < P. unat (po_accumulator_index (ct_pulls T ! i)) < A" using s(4) by blast
  have len: "length (chain_of T la a) \<le> W" if "a < A" for a
    by (rule distinct_ranks_bound [of "\<lambda>i. po_source_rank (ct_pulls T ! i)"])
      (use s(4,5) that in \<open>auto simp: set_chain_of row_at_def P_def W_def\<close>)
  have "A \<le> length (ct_counts T)" using s(5) by (cases A) (auto simp: Suc_le_eq)
  moreover have "\<forall>a < A. ct_counts T ! a \<le> la_worker_count la"
    using s(5) len by (auto simp: word_le_nat_alt W_def)
  moreover have "(\<Sum>a < A. unat (ct_counts T ! a)) = P"
  proof -
    have "(\<Sum>a < A. unat (ct_counts T ! a)) = (\<Sum>a < A. length (chain_of T la a))" by (rule sum.cong) (use s(5) in auto)
    then show ?thesis using chains_total [OF acc] by (simp add: chain_of_def P_def)
  qed
  moreover have "W < length (ct_source_offsets T)" "ct_source_offsets T ! 0 = 0" "ct_source_offsets T ! W = la_pull_count la"
    "W < length (ct_owner_offsets T)" "ct_owner_offsets T ! 0 = 0" "ct_owner_offsets T ! W = la_result_count la"
    using s(2,3) by (simp_all add: offsets_ok_def P_def word_unat_eq_iff)
  ultimately show ?thesis
    using tab unfolding init_block_iff [OF lv W_def A_def]
    by (auto simp: launch_tables_def W_def P_def)
qed

lemma sealed_validates:
  assumes lv: "launch_valid blocks la = Some x" and st: "sealed_tables T la"
    and counter: "unat (la_accumulator_count la) + unat blocks \<le> 2 ^ 32"
  shows "validate_plan blocks la T = Inr ()"
proof -
  define W P A where "W = unat (la_worker_count la)" and "P = unat (la_pull_count la)" and "A = unat (la_accumulator_count la)"
  note n = launch_numbers [OF lv]
  note s = sealed_tablesD [OF st, folded W_def P_def A_def]
  have lens: "unat (la_worker_count la) < length (ct_source_offsets T)" "unat (la_worker_count la) < length (ct_owner_offsets T)"
    using s(2,3) by (simp_all add: offsets_ok_def W_def)
  have pl: "i < length (ct_pulls T)" if "i < P" for i using s(1) that by (simp add: P_def)
  have "check_pull T la i () = Inr ()" if i: "i < P" for i
  proof -
    let ?a = "unat (po_accumulator_index (ct_pulls T ! i))"
    have a: "?a < A" using s(4) i by blast
    have ch: "chain (ct_pull_next T) (ct_heads T ! ?a) (chain_of T la ?a)" using s(5) a by blast
    have m: "i \<in> set (chain_of T la ?a)" using i by (simp add: set_chain_of P_def)
    have "ct_pull_next T ! i = invalid_index \<or> i < unat (ct_pull_next T ! i) \<and> unat (ct_pull_next T ! i) \<in> set (chain_of T la ?a)"
      by (rule chain_successor [OF ch sorted_chain_of m])
    then have "ct_pull_next T ! i = invalid_index \<or> i < unat (ct_pull_next T ! i) \<and> unat (ct_pull_next T ! i) < P \<and>
        po_accumulator_index (ct_pulls T ! unat (ct_pull_next T ! i)) = po_accumulator_index (ct_pulls T ! i)"
      by (auto simp: set_chain_of P_def word_unat_eq_iff)
    then show ?thesis
      unfolding check_pull_iff [OF n(4) i [unfolded P_def] lens(1) n(3)]
      using s(4) [OF i] pl i chain_members [OF ch m] by (auto simp: W_def A_def P_def)
  qed
  moreover have "check_accumulator T la a () = Inr ()" if a: "a < A" for a
  proof -
    have src: "\<forall>i < unat (la_pull_count la). i < length (ct_pulls T) \<longrightarrow> unat (po_source_rank (ct_pulls T ! i)) < 128"
      using s(4) n(3) by (fastforce simp: row_at_def P_def W_def)
    have "a < 2 ^ 32" using a unsigned_less [of "la_accumulator_count la", where 'a = nat] by (simp add: A_def)
    then have a32: "unat (of_nat a :: u32) = a" by (simp add: unat_of_nat_u32)
    have "\<forall>i \<in> set (chain_of T la a). in_chain T la a (ro_journal_token (ct_results T ! unat (ct_result_index T ! a))) i"
      using s(5) [OF a] pl by (auto simp: in_chain_def set_chain_of result_ok_def Let_def P_def word_unat_eq_iff a32)
    then show ?thesis
      unfolding check_accumulator_iff [OF n(5) a [unfolded A_def] lens(2) n(3) src]
      using s(5) [OF a] by (auto simp: result_ok_def Let_def)
  qed
  ultimately show ?thesis using n(4) by (intro validate_plan_all [OF n(1) counter]) (simp_all add: P_def A_def)
qed

text \<open>
  Both directions: the launch goes on to the reduction only for the tables it may use, and for all of them when
  the counter of the accumulators does not wrap.
\<close>

lemma kernel_accepted:
  assumes "launch_valid blocks la = Some (row_bytes, out, tasks)"
    and "init_block blocks la T registrations h = Inr (two, row_bytes, out, tasks)" "validate_plan blocks la T = Inr ()"
  shows "launch_tables la row_bytes T registrations h"
  using accepted_sealed [OF assms] assms(2) [unfolded init_block_iff [OF assms(1) refl refl]]
  by (simp add: launch_tables_def)

lemma kernel_accepts:
  assumes "launch_valid blocks la = Some (row_bytes, out, tasks)" "unat (la_accumulator_count la) + unat blocks \<le> 2 ^ 32"
    and "launch_tables la row_bytes T registrations h"
  shows "(\<exists>two. init_block blocks la T registrations h = Inr (two, row_bytes, out, tasks)) \<and>
    validate_plan blocks la T = Inr ()"
  using sealed_init [OF assms(1,3)] sealed_validates [OF assms(1) _ assms(2)] assms(3) by (simp add: launch_tables_def)

section \<open>The plans of the host\<close>

definition tables_of :: "CombinePullPlan \<Rightarrow> combine_tables" where
  "tables_of plan = \<lparr>ct_source_offsets = pl_source_offsets plan, ct_pulls = pl_pulls plan,
     ct_owner_offsets = pl_owner_offsets plan, ct_results = pl_results plan, ct_pull_next = pl_pull_next plan,
     ct_heads = pl_accumulator_heads plan, ct_counts = pl_accumulator_contributor_counts plan,
     ct_result_index = pl_accumulator_result_index plan\<rparr>"

lemma dense_row:
  assumes "i < length (dense W n)" "length (dense W n) < 2 ^ 32" "dense W n ! i = (unat s, unat row)"
  shows "row_at (offsets_of W n) W i s row"
proof -
  have "dense W n ! i \<in> set (dense W n)" using assms(1) by simp
  then have s: "unat s < W" "unat row < n (unat s)" by (auto simp: assms(3) set_dense)
  let ?j = "sum_list (map n [0..<unat s]) + unat row"
  have "dense W n ! ?j = dense W n ! i" "?j < length (dense W n)"
    using nth_dense [where n = n, OF s] by (simp_all add: assms(3))
  then have "i = ?j" using assms(1) distinct_dense [of W n] by (metis nth_eq_iff_index_eq)
  moreover have "unat (offsets_of W n ! unat s) = sum_list (map n [0..<unat s])"
    by (rule offsets_nth [OF _ assms(2)]) (use s in simp)
  moreover have "unat (offsets_of W n ! Suc (unat s)) = sum_list (map n [0..<Suc (unat s)])"
    by (rule offsets_nth [OF _ assms(2)]) (use s in simp)
  ultimately show ?thesis using s by (simp add: row_at_def)
qed

lemma offsets_of_ok:
  assumes "length (dense W n) < 2 ^ 32"
  shows "offsets_ok (offsets_of W n) W (length (dense W n))"
proof -
  have "unat (offsets_of W n ! s) \<le> unat (offsets_of W n ! Suc s)" if "s < W" for s
    using offsets_nth [OF _ assms, of s] offsets_nth [OF _ assms, of "Suc s"] that by simp
  then show ?thesis
    using offsets_nth [OF _ assms, of 0] offsets_nth [OF _ assms, of W]
    by (auto simp: offsets_ok_def length_dense word_le_nat_alt word_unat_eq_iff offsets_of_def simp del: upt_Suc)
qed

lemma plan_header:
  assumes "CompileCombinePullPlan d config = Inr plan"
  shows "pl_generation plan = jh_generation (cl_journal_header d)" "pl_sequence plan = jh_sequence (cl_journal_header d)"
    "pl_dispatch_cookie plan = jh_dispatch_cookie (cl_journal_header d)" "pl_wave plan = jh_wave (cl_journal_header d)"
    "pl_ring_slot plan = jh_ring_slot (cl_journal_header d)"
  using assms by (auto simp: CompileCombinePullPlan_def vec_eqs Let_def split: if_splits prod.splits)

lemma plan_entries:
  assumes "CompileCombinePullPlan d config = Inr plan" "N = length (cl_journal_tokens d)"
  shows "p \<in> set (pl_pulls plan) \<Longrightarrow> \<exists>j < N. po_journal_token p = of_nat j \<and>
      po_accumulator_index p = jt_accumulator_index (cl_journal_tokens d ! j) \<and> unat (po_accumulator_index p) < N"
    and "r \<in> set (pl_results plan) \<Longrightarrow> \<exists>j < N. ro_journal_token r = of_nat j \<and>
      ro_accumulator_index r = jt_accumulator_index (cl_journal_tokens d ! j) \<and> ro_reserved r = (0, 0, 0)"
    and "\<lbrakk>j < N; k < N; jt_accumulator_index (cl_journal_tokens d ! j) = jt_accumulator_index (cl_journal_tokens d ! k)\<rbrakk> \<Longrightarrow> j = k"
    and "N < 2 ^ 32"
proof -
  have jok: "journal_ok d (unat (cfg_worker_count config)) N" and jb: "\<not> journal_bad d config"
    and pulls: "pl_pulls plan = sort_key pull_key (pulls_upto d N)"
    and results: "pl_results plan = sort_key result_key (results_upto d N)"
    using CompileCombinePullPlan_phases [OF refl assms(2) refl, of config] assms(1) by auto
  show "N < 2 ^ 32" using journal_sizes(4) [OF jb refl] by (simp add: assms(2))
  show "p \<in> set (pl_pulls plan) \<Longrightarrow> \<exists>j < N. po_journal_token p = of_nat j \<and>
      po_accumulator_index p = jt_accumulator_index (cl_journal_tokens d ! j) \<and> unat (po_accumulator_index p) < N"
    using jok by (auto simp: pulls pulls_upto_def pull_of_def journal_ok_def token_ok_def assms(2))
  show "r \<in> set (pl_results plan) \<Longrightarrow> \<exists>j < N. ro_journal_token r = of_nat j \<and>
      ro_accumulator_index r = jt_accumulator_index (cl_journal_tokens d ! j) \<and> ro_reserved r = (0, 0, 0)"
    by (auto simp: results results_upto_def result_of_def)
  have "distinct (map jt_accumulator_index (cl_journal_tokens d))" using jok by (simp add: journal_ok_def assms(2))
  then show "\<lbrakk>j < N; k < N; jt_accumulator_index (cl_journal_tokens d ! j) = jt_accumulator_index (cl_journal_tokens d ! k)\<rbrakk> \<Longrightarrow> j = k"
    by (simp add: assms(2) distinct_conv_nth) (metis)
qed

lemma plan_sealed:
  assumes comp: "CompileCombinePullPlan d config = Inr plan" and la: "launch_of la config plan"
  shows "sealed_tables (tables_of plan) la"
proof -
  define W N where "W = unat (cfg_worker_count config)" and "N = length (cl_journal_tokens d)"
  let ?n = "\<lambda>s. length (cl_destination_rows d ! s)" and ?T = "tables_of plan"
  obtain n' where acc: "unat (pl_accumulator_count plan) = N"
    and dp: "map pull_key (pl_pulls plan) = dense W ?n" and so: "pl_source_offsets plan = offsets_of W ?n"
    and dr: "map result_key (pl_results plan) = dense W n'" and oo: "pl_owner_offsets plan = offsets_of W n'"
    and len: "length (pl_pulls plan) < 2 ^ 32" and res: "pl_results plan = sort_key result_key (results_upto d N)"
    and lnk: "linked (pl_pulls plan) N 0 (pl_pull_next plan, pl_accumulator_heads plan, pl_accumulator_contributor_counts plan)"
    and ind: "indexed (pl_results plan) N (pl_accumulator_contributor_counts plan) (length (pl_results plan)) (pl_accumulator_result_index plan)"
    and inv: "invalid_index \<notin> set (pl_accumulator_result_index plan)"
    using CompileCombinePullPlan_phases [OF W_def N_def refl, of ] comp by auto
  note e = plan_entries [OF comp N_def]
  have lr: "length (pl_results plan) = N" by (simp add: res results_upto_def)
  have P: "unat (la_pull_count la) = length (pl_pulls plan)" and R: "unat (la_result_count la) = N"
    and A: "unat (la_accumulator_count la) = N" and Wl: "unat (la_worker_count la) = W"
    using la len e(4) lr acc by (simp_all add: launch_of_def unat_of_nat_u64 W_def)
  have ldp: "length (dense W ?n) = length (pl_pulls plan)" "length (dense W n') = N"
    using arg_cong [OF dp, of length] arg_cong [OF dr, of length] lr by simp_all
  have chains: "chain_of ?T la a = pulls_for (pl_pulls plan) 0 a" for a by (simp add: chain_of_def P tables_of_def)
  have token: "unat (of_nat j :: u32) = j" if "j < N" for j using that e(4) by (simp add: unat_of_nat_u32)
  have "row_at (pl_source_offsets plan) W i (po_source_rank p) (po_source_row p) \<and>
      unat (po_accumulator_index p) < N \<and> unat (po_journal_token p) < N" if "i < length (pl_pulls plan)" "p = pl_pulls plan ! i" for i p
  proof -
    have "dense W ?n ! i = pull_key p" using that by (simp flip: dp)
    then have "row_at (pl_source_offsets plan) W i (po_source_rank p) (po_source_row p)"
      unfolding so by (intro dense_row) (use that ldp len in simp_all)
    moreover have "p \<in> set (pl_pulls plan)" using that by simp
    ultimately show ?thesis using e(1) [of p] token by auto
  qed
  moreover have "result_ok ?T la a" if a: "a < N" for a
  proof -
    have "pl_accumulator_result_index plan ! a \<noteq> invalid_index" using inv a ind by (metis indexed_def nth_mem)
    then obtain i where i: "i < N" "unat (ro_accumulator_index (pl_results plan ! i)) = a"
      using ind a lr by (auto simp: indexed_def)
    let ?op = "pl_results plan ! i"
    have ix: "pl_accumulator_result_index plan ! a = of_nat i"
      "pl_accumulator_contributor_counts plan ! a = ro_expected_contributors ?op"
      using ind i lr by (auto simp: indexed_def)
    have "dense W n' ! i = result_key ?op" using i lr by (simp flip: dr)
    then have row: "row_at (pl_owner_offsets plan) W i (ro_owner_rank ?op) (ro_owner_row ?op)"
      unfolding oo by (intro dense_row) (use i e(4) ldp in simp_all)
    have "?op \<in> set (pl_results plan)" using i lr by simp
    then obtain j where j: "j < N" "ro_journal_token ?op = of_nat j"
      "ro_accumulator_index ?op = jt_accumulator_index (cl_journal_tokens d ! j)" "ro_reserved ?op = (0, 0, 0)"
      using e(2) by blast
    have "po_journal_token (pl_pulls plan ! k) = ro_journal_token ?op"
      if k: "k < length (pl_pulls plan)" "unat (po_accumulator_index (pl_pulls plan ! k)) = a" for k
    proof -
      have "pl_pulls plan ! k \<in> set (pl_pulls plan)" using k by simp
      then obtain l where l: "l < N" "po_journal_token (pl_pulls plan ! k) = of_nat l"
        "po_accumulator_index (pl_pulls plan ! k) = jt_accumulator_index (cl_journal_tokens d ! l)" using e(1) by blast
      have "po_accumulator_index (pl_pulls plan ! k) = ro_accumulator_index ?op" using k(2) i(2) by (simp add: word_unat_eq_iff)
      then have "l = j" using e(3) [OF l(1) j(1)] l(3) j(3) by simp
      then show ?thesis using l(2) j(2) by simp
    qed
    then show ?thesis
      using i ix row j token lr by (auto simp: result_ok_def Let_def tables_of_def R A Wl set_chain_of P)
  qed
  moreover have "offsets_ok (pl_source_offsets plan) W (length (pl_pulls plan))" "offsets_ok (pl_owner_offsets plan) W N"
    using offsets_of_ok [of W ?n] offsets_of_ok [of W n'] ldp len e(4) by (simp_all add: so oo)
  moreover have "length (pulls_for (pl_pulls plan) 0 a) < 2 ^ 32" for a
    using len by (intro le_less_trans [OF length_filter_le]) simp
  ultimately show ?thesis
    using lnk ind unfolding sealed_tables_def Let_def chains P R A Wl
    by (auto simp: tables_of_def linked_def indexed_def unat_of_nat_u32)
qed

section \<open>No access behind the tables\<close>

text \<open>The memory the caller hands over is as large as the numbers of the launch say.\<close>

definition tables_fit :: "combine_tables \<Rightarrow> CombineRegionRegistration list \<Rightarrow> combine_launch \<Rightarrow> bool" where
  "tables_fit T registrations la \<longleftrightarrow>
     unat (la_worker_count la) \<le> length registrations \<and>
     unat (la_worker_count la) < length (ct_source_offsets T) \<and> unat (la_worker_count la) < length (ct_owner_offsets T) \<and>
     unat (la_pull_count la) \<le> length (ct_pulls T) \<and> unat (la_pull_count la) \<le> length (ct_pull_next T) \<and>
     unat (la_result_count la) \<le> length (ct_results T) \<and>
     unat (la_accumulator_count la) \<le> length (ct_heads T) \<and> unat (la_accumulator_count la) \<le> length (ct_counts T) \<and>
     unat (la_accumulator_count la) \<le> length (ct_result_index T)"

definition safe :: "('e, 'a) res \<Rightarrow> bool" where
  "safe m \<longleftrightarrow> m \<noteq> Inl Oob \<and> m \<noteq> Inl Hang"

lemma safe_simps [simp]: "safe (Inr x)" "safe (fail e)" "\<not> safe (Inl Oob)" "\<not> safe (Inl Hang)" "safe (Inl (Ret e))"
  by (simp_all add: safe_def fail_def)

lemma safe_bind: "safe (rbind m f) \<longleftrightarrow> safe m \<and> (\<forall>x. m = Inr x \<longrightarrow> safe (f x))"
  by (cases m) (auto simp: safe_def)

lemma safe_vget [simp]: "safe (vget xs i) \<longleftrightarrow> i < length xs"
  by (simp add: vget_def)

lemma safe_mfold: "(\<And>x u. x \<in> set xs \<Longrightarrow> safe (f x u)) \<Longrightarrow> safe (mfold f xs s)"
  by (induction xs arbitrary: s) (auto simp: safe_bind)

lemma safe_both: "safe m1 \<Longrightarrow> safe m2 \<Longrightarrow> safe (both m1 m2)"
  by (auto simp: both_def safe_def split: sum.splits fault.splits)

lemma next_rank_fits:
  assumes "\<not> la_worker_count la \<le> s" "unat (la_worker_count la) \<le> 128" "unat (la_worker_count la) < n"
  shows "unat s < n \<and> unat (s + 1) < n"
proof -
  have "unat s < unat (la_worker_count la)" using assms(1) by (simp add: word_le_nat_alt)
  moreover have "unat (s + 1) = Suc (unat s)" using calculation assms(2) by (intro unat_Suc_u32) simp
  ultimately show ?thesis using assms(3) by simp
qed

lemma check_chain_safe:
  "tables_fit T registrations la \<Longrightarrow> safe (check_chain n T la a token seen current)"
proof (induction n arbitrary: seen current)
  case (Suc n)
  have "unat current < unat (la_pull_count la)" if "\<not> la_pull_count la \<le> ucast current"
    using that by (simp add: word_le_nat_alt unat_ucast_u64)
  then show ?case
    using Suc by (auto simp: safe_bind vec_eqs tables_fit_def)
qed simp

lemma checks_safe:
  assumes fit: "tables_fit T registrations la" and W: "unat (la_worker_count la) \<le> 128"
  shows "i < unat (la_pull_count la) \<Longrightarrow> safe (check_pull T la i u)"
    and "a < unat (la_accumulator_count la) \<Longrightarrow> safe (check_accumulator T la a u)"
proof -
  have nx: "unat s < length (ct_source_offsets T) \<and> unat (s + 1) < length (ct_source_offsets T) \<and>
      unat s < length (ct_owner_offsets T) \<and> unat (s + 1) < length (ct_owner_offsets T)"
    if "\<not> la_worker_count la \<le> s" for s
    using next_rank_fits [OF that W] fit by (simp add: tables_fit_def)
  have p: "unat s < length (ct_pulls T)" if "\<not> la_pull_count la \<le> ucast (s :: u32)" for s
    using that fit by (simp add: word_le_nat_alt unat_ucast_u64 tables_fit_def)
  have r: "unat s < length (ct_results T)" if "\<not> la_result_count la \<le> ucast (s :: u32)" for s
    using that fit by (simp add: word_le_nat_alt unat_ucast_u64 tables_fit_def)
  have len: "unat (la_pull_count la) \<le> length (ct_pulls T)" "unat (la_pull_count la) \<le> length (ct_pull_next T)"
    "unat (la_accumulator_count la) \<le> length (ct_heads T)" "unat (la_accumulator_count la) \<le> length (ct_counts T)"
    "unat (la_accumulator_count la) \<le> length (ct_result_index T)"
    using fit by (simp_all add: tables_fit_def)
  show "i < unat (la_pull_count la) \<Longrightarrow> safe (check_pull T la i u)"
    using len nx p by (auto simp: check_pull_def safe_bind vec_eqs)
  show "a < unat (la_accumulator_count la) \<Longrightarrow> safe (check_accumulator T la a u)"
    using len nx r check_chain_safe [OF fit] by (auto simp: check_accumulator_def safe_bind vec_eqs)
qed

lemma init_safe:
  assumes fit: "tables_fit T registrations la"
  shows "safe (init_block blocks la T registrations h)"
proof -
  have reg: "safe (mfold (check_registration registrations la) [0..<unat (la_worker_count la)] ())"
    using fit by (intro safe_mfold) (simp add: check_registration_def safe_bind tables_fit_def)
  have tot: "safe (check_totals T la)"
    using fit by (auto simp: check_totals_def safe_bind tables_fit_def vec_eqs)
  have cnt: "safe (mfold (count_accumulator T la) [0..<unat (la_accumulator_count la)] s)" for s
    using fit by (intro safe_mfold) (auto simp: safe_bind tables_fit_def vec_eqs split: prod.splits option.splits)
  have own: "safe (mfold (owner_extent T row_bytes) [0..<unat (la_worker_count la)] m)" for row_bytes m
    using fit by (intro safe_mfold) (auto simp: owner_extent_def safe_bind tables_fit_def vec_eqs Let_def split: option.splits)
  show ?thesis
    using reg tot cnt own by (auto simp: init_block_def Let_def safe_bind split: option.splits)
qed

lemma run_strided_safe:
  fixes blocks n i :: "'w::len word"
  assumes "0 < unat blocks" "unat n + unat blocks \<le> 2 ^ LENGTH('w)" "\<And>j. j < unat n \<Longrightarrow> safe (body j ())"
  shows "safe (run_strided body blocks n i)"
  unfolding run_strided_eq [OF assms(1,2)]
  by (rule safe_mfold) (use assms(3) set_strided [OF assms(1)] in auto)

lemma both_inside: "m1 \<noteq> Inl Oob \<Longrightarrow> m2 \<noteq> Inl Oob \<Longrightarrow> both m1 m2 \<noteq> Inl Oob"
  by (auto simp: both_def split: sum.splits fault.splits)

lemma validate_inside:
  assumes fit: "tables_fit T registrations la" and W: "unat (la_worker_count la) \<le> 128"
  shows "validate_plan blocks la T \<noteq> Inl Oob"
proof -
  have "check_pull T la i () \<noteq> Inl Oob" if "i < unat (la_pull_count la)" for i
    using checks_safe(1) [OF fit W that] by (simp add: safe_def)
  moreover have "check_accumulator T la a () \<noteq> Inl Oob" if "a < unat (la_accumulator_count la)" for a
    using checks_safe(2) [OF fit W that] by (simp add: safe_def)
  ultimately have block: "validate_block blocks la T b \<noteq> Inl Oob" for b
    unfolding validate_block_def by (intro both_inside run_strided_inside)
  have "m \<noteq> Inl Oob \<Longrightarrow> fold (\<lambda>block m. both m (validate_block blocks la T (of_nat block))) bs m \<noteq> Inl Oob" for bs m
    by (induction bs arbitrary: m) (simp_all add: both_inside block)
  then show ?thesis by (simp add: validate_plan_def)
qed

lemma validate_safe:
  assumes fit: "tables_fit T registrations la" and W: "unat (la_worker_count la) \<le> 128" and "0 < unat blocks"
    and "unat (la_accumulator_count la) + unat blocks \<le> 2 ^ 32" "unat (la_pull_count la) < 2 ^ 32"
  shows "safe (validate_plan blocks la T)"
proof -
  have "unat (la_pull_count la) + unat (ucast blocks :: u64) \<le> 2 ^ 64" "0 < unat (ucast blocks :: u64)"
    using assms(3,5) unsigned_less [of blocks, where 'a = nat] by (simp_all add: unat_ucast_u64)
  then have block: "safe (validate_block blocks la T b)" for b
    unfolding validate_block_def
    using assms(3,4) by (intro safe_both run_strided_safe checks_safe [OF fit W]) simp_all
  have "safe m \<Longrightarrow> safe (fold (\<lambda>block m. both m (validate_block blocks la T (of_nat block))) bs m)" for bs m
    by (induction bs arbitrary: m) (simp_all add: safe_both block)
  then show ?thesis by (simp add: validate_plan_def)
qed

end
