(* ===== verification/Combine_Tiles.thy ===== *)
theory Combine_Tiles
  imports Combine_Kernel
begin

text \<open>
  The reduction of the combine kernel (\<open>inc_dc_pull_combine_v2_device_kernel.cpp\<close>): the search for a ready
  contributor, the tile of an accumulator on the general path and on the path for two contributors, and the
  split of the tasks among the blocks. The vector unit is a parameter: the addition and the zero of tiles, and
  what a GET of a worker's memory brings. The hardware events are counters; a wait for an event that was not
  set is \<open>Hang\<close>, so that a deadlock of the pipes shows. A transfer fills its buffer when it is issued. What
  other blocks and workers do meanwhile is an argument: for every pass of a waiting loop the sources that
  read ready and the status word after the pass; the list of the passes ends when the cycle limit does.
\<close>

section \<open>Model\<close>

datatype event = PingMte2V | PingVMte2 | PongMte2V | PongVMte2 | Mte3V | VMte3

datatype ub_slot = Ping | Pong | Acc

record 'v tile_state =
  ts_events :: "event \<Rightarrow> nat"
  ts_ub :: "ub_slot \<Rightarrow> 'v"
  ts_gets :: "(u32 \<times> u64 \<times> u32) list"
  ts_puts :: "(u32 \<times> u64 \<times> u32 \<times> 'v) list"

record 'v vector_unit =
  vu_zero :: 'v
  vu_add :: "'v \<Rightarrow> 'v \<Rightarrow> 'v"
  vu_get :: "u32 \<Rightarrow> u64 \<Rightarrow> u32 \<Rightarrow> 'v"

type_synonym passes = "((nat \<Rightarrow> bool) \<times> u32) list"

definition WaitFlag :: "event \<Rightarrow> 'v tile_state \<Rightarrow> (u32, 'v tile_state) res" where
  "WaitFlag e st =
     (if ts_events st e = 0 then Inl Hang
      else Inr (st\<lparr>ts_events := (ts_events st)(e := ts_events st e - 1)\<rparr>))"

definition SetFlag :: "event \<Rightarrow> 'v tile_state \<Rightarrow> 'v tile_state" where
  "SetFlag e st = st\<lparr>ts_events := (ts_events st)(e := ts_events st e + 1)\<rparr>"

fun mte2_v :: "ub_slot \<Rightarrow> event" where
  "mte2_v Ping = PingMte2V" | "mte2_v _ = PongMte2V"

fun v_mte2 :: "ub_slot \<Rightarrow> event" where
  "v_mte2 Ping = PingVMte2" | "v_mte2 _ = PongVMte2"

fun other :: "ub_slot \<Rightarrow> ub_slot" where
  "other Ping = Pong" | "other _ = Ping"

definition PullFp32ToUb ::
  "'v vector_unit \<Rightarrow> ub_slot \<Rightarrow> u64 \<Rightarrow> u32 \<Rightarrow> u32 \<Rightarrow> 'v tile_state \<Rightarrow> (u32, 'v tile_state) res" where
  "PullFp32ToUb vu ping source elements source_pe st =
     rbind (WaitFlag (v_mte2 ping) st) (\<lambda>st.
       Inr (SetFlag (mte2_v ping) (st\<lparr>ts_ub := (ts_ub st)(ping := vu_get vu source_pe source elements),
         ts_gets := ts_gets st @ [(source_pe, source, elements)]\<rparr>)))"

definition PutFp32ToOwner ::
  "ub_slot \<Rightarrow> u64 \<Rightarrow> u32 \<Rightarrow> u32 \<Rightarrow> 'v tile_state \<Rightarrow> (u32, 'v tile_state) res" where
  "PutFp32ToOwner source destination elements owner st =
     rbind (WaitFlag VMte3 st) (\<lambda>st.
       Inr (SetFlag Mte3V (st\<lparr>ts_puts := ts_puts st @ [(owner, destination, elements, ts_ub st source)]\<rparr>)))"

text \<open>One pass along the chain; a chain has no more members than there are pulls.\<close>

fun scan_chain ::
  "nat \<Rightarrow> combine_tables \<Rightarrow> (nat \<Rightarrow> bool) \<Rightarrow> u64 \<times> u64 \<Rightarrow> u32 \<Rightarrow> (u32, u32) res" where
  "scan_chain fuel T ready seen index =
     (if index = kInvalidIndex then Inr kInvalidIndex
      else case fuel of 0 \<Rightarrow> Inl Hang
      | Suc fuel' \<Rightarrow>
        rbind (vget (ct_pulls T) (unat index)) (\<lambda>p.
          if \<not> SeenSource (fst seen) (snd seen) (po_source_rank p) \<and> ready (unat (po_source_rank p)) then Inr index
          else rbind (vget (ct_pull_next T) (unat index)) (scan_chain fuel' T ready seen)))"

declare scan_chain.simps [simp del]

fun FindReadyContributor ::
  "combine_tables \<Rightarrow> passes \<Rightarrow> u32 \<Rightarrow> u64 \<times> u64 \<Rightarrow> (u32, u32) res" where
  "FindReadyContributor T [] head seen = fail kStatusNotReady"
| "FindReadyContributor T ((ready, status) # passes) head seen =
     rbind (scan_chain (length (ct_pulls T) + 1) T ready seen head) (\<lambda>index.
       if index \<noteq> kInvalidIndex then Inr index
       else if status \<noteq> kStatusOk then fail status
       else FindReadyContributor T passes head seen)"

fun WaitSourceReady :: "passes \<Rightarrow> nat \<Rightarrow> (u32, unit) res" where
  "WaitSourceReady [] source = fail kStatusNotReady"
| "WaitSourceReady ((ready, status) # passes) source =
     (if ready source then Inr ()
      else if status \<noteq> kStatusOk then fail status else WaitSourceReady passes source)"

text \<open>
  The GET of the tile of one pull. \<open>Some\<close> failure code, or \<open>None\<close> when the transfer was issued; the same
  for the routines below, whose C++ result is false exactly with a failure code.
\<close>

definition issue_pull ::
  "'v vector_unit \<Rightarrow> combine_tables \<Rightarrow> u64 list \<Rightarrow> u64 \<Rightarrow> u64 \<Rightarrow> u32 \<Rightarrow> ub_slot \<Rightarrow> u32 \<Rightarrow> 'v tile_state \<Rightarrow>
     (u32, u32 option \<times> 'v tile_state) res" where
  "issue_pull vu T payload_offsets row_bytes element_begin elements ping index st =
     rbind (vget (ct_pulls T) (unat index)) (\<lambda>op.
       case CheckedMulU64ByU32 row_bytes (po_source_row op) of
         None \<Rightarrow> Inr (Some kStatusSizeOverflow, st)
       | Some row_offset \<Rightarrow>
         rbind (vget payload_offsets (unat (po_source_rank op))) (\<lambda>payload_offset.
         rbind (PullFp32ToUb vu ping (payload_offset + row_offset + 4 * element_begin) elements (po_source_rank op) st)
           (\<lambda>st. Inr (None, st))))"

definition add_tile :: "'v vector_unit \<Rightarrow> ub_slot \<Rightarrow> 'v tile_state \<Rightarrow> 'v tile_state" where
  "add_tile vu ping st = st\<lparr>ts_ub := (ts_ub st)(Acc := vu_add vu (ts_ub st Acc) (ts_ub st ping))\<rparr>"

text \<open>The main loop; the first number is what is left of the expected contributors.\<close>

fun reduce_contributors ::
  "nat \<Rightarrow> 'v vector_unit \<Rightarrow> combine_tables \<Rightarrow> u64 list \<Rightarrow> u64 \<Rightarrow> u64 \<Rightarrow> u32 \<Rightarrow> (nat \<Rightarrow> passes) \<Rightarrow> u32 \<Rightarrow>
     u32 \<Rightarrow> u64 \<times> u64 \<Rightarrow> ub_slot \<Rightarrow> 'v tile_state \<Rightarrow> (u32, u32 option \<times> 'v tile_state) res" where
  "reduce_contributors 0 vu T offs row_bytes element_begin elements waits head current seen ping st = Inr (None, st)"
| "reduce_contributors (Suc remaining) vu T offs row_bytes element_begin elements waits head current seen ping st =
     rbind (WaitFlag (mte2_v ping) st) (\<lambda>st.
     rbind (vget (ct_pulls T) (unat current)) (\<lambda>op.
     (let seen = MarkSource seen (po_source_rank op) in
      if remaining = 0 then Inr (None, SetFlag (v_mte2 ping) (add_tile vu ping st))
      else case FindReadyContributor T (waits remaining) head seen of
        Inl (Ret status) \<Rightarrow>
          Inr (Some status, SetFlag Mte3V (SetFlag (v_mte2 ping) (add_tile vu ping st)))
      | Inl f \<Rightarrow> Inl f
      | Inr next \<Rightarrow>
        rbind (issue_pull vu T offs row_bytes element_begin elements (other ping) next st) (\<lambda>(failure, st).
          case failure of
            Some status \<Rightarrow> Inr (Some status, SetFlag Mte3V st)
          | None \<Rightarrow> reduce_contributors remaining vu T offs row_bytes element_begin elements waits head next seen
              (other ping) (SetFlag (v_mte2 ping) (add_tile vu ping st))))))"

definition put_result ::
  "combine_tables \<Rightarrow> u64 \<Rightarrow> u64 \<Rightarrow> nat \<Rightarrow> u64 \<Rightarrow> u32 \<Rightarrow> 'v tile_state \<Rightarrow> (u32, u32 option \<times> 'v tile_state) res" where
  "put_result T row_bytes output_slot_offset accumulator element_begin elements st =
     rbind (vget (ct_result_index T) accumulator) (\<lambda>result_index.
     rbind (vget (ct_results T) (unat result_index)) (\<lambda>result.
       case CheckedMulU64ByU32 row_bytes (ro_owner_row result) of
         None \<Rightarrow> Inr (Some kStatusSizeOverflow, SetFlag Mte3V st)
       | Some row_offset \<Rightarrow>
         rbind (PutFp32ToOwner Acc (output_slot_offset + row_offset + 4 * element_begin) elements
             (ro_owner_rank result) (SetFlag VMte3 st)) (\<lambda>st. Inr (None, st))))"

definition ReduceAccumulatorTile ::
  "'v vector_unit \<Rightarrow> combine_tables \<Rightarrow> u64 list \<Rightarrow> u64 \<Rightarrow> u64 \<Rightarrow> (nat \<Rightarrow> passes) \<Rightarrow> nat \<Rightarrow> u64 \<Rightarrow> u32 \<Rightarrow>
     'v tile_state \<Rightarrow> (u32, u32 option \<times> 'v tile_state) res" where
  "ReduceAccumulatorTile vu T offs row_bytes output_slot_offset waits accumulator element_begin elements st =
     rbind (WaitFlag Mte3V st) (\<lambda>st.
     (let st = st\<lparr>ts_ub := (ts_ub st)(Acc := vu_zero vu)\<rparr> in
      rbind (vget (ct_counts T) accumulator) (\<lambda>expected.
      if expected = 0 then put_result T row_bytes output_slot_offset accumulator element_begin elements st
      else rbind (vget (ct_heads T) accumulator) (\<lambda>head.
        case FindReadyContributor T (waits (unat expected)) head (0, 0) of
          Inl (Ret status) \<Rightarrow> Inr (Some status, SetFlag Mte3V st)
        | Inl f \<Rightarrow> Inl f
        | Inr current \<Rightarrow>
          rbind (issue_pull vu T offs row_bytes element_begin elements Ping current st) (\<lambda>(failure, st).
            case failure of
              Some status \<Rightarrow> Inr (Some status, SetFlag Mte3V st)
            | None \<Rightarrow>
              rbind (reduce_contributors (unat expected) vu T offs row_bytes element_begin elements waits head current
                  (0, 0) Ping st) (\<lambda>(failure, st).
                case failure of
                  Some status \<Rightarrow> Inr (Some status, st)
                | None \<Rightarrow> put_result T row_bytes output_slot_offset accumulator element_begin elements st))))))"

section \<open>The search for a ready contributor\<close>

text \<open>A chain of distinct pulls whose sources are ranks of the session.\<close>

definition good_chain :: "combine_tables \<Rightarrow> u32 \<Rightarrow> nat list \<Rightarrow> bool" where
  "good_chain T head xs \<longleftrightarrow> chain (ct_pull_next T) head xs \<and>
     distinct (map (\<lambda>i. po_source_rank (ct_pulls T ! i)) xs) \<and>
     (\<forall>i \<in> set xs. i < length (ct_pulls T) \<and> unat (po_source_rank (ct_pulls T ! i)) < 128)"

abbreviation source_of :: "combine_tables \<Rightarrow> nat \<Rightarrow> nat" where
  "source_of T i \<equiv> unat (po_source_rank (ct_pulls T ! i))"

lemma good_chain_fuel: "good_chain T head xs \<Longrightarrow> length xs < length (ct_pulls T) + 1"
proof -
  assume g: "good_chain T head xs"
  have "distinct xs" using g by (auto simp: good_chain_def distinct_map)
  then have "length xs = card (set xs)" by (simp add: distinct_card)
  also have "\<dots> \<le> card {..<length (ct_pulls T)}" using g by (intro card_mono) (auto simp: good_chain_def)
  finally show ?thesis by simp
qed

lemma scan_chain_eq:
  assumes "chain (ct_pull_next T) current ys" "length ys < fuel"
    and "\<forall>i \<in> set ys. i < length (ct_pulls T) \<and> source_of T i < 128"
  shows "scan_chain fuel T ready seen current =
    Inr (case filter (\<lambda>i. source_of T i \<notin> seen_set seen \<and> ready (source_of T i)) ys of
      [] \<Rightarrow> kInvalidIndex | i # _ \<Rightarrow> of_nat i)"
  using assms
proof (induction ys arbitrary: current fuel)
  case Nil
  then show ?case by (subst scan_chain.simps) (simp add: kInvalidIndex_eq)
next
  case (Cons i ys)
  then obtain f where f: "fuel = Suc f" by (cases fuel) auto
  have c: "current \<noteq> invalid_index" "unat current = i" "i < length (ct_pull_next T)"
    "chain (ct_pull_next T) (ct_pull_next T ! i) ys" using Cons.prems(1) by auto
  have s: "source_of T i < 128" "i < length (ct_pulls T)" using Cons.prems(3) by auto
  have cur: "current = of_nat i" using c(2) by auto
  show ?case
  proof (cases "source_of T i \<notin> seen_set seen \<and> ready (source_of T i)")
    case True
    then show ?thesis
      using c s SeenSource_iff [OF s(1), of seen] by (subst scan_chain.simps) (simp add: f kInvalidIndex_eq cur)
  next
    case False
    have "scan_chain fuel T ready seen current = scan_chain f T ready seen (ct_pull_next T ! i)"
      using c s SeenSource_iff [OF s(1), of seen] False
      by (subst scan_chain.simps) (auto simp: f kInvalidIndex_eq)
    then show ?thesis using Cons.IH [OF c(4), of f] Cons.prems False by (auto simp: f)
  qed
qed

lemma of_nat_valid: "i < length (ct_pulls T) \<Longrightarrow> chain (ct_pull_next T) h xs \<Longrightarrow> i \<in> set xs \<Longrightarrow>
    (of_nat i :: u32) \<noteq> invalid_index \<and> unat (of_nat i :: u32) = i"
proof (induction xs arbitrary: h)
  case (Cons x xs)
  show ?case
  proof (cases "i = x")
    case True
    then have "h \<noteq> invalid_index" "unat h = i" using Cons.prems(2) by auto
    moreover have "of_nat i = h" using calculation(2) by auto
    ultimately show ?thesis by simp
  next
    case False
    then show ?thesis using Cons.IH [of "ct_pull_next T ! x"] Cons.prems by simp
  qed
qed simp

text \<open>A wait in which all sources read ready before the time is over and before another block reports a failure.\<close>

fun in_time :: "passes \<Rightarrow> bool" where
  "in_time [] = False"
| "in_time ((ready, status) # passes) = ((\<forall>s. ready s) \<or> status = kStatusOk \<and> in_time passes)"

text \<open>
  The status words any other wait can end with: its own time limit, or what another block reported.
\<close>

definition wait_failure :: "passes \<Rightarrow> u32 \<Rightarrow> bool" where
  "wait_failure passes e \<longleftrightarrow> \<not> in_time passes \<and>
     (e = kStatusNotReady \<or> e \<noteq> kStatusOk \<and> (\<exists>ready. (ready, e) \<in> set passes))"

definition was_ready :: "passes \<Rightarrow> nat \<Rightarrow> bool" where
  "was_ready passes s \<longleftrightarrow> (\<exists>p \<in> set passes. fst p s)"

lemma FindReadyContributor_cases:
  assumes g: "good_chain T head xs" and unseen: "\<exists>i \<in> set xs. source_of T i \<notin> seen_set seen"
  obtains (found) i where "FindReadyContributor T passes head seen = Inr (of_nat i)" "i \<in> set xs"
      "source_of T i \<notin> seen_set seen" "was_ready passes (source_of T i)"
      "(of_nat i :: u32) \<noteq> kInvalidIndex" "unat (of_nat i :: u32) = i"
    | (none) e where "FindReadyContributor T passes head seen = fail e" "wait_failure passes e"
proof -
  have "(\<exists>i. FindReadyContributor T passes head seen = Inr (of_nat i) \<and> i \<in> set xs \<and> source_of T i \<notin> seen_set seen \<and>
        was_ready passes (source_of T i)) \<or>
      (\<exists>e. FindReadyContributor T passes head seen = fail e \<and> wait_failure passes e)"
  proof (induction passes)
    case Nil
    then show ?case by (simp add: wait_failure_def)
  next
    case (Cons p passes)
    obtain ready status where p: "p = (ready, status)" by fastforce
    let ?ys = "filter (\<lambda>i. source_of T i \<notin> seen_set seen \<and> ready (source_of T i)) xs"
    have scan: "scan_chain (length (ct_pulls T) + 1) T ready seen head =
        Inr (case ?ys of [] \<Rightarrow> kInvalidIndex | i # _ \<Rightarrow> of_nat i)"
      using g good_chain_fuel [OF g] by (intro scan_chain_eq) (auto simp: good_chain_def)
    show ?case
    proof (cases ?ys)
      case (Cons i ys)
      then have i: "i \<in> set xs" "source_of T i \<notin> seen_set seen" "ready (source_of T i)"
        by (auto dest!: Cons_eq_filterD [OF sym])
      then have "(of_nat i :: u32) \<noteq> kInvalidIndex"
        using g of_nat_valid [of i T head xs] by (auto simp: good_chain_def kInvalidIndex_eq)
      then show ?thesis using i scan Cons by (auto simp: p was_ready_def)
    next
      case Nil
      then have "\<not> (\<forall>s. ready s)" using unseen by (auto simp: filter_empty_conv)
      then show ?thesis
        using scan Cons.IH Nil by (auto simp: p was_ready_def wait_failure_def)
    qed
  qed
  moreover have "(of_nat i :: u32) \<noteq> kInvalidIndex" "unat (of_nat i :: u32) = i" if "i \<in> set xs" for i
    using g of_nat_valid [of i T head xs] that by (auto simp: good_chain_def kInvalidIndex_eq)
  ultimately show thesis using that by blast
qed

section \<open>One tile\<close>

definition tile_address :: "combine_tables \<Rightarrow> u64 list \<Rightarrow> u64 \<Rightarrow> u64 \<Rightarrow> nat \<Rightarrow> u64" where
  "tile_address T offs row_bytes element_begin i =
     offs ! source_of T i + ucast (po_source_row (ct_pulls T ! i)) * row_bytes + 4 * element_begin"

definition tile_read :: "combine_tables \<Rightarrow> u64 list \<Rightarrow> u64 \<Rightarrow> u64 \<Rightarrow> u32 \<Rightarrow> nat \<Rightarrow> u32 \<times> u64 \<times> u32" where
  "tile_read T offs row_bytes element_begin elements i =
     (po_source_rank (ct_pulls T ! i), tile_address T offs row_bytes element_begin i, elements)"

definition tile_value :: "'v vector_unit \<Rightarrow> combine_tables \<Rightarrow> u64 list \<Rightarrow> u64 \<Rightarrow> u64 \<Rightarrow> u32 \<Rightarrow> nat \<Rightarrow> 'v" where
  "tile_value vu T offs row_bytes element_begin elements i =
     vu_get vu (po_source_rank (ct_pulls T ! i)) (tile_address T offs row_bytes element_begin i) elements"

definition tile_sum :: "'v vector_unit \<Rightarrow> 'v list \<Rightarrow> 'v" where
  "tile_sum vu vs = foldl (vu_add vu) (vu_zero vu) vs"

definition rows_fit :: "combine_tables \<Rightarrow> u64 list \<Rightarrow> u64 \<Rightarrow> nat list \<Rightarrow> bool" where
  "rows_fit T offs row_bytes xs \<longleftrightarrow>
     (\<forall>i \<in> set xs. unat row_bytes * unat (po_source_row (ct_pulls T ! i)) < 2 ^ 64 \<and> source_of T i < length offs)"

definition loop_events :: "ub_slot \<Rightarrow> event \<Rightarrow> nat" where
  "loop_events ping e = (if e = mte2_v ping \<or> e = v_mte2 (other ping) then 1 else 0)"

definition drained_events :: "event \<Rightarrow> nat" where
  "drained_events e = (if e = PingVMte2 \<or> e = PongVMte2 then 1 else 0)"

definition idle_events :: "event \<Rightarrow> nat" where
  "idle_events e = (if e = PingVMte2 \<or> e = PongVMte2 \<or> e = Mte3V then 1 else 0)"

lemma other_slot: "ping = Ping \<or> ping = Pong \<Longrightarrow> other (other ping) = ping \<and> other ping \<noteq> ping \<and> (other ping = Ping \<or> other ping = Pong)"
  by auto

lemma CheckedMul_fits:
  "unat v * unat (f :: u32) < 2 ^ 64 \<Longrightarrow> CheckedMulU64ByU32 v f = Some (ucast f * v)"
  by (simp add: CheckedMulU64ByU32_Mul Mul_eq_Some unat_ucast_u64 mult.commute)

lemma issue_pull_eq:
  assumes g: "good_chain T head xs" and fit: "rows_fit T offs row_bytes xs" and i: "i \<in> set xs" "unat index = i"
    and ev: "ts_events st (v_mte2 ping) = Suc k"
  shows "issue_pull vu T offs row_bytes eb elements ping index st =
    Inr (None, st\<lparr>ts_events := (ts_events st)(v_mte2 ping := k, mte2_v ping := ts_events st (mte2_v ping) + 1),
      ts_ub := (ts_ub st)(ping := tile_value vu T offs row_bytes eb elements i),
      ts_gets := ts_gets st @ [tile_read T offs row_bytes eb elements i]\<rparr>)"
proof -
  have p: "i < length (ct_pulls T)" using g i by (auto simp: good_chain_def)
  have m: "CheckedMulU64ByU32 row_bytes (po_source_row (ct_pulls T ! i)) =
      Some (ucast (po_source_row (ct_pulls T ! i)) * row_bytes)"
    using fit i by (intro CheckedMul_fits) (auto simp: rows_fit_def)
  have o: "source_of T i < length offs" using fit i by (auto simp: rows_fit_def)
  have "v_mte2 ping \<noteq> mte2_v ping" by (cases ping) auto
  then show ?thesis
    using p m o ev i
    by (simp add: issue_pull_def PullFp32ToUb_def WaitFlag_def SetFlag_def tile_address_def tile_read_def tile_value_def)
qed

lemma loop_event_steps:
  assumes "ping = Ping \<or> ping = Pong"
  shows "(loop_events ping)(mte2_v ping := 0, v_mte2 ping := Suc 0) = drained_events"
    and "(loop_events ping)(mte2_v ping := 0, v_mte2 ping := Suc 0, Mte3V := Suc 0) = idle_events"
    and "(loop_events ping)(mte2_v ping := 0, v_mte2 (other ping) := 0, mte2_v (other ping) := Suc 0, v_mte2 ping := Suc 0) =
      loop_events (other ping)"
    and "loop_events ping (mte2_v ping) = Suc 0" "loop_events ping (v_mte2 ping) = 0" "loop_events ping Mte3V = 0"
    and "loop_events ping (v_mte2 (other ping)) = Suc 0" "loop_events ping (mte2_v (other ping)) = 0"
  using assms by (auto simp: fun_eq_iff loop_events_def drained_events_def idle_events_def)

lemma distinct_slots:
  assumes "ping = Ping \<or> ping = Pong"
  shows "mte2_v ping \<noteq> v_mte2 ping" "v_mte2 ping \<noteq> mte2_v ping" "v_mte2 ping \<noteq> Mte3V" "Mte3V \<noteq> v_mte2 ping"
    "v_mte2 (other ping) \<noteq> mte2_v ping" "mte2_v ping \<noteq> v_mte2 (other ping)" "v_mte2 (other ping) \<noteq> v_mte2 ping"
    "v_mte2 ping \<noteq> v_mte2 (other ping)" "mte2_v (other ping) \<noteq> v_mte2 ping" "v_mte2 ping \<noteq> mte2_v (other ping)"
    "mte2_v (other ping) \<noteq> mte2_v ping" "mte2_v ping \<noteq> mte2_v (other ping)" "Mte3V \<noteq> mte2_v ping" "mte2_v ping \<noteq> Mte3V"
    "v_mte2 (other ping) \<noteq> mte2_v (other ping)" "mte2_v (other ping) \<noteq> v_mte2 (other ping)"
  using assms by auto

text \<open>What the main loop does from the contributor in the buffer on: \<open>ys\<close> are added, \<open>i\<close> is in flight.\<close>

lemma reduce_contributors_run:
  assumes g: "good_chain T head xs" and fit: "rows_fit T offs row_bytes xs"
    and "ping = Ping \<or> ping = Pong" "distinct (ys @ [i])" "set (ys @ [i]) \<subseteq> set xs" "length xs = length ys + n" "0 < n"
    and "seen_set seen = source_of T ` set ys" "unat current = i" "ts_events st = loop_events ping"
    and "ts_ub st ping = tile_value vu T offs row_bytes eb elements i"
    and "ts_ub st Acc = tile_sum vu (map (tile_value vu T offs row_bytes eb elements) ys)"
  shows "\<exists>failure st'. reduce_contributors n vu T offs row_bytes eb elements waits head current seen ping st = Inr (failure, st') \<and>
    ts_puts st' = ts_puts st \<and>
    (case failure of
       None \<Rightarrow> ts_events st' = drained_events \<and>
         (\<exists>zs. mset (ys @ i # zs) = mset xs \<and> (\<forall>z \<in> set zs. \<exists>k. was_ready (waits k) (source_of T z)) \<and>
           ts_gets st' = ts_gets st @ map (tile_read T offs row_bytes eb elements) zs \<and>
           ts_ub st' Acc = tile_sum vu (map (tile_value vu T offs row_bytes eb elements) (ys @ i # zs)))
     | Some e \<Rightarrow> ts_events st' = idle_events \<and> (\<exists>k. wait_failure (waits k) e))"
  using assms(3-)
proof (induction n arbitrary: ys i seen current ping st)
  case (Suc n)
  let ?val = "tile_value vu T offs row_bytes eb elements"
  define st1 where "st1 = st\<lparr>ts_events := (loop_events ping)(mte2_v ping := 0)\<rparr>"
  have w: "WaitFlag (mte2_v ping) st = Inr st1"
  proof -
    have "loop_events ping (mte2_v ping) = 1" by (simp add: loop_events_def)
    then show ?thesis using Suc.prems(8) by (simp add: WaitFlag_def st1_def)
  qed
  have i: "i \<in> set xs" "i < length (ct_pulls T)" "source_of T i < 128" using g Suc.prems(3) by (auto simp: good_chain_def)
  let ?seen = "MarkSource seen (po_source_rank (ct_pulls T ! i))"
  have seen: "seen_set ?seen = source_of T ` set (ys @ [i])" using MarkSource_set [OF i(3), of seen] Suc.prems(6) by auto
  have ubs: "other ping \<noteq> ping" "ping \<noteq> Acc" "other ping \<noteq> Acc" using Suc.prems(1) by auto
  have sum: "vu_add vu (ts_ub st Acc) (ts_ub st ping) = tile_sum vu (map ?val (ys @ [i]))"
    using Suc.prems(9,10) by (simp add: tile_sum_def)
  show ?case
  proof (cases "n = 0")
    case True
    then have "mset (ys @ [i]) = mset xs"
      using Suc.prems(2,3,4) g
      by (intro set_eq_iff_mset_eq_distinct [THEN iffD1] card_subset_eq) (auto simp: good_chain_def distinct_map distinct_card [symmetric])
    then show ?thesis
      using True w i Suc.prems(7) sum ubs loop_event_steps [OF Suc.prems(1)] distinct_slots [OF Suc.prems(1)]
      by (simp add: add_tile_def SetFlag_def st1_def)
  next
    case False
    have "length (ys @ [i]) < length xs" using Suc.prems(4) False by simp
    then have "card (set (ys @ [i])) < card (set xs)"
      using Suc.prems(2) g by (simp add: distinct_card good_chain_def distinct_map del: set_append)
    then obtain k where k: "k \<in> set xs" "k \<notin> set (ys @ [i])"
      by (metis Suc.prems(3) card_mono finite_set leD subsetI)
    have inj: "inj_on (source_of T) (set xs)"
      using g by (simp add: good_chain_def distinct_map inj_on_def word_unat_eq_iff)
    have "source_of T k \<notin> seen_set ?seen"
      unfolding seen using inj_on_image_mem_iff [OF inj k(1) Suc.prems(3)] k(2) by blast
    then have unseen: "\<exists>i \<in> set xs. source_of T i \<notin> seen_set ?seen" using k(1) by blast
    show ?thesis
      using g unseen
    proof (cases rule: FindReadyContributor_cases [where passes = "waits n" and seen = ?seen])
      case (none e)
      then show ?thesis
        using False w i Suc.prems(7) loop_event_steps [OF Suc.prems(1)] distinct_slots [OF Suc.prems(1)]
        by (auto simp: fail_def add_tile_def SetFlag_def st1_def)
    next
      case (found j)
      have j: "j \<notin> set (ys @ [i])" using found(3) seen by auto
      have ev: "ts_events st1 (v_mte2 (other ping)) = Suc 0"
        using loop_event_steps [OF Suc.prems(1)] distinct_slots [OF Suc.prems(1)] by (simp add: st1_def)
      note iss = issue_pull_eq [OF g fit found(2,6) ev, of vu eb elements]
      define st2 where "st2 = SetFlag (v_mte2 ping) (add_tile vu ping
        (st1\<lparr>ts_events := (ts_events st1)(v_mte2 (other ping) := 0, mte2_v (other ping) := ts_events st1 (mte2_v (other ping)) + 1),
          ts_ub := (ts_ub st1)(other ping := ?val j), ts_gets := ts_gets st1 @ [tile_read T offs row_bytes eb elements j]\<rparr>))"
      have run: "reduce_contributors (Suc n) vu T offs row_bytes eb elements waits head current seen ping st =
          reduce_contributors n vu T offs row_bytes eb elements waits head (of_nat j) ?seen (other ping) st2"
        using False w i Suc.prems(7) found(1) iss by (simp add: st2_def Let_def)
      have ev2: "ts_events st2 = loop_events (other ping)"
        using loop_event_steps [OF Suc.prems(1)] distinct_slots [OF Suc.prems(1)]
        by (simp add: st2_def st1_def add_tile_def SetFlag_def)
      have st2: "ts_ub st2 (other ping) = ?val j" "ts_ub st2 Acc = tile_sum vu (map ?val (ys @ [i]))"
        "ts_puts st2 = ts_puts st" "ts_gets st2 = ts_gets st @ [tile_read T offs row_bytes eb elements j]"
        using ubs sum by (simp_all add: st2_def st1_def add_tile_def SetFlag_def)
      have "\<exists>failure st'. reduce_contributors n vu T offs row_bytes eb elements waits head (of_nat j) ?seen (other ping) st2 = Inr (failure, st') \<and>
        ts_puts st' = ts_puts st2 \<and>
        (case failure of
           None \<Rightarrow> ts_events st' = drained_events \<and>
             (\<exists>zs. mset ((ys @ [i]) @ j # zs) = mset xs \<and> (\<forall>z \<in> set zs. \<exists>k. was_ready (waits k) (source_of T z)) \<and>
               ts_gets st' = ts_gets st2 @ map (tile_read T offs row_bytes eb elements) zs \<and>
               ts_ub st' Acc = tile_sum vu (map ?val ((ys @ [i]) @ j # zs)))
         | Some e \<Rightarrow> ts_events st' = idle_events \<and> (\<exists>k. wait_failure (waits k) e))"
        by (rule Suc.IH) (use Suc.prems(1-4) False j found(2,6) seen ev2 st2 in auto)
      then obtain failure st' where r: "reduce_contributors n vu T offs row_bytes eb elements waits head (of_nat j) ?seen (other ping) st2 = Inr (failure, st')"
        "ts_puts st' = ts_puts st2"
        "case failure of
           None \<Rightarrow> ts_events st' = drained_events \<and>
             (\<exists>zs. mset ((ys @ [i]) @ j # zs) = mset xs \<and> (\<forall>z \<in> set zs. \<exists>k. was_ready (waits k) (source_of T z)) \<and>
               ts_gets st' = ts_gets st2 @ map (tile_read T offs row_bytes eb elements) zs \<and>
               ts_ub st' Acc = tile_sum vu (map ?val ((ys @ [i]) @ j # zs)))
         | Some e \<Rightarrow> ts_events st' = idle_events \<and> (\<exists>k. wait_failure (waits k) e)" by blast
      show ?thesis
      proof (cases failure)
        case None
        then obtain zs where zs: "mset ((ys @ [i]) @ j # zs) = mset xs" "\<forall>z \<in> set zs. \<exists>k. was_ready (waits k) (source_of T z)"
          "ts_gets st' = ts_gets st2 @ map (tile_read T offs row_bytes eb elements) zs"
          "ts_ub st' Acc = tile_sum vu (map ?val ((ys @ [i]) @ j # zs))" "ts_events st' = drained_events" using r(3) by auto
        show ?thesis
          unfolding run using r(1,2) None zs st2 found(4)
          by (intro exI [of _ failure] exI [of _ st']) (auto intro!: exI [of _ "j # zs"])
      next
        case (Some e)
        then show ?thesis unfolding run using r st2 by auto
      qed
    qed
  qed
qed simp

text \<open>The address a result goes to, and the whole tile.\<close>

definition result_op :: "combine_tables \<Rightarrow> nat \<Rightarrow> CombineResultOp" where
  "result_op T a = ct_results T ! unat (ct_result_index T ! a)"

definition result_address :: "combine_tables \<Rightarrow> u64 \<Rightarrow> u64 \<Rightarrow> u64 \<Rightarrow> nat \<Rightarrow> u64" where
  "result_address T row_bytes out element_begin a =
     out + ucast (ro_owner_row (result_op T a)) * row_bytes + 4 * element_begin"

definition result_fits :: "combine_tables \<Rightarrow> u64 \<Rightarrow> nat \<Rightarrow> bool" where
  "result_fits T row_bytes a \<longleftrightarrow> a < length (ct_result_index T) \<and> unat (ct_result_index T ! a) < length (ct_results T) \<and>
     unat row_bytes * unat (ro_owner_row (result_op T a)) < 2 ^ 64"

lemma event_updates:
  "idle_events(Mte3V := 0) = drained_events" "drained_events(Mte3V := Suc 0) = idle_events"
  "drained_events(PingVMte2 := 0, PingMte2V := Suc 0) = loop_events Ping"
  "drained_events PingVMte2 = Suc 0" "drained_events PingMte2V = 0" "drained_events Mte3V = 0" "drained_events VMte3 = 0"
  "idle_events Mte3V = Suc 0"
  by (auto simp: fun_eq_iff idle_events_def drained_events_def loop_events_def)

lemma put_result_eq:
  assumes fit: "result_fits T row_bytes a" and ev: "ts_events st = drained_events"
  shows "\<exists>st'. put_result T row_bytes out a eb elements st = Inr (None, st') \<and> ts_events st' = idle_events \<and>
    ts_gets st' = ts_gets st \<and>
    ts_puts st' = ts_puts st @ [(ro_owner_rank (result_op T a), result_address T row_bytes out eb a, elements, ts_ub st Acc)]"
proof -
  have m: "CheckedMulU64ByU32 row_bytes (ro_owner_row (result_op T a)) =
      Some (ucast (ro_owner_row (result_op T a)) * row_bytes)"
    using fit by (intro CheckedMul_fits) (simp add: result_fits_def)
  have restore: "drained_events(VMte3 := 0, Mte3V := Suc 0) = idle_events"
    by (auto simp: fun_eq_iff idle_events_def drained_events_def)
  show ?thesis
    using fit m ev restore
    by (simp add: put_result_def result_fits_def result_op_def [symmetric] PutFp32ToOwner_def WaitFlag_def SetFlag_def
        result_address_def event_updates)
qed

definition tile_done ::
  "'v vector_unit \<Rightarrow> combine_tables \<Rightarrow> u64 list \<Rightarrow> u64 \<Rightarrow> u64 \<Rightarrow> u64 \<Rightarrow> u32 \<Rightarrow> nat \<Rightarrow> nat list \<Rightarrow>
     'v tile_state \<Rightarrow> 'v tile_state \<Rightarrow> bool" where
  "tile_done vu T offs row_bytes out eb elements a ys st st' \<longleftrightarrow>
     ts_gets st' = ts_gets st @ map (tile_read T offs row_bytes eb elements) ys \<and>
     ts_puts st' = ts_puts st @ [(ro_owner_rank (result_op T a), result_address T row_bytes out eb a, elements,
       tile_sum vu (map (tile_value vu T offs row_bytes eb elements) ys))]"

lemma ReduceAccumulatorTile_run:
  assumes g: "good_chain T (ct_heads T ! a) xs" and a: "a < length (ct_heads T)" "a < length (ct_counts T)"
    and n: "unat (ct_counts T ! a) = length xs" and fit: "rows_fit T offs row_bytes xs" and res: "result_fits T row_bytes a"
    and ev: "ts_events st = idle_events"
  shows "\<exists>failure st'. ReduceAccumulatorTile vu T offs row_bytes out waits a eb elements st = Inr (failure, st') \<and>
    ts_events st' = idle_events \<and>
    (case failure of
       None \<Rightarrow> \<exists>ys. mset ys = mset xs \<and> (\<forall>y \<in> set ys. \<exists>k. was_ready (waits k) (source_of T y)) \<and>
         tile_done vu T offs row_bytes out eb elements a ys st st'
     | Some e \<Rightarrow> ts_puts st' = ts_puts st \<and> (\<exists>k. wait_failure (waits k) e))"
proof -
  let ?val = "tile_value vu T offs row_bytes eb elements" and ?head = "ct_heads T ! a"
  define st1 where "st1 = st\<lparr>ts_events := drained_events, ts_ub := (ts_ub st)(Acc := vu_zero vu)\<rparr>"
  have start: "ReduceAccumulatorTile vu T offs row_bytes out waits a eb elements st =
     (if xs = [] then put_result T row_bytes out a eb elements st1
      else case FindReadyContributor T (waits (length xs)) ?head (0, 0) of
          Inl (Ret status) \<Rightarrow> Inr (Some status, SetFlag Mte3V st1)
        | Inl f \<Rightarrow> Inl f
        | Inr current \<Rightarrow>
          rbind (issue_pull vu T offs row_bytes eb elements Ping current st1) (\<lambda>(failure, st).
            case failure of
              Some status \<Rightarrow> Inr (Some status, SetFlag Mte3V st)
            | None \<Rightarrow>
              rbind (reduce_contributors (length xs) vu T offs row_bytes eb elements waits ?head current (0, 0) Ping st)
                (\<lambda>(failure, st). case failure of
                  Some status \<Rightarrow> Inr (Some status, st)
                | None \<Rightarrow> put_result T row_bytes out a eb elements st)))"
  proof -
    have "ct_counts T ! a = 0 \<longleftrightarrow> xs = []" using n by (simp add: word_unat_eq_iff)
    moreover have "WaitFlag Mte3V st = Inr (st\<lparr>ts_events := drained_events\<rparr>)"
      using ev by (simp add: WaitFlag_def event_updates)
    ultimately show ?thesis
      unfolding n [symmetric] st1_def
      using a by (simp add: ReduceAccumulatorTile_def Let_def cong: sum.case_cong fault.case_cong option.case_cong if_cong)
  qed
  have st1: "ts_events st1 = drained_events" "ts_ub st1 Acc = vu_zero vu" "ts_puts st1 = ts_puts st" "ts_gets st1 = ts_gets st"
    by (simp_all add: st1_def)
  show ?thesis
  proof (cases "xs = []")
    case True
    then show ?thesis
      using put_result_eq [OF res st1(1), of out eb elements] start st1
      by (auto simp: tile_done_def tile_sum_def)
  next
    case False
    then have "\<exists>i \<in> set xs. source_of T i \<notin> seen_set (0, 0)" by (cases xs) (auto simp: seen_set_empty)
    with g show ?thesis
    proof (cases rule: FindReadyContributor_cases [where passes = "waits (length xs)" and seen = "(0, 0)"])
      case (none e)
      then show ?thesis
        using False start st1 by (auto simp: fail_def SetFlag_def event_updates)
    next
      case (found i)
      have "ts_events st1 (v_mte2 Ping) = Suc 0" using st1 by (simp add: event_updates)
      note iss = issue_pull_eq [OF g fit found(2,6) this, of vu eb elements]
      define st2 where "st2 = st1\<lparr>ts_events := loop_events Ping, ts_ub := (ts_ub st1)(Ping := ?val i),
        ts_gets := ts_gets st1 @ [tile_read T offs row_bytes eb elements i]\<rparr>"
      have iss2: "issue_pull vu T offs row_bytes eb elements Ping (of_nat i) st1 = Inr (None, st2)"
        using iss st1 by (simp add: st2_def event_updates)
      have "\<exists>failure st'. reduce_contributors (length xs) vu T offs row_bytes eb elements waits ?head (of_nat i) (0, 0) Ping st2 = Inr (failure, st') \<and>
        ts_puts st' = ts_puts st2 \<and>
        (case failure of
           None \<Rightarrow> ts_events st' = drained_events \<and>
             (\<exists>zs. mset ([] @ i # zs) = mset xs \<and> (\<forall>z \<in> set zs. \<exists>k. was_ready (waits k) (source_of T z)) \<and>
               ts_gets st' = ts_gets st2 @ map (tile_read T offs row_bytes eb elements) zs \<and>
               ts_ub st' Acc = tile_sum vu (map ?val ([] @ i # zs)))
         | Some e \<Rightarrow> ts_events st' = idle_events \<and> (\<exists>k. wait_failure (waits k) e))"
        by (rule reduce_contributors_run [OF g fit])
          (use False found(2,6) in \<open>simp_all add: seen_set_empty st2_def st1_def tile_sum_def\<close>)
      then obtain failure st' where r: "reduce_contributors (length xs) vu T offs row_bytes eb elements waits ?head (of_nat i) (0, 0) Ping st2 = Inr (failure, st')"
        "ts_puts st' = ts_puts st2"
        "case failure of
           None \<Rightarrow> ts_events st' = drained_events \<and>
             (\<exists>zs. mset ([] @ i # zs) = mset xs \<and> (\<forall>z \<in> set zs. \<exists>k. was_ready (waits k) (source_of T z)) \<and>
               ts_gets st' = ts_gets st2 @ map (tile_read T offs row_bytes eb elements) zs \<and>
               ts_ub st' Acc = tile_sum vu (map ?val ([] @ i # zs)))
         | Some e \<Rightarrow> ts_events st' = idle_events \<and> (\<exists>k. wait_failure (waits k) e)" by blast
      have p2: "ts_puts st2 = ts_puts st" "ts_gets st2 = ts_gets st @ [tile_read T offs row_bytes eb elements i]"
        using st1 by (simp_all add: st2_def)
      show ?thesis
      proof (cases failure)
        case (Some e)
        then show ?thesis using start False found(1) iss2 r p2 by simp
      next
        case None
        then obtain zs where zs: "mset (i # zs) = mset xs" "\<forall>z \<in> set zs. \<exists>k. was_ready (waits k) (source_of T z)"
          "ts_gets st' = ts_gets st2 @ map (tile_read T offs row_bytes eb elements) zs"
          "ts_ub st' Acc = tile_sum vu (map ?val (i # zs))" "ts_events st' = drained_events" using r(3) by auto
        obtain st3 where "put_result T row_bytes out a eb elements st' = Inr (None, st3)" "ts_events st3 = idle_events"
          "ts_gets st3 = ts_gets st'" "ts_puts st3 = ts_puts st' @ [(ro_owner_rank (result_op T a),
            result_address T row_bytes out eb a, elements, ts_ub st' Acc)]"
          using put_result_eq [OF res zs(5)] by blast
        then show ?thesis
          using start False found(1,4) iss2 r(1,2) None p2 zs
          by (auto simp: tile_done_def intro!: exI [of _ "i # zs"])
      qed
    qed
  qed
qed

end
