(* ===== verification/Combine_Tasks.thy ===== *)
theory Combine_Tasks
  imports Combine_Tiles
begin

text \<open>
  The split of the reduction of a wave among the blocks of the INC (\<open>inc_dc_pull_combine_v2_device_kernel.cpp\<close>):
  a task is one tile of one accumulator; the general path gives a block every \<open>blocks\<close>-th task, the path for
  waves whose accumulators all have two contributors gives it one contiguous range. The theory shows that
  the tasks cut the result rows into tiles, that every task is done once, that the transfers of different
  tasks never touch the same byte of an owner's slot nor leave it, and that a block leaves the hardware
  events the way it found them. Of the scheduling of the blocks nothing is assumed: the passes of every wait
  and the status word at the start of every task are arguments.
\<close>

section \<open>Model\<close>

definition task_accumulator :: "combine_launch \<Rightarrow> u64 \<Rightarrow> u32" where
  "task_accumulator la task = ucast (task div tiles_per_row la)"

definition task_element_begin :: "combine_launch \<Rightarrow> u64 \<Rightarrow> u64" where
  "task_element_begin la task = push_bit kTileElementShift (task mod tiles_per_row la)"

definition task_elements :: "combine_launch \<Rightarrow> u64 \<Rightarrow> u32" where
  "task_elements la task =
     (let rest = ucast (la_hidden la) - task_element_begin la task
      in ucast (if rest < ucast kTileElements then rest else ucast kTileElements))"

text \<open>The tasks of a block.\<close>

definition block_tasks :: "u32 \<Rightarrow> u64 \<Rightarrow> u32 \<Rightarrow> nat list" where
  "block_tasks blocks total_tasks block = strided (unat block) (unat blocks) (unat total_tasks)"

definition block_range :: "u32 \<Rightarrow> u64 \<Rightarrow> u32 \<Rightarrow> u64 \<times> u64" where
  "block_range blocks total_tasks block =
     (let tasks_per_block = total_tasks div ucast blocks; extra = total_tasks mod ucast blocks;
          task_begin = MulU64ByU32 tasks_per_block block + (if ucast block < extra then ucast block else extra)
      in (task_begin, task_begin + tasks_per_block + (if ucast block < extra then 1 else 0)))"

subsection \<open>The general path of a block\<close>

text \<open>\<open>waits task n\<close> are the passes of the search of a task with \<open>n\<close> contributors left.\<close>

fun reduce_tasks ::
  "'v vector_unit \<Rightarrow> combine_launch \<Rightarrow> combine_tables \<Rightarrow> u64 list \<Rightarrow> u64 \<Rightarrow> u64 \<Rightarrow> (nat \<Rightarrow> nat \<Rightarrow> passes) \<Rightarrow> nat list \<Rightarrow>
     'v tile_state \<Rightarrow> (u32, u32 option \<times> 'v tile_state) res" where
  "reduce_tasks vu la T offs row_bytes out waits [] st = Inr (None, st)"
| "reduce_tasks vu la T offs row_bytes out waits (task # tasks) st =
     rbind (ReduceAccumulatorTile vu T offs row_bytes out (waits task) (unat (task_accumulator la (of_nat task)))
         (task_element_begin la (of_nat task)) (task_elements la (of_nat task)) st) (\<lambda>(failure, st).
       case failure of
         Some status \<Rightarrow> Inr (Some status, st)
       | None \<Rightarrow> reduce_tasks vu la T offs row_bytes out waits tasks st)"

definition set_all_credits :: "'v tile_state \<Rightarrow> 'v tile_state" where
  "set_all_credits st = SetFlag Mte3V (SetFlag PongVMte2 (SetFlag PingVMte2 st))"

definition take_all_credits :: "'v tile_state \<Rightarrow> (u32, 'v tile_state) res" where
  "take_all_credits st =
     rbind (WaitFlag Mte3V st) (\<lambda>st. rbind (WaitFlag PingVMte2 st) (\<lambda>st. WaitFlag PongVMte2 st))"

definition reduce_block ::
  "'v vector_unit \<Rightarrow> combine_launch \<Rightarrow> combine_tables \<Rightarrow> u64 list \<Rightarrow> u64 \<Rightarrow> u64 \<Rightarrow> (nat \<Rightarrow> nat \<Rightarrow> passes) \<Rightarrow> nat list \<Rightarrow>
     'v tile_state \<Rightarrow> (u32, u32 option \<times> 'v tile_state) res" where
  "reduce_block vu la T offs row_bytes out waits tasks st =
     rbind (reduce_tasks vu la T offs row_bytes out waits tasks (set_all_credits st)) (\<lambda>(failure, st).
       rbind (take_all_credits st) (\<lambda>st. Inr (failure, st)))"

subsection \<open>The path for two contributors\<close>

text \<open>
  One task: the failure, and whether the GETs of the two inputs are still in flight. The third buffer is the
  output. \<open>waits task second\<close> are the passes of the wait for an input, \<open>status task\<close> is the status word when
  the task starts.
\<close>

definition two_contributor_task ::
  "'v vector_unit \<Rightarrow> combine_launch \<Rightarrow> combine_tables \<Rightarrow> u64 list \<Rightarrow> u64 \<Rightarrow> u64 \<Rightarrow> (nat \<Rightarrow> bool \<Rightarrow> passes) \<Rightarrow>
     (nat \<Rightarrow> u32) \<Rightarrow> nat \<Rightarrow> 'v tile_state \<Rightarrow> (u32, (u32 option \<times> bool \<times> bool) \<times> 'v tile_state) res" where
  "two_contributor_task vu la T offs row_bytes out waits status task st =
     (if status task \<noteq> kStatusOk then Inr ((Some (status task), False, False), st) else
      let accumulator = unat (task_accumulator la (of_nat task));
          element_begin = task_element_begin la (of_nat task);
          elements = task_elements la (of_nat task)
      in rbind (vget (ct_heads T) accumulator) (\<lambda>first.
         rbind (vget (ct_pull_next T) (unat first)) (\<lambda>second.
         rbind (vget (ct_pulls T) (unat first)) (\<lambda>first_op.
         case WaitSourceReady (waits task False) (unat (po_source_rank first_op)) of
           Inl (Ret e) \<Rightarrow> Inr ((Some e, False, False), st)
         | Inl f \<Rightarrow> Inl f
         | Inr _ \<Rightarrow>
         rbind (issue_pull vu T offs row_bytes element_begin elements Ping first st) (\<lambda>(failure, st).
         case failure of Some e \<Rightarrow> Inr ((Some e, False, False), st) | None \<Rightarrow>
         rbind (vget (ct_pulls T) (unat second)) (\<lambda>second_op.
         case WaitSourceReady (waits task True) (unat (po_source_rank second_op)) of
           Inl (Ret e) \<Rightarrow> Inr ((Some e, True, False), st)
         | Inl f \<Rightarrow> Inl f
         | Inr _ \<Rightarrow>
         rbind (issue_pull vu T offs row_bytes element_begin elements Pong second st) (\<lambda>(failure, st).
         case failure of Some e \<Rightarrow> Inr ((Some e, True, False), st) | None \<Rightarrow>
         rbind (WaitFlag PingMte2V st) (\<lambda>st.
         rbind (WaitFlag PongMte2V st) (\<lambda>st.
         rbind (WaitFlag Mte3V st) (\<lambda>st.
         let st = st\<lparr>ts_ub := (ts_ub st)(Acc := vu_add vu (ts_ub st Ping) (ts_ub st Pong))\<rparr>;
             st = SetFlag PongVMte2 (SetFlag PingVMte2 st)
         in rbind (put_result T row_bytes out accumulator element_begin elements st) (\<lambda>(failure, st).
              Inr ((failure, False, False), st))))))))))))"

fun two_contributor_tasks ::
  "'v vector_unit \<Rightarrow> combine_launch \<Rightarrow> combine_tables \<Rightarrow> u64 list \<Rightarrow> u64 \<Rightarrow> u64 \<Rightarrow> (nat \<Rightarrow> bool \<Rightarrow> passes) \<Rightarrow>
     (nat \<Rightarrow> u32) \<Rightarrow> nat list \<Rightarrow> 'v tile_state \<Rightarrow> (u32, (u32 option \<times> bool \<times> bool) \<times> 'v tile_state) res" where
  "two_contributor_tasks vu la T offs row_bytes out waits status [] st = Inr ((None, False, False), st)"
| "two_contributor_tasks vu la T offs row_bytes out waits status (task # tasks) st =
     rbind (two_contributor_task vu la T offs row_bytes out waits status task st) (\<lambda>((failure, inflight), st).
       case failure of
         Some e \<Rightarrow> Inr ((Some e, inflight), st)
       | None \<Rightarrow> two_contributor_tasks vu la T offs row_bytes out waits status tasks st)"

definition drain_input :: "ub_slot \<Rightarrow> bool \<Rightarrow> 'v tile_state \<Rightarrow> (u32, 'v tile_state) res" where
  "drain_input ping inflight st =
     (if inflight then rbind (WaitFlag (mte2_v ping) st) (\<lambda>st. Inr (SetFlag (v_mte2 ping) st)) else Inr st)"

definition ReduceTwoContributorTaskRange ::
  "'v vector_unit \<Rightarrow> combine_launch \<Rightarrow> combine_tables \<Rightarrow> u64 list \<Rightarrow> u64 \<Rightarrow> u64 \<Rightarrow> (nat \<Rightarrow> bool \<Rightarrow> passes) \<Rightarrow>
     (nat \<Rightarrow> u32) \<Rightarrow> u64 \<times> u64 \<Rightarrow> 'v tile_state \<Rightarrow> (u32, u32 option \<times> 'v tile_state) res" where
  "ReduceTwoContributorTaskRange vu la T offs row_bytes out waits status bounds st =
     rbind (two_contributor_tasks vu la T offs row_bytes out waits status [unat (fst bounds)..<unat (snd bounds)]
         (set_all_credits st)) (\<lambda>((failure, input0_inflight, input1_inflight), st).
       rbind (drain_input Ping input0_inflight st) (\<lambda>st.
       rbind (drain_input Pong input1_inflight st) (\<lambda>st.
       rbind (take_all_credits st) (\<lambda>st. Inr (failure, st)))))"

section \<open>Tasks and tiles\<close>

lemma unat_tiles: "unat (tiles_per_row la) = (unat (la_hidden la) + 2047) div 2048"
proof (cases "la_hidden la = 0")
  case False
  have h: "unat (la_hidden la) < 2 ^ 32" using unsigned_less [of "la_hidden la", where 'a = nat] by simp
  have "unat (ucast (la_hidden la) + 2048 - 1 :: u64) = unat (la_hidden la) + 2047"
    using h by (simp add: unat_word_ariths unat_ucast_u64)
  then show ?thesis using False by (simp add: tiles_per_row_def kTileElements_def unat_div)
qed (simp add: tiles_per_row_def)

lemma tiles_bound: "unat (tiles_per_row la) \<le> 2 ^ 21"
  using unsigned_less [of "la_hidden la", where 'a = nat] by (simp add: unat_tiles)

text \<open>The numbers of a task, as natural numbers.\<close>

definition task_row :: "combine_launch \<Rightarrow> nat \<Rightarrow> nat" where
  "task_row la task = task div unat (tiles_per_row la)"

definition task_begin :: "combine_launch \<Rightarrow> nat \<Rightarrow> nat" where
  "task_begin la task = 2048 * (task mod unat (tiles_per_row la))"

definition task_end :: "combine_launch \<Rightarrow> nat \<Rightarrow> nat" where
  "task_end la task = min (task_begin la task + 2048) (unat (la_hidden la))"

lemma launch_tasks:
  assumes "launch_valid blocks la = Some (row_bytes, out, tasks)"
  shows "unat tasks = unat (tiles_per_row la) * unat (la_accumulator_count la)" "0 < unat (tiles_per_row la)"
    "unat row_bytes = 4 * unat (la_hidden la)" "0 < unat (la_hidden la)"
    "unat out = unat (la_owner_output_slot_stride la) * unat (la_ring_slot la)"
proof -
  note n = launch_numbers [OF assms]
  have h: "unat (la_hidden la) < 2 ^ 32" using unsigned_less [of "la_hidden la", where 'a = nat] by simp
  show "0 < unat (la_hidden la)" using n(8) by (simp add: unat_gt_0)
  then show "0 < unat (tiles_per_row la)" by (simp add: unat_tiles div_greater_zero_iff)
  show "unat tasks = unat (tiles_per_row la) * unat (la_accumulator_count la)"
    using n(11) Mul_unat by (simp add: CheckedMulU64ByU32_Mul mult.commute unat_ucast_u64)
  show "unat row_bytes = 4 * unat (la_hidden la)"
    using n(9) Mul_unat by (simp add: CheckedMulU64ByU32_Mul mult.commute unat_ucast_u64)
  show "unat out = unat (la_owner_output_slot_stride la) * unat (la_ring_slot la)"
    using n(10) Mul_unat by (simp add: CheckedMulU64ByU32_Mul mult.commute unat_ucast_u64)
qed

lemma task_numbers:
  assumes lv: "launch_valid blocks la = Some (row_bytes, out, tasks)" and task: "task < unat tasks"
  shows "unat (task_accumulator la (of_nat task)) = task_row la task"
    and "task_row la task < unat (la_accumulator_count la)"
    and "unat (task_element_begin la (of_nat task)) = task_begin la task"
    and "unat (task_elements la (of_nat task)) = task_end la task - task_begin la task"
    and "task_begin la task < task_end la task" "task_end la task \<le> unat (la_hidden la)"
proof -
  note n = launch_tasks [OF lv]
  let ?k = "unat (tiles_per_row la)" and ?h = "unat (la_hidden la)" and ?A = "unat (la_accumulator_count la)"
  have t64: "task < 2 ^ 64" using task unsigned_less [of tasks, where 'a = nat] by simp
  then have t: "unat (of_nat task :: u64) = task" by (simp add: unat_of_nat_u64)
  have row: "task div ?k < ?A" using task n(1,2) by (simp add: less_mult_imp_div_less mult.commute)
  then show "task_row la task < ?A" by (simp add: task_row_def)
  have "?A < 2 ^ 32" using unsigned_less [of "la_accumulator_count la", where 'a = nat] by simp
  then have "unat (ucast (of_nat task div tiles_per_row la :: u64) :: u32) = task div ?k"
    using row by (simp add: unsigned_ucast_eq take_bit_eq_mod unat_div t)
  then show "unat (task_accumulator la (of_nat task)) = task_row la task" by (simp add: task_accumulator_def task_row_def)
  have m: "task mod ?k < ?k" using n(2) by simp
  have b: "2048 * (task mod ?k) < ?h" using m unfolding unat_tiles by linarith
  have h: "?h < 2 ^ 32" using unsigned_less [of "la_hidden la", where 'a = nat] by simp
  have "unat (push_bit 11 (of_nat task mod tiles_per_row la :: u64)) = 2048 * (task mod ?k)"
    using b h by (simp add: push_bit_word unat_word_ariths unat_mod t mult.commute)
  then show tb: "unat (task_element_begin la (of_nat task)) = task_begin la task"
    by (simp add: task_element_begin_def kTileElementShift_def task_begin_def)
  show "task_begin la task < task_end la task" "task_end la task \<le> ?h"
    using b by (simp_all add: task_begin_def task_end_def)
  let ?rest = "ucast (la_hidden la) - task_element_begin la (of_nat task) :: u64"
  have rest: "unat ?rest = ?h - task_begin la task"
    using b by (simp add: unat_sub_if' unat_ucast_u64 tb) (simp add: task_begin_def)
  have "unat (task_elements la (of_nat task)) = min (?h - task_begin la task) 2048"
  proof (cases "?rest < 2048")
    case True
    then have "?h - task_begin la task < 2048" by (simp add: word_less_nat_alt rest)
    then show ?thesis
      using True rest by (simp add: task_elements_def kTileElements_def unsigned_ucast_eq take_bit_eq_mod)
  next
    case False
    then have "\<not> ?h - task_begin la task < 2048" by (simp add: word_less_nat_alt rest)
    then show ?thesis using False by (simp add: task_elements_def kTileElements_def)
  qed
  then show "unat (task_elements la (of_nat task)) = task_end la task - task_begin la task"
    by (simp add: task_end_def)
qed

text \<open>The tasks cut every row into tiles.\<close>

lemma element_task:
  assumes lv: "launch_valid blocks la = Some (row_bytes, out, tasks)" and a: "a < unat (la_accumulator_count la)"
    and e: "e < unat (la_hidden la)"
  shows "\<exists>!task. task < unat tasks \<and> task_row la task = a \<and> task_begin la task \<le> e \<and> e < task_end la task"
proof
  note n = launch_tasks [OF lv]
  let ?k = "unat (tiles_per_row la)"
  let ?task = "a * ?k + e div 2048"
  have k: "e div 2048 < ?k" using e unfolding unat_tiles by linarith
  have "?task < (a + 1) * ?k" using k by simp
  also have "\<dots> \<le> unat (la_accumulator_count la) * ?k" using a by (intro mult_le_mono1) simp
  finally have "?task < unat tasks" by (simp add: n(1) mult.commute)
  moreover have "task_row la ?task = a" "?task mod ?k = e div 2048" using k by (simp_all add: task_row_def)
  ultimately show "?task < unat tasks \<and> task_row la ?task = a \<and> task_begin la ?task \<le> e \<and> e < task_end la ?task"
    using e by (auto simp: task_begin_def task_end_def)
  fix task assume t: "task < unat tasks \<and> task_row la task = a \<and> task_begin la task \<le> e \<and> e < task_end la task"
  then have "task mod ?k = e div 2048" by (simp add: task_begin_def task_end_def) linarith
  then show "task = ?task" using t by (metis div_mult_mod_eq task_row_def)
qed

section \<open>The split among the blocks\<close>

lemma sorted_strided: "0 < blocks \<Longrightarrow> sorted_wrt (<) (strided i blocks n)"
proof (induction i blocks n rule: strided.induct)
  case (1 i blocks n)
  then show ?case by (subst strided.simps) (auto simp: set_strided)
qed

text \<open>On the general path the blocks visit every task once.\<close>

lemma strided_partition:
  assumes "0 < blocks"
  shows "mset (concat (map (\<lambda>b. strided b blocks n) [0..<blocks])) = mset [0..<n]"
proof -
  have "distinct (concat (map (\<lambda>b. strided b blocks n) [0..<m]))" if "m \<le> blocks" for m
    using that
  proof (induction m)
    case (Suc m)
    have "distinct (strided m blocks n)" using sorted_strided [OF assms, of m n] by (simp add: strict_sorted_iff)
    moreover have "x \<notin> set (strided m blocks n)" if "b < m" "x \<in> set (strided b blocks n)" for x b
      using that Suc.prems assms by (auto simp: set_strided)
    ultimately show ?case using Suc by auto
  qed simp
  then have "distinct (concat (map (\<lambda>b. strided b blocks n) [0..<blocks]))" by simp
  moreover have "set (concat (map (\<lambda>b. strided b blocks n) [0..<blocks])) = set [0..<n]"
    using strided_blocks [OF assms, of n] by simp
  ultimately show ?thesis by (intro set_eq_iff_mset_eq_distinct [THEN iffD1]) auto
qed

text \<open>The bounds of the contiguous ranges.\<close>

definition range_bound :: "nat \<Rightarrow> nat \<Rightarrow> nat \<Rightarrow> nat" where
  "range_bound blocks tasks block = block * (tasks div blocks) + min block (tasks mod blocks)"

lemma range_bound_mono: "range_bound blocks tasks b \<le> range_bound blocks tasks (Suc b)"
  by (simp add: range_bound_def)

lemma range_bound_ends: "range_bound blocks tasks 0 = 0" "0 < blocks \<Longrightarrow> range_bound blocks tasks blocks = tasks"
  by (simp_all add: range_bound_def)

lemma range_bound_le:
  assumes "b \<le> blocks" "0 < blocks"
  shows "range_bound blocks tasks b \<le> tasks"
proof -
  have "range_bound blocks tasks b \<le> range_bound blocks tasks blocks"
    by (rule lift_Suc_mono_le [of "range_bound blocks tasks", OF range_bound_mono assms(1)])
  then show ?thesis using range_bound_ends(2) [OF assms(2)] by simp
qed

lemma block_range_bounds:
  assumes "unat block < unat blocks"
  shows "unat (fst (block_range blocks tasks block)) = range_bound (unat blocks) (unat tasks) (unat block)"
    and "unat (snd (block_range blocks tasks block)) = range_bound (unat blocks) (unat tasks) (Suc (unat block))"
proof -
  let ?B = "unat blocks" and ?b = "unat block" and ?t = "unat tasks"
  let ?q = "?t div ?B" and ?r = "?t mod ?B"
  have t: "?t < 2 ^ 64" using unsigned_less [of tasks, where 'a = nat] by simp
  have B: "0 < ?B" using assms by simp
  have lo: "range_bound ?B ?t ?b \<le> ?t" and hi: "range_bound ?B ?t (Suc ?b) \<le> ?t"
    by (rule range_bound_le; use assms in simp)+
  have q: "unat (tasks div ucast blocks) = ?q" "unat (tasks mod ucast blocks) = ?r"
    by (simp_all add: unat_div unat_mod unat_ucast_u64)
  have less: "ucast block < tasks mod (ucast blocks :: u64) \<longleftrightarrow> ?b < ?r"
    by (simp add: word_less_nat_alt q unat_ucast_u64)
  have prod: "unat (tasks div ucast blocks * ucast block) = ?b * ?q"
  proof -
    have "?q * ?b < 2 ^ 64" using lo t by (simp add: range_bound_def mult.commute)
    then have "unat (tasks div ucast blocks :: u64) * unat (ucast block :: u64) < 2 ^ LENGTH(64)"
      by (simp add: unat_div unat_ucast_u64)
    then have "unat (tasks div ucast blocks * ucast block) = unat (tasks div ucast blocks) * unat (ucast block :: u64)"
      by (rule unat_mult_lem [THEN iffD1])
    then show ?thesis by (simp only: q unat_ucast_u64 mult.commute)
  qed
  have add: "unat (if ucast block < tasks mod (ucast blocks :: u64) then ucast block else tasks mod ucast blocks) = min ?b ?r"
    using less by (simp add: q unat_ucast_u64 min_def)
  have fst: "unat (fst (block_range blocks tasks block)) = ?b * ?q + min ?b ?r"
    using lo t prod add by (simp add: block_range_def Let_def MulU64ByU32_eq unat_word_ariths range_bound_def)
  then show "unat (fst (block_range blocks tasks block)) = range_bound ?B ?t ?b" by (simp add: range_bound_def)
  have one: "unat (if ucast block < tasks mod (ucast blocks :: u64) then 1 else 0 :: u64) = min (Suc ?b) ?r - min ?b ?r"
    using less by simp
  have sum: "?b * ?q + min ?b ?r + ?q + (min (Suc ?b) ?r - min ?b ?r) = range_bound ?B ?t (Suc ?b)"
    by (simp add: range_bound_def)
  have "snd (block_range blocks tasks block) = fst (block_range blocks tasks block) + tasks div ucast blocks +
      (if ucast block < tasks mod (ucast blocks :: u64) then 1 else 0)"
    by (simp add: block_range_def Let_def)
  then show "unat (snd (block_range blocks tasks block)) = range_bound ?B ?t (Suc ?b)"
    using hi t sum fst one q by (simp add: unat_word_ariths)
qed

lemma ranges_concat:
  assumes "\<And>b. f b \<le> f (Suc b)" "f 0 = 0"
  shows "concat (map (\<lambda>b. [f b..<f (Suc b)]) [0..<n]) = [0..<f n]"
proof (induction n)
  case (Suc n)
  have "[0..<f (Suc n)] = [0..<f n] @ [f n..<f (Suc n)]"
    using assms(1) [of n] upt_add_eq_append [of 0 "f n" "f (Suc n) - f n"] by simp
  then show ?case using Suc by simp
qed (simp add: assms(2))

text \<open>On the path for two contributors as well, and in order.\<close>

lemma range_partition:
  assumes "0 < unat blocks"
  shows "concat (map (\<lambda>b. [unat (fst (block_range blocks tasks (of_nat b)))..<unat (snd (block_range blocks tasks (of_nat b)))])
    [0..<unat blocks]) = [0..<unat tasks]"
proof -
  have eq: "map (\<lambda>b. [unat (fst (block_range blocks tasks (of_nat b)))..<unat (snd (block_range blocks tasks (of_nat b)))])
      [0..<unat blocks] =
    map (\<lambda>b. [range_bound (unat blocks) (unat tasks) b..<range_bound (unat blocks) (unat tasks) (Suc b)]) [0..<unat blocks]"
  proof (rule map_cong [OF refl])
    fix b assume "b \<in> set [0..<unat blocks]"
    then have "unat (of_nat b :: u32) = b" "b < unat blocks"
      using unsigned_less [of blocks, where 'a = nat] by (auto simp: unat_of_nat_u32)
    then show "[unat (fst (block_range blocks tasks (of_nat b)))..<unat (snd (block_range blocks tasks (of_nat b)))] =
        [range_bound (unat blocks) (unat tasks) b..<range_bound (unat blocks) (unat tasks) (Suc b)]"
      using block_range_bounds [of "of_nat b" blocks tasks] by simp
  qed
  show ?thesis
    unfolding eq
    by (subst ranges_concat [of "range_bound (unat blocks) (unat tasks)"]) (simp_all add: range_bound_mono range_bound_ends assms)
qed

section \<open>What a block does\<close>

text \<open>The transfer of a task: the sum of the tiles of its contributors, each read when it was ready.\<close>

definition task_put ::
  "'v vector_unit \<Rightarrow> combine_launch \<Rightarrow> combine_tables \<Rightarrow> u64 list \<Rightarrow> u64 \<Rightarrow> u64 \<Rightarrow> ('v list \<Rightarrow> 'v) \<Rightarrow> (nat \<Rightarrow> nat \<Rightarrow> bool) \<Rightarrow>
     nat \<Rightarrow> u32 \<times> u64 \<times> u32 \<times> 'v \<Rightarrow> bool" where
  "task_put vu la T offs row_bytes out comb ready task put \<longleftrightarrow>
     (let a = task_row la task; eb = task_element_begin la (of_nat task); elements = task_elements la (of_nat task)
      in \<exists>ys. mset ys = mset (chain_of T la a) \<and> (\<forall>y \<in> set ys. ready task (source_of T y)) \<and>
           put = (ro_owner_rank (result_op T a), result_address T row_bytes out eb a, elements,
             comb (map (tile_value vu T offs row_bytes eb elements) ys)))"

text \<open>The tasks \<open>done\<close> were put, and a failure left the others.\<close>

definition tasks_done ::
  "(nat \<Rightarrow> u32 \<times> u64 \<times> u32 \<times> 'v \<Rightarrow> bool) \<Rightarrow> (u32 \<Rightarrow> bool) \<Rightarrow> nat list \<Rightarrow> u32 option \<Rightarrow> 'v tile_state \<Rightarrow> 'v tile_state \<Rightarrow> bool" where
  "tasks_done put reason ts failure st st' \<longleftrightarrow>
     (\<exists>finished rest puts. ts = finished @ rest \<and> ts_puts st' = ts_puts st @ puts \<and> list_all2 put finished puts \<and>
        (case failure of None \<Rightarrow> rest = [] | Some e \<Rightarrow> rest \<noteq> [] \<and> reason e))"

lemma tasks_done_Nil: "tasks_done put reason [] None st st"
  by (simp add: tasks_done_def)

lemma tasks_done_Cons:
  assumes "put task p" "ts_puts st1 = ts_puts st @ [p]" "tasks_done put reason ts failure st1 st'"
  shows "tasks_done put reason (task # ts) failure st st'"
proof -
  obtain finished rest puts where d: "ts = finished @ rest" "ts_puts st' = ts_puts st1 @ puts" "list_all2 put finished puts"
    "case failure of None \<Rightarrow> rest = [] | Some e \<Rightarrow> rest \<noteq> [] \<and> reason e"
    using assms(3) by (auto simp: tasks_done_def)
  show ?thesis
    unfolding tasks_done_def
    by (intro exI [of _ "task # finished"] exI [of _ rest] exI [of _ "p # puts"]) (use assms(1,2) d in simp)
qed

lemma tasks_done_fail: "ts_puts st' = ts_puts st \<Longrightarrow> reason e \<Longrightarrow> tasks_done put reason (task # ts) (Some e) st st'"
  unfolding tasks_done_def by (intro exI [of _ "[]"] exI [of _ "task # ts"]) simp

text \<open>The tables of an accepted plan, with offsets of the payloads.\<close>

definition accepted_wave ::
  "combine_launch \<Rightarrow> u32 \<Rightarrow> combine_tables \<Rightarrow> u64 list \<Rightarrow> u64 \<Rightarrow> u64 \<Rightarrow> u64 \<Rightarrow> bool" where
  "accepted_wave la blocks T offs row_bytes out tasks \<longleftrightarrow>
     launch_valid blocks la = Some (row_bytes, out, tasks) \<and> sealed_tables T la \<and>
     (\<forall>owner < unat (la_worker_count la). owner_fits T row_bytes (la_owner_output_slot_stride la) owner) \<and>
     rows_fit T offs row_bytes [0..<unat (la_pull_count la)]"

lemma accepted_waveD:
  assumes "accepted_wave la blocks T offs row_bytes out tasks"
  shows "launch_valid blocks la = Some (row_bytes, out, tasks)" "sealed_tables T la"
    "\<forall>owner < unat (la_worker_count la). owner_fits T row_bytes (la_owner_output_slot_stride la) owner"
    "rows_fit T offs row_bytes [0..<unat (la_pull_count la)]"
  using assms by (simp_all add: accepted_wave_def)

lemma chain_good:
  assumes w: "accepted_wave la blocks T offs row_bytes out tasks" and a: "a < unat (la_accumulator_count la)"
  shows "good_chain T (ct_heads T ! a) (chain_of T la a)" "rows_fit T offs row_bytes (chain_of T la a)"
    "a < length (ct_heads T)" "a < length (ct_counts T)" "unat (ct_counts T ! a) = length (chain_of T la a)"
proof -
  note lv = accepted_waveD(1) [OF w] and sealed = accepted_waveD(2) [OF w] and fit = accepted_waveD(4) [OF w]
  note s = sealed_tablesD [OF sealed] and n = launch_numbers [OF lv]
  have "i < length (ct_pulls T)" "source_of T i < 128" if "i \<in> set (chain_of T la a)" for i
    using that s(1) s(4) [of i] n(3) by (auto simp: set_chain_of row_at_def)
  then show "good_chain T (ct_heads T ! a) (chain_of T la a)"
    using s(5) [OF a] by (simp add: good_chain_def)
  show "rows_fit T offs row_bytes (chain_of T la a)" using fit by (auto simp: rows_fit_def set_chain_of)
  show "a < length (ct_heads T)" "a < length (ct_counts T)" "unat (ct_counts T ! a) = length (chain_of T la a)"
    using s(5) [OF a] by simp_all
qed

lemma result_row:
  assumes w: "accepted_wave la blocks T offs row_bytes out tasks" and a: "a < unat (la_accumulator_count la)"
  shows "row_at (ct_owner_offsets T) (unat (la_worker_count la)) (unat (ct_result_index T ! a))
      (ro_owner_rank (result_op T a)) (ro_owner_row (result_op T a))"
    and "unat row_bytes * (unat (ro_owner_row (result_op T a)) + 1) \<le> unat (la_owner_output_slot_stride la)"
    and "unat (ro_accumulator_index (result_op T a)) = a"
    and "result_fits T row_bytes a"
proof -
  have ok: "a < length (ct_result_index T)" "result_ok T la a" using sealed_tablesD(5) [OF accepted_waveD(2) [OF w] a] by auto
  then show row: "row_at (ct_owner_offsets T) (unat (la_worker_count la)) (unat (ct_result_index T ! a))
      (ro_owner_rank (result_op T a)) (ro_owner_row (result_op T a))"
    "unat (ro_accumulator_index (result_op T a)) = a"
    by (simp_all add: result_ok_def result_op_def Let_def)
  let ?o = "unat (ro_owner_rank (result_op T a))"
  have "owner_fits T row_bytes (la_owner_output_slot_stride la) ?o"
    using accepted_waveD(3) [OF w] row(1) by (simp add: row_at_def)
  then have cap: "unat row_bytes * (unat (ct_owner_offsets T ! Suc ?o) - unat (ct_owner_offsets T ! ?o)) \<le>
      unat (la_owner_output_slot_stride la)" by (simp add: owner_fits_def Let_def)
  have "unat (ro_owner_row (result_op T a)) + 1 \<le> unat (ct_owner_offsets T ! Suc ?o) - unat (ct_owner_offsets T ! ?o)"
    using row(1) unfolding row_at_def by linarith
  from mult_le_mono2 [OF this, of "unat row_bytes"] cap
  show inside: "unat row_bytes * (unat (ro_owner_row (result_op T a)) + 1) \<le> unat (la_owner_output_slot_stride la)"
    by (rule le_trans)
  have "unat (la_owner_output_slot_stride la) < 2 ^ 64"
    using unsigned_less [of "la_owner_output_slot_stride la", where 'a = nat] by simp
  then show "result_fits T row_bytes a"
    using inside ok by (simp add: result_fits_def result_ok_def Let_def)
qed

lemma reduce_tasks_run:
  assumes w: "accepted_wave la blocks T offs row_bytes out tasks" and "ts_events st = idle_events" "\<forall>task \<in> set ts. task < unat tasks"
  shows "\<exists>failure st'. reduce_tasks vu la T offs row_bytes out waits ts st = Inr (failure, st') \<and>
    ts_events st' = idle_events \<and>
    tasks_done (task_put vu la T offs row_bytes out (tile_sum vu) (\<lambda>task s. \<exists>k. was_ready (waits task k) s))
      (\<lambda>e. \<exists>task k. wait_failure (waits task k) e) ts failure st st'"
  using assms(2,3)
proof (induction ts arbitrary: st)
  case Nil
  then show ?case by (simp add: tasks_done_Nil)
next
  case (Cons task ts)
  let ?a = "task_row la task" and ?eb = "task_element_begin la (of_nat task)" and ?n = "task_elements la (of_nat task)"
  let ?put = "task_put vu la T offs row_bytes out (tile_sum vu) (\<lambda>task s. \<exists>k. was_ready (waits task k) s)"
  have t: "task < unat tasks" using Cons.prems(2) by simp
  note num = task_numbers [OF accepted_waveD(1) [OF w] t]
  note c = chain_good [OF w num(2)] and r = result_row [OF w num(2)]
  obtain failure st1 where run: "ReduceAccumulatorTile vu T offs row_bytes out (waits task) ?a ?eb ?n st = Inr (failure, st1)"
    "ts_events st1 = idle_events"
    "case failure of
       None \<Rightarrow> \<exists>ys. mset ys = mset (chain_of T la ?a) \<and> (\<forall>y \<in> set ys. \<exists>k. was_ready (waits task k) (source_of T y)) \<and>
         tile_done vu T offs row_bytes out ?eb ?n ?a ys st st1
     | Some e \<Rightarrow> ts_puts st1 = ts_puts st \<and> (\<exists>k. wait_failure (waits task k) e)"
    using ReduceAccumulatorTile_run [OF c(1,3,4,5,2) r(4) Cons.prems(1), of vu out "waits task" ?eb ?n] by blast
  show ?case
  proof (cases failure)
    case (Some e)
    then show ?thesis using run by (auto simp: num(1) intro!: tasks_done_fail)
  next
    case None
    then obtain ys where ys: "mset ys = mset (chain_of T la ?a)" "\<forall>y \<in> set ys. \<exists>k. was_ready (waits task k) (source_of T y)"
      "tile_done vu T offs row_bytes out ?eb ?n ?a ys st st1" using run(3) by auto
    let ?p = "(ro_owner_rank (result_op T ?a), result_address T row_bytes out ?eb ?a, ?n,
      tile_sum vu (map (tile_value vu T offs row_bytes ?eb ?n) ys))"
    have "?put task ?p" using ys by (auto simp: task_put_def Let_def)
    moreover have "ts_puts st1 = ts_puts st @ [?p]" using ys(3) by (simp add: tile_done_def)
    ultimately have step: "tasks_done ?put reason ts failure st1 st' \<Longrightarrow> tasks_done ?put reason (task # ts) failure st st'"
      for reason failure st' by (rule tasks_done_Cons)
    show ?thesis
      using Cons.IH [OF run(2)] Cons.prems(2) run(1) None by (auto simp: num(1) intro: step)
  qed
qed

text \<open>The credits are set before the tasks of a block and taken back after them.\<close>

definition no_events :: "event \<Rightarrow> nat" where
  "no_events e = 0"

lemma set_all_credits_idle: "ts_events st = no_events \<Longrightarrow> ts_events (set_all_credits st) = idle_events"
  by (auto simp: set_all_credits_def SetFlag_def no_events_def idle_events_def fun_eq_iff)

lemma set_all_credits_same: "ts_puts (set_all_credits st) = ts_puts st" "ts_gets (set_all_credits st) = ts_gets st"
  by (simp_all add: set_all_credits_def SetFlag_def)

lemma take_all_credits_idle:
  assumes "ts_events st = idle_events"
  shows "take_all_credits st = Inr (st\<lparr>ts_events := no_events\<rparr>)"
proof -
  have "idle_events(Mte3V := 0, PingVMte2 := 0, PongVMte2 := 0) = no_events"
    by (auto simp: no_events_def idle_events_def fun_eq_iff)
  then show ?thesis using assms by (simp add: take_all_credits_def WaitFlag_def) (simp add: idle_events_def)
qed

lemma tasks_done_same: "ts_puts st1 = ts_puts st2 \<Longrightarrow> ts_puts st1' = ts_puts st2' \<Longrightarrow>
    tasks_done put reason ts failure st1 st1' = tasks_done put reason ts failure st2 st2'"
  by (simp add: tasks_done_def)

lemma reduce_block_run:
  assumes w: "accepted_wave la blocks T offs row_bytes out tasks"
    and "ts_events st = no_events" "\<forall>task \<in> set ts. task < unat tasks"
  shows "\<exists>failure st'. reduce_block vu la T offs row_bytes out waits ts st = Inr (failure, st') \<and>
    ts_events st' = no_events \<and>
    tasks_done (task_put vu la T offs row_bytes out (tile_sum vu) (\<lambda>task s. \<exists>k. was_ready (waits task k) s))
      (\<lambda>e. \<exists>task k. wait_failure (waits task k) e) ts failure st st'"
proof -
  obtain failure st1 where run: "reduce_tasks vu la T offs row_bytes out waits ts (set_all_credits st) = Inr (failure, st1)"
    "ts_events st1 = idle_events"
    "tasks_done (task_put vu la T offs row_bytes out (tile_sum vu) (\<lambda>task s. \<exists>k. was_ready (waits task k) s))
      (\<lambda>e. \<exists>task k. wait_failure (waits task k) e) ts failure (set_all_credits st) st1"
    using reduce_tasks_run [OF w set_all_credits_idle [OF assms(2)] assms(3)] by blast
  let ?st' = "st1\<lparr>ts_events := no_events\<rparr>"
  have "tasks_done (task_put vu la T offs row_bytes out (tile_sum vu) (\<lambda>task s. \<exists>k. was_ready (waits task k) s))
      (\<lambda>e. \<exists>task k. wait_failure (waits task k) e) ts failure st ?st'"
    using run(3) by (subst tasks_done_same [of st "set_all_credits st" _ st1]) (simp_all add: set_all_credits_same)
  then show ?thesis
    using run by (intro exI [of _ failure] exI [of _ ?st']) (simp add: reduce_block_def take_all_credits_idle)
qed

subsection \<open>Two contributors\<close>

lemma WaitSourceReady_cases:
  "WaitSourceReady passes s = Inr () \<and> was_ready passes s \<or> (\<exists>e. WaitSourceReady passes s = fail e \<and> wait_failure passes e)"
  by (induction passes s rule: WaitSourceReady.induct) (auto simp: was_ready_def wait_failure_def)

definition two_sum :: "'v vector_unit \<Rightarrow> 'v list \<Rightarrow> 'v" where
  "two_sum vu vs = vu_add vu (vs ! 0) (vs ! 1)"

text \<open>The events with the GET of the first input in flight, or of both.\<close>

definition one_get :: "event \<Rightarrow> nat" where
  "one_get = idle_events(PingVMte2 := 0, PingMte2V := Suc 0)"

definition two_gets :: "event \<Rightarrow> nat" where
  "two_gets = one_get(PongVMte2 := 0, PongMte2V := Suc 0)"

lemma get_events:
  "idle_events PingVMte2 = Suc 0" "idle_events PingMte2V = 0" "one_get PongVMte2 = Suc 0" "one_get PongMte2V = 0"
  "two_gets PingMte2V = Suc 0" "two_gets PongMte2V = Suc 0" "two_gets Mte3V = Suc 0" "two_gets PingVMte2 = 0" "two_gets PongVMte2 = 0"
  "two_gets(PingMte2V := 0, PongMte2V := 0, Mte3V := 0, PingVMte2 := Suc 0, PongVMte2 := Suc 0) = drained_events"
  "one_get PingMte2V = Suc 0" "one_get PingVMte2 = 0" "one_get(PingMte2V := 0, PingVMte2 := Suc 0) = idle_events"
  by (auto simp: one_get_def two_gets_def idle_events_def drained_events_def fun_eq_iff)

lemma two_members:
  assumes g: "good_chain T head [i, j]"
  shows "unat head = i" "i < length (ct_pull_next T)" "unat (ct_pull_next T ! i) = j" "i < length (ct_pulls T)" "j < length (ct_pulls T)"
  using g by (auto simp: good_chain_def)

definition two_task_done ::
  "(nat \<Rightarrow> u32 \<times> u64 \<times> u32 \<times> 'v \<Rightarrow> bool) \<Rightarrow> (u32 \<Rightarrow> bool) \<Rightarrow> nat \<Rightarrow> u32 option \<times> bool \<times> bool \<Rightarrow> 'v tile_state \<Rightarrow> 'v tile_state \<Rightarrow> bool" where
  "two_task_done put reason task outcome st st' \<longleftrightarrow>
     (case outcome of
        (None, in0, in1) \<Rightarrow> \<not> in0 \<and> \<not> in1 \<and> ts_events st' = idle_events \<and> (\<exists>p. put task p \<and> ts_puts st' = ts_puts st @ [p])
      | (Some e, in0, in1) \<Rightarrow> \<not> in1 \<and> ts_events st' = (if in0 then one_get else idle_events) \<and> ts_puts st' = ts_puts st \<and> reason e)"

lemma two_contributor_task_run:
  fixes vu :: "'v vector_unit"
  assumes w: "accepted_wave la blocks T offs row_bytes out tasks"
    and ev: "ts_events st = idle_events" and t: "task < unat tasks" and two: "ct_counts T ! task_row la task = 2"
  shows "\<exists>outcome st'. two_contributor_task vu la T offs row_bytes out waits status task st = Inr (outcome, st') \<and>
    two_task_done (task_put vu la T offs row_bytes out (two_sum vu) (\<lambda>task s. \<exists>second. was_ready (waits task second) s))
      (\<lambda>e. \<exists>task second. e = status task \<and> e \<noteq> kStatusOk \<or> wait_failure (waits task second) e) task outcome st st'"
    (is "\<exists>outcome st'. _ \<and> two_task_done ?put ?reason task outcome st st'")
proof (cases "status task = kStatusOk")
  case False
  then show ?thesis using ev by (auto simp: two_contributor_task_def two_task_done_def)
next
  case True
  let ?a = "task_row la task" and ?eb = "task_element_begin la (of_nat task)" and ?n = "task_elements la (of_nat task)"
  let ?val = "tile_value vu T offs row_bytes ?eb ?n" and ?read = "tile_read T offs row_bytes ?eb ?n"
  note num = task_numbers [OF accepted_waveD(1) [OF w] t]
  note c = chain_good [OF w num(2)] and r = result_row [OF w num(2)]
  have "length (chain_of T la ?a) = 2" using c(5) two by simp
  then obtain i j where ij: "chain_of T la ?a = [i, j]"
    by (auto simp: numeral_2_eq_2 length_Suc_conv)
  have g: "good_chain T (ct_heads T ! ?a) [i, j]" and fit: "rows_fit T offs row_bytes [i, j]" using c(1,2) ij by simp_all
  note m = two_members [OF g]
  let ?first = "ct_heads T ! ?a"
  let ?second = "ct_pull_next T ! i"
  define st1 where "st1 = st\<lparr>ts_events := one_get, ts_ub := (ts_ub st)(Ping := ?val i), ts_gets := ts_gets st @ [?read i]\<rparr>"
  define st2 where "st2 = st1\<lparr>ts_events := two_gets, ts_ub := (ts_ub st1)(Pong := ?val j), ts_gets := ts_gets st1 @ [?read j]\<rparr>"
  define st3 where "st3 = st2\<lparr>ts_events := drained_events, ts_ub := (ts_ub st2)(Acc := vu_add vu (ts_ub st2 Ping) (ts_ub st2 Pong))\<rparr>"
  have g1: "issue_pull vu T offs row_bytes ?eb ?n Ping ?first st = Inr (None, st1)"
    using issue_pull_eq [OF g fit _ m(1), of st Ping 0 vu ?eb ?n] ev by (simp add: st1_def one_get_def get_events)
  have g2: "issue_pull vu T offs row_bytes ?eb ?n Pong ?second st1 = Inr (None, st2)"
    using issue_pull_eq [OF g fit _ m(3), of st1 Pong 0 vu ?eb ?n] by (simp add: st1_def st2_def two_gets_def get_events)
  obtain st4 where g4: "put_result T row_bytes out ?a ?eb ?n st3 = Inr (None, st4)" "ts_events st4 = idle_events"
    "ts_puts st4 = ts_puts st3 @ [(ro_owner_rank (result_op T ?a), result_address T row_bytes out ?eb ?a, ?n, ts_ub st3 Acc)]"
    using put_result_eq [OF r(4), of st3 out ?eb ?n] by (auto simp: st3_def)
  have flags: "rbind (WaitFlag PingMte2V st2) (\<lambda>st. rbind (WaitFlag PongMte2V st) (\<lambda>st. rbind (WaitFlag Mte3V st) f)) =
      f (st2\<lparr>ts_events := two_gets(PingMte2V := 0, PongMte2V := 0, Mte3V := 0)\<rparr>)" for f :: "_ \<Rightarrow> (u32, (u32 option \<times> bool \<times> bool) \<times> 'v tile_state) res"
    by (simp add: WaitFlag_def st2_def get_events)
  have st3: "SetFlag PongVMte2 (SetFlag PingVMte2 (st2\<lparr>ts_events := two_gets(PingMte2V := 0, PongMte2V := 0, Mte3V := 0),
      ts_ub := (ts_ub st2)(Acc := vu_add vu (ts_ub st2 Ping) (ts_ub st2 Pong))\<rparr>)) = st3"
    by (simp add: SetFlag_def st3_def get_events)
  have body: "two_contributor_task vu la T offs row_bytes out waits status task st =
     (case WaitSourceReady (waits task False) (source_of T i) of
        Inl (Ret e) \<Rightarrow> Inr ((Some e, False, False), st)
      | Inl f \<Rightarrow> Inl f
      | Inr _ \<Rightarrow>
        case WaitSourceReady (waits task True) (source_of T j) of
          Inl (Ret e) \<Rightarrow> Inr ((Some e, True, False), st1)
        | Inl f \<Rightarrow> Inl f
        | Inr _ \<Rightarrow> Inr ((None, False, False), st4))"
    using True c(3) m g1 g2 g4(1) flags st3
    by (simp add: two_contributor_task_def num(1) Let_def cong: sum.case_cong fault.case_cong)
  have p: "?put task (ro_owner_rank (result_op T ?a), result_address T row_bytes out ?eb ?a, ?n, ts_ub st3 Acc)"
    if "was_ready (waits task False) (source_of T i)" "was_ready (waits task True) (source_of T j)"
    unfolding task_put_def Let_def ij
    by (intro exI [of _ "[i, j]"]) (use that in \<open>auto simp: two_sum_def st3_def st2_def st1_def\<close>)
  have puts: "ts_puts st3 = ts_puts st" "ts_puts st1 = ts_puts st" "ts_events st1 = one_get"
    by (simp_all add: st3_def st2_def st1_def)
  consider e where "WaitSourceReady (waits task False) (source_of T i) = fail e" "wait_failure (waits task False) e"
    | e where "WaitSourceReady (waits task False) (source_of T i) = Inr ()"
        "WaitSourceReady (waits task True) (source_of T j) = fail e" "wait_failure (waits task True) e"
    | "WaitSourceReady (waits task False) (source_of T i) = Inr ()" "WaitSourceReady (waits task True) (source_of T j) = Inr ()"
        "was_ready (waits task False) (source_of T i)" "was_ready (waits task True) (source_of T j)"
    using WaitSourceReady_cases [of "waits task False" "source_of T i"] WaitSourceReady_cases [of "waits task True" "source_of T j"]
    by blast
  then show ?thesis
  proof cases
    case (1 e)
    then show ?thesis
      using ev by (intro exI [of _ "(Some e, False, False)"] exI [of _ st]) (auto simp: body fail_def two_task_done_def)
  next
    case (2 e)
    then show ?thesis
      using puts by (intro exI [of _ "(Some e, True, False)"] exI [of _ st1]) (auto simp: body fail_def two_task_done_def)
  next
    case 3
    then show ?thesis
      using g4 p puts by (intro exI [of _ "(None, False, False)"] exI [of _ st4]) (auto simp: body two_task_done_def)
  qed
qed

lemma two_contributor_tasks_run:
  fixes vu :: "'v vector_unit"
  assumes w: "accepted_wave la blocks T offs row_bytes out tasks"
    and "ts_events st = idle_events" "\<forall>task \<in> set ts. task < unat tasks \<and> ct_counts T ! task_row la task = 2"
  shows "\<exists>failure in0 st'. two_contributor_tasks vu la T offs row_bytes out waits status ts st = Inr ((failure, in0, False), st') \<and>
    ts_events st' = (if in0 then one_get else idle_events) \<and>
    tasks_done (task_put vu la T offs row_bytes out (two_sum vu) (\<lambda>task s. \<exists>second. was_ready (waits task second) s))
      (\<lambda>e. \<exists>task second. e = status task \<and> e \<noteq> kStatusOk \<or> wait_failure (waits task second) e) ts failure st st'"
  using assms(2,3)
proof (induction ts arbitrary: st)
  case Nil
  then show ?case
    by (intro exI [of _ None] exI [of _ False] exI [of _ st]) (simp add: tasks_done_Nil)
next
  case (Cons task ts)
  let ?put = "task_put vu la T offs row_bytes out (two_sum vu) (\<lambda>task s. \<exists>second. was_ready (waits task second) s)"
  let ?reason = "\<lambda>e. \<exists>task second. e = status task \<and> e \<noteq> kStatusOk \<or> wait_failure (waits task second) e"
  obtain failure in0 in1 st1 where run: "two_contributor_task vu la T offs row_bytes out waits status task st = Inr ((failure, in0, in1), st1)"
    and d: "two_task_done ?put ?reason task (failure, in0, in1) st st1"
    using two_contributor_task_run [OF w Cons.prems(1), of task vu waits status] Cons.prems(2) by auto
  show ?case
  proof (cases failure)
    case (Some e)
    then have "\<not> in1" "ts_events st1 = (if in0 then one_get else idle_events)" "ts_puts st1 = ts_puts st" "?reason e"
      using d by (simp_all add: two_task_done_def)
    then show ?thesis
      using run Some tasks_done_fail [of st1 st ?reason e ?put task ts]
      by (intro exI [of _ "Some e"] exI [of _ in0] exI [of _ st1]) simp
  next
    case None
    then obtain p where p: "?put task p" "ts_puts st1 = ts_puts st @ [p]" and ev: "ts_events st1 = idle_events"
      using d by (auto simp: two_task_done_def)
    obtain failure' in0' st' where IH: "two_contributor_tasks vu la T offs row_bytes out waits status ts st1 = Inr ((failure', in0', False), st')"
      "ts_events st' = (if in0' then one_get else idle_events)" "tasks_done ?put ?reason ts failure' st1 st'"
      using Cons.IH [OF ev] Cons.prems(2) by auto
    have "tasks_done ?put ?reason (task # ts) failure' st st'"
      using p IH(3) by (rule tasks_done_Cons)
    then show ?thesis
      using run None IH(1,2) by (intro exI [of _ failure'] exI [of _ in0'] exI [of _ st']) simp
  qed
qed

lemma ReduceTwoContributorTaskRange_run:
  assumes w: "accepted_wave la blocks T offs row_bytes out tasks"
    and ev: "ts_events st = no_events" and ts: "ts = [unat (fst bounds)..<unat (snd bounds)]"
    and two: "\<forall>task \<in> set ts. task < unat tasks \<and> ct_counts T ! task_row la task = 2"
  shows "\<exists>failure st'. ReduceTwoContributorTaskRange vu la T offs row_bytes out waits status bounds st = Inr (failure, st') \<and>
    ts_events st' = no_events \<and>
    tasks_done (task_put vu la T offs row_bytes out (two_sum vu) (\<lambda>task s. \<exists>second. was_ready (waits task second) s))
      (\<lambda>e. \<exists>task second. e = status task \<and> e \<noteq> kStatusOk \<or> wait_failure (waits task second) e) ts failure st st'"
    (is "\<exists>failure st'. _ \<and> _ \<and> tasks_done ?put ?reason ts failure st st'")
proof -
  obtain failure in0 st1 where run: "two_contributor_tasks vu la T offs row_bytes out waits status ts (set_all_credits st) =
      Inr ((failure, in0, False), st1)" "ts_events st1 = (if in0 then one_get else idle_events)"
    "tasks_done ?put ?reason ts failure (set_all_credits st) st1"
    using two_contributor_tasks_run [OF w set_all_credits_idle [OF ev] two, of vu waits status] by blast
  define st2 where "st2 = st1\<lparr>ts_events := idle_events\<rparr>"
  have "drain_input Ping in0 st1 = Inr st2"
    using run(2) by (simp add: drain_input_def WaitFlag_def SetFlag_def get_events st2_def)
  moreover have "drain_input Pong False st2 = Inr st2" by (simp add: drain_input_def)
  moreover have "take_all_credits st2 = Inr (st2\<lparr>ts_events := no_events\<rparr>)" by (simp add: take_all_credits_idle st2_def)
  moreover have "tasks_done ?put ?reason ts failure st (st2\<lparr>ts_events := no_events\<rparr>)"
    using run(3) by (subst tasks_done_same [of st "set_all_credits st" _ st1]) (simp_all add: set_all_credits_same st2_def)
  ultimately show ?thesis
    using run(1) ts by (intro exI [of _ failure] exI [of _ "st2\<lparr>ts_events := no_events\<rparr>"])
      (simp add: ReduceTwoContributorTaskRange_def)
qed

section \<open>Where the results go\<close>

text \<open>The bytes of the owner's memory a task writes.\<close>

definition task_bytes :: "combine_tables \<Rightarrow> combine_launch \<Rightarrow> u64 \<Rightarrow> u64 \<Rightarrow> nat \<Rightarrow> nat set" where
  "task_bytes T la row_bytes out task =
     (let addr = unat (result_address T row_bytes out (task_element_begin la (of_nat task)) (task_row la task))
      in {addr..<addr + 4 * unat (task_elements la (of_nat task))})"

definition task_owner :: "combine_tables \<Rightarrow> combine_launch \<Rightarrow> nat \<Rightarrow> nat" where
  "task_owner T la task = unat (ro_owner_rank (result_op T (task_row la task)))"

definition owner_rows :: "combine_tables \<Rightarrow> nat \<Rightarrow> nat" where
  "owner_rows T owner = unat (ct_owner_offsets T ! Suc owner) - unat (ct_owner_offsets T ! owner)"

lemma unat_sum3: "unat (x :: u64) + unat y + unat z < 2 ^ 64 \<Longrightarrow> unat (x + y + z) = unat x + unat y + unat z"
  by (simp add: unat_word_ariths)

lemma task_bytes_eq:
  assumes w: "accepted_wave la blocks T offs row_bytes out tasks" and t: "task < unat tasks"
    and slots: "unat (la_owner_output_slot_stride la) * unat (la_slot_count la) < 2 ^ 64"
    and base: "base = unat out + unat row_bytes * unat (ro_owner_row (result_op T (task_row la task)))"
  shows "task_bytes T la row_bytes out task = {base + 4 * task_begin la task..<base + 4 * task_end la task}"
    and "unat row_bytes * unat (ro_owner_row (result_op T (task_row la task))) + unat row_bytes \<le>
      unat (la_owner_output_slot_stride la)"
    and "unat out + unat (la_owner_output_slot_stride la) < 2 ^ 64"
proof -
  note lv = accepted_waveD(1) [OF w]
  note n = launch_tasks [OF lv] and num = task_numbers [OF lv t]
  note r = result_row [OF w num(2)]
  let ?S = "unat (la_owner_output_slot_stride la)" and ?row = "unat (ro_owner_row (result_op T (task_row la task)))"
  have "unat (la_ring_slot la) + 1 \<le> unat (la_slot_count la)" using launch_numbers(7) [OF lv] by (simp add: word_less_nat_alt)
  then have "?S * (unat (la_ring_slot la) + 1) \<le> ?S * unat (la_slot_count la)" by (rule mult_le_mono2)
  then show fits: "unat out + ?S < 2 ^ 64" using slots n(5) by simp
  show inside: "unat row_bytes * ?row + unat row_bytes \<le> ?S" using r(2) by simp
  have b: "4 * task_begin la task < unat row_bytes" "task_end la task \<le> unat (la_hidden la)"
    using num(5,6) n(3) by simp_all
  have b4: "unat (4 * task_element_begin la (of_nat task)) = 4 * task_begin la task"
    using b inside fits by (simp add: unat_word_ariths num(3))
  have r4: "unat (ucast (ro_owner_row (result_op T (task_row la task))) * row_bytes) = unat row_bytes * ?row"
    using inside fits by (simp add: unat_word_ariths unat_ucast_u64 mult.commute)
  have lt: "unat out + unat (ucast (ro_owner_row (result_op T (task_row la task))) * row_bytes) +
      unat (4 * task_element_begin la (of_nat task)) < 2 ^ 64"
    unfolding r4 b4 using b inside fits by linarith
  have "unat (result_address T row_bytes out (task_element_begin la (of_nat task)) (task_row la task)) =
      base + 4 * task_begin la task"
    using unat_sum3 [OF lt] unfolding result_address_def base r4 b4 by simp
  then show "task_bytes T la row_bytes out task = {base + 4 * task_begin la task..<base + 4 * task_end la task}"
    using num(5) by (simp add: task_bytes_def num(4) Let_def diff_mult_distrib2)
qed

text \<open>Accumulators and results correspond one to one.\<close>

lemma result_index_bij:
  assumes w: "accepted_wave la blocks T offs row_bytes out tasks"
  shows "bij_betw (\<lambda>a. unat (ct_result_index T ! a)) {..<unat (la_accumulator_count la)} {..<unat (la_result_count la)}"
proof -
  let ?A = "unat (la_accumulator_count la)" and ?f = "\<lambda>a. unat (ct_result_index T ! a)"
  have ok: "result_ok T la a" if "a < ?A" for a using sealed_tablesD(5) [OF accepted_waveD(2) [OF w] that] by simp
  have inj: "inj_on ?f {..<?A}"
  proof (rule inj_onI)
    fix a b assume "a \<in> {..<?A}" "b \<in> {..<?A}" "?f a = ?f b"
    then show "a = b" using ok [of a] ok [of b] by (simp add: result_ok_def Let_def)
  qed
  have sub: "?f ` {..<?A} \<subseteq> {..<unat (la_result_count la)}" using ok by (auto simp: result_ok_def Let_def)
  have "?f ` {..<?A} = {..<unat (la_result_count la)}"
    by (rule card_subset_eq) (use inj sub launch_numbers(6) [OF accepted_waveD(1) [OF w]] in \<open>auto simp: card_image\<close>)
  then show ?thesis using inj by (simp add: bij_betw_def)
qed

lemma tasks_disjoint:
  assumes w: "accepted_wave la blocks T offs row_bytes out tasks"
    and slots: "unat (la_owner_output_slot_stride la) * unat (la_slot_count la) < 2 ^ 64"
    and t: "t1 < unat tasks" "t2 < unat tasks" "t1 \<noteq> t2" and owner: "task_owner T la t1 = task_owner T la t2"
  shows "task_bytes T la row_bytes out t1 \<inter> task_bytes T la row_bytes out t2 = {}"
proof -
  note lv = accepted_waveD(1) [OF w]
  note n = launch_tasks [OF lv] and num1 = task_numbers [OF lv t(1)] and num2 = task_numbers [OF lv t(2)]
  let ?row = "\<lambda>t. unat (ro_owner_row (result_op T (task_row la t)))"
  note e1 = task_bytes_eq(1) [OF w t(1) slots refl] and e2 = task_bytes_eq(1) [OF w t(2) slots refl]
  show ?thesis
  proof (cases "task_row la t1 = task_row la t2")
    case True
    have "\<not> (task_begin la t1 \<le> e \<and> e < task_end la t1 \<and> task_begin la t2 \<le> e \<and> e < task_end la t2)" for e
      using element_task [OF lv num1(2), of e] t True num1(6) by (metis order_less_le_trans)
    then have "task_end la t1 \<le> task_begin la t2 \<or> task_end la t2 \<le> task_begin la t1"
      using num1(5) num2(5) by (metis linorder_not_le nle_le)
    then show ?thesis unfolding e1 e2 True by auto
  next
    case False
    have row: "row_at (ct_owner_offsets T) (unat (la_worker_count la)) (unat (ct_result_index T ! task_row la t))
        (ro_owner_rank (result_op T (task_row la t))) (ro_owner_row (result_op T (task_row la t)))"
      if "t < unat tasks" for t
      using result_row(1) [OF w task_numbers(2) [OF lv that]] .
    have "unat (ct_result_index T ! task_row la t1) \<noteq> unat (ct_result_index T ! task_row la t2)"
      using False result_index_bij [OF w] num1(2) num2(2) by (auto simp: bij_betw_def inj_on_def)
    then have ne: "?row t1 \<noteq> ?row t2"
      using row [OF t(1)] row [OF t(2)] owner by (auto simp: row_at_def task_owner_def)
    have apart: "unat row_bytes * r + unat row_bytes \<le> unat row_bytes * r'" if "r < r'" for r r'
      using mult_le_mono2 [of "Suc r" r' "unat row_bytes"] that by simp
    have ends: "4 * task_end la t1 \<le> unat row_bytes" "4 * task_end la t2 \<le> unat row_bytes"
      using num1(6) num2(6) n(3) by simp_all
    from ne consider "?row t1 < ?row t2" | "?row t2 < ?row t1" by linarith
    then show ?thesis
    proof cases
      case 1
      then show ?thesis unfolding e1 e2 using apart [OF 1] ends by auto
    next
      case 2
      then show ?thesis unfolding e1 e2 using apart [OF 2] ends by auto
    qed
  qed
qed

lemma offsets_mono:
  assumes "offsets_ok offsets W n" "i \<le> j" "j \<le> W"
  shows "unat (offsets ! i) \<le> unat (offsets ! j)"
  using assms(2,3)
proof (induction j rule: dec_induct)
  case (step m)
  then show ?case using assms(1) by (auto simp: offsets_ok_def word_le_nat_alt intro: le_trans)
qed simp

lemma offsets_unique:
  assumes ok: "offsets_ok offsets W n" and s: "s < W" "unat (offsets ! s) \<le> i" "i < unat (offsets ! Suc s)"
    and t: "t < W" "unat (offsets ! t) \<le> i" "i < unat (offsets ! Suc t)"
  shows "s = t"
proof (rule ccontr)
  assume "s \<noteq> t"
  then consider "Suc s \<le> t" | "Suc t \<le> s" by linarith
  then show False
  proof cases
    case 1
    then show ?thesis using offsets_mono [OF ok 1] s t by simp
  next
    case 2
    then show ?thesis using offsets_mono [OF ok 2] s t by simp
  qed
qed

text \<open>The accumulator whose result is a given row of an owner.\<close>

lemma row_accumulator:
  assumes w: "accepted_wave la blocks T offs row_bytes out tasks" and o: "owner < unat (la_worker_count la)"
    and row: "row < owner_rows T owner"
  obtains a where "a < unat (la_accumulator_count la)" "unat (ro_owner_rank (result_op T a)) = owner"
    "unat (ro_owner_row (result_op T a)) = row"
proof -
  let ?offs = "ct_owner_offsets T" and ?W = "unat (la_worker_count la)"
  have ok: "offsets_ok ?offs ?W (unat (la_result_count la))"
    using sealed_tablesD(3) [OF accepted_waveD(2) [OF w]] .
  let ?r = "unat (?offs ! owner) + row"
  have r: "?r < unat (?offs ! Suc owner)" using row by (simp add: owner_rows_def)
  also have "\<dots> \<le> unat (?offs ! ?W)" using o by (intro offsets_mono [OF ok]) auto
  also have "\<dots> = unat (la_result_count la)" using ok by (simp add: offsets_ok_def)
  finally have "?r \<in> (\<lambda>a. unat (ct_result_index T ! a)) ` {..<unat (la_accumulator_count la)}"
    unfolding bij_betw_imp_surj_on [OF result_index_bij [OF w]] by simp
  then obtain a where a: "a < unat (la_accumulator_count la)" "?r = unat (ct_result_index T ! a)" by auto
  let ?o = "unat (ro_owner_rank (result_op T a))"
  have at: "?o < ?W" "unat (?offs ! ?o) \<le> ?r" "?r < unat (?offs ! Suc ?o)"
    "unat (ro_owner_row (result_op T a)) = ?r - unat (?offs ! ?o)"
    unfolding a(2) using result_row(1) [OF w a(1)] unfolding row_at_def by blast+
  have o': "?o = owner" by (rule offsets_unique [OF ok at(1-3) o le_add1 r])
  show thesis by (rule that [OF a(1) o']) (simp add: at(4) o')
qed

text \<open>Together the tasks write the rows of an owner, from the start of its slot.\<close>

lemma tasks_cover:
  assumes w: "accepted_wave la blocks T offs row_bytes out tasks"
    and slots: "unat (la_owner_output_slot_stride la) * unat (la_slot_count la) < 2 ^ 64"
    and o: "owner < unat (la_worker_count la)"
  shows "(\<Union>t \<in> {t. t < unat tasks \<and> task_owner T la t = owner}. task_bytes T la row_bytes out t) =
    {unat out..<unat out + unat row_bytes * owner_rows T owner}"
proof (intro equalityI subsetI)
  note lv = accepted_waveD(1) [OF w]
  note n = launch_tasks [OF lv]
  fix x assume "x \<in> (\<Union>t \<in> {t. t < unat tasks \<and> task_owner T la t = owner}. task_bytes T la row_bytes out t)"
  then obtain t where t: "t < unat tasks" "task_owner T la t = owner" and x: "x \<in> task_bytes T la row_bytes out t" by auto
  note num = task_numbers [OF lv t(1)]
  let ?row = "unat (ro_owner_row (result_op T (task_row la t)))"
  have "?row < owner_rows T owner"
    using result_row(1) [OF w num(2)] t(2) by (auto simp: row_at_def task_owner_def owner_rows_def)
  then have "unat row_bytes * Suc ?row \<le> unat row_bytes * owner_rows T owner" by (intro mult_le_mono2) simp
  moreover have "4 * task_end la t \<le> unat row_bytes" using num(6) n(3) by simp
  ultimately show "x \<in> {unat out..<unat out + unat row_bytes * owner_rows T owner}"
    using x unfolding task_bytes_eq(1) [OF w t(1) slots refl] by simp
next
  note lv = accepted_waveD(1) [OF w]
  note n = launch_tasks [OF lv]
  let ?rb = "unat row_bytes"
  fix x assume x: "x \<in> {unat out..<unat out + ?rb * owner_rows T owner}"
  define d where "d = x - unat out"
  have rb: "0 < ?rb" using n(3,4) by simp
  have "d < owner_rows T owner * ?rb" using x by (auto simp: d_def mult.commute)
  then have "d div ?rb < owner_rows T owner" by (simp add: less_mult_imp_div_less)
  then obtain a where a: "a < unat (la_accumulator_count la)" "unat (ro_owner_rank (result_op T a)) = owner"
    "unat (ro_owner_row (result_op T a)) = d div ?rb" by (rule row_accumulator [OF w o])
  have m: "d mod ?rb < 4 * unat (la_hidden la)" using rb n(3) by (metis mod_less_divisor)
  then have e: "d mod ?rb div 4 < unat (la_hidden la)" by (simp add: div_less_iff_less_mult mult.commute)
  obtain t where t: "t < unat tasks" "task_row la t = a" "task_begin la t \<le> d mod ?rb div 4" "d mod ?rb div 4 < task_end la t"
    using element_task [OF lv a(1) e] by blast
  have "4 * task_begin la t \<le> d mod ?rb" "d mod ?rb < 4 * task_end la t" using t(3,4) by linarith+
  moreover have "d = ?rb * (d div ?rb) + d mod ?rb" by simp
  moreover have "x = unat out + d" using x by (simp add: d_def)
  ultimately have "x \<in> task_bytes T la row_bytes out t"
    unfolding task_bytes_eq(1) [OF w t(1) slots refl] t(2) a(3) atLeastLessThan_iff by linarith
  then show "x \<in> (\<Union>t \<in> {t. t < unat tasks \<and> task_owner T la t = owner}. task_bytes T la row_bytes out t)"
    using t a(2) by (auto simp: task_owner_def)
qed

end
