(* ===== verification/Combine_Publish.thy ===== *)
theory Combine_Publish
  imports Combine_Device
begin

text \<open>
  What the INC tells the workers at the end of a wave (\<open>inc_dc_pull_combine_v2_device_kernel.cpp\<close>): the
  acknowledgement of a source and the completion of an owner, records of two cache lines with the word that
  publishes them at the end of the second, and their transfer line by line to the worker's copy. A transfer of
  one line is atomic (the premise of the protocol), and each is complete before the next starts. The
  checks of the receiving worker are those of \<open>inc_dc_pull_combine_v2_npu_e2e.cpp\<close>. The last part is the
  final transition of the journal header.
\<close>

section \<open>Model\<close>

record CombineSourceAckV2 =
  sak_magic :: u32
  sak_abi_version :: u16
  sak_struct_bytes :: u16
  sak_session_id :: u64
  sak_placement_epoch :: u64
  sak_generation :: u64
  sak_sequence :: u64
  sak_dispatch_cookie :: u64
  sak_wave :: u32
  sak_source_rank :: u32
  sak_source_region_id :: u32
  sak_status :: u32
  sak_ring_slot :: u16
  sak_flags :: u16
  sak_row_count :: u32
  sak_bytes_consumed :: u64
  sak_reserved :: "u64 list"
  sak_publication :: u64

record CombineOwnerCompletionV2 =
  ocp_magic :: u32
  ocp_abi_version :: u16
  ocp_struct_bytes :: u16
  ocp_session_id :: u64
  ocp_placement_epoch :: u64
  ocp_generation :: u64
  ocp_sequence :: u64
  ocp_dispatch_cookie :: u64
  ocp_wave :: u32
  ocp_owner_rank :: u32
  ocp_status :: u32
  ocp_row_count :: u32
  ocp_ring_slot :: u16
  ocp_flags :: u16
  ocp_reserved0 :: u32
  ocp_bytes_produced :: u64
  ocp_reserved :: "u64 list"
  ocp_publication :: u64

text \<open>The memory image of the records; their last field is the publication word, at offset 120.\<close>

definition source_ack_bytes :: "CombineSourceAckV2 \<Rightarrow> u8 list" where
  "source_ack_bytes a =
     le_bytes 4 (sak_magic a) @ le_bytes 2 (sak_abi_version a) @ le_bytes 2 (sak_struct_bytes a) @
     le_bytes 8 (sak_session_id a) @ le_bytes 8 (sak_placement_epoch a) @ le_bytes 8 (sak_generation a) @
     le_bytes 8 (sak_sequence a) @ le_bytes 8 (sak_dispatch_cookie a) @ le_bytes 4 (sak_wave a) @
     le_bytes 4 (sak_source_rank a) @ le_bytes 4 (sak_source_region_id a) @ le_bytes 4 (sak_status a) @
     le_bytes 2 (sak_ring_slot a) @ le_bytes 2 (sak_flags a) @ le_bytes 4 (sak_row_count a) @
     le_bytes 8 (sak_bytes_consumed a) @ concat (map (le_bytes 8) (sak_reserved a)) @ le_bytes 8 (sak_publication a)"

definition source_ack_of :: "u8 list \<Rightarrow> CombineSourceAckV2" where
  "source_ack_of bs = \<lparr> sak_magic = field_at 0 4 bs, sak_abi_version = field_at 4 2 bs, sak_struct_bytes = field_at 6 2 bs,
     sak_session_id = field_at 8 8 bs, sak_placement_epoch = field_at 16 8 bs, sak_generation = field_at 24 8 bs,
     sak_sequence = field_at 32 8 bs, sak_dispatch_cookie = field_at 40 8 bs, sak_wave = field_at 48 4 bs,
     sak_source_rank = field_at 52 4 bs, sak_source_region_id = field_at 56 4 bs, sak_status = field_at 60 4 bs,
     sak_ring_slot = field_at 64 2 bs, sak_flags = field_at 66 2 bs, sak_row_count = field_at 68 4 bs,
     sak_bytes_consumed = field_at 72 8 bs, sak_reserved = map (\<lambda>i. field_at (80 + 8 * i) 8 bs) [0..<5],
     sak_publication = field_at 120 8 bs \<rparr>"

definition owner_completion_bytes :: "CombineOwnerCompletionV2 \<Rightarrow> u8 list" where
  "owner_completion_bytes c =
     le_bytes 4 (ocp_magic c) @ le_bytes 2 (ocp_abi_version c) @ le_bytes 2 (ocp_struct_bytes c) @
     le_bytes 8 (ocp_session_id c) @ le_bytes 8 (ocp_placement_epoch c) @ le_bytes 8 (ocp_generation c) @
     le_bytes 8 (ocp_sequence c) @ le_bytes 8 (ocp_dispatch_cookie c) @ le_bytes 4 (ocp_wave c) @
     le_bytes 4 (ocp_owner_rank c) @ le_bytes 4 (ocp_status c) @ le_bytes 4 (ocp_row_count c) @
     le_bytes 2 (ocp_ring_slot c) @ le_bytes 2 (ocp_flags c) @ le_bytes 4 (ocp_reserved0 c) @
     le_bytes 8 (ocp_bytes_produced c) @ concat (map (le_bytes 8) (ocp_reserved c)) @ le_bytes 8 (ocp_publication c)"

definition owner_completion_of :: "u8 list \<Rightarrow> CombineOwnerCompletionV2" where
  "owner_completion_of bs = \<lparr> ocp_magic = field_at 0 4 bs, ocp_abi_version = field_at 4 2 bs, ocp_struct_bytes = field_at 6 2 bs,
     ocp_session_id = field_at 8 8 bs, ocp_placement_epoch = field_at 16 8 bs, ocp_generation = field_at 24 8 bs,
     ocp_sequence = field_at 32 8 bs, ocp_dispatch_cookie = field_at 40 8 bs, ocp_wave = field_at 48 4 bs,
     ocp_owner_rank = field_at 52 4 bs, ocp_status = field_at 56 4 bs, ocp_row_count = field_at 60 4 bs,
     ocp_ring_slot = field_at 64 2 bs, ocp_flags = field_at 66 2 bs, ocp_reserved0 = field_at 68 4 bs,
     ocp_bytes_produced = field_at 72 8 bs, ocp_reserved = map (\<lambda>i. field_at (80 + 8 * i) 8 bs) [0..<5],
     ocp_publication = field_at 120 8 bs \<rparr>"

text \<open>
  The publication of a record: what the remote copy holds after each of the three transfers. The first
  revokes what was published before, the second replaces the first line, the third brings the second line with
  the publication word.
\<close>

definition store_word :: "nat \<Rightarrow> u64 \<Rightarrow> u8 list \<Rightarrow> u8 list" where
  "store_word offset w bs = take offset bs @ le_bytes 8 w @ drop (offset + 8) bs"

definition PublishControlRecord128 :: "u8 list \<Rightarrow> u8 list \<Rightarrow> nat \<Rightarrow> u64 \<Rightarrow> u8 list list" where
  "PublishControlRecord128 local remote publication_offset publication =
     (let local = store_word publication_offset 0 local;
          revoked = take 64 remote @ drop 64 local;
          local = store_word publication_offset publication local;
          first_line = take 64 local @ drop 64 revoked;
          second_line = take 64 first_line @ drop 64 local
      in [revoked, first_line, second_line])"

definition publication_word :: "u8 list \<Rightarrow> u64" where
  "publication_word bytes = (let publication = HashGmBytes kHashOffset bytes in if publication = 0 then 1 else publication)"

definition PublishSourceAck ::
  "u8 list \<Rightarrow> u32 \<Rightarrow> u32 \<Rightarrow> u32 \<Rightarrow> u64 \<Rightarrow> u32 \<Rightarrow> combine_launch \<Rightarrow> u8 list list" where
  "PublishSourceAck remote source status rows bytes region_id la =
     (let ack = \<lparr> sak_magic = kPullCombineV2Magic, sak_abi_version = kPullCombineV2AbiVersion, sak_struct_bytes = 128,
            sak_session_id = la_session_id la, sak_placement_epoch = la_placement_epoch la,
            sak_generation = la_generation la, sak_sequence = la_sequence la, sak_dispatch_cookie = la_dispatch_cookie la,
            sak_wave = la_wave la, sak_source_rank = source, sak_source_region_id = region_id, sak_status = status,
            sak_ring_slot = ucast (la_ring_slot la), sak_flags = 0,
            sak_row_count = (if status = kStatusOk then rows else 0),
            sak_bytes_consumed = (if status = kStatusOk then bytes else 0),
            sak_reserved = replicate 5 0, sak_publication = 0 \<rparr>;
          local = source_ack_bytes ack
      in PublishControlRecord128 local remote 120 (publication_word (take 120 local)))"

definition PublishOwnerCompletion ::
  "u8 list \<Rightarrow> u32 \<Rightarrow> u32 \<Rightarrow> u32 \<Rightarrow> u64 \<Rightarrow> combine_launch \<Rightarrow> u8 list list" where
  "PublishOwnerCompletion remote owner status rows bytes la =
     (let completion = \<lparr> ocp_magic = kPullCombineV2Magic, ocp_abi_version = kPullCombineV2AbiVersion, ocp_struct_bytes = 128,
            ocp_session_id = la_session_id la, ocp_placement_epoch = la_placement_epoch la,
            ocp_generation = la_generation la, ocp_sequence = la_sequence la, ocp_dispatch_cookie = la_dispatch_cookie la,
            ocp_wave = la_wave la, ocp_owner_rank = owner, ocp_status = status,
            ocp_row_count = (if status = kStatusOk then rows else 0),
            ocp_ring_slot = ucast (la_ring_slot la), ocp_flags = 0, ocp_reserved0 = 0,
            ocp_bytes_produced = (if status = kStatusOk then bytes else 0),
            ocp_reserved = replicate 5 0, ocp_publication = 0 \<rparr>;
          local = owner_completion_bytes completion
      in PublishControlRecord128 local remote 120 (publication_word (take 120 local)))"

subsection \<open>The checks of the worker\<close>

definition ack_ok :: "CombinePullPlan \<Rightarrow> u64 \<Rightarrow> u64 \<Rightarrow> u32 \<Rightarrow> u32 \<Rightarrow> u32 \<Rightarrow> u64 \<Rightarrow> u16 \<Rightarrow> u8 list \<Rightarrow> bool" where
  "ack_ok plan session_id placement_epoch rank region_id rows nbytes ring_slot bytes \<longleftrightarrow>
     (let ack = source_ack_of bytes
      in sak_magic ack = kPullCombineV2Magic \<and> sak_abi_version ack = kPullCombineV2AbiVersion \<and>
         sak_struct_bytes ack = 128 \<and> sak_session_id ack = session_id \<and> sak_placement_epoch ack = placement_epoch \<and>
         sak_generation ack = pl_generation plan \<and> sak_sequence ack = pl_sequence plan \<and>
         sak_dispatch_cookie ack = pl_dispatch_cookie plan \<and> sak_wave ack = pl_wave plan \<and>
         sak_source_rank ack = rank \<and> sak_source_region_id ack = region_id \<and> sak_status ack = 0 \<and>
         sak_ring_slot ack = ring_slot \<and> sak_flags ack = 0 \<and> sak_row_count ack = rows \<and>
         sak_bytes_consumed ack = nbytes \<and> list_all (\<lambda>x. x = 0) (sak_reserved ack) \<and>
         sak_publication ack = publication_word (take 120 bytes))"

definition completion_ok :: "CombinePullPlan \<Rightarrow> u64 \<Rightarrow> u64 \<Rightarrow> u32 \<Rightarrow> u32 \<Rightarrow> u64 \<Rightarrow> u16 \<Rightarrow> u8 list \<Rightarrow> bool" where
  "completion_ok plan session_id placement_epoch rank rows nbytes ring_slot bytes \<longleftrightarrow>
     (let completion = owner_completion_of bytes
      in ocp_magic completion = kPullCombineV2Magic \<and> ocp_abi_version completion = kPullCombineV2AbiVersion \<and>
         ocp_struct_bytes completion = 128 \<and> ocp_session_id completion = session_id \<and>
         ocp_placement_epoch completion = placement_epoch \<and> ocp_generation completion = pl_generation plan \<and>
         ocp_sequence completion = pl_sequence plan \<and> ocp_dispatch_cookie completion = pl_dispatch_cookie plan \<and>
         ocp_wave completion = pl_wave plan \<and> ocp_owner_rank completion = rank \<and> ocp_status completion = 0 \<and>
         ocp_row_count completion = rows \<and> ocp_ring_slot completion = ring_slot \<and> ocp_flags completion = 0 \<and>
         ocp_reserved0 completion = 0 \<and> ocp_bytes_produced completion = nbytes \<and>
         list_all (\<lambda>x. x = 0) (ocp_reserved completion) \<and>
         ocp_publication completion = publication_word (take 120 bytes))"

subsection \<open>The end of the kernel\<close>

text \<open>The header and the final status, from the status word at the last barrier.\<close>

definition finalize_header :: "combine_launch \<Rightarrow> JournalSlotHeader \<Rightarrow> u32 \<Rightarrow> JournalSlotHeader \<times> u32" where
  "finalize_header la h status =
     (if jh_magic h = kPullDispatchMagic \<and> jh_generation h = la_generation la \<and> jh_sequence h = la_sequence la \<and>
         jh_dispatch_cookie h = la_dispatch_cookie la \<and> jh_state h = state_code COMBINE_ACTIVE
      then (h\<lparr>jh_status := status,
              jh_state := state_code (if status = kStatusOk then COMPLETE else JournalSlotState.ABORTED)\<rparr>, status)
      else if status = kStatusOk then (h, kStatusInvalidState) else (h, status))"

text \<open>The rows and the bytes of a worker by the offsets of the journal; a size that overflows is reported as zero.\<close>

definition rows_and_bytes :: "u64 list \<Rightarrow> u64 \<Rightarrow> nat \<Rightarrow> (u32, u32 \<times> u64) res" where
  "rows_and_bytes offsets row_bytes worker =
     rbind (vget offsets (worker + 1)) (\<lambda>last. rbind (vget offsets worker) (\<lambda>first.
       let rows = ucast (last - first)
       in Inr (rows, case CheckedMulU64ByU32 row_bytes rows of None \<Rightarrow> 0 | Some bytes \<Rightarrow> bytes)))"

definition publish_ack ::
  "combine_launch \<Rightarrow> u64 \<Rightarrow> u64 list \<Rightarrow> CombineRegionRegistration list \<Rightarrow> u32 \<Rightarrow> nat \<Rightarrow> u8 list \<Rightarrow> (u32, u8 list list) res" where
  "publish_ack la row_bytes by_source registrations final_status source remote =
     rbind (rows_and_bytes by_source row_bytes source) (\<lambda>(rows, bytes).
     rbind (vget registrations source) (\<lambda>registration.
       Inr (PublishSourceAck remote (of_nat source) final_status rows bytes (crg_region_id registration) la)))"

definition publish_completion ::
  "combine_launch \<Rightarrow> u64 \<Rightarrow> u64 list \<Rightarrow> u32 \<Rightarrow> nat \<Rightarrow> u8 list \<Rightarrow> (u32, u8 list list) res" where
  "publish_completion la row_bytes by_owner final_status owner remote =
     rbind (rows_and_bytes by_owner row_bytes owner) (\<lambda>(rows, bytes).
       Inr (PublishOwnerCompletion remote (of_nat owner) final_status rows bytes la))"

section \<open>The records and their images\<close>

lemma length_concat_le8: "length (concat (map (le_bytes 8) xs)) = 8 * length xs"
  by (induction xs) auto

lemma reserved_words: "length (ws :: u64 list) = 5 \<Longrightarrow> \<exists>a b c d e. ws = [a, b, c, d, e]"
  by (auto simp: eval_nat_numeral length_Suc_conv)

lemma upt_5: "[0..<5] = [0, 1, 2, 3, 4 :: nat]"
  by (simp add: upt_conv_Cons)

lemma source_ack_roundtrip:
  assumes "length (sak_reserved a) = 5"
  shows "source_ack_of (source_ack_bytes a) = a" "length (source_ack_bytes a) = 128"
proof -
  obtain r0 r1 r2 r3 r4 where r: "sak_reserved a = [r0, r1, r2, r3, r4]" using reserved_words [OF assms] by blast
  show "length (source_ack_bytes a) = 128" by (simp add: source_ack_bytes_def length_concat_le8 r)
  show "source_ack_of (source_ack_bytes a) = a"
    using r by (cases a) (simp add: source_ack_of_def source_ack_bytes_def field_at_def le_word_le_bytes upt_5)
qed

lemma owner_completion_roundtrip:
  assumes "length (ocp_reserved c) = 5"
  shows "owner_completion_of (owner_completion_bytes c) = c" "length (owner_completion_bytes c) = 128"
proof -
  obtain r0 r1 r2 r3 r4 where r: "ocp_reserved c = [r0, r1, r2, r3, r4]" using reserved_words [OF assms] by blast
  show "length (owner_completion_bytes c) = 128" by (simp add: owner_completion_bytes_def length_concat_le8 r)
  show "owner_completion_of (owner_completion_bytes c) = c"
    using r by (cases c) (simp add: owner_completion_of_def owner_completion_bytes_def field_at_def le_word_le_bytes upt_5)
qed

text \<open>Storing the publication word changes that field alone.\<close>

lemma store_source_ack:
  "length (sak_reserved a) = 5 \<Longrightarrow> store_word 120 w (source_ack_bytes a) = source_ack_bytes (a\<lparr>sak_publication := w\<rparr>)"
  by (simp add: store_word_def source_ack_bytes_def length_concat_le8)

lemma store_owner_completion:
  "length (ocp_reserved c) = 5 \<Longrightarrow> store_word 120 w (owner_completion_bytes c) = owner_completion_bytes (c\<lparr>ocp_publication := w\<rparr>)"
  by (simp add: store_word_def owner_completion_bytes_def length_concat_le8)

section \<open>The publication\<close>

lemma lines: "take 64 bs @ drop 64 (take 120 bs) = take 120 bs"
  using append_take_drop_id [of 64 "take 120 bs"] by simp

text \<open>
  Whoever reads the remote copy between the transfers finds a publication word of zero, or a whole record:
  the old one or the new one.
\<close>

lemma publication_whole:
  assumes len: "length local = 128" "length remote = 128"
    and seen: "record \<in> set (remote # PublishControlRecord128 local remote 120 publication)"
  shows "(field_at 120 8 record :: u64) = 0 \<or> record = remote \<or> record = store_word 120 publication local"
  using seen len
  by (auto simp: PublishControlRecord128_def store_word_def field_at_def le_word_le_bytes Let_def lines
      simp flip: append_assoc)

lemma publication_last:
  assumes "length local = 128" "length remote = 128"
  shows "last (PublishControlRecord128 local remote 120 publication) = store_word 120 publication local"
  using assms by (simp add: PublishControlRecord128_def store_word_def Let_def lines flip: append_assoc)

lemma take_ack: "length (sak_reserved a) = 5 \<Longrightarrow>
    take 120 (source_ack_bytes (a\<lparr>sak_publication := w\<rparr>)) = take 120 (source_ack_bytes a)"
  by (simp add: source_ack_bytes_def length_concat_le8)

lemma take_completion: "length (ocp_reserved c) = 5 \<Longrightarrow>
    take 120 (owner_completion_bytes (c\<lparr>ocp_publication := w\<rparr>)) = take 120 (owner_completion_bytes c)"
  by (simp add: owner_completion_bytes_def length_concat_le8)

text \<open>A worker accepts what it received in the end exactly when the wave succeeded.\<close>

lemma worker_accepts_ack:
  assumes la: "la_session_id la = session_id" "la_placement_epoch la = placement_epoch" "la_generation la = pl_generation plan"
    "la_sequence la = pl_sequence plan" "la_dispatch_cookie la = pl_dispatch_cookie plan" "la_wave la = pl_wave plan"
    and len: "length remote = 128"
  shows "ack_ok plan session_id placement_epoch rank region_id rows bytes (ucast (la_ring_slot la))
      (last (PublishSourceAck remote rank status rows bytes region_id la)) \<longleftrightarrow> status = kStatusOk"
proof -
  define a where "a = \<lparr> sak_magic = kPullCombineV2Magic, sak_abi_version = kPullCombineV2AbiVersion, sak_struct_bytes = 128,
      sak_session_id = la_session_id la, sak_placement_epoch = la_placement_epoch la,
      sak_generation = la_generation la, sak_sequence = la_sequence la, sak_dispatch_cookie = la_dispatch_cookie la,
      sak_wave = la_wave la, sak_source_rank = rank, sak_source_region_id = region_id, sak_status = status,
      sak_ring_slot = ucast (la_ring_slot la), sak_flags = 0,
      sak_row_count = (if status = kStatusOk then rows else 0),
      sak_bytes_consumed = (if status = kStatusOk then bytes else 0),
      sak_reserved = replicate 5 0, sak_publication = 0 \<rparr>"
  have five: "length (sak_reserved a) = 5" by (simp add: a_def)
  let ?w = "publication_word (take 120 (source_ack_bytes a))"
  have "last (PublishSourceAck remote rank status rows bytes region_id la) = source_ack_bytes (a\<lparr>sak_publication := ?w\<rparr>)"
    unfolding PublishSourceAck_def Let_def
    by (simp add: publication_last store_source_ack source_ack_roundtrip(2) five len flip: a_def)
  moreover have "source_ack_of (source_ack_bytes (a\<lparr>sak_publication := ?w\<rparr>)) = a\<lparr>sak_publication := ?w\<rparr>"
    by (simp add: source_ack_roundtrip(1) five)
  moreover have "publication_word (take 120 (source_ack_bytes (a\<lparr>sak_publication := ?w\<rparr>))) = ?w"
    by (simp add: take_ack five)
  ultimately show ?thesis
    by (simp add: ack_ok_def Let_def) (use la in \<open>auto simp: a_def kStatusOk_def list_all_iff\<close>)
qed

lemma worker_accepts_completion:
  assumes la: "la_session_id la = session_id" "la_placement_epoch la = placement_epoch" "la_generation la = pl_generation plan"
    "la_sequence la = pl_sequence plan" "la_dispatch_cookie la = pl_dispatch_cookie plan" "la_wave la = pl_wave plan"
    and len: "length remote = 128"
  shows "completion_ok plan session_id placement_epoch rank rows bytes (ucast (la_ring_slot la))
      (last (PublishOwnerCompletion remote rank status rows bytes la)) \<longleftrightarrow> status = kStatusOk"
proof -
  define c where "c = \<lparr> ocp_magic = kPullCombineV2Magic, ocp_abi_version = kPullCombineV2AbiVersion, ocp_struct_bytes = 128,
      ocp_session_id = la_session_id la, ocp_placement_epoch = la_placement_epoch la,
      ocp_generation = la_generation la, ocp_sequence = la_sequence la, ocp_dispatch_cookie = la_dispatch_cookie la,
      ocp_wave = la_wave la, ocp_owner_rank = rank, ocp_status = status,
      ocp_row_count = (if status = kStatusOk then rows else 0),
      ocp_ring_slot = ucast (la_ring_slot la), ocp_flags = 0, ocp_reserved0 = 0,
      ocp_bytes_produced = (if status = kStatusOk then bytes else 0),
      ocp_reserved = replicate 5 0, ocp_publication = 0 \<rparr>"
  have five: "length (ocp_reserved c) = 5" by (simp add: c_def)
  let ?w = "publication_word (take 120 (owner_completion_bytes c))"
  have "last (PublishOwnerCompletion remote rank status rows bytes la) = owner_completion_bytes (c\<lparr>ocp_publication := ?w\<rparr>)"
    unfolding PublishOwnerCompletion_def Let_def
    by (simp add: publication_last store_owner_completion owner_completion_roundtrip(2) five len flip: c_def)
  moreover have "owner_completion_of (owner_completion_bytes (c\<lparr>ocp_publication := ?w\<rparr>)) = c\<lparr>ocp_publication := ?w\<rparr>"
    by (simp add: owner_completion_roundtrip(1) five)
  moreover have "publication_word (take 120 (owner_completion_bytes (c\<lparr>ocp_publication := ?w\<rparr>))) = ?w"
    by (simp add: take_completion five)
  ultimately show ?thesis
    by (simp add: completion_ok_def Let_def) (use la in \<open>auto simp: c_def kStatusOk_def list_all_iff\<close>)
qed

text \<open>The final transition of the header.\<close>

lemma finalize_header_cases:
  assumes "finalize_header la h status = (h', status')"
  shows "h' = h \<and> status' \<noteq> kStatusOk \<or>
    state_of_code (jh_state h) = Some COMBINE_ACTIVE \<and> jh_status h' = status \<and> status' = status \<and>
    state_of_code (jh_state h') = Some (if status = kStatusOk then COMPLETE else JournalSlotState.ABORTED)"
  using assms by (auto simp: finalize_header_def state_of_code_def kStatusOk_def kStatusInvalidState_def split: if_splits)

end
