(* ===== verification/Combine_Poll.thy ===== *)
theory Combine_Poll
  imports Combine_Tasks Combine_Publish
begin

text \<open>
  How the INC learns that the partial rows of a worker are there (\<open>inc_dc_pull_combine_v2_device_kernel.cpp\<close>):
  every source is polled by one block, which accepts a READY record behind a valid notice. What the memory of
  the notices and of the READY records holds when a source is looked at is an argument, one entry for every
  pass; the list of the passes ends when the cycle limit does. The 32-bit counter of the sources of a block, of
  which there are at most 128, cannot wrap with fewer than \<open>2\<^sup>3\<^sup>2 - 128\<close> blocks and is a \<open>nat\<close> here.
  The theory shows that a block that polled all its sources accepted for each a READY the host would accept, and
  that the tiles the reduction reads of an accepted source lie in the rows the worker announced.
\<close>

section \<open>Model\<close>

type_synonym poll_memory = "CombineReadyNoticeV2 list \<times> CombineReadyV2 list"

definition record_index :: "combine_launch \<Rightarrow> nat \<Rightarrow> nat" where
  "record_index la source = unat (la_ring_slot la * la_worker_count la) + source"

text \<open>One look at one source; the payload offset when its READY was accepted.\<close>

definition poll_source ::
  "combine_launch \<Rightarrow> CombineRegionRegistration list \<Rightarrow> u64 list \<Rightarrow> poll_memory \<Rightarrow> nat \<Rightarrow> (u32, u64 option) res" where
  "poll_source la registrations source_offsets mem source =
     rbind (vget (fst mem) (record_index la source)) (\<lambda>notice.
       if crn_publication notice = 0 then Inr None
       else if crn_generation notice \<noteq> la_generation la \<or> crn_sequence notice \<noteq> la_sequence la \<or>
               crn_wave notice \<noteq> la_wave la \<or> ucast (crn_ring_slot notice) \<noteq> la_ring_slot la
       then Inr None
       else if \<not> ReadyNoticeValid notice (of_nat source) la then fail kStatusInvalidReady
       else rbind (vget (snd mem) (record_index la source)) (\<lambda>ready.
            rbind (vget registrations source) (\<lambda>registration.
            rbind (ValidateReady ready registration source_offsets (of_nat source) la) (\<lambda>_.
              Inr (Some (crd_source_offset ready))))))"

text \<open>What a block keeps of its sources: the ready flags and the payload offsets, and how many are missing.\<close>

record poll_state =
  ps_ready :: "nat \<Rightarrow> bool"
  ps_offsets :: "nat \<Rightarrow> u64"
  ps_remaining :: nat

definition poll_step ::
  "combine_launch \<Rightarrow> CombineRegionRegistration list \<Rightarrow> u64 list \<Rightarrow> poll_memory \<Rightarrow> nat \<Rightarrow> poll_state \<Rightarrow> (u32, poll_state) res" where
  "poll_step la registrations source_offsets mem source ps =
     (if ps_ready ps source then Inr ps
      else rbind (poll_source la registrations source_offsets mem source) (\<lambda>accepted.
        case accepted of
          None \<Rightarrow> Inr ps
        | Some offset \<Rightarrow>
          Inr (ps\<lparr>ps_offsets := (ps_offsets ps)(source := offset), ps_ready := (ps_ready ps)(source := True),
                  ps_remaining := ps_remaining ps - 1\<rparr>)))"

text \<open>The polling loop of a block, for the memory and the status word of every pass.\<close>

fun poll_passes ::
  "combine_launch \<Rightarrow> CombineRegionRegistration list \<Rightarrow> u64 list \<Rightarrow> nat list \<Rightarrow> (poll_memory \<times> u32) list \<Rightarrow> poll_state \<Rightarrow>
     (u32, poll_state) res" where
  "poll_passes la registrations source_offsets sources [] ps =
     (if ps_remaining ps \<noteq> 0 then fail kStatusNotReady else Inr ps)"
| "poll_passes la registrations source_offsets sources ((mem, status) # passes) ps =
     (if ps_remaining ps = 0 then Inr ps
      else if status \<noteq> kStatusOk then fail status
      else rbind (mfold (poll_step la registrations source_offsets mem) sources ps)
        (poll_passes la registrations source_offsets sources passes))"

definition poll_block ::
  "combine_launch \<Rightarrow> CombineRegionRegistration list \<Rightarrow> u64 list \<Rightarrow> nat \<Rightarrow> nat \<Rightarrow> (poll_memory \<times> u32) list \<Rightarrow>
     (u32, poll_state) res" where
  "poll_block la registrations source_offsets blocks block passes =
     (let owned = strided block blocks (unat (la_worker_count la))
      in poll_passes la registrations source_offsets owned passes
           \<lparr>ps_ready = \<lambda>_. False, ps_offsets = \<lambda>_. 0, ps_remaining = length owned\<rparr>)"

section \<open>What polling accepts\<close>

definition accepted_ready ::
  "combine_launch \<Rightarrow> CombineRegionRegistration list \<Rightarrow> u64 list \<Rightarrow> (poll_memory \<times> u32) list \<Rightarrow> nat \<Rightarrow> u64 \<Rightarrow> bool" where
  "accepted_ready la registrations source_offsets passes source offset \<longleftrightarrow>
     (\<exists>(mem, status) \<in> set passes. \<exists>ready. record_index la source < length (snd mem) \<and>
        ready = snd mem ! record_index la source \<and> ReadyNoticeValid (fst mem ! record_index la source) (of_nat source) la \<and>
        ucast (crn_ring_slot (fst mem ! record_index la source)) = la_ring_slot la \<and> source < length registrations \<and>
        ValidateReady ready (registrations ! source) source_offsets (of_nat source) la = Inr () \<and>
        offset = crd_source_offset ready)"

definition poll_inv ::
  "combine_launch \<Rightarrow> CombineRegionRegistration list \<Rightarrow> u64 list \<Rightarrow> nat list \<Rightarrow> (poll_memory \<times> u32) list \<Rightarrow> poll_state \<Rightarrow> bool" where
  "poll_inv la registrations source_offsets sources passes ps \<longleftrightarrow>
     ps_remaining ps = length (filter (\<lambda>s. \<not> ps_ready ps s) sources) \<and>
     (\<forall>s \<in> set sources. ps_ready ps s \<longrightarrow> accepted_ready la registrations source_offsets passes s (ps_offsets ps s))"

lemma poll_source_accepts:
  assumes "poll_source la registrations source_offsets mem source = Inr (Some offset)" "(mem, status) \<in> set passes"
  shows "accepted_ready la registrations source_offsets passes source offset"
  using assms
  by (auto simp: poll_source_def accepted_ready_def vec_eqs split: if_splits intro!: bexI [of _ "(mem, status)"])

lemma filter_ready:
  "distinct sources \<Longrightarrow> s \<in> set sources \<Longrightarrow> \<not> f s \<Longrightarrow>
    length (filter (\<lambda>x. \<not> (f(s := True)) x) sources) = length (filter (\<lambda>x. \<not> f x) sources) - 1"
proof (induction sources)
  case (Cons x xs)
  show ?case
  proof (cases "x = s")
    case True
    then have "filter (\<lambda>x. \<not> (f(s := True)) x) xs = filter (\<lambda>x. \<not> f x) xs" using Cons.prems(1) by (intro filter_cong) auto
    then show ?thesis using True Cons.prems by simp
  next
    case False
    have "filter (\<lambda>x. \<not> f x) xs \<noteq> []" using Cons.prems False by (auto simp: filter_empty_conv)
    then have "0 < length (filter (\<lambda>x. \<not> f x) xs)" by simp
    then show ?thesis using Cons False by simp
  qed
qed simp

lemma poll_step_inv:
  assumes inv: "poll_inv la registrations source_offsets sources passes ps" and d: "distinct sources"
    and s: "s \<in> set sources" and m: "(mem, status) \<in> set passes"
    and step: "poll_step la registrations source_offsets mem s ps = Inr ps'"
  shows "poll_inv la registrations source_offsets sources passes ps'"
proof (cases "ps_ready ps s")
  case False
  then consider "ps' = ps" | offset where "poll_source la registrations source_offsets mem s = Inr (Some offset)"
      "ps' = ps\<lparr>ps_offsets := (ps_offsets ps)(s := offset), ps_ready := (ps_ready ps)(s := True), ps_remaining := ps_remaining ps - 1\<rparr>"
    using step by (auto simp: poll_step_def vec_eqs split: option.splits)
  then show ?thesis
  proof cases
    case (2 offset)
    then show ?thesis
      using inv filter_ready [where f = "ps_ready ps", OF d s False] poll_source_accepts [OF 2(1) m] by (simp add: poll_inv_def)
  qed (use inv in simp)
qed (use inv step in \<open>simp add: poll_step_def\<close>)

lemma poll_pass_inv:
  assumes "poll_inv la registrations source_offsets sources passes ps" "distinct sources" "set xs \<subseteq> set sources"
    "(mem, status) \<in> set passes" "mfold (poll_step la registrations source_offsets mem) xs ps = Inr ps'"
  shows "poll_inv la registrations source_offsets sources passes ps'"
  using assms(1,3,5)
proof (induction xs arbitrary: ps)
  case (Cons x xs)
  then obtain ps1 where ps1: "poll_step la registrations source_offsets mem x ps = Inr ps1"
    "mfold (poll_step la registrations source_offsets mem) xs ps1 = Inr ps'" by (auto simp: vec_eqs)
  have "poll_inv la registrations source_offsets sources passes ps1"
    using poll_step_inv [OF Cons.prems(1) assms(2) _ assms(4) ps1(1)] Cons.prems(2) by simp
  then show ?case using Cons.IH ps1(2) Cons.prems(2) by simp
qed simp

lemma poll_passes_inv:
  assumes "poll_passes la registrations source_offsets sources passes ps = Inr ps'" "distinct sources"
    "poll_inv la registrations source_offsets sources all ps" "set passes \<subseteq> set all"
  shows "poll_inv la registrations source_offsets sources all ps' \<and> ps_remaining ps' = 0"
  using assms(1,3,4)
proof (induction passes arbitrary: ps)
  case (Cons p passes)
  obtain mem status where p: "p = (mem, status)" by fastforce
  show ?case
  proof (cases "ps_remaining ps = 0")
    case False
    then obtain ps1 where ps1: "mfold (poll_step la registrations source_offsets mem) sources ps = Inr ps1"
      "poll_passes la registrations source_offsets sources passes ps1 = Inr ps'"
      using Cons.prems(1) by (auto simp: p vec_eqs split: if_splits)
    have "poll_inv la registrations source_offsets sources all ps1"
      by (rule poll_pass_inv [OF Cons.prems(2) assms(2) subset_refl _ ps1(1)]) (use Cons.prems(3) p in auto)
    then show ?thesis using Cons.IH [OF ps1(2)] Cons.prems(3) by simp
  qed (use Cons.prems in \<open>simp add: p\<close>)
qed (auto split: if_splits)

text \<open>A block that polled all its sources has accepted a READY of each.\<close>

lemma poll_block_accepts:
  assumes "poll_block la registrations source_offsets blocks block passes = Inr ps" "0 < blocks"
    and s: "s \<in> set (strided block blocks (unat (la_worker_count la)))"
  shows "accepted_ready la registrations source_offsets passes s (ps_offsets ps s)"
proof -
  let ?owned = "strided block blocks (unat (la_worker_count la))"
  let ?ps0 = "\<lparr>ps_ready = \<lambda>_. False, ps_offsets = \<lambda>_. 0, ps_remaining = length ?owned\<rparr>"
  have d: "distinct ?owned" using sorted_strided [OF assms(2)] by (simp add: strict_sorted_iff)
  have i0: "poll_inv la registrations source_offsets ?owned passes ?ps0" by (simp add: poll_inv_def)
  have run: "poll_passes la registrations source_offsets ?owned passes ?ps0 = Inr ps"
    using assms(1) by (simp add: poll_block_def Let_def)
  have "poll_inv la registrations source_offsets ?owned passes ps" "ps_remaining ps = 0"
    using poll_passes_inv [OF run d i0 subset_refl] by auto
  then show ?thesis using s by (auto simp: poll_inv_def filter_empty_conv)
qed

section \<open>The rows of an accepted source\<close>

text \<open>The slot of a wave in the region of a worker.\<close>

definition slot_window :: "CombineRegionRegistration \<Rightarrow> combine_launch \<Rightarrow> nat set" where
  "slot_window r la =
     {unat (crg_slot_stride r) * unat (la_ring_slot la)..<unat (crg_slot_stride r) * Suc (unat (la_ring_slot la))} \<inter>
     {..<unat (crg_region_bytes r)}"

lemma ready_extent_window:
  assumes ext: "ready_extent ready r rows la = Some (bytes, slot_base, slot_end, payload_end)"
    and ring: "ucast (ucast (la_ring_slot la) :: u16) = la_ring_slot la"
  shows "unat bytes = 4 * (unat (la_hidden la) * unat rows)" "unat slot_base = unat (crg_slot_stride r) * unat (la_ring_slot la)"
    "unat slot_end = unat (crg_slot_stride r) * Suc (unat (la_ring_slot la))"
    "unat payload_end = unat (crd_source_offset ready) + unat (crd_payload_bytes ready)"
proof -
  from ext obtain elements where e: "Mul (ucast (la_hidden la)) rows = Some elements" "Mul 4 elements = Some bytes"
    "Mul (ucast (la_ring_slot la)) (crg_slot_stride r) = Some slot_base" "Add slot_base (crg_slot_stride r) = Some slot_end"
    "Add (crd_source_offset ready) (crd_payload_bytes ready) = Some payload_end"
    by (auto simp: ready_extent_def CheckedMulU64ByU32_Mul AddU64_Add ring bind_eq_Some_conv split: if_splits)
  show "unat bytes = 4 * (unat (la_hidden la) * unat rows)"
    using Mul_unat [OF e(1)] Mul_unat [OF e(2)] by (simp add: unat_ucast_u64)
  show base: "unat slot_base = unat (crg_slot_stride r) * unat (la_ring_slot la)"
    using Mul_unat [OF e(3)] by (simp add: unat_ucast_u64 mult.commute)
  show "unat slot_end = unat (crg_slot_stride r) * Suc (unat (la_ring_slot la))"
    using Add_unat [OF e(4)] base by simp
  show "unat payload_end = unat (crd_source_offset ready) + unat (crd_payload_bytes ready)"
    using Add_unat [OF e(5)] .
qed

lemma accepted_payload:
  assumes acc: "accepted_ready la registrations source_offsets passes s off"
    and s: "s < 2 ^ 32 - 1" and mono: "source_offsets ! s \<le> source_offsets ! Suc s"
    and rows: "rows = unat (source_offsets ! Suc s) - unat (source_offsets ! s)"
  shows "{unat off..<unat off + 4 * (unat (la_hidden la) * rows)} \<subseteq> slot_window (registrations ! s) la"
    and "unat off + 4 * (unat (la_hidden la) * rows) < 2 ^ 64"
proof -
  let ?r = "registrations ! s"
  obtain ready notice where ok: "ValidateReady ready ?r source_offsets (of_nat s) la = Inr ()" "off = crd_source_offset ready"
    and notice: "ReadyNoticeValid notice (of_nat s) la" "ucast (crn_ring_slot notice) = la_ring_slot la"
    using acc by (auto simp: accepted_ready_def)
  have ring: "ucast (ucast (la_ring_slot la) :: u16) = la_ring_slot la"
    using notice by (simp add: ReadyNoticeValid_def)
  have u: "unat (of_nat s :: u32) = s" "unat (of_nat s + 1 :: u32) = Suc s"
    using s unat_Suc_u32 [of "of_nat s"] by (simp_all add: unat_of_nat_u32)
  let ?e = "source_offsets ! Suc s - source_offsets ! s"
  obtain bytes slot_base slot_end payload_end where
    ext: "ready_extent ready ?r ?e la = Some (bytes, slot_base, slot_end, payload_end)"
    and chk: "crd_payload_bytes ready = bytes" "\<not> crd_source_offset ready < slot_base" "\<not> payload_end > slot_end"
      "\<not> payload_end > crg_region_bytes ?r"
    using ok(1) by (auto simp: ValidateReady_def vec_eqs u Let_def split: if_splits option.splits)
  note w = ready_extent_window [OF ext ring]
  have e: "unat ?e = rows" using mono by (simp add: rows unat_sub word_le_nat_alt)
  have pe: "unat payload_end = unat off + 4 * (unat (la_hidden la) * rows)" using w(1,4) chk(1) ok(2) e by simp
  show "unat off + 4 * (unat (la_hidden la) * rows) < 2 ^ 64"
    using pe unsigned_less [of payload_end, where 'a = nat] by simp
  have "unat slot_base \<le> unat off" "unat payload_end \<le> unat slot_end" "unat payload_end \<le> unat (crg_region_bytes ?r)"
    using chk(2-4) ok(2) by (simp_all add: not_less word_le_nat_alt)
  then show "{unat off..<unat off + 4 * (unat (la_hidden la) * rows)} \<subseteq> slot_window ?r la"
    unfolding slot_window_def w(2,3) pe by auto
qed

text \<open>The bytes of a worker's memory a task reads for one of its pulls.\<close>

definition pull_bytes :: "combine_tables \<Rightarrow> u64 list \<Rightarrow> u64 \<Rightarrow> combine_launch \<Rightarrow> nat \<Rightarrow> nat \<Rightarrow> nat set" where
  "pull_bytes T offs row_bytes la task i =
     (let addr = unat (tile_address T offs row_bytes (task_element_begin la (of_nat task)) i)
      in {addr..<addr + 4 * unat (task_elements la (of_nat task))})"

text \<open>What the kernel knows after its checks and the polling.\<close>

definition polled_wave ::
  "combine_launch \<Rightarrow> u32 \<Rightarrow> combine_tables \<Rightarrow> CombineRegionRegistration list \<Rightarrow> u64 list \<Rightarrow> u64 \<Rightarrow> u64 \<Rightarrow> u64 \<Rightarrow>
     (poll_memory \<times> u32) list \<Rightarrow> bool" where
  "polled_wave la blocks T registrations offs row_bytes out tasks passes \<longleftrightarrow>
     launch_valid blocks la = Some (row_bytes, out, tasks) \<and> sealed_tables T la \<and>
     (\<forall>owner < unat (la_worker_count la). owner_fits T row_bytes (la_owner_output_slot_stride la) owner) \<and>
     (\<forall>s < unat (la_worker_count la). s < length offs \<and> accepted_ready la registrations (ct_source_offsets T) passes s (offs ! s))"

lemma polled_pull:
  assumes w: "polled_wave la blocks T registrations offs row_bytes out tasks passes" and i: "i < unat (la_pull_count la)"
  shows "source_of T i < unat (la_worker_count la)" "source_of T i < length offs"
    "unat row_bytes = 4 * unat (la_hidden la)"
    "{unat (offs ! source_of T i)..<unat (offs ! source_of T i) + unat row_bytes * Suc (unat (po_source_row (ct_pulls T ! i)))}
      \<subseteq> slot_window (registrations ! source_of T i) la"
    "unat (offs ! source_of T i) + unat row_bytes * Suc (unat (po_source_row (ct_pulls T ! i))) < 2 ^ 64"
proof -
  let ?s = "source_of T i" and ?so = "ct_source_offsets T"
  have lv: "launch_valid blocks la = Some (row_bytes, out, tasks)" and sealed: "sealed_tables T la"
    using w by (simp_all add: polled_wave_def)
  note n = launch_numbers [OF lv]
  show rb: "unat row_bytes = 4 * unat (la_hidden la)" by (rule launch_tasks(3) [OF lv])
  have row: "row_at ?so (unat (la_worker_count la)) i (po_source_rank (ct_pulls T ! i)) (po_source_row (ct_pulls T ! i))"
    using sealed_tablesD(4) [OF sealed i] by simp
  then show s: "?s < unat (la_worker_count la)" by (simp add: row_at_def)
  then show "?s < length offs" using w by (simp add: polled_wave_def)
  have acc: "accepted_ready la registrations ?so passes ?s (offs ! ?s)" using w s by (simp add: polled_wave_def)
  have mono: "?so ! ?s \<le> ?so ! Suc ?s" using sealed_tablesD(2) [OF sealed] s by (simp add: offsets_ok_def)
  let ?rows = "unat (?so ! Suc ?s) - unat (?so ! ?s)"
  have small: "?s < 2 ^ 32 - 1" using s n(3) by simp
  note p = accepted_payload [OF acc small mono refl]
  have "Suc (unat (po_source_row (ct_pulls T ! i))) \<le> ?rows" using row unfolding row_at_def by linarith
  from mult_le_mono2 [OF this, of "unat row_bytes"]
  have le: "unat row_bytes * Suc (unat (po_source_row (ct_pulls T ! i))) \<le> 4 * (unat (la_hidden la) * ?rows)"
    unfolding rb by (simp add: mult.assoc)
  show "{unat (offs ! ?s)..<unat (offs ! ?s) + unat row_bytes * Suc (unat (po_source_row (ct_pulls T ! i)))}
      \<subseteq> slot_window (registrations ! ?s) la"
    using p(1) le by (meson add_left_mono atLeastLessThan_subset_iff le_refl order_trans subset_trans ivl_subset)
  show "unat (offs ! ?s) + unat row_bytes * Suc (unat (po_source_row (ct_pulls T ! i))) < 2 ^ 64"
    using p(2) le by linarith
qed

text \<open>Such a wave is ready for the reduction, and what it reads lies in the slots of the workers.\<close>

lemma polled_accepted:
  assumes w: "polled_wave la blocks T registrations offs row_bytes out tasks passes"
  shows "accepted_wave la blocks T offs row_bytes out tasks"
proof -
  have "unat row_bytes * unat (po_source_row (ct_pulls T ! i)) < 2 ^ 64" if "i < unat (la_pull_count la)" for i
    using polled_pull(5) [OF w that] by simp
  then have "rows_fit T offs row_bytes [0..<unat (la_pull_count la)]"
    using polled_pull(2) [OF w] by (simp add: rows_fit_def)
  then show ?thesis using w by (simp add: accepted_wave_def polled_wave_def)
qed

lemma polled_reads:
  assumes w: "polled_wave la blocks T registrations offs row_bytes out tasks passes" and i: "i < unat (la_pull_count la)"
    and t: "task < unat tasks"
  shows "pull_bytes T offs row_bytes la task i \<subseteq> slot_window (registrations ! source_of T i) la"
proof -
  have lv: "launch_valid blocks la = Some (row_bytes, out, tasks)" using w by (simp add: polled_wave_def)
  note p = polled_pull [OF w i] and num = task_numbers [OF lv t]
  let ?off = "unat (offs ! source_of T i)" and ?row = "unat (po_source_row (ct_pulls T ! i))"
  have b: "4 * task_end la task \<le> unat row_bytes" "task_begin la task < task_end la task" using num(5,6) p(3) by simp_all
  have b4: "unat (4 * task_element_begin la (of_nat task)) = 4 * task_begin la task"
    using b p(5) by (simp add: unat_word_ariths num(3))
  have r4: "unat (ucast (po_source_row (ct_pulls T ! i)) * row_bytes) = unat row_bytes * ?row"
    using p(5) by (simp add: unat_word_ariths unat_ucast_u64 mult.commute)
  have lt: "?off + unat (ucast (po_source_row (ct_pulls T ! i)) * row_bytes) +
      unat (4 * task_element_begin la (of_nat task)) < 2 ^ 64"
    unfolding r4 b4 using b p(5) by simp
  have addr: "unat (tile_address T offs row_bytes (task_element_begin la (of_nat task)) i) =
      ?off + unat row_bytes * ?row + 4 * task_begin la task"
    using unat_sum3 [OF lt] unfolding tile_address_def r4 b4 by simp
  have "pull_bytes T offs row_bytes la task i \<subseteq> {?off..<?off + unat row_bytes * Suc ?row}"
    using b by (auto simp: pull_bytes_def addr num(4) Let_def)
  then show ?thesis using p(4) by (rule subset_trans)
qed

end
