(* ===== verification/Combine_Coordinator.thy ===== *)
theory Combine_Coordinator
  imports Combine_Reduction
begin

text \<open>
  The coordinator of a combine wave (class \<open>CombineV2Coordinator\<close> of \<open>inc_dc_pull_combine_v2.cpp\<close>).
  The coordinator keeps a pointer to a layout that its caller owns, so the model has a store of
  layouts by address; a null pointer is \<open>None\<close> and following an address without a layout is \<open>Oob\<close>.
  An early return leaves the members and the store as they are and is \<open>fail\<close>; a normal return is
  the status with the new store and coordinator. The flags of \<open>ready_seen_\<close> are only ever 0 or 1.
\<close>

section \<open>Model\<close>

type_synonym layouts = "nat \<Rightarrow> CompiledLayout option"

record CombineV2Coordinator =
  co_dispatch :: "nat option"
  co_config :: CombineV2Config
  co_plan :: CombinePullPlan
  co_registrations :: "CombineRegionRegistration list"
  co_ready_seen :: "bool list"
  co_ready_count :: u32

definition CombineRegionRegistration_init :: CombineRegionRegistration where
  "CombineRegionRegistration_init = \<lparr> crg_session_id = 0, crg_placement_epoch = 0, crg_source_rank = 0,
     crg_region_id = 0, crg_slot_count = 0, crg_alignment = kPullCombineV2Alignment, crg_region_bytes = 0,
     crg_slot_stride = 0, crg_reserved = (0, 0) \<rparr>"

definition deref :: "layouts \<Rightarrow> nat \<Rightarrow> ('e, CompiledLayout) res" where
  "deref h p = (case h p of None \<Rightarrow> Inl Oob | Some l \<Rightarrow> Inr l)"

definition enter_state ::
  "layouts \<Rightarrow> nat \<Rightarrow> JournalSlotState \<Rightarrow> (CombineV2Status, layouts) res" where
  "enter_state h p to =
     rbind (deref h p) (\<lambda>d.
       case TransitionJournal (cl_journal_header d) to of
         Inr header \<Rightarrow> Inr (h(p \<mapsto> d\<lparr>cl_journal_header := header\<rparr>))
       | Inl _ \<Rightarrow> fail INVALID_STATE_TRANSITION)"

fun register ::
  "CombineV2Config \<Rightarrow> CombineRegionRegistration \<Rightarrow> CombineRegionRegistration list \<times> bool list \<Rightarrow>
     (CombineV2Status, CombineRegionRegistration list \<times> bool list) res" where
  "register config registration (by_rank, seen) =
     (if ValidateCombineRegistration registration config \<noteq> OK
      then fail (ValidateCombineRegistration registration config)
      else rbind (vget seen (unat (crg_source_rank registration))) (\<lambda>s.
        if s then fail DUPLICATE_SOURCE
        else rbind (vput seen (unat (crg_source_rank registration)) True) (\<lambda>seen'.
          rbind (vput by_rank (unat (crg_source_rank registration)) registration) (\<lambda>by_rank'.
          Inr (by_rank', seen')))))"

definition Initialize ::
  "nat option \<Rightarrow> CombineV2Config \<Rightarrow> CombineRegionRegistration list \<Rightarrow>
     layouts \<times> CombineV2Coordinator \<Rightarrow>
     (CombineV2Status, CombineV2Status \<times> layouts \<times> CombineV2Coordinator) res" where
  "Initialize dispatch config registrations s =
     (case (s, dispatch) of ((h, co), dispatch) \<Rightarrow>
      if co_dispatch co \<noteq> None \<or> dispatch = None \<or> \<not> ConfigValid config \<or>
         length registrations \<noteq> unat (cfg_worker_count config)
      then fail INVALID_ARGUMENT
      else rbind (deref h (the dispatch)) (\<lambda>d.
        rbind (CompileCombinePullPlan d config) (\<lambda>built.
        rbind (mfold (register config) registrations
                 (replicate (unat (cfg_worker_count config)) CombineRegionRegistration_init,
                  replicate (unat (cfg_worker_count config)) False)) (\<lambda>(by_rank, seen).
        rbind (enter_state h (the dispatch) COMBINE_ACTIVE) (\<lambda>h'.
        Inr (OK, h', \<lparr> co_dispatch = dispatch, co_config = config, co_plan = built,
          co_registrations = by_rank,
          co_ready_seen = replicate (unat (cfg_worker_count config)) False,
          co_ready_count = 0 \<rparr>))))))"

definition state :: "layouts \<times> CombineV2Coordinator \<Rightarrow> (CombineV2Status, JournalSlotState option) res" where
  "state s = (case s of (h, co) \<Rightarrow> case co_dispatch co of None \<Rightarrow> Inr (Some FREE)
     | Some p \<Rightarrow> rbind (deref h p) (\<lambda>d. Inr (state_of_code (jh_state (cl_journal_header d)))))"

definition all_ready :: "CombineV2Coordinator \<Rightarrow> bool" where
  "all_ready co \<longleftrightarrow> co_dispatch co \<noteq> None \<and> co_ready_count co = cfg_worker_count (co_config co)"

definition NotifyReady ::
  "CombineReadyV2 \<Rightarrow> layouts \<times> CombineV2Coordinator \<Rightarrow>
     (CombineV2Status, CombineV2Status \<times> layouts \<times> CombineV2Coordinator) res" where
  "NotifyReady ready s =
     (case s of (h, co) \<Rightarrow>
      if co_dispatch co = None then fail INVALID_STATE_TRANSITION
      else rbind (state s) (\<lambda>st.
        if st \<noteq> Some COMBINE_ACTIVE then fail INVALID_STATE_TRANSITION
        else if crd_source_rank ready \<ge> cfg_worker_count (co_config co) then fail INVALID_READY
        else rbind (vget (co_registrations co) (unat (crd_source_rank ready))) (\<lambda>registration.
          rbind (ValidateCombineReady ready registration (co_config co) (co_plan co)) (\<lambda>_.
          rbind (vget (co_ready_seen co) (unat (crd_source_rank ready))) (\<lambda>seen.
          if seen then fail DUPLICATE_SOURCE
          else rbind (vput (co_ready_seen co) (unat (crd_source_rank ready)) True) (\<lambda>ready_seen.
            Inr (OK, h, co\<lparr>co_ready_seen := ready_seen, co_ready_count := co_ready_count co + 1\<rparr>)))))))"

definition Finish ::
  "layouts \<times> CombineV2Coordinator \<Rightarrow>
     (CombineV2Status, CombineV2Status \<times> layouts \<times> CombineV2Coordinator) res" where
  "Finish s =
     (case s of (h, co) \<Rightarrow>
      case co_dispatch co of None \<Rightarrow> fail INVALID_STATE_TRANSITION
      | Some p \<Rightarrow> rbind (state s) (\<lambda>st.
          if st \<noteq> Some COMBINE_ACTIVE then fail INVALID_STATE_TRANSITION
          else if \<not> all_ready co then fail NOT_READY
          else rbind (enter_state h p COMPLETE) (\<lambda>h'. Inr (OK, h', co))))"

definition Abort ::
  "layouts \<times> CombineV2Coordinator \<Rightarrow>
     (CombineV2Status, CombineV2Status \<times> layouts \<times> CombineV2Coordinator) res" where
  "Abort s =
     (case s of (h, co) \<Rightarrow>
      case co_dispatch co of None \<Rightarrow> fail INVALID_STATE_TRANSITION
      | Some p \<Rightarrow> rbind (state s) (\<lambda>st.
          if st \<noteq> Some COMBINE_ACTIVE then fail INVALID_STATE_TRANSITION
          else rbind (enter_state h p JournalSlotState.ABORTED) (\<lambda>h'. Inr (ABORTED, h', co))))"

section \<open>Runs\<close>

text \<open>
  The calls a client can make, in any order, with the status each returns. A call that would fault
  has no step, so the absence of faults is a property of its own.
\<close>

datatype call = Call_Initialize "nat option" CombineV2Config "CombineRegionRegistration list"
  | Call_NotifyReady CombineReadyV2 | Call_Finish | Call_Abort

type_synonym wave = "layouts \<times> CombineV2Coordinator"

fun execute :: "call \<Rightarrow> wave \<Rightarrow> (CombineV2Status, CombineV2Status \<times> wave) res" where
  "execute (Call_Initialize d c rs) s = Initialize d c rs s"
| "execute (Call_NotifyReady r) s = NotifyReady r s"
| "execute Call_Finish s = Finish s"
| "execute Call_Abort s = Abort s"

inductive wave_run :: "wave \<Rightarrow> (call \<times> CombineV2Status) list \<Rightarrow> wave \<Rightarrow> bool" where
  start: "wave_run s [] s"
| returned: "wave_run s tr (h, co) \<Longrightarrow> execute c (h, co) = Inr (st, s') \<Longrightarrow> wave_run s (tr @ [(c, st)]) s'"
| rejected: "wave_run s tr s' \<Longrightarrow> execute c s' = fail st \<Longrightarrow> wave_run s (tr @ [(c, st)]) s'"

fun accepted :: "(call \<times> CombineV2Status) list \<Rightarrow> CombineReadyV2 list" where
  "accepted [] = []"
| "accepted ((Call_NotifyReady r, OK) # tr) = r # accepted tr"
| "accepted (_ # tr) = accepted tr"


section \<open>The registrations of a wave\<close>

abbreviation ready_rank :: "CombineReadyV2 \<Rightarrow> nat" where
  "ready_rank r \<equiv> unat (crd_source_rank r)"

abbreviation region_rank :: "CombineRegionRegistration \<Rightarrow> nat" where
  "region_rank r \<equiv> unat (crg_source_rank r)"

definition registered :: "CombineV2Config \<Rightarrow> CombineRegionRegistration list \<Rightarrow>
    CombineRegionRegistration list \<times> bool list \<Rightarrow> bool" where
  "registered config xs st \<longleftrightarrow> (case st of (by_rank, seen) \<Rightarrow>
     length by_rank = unat (cfg_worker_count config) \<and> length seen = unat (cfg_worker_count config) \<and>
     distinct (map region_rank xs) \<and> region_rank ` set xs \<subseteq> {..<unat (cfg_worker_count config)} \<and>
     (\<forall>r < unat (cfg_worker_count config). (seen ! r \<longleftrightarrow> r \<in> region_rank ` set xs) \<and>
        (seen ! r \<longrightarrow> by_rank ! r \<in> set xs \<and> region_rank (by_rank ! r) = r \<and>
           ValidateCombineRegistration (by_rank ! r) config = OK)))"

lemma registration_rank:
  assumes "ValidateCombineRegistration r config = OK"
  shows "region_rank r < unat (cfg_worker_count config)"
  using assms unfolding ValidateCombineRegistration_def
  by (simp add: word_le_nat_alt not_le split: if_splits)

lemma register_step:
  assumes "registered config xs (by_rank, seen)"
  shows "(\<exists>e. register config x (by_rank, seen) = fail e) \<or>
    (\<exists>v. register config x (by_rank, seen) = Inr v \<and> registered config (xs @ [x]) v)"
proof (cases "ValidateCombineRegistration x config = OK")
  case True
  then have r: "region_rank x < unat (cfg_worker_count config)" by (rule registration_rank)
  show ?thesis
    using assms True r by (auto simp: registered_def nth_list_update)
qed simp

lemma register_all:
  assumes "length registrations = unat (cfg_worker_count config)"
  shows "(\<exists>e. mfold (register config) registrations (replicate (unat (cfg_worker_count config)) CombineRegionRegistration_init,
        replicate (unat (cfg_worker_count config)) False) = fail e) \<or>
    (\<exists>by_rank seen. mfold (register config) registrations (replicate (unat (cfg_worker_count config)) CombineRegionRegistration_init,
        replicate (unat (cfg_worker_count config)) False) = Inr (by_rank, seen) \<and>
      length by_rank = unat (cfg_worker_count config) \<and>
      (\<forall>r < unat (cfg_worker_count config). by_rank ! r \<in> set registrations \<and> region_rank (by_rank ! r) = r \<and>
         ValidateCombineRegistration (by_rank ! r) config = OK))"
proof -
  let ?W = "unat (cfg_worker_count config)"
  let ?s = "(replicate ?W CombineRegionRegistration_init, replicate ?W False)"
  have loop: "(\<exists>e \<in> UNIV. mfold (register config) registrations ?s = fail e) \<or>
      (\<exists>t. mfold (register config) registrations ?s = Inr t \<and> registered config registrations t)"
  proof (rule mfold_run)
    show "registered config [] ?s" by (simp add: registered_def)
    fix ys x zs u assume "registered config ys u"
    then show "(\<exists>e \<in> UNIV. register config x u = fail e) \<or> (\<exists>v. register config x u = Inr v \<and> registered config (ys @ [x]) v)"
      using register_step [of config ys "fst u" "snd u" x] by simp
  qed
  have all: "region_rank ` set registrations = {..<?W}" if "registered config registrations t" for t
  proof (rule card_subset_eq)
    have "distinct (map region_rank registrations)" using that by (auto simp: registered_def)
    then show "card (region_rank ` set registrations) = card {..<?W}"
      using assms distinct_card by fastforce
  qed (use that in \<open>auto simp: registered_def\<close>)
  from loop show ?thesis
  proof (elim disjE bexE exE conjE)
    fix t assume t: "mfold (register config) registrations ?s = Inr t" "registered config registrations t"
    then show ?thesis using all [OF t(2)] by (cases t) (simp add: registered_def)
  qed blast
qed

section \<open>The invariant of a wave\<close>

definition header_valid :: "JournalSlotHeader \<Rightarrow> bool" where
  "header_valid h \<longleftrightarrow> jh_magic h = kPullDispatchMagic \<and> jh_abi_version h = kPullDispatchAbiVersion \<and>
     jh_struct_bytes h = of_nat sizeof_JournalSlotHeader"

definition journal_state :: "CompiledLayout \<Rightarrow> JournalSlotState option" where
  "journal_state l = state_of_code (jh_state (cl_journal_header l))"

definition wave_members :: "CombineV2Coordinator \<Rightarrow> CombineReadyV2 list \<Rightarrow> bool" where
  "wave_members co rs \<longleftrightarrow>
     (let W = unat (cfg_worker_count (co_config co)) in
      ConfigValid (co_config co) \<and> pl_worker_count (co_plan co) = cfg_worker_count (co_config co) \<and>
      length (pl_source_row_counts (co_plan co)) = W \<and>
      length (co_registrations co) = W \<and> length (co_ready_seen co) = W \<and>
      (\<forall>r < W. region_rank (co_registrations co ! r) = r \<and>
         ValidateCombineRegistration (co_registrations co ! r) (co_config co) = OK) \<and>
      (\<forall>r < W. co_ready_seen co ! r \<longleftrightarrow> r \<in> ready_rank ` set rs) \<and>
      distinct (map ready_rank rs) \<and> unat (co_ready_count co) = length rs \<and>
      (\<forall>q \<in> set rs. ready_rank q < W \<and>
         ValidateCombineReady q (co_registrations co ! ready_rank q) (co_config co) (co_plan co) = Inr ()))"

definition wave_inv :: "wave \<Rightarrow> CombineReadyV2 list \<Rightarrow> bool" where
  "wave_inv s rs \<longleftrightarrow> (case s of (h, co) \<Rightarrow> case co_dispatch co of None \<Rightarrow> rs = []
     | Some p \<Rightarrow> \<exists>l. h p = Some l \<and> header_valid (cl_journal_header l) \<and>
         journal_state l \<in> {Some COMBINE_ACTIVE, Some COMPLETE, Some JournalSlotState.ABORTED} \<and>
         (journal_state l = Some COMPLETE \<longrightarrow> length rs = unat (cfg_worker_count (co_config co))) \<and>
         wave_members co rs)"

lemma ready_count_bound:
  assumes "wave_members co rs"
  shows "length rs \<le> unat (cfg_worker_count (co_config co))"
    and "length rs = unat (cfg_worker_count (co_config co)) \<Longrightarrow>
      mset (map ready_rank rs) = mset [0..<unat (cfg_worker_count (co_config co))]"
proof -
  let ?W = "unat (cfg_worker_count (co_config co))"
  have d: "distinct (map ready_rank rs)" and sub: "set (map ready_rank rs) \<subseteq> {..<?W}"
    using assms by (auto simp: wave_members_def Let_def)
  have "card (set (map ready_rank rs)) \<le> ?W" using card_mono [OF _ sub] by simp
  then show "length rs \<le> ?W" using distinct_card [OF d] by simp
  assume "length rs = ?W"
  then have "set (map ready_rank rs) = {..<?W}"
    using card_subset_eq [OF _ sub] distinct_card [OF d] by simp
  then show "mset (map ready_rank rs) = mset [0..<?W]"
    using set_eq_iff_mset_eq_distinct [OF d distinct_upt, of 0 ?W] by auto
qed

lemma ValidateCombineReady_no_fault:
  assumes "length (pl_source_row_counts plan) = unat (pl_worker_count plan)"
  shows "(\<exists>e. ValidateCombineReady ready reg config plan = fail e) \<or>
    ValidateCombineReady ready reg config plan = Inr ()"
proof (cases "ready_descriptor_ok ready reg config plan")
  case True
  then have "ready_rank ready < length (pl_source_row_counts plan)"
    unfolding ready_descriptor_ok_def assms by (elim conjE) (simp only: word_less_nat_alt)
  then show ?thesis by (auto simp: ValidateCombineReady_def split: option.splits prod.splits)
qed (simp add: ValidateCombineReady_def)

section \<open>Every call keeps the invariant\<close>

definition set_state :: "CompiledLayout \<Rightarrow> JournalSlotState \<Rightarrow> CompiledLayout" where
  "set_state l to = l\<lparr>cl_journal_header := (cl_journal_header l)\<lparr>jh_state := state_code to\<rparr>\<rparr>"

lemma set_state_facts [simp]:
  "journal_state (set_state l to) = Some to" "header_valid (cl_journal_header (set_state l to)) = header_valid (cl_journal_header l)"
  by (simp_all add: set_state_def journal_state_def header_valid_def)

lemma enter_state_eq:
  assumes "h p = Some l" and "header_valid (cl_journal_header l)"
  shows "enter_state h p to = (if ValidJournalTransition (journal_state l) to then Inr (h(p \<mapsto> set_state l to))
    else fail INVALID_STATE_TRANSITION)"
  using assms by (simp add: set_state_def enter_state_def deref_def TransitionJournal_def header_valid_def journal_state_def fail_def)

lemma state_eq: "co_dispatch co = Some p \<Longrightarrow> h p = Some l \<Longrightarrow> state (h, co) = Inr (journal_state l)"
  by (simp add: state_def deref_def journal_state_def)

lemma plan_facts:
  assumes "CompileCombinePullPlan l config = Inr plan"
  shows "header_valid (cl_journal_header l)" and "journal_state l = Some DISPATCH_SEALED"
    and "pl_worker_count plan = cfg_worker_count config"
    and "length (pl_source_row_counts plan) = unat (cfg_worker_count config)"
  using CompileCombinePullPlan_phases [OF refl refl refl, of l config] assms
  by (auto simp: journal_bad_def Let_def HeaderCanonical_def header_valid_def journal_state_def)

lemma Initialize_step:
  assumes "wave_inv (h, co) rs" and "\<forall>p. d = Some p \<longrightarrow> h p \<noteq> None"
  shows "(\<exists>e. Initialize d config registrations (h, co) = fail e) \<or>
    (\<exists>h' co' p. Initialize d config registrations (h, co) = Inr (OK, h', co') \<and> rs = [] \<and>
       co_dispatch co' = d \<and> co_config co' = config \<and> d = Some p \<and> dom h' = dom h \<and>
       wave_inv (h', co') [] \<and> state (h', co') = Inr (Some COMBINE_ACTIVE))"
proof (cases "co_dispatch co \<noteq> None \<or> d = None \<or> \<not> ConfigValid config \<or>
    length registrations \<noteq> unat (cfg_worker_count config)")
  case False
  then obtain p where p: "d = Some p" "co_dispatch co = None" and cfg: "ConfigValid config"
    and len: "length registrations = unat (cfg_worker_count config)" by auto
  obtain l where l: "h p = Some l" using assms(2) p by auto
  note run = Initialize_def
  have "(\<exists>e. CompileCombinePullPlan l config = fail e) \<or> (\<exists>plan. CompileCombinePullPlan l config = Inr plan)"
    using CompileCombinePullPlan_phases [OF refl refl refl, of l config] by blast
  then show ?thesis
  proof (elim disjE exE)
    fix e assume "CompileCombinePullPlan l config = fail e"
    then show ?thesis using p cfg len l by (simp add: run deref_def)
  next
    fix plan assume plan: "CompileCombinePullPlan l config = Inr plan"
    note pf = plan_facts [OF plan]
    show ?thesis
      using register_all [OF len]
    proof (elim disjE exE conjE)
      fix e assume "mfold (register config) registrations
          (replicate (unat (cfg_worker_count config)) CombineRegionRegistration_init,
           replicate (unat (cfg_worker_count config)) False) = fail e"
      then show ?thesis using p cfg len l plan by (simp add: run deref_def)
    next
      fix by_rank seen
      assume regs: "mfold (register config) registrations
          (replicate (unat (cfg_worker_count config)) CombineRegionRegistration_init,
           replicate (unat (cfg_worker_count config)) False) = Inr (by_rank, seen)"
        "length by_rank = unat (cfg_worker_count config)"
        "\<forall>r < unat (cfg_worker_count config). by_rank ! r \<in> set registrations \<and> region_rank (by_rank ! r) = r \<and>
           ValidateCombineRegistration (by_rank ! r) config = OK"
      define co' where "co' = \<lparr> co_dispatch = d, co_config = config, co_plan = plan,
          co_registrations = by_rank, co_ready_seen = replicate (unat (cfg_worker_count config)) False,
          co_ready_count = 0 \<rparr>"
      have en: "enter_state h p COMBINE_ACTIVE = Inr (h(p \<mapsto> set_state l COMBINE_ACTIVE))"
        by (simp add: enter_state_eq [of h p l, OF l pf(1)] pf(2))
      have "Initialize d config registrations (h, co) = Inr (OK, h(p \<mapsto> set_state l COMBINE_ACTIVE), co')"
        unfolding run using p cfg len l plan regs(1) en by (simp add: deref_def co'_def)
      moreover have "wave_inv (h(p \<mapsto> set_state l COMBINE_ACTIVE), co') []"
        using pf regs(2,3) cfg p by (simp add: wave_inv_def wave_members_def co'_def)
      moreover have "rs = []" using assms(1) p by (simp add: wave_inv_def)
      moreover have "dom (h(p \<mapsto> set_state l COMBINE_ACTIVE)) = dom h" using l by auto
      moreover have "state (h(p \<mapsto> set_state l COMBINE_ACTIVE), co') = Inr (Some COMBINE_ACTIVE)"
        using p by (simp add: state_eq [of _ p _ "set_state l COMBINE_ACTIVE"] co'_def)
      ultimately show ?thesis using p by (simp add: co'_def)
    qed
  qed
qed (simp add: Initialize_def)

lemma NotifyReady_step:
  assumes "wave_inv (h, co) rs"
  shows "(\<exists>e. NotifyReady ready (h, co) = fail e) \<or>
    (\<exists>co'. NotifyReady ready (h, co) = Inr (OK, h, co') \<and> wave_inv (h, co') (rs @ [ready]) \<and>
       co_dispatch co' = co_dispatch co \<and> co_config co' = co_config co)"
    and "co_dispatch co = Some p \<Longrightarrow> state (h, co) = Inr (Some COMBINE_ACTIVE) \<Longrightarrow>
      ready_rank ready < unat (cfg_worker_count (co_config co)) \<Longrightarrow> ready_rank ready \<notin> ready_rank ` set rs \<Longrightarrow>
      ValidateCombineReady ready (co_registrations co ! ready_rank ready) (co_config co) (co_plan co) = Inr () \<Longrightarrow>
      \<exists>co'. NotifyReady ready (h, co) = Inr (OK, h, co') \<and> wave_inv (h, co') (rs @ [ready]) \<and>
        co_dispatch co' = co_dispatch co \<and> co_config co' = co_config co \<and>
        co_registrations co' = co_registrations co \<and> co_plan co' = co_plan co"
proof -
  let ?W = "unat (cfg_worker_count (co_config co))" and ?r = "ready_rank ready"
  define co' where "co' = co\<lparr>co_ready_seen := (co_ready_seen co)[?r := True], co_ready_count := co_ready_count co + 1\<rparr>"
  have ok: "NotifyReady ready (h, co) = Inr (OK, h, co') \<and> wave_inv (h, co') (rs @ [ready])"
    if p: "co_dispatch co = Some p" and st: "state (h, co) = Inr (Some COMBINE_ACTIVE)" and r: "?r < ?W"
      and new: "?r \<notin> ready_rank ` set rs"
      and v: "ValidateCombineReady ready (co_registrations co ! ?r) (co_config co) (co_plan co) = Inr ()" for p
  proof -
    obtain l where l: "h p = Some l" "header_valid (cl_journal_header l)" and m: "wave_members co rs"
      using assms p by (auto simp: wave_inv_def)
    have act: "journal_state l = Some COMBINE_ACTIVE" using st state_eq [of co p h l, OF p l(1)] by simp
    have len: "length (co_registrations co) = ?W" "length (co_ready_seen co) = ?W" "\<not> co_ready_seen co ! ?r"
      using m r new by (simp_all add: wave_members_def Let_def)
    have "\<not> cfg_worker_count (co_config co) \<le> crd_source_rank ready" using r by (simp add: word_le_nat_alt)
    then have run: "NotifyReady ready (h, co) = Inr (OK, h, co')"
      using p st len r v by (simp add: NotifyReady_def co'_def)
    have "length rs \<noteq> ?W"
      using ready_count_bound(2) [OF m] r new by (metis atLeast0LessThan lessThan_iff list.set_map mset_eq_setD set_upt)
    then have "length rs < ?W" using ready_count_bound(1) [OF m] by simp
    moreover have "?W < 2 ^ 32" using unsigned_less [of "cfg_worker_count (co_config co)", where ?'a = nat] by simp
    ultimately have cnt: "unat (co_ready_count co + 1) = Suc (length rs)"
      using m unat_add_of_nat [of "co_ready_count co" 1] by (simp add: wave_members_def Let_def)
    have "wave_members co' (rs @ [ready])"
      unfolding wave_members_def Let_def
    proof (intro conjI allI ballI impI)
      fix r' assume "r' < unat (cfg_worker_count (co_config co'))"
      then show "co_ready_seen co' ! r' \<longleftrightarrow> r' \<in> ready_rank ` set (rs @ [ready])"
        using m r by (auto simp: wave_members_def Let_def co'_def nth_list_update)
    next
      show "distinct (map ready_rank (rs @ [ready]))" using m new by (auto simp: wave_members_def Let_def)
      fix q assume "q \<in> set (rs @ [ready])"
      then show "ready_rank q < unat (cfg_worker_count (co_config co'))"
        and "ValidateCombineReady q (co_registrations co' ! ready_rank q) (co_config co') (co_plan co') = Inr ()"
        using m r v by (auto simp: wave_members_def Let_def co'_def)
    qed (use m cnt in \<open>simp_all add: wave_members_def Let_def co'_def\<close>)
    then show ?thesis using run l act p by (simp add: wave_inv_def co'_def)
  qed
  have same: "co_dispatch co' = co_dispatch co" "co_config co' = co_config co"
    "co_registrations co' = co_registrations co" "co_plan co' = co_plan co" by (simp_all add: co'_def)
  show "(\<exists>e. NotifyReady ready (h, co) = fail e) \<or>
    (\<exists>co'. NotifyReady ready (h, co) = Inr (OK, h, co') \<and> wave_inv (h, co') (rs @ [ready]) \<and>
       co_dispatch co' = co_dispatch co \<and> co_config co' = co_config co)"
  proof (cases "co_dispatch co")
    case None
    then show ?thesis by (simp add: NotifyReady_def)
  next
    case p: (Some p)
    then obtain l where l: "h p = Some l" and m: "wave_members co rs"
      using assms by (auto simp: wave_inv_def)
    note st = state_eq [of co p h l, OF p l]
    have len: "length (co_registrations co) = ?W" "length (co_ready_seen co) = ?W"
        "length (pl_source_row_counts (co_plan co)) = unat (pl_worker_count (co_plan co))"
      using m by (simp_all add: wave_members_def Let_def)
    show ?thesis
    proof (cases "journal_state l = Some COMBINE_ACTIVE \<and> ?r < ?W")
      case False
      then show ?thesis using p st by (auto simp: NotifyReady_def word_le_nat_alt)
    next
      case True
      then have r: "?r < ?W" "\<not> cfg_worker_count (co_config co) \<le> crd_source_rank ready"
        by (simp_all add: word_le_nat_alt)
      from ValidateCombineReady_no_fault [OF len(3), of ready "co_registrations co ! ?r" "co_config co"]
      show ?thesis
      proof (elim disjE exE)
        fix e assume "ValidateCombineReady ready (co_registrations co ! ?r) (co_config co) (co_plan co) = fail e"
        then show ?thesis using p st True r len by (simp add: NotifyReady_def)
      next
        assume v: "ValidateCombineReady ready (co_registrations co ! ?r) (co_config co) (co_plan co) = Inr ()"
        show ?thesis
        proof (cases "?r \<in> ready_rank ` set rs")
          case dup: True
          then have "co_ready_seen co ! ?r" using m r by (simp add: wave_members_def Let_def)
          then show ?thesis using p st True r len v by (simp add: NotifyReady_def)
        next
          case False
          then show ?thesis using ok [OF p _ r(1) _ v] st True same by auto
        qed
      qed
    qed
  qed
  show "\<exists>co'. NotifyReady ready (h, co) = Inr (OK, h, co') \<and> wave_inv (h, co') (rs @ [ready]) \<and>
        co_dispatch co' = co_dispatch co \<and> co_config co' = co_config co \<and>
        co_registrations co' = co_registrations co \<and> co_plan co' = co_plan co"
    if "co_dispatch co = Some p" "state (h, co) = Inr (Some COMBINE_ACTIVE)" "?r < ?W" "?r \<notin> ready_rank ` set rs"
      "ValidateCombineReady ready (co_registrations co ! ?r) (co_config co) (co_plan co) = Inr ()"
    using ok [OF that] same by blast
qed

text \<open>\<open>Finish\<close> and \<open>Abort\<close> answer according to the journal state and the number of READY records.\<close>

lemma wave_active:
  assumes "wave_inv (h, co) rs"
  obtains "co_dispatch co = None"
  | p l where "co_dispatch co = Some p" "h p = Some l" "header_valid (cl_journal_header l)" "wave_members co rs"
      "state (h, co) = Inr (journal_state l)"
  using assms state_eq by (cases "co_dispatch co") (auto simp: wave_inv_def)

lemma all_ready_iff:
  assumes "wave_members co rs" and "co_dispatch co = Some p"
  shows "all_ready co \<longleftrightarrow> length rs = unat (cfg_worker_count (co_config co))"
  using assms by (auto simp: all_ready_def wave_members_def Let_def word_unat_eq_iff)

lemma Finish_step:
  assumes "wave_inv (h, co) rs"
  shows "(\<exists>e. Finish (h, co) = fail e) \<or>
    (\<exists>h'. Finish (h, co) = Inr (OK, h', co) \<and> wave_inv (h', co) rs \<and> dom h' = dom h \<and>
       state (h, co) = Inr (Some COMBINE_ACTIVE) \<and> state (h', co) = Inr (Some COMPLETE) \<and>
       wave_members co rs \<and> length rs = unat (cfg_worker_count (co_config co)))"
    and "co_dispatch co = Some p \<Longrightarrow> state (h, co) = Inr (Some COMBINE_ACTIVE) \<Longrightarrow>
      length rs = unat (cfg_worker_count (co_config co)) \<Longrightarrow> \<exists>h'. Finish (h, co) = Inr (OK, h', co)"
proof -
  show "(\<exists>e. Finish (h, co) = fail e) \<or>
    (\<exists>h'. Finish (h, co) = Inr (OK, h', co) \<and> wave_inv (h', co) rs \<and> dom h' = dom h \<and>
       state (h, co) = Inr (Some COMBINE_ACTIVE) \<and> state (h', co) = Inr (Some COMPLETE) \<and>
       wave_members co rs \<and> length rs = unat (cfg_worker_count (co_config co)))"
  proof (rule wave_active [OF assms])
    assume "co_dispatch co = None"
    then show ?thesis by (simp add: Finish_def)
  next
    fix p l
    assume w: "co_dispatch co = Some p" "h p = Some l" "header_valid (cl_journal_header l)" "wave_members co rs"
      "state (h, co) = Inr (journal_state l)"
    let ?h = "h(p \<mapsto> set_state l COMPLETE)"
    show ?thesis
    proof (cases "journal_state l = Some COMBINE_ACTIVE \<and> all_ready co")
      case False
      then show ?thesis using w(1,5) by (auto simp: Finish_def)
    next
      case True
      then have "Finish (h, co) = Inr (OK, ?h, co)"
        using w by (simp add: Finish_def enter_state_eq)
      moreover have len: "length rs = unat (cfg_worker_count (co_config co))" using True w by (simp add: all_ready_iff)
      moreover have "wave_inv (?h, co) rs" using w len by (simp add: wave_inv_def)
      moreover have "dom ?h = dom h" using w(2) by auto
      moreover have "state (?h, co) = Inr (Some COMPLETE)" using w(1) by (simp add: state_eq)
      ultimately show ?thesis using w True by simp
    qed
  qed
  assume d: "co_dispatch co = Some p" and st: "state (h, co) = Inr (Some COMBINE_ACTIVE)"
    and len: "length rs = unat (cfg_worker_count (co_config co))"
  obtain l where "h p = Some l" "header_valid (cl_journal_header l)" "wave_members co rs"
    using assms d by (auto simp: wave_inv_def)
  then show "\<exists>h'. Finish (h, co) = Inr (OK, h', co)"
    using d st len by (simp add: Finish_def all_ready_iff state_eq enter_state_eq)
qed

lemma Abort_step:
  assumes "wave_inv (h, co) rs"
  shows "(\<exists>e. Abort (h, co) = fail e) \<or>
    (\<exists>h'. Abort (h, co) = Inr (ABORTED, h', co) \<and> wave_inv (h', co) rs \<and> dom h' = dom h)"
proof (rule wave_active [OF assms])
  assume "co_dispatch co = None"
  then show ?thesis by (simp add: Abort_def)
next
  fix p l
  assume w: "co_dispatch co = Some p" "h p = Some l" "header_valid (cl_journal_header l)" "wave_members co rs"
    "state (h, co) = Inr (journal_state l)"
  show ?thesis
  proof (cases "journal_state l = Some COMBINE_ACTIVE")
    case False
    then show ?thesis using w(1,5) by (auto simp: Abort_def)
  next
    case True
    then have "Abort (h, co) = Inr (ABORTED, h(p \<mapsto> set_state l JournalSlotState.ABORTED), co)"
      using w by (simp add: Abort_def enter_state_eq)
    moreover have "wave_inv (h(p \<mapsto> set_state l JournalSlotState.ABORTED), co) rs" using w by (simp add: wave_inv_def)
    moreover have "dom (h(p \<mapsto> set_state l JournalSlotState.ABORTED)) = dom h" using w(2) by auto
    ultimately show ?thesis by blast
  qed
qed

section \<open>What a run shows\<close>

lemma unat_ucast_ring: "unat (ucast (w :: u16) :: u64) = unat w"
  using unsigned_less [of w, where ?'a = nat]
  by (simp add: unsigned_ucast_eq take_bit_nat_eq_self_iff)

definition pointers_ok :: "layouts \<Rightarrow> call \<Rightarrow> bool" where
  "pointers_ok h c \<longleftrightarrow> (case c of Call_Initialize (Some p) _ _ \<Rightarrow> h p \<noteq> None | _ \<Rightarrow> True)"

lemma accepted_append [simp]: "accepted (xs @ ys) = accepted xs @ accepted ys"
  by (induction xs rule: accepted.induct) simp_all

lemma rbind_eq_fail: "rbind m f = fail e \<longleftrightarrow> m = fail e \<or> (\<exists>x. m = Inr x \<and> f x = fail e)"
  by (cases m) (auto simp: fail_def)

lemma vec_no_fail [simp]: "vget xs i \<noteq> fail e" "vput xs i v \<noteq> fail e" "deref h p \<noteq> fail e"
  by (simp_all add: vget_def vput_def deref_def fail_def split: option.splits)

lemma NotifyReady_rejects: "NotifyReady ready s \<noteq> fail OK"
proof -
  have "ValidateCombineReady ready reg config plan \<noteq> fail OK" for reg config plan
    by (auto simp: ValidateCombineReady_def rbind_eq_fail split: option.splits if_splits)
  moreover have "state s \<noteq> fail OK"
    by (auto simp: state_def rbind_eq_fail split: prod.splits option.splits)
  ultimately show ?thesis
    by (auto simp: NotifyReady_def rbind_eq_fail split: prod.splits if_splits)
qed

lemma rejected_call: "execute c s = fail st \<Longrightarrow> accepted [(c, st)] = []"
proof (cases c)
  case (Call_NotifyReady r)
  assume "execute c s = fail st"
  then have "st \<noteq> OK" using NotifyReady_rejects [of r s] Call_NotifyReady by auto
  then show ?thesis unfolding Call_NotifyReady by (cases st) simp_all
qed simp_all

lemma execute_step:
  assumes "wave_inv (h, co) rs" and "pointers_ok h c"
  shows "(\<exists>e. execute c (h, co) = fail e) \<or>
    (\<exists>st h' co'. execute c (h, co) = Inr (st, h', co') \<and> dom h' = dom h \<and>
       wave_inv (h', co') (rs @ accepted [(c, st)]))"
proof (cases c)
  case (Call_Initialize d config regs)
  then have "\<forall>p. d = Some p \<longrightarrow> h p \<noteq> None" using assms(2) by (cases d) (simp_all add: pointers_ok_def)
  from Initialize_step [OF assms(1) this, of config regs] show ?thesis
    unfolding Call_Initialize execute.simps by (elim disjE exE conjE) auto
next
  case (Call_NotifyReady r)
  from NotifyReady_step(1) [OF assms(1), of r] show ?thesis
    unfolding Call_NotifyReady execute.simps by (elim disjE exE conjE) auto
next
  case Call_Finish
  from Finish_step(1) [OF assms(1)] show ?thesis
    unfolding Call_Finish execute.simps by (elim disjE exE conjE) auto
next
  case Call_Abort
  from Abort_step [OF assms(1)] show ?thesis
    unfolding Call_Abort execute.simps by (elim disjE exE conjE) auto
qed

definition fresh :: "CombineV2Coordinator \<Rightarrow> bool" where
  "fresh co \<longleftrightarrow> co_dispatch co = None"

lemma wave_run_inv:
  assumes "wave_run s tr s'" and "fresh (snd s)" and "\<forall>(c, st) \<in> set tr. pointers_ok (fst s) c"
  shows "wave_inv s' (accepted tr) \<and> dom (fst s') = dom (fst s)"
  using assms
proof (induction rule: wave_run.induct)
  case (start s)
  then show ?case by (auto simp: wave_inv_def fresh_def split: prod.splits)
next
  case (returned s tr h co c st s')
  then have inv: "wave_inv (h, co) (accepted tr)" and d: "dom h = dom (fst s)" by auto
  have "pointers_ok h c"
    using returned.prems(2) d by (auto simp: pointers_ok_def dom_def split: call.splits option.splits)
  from execute_step [OF inv this] returned.hyps(2)
  obtain h' co' where "s' = (h', co')" "dom h' = dom h" "wave_inv (h', co') (accepted tr @ accepted [(c, st)])"
    by auto
  then show ?case using d by simp
next
  case (rejected s tr s' c st)
  then show ?case using rejected_call [OF rejected.hyps(2)] by simp
qed

text \<open>
  C13 Memory safety of the coordinator. Whatever sequence of calls a client makes on a
  new coordinator, with pointers that are null or point to a layout, no call follows a dangling
  pointer or indexes a table out of range: the next call returns a status.
\<close>

theorem Coordinator_in_bounds:
  assumes "wave_run (h, co) tr s" and "fresh co" and "\<forall>(c, st) \<in> set tr. pointers_ok h c" and "pointers_ok h c"
  shows "\<exists>st s'. execute c s = fail st \<or> execute c s = Inr (st, s')"
proof -
  have inv: "wave_inv s (accepted tr)" and d: "dom (fst s) = dom h"
    using wave_run_inv [OF assms(1)] assms(2,3) by auto
  have "pointers_ok (fst s) c"
    using assms(4) d by (auto simp: pointers_ok_def dom_def split: call.splits option.splits)
  then show ?thesis using execute_step [of "fst s" "snd s" "accepted tr" c] inv by auto
qed

text \<open>
  C14 A wave completes only on every worker's word. In every run of calls on a new
  coordinator, when \<open>Finish\<close> answers \<open>OK\<close>, each worker of the configuration has had exactly one READY
  accepted, each accepted READY had passed \<open>ValidateCombineReady\<close> against that worker's own
  registration, the journal was \<open>COMBINE_ACTIVE\<close> and is now \<open>COMPLETE\<close>.
\<close>

theorem Coordinator_Finish_every_worker:
  assumes "wave_run (h, co) tr s" and "fresh co" and "\<forall>(c, st) \<in> set tr. pointers_ok h c"
    and "Finish s = Inr (OK, s')" and "W = unat (cfg_worker_count (co_config (snd s)))"
  shows "mset (map ready_rank (accepted tr)) = mset [0..<W] \<and>
    (\<forall>q \<in> set (accepted tr). region_rank (co_registrations (snd s) ! ready_rank q) = ready_rank q \<and>
       ValidateCombineReady q (co_registrations (snd s) ! ready_rank q) (co_config (snd s)) (co_plan (snd s)) = Inr ()) \<and>
    state s = Inr (Some COMBINE_ACTIVE) \<and> state s' = Inr (Some COMPLETE)"
proof -
  obtain h' co' where s: "s = (h', co')" by (cases s)
  have inv: "wave_inv (h', co') (accepted tr)" using wave_run_inv [OF assms(1)] assms(2,3) s by auto
  from Finish_step(1) [OF inv] assms(4) obtain h'' where s': "s' = (h'', co')"
    and m: "wave_members co' (accepted tr)" and st: "state s = Inr (Some COMBINE_ACTIVE)" "state s' = Inr (Some COMPLETE)"
    and len: "length (accepted tr) = W"
    by (auto simp: s assms(5))
  have "mset (map ready_rank (accepted tr)) = mset [0..<W]"
    using ready_count_bound(2) [OF m] len by (simp add: assms(5) s del: mset_map mset_upt)
  moreover have "region_rank (co_registrations co' ! ready_rank q) = ready_rank q \<and>
      ValidateCombineReady q (co_registrations co' ! ready_rank q) (co_config co') (co_plan co') = Inr ()"
    if "q \<in> set (accepted tr)" for q
    using m that by (simp add: wave_members_def Let_def)
  ultimately show ?thesis using st by (simp add: s)
qed

lemma ready_sequence:
  assumes "wave_inv (h, co) []" and "co_dispatch co = Some p" and "state (h, co) = Inr (Some COMBINE_ACTIVE)"
    and "distinct (map ready_rank rs)"
    and "\<forall>q \<in> set rs. ready_rank q < unat (cfg_worker_count (co_config co)) \<and>
      ValidateCombineReady q (co_registrations co ! ready_rank q) (co_config co) (co_plan co) = Inr ()"
  shows "\<exists>co'. wave_run (h, co) (map (\<lambda>q. (Call_NotifyReady q, OK)) rs) (h, co') \<and> wave_inv (h, co') rs \<and>
    co_dispatch co' = co_dispatch co \<and> co_config co' = co_config co \<and>
    co_registrations co' = co_registrations co \<and> co_plan co' = co_plan co"
  using assms(4,5)
proof (induction rs rule: rev_induct)
  case Nil
  then show ?case using assms(1) by (auto intro: wave_run.start)
next
  case (snoc q rs)
  then obtain co' where run: "wave_run (h, co) (map (\<lambda>q. (Call_NotifyReady q, OK)) rs) (h, co')"
    and inv: "wave_inv (h, co') rs" and same: "co_dispatch co' = co_dispatch co" "co_config co' = co_config co"
      "co_registrations co' = co_registrations co" "co_plan co' = co_plan co" by auto
  have st: "state (h, co') = Inr (Some COMBINE_ACTIVE)" using assms(3) same(1) by (simp add: state_def)
  have "\<exists>co''. NotifyReady q (h, co') = Inr (OK, h, co'') \<and> wave_inv (h, co'') (rs @ [q]) \<and>
      co_dispatch co'' = co_dispatch co' \<and> co_config co'' = co_config co' \<and>
      co_registrations co'' = co_registrations co' \<and> co_plan co'' = co_plan co'"
    by (rule NotifyReady_step(2) [OF inv _ st]) (use snoc.prems same assms(2) in auto)
  then obtain co'' where next_ready: "NotifyReady q (h, co') = Inr (OK, h, co'')"
    and inv': "wave_inv (h, co'') (rs @ [q])" and same': "co_dispatch co'' = co_dispatch co'"
      "co_config co'' = co_config co'" "co_registrations co'' = co_registrations co'" "co_plan co'' = co_plan co'"
    by blast
  have "wave_run (h, co) (map (\<lambda>q. (Call_NotifyReady q, OK)) rs @ [(Call_NotifyReady q, OK)]) (h, co'')"
    by (rule wave_run.returned [OF run]) (simp add: next_ready)
  then show ?case using inv' same same' by auto
qed

text \<open>
  C15 Progress. After a successful \<open>Initialize\<close>, the workers may publish in any
  order: a sequence of valid READY records with one per worker is accepted record by record, and
  \<open>Finish\<close> then answers \<open>OK\<close> and leaves the journal \<open>COMPLETE\<close>.
\<close>

theorem Coordinator_any_order_completes:
  assumes ini: "Initialize d config registrations (h, co) = Inr (OK, h1, co1)"
    and W: "W = unat (cfg_worker_count config)" and perm: "mset (map ready_rank rs) = mset [0..<W]"
    and val: "\<forall>q \<in> set rs. ValidateCombineReady q (co_registrations co1 ! ready_rank q) config (co_plan co1) = Inr ()"
  shows "\<exists>s2 s3. wave_run (h1, co1) (map (\<lambda>q. (Call_NotifyReady q, OK)) rs) s2 \<and>
    Finish s2 = Inr (OK, s3) \<and> state s3 = Inr (Some COMPLETE)"
proof -
  have fr: "co_dispatch co = None" and ptr: "\<forall>p. d = Some p \<longrightarrow> h p \<noteq> None"
    using ini by (auto simp: Initialize_def rbind_eq_Inr deref_def split: if_splits option.splits)
  then have "wave_inv (h, co) []" by (simp add: wave_inv_def)
  from Initialize_step [OF this ptr, of config registrations] ini obtain p where
    co1: "co_dispatch co1 = Some p" "co_config co1 = config" and inv: "wave_inv (h1, co1) []"
    and st: "state (h1, co1) = Inr (Some COMBINE_ACTIVE)" by auto
  have len: "length rs = W" using mset_eq_length [OF perm] by simp
  have dis: "distinct (map ready_rank rs)" using mset_eq_imp_distinct_iff [OF perm] by simp
  have "set (map ready_rank rs) = {0..<W}" using mset_eq_setD [OF perm] by simp
  then have "\<forall>q \<in> set rs. ready_rank q < unat (cfg_worker_count (co_config co1)) \<and>
      ValidateCombineReady q (co_registrations co1 ! ready_rank q) (co_config co1) (co_plan co1) = Inr ()"
    using val co1(2) W by auto
  from ready_sequence [OF inv co1(1) st dis this] obtain co2 where
    run: "wave_run (h1, co1) (map (\<lambda>q. (Call_NotifyReady q, OK)) rs) (h1, co2)" and inv2: "wave_inv (h1, co2) rs"
    and same: "co_dispatch co2 = co_dispatch co1" "co_config co2 = co_config co1" by blast
  have st2: "state (h1, co2) = Inr (Some COMBINE_ACTIVE)" using st same(1) by (simp add: state_def)
  obtain h3 where fin: "Finish (h1, co2) = Inr (OK, h3, co2)"
    using Finish_step(2) [OF inv2 _ st2] same co1 len W by auto
  from Finish_step(1) [OF inv2] fin have "state (h3, co2) = Inr (Some COMPLETE)" by auto
  then show ?thesis using run fin by blast
qed

text \<open>
  A journal belongs to one coordinator. Once \<open>Initialize\<close> has succeeded on a layout,
  no other coordinator can initialize on it, whatever its configuration and registrations, while
  the first one is active and after it has finished or aborted: the call is rejected.
\<close>

theorem Coordinator_Initialize_once:
  assumes run: "wave_run (h, co) tr (h', co')" and "fresh co" and ptr: "\<forall>(c, st) \<in> set tr. pointers_ok h c"
    and p: "co_dispatch co' = Some p"
  shows "\<exists>e. Initialize (Some p) config registrations (h', other) = fail e"
proof -
  obtain l where l: "h' p = Some l" "journal_state l \<noteq> Some DISPATCH_SEALED"
    using wave_run_inv [OF run] assms(2) ptr p by (auto simp: wave_inv_def)
  have "journal_bad l config" using l(2) by (simp add: journal_bad_def Let_def journal_state_def)
  then have "CompileCombinePullPlan l config = (if ConfigValid config then fail INVALID_JOURNAL else fail INVALID_ARGUMENT)"
    by (simp add: CompileCombinePullPlan_def)
  then show ?thesis using l(1) by (simp add: Initialize_def deref_def)
qed

text \<open>
  C16 An accepted READY stays inside its slot. When \<open>ValidateCombineReady\<close> accepts a record,
  its payload is exactly rows times hidden times element size, computed without wrap-around, it lies
  inside the ring slot of the wave in the worker's registered region, at an aligned offset, and the
  slot lies inside the region. Ranges of different ring slots of a region never overlap.
\<close>

theorem ValidateCombineReady_in_slot:
  assumes "ValidateCombineReady ready reg config plan = Inr ()"
    and "slot = unat (crd_ring_slot ready)" and "stride = unat (crg_slot_stride reg)"
    and "offset = unat (crd_source_offset ready)" and "bytes = unat (crd_payload_bytes ready)"
  shows "bytes = unat (crd_row_count ready) * (unat (cfg_hidden config) * unat (PartialBytes (cfg_partial_dtype config))) \<and>
    slot * stride \<le> offset \<and> offset + bytes \<le> Suc slot * stride \<and>
    Suc slot * stride \<le> unat (crg_region_bytes reg) \<and> offset mod unat (crg_alignment reg) = 0"
proof -
  have reg: "ValidateCombineRegistration reg config = OK"
    and rd: "ready_descriptor_ok ready reg config plan"
    using assms(1) by (auto simp: ValidateCombineReady_def split: if_splits)
  obtain e sb se pe where rng: "ready_range ready reg config = Some (e, sb, se, pe)"
    and ok: "crd_payload_bytes ready = e" "crd_source_offset ready mod ucast (crg_alignment reg) = 0"
      "sb \<le> crd_source_offset ready" "pe \<le> se"
    using assms(1) by (auto simp: ValidateCombineReady_def vec_eqs split: if_splits option.splits)
  then obtain rb where
      m: "Mul (ucast (cfg_hidden config)) (ucast (PartialBytes (cfg_partial_dtype config))) = Some rb"
      "Mul (ucast (crd_row_count ready)) rb = Some e" "Mul (ucast (crd_ring_slot ready)) (crg_slot_stride reg) = Some sb"
      "Add sb (crg_slot_stride reg) = Some se" "Add (crd_source_offset ready) (crd_payload_bytes ready) = Some pe"
    by (auto simp: ready_range_def Option.bind_eq_Some_conv)
  obtain req where req: "Mul (ucast (crg_slot_count reg)) (crg_slot_stride reg) = Some req" "req \<le> crg_region_bytes reg"
    using reg by (auto simp: ValidateCombineRegistration_def not_less split: if_splits option.splits)
  have slots: "slot < unat (crg_slot_count reg)"
  proof -
    have "(ucast (crd_ring_slot ready) :: u32) < crg_slot_count reg" using rd by (simp add: ready_descriptor_ok_def)
    then show ?thesis using assms(2) by (simp add: word_less_nat_alt unat_ucast_u16_u32)
  qed
  have rb: "unat rb = unat (cfg_hidden config) * unat (PartialBytes (cfg_partial_dtype config))"
    using Mul_unat [OF m(1)] by (simp add: unat_ucast_u64)
  have "unat e = unat (crd_row_count ready) * unat rb" using Mul_unat [OF m(2)] by (simp add: unat_ucast_u64)
  moreover have sb: "unat sb = slot * stride" using Mul_unat [OF m(3)] assms(2,3) by (simp add: unat_ucast_ring)
  moreover have "unat se = Suc slot * stride" using Add_unat [OF m(4)] sb assms(3) by simp
  moreover have "unat pe = offset + bytes" using Add_unat [OF m(5)] assms(4,5) by simp
  moreover have "Suc slot * stride \<le> unat (crg_region_bytes reg)"
  proof -
    have "Suc slot * stride \<le> unat (crg_slot_count reg) * stride" using slots by (intro mult_right_mono) simp_all
    also have "\<dots> = unat req" using Mul_unat [OF req(1)] assms(3) by (simp add: unat_ucast_u64)
    finally show ?thesis using req(2) by (simp add: word_le_nat_alt)
  qed
  moreover have "offset mod unat (crg_alignment reg) = 0"
    using arg_cong [OF ok(2), of unat] assms(4) by (simp add: unat_mod unat_ucast_u64)
  ultimately show ?thesis using ok rb assms(4,5) by (simp add: word_le_nat_alt)
qed

section \<open>A wave over the example layout\<close>

definition ex_region :: "u32 \<Rightarrow> CombineRegionRegistration" where
  "ex_region r = \<lparr> crg_session_id = 7, crg_placement_epoch = 1, crg_source_rank = r, crg_region_id = 5,
     crg_slot_count = 2, crg_alignment = 64, crg_region_bytes = 256, crg_slot_stride = 128, crg_reserved = (0, 0) \<rparr>"

definition ex_ready :: "CombinePullPlan \<Rightarrow> u32 \<Rightarrow> u32 \<Rightarrow> CombineReadyV2" where
  "ex_ready plan r rows =
     (let q = \<lparr> crd_magic = kPullCombineV2Magic, crd_abi_version = 1, crd_struct_bytes = 128, crd_session_id = 7,
         crd_placement_epoch = 1, crd_generation = pl_generation plan, crd_sequence = pl_sequence plan,
         crd_dispatch_cookie = pl_dispatch_cookie plan, crd_wave = pl_wave plan, crd_source_rank = r,
         crd_source_region_id = 5, crd_ring_slot = pl_ring_slot plan, crd_flags = 1, crd_row_count = rows,
         crd_hidden = 1, crd_partial_dtype = FP32, crd_source_offset = ucast (pl_ring_slot plan) * 128,
         crd_payload_bytes = ucast rows * 4, crd_publication = 0, crd_reserved = (0, 0, 0) \<rparr>
      in q\<lparr>crd_publication := CombineReadyPublication q\<rparr>)"

lemma ex_ready_valid:
  assumes "pl_worker_count plan = 2" and "pl_source_row_counts plan = [1, 3]" and "pl_ring_slot plan = 1"
    and "(r, rows) \<in> {(0, 1), (1, 3)}"
  shows "ValidateCombineReady (ex_ready plan r rows) (ex_region r) ex_config plan = Inr ()"
proof -
  have pub: "CombineReadyPublication (q\<lparr>crd_publication := x\<rparr>) = CombineReadyPublication q" for q :: CombineReadyV2 and x
    by (simp add: CombineReadyPublication_def)
  have "ready_descriptor_ok (ex_ready plan r rows) (ex_region r) ex_config plan"
    unfolding ex_ready_def Let_def ready_descriptor_ok_def pub using assms
    by (auto simp: ex_region_def ex_config_def abi_consts ReservedZero_def)
  moreover have "ValidateCombineRegistration (ex_region 0) ex_config = OK" "ValidateCombineRegistration (ex_region 1) ex_config = OK"
    by code_simp+
  moreover have "PartialBytes (cfg_partial_dtype ex_config) = 4" by code_simp
  then have "ready_range (ex_ready plan r rows) (ex_region r) ex_config = Some (ucast rows * 4, 128, 256, 128 + ucast rows * 4)"
    using assms(3,4) by (auto simp: ready_range_def ex_ready_def Let_def ex_region_def Add_def Mul_def) (simp_all add: ex_config_def)
  ultimately show ?thesis
    using assms unfolding ValidateCombineReady_def
    by (auto simp: ex_ready_def Let_def ex_region_def)
qed

lemma ex_wave:
  fixes co :: CombineV2Coordinator
  assumes "fresh co"
  obtains l h1 co1 where "CompileLayout ex_sources [1, 0] ex_layout = Inr l"
    and "Initialize (Some 0) ex_config [ex_region 1, ex_region 0] ([0 \<mapsto> l], co) = Inr (OK, h1, co1)"
    and "ValidateCombineReady (ex_ready (co_plan co1) 1 3) (co_registrations co1 ! 1) ex_config (co_plan co1) = Inr ()"
    and "ValidateCombineReady (ex_ready (co_plan co1) 0 1) (co_registrations co1 ! 0) ex_config (co_plan co1) = Inr ()"
    and "co_registrations co1 = [ex_region 0, ex_region 1]" and "co_config co1 = ex_config"
    and "co_dispatch co1 = Some 0" and "crd_ring_slot (ex_ready (co_plan co1) 0 1) = 1"
proof -
  have "case CompileLayout ex_sources [1, 0] ex_layout of Inl _ \<Rightarrow> False
    | Inr l \<Rightarrow> (case CompileCombinePullPlan l ex_config of Inl _ \<Rightarrow> False
      | Inr plan \<Rightarrow> pl_worker_count plan = 2 \<and> pl_source_row_counts plan = [1, 3] \<and> pl_ring_slot plan = 1)"
    by code_simp
  then obtain l plan where l: "CompileLayout ex_sources [1, 0] ex_layout = Inr l"
    and plan: "CompileCombinePullPlan l ex_config = Inr plan"
    and pl: "pl_worker_count plan = 2" "pl_source_row_counts plan = [1, 3]" "pl_ring_slot plan = 1"
    by (auto split: sum.splits)
  have v: "ValidateCombineReady (ex_ready plan 1 3) (ex_region 1) ex_config plan = Inr ()"
      "ValidateCombineReady (ex_ready plan 0 1) (ex_region 0) ex_config plan = Inr ()"
      "crd_ring_slot (ex_ready plan 0 1) = 1"
    by (simp_all add: ex_ready_valid [OF pl]) (simp add: ex_ready_def Let_def pl)
  have c: "ConfigValid ex_config" "unat (cfg_worker_count ex_config) = 2" by code_simp+
  have r: "mfold (register ex_config) [ex_region 1, ex_region 0]
      (replicate 2 CombineRegionRegistration_init, replicate 2 False) = Inr ([ex_region 0, ex_region 1], [True, True])"
    by code_simp
  note pf = plan_facts [OF plan]
  have e: "enter_state [0 \<mapsto> l] 0 COMBINE_ACTIVE = Inr [0 \<mapsto> set_state l COMBINE_ACTIVE]"
    by (simp add: enter_state_eq [of _ _ l] pf(1,2))
  show thesis
    by (rule that [OF l, of "[0 \<mapsto> set_state l COMBINE_ACTIVE]" "\<lparr> co_dispatch = Some 0, co_config = ex_config,
      co_plan = plan, co_registrations = [ex_region 0, ex_region 1], co_ready_seen = replicate 2 False,
      co_ready_count = 0 \<rparr>"])
      (use assms v c r e plan in \<open>simp_all add: Initialize_def fresh_def deref_def\<close>)
qed

definition ex_coordinator :: CombineV2Coordinator where
  "ex_coordinator = \<lparr> co_dispatch = None, co_config = ex_config,
     co_plan = \<lparr> pl_generation = 0, pl_sequence = 0, pl_dispatch_cookie = 0, pl_wave = 0, pl_ring_slot = 0,
       pl_reserved0 = 0, pl_worker_count = 0, pl_hidden = 0, pl_partial_dtype = 0, pl_accumulator_count = 0,
       pl_source_offsets = [], pl_source_row_counts = [], pl_pulls = [], pl_owner_offsets = [],
       pl_results = [], pl_pull_next = [], pl_accumulator_heads = [],
       pl_accumulator_contributor_counts = [], pl_accumulator_result_index = [] \<rparr>,
     co_registrations = [], co_ready_seen = [], co_ready_count = 0 \<rparr>"

lemma ex_fresh: "fresh ex_coordinator" by (simp add: fresh_def ex_coordinator_def)

lemma ex_ranks: "ready_rank (ex_ready plan r rows) = unat r"
  by (simp add: ex_ready_def Let_def)

theorem Coordinator_any_order_completes_witness:
  "\<exists>l h1 co1 s2 s3. Initialize (Some 0) ex_config [ex_region 1, ex_region 0] ([0 \<mapsto> l], ex_coordinator) =
       Inr (OK, h1, co1) \<and>
     wave_run (h1, co1) [(Call_NotifyReady (ex_ready (co_plan co1) 1 3), OK),
       (Call_NotifyReady (ex_ready (co_plan co1) 0 1), OK)] s2 \<and>
     Finish s2 = Inr (OK, s3) \<and> state s3 = Inr (Some COMPLETE)"
proof -
  obtain l h1 co1 where w: "Initialize (Some 0) ex_config [ex_region 1, ex_region 0] ([0 \<mapsto> l], ex_coordinator) = Inr (OK, h1, co1)"
    "ValidateCombineReady (ex_ready (co_plan co1) 1 3) (co_registrations co1 ! 1) ex_config (co_plan co1) = Inr ()"
    "ValidateCombineReady (ex_ready (co_plan co1) 0 1) (co_registrations co1 ! 0) ex_config (co_plan co1) = Inr ()"
    by (rule ex_wave [OF ex_fresh])
  let ?rs = "[ex_ready (co_plan co1) 1 3, ex_ready (co_plan co1) 0 1]"
  have "mset (map ready_rank ?rs) = mset [0..<unat (cfg_worker_count ex_config)]"
    by (simp add: ex_ranks ex_config_def upt_rec)
  then have "\<exists>s2 s3. wave_run (h1, co1) (map (\<lambda>q. (Call_NotifyReady q, OK)) ?rs) s2 \<and>
      Finish s2 = Inr (OK, s3) \<and> state s3 = Inr (Some COMPLETE)"
    by (rule Coordinator_any_order_completes [OF w(1) refl]) (use w(2,3) in \<open>simp add: ex_ranks\<close>)
  then show ?thesis unfolding list.map using w(1) by blast
qed

text \<open>The calls of the example wave, one by one.\<close>

lemma ex_run:
  obtains l h1 h2 and co1 co2 :: CombineV2Coordinator where "wave_run ([0 \<mapsto> l], ex_coordinator)
      [(Call_Initialize (Some 0) ex_config [ex_region 1, ex_region 0], OK),
       (Call_NotifyReady (ex_ready (co_plan co1) 1 3), OK), (Call_NotifyReady (ex_ready (co_plan co1) 0 1), OK)] (h1, co2)"
    and "Finish (h1, co2) = Inr (OK, h2, co2)" and "co_config co2 = ex_config" and "co_dispatch co2 = Some 0"
proof -
  obtain l h1 co1 where w: "Initialize (Some 0) ex_config [ex_region 1, ex_region 0] ([0 \<mapsto> l], ex_coordinator) = Inr (OK, h1, co1)"
    "ValidateCombineReady (ex_ready (co_plan co1) 1 3) (co_registrations co1 ! 1) ex_config (co_plan co1) = Inr ()"
    "ValidateCombineReady (ex_ready (co_plan co1) 0 1) (co_registrations co1 ! 0) ex_config (co_plan co1) = Inr ()"
    "co_config co1 = ex_config" "co_dispatch co1 = Some 0"
    by (rule ex_wave [OF ex_fresh])
  let ?q1 = "ex_ready (co_plan co1) 1 3" and ?q0 = "ex_ready (co_plan co1) 0 1"
  have W: "unat (cfg_worker_count ex_config) = 2" by (simp add: ex_config_def)
  have ptr: "\<forall>p. Some (0 :: nat) = Some p \<longrightarrow> [0 \<mapsto> l] p \<noteq> None" by simp
  have "wave_inv ([0 \<mapsto> l], ex_coordinator) []" by (simp add: wave_inv_def ex_coordinator_def)
  from Initialize_step [OF this ptr, of ex_config "[ex_region 1, ex_region 0]"] w(1)
  have inv: "wave_inv (h1, co1) []" and st: "state (h1, co1) = Inr (Some COMBINE_ACTIVE)"
    unfolding w(1) by (elim disjE exE conjE; simp)+
  have r1: "ready_rank ?q1 < unat (cfg_worker_count (co_config co1))" by (simp add: w(4) W ex_ranks)
  from NotifyReady_step(2) [OF inv w(5) st r1] w(2,4) obtain co' where n1: "NotifyReady ?q1 (h1, co1) = Inr (OK, h1, co')"
    and inv': "wave_inv (h1, co') [?q1]" and same: "co_dispatch co' = Some 0" "co_config co' = ex_config"
      "co_registrations co' = co_registrations co1" "co_plan co' = co_plan co1"
    by (auto simp: ex_ranks w(5))
  have st': "state (h1, co') = Inr (Some COMBINE_ACTIVE)" using st same(1) w(5) by (simp add: state_def)
  have r0: "ready_rank ?q0 < unat (cfg_worker_count (co_config co'))" by (simp add: same(2) W ex_ranks)
  from NotifyReady_step(2) [OF inv' same(1) st' r0] w(3) obtain co2 where n2: "NotifyReady ?q0 (h1, co') = Inr (OK, h1, co2)"
    and inv2: "wave_inv (h1, co2) [?q1, ?q0]" and same2: "co_dispatch co2 = Some 0" "co_config co2 = ex_config"
    by (auto simp: ex_ranks same)
  have st2: "state (h1, co2) = Inr (Some COMBINE_ACTIVE)" using st' same(1) same2(1) by (simp add: state_def)
  obtain h2 where fin: "Finish (h1, co2) = Inr (OK, h2, co2)"
    using Finish_step(2) [OF inv2 same2(1) st2] by (auto simp: same2(2) W)
  have "wave_run ([0 \<mapsto> l], ex_coordinator) ([] @ [(Call_Initialize (Some 0) ex_config [ex_region 1, ex_region 0], OK)]) (h1, co1)"
    by (rule wave_run.returned [OF wave_run.start]) (simp add: w(1))
  then have "wave_run ([0 \<mapsto> l], ex_coordinator) (([] @ [(Call_Initialize (Some 0) ex_config [ex_region 1, ex_region 0], OK)]) @
      [(Call_NotifyReady ?q1, OK)]) (h1, co')"
    by (rule wave_run.returned) (simp add: n1)
  then have "wave_run ([0 \<mapsto> l], ex_coordinator) ((([] @ [(Call_Initialize (Some 0) ex_config [ex_region 1, ex_region 0], OK)]) @
      [(Call_NotifyReady ?q1, OK)]) @ [(Call_NotifyReady ?q0, OK)]) (h1, co2)"
    by (rule wave_run.returned) (simp add: n2)
  then show thesis unfolding append.simps by (rule that [OF _ fin same2(2,1)])
qed

theorem Coordinator_Finish_every_worker_witness:
  "\<exists>l plan h1 co2 s'. wave_run ([0 \<mapsto> l], ex_coordinator)
      [(Call_Initialize (Some 0) ex_config [ex_region 1, ex_region 0], OK),
       (Call_NotifyReady (ex_ready plan 1 3), OK), (Call_NotifyReady (ex_ready plan 0 1), OK)] (h1, co2) \<and>
     Finish (h1, co2) = Inr (OK, s') \<and> state s' = Inr (Some COMPLETE) \<and>
     mset (map ready_rank [ex_ready plan 1 3, ex_ready plan 0 1]) = mset [0..<2]"
proof -
  obtain l h1 h2 and co1 co2 :: CombineV2Coordinator where r: "wave_run ([0 \<mapsto> l], ex_coordinator)
      [(Call_Initialize (Some 0) ex_config [ex_region 1, ex_region 0], OK),
       (Call_NotifyReady (ex_ready (co_plan co1) 1 3), OK), (Call_NotifyReady (ex_ready (co_plan co1) 0 1), OK)] (h1, co2)"
    "Finish (h1, co2) = Inr (OK, h2, co2)" "co_config co2 = ex_config" by (rule ex_run)
  have W: "2 = unat (cfg_worker_count (co_config (snd (h1, co2))))" by (simp add: r(3) ex_config_def)
  have f: "mset (map ready_rank [ex_ready (co_plan co1) 1 3, ex_ready (co_plan co1) 0 1]) = mset [0..<2]"
    "state (h2, co2) = Inr (Some COMPLETE)"
    using Coordinator_Finish_every_worker [OF r(1) ex_fresh _ r(2) W] by (simp_all add: pointers_ok_def)
  show ?thesis using r(1,2) f by blast
qed

theorem Coordinator_Initialize_once_witness:
  "\<exists>l h1 co2 tr e. wave_run ([0 \<mapsto> l], ex_coordinator) tr (h1, co2) \<and>
     Initialize (Some 0) ex_config [ex_region 1, ex_region 0] (h1, ex_coordinator) = fail e"
proof -
  obtain l h1 h2 and co1 co2 :: CombineV2Coordinator where r: "wave_run ([0 \<mapsto> l], ex_coordinator)
      [(Call_Initialize (Some 0) ex_config [ex_region 1, ex_region 0], OK),
       (Call_NotifyReady (ex_ready (co_plan co1) 1 3), OK), (Call_NotifyReady (ex_ready (co_plan co1) 0 1), OK)] (h1, co2)"
    "co_dispatch co2 = Some 0" by (rule ex_run)
  have "\<exists>e. Initialize (Some 0) ex_config [ex_region 1, ex_region 0] (h1, ex_coordinator) = fail e"
    by (rule Coordinator_Initialize_once [OF r(1) ex_fresh _ r(2)]) (simp add: pointers_ok_def)
  then show ?thesis using r(1) by blast
qed

theorem Coordinator_in_bounds_witness:
  "\<exists>l h1 co2 tr st s'. wave_run ([0 \<mapsto> l], ex_coordinator) tr (h1, co2) \<and>
     (execute Call_Abort (h1, co2) = fail st \<or> execute Call_Abort (h1, co2) = Inr (st, s'))"
proof -
  obtain l h1 h2 and co1 co2 :: CombineV2Coordinator where r: "wave_run ([0 \<mapsto> l], ex_coordinator)
      [(Call_Initialize (Some 0) ex_config [ex_region 1, ex_region 0], OK),
       (Call_NotifyReady (ex_ready (co_plan co1) 1 3), OK), (Call_NotifyReady (ex_ready (co_plan co1) 0 1), OK)] (h1, co2)"
    by (rule ex_run)
  have "\<exists>st s'. execute Call_Abort (h1, co2) = fail st \<or> execute Call_Abort (h1, co2) = Inr (st, s')"
    by (rule Coordinator_in_bounds [OF r ex_fresh]) (simp_all add: pointers_ok_def)
  then show ?thesis using r by blast
qed

theorem ValidateCombineReady_in_slot_witness:
  "\<exists>plan. ValidateCombineReady (ex_ready plan 0 1) (ex_region 0) ex_config plan = Inr () \<and>
     crd_ring_slot (ex_ready plan 0 1) = 1 \<and> 128 \<le> unat (crd_source_offset (ex_ready plan 0 1))"
proof -
  obtain co1 :: CombineV2Coordinator where w:
    "ValidateCombineReady (ex_ready (co_plan co1) 0 1) (co_registrations co1 ! 0) ex_config (co_plan co1) = Inr ()"
    "co_registrations co1 = [ex_region 0, ex_region 1]" "crd_ring_slot (ex_ready (co_plan co1) 0 1) = 1"
    by (rule ex_wave [OF ex_fresh])
  have v: "ValidateCombineReady (ex_ready (co_plan co1) 0 1) (ex_region 0) ex_config (co_plan co1) = Inr ()"
    using w(1,2) by simp
  have "128 \<le> unat (crd_source_offset (ex_ready (co_plan co1) 0 1))"
    using ValidateCombineReady_in_slot [OF v refl refl refl refl] w(3) by (simp add: ex_region_def)
  then show ?thesis using v w(3) by blast
qed

end
