(* ===== verification/Combine_Wave.thy ===== *)
theory Combine_Wave
  imports Combine_Poll Combine_Coordinator
begin

text \<open>
  The combine kernel as a whole (\<open>inc_dc_pull_combine_v2_device_kernel.cpp\<close>): what a wave whose checks and
  polling succeeded reads, adds and writes, how its plan comes from the host library, and what the workers
  learn in the end.
\<close>

text \<open>The phases before the reduction, on all blocks; \<open>passes block\<close> is what the polling of a block sees.\<close>

definition wave_ready ::
  "combine_launch \<Rightarrow> u32 \<Rightarrow> combine_tables \<Rightarrow> CombineRegionRegistration list \<Rightarrow> JournalSlotHeader \<Rightarrow> u64 list \<Rightarrow>
     bool \<times> u64 \<times> u64 \<times> u64 \<Rightarrow> (nat \<Rightarrow> (poll_memory \<times> u32) list) \<Rightarrow> bool" where
  "wave_ready la blocks T registrations h offs numbers passes \<longleftrightarrow>
     init_block blocks la T registrations h = Inr numbers \<and> validate_plan blocks la T = Inr () \<and>
     (\<forall>block < unat blocks.
        case poll_block la registrations (ct_source_offsets T) (unat blocks) block (passes block) of
          Inl _ \<Rightarrow> False
        | Inr ps \<Rightarrow> (\<forall>s \<in> set (strided block (unat blocks) (unat (la_worker_count la))).
            s < length offs \<and> offs ! s = ps_offsets ps s))"

section \<open>A small wave\<close>

text \<open>Two workers, one token of the first with a contributor on each, one element, the second slot of the ring.\<close>

definition ex_launch :: combine_launch where
  "ex_launch = \<lparr> la_session_id = 7, la_placement_epoch = 1, la_generation = 3, la_sequence = 4, la_dispatch_cookie = 9,
     la_owner_output_slot_stride = 64, la_pull_count = 2, la_result_count = 1, la_pull_index_capacity = 2,
     la_accumulator_index_capacity = 1, la_source_scratch_capacity = 2, la_accumulator_count = 1, la_worker_count = 2,
     la_hidden = 1, la_partial_dtype = FP32, la_inc_pe = 2, la_wave = 0, la_ring_slot = 1, la_slot_count = 2,
     la_spin_cap = 5 \<rparr>"

definition ex_tables :: combine_tables where
  "ex_tables = \<lparr> ct_source_offsets = [0, 1, 2],
     ct_pulls = [\<lparr> po_source_rank = 0, po_source_row = 0, po_journal_token = 0, po_accumulator_index = 0 \<rparr>,
                 \<lparr> po_source_rank = 1, po_source_row = 0, po_journal_token = 0, po_accumulator_index = 0 \<rparr>],
     ct_owner_offsets = [0, 1, 1],
     ct_results = [\<lparr> ro_owner_rank = 0, ro_owner_row = 0, ro_journal_token = 0, ro_accumulator_index = 0,
       ro_expected_contributors = 2, ro_reserved = (0, 0, 0) \<rparr>],
     ct_pull_next = [1, kInvalidIndex], ct_heads = [0], ct_counts = [2], ct_result_index = [0] \<rparr>"

definition ex_header :: JournalSlotHeader where
  "ex_header = \<lparr> jh_magic = kPullDispatchMagic, jh_abi_version = kPullDispatchAbiVersion, jh_struct_bytes = 64,
     jh_generation = 3, jh_sequence = 4, jh_dispatch_cookie = 9, jh_wave = 0, jh_ring_slot = 1, jh_state = 2,
     jh_token_count = 1, jh_contributor_count = 2, jh_status = 0, jh_flags = 0, jh_reserved = 0 \<rparr>"

definition ex_device_ready :: "u32 \<Rightarrow> CombineReadyV2" where
  "ex_device_ready r =
     (let q = \<lparr> crd_magic = kPullCombineV2Magic, crd_abi_version = 1, crd_struct_bytes = 128, crd_session_id = 7,
         crd_placement_epoch = 1, crd_generation = 3, crd_sequence = 4, crd_dispatch_cookie = 9, crd_wave = 0,
         crd_source_rank = r, crd_source_region_id = 5, crd_ring_slot = 1, crd_flags = 1, crd_row_count = 1,
         crd_hidden = 1, crd_partial_dtype = FP32, crd_source_offset = 128, crd_payload_bytes = 4, crd_publication = 0,
         crd_reserved = (0, 0, 0) \<rparr>
      in q\<lparr>crd_publication := ReadyPublication q\<rparr>)"

definition ex_notice :: "u32 \<Rightarrow> CombineReadyNoticeV2" where
  "ex_notice r =
     (let q = \<lparr> crn_magic = kPullCombineV2Magic, crn_abi_version = kPullCombineV2AbiVersion, crn_struct_bytes = 64,
         crn_session_id = 7, crn_placement_epoch = 1, crn_generation = 3, crn_sequence = 4, crn_wave = 0,
         crn_source_rank = r, crn_ring_slot = 1, crn_flags = 0, crn_reserved0 = 0, crn_publication = 0 \<rparr>
      in q\<lparr>crn_publication := ReadyNoticePublication q\<rparr>)"

text \<open>The first pass finds nothing, the second the records of both workers.\<close>

definition ex_polls :: "(poll_memory \<times> u32) list" where
  "ex_polls = (let none = ex_notice 0\<lparr>crn_publication := 0\<rparr>; ready = map ex_device_ready [0, 1, 0, 1]
     in [((replicate 4 none, ready), kStatusOk), (([none, none, ex_notice 0, ex_notice 1], ready), kStatusOk)])"

lemma ex_polled: "s < 2 \<Longrightarrow> poll_source ex_launch [ex_region 0, ex_region 1] [0, 1, 2]
    ([none, none, ex_notice 0, ex_notice 1], map ex_device_ready [0, 1, 0, 1]) s = Inr (Some 128)"
proof -
  assume s: "s < 2"
  have nz: "ReadyNoticePublication q \<noteq> 0" "ReadyPublication r \<noteq> 0" for q r
    by (simp_all add: ReadyNoticePublication_def ReadyPublication_def Let_def split: prod.splits)
  have np: "ReadyNoticePublication (q\<lparr>crn_publication := x\<rparr>) = ReadyNoticePublication q"
    "ReadyPublication (r\<lparr>crd_publication := y\<rparr>) = ReadyPublication r" for q r x y
    by (simp_all add: ReadyNoticePublication_def ReadyPublication_def)
  have n: "ReadyNoticeValid (ex_notice 0) 0 ex_launch" "ReadyNoticeValid (ex_notice 1) 1 ex_launch"
    unfolding ReadyNoticeValid_def ex_notice_def Let_def np by (simp_all add: ex_launch_def nz)
  have f: "ready_fields_valid (ex_device_ready 0) (ex_region 0) 0 ex_launch"
    "ready_fields_valid (ex_device_ready 1) (ex_region 1) 1 ex_launch"
    unfolding ready_fields_valid_def ex_device_ready_def Let_def np
    by (simp_all add: ex_launch_def ex_region_def nz abi_consts)
  have ext: "ready_extent (ex_device_ready r) (ex_region r) 1 ex_launch = Some (4, 128, 256, 132)" for r
    by (simp add: ready_extent_def CheckedMulU64ByU32_Mul AddU64_Add ex_launch_def ex_region_def ex_device_ready_def Let_def
        Mul_def Add_def)
  have dev: "crd_dispatch_cookie (ex_device_ready r) = 9" "crd_generation (ex_device_ready r) = 3"
    "crd_sequence (ex_device_ready r) = 4" "crd_wave (ex_device_ready r) = 0" "crd_ring_slot (ex_device_ready r) = 1"
    "crd_row_count (ex_device_ready r) = 1" "crd_payload_bytes (ex_device_ready r) = 4"
    "crd_source_offset (ex_device_ready r) = 128" for r
    by (simp_all add: ex_device_ready_def Let_def)
  have la: "la_dispatch_cookie ex_launch = 9" "la_generation ex_launch = 3" "la_sequence ex_launch = 4" "la_wave ex_launch = 0"
    "la_ring_slot ex_launch = 1" by (simp_all add: ex_launch_def)
  have reg: "crg_alignment (ex_region r) = 64" "crg_region_bytes (ex_region r) = 256" for r by (simp_all add: ex_region_def)
  have v: "ValidateReady (ex_device_ready 0) (ex_region 0) [0, 1, 2] 0 ex_launch = Inr ()"
    "ValidateReady (ex_device_ready 1) (ex_region 1) [0, 1, 2] 1 ex_launch = Inr ()"
    using ext [of 0] ext [of 1] by (simp_all add: ValidateReady_def f dev la reg)
  have idx: "record_index ex_launch 0 = 2" "record_index ex_launch 1 = 3" by (simp_all add: record_index_def ex_launch_def)
  have nt: "crn_publication (ex_notice r) \<noteq> 0" "crn_generation (ex_notice r) = 3" "crn_sequence (ex_notice r) = 4"
    "crn_wave (ex_notice r) = 0" "crn_ring_slot (ex_notice r) = 1" for r
    by (simp_all add: ex_notice_def Let_def nz)
  show ?thesis
  proof (cases "s = 0")
    case True
    then show ?thesis by (simp add: poll_source_def idx nt la n v dev)
  next
    case False
    then have "s = 1" using s by simp
    then show ?thesis using idx(2) n(2) v(2) by (simp add: poll_source_def nt la dev)
  qed
qed

lemma all_less_two: "(\<forall>b < 2 :: nat. P b) \<longleftrightarrow> P 0 \<and> P 1"
  by (auto simp: less_Suc_eq numeral_2_eq_2)

lemma ex_poll_block:
  assumes "b < 2"
  shows "\<exists>ps. poll_block ex_launch [ex_region 0, ex_region 1] [0, 1, 2] 2 b ex_polls = Inr ps \<and>
    strided b 2 2 = [b] \<and> ps_offsets ps b = 128"
proof -
  define m1 m2 where "m1 = (replicate 4 (ex_notice 0\<lparr>crn_publication := 0\<rparr>), map ex_device_ready [0, 1, 0, 1])"
    and "m2 = ([ex_notice 0\<lparr>crn_publication := 0\<rparr>, ex_notice 0\<lparr>crn_publication := 0\<rparr>, ex_notice 0, ex_notice 1],
      map ex_device_ready [0, 1, 0, 1])"
  have polls: "ex_polls = [(m1, kStatusOk), (m2, kStatusOk)]" by (simp add: ex_polls_def m1_def m2_def Let_def)
  have st: "strided b 2 2 = [b]" using assms by (subst strided.simps, subst strided.simps) simp
  have W: "unat (la_worker_count ex_launch) = 2" by (simp add: ex_launch_def)
  have idx: "record_index ex_launch b < 4" using assms by (simp add: record_index_def ex_launch_def)
  then have "poll_source ex_launch [ex_region 0, ex_region 1] [0, 1, 2] m1 b = Inr None"
    by (simp add: poll_source_def m1_def nth_replicate)
  moreover have "poll_source ex_launch [ex_region 0, ex_region 1] [0, 1, 2] m2 b = Inr (Some 128)"
    using ex_polled [OF assms] by (simp add: m2_def)
  ultimately show ?thesis by (simp add: poll_block_def W st polls Let_def poll_step_def)
qed

lemma ex_wave_ready:
  "wave_ready ex_launch 2 ex_tables [ex_region 0, ex_region 1] ex_header [128, 128] (True, 4, 64, 1) (\<lambda>_. ex_polls)"
proof -
  have "init_block 2 ex_launch ex_tables [ex_region 0, ex_region 1] ex_header = Inr (True, 4, 64, 1)" by code_simp
  moreover have "validate_plan 2 ex_launch ex_tables = Inr ()" by code_simp
  moreover have "unat (la_worker_count ex_launch) = 2" "ct_source_offsets ex_tables = [0, 1, 2]"
    by (simp_all add: ex_launch_def ex_tables_def)
  moreover have "[128, 128 :: u64] ! b = 128" if "b < 2" for b
    using that by (auto simp: less_Suc_eq numeral_2_eq_2)
  ultimately show ?thesis using ex_poll_block by (fastforce simp: wave_ready_def)
qed

section \<open>What a ready wave is\<close>

lemma accepted_ready_mono:
  "accepted_ready la registrations source_offsets passes s off \<Longrightarrow> set passes \<subseteq> set all \<Longrightarrow>
    accepted_ready la registrations source_offsets all s off"
  unfolding accepted_ready_def by blast

lemma wave_ready_polled:
  assumes ready: "wave_ready la blocks T registrations h offs (two, row_bytes, out, tasks) passes"
  shows "polled_wave la blocks T registrations offs row_bytes out tasks (concat (map passes [0..<unat blocks]))"
    and "launch_valid blocks la = Some (row_bytes, out, tasks)"
    and "two \<Longrightarrow> \<forall>a < unat (la_accumulator_count la). ct_counts T ! a = 2"
proof -
  have init: "init_block blocks la T registrations h = Inr (two, row_bytes, out, tasks)"
    and val: "validate_plan blocks la T = Inr ()"
    using ready by (simp_all add: wave_ready_def)
  show lv: "launch_valid blocks la = Some (row_bytes, out, tasks)"
  proof (cases "launch_valid blocks la")
    case (Some x)
    then obtain rb o' t where x: "launch_valid blocks la = Some (rb, o', t)" by (cases x) auto
    show ?thesis using init init_block_iff [OF x refl refl, of T registrations h two row_bytes out tasks] x by simp
  qed (use init in \<open>simp add: init_block_def\<close>)
  have tab: "launch_tables la row_bytes T registrations h" by (rule kernel_accepted [OF lv init val])
  show "two \<Longrightarrow> \<forall>a < unat (la_accumulator_count la). ct_counts T ! a = 2"
    using init [unfolded init_block_iff [OF lv refl refl]] by auto
  note n = launch_numbers [OF lv]
  have "s < length offs \<and> accepted_ready la registrations (ct_source_offsets T) (concat (map passes [0..<unat blocks])) s (offs ! s)"
    if s: "s < unat (la_worker_count la)" for s
  proof -
    let ?b = "s mod unat blocks"
    have b: "?b < unat blocks" using n(1) by simp
    have mem: "s \<in> set (strided ?b (unat blocks) (unat (la_worker_count la)))"
      using s n(1) by (simp add: set_strided)
    obtain ps where ps: "poll_block la registrations (ct_source_offsets T) (unat blocks) ?b (passes ?b) = Inr ps"
      "s < length offs" "offs ! s = ps_offsets ps s"
      using ready b mem unfolding wave_ready_def by (fastforce split: sum.splits)
    have "accepted_ready la registrations (ct_source_offsets T) (passes ?b) s (offs ! s)"
      unfolding ps(3) by (rule poll_block_accepts [OF ps(1) n(1) mem])
    then have "accepted_ready la registrations (ct_source_offsets T) (concat (map passes [0..<unat blocks])) s (offs ! s)"
      by (rule accepted_ready_mono) (use b in auto)
    then show ?thesis using ps(2) by simp
  qed
  then show "polled_wave la blocks T registrations offs row_bytes out tasks (concat (map passes [0..<unat blocks]))"
    using tab lv by (simp add: polled_wave_def launch_tables_def)
qed

lemma wave_ready_accepted:
  "wave_ready la blocks T registrations h offs (two, row_bytes, out, tasks) passes \<Longrightarrow>
    accepted_wave la blocks T offs row_bytes out tasks"
  by (rule polled_accepted [OF wave_ready_polled(1)])

section \<open>Properties\<close>

text \<open>
  C19 Device and host agree on READY records. For a plan of the host compiler, a launch of its wave and
  a registration the kernel accepts for a source, the kernel accepts a READY record of that source (with its own
  multiplication by halves, its own shifted hash and its own order of products) exactly when the host library
  does.
\<close>

theorem device_ready_as_host:
  assumes "CompileCombinePullPlan d config = Inr plan" "launch_of la config plan" "RegistrationValid r source la"
  shows "ValidateReady ready r (pl_source_offsets plan) source la = Inr () \<longleftrightarrow>
    crd_source_rank ready = source \<and> ValidateCombineReady ready r config plan = Inr ()"
  by (rule ValidateReady_host [OF assms])

text \<open>The launch of a plan over the example session.\<close>

definition ex_plan_launch :: "CombinePullPlan \<Rightarrow> combine_launch" where
  "ex_plan_launch plan = ex_launch\<lparr>la_generation := pl_generation plan, la_sequence := pl_sequence plan,
     la_dispatch_cookie := pl_dispatch_cookie plan, la_wave := pl_wave plan, la_ring_slot := ucast (pl_ring_slot plan),
     la_accumulator_count := pl_accumulator_count plan, la_pull_count := of_nat (length (pl_pulls plan)),
     la_result_count := of_nat (length (pl_results plan)), la_pull_index_capacity := 4, la_accumulator_index_capacity := 3\<rparr>"

lemma ex_launch_of: "launch_of (ex_plan_launch plan) ex_config plan"
  by (simp add: launch_of_def ex_plan_launch_def ex_launch_def ex_config_def)

lemma ex_compiled:
  obtains l plan where "CompileLayout ex_sources [1, 0] ex_layout = Inr l" "CompileCombinePullPlan l ex_config = Inr plan"
    and "pl_worker_count plan = 2" "pl_source_row_counts plan = [1, 3]" "pl_ring_slot plan = 1"
    and "launch_valid 3 (ex_plan_launch plan) = Some (4, 64, 3)" "journal_identity (cl_journal_header l) (ex_plan_launch plan)"
    and "pl_owner_offsets plan = [0, 2, 3]" and "pl_accumulator_count plan = 3"
proof -
  have "case CompileLayout ex_sources [1, 0] ex_layout of Inl _ \<Rightarrow> False
    | Inr l \<Rightarrow> (case CompileCombinePullPlan l ex_config of Inl _ \<Rightarrow> False
      | Inr plan \<Rightarrow> pl_worker_count plan = 2 \<and> pl_source_row_counts plan = [1, 3] \<and> pl_ring_slot plan = 1 \<and>
          launch_valid 3 (ex_plan_launch plan) = Some (4, 64, 3) \<and> journal_identity (cl_journal_header l) (ex_plan_launch plan) \<and>
          pl_owner_offsets plan = [0, 2, 3] \<and> pl_accumulator_count plan = 3)"
    by code_simp
  then show thesis using that by (auto split: sum.splits)
qed

lemma ex_registrations:
  "la_worker_count la = 2 \<Longrightarrow> la_session_id la = 7 \<Longrightarrow> la_placement_epoch la = 1 \<Longrightarrow> la_slot_count la = 2 \<Longrightarrow> r = 0 \<or> r = 1 \<Longrightarrow>
    RegistrationValid (ex_region r) r la"
  by (auto simp: RegistrationValid_def ex_region_def CheckedMulU64ByU32_Mul Mul_def abi_consts)

theorem device_ready_as_host_witness:
  "\<exists>l plan. CompileLayout ex_sources [1, 0] ex_layout = Inr l \<and> CompileCombinePullPlan l ex_config = Inr plan \<and>
     ValidateReady (ex_ready plan 1 3) (ex_region 1) (pl_source_offsets plan) 1 (ex_plan_launch plan) = Inr ()"
proof -
  obtain l plan where p: "CompileLayout ex_sources [1, 0] ex_layout = Inr l" "CompileCombinePullPlan l ex_config = Inr plan"
    "pl_worker_count plan = 2" "pl_source_row_counts plan = [1, 3]" "pl_ring_slot plan = 1" by (rule ex_compiled)
  have r: "RegistrationValid (ex_region 1) 1 (ex_plan_launch plan)"
    by (rule ex_registrations) (simp_all add: ex_plan_launch_def ex_launch_def)
  have "ValidateCombineReady (ex_ready plan 1 3) (ex_region 1) ex_config plan = Inr ()"
    by (rule ex_ready_valid [OF p(3-5)]) simp
  moreover have "crd_source_rank (ex_ready plan 1 3) = 1" by (simp add: ex_ready_def Let_def)
  ultimately show ?thesis
    using device_ready_as_host [OF p(2) ex_launch_of r, of "ex_ready plan 1 3"] p(1,2) by blast
qed

text \<open>
  C17 What the host compiles the device accepts. For the plan of a journal, a valid launch of it with
  the sealed header, registrations the host library accepts, owner slots that hold the owner's rows and few enough
  accumulators that the 32-bit counter of the validation does not wrap (at most \<open>2 ^ 32\<close> with the number of
  blocks), the checks of block zero and the distributed validation of all blocks end and succeed.
\<close>

theorem kernel_accepts_compiled_plan:
  assumes comp: "CompileCombinePullPlan d config = Inr plan" and la: "launch_of la config plan"
    and lv: "launch_valid blocks la = Some (row_bytes, out, tasks)" and h: "journal_identity h la"
    and counter: "unat (la_accumulator_count la) + unat blocks \<le> 2 ^ 32"
    and regs: "\<forall>s < unat (cfg_worker_count config). s < length registrations \<and>
      ValidateCombineRegistration (registrations ! s) config = OK \<and> crg_source_rank (registrations ! s) = of_nat s"
    and outs: "\<forall>owner < unat (cfg_worker_count config).
      unat row_bytes * (unat (pl_owner_offsets plan ! Suc owner) - unat (pl_owner_offsets plan ! owner)) \<le>
      unat (la_owner_output_slot_stride la)"
  shows "(\<exists>two. init_block blocks la (tables_of plan) registrations h = Inr (two, row_bytes, out, tasks)) \<and>
    validate_plan blocks la (tables_of plan) = Inr ()"
proof -
  let ?W = "unat (la_worker_count la)" and ?T = "tables_of plan"
  have W: "?W = unat (cfg_worker_count config)" using la by (simp add: launch_of_def)
  have cfg: "ConfigValid config" using CompileCombinePullPlan_phases [OF refl refl refl, of d config] comp by auto
  have sealed: "sealed_tables ?T la" by (rule plan_sealed [OF comp la])
  note so = sealed_tablesD(2) [OF sealed] and oo = sealed_tablesD(3) [OF sealed]
  have "owner_fits ?T row_bytes (la_owner_output_slot_stride la) owner" if o: "owner < ?W" for owner
  proof -
    have "unat (ct_owner_offsets ?T ! Suc owner) \<le> unat (ct_owner_offsets ?T ! ?W)"
      using o by (intro offsets_mono [OF oo]) auto
    then have "unat (ct_owner_offsets ?T ! Suc owner) < 2 ^ 32"
      using oo launch_numbers(5) [OF lv] by (simp add: offsets_ok_def)
    then show ?thesis
      using o so oo outs W by (auto simp: owner_fits_def offsets_ok_def Let_def tables_of_def)
  qed
  moreover have "s < length registrations \<and> RegistrationValid (registrations ! s) (of_nat s) la" if "s < ?W" for s
    using regs that W by (simp add: RegistrationValid_host [OF cfg la])
  ultimately have "launch_tables la row_bytes ?T registrations h"
    using h sealed by (simp add: launch_tables_def)
  then show ?thesis by (rule kernel_accepts [OF lv counter])
qed

theorem kernel_accepts_compiled_plan_witness:
  "\<exists>l plan two. CompileLayout ex_sources [1, 0] ex_layout = Inr l \<and> CompileCombinePullPlan l ex_config = Inr plan \<and>
     init_block 3 (ex_plan_launch plan) (tables_of plan) [ex_region 0, ex_region 1] (cl_journal_header l) = Inr (two, 4, 64, 3) \<and>
     validate_plan 3 (ex_plan_launch plan) (tables_of plan) = Inr ()"
proof -
  obtain l plan where p: "CompileLayout ex_sources [1, 0] ex_layout = Inr l" "CompileCombinePullPlan l ex_config = Inr plan"
    "launch_valid 3 (ex_plan_launch plan) = Some (4, 64, 3)" "journal_identity (cl_journal_header l) (ex_plan_launch plan)"
    "pl_owner_offsets plan = [0, 2, 3]" "pl_accumulator_count plan = 3" by (rule ex_compiled)
  have W: "unat (cfg_worker_count ex_config) = 2" by (simp add: ex_config_def)
  have "ValidateCombineRegistration (ex_region 0) ex_config = OK" "ValidateCombineRegistration (ex_region 1) ex_config = OK"
    by code_simp+
  then have r: "\<forall>s < unat (cfg_worker_count ex_config). s < length [ex_region 0, ex_region 1] \<and>
      ValidateCombineRegistration ([ex_region 0, ex_region 1] ! s) ex_config = OK \<and>
      crg_source_rank ([ex_region 0, ex_region 1] ! s) = of_nat s"
    unfolding W all_less_two by (simp add: ex_region_def)
  have o: "\<forall>owner < unat (cfg_worker_count ex_config).
      unat (4 :: u64) * (unat (pl_owner_offsets plan ! Suc owner) - unat (pl_owner_offsets plan ! owner)) \<le>
      unat (la_owner_output_slot_stride (ex_plan_launch plan))"
    unfolding W all_less_two p(5) by (simp add: ex_plan_launch_def ex_launch_def)
  have "unat (la_accumulator_count (ex_plan_launch plan)) = 3"
    by (simp add: ex_plan_launch_def p(6))
  then have c: "unat (la_accumulator_count (ex_plan_launch plan)) + unat (3 :: u32) \<le> 2 ^ 32" by simp
  show ?thesis
    using kernel_accepts_compiled_plan [OF p(2) ex_launch_of p(3,4) c r o] p(1,2) by auto
qed

text \<open>
  C18 The checks of the kernel read no entry behind a table, whatever the tables hold, as long as the tables
  have the lengths of the launch; and they end, when the accumulators and the blocks are together at most
  \<open>2 ^ 32\<close>, so that the 32-bit counter of the accumulators does not wrap. Corrupt offsets, ranks, chains or counts
  lead to a failure status.
\<close>

theorem kernel_checks_in_bounds:
  assumes "tables_fit T registrations la" "launch_valid blocks la \<noteq> None"
  shows "safe (init_block blocks la T registrations h) \<and> validate_plan blocks la T \<noteq> Inl Oob \<and>
    (unat (la_accumulator_count la) + unat blocks \<le> 2 ^ 32 \<longrightarrow> safe (validate_plan blocks la T))"
proof -
  obtain x where lv: "launch_valid blocks la = Some x" using assms(2) by auto
  note n = launch_numbers [OF lv]
  show ?thesis using init_safe [OF assms(1)] validate_inside [OF assms(1) n(3)] validate_safe [OF assms(1) n(3,1) _ n(4)] by blast
qed

text \<open>A plan whose chain loops and whose owner and row are out of range.\<close>

theorem kernel_checks_in_bounds_witness:
  "\<exists>T. ct_pull_next T = [1, 0] \<and> validate_plan 2 ex_launch T = fail kStatusInvalidJournal \<and>
     safe (validate_plan 2 ex_launch T)"
proof -
  let ?T = "ex_tables\<lparr>ct_pull_next := [1, 0], ct_results := map (\<lambda>r. r\<lparr>ro_owner_rank := 200\<rparr>) (ct_results ex_tables)\<rparr>"
  have "tables_fit ?T [ex_region 0, ex_region 1] ex_launch" by code_simp
  moreover have "launch_valid 2 ex_launch \<noteq> None" by code_simp
  moreover have "validate_plan 2 ex_launch ?T = fail kStatusInvalidJournal" by code_simp
  moreover have "ct_pull_next ?T = [1, 0]" by simp
  moreover have "unat (la_accumulator_count ex_launch) + unat (2 :: u32) \<le> 2 ^ 32" by (simp add: ex_launch_def)
  ultimately show ?thesis
    using kernel_checks_in_bounds [of ?T "[ex_region 0, ex_region 1]" ex_launch 2 ex_header] by blast
qed

text \<open>
  C23 In a wave whose checks and polling succeeded every tile a task reads for a pull lies in the slot of the
  wave in the registered region of the pull's worker, and the addresses do not wrap.
\<close>

theorem kernel_reads_in_slots:
  assumes "wave_ready la blocks T registrations h offs (two, row_bytes, out, tasks) passes"
    and "task < unat tasks" "i \<in> set (chain_of T la (task_row la task))"
  shows "pull_bytes T offs row_bytes la task i \<subseteq> slot_window (registrations ! source_of T i) la \<and>
    card (pull_bytes T offs row_bytes la task i) = 4 * (task_end la task - task_begin la task)"
proof -
  note w = wave_ready_polled(1,2) [OF assms(1)]
  have "i < unat (la_pull_count la)" using assms(3) by (simp add: set_chain_of)
  from polled_reads [OF w(1) this assms(2)] show ?thesis
    by (simp add: pull_bytes_def task_numbers(4) [OF w(2) assms(2)] Let_def)
qed

theorem kernel_reads_in_slots_witness:
  "pull_bytes ex_tables [128, 128] 4 ex_launch 0 1 \<subseteq> {128..<256}"
proof -
  have "1 \<in> set (chain_of ex_tables ex_launch (task_row ex_launch 0))" by code_simp
  from kernel_reads_in_slots [OF ex_wave_ready _ this]
  have "pull_bytes ex_tables [128, 128] 4 ex_launch 0 1 \<subseteq> slot_window ([ex_region 0, ex_region 1] ! source_of ex_tables 1) ex_launch"
    by simp
  also have "\<dots> \<subseteq> {128..<256}" by (auto simp: slot_window_def ex_tables_def ex_launch_def ex_region_def)
  finally show ?thesis .
qed

text \<open>
  C20 The general path of a block. In a wave whose checks and polling succeeded a block neither hangs on the
  events of the pipes nor reads behind a table; it leaves the events as it found them; and it puts, for its
  tasks in order up to the first failure, the sum of the tiles of exactly the task's contributors, each read
  when its worker was ready, to the owner and row of the task. It fails only when a wait was not answered in time.
\<close>

theorem kernel_reduces_tasks:
  assumes ready: "wave_ready la blocks T registrations h offs (two, row_bytes, out, tasks) passes"
    and block: "unat block < unat blocks" and st: "ts_events st = no_events"
  shows "\<exists>failure st'. reduce_block vu la T offs row_bytes out waits (block_tasks blocks tasks block) st = Inr (failure, st') \<and>
    ts_events st' = no_events \<and>
    tasks_done (task_put vu la T offs row_bytes out (tile_sum vu) (\<lambda>task s. \<exists>k. was_ready (waits task k) s))
      (\<lambda>e. \<exists>task k. wait_failure (waits task k) e) (block_tasks blocks tasks block) failure st st' \<and>
    ((\<forall>task k. in_time (waits task k)) \<longrightarrow> failure = None)"
proof -
  have "0 < unat blocks" using block by simp
  then have "\<forall>task \<in> set (block_tasks blocks tasks block). task < unat tasks"
    by (auto simp: block_tasks_def set_strided)
  from reduce_block_run [OF wave_ready_accepted [OF ready] st this]
  obtain failure st' where r: "reduce_block vu la T offs row_bytes out waits (block_tasks blocks tasks block) st = Inr (failure, st')"
    "ts_events st' = no_events"
    "tasks_done (task_put vu la T offs row_bytes out (tile_sum vu) (\<lambda>task s. \<exists>k. was_ready (waits task k) s))
      (\<lambda>e. \<exists>task k. wait_failure (waits task k) e) (block_tasks blocks tasks block) failure st st'"
    by blast
  then have "(\<forall>task k. in_time (waits task k)) \<longrightarrow> failure = None"
    by (auto simp: tasks_done_def wait_failure_def split: option.splits)
  then show ?thesis using r by blast
qed

text \<open>Tiles of integers: the one row of the example is the sum of what its two workers hold.\<close>

definition ex_vector_unit :: "int vector_unit" where
  "ex_vector_unit = \<lparr>vu_zero = 0, vu_add = (+), vu_get = (\<lambda>pe address elements. if pe = 0 then 30 else 12)\<rparr>"

definition ex_tiles :: "int tile_state" where
  "ex_tiles = \<lparr>ts_events = no_events, ts_ub = \<lambda>_. 0, ts_gets = [], ts_puts = []\<rparr>"

lemma ex_tile_sum: "tile_sum ex_vector_unit vs = sum_list vs"
proof -
  have "foldl (+) a vs = a + sum_list vs" for a :: int by (induction vs arbitrary: a) simp_all
  then show ?thesis by (simp add: tile_sum_def ex_vector_unit_def)
qed

lemma ex_numbers:
  "task_row ex_launch 0 = 0" "chain_of ex_tables ex_launch 0 = [0, 1]" "task_elements ex_launch 0 = 1"
  "task_element_begin ex_launch 0 = 0" "block_tasks 2 1 0 = [0]" "block_range 2 1 0 = (0, 1)"
  "result_op ex_tables 0 = ct_results ex_tables ! 0" "result_address ex_tables 4 64 0 0 = 64"
  by code_simp+

lemma ex_task_put:
  assumes "task_put ex_vector_unit ex_launch ex_tables [128, 128] 4 64 (tile_sum ex_vector_unit) ok 0 p"
  shows "p = (0, 64, 1, 42)"
proof -
  let ?val = "tile_value ex_vector_unit ex_tables [128, 128] 4 0 1"
  obtain ys where ys: "mset ys = mset [0, 1]" and p: "p = (0, 64, 1, tile_sum ex_vector_unit (map ?val ys))"
    using assms by (auto simp: task_put_def Let_def ex_numbers) (simp add: ex_tables_def)
  have "sum_list (map ?val ys) = sum_mset (image_mset ?val (mset ys))" by (metis mset_map sum_mset_sum_list)
  also have "\<dots> = 42" unfolding ys by (simp add: tile_value_def ex_vector_unit_def ex_tables_def)
  finally show ?thesis by (simp add: p ex_tile_sum)
qed

lemma ex_tasks_done:
  assumes "tasks_done put reason [0] None ex_tiles st'" "\<And>p. put 0 p \<Longrightarrow> p = (0, 64, 1, 42)"
  shows "ts_puts st' = [(0, 64, 1, 42)]"
  using assms by (auto simp: tasks_done_def list_all2_Cons1 ex_tiles_def)

theorem kernel_reduces_tasks_witness:
  "\<exists>st'. reduce_block ex_vector_unit ex_launch ex_tables [128, 128] 4 64 (\<lambda>_ _. [(\<lambda>_. True, kStatusOk)])
      (block_tasks 2 1 0) ex_tiles = Inr (None, st') \<and> ts_events st' = no_events \<and> ts_puts st' = [(0, 64, 1, 42)]"
proof -
  let ?waits = "\<lambda>_ _. [(\<lambda>_. True, kStatusOk)] :: passes"
  have "ts_events ex_tiles = no_events" by (simp add: ex_tiles_def)
  from kernel_reduces_tasks [OF ex_wave_ready _ this, of 0 ex_vector_unit ?waits]
  obtain failure st' where r: "reduce_block ex_vector_unit ex_launch ex_tables [128, 128] 4 64 ?waits (block_tasks 2 1 0) ex_tiles =
      Inr (failure, st')" "ts_events st' = no_events" "failure = None"
    and d: "tasks_done (task_put ex_vector_unit ex_launch ex_tables [128, 128] 4 64 (tile_sum ex_vector_unit)
        (\<lambda>task s. \<exists>k. was_ready (?waits task k) s)) (\<lambda>e. \<exists>task k. wait_failure (?waits task k) e) (block_tasks 2 1 0) failure ex_tiles st'"
    by auto
  have "ts_puts st' = [(0, 64, 1, 42)]"
    by (rule ex_tasks_done [OF d [unfolded r(3) ex_numbers] ex_task_put])
  then show ?thesis using r by blast
qed

lemma tasks_done_mono:
  assumes "tasks_done put reason ts failure st st'" "\<And>t p. t \<in> set ts \<Longrightarrow> put t p \<Longrightarrow> put' t p"
  shows "tasks_done put' reason ts failure st st'"
proof -
  obtain finished rest puts where d: "ts = finished @ rest" "ts_puts st' = ts_puts st @ puts" "list_all2 put finished puts"
    "case failure of None \<Rightarrow> rest = [] | Some e \<Rightarrow> rest \<noteq> [] \<and> reason e"
    using assms(1) by (auto simp: tasks_done_def)
  have "list_all2 put' finished puts"
    using d(3) by (rule list.rel_mono_strong) (use assms(2) d(1) in auto)
  then show ?thesis using d by (auto simp: tasks_done_def)
qed

text \<open>Two transfers to the same place whose tiles are the same in the sense of \<open>same\<close>.\<close>

fun same_put :: "('v \<Rightarrow> 'v \<Rightarrow> bool) \<Rightarrow> u32 \<times> u64 \<times> u32 \<times> 'v \<Rightarrow> u32 \<times> u64 \<times> u32 \<times> 'v \<Rightarrow> bool" where
  "same_put same (owner, address, elements, v) (owner', address', elements', w) \<longleftrightarrow>
     owner = owner' \<and> address = address' \<and> elements = elements' \<and> same v w"

lemma two_sum_tile_sum:
  assumes "\<forall>v w. same (vu_add vu v w) (vu_add vu (vu_add vu (vu_zero vu) v) w)" "length vs = 2"
  shows "same (two_sum vu vs) (tile_sum vu vs)"
  using assms by (auto simp: two_sum_def tile_sum_def numeral_2_eq_2 length_Suc_conv)

text \<open>
  C21 The path for two contributors. When every accumulator of a ready wave has two contributors, the range a
  block works through neither hangs nor reads behind a table and leaves the events as it found them, also
  when it stops with a transfer in flight. It puts the sum \<open>v + w\<close> of the two tiles of each task in order up to
  the first failure. The general path would put \<open>(0 + v) + w\<close> at the same place: in whatever sense the additions of
  the vector unit make these two the same - equal where adding to zero changes nothing, equal up to the sign of a
  zero for floating-point numbers, where \<open>0 + (-0)\<close> is \<open>0\<close> - the transfers of the two paths are the same.
\<close>

theorem kernel_two_contributors:
  assumes ready: "wave_ready la blocks T registrations h offs (True, row_bytes, out, tasks) passes"
    and block: "unat block < unat blocks" and st: "ts_events st = no_events"
    and ts: "ts = [unat (fst (block_range blocks tasks block))..<unat (snd (block_range blocks tasks block))]"
  shows "\<exists>failure st'. ReduceTwoContributorTaskRange vu la T offs row_bytes out waits status (block_range blocks tasks block) st =
      Inr (failure, st') \<and> ts_events st' = no_events \<and>
    tasks_done (task_put vu la T offs row_bytes out (two_sum vu) (\<lambda>task s. \<exists>k. was_ready (waits task k) s))
      (\<lambda>e. \<exists>task k. e = status task \<and> e \<noteq> kStatusOk \<or> wait_failure (waits task k) e) ts failure st st' \<and>
    (\<forall>same. (\<forall>v w. same (vu_add vu v w) (vu_add vu (vu_add vu (vu_zero vu) v) w)) \<longrightarrow>
      tasks_done (\<lambda>task put. \<exists>general.
          task_put vu la T offs row_bytes out (tile_sum vu) (\<lambda>task s. \<exists>k. was_ready (waits task k) s) task general \<and>
          same_put same put general)
        (\<lambda>e. \<exists>task k. e = status task \<and> e \<noteq> kStatusOk \<or> wait_failure (waits task k) e) ts failure st st') \<and>
    ((\<forall>task k. in_time (waits task k) \<and> status task = kStatusOk) \<longrightarrow> failure = None)"
proof -
  let ?ready = "\<lambda>task s. \<exists>k. was_ready (waits task k) s"
  let ?reason = "\<lambda>e. \<exists>task k. e = status task \<and> e \<noteq> kStatusOk \<or> wait_failure (waits task k) e"
  let ?general = "task_put vu la T offs row_bytes out (tile_sum vu) ?ready"
  note w = wave_ready_accepted [OF ready] and lv = wave_ready_polled(2) [OF ready] and two = wave_ready_polled(3) [OF ready TrueI]
  have "range_bound (unat blocks) (unat tasks) (Suc (unat block)) \<le> unat tasks"
    using block by (intro range_bound_le) simp_all
  then have "\<forall>task \<in> set ts. task < unat tasks" by (simp add: ts block_range_bounds [OF block])
  then have tk: "\<forall>task \<in> set ts. task < unat tasks \<and> ct_counts T ! task_row la task = 2"
    using two task_numbers(2) [OF lv] by simp
  obtain failure st' where r: "ReduceTwoContributorTaskRange vu la T offs row_bytes out waits status (block_range blocks tasks block) st =
      Inr (failure, st')" "ts_events st' = no_events"
    and d: "tasks_done (task_put vu la T offs row_bytes out (two_sum vu) ?ready) ?reason ts failure st st'"
    using ReduceTwoContributorTaskRange_run [OF w st ts tk, of vu waits status] by blast
  have "tasks_done (\<lambda>t p. \<exists>q. ?general t q \<and> same_put same p q) ?reason ts failure st st'"
    if same: "\<forall>v w. same (vu_add vu v w) (vu_add vu (vu_add vu (vu_zero vu) v) w)" for same
  proof (rule tasks_done_mono [OF d])
    fix t p assume t: "t \<in> set ts" and p: "task_put vu la T offs row_bytes out (two_sum vu) ?ready t p"
    have tt: "t < unat tasks" "ct_counts T ! task_row la t = 2" using tk t by auto
    then have "length (chain_of T la (task_row la t)) = 2"
      using chain_good(5) [OF w task_numbers(2) [OF lv tt(1)]] by simp
    then have "length ys = 2" if "mset ys = mset (chain_of T la (task_row la t))" for ys
      using mset_eq_length [OF that] by simp
    then show "\<exists>q. ?general t q \<and> same_put same p q"
      using p two_sum_tile_sum [where same = same, OF same] by (fastforce simp: task_put_def Let_def)
  qed
  moreover have "(\<forall>task k. in_time (waits task k) \<and> status task = kStatusOk) \<longrightarrow> failure = None"
    using d by (auto simp: tasks_done_def wait_failure_def split: option.splits)
  ultimately show ?thesis using r d by blast
qed

text \<open>
  Numbers with a sign of their own, also at zero, added as floating-point numbers are (without rounding): the first
  component is true for a minus. Both workers hold \<open>-0\<close>, and the two paths differ in the sign of the zero.
\<close>

definition ex_signed_add :: "bool \<times> nat \<Rightarrow> bool \<times> nat \<Rightarrow> bool \<times> nat" where
  "ex_signed_add a b =
     (if fst a = fst b then (fst a, snd a + snd b)
      else if snd a = snd b then (False, 0)
      else if snd b < snd a then (fst a, snd a - snd b) else (fst b, snd b - snd a))"

definition ex_signed_unit :: "(bool \<times> nat) vector_unit" where
  "ex_signed_unit = \<lparr>vu_zero = (False, 0), vu_add = ex_signed_add, vu_get = \<lambda>pe address elements. (True, 0)\<rparr>"

definition ex_signed_tiles :: "(bool \<times> nat) tile_state" where
  "ex_signed_tiles = \<lparr>ts_events = no_events, ts_ub = \<lambda>_. (False, 0), ts_gets = [], ts_puts = []\<rparr>"

definition ex_same_number :: "bool \<times> nat \<Rightarrow> bool \<times> nat \<Rightarrow> bool" where
  "ex_same_number a b \<longleftrightarrow> a = b \<or> snd a = 0 \<and> snd b = 0"

lemma ex_signed_same:
  "\<forall>v w. ex_same_number (vu_add ex_signed_unit v w)
     (vu_add ex_signed_unit (vu_add ex_signed_unit (vu_zero ex_signed_unit) v) w)"
  by (auto simp: ex_same_number_def ex_signed_unit_def ex_signed_add_def)

lemma ex_signed_put:
  assumes "task_put ex_signed_unit ex_launch ex_tables [128, 128] 4 64 comb ok 0 p"
  shows "p = (0, 64, 1, comb [(True, 0), (True, 0)])"
proof -
  let ?val = "tile_value ex_signed_unit ex_tables [128, 128] 4 0 1"
  obtain ys where ys: "mset ys = mset [0, 1]" and p: "p = (0, 64, 1, comb (map ?val ys))"
    using assms by (auto simp: task_put_def Let_def ex_numbers) (simp add: ex_tables_def)
  have "map ?val ys = replicate (length ys) (True, 0)"
    by (rule map_replicate_const [THEN trans [rotated]]) (simp add: tile_value_def ex_signed_unit_def)
  moreover have "length ys = 2" using mset_eq_length [OF ys] by simp
  ultimately show ?thesis by (simp add: p numeral_2_eq_2)
qed

lemma one_task_done:
  "tasks_done put reason [t] None st st' \<Longrightarrow> ts_puts st = [] \<Longrightarrow> \<exists>p. put t p \<and> ts_puts st' = [p]"
  by (auto simp: tasks_done_def list_all2_Cons1)

theorem kernel_two_contributors_witness:
  "\<exists>st'. ReduceTwoContributorTaskRange ex_signed_unit ex_launch ex_tables [128, 128] 4 64 (\<lambda>_ _. [(\<lambda>_. True, kStatusOk)])
      (\<lambda>_. kStatusOk) (block_range 2 1 0) ex_signed_tiles = Inr (None, st') \<and> ts_events st' = no_events \<and>
     ts_puts st' = [(0, 64, 1, (True, 0))] \<and>
     list_all2 (same_put ex_same_number) (ts_puts st') [(0, 64, 1, (False, 0))]"
proof -
  let ?waits = "(\<lambda>_ _. [(\<lambda>_. True, kStatusOk)]) :: nat \<Rightarrow> bool \<Rightarrow> passes"
    and ?status = "(\<lambda>_. kStatusOk) :: nat \<Rightarrow> u32"
  let ?ready = "\<lambda>task s. \<exists>k. was_ready (?waits task k) s"
  let ?reason = "\<lambda>e. \<exists>task k. e = ?status task \<and> e \<noteq> kStatusOk \<or> wait_failure (?waits task k) e"
  let ?put = "task_put ex_signed_unit ex_launch ex_tables [128, 128] 4 64"
  have e: "ts_events ex_signed_tiles = no_events" by (simp add: ex_signed_tiles_def)
  have ts: "[0] = [unat (fst (block_range 2 1 0))..<unat (snd (block_range 2 1 0))]" by (simp add: ex_numbers)
  have "\<forall>task k. in_time (?waits task k) \<and> ?status task = kStatusOk" by simp
  then obtain st' where r: "ReduceTwoContributorTaskRange ex_signed_unit ex_launch ex_tables [128, 128] 4 64 ?waits ?status
      (block_range 2 1 0) ex_signed_tiles = Inr (None, st')" "ts_events st' = no_events"
    and d: "tasks_done (?put (two_sum ex_signed_unit) ?ready) ?reason [0] None ex_signed_tiles st'"
    and g: "tasks_done (\<lambda>task put. \<exists>general. ?put (tile_sum ex_signed_unit) ?ready task general \<and>
        same_put ex_same_number put general) ?reason [0] None ex_signed_tiles st'"
    using kernel_two_contributors [OF ex_wave_ready _ e ts, of ex_signed_unit ?waits ?status] ex_signed_same by auto
  have sums: "two_sum ex_signed_unit [(True, 0), (True, 0)] = (True, 0)" "tile_sum ex_signed_unit [(True, 0), (True, 0)] = (False, 0)"
    by (simp_all add: two_sum_def tile_sum_def ex_signed_unit_def ex_signed_add_def)
  obtain p where p: "?put (two_sum ex_signed_unit) ?ready 0 p" "ts_puts st' = [p]"
    using one_task_done [OF d] by (auto simp: ex_signed_tiles_def)
  obtain q where q: "?put (tile_sum ex_signed_unit) ?ready 0 q" "same_put ex_same_number p q"
    using one_task_done [OF g] p(2) by (auto simp: ex_signed_tiles_def)
  have "p = (0, 64, 1, (True, 0))" "q = (0, 64, 1, (False, 0))"
    using ex_signed_put [OF p(1)] ex_signed_put [OF q(1)] sums by simp_all
  then show ?thesis using r p(2) q(2) by simp
qed

text \<open>
  C22 Every byte of the result rows is written once. Both ways of splitting the work give every task to
  exactly one block. When the ring of output slots is addressable, the transfers of the tasks of one owner are disjoint,
  stay inside the slot of the wave and together are the owner's rows from the start of the slot.
\<close>

theorem kernel_writes_once:
  assumes ready: "wave_ready la blocks T registrations h offs (two, row_bytes, out, tasks) passes"
    and slots: "unat (la_owner_output_slot_stride la) * unat (la_slot_count la) < 2 ^ 64"
    and owner: "owner < unat (la_worker_count la)"
  shows "mset (concat (map (\<lambda>b. block_tasks blocks tasks (of_nat b)) [0..<unat blocks])) = mset [0..<unat tasks] \<and>
    concat (map (\<lambda>b. [unat (fst (block_range blocks tasks (of_nat b)))..<unat (snd (block_range blocks tasks (of_nat b)))])
      [0..<unat blocks]) = [0..<unat tasks] \<and>
    (\<forall>t1 < unat tasks. \<forall>t2 < unat tasks. t1 \<noteq> t2 \<and> task_owner T la t1 = task_owner T la t2 \<longrightarrow>
      task_bytes T la row_bytes out t1 \<inter> task_bytes T la row_bytes out t2 = {}) \<and>
    (\<Union>t \<in> {t. t < unat tasks \<and> task_owner T la t = owner}. task_bytes T la row_bytes out t) =
      {unat out..<unat out + unat row_bytes * owner_rows T owner} \<and>
    unat row_bytes * owner_rows T owner \<le> unat (la_owner_output_slot_stride la)"
proof -
  note w = wave_ready_accepted [OF ready] and lv = wave_ready_polled(2) [OF ready]
  note n = launch_numbers [OF lv]
  have eq: "map (\<lambda>b. block_tasks blocks tasks (of_nat b)) [0..<unat blocks] =
      map (\<lambda>b. strided b (unat blocks) (unat tasks)) [0..<unat blocks]"
    using unsigned_less [of blocks, where 'a = nat] by (simp add: block_tasks_def unat_of_nat_u32)
  have "mset (concat (map (\<lambda>b. block_tasks blocks tasks (of_nat b)) [0..<unat blocks])) = mset [0..<unat tasks]"
    unfolding eq by (rule strided_partition [OF n(1)])
  moreover have "\<forall>t1 < unat tasks. \<forall>t2 < unat tasks. t1 \<noteq> t2 \<and> task_owner T la t1 = task_owner T la t2 \<longrightarrow>
      task_bytes T la row_bytes out t1 \<inter> task_bytes T la row_bytes out t2 = {}"
    using tasks_disjoint [OF w slots] by blast
  moreover have "unat row_bytes * owner_rows T owner \<le> unat (la_owner_output_slot_stride la)"
    using accepted_waveD(3) [OF w] owner by (simp add: owner_fits_def owner_rows_def Let_def)
  ultimately show ?thesis
    using range_partition [OF n(1), of tasks] tasks_cover [OF w slots owner] by blast
qed

theorem kernel_writes_once_witness:
  "(\<Union>t \<in> {t. t < 1 \<and> task_owner ex_tables ex_launch t = 0}. task_bytes ex_tables ex_launch 4 64 t) = {64..<68}"
proof -
  have s: "unat (la_owner_output_slot_stride ex_launch) * unat (la_slot_count ex_launch) < 2 ^ 64" by (simp add: ex_launch_def)
  have o: "(0 :: nat) < unat (la_worker_count ex_launch)" by code_simp
  have rows: "owner_rows ex_tables 0 = 1" by code_simp
  have "(\<Union>t \<in> {t. t < unat (1 :: u64) \<and> task_owner ex_tables ex_launch t = 0}. task_bytes ex_tables ex_launch 4 64 t) =
      {unat (64 :: u64)..<unat (64 :: u64) + unat (4 :: u64) * owner_rows ex_tables 0}"
    using kernel_writes_once [OF ex_wave_ready s o] by blast
  then show ?thesis unfolding rows by simp
qed

text \<open>
  C24 The acknowledgement of a source and the completion of an owner are published whole. Whenever a worker
  looks, its copy has a publication word of zero, or it is the old record, or the complete new one. In the
  end the checks of the worker accept the new record exactly when the wave succeeded.
\<close>

theorem kernel_records_whole:
  assumes la: "la_session_id la = session_id" "la_placement_epoch la = placement_epoch" "la_generation la = pl_generation plan"
    "la_sequence la = pl_sequence plan" "la_dispatch_cookie la = pl_dispatch_cookie plan" "la_wave la = pl_wave plan"
    and len: "length remote = 128" "length remote' = 128"
    and acks: "acks = PublishSourceAck remote rank status rows bytes region_id la"
    and completions: "completions = PublishOwnerCompletion remote' rank status rows' bytes' la"
  shows "(\<forall>record \<in> set (remote # acks). (field_at 120 8 record :: u64) = 0 \<or> record = remote \<or> record = last acks) \<and>
    (ack_ok plan session_id placement_epoch rank region_id rows bytes (ucast (la_ring_slot la)) (last acks) \<longleftrightarrow> status = kStatusOk) \<and>
    (\<forall>record \<in> set (remote' # completions). (field_at 120 8 record :: u64) = 0 \<or> record = remote' \<or> record = last completions) \<and>
    (completion_ok plan session_id placement_epoch rank rows' bytes' (ucast (la_ring_slot la)) (last completions) \<longleftrightarrow>
      status = kStatusOk)"
proof -
  have five: "length (sak_reserved a) = 5 \<Longrightarrow> length (source_ack_bytes a) = 128"
    "length (ocp_reserved c) = 5 \<Longrightarrow> length (owner_completion_bytes c) = 128" for a :: CombineSourceAckV2 and c :: CombineOwnerCompletionV2
    by (rule source_ack_roundtrip owner_completion_roundtrip, assumption)+
  obtain local pub where a: "acks = PublishControlRecord128 local remote 120 pub" "length local = 128"
    unfolding acks PublishSourceAck_def Let_def using five(1) by simp
  obtain local' pub' where c: "completions = PublishControlRecord128 local' remote' 120 pub'" "length local' = 128"
    unfolding completions PublishOwnerCompletion_def Let_def using five(2) by simp
  have "\<forall>record \<in> set (remote # acks). (field_at 120 8 record :: u64) = 0 \<or> record = remote \<or> record = last acks"
    unfolding a(1) publication_last [OF a(2) len(1)] using publication_whole [OF a(2) len(1)] by blast
  moreover have "\<forall>record \<in> set (remote' # completions). (field_at 120 8 record :: u64) = 0 \<or> record = remote' \<or>
      record = last completions"
    unfolding c(1) publication_last [OF c(2) len(2)] using publication_whole [OF c(2) len(2)] by blast
  ultimately show ?thesis
    unfolding acks completions
    using worker_accepts_ack [OF la len(1)] worker_accepts_completion [OF la len(2)] by blast
qed

theorem kernel_records_whole_witness:
  "\<exists>plan :: CombinePullPlan. \<forall>remote :: u8 list. length remote = 128 \<longrightarrow>
     ack_ok plan 7 1 0 5 1 4 1 (last (PublishSourceAck remote 0 kStatusOk 1 4 5 (ex_plan_launch plan))) \<and>
     \<not> ack_ok plan 7 1 0 5 1 4 1 (last (PublishSourceAck remote 0 kStatusNotReady 1 4 5 (ex_plan_launch plan)))"
proof -
  obtain l plan where "CompileCombinePullPlan l ex_config = Inr plan" "pl_ring_slot plan = 1" by (rule ex_compiled)
  let ?la = "ex_plan_launch plan"
  have la: "la_session_id ?la = 7" "la_placement_epoch ?la = 1" "la_generation ?la = pl_generation plan"
    "la_sequence ?la = pl_sequence plan" "la_dispatch_cookie ?la = pl_dispatch_cookie plan" "la_wave ?la = pl_wave plan"
    by (simp_all add: ex_plan_launch_def ex_launch_def)
  have ring: "ucast (la_ring_slot ?la) = (1 :: u16)" by (simp add: ex_plan_launch_def \<open>pl_ring_slot plan = 1\<close>)
  have "ack_ok plan 7 1 0 5 1 4 1 (last (PublishSourceAck remote 0 status 1 4 5 ?la)) \<longleftrightarrow> status = kStatusOk"
    if "length remote = 128" for remote status
    using kernel_records_whole [OF la that that refl refl, of 0 status 1 4 5 1 4] unfolding ring by blast
  then show ?thesis by (intro exI [of _ plan]) (simp add: kStatusOk_def kStatusNotReady_def)
qed

section \<open>A second launch of the same wave\<close>

text \<open>
  A launch that finds its journal already active leaves the header alone at first and fails, but the last
  phase takes the header for its own and aborts the wave of the first launch.
\<close>

lemma second_launch_aborts:
  assumes "launch_valid blocks la \<noteq> None" "jh_magic h = kPullDispatchMagic" "jh_generation h = la_generation la"
    "jh_sequence h = la_sequence la" "jh_dispatch_cookie h = la_dispatch_cookie la" "jh_state h = state_code COMBINE_ACTIVE"
  shows "init_header blocks la h = h" "init_block blocks la T registrations h = fail kStatusInvalidJournal"
    "jh_state (fst (finalize_header la h kStatusInvalidJournal)) = state_code JournalSlotState.ABORTED"
proof -
  have j: "\<not> journal_identity h la" using assms(6) by (simp add: journal_identity_def)
  then show "init_header blocks la h = h" by (simp add: init_header_def)
  show "init_block blocks la T registrations h = fail kStatusInvalidJournal"
    using assms(1) j by (auto simp: init_block_def)
  show "jh_state (fst (finalize_header la h kStatusInvalidJournal)) = state_code JournalSlotState.ABORTED"
    using assms by (simp add: finalize_header_def kStatusInvalidJournal_def kStatusOk_def)
qed

end
