(* ===== verification/Dispatch_Device.thy ===== *)
theory Dispatch_Device
  imports Dispatch_Slot Device_Arith
begin

text \<open>
  The control checks of the dispatch kernel on the INC (\<open>inc_dc_pull_dispatch_v2_device_kernel.cpp\<close>): the
  READY record and the slot header of a source, the digest and the padding of its metadata, the arguments of
  a launch, the layout of the parser scratch and the split of the tokens among the parser lanes. The kernel
  repeats the checks of the host library with its own arithmetic; the theory shows that the two agree.
\<close>

section \<open>Model\<close>

subsection \<open>Constants\<close>

definition kDefaultChannelsPerSource :: u32 where "kDefaultChannelsPerSource = 5"
definition kUbSlotBytes :: u32 where "kUbSlotBytes = 12 * 1024"
definition kMaxHiddenTileBytes :: u32 where "kMaxHiddenTileBytes = 8 * 1024"
definition kInvalidRow :: u32 where "kInvalidRow = NOT 0"
definition kOrdinalVisited :: u32 where "kOrdinalVisited = 0x80000000"

definition kStatusOk :: u32 where "kStatusOk = 0"
definition kStatusInvalidArgument :: u32 where "kStatusInvalidArgument = 1"
definition kStatusInvalidReady :: u32 where "kStatusInvalidReady = 3"
definition kStatusInvalidHeader :: u32 where "kStatusInvalidHeader = 4"
definition kStatusSizeOverflow :: u32 where "kStatusSizeOverflow = 6"
definition kStatusCapacityExceeded :: u32 where "kStatusCapacityExceeded = 7"
definition kStatusDigestMismatch :: u32 where "kStatusDigestMismatch = 8"
definition kStatusInvalidToken :: u32 where "kStatusInvalidToken = 9"
definition kStatusInvalidAssignment :: u32 where "kStatusInvalidAssignment = 10"
definition kStatusInvalidState :: u32 where "kStatusInvalidState = 12"
definition kStatusReadyTimeout :: u32 where "kStatusReadyTimeout = 13"

lemmas device_status = kStatusOk_def kStatusInvalidArgument_def kStatusInvalidReady_def
  kStatusInvalidHeader_def kStatusSizeOverflow_def kStatusCapacityExceeded_def kStatusDigestMismatch_def
  kStatusInvalidToken_def kStatusInvalidAssignment_def kStatusInvalidState_def kStatusReadyTimeout_def

text \<open>The scalar arguments of a launch.\<close>

record dispatch_launch =
  dl_session_id :: u64
  dl_placement_epoch :: u64
  dl_generation :: u64
  dl_sequence :: u64
  dl_source_slot_stride :: u64
  dl_metadata_inbox_stride :: u64
  dl_destination_hidden_slot_stride :: u64
  dl_destination_rows_slot_stride :: u64
  dl_destination_assignments_slot_stride :: u64
  dl_destination_expert_counts_slot_stride :: u64
  dl_journal_token_capacity :: u64
  dl_journal_contributor_capacity :: u64
  dl_journal_assignment_capacity :: u64
  dl_destination_row_capacity :: u64
  dl_destination_assignment_capacity :: u64
  dl_inc_destination_rows_stride_bytes :: u64
  dl_inc_destination_assignments_stride_bytes :: u64
  dl_row_map_capacity_entries :: u64
  dl_source_destination_prefix_capacity_entries :: u64
  dl_expert_counts_capacity_entries :: u64
  dl_parser_scratch_capacity_entries :: u64
  dl_worker_count :: u32
  dl_expert_count :: u32
  dl_hidden :: u32
  dl_dtype :: u32
  dl_inc_pe :: u32
  dl_region_id :: u32
  dl_wave :: u32
  dl_ring_slot :: u32
  dl_slot_count :: u32
  dl_channels_per_source :: u32
  dl_spin_cap :: u64

subsection \<open>Small functions\<close>

definition DeviceDTypeBytes :: "u32 \<Rightarrow> u32" where
  "DeviceDTypeBytes dtype = (if dtype = FP16 \<or> dtype = BF16 then 2 else if dtype = FP32 then 4 else 0)"

definition AlignU64 :: "u64 \<Rightarrow> u64 \<Rightarrow> u64 option" where
  "AlignU64 value alignment =
     (if alignment = 0 \<or> alignment AND (alignment - 1) \<noteq> 0 then None
      else case AddU64 value (alignment - 1) of
        None \<Rightarrow> None
      | Some expanded \<Rightarrow> Some (expanded AND NOT (alignment - 1)))"

definition DeviceRouteKey :: "u32 \<Rightarrow> u32 \<Rightarrow> u64" where
  "DeviceRouteKey owner_rank owner_row = push_bit 32 (ucast owner_rank) OR ucast owner_row"

text \<open>The publication of a READY record is its last word, at offset 56.\<close>

definition ReadyHash :: "Ready \<Rightarrow> u64" where
  "ReadyHash ready =
     (let hash = HashGmBytes kHashOffset (take 56 (ready_bytes ready));
          hash = fold (\<lambda>i h. HashByte h 0) [0..<8] hash
      in if hash = 0 then 1 else hash)"

definition IsFinite :: "u32 \<Rightarrow> bool" where
  "IsFinite bits \<longleftrightarrow> bits AND 0x7f800000 \<noteq> 0x7f800000"

definition ReadyValid :: "Ready \<Rightarrow> u32 \<Rightarrow> dispatch_launch \<Rightarrow> bool" where
  "ReadyValid ready source la \<longleftrightarrow>
     (let publication = rdy_publication ready
      in rdy_magic ready = kPullDispatchMagic \<and> rdy_abi_version ready = kPullDispatchAbiVersion \<and>
         rdy_struct_bytes ready = of_nat sizeof_Ready \<and>
         rdy_session_id ready = dl_session_id la \<and>
         rdy_placement_epoch ready = dl_placement_epoch la \<and>
         rdy_generation ready = dl_generation la \<and> rdy_sequence ready = dl_sequence la \<and>
         rdy_wave ready = dl_wave la \<and> rdy_source_rank ready = source \<and>
         rdy_source_rank ready < dl_worker_count la \<and>
         rdy_source_region_id ready = dl_region_id la \<and>
         rdy_ring_slot ready = ucast (dl_ring_slot la) \<and>
         ucast (rdy_ring_slot ready) < dl_slot_count la \<and>
         rdy_flags ready = 0 \<and> publication \<noteq> 0 \<and> publication = ReadyHash ready)"

subsection \<open>The slot header\<close>

definition device_header_matches :: "SlotHeader \<Rightarrow> u32 \<Rightarrow> dispatch_launch \<Rightarrow> bool" where
  "device_header_matches h source la \<longleftrightarrow>
     \<not> (sh_magic h \<noteq> kPullDispatchMagic \<or> sh_abi_version h \<noteq> kPullDispatchAbiVersion \<or>
        sh_header_bytes h \<noteq> of_nat sizeof_SlotHeader \<or> sh_session_id h \<noteq> dl_session_id la \<or>
        sh_placement_epoch h \<noteq> dl_placement_epoch la \<or> sh_generation h \<noteq> dl_generation la \<or>
        sh_sequence h \<noteq> dl_sequence la \<or> sh_wave h \<noteq> dl_wave la \<or> sh_source_rank h \<noteq> source \<or>
        sh_source_region_id h \<noteq> dl_region_id la \<or> sh_ring_slot h \<noteq> ucast (dl_ring_slot la) \<or>
        sh_flags h AND NOT kSlotFlagUniformDestinations \<noteq> 0 \<or>
        sh_worker_count h \<noteq> dl_worker_count la \<or> dl_expert_count la = 0 \<or>
        sh_hidden h \<noteq> dl_hidden la \<or> sh_dtype h \<noteq> dl_dtype la \<or>
        DeviceDTypeBytes (sh_dtype h) = 0 \<or>
        sh_token_record_bytes h \<noteq> of_nat sizeof_TokenRecord \<or>
        sh_assignment_record_bytes h \<noteq> of_nat sizeof_AssignmentRecord \<or> sh_reserved0 h \<noteq> 0)"

definition device_offsets :: "SlotHeader \<Rightarrow> (u64 \<times> u64 \<times> u64 \<times> u64) option" where
  "device_offsets h =
     do {
       token_bytes \<leftarrow> CheckedMulU64ByU32 (of_nat sizeof_TokenRecord) (sh_token_count h);
       assignment_bytes \<leftarrow> CheckedMulU64ByU32 (of_nat sizeof_AssignmentRecord) (sh_assignment_count h);
       hidden_elements \<leftarrow> CheckedMulU64ByU32 (ucast (sh_token_count h)) (sh_hidden h);
       hidden_bytes \<leftarrow> CheckedMulU64ByU32 hidden_elements (DeviceDTypeBytes (sh_dtype h));
       canonical_tokens \<leftarrow> AlignU64 (of_nat sizeof_SlotHeader) (ucast kPullDispatchAlignment);
       end1 \<leftarrow> AddU64 canonical_tokens token_bytes;
       canonical_assignments \<leftarrow> AlignU64 end1 (ucast kPullDispatchAlignment);
       end2 \<leftarrow> AddU64 canonical_assignments assignment_bytes;
       canonical_hidden \<leftarrow> AlignU64 end2 (ucast kPullDispatchAlignment);
       end3 \<leftarrow> AddU64 canonical_hidden hidden_bytes;
       canonical_packet \<leftarrow> AlignU64 end3 (ucast kPullDispatchAlignment);
       Some (canonical_tokens, canonical_assignments, canonical_hidden, canonical_packet)
     }"

definition ValidateHeader :: "SlotHeader \<Rightarrow> u32 \<Rightarrow> dispatch_launch \<Rightarrow> u32" where
  "ValidateHeader h source la =
     (if \<not> device_header_matches h source la then kStatusInvalidHeader
      else case device_offsets h of
        None \<Rightarrow> kStatusSizeOverflow
      | Some (canonical_tokens, canonical_assignments, canonical_hidden, canonical_packet) \<Rightarrow>
          if sh_tokens_offset h \<noteq> canonical_tokens \<or> sh_assignments_offset h \<noteq> canonical_assignments \<or>
             sh_hidden_offset h \<noteq> canonical_hidden \<or> sh_packet_bytes h \<noteq> canonical_packet \<or>
             canonical_packet > dl_source_slot_stride la
          then kStatusInvalidHeader else kStatusOk)"

text \<open>The digest is the last word of the header, at offset 120; the products are 64 bits wide.\<close>

definition DeviceMetadataDigest :: "SlotHeader \<Rightarrow> u8 list \<Rightarrow> (u32, u64) res" where
  "DeviceMetadataDigest h slot =
     (let hash = HashGmBytes kHashOffset (take 120 (slot_header_bytes h));
          hash = fold (\<lambda>i h. HashByte h 0) [0..<8] hash
      in rbind (read_bytes slot (unat (sh_tokens_offset h))
            (unat (ucast (sh_token_count h) * of_nat sizeof_TokenRecord :: u64)))
         (\<lambda>tokens. let hash = HashGmBytes hash tokens
          in rbind (read_bytes slot (unat (sh_assignments_offset h))
               (unat (ucast (sh_assignment_count h) * of_nat sizeof_AssignmentRecord :: u64)))
             (\<lambda>assignments. Inr (HashGmBytes hash assignments))))"

fun zero_bytes :: "u8 list \<Rightarrow> nat list \<Rightarrow> (u32, bool) res" where
  "zero_bytes slot [] = Inr True"
| "zero_bytes slot (offset # offsets) =
     rbind (vget slot offset) (\<lambda>b. if b \<noteq> 0 then Inr False else zero_bytes slot offsets)"

definition HiddenPaddingZero :: "SlotHeader \<Rightarrow> u8 list \<Rightarrow> (u32, bool) res" where
  "HiddenPaddingZero h slot =
     (let padding_begin = sh_assignments_offset h +
            MulU64ByU32 (of_nat sizeof_AssignmentRecord) (sh_assignment_count h)
      in zero_bytes slot [unat padding_begin..<unat (sh_hidden_offset h)])"

subsection \<open>The scratch of the parsers\<close>

record ParserScratchLayout =
  sl_source_state :: u64
  sl_source_error :: u64
  sl_source_assignment_prefix :: u64
  sl_block_status :: u64
  sl_block_contributors :: u64
  sl_block_rows :: u64
  sl_block_assignments :: u64
  sl_block_experts :: u64
  sl_metadata_tails :: u64
  sl_source_stride :: u64
  sl_block_stride :: u64
  sl_row_stride :: u64
  sl_expert_stride :: u64
  sl_entries :: u64

definition BuildParserScratchLayout :: "u32 \<Rightarrow> u32 \<Rightarrow> u32 \<Rightarrow> u64 \<Rightarrow> ParserScratchLayout option" where
  "BuildParserScratchLayout active_blocks workers experts capacity =
     (if active_blocks = 0 \<or> workers = 0 \<or> experts = 0 then None
      else do {
        expert_values \<leftarrow> CheckedMulU64ByU32 (ucast workers) experts;
        row_stride \<leftarrow> AlignU64 (ucast workers) 16;
        expert_stride \<leftarrow> AlignU64 expert_values 16;
        source_extent \<leftarrow> CheckedMulU64ByU32 16 workers;
        source_error \<leftarrow> AddU64 0 source_extent;
        source_assignment_prefix \<leftarrow> AddU64 source_error source_extent;
        prefix_end \<leftarrow> AddU64 source_assignment_prefix (ucast workers + 1);
        block_status \<leftarrow> AlignU64 prefix_end 16;
        block_extent \<leftarrow> CheckedMulU64ByU32 16 active_blocks;
        block_contributors \<leftarrow> AddU64 block_status block_extent;
        block_rows \<leftarrow> AddU64 block_contributors block_extent;
        row_extent \<leftarrow> CheckedMulU64ByU32 row_stride active_blocks;
        block_assignments \<leftarrow> AddU64 block_rows row_extent;
        block_experts \<leftarrow> AddU64 block_assignments row_extent;
        expert_extent \<leftarrow> CheckedMulU64ByU32 expert_stride active_blocks;
        metadata_tails \<leftarrow> AddU64 block_experts expert_extent;
        tail_extent \<leftarrow> CheckedMulU64ByU32 16 workers;
        entries \<leftarrow> AddU64 metadata_tails tail_extent;
        if entries \<le> capacity
        then Some \<lparr> sl_source_state = 0, sl_source_error = source_error,
            sl_source_assignment_prefix = source_assignment_prefix, sl_block_status = block_status,
            sl_block_contributors = block_contributors, sl_block_rows = block_rows,
            sl_block_assignments = block_assignments, sl_block_experts = block_experts,
            sl_metadata_tails = metadata_tails, sl_source_stride = 16, sl_block_stride = 16,
            sl_row_stride = row_stride, sl_expert_stride = expert_stride, sl_entries = entries \<rparr>
        else None
      })"

subsection \<open>Tiles and lanes\<close>

definition RelayTileBytes :: "u32 \<Rightarrow> u32 \<Rightarrow> u32" where
  "RelayTileBytes contributors channels_per_source =
     (if contributors = 0 then kMaxHiddenTileBytes
      else if channels_per_source \<le> 3 \<and> contributors = 2 then 6 * 1024
      else (let in_flight_budget = (if channels_per_source \<le> 4 then 16 * 1024 else kUbSlotBytes);
                bytes = in_flight_budget div contributors;
                bytes = bytes AND NOT (kPullDispatchAlignment - 1);
                bytes = (if bytes > kMaxHiddenTileBytes then kMaxHiddenTileBytes else bytes)
            in if bytes < kPullDispatchAlignment then kPullDispatchAlignment else bytes))"

definition ParserTokenBoundary :: "u32 \<Rightarrow> u32 \<Rightarrow> u32 \<Rightarrow> u32" where
  "ParserTokenBoundary token_count lane cohort =
     (let groups = (ucast token_count + 7) div 8;
          group = MulU64ByU32 groups lane div ucast cohort;
          token = group * 8
      in if token < ucast token_count then ucast token else token_count)"

subsection \<open>The arguments of a launch\<close>

definition parser_cohort :: "u32 \<Rightarrow> dispatch_launch \<Rightarrow> u32" where
  "parser_cohort blocks la = (if dl_worker_count la = 0 then 0 else blocks div dl_worker_count la)"

definition active_parser_blocks :: "u32 \<Rightarrow> dispatch_launch \<Rightarrow> u32" where
  "active_parser_blocks blocks la = parser_cohort blocks la * dl_worker_count la"

definition require :: "bool \<Rightarrow> unit option" where
  "require condition = (if condition then Some () else None)"

text \<open>\<open>launch_valid\<close>; the result is the layout of the scratch, the number of relay channels and the bytes of a
  row, which the kernel computes on the way.\<close>

definition dispatch_launch_valid ::
  "u32 \<Rightarrow> dispatch_launch \<Rightarrow> (ParserScratchLayout \<times> u64 \<times> u64) option" where
  "dispatch_launch_valid blocks la =
     (let dtype_bytes = DeviceDTypeBytes (dl_dtype la);
          cohort = parser_cohort blocks la;
          active = active_parser_blocks blocks la
      in if dl_worker_count la \<ge> 2 \<and> dl_worker_count la \<le> kPullDispatchMaxWorkers \<and>
            dl_expert_count la \<noteq> 0 \<and> dl_hidden la \<noteq> 0 \<and> dtype_bytes \<noteq> 0 \<and>
            dl_inc_pe la = dl_worker_count la \<and> dl_region_id la \<noteq> 0 \<and>
            dl_generation la \<noteq> 0 \<and> dl_sequence la \<noteq> 0 \<and> dl_ring_slot la < dl_slot_count la \<and>
            dl_source_slot_stride la \<ge> of_nat sizeof_SlotHeader \<and>
            dl_source_slot_stride la mod ucast kPullDispatchAlignment = 0 \<and>
            dl_metadata_inbox_stride la \<ge> of_nat sizeof_SlotHeader \<and>
            dl_metadata_inbox_stride la \<le> dl_source_slot_stride la \<and>
            dl_metadata_inbox_stride la mod ucast kPullDispatchAlignment = 0 \<and>
            dl_channels_per_source la \<noteq> 0 \<and> dl_spin_cap la \<noteq> 0 \<and> cohort \<noteq> 0 \<and>
            active > dl_worker_count la \<and>
            dl_journal_token_capacity la \<noteq> 0 \<and> dl_journal_token_capacity la \<le> 0xffffffff \<and>
            dl_journal_contributor_capacity la \<le> 0xffffffff \<and>
            dl_journal_assignment_capacity la \<le> 0xffffffff \<and>
            dl_destination_row_capacity la \<noteq> 0 \<and> dl_destination_row_capacity la \<le> 0xffffffff \<and>
            dl_destination_assignment_capacity la \<noteq> 0 \<and>
            dl_destination_assignment_capacity la \<le> 0xffffffff \<and>
            dl_inc_destination_rows_stride_bytes la mod ucast kPullDispatchAlignment = 0 \<and>
            dl_inc_destination_assignments_stride_bytes la mod ucast kPullDispatchAlignment = 0
         then do {
           channels \<leftarrow> CheckedMulU64ByU32 (ucast (dl_worker_count la)) (dl_channels_per_source la);
           require (channels \<le> ucast (active - dl_worker_count la));
           row_bytes \<leftarrow> CheckedMulU64ByU32 (ucast (dl_hidden la)) dtype_bytes;
           expert_counts \<leftarrow> CheckedMulU64ByU32 (ucast (dl_worker_count la)) (dl_expert_count la);
           require (expert_counts \<le> dl_expert_counts_capacity_entries la);
           prefix \<leftarrow> CheckedMulU64ByU32 (ucast (dl_worker_count la) + 1) (dl_worker_count la);
           require (prefix \<le> dl_source_destination_prefix_capacity_entries la);
           hidden_slot \<leftarrow> CheckedMulU64ByU32 row_bytes (ucast (dl_destination_row_capacity la));
           require (hidden_slot \<le> dl_destination_hidden_slot_stride la);
           rows_slot \<leftarrow> CheckedMulU64ByU32 40 (ucast (dl_destination_row_capacity la));
           require (rows_slot \<le> dl_destination_rows_slot_stride la \<and>
              rows_slot \<le> dl_inc_destination_rows_stride_bytes la);
           assignments_slot \<leftarrow> CheckedMulU64ByU32 32 (ucast (dl_destination_assignment_capacity la));
           require (assignments_slot \<le> dl_destination_assignments_slot_stride la \<and>
              assignments_slot \<le> dl_inc_destination_assignments_stride_bytes la);
           expert_slot \<leftarrow> CheckedMulU64ByU32 4 (dl_expert_count la);
           require (expert_slot \<le> dl_destination_expert_counts_slot_stride la);
           scratch \<leftarrow> BuildParserScratchLayout active (dl_worker_count la) (dl_expert_count la)
             (dl_parser_scratch_capacity_entries la);
           Some (scratch, channels, row_bytes)
         }
         else None)"

text \<open>The channels the launch function chooses when the caller leaves them open.\<close>

definition select_channels :: "u32 \<Rightarrow> u32 \<Rightarrow> u32 \<Rightarrow> u32" where
  "select_channels block_dim worker_count channels_per_source =
     (if channels_per_source = 0
      then (let portable_max = (if worker_count = 0 then 0 else if block_dim > worker_count
                then (block_dim - worker_count) div worker_count else 0)
            in if portable_max < kDefaultChannelsPerSource then portable_max
               else kDefaultChannelsPerSource)
      else channels_per_source)"

section \<open>The arithmetic is the one of the host\<close>

lemma AlignU64_power:
  assumes "k < 64"
  shows "AlignU64 v (2 ^ k) = Align v (2 ^ k)"
proof -
  have m: "(2 ^ k :: u64) - 1 = mask k" by (simp add: mask_eq_exp_minus_1)
  have nz: "(2 ^ k :: u64) \<noteq> 0" using assms by simp
  have pw: "(2 ^ k :: u64) AND mask k = 0"
    by (rule bit_word_eqI) (auto simp: bit_simps)
  have e: "e AND NOT (mask k) = e div 2 ^ k * 2 ^ k" for e :: u64
  proof -
    have "e AND NOT (mask k) = push_bit k (drop_bit k e)"
      by (rule bit_word_eqI) (auto simp: bit_simps)
    then show ?thesis by (simp add: drop_bit_eq_div push_bit_eq_mult)
  qed
  show ?thesis using nz pw by (simp add: AlignU64_def Align_def m AddU64_Add e cong: option.case_cong)
qed

lemma AlignU64_Align: "AlignU64 v 64 = Align v 64" "AlignU64 v 16 = Align v 16"
  using AlignU64_power [of 6 v] AlignU64_power [of 4 v] by simp_all

lemma CheckedMul_Mul: "CheckedMulU64ByU32 v f = Mul v (ucast f)"
  by (simp add: CheckedMulU64ByU32_Mul Mul_commute)

lemma DeviceDTypeBytes_eq: "DeviceDTypeBytes = DTypeBytes"
  by (simp add: fun_eq_iff DeviceDTypeBytes_def DTypeBytes_def)

lemma DeviceRouteKey_eq: "DeviceRouteKey = RouteKey"
  by (simp add: fun_eq_iff DeviceRouteKey_def RouteKey_def)

lemma exponent_bits: "w AND 0x7f800000 = push_bit 23 (drop_bit 23 w AND (255 :: u32))"
proof -
  have n: "(0x7f800000 :: u32) = push_bit 23 (mask 8)" and m: "(255 :: u32) = mask 8"
    by (simp_all add: mask_eq_exp_minus_1 push_bit_eq_mult)
  have "w AND push_bit 23 (mask 8) = push_bit 23 (drop_bit 23 w AND mask 8)"
    by (rule bit_word_eqI) (auto simp: bit_simps)
  then show ?thesis by (simp only: n m)
qed

lemma drop_push_byte: "drop_bit 23 (push_bit 23 (x AND 255)) = x AND (255 :: u32)"
proof -
  have "drop_bit 23 (push_bit 23 (x AND mask 8)) = x AND (mask 8 :: u32)"
    by (rule bit_word_eqI) (auto simp: bit_simps)
  moreover have "(255 :: u32) = mask 8" by (simp add: mask_eq_exp_minus_1)
  ultimately show ?thesis by simp
qed

lemma IsFinite_eq: "IsFinite w = isfinite w"
proof -
  have n: "(0x7f800000 :: u32) = push_bit 23 255" by (simp add: push_bit_eq_mult)
  show ?thesis
    unfolding IsFinite_def isfinite_def exponent_bits
    by (metis n drop_push_byte and.idem)
qed

lemma hash_zeroes: "fold (\<lambda>i h. HashByte h 0) [0..<n] h = HashBytes h (replicate n 0)"
proof (induction n arbitrary: h)
  case (Suc n)
  have "fold (\<lambda>i h. HashByte h 0) [0..<Suc n] h = HashByte (HashBytes h (replicate n 0)) 0" using Suc by simp
  also have "\<dots> = HashBytes h (replicate n 0 @ [0])" by (simp add: HashBytes_append HashByte_eq)
  also have "replicate n 0 @ [0] = replicate (Suc n) (0 :: u8)" by (simp add: replicate_append_same)
  finally show ?case .
qed simp

lemma le_bytes_0: "le_bytes n (0 :: 'a::len word) = replicate n 0"
  by (induction n) simp_all

lemma hash_cleared:
  assumes "bytes = pre @ le_bytes 8 (0 :: u64)" and "old = pre @ tail" and "length pre = n"
  shows "fold (\<lambda>i h. HashByte h 0) [0..<8] (HashGmBytes kHashOffset (take n old)) = HashBytes kHashOffset bytes"
  using assms by (simp add: hash_zeroes HashGmBytes_eq HashBytes_append le_bytes_0)

text \<open>The digests of the device, over the bytes in front of the last word and eight zeroes, are those of
  the host, over the record with its last word cleared.\<close>

lemma ReadyHash_eq: "ReadyHash ready = ReadyPublication ready"
proof -
  let ?pre = "le_bytes 4 (rdy_magic ready) @ le_bytes 2 (rdy_abi_version ready) @
     le_bytes 2 (rdy_struct_bytes ready) @ le_bytes 8 (rdy_session_id ready) @
     le_bytes 8 (rdy_placement_epoch ready) @ le_bytes 8 (rdy_generation ready) @
     le_bytes 8 (rdy_sequence ready) @ le_bytes 4 (rdy_wave ready) @ le_bytes 4 (rdy_source_rank ready) @
     le_bytes 4 (rdy_source_region_id ready) @ le_bytes 2 (rdy_ring_slot ready) @ le_bytes 2 (rdy_flags ready)"
  have "fold (\<lambda>i h. HashByte h 0) [0..<8] (HashGmBytes kHashOffset (take 56 (ready_bytes ready))) =
      HashBytes kHashOffset (ready_bytes (ready\<lparr>rdy_publication := 0\<rparr>))"
    by (rule hash_cleared [where pre = ?pre and tail = "le_bytes 8 (rdy_publication ready)"])
      (simp_all add: ready_bytes_def)
  then show ?thesis unfolding ReadyHash_def ReadyPublication_def Let_def by simp
qed

lemma header_hash_eq:
  "fold (\<lambda>i h. HashByte h 0) [0..<8] (HashGmBytes kHashOffset (take 120 (slot_header_bytes h))) =
     HashBytes kHashOffset (slot_header_bytes (h\<lparr>sh_metadata_digest := 0\<rparr>))"
proof (rule hash_cleared [where tail = "le_bytes 8 (sh_metadata_digest h)"])
  let ?pre = "le_bytes 4 (sh_magic h) @ le_bytes 2 (sh_abi_version h) @ le_bytes 2 (sh_header_bytes h) @
     le_bytes 8 (sh_session_id h) @ le_bytes 8 (sh_placement_epoch h) @
     le_bytes 8 (sh_generation h) @ le_bytes 8 (sh_sequence h) @
     le_bytes 4 (sh_wave h) @ le_bytes 4 (sh_source_rank h) @ le_bytes 4 (sh_source_region_id h) @
     le_bytes 2 (sh_ring_slot h) @ le_bytes 2 (sh_flags h) @
     le_bytes 4 (sh_worker_count h) @ le_bytes 4 (sh_token_count h) @
     le_bytes 4 (sh_assignment_count h) @ le_bytes 4 (sh_hidden h) @ le_bytes 4 (sh_dtype h) @
     le_bytes 4 (sh_token_record_bytes h) @ le_bytes 4 (sh_assignment_record_bytes h) @
     le_bytes 4 (sh_reserved0 h) @ le_bytes 8 (sh_tokens_offset h) @
     le_bytes 8 (sh_assignments_offset h) @ le_bytes 8 (sh_hidden_offset h) @ le_bytes 8 (sh_packet_bytes h)"
  show "slot_header_bytes (h\<lparr>sh_metadata_digest := 0\<rparr>) = ?pre @ le_bytes 8 (0 :: u64)"
    "slot_header_bytes h = ?pre @ le_bytes 8 (sh_metadata_digest h)" "length ?pre = 120"
    by (simp_all add: slot_header_bytes_def)
qed

section \<open>READY records and headers\<close>

text \<open>The session and the registration the arguments of a launch stand for.\<close>

definition launch_session :: "dispatch_launch \<Rightarrow> SessionConfig" where
  "launch_session la = \<lparr> ses_session_id = dl_session_id la, ses_placement_epoch = dl_placement_epoch la,
     ses_worker_count = dl_worker_count la, ses_expert_count = dl_expert_count la,
     ses_hidden = dl_hidden la, ses_dtype = dl_dtype la, ses_ring_slots = dl_slot_count la \<rparr>"

definition launch_region :: "dispatch_launch \<Rightarrow> u32 \<Rightarrow> RegionRegistration" where
  "launch_region la source = \<lparr> reg_session_id = dl_session_id la,
     reg_placement_epoch = dl_placement_epoch la, reg_source_rank = source,
     reg_region_id = dl_region_id la, reg_slot_count = dl_slot_count la,
     reg_alignment = kPullDispatchAlignment,
     reg_region_bytes = ucast (dl_slot_count la) * dl_source_slot_stride la,
     reg_slot_stride = dl_source_slot_stride la, reg_reserved = (0, 0) \<rparr>"

text \<open>The READY record is one of the wave the launch is for.\<close>

definition of_wave :: "dispatch_launch \<Rightarrow> Ready \<Rightarrow> bool" where
  "of_wave la ready \<longleftrightarrow> rdy_generation ready = dl_generation la \<and> rdy_sequence ready = dl_sequence la \<and>
     rdy_wave ready = dl_wave la \<and> rdy_ring_slot ready = ucast (dl_ring_slot la)"

lemma ReadyPublication_nonzero: "ReadyPublication ready \<noteq> 0"
  by (simp add: ReadyPublication_def Let_def)

lemma ReadyValid_iff:
  assumes "dl_generation la \<noteq> 0" and "dl_sequence la \<noteq> 0" and "source < dl_worker_count la"
  shows "ReadyValid ready source la \<longleftrightarrow>
     ready_accepted (launch_region la source) (launch_session la) ready \<and> of_wave la ready"
  using assms ReadyPublication_nonzero [of ready]
  by (auto simp: ReadyValid_def Let_def ReadyHash_eq ready_accepted_def launch_region_def launch_session_def of_wave_def)

lemma device_header_matches_iff:
  assumes "ReadyValid ready source la" and "dl_expert_count la \<noteq> 0" and "DeviceDTypeBytes (dl_dtype la) \<noteq> 0"
  shows "device_header_matches h source la \<longleftrightarrow> header_matches (launch_session la) ready h"
  using assms by (auto simp: device_header_matches_def header_matches_def ReadyValid_def Let_def launch_session_def)

lemma device_offsets_eq:
  assumes "sh_dtype h = ses_dtype s"
  shows "device_offsets h = map_option (snd \<circ> snd \<circ> snd) (parsed_offsets s h)"
proof -
  have al: "AlignU64 v (ucast kPullDispatchAlignment) = Align v (ucast kPullDispatchAlignment)" for v
    by (simp add: abi_consts AlignU64_Align)
  have ar: "AddU64 a b = Add a b" for a b by (simp add: AddU64_Add)
  have sw: "Mul (of_nat sizeof_TokenRecord) x = Mul x (of_nat sizeof_TokenRecord)"
    "Mul (of_nat sizeof_AssignmentRecord) x = Mul x (of_nat sizeof_AssignmentRecord)" for x
    by (rule Mul_commute)+
  show ?thesis
    unfolding device_offsets_def parsed_offsets_def hidden_size_def slot_offsets_def al ar CheckedMul_Mul sw DeviceDTypeBytes_eq assms
    by (simp add: map_option_bind comp_def)
qed

text \<open>
  A header passes on the device exactly when it passes on the host: it matches the READY record, its areas
  are where the counts put them, and the packet fits the slot of the source.
\<close>

lemma ValidateHeader_iff:
  assumes "ReadyValid ready source la" and "dl_expert_count la \<noteq> 0" and "DeviceDTypeBytes (dl_dtype la) \<noteq> 0"
  shows "ValidateHeader h source la = kStatusOk \<longleftrightarrow>
     header_matches (launch_session la) ready h \<and> (\<exists>ha. canonical_header (launch_session la) h ha) \<and>
     sh_packet_bytes h \<le> dl_source_slot_stride la"
proof (cases "header_matches (launch_session la) ready h")
  case False
  then show ?thesis
    using device_header_matches_iff [OF assms, of h] by (simp add: ValidateHeader_def device_status)
next
  case True
  let ?s = "launch_session la"
  have dev: "device_header_matches h source la" using True device_header_matches_iff [OF assms] by simp
  have dt: "sh_dtype h = ses_dtype ?s" using True by (simp add: header_matches_def)
  show ?thesis
  proof (cases "parsed_offsets ?s h")
    case None
    then have "\<not> (\<exists>ha. canonical_header ?s h ha)"
      using parsed_offsets_eq [of ?s h] by (auto simp: canonical_header_def)
    then show ?thesis using None dev by (simp add: ValidateHeader_def device_offsets_eq [OF dt] device_status)
  next
    case (Some r)
    obtain ta aa ha t a d pk where r: "r = (ta, aa, ha, t, a, d, pk)" by (cases r)
    have can: "canonical_header ?s h ha' \<longleftrightarrow> ha' = ha \<and> sh_tokens_offset h = t \<and> sh_assignments_offset h = a \<and>
        sh_hidden_offset h = d \<and> sh_packet_bytes h = pk" for ha'
      using Some unfolding r parsed_offsets_eq canonical_header_def by auto
    have off: "device_offsets h = Some (t, a, d, pk)" using Some r by (simp add: device_offsets_eq [OF dt])
    show ?thesis using True dev by (auto simp: ValidateHeader_def off can device_status not_less)
  qed
qed

text \<open>The digest and the padding of metadata that lies inside the inbox slice.\<close>

lemma DeviceMetadataDigest_eq:
  assumes "canonical_header s h ha" and "unat (sh_hidden_offset h) \<le> length slot"
  shows "DeviceMetadataDigest h slot = Inr (slot_digest slot h)"
  using canonical_header_areas [OF assms(1)] assms(2)
  by (simp add: DeviceMetadataDigest_def Let_def header_hash_eq [unfolded HashGmBytes_eq] slot_digest_def
      read_bytes_in area_sizes HashGmBytes_eq)

lemma zero_bytes_eq:
  assumes "\<forall>off \<in> set offs. off < length slot"
  shows "zero_bytes slot offs = Inr (\<forall>off \<in> set offs. slot ! off = 0)"
  using assms by (induction offs) auto

lemma HiddenPaddingZero_eq:
  assumes can: "canonical_header s h ha" and "unat (sh_hidden_offset h) \<le> length slot"
  shows "HiddenPaddingZero h slot = Inr (padding_zero slot h)"
proof -
  have "unat (sh_assignments_offset h + MulU64ByU32 (of_nat sizeof_AssignmentRecord) (sh_assignment_count h)) =
      unat (sh_assignments_offset h) + unat (sh_assignment_count h) * sizeof_AssignmentRecord"
    using canonical_header_areas(5) [OF can] by (simp add: MulU64ByU32_eq mult.commute)
  then show ?thesis
    using assms(2) by (simp add: HiddenPaddingZero_def Let_def zero_bytes_eq padding_zero_def)
qed

section \<open>The areas of the scratch\<close>

text \<open>The areas follow each other and end inside the scratch: no two of them share an entry.\<close>

lemma BuildParserScratchLayout_areas:
  assumes "BuildParserScratchLayout active workers experts capacity = Some l"
  shows "unat (sl_source_state l) + 16 * unat workers = unat (sl_source_error l)"
    and "unat (sl_source_error l) + 16 * unat workers = unat (sl_source_assignment_prefix l)"
    and "unat (sl_source_assignment_prefix l) + (unat workers + 1) \<le> unat (sl_block_status l)"
    and "unat (sl_block_status l) + 16 * unat active = unat (sl_block_contributors l)"
    and "unat (sl_block_contributors l) + 16 * unat active = unat (sl_block_rows l)"
    and "unat (sl_block_rows l) + unat (sl_row_stride l) * unat active = unat (sl_block_assignments l)"
    and "unat (sl_block_assignments l) + unat (sl_row_stride l) * unat active = unat (sl_block_experts l)"
    and "unat (sl_block_experts l) + unat (sl_expert_stride l) * unat active = unat (sl_metadata_tails l)"
    and "unat (sl_metadata_tails l) + 16 * unat workers = unat (sl_entries l)"
    and "unat (sl_entries l) \<le> unat capacity"
    and "unat workers \<le> unat (sl_row_stride l)" and "16 dvd unat (sl_row_stride l)"
    and "unat workers * unat experts \<le> unat (sl_expert_stride l)" and "16 dvd unat (sl_expert_stride l)"
proof -
  from assms obtain ev rs es se s1 s2 s3 bs be bc br re ba bx ee mt te en where
    ev: "Mul (ucast workers) (ucast experts) = Some ev"
    and rs: "Align (ucast workers) 16 = Some rs" and es: "Align ev 16 = Some es"
    and se: "Mul 16 (ucast workers) = Some se" and s1: "Add 0 se = Some s1" and s2: "Add s1 se = Some s2"
    and s3: "Add s2 (ucast workers + 1) = Some s3" and bs: "Align s3 16 = Some bs"
    and be: "Mul 16 (ucast active) = Some be" and bc: "Add bs be = Some bc" and br: "Add bc be = Some br"
    and re: "Mul rs (ucast active) = Some re" and ba: "Add br re = Some ba" and bx: "Add ba re = Some bx"
    and ee: "Mul es (ucast active) = Some ee" and mt: "Add bx ee = Some mt"
    and en: "Add mt se = Some en" and cap: "en \<le> capacity"
    and l: "l = \<lparr> sl_source_state = 0, sl_source_error = s1, sl_source_assignment_prefix = s2,
      sl_block_status = bs, sl_block_contributors = bc, sl_block_rows = br, sl_block_assignments = ba,
      sl_block_experts = bx, sl_metadata_tails = mt, sl_source_stride = 16, sl_block_stride = 16,
      sl_row_stride = rs, sl_expert_stride = es, sl_entries = en \<rparr>"
    unfolding BuildParserScratchLayout_def AlignU64_Align AddU64_Add CheckedMul_Mul
    by (fastforce simp: bind_eq_Some_conv split: if_split_asm)
  have w1: "unat (ucast workers + 1 :: u64) = unat workers + 1"
    using unsigned_less [of workers, where ?'a = nat] by (simp add: unat_word_ariths unat_ucast_u64)
  note sums = Add_unat [OF s1] Add_unat [OF s2] Add_unat [OF s3] Add_unat [OF bc] Add_unat [OF br]
    Add_unat [OF ba] Add_unat [OF bx] Add_unat [OF mt] Add_unat [OF en]
  note prods = Mul_unat [OF ev] Mul_unat [OF se] Mul_unat [OF be] Mul_unat [OF re] Mul_unat [OF ee]
  show "unat (sl_source_state l) + 16 * unat workers = unat (sl_source_error l)"
    "unat (sl_source_error l) + 16 * unat workers = unat (sl_source_assignment_prefix l)"
    "unat (sl_block_status l) + 16 * unat active = unat (sl_block_contributors l)"
    "unat (sl_block_contributors l) + 16 * unat active = unat (sl_block_rows l)"
    "unat (sl_block_rows l) + unat (sl_row_stride l) * unat active = unat (sl_block_assignments l)"
    "unat (sl_block_assignments l) + unat (sl_row_stride l) * unat active = unat (sl_block_experts l)"
    "unat (sl_block_experts l) + unat (sl_expert_stride l) * unat active = unat (sl_metadata_tails l)"
    "unat (sl_metadata_tails l) + 16 * unat workers = unat (sl_entries l)"
    using sums prods by (simp_all add: l unat_ucast_u64)
  show "unat (sl_source_assignment_prefix l) + (unat workers + 1) \<le> unat (sl_block_status l)"
    using Align_bounds(1) [OF bs] Add_unat [OF s3] w1 by (simp add: l)
  show "unat (sl_entries l) \<le> unat capacity" using cap by (simp add: l word_le_nat_alt)
  show "unat workers \<le> unat (sl_row_stride l)" "16 dvd unat (sl_row_stride l)"
    using Align_bounds [OF rs] by (simp_all add: l unat_ucast_u64)
  show "unat workers * unat experts \<le> unat (sl_expert_stride l)" "16 dvd unat (sl_expert_stride l)"
    using Align_bounds [OF es] prods(1) by (simp_all add: l unat_ucast_u64)
qed

section \<open>Lanes and tiles\<close>

definition lane_bound :: "nat \<Rightarrow> nat \<Rightarrow> nat \<Rightarrow> nat" where
  "lane_bound n c l = min n (8 * ((n + 7) div 8 * l div c))"

lemma lane_bound_0 [simp]: "lane_bound n c 0 = 0"
  by (simp add: lane_bound_def)

lemma lane_bound_last: "0 < c \<Longrightarrow> lane_bound n c c = n"
proof -
  assume "0 < c"
  moreover have "n \<le> 8 * ((n + 7) div 8)" by linarith
  ultimately show ?thesis by (simp add: lane_bound_def)
qed

lemma lane_bound_mono: "l \<le> l' \<Longrightarrow> lane_bound n c l \<le> lane_bound n c l'"
  unfolding lane_bound_def by (intro min.mono order_refl mult_le_mono2 div_le_mono)

lemma lane_bound_le [simp]: "lane_bound n c l \<le> n"
  by (simp add: lane_bound_def)

text \<open>Boundaries inside the tokens are multiples of eight.\<close>

lemma lane_bound_groups: "lane_bound n c l < n \<Longrightarrow> 8 dvd lane_bound n c l"
  by (auto simp: lane_bound_def min_def split: if_splits)

lemma unat_ParserTokenBoundary:
  assumes "lane \<le> cohort" and "cohort \<noteq> 0"
  shows "unat (ParserTokenBoundary n lane cohort) = lane_bound (unat n) (unat cohort) (unat lane)"
proof -
  let ?g = "(unat n + 7) div 8" and ?l = "unat lane" and ?c = "unat cohort"
  have n: "unat n < 2 ^ 32" and l: "?l < 2 ^ 32" and lc: "?l \<le> ?c" and c: "0 < ?c"
    using unsigned_less [of n, where ?'a = nat] unsigned_less [of lane, where ?'a = nat] assms
    by (simp_all add: word_le_nat_alt unat_gt_0)
  have "unat (ucast n + 7 :: u64) = unat n + 7"
    using n by (simp add: unat_word_ariths unat_ucast_u64)
  then have g: "unat ((ucast n + 7) div 8 :: u64) = ?g" by (simp add: unat_div)
  have gs: "?g < 2 ^ 30" using n by (simp add: div_less_iff_less_mult)
  have "?g * ?l < 2 ^ 30 * 2 ^ 32" by (rule mult_strict_mono) (use gs l in simp_all)
  then have prod: "unat (((ucast n + 7) div 8) * ucast lane :: u64) = ?g * ?l"
    by (subst unat_mult_lem [THEN iffD1]) (simp_all add: g unat_ucast_u64)
  have "?g * ?l div ?c \<le> ?g * ?c div ?c" using lc by (intro div_le_mono mult_le_mono2)
  then have quot: "?g * ?l div ?c \<le> ?g" using c by simp
  have tok: "unat ((((ucast n + 7) div 8) * ucast lane) div ucast cohort * 8 :: u64) = ?g * ?l div ?c * 8"
    using quot gs by (subst unat_mult_lem [THEN iffD1]) (simp_all add: unat_div prod unat_ucast_u64)
  have small: "unat (ucast x :: u32) = unat x" if "unat x < 2 ^ 32" for x :: u64
    using that by (simp add: unsigned_ucast_eq take_bit_nat_eq_self_iff)
  show ?thesis
    using tok n small
    by (auto simp: ParserTokenBoundary_def Let_def MulU64ByU32_eq lane_bound_def word_less_nat_alt unat_ucast_u64
        min_def mult.commute)
qed

text \<open>The lanes of a cohort share out the tokens: every token belongs to exactly one lane, in order.\<close>

lemma upt_blocks:
  assumes "\<And>l l'. l \<le> l' \<Longrightarrow> f l \<le> f l'"
  shows "concat (map (\<lambda>l. [f l..<f (Suc l)]) [0..<c]) = [f 0..<f c]"
proof (induction c)
  case (Suc c)
  have "[f 0..<f (Suc c)] = [f 0..<f c] @ [f c..<f (Suc c)]"
    using upt_add_eq_append [of "f 0" "f c" "f (Suc c) - f c"] assms [of 0 c] assms [of c "Suc c"] by simp
  then show ?case using Suc by simp
qed simp

lemma lanes_cover: "0 < c \<Longrightarrow> concat (map (\<lambda>l. [lane_bound n c l..<lane_bound n c (Suc l)]) [0..<c]) = [0..<n]"
  by (subst upt_blocks) (simp_all add: lane_bound_mono lane_bound_last)

lemma RelayTileBytes_bounds:
  assumes "contributors \<le> kPullDispatchMaxWorkers"
  shows "64 \<le> unat (RelayTileBytes contributors channels)"
    and "unat (RelayTileBytes contributors channels) \<le> 8192"
    and "64 dvd unat (RelayTileBytes contributors channels)"
    and "unat contributors * unat (RelayTileBytes contributors channels) \<le> 16384"
proof -
  let ?t = "RelayTileBytes contributors channels"
  have "64 \<le> unat ?t \<and> unat ?t \<le> 8192 \<and> 64 dvd unat ?t \<and> unat contributors * unat ?t \<le> 16384"
  proof (cases "contributors = 0 \<or> channels \<le> 3 \<and> contributors = 2")
    case True
    then show ?thesis by (auto simp: RelayTileBytes_def kMaxHiddenTileBytes_def)
  next
    case False
    define budget :: u32 where "budget = (if channels \<le> 4 then 16 * 1024 else kUbSlotBytes)"
    define b where "b = budget div contributors AND NOT (kPullDispatchAlignment - 1)"
    let ?c = "unat contributors"
    have c: "0 < ?c" "?c \<le> 128" using assms False by (simp_all add: word_le_nat_alt abi_consts unat_gt_0)
    have bud: "unat budget \<le> 16384" "12288 \<le> unat budget" by (simp_all add: budget_def kUbSlotBytes_def)
    have "x AND NOT 63 = x div 64 * 64" for x :: u32
    proof -
      have "x AND NOT (mask 6) = push_bit 6 (drop_bit 6 x)" by (rule bit_word_eqI) (auto simp: bit_simps)
      moreover have "(63 :: u32) = mask 6" by (simp add: mask_eq_exp_minus_1)
      ultimately show ?thesis by (simp add: drop_bit_eq_div push_bit_eq_mult)
    qed
    then have "b = budget div contributors div 64 * 64" by (simp add: b_def abi_consts)
    moreover have "unat budget div ?c div 64 * 64 < 2 ^ 32"
      by (rule le_less_trans [OF le_trans [OF div_times_less_eq_dividend le_trans [OF div_le_dividend bud(1)]]])
        simp
    ultimately have ub: "unat b = unat budget div ?c div 64 * 64"
      by (simp add: unat_mult_lem [THEN iffD1] unat_div)
    have "12288 div 128 \<le> unat budget div ?c"
      using c bud by (meson div_le_mono div_le_mono2 le_trans)
    then have low: "64 \<le> unat b" unfolding ub by simp
    have "?c * unat b \<le> ?c * (unat budget div ?c)" unfolding ub by (rule mult_le_mono2) simp
    also have "\<dots> \<le> 16384" using bud(1) by (meson le_trans times_div_less_eq_dividend)
    finally have prod: "?c * unat b \<le> 16384" .
    have t: "?t = (if b > kMaxHiddenTileBytes then kMaxHiddenTileBytes else b)"
      using False low unfolding RelayTileBytes_def Let_def budget_def [symmetric] b_def [symmetric]
      by (auto simp: word_less_nat_alt kPullDispatchAlignment_def kMaxHiddenTileBytes_def)
    have "?c * 8192 \<le> 16384" if "8192 < unat b"
      using prod that by (meson le_trans less_imp_le_nat mult_le_mono2)
    then show ?thesis
      using low prod ub unfolding t by (auto simp: kMaxHiddenTileBytes_def word_less_nat_alt not_less)
  qed
  then show "64 \<le> unat ?t" "unat ?t \<le> 8192" "64 dvd unat ?t" "unat contributors * unat ?t \<le> 16384" by auto
qed

end
