(* ===== verification/Dispatch_Parse.thy ===== *)
theory Dispatch_Parse
  imports Dispatch_Device Dispatch_Layout
begin

text \<open>
  The parsers of the dispatch kernel, its first phase. The blocks of a launch are grouped by source; the first
  lane of a group polls the READY record and validates the header, all lanes refresh their part of the
  metadata, and every lane then validates a run of tokens and counts what the run adds to each destination.
  A lane reads the record in front of its run too, which another lane validates. The theory shows that all
  lanes together accept what the host parser accepts, and that the counts are those of the rows to place.
\<close>

section \<open>Model\<close>

definition kParserMetadataReady :: u32 where "kParserMetadataReady = 0x40000000"
definition kSourceHeaderReady :: u32 where "kSourceHeaderReady = 1"
definition kSourceMetadataReady :: u32 where "kSourceMetadataReady = 2"

subsection \<open>Polling and the handshake of a source's lanes\<close>

text \<open>One element per spin: the READY record the spin reads and the header the inbox holds then.\<close>

fun poll_source_ready :: "u32 \<Rightarrow> dispatch_launch \<Rightarrow> (Ready \<times> SlotHeader) list \<Rightarrow> u32" where
  "poll_source_ready source la [] = kStatusReadyTimeout"
| "poll_source_ready source la ((ready, header) # spins) =
     (if rdy_publication ready = 0 then poll_source_ready source la spins
      else if rdy_generation ready \<noteq> dl_generation la \<or> rdy_sequence ready \<noteq> dl_sequence la \<or>
              rdy_wave ready \<noteq> dl_wave la \<or> ucast (rdy_ring_slot ready) \<noteq> dl_ring_slot la
      then poll_source_ready source la spins
      else if \<not> ReadyValid ready source la then kStatusInvalidReady
      else ValidateHeader header source la)"

text \<open>A wait on a cell: the values its spins read, up to the first that is not the idle value.\<close>

definition observe :: "u32 \<Rightarrow> u32 list \<Rightarrow> u32" where
  "observe idle spins = (case filter (\<lambda>v. v \<noteq> idle) spins of [] \<Rightarrow> idle | v # _ \<Rightarrow> v)"

definition header_cell :: "u32 \<Rightarrow> u32" where
  "header_cell local_status =
     (if local_status = kStatusOk then kSourceHeaderReady else kOrdinalVisited OR local_status)"

definition await_header :: "u32 list \<Rightarrow> u32" where
  "await_header spins =
     (let observed = observe 0 spins
      in if observed = 0 then kStatusReadyTimeout
         else if observed AND kOrdinalVisited \<noteq> 0 then observed AND NOT kOrdinalVisited
         else kStatusOk)"

text \<open>The cache lines of the metadata a lane refreshes.\<close>

definition refresh_lines :: "SlotHeader \<Rightarrow> u32 \<Rightarrow> u32 \<Rightarrow> u64 \<times> u64" where
  "refresh_lines h lane cohort =
     (let metadata_lines = (sh_hidden_offset h - sh_tokens_offset h) div ucast kPullDispatchAlignment
      in (MulU64ByU32 metadata_lines lane div ucast cohort,
          MulU64ByU32 metadata_lines (lane + 1) div ucast cohort))"

definition refresh_cell :: "u32 \<Rightarrow> u32" where
  "refresh_cell local_status =
     (if local_status = kStatusOk then kParserMetadataReady else kOrdinalVisited OR local_status)"

fun await_peers :: "u32 list list \<Rightarrow> u32" where
  "await_peers [] = kStatusOk"
| "await_peers (spins # peers) =
     (let observed = observe 0 spins
      in if observed = 0 then kStatusReadyTimeout
         else if observed \<noteq> kParserMetadataReady then observed AND NOT kOrdinalVisited
         else await_peers peers)"

definition check_metadata :: "SlotHeader \<Rightarrow> u8 list \<Rightarrow> (u32, u32) res" where
  "check_metadata h slot =
     rbind (HiddenPaddingZero h slot) (\<lambda>zero. Inr (if \<not> zero then kStatusInvalidHeader else kStatusOk))"

definition metadata_cell :: "u32 \<Rightarrow> u32" where
  "metadata_cell local_status =
     (if local_status = kStatusOk then kSourceMetadataReady else kOrdinalVisited OR local_status)"

definition await_metadata :: "u32 list \<Rightarrow> u32" where
  "await_metadata spins =
     (let observed = observe kSourceHeaderReady spins
      in if observed = kSourceHeaderReady then kStatusReadyTimeout
         else if observed AND kOrdinalVisited \<noteq> 0 then observed AND NOT kOrdinalVisited
         else if observed \<noteq> kSourceMetadataReady then kStatusInvalidState
         else kStatusOk)"

text \<open>What a lane goes through before it parses: the first lane with the spins of its poll, the other lanes
  with the spins of their waits on the cell of the source.\<close>

definition first_lane_status ::
  "u32 \<Rightarrow> dispatch_launch \<Rightarrow> (Ready \<times> SlotHeader) list \<Rightarrow> u32 list list \<Rightarrow> SlotHeader \<Rightarrow> u8 list \<Rightarrow>
     (u32, u32) res" where
  "first_lane_status source la spins peers h slot =
     (let local_status = poll_source_ready source la spins
      in if local_status \<noteq> kStatusOk then Inr local_status
         else if await_peers peers \<noteq> kStatusOk then Inr (await_peers peers)
         else check_metadata h slot)"

definition other_lane_status :: "u32 list \<Rightarrow> u32 list list \<Rightarrow> u32 list \<Rightarrow> u32" where
  "other_lane_status header_spins peers metadata_spins =
     (let local_status = await_header header_spins
      in if local_status \<noteq> kStatusOk then local_status
         else if await_peers peers \<noteq> kStatusOk then await_peers peers
         else await_metadata metadata_spins)"

subsection \<open>One token\<close>

record parser_counts =
  pc_contributors :: u32
  pc_rows :: "u32 list"
  pc_assignments :: "u32 list"
  pc_experts :: "u32 list"

definition check_record :: "SlotHeader \<Rightarrow> TokenRecord list \<Rightarrow> nat \<Rightarrow> (u32, TokenRecord) res" where
  "check_record h tokens token =
     rbind (vget tokens token) (\<lambda>record.
     rbind (if token = 0 then Inr (Some 0)
            else rbind (vget tokens (token - 1)) (\<lambda>previous.
              Inr (AddU64 (ucast (tok_assignment_begin previous)) (ucast (tok_assignment_count previous)))))
       (\<lambda>expected_begin.
         case (AddU64 (ucast (tok_assignment_begin record)) (ucast (tok_assignment_count record)),
               expected_begin) of
           (Some assignment_end, Some expected) \<Rightarrow>
             if tok_source_token record \<noteq> of_nat token \<or>
                ucast (tok_assignment_begin record) \<noteq> expected \<or>
                assignment_end > ucast (sh_assignment_count h) \<or>
                (of_nat token + 1 = sh_token_count h \<and> assignment_end \<noteq> ucast (sh_assignment_count h)) \<or>
                tok_reserved0 record \<noteq> 0 \<or> tok_reserved1 record \<noteq> 0
             then fail kStatusInvalidToken else Inr record
         | _ \<Rightarrow> fail kStatusInvalidToken))"

definition check_fields ::
  "dispatch_launch \<Rightarrow> TokenRecord \<Rightarrow> AssignmentRecord list \<Rightarrow> nat \<Rightarrow> unit \<Rightarrow> (u32, unit) res" where
  "check_fields la record assignments local _ =
     rbind (vget assignments (unat (tok_assignment_begin record) + local)) (\<lambda>assignment.
       if asg_destination_rank assignment \<ge> dl_worker_count la \<or>
          asg_expert_id assignment \<ge> dl_expert_count la \<or> \<not> IsFinite (asg_weight assignment) \<or>
          asg_ordinal assignment AND kOrdinalVisited \<noteq> 0 \<or>
          asg_ordinal assignment \<ge> tok_assignment_count record
       then fail kStatusInvalidAssignment else Inr ())"

definition bit_word :: "u32 \<Rightarrow> nat" where
  "bit_word index = unat (drop_bit 5 index)"

definition bit_mask :: "u32 \<Rightarrow> u32" where
  "bit_mask index = push_bit (unat (index AND 31)) 1"

definition mark_ordinal ::
  "TokenRecord \<Rightarrow> AssignmentRecord list \<Rightarrow> nat \<Rightarrow> u32 list \<Rightarrow> (u32, u32 list) res" where
  "mark_ordinal record assignments local ordinal_bits =
     rbind (vget assignments (unat (tok_assignment_begin record + of_nat local))) (\<lambda>assignment.
     rbind (vget ordinal_bits (bit_word (asg_ordinal assignment))) (\<lambda>bits.
       if bits AND bit_mask (asg_ordinal assignment) \<noteq> 0 then fail kStatusInvalidAssignment
       else vput ordinal_bits (bit_word (asg_ordinal assignment)) (bits OR bit_mask (asg_ordinal assignment))))"

definition compare_ordinals ::
  "TokenRecord \<Rightarrow> AssignmentRecord list \<Rightarrow> nat \<Rightarrow> unit \<Rightarrow> (u32, unit) res" where
  "compare_ordinals record assignments local _ =
     rbind (vget assignments (unat (tok_assignment_begin record + of_nat local))) (\<lambda>assignment.
       mfold (\<lambda>previous _.
           rbind (vget assignments (unat (tok_assignment_begin record + of_nat previous))) (\<lambda>earlier.
             if asg_ordinal earlier = asg_ordinal assignment then fail kStatusInvalidAssignment
             else Inr ()))
         [0..<local] ())"

fun count_assignment ::
  "dispatch_launch \<Rightarrow> TokenRecord \<Rightarrow> AssignmentRecord list \<Rightarrow> nat \<Rightarrow> u32 list \<times> parser_counts \<Rightarrow>
     (u32, u32 list \<times> parser_counts) res" where
  "count_assignment la record assignments local (destination_bits, counts) =
     rbind (vget assignments (unat (tok_assignment_begin record) + local)) (\<lambda>assignment.
     let destination = unat (asg_destination_rank assignment);
         word = bit_word (asg_destination_rank assignment);
         mask = bit_mask (asg_destination_rank assignment)
     in rbind (vget destination_bits word) (\<lambda>bits.
        rbind (if bits AND mask = 0
               then rbind (vget (pc_rows counts) destination) (\<lambda>rows.
                 if rows = 0xffffffff \<or> pc_contributors counts = 0xffffffff
                 then fail kStatusCapacityExceeded
                 else Inr (destination_bits[word := bits OR mask],
                   counts\<lparr>pc_rows := (pc_rows counts)[destination := rows + 1],
                          pc_contributors := pc_contributors counts + 1\<rparr>))
               else Inr (destination_bits, counts))
          (\<lambda>(destination_bits, counts).
            rbind (vget (pc_assignments counts) destination) (\<lambda>assigned.
            if assigned = 0xffffffff then fail kStatusCapacityExceeded
            else
              let expert_index = unat (ucast (asg_destination_rank assignment) * ucast (dl_expert_count la) +
                    ucast (asg_expert_id assignment) :: u64)
              in rbind (vget (pc_experts counts) expert_index) (\<lambda>n.
                 if n = 0xffffffff then fail kStatusCapacityExceeded
                 else Inr (destination_bits,
                   counts\<lparr>pc_assignments := (pc_assignments counts)[destination := assigned + 1],
                          pc_experts := (pc_experts counts)[expert_index := n + 1]\<rparr>))))))"

definition parse_token ::
  "dispatch_launch \<Rightarrow> SlotHeader \<Rightarrow> TokenRecord list \<Rightarrow> AssignmentRecord list \<Rightarrow> nat \<Rightarrow> parser_counts \<Rightarrow>
     (u32, parser_counts) res" where
  "parse_token la h tokens assignments token counts =
     rbind (check_record h tokens token) (\<lambda>record.
     let n = unat (tok_assignment_count record)
     in rbind (mfold (check_fields la record assignments) [0..<n] ()) (\<lambda>_.
        rbind (if tok_assignment_count record \<le> 128
               then rbind (mfold (mark_ordinal record assignments) [0..<n] [0, 0, 0, 0]) (\<lambda>_. Inr ())
               else mfold (compare_ordinals record assignments) [0..<n] ()) (\<lambda>_.
        rbind (mfold (count_assignment la record assignments) [0..<n] ([0, 0, 0, 0], counts))
          (\<lambda>(destination_bits, counts). Inr counts))))"

subsection \<open>One lane\<close>

definition no_counts :: "dispatch_launch \<Rightarrow> parser_counts" where
  "no_counts la = \<lparr> pc_contributors = 0, pc_rows = replicate (unat (dl_worker_count la)) 0,
     pc_assignments = replicate (unat (dl_worker_count la)) 0,
     pc_experts = replicate (unat (ucast (dl_worker_count la) * ucast (dl_expert_count la) :: u64)) 0 \<rparr>"

definition lane_tokens :: "SlotHeader \<Rightarrow> u32 \<Rightarrow> u32 \<Rightarrow> nat list" where
  "lane_tokens h lane cohort =
     [unat (ParserTokenBoundary (sh_token_count h) lane cohort)..<
      unat (ParserTokenBoundary (sh_token_count h) (lane + 1) cohort)]"

definition parse_lane ::
  "dispatch_launch \<Rightarrow> SlotHeader \<Rightarrow> TokenRecord list \<Rightarrow> AssignmentRecord list \<Rightarrow> u32 \<Rightarrow> u32 \<Rightarrow>
     (u32, parser_counts) res" where
  "parse_lane la h tokens assignments lane cohort =
     (if lane = 0 \<and> sh_token_count h = 0 \<and> sh_assignment_count h \<noteq> 0 then fail kStatusInvalidToken
      else mfold (parse_token la h tokens assignments) (lane_tokens h lane cohort) (no_counts la))"

section \<open>Loops over a run of assignments\<close>

lemma mfold_elements:
  assumes "length as = n" and "\<And>l u. l < n \<Longrightarrow> f l u = g (as ! l) u"
  shows "mfold f [0..<n] s = mfold g as s"
proof -
  have "mfold g as s = mfold g (map ((!) as) [0..<n]) s" using assms(1) map_nth [of as] by simp
  also have "\<dots> = mfold f [0..<n] s" unfolding mfold_map by (rule mfold_cong) (use assms(2) in auto)
  finally show ?thesis by simp
qed

lemma mfold_checks:
  "mfold (\<lambda>x _. if P x then Inr () else fail e) xs () = (if \<forall>x \<in> set xs. P x then Inr () else fail e)"
  by (induction xs) auto

text \<open>Four words of bits are a set of numbers below 128.\<close>

definition bit_set :: "u32 list \<Rightarrow> nat set" where
  "bit_set bits = {i. i < 128 \<and> bit (bits ! (i div 32)) (i mod 32)}"

lemma bit_set_empty: "bit_set [0, 0, 0, 0] = {}"
proof -
  have "[0, 0, 0, 0] ! (i div 32) = (0 :: u32)" if "i < 128" for i :: nat
  proof -
    have "i div 32 < 4" using that by (simp add: div_less_iff_less_mult)
    then consider "i div 32 = 0" | "i div 32 = 1" | "i div 32 = 2" | "i div 32 = 3" by linarith
    then show ?thesis by cases simp_all
  qed
  then show ?thesis by (auto simp: bit_set_def)
qed

lemma bit_position:
  assumes "unat i < 128"
  shows "bit_word i = unat i div 32" and "bit_word i < 4" and "bit_mask i = push_bit (unat i mod 32) 1"
proof -
  have m: "(31 :: u32) = mask 5" by (simp add: mask_eq_exp_minus_1)
  show w: "bit_word i = unat i div 32" by (simp add: bit_word_def drop_bit_eq_div unat_div)
  show "bit_word i < 4" unfolding w using assms by (simp add: div_less_iff_less_mult)
  have "unat (i AND 31) = unat i mod 32"
    unfolding m by (simp add: take_bit_eq_mask [symmetric] take_bit_eq_mod unat_mod)
  then show "bit_mask i = push_bit (unat i mod 32) 1" by (simp add: bit_mask_def)
qed

lemma bit_test:
  assumes "unat i < 128"
  shows "bits ! bit_word i AND bit_mask i \<noteq> 0 \<longleftrightarrow> unat i \<in> bit_set bits"
  using assms by (simp add: bit_position bit_set_def bit_iff_and_push_bit_not_eq_0)

lemma bit_mark:
  assumes "unat i < 128" and "length bits = 4"
  shows "bit_set (bits[bit_word i := bits ! bit_word i OR bit_mask i]) = insert (unat i) (bit_set bits)"
proof -
  have "bit (bits[unat i div 32 := bits ! (unat i div 32) OR push_bit (unat i mod 32) 1] ! (j div 32)) (j mod 32) \<longleftrightarrow>
      j = unat i \<or> bit (bits ! (j div 32)) (j mod 32)" if "j < 128" for j
  proof (cases "j div 32 = unat i div 32")
    case True
    have "j mod 32 = unat i mod 32 \<longleftrightarrow> j = unat i" using True by (metis div_mult_mod_eq)
    moreover have "unat i div 32 < length bits" using assms bit_position(1,2) [OF assms(1)] by simp
    ultimately show ?thesis using True by (auto simp: bit_simps)
  next
    case False
    then show ?thesis by auto
  qed
  then show ?thesis using assms(1) by (auto simp: bit_set_def bit_position)
qed

section \<open>One token\<close>

text \<open>What a token must be, given the record in front of it.\<close>

definition token_wf :: "SessionConfig \<Rightarrow> TokenRecord list \<Rightarrow> AssignmentRecord list \<Rightarrow> nat \<Rightarrow> bool" where
  "token_wf s tokens all k \<longleftrightarrow>
     (let t = tokens ! k; b = unat (tok_assignment_begin t); n = unat (tok_assignment_count t)
      in tok_source_token t = of_nat k \<and>
         b = (if k = 0 then 0 else unat (tok_assignment_begin (tokens ! (k - 1))) +
                unat (tok_assignment_count (tokens ! (k - 1)))) \<and>
         b + n \<le> length all \<and> (Suc k = length tokens \<longrightarrow> b + n = length all) \<and>
         tok_reserved0 t = 0 \<and> tok_reserved1 t = 0 \<and> assignments_wf s n (vslice all b (b + n)))"

lemma csr_wf_tokens_from:
  assumes "tokens = pre @ ts" and "k = length pre"
    and "b = (if k = 0 then 0 else unat (tok_assignment_begin (tokens ! (k - 1))) +
           unat (tok_assignment_count (tokens ! (k - 1))))"
  shows "csr_wf s all k b ts \<longleftrightarrow>
     (\<forall>i. k \<le> i \<and> i < length tokens \<longrightarrow> token_wf s tokens all i) \<and> (ts = [] \<longrightarrow> b = length all)"
  using assms
proof (induction ts arbitrary: pre k b)
  case Nil
  then show ?case by auto
next
  case (Cons t ts)
  let ?n = "unat (tok_assignment_count t)"
  have tk: "tokens ! k = t" "k < length tokens" using Cons.prems(1,2) by auto
  have IH: "csr_wf s all (Suc k) (b + ?n) ts \<longleftrightarrow>
     (\<forall>i. Suc k \<le> i \<and> i < length tokens \<longrightarrow> token_wf s tokens all i) \<and> (ts = [] \<longrightarrow> b + ?n = length all)"
    if "unat (tok_assignment_begin t) = b"
    by (rule Cons.IH [of "pre @ [t]"]) (use Cons.prems tk that in simp_all)
  have last: "ts = [] \<longleftrightarrow> Suc k = length tokens" using Cons.prems(1,2) by auto
  have split: "(\<forall>i. k \<le> i \<and> i < length tokens \<longrightarrow> Q i) \<longleftrightarrow>
      Q k \<and> (\<forall>i. Suc k \<le> i \<and> i < length tokens \<longrightarrow> Q i)" for Q
    using tk(2) by (auto simp: le_less [of k] Suc_le_eq)
  have tok: "token_wf s tokens all k \<longleftrightarrow> tok_source_token t = of_nat k \<and> unat (tok_assignment_begin t) = b \<and>
      b + ?n \<le> length all \<and> (ts = [] \<longrightarrow> b + ?n = length all) \<and> tok_reserved0 t = 0 \<and> tok_reserved1 t = 0 \<and>
      assignments_wf s ?n (vslice all b (b + ?n))"
    unfolding token_wf_def Let_def tk(1) last using Cons.prems(3) by auto
  show ?case
  proof (cases "unat (tok_assignment_begin t) = b")
    case True
    show ?thesis
      unfolding csr_wf.simps split [of "token_wf s tokens all"] tok True IH [OF True] by blast
  next
    case False
    then show ?thesis unfolding split [of "token_wf s tokens all"] tok by simp
  qed
qed

lemma csr_wf_tokens:
  "csr_wf s all 0 0 tokens \<longleftrightarrow>
     (\<forall>k < length tokens. token_wf s tokens all k) \<and> (tokens = [] \<longrightarrow> all = [])"
  using csr_wf_tokens_from [of tokens "[]" tokens 0 0 s all] by auto

lemma check_record_iff:
  assumes "length tokens = unat (sh_token_count h)" and "length all = unat (sh_assignment_count h)"
    and "k < length tokens"
  shows "check_record h tokens k =
     (let t = tokens ! k; b = unat (tok_assignment_begin t); n = unat (tok_assignment_count t)
      in if tok_source_token t = of_nat k \<and>
         b = (if k = 0 then 0 else unat (tok_assignment_begin (tokens ! (k - 1))) +
                unat (tok_assignment_count (tokens ! (k - 1)))) \<and>
         b + n \<le> length all \<and> (Suc k = length tokens \<longrightarrow> b + n = length all) \<and>
         tok_reserved0 t = 0 \<and> tok_reserved1 t = 0
       then Inr t else fail kStatusInvalidToken)"
proof -
  have small: "unat (w :: u32) < 2 ^ 32" for w using unsigned_less [of w, where ?'a = nat] by simp
  have add: "AddU64 (ucast a) (ucast b) = Some (ucast a + ucast b)"
    "unat (ucast a + ucast b :: u64) = unat a + unat b" for a b :: u32
  proof -
    have "unat (ucast a :: u64) + unat (ucast b :: u64) < 2 ^ 64"
      using small [of a] small [of b] by (simp add: unat_ucast_u64)
    then show "AddU64 (ucast a) (ucast b) = Some (ucast a + ucast b)"
      "unat (ucast a + ucast b :: u64) = unat a + unat b"
      by (simp_all add: AddU64_Add Add_eq_Some unat_add_lem [THEN iffD1] unat_ucast_u64)
  qed
  have last: "of_nat k + 1 = sh_token_count h \<longleftrightarrow> Suc k = length tokens"
  proof -
    have "of_nat k + 1 = (of_nat (Suc k) :: u32)" by (simp add: add.commute)
    moreover have "Suc k < 2 ^ 32" using assms(1,3) small [of "sh_token_count h"] by linarith
    ultimately show ?thesis using assms(1) by (simp only: word_unat_eq_iff unat_of_nat_u32)
  qed
  have eqs: "(ucast a :: u64) = ucast b + ucast c \<longleftrightarrow> unat a = unat b + unat c"
    "ucast b + ucast c = (ucast a :: u64) \<longleftrightarrow> unat b + unat c = unat a"
    "(ucast a :: u64) < ucast b + ucast c \<longleftrightarrow> unat a < unat b + unat c" for a b c :: u32
    by (simp_all add: word_unat_eq_iff word_less_nat_alt add unat_ucast_u64)
  have zero: "(ucast a :: u64) = 0 \<longleftrightarrow> unat a = 0" for a :: u32
    by (simp add: word_unat_eq_iff unat_ucast_u64)
  let ?t = "tokens ! k" and ?p = "tokens ! (k - 1)"
  let ?b = "unat (tok_assignment_begin ?t)" and ?n = "unat (tok_assignment_count ?t)"
  let ?e = "if k = 0 then 0 else unat (tok_assignment_begin ?p) + unat (tok_assignment_count ?p)"
  let ?exp = "if k = 0 then 0 else ucast (tok_assignment_begin ?p) + ucast (tok_assignment_count ?p) :: u64"
  have 1: "(if k = 0 then Inr (Some 0) else rbind (vget tokens (k - 1)) (\<lambda>previous. Inr (Some
      (ucast (tok_assignment_begin previous) + ucast (tok_assignment_count previous))))) = Inr (Some ?exp)"
    using assms(3) by simp
  have 2: "ucast (tok_assignment_begin ?t) \<noteq> ?exp \<longleftrightarrow> ?b \<noteq> ?e" by (simp add: eqs zero)
  have 3: "ucast (tok_assignment_begin ?t) + ucast (tok_assignment_count ?t) > (ucast (sh_assignment_count h) :: u64) \<longleftrightarrow>
      \<not> ?b + ?n \<le> length all"
    by (simp add: eqs assms(2) not_le)
  have 4: "ucast (tok_assignment_begin ?t) + ucast (tok_assignment_count ?t) \<noteq> (ucast (sh_assignment_count h) :: u64) \<longleftrightarrow>
      ?b + ?n \<noteq> length all"
    by (simp add: eqs assms(2))
  have "check_record h tokens k = (if tok_source_token ?t \<noteq> of_nat k \<or> ?b \<noteq> ?e \<or> \<not> ?b + ?n \<le> length all \<or>
      (Suc k = length tokens \<and> ?b + ?n \<noteq> length all) \<or> tok_reserved0 ?t \<noteq> 0 \<or> tok_reserved1 ?t \<noteq> 0
      then fail kStatusInvalidToken else Inr ?t)"
    unfolding check_record_def vget_in [OF assms(3)] rbind_Inr add(1)
    unfolding 1 rbind_Inr prod.case option.case 2 3 4 last
    by (rule refl)
  then show ?thesis unfolding Let_def by (simp only: de_Morgan_disj de_Morgan_conj not_not not_imp) auto
qed

lemma nth_vslice: "b + l < e \<Longrightarrow> e \<le> length xs \<Longrightarrow> vslice xs b e ! l = xs ! (b + l)"
  by (simp add: vslice_def)

lemma visited_bit: "x AND kOrdinalVisited \<noteq> 0 \<longleftrightarrow> \<not> unat x < 2 ^ 31"
proof -
  have "kOrdinalVisited = push_bit 31 1" by (simp add: kOrdinalVisited_def push_bit_eq_mult)
  then have "x AND kOrdinalVisited \<noteq> 0 \<longleftrightarrow> bit x 31" by (simp add: bit_iff_and_push_bit_not_eq_0)
  also have "bit x 31 = bit (unat x) 31" by (simp add: bit_unsigned_iff)
  also have "\<dots> \<longleftrightarrow> odd (unat x div 2 ^ 31)" by (simp only: bit_iff_odd)
  also have "\<dots> \<longleftrightarrow> \<not> unat x < 2 ^ 31"
  proof -
    have "unat x div 2 ^ 31 < 2"
      using unsigned_less [of x, where ?'a = nat] by (simp add: div_less_iff_less_mult)
    then have "odd (unat x div 2 ^ 31) \<longleftrightarrow> unat x div 2 ^ 31 \<noteq> 0"
      by (metis even_zero less_2_cases odd_one One_nat_def)
    then show ?thesis by (simp add: div_eq_0_iff)
  qed
  finally show ?thesis .
qed

definition fields_ok :: "dispatch_launch \<Rightarrow> nat \<Rightarrow> AssignmentRecord \<Rightarrow> bool" where
  "fields_ok la n a \<longleftrightarrow> asg_destination_rank a < dl_worker_count la \<and> asg_expert_id a < dl_expert_count la \<and>
     isfinite (asg_weight a) \<and> unat (asg_ordinal a) < 2 ^ 31 \<and> unat (asg_ordinal a) < n"

lemma check_fields_run:
  assumes "b = unat (tok_assignment_begin t)" and "n = unat (tok_assignment_count t)" and "b + n \<le> length all"
  shows "mfold (check_fields la t all) [0..<n] () =
     (if \<forall>a \<in> set (vslice all b (b + n)). fields_ok la n a then Inr () else fail kStatusInvalidAssignment)"
proof -
  have "mfold (check_fields la t all) [0..<n] () =
      mfold (\<lambda>a _. if fields_ok la n a then Inr () else fail kStatusInvalidAssignment) (vslice all b (b + n)) ()"
  proof (rule mfold_elements)
    fix l and u :: unit assume "l < n"
    then show "check_fields la t all l u = (if fields_ok la n (vslice all b (b + n) ! l) then Inr ()
        else fail kStatusInvalidAssignment)"
      using assms visited_bit
      by (auto simp: check_fields_def fields_ok_def nth_vslice IsFinite_eq not_le not_less word_less_nat_alt
          word_le_nat_alt)
  qed (use assms in simp)
  then show ?thesis by (simp only: mfold_checks)
qed

lemma mark_run:
  fixes as :: "AssignmentRecord list"
  defines "step \<equiv> \<lambda>a bits. rbind (vget bits (bit_word (asg_ordinal a))) (\<lambda>w.
       if w AND bit_mask (asg_ordinal a) \<noteq> 0 then fail kStatusInvalidAssignment
       else vput bits (bit_word (asg_ordinal a)) (w OR bit_mask (asg_ordinal a)))"
  assumes "\<forall>a \<in> set as. unat (asg_ordinal a) < 128" and "length bits = 4"
  shows "if distinct (map asg_ordinal as) \<and> (\<forall>a \<in> set as. unat (asg_ordinal a) \<notin> bit_set bits)
    then \<exists>bits'. mfold step as bits = Inr bits' else mfold step as bits = fail kStatusInvalidAssignment"
  using assms(2,3)
proof (induction as arbitrary: bits)
  case (Cons a as)
  let ?o = "asg_ordinal a"
  let ?bits = "bits[bit_word ?o := bits ! bit_word ?o OR bit_mask ?o]"
  have o: "unat ?o < 128" "bit_word ?o < length bits" using Cons.prems bit_position(2) by auto
  have st: "step a bits = (if unat ?o \<in> bit_set bits then fail kStatusInvalidAssignment else Inr ?bits)"
    using o bit_test [OF o(1), of bits] by (auto simp: step_def)
  have "bit_set ?bits = insert (unat ?o) (bit_set bits)" using bit_mark [OF o(1)] Cons.prems(2) .
  moreover have "unat (asg_ordinal x) = unat ?o \<longleftrightarrow> asg_ordinal x = ?o" for x :: AssignmentRecord
    by (simp add: word_unat_eq_iff)
  ultimately show ?case
    using Cons.IH [of ?bits] Cons.prems by (auto simp: st split: if_splits) (metis image_eqI)+
qed simp

lemma compare_run:
  assumes "b = unat (tok_assignment_begin t)" and "n = unat (tok_assignment_count t)" and "b + n \<le> length all"
    and "length all < 2 ^ 32"
  shows "mfold (compare_ordinals t all) [0..<n] () =
     (if distinct (map asg_ordinal (vslice all b (b + n))) then Inr () else fail kStatusInvalidAssignment)"
proof -
  let ?as = "vslice all b (b + n)"
  have ix: "vget all (unat (tok_assignment_begin t + of_nat l)) = Inr (?as ! l)" if "l < n" for l
  proof -
    have "unat (tok_assignment_begin t + of_nat l) = b + l"
      using that assms by (subst unat_add_of_nat) simp_all
    then show ?thesis using that assms(3) by (simp add: nth_vslice)
  qed
  have "compare_ordinals t all l u = (if \<forall>k < l. asg_ordinal (?as ! k) \<noteq> asg_ordinal (?as ! l) then Inr ()
      else fail kStatusInvalidAssignment)" if "l < n" for l u
  proof -
    have "compare_ordinals t all l u = mfold (\<lambda>k _. if asg_ordinal (?as ! k) \<noteq> asg_ordinal (?as ! l) then Inr ()
        else fail kStatusInvalidAssignment) [0..<l] ()"
      unfolding compare_ordinals_def ix [OF that] rbind_Inr
      by (rule mfold_cong) (use that in \<open>auto simp: ix\<close>)
    then show ?thesis by (simp only: mfold_checks) auto
  qed
  then have "mfold (compare_ordinals t all) [0..<n] () = mfold (\<lambda>l _. if \<forall>k < l. asg_ordinal (?as ! k) \<noteq>
      asg_ordinal (?as ! l) then Inr () else fail kStatusInvalidAssignment) [0..<n] ()"
    by (intro mfold_cong) auto
  also have "\<dots> = (if \<forall>l < n. \<forall>k < l. asg_ordinal (?as ! k) \<noteq> asg_ordinal (?as ! l) then Inr ()
      else fail kStatusInvalidAssignment)"
    by (simp only: mfold_checks) auto
  also have "(\<forall>l < n. \<forall>k < l. asg_ordinal (?as ! k) \<noteq> asg_ordinal (?as ! l)) \<longleftrightarrow> distinct (map asg_ordinal ?as)"
    using assms(3) by (auto simp: distinct_conv_nth) (metis linorder_neqE_nat)
  finally show ?thesis .
qed

text \<open>Whichever way the ordinals are compared, they pass exactly when they are different.\<close>

lemma ordinals_run:
  assumes "b = unat (tok_assignment_begin t)" and "n = unat (tok_assignment_count t)" and "b + n \<le> length all"
    and "length all < 2 ^ 32" and "\<forall>a \<in> set (vslice all b (b + n)). unat (asg_ordinal a) < n"
  shows "(if tok_assignment_count t \<le> 128
      then rbind (mfold (mark_ordinal t all) [0..<n] [0, 0, 0, 0]) (\<lambda>_. Inr ())
      else mfold (compare_ordinals t all) [0..<n] ()) =
    (if distinct (map asg_ordinal (vslice all b (b + n))) then Inr () else fail kStatusInvalidAssignment)"
proof (cases "tok_assignment_count t \<le> 128")
  case False
  then show ?thesis using compare_run [OF assms(1-4)] by simp
next
  case True
  let ?as = "vslice all b (b + n)"
  have n: "n \<le> 128" using True assms(2) by (simp add: word_le_nat_alt)
  have idx: "unat (tok_assignment_begin t + of_nat l) = b + l" if "l < n" for l
    using that assms by (subst unat_add_of_nat) simp_all
  have "mfold (mark_ordinal t all) [0..<n] [0, 0, 0, 0] =
      mfold (\<lambda>a bits. rbind (vget bits (bit_word (asg_ordinal a))) (\<lambda>w.
        if w AND bit_mask (asg_ordinal a) \<noteq> 0 then fail kStatusInvalidAssignment
        else vput bits (bit_word (asg_ordinal a)) (w OR bit_mask (asg_ordinal a)))) ?as [0, 0, 0, 0]"
    by (rule mfold_elements) (use assms(3) in \<open>simp_all add: mark_ordinal_def idx nth_vslice cong: if_cong\<close>)
  moreover have "\<forall>a \<in> set ?as. unat (asg_ordinal a) < 128" using assms(5) n by fastforce
  note mark_run [OF this, of "[0, 0, 0, 0]"]
  ultimately show ?thesis
    using True by (auto simp: bit_set_empty split: if_splits)
qed

lemma few_ordinals:
  assumes "distinct (map asg_ordinal as)" and "\<forall>a \<in> set as. unat (asg_ordinal a) < m"
  shows "length as \<le> m"
proof -
  have "distinct (map (unat \<circ> asg_ordinal) as)"
    using assms(1) by (auto simp: distinct_map inj_on_def word_unat_eq_iff)
  then have "length as = card (set (map (unat \<circ> asg_ordinal) as))" by (metis distinct_card length_map)
  also have "\<dots> \<le> card {0..<m}" by (rule card_mono) (use assms(2) in auto)
  finally show ?thesis by simp
qed

text \<open>
  What the device accepts of a run is what the host accepts, up to the length of the run: the device wants
  the top bit of an ordinal clear, so a token with more than \<open>2 ^ 31\<close> assignments never passes.
\<close>

lemma run_wf_iff:
  assumes "length as = n"
  shows "(\<forall>a \<in> set as. fields_ok la n a) \<and> distinct (map asg_ordinal as) \<longleftrightarrow>
     assignments_wf (launch_session la) n as \<and> n \<le> 2 ^ 31"
proof
  assume l: "(\<forall>a \<in> set as. fields_ok la n a) \<and> distinct (map asg_ordinal as)"
  then have "length as \<le> 2 ^ 31" by (intro few_ordinals) (auto simp: fields_ok_def)
  with l assms show "assignments_wf (launch_session la) n as \<and> n \<le> 2 ^ 31"
    by (auto simp: assignments_wf_def fields_ok_def launch_session_def)
next
  assume "assignments_wf (launch_session la) n as \<and> n \<le> 2 ^ 31"
  then show "(\<forall>a \<in> set as. fields_ok la n a) \<and> distinct (map asg_ordinal as)"
    by (auto simp: assignments_wf_def fields_ok_def launch_session_def intro: less_le_trans)
qed

section \<open>Counting\<close>

abbreviation to_dest :: "AssignmentRecord \<Rightarrow> nat" where
  "to_dest a \<equiv> unat (asg_destination_rank a)"

abbreviation to_expert :: "AssignmentRecord \<Rightarrow> nat" where
  "to_expert a \<equiv> unat (asg_expert_id a)"

definition counts_sized :: "nat \<Rightarrow> nat \<Rightarrow> parser_counts \<Rightarrow> bool" where
  "counts_sized W E c \<longleftrightarrow> length (pc_rows c) = W \<and> length (pc_assignments c) = W \<and>
     length (pc_experts c) = W * E"

definition counts_below :: "nat \<Rightarrow> nat \<Rightarrow> parser_counts \<Rightarrow> nat \<Rightarrow> bool" where
  "counts_below W E c K \<longleftrightarrow> unat (pc_contributors c) \<le> K \<and>
     (\<forall>d < W. unat (pc_rows c ! d) \<le> K \<and> unat (pc_assignments c ! d) \<le> K \<and>
        (\<forall>e < E. unat (pc_experts c ! (d * E + e)) \<le> K))"

definition run_counted :: "nat \<Rightarrow> nat \<Rightarrow> parser_counts \<Rightarrow> AssignmentRecord list \<Rightarrow> parser_counts \<Rightarrow> bool" where
  "run_counted W E c0 as c \<longleftrightarrow> counts_sized W E c \<and>
     unat (pc_contributors c) = unat (pc_contributors c0) + card (to_dest ` set as) \<and>
     (\<forall>d < W. unat (pc_rows c ! d) = unat (pc_rows c0 ! d) + (if d \<in> to_dest ` set as then 1 else 0) \<and>
        unat (pc_assignments c ! d) = unat (pc_assignments c0 ! d) + length (filter (\<lambda>a. to_dest a = d) as) \<and>
        (\<forall>e < E. unat (pc_experts c ! (d * E + e)) = unat (pc_experts c0 ! (d * E + e)) +
           length (filter (\<lambda>a. to_dest a = d \<and> to_expert a = e) as)))"

lemma run_counted_below:
  assumes "run_counted W E c0 as c" and "counts_below W E c0 K"
  shows "counts_below W E c (K + length as)"
proof -
  have "card (to_dest ` set as) \<le> length as" by (rule le_trans [OF card_image_le card_length]) simp
  moreover have "length (filter P as) \<le> length as" for P by (rule length_filter_le)
  moreover have "(if d \<in> to_dest ` set as then 1 else 0) \<le> length as" for d by (cases as) auto
  ultimately show ?thesis
    using assms unfolding counts_below_def run_counted_def by (simp add: add_mono)
qed

lemma unat_plus_one: "unat (w :: u32) < 2 ^ 32 - 1 \<Longrightarrow> unat (w + 1) = unat w + 1 \<and> w \<noteq> 0xffffffff"
proof -
  assume lt: "unat w < 2 ^ 32 - 1"
  then have "unat (w + of_nat 1) = unat w + 1" by (intro unat_add_of_nat) simp
  moreover have "unat (0xffffffff :: u32) = 2 ^ 32 - 1" by simp
  ultimately show ?thesis using lt by auto
qed

lemma count_assignment_step:
  assumes W: "W = unat (dl_worker_count la)" "dl_worker_count la \<le> kPullDispatchMaxWorkers"
    and E: "E = unat (dl_expert_count la)"
    and get: "vget all (unat (tok_assignment_begin t) + l) = (Inr a :: (u32, AssignmentRecord) res)"
    and a: "to_dest a < W" "to_expert a < E"
    and bits: "length bits = 4" "bit_set bits = to_dest ` set pre"
    and c: "run_counted W E c0 pre c" and K: "counts_below W E c0 K" "K + length pre < 2 ^ 32 - 1"
  shows "\<exists>bits' c'. count_assignment la t all l (bits, c) = Inr (bits', c') \<and>
    length bits' = 4 \<and> bit_set bits' = to_dest ` set (pre @ [a]) \<and> run_counted W E c0 (pre @ [a]) c'"
proof -
  let ?d = "to_dest a" and ?x = "to_dest a * E + to_expert a"
  have d128: "?d < 128" using a(1) W by (simp add: word_le_nat_alt abi_consts)
  have word: "bit_word (asg_destination_rank a) < length bits" using bit_position(2) [OF d128] bits(1) by simp
  have ix: "unat (ucast (asg_destination_rank a) * ucast (dl_expert_count la) + ucast (asg_expert_id a) :: u64) = ?x"
    using count_index [of ?d "dl_worker_count la" "asg_expert_id a" "dl_expert_count la"] a W E
    by (simp add: word_less_nat_alt)
  have lens: "length (pc_rows c) = W" "length (pc_assignments c) = W" "length (pc_experts c) = W * E"
    using c by (simp_all add: run_counted_def counts_sized_def)
  have x: "?x < W * E" by (rule index_bound [OF a])
  have "counts_below W E c (K + length pre)" by (rule run_counted_below [OF c K(1)])
  then have small: "unat (pc_contributors c) < 2 ^ 32 - 1" "unat (pc_rows c ! ?d) < 2 ^ 32 - 1"
    "unat (pc_assignments c ! ?d) < 2 ^ 32 - 1" "unat (pc_experts c ! ?x) < 2 ^ 32 - 1"
    using K(2) a unfolding counts_below_def by (meson le_less_trans)+
  note one = small [THEN unat_plus_one]
  let ?seen = "?d \<in> to_dest ` set pre"
  let ?bits = "if ?seen then bits else bits[bit_word (asg_destination_rank a) :=
      bits ! bit_word (asg_destination_rank a) OR bit_mask (asg_destination_rank a)]"
  let ?c = "c\<lparr>pc_rows := (if ?seen then pc_rows c else (pc_rows c)[?d := pc_rows c ! ?d + 1]),
      pc_contributors := (if ?seen then pc_contributors c else pc_contributors c + 1),
      pc_assignments := (pc_assignments c)[?d := pc_assignments c ! ?d + 1],
      pc_experts := (pc_experts c)[?x := pc_experts c ! ?x + 1]\<rparr>"
  have tst: "bits ! bit_word (asg_destination_rank a) AND bit_mask (asg_destination_rank a) = 0 \<longleftrightarrow> \<not> ?seen"
    using bit_test [OF d128, of bits] bits(2) by auto
  have run: "count_assignment la t all l (bits, c) = Inr (?bits, ?c)"
    using word a lens x one
    by (simp add: get Let_def tst ix cong: if_cong)
  have "bit_set ?bits = to_dest ` set (pre @ [a])"
    using bits bit_mark [OF d128 bits(1)] by (auto simp: insert_absorb)
  moreover have "length ?bits = 4" using bits(1) by simp
  moreover have "run_counted W E c0 (pre @ [a]) ?c"
    unfolding run_counted_def
  proof (intro conjI allI impI)
    show "counts_sized W E ?c" using lens by (simp add: counts_sized_def)
    show "unat (pc_contributors ?c) = unat (pc_contributors c0) + card (to_dest ` set (pre @ [a]))"
      using c one(1) by (auto simp: run_counted_def insert_absorb card_insert_if)
    fix d assume d: "d < W"
    show "unat (pc_rows ?c ! d) = unat (pc_rows c0 ! d) + (if d \<in> to_dest ` set (pre @ [a]) then 1 else 0)"
      using c one(2) d lens a by (auto simp: run_counted_def nth_list_update)
    show "unat (pc_assignments ?c ! d) = unat (pc_assignments c0 ! d) + length (filter (\<lambda>a. to_dest a = d) (pre @ [a]))"
      using c one(3) d lens a by (auto simp: run_counted_def nth_list_update)
    fix e assume e: "e < E"
    have "?x = d * E + e \<longleftrightarrow> ?d = d \<and> to_expert a = e" by (rule index_inject [OF a(2) e])
    then show "unat (pc_experts ?c ! (d * E + e)) = unat (pc_experts c0 ! (d * E + e)) +
        length (filter (\<lambda>a. to_dest a = d \<and> to_expert a = e) (pre @ [a]))"
      using c one(4) d e lens x by (auto simp: run_counted_def nth_list_update)
  qed
  ultimately show ?thesis using run by blast
qed

lemma count_run:
  assumes "W = unat (dl_worker_count la)" and "dl_worker_count la \<le> kPullDispatchMaxWorkers"
    and "E = unat (dl_expert_count la)"
    and "b = unat (tok_assignment_begin t)" and "b + n \<le> length all"
    and "\<forall>a \<in> set (vslice all b (b + n)). to_dest a < W \<and> to_expert a < E"
    and "counts_sized W E c" and "counts_below W E c K" and "K + n < 2 ^ 32"
  shows "\<exists>bits c'. mfold (count_assignment la t all) [0..<n] ([0, 0, 0, 0], c) = Inr (bits, c') \<and>
    run_counted W E c (vslice all b (b + n)) c'"
proof -
  let ?as = "vslice all b (b + n)"
  let ?P = "\<lambda>i (st :: u32 list \<times> parser_counts). length (fst st) = 4 \<and>
    bit_set (fst st) = to_dest ` set (take i ?as) \<and> run_counted W E c (take i ?as) (snd st)"
  have "\<exists>st. mfold (count_assignment la t all) [0..<n] ([0, 0, 0, 0], c) = Inr st \<and> ?P n st"
  proof (rule mfold_upt_total [where P = ?P])
    show "?P 0 ([0, 0, 0, 0], c)"
      using assms(7) by (simp add: bit_set_empty run_counted_def)
  next
    fix i u assume i: "i < n" and P: "?P i u"
    have len: "length ?as = n" using assms(5) by simp
    have tk: "take (Suc i) ?as = take i ?as @ [?as ! i]" using i len by (simp add: take_Suc_conv_app_nth)
    have get: "vget all (unat (tok_assignment_begin t) + i) = (Inr (?as ! i) :: (u32, AssignmentRecord) res)"
      using i assms(4,5) by (simp add: nth_vslice)
    have "?as ! i \<in> set ?as" using i len by (intro nth_mem) simp
    then have a: "to_dest (?as ! i) < W" "to_expert (?as ! i) < E" using assms(6) by blast+
    have K: "K + length (take i ?as) < 2 ^ 32 - 1" using assms(9) i len by simp
    obtain bits d where u: "u = (bits, d)" by (cases u)
    have "length bits = 4" "bit_set bits = to_dest ` set (take i ?as)" "run_counted W E c (take i ?as) d"
      using P by (simp_all add: u)
    note step = count_assignment_step [OF assms(1-3) get a this assms(8) K, folded tk]
    from step obtain bits' d'
      where "count_assignment la t all i u = Inr (bits', d')" "length bits' = 4"
        "bit_set bits' = to_dest ` set (take (Suc i) ?as)" "run_counted W E c (take (Suc i) ?as) d'"
      by (elim exE conjE) (simp only: u)
    then show "\<exists>v. count_assignment la t all i u = Inr v \<and> ?P (Suc i) v" by (intro exI [of _ "(bits', d')"]) simp
  qed
  then show ?thesis using assms(5) by fastforce
qed

section \<open>The rows a token adds\<close>

definition token_jobs :: "nat \<Rightarrow> (nat \<Rightarrow> ParsedSource) \<Rightarrow> nat \<Rightarrow> nat \<Rightarrow> job list" where
  "token_jobs W src r t = map (\<lambda>d. (r, t, d)) (filter (\<lambda>d. group_of (src r) t d \<noteq> []) [0..<W])"

definition chunk_jobs :: "nat \<Rightarrow> (nat \<Rightarrow> ParsedSource) \<Rightarrow> nat \<Rightarrow> nat \<Rightarrow> nat \<Rightarrow> job list" where
  "chunk_jobs W src r b e = concat (map (token_jobs W src r) [b..<e])"

lemma chunk_jobs_empty [simp]: "chunk_jobs W src r b b = []"
  by (simp add: chunk_jobs_def)

lemma chunk_jobs_Suc: "b \<le> e \<Longrightarrow> chunk_jobs W src r b (Suc e) = chunk_jobs W src r b e @ token_jobs W src r e"
  by (simp add: chunk_jobs_def)

lemma source_jobs_chunk: "source_jobs W src r = chunk_jobs W src r 0 (length (ps_tokens (src r)))"
  by (simp add: source_jobs_def chunk_jobs_def token_jobs_def [abs_def])

lemma jobs_at_append: "jobs_at d (xs @ ys) = jobs_at d xs @ jobs_at d ys"
  by (simp add: jobs_at_def)

lemma group_of_empty: "group_of p t d \<noteq> [] \<longleftrightarrow> d \<in> to_dest ` set (token_run p t)"
  by (auto simp: group_of_def filter_empty_conv)

lemma jobs_at_token: "d < W \<Longrightarrow> jobs_at d (token_jobs W src r t) =
    (if d \<in> to_dest ` set (token_run (src r) t) then [(r, t, d)] else [])"
proof -
  assume d: "d < W"
  have "jobs_at d (token_jobs W src r t) = map (\<lambda>d. (r, t, d))
      (filter (\<lambda>x. x = d) (filter (\<lambda>d. group_of (src r) t d \<noteq> []) [0..<W]))"
    by (simp add: jobs_at_def token_jobs_def filter_map comp_def)
  also have "filter (\<lambda>x. x = d) (filter (\<lambda>d. group_of (src r) t d \<noteq> []) [0..<W]) =
      (if group_of (src r) t d \<noteq> [] then [d] else [])"
  proof -
    have "filter (\<lambda>x. x = d) (filter P xs) = (if P d then [d] else [])" if "distinct xs" "d \<in> set xs" for P xs
      using that by (induction xs) (auto simp: filter_empty_conv)
    then show ?thesis using d by simp
  qed
  finally show ?thesis by (simp add: group_of_empty)
qed

lemma length_token_jobs:
  assumes "to_dest ` set (token_run (src r) t) \<subseteq> {0..<W}"
  shows "length (token_jobs W src r t) = card (to_dest ` set (token_run (src r) t))"
proof -
  have "length (token_jobs W src r t) = card (set (filter (\<lambda>d. group_of (src r) t d \<noteq> []) [0..<W]))"
    by (simp add: token_jobs_def distinct_card [symmetric] del: set_filter)
  also have "set (filter (\<lambda>d. group_of (src r) t d \<noteq> []) [0..<W]) = to_dest ` set (token_run (src r) t)"
    using assms unfolding group_of_empty by auto
  finally show ?thesis .
qed

lemma expert_count_append: "expert_count e (xs @ ys) = expert_count e xs + expert_count e ys"
  by (simp add: expert_count_def)

lemma expert_count_Pair: "expert_count e (map (Pair k) as) = length (filter (\<lambda>a. to_expert a = e) as)"
  by (induction as) (simp_all add: expert_count_def)

text \<open>The counts of a lane are those of the rows its tokens add.\<close>

definition counts_of :: "nat \<Rightarrow> nat \<Rightarrow> (nat \<Rightarrow> ParsedSource) \<Rightarrow> job list \<Rightarrow> parser_counts \<Rightarrow> bool" where
  "counts_of W E src js c \<longleftrightarrow> counts_sized W E c \<and> unat (pc_contributors c) = length js \<and>
     (\<forall>d < W. unat (pc_rows c ! d) = length (jobs_at d js) \<and>
        unat (pc_assignments c ! d) = length (flat src (jobs_at d js)) \<and>
        (\<forall>e < E. unat (pc_experts c ! (d * E + e)) = expert_count e (flat src (jobs_at d js))))"

lemma counts_of_token:
  assumes c: "counts_of W E src js c" and run: "run_counted W E c (token_run (src r) t) c'"
    and W: "to_dest ` set (token_run (src r) t) \<subseteq> {0..<W}"
  shows "counts_of W E src (js @ token_jobs W src r t) c'"
  unfolding counts_of_def
proof (intro conjI allI impI)
  let ?run = "token_run (src r) t"
  show "counts_sized W E c'" using run by (simp add: run_counted_def)
  show "unat (pc_contributors c') = length (js @ token_jobs W src r t)"
    using c run by (simp add: counts_of_def run_counted_def length_token_jobs [where src = src and r = r and t = t, OF W])
  fix d assume d: "d < W"
  have none: "filter (\<lambda>a. to_dest a = d) ?run = [] \<longleftrightarrow> d \<notin> to_dest ` set ?run"
    by (auto simp: filter_empty_conv)
  have grp: "job_group src (r, t, d) = filter (\<lambda>a. to_dest a = d) ?run"
    by (simp add: job_group_def group_of_def)
  note at = jobs_at_append [of d js "token_jobs W src r t"] jobs_at_token [OF d, of src r t]
  show "unat (pc_rows c' ! d) = length (jobs_at d (js @ token_jobs W src r t))"
    using c run d by (simp add: counts_of_def run_counted_def at)
  show "unat (pc_assignments c' ! d) = length (flat src (jobs_at d (js @ token_jobs W src r t)))"
    using c run d none by (auto simp: counts_of_def run_counted_def at grp)
  fix e assume e: "e < E"
  have "filter (\<lambda>a. to_dest a = d \<and> to_expert a = e) ?run = filter (\<lambda>a. to_expert a = e) (filter (\<lambda>a. to_dest a = d) ?run)"
    by (simp add: conj_commute)
  then show "unat (pc_experts c' ! (d * E + e)) = expert_count e (flat src (jobs_at d (js @ token_jobs W src r t)))"
    using c run d e none
    by (cases "d \<in> to_dest ` set ?run")
      (simp_all add: counts_of_def run_counted_def at grp expert_count_append expert_count_Pair del: filter_filter)
qed

lemma counts_of_none:
  assumes "W = unat (dl_worker_count la)" and "dl_worker_count la \<le> kPullDispatchMaxWorkers"
    and "E = unat (dl_expert_count la)"
  shows "counts_of W E src [] (no_counts la)" and "counts_below W E (no_counts la) 0"
    and "counts_sized W E (no_counts la)"
proof -
  have "unat (ucast (dl_worker_count la) * ucast (dl_expert_count la) :: u64) = W * E"
  proof -
    have "W * E \<le> 128 * 2 ^ 32"
      using assms unsigned_less [of "dl_expert_count la", where ?'a = nat]
      by (intro mult_le_mono) (simp_all add: word_le_nat_alt abi_consts)
    then have "W * E < 2 ^ 64" by simp
    then show ?thesis using assms by (subst unat_mult_lem [THEN iffD1]) (simp_all add: unat_ucast_u64)
  qed
  then show "counts_of W E src [] (no_counts la)" "counts_below W E (no_counts la) 0"
    "counts_sized W E (no_counts la)"
    using assms by (auto simp: counts_of_def counts_below_def counts_sized_def no_counts_def expert_count_def index_bound)
qed

section \<open>One token, one lane, all lanes\<close>

definition device_token_wf :: "dispatch_launch \<Rightarrow> ParsedSource \<Rightarrow> nat \<Rightarrow> bool" where
  "device_token_wf la p k \<longleftrightarrow> token_wf (launch_session la) (ps_tokens p) (ps_assignments p) k \<and>
     unat (tok_assignment_count (ps_tokens p ! k)) \<le> 2 ^ 31"

text \<open>The arrays of a source are as long as its header says.\<close>

definition source_sized :: "ParsedSource \<Rightarrow> bool" where
  "source_sized p \<longleftrightarrow> length (ps_tokens p) = unat (sh_token_count (ps_header p)) \<and>
     length (ps_assignments p) = unat (sh_assignment_count (ps_header p))"

abbreviation parse_source_token :: "dispatch_launch \<Rightarrow> ParsedSource \<Rightarrow> nat \<Rightarrow> parser_counts \<Rightarrow> (u32, parser_counts) res" where
  "parse_source_token la p \<equiv> parse_token la (ps_header p) (ps_tokens p) (ps_assignments p)"

lemma token_wf_run:
  assumes "token_wf s (ps_tokens p) (ps_assignments p) k"
  shows "assignments_wf s (unat (tok_assignment_count (ps_tokens p ! k))) (token_run p k)"
    and "length (token_run p k) = unat (tok_assignment_count (ps_tokens p ! k))"
  using assms unfolding token_wf_def Let_def token_run_def by (blast, auto)

lemma parse_token_cases:
  assumes la: "W = unat (dl_worker_count la)" "dl_worker_count la \<le> kPullDispatchMaxWorkers"
      "E = unat (dl_expert_count la)"
    and p: "source_sized p" and k: "k < length (ps_tokens p)"
  shows "\<not> device_token_wf la p k \<Longrightarrow> \<exists>e. parse_source_token la p k c = fail e"
    and "device_token_wf la p k \<Longrightarrow> counts_sized W E c \<Longrightarrow> counts_below W E c K \<Longrightarrow>
      K + length (token_run p k) < 2 ^ 32 \<Longrightarrow>
      \<exists>c'. parse_source_token la p k c = Inr c' \<and> run_counted W E c (token_run p k) c'"
proof -
  let ?t = "ps_tokens p ! k" and ?all = "ps_assignments p"
  define b n where b: "b = unat (tok_assignment_begin ?t)" and n: "n = unat (tok_assignment_count ?t)"
  have lt: "length ?all < 2 ^ 32"
    using p unsigned_less [of "sh_assignment_count (ps_header p)", where ?'a = nat] by (simp add: source_sized_def)
  have run: "token_run p k = vslice ?all b (b + n)" by (simp add: token_run_def Let_def b n)
  define good where "good \<longleftrightarrow> tok_source_token ?t = of_nat k \<and>
      b = (if k = 0 then 0 else unat (tok_assignment_begin (ps_tokens p ! (k - 1))) +
             unat (tok_assignment_count (ps_tokens p ! (k - 1)))) \<and>
      b + n \<le> length ?all \<and> (Suc k = length (ps_tokens p) \<longrightarrow> b + n = length ?all) \<and>
      tok_reserved0 ?t = 0 \<and> tok_reserved1 ?t = 0"
  have rec: "check_record (ps_header p) (ps_tokens p) k = (if good then Inr ?t else fail kStatusInvalidToken)"
    using check_record_iff [of "ps_tokens p" "ps_header p" ?all k] p k
    by (simp add: source_sized_def Let_def good_def b n)
  have wf: "device_token_wf la p k \<longleftrightarrow> good \<and> assignments_wf (launch_session la) n (token_run p k) \<and> n \<le> 2 ^ 31"
    unfolding device_token_wf_def token_wf_def Let_def good_def run b [symmetric] n [symmetric] by blast
  have dec: "\<exists>f. parse_source_token la p k c = (if device_token_wf la p k
      then rbind (mfold (count_assignment la ?t ?all) [0..<n] ([0, 0, 0, 0], c)) (\<lambda>(bits, c). Inr c)
      else fail f)" for c
  proof (cases good)
    case False
    then show ?thesis using wf by (simp add: parse_token_def rec)
  next
    case True
    then have le: "b + n \<le> length ?all" by (simp add: good_def)
    then have len: "length (token_run p k) = n" by (simp add: run)
    note fields = check_fields_run [OF b n le, of la, folded run]
    note ords = ordinals_run [OF b n le lt, folded run]
    note iff = run_wf_iff [OF len, of la]
    show ?thesis
    proof (cases "\<forall>a \<in> set (token_run p k). fields_ok la n a")
      case False
      then show ?thesis
        using True wf iff fields by (auto simp: parse_token_def rec Let_def n [symmetric])
    next
      case fld: True
      then have "\<forall>a \<in> set (token_run p k). unat (asg_ordinal a) < n" by (simp add: fields_ok_def)
      note o = ords [OF this]
      have "device_token_wf la p k \<longleftrightarrow> distinct (map asg_ordinal (token_run p k))"
        using wf iff True fld by simp
      then show ?thesis
        unfolding parse_token_def rec if_P [OF True] rbind_Inr Let_def n [symmetric] fields if_P [OF fld] o
        by auto
    qed
  qed
  show "\<not> device_token_wf la p k \<Longrightarrow> \<exists>e. parse_source_token la p k c = fail e" using dec [of c] by auto
  assume tok: "device_token_wf la p k" and c: "counts_sized W E c" "counts_below W E c K"
    and K: "K + length (token_run p k) < 2 ^ 32"
  have le: "b + n \<le> length ?all" using tok wf by (simp add: good_def)
  then have len: "length (token_run p k) = n" by (simp add: run)
  have "\<forall>a \<in> set (vslice ?all b (b + n)). to_dest a < W \<and> to_expert a < E"
    using tok wf la by (auto simp: run assignments_wf_def launch_session_def word_less_nat_alt)
  from count_run [OF la b le this c K [unfolded len]] dec [of c] tok
  show "\<exists>c'. parse_source_token la p k c = Inr c' \<and> run_counted W E c (token_run p k) c'"
    unfolding run by auto
qed

lemma mfold_upto:
  assumes "b \<le> e" and "P b s"
    and "\<And>k u. b \<le> k \<Longrightarrow> k < e \<Longrightarrow> P k u \<Longrightarrow> \<exists>v. f k u = Inr v \<and> P (Suc k) v"
  shows "\<exists>t. mfold f [b..<e] s = Inr t \<and> P e t"
proof -
  have "map (\<lambda>i. i + b) [0..<e - b] = [b..<e]" using assms(1) by (simp add: map_add_upt)
  then have "mfold f [b..<e] s = mfold (\<lambda>i. f (i + b)) [0..<e - b] s" by (metis mfold_map)
  moreover have "\<exists>t. mfold (\<lambda>i. f (i + b)) [0..<e - b] s = Inr t \<and> P (e - b + b) t"
  proof (rule mfold_upt_total [where P = "\<lambda>i. P (i + b)"])
    fix i u assume "i < e - b" "P (i + b) u"
    then show "\<exists>v. f (i + b) u = Inr v \<and> P (Suc i + b) v" using assms(3) [of "i + b" u] by simp
  qed (simp add: assms(2))
  ultimately show ?thesis using assms(1) by simp
qed

text \<open>The runs of consecutive tokens follow each other.\<close>

lemma runs_contiguous:
  assumes "b \<le> k" and "\<forall>t. b \<le> t \<and> t \<le> k \<longrightarrow> token_wf s (ps_tokens p) (ps_assignments p) t"
  shows "unat (tok_assignment_begin (ps_tokens p ! b)) + sum_list (map (\<lambda>t. length (token_run p t)) [b..<k]) =
    unat (tok_assignment_begin (ps_tokens p ! k))"
  using assms
proof (induction k rule: dec_induct)
  case (step k)
  have next_wf: "token_wf s (ps_tokens p) (ps_assignments p) (Suc k)"
    and wf: "token_wf s (ps_tokens p) (ps_assignments p) k"
    using step.prems step.hyps by auto
  have "unat (tok_assignment_begin (ps_tokens p ! b)) + sum_list (map (\<lambda>t. length (token_run p t)) [b..<k]) =
      unat (tok_assignment_begin (ps_tokens p ! k))"
    by (rule step.IH) (use step.prems in auto)
  moreover have "unat (tok_assignment_begin (ps_tokens p ! Suc k)) =
      unat (tok_assignment_begin (ps_tokens p ! k)) + unat (tok_assignment_count (ps_tokens p ! k))"
    using next_wf unfolding token_wf_def Let_def by (simp del: of_nat_Suc)
  ultimately show ?case using step.hyps(1) by (simp add: token_wf_run(2) [OF wf])
qed simp

lemma parse_tokens:
  assumes la: "W = unat (dl_worker_count la)" "dl_worker_count la \<le> kPullDispatchMaxWorkers"
      "E = unat (dl_expert_count la)"
    and p: "source_sized (src r)" and range: "b \<le> e" "e \<le> length (ps_tokens (src r))"
    and wf: "\<forall>t. b \<le> t \<and> t < e \<longrightarrow> device_token_wf la (src r) t"
  shows "\<exists>c. mfold (parse_source_token la (src r)) [b..<e] (no_counts la) = Inr c \<and>
    counts_of W E src (chunk_jobs W src r b e) c"
proof -
  let ?p = "src r"
  let ?K = "\<lambda>k. sum_list (map (\<lambda>t. length (token_run ?p t)) [b..<k])"
  let ?P = "\<lambda>k c. counts_of W E src (chunk_jobs W src r b k) c \<and> counts_below W E c (?K k)"
  have "\<exists>c. mfold (parse_source_token la ?p) [b..<e] (no_counts la) = Inr c \<and> ?P e c"
  proof (rule mfold_upto [OF range(1), where P = ?P])
    show "?P b (no_counts la)" using counts_of_none [OF la] by simp
  next
    fix k c assume k: "b \<le> k" "k < e" and P: "?P k c"
    have tok: "token_wf (launch_session la) (ps_tokens ?p) (ps_assignments ?p) t" if "b \<le> t" "t \<le> k" for t
      using wf that k(2) by (simp add: device_token_wf_def)
    have kl: "k < length (ps_tokens ?p)" using k(2) range(2) by simp
    note run = token_wf_run [OF tok [OF k(1) order_refl]]
    have "unat (tok_assignment_begin (ps_tokens ?p ! b)) + ?K k = unat (tok_assignment_begin (ps_tokens ?p ! k))"
      by (rule runs_contiguous [OF k(1)]) (use tok in blast)
    then have "?K k + length (token_run ?p k) \<le> length (ps_assignments ?p)"
      using tok [OF k(1) order_refl] run(2) by (simp add: token_wf_def Let_def)
    also have "\<dots> < 2 ^ 32"
      using p unsigned_less [of "sh_assignment_count (ps_header ?p)", where ?'a = nat] by (simp add: source_sized_def)
    finally have K: "?K k + length (token_run ?p k) < 2 ^ 32" .
    have sized: "counts_sized W E c" and below: "counts_below W E c (?K k)" using P by (simp_all add: counts_of_def)
    have "device_token_wf la ?p k" using wf k by simp
    from parse_token_cases(2) [OF la p kl this sized below K] obtain c' where
      c': "parse_source_token la ?p k c = Inr c'" "run_counted W E c (token_run ?p k) c'" by blast
    have dests: "to_dest ` set (token_run ?p k) \<subseteq> {0..<W}"
      using run(1) la by (auto simp: assignments_wf_def launch_session_def word_less_nat_alt)
    have "counts_of W E src (chunk_jobs W src r b k @ token_jobs W src r k) c'"
      by (rule counts_of_token [where src = src and r = r and t = k, OF _ c'(2) dests]) (use P in simp)
    moreover have "counts_below W E c' (?K (Suc k))"
      using run_counted_below [OF c'(2) below] k(1) by simp
    ultimately show "\<exists>v. parse_source_token la ?p k c = Inr v \<and> ?P (Suc k) v"
      using c'(1) k(1) by (auto simp: chunk_jobs_Suc)
  qed
  then show ?thesis by blast
qed

definition lane_begin :: "ParsedSource \<Rightarrow> nat \<Rightarrow> nat \<Rightarrow> nat" where
  "lane_begin p c l = lane_bound (length (ps_tokens p)) c l"

abbreviation parse_source_lane :: "dispatch_launch \<Rightarrow> ParsedSource \<Rightarrow> u32 \<Rightarrow> u32 \<Rightarrow> (u32, parser_counts) res" where
  "parse_source_lane la p \<equiv> parse_lane la (ps_header p) (ps_tokens p) (ps_assignments p)"

lemma lane_tokens_eq:
  assumes "source_sized p" and "lane < cohort"
  shows "lane_tokens (ps_header p) lane cohort =
     [lane_begin p (unat cohort) (unat lane)..<lane_begin p (unat cohort) (Suc (unat lane))]"
proof -
  have "unat lane < unat cohort" using assms(2) by (simp add: word_less_nat_alt)
  then have suc: "unat (lane + 1) = Suc (unat lane)"
    using unsigned_less [of cohort, where ?'a = nat] unat_add_of_nat [of lane 1] by simp
  have le: "lane \<le> cohort" "lane + 1 \<le> cohort" "cohort \<noteq> 0"
    using assms(2) suc by (auto simp: word_le_nat_alt word_less_nat_alt)
  show ?thesis
    using assms(1) by (simp add: lane_tokens_def unat_ParserTokenBoundary le suc lane_begin_def source_sized_def)
qed

text \<open>
  A lane passes exactly when the tokens of its run are well formed, and then it has counted the rows they
  add; otherwise it stops with a status. It never reads outside the arrays of its source.
\<close>

lemma parse_lane_cases:
  assumes la: "W = unat (dl_worker_count la)" "dl_worker_count la \<le> kPullDispatchMaxWorkers"
      "E = unat (dl_expert_count la)"
    and p: "source_sized (src r)" and lane: "lane < cohort"
    and be: "b = lane_begin (src r) (unat cohort) (unat lane)"
      "e = lane_begin (src r) (unat cohort) (Suc (unat lane))"
    and ok: "ok \<longleftrightarrow> (\<forall>t. b \<le> t \<and> t < e \<longrightarrow> device_token_wf la (src r) t) \<and>
      (lane = 0 \<and> ps_tokens (src r) = [] \<longrightarrow> ps_assignments (src r) = [])"
  shows "ok \<Longrightarrow> \<exists>c. parse_source_lane la (src r) lane cohort = Inr c \<and>
      counts_of W E src (chunk_jobs W src r b e) c"
    and "\<not> ok \<Longrightarrow> \<exists>f. parse_source_lane la (src r) lane cohort = fail f"
proof -
  let ?p = "src r"
  have range: "b \<le> e" "e \<le> length (ps_tokens ?p)" by (simp_all add: be lane_begin_def lane_bound_mono)
  have empty: "lane = 0 \<and> sh_token_count (ps_header ?p) = 0 \<and> sh_assignment_count (ps_header ?p) \<noteq> 0 \<longleftrightarrow>
      lane = 0 \<and> ps_tokens ?p = [] \<and> ps_assignments ?p \<noteq> []"
    using p by (simp add: source_sized_def word_unat_eq_iff flip: length_0_conv)
  have run: "parse_source_lane la ?p lane cohort =
      (if lane = 0 \<and> ps_tokens ?p = [] \<and> ps_assignments ?p \<noteq> [] then fail kStatusInvalidToken
       else mfold (parse_source_token la ?p) [b..<e] (no_counts la))"
    unfolding parse_lane_def empty lane_tokens_eq [OF p lane] be by (rule refl)
  show "\<exists>c. parse_source_lane la ?p lane cohort = Inr c \<and> counts_of W E src (chunk_jobs W src r b e) c" if ok
    using parse_tokens [where src = src and r = r, OF la p range] that by (auto simp: run ok)
  show "\<exists>f. parse_source_lane la ?p lane cohort = fail f" if "\<not> ok"
  proof (cases "lane = 0 \<and> ps_tokens ?p = [] \<and> ps_assignments ?p \<noteq> []")
    case False
    with that have "\<exists>t. b \<le> t \<and> t < e \<and> \<not> device_token_wf la ?p t" by (auto simp: ok)
    then obtain t where t: "b \<le> t \<and> t < e \<and> \<not> device_token_wf la ?p t" ..
    define m where "m = (LEAST t. b \<le> t \<and> t < e \<and> \<not> device_token_wf la ?p t)"
    have m: "b \<le> m \<and> m < e \<and> \<not> device_token_wf la ?p m" unfolding m_def by (rule LeastI_ex) (use t in blast)
    have before: "\<forall>t. b \<le> t \<and> t < m \<longrightarrow> device_token_wf la ?p t"
      using m not_less_Least [of _ "\<lambda>t. b \<le> t \<and> t < e \<and> \<not> device_token_wf la ?p t", folded m_def]
      by (meson less_trans)
    have mt: "m \<le> length (ps_tokens ?p)" "m < length (ps_tokens ?p)" using m range by linarith+
    obtain c where c: "mfold (parse_source_token la ?p) [b..<m] (no_counts la) = Inr c"
      using parse_tokens [where src = src and r = r, OF la p _ mt(1) before] m by blast
    obtain f where "parse_source_token la ?p m c = fail f"
      using parse_token_cases(1) [OF la p mt(2)] m by blast
    moreover have "[b..<e] = [b..<m] @ m # [Suc m..<e]"
      using m upt_add_eq_append [of b m "e - m"] by (simp add: upt_conv_Cons)
    ultimately show ?thesis using c False by (simp add: run mfold_append)
  next
    case True
    show ?thesis unfolding run if_P [OF True] by blast
  qed
qed

text \<open>All lanes of a source pass exactly when the token table is one the host accepts.\<close>

lemma lanes_accept:
  assumes la: "dl_worker_count la \<le> kPullDispatchMaxWorkers"
    and p: "source_sized p" and cohort: "cohort \<noteq> 0"
  shows "(\<forall>lane < cohort. \<exists>c. parse_source_lane la p lane cohort = Inr c) \<longleftrightarrow>
    csr_wf (launch_session la) (ps_assignments p) 0 0 (ps_tokens p) \<and>
    (\<forall>t \<in> set (ps_tokens p). unat (tok_assignment_count t) \<le> 2 ^ 31)"
proof -
  let ?n = "length (ps_tokens p)" and ?c = "unat cohort"
  let ?in = "\<lambda>l t. lane_begin p ?c l \<le> t \<and> t < lane_begin p ?c (Suc l)"
  have c: "0 < ?c" using cohort by (simp add: unat_gt_0)
  note cases = parse_lane_cases [OF refl la refl, where src = "\<lambda>_. p" and r = 0, OF p _ refl refl refl]
  have lane: "(\<exists>c. parse_source_lane la p lane cohort = Inr c) \<longleftrightarrow>
      (\<forall>t. ?in (unat lane) t \<longrightarrow> device_token_wf la p t) \<and>
      (lane = 0 \<and> ps_tokens p = [] \<longrightarrow> ps_assignments p = [])" if "lane < cohort" for lane
    using cases [OF that] by (metis fail_neq_Inr(1))
  have cover: "(\<forall>l < ?c. \<forall>t. ?in l t \<longrightarrow> Q t) \<longleftrightarrow> (\<forall>t < ?n. Q t)" for Q
  proof -
    have "t \<in> set (concat (map (\<lambda>l. [lane_begin p ?c l..<lane_begin p ?c (Suc l)]) [0..<?c])) \<longleftrightarrow> t < ?n" for t
      unfolding lane_begin_def lanes_cover [OF c] by simp
    then have "t < ?n \<longleftrightarrow> (\<exists>l < ?c. ?in l t)" for t by (simp add: Bex_def)
    then show ?thesis by blast
  qed
  have lt: "?c < 2 ^ 32" using unsigned_less [of cohort, where ?'a = nat] by simp
  have lanes: "(\<forall>lane < cohort. R (unat lane)) \<longleftrightarrow> (\<forall>l < ?c. R l)" for R
  proof safe
    fix l assume R: "\<forall>lane < cohort. R (unat lane)" and l: "l < ?c"
    then have "of_nat l < cohort" "unat (of_nat l :: u32) = l" using lt by (simp_all add: word_less_nat_alt unat_of_nat_u32)
    then show "R l" using R by metis
  qed (simp add: word_less_nat_alt)
  have "(\<forall>lane < cohort. \<exists>c. parse_source_lane la p lane cohort = Inr c) \<longleftrightarrow>
      (\<forall>lane < cohort. (\<forall>t. ?in (unat lane) t \<longrightarrow> device_token_wf la p t) \<and>
        (unat lane = 0 \<and> ps_tokens p = [] \<longrightarrow> ps_assignments p = []))"
    using lane by (simp add: word_unat_eq_iff)
  also have "\<dots> \<longleftrightarrow> (\<forall>l < ?c. (\<forall>t. ?in l t \<longrightarrow> device_token_wf la p t) \<and>
        (l = 0 \<and> ps_tokens p = [] \<longrightarrow> ps_assignments p = []))"
    by (rule lanes [of "\<lambda>l. (\<forall>t. ?in l t \<longrightarrow> device_token_wf la p t) \<and>
        (l = 0 \<and> ps_tokens p = [] \<longrightarrow> ps_assignments p = [])"])
  also have "\<dots> \<longleftrightarrow> (\<forall>t < ?n. device_token_wf la p t) \<and> (ps_tokens p = [] \<longrightarrow> ps_assignments p = [])"
    using cover [of "device_token_wf la p"] c by blast
  finally show ?thesis
    by (auto simp: csr_wf_tokens device_token_wf_def all_set_conv_all_nth)
qed

section \<open>The handshake\<close>

lemma observe_cases: "observe idle spins = idle \<or> observe idle spins \<in> set spins \<and> observe idle spins \<noteq> idle"
  by (induction spins) (auto simp: observe_def)

lemma visited_or:
  assumes "x AND kOrdinalVisited = 0"
  shows "(kOrdinalVisited OR x) AND kOrdinalVisited \<noteq> 0" and "(kOrdinalVisited OR x) AND NOT kOrdinalVisited = x"
proof -
  have "(kOrdinalVisited OR x) AND kOrdinalVisited = kOrdinalVisited OR (x AND kOrdinalVisited)"
    by (rule bit_word_eqI) (auto simp: bit_simps)
  then show "(kOrdinalVisited OR x) AND kOrdinalVisited \<noteq> 0" by (simp add: assms kOrdinalVisited_def)
  have "(kOrdinalVisited OR x) AND NOT kOrdinalVisited = (x AND NOT kOrdinalVisited) OR (x AND kOrdinalVisited)"
    if "x AND kOrdinalVisited = 0"
    by (simp add: that) (rule bit_word_eqI, auto simp: bit_simps)
  also have "(x AND NOT kOrdinalVisited) OR (x AND kOrdinalVisited) = x"
    by (rule bit_word_eqI) (auto simp: bit_simps)
  finally show "(kOrdinalVisited OR x) AND NOT kOrdinalVisited = x" using assms by blast
qed

text \<open>The values the cell of a source takes after its idle value: the first lane publishes the result of its
  poll and then, when its poll and its peers were fine, the result of the padding check.\<close>

definition source_cells :: "u32 \<Rightarrow> u32 \<Rightarrow> u32 \<Rightarrow> u32 set" where
  "source_cells polled peers checked =
     (if polled = kStatusOk \<and> peers = kStatusOk then {header_cell polled, metadata_cell checked}
      else {header_cell polled})"

text \<open>No lane parses before the first lane has accepted the READY record, the header and the padding.\<close>

lemma other_lane_waits:
  assumes "set metadata_spins \<subseteq> source_cells polled peers checked"
    and "polled AND kOrdinalVisited = 0" and "checked AND kOrdinalVisited = 0"
    and "other_lane_status header_spins peer_spins metadata_spins = kStatusOk"
  shows "polled = kStatusOk \<and> peers = kStatusOk \<and> checked = kStatusOk"
proof -
  let ?o = "observe kSourceHeaderReady metadata_spins"
  have "await_metadata metadata_spins = kStatusOk"
    using assms(4) by (auto simp: other_lane_status_def Let_def split: if_splits)
  then have o: "?o \<noteq> kSourceHeaderReady"
    and ok: "if ?o AND kOrdinalVisited \<noteq> 0 then ?o AND NOT kOrdinalVisited = kStatusOk else ?o = kSourceMetadataReady"
    by (auto simp: await_metadata_def Let_def device_status split: if_splits)
  have mem: "?o \<in> source_cells polled peers checked"
    using observe_cases [of kSourceHeaderReady metadata_spins] o assms(1) by auto
  have "?o \<noteq> kOrdinalVisited OR x" if "x AND kOrdinalVisited = 0" "x \<noteq> kStatusOk" for x
    using ok visited_or [OF that(1)] that(2) by auto
  then have "?o \<noteq> header_cell polled" "?o = metadata_cell checked \<Longrightarrow> checked = kStatusOk"
    using o assms(2,3) by (auto simp: header_cell_def metadata_cell_def split: if_splits)
  then show ?thesis using mem by (auto simp: source_cells_def split: if_splits)
qed

lemma poll_source_ready_ok:
  assumes "poll_source_ready source la spins = kStatusOk"
  shows "\<exists>(ready, header) \<in> set spins. ReadyValid ready source la \<and> ValidateHeader header source la = kStatusOk"
  using assms by (induction spins) (auto simp: device_status split: if_splits)

lemma ValidateHeader_status: "ValidateHeader h source la \<in> {kStatusOk, kStatusInvalidHeader, kStatusSizeOverflow}"
  by (cases "device_offsets h") (simp_all add: ValidateHeader_def case_prod_beta)

text \<open>A status leaves the top bit free, which marks an error in the cells.\<close>

lemma poll_source_ready_status: "poll_source_ready source la spins AND kOrdinalVisited = 0"
proof -
  have "ValidateHeader h source la AND kOrdinalVisited = 0" for h
    using ValidateHeader_status [of h source la] by (auto simp: device_status kOrdinalVisited_def)
  then show ?thesis
    by (induction spins) (auto simp: device_status kOrdinalVisited_def)
qed

section \<open>What the device accepts\<close>

definition inbox_header :: "u8 list \<Rightarrow> SlotHeader" where
  "inbox_header inbox = slot_header_of (take sizeof_SlotHeader inbox)"

text \<open>The source as the parsers find it in its inbox slice: the payload stays at the worker.\<close>

definition inbox_source :: "u8 list \<Rightarrow> ParsedSource" where
  "inbox_source inbox = slot_source inbox (inbox_header inbox) 0"

text \<open>All checks of a source: READY, header and padding in the first lane, the tokens in all lanes, and the
  digest in the side-band block.\<close>

definition device_accepts :: "dispatch_launch \<Rightarrow> u32 \<Rightarrow> u32 \<Rightarrow> Ready \<Rightarrow> u8 list \<Rightarrow> bool" where
  "device_accepts la cohort source ready inbox \<longleftrightarrow>
     (let h = inbox_header inbox
      in ReadyValid ready source la \<and> ValidateHeader h source la = kStatusOk \<and>
         check_metadata h inbox = Inr kStatusOk \<and>
         (\<forall>lane < cohort. \<exists>c. parse_source_lane la (inbox_source inbox) lane cohort = Inr c) \<and>
         DeviceMetadataDigest h inbox = Inr (sh_metadata_digest h))"

lemma inbox_source_sized: "source_sized (inbox_source inbox)"
  by (simp add: source_sized_def inbox_source_def slot_source_def)

text \<open>The inbox slice holds the metadata of the slot: its first bytes up to the payload.\<close>

definition holds_metadata :: "u8 list \<Rightarrow> u8 list \<Rightarrow> bool" where
  "holds_metadata inbox slot \<longleftrightarrow>
     (\<exists>n. n \<le> length inbox \<and> n \<le> length slot \<and> sizeof_SlotHeader \<le> n \<and>
        unat (sh_hidden_offset (inbox_header slot)) \<le> n \<and> take n inbox = take n slot)"

lemma take_drop_agree:
  assumes "take n xs = take n ys" and "i + k \<le> n"
  shows "take k (drop i xs) = take k (drop i ys)"
proof -
  have "take k (drop i xs) = take k (drop i (take n xs))" using assms(2) by (simp add: drop_take min_def)
  also have "\<dots> = take k (drop i ys)" using assms by (simp add: drop_take min_def)
  finally show ?thesis .
qed

lemma holds_metadata_header: "holds_metadata inbox slot \<Longrightarrow> inbox_header inbox = inbox_header slot"
  using take_drop_agree [of _ inbox slot 0 sizeof_SlotHeader] by (auto simp: holds_metadata_def inbox_header_def)

lemma holds_metadata_reads:
  assumes "holds_metadata inbox slot" and can: "canonical_header s h ha" and h: "h = inbox_header slot"
  shows "padding_zero inbox h = padding_zero slot h" and "slot_digest inbox h = slot_digest slot h"
    and "ps_tokens (slot_source inbox h k) = ps_tokens (slot_source slot h k')"
    and "ps_assignments (slot_source inbox h k) = ps_assignments (slot_source slot h k')"
    and "unat (sh_hidden_offset h) \<le> length inbox"
proof -
  from assms(1) obtain n where n: "n \<le> length inbox" "n \<le> length slot" "unat (sh_hidden_offset h) \<le> n"
    "take n inbox = take n slot" by (auto simp: holds_metadata_def h)
  note areas = canonical_header_areas [OF can]
  have t: "take (unat (sh_token_count h) * sizeof_TokenRecord) (drop (unat (sh_tokens_offset h)) inbox) =
      take (unat (sh_token_count h) * sizeof_TokenRecord) (drop (unat (sh_tokens_offset h)) slot)"
    by (rule take_drop_agree [OF n(4)]) (use areas n(3) in linarith)
  have a: "take (unat (sh_assignment_count h) * sizeof_AssignmentRecord) (drop (unat (sh_assignments_offset h)) inbox) =
      take (unat (sh_assignment_count h) * sizeof_AssignmentRecord) (drop (unat (sh_assignments_offset h)) slot)"
    by (rule take_drop_agree [OF n(4)]) (use areas n(3) in linarith)
  show "padding_zero inbox h = padding_zero slot h"
  proof -
    have "inbox ! i = slot ! i" if "i < n" for i using n(4) that by (metis nth_take)
    then show ?thesis using n(3) by (auto simp: padding_zero_def)
  qed
  show "slot_digest inbox h = slot_digest slot h" by (simp only: slot_digest_def t a)
  show "ps_tokens (slot_source inbox h k) = ps_tokens (slot_source slot h k')"
    "ps_assignments (slot_source inbox h k) = ps_assignments (slot_source slot h k')"
    by (simp_all add: slot_source_def t a)
  show "unat (sh_hidden_offset h) \<le> length inbox" using n by simp
qed

text \<open>
  The device accepts a source exactly when the host's parser accepts it: the same READY records, headers,
  padding, digests and token tables, up to the bound on the assignments of one token.
\<close>

lemma device_accepts_iff:
  assumes la: "dispatch_launch_valid blocks la = Some r"
    and reg: "ValidateRegistration (launch_region la source) (launch_session la) = OK"
    and source: "source < dl_worker_count la" and cohort: "cohort \<noteq> 0"
    and slot: "unat (dl_source_slot_stride la) \<le> length slot" and meta: "holds_metadata inbox slot"
  shows "device_accepts la cohort source ready inbox \<longleftrightarrow> of_wave la ready \<and>
    (\<exists>p. ParseReadyAndSlot (launch_region la source) (launch_session la) ready (Some slot)
           (dl_source_slot_stride la) = Inr p \<and>
         (\<forall>t \<in> set (ps_tokens p). unat (tok_assignment_count t) \<le> 2 ^ 31))"
proof -
  let ?s = "launch_session la" and ?h = "inbox_header slot" and ?cap = "dl_source_slot_stride la"
  have v: "dl_generation la \<noteq> 0" "dl_sequence la \<noteq> 0" "dl_expert_count la \<noteq> 0"
    "DeviceDTypeBytes (dl_dtype la) \<noteq> 0" "dl_worker_count la \<le> kPullDispatchMaxWorkers"
    "dl_source_slot_stride la \<ge> of_nat sizeof_SlotHeader"
    using la by (auto simp: dispatch_launch_valid_def Let_def split: if_splits)
  have len: "sizeof_SlotHeader \<le> length slot"
    using v(6) slot by (simp add: word_le_nat_alt abi_consts)
  have cap: "\<not> (?cap < of_nat sizeof_SlotHeader \<or> ?cap > reg_slot_stride (launch_region la source))"
    using v(6) by (simp add: launch_region_def not_less)
  note rv = ReadyValid_iff [OF v(1,2) source, of ready]
  have host: "ParseReadyAndSlot (launch_region la source) ?s ready (Some slot) ?cap =
      (if ready_accepted (launch_region la source) ?s ready then parse_slot ?s ready slot ?cap else fail INVALID_READY)"
    using reg cap by (simp add: ParseReadyAndSlot_def)
  show ?thesis
  proof (cases "ReadyValid ready source la")
    case False
    then show ?thesis using rv host by (auto simp: device_accepts_def Let_def)
  next
    case True
    note head = ValidateHeader_iff [OF True v(3,4), of ?h]
    note pc = parse_slot_cases(2) [OF len slot refl, of ?s ready, folded inbox_header_def]
    have acc: "of_wave la ready" "ready_accepted (launch_region la source) ?s ready" using True rv by simp_all
    show ?thesis
    proof (cases "header_matches ?s ready ?h \<and> (\<exists>ha. canonical_header ?s ?h ha) \<and> sh_packet_bytes ?h \<le> ?cap")
      case False
      then show ?thesis
        using head pc host acc by (auto simp: device_accepts_def Let_def holds_metadata_header [OF meta])
    next
      case hd: True
      then obtain ha where can: "canonical_header ?s ?h ha" by blast
      have uniq: "canonical_header ?s ?h ha' \<longleftrightarrow> ha' = ha" for ha' using can by (auto simp: canonical_header_def)
      note reads = holds_metadata_reads [OF meta can refl]
      have src: "inbox_source inbox = slot_source inbox ?h 0"
        by (simp add: inbox_source_def holds_metadata_header [OF meta])
      have pad: "check_metadata ?h inbox = Inr kStatusOk \<longleftrightarrow> padding_zero slot ?h"
        using HiddenPaddingZero_eq [OF can reads(5)] reads(1)
        by (auto simp: check_metadata_def device_status)
      have dig: "DeviceMetadataDigest ?h inbox = Inr (sh_metadata_digest ?h) \<longleftrightarrow>
          slot_digest slot ?h = sh_metadata_digest ?h"
        using DeviceMetadataDigest_eq [OF can reads(5)] reads(2) by simp
      let ?p = "slot_source slot ?h (unat ha)"
      have lanes: "(\<forall>lane < cohort. \<exists>c. parse_source_lane la (inbox_source inbox) lane cohort = Inr c) \<longleftrightarrow>
          csr_wf ?s (ps_assignments ?p) 0 0 (ps_tokens ?p) \<and>
          (\<forall>t \<in> set (ps_tokens ?p). unat (tok_assignment_count t) \<le> 2 ^ 31)"
        using lanes_accept [OF v(5) inbox_source_sized cohort, of inbox]
        unfolding src reads(3,4) [where k = 0 and k' = "unat ha"] .
      show ?thesis
        unfolding device_accepts_def Let_def holds_metadata_header [OF meta] pad dig lanes host
        using True head hd acc by (auto simp: pc uniq)
    qed
  qed
qed

end
