(* ===== verification/Dispatch_Prefix.thy ===== *)
theory Dispatch_Prefix
  imports Dispatch_Parse Dispatch_Journal
begin

text \<open>
  The prefix phase of the dispatch kernel. Block zero adds up the tokens and assignments of the sources, checks
  the capacities of the journal and of the destinations, and turns the counts of every parser block into the
  positions at which the block writes in the second phase. It verifies the uniform hints of the headers and
  stores the totals in the header of the journal. The scratch is one record per parser block, whose areas
  are disjoint (\<open>BuildParserScratchLayout_areas\<close>). The theory shows that the position a block starts at counts
  exactly the rows of the blocks in front of it, and when the phase fails.
\<close>

section \<open>Model\<close>

subsection \<open>Totals\<close>

record token_totals =
  tt_tokens :: u64
  tt_assignments :: u64
  tt_cookie :: u64
  tt_hints :: bool
  tt_token_prefix :: "u32 list"
  tt_assignment_prefix :: "u32 list"

definition total_source ::
  "dispatch_launch \<Rightarrow> u32 list \<Rightarrow> SlotHeader list \<Rightarrow> nat \<Rightarrow> token_totals \<Rightarrow> (u32, token_totals) res" where
  "total_source la source_errors headers source tt =
     rbind (vget source_errors source) (\<lambda>source_error.
     if source_error \<noteq> kStatusOk then fail source_error
     else rbind (vget headers source) (\<lambda>h.
     case (AddU64 (tt_tokens tt) (ucast (sh_token_count h)),
           AddU64 (tt_assignments tt) (ucast (sh_assignment_count h))) of
       (Some total_tokens, Some total_assignments) \<Rightarrow>
         if total_tokens > dl_journal_token_capacity la \<or> total_tokens > 0xffffffff \<or>
            (dl_journal_assignment_capacity la \<noteq> 0 \<and>
             total_assignments > dl_journal_assignment_capacity la) \<or>
            total_assignments > 0xffffffff
         then fail kStatusCapacityExceeded
         else rbind (vput (tt_token_prefix tt) (source + 1) (ucast total_tokens)) (\<lambda>token_prefix.
              rbind (vput (tt_assignment_prefix tt) (source + 1) (ucast total_assignments))
                (\<lambda>assignment_prefix.
              Inr \<lparr> tt_tokens = total_tokens, tt_assignments = total_assignments,
                tt_cookie = HashGmBytes (tt_cookie tt) (le_bytes 8 (sh_metadata_digest h)),
                tt_hints = (if sh_flags h AND kSlotFlagUniformDestinations = 0 then False else tt_hints tt),
                tt_token_prefix = token_prefix, tt_assignment_prefix = assignment_prefix \<rparr>))
     | _ \<Rightarrow> fail kStatusCapacityExceeded))"

definition no_totals :: "dispatch_launch \<Rightarrow> token_totals" where
  "no_totals la = \<lparr> tt_tokens = 0, tt_assignments = 0, tt_cookie = kHashOffset, tt_hints = True,
     tt_token_prefix = replicate (unat (dl_worker_count la) + 1) 0,
     tt_assignment_prefix = replicate (unat (dl_worker_count la) + 1) 0 \<rparr>"

definition check_row_map :: "dispatch_launch \<Rightarrow> u64 \<Rightarrow> (u32, unit) res" where
  "check_row_map la total_tokens =
     (if dl_row_map_capacity_entries la \<noteq> 0 \<and>
         (case CheckedMulU64ByU32 total_tokens (dl_worker_count la) of
            None \<Rightarrow> True | Some row_map_entries \<Rightarrow> row_map_entries > dl_row_map_capacity_entries la)
      then fail kStatusCapacityExceeded else Inr ())"

definition check_parser :: "u32 list \<Rightarrow> nat \<Rightarrow> unit \<Rightarrow> (u32, unit) res" where
  "check_parser block_status parser _ =
     rbind (vget block_status parser) (\<lambda>status. if status \<noteq> kStatusOk then fail status else Inr ())"

subsection \<open>Positions\<close>

record prefix_state =
  px_contributor_cursor :: u64
  px_row_cursor :: "u32 list"
  px_assignment_cursor :: "u32 list"
  px_blocks :: "parser_counts list"
  px_expert_counts :: "u32 list"
  px_destination_prefix :: "u32 list"

text \<open>The four cells of a parser block that the loops replace.\<close>

definition put_block :: "nat \<Rightarrow> (parser_counts \<Rightarrow> parser_counts) \<Rightarrow> prefix_state \<Rightarrow> prefix_state" where
  "put_block parser f st = st\<lparr>px_blocks := (px_blocks st)[parser := f (px_blocks st ! parser)]\<rparr>"

text \<open>These loops stop with the status and the positions so far: the check of the hint below runs in either
  case and may replace the status.\<close>

definition prefix_expert ::
  "dispatch_launch \<Rightarrow> nat \<Rightarrow> nat \<Rightarrow> nat \<Rightarrow> prefix_state \<Rightarrow> (u32 \<times> prefix_state, prefix_state) res" where
  "prefix_expert la parser destination expert st =
     (let index = destination * unat (dl_expert_count la) + expert
      in rbind (vget (px_blocks st) parser) (\<lambda>block.
         rbind (vget (pc_experts block) index) (\<lambda>count.
         rbind (vget (px_expert_counts st) index) (\<lambda>base.
         let st = put_block parser (\<lambda>block. block\<lparr>pc_experts := (pc_experts block)[index := base]\<rparr>) st
         in if count > 0xffffffff - base then fail (kStatusCapacityExceeded, st)
            else Inr (st\<lparr>px_expert_counts := (px_expert_counts st)[index := base + count]\<rparr>)))))"

definition prefix_destination ::
  "dispatch_launch \<Rightarrow> nat \<Rightarrow> nat \<Rightarrow> prefix_state \<Rightarrow> (u32 \<times> prefix_state, prefix_state) res" where
  "prefix_destination la parser destination st =
     rbind (vget (px_blocks st) parser) (\<lambda>block.
     rbind (vget (pc_rows block) destination) (\<lambda>rows.
     rbind (vget (pc_assignments block) destination) (\<lambda>assignments.
     rbind (vget (px_row_cursor st) destination) (\<lambda>row_cursor.
     rbind (vget (px_assignment_cursor st) destination) (\<lambda>assignment_cursor.
     let st = put_block parser (\<lambda>block. block\<lparr>
           pc_rows := (pc_rows block)[destination := row_cursor],
           pc_assignments := (pc_assignments block)[destination := assignment_cursor]\<rparr>) st
     in if ucast rows > dl_destination_row_capacity la - ucast row_cursor \<or>
           ucast assignments > dl_destination_assignment_capacity la - ucast assignment_cursor
        then fail (kStatusCapacityExceeded, st)
        else mfold (prefix_expert la parser destination) [0..<unat (dl_expert_count la)]
               (st\<lparr>px_row_cursor := (px_row_cursor st)[destination := row_cursor + rows],
                   px_assignment_cursor :=
                     (px_assignment_cursor st)[destination := assignment_cursor + assignments]\<rparr>))))))"

definition prefix_lane ::
  "dispatch_launch \<Rightarrow> u32 \<Rightarrow> nat \<Rightarrow> nat \<Rightarrow> prefix_state \<Rightarrow> (u32 \<times> prefix_state, prefix_state) res" where
  "prefix_lane la cohort source lane st =
     (let parser = source * unat cohort + lane
      in rbind (vget (px_blocks st) parser) (\<lambda>block.
         let st = put_block parser (\<lambda>block. block\<lparr>pc_contributors := ucast (px_contributor_cursor st)\<rparr>) st;
             contributor_cursor = px_contributor_cursor st + ucast (pc_contributors block);
             st = st\<lparr>px_contributor_cursor := contributor_cursor\<rparr>
         in if contributor_cursor > dl_journal_contributor_capacity la \<or> contributor_cursor > 0xffffffff
            then fail (kStatusCapacityExceeded, st)
            else mfold (prefix_destination la parser) [0..<unat (dl_worker_count la)] st))"

definition save_prefix :: "dispatch_launch \<Rightarrow> nat \<Rightarrow> nat \<Rightarrow> prefix_state \<Rightarrow> (u32, prefix_state) res" where
  "save_prefix la row destination st =
     rbind (vget (px_row_cursor st) destination) (\<lambda>row_cursor.
     rbind (vput (px_destination_prefix st) (row * unat (dl_worker_count la) + destination) row_cursor)
       (\<lambda>prefix. Inr (st\<lparr>px_destination_prefix := prefix\<rparr>)))"

text \<open>Whether the rows and assignments a source has added to a destination fit its uniform hint.\<close>

definition uniform_delta ::
  "dispatch_launch \<Rightarrow> SlotHeader \<Rightarrow> nat \<Rightarrow> u32 list \<Rightarrow> prefix_state \<Rightarrow> nat \<Rightarrow> bool" where
  "uniform_delta la h source assignment_start st destination =
     (let source_rows = px_row_cursor st ! destination -
            px_destination_prefix st ! (source * unat (dl_worker_count la) + destination);
          source_assignments = px_assignment_cursor st ! destination - assignment_start ! destination
      in (source_rows = 0 \<and> source_assignments = 0) \<or>
         (source_rows = sh_token_count h \<and> source_assignments = sh_token_count h))"

definition finish_source ::
  "dispatch_launch \<Rightarrow> SlotHeader list \<Rightarrow> nat \<Rightarrow> u32 list \<Rightarrow> u32 \<Rightarrow> prefix_state \<Rightarrow> (u32, prefix_state) res" where
  "finish_source la headers source assignment_start status st =
     rbind (vget headers source) (\<lambda>h.
     let source_hint = (sh_flags h AND kSlotFlagUniformDestinations \<noteq> 0);
         source_uniform = list_all (uniform_delta la h source assignment_start st) [0..<unat (dl_worker_count la)]
     in if source_hint \<and> \<not> source_uniform then fail kStatusInvalidAssignment
        else if status \<noteq> kStatusOk then fail status else Inr st)"

definition prefix_source ::
  "dispatch_launch \<Rightarrow> u32 \<Rightarrow> SlotHeader list \<Rightarrow> nat \<Rightarrow> prefix_state \<Rightarrow> (u32, prefix_state) res" where
  "prefix_source la cohort headers source st =
     rbind (mfold (save_prefix la source) [0..<unat (dl_worker_count la)] st) (\<lambda>st.
     let assignment_start = px_assignment_cursor st
     in case mfold (prefix_lane la cohort source) [0..<unat cohort] st of
          Inr st \<Rightarrow> finish_source la headers source assignment_start kStatusOk st
        | Inl (Ret (status, st)) \<Rightarrow> finish_source la headers source assignment_start status st
        | Inl Oob \<Rightarrow> Inl Oob
        | Inl Hang \<Rightarrow> Inl Hang)"

subsection \<open>The whole phase\<close>

text \<open>What the phase leaves for the second one. The cursors are arrays of \<open>kPullDispatchMaxWorkers\<close>.\<close>

record dispatch_plan =
  pl_token_prefix :: "u32 list"
  pl_assignment_prefix :: "u32 list"
  pl_destination_prefix :: "u32 list"
  pl_row_counts :: "u32 list"
  pl_assignment_counts :: "u32 list"
  pl_expert_counts :: "u32 list"
  pl_blocks :: "parser_counts list"
  pl_header :: JournalSlotHeader

definition no_positions :: "dispatch_launch \<Rightarrow> parser_counts list \<Rightarrow> prefix_state" where
  "no_positions la blocks = \<lparr> px_contributor_cursor = 0,
     px_row_cursor = replicate (unat kPullDispatchMaxWorkers) 0,
     px_assignment_cursor = replicate (unat kPullDispatchMaxWorkers) 0, px_blocks = blocks,
     px_expert_counts = replicate (unat (dl_worker_count la) * unat (dl_expert_count la)) 0,
     px_destination_prefix = replicate ((unat (dl_worker_count la) + 1) * unat (dl_worker_count la)) 0 \<rparr>"

definition planned_header :: "u64 \<Rightarrow> u64 \<Rightarrow> u64 \<Rightarrow> bool \<Rightarrow> JournalSlotHeader \<Rightarrow> JournalSlotHeader" where
  "planned_header total_tokens contributor_cursor cookie all_uniform_hints jh =
     jh\<lparr> jh_token_count := ucast total_tokens, jh_contributor_count := ucast contributor_cursor,
         jh_dispatch_cookie := (if cookie = 0 then 1 else cookie),
         jh_flags := (if all_uniform_hints then kJournalFlagUniformDestinations else 0) \<rparr>"

definition prefix_phase ::
  "dispatch_launch \<Rightarrow> u32 \<Rightarrow> JournalSlotHeader \<Rightarrow> u32 list \<Rightarrow> SlotHeader list \<Rightarrow> u32 list \<Rightarrow>
     parser_counts list \<Rightarrow> (u32, dispatch_plan) res" where
  "prefix_phase la cohort jh source_errors headers block_status blocks =
     (let W = unat (dl_worker_count la)
      in rbind (mfold (total_source la source_errors headers) [0..<W] (no_totals la)) (\<lambda>tt.
         rbind (check_row_map la (tt_tokens tt)) (\<lambda>_.
         rbind (mfold (check_parser block_status) [0..<unat (cohort * dl_worker_count la)] ()) (\<lambda>_.
         rbind (mfold (prefix_source la cohort headers) [0..<W] (no_positions la blocks)) (\<lambda>st.
         rbind (mfold (save_prefix la W) [0..<W] st) (\<lambda>st.
         Inr \<lparr> pl_token_prefix = tt_token_prefix tt, pl_assignment_prefix = tt_assignment_prefix tt,
           pl_destination_prefix = px_destination_prefix st,
           pl_row_counts = take W (px_row_cursor st),
           pl_assignment_counts = take W (px_assignment_cursor st),
           pl_expert_counts = px_expert_counts st, pl_blocks = px_blocks st,
           pl_header = planned_header (tt_tokens tt) (px_contributor_cursor st) (tt_cookie tt)
             (tt_hints tt) jh \<rparr>))))))"

subsection \<open>Reserving the journal\<close>

definition reserve_journal ::
  "dispatch_launch \<Rightarrow> JournalSlotHeader \<Rightarrow> (u32, JournalSlotHeader) res" where
  "reserve_journal la jh =
     (if jh_magic jh \<noteq> 0 \<and>
         (jh_magic jh \<noteq> kPullDispatchMagic \<or> jh_abi_version jh \<noteq> kPullDispatchAbiVersion \<or>
          jh_struct_bytes jh \<noteq> of_nat sizeof_JournalSlotHeader \<or>
          (jh_state jh \<noteq> state_code FREE \<and> jh_state jh \<noteq> state_code COMPLETE \<and>
           jh_state jh \<noteq> state_code ABORTED))
      then fail kStatusInvalidState
      else Inr (jh\<lparr> jh_magic := kPullDispatchMagic, jh_abi_version := kPullDispatchAbiVersion,
        jh_struct_bytes := of_nat sizeof_JournalSlotHeader, jh_generation := dl_generation la,
        jh_sequence := dl_sequence la, jh_dispatch_cookie := 0, jh_wave := dl_wave la,
        jh_ring_slot := ucast (dl_ring_slot la), jh_state := state_code DISPATCH_OPEN,
        jh_token_count := 0, jh_contributor_count := 0, jh_status := 0, jh_flags := 0,
        jh_reserved := 0 \<rparr>))"

definition finish_header :: "dispatch_launch \<Rightarrow> u32 \<Rightarrow> JournalSlotHeader \<Rightarrow> JournalSlotHeader" where
  "finish_header la status jh =
     (if status = kStatusOk
      then jh\<lparr>jh_status := kStatusOk, jh_state := state_code DISPATCH_SEALED\<rparr>
      else if jh_magic jh = kPullDispatchMagic \<and> jh_generation jh = dl_generation la \<and>
              jh_sequence jh = dl_sequence la
      then jh\<lparr>jh_status := status, jh_state := state_code ABORTED\<rparr>
      else jh)"

section \<open>Chunks\<close>

lemma mfold_decide:
  assumes "P 0 s"
    and "\<And>k u. k < n \<Longrightarrow> P k u \<Longrightarrow>
      (if C k then \<exists>v. f k u = Inr v \<and> P (Suc k) v else \<exists>x. f k u = fail x)"
  shows "if \<forall>k < n. C k then \<exists>t. mfold f [0..<n] s = Inr t \<and> P n t else \<exists>x. mfold f [0..<n] s = fail x"
  using assms
proof (induction n)
  case (Suc n)
  have IH: "if \<forall>k < n. C k then \<exists>t. mfold f [0..<n] s = Inr t \<and> P n t else \<exists>x. mfold f [0..<n] s = fail x"
    by (rule Suc.IH [OF Suc.prems(1)]) (use Suc.prems(2) in simp)
  show ?case
  proof (cases "\<forall>k < n. C k")
    case True
    then obtain t where t: "mfold f [0..<n] s = Inr t" "P n t" using IH by auto
    then show ?thesis
      using Suc.prems(2) [of n t] True by (auto simp: mfold_append less_Suc_eq split: if_splits)
  next
    case False
    then show ?thesis using IH by (auto simp: mfold_append less_Suc_eq split: if_splits)
  qed
qed simp

lemma mfold_fails: "mfold f xs s = fail x \<Longrightarrow> \<exists>y u. f y u = fail x"
proof (induction xs arbitrary: s)
  case (Cons y ys)
  then show ?case by (cases "f y s") (auto simp: fail_def)
qed simp

lemma prefix_stops:
  "prefix_expert la q d e u = fail x \<Longrightarrow> fst x = kStatusCapacityExceeded"
  "prefix_destination la q d u = fail x \<Longrightarrow> fst x = kStatusCapacityExceeded"
  "prefix_lane la cohort s l u = fail x \<Longrightarrow> fst x = kStatusCapacityExceeded"
proof -
  show e: "fst x = kStatusCapacityExceeded" if "prefix_expert la q d e u = fail x" for q d e u x
    using that by (auto simp: prefix_expert_def Let_def rbind_def vget_def split: if_splits)
  show d: "fst x = kStatusCapacityExceeded" if "prefix_destination la q d u = fail x" for q d u x
    using that by (auto simp: prefix_destination_def Let_def rbind_def vget_def split: if_splits dest!: mfold_fails e)
  show "fst x = kStatusCapacityExceeded" if "prefix_lane la cohort s l u = fail x"
    using that by (auto simp: prefix_lane_def Let_def rbind_def vget_def split: if_splits dest!: mfold_fails d)
qed

text \<open>The tokens of parser block \<open>q\<close> and the rows of the blocks in front of it.\<close>

definition chunk :: "nat \<Rightarrow> (nat \<Rightarrow> ParsedSource) \<Rightarrow> nat \<Rightarrow> nat \<Rightarrow> job list" where
  "chunk W src c q = chunk_jobs W src (q div c) (lane_begin (src (q div c)) c (q mod c))
     (lane_begin (src (q div c)) c (Suc (q mod c)))"

definition jobs_before :: "nat \<Rightarrow> (nat \<Rightarrow> ParsedSource) \<Rightarrow> nat \<Rightarrow> nat \<Rightarrow> job list" where
  "jobs_before W src c q = concat (map (chunk W src c) [0..<q])"

lemma jobs_before_0 [simp]: "jobs_before W src c 0 = []"
  by (simp add: jobs_before_def)

lemma jobs_before_Suc: "jobs_before W src c (Suc q) = jobs_before W src c q @ chunk W src c q"
  by (simp add: jobs_before_def)

lemma concat_map_concat: "concat (map f (concat (map g xs))) = concat (map (\<lambda>x. concat (map f (g x))) xs)"
  by (induction xs) simp_all

lemma chunks_of_source:
  assumes "0 < c"
  shows "concat (map (\<lambda>l. chunk W src c (s * c + l)) [0..<c]) = source_jobs W src s"
proof -
  let ?n = "length (ps_tokens (src s))"
  have "concat (map (\<lambda>l. chunk W src c (s * c + l)) [0..<c]) =
      concat (map (\<lambda>l. chunk_jobs W src s (lane_bound ?n c l) (lane_bound ?n c (Suc l))) [0..<c])"
    by (rule arg_cong [where f = concat], rule map_cong) (simp_all add: chunk_def lane_begin_def)
  also have "\<dots> = concat (map (token_jobs W src s)
      (concat (map (\<lambda>l. [lane_bound ?n c l..<lane_bound ?n c (Suc l)]) [0..<c])))"
    by (simp add: chunk_jobs_def concat_map_concat)
  also have "\<dots> = source_jobs W src s"
    unfolding lanes_cover [OF assms] by (simp add: source_jobs_chunk chunk_jobs_def)
  finally show ?thesis .
qed

lemma layout_jobs_Suc: "layout_jobs W src [0..<Suc s] = layout_jobs W src [0..<s] @ source_jobs W src s"
  by (simp add: layout_jobs_def)

lemma jobs_before_add:
  "jobs_before W src c (q + n) = jobs_before W src c q @ concat (map (\<lambda>l. chunk W src c (q + l)) [0..<n])"
proof (induction n)
  case (Suc n)
  then show ?case using jobs_before_Suc [of W src c "q + n"] by simp
qed simp

lemma jobs_before_source: "0 < c \<Longrightarrow> jobs_before W src c (s * c) = layout_jobs W src [0..<s]"
proof (induction s)
  case (Suc s)
  have "jobs_before W src c (s * c + c) = layout_jobs W src [0..<s] @ source_jobs W src s"
    using Suc by (simp add: jobs_before_add chunks_of_source)
  then show ?case by (simp add: layout_jobs_def add.commute)
qed (simp add: layout_jobs_def)

text \<open>Rows and assignments add up.\<close>

lemma length_flat_append: "length (flat src (xs @ ys)) = length (flat src xs) + length (flat src ys)"
  by (simp add: length_flat)

lemma expert_count_flat:
  "expert_count e (flat src ds) = sum_list (map (\<lambda>j. length (filter (\<lambda>a. to_expert a = e) (job_group src j))) ds)"
  by (induction ds rule: rev_induct) (simp_all add: expert_count_append expert_count_Pair expert_count_def [of e "[]"])

lemma expert_count_flat_append:
  "expert_count e (flat src (xs @ ys)) = expert_count e (flat src xs) + expert_count e (flat src ys)"
  by (simp add: expert_count_flat)

section \<open>The positions of the blocks\<close>

definition caps_ok :: "dispatch_launch \<Rightarrow> (nat \<Rightarrow> ParsedSource) \<Rightarrow> job list \<Rightarrow> bool" where
  "caps_ok la src js \<longleftrightarrow> length js \<le> unat (dl_journal_contributor_capacity la) \<and>
     (\<forall>d < unat (dl_worker_count la). length (jobs_at d js) \<le> unat (dl_destination_row_capacity la) \<and>
        length (flat src (jobs_at d js)) \<le> unat (dl_destination_assignment_capacity la))"

lemma caps_ok_prefix: "caps_ok la src (xs @ ys) \<Longrightarrow> caps_ok la src xs"
  by (auto simp: caps_ok_def jobs_at_append length_flat_append)

text \<open>The capacities a launch may have.\<close>

definition caps_small :: "dispatch_launch \<Rightarrow> bool" where
  "caps_small la \<longleftrightarrow> unat (dl_journal_token_capacity la) < 2 ^ 32 \<and>
     unat (dl_journal_contributor_capacity la) < 2 ^ 32 \<and>
     unat (dl_destination_row_capacity la) < 2 ^ 32 \<and> unat (dl_destination_assignment_capacity la) < 2 ^ 32"

definition positioned :: "nat \<Rightarrow> nat \<Rightarrow> (nat \<Rightarrow> ParsedSource) \<Rightarrow> job list \<Rightarrow> prefix_state \<Rightarrow> bool" where
  "positioned W E src js st \<longleftrightarrow> unat (px_contributor_cursor st) = length js \<and>
     length (px_row_cursor st) = 128 \<and> length (px_assignment_cursor st) = 128 \<and>
     length (px_expert_counts st) = W * E \<and>
     (\<forall>d < W. unat (px_row_cursor st ! d) = length (jobs_at d js) \<and>
        unat (px_assignment_cursor st ! d) = length (flat src (jobs_at d js)) \<and>
        (\<forall>e < E. unat (px_expert_counts st ! (d * E + e)) = expert_count e (flat src (jobs_at d js))))"

lemma unat_add_u32: "unat (a :: u32) + unat b < 2 ^ 32 \<Longrightarrow> unat (a + b) = unat a + unat b"
  by (simp add: unat_add_lem [THEN iffD1])

lemma u32_room: "extra > 0xffffffff - base \<longleftrightarrow> \<not> unat (base :: u32) + unat extra < 2 ^ 32"
proof -
  have "unat (0xffffffff - base) = 2 ^ 32 - 1 - unat base"
    using unsigned_less [of base, where ?'a = nat] by (subst unat_sub) (simp_all add: word_le_nat_alt)
  then show ?thesis
    using unsigned_less [of base, where ?'a = nat] unsigned_less [of extra, where ?'a = nat]
    by (auto simp: word_less_nat_alt)
qed

lemma u64_room:
  assumes "unat (used :: u32) \<le> unat (cap :: u64)"
  shows "ucast (extra :: u32) > cap - ucast used \<longleftrightarrow> \<not> unat used + unat extra \<le> unat cap"
proof -
  have "unat (cap - ucast used) = unat cap - unat used"
    using assms by (subst unat_sub) (simp_all add: word_le_nat_alt unat_ucast_u64)
  then show ?thesis using assms by (auto simp: word_less_nat_alt unat_ucast_u64)
qed

lemma prefix_experts:
  assumes E: "E = unat (dl_expert_count la)" and d: "d < W" and q: "q < length (px_blocks st)"
    and b: "length (pc_experts (px_blocks st ! q)) = W * E" and ec: "length (px_expert_counts st) = W * E"
    and room: "\<And>e. e < E \<Longrightarrow> unat (px_expert_counts st ! (d * E + e)) +
      unat (pc_experts (px_blocks st ! q) ! (d * E + e)) < 2 ^ 32"
  shows "\<exists>xs ys. mfold (prefix_expert la q d) [0..<E] st =
      Inr (st\<lparr>px_blocks := (px_blocks st)[q := (px_blocks st ! q)\<lparr>pc_experts := xs\<rparr>], px_expert_counts := ys\<rparr>) \<and>
    length xs = W * E \<and> length ys = W * E \<and>
    (\<forall>d' < W. \<forall>e < E. xs ! (d' * E + e) = (if d' = d then px_expert_counts st ! (d' * E + e)
        else pc_experts (px_blocks st ! q) ! (d' * E + e)) \<and>
      ys ! (d' * E + e) = (if d' = d then px_expert_counts st ! (d' * E + e) +
        pc_experts (px_blocks st ! q) ! (d' * E + e) else px_expert_counts st ! (d' * E + e)))"
proof -
  let ?b = "px_blocks st ! q" and ?ec = "px_expert_counts st"
  let ?P = "\<lambda>k u. \<exists>xs ys. u = st\<lparr>px_blocks := (px_blocks st)[q := ?b\<lparr>pc_experts := xs\<rparr>], px_expert_counts := ys\<rparr> \<and>
    length xs = W * E \<and> length ys = W * E \<and>
    (\<forall>d' < W. \<forall>e < E. xs ! (d' * E + e) = (if d' = d \<and> e < k then ?ec ! (d' * E + e) else pc_experts ?b ! (d' * E + e)) \<and>
      ys ! (d' * E + e) = (if d' = d \<and> e < k then ?ec ! (d' * E + e) + pc_experts ?b ! (d' * E + e) else ?ec ! (d' * E + e)))"
  have "\<exists>t. mfold (prefix_expert la q d) [0..<E] st = Inr t \<and> ?P E t"
  proof (rule mfold_upt_total [where P = ?P])
    show "?P 0 st"
      by (intro exI [of _ "pc_experts ?b"] exI [of _ ?ec]) (simp add: b ec)
  next
    fix k u assume k: "k < E" and "?P k u"
    then obtain xs ys where u: "u = st\<lparr>px_blocks := (px_blocks st)[q := ?b\<lparr>pc_experts := xs\<rparr>], px_expert_counts := ys\<rparr>"
      and len: "length xs = W * E" "length ys = W * E"
      and val: "\<forall>d' < W. \<forall>e < E. xs ! (d' * E + e) = (if d' = d \<and> e < k then ?ec ! (d' * E + e) else pc_experts ?b ! (d' * E + e)) \<and>
        ys ! (d' * E + e) = (if d' = d \<and> e < k then ?ec ! (d' * E + e) + pc_experts ?b ! (d' * E + e) else ?ec ! (d' * E + e))"
      by blast
    let ?i = "d * E + k"
    have i: "?i < W * E" by (rule index_bound [OF d k])
    have at: "xs ! ?i = pc_experts ?b ! ?i" "ys ! ?i = ?ec ! ?i" using val d k by simp_all
    let ?v = "st\<lparr>px_blocks := (px_blocks st)[q := ?b\<lparr>pc_experts := xs[?i := ?ec ! ?i]\<rparr>],
      px_expert_counts := ys[?i := ?ec ! ?i + pc_experts ?b ! ?i]\<rparr>"
    have "prefix_expert la q d k u = Inr ?v"
      using q i len room [OF k] by (simp add: prefix_expert_def u E [symmetric] Let_def at put_block_def u32_room)
    moreover have "?P (Suc k) ?v"
    proof (intro exI conjI allI impI)
      fix d' e assume d': "d' < W" and e: "e < E"
      have "?i = d' * E + e \<longleftrightarrow> d = d' \<and> k = e" by (rule index_inject [OF k e])
      then show "xs[?i := ?ec ! ?i] ! (d' * E + e) = (if d' = d \<and> e < Suc k then ?ec ! (d' * E + e) else pc_experts ?b ! (d' * E + e))"
        "ys[?i := ?ec ! ?i + pc_experts ?b ! ?i] ! (d' * E + e) =
          (if d' = d \<and> e < Suc k then ?ec ! (d' * E + e) + pc_experts ?b ! (d' * E + e) else ?ec ! (d' * E + e))"
        using val d' e len i by (auto simp: nth_list_update less_Suc_eq)
    qed (use len in simp_all)
    ultimately show "\<exists>v. prefix_expert la q d k u = Inr v \<and> ?P (Suc k) v" by blast
  qed
  then obtain xs ys where "mfold (prefix_expert la q d) [0..<E] st =
      Inr (st\<lparr>px_blocks := (px_blocks st)[q := ?b\<lparr>pc_experts := xs\<rparr>], px_expert_counts := ys\<rparr>)"
    "length xs = W * E" "length ys = W * E"
    "\<forall>d' < W. \<forall>e < E. xs ! (d' * E + e) = (if d' = d \<and> e < E then ?ec ! (d' * E + e) else pc_experts ?b ! (d' * E + e)) \<and>
      ys ! (d' * E + e) = (if d' = d \<and> e < E then ?ec ! (d' * E + e) + pc_experts ?b ! (d' * E + e) else ?ec ! (d' * E + e))"
    by blast
  then show ?thesis by (intro exI [of _ xs] exI [of _ ys]) simp
qed

definition dest_fits :: "dispatch_launch \<Rightarrow> prefix_state \<Rightarrow> parser_counts \<Rightarrow> nat \<Rightarrow> bool" where
  "dest_fits la st b d \<longleftrightarrow>
     unat (px_row_cursor st ! d) + unat (pc_rows b ! d) \<le> unat (dl_destination_row_capacity la) \<and>
     unat (px_assignment_cursor st ! d) + unat (pc_assignments b ! d) \<le>
       unat (dl_destination_assignment_capacity la)"

text \<open>What the loop over the destinations has done up to destination \<open>k\<close>: the cells of the block hold the
  cursors, and the cursors have advanced by what the cells held.\<close>

definition dests_advanced ::
  "nat \<Rightarrow> nat \<Rightarrow> prefix_state \<Rightarrow> nat \<Rightarrow> nat \<Rightarrow> prefix_state \<Rightarrow> bool" where
  "dests_advanced W E st q k u \<longleftrightarrow>
     (let b = px_blocks st ! q; b' = px_blocks u ! q
      in px_blocks u = (px_blocks st)[q := b'] \<and> px_contributor_cursor u = px_contributor_cursor st \<and>
         px_destination_prefix u = px_destination_prefix st \<and>
         counts_sized W E b' \<and> pc_contributors b' = pc_contributors b \<and>
         length (px_row_cursor u) = 128 \<and> length (px_assignment_cursor u) = 128 \<and>
         length (px_expert_counts u) = W * E \<and>
         (\<forall>d < W. px_row_cursor u ! d = px_row_cursor st ! d + (if d < k then pc_rows b ! d else 0) \<and>
            pc_rows b' ! d = (if d < k then px_row_cursor st ! d else pc_rows b ! d) \<and>
            px_assignment_cursor u ! d = px_assignment_cursor st ! d +
              (if d < k then pc_assignments b ! d else 0) \<and>
            pc_assignments b' ! d = (if d < k then px_assignment_cursor st ! d else pc_assignments b ! d) \<and>
            (\<forall>e < E. px_expert_counts u ! (d * E + e) = px_expert_counts st ! (d * E + e) +
                 (if d < k then pc_experts b ! (d * E + e) else 0) \<and>
               pc_experts b' ! (d * E + e) = (if d < k then px_expert_counts st ! (d * E + e)
                 else pc_experts b ! (d * E + e)))))"

lemma prefix_destination_step:
  assumes la: "E = unat (dl_expert_count la)" and W: "W \<le> 128" and q: "q < length (px_blocks st)" and k: "k < W"
    and below: "unat (px_row_cursor st ! k) \<le> unat (dl_destination_row_capacity la)"
      "unat (px_assignment_cursor st ! k) \<le> unat (dl_destination_assignment_capacity la)"
    and room: "dest_fits la st (px_blocks st ! q) k \<Longrightarrow> \<forall>e < E. unat (px_expert_counts st ! (k * E + e)) +
      unat (pc_experts (px_blocks st ! q) ! (k * E + e)) < 2 ^ 32"
    and P: "dests_advanced W E st q k u"
  shows "if dest_fits la st (px_blocks st ! q) k
    then \<exists>v. prefix_destination la q k u = Inr v \<and> dests_advanced W E st q (Suc k) v
    else \<exists>x. prefix_destination la q k u = fail x"
proof -
  let ?b = "px_blocks st ! q" and ?b' = "px_blocks u ! q"
  note P' = P [unfolded dests_advanced_def Let_def]
  have blocks: "px_blocks u = (px_blocks st)[q := ?b']" using P' by blast
  have qu: "q < length (px_blocks u)" using q by (subst blocks) simp
  have sz: "length (pc_rows ?b') = W" "length (pc_assignments ?b') = W" "length (pc_experts ?b') = W * E"
    "length (px_row_cursor u) = 128" "length (px_assignment_cursor u) = 128" "length (px_expert_counts u) = W * E"
    using P' by (simp_all add: counts_sized_def)
  have k128: "k < 128" using k W by simp
  have cur: "px_row_cursor u ! k = px_row_cursor st ! k" "pc_rows ?b' ! k = pc_rows ?b ! k"
    "px_assignment_cursor u ! k = px_assignment_cursor st ! k" "pc_assignments ?b' ! k = pc_assignments ?b ! k"
    "\<And>e. e < E \<Longrightarrow> px_expert_counts u ! (k * E + e) = px_expert_counts st ! (k * E + e)"
    "\<And>e. e < E \<Longrightarrow> pc_experts ?b' ! (k * E + e) = pc_experts ?b ! (k * E + e)"
    using P' k by simp_all
  let ?b1 = "?b'\<lparr>pc_rows := (pc_rows ?b')[k := px_row_cursor u ! k],
      pc_assignments := (pc_assignments ?b')[k := px_assignment_cursor u ! k]\<rparr>"
  let ?u1 = "u\<lparr>px_blocks := (px_blocks u)[q := ?b1],
      px_row_cursor := (px_row_cursor u)[k := px_row_cursor u ! k + pc_rows ?b' ! k],
      px_assignment_cursor := (px_assignment_cursor u)[k := px_assignment_cursor u ! k + pc_assignments ?b' ! k]\<rparr>"
  have run: "prefix_destination la q k u = (if dest_fits la st ?b k
      then mfold (prefix_expert la q k) [0..<E] ?u1 else fail (kStatusCapacityExceeded, put_block q (\<lambda>_. ?b1) u))"
    using qu k k128 sz below
    by (simp add: prefix_destination_def put_block_def Let_def u64_room cur dest_fits_def la [symmetric])
  show ?thesis
  proof (cases "dest_fits la st ?b k")
    case False
    then show ?thesis by (simp add: run)
  next
    case True
    have "\<exists>xs ys. mfold (prefix_expert la q k) [0..<E] ?u1 =
        Inr (?u1\<lparr>px_blocks := (px_blocks ?u1)[q := (px_blocks ?u1 ! q)\<lparr>pc_experts := xs\<rparr>], px_expert_counts := ys\<rparr>) \<and>
      length xs = W * E \<and> length ys = W * E \<and>
      (\<forall>d' < W. \<forall>e < E. xs ! (d' * E + e) = (if d' = k then px_expert_counts ?u1 ! (d' * E + e)
          else pc_experts (px_blocks ?u1 ! q) ! (d' * E + e)) \<and>
        ys ! (d' * E + e) = (if d' = k then px_expert_counts ?u1 ! (d' * E + e) +
          pc_experts (px_blocks ?u1 ! q) ! (d' * E + e) else px_expert_counts ?u1 ! (d' * E + e)))"
    proof (rule prefix_experts [OF la k])
      show "unat (px_expert_counts ?u1 ! (k * E + e)) + unat (pc_experts (px_blocks ?u1 ! q) ! (k * E + e)) < 2 ^ 32"
        if "e < E" for e using room [OF True] that qu by (simp add: cur)
    qed (use qu sz in simp_all)
    then obtain xs ys where ex: "mfold (prefix_expert la q k) [0..<E] ?u1 =
        Inr (?u1\<lparr>px_blocks := (px_blocks u)[q := ?b1\<lparr>pc_experts := xs\<rparr>], px_expert_counts := ys\<rparr>)"
      and len: "length xs = W * E" "length ys = W * E"
      and val: "\<forall>d' < W. \<forall>e < E. xs ! (d' * E + e) = (if d' = k then px_expert_counts u ! (d' * E + e)
          else pc_experts ?b' ! (d' * E + e)) \<and>
        ys ! (d' * E + e) = (if d' = k then px_expert_counts u ! (d' * E + e) + pc_experts ?b' ! (d' * E + e)
          else px_expert_counts u ! (d' * E + e))"
      using qu by auto
    let ?v = "?u1\<lparr>px_blocks := (px_blocks u)[q := ?b1\<lparr>pc_experts := xs\<rparr>], px_expert_counts := ys\<rparr>"
    have blk: "(px_blocks u)[q := x] = (px_blocks st)[q := x]" for x by (subst blocks) simp
    have "dests_advanced W E st q (Suc k) ?v"
      unfolding dests_advanced_def Let_def
    proof (intro conjI allI impI)
      show "px_blocks ?v = (px_blocks st)[q := px_blocks ?v ! q]" using q by (simp add: blk)
    next
      fix d assume d: "d < W"
      note old = P' [THEN conjunct2, THEN conjunct2, THEN conjunct2, THEN conjunct2, THEN conjunct2,
          THEN conjunct2, THEN conjunct2, THEN conjunct2, rule_format, OF d]
      show "px_row_cursor ?v ! d = px_row_cursor st ! d + (if d < Suc k then pc_rows ?b ! d else 0)"
        "px_assignment_cursor ?v ! d = px_assignment_cursor st ! d + (if d < Suc k then pc_assignments ?b ! d else 0)"
        "pc_rows (px_blocks ?v ! q) ! d = (if d < Suc k then px_row_cursor st ! d else pc_rows ?b ! d)"
        "pc_assignments (px_blocks ?v ! q) ! d =
          (if d < Suc k then px_assignment_cursor st ! d else pc_assignments ?b ! d)"
        using old d k128 sz qu by (auto simp: nth_list_update less_Suc_eq)
      fix e assume e: "e < E"
      show "px_expert_counts ?v ! (d * E + e) = px_expert_counts st ! (d * E + e) +
          (if d < Suc k then pc_experts ?b ! (d * E + e) else 0)"
        "pc_experts (px_blocks ?v ! q) ! (d * E + e) =
          (if d < Suc k then px_expert_counts st ! (d * E + e) else pc_experts ?b ! (d * E + e))"
        using old val d e qu by (auto simp: less_Suc_eq)
    qed (use sz len qu P' in \<open>simp_all add: counts_sized_def\<close>)
    then show ?thesis using True ex by (simp add: run)
  qed
qed

lemma prefix_destinations:
  assumes la: "E = unat (dl_expert_count la)" and W: "W \<le> 128" and q: "q < length (px_blocks st)"
    and sz: "counts_sized W E (px_blocks st ! q)" "length (px_row_cursor st) = 128"
      "length (px_assignment_cursor st) = 128" "length (px_expert_counts st) = W * E"
    and below: "\<And>d. d < W \<Longrightarrow> unat (px_row_cursor st ! d) \<le> unat (dl_destination_row_capacity la)"
      "\<And>d. d < W \<Longrightarrow> unat (px_assignment_cursor st ! d) \<le> unat (dl_destination_assignment_capacity la)"
    and room: "\<And>d. d < W \<Longrightarrow> dest_fits la st (px_blocks st ! q) d \<Longrightarrow> \<forall>e < E.
      unat (px_expert_counts st ! (d * E + e)) + unat (pc_experts (px_blocks st ! q) ! (d * E + e)) < 2 ^ 32"
  shows "if \<forall>d < W. dest_fits la st (px_blocks st ! q) d
    then \<exists>u. mfold (prefix_destination la q) [0..<W] st = Inr u \<and> dests_advanced W E st q W u
    else \<exists>x. mfold (prefix_destination la q) [0..<W] st = fail x"
proof (rule mfold_decide [where P = "dests_advanced W E st q" and C = "dest_fits la st (px_blocks st ! q)"])
  show "dests_advanced W E st q 0 st" using q sz by (simp add: dests_advanced_def)
next
  fix k u assume k: "k < W" and P: "dests_advanced W E st q k u"
  show "if dest_fits la st (px_blocks st ! q) k
      then \<exists>v. prefix_destination la q k u = Inr v \<and> dests_advanced W E st q (Suc k) v
      else \<exists>x. prefix_destination la q k u = fail x"
    by (rule prefix_destination_step [OF la W q k below(1) [OF k] below(2) [OF k] room [OF k] P])
qed

text \<open>Blocks in front of \<open>q\<close> hold their position, the others still their counts.\<close>

definition blocks_at ::
  "nat \<Rightarrow> nat \<Rightarrow> (nat \<Rightarrow> ParsedSource) \<Rightarrow> nat \<Rightarrow> nat \<Rightarrow> nat \<Rightarrow> parser_counts list \<Rightarrow> bool" where
  "blocks_at W E src c A q blocks \<longleftrightarrow> length blocks = A \<and>
     (\<forall>i < A. counts_of W E src (if i < q then jobs_before W src c i else chunk W src c i) (blocks ! i))"

lemma unat_ucast_u32: "unat (w :: u64) < 2 ^ 32 \<Longrightarrow> unat (ucast w :: u32) = unat w"
  by (simp add: unsigned_ucast_eq take_bit_nat_eq_self_iff)

lemma unat_add_u64_u32:
  assumes "unat (a :: u64) < 2 ^ 32"
  shows "unat (a + ucast (b :: u32)) = unat a + unat b"
  using assms unsigned_less [of b, where ?'a = nat]
  by (subst unat_add_lem [THEN iffD1]) (simp_all add: unat_ucast_u64)

lemma prefix_lane_step:
  assumes la: "W = unat (dl_worker_count la)" "W \<le> 128" "E = unat (dl_expert_count la)" "caps_small la"
    and q: "q = source * unat cohort + lane" "q < A"
    and pos: "positioned W E src (jobs_before W src c q) st"
    and caps: "caps_ok la src (jobs_before W src c q)"
    and blocks: "blocks_at W E src c A q (px_blocks st)"
  shows "if caps_ok la src (jobs_before W src c (Suc q))
    then \<exists>v. prefix_lane la cohort source lane st = Inr v \<and>
      positioned W E src (jobs_before W src c (Suc q)) v \<and> blocks_at W E src c A (Suc q) (px_blocks v) \<and>
      px_destination_prefix v = px_destination_prefix st
    else \<exists>x. prefix_lane la cohort source lane st = fail x"
proof -
  let ?js = "jobs_before W src c q" and ?ch = "chunk W src c q" and ?b = "px_blocks st ! q"
  let ?cc = "px_contributor_cursor st"
  have ql: "q < length (px_blocks st)" using q blocks by (simp add: blocks_at_def)
  have b: "counts_of W E src ?ch ?b" using q(2) blocks by (force simp: blocks_at_def)
  have cc: "unat ?cc = length ?js" and cc32: "unat ?cc < 2 ^ 32"
    using pos caps la(4) by (auto simp: positioned_def caps_ok_def caps_small_def)
  have jd: "length (jobs_at d (jobs_before W src c (Suc q))) = length (jobs_at d ?js) + length (jobs_at d ?ch)"
    "length (flat src (jobs_at d (jobs_before W src c (Suc q)))) =
      length (flat src (jobs_at d ?js)) + length (flat src (jobs_at d ?ch))"
    "expert_count e (flat src (jobs_at d (jobs_before W src c (Suc q)))) =
      expert_count e (flat src (jobs_at d ?js)) + expert_count e (flat src (jobs_at d ?ch))" for d e
    by (simp_all add: jobs_before_Suc jobs_at_append length_flat_append expert_count_flat_append)
  let ?b1 = "?b\<lparr>pc_contributors := ucast ?cc\<rparr>"
  let ?st1 = "st\<lparr>px_blocks := (px_blocks st)[q := ?b1], px_contributor_cursor := ?cc + ucast (pc_contributors ?b)\<rparr>"
  have cur: "unat (?cc + ucast (pc_contributors ?b)) = length ?js + length ?ch"
    using unat_add_u64_u32 [OF cc32] b cc by (simp add: counts_of_def)
  have small: "unat (dl_journal_contributor_capacity la) < 2 ^ 32" "unat (dl_destination_row_capacity la) < 2 ^ 32"
    "unat (dl_destination_assignment_capacity la) < 2 ^ 32" using la(4) by (simp_all add: caps_small_def)
  let ?fits = "length ?js + length ?ch \<le> unat (dl_journal_contributor_capacity la)"
  have big: "?cc + ucast (pc_contributors ?b) > dl_journal_contributor_capacity la \<or>
      ?cc + ucast (pc_contributors ?b) > 0xffffffff \<longleftrightarrow> \<not> ?fits"
    using small(1) by (auto simp: word_less_nat_alt cur)
  have run: "prefix_lane la cohort source lane st =
      (if ?fits then mfold (prefix_destination la q) [0..<W] ?st1 else fail (kStatusCapacityExceeded, ?st1))"
    using ql big unfolding prefix_lane_def q(1) [symmetric] Let_def
    by (auto simp: put_block_def la(1) [symmetric])
  have df: "dest_fits la ?st1 (px_blocks ?st1 ! q) d \<longleftrightarrow>
      length (jobs_at d (jobs_before W src c (Suc q))) \<le> unat (dl_destination_row_capacity la) \<and>
      length (flat src (jobs_at d (jobs_before W src c (Suc q)))) \<le> unat (dl_destination_assignment_capacity la)"
    if "d < W" for d
    using that ql pos b by (simp add: dest_fits_def jd positioned_def counts_of_def)
  have caps_iff: "caps_ok la src (jobs_before W src c (Suc q)) \<longleftrightarrow>
      ?fits \<and> (\<forall>d < W. dest_fits la ?st1 (px_blocks ?st1 ! q) d)"
    using df by (auto simp: caps_ok_def la(1) [symmetric] jobs_before_Suc)
  have dests: "if \<forall>d < W. dest_fits la ?st1 (px_blocks ?st1 ! q) d
    then \<exists>u. mfold (prefix_destination la q) [0..<W] ?st1 = Inr u \<and> dests_advanced W E ?st1 q W u
    else \<exists>x. mfold (prefix_destination la q) [0..<W] ?st1 = fail x"
  proof (rule prefix_destinations [OF la(3,2)])
    fix d assume d: "d < W"
    show "unat (px_row_cursor ?st1 ! d) \<le> unat (dl_destination_row_capacity la)"
      "unat (px_assignment_cursor ?st1 ! d) \<le> unat (dl_destination_assignment_capacity la)"
      using d pos caps la(1) by (simp_all add: positioned_def caps_ok_def)
    assume "dest_fits la ?st1 (px_blocks ?st1 ! q) d"
    then have "length (flat src (jobs_at d (jobs_before W src c (Suc q)))) < 2 ^ 32"
      using df [OF d] small(3) by linarith
    then have "expert_count e (flat src (jobs_at d (jobs_before W src c (Suc q)))) < 2 ^ 32" for e
      using expert_count_le le_less_trans by blast
    then show "\<forall>e < E. unat (px_expert_counts ?st1 ! (d * E + e)) +
        unat (pc_experts (px_blocks ?st1 ! q) ! (d * E + e)) < 2 ^ 32"
      using d ql pos b by (simp add: positioned_def counts_of_def jd)
  qed (use ql b pos in \<open>simp_all add: counts_of_def counts_sized_def positioned_def\<close>)
  show ?thesis
  proof (cases "caps_ok la src (jobs_before W src c (Suc q))")
    case False
    have "\<exists>x. prefix_lane la cohort source lane st = fail x"
    proof (cases ?fits)
      case True
      then have "\<not> (\<forall>d < W. dest_fits la ?st1 (px_blocks ?st1 ! q) d)" using False caps_iff by blast
      then show ?thesis using dests unfolding run if_P [OF True] by (simp only: if_False)
    next
      case False
      show ?thesis unfolding run if_not_P [OF False] by blast
    qed
    then show ?thesis using False by (simp only: if_False)
  next
    case True
    then obtain u where u: "mfold (prefix_destination la q) [0..<W] ?st1 = Inr u"
      and adv: "dests_advanced W E ?st1 q W u" using caps_iff dests by auto
    note adv' = adv [unfolded dests_advanced_def Let_def]
    have ublocks: "px_blocks u = (px_blocks st)[q := px_blocks u ! q]" using adv' by simp
    have val: "px_row_cursor u ! d = px_row_cursor st ! d + pc_rows ?b ! d"
      "pc_rows (px_blocks u ! q) ! d = px_row_cursor st ! d"
      "px_assignment_cursor u ! d = px_assignment_cursor st ! d + pc_assignments ?b ! d"
      "pc_assignments (px_blocks u ! q) ! d = px_assignment_cursor st ! d"
      "\<And>e. e < E \<Longrightarrow> px_expert_counts u ! (d * E + e) = px_expert_counts st ! (d * E + e) + pc_experts ?b ! (d * E + e)"
      "\<And>e. e < E \<Longrightarrow> pc_experts (px_blocks u ! q) ! (d * E + e) = px_expert_counts st ! (d * E + e)"
      if "d < W" for d using adv' that ql by auto
    have "positioned W E src (jobs_before W src c (Suc q)) u"
      unfolding positioned_def
    proof (intro conjI allI impI)
      show "unat (px_contributor_cursor u) = length (jobs_before W src c (Suc q))"
        using adv' cur by (simp add: jobs_before_Suc)
      fix d assume d: "d < W"
      have fit: "length (jobs_at d ?js) + length (jobs_at d ?ch) < 2 ^ 32"
        "length (flat src (jobs_at d ?js)) + length (flat src (jobs_at d ?ch)) < 2 ^ 32"
        using True d small(2,3) la(1) unfolding caps_ok_def jd(1,2) [symmetric] by (meson le_less_trans)+
      show "unat (px_row_cursor u ! d) = length (jobs_at d (jobs_before W src c (Suc q)))"
        "unat (px_assignment_cursor u ! d) = length (flat src (jobs_at d (jobs_before W src c (Suc q))))"
        using d fit pos b by (simp_all add: val jd unat_add_u32 positioned_def counts_of_def)
      fix e assume e: "e < E"
      have "expert_count e (flat src (jobs_at d ?js)) + expert_count e (flat src (jobs_at d ?ch)) < 2 ^ 32"
        using fit(2) expert_count_le [of e "flat src (jobs_at d ?js)"] expert_count_le [of e "flat src (jobs_at d ?ch)"]
        by linarith
      then show "unat (px_expert_counts u ! (d * E + e)) = expert_count e (flat src (jobs_at d (jobs_before W src c (Suc q))))"
        using d e pos b by (simp add: val jd unat_add_u32 positioned_def counts_of_def)
    qed (use adv' in simp_all)
    moreover have "counts_of W E src ?js (px_blocks u ! q)"
      unfolding counts_of_def
    proof (intro conjI allI impI)
      show "unat (pc_contributors (px_blocks u ! q)) = length ?js"
        using adv' ql cc cc32 by (simp add: unat_ucast_u32)
    qed (use adv' val pos in \<open>simp_all add: positioned_def\<close>)
    then have "blocks_at W E src c A (Suc q) (px_blocks u)"
      using blocks ql by (subst ublocks) (auto simp: blocks_at_def nth_list_update less_Suc_eq)
    moreover have "px_destination_prefix u = px_destination_prefix st" using adv' by simp
    ultimately show ?thesis using True caps_iff u run by auto
  qed
qed

section \<open>Uniform sources\<close>

text \<open>The rows and assignments a source adds to a destination, and what the uniform hint says of them.\<close>

definition uniform_adds :: "nat \<Rightarrow> (nat \<Rightarrow> ParsedSource) \<Rightarrow> nat \<Rightarrow> nat \<Rightarrow> bool" where
  "uniform_adds W src s d \<longleftrightarrow>
     (let rows = length (jobs_at d (source_jobs W src s));
          assignments = length (flat src (jobs_at d (source_jobs W src s)));
          n = length (ps_tokens (src s))
      in (rows = 0 \<and> assignments = 0) \<or> (rows = n \<and> assignments = n))"

lemma source_adds:
  assumes "d < W"
  shows "length (jobs_at d (source_jobs W src s)) =
      length (filter (\<lambda>t. d \<in> set (run_dests (src s) t)) [0..<length (ps_tokens (src s))])"
    and "length (flat src (jobs_at d (source_jobs W src s))) =
      sum_list (map (\<lambda>t. length (filter (\<lambda>x. x = d) (run_dests (src s) t))) [0..<length (ps_tokens (src s))])"
proof -
  have set: "set (run_dests p t) = to_dest ` set (token_run p t)" for p t by (simp add: run_dests_def)
  have grp: "length (job_group src (s, t, d)) = length (filter (\<lambda>x. x = d) (run_dests (src s) t))" for t
    by (simp add: job_group_def group_of_def run_dests_def filter_map comp_def)
  have none: "length (filter (\<lambda>x. x = d) xs) = 0 \<longleftrightarrow> d \<notin> set xs" for xs by (auto simp: filter_empty_conv)
  have 1: "length (jobs_at d (concat (map (token_jobs W src s) ts))) =
      length (filter (\<lambda>t. d \<in> set (run_dests (src s) t)) ts)" for ts
    by (induction ts) (simp_all add: jobs_at_append jobs_at_token [OF assms] set)
  have 2: "length (flat src (jobs_at d (concat (map (token_jobs W src s) ts)))) =
      sum_list (map (\<lambda>t. length (filter (\<lambda>x. x = d) (run_dests (src s) t))) ts)" for ts
  proof (induction ts)
    case (Cons t ts)
    have "length (flat src (jobs_at d (token_jobs W src s t))) = length (filter (\<lambda>x. x = d) (run_dests (src s) t))"
      using grp [of t] none [of "run_dests (src s) t"]
      by (simp add: jobs_at_token [OF assms] set [symmetric] length_flat)
    then show ?case using Cons by (simp add: jobs_at_append length_flat_append)
  qed simp
  show "length (jobs_at d (source_jobs W src s)) =
      length (filter (\<lambda>t. d \<in> set (run_dests (src s) t)) [0..<length (ps_tokens (src s))])"
    "length (flat src (jobs_at d (source_jobs W src s))) =
      sum_list (map (\<lambda>t. length (filter (\<lambda>x. x = d) (run_dests (src s) t))) [0..<length (ps_tokens (src s))])"
    using 1 2 by (simp_all add: source_jobs_chunk chunk_jobs_def)
qed

lemma distinct_occurrences: "distinct xs \<longleftrightarrow> (\<forall>x. length (filter (\<lambda>y. y = x) xs) \<le> 1)"
proof (induction xs)
  case (Cons a xs)
  let ?occ = "\<lambda>x xs. length (filter (\<lambda>y. y = x) xs)"
  have step: "?occ x (a # xs) = (if a = x then Suc (?occ x xs) else ?occ x xs)" for x by simp
  have none: "?occ a xs = 0 \<longleftrightarrow> a \<notin> set xs" by (auto simp: filter_empty_conv)
  have "(\<forall>x. ?occ x (a # xs) \<le> 1) \<longleftrightarrow> ?occ a xs = 0 \<and> (\<forall>x. ?occ x xs \<le> 1)"
  proof (intro iffI conjI allI)
    assume all: "\<forall>x. ?occ x (a # xs) \<le> 1"
    show "?occ a xs = 0" using all [rule_format, of a] unfolding step by simp
    show "?occ x xs \<le> 1" for x using all [rule_format, of x] unfolding step by (simp split: if_split_asm)
  next
    fix x assume "?occ a xs = 0 \<and> (\<forall>x. ?occ x xs \<le> 1)"
    then show "?occ x (a # xs) \<le> 1" unfolding step by (cases "a = x") simp_all
  qed
  then show ?case using Cons none by simp
qed simp

lemma sum_ones:
  fixes f :: "'a \<Rightarrow> nat"
  assumes "\<And>t. t \<in> set ts \<Longrightarrow> 1 \<le> f t"
  shows "sum_list (map f ts) = length ts \<longleftrightarrow> (\<forall>t \<in> set ts. f t = 1)"
    and "length ts \<le> sum_list (map f ts)"
proof -
  show le: "length ts \<le> sum_list (map f ts)" using assms by (induction ts) fastforce+
  show "sum_list (map f ts) = length ts \<longleftrightarrow> (\<forall>t \<in> set ts. f t = 1)"
    using assms
  proof (induction ts)
    case (Cons t ts)
    have "length ts \<le> sum_list (map f ts)" using Cons.prems by (induction ts) fastforce+
    moreover have "1 \<le> f t" using Cons.prems by simp
    ultimately have "f t + sum_list (map f ts) = Suc (length ts) \<longleftrightarrow> f t = 1 \<and> sum_list (map f ts) = length ts"
      by linarith
    then show ?case using Cons by simp
  qed simp
qed

text \<open>The counts show whether a source is uniform.\<close>

lemma uniform_adds_iff:
  assumes wf: "source_wf W E (src s)"
  shows "(\<forall>d < W. uniform_adds W src s d) \<longleftrightarrow> uniform_source (src s)"
proof -
  let ?p = "src s" and ?n = "length (ps_tokens (src s))"
  let ?ds = "\<lambda>t. run_dests (src s) t" and ?occ = "\<lambda>d t. length (filter (\<lambda>x. x = d) (run_dests (src s) t))"
  have occ: "?occ d t = 0 \<longleftrightarrow> d \<notin> set (?ds t)" for d t by (auto simp: filter_empty_conv)
  have adds: "uniform_adds W src s d \<longleftrightarrow> (\<forall>t < ?n. ?occ d t = 0) \<or> (\<forall>t < ?n. ?occ d t = 1)" if d: "d < W" for d
  proof -
    have r0: "length (filter (\<lambda>t. d \<in> set (?ds t)) [0..<?n]) = 0 \<longleftrightarrow> (\<forall>t < ?n. ?occ d t = 0)"
      unfolding occ by (auto simp: filter_empty_conv)
    have rn: "length (filter (\<lambda>t. d \<in> set (?ds t)) [0..<?n]) = ?n \<longleftrightarrow> (\<forall>t < ?n. d \<in> set (?ds t))"
    proof -
      have "length (filter P xs) = length xs \<longleftrightarrow> (\<forall>x \<in> set xs. P x)" for P and xs :: "nat list"
        by (metis filter_True length_filter_less nat_neq_iff)
      from this [of _ "[0..<?n]"] show ?thesis by (simp add: Ball_def)
    qed
    have a0: "sum_list (map (?occ d) [0..<?n]) = 0 \<longleftrightarrow> (\<forall>t < ?n. ?occ d t = 0)" by auto
    have an: "sum_list (map (?occ d) [0..<?n]) = ?n \<longleftrightarrow> (\<forall>t < ?n. ?occ d t = 1)" if "\<forall>t < ?n. d \<in> set (?ds t)"
    proof -
      have "\<And>t. t \<in> set [0..<?n] \<Longrightarrow> 1 \<le> ?occ d t" using that occ by (metis Suc_leI One_nat_def atLeastLessThan_iff neq0_conv set_upt)
      from sum_ones(1) [where ts = "[0..<?n]" and f = "?occ d", OF this] show ?thesis by (simp add: Ball_def)
    qed
    have one: "\<forall>t < ?n. ?occ d t = 1 \<Longrightarrow> \<forall>t < ?n. d \<in> set (?ds t)" using occ by (metis zero_neq_one)
    show ?thesis
      unfolding uniform_adds_def Let_def source_adds [OF d] using r0 rn a0 an one by blast
  qed
  show ?thesis
  proof
    assume all: "\<forall>d < W. uniform_adds W src s d"
    show "uniform_source ?p"
      unfolding uniform_source_def
    proof (intro allI impI conjI)
      fix t assume t: "t < ?n"
      have range: "set (?ds u) \<subseteq> {0..<W}" if "u < ?n" for u by (rule run_dests_range [OF wf that])
      have occ1: "?occ d t \<le> 1" for d
        using all adds [of d] t occ [of d t] range [OF t] by (cases "d < W") auto
      then show "distinct (?ds t)" unfolding distinct_occurrences by blast
      have "d \<in> set (?ds t) \<longleftrightarrow> d \<in> set (?ds 0)" if "d < W" for d
      proof -
        have "0 < ?n" using t by linarith
        with all adds [OF that] that t have "?occ d t = 0 \<longleftrightarrow> ?occ d 0 = 0" by (metis zero_neq_one)
        then show ?thesis unfolding occ by blast
      qed
      then show "set (?ds t) = set (?ds 0)" using range [OF t] range [of 0, OF le_less_trans [OF le0 t]] by (auto simp: subset_iff)
    qed
  next
    assume u: "uniform_source ?p"
    show "\<forall>d < W. uniform_adds W src s d"
    proof (intro allI impI)
      fix d assume d: "d < W"
      have "?occ d t = (if d \<in> set (?ds 0) then 1 else 0)" if "t < ?n" for t
      proof -
        have "distinct (?ds t)" "set (?ds t) = set (?ds 0)" using u that by (simp_all add: uniform_source_def)
        then have "?occ d t \<le> 1" "?occ d t = 0 \<longleftrightarrow> d \<notin> set (?ds 0)" unfolding distinct_occurrences occ by auto
        moreover have "n = (if D then 1 else 0)" if "n \<le> 1" "n = 0 \<longleftrightarrow> \<not> D" for n :: nat and D
          using that by auto
        ultimately show ?thesis by blast
      qed
      then show "uniform_adds W src s d" unfolding adds [OF d] by simp
    qed
  qed
qed

section \<open>Sources\<close>

definition prefix_saved :: "nat \<Rightarrow> (nat \<Rightarrow> ParsedSource) \<Rightarrow> nat \<Rightarrow> u32 list \<Rightarrow> bool" where
  "prefix_saved W src s p \<longleftrightarrow> length p = (W + 1) * W \<and>
     (\<forall>r < s. \<forall>d < W. unat (p ! (r * W + d)) = length (jobs_at d (layout_jobs W src [0..<r])))"

lemma save_prefixes:
  assumes la: "W = unat (dl_worker_count la)" "W \<le> 128" and s: "s \<le> W"
    and cur: "length (px_row_cursor st) = 128"
      "\<forall>d < W. unat (px_row_cursor st ! d) = length (jobs_at d (layout_jobs W src [0..<s]))"
    and saved: "prefix_saved W src s (px_destination_prefix st)"
  shows "\<exists>p. mfold (save_prefix la s) [0..<W] st = Inr (st\<lparr>px_destination_prefix := p\<rparr>) \<and> prefix_saved W src (Suc s) p"
proof -
  let ?P = "\<lambda>k u. \<exists>p. u = st\<lparr>px_destination_prefix := p\<rparr> \<and> prefix_saved W src s p \<and>
    (\<forall>d < k. unat (p ! (s * W + d)) = length (jobs_at d (layout_jobs W src [0..<s])))"
  have "\<exists>u. mfold (save_prefix la s) [0..<W] st = Inr u \<and> ?P W u"
  proof (rule mfold_upt_total [where P = ?P])
    show "?P 0 st" by (intro exI [of _ "px_destination_prefix st"]) (simp add: saved)
  next
    fix k u assume k: "k < W" and "?P k u"
    then obtain p where u: "u = st\<lparr>px_destination_prefix := p\<rparr>" and p: "prefix_saved W src s p"
      "\<forall>d < k. unat (p ! (s * W + d)) = length (jobs_at d (layout_jobs W src [0..<s]))" by blast
    let ?p = "p[s * W + k := px_row_cursor st ! k]"
    have ix: "s * W + k < length p" using index_bound [of s "W + 1" k W] s k p(1) by (simp add: prefix_saved_def)
    have "save_prefix la s k u = Inr (st\<lparr>px_destination_prefix := ?p\<rparr>)"
      using k la(2) cur(1) ix by (simp add: save_prefix_def u la(1) [symmetric])
    moreover have "prefix_saved W src s ?p"
      using p(1) k by (auto simp: prefix_saved_def nth_list_update index_inject)
    moreover have "\<forall>d < Suc k. unat (?p ! (s * W + d)) = length (jobs_at d (layout_jobs W src [0..<s]))"
      using p(2) k cur(2) ix by (auto simp: less_Suc_eq nth_list_update)
    ultimately show "\<exists>v. save_prefix la s k u = Inr v \<and> ?P (Suc k) v" by blast
  qed
  then obtain p where "mfold (save_prefix la s) [0..<W] st = Inr (st\<lparr>px_destination_prefix := p\<rparr>)"
    "prefix_saved W src s p"
    "\<forall>d < W. unat (p ! (s * W + d)) = length (jobs_at d (layout_jobs W src [0..<s]))" by blast
  then show ?thesis by (intro exI [of _ p]) (auto simp: prefix_saved_def less_Suc_eq)
qed

definition hinted :: "SlotHeader \<Rightarrow> bool" where
  "hinted h \<longleftrightarrow> sh_flags h AND kSlotFlagUniformDestinations \<noteq> 0"

definition sources_done ::
  "dispatch_launch \<Rightarrow> nat \<Rightarrow> (nat \<Rightarrow> ParsedSource) \<Rightarrow> nat \<Rightarrow> nat \<Rightarrow> prefix_state \<Rightarrow> bool" where
  "sources_done la E src c s st \<longleftrightarrow>
     (let W = unat (dl_worker_count la); js = layout_jobs W src [0..<s]
      in positioned W E src js st \<and> caps_ok la src js \<and>
         blocks_at W E src c (W * c) (s * c) (px_blocks st) \<and> prefix_saved W src s (px_destination_prefix st))"

lemma prefix_lanes:
  assumes la: "W = unat (dl_worker_count la)" "W \<le> 128" "E = unat (dl_expert_count la)" "caps_small la"
    and c: "c = unat cohort" "0 < c" and s: "s < W"
    and pos: "positioned W E src (layout_jobs W src [0..<s]) st"
    and caps: "caps_ok la src (layout_jobs W src [0..<s])"
    and blocks: "blocks_at W E src c (W * c) (s * c) (px_blocks st)"
  shows "if caps_ok la src (layout_jobs W src [0..<Suc s])
    then \<exists>v. mfold (prefix_lane la cohort s) [0..<c] st = Inr v \<and>
      positioned W E src (layout_jobs W src [0..<Suc s]) v \<and>
      blocks_at W E src c (W * c) (Suc s * c) (px_blocks v) \<and> px_destination_prefix v = px_destination_prefix st
    else \<exists>x. mfold (prefix_lane la cohort s) [0..<c] st = fail x"
proof -
  let ?js = "\<lambda>l. jobs_before W src c (s * c + l)"
  let ?P = "\<lambda>l u. positioned W E src (?js l) u \<and> caps_ok la src (?js l) \<and>
    blocks_at W E src c (W * c) (s * c + l) (px_blocks u) \<and> px_destination_prefix u = px_destination_prefix st"
  note src = jobs_before_source [OF c(2), of W src]
  have last: "?js c = layout_jobs W src [0..<Suc s]" using src [of "Suc s"] by (simp add: add.commute del: upt_Suc)
  have run: "if \<forall>l < c. caps_ok la src (?js (Suc l))
    then \<exists>v. mfold (prefix_lane la cohort s) [0..<c] st = Inr v \<and> ?P c v
    else \<exists>x. mfold (prefix_lane la cohort s) [0..<c] st = fail x"
  proof (rule mfold_decide [where P = ?P and C = "\<lambda>l. caps_ok la src (?js (Suc l))"])
    show "?P 0 st" using pos caps blocks src [of s] by simp
  next
    fix l u assume l: "l < c" and P: "?P l u"
    have A: "s * c + l < W * c" by (rule index_bound [OF s l])
    have q: "s * c + l = s * unat cohort + l" by (simp add: c)
    have pre: "positioned W E src (?js l) u" "caps_ok la src (?js l)"
      "blocks_at W E src c (W * c) (s * c + l) (px_blocks u)" "px_destination_prefix u = px_destination_prefix st"
      using P by simp_all
    note step = prefix_lane_step [OF la q A pre(1-3)]
    show "if caps_ok la src (?js (Suc l)) then \<exists>v. prefix_lane la cohort s l u = Inr v \<and> ?P (Suc l) v
        else \<exists>x. prefix_lane la cohort s l u = fail x"
      using step pre(4) by (cases "caps_ok la src (?js (Suc l))") auto
  qed
  have "(\<forall>l < c. caps_ok la src (?js (Suc l))) \<longleftrightarrow> caps_ok la src (?js c)"
  proof
    assume "\<forall>l < c. caps_ok la src (?js (Suc l))"
    then show "caps_ok la src (?js c)" using c(2) by (metis Suc_pred lessI)
  next
    assume all: "caps_ok la src (?js c)"
    show "\<forall>l < c. caps_ok la src (?js (Suc l))"
    proof (intro allI impI)
      fix l assume "l < c"
      then have "?js c = jobs_before W src c ((s * c + Suc l) + (c - Suc l))" by simp
      then show "caps_ok la src (?js (Suc l))" using all jobs_before_add caps_ok_prefix by metis
    qed
  qed
  then show ?thesis using run unfolding last by (auto simp: add.commute split: if_splits)
qed

lemma prefix_source_step:
  assumes la: "W = unat (dl_worker_count la)" "W \<le> 128" "E = unat (dl_expert_count la)" "caps_small la"
    and c: "c = unat cohort" "0 < c" and s: "s < W"
    and headers: "headers = map (\<lambda>r. ps_header (src r)) [0..<W]" and sized: "source_sized (src s)"
    and st: "sources_done la E src c s st"
  shows "if caps_ok la src (layout_jobs W src [0..<Suc s]) \<and>
      (hinted (ps_header (src s)) \<longrightarrow> (\<forall>d < W. uniform_adds W src s d))
    then \<exists>v. prefix_source la cohort headers s st = Inr v \<and> sources_done la E src c (Suc s) v
    else \<exists>x. prefix_source la cohort headers s st = fail x"
proof -
  let ?js = "layout_jobs W src [0..<s]" and ?js' = "layout_jobs W src [0..<Suc s]" and ?h = "ps_header (src s)"
  have st': "positioned W E src ?js st" "caps_ok la src ?js" "blocks_at W E src c (W * c) (s * c) (px_blocks st)"
    "prefix_saved W src s (px_destination_prefix st)"
    using st by (simp_all add: sources_done_def Let_def la(1))
  have cur: "length (px_row_cursor st) = 128"
    "\<forall>d < W. unat (px_row_cursor st ! d) = length (jobs_at d ?js)" using st'(1) by (simp_all add: positioned_def)
  from save_prefixes [OF la(1,2) less_imp_le [OF s] cur st'(4)] obtain p where
    p: "mfold (save_prefix la s) [0..<W] st = Inr (st\<lparr>px_destination_prefix := p\<rparr>)" "prefix_saved W src (Suc s) p" by blast
  let ?st1 = "st\<lparr>px_destination_prefix := p\<rparr>"
  have st1: "positioned W E src ?js ?st1" "blocks_at W E src c (W * c) (s * c) (px_blocks ?st1)"
    "px_destination_prefix ?st1 = p" using st'(1,3) by (simp_all add: positioned_def)
  note lanes = prefix_lanes [OF la c s st1(1) st'(2) st1(2), unfolded st1(3)]
  show ?thesis
  proof (cases "caps_ok la src ?js'")
    case False
    then obtain x where stops: "mfold (prefix_lane la cohort s) [0..<c] ?st1 = fail x" using lanes by auto
    then have run: "prefix_source la cohort headers s st = finish_source la headers s (px_assignment_cursor ?st1) (fst x) (snd x)"
      unfolding prefix_source_def Let_def la(1) [symmetric] c(1) [symmetric] p(1) rbind_Inr
      by (simp add: stops fail_def split: prod.split)
    have "fst x = kStatusCapacityExceeded" using mfold_fails [OF stops] prefix_stops(3) by blast
    then have "vget headers s = Inr ?h" "fst x \<noteq> kStatusOk" using s by (simp_all add: headers device_status)
    then have "\<exists>y. prefix_source la cohort headers s st = fail y"
      unfolding run finish_source_def Let_def \<open>vget headers s = _\<close> rbind_Inr by (simp split: if_split)
    then show ?thesis using False by simp
  next
    case True
    then obtain v where v: "mfold (prefix_lane la cohort s) [0..<c] ?st1 = Inr v" "positioned W E src ?js' v"
      "blocks_at W E src c (W * c) (Suc s * c) (px_blocks v)" "px_destination_prefix v = p" using lanes by auto
    have h: "vget headers s = Inr ?h" using s by (simp add: headers)
    have delta: "uniform_delta la ?h s (px_assignment_cursor st) v d \<longleftrightarrow> uniform_adds W src s d" if d: "d < W" for d
    proof -
      let ?r = "length (jobs_at d (source_jobs W src s))"
      let ?a = "length (flat src (jobs_at d (source_jobs W src s)))"
      have after: "unat (px_row_cursor v ! d) = length (jobs_at d ?js) + ?r"
        "unat (px_assignment_cursor v ! d) = length (flat src (jobs_at d ?js)) + ?a"
        using v(2) d by (simp_all add: positioned_def layout_jobs_Suc jobs_at_append length_flat_append del: upt_Suc)
      have before: "unat (px_destination_prefix v ! (s * W + d)) = length (jobs_at d ?js)"
        "unat (px_assignment_cursor st ! d) = length (flat src (jobs_at d ?js))"
        using p(2) st'(1) d by (simp_all add: v(4) prefix_saved_def positioned_def)
      have "unat (px_row_cursor v ! d - px_destination_prefix v ! (s * W + d)) = ?r"
        "unat (px_assignment_cursor v ! d - px_assignment_cursor st ! d) = ?a"
        using after before by (subst unat_sub; simp add: word_le_nat_alt)+
      then show ?thesis
        using sized by (simp add: uniform_delta_def uniform_adds_def Let_def la(1) [symmetric] word_unat_eq_iff source_sized_def)
    qed
    have all: "list_all (uniform_delta la ?h s (px_assignment_cursor st) v) [0..<W] \<longleftrightarrow> (\<forall>d < W. uniform_adds W src s d)"
      using delta by (simp add: list_all_iff Ball_def)
    have cursors: "px_assignment_cursor ?st1 = px_assignment_cursor st" by simp
    have run: "prefix_source la cohort headers s st =
        (if hinted ?h \<and> \<not> (\<forall>d < W. uniform_adds W src s d) then fail kStatusInvalidAssignment else Inr v)"
      unfolding prefix_source_def finish_source_def Let_def la(1) [symmetric] c(1) [symmetric] p(1) rbind_Inr v(1) sum.case h
        cursors all hinted_def
      by simp
    have "sources_done la E src c (Suc s) v"
      using v p(2) True by (simp add: sources_done_def Let_def la(1) del: upt_Suc)
    then show ?thesis using True by (auto simp: run simp del: upt_Suc)
  qed
qed

section \<open>Totals\<close>

definition tok_total :: "(nat \<Rightarrow> ParsedSource) \<Rightarrow> nat \<Rightarrow> nat" where
  "tok_total src s = sum_list (map (\<lambda>r. length (ps_tokens (src r))) [0..<s])"

definition asg_total :: "(nat \<Rightarrow> ParsedSource) \<Rightarrow> nat \<Rightarrow> nat" where
  "asg_total src s = sum_list (map (\<lambda>r. length (ps_assignments (src r))) [0..<s])"

lemma totals_Suc [simp]: "tok_total src (Suc s) = tok_total src s + length (ps_tokens (src s))"
    "asg_total src (Suc s) = asg_total src s + length (ps_assignments (src s))"
    "tok_total src 0 = 0" "asg_total src 0 = 0"
  by (simp_all add: tok_total_def asg_total_def)

lemma totals_mono: "s \<le> s' \<Longrightarrow> tok_total src s \<le> tok_total src s'" "s \<le> s' \<Longrightarrow> asg_total src s \<le> asg_total src s'"
  by (induction s') (auto simp: le_Suc_eq)

definition source_cookie :: "(nat \<Rightarrow> ParsedSource) \<Rightarrow> nat \<Rightarrow> u64" where
  "source_cookie src s =
     fold (\<lambda>r h. HashBytes h (le_bytes 8 (sh_metadata_digest (ps_header (src r))))) [0..<s] kHashOffset"

definition totals_done :: "dispatch_launch \<Rightarrow> (nat \<Rightarrow> ParsedSource) \<Rightarrow> nat \<Rightarrow> token_totals \<Rightarrow> bool" where
  "totals_done la src s tt \<longleftrightarrow>
     (let W = unat (dl_worker_count la)
      in unat (tt_tokens tt) = tok_total src s \<and> unat (tt_assignments tt) = asg_total src s \<and>
         tok_total src s < 2 ^ 32 \<and> asg_total src s < 2 ^ 32 \<and>
         tt_cookie tt = source_cookie src s \<and> (tt_hints tt \<longleftrightarrow> (\<forall>r < s. hinted (ps_header (src r)))) \<and>
         length (tt_token_prefix tt) = W + 1 \<and> length (tt_assignment_prefix tt) = W + 1 \<and>
         (\<forall>r \<le> s. unat (tt_token_prefix tt ! r) = tok_total src r \<and>
            unat (tt_assignment_prefix tt ! r) = asg_total src r))"

definition source_fits :: "dispatch_launch \<Rightarrow> (nat \<Rightarrow> ParsedSource) \<Rightarrow> nat \<Rightarrow> bool" where
  "source_fits la src s \<longleftrightarrow> tok_total src s \<le> unat (dl_journal_token_capacity la) \<and>
     (dl_journal_assignment_capacity la \<noteq> 0 \<longrightarrow> asg_total src s \<le> unat (dl_journal_assignment_capacity la)) \<and>
     asg_total src s < 2 ^ 32"

lemma total_source_step:
  assumes cap: "unat (dl_journal_token_capacity la) < 2 ^ 32" and s: "s < unat (dl_worker_count la)"
    and headers: "headers = map (\<lambda>r. ps_header (src r)) [0..<unat (dl_worker_count la)]"
    and errors: "errors = replicate (unat (dl_worker_count la)) kStatusOk"
    and sized: "source_sized (src s)" and tt: "totals_done la src s tt"
  shows "if source_fits la src (Suc s)
    then \<exists>v. total_source la errors headers s tt = Inr v \<and> totals_done la src (Suc s) v
    else \<exists>x. total_source la errors headers s tt = fail x"
proof -
  let ?W = "unat (dl_worker_count la)" and ?h = "ps_header (src s)"
  let ?t = "tt_tokens tt + ucast (sh_token_count ?h)" and ?a = "tt_assignments tt + ucast (sh_assignment_count ?h)"
  have small: "unat (tt_tokens tt) < 2 ^ 32" "unat (tt_assignments tt) < 2 ^ 32"
    using tt by (simp_all add: totals_done_def Let_def)
  have t: "unat ?t = tok_total src (Suc s)" and a: "unat ?a = asg_total src (Suc s)"
    using small tt sized by (simp_all add: unat_add_u64_u32 totals_done_def Let_def source_sized_def)
  have add: "AddU64 (tt_tokens tt) (ucast (sh_token_count ?h)) = Some ?t"
    "AddU64 (tt_assignments tt) (ucast (sh_assignment_count ?h)) = Some ?a"
  proof -
    have "unat (x :: u64) + unat (ucast (y :: u32) :: u64) < 2 ^ 64" if "unat x < 2 ^ 32" for x y
      using that unsigned_less [of y, where ?'a = nat] by (simp add: unat_ucast_u64)
    then show "AddU64 (tt_tokens tt) (ucast (sh_token_count ?h)) = Some ?t"
      "AddU64 (tt_assignments tt) (ucast (sh_assignment_count ?h)) = Some ?a"
      using small by (simp_all add: AddU64_Add Add_eq_Some)
  qed
  have over: "(?t > dl_journal_token_capacity la \<or> ?t > 0xffffffff \<or>
      (dl_journal_assignment_capacity la \<noteq> 0 \<and> ?a > dl_journal_assignment_capacity la) \<or> ?a > 0xffffffff) \<longleftrightarrow>
      \<not> source_fits la src (Suc s)"
    using cap by (auto simp: word_less_nat_alt t a source_fits_def simp del: totals_Suc)
  let ?v = "\<lparr> tt_tokens = ?t, tt_assignments = ?a,
      tt_cookie = HashGmBytes (tt_cookie tt) (le_bytes 8 (sh_metadata_digest ?h)),
      tt_hints = (if sh_flags ?h AND kSlotFlagUniformDestinations = 0 then False else tt_hints tt),
      tt_token_prefix = (tt_token_prefix tt)[s + 1 := ucast ?t],
      tt_assignment_prefix = (tt_assignment_prefix tt)[s + 1 := ucast ?a] \<rparr>"
  have len: "length (tt_token_prefix tt) = ?W + 1" "length (tt_assignment_prefix tt) = ?W + 1"
    using tt by (simp_all add: totals_done_def Let_def)
  have get: "vget errors s = Inr kStatusOk" "vget headers s = Inr ?h" using s by (simp_all add: errors headers)
  have run: "total_source la errors headers s tt =
      (if source_fits la src (Suc s) then Inr ?v else fail kStatusCapacityExceeded)"
    using len s unfolding total_source_def get rbind_Inr add prod.case option.case over by (simp cong: if_cong)
  have "totals_done la src (Suc s) ?v" if "source_fits la src (Suc s)"
  proof -
    have lt: "tok_total src (Suc s) < 2 ^ 32" "asg_total src (Suc s) < 2 ^ 32"
      using that cap by (auto simp: source_fits_def simp del: totals_Suc)
    then have new: "unat (ucast ?t :: u32) = tok_total src (Suc s)" "unat (ucast ?a :: u32) = asg_total src (Suc s)"
      unfolding t [symmetric] a [symmetric] by (simp_all only: unat_ucast_u32)
    show ?thesis
      unfolding totals_done_def Let_def
    proof (intro conjI allI impI)
      show "tt_cookie ?v = source_cookie src (Suc s)"
        using tt by (simp add: totals_done_def Let_def source_cookie_def HashGmBytes_eq)
      show "tt_hints ?v \<longleftrightarrow> (\<forall>r < Suc s. hinted (ps_header (src r)))"
        using tt by (auto simp: totals_done_def Let_def hinted_def less_Suc_eq)
      fix r assume r: "r \<le> Suc s"
      show "unat (tt_token_prefix ?v ! r) = tok_total src r" "unat (tt_assignment_prefix ?v ! r) = asg_total src r"
        using r tt len s new by (auto simp: totals_done_def Let_def nth_list_update le_Suc_eq simp del: totals_Suc)
    qed (use lt t a len in \<open>simp_all del: totals_Suc\<close>)
  qed
  then show ?thesis by (simp add: run del: totals_Suc)
qed

section \<open>The outcome of the phase\<close>

definition plan_fits :: "dispatch_launch \<Rightarrow> (nat \<Rightarrow> ParsedSource) \<Rightarrow> bool" where
  "plan_fits la src \<longleftrightarrow>
     (let W = unat (dl_worker_count la)
      in source_fits la src W \<and>
         (dl_row_map_capacity_entries la \<noteq> 0 \<longrightarrow> tok_total src W * W \<le> unat (dl_row_map_capacity_entries la)) \<and>
         caps_ok la src (layout_jobs W src [0..<W]) \<and>
         (\<forall>r < W. hinted (ps_header (src r)) \<longrightarrow> uniform_source (src r)))"

text \<open>The positions and totals, in terms of the rows of the layout in the order of the sources.\<close>

definition planned :: "nat \<Rightarrow> nat \<Rightarrow> (nat \<Rightarrow> ParsedSource) \<Rightarrow> nat \<Rightarrow> JournalSlotHeader \<Rightarrow> dispatch_plan \<Rightarrow> bool" where
  "planned W E src c jh pl \<longleftrightarrow>
     (let js = layout_jobs W src [0..<W]; cookie = source_cookie src W
      in length (pl_token_prefix pl) = W + 1 \<and> length (pl_assignment_prefix pl) = W + 1 \<and>
         (\<forall>r \<le> W. unat (pl_token_prefix pl ! r) = tok_total src r \<and>
            unat (pl_assignment_prefix pl ! r) = asg_total src r) \<and>
         prefix_saved W src (Suc W) (pl_destination_prefix pl) \<and>
         length (pl_row_counts pl) = W \<and> length (pl_assignment_counts pl) = W \<and>
         length (pl_expert_counts pl) = W * E \<and>
         (\<forall>d < W. unat (pl_row_counts pl ! d) = length (jobs_at d js) \<and>
            unat (pl_assignment_counts pl ! d) = length (flat src (jobs_at d js)) \<and>
            (\<forall>e < E. unat (pl_expert_counts pl ! (d * E + e)) = expert_count e (flat src (jobs_at d js)))) \<and>
         blocks_at W E src c (W * c) (W * c) (pl_blocks pl) \<and>
         tok_total src W < 2 ^ 32 \<and> length js < 2 ^ 32 \<and> asg_total src W < 2 ^ 32 \<and>
         pl_header pl = jh\<lparr> jh_token_count := of_nat (tok_total src W),
           jh_contributor_count := of_nat (length js),
           jh_dispatch_cookie := (if cookie = 0 then 1 else cookie),
           jh_flags := (if \<forall>r < W. hinted (ps_header (src r)) then kJournalFlagUniformDestinations else 0) \<rparr>)"

lemma source_fits_prefix: "source_fits la src s' \<Longrightarrow> s \<le> s' \<Longrightarrow> source_fits la src s"
  using totals_mono [of s s' src] by (auto simp: source_fits_def)

lemma no_totals_done: "totals_done la src 0 (no_totals la)"
  by (simp add: totals_done_def no_totals_def Let_def source_cookie_def)

lemma total_sources:
  assumes la: "W = unat (dl_worker_count la)" "0 < W" "caps_small la"
    and headers: "headers = map (\<lambda>r. ps_header (src r)) [0..<W]" and errors: "errors = replicate W kStatusOk"
    and sized: "\<And>r. r < W \<Longrightarrow> source_sized (src r)"
  shows "if source_fits la src W
    then \<exists>tt. mfold (total_source la errors headers) [0..<W] (no_totals la) = Inr tt \<and> totals_done la src W tt
    else \<exists>x. mfold (total_source la errors headers) [0..<W] (no_totals la) = fail x"
proof -
  have "if \<forall>s < W. source_fits la src (Suc s)
    then \<exists>tt. mfold (total_source la errors headers) [0..<W] (no_totals la) = Inr tt \<and> totals_done la src W tt
    else \<exists>x. mfold (total_source la errors headers) [0..<W] (no_totals la) = fail x"
  proof (rule mfold_decide [where P = "totals_done la src" and C = "\<lambda>s. source_fits la src (Suc s)"])
    show "totals_done la src 0 (no_totals la)" by (rule no_totals_done)
  next
    fix s tt assume "s < W" "totals_done la src s tt"
    then show "if source_fits la src (Suc s)
        then \<exists>v. total_source la errors headers s tt = Inr v \<and> totals_done la src (Suc s) v
        else \<exists>x. total_source la errors headers s tt = fail x"
      using la headers errors sized by (intro total_source_step) (simp_all add: caps_small_def)
  qed
  moreover have "(\<forall>s < W. source_fits la src (Suc s)) \<longleftrightarrow> source_fits la src W"
    using la(2) source_fits_prefix [of la src W] by (metis Suc_leI Suc_pred lessI)
  ultimately show ?thesis by simp
qed

lemma check_row_map_fits:
  assumes "W = unat (dl_worker_count la)" "W \<le> 128" "unat total_tokens < 2 ^ 32"
  shows "check_row_map la total_tokens =
    (if dl_row_map_capacity_entries la \<noteq> 0 \<longrightarrow> unat total_tokens * W \<le> unat (dl_row_map_capacity_entries la)
     then Inr () else fail kStatusCapacityExceeded)"
proof -
  have "unat total_tokens * W \<le> 2 ^ 32 * 128" using assms(2,3) by (intro mult_le_mono) simp_all
  then have lt: "unat total_tokens * unat (ucast (dl_worker_count la) :: u64) < 2 ^ 64"
    using assms(1) by (simp add: unat_ucast_u64)
  then have mul: "CheckedMulU64ByU32 total_tokens (dl_worker_count la) = Some (total_tokens * ucast (dl_worker_count la))"
    by (simp add: CheckedMul_Mul Mul_eq_Some)
  have "unat (total_tokens * ucast (dl_worker_count la)) = unat total_tokens * W"
    using lt assms(1) by (simp add: unat_mult_lem [THEN iffD1] unat_ucast_u64)
  then show ?thesis by (auto simp: check_row_map_def mul word_less_nat_alt)
qed

lemma check_parsers: "mfold (check_parser (replicate n kStatusOk)) [0..<n] () = Inr ()"
proof -
  have "\<exists>t. mfold (check_parser (replicate n kStatusOk)) [0..<n] () = Inr t \<and> True"
    by (rule mfold_upt_total [where P = "\<lambda>_ _. True"]) (simp_all add: check_parser_def)
  then show ?thesis by simp
qed

lemma no_positions_done:
  assumes W: "W = unat (dl_worker_count la)" "W \<le> 128" and E: "E = unat (dl_expert_count la)"
    and blocks: "length blocks = W * c" "\<And>q. q < W * c \<Longrightarrow> counts_of W E src (chunk W src c q) (blocks ! q)"
  shows "sources_done la E src c 0 (no_positions la blocks)"
proof -
  have "length (replicate ((W + 1) * W) (0 :: u32)) = (W + 1) * W" by simp
  moreover have "d * E + e < W * E" if "d < W" "e < E" for d e using that by (rule index_bound)
  ultimately show ?thesis
    using W(2) blocks by (simp add: sources_done_def Let_def no_positions_def W(1) [symmetric] E [symmetric]
      layout_jobs_def positioned_def caps_ok_def blocks_at_def prefix_saved_def kPullDispatchMaxWorkers_def
      expert_count_def)
qed

lemma prefix_sources:
  assumes la: "W = unat (dl_worker_count la)" "W \<le> 128" "E = unat (dl_expert_count la)" "caps_small la" "0 < W"
    and c: "c = unat cohort" "0 < c"
    and headers: "headers = map (\<lambda>r. ps_header (src r)) [0..<W]"
    and src: "\<And>r. r < W \<Longrightarrow> source_sized (src r)" "\<And>r. r < W \<Longrightarrow> source_wf W E (src r)"
    and blocks: "length blocks = W * c" "\<And>q. q < W * c \<Longrightarrow> counts_of W E src (chunk W src c q) (blocks ! q)"
  shows "if caps_ok la src (layout_jobs W src [0..<W]) \<and>
      (\<forall>r < W. hinted (ps_header (src r)) \<longrightarrow> uniform_source (src r))
    then \<exists>st. mfold (prefix_source la cohort headers) [0..<W] (no_positions la blocks) = Inr st \<and>
      sources_done la E src c W st
    else \<exists>x. mfold (prefix_source la cohort headers) [0..<W] (no_positions la blocks) = fail x"
proof -
  let ?C = "\<lambda>s. caps_ok la src (layout_jobs W src [0..<Suc s]) \<and>
      (hinted (ps_header (src s)) \<longrightarrow> (\<forall>d < W. uniform_adds W src s d))"
  have run: "if \<forall>s < W. ?C s
    then \<exists>st. mfold (prefix_source la cohort headers) [0..<W] (no_positions la blocks) = Inr st \<and>
      sources_done la E src c W st
    else \<exists>x. mfold (prefix_source la cohort headers) [0..<W] (no_positions la blocks) = fail x"
  proof (rule mfold_decide [where P = "sources_done la E src c" and C = ?C])
    show "sources_done la E src c 0 (no_positions la blocks)"
      by (rule no_positions_done [OF la(1,2,3) blocks])
  next
    fix s st assume s: "s < W" and st: "sources_done la E src c s st"
    show "if ?C s then \<exists>v. prefix_source la cohort headers s st = Inr v \<and> sources_done la E src c (Suc s) v
        else \<exists>x. prefix_source la cohort headers s st = fail x"
      by (rule prefix_source_step [OF la(1-4) c s headers src(1) [OF s] st])
  qed
  have "(\<forall>s < W. caps_ok la src (layout_jobs W src [0..<Suc s])) \<longleftrightarrow> caps_ok la src (layout_jobs W src [0..<W])"
  proof
    assume all: "\<forall>s < W. caps_ok la src (layout_jobs W src [0..<Suc s])"
    have "caps_ok la src (layout_jobs W src [0..<Suc (W - 1)])" by (rule all [rule_format]) (use la(5) in simp)
    then show "caps_ok la src (layout_jobs W src [0..<W])" using la(5) by simp
  next
    assume all: "caps_ok la src (layout_jobs W src [0..<W])"
    show "\<forall>s < W. caps_ok la src (layout_jobs W src [0..<Suc s])"
    proof (intro allI impI)
      fix s assume "s < W"
      then have "[0..<W] = [0..<Suc s] @ [Suc s..<W]" using upt_add_eq_append [of 0 "Suc s" "W - Suc s"] by simp
      then have "layout_jobs W src [0..<W] = layout_jobs W src [0..<Suc s] @ layout_jobs W src [Suc s..<W]"
        by (simp add: layout_jobs_def del: upt_Suc)
      then show "caps_ok la src (layout_jobs W src [0..<Suc s])" using all caps_ok_prefix by metis
    qed
  qed
  moreover have "(\<forall>d < W. uniform_adds W src s d) \<longleftrightarrow> uniform_source (src s)" if "s < W" for s
    by (rule uniform_adds_iff [where src = src, OF src(2) [OF that]])
  ultimately have "(\<forall>s < W. ?C s) \<longleftrightarrow> caps_ok la src (layout_jobs W src [0..<W]) \<and>
      (\<forall>r < W. hinted (ps_header (src r)) \<longrightarrow> uniform_source (src r))" by blast
  then show ?thesis using run by simp
qed

lemma prefix_phase_plans:
  assumes la: "W = unat (dl_worker_count la)" "W \<le> 128" "E = unat (dl_expert_count la)" "caps_small la" "0 < W"
    and c: "c = unat cohort" "0 < c" "unat (cohort * dl_worker_count la) = W * c"
    and src: "\<And>r. r < W \<Longrightarrow> source_sized (src r)" "\<And>r. r < W \<Longrightarrow> source_wf W E (src r)"
    and blocks: "length blocks = W * c" "\<And>q. q < W * c \<Longrightarrow> counts_of W E src (chunk W src c q) (blocks ! q)"
  assumes phase_def: "phase = prefix_phase la cohort jh (replicate W kStatusOk) (map (\<lambda>r. ps_header (src r)) [0..<W])
      (replicate (W * c) kStatusOk) blocks"
  shows "if plan_fits la src then \<exists>pl. phase = Inr pl \<and> planned W E src c jh pl else \<exists>x. phase = fail x"
proof -
  let ?headers = "map (\<lambda>r. ps_header (src r)) [0..<W]"
  note totals = total_sources [where src = src, OF la(1,5,4) refl refl src(1)]
  note sources = prefix_sources [where src = src, OF la c(1,2) refl src blocks]
  show ?thesis
  proof (cases "source_fits la src W")
    case False
    then obtain x where "mfold (total_source la (replicate W kStatusOk) ?headers) [0..<W] (no_totals la) = fail x"
      using totals by auto
    then have "phase = fail x" by (simp add: phase_def prefix_phase_def Let_def la(1) [symmetric])
    then show ?thesis using False by (simp add: plan_fits_def Let_def la(1) [symmetric])
  next
    case True
    then obtain tt where tt: "mfold (total_source la (replicate W kStatusOk) ?headers) [0..<W] (no_totals la) = Inr tt"
      "totals_done la src W tt" using totals by auto
    have t: "unat (tt_tokens tt) = tok_total src W" "tok_total src W < 2 ^ 32" "asg_total src W < 2 ^ 32"
      using tt(2) by (simp_all add: totals_done_def Let_def)
    have row_map: "check_row_map la (tt_tokens tt) =
        (if dl_row_map_capacity_entries la \<noteq> 0 \<longrightarrow> tok_total src W * W \<le> unat (dl_row_map_capacity_entries la)
         then Inr () else fail kStatusCapacityExceeded)"
      using check_row_map_fits [OF la(1,2), of "tt_tokens tt"] t by simp
    note run = phase_def [unfolded prefix_phase_def Let_def la(1) [symmetric] tt(1) c(3) rbind_Inr row_map]
    show ?thesis
    proof (cases "plan_fits la src")
      case False
      let ?rows = "dl_row_map_capacity_entries la \<noteq> 0 \<longrightarrow> tok_total src W * W \<le> unat (dl_row_map_capacity_entries la)"
      let ?go = "caps_ok la src (layout_jobs W src [0..<W]) \<and>
          (\<forall>r < W. hinted (ps_header (src r)) \<longrightarrow> uniform_source (src r))"
      have "\<exists>x. phase = fail x"
      proof (cases ?rows)
        case True
        then have "\<not> ?go" using False \<open>source_fits la src W\<close> by (simp add: plan_fits_def Let_def la(1) [symmetric])
        then have "\<exists>x. mfold (prefix_source la cohort ?headers) [0..<W] (no_positions la blocks) = fail x"
          using sources by (simp only: if_False)
        then obtain x where "mfold (prefix_source la cohort ?headers) [0..<W] (no_positions la blocks) = fail x" by blast
        then show ?thesis using True by (simp add: run check_parsers)
      qed (simp add: run)
      then show ?thesis using False by simp
    next
      case fits: True
      then obtain st where st: "mfold (prefix_source la cohort ?headers) [0..<W] (no_positions la blocks) = Inr st"
        "sources_done la E src c W st"
        using sources by (auto simp: plan_fits_def Let_def la(1) [symmetric])
      let ?js = "layout_jobs W src [0..<W]"
      have fin: "positioned W E src ?js st" "caps_ok la src ?js"
        "blocks_at W E src c (W * c) (W * c) (px_blocks st)" "prefix_saved W src W (px_destination_prefix st)"
        using st(2) by (simp_all add: sources_done_def Let_def la(1) [symmetric])
      have cur: "length (px_row_cursor st) = 128" "length (px_assignment_cursor st) = 128"
        "\<forall>d < W. unat (px_row_cursor st ! d) = length (jobs_at d ?js)" using fin(1) by (simp_all add: positioned_def)
      from save_prefixes [OF la(1,2) order_refl cur(1,3) fin(4)] obtain p where
        p: "mfold (save_prefix la W) [0..<W] st = Inr (st\<lparr>px_destination_prefix := p\<rparr>)" "prefix_saved W src (Suc W) p"
        by blast
      have js: "length ?js < 2 ^ 32" using fin(2) la(4) by (simp add: caps_ok_def caps_small_def)
      have width: "ucast w = (of_nat n :: u32)" if "unat (w :: u64) = n" "n < 2 ^ 32" for w n
        using that(1) by (auto simp: of_nat_unat)
      have contributors: "unat (px_contributor_cursor st) = length ?js" using fin(1) by (simp add: positioned_def)
      let ?pl = "\<lparr> pl_token_prefix = tt_token_prefix tt, pl_assignment_prefix = tt_assignment_prefix tt,
           pl_destination_prefix = p, pl_row_counts = take W (px_row_cursor st),
           pl_assignment_counts = take W (px_assignment_cursor st),
           pl_expert_counts = px_expert_counts st, pl_blocks = px_blocks st,
           pl_header = planned_header (tt_tokens tt) (px_contributor_cursor st) (tt_cookie tt) (tt_hints tt) jh \<rparr>"
      have "phase = Inr ?pl"
        using fits by (simp add: run plan_fits_def Let_def la(1) [symmetric] check_parsers st(1) p(1))
      moreover have "planned W E src c jh ?pl"
        unfolding planned_def Let_def
      proof (intro conjI allI impI)
        show "pl_header ?pl = jh\<lparr> jh_token_count := of_nat (tok_total src W), jh_contributor_count := of_nat (length ?js),
            jh_dispatch_cookie := (if source_cookie src W = 0 then 1 else source_cookie src W),
            jh_flags := (if \<forall>r < W. hinted (ps_header (src r)) then kJournalFlagUniformDestinations else 0) \<rparr>"
          using tt(2) by (simp add: planned_header_def totals_done_def Let_def width [OF t(1,2)] width [OF contributors js])
      qed (use tt(2) p(2) fin cur t js la(2) in
          \<open>simp_all add: totals_done_def Let_def la(1) [symmetric] positioned_def\<close>)
      ultimately show ?thesis using fits by simp
    qed
  qed
qed

end
