(* ===== verification/Dispatch_Fill.thy ===== *)
theory Dispatch_Fill
  imports Dispatch_Prefix
begin

text \<open>
  The second phase of the dispatch kernel. From the positions of the prefix phase every chunk of tokens is written into
  the tables of the journal and of the destinations, on block zero alone or, for a uniform layout, by several producers at
  once. The theory shows that the chunks write disjoint cells and that, in whatever order they run, the tables
  become those of the host's layout.
\<close>

section \<open>Model\<close>

subsection \<open>The tables\<close>

text \<open>The addresses of the records in the buffers the phase writes. The rows and assignments of a destination lie in a
  stride of their own, which the launch checks to hold the capacity.\<close>

datatype address = AToken nat | AAssignment nat | ARowMap nat | AContributor nat | ARow nat nat | AExpert nat nat

datatype cell =
    CToken JournalTokenEntry | CAssignment AssignmentRecord | CRowMap u32 | CContributor JournalContributor
  | CRow DestinationRow | CExpert ExpertAssignment

definition in_table :: "dispatch_launch \<Rightarrow> address \<Rightarrow> bool" where
  "in_table la a = (case a of
       AToken i \<Rightarrow> i < unat (dl_journal_token_capacity la)
     | AAssignment i \<Rightarrow> i < unat (dl_journal_assignment_capacity la)
     | ARowMap i \<Rightarrow> i < unat (dl_row_map_capacity_entries la)
     | AContributor i \<Rightarrow> i < unat (dl_journal_contributor_capacity la)
     | ARow d i \<Rightarrow> d < unat (dl_worker_count la) \<and> i < unat (dl_destination_row_capacity la)
     | AExpert d i \<Rightarrow> d < unat (dl_worker_count la) \<and> i < unat (dl_destination_assignment_capacity la))"

definition store ::
  "dispatch_launch \<Rightarrow> address \<Rightarrow> cell \<Rightarrow> (address \<rightharpoonup> cell) \<Rightarrow> (u32, address \<rightharpoonup> cell) res" where
  "store la a v memory = (if in_table la a then Inr (memory(a \<mapsto> v)) else Inl Oob)"

text \<open>An entry of a local array that is not initialised.\<close>

definition read_entry :: "(nat \<rightharpoonup> u32) \<Rightarrow> nat \<Rightarrow> (u32, u32) res" where
  "read_entry entries i = (case entries i of None \<Rightarrow> Inl Oob | Some v \<Rightarrow> Inr v)"

subsection \<open>One token\<close>

record fill_state =
  fs_contributor :: u32
  fs_rows :: "u32 list"
  fs_assignments :: "u32 list"
  fs_experts :: "u32 list"
  fs_memory :: "address \<rightharpoonup> cell"

definition copy_assignment ::
  "dispatch_launch \<Rightarrow> TokenRecord \<Rightarrow> AssignmentRecord list \<Rightarrow> u32 \<Rightarrow> nat \<Rightarrow> (address \<rightharpoonup> cell) \<Rightarrow>
     (u32, address \<rightharpoonup> cell) res" where
  "copy_assignment la record assignments assignments_begin local memory =
     rbind (vget assignments (unat (tok_assignment_begin record) + local)) (\<lambda>input.
       store la (AAssignment (unat assignments_begin + local)) (CAssignment input) memory)"

definition clear_row_map ::
  "dispatch_launch \<Rightarrow> u32 \<Rightarrow> nat \<Rightarrow> (address \<rightharpoonup> cell) \<Rightarrow> (u32, address \<rightharpoonup> cell) res" where
  "clear_row_map la global_token destination memory =
     store la (ARowMap (unat global_token * unat (dl_worker_count la) + destination)) (CRowMap kInvalidRow) memory"

definition count_destination ::
  "TokenRecord \<Rightarrow> AssignmentRecord list \<Rightarrow> nat \<Rightarrow> u32 list \<times> (nat \<rightharpoonup> u32) \<Rightarrow>
     (u32, u32 list \<times> (nat \<rightharpoonup> u32)) res" where
  "count_destination record assignments local state =
     (case state of (destination_bits, counts) \<Rightarrow>
     rbind (vget assignments (unat (tok_assignment_begin record) + local)) (\<lambda>assignment.
     let destination = unat (asg_destination_rank assignment);
         word = bit_word (asg_destination_rank assignment);
         mask = bit_mask (asg_destination_rank assignment)
     in rbind (vget destination_bits word) (\<lambda>bits.
        if bits AND mask = 0 then Inr (destination_bits[word := bits OR mask], counts(destination \<mapsto> 1))
        else rbind (read_entry counts destination) (\<lambda>n. Inr (destination_bits, counts(destination \<mapsto> n + 1))))))"

text \<open>One bit of the destinations: the row, its contributor and its entry of the row map. The state is the number of
  contributors of the token, the rows it got and the positions.\<close>

definition fill_destination ::
  "dispatch_launch \<Rightarrow> u32 \<Rightarrow> u32 \<Rightarrow> u32 \<Rightarrow> TokenRecord \<Rightarrow> u32 list \<Rightarrow> (nat \<rightharpoonup> u32) \<Rightarrow> nat \<Rightarrow> nat \<Rightarrow>
     u32 \<times> (nat \<rightharpoonup> u32) \<times> fill_state \<Rightarrow> (u32, u32 \<times> (nat \<rightharpoonup> u32) \<times> fill_state) res" where
  "fill_destination la source token global_token record destination_bits counts word b state =
     (case state of (contributor_count, token_rows, st) \<Rightarrow>
     rbind (vget destination_bits word) (\<lambda>bits.
     let destination = word * 32 + b
     in if bits AND push_bit b 1 = 0 \<or> destination \<ge> unat (dl_worker_count la) then Inr state
        else rbind (read_entry counts destination) (\<lambda>count.
             rbind (vget (fs_rows st) destination) (\<lambda>row.
             rbind (vget (fs_assignments st) destination) (\<lambda>assignments_begin.
             rbind (if dl_row_map_capacity_entries la \<noteq> 0
                    then store la (ARowMap (unat global_token * unat (dl_worker_count la) + destination))
                           (CRowMap row) (fs_memory st)
                    else Inr (fs_memory st)) (\<lambda>memory.
             rbind (store la (ARow destination (unat row))
                      (CRow \<lparr> dr_route_key = DeviceRouteKey source token, dr_token_id = tok_token_id record,
                         dr_source_rank = source, dr_source_token = token, dr_destination_row = row,
                         dr_assignments_begin = assignments_begin, dr_assignments_count = count,
                         dr_reserved = 0 \<rparr>) memory) (\<lambda>memory.
             rbind (store la (AContributor (unat (fs_contributor st)))
                      (CContributor \<lparr> jc_worker_rank = of_nat destination, jc_destination_row = row,
                         jc_assignment_begin = assignments_begin, jc_assignment_count = count \<rparr>) memory) (\<lambda>memory.
             Inr (contributor_count + 1, token_rows(destination \<mapsto> row),
                  st\<lparr> fs_contributor := fs_contributor st + 1, fs_rows := (fs_rows st)[destination := row + 1],
                      fs_memory := memory \<rparr>)))))))))"

definition fill_expert ::
  "dispatch_launch \<Rightarrow> TokenRecord \<Rightarrow> AssignmentRecord list \<Rightarrow> (nat \<rightharpoonup> u32) \<Rightarrow> nat \<Rightarrow> fill_state \<Rightarrow>
     (u32, fill_state) res" where
  "fill_expert la record assignments token_rows local st =
     rbind (vget assignments (unat (tok_assignment_begin record) + local)) (\<lambda>assignment.
     let destination = unat (asg_destination_rank assignment);
         expert_index = unat (ucast (asg_destination_rank assignment) * ucast (dl_expert_count la) +
           ucast (asg_expert_id assignment) :: u64)
     in rbind (vget (fs_assignments st) destination) (\<lambda>index.
        rbind (read_entry token_rows destination) (\<lambda>row.
        rbind (vget (fs_experts st) expert_index) (\<lambda>expert_row.
        rbind (store la (AExpert destination (unat index))
                 (CExpert \<lparr> ea_destination_row = row, ea_expert_id = asg_expert_id assignment,
                    ea_expert_row = expert_row, ea_ordinal = asg_ordinal assignment,
                    ea_weight = asg_weight assignment, ea_reserved = (0, 0, 0) \<rparr>) (fs_memory st)) (\<lambda>memory.
        Inr (st\<lparr> fs_assignments := (fs_assignments st)[destination := index + 1],
                 fs_experts := (fs_experts st)[expert_index := expert_row + 1], fs_memory := memory \<rparr>))))))"

definition fill_token ::
  "dispatch_launch \<Rightarrow> dispatch_plan \<Rightarrow> u32 \<Rightarrow> TokenRecord list \<Rightarrow> AssignmentRecord list \<Rightarrow> nat \<Rightarrow> fill_state \<Rightarrow>
     (u32, fill_state) res" where
  "fill_token la pl source tokens assignments t st =
     rbind (vget tokens t) (\<lambda>record.
     rbind (vget (pl_token_prefix pl) (unat source)) (\<lambda>token_prefix.
     rbind (vget (pl_assignment_prefix pl) (unat source)) (\<lambda>assignment_prefix.
     let token = of_nat t;
         global_token = token_prefix + token;
         n = unat (tok_assignment_count record);
         entry = \<lparr> jt_route_key = DeviceRouteKey source token, jt_token_id = tok_token_id record,
           jt_owner_rank = source, jt_owner_row = token, jt_contributors_begin = fs_contributor st,
           jt_contributors_count = 0,
           jt_assignments_begin = assignment_prefix + tok_assignment_begin record,
           jt_assignments_count = tok_assignment_count record, jt_accumulator_index = global_token,
           jt_flags = 0, jt_reserved = (0, 0) \<rparr>
     in rbind (store la (AToken (unat global_token)) (CToken entry) (fs_memory st)) (\<lambda>memory.
        rbind (if dl_journal_assignment_capacity la \<noteq> 0
               then mfold (copy_assignment la record assignments (jt_assignments_begin entry)) [0..<n] memory
               else Inr memory) (\<lambda>memory.
        rbind (if dl_row_map_capacity_entries la \<noteq> 0
               then mfold (clear_row_map la global_token) [0..<unat (dl_worker_count la)] memory
               else Inr memory) (\<lambda>memory.
        rbind (mfold (count_destination record assignments) [0..<n] ([0, 0, 0, 0], Map.empty))
          (\<lambda>(destination_bits, counts).
        rbind (mfold (\<lambda>word. mfold (fill_destination la source token global_token record destination_bits counts word)
                 [0..<32]) [0..<4] (0, Map.empty, st\<lparr>fs_memory := memory\<rparr>))
          (\<lambda>(contributor_count, token_rows, st).
        rbind (mfold (fill_expert la record assignments token_rows) [0..<n] st) (\<lambda>st.
        rbind (store la (AToken (unat global_token)) (CToken (entry\<lparr>jt_contributors_count := contributor_count\<rparr>))
                 (fs_memory st)) (\<lambda>memory.
        Inr (st\<lparr>fs_memory := memory\<rparr>)))))))))))"

subsection \<open>Chunks\<close>

definition fill_chunk ::
  "dispatch_launch \<Rightarrow> u32 \<Rightarrow> (nat \<Rightarrow> ParsedSource) \<Rightarrow> dispatch_plan \<Rightarrow> nat \<Rightarrow> (address \<rightharpoonup> cell) \<Rightarrow>
     (u32, address \<rightharpoonup> cell) res" where
  "fill_chunk la cohort sources pl parser memory =
     (let source = parser div unat cohort; lane = parser mod unat cohort; p = sources source
      in rbind (vget (pl_blocks pl) parser) (\<lambda>block.
         rbind (mfold (fill_token la pl (of_nat source) (ps_tokens p) (ps_assignments p))
                  (lane_tokens (ps_header p) (of_nat lane) cohort)
                  \<lparr> fs_contributor = pc_contributors block, fs_rows = pc_rows block,
                     fs_assignments = pc_assignments block, fs_experts = pc_experts block, fs_memory = memory \<rparr>)
           (\<lambda>st. Inr (fs_memory st))))"

text \<open>Who fills which chunk.\<close>

definition uniform_producers :: "u32 \<Rightarrow> dispatch_launch \<Rightarrow> u64 \<Rightarrow> u32" where
  "uniform_producers blocks la required_channels =
     (let uniform_sideband_begin = active_parser_blocks blocks la - dl_worker_count la;
          uniform_producer_begin = ucast required_channels;
          uniform_available_producers =
            (if uniform_producer_begin \<le> uniform_sideband_begin
             then uniform_sideband_begin - uniform_producer_begin else 0);
          uniform_available_per_source =
            (if dl_worker_count la = 0 then 0 else uniform_available_producers div dl_worker_count la)
      in if uniform_available_per_source > 2 then 2 else uniform_available_per_source)"

definition parallel_phase2 :: "u32 \<Rightarrow> dispatch_launch \<Rightarrow> u64 \<Rightarrow> JournalSlotHeader \<Rightarrow> SlotHeader list \<Rightarrow> bool" where
  "parallel_phase2 blocks la required_channels jh headers \<longleftrightarrow>
     jh_flags jh AND kJournalFlagUniformDestinations \<noteq> 0 \<and> uniform_producers blocks la required_channels \<noteq> 0 \<and>
     list_all (\<lambda>h. sh_token_count h AND 7 = 0) headers"

definition phase2_chunks ::
  "u32 \<Rightarrow> dispatch_launch \<Rightarrow> u64 \<Rightarrow> JournalSlotHeader \<Rightarrow> SlotHeader list \<Rightarrow> u32 \<Rightarrow> nat list" where
  "phase2_chunks blocks la required_channels jh headers block =
     (let chunks = [0..<unat (active_parser_blocks blocks la)];
          cohort = unat (parser_cohort blocks la);
          producers = uniform_producers blocks la required_channels;
          uniform_producer_begin = ucast required_channels;
          uniform_producer_end = uniform_producer_begin + producers * dl_worker_count la
      in if parallel_phase2 blocks la required_channels jh headers
         then if block \<ge> uniform_producer_begin \<and> block < uniform_producer_end
              then let producer = block - uniform_producer_begin
                   in filter (\<lambda>parser. parser div cohort = unat (producer div producers) \<and>
                        parser mod cohort mod unat producers = unat (producer mod producers)) chunks
              else []
         else if block = 0 then chunks else [])"

section \<open>Where a token stands in the layout\<close>

definition jobs_prior :: "nat \<Rightarrow> (nat \<Rightarrow> ParsedSource) \<Rightarrow> nat \<Rightarrow> nat \<Rightarrow> job list" where
  "jobs_prior W src r t = layout_jobs W src [0..<r] @ chunk_jobs W src r 0 t"

definition keys_prior :: "(nat \<Rightarrow> ParsedSource) \<Rightarrow> nat \<Rightarrow> nat \<Rightarrow> key list" where
  "keys_prior src r t = journal_keys src [0..<r] @ map (Pair r) [0..<t]"

lemma jobs_prior_Suc: "jobs_prior W src r (Suc t) = jobs_prior W src r t @ token_jobs W src r t"
  by (simp add: jobs_prior_def chunk_jobs_Suc)

lemma keys_prior_Suc: "keys_prior src r (Suc t) = keys_prior src r t @ [(r, t)]"
  by (simp add: keys_prior_def)

lemma upt_three: "r < n \<Longrightarrow> [0..<n] = [0..<r] @ r # [Suc r..<n]"
  using upt_add_eq_append [of 0 r "n - r"] by (simp add: upt_conv_Cons)

lemma jobs_split:
  assumes "r < W" and "t < length (ps_tokens (src r))"
  shows "\<exists>rest. layout_jobs W src [0..<W] = jobs_prior W src r t @ token_jobs W src r t @ rest \<and>
    (\<forall>j \<in> set rest. (fst j, fst (snd j)) \<noteq> (r, t))"
proof -
  let ?n = "length (ps_tokens (src r))"
  let ?rest = "concat (map (token_jobs W src r) [Suc t..<?n]) @ layout_jobs W src [Suc r..<W]"
  have "chunk_jobs W src r 0 ?n = chunk_jobs W src r 0 t @ token_jobs W src r t @ concat (map (token_jobs W src r) [Suc t..<?n])"
    unfolding chunk_jobs_def upt_three [OF assms(2)] by simp
  then have "layout_jobs W src [0..<W] = jobs_prior W src r t @ token_jobs W src r t @ ?rest"
    unfolding layout_jobs_def upt_three [OF assms(1)] jobs_prior_def by (simp add: source_jobs_chunk)
  moreover have "\<forall>j \<in> set ?rest. (fst j, fst (snd j)) \<noteq> (r, t)"
    by (auto simp: token_jobs_def set_layout_jobs)
  ultimately show ?thesis by blast
qed

lemma prior_jobs_keys: "j \<in> set (jobs_prior W src r t) \<Longrightarrow> (fst j, fst (snd j)) \<noteq> (r, t)"
  by (cases j) (auto simp: jobs_prior_def set_layout_jobs chunk_jobs_def token_jobs_def)

lemma keys_split:
  assumes "r < W" and "t < length (ps_tokens (src r))"
  shows "\<exists>rest. journal_keys src [0..<W] = keys_prior src r t @ (r, t) # rest"
  unfolding journal_keys_def keys_prior_def upt_three [OF assms(1)]
  using upt_three [OF assms(2)] by auto

lemma length_keys_prior: "length (keys_prior src r t) = tok_total src r + t"
  by (simp add: keys_prior_def journal_keys_def tok_total_def length_concat comp_def)

text \<open>The contributors of a token are those of its rows.\<close>

lemma contributors_token:
  assumes "r < W" and "t < length (ps_tokens (src r))"
  shows "contributors_at src (layout_jobs W src [0..<W]) r t =
    prefix_map (\<lambda>zs. contributor_of src (jobs_prior W src r t @ zs)) (token_jobs W src r t)"
proof -
  obtain rest where js: "layout_jobs W src [0..<W] = jobs_prior W src r t @ token_jobs W src r t @ rest"
    and rest: "\<forall>j \<in> set rest. (fst j, fst (snd j)) \<noteq> (r, t)" using jobs_split [where src = src, OF assms] by blast
  have none: "concat (prefix_map (\<lambda>b j. if (fst j, fst (snd j)) = (r, t) then [f b j] else []) xs) = []"
    if "\<forall>j \<in> set xs. (fst j, fst (snd j)) \<noteq> (r, t)" for f :: "job list \<Rightarrow> job \<Rightarrow> JournalContributor" and xs
    using that by (auto simp: prefix_map_def)
  have all: "concat (prefix_map (\<lambda>b j. if (fst j, fst (snd j)) = (r, t) then [f b j] else []) xs) = prefix_map f xs"
    if "\<forall>j \<in> set xs. (fst j, fst (snd j)) = (r, t)" for f :: "job list \<Rightarrow> job \<Rightarrow> JournalContributor" and xs
    using that by (induction xs rule: rev_induct) simp_all
  have own: "\<forall>j \<in> set (token_jobs W src r t). (fst j, fst (snd j)) = (r, t)" by (auto simp: token_jobs_def)
  have prior: "\<forall>j \<in> set (jobs_prior W src r t). (fst j, fst (snd j)) \<noteq> (r, t)" using prior_jobs_keys by blast
  show ?thesis
    unfolding contributors_at_def js prefix_map_append concat_append none [OF prior] none [OF rest] all [OF own] by simp
qed

lemma prior_contributors:
  assumes "r < W" and "t \<le> length (ps_tokens (src r))"
  defines "con \<equiv> \<lambda>k. contributors_at src (layout_jobs W src [0..<W]) (fst k) (snd k)"
  shows "concat (map con (keys_prior src r t)) = prefix_map (contributor_of src) (jobs_prior W src r t)"
proof -
  have tokens: "concat (map con (keys_prior src r t)) = prefix_map (contributor_of src) (jobs_prior W src r t)"
    if "concat (map con (keys_prior src r 0)) = prefix_map (contributor_of src) (jobs_prior W src r 0)"
      "r < W" "t \<le> length (ps_tokens (src r))" for r t
    using that(3)
  proof (induction t)
    case (Suc t)
    then show ?case
      using contributors_token [OF that(2), where src = src and t = t]
      by (simp add: keys_prior_Suc jobs_prior_Suc prefix_map_append con_def)
  qed (rule that(1))
  have "concat (map con (keys_prior src r 0)) = prefix_map (contributor_of src) (jobs_prior W src r 0)"
    using assms(1)
  proof (induction r)
    case 0
    then show ?case by (simp add: keys_prior_def jobs_prior_def journal_keys_def layout_jobs_def)
  next
    case (Suc r)
    have nxt: "keys_prior src (Suc r) 0 = keys_prior src r (length (ps_tokens (src r)))"
      "jobs_prior W src (Suc r) 0 = jobs_prior W src r (length (ps_tokens (src r)))"
      by (simp_all add: keys_prior_def jobs_prior_def journal_keys_def layout_jobs_def source_jobs_chunk)
    show ?case unfolding nxt by (rule tokens) (use Suc in simp_all)
  qed
  then show ?thesis by (rule tokens) (use assms in simp_all)
qed

text \<open>The assignments in front of a token.\<close>

lemma prior_assignments:
  assumes "csr_wf s (ps_assignments p) 0 0 (ps_tokens p)" and "t < length (ps_tokens p)"
  shows "concat (map (token_run p) [0..<t]) = take (unat (tok_assignment_begin (ps_tokens p ! t))) (ps_assignments p)"
    and "concat (map (token_run p) [0..<length (ps_tokens p)]) = ps_assignments p"
proof -
  note wf = assms(1) [unfolded csr_wf_tokens]
  let ?b = "\<lambda>t. unat (tok_assignment_begin (ps_tokens p ! t))" and ?n = "\<lambda>t. unat (tok_assignment_count (ps_tokens p ! t))"
  have pre: "concat (map (token_run p) [0..<Suc t]) = take (?b t + ?n t) (ps_assignments p) \<and>
      concat (map (token_run p) [0..<t]) = take (?b t) (ps_assignments p)" if "t < length (ps_tokens p)" for t
    using that
  proof (induction t)
    case 0
    then have "?b 0 = 0" using wf by (auto simp: token_wf_def Let_def)
    then show ?case by (simp add: token_run_def vslice_def Let_def)
  next
    case (Suc t)
    have b: "?b (Suc t) = ?b t + ?n t" using wf Suc.prems by (auto simp: token_wf_def Let_def)
    have IH: "concat (map (token_run p) [0..<Suc t]) = take (?b (Suc t)) (ps_assignments p)" 
      using Suc.IH Suc.prems unfolding b by (simp del: upt_Suc)
    have "concat (map (token_run p) [0..<Suc (Suc t)]) = concat (map (token_run p) [0..<Suc t]) @ token_run p (Suc t)" by simp
    also have "\<dots> = take (?b (Suc t) + ?n (Suc t)) (ps_assignments p)"
      unfolding IH by (simp add: token_run_def vslice_def Let_def take_add)
    finally show ?case using IH by simp
  qed
  show "concat (map (token_run p) [0..<t]) = take (?b t) (ps_assignments p)" using pre [OF assms(2)] by simp
  let ?m = "length (ps_tokens p) - 1"
  have m: "?m < length (ps_tokens p)" "Suc ?m = length (ps_tokens p)" using assms(2) by simp_all
  have "token_wf s (ps_tokens p) (ps_assignments p) ?m" using wf m by blast
  then have "?b ?m + ?n ?m = length (ps_assignments p)" unfolding token_wf_def Let_def using m(2) by blast
  then show "concat (map (token_run p) [0..<length (ps_tokens p)]) = ps_assignments p" 
    using pre [OF m(1), THEN conjunct1] unfolding m(2) by simp
qed

lemma length_prior_runs:
  assumes "\<And>r. r < W \<Longrightarrow> csr_wf s (ps_assignments (src r)) 0 0 (ps_tokens (src r))"
    and "r < W" and "t < length (ps_tokens (src r))"
  shows "length (concat (map (key_run src) (keys_prior src r t))) =
    asg_total src r + unat (tok_assignment_begin (ps_tokens (src r) ! t))"
proof -
  have runs: "map (key_run src) (map (Pair r) xs) = map (token_run (src r)) xs" for r xs
    by (simp add: key_run_def)
  have whole: "concat (map (token_run (src r)) [0..<length (ps_tokens (src r))]) = ps_assignments (src r)" if "r < W" for r
  proof (cases "ps_tokens (src r) = []")
    case True
    then show ?thesis using assms(1) [OF that] by (simp add: csr_wf_tokens)
  qed (use prior_assignments(2) [OF assms(1) [OF that], of 0] in simp)
  have "length (concat (map (key_run src) (journal_keys src [0..<r]))) = asg_total src r"
    using assms(2)
  proof (induction r)
    case (Suc r)
    have "journal_keys src [0..<Suc r] = journal_keys src [0..<r] @ map (Pair r) [0..<length (ps_tokens (src r))]"
      by (simp add: journal_keys_def)
    then show ?case
      unfolding \<open>journal_keys src [0..<Suc r] = _\<close> map_append concat_append length_append runs
      using Suc.IH Suc.prems whole [of r] by (simp only: Suc_lessD lessI totals_Suc)
  qed (simp add: journal_keys_def)
  moreover have "length (concat (map (token_run (src r)) [0..<t])) = unat (tok_assignment_begin (ps_tokens (src r) ! t))"
  proof -
    have "token_wf s (ps_tokens (src r)) (ps_assignments (src r)) t"
      using assms(1) [OF assms(2)] assms(3) unfolding csr_wf_tokens by blast
    then have "unat (tok_assignment_begin (ps_tokens (src r) ! t)) \<le> length (ps_assignments (src r))"
      unfolding token_wf_def Let_def by linarith
    then show ?thesis unfolding prior_assignments(1) [OF assms(1) [OF assms(2)] assms(3)] by simp
  qed
  ultimately show ?thesis unfolding keys_prior_def map_append concat_append length_append runs by (simp only:)
qed

section \<open>What the tables hold in the end\<close>

abbreviation row_at :: "nat \<Rightarrow> (nat \<Rightarrow> ParsedSource) \<Rightarrow> nat \<Rightarrow> nat \<Rightarrow> nat \<Rightarrow> nat" where
  "row_at W src r t d \<equiv> length (jobs_at d (jobs_prior W src r t))"

definition row_entry :: "nat \<Rightarrow> (nat \<Rightarrow> ParsedSource) \<Rightarrow> key \<Rightarrow> nat \<Rightarrow> u32" where
  "row_entry W src k d = (case k of (r, t) \<Rightarrow>
     if group_of (src r) t d \<noteq> [] then of_nat (row_at W src r t d) else kInvalidRow)"

abbreviation token_contributors :: "nat \<Rightarrow> (nat \<Rightarrow> ParsedSource) \<Rightarrow> key \<Rightarrow> JournalContributor list" where
  "token_contributors W src k \<equiv> contributors_at src (layout_jobs W src [0..<W]) (fst k) (snd k)"

definition final_cell :: "nat \<Rightarrow> (nat \<Rightarrow> ParsedSource) \<Rightarrow> address \<Rightarrow> cell" where
  "final_cell W src a =
     (let js = layout_jobs W src [0..<W]; ks = journal_keys src [0..<W]
      in case a of
           AToken i \<Rightarrow> CToken (prefix_map (entry_of src (token_contributors W src)) ks ! i)
         | AAssignment i \<Rightarrow> CAssignment (concat (map (key_run src) ks) ! i)
         | ARowMap i \<Rightarrow> CRowMap (row_entry W src (ks ! (i div W)) (i mod W))
         | AContributor i \<Rightarrow> CContributor (prefix_map (contributor_of src) js ! i)
         | ARow d i \<Rightarrow> CRow (prefix_map (row_of src) (jobs_at d js) ! i)
         | AExpert d i \<Rightarrow> CExpert (prefix_map expert_of (flat src (jobs_at d js)) ! i))"

lemma prefix_map_at: "prefix_map f (xs @ y # ys) ! length xs = f xs y"
  by (simp add: nth_append)

lemma flat_longer: "\<exists>zs. flat src (xs @ ys) = flat src xs @ zs"
proof (induction ys rule: rev_induct)
  case (snoc y ys)
  then obtain zs where "flat src (xs @ ys) = flat src xs @ zs" by blast
  then have "flat src (xs @ ys @ [y]) = flat src xs @ zs @ map (Pair (length (xs @ ys))) (job_group src y)"
    using flat_snoc [of src "xs @ ys" y] by simp
  then show ?case by blast
qed simp

lemma final_token:
  assumes csr: "\<And>r. r < W \<Longrightarrow> csr_wf s (ps_assignments (src r)) 0 0 (ps_tokens (src r))"
    and rt: "r < W" "t < length (ps_tokens (src r))"
  shows "final_cell W src (AToken (tok_total src r + t)) = CToken
    \<lparr> jt_route_key = RouteKey (of_nat r) (of_nat t), jt_token_id = tok_token_id (ps_tokens (src r) ! t),
      jt_owner_rank = of_nat r, jt_owner_row = of_nat t,
      jt_contributors_begin = of_nat (length (jobs_prior W src r t)),
      jt_contributors_count = of_nat (length (token_jobs W src r t)),
      jt_assignments_begin = of_nat (asg_total src r + unat (tok_assignment_begin (ps_tokens (src r) ! t))),
      jt_assignments_count = tok_assignment_count (ps_tokens (src r) ! t),
      jt_accumulator_index = of_nat (tok_total src r + t), jt_flags = 0, jt_reserved = (0, 0) \<rparr>"
proof -
  obtain rest where ks: "journal_keys src [0..<W] = keys_prior src r t @ (r, t) # rest"
    using keys_split [where src = src, OF rt] by blast
  have token: "tok_source_token (ps_tokens (src r) ! t) = of_nat t"
    using csr [OF rt(1)] rt(2) by (simp add: csr_wf_tokens token_wf_def Let_def)
  have runs: "length (concat (map (key_run src) (keys_prior src r t))) =
      asg_total src r + unat (tok_assignment_begin (ps_tokens (src r) ! t))"
    using csr rt by (rule length_prior_runs)
  have before: "length (concat (map (token_contributors W src) (keys_prior src r t))) = length (jobs_prior W src r t)"
    using prior_contributors [where src = src, OF rt(1) less_imp_le [OF rt(2)]] by simp
  have own: "length (token_contributors W src (r, t)) = length (token_jobs W src r t)"
    using contributors_token [where src = src, OF rt] by simp
  have "final_cell W src (AToken (tok_total src r + t)) =
      CToken (entry_of src (token_contributors W src) (keys_prior src r t) (r, t))"
    using prefix_map_at [of "entry_of src (token_contributors W src)" "keys_prior src r t" "(r, t)" rest]
    by (simp add: final_cell_def Let_def ks length_keys_prior)
  then show ?thesis
    unfolding entry_of_def Let_def before own runs length_keys_prior
    by (simp add: token)
qed

lemma final_assignment:
  assumes csr: "\<And>r. r < W \<Longrightarrow> csr_wf s (ps_assignments (src r)) 0 0 (ps_tokens (src r))"
    and rt: "r < W" "t < length (ps_tokens (src r))" and l: "l < length (token_run (src r) t)"
  shows "final_cell W src (AAssignment (asg_total src r + unat (tok_assignment_begin (ps_tokens (src r) ! t)) + l)) =
    CAssignment (token_run (src r) t ! l)"
proof -
  obtain rest where ks: "journal_keys src [0..<W] = keys_prior src r t @ (r, t) # rest"
    using keys_split [where src = src, OF rt] by blast
  have runs: "length (concat (map (key_run src) (keys_prior src r t))) =
      asg_total src r + unat (tok_assignment_begin (ps_tokens (src r) ! t))"
    using csr rt by (rule length_prior_runs)
  let ?before = "concat (map (key_run src) (keys_prior src r t))"
  have "concat (map (key_run src) (journal_keys src [0..<W])) ! (length ?before + l) = token_run (src r) t ! l"
    unfolding ks map_append list.map concat_append concat.simps nth_append_length_plus
    using l by (simp add: key_run_def nth_append)
  then show ?thesis
    unfolding final_cell_def Let_def address.case runs by (simp only:)
qed

lemma final_row_map:
  assumes rt: "r < W" "t < length (ps_tokens (src r))" and d: "d < W"
  shows "final_cell W src (ARowMap ((tok_total src r + t) * W + d)) = CRowMap (row_entry W src (r, t) d)"
proof -
  obtain rest where ks: "journal_keys src [0..<W] = keys_prior src r t @ (r, t) # rest"
    using keys_split [where src = src, OF rt] by blast
  then have "journal_keys src [0..<W] ! (tok_total src r + t) = (r, t)"
    unfolding ks length_keys_prior [symmetric] by simp
  then show ?thesis using d by (simp add: final_cell_def Let_def)
qed

lemma final_row:
  assumes rt: "r < W" "t < length (ps_tokens (src r))" and d: "d < W" "group_of (src r) t d \<noteq> []"
  shows "final_cell W src (ARow d (row_at W src r t d)) =
    CRow (row_of src (jobs_at d (jobs_prior W src r t)) (r, t, d))"
proof -
  obtain rest where js: "layout_jobs W src [0..<W] = jobs_prior W src r t @ token_jobs W src r t @ rest"
    using jobs_split [where src = src, OF rt] by blast
  have "jobs_at d (layout_jobs W src [0..<W]) = jobs_at d (jobs_prior W src r t) @ (r, t, d) # jobs_at d rest"
    using d unfolding js jobs_at_append jobs_at_token [OF d(1)] by (simp add: group_of_empty)
  then show ?thesis by (simp add: final_cell_def Let_def nth_append)
qed

lemma final_expert:
  assumes rt: "r < W" "t < length (ps_tokens (src r))" and d: "d < W" and l: "l < length (group_of (src r) t d)"
  shows "final_cell W src (AExpert d (length (flat src (jobs_at d (jobs_prior W src r t))) + l)) =
    CExpert (expert_of (flat src (jobs_at d (jobs_prior W src r t)) @
        map (Pair (row_at W src r t d)) (take l (group_of (src r) t d)))
      (row_at W src r t d, group_of (src r) t d ! l))"
proof -
  obtain rest where js: "layout_jobs W src [0..<W] = jobs_prior W src r t @ token_jobs W src r t @ rest"
    using jobs_split [where src = src, OF rt] by blast
  let ?p = "jobs_at d (jobs_prior W src r t)" and ?g = "group_of (src r) t d"
  have "?g \<noteq> []" using l by auto
  then have "jobs_at d (layout_jobs W src [0..<W]) = (?p @ [(r, t, d)]) @ jobs_at d rest"
    unfolding js jobs_at_append jobs_at_token [OF d] by (simp add: group_of_empty)
  then obtain zs where zs: "flat src (jobs_at d (layout_jobs W src [0..<W])) =
      flat src ?p @ map (Pair (length ?p)) ?g @ zs"
    using flat_longer [of src "?p @ [(r, t, d)]" "jobs_at d rest"] by (auto simp: job_group_def)
  have "map (Pair (length ?p)) ?g = map (Pair (length ?p)) (take l ?g) @ (length ?p, ?g ! l) # map (Pair (length ?p)) (drop (Suc l) ?g)"
    using l by (metis id_take_nth_drop list.simps(9) map_append)
  then have "flat src (jobs_at d (layout_jobs W src [0..<W])) =
      (flat src ?p @ map (Pair (length ?p)) (take l ?g)) @ (length ?p, ?g ! l) # (map (Pair (length ?p)) (drop (Suc l) ?g) @ zs)"
    unfolding zs by simp
  moreover have "length (flat src ?p @ map (Pair (length ?p)) (take l ?g)) = length (flat src ?p) + l" using l by simp
  ultimately show ?thesis unfolding final_cell_def Let_def address.case using prefix_map_at by metis
qed

text \<open>The destinations of a token below a bound, and its contributor for one of them.\<close>

definition dests_below :: "ParsedSource \<Rightarrow> nat \<Rightarrow> nat \<Rightarrow> nat list" where
  "dests_below p t k = filter (\<lambda>d. group_of p t d \<noteq> []) [0..<k]"

lemma dests_below_Suc: "dests_below p t (Suc k) = dests_below p t k @ (if group_of p t k \<noteq> [] then [k] else [])"
  by (simp add: dests_below_def)

lemma dests_below_0 [simp]: "dests_below p t 0 = []"
  by (simp add: dests_below_def)

lemma token_jobs_dests: "token_jobs W src r t = map (\<lambda>d. (r, t, d)) (dests_below (src r) t W)"
  by (simp add: token_jobs_def dests_below_def)

lemma jobs_at_dests: "jobs_at d (map (\<lambda>d. (r, t, d)) (dests_below p t k)) =
    (if d < k \<and> group_of p t d \<noteq> [] then [(r, t, d)] else [])"
  by (induction k) (auto simp: dests_below_Suc less_Suc_eq)

lemma final_contributor:
  assumes rt: "r < W" "t < length (ps_tokens (src r))" and d: "d < W" "group_of (src r) t d \<noteq> []"
  shows "final_cell W src (AContributor (length (jobs_prior W src r t) + length (dests_below (src r) t d))) =
    CContributor \<lparr> jc_worker_rank = of_nat d, jc_destination_row = of_nat (row_at W src r t d),
      jc_assignment_begin = of_nat (length (flat src (jobs_at d (jobs_prior W src r t)))),
      jc_assignment_count = of_nat (length (group_of (src r) t d)) \<rparr>"
proof -
  obtain rest where js: "layout_jobs W src [0..<W] = jobs_prior W src r t @ token_jobs W src r t @ rest"
    using jobs_split [where src = src, OF rt] by blast
  let ?front = "map (\<lambda>d. (r, t, d)) (dests_below (src r) t d)"
  have "\<exists>zs. token_jobs W src r t = ?front @ (r, t, d) # zs"
    unfolding token_jobs_dests dests_below_def upt_three [OF d(1)] using d(2) by simp
  then obtain zs where "layout_jobs W src [0..<W] = (jobs_prior W src r t @ ?front) @ (r, t, d) # (zs @ rest)"
    unfolding js by auto
  then have "final_cell W src (AContributor (length (jobs_prior W src r t @ ?front))) =
      CContributor (contributor_of src (jobs_prior W src r t @ ?front) (r, t, d))"
    unfolding final_cell_def Let_def address.case using prefix_map_at by metis
  then show ?thesis
    by (simp add: contributor_of_def jobs_at_append jobs_at_dests job_group_def)
qed

section \<open>The setting\<close>

definition fill_ctx :: "dispatch_launch \<Rightarrow> nat \<Rightarrow> nat \<Rightarrow> (nat \<Rightarrow> ParsedSource) \<Rightarrow> bool" where
  "fill_ctx la W E src \<longleftrightarrow> W = unat (dl_worker_count la) \<and> dl_worker_count la \<le> kPullDispatchMaxWorkers \<and>
     E = unat (dl_expert_count la) \<and> caps_small la \<and> plan_fits la src \<and>
     (\<forall>r < W. source_sized (src r) \<and> csr_wf (launch_session la) (ps_assignments (src r)) 0 0 (ps_tokens (src r)))"

lemma ctx_facts:
  assumes "fill_ctx la W E src"
  shows "W = unat (dl_worker_count la)" "dl_worker_count la \<le> kPullDispatchMaxWorkers" "W \<le> 128"
    "E = unat (dl_expert_count la)"
    "\<And>r. r < W \<Longrightarrow> csr_wf (launch_session la) (ps_assignments (src r)) 0 0 (ps_tokens (src r))"
    "\<And>r. r < W \<Longrightarrow> source_sized (src r)"
    "tok_total src W \<le> unat (dl_journal_token_capacity la)"
    "dl_journal_assignment_capacity la \<noteq> 0 \<Longrightarrow> asg_total src W \<le> unat (dl_journal_assignment_capacity la)"
    "asg_total src W < 2 ^ 32"
    "dl_row_map_capacity_entries la \<noteq> 0 \<Longrightarrow> tok_total src W * W \<le> unat (dl_row_map_capacity_entries la)"
    "length (layout_jobs W src [0..<W]) \<le> unat (dl_journal_contributor_capacity la)"
    "\<And>d. d < W \<Longrightarrow> length (jobs_at d (layout_jobs W src [0..<W])) \<le> unat (dl_destination_row_capacity la)"
    "\<And>d. d < W \<Longrightarrow> length (flat src (jobs_at d (layout_jobs W src [0..<W]))) \<le>
      unat (dl_destination_assignment_capacity la)"
    "unat (dl_journal_token_capacity la) < 2 ^ 32" "unat (dl_journal_contributor_capacity la) < 2 ^ 32"
    "unat (dl_destination_row_capacity la) < 2 ^ 32" "unat (dl_destination_assignment_capacity la) < 2 ^ 32"
  using assms
  by (simp_all add: fill_ctx_def plan_fits_def Let_def source_fits_def caps_ok_def caps_small_def word_le_nat_alt abi_consts)

lemma ctx_token:
  assumes ctx: "fill_ctx la W E src" and rt: "r < W" "t < length (ps_tokens (src r))"
  shows "tok_source_token (ps_tokens (src r) ! t) = of_nat t"
    and "unat (tok_assignment_count (ps_tokens (src r) ! t)) = length (token_run (src r) t)"
    and "unat (tok_assignment_begin (ps_tokens (src r) ! t)) + length (token_run (src r) t) \<le> length (ps_assignments (src r))"
    and "\<And>l. l < length (token_run (src r) t) \<Longrightarrow>
      ps_assignments (src r) ! (unat (tok_assignment_begin (ps_tokens (src r) ! t)) + l) = token_run (src r) t ! l"
    and "\<And>a. a \<in> set (token_run (src r) t) \<Longrightarrow> to_dest a < W \<and> to_expert a < E"
proof -
  have wf: "token_wf (launch_session la) (ps_tokens (src r)) (ps_assignments (src r)) t"
    using ctx_facts(5) [OF ctx rt(1)] rt(2) unfolding csr_wf_tokens by blast
  let ?b = "unat (tok_assignment_begin (ps_tokens (src r) ! t))"
  let ?n = "unat (tok_assignment_count (ps_tokens (src r) ! t))"
  have len: "?b + ?n \<le> length (ps_assignments (src r))" and as: "assignments_wf (launch_session la) ?n (token_run (src r) t)"
    and tok: "tok_source_token (ps_tokens (src r) ! t) = of_nat t"
    using wf unfolding token_wf_def Let_def token_run_def by blast+
  show n: "?n = length (token_run (src r) t)" using len by (simp add: token_run_def Let_def)
  show "tok_source_token (ps_tokens (src r) ! t) = of_nat t" by (rule tok)
  show "?b + length (token_run (src r) t) \<le> length (ps_assignments (src r))" using len n by simp
  show "ps_assignments (src r) ! (?b + l) = token_run (src r) t ! l" if "l < length (token_run (src r) t)" for l
  proof -
    have "l < ?n" using that unfolding n .
    then show ?thesis using len by (simp add: token_run_def Let_def nth_vslice)
  qed
  show "to_dest a < W \<and> to_expert a < E" if "a \<in> set (token_run (src r) t)" for a
    using as that ctx_facts(1,4) [OF ctx] by (auto simp: assignments_wf_def launch_session_def word_less_nat_alt)
qed

lemma group_range: "fill_ctx la W E src \<Longrightarrow> r < W \<Longrightarrow> t < length (ps_tokens (src r)) \<Longrightarrow> group_of (src r) t d \<noteq> [] \<Longrightarrow> d < W"
  using ctx_token(5) by (fastforce simp: group_of_empty)

text \<open>The positions of a token lie in the tables.\<close>

lemma tok_total_lt: "r < W \<Longrightarrow> t < length (ps_tokens (src r)) \<Longrightarrow> tok_total src r + t < tok_total src W"
  using totals_mono(1) [of "Suc r" W src] by simp

lemma ctx_in_table:
  assumes ctx: "fill_ctx la W E src" and rt: "r < W" "t < length (ps_tokens (src r))"
  shows "in_table la (AToken (tok_total src r + t))"
    and "dl_journal_assignment_capacity la \<noteq> 0 \<Longrightarrow> l < length (token_run (src r) t) \<Longrightarrow>
      in_table la (AAssignment (asg_total src r + unat (tok_assignment_begin (ps_tokens (src r) ! t)) + l))"
    and "dl_row_map_capacity_entries la \<noteq> 0 \<Longrightarrow> d < W \<Longrightarrow> in_table la (ARowMap ((tok_total src r + t) * W + d))"
    and "group_of (src r) t d \<noteq> [] \<Longrightarrow> in_table la (ARow d (row_at W src r t d))"
    and "group_of (src r) t d \<noteq> [] \<Longrightarrow>
      in_table la (AContributor (length (jobs_prior W src r t) + length (dests_below (src r) t d)))"
    and "d < W \<Longrightarrow> l < length (group_of (src r) t d) \<Longrightarrow>
      in_table la (AExpert d (length (flat src (jobs_at d (jobs_prior W src r t))) + l))"
proof -
  note facts = ctx_facts [OF ctx]
  obtain rest where js: "layout_jobs W src [0..<W] = jobs_prior W src r t @ token_jobs W src r t @ rest"
    using jobs_split [where src = src, OF rt] by blast
  show "in_table la (AToken (tok_total src r + t))"
    using tok_total_lt [where src = src, OF rt] facts(7) by (simp add: in_table_def)
  show "in_table la (AAssignment (asg_total src r + unat (tok_assignment_begin (ps_tokens (src r) ! t)) + l))"
    if "dl_journal_assignment_capacity la \<noteq> 0" "l < length (token_run (src r) t)"
    using that facts(8) totals_mono(2) [of "Suc r" W src] rt(1) ctx_token(3) [OF ctx rt] by (simp add: in_table_def)
  show "in_table la (ARowMap ((tok_total src r + t) * W + d))" if "dl_row_map_capacity_entries la \<noteq> 0" "d < W"
    using index_bound [OF tok_total_lt [where src = src, OF rt] that(2)] facts(10) [OF that(1)] by (simp add: in_table_def)
  have at: "length (jobs_at d (layout_jobs W src [0..<W])) = row_at W src r t d + length (jobs_at d (token_jobs W src r t)) +
      length (jobs_at d rest)" for d by (simp add: js jobs_at_append)
  show "in_table la (ARow d (row_at W src r t d))" if "group_of (src r) t d \<noteq> []"
  proof -
    have "d < W" using group_range [OF ctx rt that] .
    then have "length (jobs_at d (token_jobs W src r t)) = 1"
      using that jobs_at_token [of d W src r t] by (simp add: group_of_empty)
    then have "row_at W src r t d < unat (dl_destination_row_capacity la)"
      using facts(12) [OF \<open>d < W\<close>] at [of d] by linarith
    then show ?thesis using \<open>d < W\<close> unfolding in_table_def address.case facts(1) by blast
  qed
  show "in_table la (AContributor (length (jobs_prior W src r t) + length (dests_below (src r) t d)))"
    if "group_of (src r) t d \<noteq> []"
  proof -
    have "dests_below (src r) t W = dests_below (src r) t d @ d # filter (\<lambda>d. group_of (src r) t d \<noteq> []) [Suc d..<W]"
      unfolding dests_below_def upt_three [OF group_range [OF ctx rt that]] using that by simp
    then have "length (dests_below (src r) t d) < length (token_jobs W src r t)" by (simp add: token_jobs_dests)
    then show ?thesis using facts(11) by (simp add: js in_table_def)
  qed
  show "in_table la (AExpert d (length (flat src (jobs_at d (jobs_prior W src r t))) + l))"
    if "d < W" "l < length (group_of (src r) t d)"
  proof -
    have "jobs_at d (layout_jobs W src [0..<W]) = jobs_at d (jobs_prior W src r t) @ (r, t, d) # jobs_at d rest"
      using that unfolding js jobs_at_append jobs_at_token [OF that(1)] by (auto simp: group_of_empty [symmetric])
    then have "length (flat src (jobs_at d (jobs_prior W src r t))) + length (group_of (src r) t d) \<le>
        length (flat src (jobs_at d (layout_jobs W src [0..<W])))"
      by (simp add: length_flat job_group_def)
    then show ?thesis using that facts(13) [OF that(1)] by (simp add: in_table_def facts(1) [symmetric])
  qed
qed

section \<open>Loops that store\<close>

abbreviation filled :: "(address \<rightharpoonup> cell) \<Rightarrow> (address \<Rightarrow> cell) \<Rightarrow> address set \<Rightarrow> (address \<rightharpoonup> cell)" where
  "filled memory F A \<equiv> override_on memory (\<lambda>a. Some (F a)) A"

lemma filled_filled [simp]: "filled (filled m F A) F B = filled m F (A \<union> B)"
  by (rule ext) (simp add: override_on_def)

lemma filled_empty [simp]: "filled m F {} = m"
  by (rule ext) (simp add: override_on_def)

lemma filled_upd: "v = F a \<Longrightarrow> (filled m F A)(a \<mapsto> v) = filled m F (insert a A)"
  by (rule ext) (simp add: override_on_def)

lemma mfold_stores:
  assumes "\<And>l m. l < n \<Longrightarrow> f l m = store la (a l) (F (a l)) m" and "\<And>l. l < n \<Longrightarrow> in_table la (a l)"
  shows "mfold f [0..<n] m = Inr (filled m F (a ` {..<n}))"
  using assms
proof (induction n)
  case (Suc n)
  have "mfold f [0..<n] m = Inr (filled m F (a ` {..<n}))" using Suc by simp
  then show ?case
    using Suc.prems(1) [of n] Suc.prems(2) [of n]
    by (simp add: mfold_append store_def filled_upd lessThan_Suc)
qed simp

lemma copy_assignments:
  assumes ctx: "fill_ctx la W E src" and rt: "r < W" "t < length (ps_tokens (src r))"
    and cap: "dl_journal_assignment_capacity la \<noteq> 0"
    and rec: "record = ps_tokens (src r) ! t" and prefix: "unat prefix = asg_total src r"
  shows "mfold (copy_assignment la record (ps_assignments (src r)) (prefix + tok_assignment_begin record))
      [0..<unat (tok_assignment_count record)] m = Inr (filled m (final_cell W src)
        ((\<lambda>l. AAssignment (asg_total src r + unat (tok_assignment_begin record) + l)) ` {..<length (token_run (src r) t)}))"
proof -
  note tok = ctx_token [OF ctx rt, folded rec]
  have sized: "length (ps_assignments (src r)) < 2 ^ 32"
    using ctx_facts(6) [OF ctx rt(1)] unsigned_less [of "sh_assignment_count (ps_header (src r))", where ?'a = nat]
    by (simp add: source_sized_def)
  have "asg_total src r + unat (tok_assignment_begin record) < 2 ^ 32"
    using totals_mono(2) [of "Suc r" W src] rt(1) tok(3) ctx_facts(9) [OF ctx] by simp
  then have base: "unat (prefix + tok_assignment_begin record) = asg_total src r + unat (tok_assignment_begin record)"
    by (simp add: unat_add_u32 prefix)
  show ?thesis
    unfolding tok(2)
  proof (rule mfold_stores)
    fix l m assume l: "l < length (token_run (src r) t)"
    then have "vget (ps_assignments (src r)) (unat (tok_assignment_begin record) + l) =
        (Inr (token_run (src r) t ! l) :: (u32, AssignmentRecord) res)" using tok(3,4) by simp
    moreover have "final_cell W src (AAssignment (asg_total src r + unat (tok_assignment_begin record) + l)) =
        CAssignment (token_run (src r) t ! l)"
      unfolding rec using ctx_facts(5) [OF ctx] rt l by (rule final_assignment)
    ultimately show "copy_assignment la record (ps_assignments (src r)) (prefix + tok_assignment_begin record) l m =
        store la (AAssignment (asg_total src r + unat (tok_assignment_begin record) + l))
          (final_cell W src (AAssignment (asg_total src r + unat (tok_assignment_begin record) + l))) m"
      by (simp add: copy_assignment_def base)
  qed (use ctx_in_table(2) [OF ctx rt cap] rec in simp)
qed

section \<open>The destinations of a token\<close>

definition dest_counts :: "AssignmentRecord list \<Rightarrow> nat \<rightharpoonup> u32" where
  "dest_counts as = (\<lambda>d. let g = filter (\<lambda>a. to_dest a = d) as in if g = [] then None else Some (of_nat (length g)))"

lemma dest_counts_snoc: "dest_counts (as @ [a]) = (dest_counts as)(to_dest a \<mapsto>
    (case dest_counts as (to_dest a) of None \<Rightarrow> 1 | Some n \<Rightarrow> n + 1))"
  by (rule ext) (auto simp: dest_counts_def Let_def)

lemma dest_counts_None: "dest_counts as d = None \<longleftrightarrow> d \<notin> to_dest ` set as"
  by (auto simp: dest_counts_def Let_def filter_empty_conv)

lemma dest_counts_group: "dest_counts (token_run p t) d =
    (if group_of p t d = [] then None else Some (of_nat (length (group_of p t d))))"
  by (simp add: dest_counts_def group_of_def Let_def)

lemma count_destinations:
  assumes ctx: "fill_ctx la W E src" and rt: "r < W" "t < length (ps_tokens (src r))"
    and rec: "record = ps_tokens (src r) ! t"
  shows "\<exists>bits. mfold (count_destination record (ps_assignments (src r))) [0..<unat (tok_assignment_count record)]
      ([0, 0, 0, 0], Map.empty) = Inr (bits, dest_counts (token_run (src r) t)) \<and>
    length bits = 4 \<and> bit_set bits = to_dest ` set (token_run (src r) t)"
proof -
  let ?run = "token_run (src r) t"
  note tok = ctx_token [OF ctx rt, folded rec]
  let ?P = "\<lambda>l (u :: u32 list \<times> (nat \<rightharpoonup> u32)). length (fst u) = 4 \<and> bit_set (fst u) = to_dest ` set (take l ?run) \<and>
      snd u = dest_counts (take l ?run)"
  have "\<exists>u. mfold (count_destination record (ps_assignments (src r))) [0..<length ?run] ([0, 0, 0, 0], Map.empty) = Inr u \<and>
      ?P (length ?run) u"
  proof (rule mfold_upt_total [where P = ?P])
    show "?P 0 ([0, 0, 0, 0], Map.empty)" by (simp add: bit_set_empty dest_counts_def fun_eq_iff)
  next
    fix l u assume l: "l < length ?run" and P: "?P l u"
    let ?a = "?run ! l"
    obtain bits counts where u: "u = (bits, counts)" by (cases u)
    have P': "length bits = 4" "bit_set bits = to_dest ` set (take l ?run)" "counts = dest_counts (take l ?run)"
      using P by (simp_all add: u)
    have "to_dest ?a < W" using tok(5) [of ?a] l by simp
    then have d: "to_dest ?a < 128" using ctx_facts(3) [OF ctx] by simp
    have word: "bit_word (asg_destination_rank ?a) < length bits" using bit_position(2) [OF d] P'(1) by simp
    have get: "vget (ps_assignments (src r)) (unat (tok_assignment_begin record) + l) = (Inr ?a :: (u32, AssignmentRecord) res)"
      using l tok(3,4) by simp
    have tst: "bits ! bit_word (asg_destination_rank ?a) AND bit_mask (asg_destination_rank ?a) = 0 \<longleftrightarrow>
        counts (to_dest ?a) = None"
      using bit_test [OF d, of bits] P'(2,3) by (auto simp: dest_counts_None)
    let ?bits = "if counts (to_dest ?a) = None then bits[bit_word (asg_destination_rank ?a) :=
        bits ! bit_word (asg_destination_rank ?a) OR bit_mask (asg_destination_rank ?a)] else bits"
    have tk: "take (Suc l) ?run = take l ?run @ [?a]" using l by (simp add: take_Suc_conv_app_nth)
    have "count_destination record (ps_assignments (src r)) l u = Inr (?bits, dest_counts (take (Suc l) ?run))"
      unfolding tk dest_counts_snoc using word
      by (auto simp: u count_destination_def get Let_def tst read_entry_def P'(3) split: option.split)
    moreover have "bit_set ?bits = to_dest ` set (take (Suc l) ?run)"
      unfolding tk using bit_mark [OF d P'(1)] P'(2,3) by (auto simp: dest_counts_None insert_absorb)
    moreover have "length ?bits = 4" using P'(1) by simp
    ultimately show "\<exists>v. count_destination record (ps_assignments (src r)) l u = Inr v \<and> ?P (Suc l) v" by auto
  qed
  then show ?thesis unfolding tok(2) by auto
qed

text \<open>The two loops over the words and their bits are one loop over 128 destinations.\<close>

lemma bit_loops: "mfold (\<lambda>word. mfold (f word) [0..<32]) [0..<4] s = mfold (\<lambda>d. f (d div 32) (d mod 32)) [0..<128] s"
proof -
  have word: "mfold (f word) [0..<32] u = mfold (\<lambda>d. f (d div 32) (d mod 32)) (map (\<lambda>b. word * 32 + b) [0..<32]) u" for word u
    unfolding mfold_map by (rule mfold_cong) auto
  have "[0..<128] = concat (map (\<lambda>word. map (\<lambda>b. word * 32 + b) [0..<32]) [0..<4])"
    by (simp add: upt_rec)
  then have "mfold (\<lambda>d. f (d div 32) (d mod 32)) [0..<128] s =
      mfold (\<lambda>word. mfold (\<lambda>d. f (d div 32) (d mod 32)) (map (\<lambda>b. word * 32 + b) [0..<32])) [0..<4] s"
    by (simp only: mfold_concat mfold_map)
  also have "\<dots> = mfold (\<lambda>word. mfold (f word) [0..<32]) [0..<4] s"
    by (rule mfold_cong [OF refl refl]) (rule word [symmetric])
  finally show ?thesis by simp
qed

text \<open>The cells one destination of a token owns apart from its assignments.\<close>

definition dest_cells :: "dispatch_launch \<Rightarrow> nat \<Rightarrow> (nat \<Rightarrow> ParsedSource) \<Rightarrow> nat \<Rightarrow> nat \<Rightarrow> nat \<Rightarrow> address set" where
  "dest_cells la W src r t d =
     {ARow d (row_at W src r t d), AContributor (length (jobs_prior W src r t) + length (dests_below (src r) t d))} \<union>
     (if dl_row_map_capacity_entries la \<noteq> 0 then {ARowMap ((tok_total src r + t) * W + d)} else {})"

definition dests_filled ::
  "dispatch_launch \<Rightarrow> nat \<Rightarrow> (nat \<Rightarrow> ParsedSource) \<Rightarrow> nat \<Rightarrow> nat \<Rightarrow> fill_state \<Rightarrow> nat \<Rightarrow>
     u32 \<times> (nat \<rightharpoonup> u32) \<times> fill_state \<Rightarrow> bool" where
  "dests_filled la W src r t st k u \<longleftrightarrow> (case u of (n, token_rows, st') \<Rightarrow>
     let ds = dests_below (src r) t k
     in n = of_nat (length ds) \<and>
        token_rows = (\<lambda>d. if d \<in> set ds then Some (of_nat (row_at W src r t d)) else None) \<and>
        fs_contributor st' = of_nat (length (jobs_prior W src r t) + length ds) \<and> length (fs_rows st') = W \<and>
        (\<forall>d < W. fs_rows st' ! d = of_nat (row_at W src r t d + (if d \<in> set ds then 1 else 0))) \<and>
        fs_assignments st' = fs_assignments st \<and> fs_experts st' = fs_experts st \<and>
        fs_memory st' = filled (fs_memory st) (final_cell W src) (\<Union>d \<in> set ds. dest_cells la W src r t d))"

definition cursors :: "nat \<Rightarrow> nat \<Rightarrow> (nat \<Rightarrow> ParsedSource) \<Rightarrow> job list \<Rightarrow> fill_state \<Rightarrow> bool" where
  "cursors W E src js st \<longleftrightarrow> fs_contributor st = of_nat (length js) \<and> length (fs_rows st) = W \<and>
     length (fs_assignments st) = W \<and> length (fs_experts st) = W * E \<and>
     (\<forall>d < W. fs_rows st ! d = of_nat (length (jobs_at d js)) \<and>
        fs_assignments st ! d = of_nat (length (flat src (jobs_at d js))) \<and>
        (\<forall>e < E. fs_experts st ! (d * E + e) = of_nat (expert_count e (flat src (jobs_at d js)))))"

lemma set_dests_below: "set (dests_below p t k) = {d. d < k \<and> group_of p t d \<noteq> []}"
  by (auto simp: dests_below_def)

lemma unat_small: "n < m \<Longrightarrow> m < 2 ^ 32 \<Longrightarrow> unat (of_nat n :: u32) = n"
  by (rule unat_of_nat_u32) simp

lemma fill_destination_step:
  assumes ctx: "fill_ctx la W E src" and rt: "r < W" "t < length (ps_tokens (src r))"
    and rec: "record = ps_tokens (src r) ! t" and d: "d < 128"
    and bits: "length bits = 4" "bit_set bits = to_dest ` set (token_run (src r) t)"
    and cur: "cursors W E src (jobs_prior W src r t) st"
    and global: "unat global_token = tok_total src r + t"
    and P: "dests_filled la W src r t st d u"
  shows "\<exists>v. fill_destination la (of_nat r) (of_nat t) global_token record bits (dest_counts (token_run (src r) t))
      (d div 32) (d mod 32) u = Inr v \<and> dests_filled la W src r t st (Suc d) v"
proof -
  obtain n token_rows st' where u: "u = (n, token_rows, st')" by (cases u)
  let ?F = "final_cell W src" and ?J = "jobs_prior W src r t" and ?g = "group_of (src r) t d"
  note P' = P [unfolded dests_filled_def u prod.case Let_def]
  note facts = ctx_facts [OF ctx]
  have word: "d div 32 < 4" using d by (simp add: div_less_iff_less_mult)
  have tst: "bits ! (d div 32) AND push_bit (d mod 32) 1 = 0 \<longleftrightarrow> ?g = []"
    using d bits(2) group_of_empty [of "src r" t d] bit_iff_and_push_bit_not_eq_0 [of "bits ! (d div 32)" "d mod 32"]
    by (auto simp: bit_set_def)
  show ?thesis
  proof (cases "?g = []")
    case True
    then have "fill_destination la (of_nat r) (of_nat t) global_token record bits (dest_counts (token_run (src r) t))
        (d div 32) (d mod 32) u = Inr u"
      using word bits(1) tst by (simp add: fill_destination_def u)
    moreover have "dests_filled la W src r t st (Suc d) u" using P True by (simp add: dests_filled_def dests_below_Suc)
    ultimately show ?thesis by blast
  next
    case False
    have dW: "d < W" by (rule group_range [OF ctx rt False])
    note tabs = ctx_in_table [OF ctx rt]
    have inr: "in_table la (ARow d (row_at W src r t d))" by (rule tabs(4) [OF False])
    have inc: "in_table la (AContributor (length ?J + length (dests_below (src r) t d)))" by (rule tabs(5) [OF False])
    have row: "fs_rows st' ! d = of_nat (row_at W src r t d)" "d < length (fs_rows st')"
      using P' dW by (simp_all add: set_dests_below)
    have urow: "unat (of_nat (row_at W src r t d) :: u32) = row_at W src r t d"
      by (rule unat_small [OF _ facts(16)]) (use inr in \<open>simp add: in_table_def\<close>)
    have ucon: "unat (fs_contributor st') = length ?J + length (dests_below (src r) t d)"
      unfolding P' [THEN conjunct2, THEN conjunct2, THEN conjunct1]
      by (rule unat_small [OF _ facts(15)]) (use inc in \<open>simp add: in_table_def\<close>)
    have asg: "fs_assignments st' ! d = of_nat (length (flat src (jobs_at d ?J)))" "d < length (fs_assignments st')"
      using P' cur dW by (simp_all add: cursors_def)
    have key: "DeviceRouteKey (of_nat r) (of_nat t) = RouteKey (of_nat r) (of_nat t)" by (simp add: DeviceRouteKey_eq)
    have vrow: "?F (ARow d (row_at W src r t d)) = CRow \<lparr> dr_route_key = RouteKey (of_nat r) (of_nat t),
        dr_token_id = tok_token_id record, dr_source_rank = of_nat r, dr_source_token = of_nat t,
        dr_destination_row = of_nat (row_at W src r t d),
        dr_assignments_begin = of_nat (length (flat src (jobs_at d ?J))),
        dr_assignments_count = of_nat (length ?g), dr_reserved = 0 \<rparr>"
      using final_row [where src = src, OF rt dW False] ctx_token(1) [OF ctx rt]
      by (simp add: row_of_def Let_def job_group_def rec)
    note vcon = final_contributor [where src = src, OF rt dW False]
    have vmap: "?F (ARowMap ((tok_total src r + t) * W + d)) = CRowMap (of_nat (row_at W src r t d))"
      using final_row_map [where src = src, OF rt dW] False by (simp add: row_entry_def)
    let ?m1 = "if dl_row_map_capacity_entries la \<noteq> 0 then (fs_memory st')(ARowMap ((tok_total src r + t) * W + d) \<mapsto>
        ?F (ARowMap ((tok_total src r + t) * W + d))) else fs_memory st'"
    let ?m2 = "?m1(ARow d (row_at W src r t d) \<mapsto> ?F (ARow d (row_at W src r t d)),
        AContributor (length ?J + length (dests_below (src r) t d)) \<mapsto>
          ?F (AContributor (length ?J + length (dests_below (src r) t d))))"
    let ?v = "(n + 1, token_rows(d \<mapsto> of_nat (row_at W src r t d)), st'\<lparr>fs_contributor := fs_contributor st' + 1,
        fs_rows := (fs_rows st')[d := of_nat (row_at W src r t d) + 1], fs_memory := ?m2\<rparr>)"
    have run: "fill_destination la (of_nat r) (of_nat t) global_token record bits (dest_counts (token_run (src r) t))
        (d div 32) (d mod 32) u = Inr ?v"
      using word bits(1) tst False dW row(2) asg inr inc tabs(3) [OF _ dW]
      by (simp add: fill_destination_def u Let_def read_entry_def dest_counts_group row(1) store_def urow ucon
        facts(1) [symmetric] global vmap [symmetric] vrow vcon key)
    have ds: "dests_below (src r) t (Suc d) = dests_below (src r) t d @ [d]" using False by (simp add: dests_below_Suc)
    have mem: "?m2 = filled (fs_memory st) ?F (\<Union>d' \<in> set (dests_below (src r) t (Suc d)). dest_cells la W src r t d')"
    proof -
      have "fs_memory st' = filled (fs_memory st) ?F (\<Union>d' \<in> set (dests_below (src r) t d). dest_cells la W src r t d')"
        using P' by blast
      then show ?thesis unfolding ds by (intro ext) (auto simp: override_on_def dest_cells_def)
    qed
    have "dests_filled la W src r t st (Suc d) ?v"
      unfolding dests_filled_def prod.case Let_def
    proof (intro conjI allI impI)
      show "fs_memory (st'\<lparr>fs_contributor := fs_contributor st' + 1,
          fs_rows := (fs_rows st')[d := of_nat (row_at W src r t d) + 1], fs_memory := ?m2\<rparr>) =
        filled (fs_memory st) ?F (\<Union>d' \<in> set (dests_below (src r) t (Suc d)). dest_cells la W src r t d')"
        using mem by simp
    qed (use P' dW in \<open>auto simp: ds set_dests_below nth_list_update fun_eq_iff\<close>)
    then show ?thesis using run by blast
  qed
qed

lemma fill_destinations:
  assumes ctx: "fill_ctx la W E src" and rt: "r < W" "t < length (ps_tokens (src r))"
    and rec: "record = ps_tokens (src r) ! t"
    and bits: "length bits = 4" "bit_set bits = to_dest ` set (token_run (src r) t)"
    and cur: "cursors W E src (jobs_prior W src r t) st"
    and global: "unat global_token = tok_total src r + t"
  shows "\<exists>u. mfold (\<lambda>word. mfold (fill_destination la (of_nat r) (of_nat t) global_token record bits
      (dest_counts (token_run (src r) t)) word) [0..<32]) [0..<4] (0, Map.empty, st) = Inr u \<and>
    dests_filled la W src r t st W u"
proof -
  have "dests_below (src r) t 128 = dests_below (src r) t W"
  proof -
    have "[0..<128] = [0..<W] @ [W..<128]" using upt_add_eq_append [of 0 W "128 - W"] ctx_facts(3) [OF ctx] by simp
    moreover have "filter (\<lambda>d. group_of (src r) t d \<noteq> []) [W..<128] = []"
    proof -
      have "group_of (src r) t d = []" if "W \<le> d" for d using group_range [OF ctx rt, of d] that by fastforce
      then show ?thesis by (simp add: filter_empty_conv)
    qed
    ultimately show ?thesis by (simp add: dests_below_def)
  qed
  then have W: "dests_filled la W src r t st 128 u \<longleftrightarrow> dests_filled la W src r t st W u" for u
    unfolding dests_filled_def by (simp only:)
  have start: "dests_filled la W src r t st 0 (0, Map.empty, st)"
    using cur by (auto simp: dests_filled_def cursors_def Let_def)
  show ?thesis
    unfolding bit_loops W [symmetric]
    by (rule mfold_upt_total [where P = "dests_filled la W src r t st"], rule start)
      (rule fill_destination_step [OF ctx rt rec _ bits cur global])
qed

section \<open>The assignments of a token\<close>

definition expert_cells :: "nat \<Rightarrow> (nat \<Rightarrow> ParsedSource) \<Rightarrow> job list \<Rightarrow> AssignmentRecord list \<Rightarrow> address set" where
  "expert_cells W src js as = (\<Union>d < W. (\<lambda>i. AExpert d (length (flat src (jobs_at d js)) + i)) `
     {..<length (filter (\<lambda>a. to_dest a = d) as)})"

lemma expert_cells_snoc:
  "to_dest a < W \<Longrightarrow> expert_cells W src js (as @ [a]) = insert (AExpert (to_dest a)
     (length (flat src (jobs_at (to_dest a) js)) + length (filter (\<lambda>b. to_dest b = to_dest a) as))) (expert_cells W src js as)"
  by (auto simp: expert_cells_def lessThan_Suc split: if_splits)

definition experts_filled ::
  "nat \<Rightarrow> nat \<Rightarrow> (nat \<Rightarrow> ParsedSource) \<Rightarrow> job list \<Rightarrow> fill_state \<Rightarrow> AssignmentRecord list \<Rightarrow> fill_state \<Rightarrow> bool" where
  "experts_filled W E src js st as u \<longleftrightarrow> fs_contributor u = fs_contributor st \<and> fs_rows u = fs_rows st \<and>
     length (fs_assignments u) = W \<and> length (fs_experts u) = W * E \<and>
     (\<forall>d < W. fs_assignments u ! d = of_nat (length (flat src (jobs_at d js)) + length (filter (\<lambda>a. to_dest a = d) as)) \<and>
        (\<forall>e < E. fs_experts u ! (d * E + e) = of_nat (expert_count e (flat src (jobs_at d js)) +
           length (filter (\<lambda>a. to_dest a = d \<and> to_expert a = e) as)))) \<and>
     fs_memory u = filled (fs_memory st) (final_cell W src) (expert_cells W src js as)"

lemma fill_expert_step:
  assumes ctx: "fill_ctx la W E src" and rt: "r < W" "t < length (ps_tokens (src r))"
    and rec: "record = ps_tokens (src r) ! t" and l: "l < length (token_run (src r) t)"
    and rows: "\<And>d. group_of (src r) t d \<noteq> [] \<Longrightarrow> token_rows d = Some (of_nat (row_at W src r t d))"
    and P: "experts_filled W E src (jobs_prior W src r t) st (take l (token_run (src r) t)) u"
  shows "\<exists>v. fill_expert la record (ps_assignments (src r)) token_rows l u = Inr v \<and>
    experts_filled W E src (jobs_prior W src r t) st (take (Suc l) (token_run (src r) t)) v"
proof -
  let ?run = "token_run (src r) t" and ?J = "jobs_prior W src r t" and ?F = "final_cell W src"
  let ?a = "?run ! l" and ?pre = "take l ?run"
  let ?d = "to_dest ?a" and ?e = "to_expert ?a" and ?g = "group_of (src r) t (to_dest ?a)"
  let ?x = "?d * E + ?e" and ?c = "length (filter (\<lambda>a. to_dest a = ?d) ?pre)"
  let ?i = "length (flat src (jobs_at ?d ?J)) + ?c"
  note tok = ctx_token [OF ctx rt, folded rec]
  note facts = ctx_facts [OF ctx]
  note P' = P [unfolded experts_filled_def]
  have a: "?d < W" "?e < E" using tok(5) [of ?a] l by simp_all
  have x: "?x < W * E" by (rule index_bound [OF a])
  have get: "vget (ps_assignments (src r)) (unat (tok_assignment_begin record) + l) = (Inr ?a :: (u32, AssignmentRecord) res)"
    using l tok(3,4) by simp
  have ix: "unat (ucast (asg_destination_rank ?a) * ucast (dl_expert_count la) + ucast (asg_expert_id ?a) :: u64) = ?x"
    using count_index [of ?d "dl_worker_count la" "asg_expert_id ?a" "dl_expert_count la"] a facts(1,2,4)
    by (simp add: word_less_nat_alt)
  have split: "?run = ?pre @ ?a # drop (Suc l) ?run" by (rule id_take_nth_drop [OF l])
  have g: "?g = filter (\<lambda>a. to_dest a = ?d) ?pre @ ?a # filter (\<lambda>a. to_dest a = ?d) (drop (Suc l) ?run)"
    unfolding group_of_def by (subst split) simp
  then have c: "?c < length ?g" "?g ! ?c = ?a" "take ?c ?g = filter (\<lambda>a. to_dest a = ?d) ?pre" "?g \<noteq> []"
    by (simp_all add: nth_append)
  have tab: "in_table la (AExpert ?d ?i)" by (rule ctx_in_table(6) [OF ctx rt a(1) c(1)])
  have ui: "unat (of_nat ?i :: u32) = ?i"
    by (rule unat_small [OF _ facts(17)]) (use tab in \<open>simp add: in_table_def\<close>)
  have val: "?F (AExpert ?d ?i) = CExpert \<lparr> ea_destination_row = of_nat (row_at W src r t ?d), ea_expert_id = asg_expert_id ?a,
      ea_expert_row = of_nat (expert_count ?e (flat src (jobs_at ?d ?J)) +
        length (filter (\<lambda>a. to_dest a = ?d \<and> to_expert a = ?e) ?pre)),
      ea_ordinal = asg_ordinal ?a, ea_weight = asg_weight ?a, ea_reserved = (0, 0, 0) \<rparr>"
    using final_expert [where src = src, OF rt a(1) c(1)] c(2,3)
    by (simp add: expert_of_def expert_count_append expert_count_Pair conj_commute)
  let ?v = "u\<lparr>fs_assignments := (fs_assignments u)[?d := of_nat ?i + 1],
      fs_experts := (fs_experts u)[?x := fs_experts u ! ?x + 1], fs_memory := (fs_memory u)(AExpert ?d ?i \<mapsto> ?F (AExpert ?d ?i))\<rparr>"
  have at: "fs_assignments u ! ?d = of_nat ?i" "?d < length (fs_assignments u)" "?x < length (fs_experts u)"
    "fs_experts u ! ?x = of_nat (expert_count ?e (flat src (jobs_at ?d ?J)) +
        length (filter (\<lambda>a. to_dest a = ?d \<and> to_expert a = ?e) ?pre))"
    using P' a x by simp_all
  have run: "fill_expert la record (ps_assignments (src r)) token_rows l u = Inr ?v"
    using at(2,3) tab
    by (simp add: fill_expert_def get Let_def ix at(1) rows [OF c(4)] read_entry_def ui store_def val at(4) del: of_nat_add)
  have tk: "take (Suc l) ?run = ?pre @ [?a]" using l by (simp add: take_Suc_conv_app_nth)
  have "experts_filled W E src ?J st (take (Suc l) ?run) ?v"
    unfolding experts_filled_def tk
  proof (intro conjI allI impI)
    fix d assume d: "d < W"
    show "fs_assignments ?v ! d =
        of_nat (length (flat src (jobs_at d ?J)) + length (filter (\<lambda>a. to_dest a = d) (?pre @ [?a])))"
      using P' d a by (auto simp: nth_list_update)
    fix e assume e: "e < E"
    have "?x = d * E + e \<longleftrightarrow> ?d = d \<and> ?e = e" by (rule index_inject [OF a(2) e])
    then show "fs_experts ?v ! (d * E + e) = of_nat (expert_count e (flat src (jobs_at d ?J)) +
        length (filter (\<lambda>a. to_dest a = d \<and> to_expert a = e) (?pre @ [?a])))"
      using P' d e x by (auto simp: nth_list_update)
  next
    show "fs_memory ?v = filled (fs_memory st) ?F (expert_cells W src ?J (?pre @ [?a]))"
      unfolding expert_cells_snoc [OF a(1)] using P' by (simp add: filled_upd)
  qed (use P' in simp_all)
  then show ?thesis using run by blast
qed

lemma fill_experts:
  assumes ctx: "fill_ctx la W E src" and rt: "r < W" "t < length (ps_tokens (src r))"
    and rec: "record = ps_tokens (src r) ! t"
    and rows: "\<And>d. group_of (src r) t d \<noteq> [] \<Longrightarrow> token_rows d = Some (of_nat (row_at W src r t d))"
    and P: "experts_filled W E src (jobs_prior W src r t) st [] st"
  shows "\<exists>v. mfold (fill_expert la record (ps_assignments (src r)) token_rows) [0..<unat (tok_assignment_count record)] st = Inr v \<and>
    experts_filled W E src (jobs_prior W src r t) st (token_run (src r) t) v"
proof -
  let ?P = "\<lambda>l. experts_filled W E src (jobs_prior W src r t) st (take l (token_run (src r) t))"
  have "\<exists>v. mfold (fill_expert la record (ps_assignments (src r)) token_rows) [0..<length (token_run (src r) t)] st = Inr v \<and>
      ?P (length (token_run (src r) t)) v"
    by (rule mfold_upt_total [where P = ?P]) (use P fill_expert_step [OF ctx rt rec _ rows] in simp_all)
  then show ?thesis unfolding ctx_token(2) [OF ctx rt, folded rec] by simp
qed

section \<open>One token\<close>

definition token_cells :: "dispatch_launch \<Rightarrow> nat \<Rightarrow> (nat \<Rightarrow> ParsedSource) \<Rightarrow> nat \<Rightarrow> nat \<Rightarrow> address set" where
  "token_cells la W src r t = {AToken (tok_total src r + t)} \<union>
     (if dl_journal_assignment_capacity la \<noteq> 0
      then (\<lambda>l. AAssignment (asg_total src r + unat (tok_assignment_begin (ps_tokens (src r) ! t)) + l)) `
        {..<length (token_run (src r) t)} else {}) \<union>
     (if dl_row_map_capacity_entries la \<noteq> 0
      then (\<lambda>d. ARowMap ((tok_total src r + t) * W + d)) ` {..<W} else {}) \<union>
     (\<Union>d \<in> set (dests_below (src r) t W). dest_cells la W src r t d) \<union>
     expert_cells W src (jobs_prior W src r t) (token_run (src r) t)"

lemma clear_row_maps:
  assumes ctx: "fill_ctx la W E src" and rt: "r < W" "t < length (ps_tokens (src r))"
    and cap: "dl_row_map_capacity_entries la \<noteq> 0" and global: "unat global_token = tok_total src r + t"
  shows "mfold (clear_row_map la global_token) [0..<W] m = Inr (filled m (\<lambda>_. CRowMap kInvalidRow)
    ((\<lambda>d. ARowMap ((tok_total src r + t) * W + d)) ` {..<W}))"
proof (rule mfold_stores)
  show "in_table la (ARowMap ((tok_total src r + t) * W + d))" if "d < W" for d by (rule ctx_in_table(3) [OF ctx rt cap that])
qed (simp add: clear_row_map_def global ctx_facts(1) [OF ctx, symmetric])

text \<open>The entries of the row map that no row replaces stay invalid, and that is what the layout says of them.\<close>

lemma row_map_cleared:
  assumes ctx: "fill_ctx la W E src" and rt: "r < W" "t < length (ps_tokens (src r))"
  defines "M \<equiv> if dl_row_map_capacity_entries la \<noteq> 0 then (\<lambda>d. ARowMap ((tok_total src r + t) * W + d)) ` {..<W} else {}"
    and "D \<equiv> \<Union>d \<in> set (dests_below (src r) t W). dest_cells la W src r t d"
  shows "filled (filled m (\<lambda>_. CRowMap kInvalidRow) M) (final_cell W src) D = filled m (final_cell W src) (M \<union> D)"
proof (rule ext)
  fix a
  show "filled (filled m (\<lambda>_. CRowMap kInvalidRow) M) (final_cell W src) D a = filled m (final_cell W src) (M \<union> D) a"
  proof (cases "a \<in> M \<and> a \<notin> D")
    case True
    then obtain d where d: "d < W" "a = ARowMap ((tok_total src r + t) * W + d)"
      and cap: "dl_row_map_capacity_entries la \<noteq> 0" by (auto simp: M_def split: if_splits)
    have "group_of (src r) t d = []"
    proof (rule ccontr)
      assume "group_of (src r) t d \<noteq> []"
      then have "d \<in> set (dests_below (src r) t W)" using d(1) by (simp add: set_dests_below)
      then have "a \<in> D" using cap by (auto simp: D_def d(2) dest_cells_def)
      then show False using True by simp
    qed
    then have "final_cell W src a = CRowMap kInvalidRow"
      using final_row_map [where src = src, OF rt d(1)] by (simp add: d(2) row_entry_def)
    then show ?thesis using True by (simp add: override_on_def)
  qed (auto simp: override_on_def)
qed

lemma fill_token_step:
  assumes ctx: "fill_ctx la W E src" and rt: "r < W" "t < length (ps_tokens (src r))"
    and pl: "planned W E src c jh pl" and cur: "cursors W E src (jobs_prior W src r t) st"
  shows "\<exists>v. fill_token la pl (of_nat r) (ps_tokens (src r)) (ps_assignments (src r)) t st = Inr v \<and>
    cursors W E src (jobs_prior W src r (Suc t)) v \<and>
    fs_memory v = filled (fs_memory st) (final_cell W src) (token_cells la W src r t)"
proof -
  let ?F = "final_cell W src" and ?J = "jobs_prior W src r t" and ?run = "token_run (src r) t" and ?m = "fs_memory st"
  let ?token = "ps_tokens (src r) ! t" and ?g = "tok_total src r + t" and ?r = "of_nat r :: u32"
  let ?a0 = "asg_total src r + unat (tok_assignment_begin (ps_tokens (src r) ! t))"
  note facts = ctx_facts [OF ctx]
  have ur: "unat ?r = r" by (rule unat_small [OF rt(1)]) (use facts(3) in simp)
  obtain tp ap where prefix: "vget (pl_token_prefix pl) (unat ?r) = (Inr tp :: (u32, u32) res)" "unat tp = tok_total src r"
    "vget (pl_assignment_prefix pl) (unat ?r) = (Inr ap :: (u32, u32) res)" "unat ap = asg_total src r"
    using pl rt(1) by (simp add: planned_def Let_def ur)
  let ?global = "tp + of_nat t"
  have gt: "?g < 2 ^ 32" using tok_total_lt [where src = src, OF rt] facts(7,14) by simp
  have global: "unat ?global = ?g" by (subst unat_add_of_nat) (use gt prefix(2) in simp_all)
  have gg: "?global = of_nat ?g" by (simp add: prefix(2) [symmetric])
  have ab: "ap + tok_assignment_begin ?token = of_nat ?a0"
    by (simp add: prefix(4) [symmetric])
  let ?entry = "\<lambda>n. \<lparr> jt_route_key = RouteKey ?r (of_nat t), jt_token_id = tok_token_id ?token,
      jt_owner_rank = ?r, jt_owner_row = of_nat t, jt_contributors_begin = fs_contributor st,
      jt_contributors_count = n, jt_assignments_begin = ap + tok_assignment_begin ?token,
      jt_assignments_count = tok_assignment_count ?token, jt_accumulator_index = ?global,
      jt_flags = 0, jt_reserved = (0, 0) \<rparr>"
  have tab: "in_table la (AToken ?g)" by (rule ctx_in_table(1) [OF ctx rt])
  let ?m1 = "?m(AToken ?g \<mapsto> CToken (?entry 0))"
  let ?A = "if dl_journal_assignment_capacity la \<noteq> 0 then (\<lambda>l. AAssignment (?a0 + l)) ` {..<length ?run} else {}"
  let ?M = "if dl_row_map_capacity_entries la \<noteq> 0 then (\<lambda>d. ARowMap (?g * W + d)) ` {..<W} else {}"
  let ?D = "\<Union>d \<in> set (dests_below (src r) t W). dest_cells la W src r t d"
  let ?m2 = "filled ?m1 ?F ?A" and ?m3 = "filled (filled ?m1 ?F ?A) (\<lambda>_. CRowMap kInvalidRow) ?M"
  have copy: "(if dl_journal_assignment_capacity la \<noteq> 0
      then mfold (copy_assignment la ?token (ps_assignments (src r)) (ap + tok_assignment_begin ?token))
        [0..<unat (tok_assignment_count ?token)] ?m1 else Inr ?m1) = Inr ?m2"
    using copy_assignments [OF ctx rt _ refl prefix(4), of ?m1] by simp
  have clear: "(if dl_row_map_capacity_entries la \<noteq> 0 then mfold (clear_row_map la ?global) [0..<W] ?m2 else Inr ?m2) = Inr ?m3"
    using clear_row_maps [OF ctx rt _ global, of ?m2] by simp
  obtain bits where bits: "mfold (count_destination ?token (ps_assignments (src r))) [0..<unat (tok_assignment_count ?token)]
      ([0, 0, 0, 0], Map.empty) = Inr (bits, dest_counts ?run)"
    "length bits = 4" "bit_set bits = to_dest ` set ?run" using count_destinations [OF ctx rt refl] by blast
  let ?st = "st\<lparr>fs_memory := ?m3\<rparr>"
  have "cursors W E src ?J ?st" using cur by (simp add: cursors_def)
  from fill_destinations [OF ctx rt refl bits(2,3) this global] obtain n token_rows st1 where
    dests: "mfold (\<lambda>word. mfold (fill_destination la ?r (of_nat t) ?global ?token bits (dest_counts ?run) word) [0..<32])
        [0..<4] (0, Map.empty, ?st) = Inr (n, token_rows, st1)"
    and filled: "dests_filled la W src r t ?st W (n, token_rows, st1)" by auto
  note filled' = filled [unfolded dests_filled_def prod.case Let_def]
  have "experts_filled W E src ?J st1 [] st1"
    using cur filled' by (simp add: experts_filled_def cursors_def expert_cells_def)
  moreover have "token_rows d = Some (of_nat (row_at W src r t d))" if "group_of (src r) t d \<noteq> []" for d
    using filled' that group_range [OF ctx rt that] by (simp add: set_dests_below)
  ultimately obtain st2 where experts: "mfold (fill_expert la ?token (ps_assignments (src r)) token_rows)
        [0..<unat (tok_assignment_count ?token)] st1 = Inr st2"
    and efilled: "experts_filled W E src ?J st1 ?run st2" using fill_experts [OF ctx rt refl] by blast
  note efilled' = efilled [unfolded experts_filled_def]
  let ?v = "st2\<lparr>fs_memory := (fs_memory st2)(AToken ?g \<mapsto> CToken (?entry n))\<rparr>"
  have key: "DeviceRouteKey ?r (of_nat t) = RouteKey ?r (of_nat t)" by (simp add: DeviceRouteKey_eq)
  have run: "fill_token la pl ?r (ps_tokens (src r)) (ps_assignments (src r)) t st = Inr ?v"
    unfolding fill_token_def Let_def prefix(1,3) rbind_Inr JournalTokenEntry.simps
    using rt(2) tab by (simp add: store_def global key copy clear bits(1) dests experts facts(1) [symmetric] cong: if_cong)
  have at: "jobs_at d (jobs_prior W src r (Suc t)) = jobs_at d ?J @ (if group_of (src r) t d \<noteq> [] then [(r, t, d)] else [])"
    if "d < W" for d
    using jobs_at_token [OF that] by (simp add: jobs_prior_Suc jobs_at_append group_of_empty)
  have group: "length (filter (\<lambda>a. to_dest a = d) ?run) = length (group_of (src r) t d)" for d
    by (simp add: group_of_def)
  have "cursors W E src (jobs_prior W src r (Suc t)) ?v"
    unfolding cursors_def
  proof (intro conjI allI impI)
    show "fs_contributor ?v = of_nat (length (jobs_prior W src r (Suc t)))"
      using filled' efilled' by (simp add: jobs_prior_Suc token_jobs_dests)
    fix d assume d: "d < W"
    show "fs_rows ?v ! d = of_nat (length (jobs_at d (jobs_prior W src r (Suc t))))"
      using filled' efilled' d by (simp add: at set_dests_below)
    show "fs_assignments ?v ! d = of_nat (length (flat src (jobs_at d (jobs_prior W src r (Suc t)))))"
      using efilled' d by (simp add: at group job_group_def)
    fix e assume e: "e < E"
    have "length (filter (\<lambda>a. to_dest a = d \<and> to_expert a = e) ?run) =
        length (filter (\<lambda>a. to_expert a = e) (group_of (src r) t d))"
      by (simp add: group_of_def conj_commute)
    then show "fs_experts ?v ! (d * E + e) = of_nat (expert_count e (flat src (jobs_at d (jobs_prior W src r (Suc t)))))"
      using efilled' d e by (simp add: at job_group_def expert_count_append expert_count_Pair)
  qed (use filled' efilled' in simp_all)
  moreover have "fs_memory ?v = filled ?m ?F (token_cells la W src r t)"
  proof -
    have entry: "CToken (?entry n) = ?F (AToken ?g)"
      using final_token [where src = src and W = W and s = "launch_session la" and r = r and t = t] facts(5) rt cur filled' by (simp add: cursors_def gg ab token_jobs_dests)
    have "filled ?m3 ?F ?D = filled ?m1 ?F (?A \<union> ?M \<union> ?D)"
      unfolding row_map_cleared [OF ctx rt] by (simp only: filled_filled Un_assoc)
    then have "fs_memory st2 = filled ?m1 ?F (?A \<union> ?M \<union> ?D \<union> expert_cells W src ?J ?run)"
      using filled' efilled' by simp
    then show ?thesis
      unfolding token_cells_def entry by (intro ext) (simp add: override_on_def entry)
  qed
  ultimately show ?thesis using run by blast
qed

section \<open>Chunks\<close>

lemma chunk_jobs_append: "a \<le> b \<Longrightarrow> b \<le> e \<Longrightarrow> chunk_jobs W src r a b @ chunk_jobs W src r b e = chunk_jobs W src r a e"
  using upt_add_eq_append [of a b "e - b"] by (simp add: chunk_jobs_def flip: concat_append map_append)

lemma jobs_before_prior:
  assumes "0 < c"
  shows "jobs_before W src c q = jobs_prior W src (q div c) (lane_begin (src (q div c)) c (q mod c))"
proof -
  let ?s = "q div c" and ?b = "\<lambda>l. lane_begin (src (q div c)) c l"
  have "concat (map (\<lambda>l. chunk W src c (?s * c + l)) [0..<l]) = chunk_jobs W src ?s 0 (?b l)" if "l \<le> c" for l
    using that
  proof (induction l)
    case (Suc l)
    have "chunk W src c (?s * c + l) = chunk_jobs W src ?s (?b l) (?b (Suc l))" using Suc.prems by (simp add: chunk_def)
    moreover have "?b l \<le> ?b (Suc l)" by (simp add: lane_begin_def lane_bound_mono)
    ultimately show ?case using Suc by (simp add: chunk_jobs_append)
  qed (simp add: lane_begin_def lane_bound_def)
  then have "jobs_before W src c (?s * c + q mod c) = layout_jobs W src [0..<?s] @ chunk_jobs W src ?s 0 (?b (q mod c))"
    unfolding jobs_before_add jobs_before_source [OF assms] using mod_less_divisor [OF assms, of q] by simp
  then show ?thesis unfolding div_mult_mod_eq jobs_prior_def .
qed

definition chunk_cells :: "dispatch_launch \<Rightarrow> nat \<Rightarrow> (nat \<Rightarrow> ParsedSource) \<Rightarrow> nat \<Rightarrow> nat \<Rightarrow> address set" where
  "chunk_cells la W src c q =
     (let r = q div c; l = q mod c
      in \<Union>t \<in> {lane_begin (src r) c l..<lane_begin (src r) c (Suc l)}. token_cells la W src r t)"

lemma fill_tokens:
  assumes ctx: "fill_ctx la W E src" and r: "r < W" and pl: "planned W E src c jh pl"
    and be: "b \<le> e" "e \<le> length (ps_tokens (src r))" and cur: "cursors W E src (jobs_prior W src r b) st"
  shows "\<exists>v. mfold (fill_token la pl (of_nat r) (ps_tokens (src r)) (ps_assignments (src r))) [b..<e] st = Inr v \<and>
    cursors W E src (jobs_prior W src r e) v \<and>
    fs_memory v = filled (fs_memory st) (final_cell W src) (\<Union>t \<in> {b..<e}. token_cells la W src r t)"
  using be
proof (induction e rule: dec_induct)
  case base
  then show ?case using cur by simp
next
  case (step e)
  then obtain v where v: "mfold (fill_token la pl (of_nat r) (ps_tokens (src r)) (ps_assignments (src r))) [b..<e] st = Inr v"
    "cursors W E src (jobs_prior W src r e) v"
    "fs_memory v = filled (fs_memory st) (final_cell W src) (\<Union>t \<in> {b..<e}. token_cells la W src r t)" by auto
  have e: "e < length (ps_tokens (src r))" using step.prems by simp
  from fill_token_step [OF ctx r e pl v(2)] obtain w where
    "fill_token la pl (of_nat r) (ps_tokens (src r)) (ps_assignments (src r)) e v = Inr w"
    "cursors W E src (jobs_prior W src r (Suc e)) w"
    "fs_memory w = filled (fs_memory v) (final_cell W src) (token_cells la W src r e)" by blast
  then show ?case
    using v step.hyps by (simp add: mfold_append atLeastLessThanSuc Un_commute)
qed

lemma fill_chunk_step:
  assumes ctx: "fill_ctx la W E src" and pl: "planned W E src c jh pl" and c: "c = unat cohort"
    and q: "q < W * c"
  shows "fill_chunk la cohort src pl q m = Inr (filled m (final_cell W src) (chunk_cells la W src c q))"
proof -
  have c0: "0 < c" using q by (cases c) simp_all
  have r: "q div c < W" using q c0 by (simp add: less_mult_imp_div_less)
  let ?r = "q div c" and ?l = "q mod c" and ?block = "pl_blocks pl ! q"
  have lane: "unat (of_nat ?l :: u32) = ?l" "(of_nat ?l :: u32) < cohort"
    using c0 c unsigned_less [of cohort, where ?'a = nat] mod_less_divisor [OF c0, of q]
    by (simp_all add: word_less_nat_alt unat_of_nat_u32)
  have blocks: "length (pl_blocks pl) = W * c" "counts_of W E src (jobs_before W src c q) ?block"
    using pl q by (simp_all add: planned_def Let_def blocks_at_def)
  let ?st = "\<lparr> fs_contributor = pc_contributors ?block, fs_rows = pc_rows ?block,
      fs_assignments = pc_assignments ?block, fs_experts = pc_experts ?block, fs_memory = m \<rparr>"
  have word: "w = of_nat n" if "unat w = n" for w :: u32 and n using that by auto
  have cur: "cursors W E src (jobs_prior W src ?r (lane_begin (src ?r) c ?l)) ?st"
    using blocks(2) unfolding jobs_before_prior [OF c0] by (simp add: cursors_def counts_of_def counts_sized_def word)
  have "lane_begin (src ?r) c ?l \<le> lane_begin (src ?r) c (Suc ?l)" "lane_begin (src ?r) c (Suc ?l) \<le> length (ps_tokens (src ?r))"
    by (simp_all add: lane_begin_def lane_bound_mono)
  from fill_tokens [OF ctx r pl this cur] obtain v where
    "mfold (fill_token la pl (of_nat ?r) (ps_tokens (src ?r)) (ps_assignments (src ?r)))
      [lane_begin (src ?r) c ?l..<lane_begin (src ?r) c (Suc ?l)] ?st = Inr v"
    "fs_memory v = filled m (final_cell W src) (chunk_cells la W src c q)"
    by (auto simp: chunk_cells_def Let_def)
  then show ?thesis
    using blocks(1) q lane_tokens_eq [OF ctx_facts(6) [OF ctx r] lane(2)]
    by (simp add: fill_chunk_def Let_def c [symmetric] lane(1))
qed

lemma fill_chunks:
  assumes "fill_ctx la W E src" and "planned W E src c jh pl" and "c = unat cohort" and "set qs \<subseteq> {0..<W * c}"
  shows "mfold (fill_chunk la cohort src pl) qs m = Inr (filled m (final_cell W src) (\<Union>q \<in> set qs. chunk_cells la W src c q))"
  using assms(4)
proof (induction qs arbitrary: m)
  case (Cons q qs)
  then show ?case using fill_chunk_step [OF assms(1-3), of q m] by simp
qed simp

text \<open>All chunks together own the cells of all tokens.\<close>

lemma all_chunks:
  assumes c: "0 < c"
  shows "(\<Union>q \<in> {0..<W * c}. chunk_cells la W src c q) =
    (\<Union>r \<in> {0..<W}. \<Union>t \<in> {0..<length (ps_tokens (src r))}. token_cells la W src r t)"
proof -
  have lanes: "(\<Union>l < c. {lane_begin (src r) c l..<lane_begin (src r) c (Suc l)}) = {0..<length (ps_tokens (src r))}" for r
    using arg_cong [OF lanes_cover [OF c, of "length (ps_tokens (src r))"], of set]
    by (simp add: lane_begin_def lessThan_atLeast0)
  have chunks: "{0..<W * c} = (\<Union>r < W. (\<lambda>l. r * c + l) ` {..<c})"
  proof (intro set_eqI iffI)
    fix q assume "q \<in> {0..<W * c}"
    then have "q div c < W" "q mod c < c" "q = q div c * c + q mod c" using c by (auto simp: less_mult_imp_div_less)
    then show "q \<in> (\<Union>r < W. (\<lambda>l. r * c + l) ` {..<c})" by blast
  qed (auto simp: index_bound)
  have cells: "chunk_cells la W src c (r * c + l) =
      (\<Union>t \<in> {lane_begin (src r) c l..<lane_begin (src r) c (Suc l)}. token_cells la W src r t)" if "l < c" for r l
    using that by (simp add: chunk_cells_def Let_def)
  have "(\<Union>q \<in> {0..<W * c}. chunk_cells la W src c q) = (\<Union>r < W. \<Union>l < c. chunk_cells la W src c (r * c + l))"
    unfolding chunks by blast
  also have "\<dots> = (\<Union>r < W. \<Union>t \<in> {0..<length (ps_tokens (src r))}. token_cells la W src r t)"
  proof -
    have "(\<Union>l < c. chunk_cells la W src c (r * c + l)) =
        (\<Union>t \<in> {0..<length (ps_tokens (src r))}. token_cells la W src r t)" for r
      unfolding lanes [symmetric] by (rule set_eqI) (auto simp: cells)
    then show ?thesis by (simp only:)
  qed
  finally show ?thesis by (simp only: lessThan_atLeast0)
qed

section \<open>The tables are complete\<close>

lemma locate:
  fixes i :: nat
  assumes "i < sum_list (map w ks)"
  shows "\<exists>pre k post. ks = pre @ k # post \<and> sum_list (map w pre) \<le> i \<and> i < sum_list (map w pre) + w k"
  using assms
proof (induction ks rule: rev_induct)
  case (snoc x xs)
  show ?case
  proof (cases "i < sum_list (map w xs)")
    case True
    then obtain pre k post where "xs = pre @ k # post" "sum_list (map w pre) \<le> i" "i < sum_list (map w pre) + w k"
      using snoc.IH by blast
    then show ?thesis by (intro exI [of _ pre] exI [of _ k] exI [of _ "post @ [x]"]) simp
  next
    case False
    then show ?thesis using snoc.prems by (intro exI [of _ xs] exI [of _ x] exI [of _ "[]"]) simp
  qed
qed simp

lemma locate_key:
  fixes i :: nat
  assumes "i < sum_list (map w (journal_keys src [0..<W]))"
  obtains r t where "r < W" "t < length (ps_tokens (src r))" "sum_list (map w (keys_prior src r t)) \<le> i"
    "i < sum_list (map w (keys_prior src r t)) + w (r, t)"
proof -
  let ?ks = "journal_keys src [0..<W]"
  obtain pre k post where ks: "?ks = pre @ k # post" and i: "sum_list (map w pre) \<le> i" "i < sum_list (map w pre) + w k"
    using locate [OF assms] by blast
  have "k \<in> set ?ks" by (simp add: ks)
  then obtain r t where k: "k = (r, t)" and rt: "r < W" "t < length (ps_tokens (src r))" by (auto simp: journal_keys_def)
  obtain rest where "?ks = keys_prior src r t @ (r, t) # rest" using keys_split [where src = src, OF rt] by blast
  moreover have "distinct ?ks" by (rule distinct_journal_keys) simp
  moreover have "takeWhile (\<lambda>x. x \<noteq> y) (xs @ y # ys) = xs" if "y \<notin> set xs" for xs ys and y :: key
    using that by (induction xs) auto
  ultimately have "pre = keys_prior src r t" unfolding k ks by (metis distinct_append disjoint_insert(1) list.simps(15) k ks)
  then show thesis using that [OF rt] i by (simp add: k)
qed

lemma prior_concat: "jobs_prior W src r t = concat (map (\<lambda>k. token_jobs W src (fst k) (snd k)) (keys_prior src r t))"
  by (simp add: jobs_prior_def keys_prior_def journal_keys_def layout_jobs_def source_jobs_chunk [abs_def] chunk_jobs_def
    concat_map_concat comp_def)

lemma layout_concat: "layout_jobs W src [0..<n] = concat (map (\<lambda>k. token_jobs W src (fst k) (snd k)) (journal_keys src [0..<n]))"
  by (simp add: journal_keys_def layout_jobs_def source_jobs_chunk [abs_def] chunk_jobs_def concat_map_concat comp_def)

lemma jobs_at_concat: "jobs_at d (concat (map f xs)) = concat (map (\<lambda>x. jobs_at d (f x)) xs)"
  by (induction xs) (simp_all add: jobs_at_append)

lemma flat_concat: "length (flat src (concat (map f xs))) = sum_list (map (\<lambda>x. length (flat src (f x))) xs)"
  by (induction xs) (simp_all add: length_flat_append)

lemma nth_destination: "x < length (dests_below p t k) \<Longrightarrow> \<exists>d \<in> set (dests_below p t k). length (dests_below p t d) = x"
proof (induction k)
  case (Suc k)
  then show ?case by (cases "x < length (dests_below p t k)") (auto simp: dests_below_Suc split: if_splits)
qed simp

definition layout_cells :: "dispatch_launch \<Rightarrow> nat \<Rightarrow> (nat \<Rightarrow> ParsedSource) \<Rightarrow> address set" where
  "layout_cells la W src = (\<Union>r \<in> {0..<W}. \<Union>t \<in> {0..<length (ps_tokens (src r))}. token_cells la W src r t)"

lemma in_layout_cells: "r < W \<Longrightarrow> t < length (ps_tokens (src r)) \<Longrightarrow> a \<in> token_cells la W src r t \<Longrightarrow> a \<in> layout_cells la W src"
  unfolding layout_cells_def by (rule UN_I [of r], simp, rule UN_I [of t]) simp_all

lemma token_covered: "i < tok_total src W \<Longrightarrow> AToken i \<in> layout_cells la W src"
proof -
  assume "i < tok_total src W"
  then have "i < sum_list (map (\<lambda>_. 1) (journal_keys src [0..<W]))"
    by (simp add: sum_list_triv journal_keys_def length_concat tok_total_def comp_def)
  then obtain r t where rt: "r < W" "t < length (ps_tokens (src r))" and i: "i = tok_total src r + t"
    by (rule locate_key) (auto simp: sum_list_triv length_keys_prior)
  then show ?thesis by (intro in_layout_cells [where src = src, OF rt]) (simp add: token_cells_def)
qed

lemma row_map_covered:
  assumes "dl_row_map_capacity_entries la \<noteq> 0" and "i < tok_total src W * W"
  shows "ARowMap i \<in> layout_cells la W src"
proof -
  have W: "0 < W" and "i div W < tok_total src W" using assms(2) by (cases W; simp add: less_mult_imp_div_less)+
  then have "i div W < sum_list (map (\<lambda>_. 1) (journal_keys src [0..<W]))"
    by (simp add: sum_list_triv journal_keys_def length_concat tok_total_def comp_def)
  then obtain r t where rt: "r < W" "t < length (ps_tokens (src r))" and i: "i div W = tok_total src r + t"
    by (rule locate_key) (auto simp: sum_list_triv length_keys_prior)
  have "i = (tok_total src r + t) * W + i mod W" unfolding i [symmetric] by simp
  then have "ARowMap i \<in> token_cells la W src r t" using assms(1) W by (auto simp: token_cells_def)
  then show ?thesis by (rule in_layout_cells [where src = src, OF rt])
qed

lemma assignment_covered:
  assumes "\<And>r. r < W \<Longrightarrow> csr_wf s (ps_assignments (src r)) 0 0 (ps_tokens (src r))"
    and "dl_journal_assignment_capacity la \<noteq> 0" and "i < length (concat (map (key_run src) (journal_keys src [0..<W])))"
  shows "AAssignment i \<in> layout_cells la W src"
proof -
  have "i < sum_list (map (\<lambda>k. length (key_run src k)) (journal_keys src [0..<W]))"
    using assms(3) by (simp add: length_concat comp_def)
  then obtain r t where rt: "r < W" "t < length (ps_tokens (src r))"
    and i: "sum_list (map (\<lambda>k. length (key_run src k)) (keys_prior src r t)) \<le> i"
      "i < sum_list (map (\<lambda>k. length (key_run src k)) (keys_prior src r t)) + length (key_run src (r, t))"
    by (rule locate_key)
  have "sum_list (map (\<lambda>k. length (key_run src k)) (keys_prior src r t)) =
      asg_total src r + unat (tok_assignment_begin (ps_tokens (src r) ! t))"
    using length_prior_runs [of W s src r t] assms(1) rt by (simp add: length_concat comp_def)
  then obtain l where "l < length (token_run (src r) t)" "i = asg_total src r + unat (tok_assignment_begin (ps_tokens (src r) ! t)) + l"
    using i le_Suc_ex [OF i(1)] by (auto simp: key_run_def)
  then have "AAssignment i \<in> token_cells la W src r t" using assms(2) by (auto simp: token_cells_def)
  then show ?thesis by (rule in_layout_cells [where src = src, OF rt])
qed

lemma contributor_covered: "i < length (layout_jobs W src [0..<W]) \<Longrightarrow> AContributor i \<in> layout_cells la W src"
proof -
  assume "i < length (layout_jobs W src [0..<W])"
  then have "i < sum_list (map (\<lambda>k. length (token_jobs W src (fst k) (snd k))) (journal_keys src [0..<W]))"
    by (simp add: layout_concat length_concat comp_def)
  then obtain r t where rt: "r < W" "t < length (ps_tokens (src r))"
    and i: "length (jobs_prior W src r t) \<le> i" "i < length (jobs_prior W src r t) + length (token_jobs W src r t)"
    by (rule locate_key) (auto simp: prior_concat length_concat comp_def)
  then have "i - length (jobs_prior W src r t) < length (dests_below (src r) t W)" by (auto simp: token_jobs_dests)
  then obtain d where "d \<in> set (dests_below (src r) t W)" "length (dests_below (src r) t d) = i - length (jobs_prior W src r t)"
    using nth_destination by blast
  then have "AContributor i \<in> token_cells la W src r t" using i(1) by (force simp: token_cells_def dest_cells_def)
  then show ?thesis by (rule in_layout_cells [where src = src, OF rt])
qed

lemma row_covered:
  assumes "d < W" and "i < length (jobs_at d (layout_jobs W src [0..<W]))"
  shows "ARow d i \<in> layout_cells la W src"
proof -
  have "i < sum_list (map (\<lambda>k. length (jobs_at d (token_jobs W src (fst k) (snd k)))) (journal_keys src [0..<W]))"
    using assms(2) by (simp add: layout_concat jobs_at_concat length_concat comp_def)
  then obtain r t where rt: "r < W" "t < length (ps_tokens (src r))"
    and i: "row_at W src r t d \<le> i" "i < row_at W src r t d + length (jobs_at d (token_jobs W src r t))"
    by (rule locate_key) (auto simp: prior_concat jobs_at_concat length_concat comp_def)
  then have "d \<in> set (dests_below (src r) t W)" "i = row_at W src r t d"
    using assms(1) by (auto simp: set_dests_below jobs_at_token group_of_empty split: if_splits)
  then have "ARow d i \<in> token_cells la W src r t" by (auto simp: token_cells_def dest_cells_def)
  then show ?thesis by (rule in_layout_cells [where src = src, OF rt])
qed

lemma expert_covered:
  assumes d: "d < W" and "i < length (flat src (jobs_at d (layout_jobs W src [0..<W])))"
  shows "AExpert d i \<in> layout_cells la W src"
proof -
  have group: "length (flat src (jobs_at d (token_jobs W src r t))) = length (group_of (src r) t d)" for r t
    unfolding jobs_at_token [OF d] group_of_empty [symmetric] by (auto simp: length_flat job_group_def)
  have "i < sum_list (map (\<lambda>k. length (group_of (src (fst k)) (snd k) d)) (journal_keys src [0..<W]))"
    using assms(2) by (simp add: layout_concat jobs_at_concat flat_concat group)
  then obtain r t where rt: "r < W" "t < length (ps_tokens (src r))"
    and i: "length (flat src (jobs_at d (jobs_prior W src r t))) \<le> i"
      "i < length (flat src (jobs_at d (jobs_prior W src r t))) + length (group_of (src r) t d)"
    by (rule locate_key) (auto simp: prior_concat jobs_at_concat flat_concat group)
  then obtain l where l: "i = length (flat src (jobs_at d (jobs_prior W src r t))) + l" "l < length (group_of (src r) t d)"
    using le_Suc_ex [OF i(1)] by auto
  have "AExpert d i \<in> expert_cells W src (jobs_prior W src r t) (token_run (src r) t)"
    unfolding expert_cells_def using l d by (auto simp: group_of_def)
  then show ?thesis by (intro in_layout_cells [where src = src, OF rt]) (simp add: token_cells_def)
qed

section \<open>Every chunk has one writer\<close>

lemma launch_facts:
  assumes "dispatch_launch_valid blocks la = Some r"
  shows "2 \<le> unat (dl_worker_count la)" "unat (dl_worker_count la) \<le> 128"
    "dl_worker_count la \<le> kPullDispatchMaxWorkers" "caps_small la" "parser_cohort blocks la \<noteq> 0"
  using assms
  by (auto simp: dispatch_launch_valid_def Let_def caps_small_def word_le_nat_alt abi_consts split: if_splits)

lemma cohort_blocks:
  assumes "dl_worker_count la \<noteq> 0"
  shows "unat (parser_cohort blocks la * dl_worker_count la) =
    unat (dl_worker_count la) * unat (parser_cohort blocks la)"
proof -
  have "unat blocks div unat (dl_worker_count la) * unat (dl_worker_count la) \<le> unat blocks" by simp
  then have "unat blocks div unat (dl_worker_count la) * unat (dl_worker_count la) < 2 ^ 32"
    by (rule le_less_trans) (use unsigned_less [of blocks, where ?'a = nat] in simp)
  then show ?thesis
    using assms by (simp add: parser_cohort_def unat_mult_lem [THEN iffD1] unat_div mult.commute)
qed

lemma active_blocks:
  assumes "dispatch_launch_valid blocks la = Some x"
  shows "unat (active_parser_blocks blocks la) = unat (dl_worker_count la) * unat (parser_cohort blocks la)"
    and "unat (active_parser_blocks blocks la) \<le> unat blocks"
proof -
  have W: "dl_worker_count la \<noteq> 0" using launch_facts(1) [OF assms] by auto
  show "unat (active_parser_blocks blocks la) = unat (dl_worker_count la) * unat (parser_cohort blocks la)"
    using cohort_blocks [OF W] by (simp add: active_parser_blocks_def)
  then show "unat (active_parser_blocks blocks la) \<le> unat blocks"
    using W by (simp add: parser_cohort_def unat_div)
qed

lemma producer_numbers:
  assumes launch: "dispatch_launch_valid blocks la = Some (scratch, channels, row_bytes)"
  defines "P \<equiv> uniform_producers blocks la channels" and "B \<equiv> ucast channels :: u32"
    and "W \<equiv> unat (dl_worker_count la)"
  shows "unat (B + P * dl_worker_count la) = unat B + unat P * W" and "unat B + unat P * W < unat blocks"
proof -
  let ?S = "active_parser_blocks blocks la - dl_worker_count la"
  have v: "2 \<le> W" "dl_worker_count la < active_parser_blocks blocks la" "channels \<le> ucast ?S"
    using launch by (auto simp: dispatch_launch_valid_def Let_def require_def W_def word_le_nat_alt
      bind_eq_Some_conv split: if_splits)
  note active = active_blocks(2) [OF launch]
  have S: "unat ?S = unat (active_parser_blocks blocks la) - W"
    using v(2) by (subst unat_sub) (simp_all add: W_def)
  have "unat channels \<le> unat ?S" using v(3) by (simp add: word_le_nat_alt unat_ucast_u64)
  then have B: "unat B = unat channels" "B \<le> ?S"
    using unsigned_less [of ?S, where ?'a = nat] by (simp_all add: B_def unat_ucast_u32 word_le_nat_alt)
  have "P \<le> (?S - B) div dl_worker_count la"
    using B(2) v(1) by (auto simp: P_def uniform_producers_def Let_def B_def [symmetric] W_def)
  then have "unat P \<le> unat (?S - B) div W" by (simp add: word_le_nat_alt unat_div W_def)
  then have "unat P * W \<le> unat (?S - B)"
    using le_trans [OF mult_le_mono1 div_times_less_eq_dividend] by blast
  moreover have "unat (?S - B) = unat ?S - unat B" using B(2) by (subst unat_sub) simp_all
  ultimately have le: "unat B + unat P * W \<le> unat ?S" using B(2) by (simp add: word_le_nat_alt)
  have "unat (P * dl_worker_count la) = unat P * W"
    using le unsigned_less [of ?S, where ?'a = nat] by (subst unat_mult_lem [THEN iffD1]) (simp_all add: W_def)
  then show "unat (B + P * dl_worker_count la) = unat B + unat P * W"
    using le unsigned_less [of ?S, where ?'a = nat] by (subst unat_add_lem [THEN iffD1]) simp_all
  show "unat B + unat P * W < unat blocks"
    using le S active v by (simp add: word_less_nat_alt W_def)
qed

lemma producer_of_chunk:
  assumes launch: "dispatch_launch_valid blocks la = Some (scratch, channels, row_bytes)"
    and par: "parallel_phase2 blocks la channels jh headers"
    and q: "q < unat (active_parser_blocks blocks la)"
  shows "q \<in> set (phase2_chunks blocks la channels jh headers block) \<longleftrightarrow>
    unat block = unat (ucast channels :: u32) + (q div unat (parser_cohort blocks la)) *
      unat (uniform_producers blocks la channels) +
      q mod unat (parser_cohort blocks la) mod unat (uniform_producers blocks la channels)"
proof -
  let ?P = "uniform_producers blocks la channels" and ?B = "ucast channels :: u32" and ?c = "unat (parser_cohort blocks la)"
  let ?W = "unat (dl_worker_count la)"
  have P0: "0 < unat ?P" using par by (simp add: parallel_phase2_def unat_gt_0)
  note num = producer_numbers [OF launch]
  have A: "unat (active_parser_blocks blocks la) = ?W * ?c"
    by (rule active_blocks(1) [OF launch])
  have c: "0 < ?c" using launch_facts(5) [OF launch] by (simp add: unat_gt_0)
  have s: "q div ?c < ?W" using q A c by (simp add: less_mult_imp_div_less)
  let ?k = "q div ?c * unat ?P + q mod ?c mod unat ?P"
  have m: "q mod ?c mod unat ?P < unat ?P" using P0 by simp
  have k: "?k < unat ?P * ?W" using index_bound [OF s m] by (simp add: mult.commute)
  have mem: "q \<in> set (phase2_chunks blocks la channels jh headers block) \<longleftrightarrow>
      ?B \<le> block \<and> block < ?B + ?P * dl_worker_count la \<and> q div ?c = unat ((block - ?B) div ?P) \<and>
      q mod ?c mod unat ?P = unat ((block - ?B) mod ?P)"
    using par q by (auto simp: phase2_chunks_def Let_def)
  have sub: "unat (block - ?B) = unat block - unat ?B" if "?B \<le> block" using that by (subst unat_sub) simp_all
  show ?thesis
  proof
    assume "q \<in> set (phase2_chunks blocks la channels jh headers block)"
    then have h: "?B \<le> block" "q div ?c = unat (block - ?B) div unat ?P" "q mod ?c mod unat ?P = unat (block - ?B) mod unat ?P"
      unfolding mem by (simp_all add: unat_div unat_mod)
    have "unat (block - ?B) = ?k" unfolding h(2,3) by simp
    then show "unat block = unat ?B + q div ?c * unat ?P + q mod ?c mod unat ?P"
      using sub [OF h(1)] h(1) by (simp add: word_le_nat_alt)
  next
    assume b: "unat block = unat ?B + q div ?c * unat ?P + q mod ?c mod unat ?P"
    then have le: "?B \<le> block" by (simp add: word_le_nat_alt)
    have "unat (block - ?B) = ?k" using sub [OF le] b by simp
    then have "unat (block - ?B) div unat ?P = q div ?c" "unat (block - ?B) mod unat ?P = q mod ?c mod unat ?P"
      using m P0 by simp_all
    moreover have "block < ?B + ?P * dl_worker_count la" using num(1) b k by (simp add: word_less_nat_alt)
    ultimately show "q \<in> set (phase2_chunks blocks la channels jh headers block)"
      unfolding mem using le by (simp add: unat_div unat_mod)
  qed
qed

lemma phase2_covers:
  assumes launch: "dispatch_launch_valid blocks la = Some (scratch, channels, row_bytes)"
  shows "(\<Union>block \<in> {block. block < blocks}. set (phase2_chunks blocks la channels jh headers block)) =
    {0..<unat (active_parser_blocks blocks la)}" (is "?U = ?A")
proof
  show "?U \<subseteq> ?A" by (auto simp: phase2_chunks_def Let_def split: if_splits)
  show "?A \<subseteq> ?U"
  proof
    fix q assume q: "q \<in> ?A"
    show "q \<in> ?U"
    proof (cases "parallel_phase2 blocks la channels jh headers")
      case True
      let ?P = "uniform_producers blocks la channels" and ?c = "unat (parser_cohort blocks la)"
      let ?n = "unat (ucast channels :: u32) + q div ?c * unat ?P + q mod ?c mod unat ?P"
      have A: "unat (active_parser_blocks blocks la) = unat (dl_worker_count la) * ?c"
        by (rule active_blocks(1) [OF launch])
      have "0 < ?c" "0 < unat ?P"
        using launch_facts(5) [OF launch] True by (simp_all add: unat_gt_0 parallel_phase2_def)
      then have "q div ?c < unat (dl_worker_count la)" "q mod ?c mod unat ?P < unat ?P"
        using q A by (simp_all add: less_mult_imp_div_less)
      then have "?n < unat blocks"
        using index_bound [of "q div ?c" "unat (dl_worker_count la)" "q mod ?c mod unat ?P" "unat ?P"]
          producer_numbers(2) [OF launch] by (simp add: mult.commute)
      then have "unat (of_nat ?n :: u32) = ?n" 
        using unsigned_less [of blocks, where ?'a = nat] by (intro unat_small) simp_all
      then have "(of_nat ?n :: u32) < blocks" "q \<in> set (phase2_chunks blocks la channels jh headers (of_nat ?n))"
        using \<open>?n < unat blocks\<close> producer_of_chunk [OF launch True, of q "of_nat ?n"] q by (simp_all add: word_less_nat_alt)
      then show ?thesis by blast
    next
      case False
      have "0 < blocks"
        using producer_numbers(2) [OF launch] by (simp add: word_less_nat_alt)
      moreover have "q \<in> set (phase2_chunks blocks la channels jh headers 0)"
        using q False by (simp add: phase2_chunks_def Let_def)
      ultimately show ?thesis by blast
    qed
  qed
qed

lemma phase2_one_writer:
  assumes launch: "dispatch_launch_valid blocks la = Some (scratch, channels, row_bytes)" and "b \<noteq> b'"
  shows "set (phase2_chunks blocks la channels jh headers b) \<inter> set (phase2_chunks blocks la channels jh headers b') = {}"
proof (cases "parallel_phase2 blocks la channels jh headers")
  case True
  show ?thesis
  proof (rule equals0I)
    fix q assume "q \<in> set (phase2_chunks blocks la channels jh headers b) \<inter> set (phase2_chunks blocks la channels jh headers b')"
    moreover from this have "q < unat (active_parser_blocks blocks la)"
      by (auto simp: phase2_chunks_def Let_def split: if_splits)
    ultimately have "unat b = unat b'" using producer_of_chunk [OF launch True] by (metis IntE)
    then show False using assms(2) by (simp add: word_unat_eq_iff)
  qed
qed (use assms(2) in \<open>auto simp: phase2_chunks_def Let_def\<close>)

end
