(* ===== verification/Dispatch_Wave.thy ===== *)
theory Dispatch_Wave
  imports Dispatch_Fill
begin

text \<open>
  The dispatch kernel as a whole: what its parsers accept, what the prefix phase makes of their counts, and
  what the second phase writes from its positions.
\<close>

section \<open>From the parsers to the positions\<close>

lemma parsed_chunk:
  assumes la: "dl_worker_count la \<le> kPullDispatchMaxWorkers" and p: "source_sized (src r)"
    and lane: "lane < cohort" and run: "parse_source_lane la (src r) lane cohort = Inr b"
  shows "counts_of (unat (dl_worker_count la)) (unat (dl_expert_count la)) src
    (chunk (unat (dl_worker_count la)) src (unat cohort) (r * unat cohort + unat lane)) b"
proof -
  note cases = parse_lane_cases [where src = src, OF refl la refl p lane refl refl refl]
  have "unat lane < unat cohort" using lane by (simp add: word_less_nat_alt)
  then have "(r * unat cohort + unat lane) div unat cohort = r" "(r * unat cohort + unat lane) mod unat cohort = unat lane"
    by simp_all
  then show ?thesis using cases run by (auto simp: chunk_def)
qed

lemma parsed_csr:
  assumes "dispatch_launch_valid nblocks la = Some x" and "cohort = parser_cohort nblocks la" and "source_sized p"
    and "\<forall>lane < cohort. \<exists>b. parse_source_lane la p lane cohort = Inr b"
  shows "csr_wf (launch_session la) (ps_assignments p) 0 0 (ps_tokens p)"
  using lanes_accept [OF launch_facts(3) [OF assms(1)] assms(3)] launch_facts(5) [OF assms(1)] assms(2,4) by simp

lemma parsed_plan:
  assumes la: "dispatch_launch_valid nblocks la = Some x" and cohort: "cohort = parser_cohort nblocks la"
    and W: "W = unat (dl_worker_count la)" and c: "c = unat cohort"
    and sized: "\<And>r. r < W \<Longrightarrow> source_sized (src r)" and len: "length blocks = W * c"
    and parsed: "\<And>r lane. r < W \<Longrightarrow> lane < cohort \<Longrightarrow>
      parse_source_lane la (src r) lane cohort = Inr (blocks ! (r * c + unat lane))"
    and phase: "phase = prefix_phase la cohort jh (replicate W kStatusOk)
      (map (\<lambda>r. ps_header (src r)) [0..<W]) (replicate (W * c) kStatusOk) blocks"
  shows "if plan_fits la src
    then \<exists>pl. phase = Inr pl \<and> planned W (unat (dl_expert_count la)) src c jh pl
    else \<exists>x. phase = fail x"
proof (rule prefix_phase_plans [OF W _ refl _ _ c _ _ sized _ len _ phase])
  note facts = launch_facts [OF la]
  show "W \<le> 128" "0 < W" "caps_small la" using facts by (simp_all add: W)
  show "0 < c" using facts by (simp add: c cohort unat_gt_0)
  show "unat (cohort * dl_worker_count la) = W * c"
    unfolding cohort c W by (rule cohort_blocks) (use facts(1) in auto)
  show "source_wf W (unat (dl_expert_count la)) (src r)" if r: "r < W" for r
  proof (rule csr_source_wf)
    show "csr_wf (launch_session la) (ps_assignments (src r)) 0 0 (ps_tokens (src r))"
      by (rule parsed_csr [OF la cohort sized [OF r]]) (use parsed [OF r] in blast)
    show "length (ps_tokens (src r)) < 2 ^ 32" "length (ps_assignments (src r)) < 2 ^ 32"
      using sized [OF r] unsigned_less [of "sh_token_count (ps_header (src r))", where ?'a = nat]
        unsigned_less [of "sh_assignment_count (ps_header (src r))", where ?'a = nat]
      by (simp_all add: source_sized_def)
  qed (simp_all add: launch_session_def W)
  show "counts_of W (unat (dl_expert_count la)) src (chunk W src c q) (blocks ! q)" if q: "q < W * c" for q
  proof -
    have c0: "0 < c" using q by (cases c) simp_all
    let ?lane = "of_nat (q mod c) :: u32"
    have lane: "unat ?lane = q mod c" "?lane < cohort"
      using c0 c unsigned_less [of cohort, where ?'a = nat] mod_less_divisor [OF c0, of q]
      by (simp_all add: word_less_nat_alt unat_of_nat_u32)
    have r: "q div c < W" using q c0 by (simp add: less_mult_imp_div_less)
    show ?thesis
      using parsed_chunk [where src = src and r = "q div c", OF facts(3) sized [OF r] lane(2) parsed [OF r lane(2)]]
      unfolding lane(1) c [symmetric] div_mult_mod_eq W .
  qed
qed

section \<open>The tables of the host\<close>

definition tables_hold :: "dispatch_launch \<Rightarrow> CompiledLayout \<Rightarrow> (address \<rightharpoonup> cell) \<Rightarrow> bool" where
  "tables_hold la l m \<longleftrightarrow>
     (\<forall>i < length (cl_journal_tokens l). m (AToken i) = Some (CToken (cl_journal_tokens l ! i))) \<and>
     (\<forall>i < length (cl_contributors l). m (AContributor i) = Some (CContributor (cl_contributors l ! i))) \<and>
     (dl_journal_assignment_capacity la \<noteq> 0 \<longrightarrow> (\<forall>i < length (cl_journal_assignments l).
        m (AAssignment i) = Some (CAssignment (cl_journal_assignments l ! i)))) \<and>
     (\<forall>d < length (cl_destination_rows l). \<forall>i < length (cl_destination_rows l ! d).
        m (ARow d i) = Some (CRow (cl_destination_rows l ! d ! i))) \<and>
     (\<forall>d < length (cl_expert_assignments l). \<forall>i < length (cl_expert_assignments l ! d).
        m (AExpert d i) = Some (CExpert (cl_expert_assignments l ! d ! i)))"

text \<open>The counts and the header that the prefix phase leaves, against those of the host.\<close>

definition plan_of :: "CompiledLayout \<Rightarrow> dispatch_plan \<Rightarrow> bool" where
  "plan_of l pl \<longleftrightarrow> map unat (pl_row_counts pl) = map length (cl_destination_rows l) \<and>
     map unat (pl_assignment_counts pl) = map length (cl_expert_assignments l) \<and>
     pl_expert_counts pl = cl_expert_counts l \<and>
     jh_token_count (pl_header pl) = jh_token_count (cl_journal_header l) \<and>
     jh_contributor_count (pl_header pl) = jh_contributor_count (cl_journal_header l) \<and>
     jh_dispatch_cookie (pl_header pl) = jh_dispatch_cookie (cl_journal_header l)"

lemma all_contributors:
  assumes "0 < W"
  shows "concat (map (token_contributors W src) (journal_keys src [0..<W])) =
    prefix_map (contributor_of src) (layout_jobs W src [0..<W])"
proof -
  let ?r = "W - 1"
  have r: "?r < W" "[0..<W] = [0..<?r] @ [?r]" using assms upt_Suc_append [of 0 ?r] by simp_all
  have "keys_prior src ?r (length (ps_tokens (src ?r))) = journal_keys src [0..<W]"
    "jobs_prior W src ?r (length (ps_tokens (src ?r))) = layout_jobs W src [0..<W]"
    unfolding r(2) by (simp_all add: keys_prior_def journal_keys_def jobs_prior_def layout_jobs_def source_jobs_chunk)
  then show ?thesis using prior_contributors [where src = src, OF r(1) order_refl] by simp
qed

lemma layout_cells_hold:
  assumes ctx: "fill_ctx la W E src" and W: "0 < W"
    and host: "compiled W E src (layout_jobs W src [0..<W]) epoch l"
  shows "tables_hold la l (filled m (final_cell W src) (layout_cells la W src))"
proof -
  let ?js = "layout_jobs W src [0..<W]" and ?ks = "journal_keys src [0..<W]"
  note host' = host [unfolded compiled_def Let_def]
  have l: "cl_destination_rows l = map (\<lambda>d. prefix_map (row_of src) (jobs_at d ?js)) [0..<W]"
    "cl_expert_assignments l = map (\<lambda>d. prefix_map expert_of (flat src (jobs_at d ?js))) [0..<W]"
    "cl_contributors l = prefix_map (contributor_of src) ?js"
    "cl_journal_assignments l = concat (map (key_run src) ?ks)"
    "cl_journal_tokens l = prefix_map (entry_of src (token_contributors W src)) ?ks"
    using host' all_contributors [OF W, of src] by simp_all
  have tokens: "length ?ks = tok_total src W" by (simp add: journal_keys_def length_concat tok_total_def comp_def)
  show ?thesis
    unfolding tables_hold_def l
    using token_covered contributor_covered row_covered expert_covered
      assignment_covered [of W "launch_session la" src la] ctx_facts(5) [OF ctx]
    by (simp add: override_on_def final_cell_def Let_def tokens)
qed

lemma planned_counts:
  assumes plan: "planned W E src c jh pl" and W: "0 < W"
    and host: "compiled W E src (layout_jobs W src [0..<W]) epoch l"
  shows "plan_of l pl"
proof -
  let ?js = "layout_jobs W src [0..<W]" and ?ks = "journal_keys src [0..<W]"
  note plan' = plan [unfolded planned_def Let_def] and host' = host [unfolded compiled_def Let_def]
  have l: "cl_destination_rows l = map (\<lambda>d. prefix_map (row_of src) (jobs_at d ?js)) [0..<W]"
    "cl_expert_assignments l = map (\<lambda>d. prefix_map expert_of (flat src (jobs_at d ?js))) [0..<W]"
    "length (concat (map (token_contributors W src) ?ks)) = length ?js"
    "length ?ks = tok_total src W"
    using host' all_contributors [OF W, of src]
    by (simp_all add: journal_keys_def length_concat tok_total_def comp_def)
  have word: "w = of_nat n" if "unat w = n" for w :: u32 and n using that by auto
  have cell: "pl_expert_counts pl ! (d * E + e) = cl_expert_counts l ! (d * E + e)" if "d < W" "e < E" for d e
  proof -
    have "unat (pl_expert_counts pl ! (d * E + e)) = expert_count e (flat src (jobs_at d ?js))" using that plan' by simp
    then have "pl_expert_counts pl ! (d * E + e) = of_nat (expert_count e (flat src (jobs_at d ?js)))" by (rule word)
    also have "\<dots> = cl_expert_counts l ! (d * E + e)" using that host' by simp
    finally show ?thesis .
  qed
  have experts: "pl_expert_counts pl = cl_expert_counts l"
  proof (rule nth_equalityI)
    show "length (pl_expert_counts pl) = length (cl_expert_counts l)" using plan' host' by simp
    fix i assume "i < length (pl_expert_counts pl)"
    then have i: "i < W * E" using plan' by simp
    then have E: "0 < E" by (cases E) simp_all
    have "i div E < W" "i mod E < E" using i E by (simp_all add: less_mult_imp_div_less)
    then show "pl_expert_counts pl ! i = cl_expert_counts l ! i"
      using cell [of "i div E" "i mod E"] unfolding div_mult_mod_eq by blast
  qed
  have "map unat (pl_row_counts pl) = map length (cl_destination_rows l)"
    "map unat (pl_assignment_counts pl) = map length (cl_expert_assignments l)"
    using plan' unfolding l by (auto intro!: nth_equalityI)
  moreover have "jh_token_count (pl_header pl) = jh_token_count (cl_journal_header l)"
    "jh_contributor_count (pl_header pl) = jh_contributor_count (cl_journal_header l)"
    using plan' host' l(3,4) by simp_all
  moreover have "jh_dispatch_cookie (pl_header pl) = jh_dispatch_cookie (cl_journal_header l)"
    using plan' host' by (simp add: source_cookie_def)
  ultimately show ?thesis using experts by (simp add: plan_of_def)
qed

section \<open>Concrete inputs\<close>

definition ex_dispatch :: dispatch_launch where
  "ex_dispatch = \<lparr> dl_session_id = 7, dl_placement_epoch = 1, dl_generation = 3, dl_sequence = 4,
     dl_source_slot_stride = 320, dl_metadata_inbox_stride = 320, dl_destination_hidden_slot_stride = 64,
     dl_destination_rows_slot_stride = 320, dl_destination_assignments_slot_stride = 256,
     dl_destination_expert_counts_slot_stride = 64, dl_journal_token_capacity = 8,
     dl_journal_contributor_capacity = 8, dl_journal_assignment_capacity = 8, dl_destination_row_capacity = 8,
     dl_destination_assignment_capacity = 8, dl_inc_destination_rows_stride_bytes = 320,
     dl_inc_destination_assignments_stride_bytes = 256, dl_row_map_capacity_entries = 16,
     dl_source_destination_prefix_capacity_entries = 6, dl_expert_counts_capacity_entries = 4,
     dl_parser_scratch_capacity_entries = 1024, dl_worker_count = 2, dl_expert_count = 2, dl_hidden = 1,
     dl_dtype = FP16, dl_inc_pe = 2, dl_region_id = 5, dl_wave = 0, dl_ring_slot = 1, dl_slot_count = 2,
     dl_channels_per_source = 1, dl_spin_cap = 100 \<rparr>"

lemma ex_dispatch_valid: "\<exists>r. dispatch_launch_valid 4 ex_dispatch = Some r"
proof -
  have "dispatch_launch_valid 4 ex_dispatch \<noteq> None" by code_simp
  then show ?thesis by blast
qed

lemma ex_dispatch_region: "ValidateRegistration (launch_region ex_dispatch 1) (launch_session ex_dispatch) = OK"
  by code_simp

lemma ex_cohort: "parser_cohort 4 ex_dispatch = 2"
  by code_simp

text \<open>An inbox slice that holds the slot of the builder's example up to its payload.\<close>

lemma ex_slot:
  obtains slot h ready where "BuildSlot ex_input = Inr (slot, h, ready)" and "sh_packet_bytes h = 320"
    and "length slot = 320" and "of_wave ex_dispatch ready"
    and "holds_metadata (take (unat (sh_hidden_offset h)) slot) slot"
proof -
  obtain slot h ready where b: "BuildSlot ex_input = Inr (slot, h, ready)" and h: "sh_packet_bytes h = 320"
    and len: "length slot = 320" by (rule ex_build)
  show thesis
  proof (rule BuildSlot_elim [OF b, of "[]"])
    fix ha
    let ?toks = "map (built_tok ex_input) [0..<length (in_token_ids ex_input)]"
    assume can: "canonical_header (in_session ex_input) h ha"
      and counts: "length (in_token_ids ex_input) = unat (sh_token_count h)"
        "length (in_assignments ex_input) = unat (sh_assignment_count h)"
      and pl: "length (in_hidden_payload ex_input) = unat ha"
      and slot: "slot = slot_image h ?toks (in_assignments ex_input) (in_hidden_payload ex_input)"
      and match: "header_matches (in_session ex_input) ready h"
      and fields: "sh_ring_slot h = in_ring_slot ex_input" "sh_generation h = in_generation ex_input"
        "sh_sequence h = in_sequence ex_input" "sh_wave h = in_wave ex_input"
    have "of_wave ex_dispatch ready"
      using match fields by (simp add: of_wave_def header_matches_def ex_dispatch_def ex_input_def)
    moreover have "inbox_header slot = h"
      using slot_image_reads(2) [OF can _ counts(2) pl, of ?toks slot "[]"] counts(1) slot
      by (simp add: inbox_header_def slot_header_codec.dec_enc)
    then have "holds_metadata (take (unat (sh_hidden_offset h)) slot) slot"
      unfolding holds_metadata_def using len h canonical_header_areas(1-4) [OF can]
      by (intro exI [of _ "unat (sh_hidden_offset h)"]) simp
    ultimately show thesis by (rule that [OF b h len])
  qed
qed

text \<open>The two sources of the layout example, with their counts in the headers.\<close>

definition ex_source :: "nat \<Rightarrow> ParsedSource" where
  "ex_source r = (let p = ex_sources ! r
     in p\<lparr>ps_header := (ps_header p)\<lparr> sh_token_count := of_nat (length (ps_tokens p)),
          sh_assignment_count := of_nat (length (ps_assignments p)) \<rparr>\<rparr>)"

lemma ex_source_fields:
  "ps_tokens (ex_source 0) = [ex_tok 100 0 0 2, ex_tok 101 1 2 2]" "ps_tokens (ex_source (Suc 0)) = [ex_tok 200 0 0 1]"
  "ps_assignments (ex_source 0) = [ex_asg 0 1 0, ex_asg 1 0 1, ex_asg 1 0 0, ex_asg 1 1 1]"
  "ps_assignments (ex_source (Suc 0)) = [ex_asg 1 0 0]"
  "sh_flags (ps_header (ex_source 0)) = 0" "sh_flags (ps_header (ex_source (Suc 0))) = 0"
  "unat (sh_token_count (ps_header (ex_source 0))) = 2" "unat (sh_token_count (ps_header (ex_source (Suc 0)))) = 1"
  "unat (sh_assignment_count (ps_header (ex_source 0))) = 4" "unat (sh_assignment_count (ps_header (ex_source (Suc 0)))) = 1"
  by (simp_all add: ex_source_def ex_sources_def Let_def ex_header_def SlotHeader_init_def)

lemma ex_source_run:
  "token_run (ex_source 0) 0 = [ex_asg 0 1 0, ex_asg 1 0 1]" "token_run (ex_source 0) (Suc 0) = [ex_asg 1 0 0, ex_asg 1 1 1]"
  "token_run (ex_source (Suc 0)) 0 = [ex_asg 1 0 0]"
  by (simp_all add: token_run_def ex_source_fields Let_def ex_tok_def vslice_def)

lemma ex_asg_wf:
  "assignments_wf (launch_session ex_dispatch) 2 [ex_asg 0 1 0, ex_asg 1 0 1]"
  "assignments_wf (launch_session ex_dispatch) 2 [ex_asg 1 0 0, ex_asg 1 1 1]"
  "assignments_wf (launch_session ex_dispatch) (Suc 0) [ex_asg 1 0 0]"
proof -
  have "isfinite 0x3F800000" by code_simp
  then show "assignments_wf (launch_session ex_dispatch) 2 [ex_asg 0 1 0, ex_asg 1 0 1]"
    "assignments_wf (launch_session ex_dispatch) 2 [ex_asg 1 0 0, ex_asg 1 1 1]"
    "assignments_wf (launch_session ex_dispatch) (Suc 0) [ex_asg 1 0 0]"
    by (simp_all add: assignments_wf_Cons ex_asg_def launch_session_def ex_dispatch_def)
qed

lemma ex_source_parses:
  assumes "r < 2"
  shows "source_sized (ex_source r)"
    and "\<forall>lane < 2. \<exists>b. parse_source_lane ex_dispatch (ex_source r) lane 2 = Inr b"
proof -
  have r: "r = 0 \<or> r = Suc 0" using assms by auto
  show sized: "source_sized (ex_source r)" using r by (auto simp: source_sized_def ex_source_fields)
  have "csr_wf (launch_session ex_dispatch) (ps_assignments (ex_source r)) 0 0 (ps_tokens (ex_source r)) \<and>
      (\<forall>t \<in> set (ps_tokens (ex_source r)). unat (tok_assignment_count t) \<le> 2 ^ 31)"
    using r ex_asg_wf by (auto simp: ex_source_fields ex_tok_def vslice_def)
  then show "\<forall>lane < 2. \<exists>b. parse_source_lane ex_dispatch (ex_source r) lane 2 = Inr b"
    using lanes_accept [OF _ sized, of ex_dispatch 2] by (simp add: ex_dispatch_def abi_consts)
qed

lemma ex_source_fits: "plan_fits ex_dispatch ex_source"
proof -
  have two: "[0..<2] = [0, Suc 0]" by (simp add: upt_rec)
  have one: "[0..<Suc 0] = [0]" by simp
  have hints: "\<not> hinted (ps_header (ex_source r))" if "r < 2" for r
    using that by (auto simp: hinted_def ex_source_fields less_2_cases_iff)
  have totals: "tok_total ex_source 2 = 3" "asg_total ex_source 2 = 5"
    by (simp_all add: tok_total_def asg_total_def two ex_source_fields)
  have jobs: "layout_jobs 2 ex_source [0..<2] = [(0, 0, 0), (0, 0, 1), (0, 1, 1), (1, 0, 1)]"
    by (simp add: layout_jobs_def source_jobs_def two one ex_source_fields group_of_def ex_source_run ex_asg_def)
  have la: "unat (dl_worker_count ex_dispatch) = 2" "unat (dl_journal_token_capacity ex_dispatch) = 8"
    "unat (dl_journal_assignment_capacity ex_dispatch) = 8" "unat (dl_row_map_capacity_entries ex_dispatch) = 16"
    "unat (dl_journal_contributor_capacity ex_dispatch) = 8" "unat (dl_destination_row_capacity ex_dispatch) = 8"
    "unat (dl_destination_assignment_capacity ex_dispatch) = 8"
    by (simp_all add: ex_dispatch_def)
  have "caps_ok ex_dispatch ex_source [(0, 0, 0), (0, 0, 1), (0, 1, 1), (1, 0, 1)]"
    unfolding caps_ok_def la
    by (auto simp: less_2_cases_iff jobs_at_def length_flat job_group_def group_of_def ex_source_run ex_asg_def)
  then show ?thesis
    using hints by (simp add: plan_fits_def Let_def source_fits_def la totals jobs)
qed

text \<open>The blocks of the launch parse the two sources, and the prefix phase plans them.\<close>

lemma ex_launch_plan:
  obtains blocks pl where "length blocks = 2 * 2"
    and "\<And>r lane. r < 2 \<Longrightarrow> lane < 2 \<Longrightarrow>
      parse_source_lane ex_dispatch (ex_source r) lane 2 = Inr (blocks ! (r * 2 + unat lane))"
    and "prefix_phase ex_dispatch 2 JournalSlotHeader_init (replicate 2 kStatusOk)
      (map (\<lambda>r. ps_header (ex_source r)) [0..<2]) (replicate (2 * 2) kStatusOk) blocks = Inr pl"
proof -
  obtain x where launch: "dispatch_launch_valid 4 ex_dispatch = Some x" using ex_dispatch_valid by blast
  let ?run = "\<lambda>q. parse_source_lane ex_dispatch (ex_source (q div 2)) (of_nat (q mod 2)) 2"
  let ?blocks = "map (\<lambda>q. projr (?run q)) [0..<2 * 2]"
  have parsed: "parse_source_lane ex_dispatch (ex_source r) lane 2 = Inr (?blocks ! (r * 2 + unat lane))"
    if "r < 2" "lane < 2" for r and lane :: u32
  proof -
    have "unat lane < 2" using that(2) by (simp add: word_less_nat_alt)
    then have "?blocks ! (r * 2 + unat lane) = projr (parse_source_lane ex_dispatch (ex_source r) lane 2)"
      using that(1) by simp
    then show ?thesis using ex_source_parses(2) [OF that(1)] that(2) by force
  qed
  have two: "2 = unat (dl_worker_count ex_dispatch)" "2 = unat (2 :: u32)" by (simp_all add: ex_dispatch_def)
  have len: "length ?blocks = 2 * 2" by (simp only: length_map length_upt diff_zero)
  note plans = parsed_plan [OF launch ex_cohort [symmetric] two ex_source_parses(1) len parsed, OF _ _ _ refl]
  show thesis
    using that [OF len parsed] plans [of JournalSlotHeader_init] ex_source_fits by auto
qed

lemma ex_source_rank: "source_rank (ex_source 0) = 0" "source_rank (ex_source (Suc 0)) = Suc 0"
  by (simp_all add: ex_source_def ex_sources_def Let_def ex_header_def SlotHeader_init_def)

lemma ex_launch_ranks:
  "r < 2 \<Longrightarrow> rank_source [ex_source 0, ex_source (Suc 0)] r = ex_source r"
  unfolding rank_source_def by (cases r) (simp_all add: ex_source_rank)

lemma ex_host:
  obtains l where "CompileLayout [ex_source 0, ex_source (Suc 0)] [0, 1] ex_layout = Inr l"
proof -
  have "case CompileLayout [ex_source 0, ex_source (Suc 0)] [0, 1] ex_layout of Inr l \<Rightarrow> True | Inl _ \<Rightarrow> False" by code_simp
  then show thesis using that by (auto split: sum.splits)
qed

lemma ex_host_ok: "\<forall>p \<in> set [ex_source 0, ex_source (Suc 0)]. source_ok ex_layout p"
  using ex_sources_ok
  by (auto simp: ex_sources_def source_ok_def source_wf_def ex_source_def Let_def token_run_def)

section \<open>Properties\<close>

text \<open>
  C25 The device accepts a source as the host does. For a valid launch whose registration the
  host accepts and an inbox that holds the metadata of the slot, the kernel accepts the READY record and the
  inbox of a source - the record, the header, the padding, the records of every parser block and the digest - exactly when the
  record is of the launched wave, \<open>ParseReadyAndSlot\<close> accepts record and slot, and no token has more than
  \<open>2 ^ 31\<close> assignments.
\<close>

theorem device_accepts_as_host:
  assumes "dispatch_launch_valid blocks la = Some r" and "cohort = parser_cohort blocks la"
    and "ValidateRegistration (launch_region la source) (launch_session la) = OK"
    and "source < dl_worker_count la"
    and "unat (dl_source_slot_stride la) \<le> length slot" and "holds_metadata inbox slot"
  shows "device_accepts la cohort source ready inbox \<longleftrightarrow> of_wave la ready \<and>
    (\<exists>p. ParseReadyAndSlot (launch_region la source) (launch_session la) ready (Some slot)
           (dl_source_slot_stride la) = Inr p \<and>
         (\<forall>t \<in> set (ps_tokens p). unat (tok_assignment_count t) \<le> 2 ^ 31))"
  using device_accepts_iff [OF assms(1,3,4) _ assms(5,6)] launch_facts(5) [OF assms(1)] assms(2) by simp

theorem device_accepts_as_host_witness:
  "\<exists>slot h ready. BuildSlot ex_input = Inr (slot, h, ready) \<and> 
     device_accepts ex_dispatch 2 1 ready (take (unat (sh_hidden_offset h)) slot)"
proof -
  obtain slot h ready where b: "BuildSlot ex_input = Inr (slot, h, ready)" and h: "sh_packet_bytes h = 320"
    and len: "length slot = 320" and wave: "of_wave ex_dispatch ready"
    and holds: "holds_metadata (take (unat (sh_hidden_offset h)) slot) slot" by (rule ex_slot)
  let ?reg = "launch_region ex_dispatch 1" and ?ses = "launch_session ex_dispatch"
  obtain r where launch: "dispatch_launch_valid 4 ex_dispatch = Some r" using ex_dispatch_valid by blast
  have ses: "?ses = in_session ex_input"
    by (simp add: launch_session_def ex_dispatch_def ex_input_def ex_session_def)
  have stride: "dl_source_slot_stride ex_dispatch = 320" by (simp add: ex_dispatch_def)
  obtain p where p: "parse_slot ?ses ready slot 320 = Inr p" "ps_assignments p = in_assignments ex_input"
    "ps_tokens p = map (built_tok ex_input) [0..<1]"
    using BuildSlot_parse_slot(1) [OF b, of 320 "[]"] h len by (auto simp: ses ex_input_def)
  have acc: "ready_accepted ?reg ?ses ready"
    unfolding ses by (rule BuildSlot_ready_accepted [OF b ex_dispatch_region [unfolded ses]])
      (simp_all add: launch_region_def ex_dispatch_def ex_input_def)
  have "ParseReadyAndSlot ?reg ?ses ready (Some slot) 320 = Inr p"
    using acc p(1) ex_dispatch_region by (simp add: ParseReadyAndSlot_through launch_region_def stride)
  moreover have "\<forall>t \<in> set (ps_tokens p). unat (tok_assignment_count t) \<le> 2 ^ 31"
    by (simp add: p(3) built_tok_def ex_input_def)
  ultimately show ?thesis
    using device_accepts_as_host [OF launch ex_cohort [symmetric] ex_dispatch_region _ _ holds, of ready]
      b wave len stride by (auto simp: ex_dispatch_def)
qed

text \<open>
  C26 The prefix phase plans the layout of the host. For a valid launch and the counts the parser
  blocks made of sized sources, the phase ends, reads and writes inside its arrays, and succeeds exactly when the tokens,
  assignments, row map, contributors and the rows and assignments of every destination fit their capacities and
  every source with the uniform hint is uniform. It then hands every block the number of contributors, rows,
  assignments and expert rows of the blocks in front of it in the order of the layout, and stores in the header of the
  journal the counts and the cookie of the layout.
\<close>

theorem device_plans_layout:
  assumes la: "dispatch_launch_valid nblocks la = Some x" and cohort: "cohort = parser_cohort nblocks la"
    and W: "W = unat (dl_worker_count la)" and c: "c = unat cohort"
    and sized: "\<And>r. r < W \<Longrightarrow> source_sized (src r)" and len: "length blocks = W * c"
    and parsed: "\<And>r lane. r < W \<Longrightarrow> lane < cohort \<Longrightarrow>
      parse_source_lane la (src r) lane cohort = Inr (blocks ! (r * c + unat lane))"
    and phase: "phase = prefix_phase la cohort jh (replicate W kStatusOk)
      (map (\<lambda>r. ps_header (src r)) [0..<W]) (replicate (W * c) kStatusOk) blocks"
  shows "if plan_fits la src
    then \<exists>pl. phase = Inr pl \<and> planned W (unat (dl_expert_count la)) src c jh pl
    else \<exists>x. phase = fail x"
  using parsed_plan [OF la cohort W c sized len parsed phase] .

theorem device_plans_layout_witness:
  "\<exists>blocks pl. length blocks = 2 * 2 \<and>
     (\<forall>r < 2. \<forall>lane < 2. parse_source_lane ex_dispatch (ex_source r) lane 2 = Inr (blocks ! (r * 2 + unat lane))) \<and>
     prefix_phase ex_dispatch 2 JournalSlotHeader_init (replicate 2 kStatusOk)
       (map (\<lambda>r. ps_header (ex_source r)) [0..<2]) (replicate (2 * 2) kStatusOk) blocks = Inr pl \<and>
     planned 2 2 ex_source 2 JournalSlotHeader_init pl"
proof -
  obtain x where launch: "dispatch_launch_valid 4 ex_dispatch = Some x" using ex_dispatch_valid by blast
  obtain blocks pl where len: "length blocks = 2 * 2"
    and parsed: "\<And>r lane. r < 2 \<Longrightarrow> lane < 2 \<Longrightarrow>
      parse_source_lane ex_dispatch (ex_source r) lane 2 = Inr (blocks ! (r * 2 + unat lane))"
    and phase: "prefix_phase ex_dispatch 2 JournalSlotHeader_init (replicate 2 kStatusOk)
      (map (\<lambda>r. ps_header (ex_source r)) [0..<2]) (replicate (2 * 2) kStatusOk) blocks = Inr pl" by (rule ex_launch_plan) blast
  have two: "2 = unat (dl_worker_count ex_dispatch)" "2 = unat (2 :: u32)" "unat (dl_expert_count ex_dispatch) = 2"
    by (simp_all add: ex_dispatch_def)
  have "planned 2 2 ex_source 2 JournalSlotHeader_init pl"
    using device_plans_layout [OF launch ex_cohort [symmetric] two(1,2) ex_source_parses(1) len parsed phase [symmetric]]
      ex_source_fits by (simp add: two(3))
  then show ?thesis using len parsed phase by blast
qed

text \<open>
  C27 The tables the device writes are those of the host. When the prefix phase succeeded on sources
  that the host compiles in the order of their ranks, the device's counts, cookie and expert counts are the host's, and
  the second phase ends without a write behind a table: in whatever order the chunks run that the schedule assigns to
  the blocks - all on block zero, or the producers of a uniform layout - the journal entries, contributors, saved
  assignments, destination rows and expert assignments are afterwards those of \<open>CompileLayout\<close>, and the row map gives
  for every token and destination the row of the token there.
\<close>

theorem device_fills_layout:
  assumes la: "dispatch_launch_valid nblocks la = Some (scratch, channels, row_bytes)"
    and cohort: "cohort = parser_cohort nblocks la"
    and W: "W = unat (dl_worker_count la)" and c: "c = unat cohort" and src: "src = rank_source sources"
    and sized: "\<And>r. r < W \<Longrightarrow> source_sized (src r)" and len: "length blocks = W * c"
    and parsed: "\<And>r lane. r < W \<Longrightarrow> lane < cohort \<Longrightarrow>
      parse_source_lane la (src r) lane cohort = Inr (blocks ! (r * c + unat lane))"
    and phase: "prefix_phase la cohort jh (replicate W kStatusOk)
      (map (\<lambda>r. ps_header (src r)) [0..<W]) (replicate (W * c) kStatusOk) blocks = Inr pl"
    and host: "CompileLayout sources arrival config = Inr l" and ok: "\<forall>p \<in> set sources. source_ok config p"
    and config: "map unat arrival = [0..<W]" "lc_worker_count config = dl_worker_count la"
      "lc_expert_count config = dl_expert_count la"
    and qs: "set qs = (\<Union>block \<in> {block. block < nblocks}.
      set (phase2_chunks nblocks la channels (pl_header pl) (map (\<lambda>r. ps_header (src r)) [0..<W]) block))"
  shows "plan_of l pl \<and> (\<exists>tables. mfold (fill_chunk la cohort src pl) qs memory = Inr tables \<and>
    tables_hold la l tables \<and>
    (dl_row_map_capacity_entries la \<noteq> 0 \<longrightarrow> (\<forall>i < length (cl_journal_tokens l). \<forall>d < W.
       tables (ARowMap (i * W + d)) = Some (CRowMap (row_entry W src (journal_keys src [0..<W] ! i) d)))))"
proof -
  let ?E = "unat (dl_expert_count la)" and ?js = "layout_jobs W src [0..<W]"
  note facts = launch_facts [OF la]
  have W0: "0 < W" using facts(1) W by simp
  have c0: "0 < c" using facts(5) by (simp add: c cohort unat_gt_0)
  have fits: "plan_fits la src" and plan: "planned W ?E src c jh pl"
    using parsed_plan [OF la cohort W c sized len parsed phase [symmetric]] by (auto split: if_splits)
  obtain epoch where comp: "compiled W ?E src ?js epoch l"
    using CompileLayout_compiled [OF host ok] config by (metis W src)
  have ctx: "fill_ctx la W ?E src"
    unfolding fill_ctx_def
    using W facts fits sized parsed_csr [OF la cohort sized] parsed by blast
  have cells: "(\<Union>q \<in> set qs. chunk_cells la W src c q) = layout_cells la W src"
    unfolding qs phase2_covers [OF la] active_blocks(1) [OF la] W [symmetric] cohort [symmetric] c [symmetric]
      all_chunks [OF c0] layout_cells_def by (rule refl)
  have sub: "set qs \<subseteq> {0..<W * c}"
    unfolding qs phase2_covers [OF la] active_blocks(1) [OF la] W [symmetric] cohort [symmetric] c [symmetric] by simp
  let ?tables = "filled memory (final_cell W src) (layout_cells la W src)"
  have run: "mfold (fill_chunk la cohort src pl) qs memory = Inr ?tables"
    using fill_chunks [OF ctx plan c sub] cells by simp
  have tokens: "length (cl_journal_tokens l) = tok_total src W"
    using comp by (simp add: compiled_def Let_def journal_keys_def length_concat tok_total_def comp_def)
  have "?tables (ARowMap (i * W + d)) = Some (CRowMap (row_entry W src (journal_keys src [0..<W] ! i) d))"
    if "dl_row_map_capacity_entries la \<noteq> 0" "i < length (cl_journal_tokens l)" "d < W" for i d
    using row_map_covered [OF that(1), of "i * W + d" src W] index_bound [of i "tok_total src W" d W] that tokens
    by (simp add: override_on_def final_cell_def Let_def)
  then show ?thesis
    using run planned_counts [OF plan W0 comp] layout_cells_hold [OF ctx W0 comp] by blast
qed

theorem device_fills_layout_witness:
  "\<exists>pl l tables. CompileLayout [ex_source 0, ex_source (Suc 0)] [0, 1] ex_layout = Inr l \<and> plan_of l pl \<and>
     mfold (fill_chunk ex_dispatch 2 (rank_source [ex_source 0, ex_source (Suc 0)]) pl) [3, 0, 2, 1] Map.empty = Inr tables \<and>
     tables_hold ex_dispatch l tables"
proof -
  let ?src = "rank_source [ex_source 0, ex_source (Suc 0)]"
  obtain scratch channels row_bytes where launch: "dispatch_launch_valid 4 ex_dispatch = Some (scratch, channels, row_bytes)"
    using ex_dispatch_valid by auto
  obtain blocks pl where len: "length blocks = 2 * 2"
    and parsed: "\<And>r lane. r < 2 \<Longrightarrow> lane < 2 \<Longrightarrow>
      parse_source_lane ex_dispatch (ex_source r) lane 2 = Inr (blocks ! (r * 2 + unat lane))"
    and phase: "prefix_phase ex_dispatch 2 JournalSlotHeader_init (replicate 2 kStatusOk)
      (map (\<lambda>r. ps_header (ex_source r)) [0..<2]) (replicate (2 * 2) kStatusOk) blocks = Inr pl" by (rule ex_launch_plan) blast
  obtain l where host: "CompileLayout [ex_source 0, ex_source (Suc 0)] [0, 1] ex_layout = Inr l" by (rule ex_host)
  have two: "2 = unat (dl_worker_count ex_dispatch)" "2 = unat (2 :: u32)" "unat (active_parser_blocks 4 ex_dispatch) = 4"
    by (simp_all add: ex_dispatch_def active_parser_blocks_def parser_cohort_def)
  have headers: "map (\<lambda>r. ps_header (ex_source r)) [0..<2] = map (\<lambda>r. ps_header (?src r)) [0..<2]"
    by (rule map_cong) (simp_all add: ex_launch_ranks)
  have chunks: "set [3, 0, 2, 1] = (\<Union>block \<in> {block. block < 4}. set (phase2_chunks 4 ex_dispatch channels (pl_header pl)
      (map (\<lambda>r. ps_header (?src r)) [0..<2]) block))"
    unfolding phase2_covers [OF launch] two(3) by auto
  have config: "map unat [0 :: u32, 1] = [0..<2]" "lc_worker_count ex_layout = dl_worker_count ex_dispatch"
    "lc_expert_count ex_layout = dl_expert_count ex_dispatch"
    by (simp_all add: ex_layout_def ex_dispatch_def upt_rec)
  have src: "source_sized (?src r)" "lane < 2 \<Longrightarrow>
      parse_source_lane ex_dispatch (?src r) lane 2 = Inr (blocks ! (r * 2 + unat lane))" if "r < 2" for r and lane :: u32
    using parsed ex_source_parses(1) that by (simp_all add: ex_launch_ranks)
  have "plan_of l pl \<and> (\<exists>tables. mfold (fill_chunk ex_dispatch 2 ?src pl) [3, 0, 2, 1] Map.empty = Inr tables \<and>
      tables_hold ex_dispatch l tables)"
    using device_fills_layout [OF launch ex_cohort [symmetric] two(1,2) refl src(1) len src(2)
      phase [unfolded headers] host ex_host_ok config chunks, of Map.empty] by blast
  then show ?thesis using host by blast
qed

end
