(* ===== verification/Frontend_Api.thy ===== *)
theory Frontend_Api
  imports Prelude
begin

text \<open>
  The session front end of the pull protocol (\<open>inc_dc_pull_v2_api.h\<close>, \<open>inc_dc_pull_v2_api.cpp\<close>).
  The backend is a table of function pointers installed by the caller; its code is not part of the
  front end, so its operations are fields of the session that take and return a state \<open>'b\<close> of the
  backend's own. A device pointer is its address with 0 for null. A pointer argument that the front
  end follows (session, batch, completion, input, output) is an option with \<open>None\<close> for null, and
  every operation returns the objects as it leaves them. Calling a null entry of the table is \<open>Oob\<close>.
\<close>

section \<open>Model\<close>

type_synonym Stream = u64
type_synonym ApiDataType = u32

datatype StatusCode = OK | INVALID_ARGUMENT | CAPACITY_EXCEEDED | BUSY_SLOT | STALE_HANDLE
  | BACKEND_ERROR | TIMEOUT | ABORTED | UNSUPPORTED

record ApiStatus =
  st_code :: StatusCode
  st_message :: string

fun StatusString :: "StatusCode \<Rightarrow> string" where
  "StatusString OK = ''ok''"
| "StatusString INVALID_ARGUMENT = ''invalid argument''"
| "StatusString CAPACITY_EXCEEDED = ''capacity exceeded''"
| "StatusString BUSY_SLOT = ''ring slot busy''"
| "StatusString STALE_HANDLE = ''stale batch handle''"
| "StatusString BACKEND_ERROR = ''backend error''"
| "StatusString TIMEOUT = ''timeout''"
| "StatusString ABORTED = ''aborted''"
| "StatusString UNSUPPORTED = ''unsupported''"

definition MakeStatus :: "StatusCode \<Rightarrow> ApiStatus" where
  "MakeStatus code = \<lparr> st_code = code, st_message = StatusString code \<rparr>"

record WaveId =
  wv_generation :: u64
  wv_sequence :: u64
  wv_wave :: u32
  wv_ring_slot :: u16
  wv_reserved :: u16

record SessionConfig =
  sc_session_id :: u64
  sc_placement_epoch :: u64
  sc_rank :: u32
  sc_worker_count :: u32
  sc_inc_rank :: u32
  sc_hidden :: u32
  sc_expert_count :: u32
  sc_ring_slots :: u32
  sc_max_tokens_per_rank :: u32
  sc_max_assignments_per_rank :: u32

record DispatchInput =
  di_send_buffer :: u64
  di_send_token_ids :: u64
  di_assignment_offsets :: u64
  di_destination_gpus :: u64
  di_expert_ids :: u64
  di_ordinals :: u64
  di_expert_weights :: u64
  di_token_count :: u32
  di_assignment_count :: u32
  di_fixed_topk :: u32

record DispatchOutput =
  do_recv_buffer :: u64
  do_recv_capacity_bytes :: u64
  do_row_capacity :: u32
  do_assignment_capacity :: u32
  do_recv_row_count :: u64
  do_recv_assignment_count :: u64

record CombineInput =
  ci_send_buffer :: u64
  ci_send_token_ids :: u64
  ci_send_count :: u32

record CombineOutput =
  cu_recv_buffer :: u64
  cu_recv_capacity :: u32
  cu_recv_count :: u64

record BackendTicket =
  tk_words :: "u64 \<times> u64 \<times> u64 \<times> u64"

record BatchHandle =
  bh_session_id :: u64
  bh_id :: WaveId
  bh_ticket :: BackendTicket
  bh_live :: bool

record Completion =
  cp_ticket :: BackendTicket
  cp_live :: bool

record 'b BackendOps =
  bo_create :: "(u64 \<Rightarrow> SessionConfig \<Rightarrow> 'b \<Rightarrow> StatusCode \<times> 'b) option"
  bo_destroy :: "(u64 \<Rightarrow> 'b \<Rightarrow> StatusCode \<times> 'b) option"
  bo_dispatch :: "(u64 \<Rightarrow> ApiDataType \<Rightarrow> WaveId \<Rightarrow> DispatchInput option \<Rightarrow> DispatchOutput option \<Rightarrow>
    Stream \<Rightarrow> 'b \<Rightarrow> StatusCode \<times> BackendTicket \<times> BackendTicket \<times> 'b) option"
  bo_combine :: "(u64 \<Rightarrow> WaveId \<Rightarrow> BackendTicket \<Rightarrow> CombineInput option \<Rightarrow> CombineOutput option \<Rightarrow>
    Stream \<Rightarrow> 'b \<Rightarrow> StatusCode \<times> BackendTicket \<times> 'b) option"
  bo_query :: "(u64 \<Rightarrow> BackendTicket \<Rightarrow> 'b \<Rightarrow> StatusCode \<times> 'b) option"
  bo_wait :: "(u64 \<Rightarrow> BackendTicket \<Rightarrow> u64 \<Rightarrow> 'b \<Rightarrow> StatusCode \<times> 'b) option"
  bo_release_batch :: "(u64 \<Rightarrow> BackendTicket \<Rightarrow> 'b \<Rightarrow> StatusCode \<times> 'b) option"

record 'b SingleIncSession =
  ss_config :: SessionConfig
  ss_backend :: "'b BackendOps"
  ss_backend_context :: u64
  ss_live_batches :: u32
  ss_initialized :: bool

definition SessionConfig_init :: SessionConfig where
  "SessionConfig_init = \<lparr> sc_session_id = 0, sc_placement_epoch = 0, sc_rank = 0, sc_worker_count = 0,
     sc_inc_rank = 0, sc_hidden = 0, sc_expert_count = 0, sc_ring_slots = 2,
     sc_max_tokens_per_rank = 0, sc_max_assignments_per_rank = 0 \<rparr>"

definition BackendOps_init :: "'b BackendOps" where
  "BackendOps_init = \<lparr> bo_create = None, bo_destroy = None, bo_dispatch = None, bo_combine = None,
     bo_query = None, bo_wait = None, bo_release_batch = None \<rparr>"

definition SingleIncSession_init :: "'b SingleIncSession" where
  "SingleIncSession_init = \<lparr> ss_config = SessionConfig_init, ss_backend = BackendOps_init,
     ss_backend_context = 0, ss_live_batches = 0, ss_initialized = False \<rparr>"

definition ValidSessionConfig :: "SessionConfig \<Rightarrow> bool" where
  "ValidSessionConfig c \<longleftrightarrow> sc_session_id c \<noteq> 0 \<and> sc_placement_epoch c \<noteq> 0 \<and>
     sc_worker_count c \<ge> 2 \<and> sc_worker_count c \<le> 128 \<and> sc_inc_rank c = sc_worker_count c \<and>
     sc_rank c \<le> sc_inc_rank c \<and> sc_hidden c \<noteq> 0 \<and> sc_expert_count c \<noteq> 0 \<and> sc_ring_slots c \<noteq> 0 \<and>
     sc_max_tokens_per_rank c \<noteq> 0 \<and> sc_max_assignments_per_rank c \<noteq> 0"

definition Worker :: "'b SingleIncSession \<Rightarrow> bool" where
  "Worker session \<longleftrightarrow> sc_rank (ss_config session) < sc_worker_count (ss_config session)"

definition DataTypeBytes :: "ApiDataType \<Rightarrow> u32" where
  "DataTypeBytes dtype = (if dtype = 0 \<or> dtype = 1 then 2 else if dtype = 2 then 4 else 0)"

definition invoke :: "'f option \<Rightarrow> ('e, 'f) res" where
  "invoke f = (case f of None \<Rightarrow> Inl Oob | Some g \<Rightarrow> Inr g)"

definition backend_complete :: "'b BackendOps \<Rightarrow> bool" where
  "backend_complete b \<longleftrightarrow> bo_create b \<noteq> None \<and> bo_destroy b \<noteq> None \<and> bo_dispatch b \<noteq> None \<and>
     bo_combine b \<noteq> None \<and> bo_query b \<noteq> None \<and> bo_wait b \<noteq> None \<and> bo_release_batch b \<noteq> None"

definition single_inc_create ::
  "SessionConfig \<Rightarrow> 'b BackendOps \<Rightarrow> u64 \<Rightarrow> 'b SingleIncSession option \<times> 'b \<Rightarrow>
     (StatusCode, ApiStatus \<times> 'b SingleIncSession option \<times> 'b) res" where
  "single_inc_create config backend backend_context = (\<lambda>(session, w).
     case session of None \<Rightarrow> Inr (MakeStatus INVALID_ARGUMENT, session, w)
     | Some s \<Rightarrow>
       if ss_initialized s \<or> \<not> ValidSessionConfig config \<or> \<not> backend_complete backend
       then Inr (MakeStatus INVALID_ARGUMENT, session, w)
       else rbind (invoke (bo_create backend)) (\<lambda>create.
         let (code, w') = create backend_context config w in
         if code \<noteq> OK then Inr (MakeStatus code, session, w')
         else Inr (MakeStatus OK, Some (s\<lparr>ss_config := config, ss_backend := backend,
           ss_backend_context := backend_context, ss_initialized := True\<rparr>), w')))"

definition single_inc_destroy ::
  "'b SingleIncSession option \<times> 'b \<Rightarrow> (StatusCode, ApiStatus \<times> 'b SingleIncSession option \<times> 'b) res" where
  "single_inc_destroy = (\<lambda>(session, w).
     case session of None \<Rightarrow> Inr (MakeStatus INVALID_ARGUMENT, session, w)
     | Some s \<Rightarrow>
       if \<not> ss_initialized s then Inr (MakeStatus INVALID_ARGUMENT, session, w)
       else if ss_live_batches s \<noteq> 0 then Inr (MakeStatus BUSY_SLOT, session, w)
       else rbind (invoke (bo_destroy (ss_backend s))) (\<lambda>destroy.
         let (code, w') = destroy (ss_backend_context s) w in
         if code \<noteq> OK then Inr (MakeStatus code, session, w')
         else Inr (MakeStatus OK, Some SingleIncSession_init, w')))"

definition worker_arguments_bad :: "SessionConfig \<Rightarrow> DispatchInput \<Rightarrow> DispatchOutput \<Rightarrow> bool" where
  "worker_arguments_bad c i out \<longleftrightarrow>
     (di_token_count i \<noteq> 0 \<and> (di_send_buffer i = 0 \<or> di_send_token_ids i = 0)) \<or>
     di_token_count i > sc_max_tokens_per_rank c \<or>
     di_assignment_count i > sc_max_assignments_per_rank c \<or>
     (di_fixed_topk i = 0 \<and> di_assignment_offsets i = 0) \<or>
     (di_assignment_count i \<noteq> 0 \<and>
       (di_destination_gpus i = 0 \<or> di_expert_ids i = 0 \<or> di_expert_weights i = 0)) \<or>
     do_recv_buffer out = 0 \<or> do_recv_capacity_bytes out = 0 \<or> do_row_capacity out = 0 \<or>
     do_assignment_capacity out = 0 \<or> do_recv_row_count out = 0 \<or> do_recv_assignment_count out = 0"

definition topk_bad :: "DispatchInput \<Rightarrow> bool" where
  "topk_bad i \<longleftrightarrow> di_fixed_topk i \<noteq> 0 \<and>
     (di_token_count i > 0xffffffff div di_fixed_topk i \<or>
      di_assignment_count i \<noteq> di_token_count i * di_fixed_topk i)"

definition capacity_bad :: "SessionConfig \<Rightarrow> ApiDataType \<Rightarrow> DispatchInput \<Rightarrow> DispatchOutput \<Rightarrow> bool" where
  "capacity_bad c dtype i out \<longleftrightarrow>
     (let elements = (ucast (do_row_capacity out) :: u64) * ucast (sc_hidden c);
          dtype_bytes = DataTypeBytes dtype
      in elements > 0xffffffffffffffff div ucast dtype_bytes \<or>
         elements * ucast dtype_bytes > do_recv_capacity_bytes out \<or>
         di_assignment_count i > do_assignment_capacity out)"

definition check_dispatch ::
  "'b SingleIncSession \<Rightarrow> ApiDataType \<Rightarrow> DispatchInput option \<Rightarrow> DispatchOutput option \<Rightarrow> StatusCode" where
  "check_dispatch session dtype input output =
     (if Worker session then
        (case (input, output) of
           (Some i, Some out) \<Rightarrow>
             if worker_arguments_bad (ss_config session) i out then INVALID_ARGUMENT
             else if topk_bad i then INVALID_ARGUMENT
             else if capacity_bad (ss_config session) dtype i out then CAPACITY_EXCEEDED
             else OK
         | _ \<Rightarrow> INVALID_ARGUMENT)
      else if input \<noteq> None \<or> output \<noteq> None then INVALID_ARGUMENT else OK)"

definition DispatchAsync ::
  "ApiDataType \<Rightarrow> WaveId \<Rightarrow> DispatchInput option \<Rightarrow> DispatchOutput option \<Rightarrow> Stream \<Rightarrow>
     'b SingleIncSession option \<times> BatchHandle option \<times> Completion option \<times> 'b \<Rightarrow>
     (StatusCode, ApiStatus \<times> 'b SingleIncSession option \<times> BatchHandle option \<times> Completion option \<times> 'b) res" where
  "DispatchAsync dtype wave_id input output stream = (\<lambda>(session, batch, completion, w).
     case (session, batch, completion) of
       (Some s, Some b, Some c) \<Rightarrow>
         if \<not> ss_initialized s \<or> bh_live b \<or> cp_live c \<or> wv_generation wave_id = 0 \<or> wv_sequence wave_id = 0 \<or>
            ucast (wv_ring_slot wave_id) \<ge> sc_ring_slots (ss_config s) \<or> stream = 0 \<or> DataTypeBytes dtype = 0
         then Inr (MakeStatus INVALID_ARGUMENT, session, batch, completion, w)
         else if check_dispatch s dtype input output \<noteq> OK
         then Inr (MakeStatus (check_dispatch s dtype input output), session, batch, completion, w)
         else rbind (invoke (bo_dispatch (ss_backend s))) (\<lambda>dispatch.
           let (code, batch_ticket, completion_ticket, w') =
             dispatch (ss_backend_context s) dtype wave_id input output stream w in
           if code \<noteq> OK then Inr (MakeStatus code, session, batch, completion, w')
           else Inr (MakeStatus OK,
             Some (s\<lparr>ss_live_batches := ss_live_batches s + 1\<rparr>),
             Some (b\<lparr>bh_session_id := sc_session_id (ss_config s), bh_id := wave_id,
               bh_ticket := batch_ticket, bh_live := True\<rparr>),
             Some (c\<lparr>cp_ticket := completion_ticket, cp_live := True\<rparr>), w'))
     | _ \<Rightarrow> Inr (MakeStatus INVALID_ARGUMENT, session, batch, completion, w))"

definition check_combine ::
  "'b SingleIncSession \<Rightarrow> CombineInput option \<Rightarrow> CombineOutput option \<Rightarrow> StatusCode" where
  "check_combine session input output =
     (if Worker session then
        (case (input, output) of
           (Some i, Some out) \<Rightarrow>
             if (ci_send_count i \<noteq> 0 \<and> (ci_send_buffer i = 0 \<or> ci_send_token_ids i = 0)) \<or>
                cu_recv_buffer out = 0 \<or> cu_recv_count out = 0 \<or> cu_recv_capacity out = 0 \<or>
                ci_send_count i > sc_max_assignments_per_rank (ss_config session) \<or>
                cu_recv_capacity out > sc_max_tokens_per_rank (ss_config session)
             then INVALID_ARGUMENT else OK
         | _ \<Rightarrow> INVALID_ARGUMENT)
      else if input \<noteq> None \<or> output \<noteq> None then INVALID_ARGUMENT else OK)"

definition CombineAsync ::
  "CombineInput option \<Rightarrow> CombineOutput option \<Rightarrow> Stream \<Rightarrow>
     'b SingleIncSession option \<times> BatchHandle option \<times> Completion option \<times> 'b \<Rightarrow>
     (StatusCode, ApiStatus \<times> 'b SingleIncSession option \<times> BatchHandle option \<times> Completion option \<times> 'b) res" where
  "CombineAsync input output stream = (\<lambda>(session, batch, completion, w).
     case (session, batch) of
       (Some s, Some b) \<Rightarrow>
         if \<not> ss_initialized s then Inr (MakeStatus INVALID_ARGUMENT, session, batch, completion, w)
         else if \<not> bh_live b \<or> bh_session_id b \<noteq> sc_session_id (ss_config s)
         then Inr (MakeStatus STALE_HANDLE, session, batch, completion, w)
         else (case completion of None \<Rightarrow> Inr (MakeStatus INVALID_ARGUMENT, session, batch, completion, w)
         | Some c \<Rightarrow>
           if cp_live c \<or> stream = 0
           then Inr (MakeStatus INVALID_ARGUMENT, session, batch, completion, w)
           else if check_combine s input output \<noteq> OK
           then Inr (MakeStatus (check_combine s input output), session, batch, completion, w)
           else rbind (invoke (bo_combine (ss_backend s))) (\<lambda>combine.
             let (code, completion_ticket, w') =
               combine (ss_backend_context s) (bh_id b) (bh_ticket b) input output stream w in
             if code \<noteq> OK then Inr (MakeStatus code, session, batch, completion, w')
             else if ss_live_batches s = 0
             then Inr (MakeStatus BACKEND_ERROR, session, Some (b\<lparr>bh_live := False\<rparr>), completion, w')
             else Inr (MakeStatus OK, Some (s\<lparr>ss_live_batches := ss_live_batches s - 1\<rparr>),
               Some (b\<lparr>bh_live := False\<rparr>),
               Some (c\<lparr>cp_ticket := completion_ticket, cp_live := True\<rparr>), w')))
     | _ \<Rightarrow> Inr (MakeStatus INVALID_ARGUMENT, session, batch, completion, w))"

definition CombineFp32Async ::
  "u64 \<Rightarrow> u32 \<Rightarrow> u64 \<Rightarrow> u64 \<Rightarrow> u32 \<Rightarrow> u64 \<Rightarrow> Stream \<Rightarrow>
     'b SingleIncSession option \<times> BatchHandle option \<times> Completion option \<times> 'b \<Rightarrow>
     (StatusCode, ApiStatus \<times> 'b SingleIncSession option \<times> BatchHandle option \<times> Completion option \<times> 'b) res" where
  "CombineFp32Async send_buffer send_count send_token_ids recv_buffer recv_capacity recv_count stream objs =
     (let input = \<lparr> ci_send_buffer = send_buffer, ci_send_token_ids = send_token_ids, ci_send_count = send_count \<rparr>;
          output = \<lparr> cu_recv_buffer = recv_buffer, cu_recv_capacity = recv_capacity, cu_recv_count = recv_count \<rparr>;
          worker = (case fst objs of None \<Rightarrow> False | Some s \<Rightarrow> ss_initialized s \<and> Worker s)
      in CombineAsync (if worker then Some input else None) (if worker then Some output else None) stream objs)"

definition batch_release ::
  "'b SingleIncSession option \<times> BatchHandle option \<times> 'b \<Rightarrow>
     (StatusCode, ApiStatus \<times> 'b SingleIncSession option \<times> BatchHandle option \<times> 'b) res" where
  "batch_release = (\<lambda>(session, batch, w).
     case (session, batch) of
       (Some s, Some b) \<Rightarrow>
         if \<not> ss_initialized s \<or> \<not> bh_live b \<or> bh_session_id b \<noteq> sc_session_id (ss_config s)
         then Inr (MakeStatus STALE_HANDLE, session, batch, w)
         else rbind (invoke (bo_release_batch (ss_backend s))) (\<lambda>release_batch.
           let (code, w') = release_batch (ss_backend_context s) (bh_ticket b) w in
           if code \<noteq> OK then Inr (MakeStatus code, session, batch, w')
           else if ss_live_batches s = 0
           then Inr (MakeStatus BACKEND_ERROR, session, Some (b\<lparr>bh_live := False\<rparr>), w')
           else Inr (MakeStatus OK, Some (s\<lparr>ss_live_batches := ss_live_batches s - 1\<rparr>),
             Some (b\<lparr>bh_live := False\<rparr>), w'))
     | _ \<Rightarrow> Inr (MakeStatus STALE_HANDLE, session, batch, w))"

definition completion_query ::
  "Completion \<Rightarrow> 'b SingleIncSession option \<times> 'b \<Rightarrow> (StatusCode, ApiStatus \<times> 'b) res" where
  "completion_query completion = (\<lambda>(session, w).
     case session of None \<Rightarrow> Inr (MakeStatus INVALID_ARGUMENT, w)
     | Some s \<Rightarrow>
       if \<not> ss_initialized s \<or> \<not> cp_live completion then Inr (MakeStatus INVALID_ARGUMENT, w)
       else rbind (invoke (bo_query (ss_backend s))) (\<lambda>query.
         let (code, w') = query (ss_backend_context s) (cp_ticket completion) w in
         Inr (MakeStatus code, w')))"

definition completion_wait ::
  "Completion \<Rightarrow> u64 \<Rightarrow> 'b SingleIncSession option \<times> 'b \<Rightarrow> (StatusCode, ApiStatus \<times> 'b) res" where
  "completion_wait completion timeout_ns = (\<lambda>(session, w).
     case session of None \<Rightarrow> Inr (MakeStatus INVALID_ARGUMENT, w)
     | Some s \<Rightarrow>
       if \<not> ss_initialized s \<or> \<not> cp_live completion then Inr (MakeStatus INVALID_ARGUMENT, w)
       else rbind (invoke (bo_wait (ss_backend s))) (\<lambda>wait.
         let (code, w') = wait (ss_backend_context s) (cp_ticket completion) timeout_ns w in
         Inr (MakeStatus code, w')))"

text \<open>The dense top-k overload of \<open>shmem_dispatch_alltoall_inc\<close> builds its input itself.\<close>

definition shmem_dispatch_alltoall_inc_topk ::
  "ApiDataType \<Rightarrow> WaveId \<Rightarrow> u64 \<Rightarrow> u64 \<Rightarrow> u64 \<Rightarrow> u64 \<Rightarrow> u64 \<Rightarrow> u32 \<Rightarrow> u32 \<Rightarrow> DispatchOutput option \<Rightarrow> Stream \<Rightarrow>
     'b SingleIncSession option \<times> BatchHandle option \<times> Completion option \<times> 'b \<Rightarrow>
     (StatusCode, ApiStatus \<times> 'b SingleIncSession option \<times> BatchHandle option \<times> Completion option \<times> 'b) res" where
  "shmem_dispatch_alltoall_inc_topk dtype wave_id send_buffer send_token_ids send_k_gpus send_k_expert_ids
     send_k_expert_weights token_count topk output stream objs =
     (if topk = 0 \<or> token_count > 0xffffffff div topk
      then Inr (\<lparr> st_code = INVALID_ARGUMENT, st_message = ''invalid argument'' \<rparr>, objs)
      else DispatchAsync dtype wave_id (Some \<lparr> di_send_buffer = send_buffer, di_send_token_ids = send_token_ids,
          di_assignment_offsets = 0, di_destination_gpus = send_k_gpus, di_expert_ids = send_k_expert_ids,
          di_ordinals = 0, di_expert_weights = send_k_expert_weights, di_token_count = token_count,
          di_assignment_count = token_count * topk, di_fixed_topk = topk \<rparr>) output stream objs)"

section \<open>A client of the front end\<close>

text \<open>
  A client owns a session, batch handles and completions and passes their addresses: a position in
  the list, or null. It writes handles only through the API; it may reset a completion it has waited
  for.
\<close>

record 'b client =
  ac_session :: "'b SingleIncSession"
  ac_batches :: "BatchHandle list"
  ac_completions :: "Completion list"
  ac_world :: 'b

definition at :: "'a list \<Rightarrow> nat option \<Rightarrow> 'a option" where
  "at xs p = (case p of None \<Rightarrow> None | Some i \<Rightarrow> if i < length xs then Some (xs ! i) else None)"

definition put :: "'a list \<Rightarrow> nat option \<Rightarrow> 'a option \<Rightarrow> 'a list" where
  "put xs p v = (case (p, v) of (Some i, Some x) \<Rightarrow> xs[i := x] | _ \<Rightarrow> xs)"

datatype 'b api_call =
    A_create SessionConfig "'b BackendOps" u64 | A_destroy
  | A_dispatch ApiDataType WaveId "DispatchInput option" "DispatchOutput option" Stream "nat option" "nat option"
  | A_combine "CombineInput option" "CombineOutput option" Stream "nat option" "nat option"
  | A_release "nat option" | A_query nat | A_wait nat u64 | A_reset nat

definition with_objects ::
  "(StatusCode, ApiStatus \<times> 'b SingleIncSession option \<times> BatchHandle option \<times> Completion option \<times> 'b) res \<Rightarrow>
     nat option \<Rightarrow> nat option \<Rightarrow> 'b client \<Rightarrow> (StatusCode, ApiStatus \<times> 'b client) res" where
  "with_objects r bp cp c = rbind r (\<lambda>(st, s, b, q, w).
     Inr (st, \<lparr> ac_session = (case s of None \<Rightarrow> ac_session c | Some x \<Rightarrow> x),
       ac_batches = put (ac_batches c) bp b, ac_completions = put (ac_completions c) cp q, ac_world = w \<rparr>))"

fun api_exec :: "'b api_call \<Rightarrow> 'b client \<Rightarrow> (StatusCode, ApiStatus \<times> 'b client) res" where
  "api_exec (A_create config ops ctx) c =
     with_objects (rbind (single_inc_create config ops ctx (Some (ac_session c), ac_world c))
       (\<lambda>(st, s, w). Inr (st, s, None, None, w))) None None c"
| "api_exec A_destroy c =
     with_objects (rbind (single_inc_destroy (Some (ac_session c), ac_world c))
       (\<lambda>(st, s, w). Inr (st, s, None, None, w))) None None c"
| "api_exec (A_dispatch dtype wave_id input output stream bp cp) c =
     with_objects (DispatchAsync dtype wave_id input output stream
       (Some (ac_session c), at (ac_batches c) bp, at (ac_completions c) cp, ac_world c)) bp cp c"
| "api_exec (A_combine input output stream bp cp) c =
     with_objects (CombineAsync input output stream
       (Some (ac_session c), at (ac_batches c) bp, at (ac_completions c) cp, ac_world c)) bp cp c"
| "api_exec (A_release bp) c =
     with_objects (rbind (batch_release (Some (ac_session c), at (ac_batches c) bp, ac_world c))
       (\<lambda>(st, s, b, w). Inr (st, s, b, None, w))) bp None c"
| "api_exec (A_query i) c =
     (case at (ac_completions c) (Some i) of None \<Rightarrow> Inr (MakeStatus INVALID_ARGUMENT, c)
      | Some q \<Rightarrow> rbind (completion_query q (Some (ac_session c), ac_world c))
          (\<lambda>(st, w). Inr (st, c\<lparr>ac_world := w\<rparr>)))"
| "api_exec (A_wait i timeout) c =
     (case at (ac_completions c) (Some i) of None \<Rightarrow> Inr (MakeStatus INVALID_ARGUMENT, c)
      | Some q \<Rightarrow> rbind (completion_wait q timeout (Some (ac_session c), ac_world c))
          (\<lambda>(st, w). Inr (st, c\<lparr>ac_world := w\<rparr>)))"
| "api_exec (A_reset i) c =
     Inr (MakeStatus OK, c\<lparr>ac_completions := put (ac_completions c) (Some i)
       (Some \<lparr> cp_ticket = \<lparr> tk_words = (0, 0, 0, 0) \<rparr>, cp_live = False \<rparr>)\<rparr>)"

inductive api_run :: "'b client \<Rightarrow> ('b api_call \<times> ApiStatus) list \<Rightarrow> 'b client \<Rightarrow> bool" where
  start: "api_run c [] c"
| step: "api_run c tr c' \<Longrightarrow> api_exec a c' = Inr (st, c'') \<Longrightarrow> api_run c (tr @ [(a, st)]) c''"

definition new_client :: "'b client \<Rightarrow> bool" where
  "new_client c \<longleftrightarrow> ac_session c = SingleIncSession_init \<and> (\<forall>b \<in> set (ac_batches c). \<not> bh_live b) \<and>
     length (ac_batches c) < 2 ^ 32"

definition api_inv :: "'b client \<Rightarrow> bool" where
  "api_inv c \<longleftrightarrow>
     (ss_initialized (ac_session c) \<longrightarrow>
        backend_complete (ss_backend (ac_session c)) \<and> ValidSessionConfig (ss_config (ac_session c))) \<and>
     unat (ss_live_batches (ac_session c)) = length (filter bh_live (ac_batches c)) \<and>
     (\<forall>b \<in> set (ac_batches c). bh_live b \<longrightarrow>
        ss_initialized (ac_session c) \<and> bh_session_id b = sc_session_id (ss_config (ac_session c))) \<and>
     length (ac_batches c) < 2 ^ 32"

text \<open>The two list updates of the API: a dead handle comes to life, a live one dies.\<close>

lemma count_live:
  assumes "i < length bs"
  shows "bh_live (bs ! i) \<Longrightarrow> \<not> bh_live b \<Longrightarrow> length (filter bh_live bs) = Suc (length (filter bh_live (bs[i := b])))"
    and "\<not> bh_live (bs ! i) \<Longrightarrow> bh_live b \<Longrightarrow> length (filter bh_live (bs[i := b])) = Suc (length (filter bh_live bs))"
  using assms by (induction bs arbitrary: i) (auto split: nat.splits)

lemma at_put [simp]: "put xs p (at xs p) = xs" "put xs None v = xs" "put xs p None = xs"
  by (auto simp: at_def put_def split: option.splits)

lemma at_Some: "at xs p = Some x \<longleftrightarrow> (\<exists>i. p = Some i \<and> i < length xs \<and> x = xs ! i)"
  by (auto simp: at_def split: option.splits if_splits)

section \<open>What each operation does\<close>

text \<open>
  An operation either leaves every object alone and answers something other than \<open>OK\<close>, or makes its
  one change and answers \<open>OK\<close>.
\<close>

lemma MakeStatus_code [simp]: "st_code (MakeStatus c) = c"
  by (simp add: MakeStatus_def)

lemma invoke_complete:
  assumes "backend_complete b"
  shows "invoke (bo_create b) = Inr (the (bo_create b))" "invoke (bo_destroy b) = Inr (the (bo_destroy b))"
    "invoke (bo_dispatch b) = Inr (the (bo_dispatch b))" "invoke (bo_combine b) = Inr (the (bo_combine b))"
    "invoke (bo_query b) = Inr (the (bo_query b))" "invoke (bo_wait b) = Inr (the (bo_wait b))"
    "invoke (bo_release_batch b) = Inr (the (bo_release_batch b))"
  using assms by (auto simp: backend_complete_def invoke_def)

lemma create_cases:
  "(\<exists>st w'. single_inc_create config ops ctx (Some s, w) = Inr (st, Some s, w') \<and> st_code st \<noteq> OK) \<or>
   (\<exists>w'. single_inc_create config ops ctx (Some s, w) = Inr (MakeStatus OK, Some (s\<lparr>ss_config := config,
       ss_backend := ops, ss_backend_context := ctx, ss_initialized := True\<rparr>), w') \<and>
     \<not> ss_initialized s \<and> ValidSessionConfig config \<and> backend_complete ops)"
  by (auto simp: single_inc_create_def invoke_complete split: prod.splits)

lemma destroy_cases:
  assumes "ss_initialized s \<longrightarrow> backend_complete (ss_backend s)"
  shows "(\<exists>st w'. single_inc_destroy (Some s, w) = Inr (st, Some s, w') \<and> st_code st \<noteq> OK) \<or>
   (\<exists>w'. single_inc_destroy (Some s, w) = Inr (MakeStatus OK, Some SingleIncSession_init, w') \<and>
     ss_initialized s \<and> ss_live_batches s = 0)"
  using assms by (auto simp: single_inc_destroy_def invoke_complete split: prod.splits)

lemma dispatch_cases:
  assumes "ss_initialized s \<longrightarrow> backend_complete (ss_backend s)"
  shows "(\<exists>st w'. DispatchAsync dtype i input outp stream (Some s, b, q, w) = Inr (st, Some s, b, q, w') \<and> st_code st \<noteq> OK) \<or>
   (\<exists>b0 q0 t1 t2 w'. b = Some b0 \<and> q = Some q0 \<and>
     DispatchAsync dtype i input outp stream (Some s, b, q, w) =
       Inr (MakeStatus OK, Some (s\<lparr>ss_live_batches := ss_live_batches s + 1\<rparr>),
         Some (b0\<lparr>bh_session_id := sc_session_id (ss_config s), bh_id := i, bh_ticket := t1, bh_live := True\<rparr>),
         Some (q0\<lparr>cp_ticket := t2, cp_live := True\<rparr>), w') \<and>
     ss_initialized s \<and> \<not> bh_live b0 \<and> \<not> cp_live q0 \<and> check_dispatch s dtype input outp = OK \<and>
     DataTypeBytes dtype \<noteq> 0)"
proof (cases "b = None \<or> q = None")
  case False
  then obtain b0 q0 where o: "b = Some b0" "q = Some q0" by auto
  show ?thesis
  proof (cases "ss_initialized s")
    case True
    note f = invoke_complete(3) [OF assms [rule_format, OF True]]
    obtain code t1 t2 w' where "the (bo_dispatch (ss_backend s)) (ss_backend_context s) dtype i input outp stream w = (code, t1, t2, w')"
      by (metis prod_cases4)
    then show ?thesis using True by (auto simp: DispatchAsync_def o f)
  qed (simp add: DispatchAsync_def o)
qed (cases b, auto simp: DispatchAsync_def)

lemma combine_cases:
  assumes "ss_initialized s \<longrightarrow> backend_complete (ss_backend s)"
    and "\<forall>b0. b = Some b0 \<and> bh_live b0 \<longrightarrow> ss_live_batches s \<noteq> 0"
  shows "(\<exists>st w'. CombineAsync input outp stream (Some s, b, q, w) = Inr (st, Some s, b, q, w') \<and> st_code st \<noteq> OK) \<or>
   (\<exists>b0 q0 t w'. b = Some b0 \<and> q = Some q0 \<and>
     CombineAsync input outp stream (Some s, b, q, w) =
       Inr (MakeStatus OK, Some (s\<lparr>ss_live_batches := ss_live_batches s - 1\<rparr>), Some (b0\<lparr>bh_live := False\<rparr>),
         Some (q0\<lparr>cp_ticket := t, cp_live := True\<rparr>), w') \<and>
     ss_initialized s \<and> bh_live b0 \<and> \<not> cp_live q0 \<and> check_combine s input outp = OK)"
proof (cases "b = None \<or> q = None")
  case False
  then obtain b0 q0 where o: "b = Some b0" "q = Some q0" by auto
  show ?thesis
  proof (cases "ss_initialized s \<and> bh_live b0")
    case True
    then have f: "backend_complete (ss_backend s)" using assms(1) by simp
    obtain code t w' where "the (bo_combine (ss_backend s)) (ss_backend_context s) (bh_id b0) (bh_ticket b0) input outp stream w = (code, t, w')"
      by (metis prod_cases3)
    then show ?thesis using True f assms(2) o(1) by (auto simp: CombineAsync_def o invoke_complete)
  qed (auto simp: CombineAsync_def o)
qed (auto simp: CombineAsync_def split: option.splits)

lemma release_cases:
  assumes "ss_initialized s \<longrightarrow> backend_complete (ss_backend s)"
    and "\<forall>b0. b = Some b0 \<and> bh_live b0 \<longrightarrow> ss_live_batches s \<noteq> 0"
  shows "(\<exists>st w'. batch_release (Some s, b, w) = Inr (st, Some s, b, w') \<and> st_code st \<noteq> OK) \<or>
   (\<exists>b0 w'. b = Some b0 \<and> batch_release (Some s, b, w) =
       Inr (MakeStatus OK, Some (s\<lparr>ss_live_batches := ss_live_batches s - 1\<rparr>), Some (b0\<lparr>bh_live := False\<rparr>), w') \<and>
     ss_initialized s \<and> bh_live b0)"
proof (cases b)
  case (Some b0)
  show ?thesis
  proof (cases "ss_initialized s \<and> bh_live b0")
    case True
    then have f: "backend_complete (ss_backend s)" using assms(1) by simp
    obtain code w' where "the (bo_release_batch (ss_backend s)) (ss_backend_context s) (bh_ticket b0) w = (code, w')"
      by (metis surj_pair)
    then show ?thesis using True f assms(2) Some by (auto simp: batch_release_def Some invoke_complete)
  qed (auto simp: batch_release_def Some)
qed (simp add: batch_release_def)

section \<open>The invariant\<close>

lemma live_handle_counted:
  assumes "api_inv c"
  shows "\<forall>b. at (ac_batches c) p = Some b \<and> bh_live b \<longrightarrow> ss_live_batches (ac_session c) \<noteq> 0"
proof (intro allI impI)
  fix b assume "at (ac_batches c) p = Some b \<and> bh_live b"
  then have "b \<in> set (filter bh_live (ac_batches c))" by (auto simp: at_Some)
  then have "length (filter bh_live (ac_batches c)) \<noteq> 0" by (metis empty_iff length_0_conv list.set(1))
  then have "unat (ss_live_batches (ac_session c)) \<noteq> 0" using assms by (simp add: api_inv_def)
  then show "ss_live_batches (ac_session c) \<noteq> 0" by auto
qed

lemma inv_session:
  assumes "api_inv c"
  shows "ss_initialized (ac_session c) \<longrightarrow> backend_complete (ss_backend (ac_session c))"
  using assms by (simp add: api_inv_def)

text \<open>A batch comes to life, a batch dies.\<close>

lemma inv_add:
  assumes inv: "api_inv c" and i: "i < length (ac_batches c)" "\<not> bh_live (ac_batches c ! i)"
    and s: "ss_initialized (ac_session c)"
    and b: "bh_live b" "bh_session_id b = sc_session_id (ss_config (ac_session c))"
  shows "api_inv \<lparr> ac_session = (ac_session c)\<lparr>ss_live_batches := ss_live_batches (ac_session c) + 1\<rparr>,
    ac_batches = (ac_batches c)[i := b], ac_completions = qs, ac_world = w \<rparr>"
proof -
  have n: "length (filter bh_live ((ac_batches c)[i := b])) = Suc (length (filter bh_live (ac_batches c)))"
    by (rule count_live(2) [OF i b(1)])
  moreover have "length (filter bh_live ((ac_batches c)[i := b])) \<le> length (ac_batches c)"
    using length_filter_le [of bh_live "(ac_batches c)[i := b]"] by simp
  ultimately have "unat (ss_live_batches (ac_session c) + 1) = Suc (length (filter bh_live (ac_batches c)))"
    using inv unat_add_of_nat [of "ss_live_batches (ac_session c)" 1] by (simp add: api_inv_def)
  then show ?thesis
    using inv n s b set_update_subset_insert [of "ac_batches c" i b] by (auto simp: api_inv_def)
qed

lemma inv_remove:
  assumes inv: "api_inv c" and i: "i < length (ac_batches c)" "bh_live (ac_batches c ! i)" and b: "\<not> bh_live b"
  shows "api_inv \<lparr> ac_session = (ac_session c)\<lparr>ss_live_batches := ss_live_batches (ac_session c) - 1\<rparr>,
    ac_batches = (ac_batches c)[i := b], ac_completions = qs, ac_world = w \<rparr>"
proof -
  have n: "length (filter bh_live (ac_batches c)) = Suc (length (filter bh_live ((ac_batches c)[i := b])))"
    by (rule count_live(1) [OF i b])
  have ne: "ss_live_batches (ac_session c) \<noteq> 0"
    using live_handle_counted [OF inv, of "Some i"] i by (simp add: at_def)
  then have "unat (ss_live_batches (ac_session c) - 1) = length (filter bh_live ((ac_batches c)[i := b]))"
    using inv n unat_sub [of 1 "ss_live_batches (ac_session c)"]
    by (simp add: api_inv_def word_le_nat_alt unat_gt_0 Suc_leI)
  then show ?thesis
    using inv b set_update_subset_insert [of "ac_batches c" i b] by (auto simp: api_inv_def)
qed

text \<open>
  Every call of a client in a good state returns, keeps the state good, and changes the objects only
  when it answers \<open>OK\<close>.
\<close>

definition same_objects :: "'b client \<Rightarrow> 'b client \<Rightarrow> bool" where
  "same_objects c c' \<longleftrightarrow> ac_session c' = ac_session c \<and> ac_batches c' = ac_batches c \<and>
     ac_completions c' = ac_completions c"

definition api_step_ok :: "'b api_call \<Rightarrow> 'b client \<Rightarrow> ApiStatus \<Rightarrow> 'b client \<Rightarrow> bool" where
  "api_step_ok a c st c' \<longleftrightarrow> api_inv c' \<and> (st_code st \<noteq> OK \<longrightarrow> same_objects c c') \<and>
     (st_code st = OK \<longrightarrow> (case a of
        A_dispatch _ _ _ _ _ bp _ \<Rightarrow> (\<exists>i b. bp = Some i \<and> i < length (ac_batches c) \<and>
          \<not> bh_live (ac_batches c ! i) \<and> ac_batches c' = (ac_batches c)[i := b] \<and> bh_live b)
      | A_combine _ _ _ bp _ \<Rightarrow> (\<exists>i b. bp = Some i \<and> i < length (ac_batches c) \<and>
          bh_live (ac_batches c ! i) \<and> ac_batches c' = (ac_batches c)[i := b] \<and> \<not> bh_live b)
      | A_release bp \<Rightarrow> (\<exists>i b. bp = Some i \<and> i < length (ac_batches c) \<and>
          bh_live (ac_batches c ! i) \<and> ac_batches c' = (ac_batches c)[i := b] \<and> \<not> bh_live b)
      | _ \<Rightarrow> ac_batches c' = ac_batches c))"

lemma step_dispatch:
  assumes inv: "api_inv c"
  shows "\<exists>st c'. api_exec (A_dispatch dtype i input outp stream bp cp) c = Inr (st, c') \<and>
    api_step_ok (A_dispatch dtype i input outp stream bp cp) c st c'"
  using dispatch_cases [OF inv_session [OF inv], where dtype = dtype and i = i and input = input and outp = outp
      and stream = stream and b = "at (ac_batches c) bp" and q = "at (ac_completions c) cp" and w = "ac_world c"]
proof (elim disjE exE conjE)
  fix st w'
  assume "DispatchAsync dtype i input outp stream
      (Some (ac_session c), at (ac_batches c) bp, at (ac_completions c) cp, ac_world c) =
      Inr (st, Some (ac_session c), at (ac_batches c) bp, at (ac_completions c) cp, w')" and "st_code st \<noteq> OK"
  then show ?thesis using inv by (simp add: with_objects_def api_step_ok_def same_objects_def api_inv_def)
next
  fix b0 q0 t1 t2 w'
  assume a: "at (ac_batches c) bp = Some b0" "at (ac_completions c) cp = Some q0" "ss_initialized (ac_session c)"
      "\<not> bh_live b0"
    and run: "DispatchAsync dtype i input outp stream
      (Some (ac_session c), at (ac_batches c) bp, at (ac_completions c) cp, ac_world c) =
      Inr (MakeStatus OK, Some ((ac_session c)\<lparr>ss_live_batches := ss_live_batches (ac_session c) + 1\<rparr>),
        Some (b0\<lparr>bh_session_id := sc_session_id (ss_config (ac_session c)), bh_id := i, bh_ticket := t1,
          bh_live := True\<rparr>), Some (q0\<lparr>cp_ticket := t2, cp_live := True\<rparr>), w')"
  obtain j where j: "bp = Some j" "j < length (ac_batches c)" "b0 = ac_batches c ! j" using a(1) by (auto simp: at_Some)
  have "api_inv \<lparr> ac_session = (ac_session c)\<lparr>ss_live_batches := ss_live_batches (ac_session c) + 1\<rparr>,
      ac_batches = (ac_batches c)[j := b0\<lparr>bh_session_id := sc_session_id (ss_config (ac_session c)), bh_id := i,
        bh_ticket := t1, bh_live := True\<rparr>], ac_completions = qs, ac_world = w' \<rparr>" for qs
    by (rule inv_add [OF inv j(2)]) (use a j in simp_all)
  moreover have "\<exists>b. (ac_batches c)[j := b0\<lparr>bh_session_id := sc_session_id (ss_config (ac_session c)), bh_id := i,
        bh_ticket := t1, bh_live := True\<rparr>] = (ac_batches c)[j := b] \<and> bh_live b"
    by (intro exI conjI, rule refl) simp
  ultimately show ?thesis using run j a(4)
    by (simp add: with_objects_def api_step_ok_def put_def)
qed

lemma step_remove:
  assumes inv: "api_inv c" and b: "at (ac_batches c) bp = Some b0" "bh_live b0"
    and r: "r = Inr (MakeStatus OK, Some ((ac_session c)\<lparr>ss_live_batches := ss_live_batches (ac_session c) - 1\<rparr>),
        Some (b0\<lparr>bh_live := False\<rparr>), q, w')"
  shows "\<exists>c' i b. with_objects r bp cp c = Inr (MakeStatus OK, c') \<and> api_inv c' \<and> bp = Some i \<and>
    i < length (ac_batches c) \<and> bh_live (ac_batches c ! i) \<and> ac_batches c' = (ac_batches c)[i := b] \<and> \<not> bh_live b"
proof -
  obtain i where i: "bp = Some i" "i < length (ac_batches c)" "b0 = ac_batches c ! i" using b(1) by (auto simp: at_Some)
  have "api_inv \<lparr> ac_session = (ac_session c)\<lparr>ss_live_batches := ss_live_batches (ac_session c) - 1\<rparr>,
      ac_batches = (ac_batches c)[i := b0\<lparr>bh_live := False\<rparr>], ac_completions = put (ac_completions c) cp q, ac_world = w' \<rparr>"
    by (rule inv_remove [OF inv i(2)]) (use b(2) i(3) in simp_all)
  then show ?thesis
    using i b(2) by (intro exI [of _ "\<lparr> ac_session = (ac_session c)\<lparr>ss_live_batches := ss_live_batches (ac_session c) - 1\<rparr>,
      ac_batches = (ac_batches c)[i := b0\<lparr>bh_live := False\<rparr>], ac_completions = put (ac_completions c) cp q, ac_world = w' \<rparr>"]
        exI [of _ i] exI [of _ "b0\<lparr>bh_live := False\<rparr>"]) (simp add: r with_objects_def put_def)
qed

lemma step_combine:
  assumes inv: "api_inv c"
  shows "\<exists>st c'. api_exec (A_combine input outp stream bp cp) c = Inr (st, c') \<and>
    api_step_ok (A_combine input outp stream bp cp) c st c'"
  using combine_cases [OF inv_session [OF inv] live_handle_counted [OF inv, of bp], where
       input = input and outp = outp and stream = stream and q = "at (ac_completions c) cp" and w = "ac_world c"]
proof (elim disjE exE conjE)
  fix st w'
  assume "CombineAsync input outp stream
      (Some (ac_session c), at (ac_batches c) bp, at (ac_completions c) cp, ac_world c) =
      Inr (st, Some (ac_session c), at (ac_batches c) bp, at (ac_completions c) cp, w')" and "st_code st \<noteq> OK"
  then show ?thesis using inv by (simp add: with_objects_def api_step_ok_def same_objects_def api_inv_def)
next
  fix b0 q0 t w'
  assume "at (ac_batches c) bp = Some b0" "bh_live b0"
    and "CombineAsync input outp stream
      (Some (ac_session c), at (ac_batches c) bp, at (ac_completions c) cp, ac_world c) =
      Inr (MakeStatus OK, Some ((ac_session c)\<lparr>ss_live_batches := ss_live_batches (ac_session c) - 1\<rparr>),
        Some (b0\<lparr>bh_live := False\<rparr>), Some (q0\<lparr>cp_ticket := t, cp_live := True\<rparr>), w')"
  from step_remove [OF inv this, of cp] show ?thesis by (auto simp: api_step_ok_def)
qed

lemma step_release:
  assumes inv: "api_inv c"
  shows "\<exists>st c'. api_exec (A_release bp) c = Inr (st, c') \<and> api_step_ok (A_release bp) c st c'"
  using release_cases [OF inv_session [OF inv] live_handle_counted [OF inv, of bp], where
       w = "ac_world c"]
proof (elim disjE exE conjE)
  fix st w'
  assume "batch_release (Some (ac_session c), at (ac_batches c) bp, ac_world c) =
      Inr (st, Some (ac_session c), at (ac_batches c) bp, w')" and "st_code st \<noteq> OK"
  then show ?thesis using inv by (simp add: with_objects_def api_step_ok_def same_objects_def api_inv_def)
next
  fix b0 w'
  assume b: "at (ac_batches c) bp = Some b0" "bh_live b0"
    and r: "batch_release (Some (ac_session c), at (ac_batches c) bp, ac_world c) =
      Inr (MakeStatus OK, Some ((ac_session c)\<lparr>ss_live_batches := ss_live_batches (ac_session c) - 1\<rparr>),
        Some (b0\<lparr>bh_live := False\<rparr>), w')"
  have "\<exists>c' i b. with_objects (Inr (MakeStatus OK, Some ((ac_session c)\<lparr>ss_live_batches := ss_live_batches (ac_session c) - 1\<rparr>),
        Some (b0\<lparr>bh_live := False\<rparr>), None, w')) bp None c = Inr (MakeStatus OK, c') \<and> api_inv c' \<and> bp = Some i \<and>
      i < length (ac_batches c) \<and> bh_live (ac_batches c ! i) \<and> ac_batches c' = (ac_batches c)[i := b] \<and> \<not> bh_live b"
    by (rule step_remove [OF inv b refl])
  then show ?thesis by (auto simp: api_step_ok_def r)
qed

lemma step_create:
  assumes inv: "api_inv c"
  shows "\<exists>st c'. api_exec (A_create config ops ctx) c = Inr (st, c') \<and> api_step_ok (A_create config ops ctx) c st c'"
  using create_cases [of config ops ctx "ac_session c" "ac_world c"]
proof (elim disjE exE conjE)
  fix st w'
  assume "single_inc_create config ops ctx (Some (ac_session c), ac_world c) = Inr (st, Some (ac_session c), w')"
    and "st_code st \<noteq> OK"
  then show ?thesis using inv by (simp add: with_objects_def api_step_ok_def same_objects_def api_inv_def)
next
  fix w'
  assume r: "single_inc_create config ops ctx (Some (ac_session c), ac_world c) = Inr (MakeStatus OK,
      Some ((ac_session c)\<lparr>ss_config := config, ss_backend := ops, ss_backend_context := ctx, ss_initialized := True\<rparr>), w')"
    and s: "\<not> ss_initialized (ac_session c)" "ValidSessionConfig config" "backend_complete ops"
  then show ?thesis using inv by (auto simp: with_objects_def api_step_ok_def api_inv_def)
qed

lemma step_destroy:
  assumes inv: "api_inv c"
  shows "\<exists>st c'. api_exec A_destroy c = Inr (st, c') \<and> api_step_ok A_destroy c st c' \<and>
    (st_code st = OK \<longrightarrow> filter bh_live (ac_batches c) = [])"
  using destroy_cases [OF inv_session [OF inv], of "ac_world c"]
proof (elim disjE exE conjE)
  fix st w'
  assume "single_inc_destroy (Some (ac_session c), ac_world c) = Inr (st, Some (ac_session c), w')"
    and "st_code st \<noteq> OK"
  then show ?thesis using inv by (simp add: with_objects_def api_step_ok_def same_objects_def api_inv_def)
next
  fix w'
  assume r: "single_inc_destroy (Some (ac_session c), ac_world c) = Inr (MakeStatus OK, Some SingleIncSession_init, w')"
    and s: "ss_live_batches (ac_session c) = 0"
  have "length (filter bh_live (ac_batches c)) = 0" using inv s by (simp add: api_inv_def)
  then have none: "filter bh_live (ac_batches c) = []" by simp
  then have "api_inv \<lparr> ac_session = SingleIncSession_init, ac_batches = ac_batches c,
      ac_completions = ac_completions c, ac_world = w' \<rparr>"
    using inv by (auto simp: api_inv_def SingleIncSession_init_def filter_empty_conv)
  then show ?thesis using r none by (simp add: with_objects_def api_step_ok_def)
qed

lemma step_others:
  assumes inv: "api_inv c" and "a = A_query i \<or> a = A_wait i t \<or> a = A_reset i"
  shows "\<exists>st c'. api_exec a c = Inr (st, c') \<and> api_step_ok a c st c'"
proof -
  have w: "api_inv (c\<lparr>ac_world := w'\<rparr>)" "api_inv (c\<lparr>ac_completions := qs\<rparr>)" for w' qs
    using inv by (simp_all add: api_inv_def)
  have q: "\<exists>st w'. completion_query q (Some (ac_session c), ac_world c) = Inr (st, w')"
    "\<exists>st w'. completion_wait q t (Some (ac_session c), ac_world c) = Inr (st, w')" for q
    using inv_session [OF inv]
    by (auto simp: completion_query_def completion_wait_def invoke_complete split: prod.splits)
  show ?thesis
  proof (cases "a = A_reset i")
    case True
    then show ?thesis using w by (simp add: api_step_ok_def)
  next
    case False
    obtain st w' where "at (ac_completions c) (Some i) = None \<or>
        (a = A_query i \<longrightarrow> completion_query (the (at (ac_completions c) (Some i))) (Some (ac_session c), ac_world c) = Inr (st, w')) \<and>
        (a = A_wait i t \<longrightarrow> completion_wait (the (at (ac_completions c) (Some i))) t (Some (ac_session c), ac_world c) = Inr (st, w'))"
      using q False assms(2) by (metis api_call.distinct)
    then show ?thesis
      using False assms(2) w inv
      by (auto simp: api_step_ok_def same_objects_def split: option.splits)
  qed
qed

lemma api_exec_step:
  assumes inv: "api_inv c"
  shows "\<exists>st c'. api_exec a c = Inr (st, c') \<and> api_step_ok a c st c'"
proof (cases a)
  case A_destroy
  then show ?thesis using step_destroy [OF inv] by blast
next
  case (A_query i)
  show ?thesis by (rule step_others [OF inv, where i = i and t = 0]) (simp add: A_query)
next
  case (A_wait i t)
  show ?thesis by (rule step_others [OF inv, where i = i and t = t]) (simp add: A_wait)
next
  case (A_reset i)
  show ?thesis by (rule step_others [OF inv, where i = i and t = 0]) (simp add: A_reset)
qed (simp_all only: step_create [OF inv] step_dispatch [OF inv] step_combine [OF inv] step_release [OF inv])

lemma api_run_inv:
  assumes "api_run c tr c'" and "new_client c"
  shows "api_inv c'"
  using assms
proof (induction rule: api_run.induct)
  case (start c)
  then show ?case by (auto simp: new_client_def api_inv_def SingleIncSession_init_def filter_empty_conv)
next
  case (step c tr c' a st c'')
  then show ?case using api_exec_step [of c' a] by (auto simp: api_step_ok_def)
qed

text \<open>
  C28 The batch counter. In every sequence of API calls of a new client, the session's
  counter is exactly the number of live batch handles, every live handle belongs to the open session,
  and the next call, whatever it is, returns: it never calls a null backend entry.
\<close>

theorem Frontend_live_batches:
  assumes "api_run c tr c'" and "new_client c"
  shows "unat (ss_live_batches (ac_session c')) = length (filter bh_live (ac_batches c')) \<and>
    (\<forall>b \<in> set (ac_batches c'). bh_live b \<longrightarrow> ss_initialized (ac_session c') \<and>
       bh_session_id b = sc_session_id (ss_config (ac_session c'))) \<and>
    (\<exists>st c''. api_exec a c' = Inr (st, c''))"
  using api_run_inv [OF assms] api_exec_step [of c' a] by (auto simp: api_inv_def)

text \<open>
  C30 Failure leaves no trace. In every run, a call whose status is not \<open>OK\<close> leaves the
  session, all batch handles and all completions as they were, so a client may retry it.
\<close>

theorem Frontend_failure_atomic:
  assumes "api_run c tr c'" and "new_client c" and "api_exec a c' = Inr (st, c'')" and "st_code st \<noteq> OK"
  shows "ac_session c'' = ac_session c' \<and> ac_batches c'' = ac_batches c' \<and> ac_completions c'' = ac_completions c'"
  using api_exec_step [OF api_run_inv [OF assms(1,2)], of a] assms(3,4)
  by (auto simp: api_step_ok_def same_objects_def)

text \<open>
  A session outlives its batches. In every run, \<open>single_inc_destroy\<close> answers \<open>OK\<close> only
  when no handle is live; while one is, it answers \<open>BUSY_SLOT\<close> without calling the backend.
\<close>

theorem Frontend_destroy_after_batches:
  assumes "api_run c tr c'" and "new_client c" and "api_exec A_destroy c' = Inr (st, c'')"
  shows "(st_code st = OK \<longrightarrow> (\<forall>b \<in> set (ac_batches c'). \<not> bh_live b)) \<and>
    ((\<exists>b \<in> set (ac_batches c'). bh_live b) \<longrightarrow> st_code st = BUSY_SLOT \<and> ac_world c'' = ac_world c')"
proof -
  have inv: "api_inv c'" by (rule api_run_inv [OF assms(1,2)])
  have "st_code st = OK \<longrightarrow> (\<forall>b \<in> set (ac_batches c'). \<not> bh_live b)"
    using step_destroy [OF inv] assms(3) by (auto simp: filter_empty_conv)
  moreover have "st_code st = BUSY_SLOT \<and> ac_world c'' = ac_world c'" if "\<exists>b \<in> set (ac_batches c'). bh_live b"
  proof -
    from that have "filter bh_live (ac_batches c') \<noteq> []" by (simp add: filter_empty_conv)
    then have "unat (ss_live_batches (ac_session c')) \<noteq> 0" using inv by (simp add: api_inv_def)
    then have "ss_live_batches (ac_session c') \<noteq> 0" by auto
    moreover have "ss_initialized (ac_session c')" using that inv by (auto simp: api_inv_def)
    ultimately show ?thesis using assms(3) by (auto simp: single_inc_destroy_def with_objects_def)
  qed
  ultimately show ?thesis by blast
qed

text \<open>The successful calls that open and close a batch on one handle.\<close>

definition opens :: "nat \<Rightarrow> 'b api_call \<times> ApiStatus \<Rightarrow> bool" where
  "opens i x \<longleftrightarrow> st_code (snd x) = OK \<and> (case fst x of A_dispatch _ _ _ _ _ bp _ \<Rightarrow> bp = Some i | _ \<Rightarrow> False)"

definition closes :: "nat \<Rightarrow> 'b api_call \<times> ApiStatus \<Rightarrow> bool" where
  "closes i x \<longleftrightarrow> st_code (snd x) = OK \<and>
     (case fst x of A_combine _ _ _ bp _ \<Rightarrow> bp = Some i | A_release bp \<Rightarrow> bp = Some i | _ \<Rightarrow> False)"

text \<open>
  C29 A batch is consumed once. On every handle the successful dispatches and the successful
  combines or releases alternate: in every run their numbers are equal when the handle is dead and
  differ by the one open dispatch when it is live.
\<close>

theorem Frontend_batch_consumed_once:
  assumes "api_run c tr c'" and "new_client c" and "i < length (ac_batches c)"
  shows "length (filter (opens i) tr) = length (filter (closes i) tr) + (if bh_live (ac_batches c' ! i) then 1 else 0)"
proof -
  have "length (ac_batches c') = length (ac_batches c) \<and>
      length (filter (opens i) tr) = length (filter (closes i) tr) + (if bh_live (ac_batches c' ! i) then 1 else 0)"
    using assms
  proof (induction rule: api_run.induct)
    case (start c)
    then show ?case by (simp add: new_client_def)
  next
    case (step c tr c' a st c'')
    have ok: "api_step_ok a c' st c''"
      using api_exec_step [OF api_run_inv [OF step.hyps(1) step.prems(1)], of a] step.hyps(2) by auto
    show ?case
    proof (cases "st_code st = OK")
      case False
      then show ?thesis using ok step by (simp add: api_step_ok_def same_objects_def opens_def closes_def)
    next
      case True
      then show ?thesis using ok step
        by (cases a) (auto simp: api_step_ok_def opens_def closes_def nth_list_update)
    qed
  qed
  then show ?thesis by simp
qed

section \<open>What the backend may rely on\<close>

lemma div_bound_u32: "(a :: u32) \<noteq> 0 \<Longrightarrow> \<not> b > 0xffffffff div a \<Longrightarrow> unat (b * a) = unat b * unat a"
proof -
  assume a: "a \<noteq> 0" and "\<not> b > 0xffffffff div a"
  then have "unat b \<le> 0xffffffff div unat a" by (simp add: not_less word_le_nat_alt unat_div)
  then have "unat b * unat a \<le> 0xffffffff" by (meson div_times_less_eq_dividend le_trans mult_le_mono1)
  then show "unat (b * a) = unat b * unat a" by (intro unat_mult_lem [THEN iffD1]) simp
qed

lemma div_bound_u64: "(a :: u64) \<noteq> 0 \<Longrightarrow> \<not> b > 0xffffffffffffffff div a \<Longrightarrow> unat (b * a) = unat b * unat a"
proof -
  assume a: "a \<noteq> 0" and "\<not> b > 0xffffffffffffffff div a"
  then have "unat b \<le> 0xffffffffffffffff div unat a" by (simp add: not_less word_le_nat_alt unat_div)
  then have "unat b * unat a \<le> 0xffffffffffffffff" by (meson div_times_less_eq_dividend le_trans mult_le_mono1)
  then show "unat (b * a) = unat b * unat a" by (intro unat_mult_lem [THEN iffD1]) simp
qed

lemma unat_mult_u32_u32: "unat ((ucast (a :: u32) :: u64) * ucast (b :: u32)) = unat a * unat b"
proof -
  have "unat a * unat b \<le> 0xffffffff * 0xffffffff"
    using unsigned_less [of a, where ?'a = nat] unsigned_less [of b, where ?'a = nat] by (intro mult_le_mono) simp_all
  then have "unat (ucast a :: u64) * unat (ucast b :: u64) < 2 ^ 64" by (simp add: unat_ucast_u64)
  then show ?thesis using unat_mult_lem [of "ucast a :: u64" "ucast b"] by (simp add: unat_ucast_u64)
qed

text \<open>
  The checks in front of the backend. When \<open>DispatchAsync\<close> answers \<open>OK\<close> on a worker, the
  backend was called with both structures present, a receive buffer that holds every row of the
  declared capacity at the session's hidden size, an assignment count inside both limits, and, with a
  fixed top-k, exactly tokens times top-k assignments; all products are exact, none has wrapped.
\<close>

lemma DispatchAsync_checked:
  assumes "DispatchAsync dtype wave_id input outp stream (Some s, batch, completion, w) = Inr (st, rest)"
    and "st_code st = OK" and "Worker s"
    and "ss_initialized s \<longrightarrow> backend_complete (ss_backend s)"
  shows "\<exists>i out. input = Some i \<and> outp = Some out \<and>
    unat (do_row_capacity out) * unat (sc_hidden (ss_config s)) * unat (DataTypeBytes dtype)
      \<le> unat (do_recv_capacity_bytes out) \<and>
    di_token_count i \<le> sc_max_tokens_per_rank (ss_config s) \<and>
    di_assignment_count i \<le> sc_max_assignments_per_rank (ss_config s) \<and>
    di_assignment_count i \<le> do_assignment_capacity out \<and>
    (di_fixed_topk i \<noteq> 0 \<longrightarrow> unat (di_assignment_count i) = unat (di_token_count i) * unat (di_fixed_topk i))"
proof -
  from dispatch_cases [OF assms(4), where dtype = dtype and i = wave_id and input = input and outp = outp and stream = stream
      and b = batch and q = completion and w = w] assms(1,2)
  have chk: "check_dispatch s dtype input outp = OK" and bytes: "DataTypeBytes dtype \<noteq> 0" by auto
  obtain i out where io: "input = Some i" "outp = Some out" and wa: "\<not> worker_arguments_bad (ss_config s) i out"
    and tk: "\<not> topk_bad i" and cap: "\<not> capacity_bad (ss_config s) dtype i out"
    using chk assms(3) by (auto simp: check_dispatch_def split: option.splits if_splits)
  let ?e = "(ucast (do_row_capacity out) :: u64) * ucast (sc_hidden (ss_config s))"
  let ?b = "ucast (DataTypeBytes dtype) :: u64"
  have b: "?b \<noteq> 0" using bytes unat_ucast_u64 [of "DataTypeBytes dtype"] by (metis unat_eq_zero)
  have e: "\<not> ?e > 0xffffffffffffffff div ?b" "?e * ?b \<le> do_recv_capacity_bytes out"
      "di_assignment_count i \<le> do_assignment_capacity out"
    using cap by (simp_all add: capacity_bad_def Let_def not_less)
  have "unat ?e * unat ?b \<le> unat (do_recv_capacity_bytes out)"
    using e(2) div_bound_u64 [OF b e(1)] by (simp add: word_le_nat_alt)
  then have "unat (do_row_capacity out) * unat (sc_hidden (ss_config s)) * unat (DataTypeBytes dtype)
      \<le> unat (do_recv_capacity_bytes out)"
    by (simp add: unat_mult_u32_u32 unat_ucast_u64)
  moreover have "unat (di_assignment_count i) = unat (di_token_count i) * unat (di_fixed_topk i)" if "di_fixed_topk i \<noteq> 0"
    using tk that div_bound_u32 [OF that] by (simp add: topk_bad_def)
  ultimately show ?thesis
    using io wa e(3) by (simp add: worker_arguments_bad_def not_less)
qed

section \<open>An example session\<close>

definition ex_backend :: "nat BackendOps" where
  "ex_backend = \<lparr> bo_create = Some (\<lambda>ctx config n. (OK, n)), bo_destroy = Some (\<lambda>ctx n. (OK, n)),
     bo_dispatch = Some (\<lambda>ctx dtype i input outp stream n.
       (OK, \<lparr> tk_words = (of_nat n, 0, 0, 0) \<rparr>, \<lparr> tk_words = (of_nat n, 1, 0, 0) \<rparr>, Suc n)),
     bo_combine = Some (\<lambda>ctx i t input outp stream n. (OK, t, n)), bo_query = Some (\<lambda>ctx t n. (TIMEOUT, n)),
     bo_wait = Some (\<lambda>ctx t timeout n. (OK, n)), bo_release_batch = Some (\<lambda>ctx t n. (OK, n)) \<rparr>"

definition ex_session_config :: SessionConfig where
  "ex_session_config = \<lparr> sc_session_id = 9, sc_placement_epoch = 1, sc_rank = 0, sc_worker_count = 2, sc_inc_rank = 2,
     sc_hidden = 8, sc_expert_count = 4, sc_ring_slots = 2, sc_max_tokens_per_rank = 16,
     sc_max_assignments_per_rank = 32 \<rparr>"

definition ex_handle :: BatchHandle where
  "ex_handle = \<lparr> bh_session_id = 0, bh_id = \<lparr> wv_generation = 0, wv_sequence = 0, wv_wave = 0, wv_ring_slot = 0,
     wv_reserved = 0 \<rparr>, bh_ticket = \<lparr> tk_words = (0, 0, 0, 0) \<rparr>, bh_live = False \<rparr>"

definition ex_client :: "nat client" where
  "ex_client = \<lparr> ac_session = SingleIncSession_init, ac_batches = [ex_handle, ex_handle],
     ac_completions = replicate 2 \<lparr> cp_ticket = \<lparr> tk_words = (0, 0, 0, 0) \<rparr>, cp_live = False \<rparr>, ac_world = 0 \<rparr>"

definition ex_wave_id :: WaveId where
  "ex_wave_id = \<lparr> wv_generation = 1, wv_sequence = 1, wv_wave = 0, wv_ring_slot = 0, wv_reserved = 0 \<rparr>"

definition ex_input :: DispatchInput where
  "ex_input = \<lparr> di_send_buffer = 4096, di_send_token_ids = 4096, di_assignment_offsets = 0, di_destination_gpus = 4096,
     di_expert_ids = 4096, di_ordinals = 0, di_expert_weights = 4096, di_token_count = 3, di_assignment_count = 6,
     di_fixed_topk = 2 \<rparr>"

definition ex_output :: DispatchOutput where
  "ex_output = \<lparr> do_recv_buffer = 8192, do_recv_capacity_bytes = 256, do_row_capacity = 8, do_assignment_capacity = 8,
     do_recv_row_count = 8192, do_recv_assignment_count = 8192 \<rparr>"

definition ex_dispatch :: "nat api_call" where
  "ex_dispatch = A_dispatch 2 ex_wave_id (Some ex_input) (Some ex_output) 1 (Some 0) (Some 0)"

lemma ex_client_new: "new_client ex_client"
  by (simp add: new_client_def ex_client_def ex_handle_def)

definition ex_opened :: "nat client" where
  "ex_opened = (case api_exec (A_create ex_session_config ex_backend 0) ex_client of Inr (_, c) \<Rightarrow> c | _ \<Rightarrow> ex_client)"

definition ex_dispatched :: "nat client" where
  "ex_dispatched = (case api_exec ex_dispatch ex_opened of Inr (_, c) \<Rightarrow> c | _ \<Rightarrow> ex_client)"

lemmas ex_defs = ex_client_def ex_handle_def ex_session_config_def ex_backend_def ex_dispatch_def ex_wave_id_def
  ex_input_def ex_output_def SingleIncSession_init_def SessionConfig_init_def BackendOps_init_def

lemmas ex_eval = ex_defs with_objects_def single_inc_create_def DispatchAsync_def check_dispatch_def Worker_def
  worker_arguments_bad_def topk_bad_def capacity_bad_def DataTypeBytes_def at_def put_def
  ValidSessionConfig_def backend_complete_def invoke_def

lemma ex_open: "api_exec (A_create ex_session_config ex_backend 0) ex_client = Inr (MakeStatus OK, ex_opened)"
  by (simp add: ex_opened_def ex_eval)

lemma ex_dispatch_ok: "api_exec ex_dispatch ex_opened = Inr (MakeStatus OK, ex_dispatched)"
  unfolding ex_dispatched_def
  by (simp add: ex_opened_def ex_eval)

lemma ex_dispatched_batches: "map bh_live (ac_batches ex_dispatched) = [True, False]"
  by (simp add: ex_dispatched_def ex_opened_def ex_eval)

lemma ex_api_run: "api_run ex_client [(A_create ex_session_config ex_backend 0, MakeStatus OK), (ex_dispatch, MakeStatus OK)] ex_dispatched"
proof -
  have "api_run ex_client ([] @ [(A_create ex_session_config ex_backend 0, MakeStatus OK)]) ex_opened"
    by (rule api_run.step [OF api_run.start ex_open])
  from api_run.step [OF this ex_dispatch_ok] show ?thesis by simp
qed

theorem Frontend_live_batches_witness:
  "api_run ex_client [(A_create ex_session_config ex_backend 0, MakeStatus OK), (ex_dispatch, MakeStatus OK)] ex_dispatched \<and>
   unat (ss_live_batches (ac_session ex_dispatched)) = 1 \<and> (\<exists>st c''. api_exec A_destroy ex_dispatched = Inr (st, c''))"
proof -
  have "length (filter bh_live (ac_batches ex_dispatched)) = length (filter id (map bh_live (ac_batches ex_dispatched)))"
    by (simp add: filter_map comp_def)
  then have "length (filter bh_live (ac_batches ex_dispatched)) = 1" unfolding ex_dispatched_batches by simp
  then show ?thesis using Frontend_live_batches [OF ex_api_run ex_client_new, of A_destroy] ex_api_run by simp
qed

theorem Frontend_failure_atomic_witness:
  "\<exists>st c''. api_exec A_destroy ex_dispatched = Inr (st, c'') \<and> st_code st = BUSY_SLOT \<and>
     ac_session c'' = ac_session ex_dispatched"
proof -
  obtain st c'' where e: "api_exec A_destroy ex_dispatched = Inr (st, c'')"
    using api_exec_step [OF api_run_inv [OF ex_api_run ex_client_new]] by blast
  have "single_inc_destroy (Some (ac_session ex_dispatched), ac_world ex_dispatched) =
      Inr (MakeStatus BUSY_SLOT, Some (ac_session ex_dispatched), ac_world ex_dispatched)"
    by (simp add: ex_dispatched_def ex_opened_def ex_eval single_inc_destroy_def)
  then have st: "st_code st = BUSY_SLOT" using e by (auto simp: with_objects_def)
  then show ?thesis
    using Frontend_failure_atomic [OF ex_api_run ex_client_new e] e by auto
qed

theorem Frontend_destroy_after_batches_witness:
  "\<exists>st c''. api_exec A_destroy ex_dispatched = Inr (st, c'') \<and> st_code st = BUSY_SLOT"
proof -
  obtain st c'' where e: "api_exec A_destroy ex_dispatched = Inr (st, c'')"
    using api_exec_step [OF api_run_inv [OF ex_api_run ex_client_new]] by blast
  have "\<exists>b \<in> set (ac_batches ex_dispatched). bh_live b"
    using ex_dispatched_batches by (metis list.set_intros(1) in_set_conv_nth length_map nth_map)
  then show ?thesis using Frontend_destroy_after_batches [OF ex_api_run ex_client_new e] e by blast
qed

theorem Frontend_batch_consumed_once_witness:
  "length (filter (opens 0) [(A_create ex_session_config ex_backend 0, MakeStatus OK), (ex_dispatch, MakeStatus OK)]) = 1 \<and>
   bh_live (ac_batches ex_dispatched ! 0)"
proof -
  have live: "bh_live (ac_batches ex_dispatched ! 0)"
    using arg_cong [OF ex_dispatched_batches, of "\<lambda>xs. xs ! 0"] arg_cong [OF ex_dispatched_batches, of length] by simp
  have "0 < length (ac_batches ex_client)" by (simp add: ex_client_def)
  from Frontend_batch_consumed_once [OF ex_api_run ex_client_new this] live
  show ?thesis by (simp add: closes_def ex_dispatch_def)
qed

end
