(* ===== verification/Std_Containers.thy ===== *)
theory Std_Containers
  imports Prelude "HOL-Library.Product_Lexorder"
begin

text \<open>
  The ordered containers of the C++ standard library that the host code uses. A \<open>std::map\<close> is the
  list of its entries in key order, a \<open>std::set\<close> the list of its elements in order; an iterator is
  the rest of the list from its position, with the empty list for \<open>end()\<close>. The locale states what a
  client of a dictionary relies on; its lemmas describe the entries after every operation.
\<close>

section \<open>Dictionaries\<close>

locale dictionary =
  fixes invar :: "'m \<Rightarrow> bool" and find :: "'m \<Rightarrow> 'k \<Rightarrow> 'v option"
    and emplace :: "'k \<Rightarrow> 'v \<Rightarrow> 'm \<Rightarrow> 'm" and erase :: "'k \<Rightarrow> 'm \<Rightarrow> 'm" and assign :: "'k \<Rightarrow> 'v \<Rightarrow> 'm \<Rightarrow> 'm"
  assumes invar_emplace: "invar m \<Longrightarrow> invar (emplace k v m)"
    and invar_erase: "invar m \<Longrightarrow> invar (erase k m)"
    and invar_assign: "invar m \<Longrightarrow> invar (assign k v m)"
    and find_emplace: "invar m \<Longrightarrow> find (emplace k v m) j = (if j = k \<and> find m k = None then Some v else find m j)"
    and find_erase: "invar m \<Longrightarrow> find (erase k m) j = (if j = k then None else find m j)"
    and find_assign: "invar m \<Longrightarrow> find (assign k v m) j = (if j = k then Some v else find m j)"
begin

definition entries :: "'m \<Rightarrow> ('k \<times> 'v) set" where
  "entries m = {(k, v). find m k = Some v}"

lemma entries_find: "(k, v) \<in> entries m \<longleftrightarrow> find m k = Some v"
  by (simp add: entries_def)

lemma entries_emplace: "invar m \<Longrightarrow> find m k = None \<Longrightarrow> entries (emplace k v m) = insert (k, v) (entries m)"
  by (auto simp: entries_def find_emplace split: if_splits)

lemma entries_emplace_present: "invar m \<Longrightarrow> find m k \<noteq> None \<Longrightarrow> entries (emplace k v m) = entries m"
  by (auto simp: entries_def find_emplace)

lemma entries_erase: "invar m \<Longrightarrow> find m k = Some v \<Longrightarrow> entries (erase k m) = entries m - {(k, v)}"
  by (auto simp: entries_def find_erase split: if_splits)

lemma entries_assign: "invar m \<Longrightarrow> find m k = Some v \<Longrightarrow> entries (assign k v' m) = insert (k, v') (entries m - {(k, v)})"
  by (auto simp: entries_def find_assign split: if_splits)

lemma entries_unique: "(k, v) \<in> entries m \<Longrightarrow> (k, v') \<in> entries m \<Longrightarrow> v = v'"
  by (simp add: entries_def)

end

section \<open>\<open>std::map\<close>\<close>

type_synonym ('k, 'v) std_map = "('k \<times> 'v) list"

definition map_ordered :: "('k :: linorder, 'v) std_map \<Rightarrow> bool" where
  "map_ordered m \<longleftrightarrow> sorted_wrt (<) (map fst m)"

definition map_find :: "('k, 'v) std_map \<Rightarrow> 'k \<Rightarrow> 'v option" where
  "map_find m k = map_of m k"

fun map_emplace :: "'k :: linorder \<Rightarrow> 'v \<Rightarrow> ('k, 'v) std_map \<Rightarrow> ('k, 'v) std_map" where
  "map_emplace k v [] = [(k, v)]"
| "map_emplace k v ((k', v') # m) =
     (if k < k' then (k, v) # (k', v') # m
      else if k = k' then (k', v') # m
      else (k', v') # map_emplace k v m)"

fun map_assign :: "'k :: linorder \<Rightarrow> 'v \<Rightarrow> ('k, 'v) std_map \<Rightarrow> ('k, 'v) std_map" where
  "map_assign k v [] = [(k, v)]"
| "map_assign k v ((k', v') # m) =
     (if k < k' then (k, v) # (k', v') # m
      else if k = k' then (k, v) # m
      else (k', v') # map_assign k v m)"

definition map_erase :: "'k \<Rightarrow> ('k, 'v) std_map \<Rightarrow> ('k, 'v) std_map" where
  "map_erase k m = filter (\<lambda>p. fst p \<noteq> k) m"

text \<open>The entries in front of \<open>lower_bound(k)\<close>; decrementing that iterator reaches the last of them.\<close>

definition map_before :: "'k :: linorder \<Rightarrow> ('k, 'v) std_map \<Rightarrow> ('k, 'v) std_map" where
  "map_before k m = takeWhile (\<lambda>p. fst p < k) m"

lemma set_map_emplace: "set (map_emplace k v m) \<subseteq> insert (k, v) (set m)"
  by (induction k v m rule: map_emplace.induct) auto

lemma set_map_assign: "set (map_assign k v m) \<subseteq> insert (k, v) (set m)"
  by (induction k v m rule: map_assign.induct) auto

lemma ordered_emplace: "map_ordered m \<Longrightarrow> map_ordered (map_emplace k v m)"
proof (induction k v m rule: map_emplace.induct)
  case (2 k v k' v' m)
  then show ?case using set_map_emplace [of k v m] by (fastforce simp: map_ordered_def)
qed (simp add: map_ordered_def)

lemma ordered_assign: "map_ordered m \<Longrightarrow> map_ordered (map_assign k v m)"
proof (induction k v m rule: map_assign.induct)
  case (2 k v k' v' m)
  then show ?case using set_map_assign [of k v m] by (fastforce simp: map_ordered_def)
qed (simp add: map_ordered_def)

lemma find_above: "map_ordered ((k', v') # m) \<Longrightarrow> k \<le> k' \<Longrightarrow> map_of m k = None"
  by (auto simp: map_ordered_def map_of_eq_None_iff)

interpretation std_map: dictionary map_ordered map_find map_emplace map_erase map_assign
proof unfold_locales
  fix m :: "('a, 'b) std_map" and k j :: 'a and v :: 'b
  show "map_ordered (map_emplace k v m)" if "map_ordered m" using that by (rule ordered_emplace)
  show "map_ordered (map_assign k v m)" if "map_ordered m" using that by (rule ordered_assign)
  show "map_ordered (map_erase k m)" if "map_ordered m"
    using that sorted_wrt_filter [of "\<lambda>p q. fst p < fst q" m] by (simp add: map_ordered_def map_erase_def sorted_wrt_map)
  show "map_find (map_emplace k v m) j = (if j = k \<and> map_find m k = None then Some v else map_find m j)" if "map_ordered m"
    using that unfolding map_find_def
  proof (induction k v m rule: map_emplace.induct)
    case (2 k v k' v' m)
    then show ?case using find_above [of k' v' m] by (auto simp: map_ordered_def)
  qed simp
  show "map_find (map_assign k v m) j = (if j = k then Some v else map_find m j)" if "map_ordered m"
    using that unfolding map_find_def
  proof (induction k v m rule: map_assign.induct)
    case (2 k v k' v' m)
    then show ?case by (auto simp: map_ordered_def)
  qed simp
  show "map_find (map_erase k m) j = (if j = k then None else map_find m j)"
    by (induction m) (auto simp: map_find_def map_erase_def)
qed

lemma entries_std_map: "map_ordered m \<Longrightarrow> std_map.entries m = set m"
proof -
  assume "map_ordered m"
  then have "distinct (map fst m)" by (simp add: map_ordered_def strict_sorted_iff)
  then show ?thesis by (auto simp: std_map.entries_def map_find_def)
qed

lemma map_before_last:
  assumes ord: "map_ordered m" and ne: "map_before k m \<noteq> []" and l: "last (map_before k m) = (k', v)"
  shows "map_find m k' = Some v" and "k' < k" and "map_find m j = Some w \<Longrightarrow> j < k \<Longrightarrow> j \<le> k'"
proof -
  let ?b = "map_before k m"
  have split: "m = ?b @ dropWhile (\<lambda>p. fst p < k) m" by (simp add: map_before_def)
  have "(k', v) \<in> set ?b" using last_in_set [OF ne] l by simp
  then show "k' < k" by (auto simp: map_before_def dest: set_takeWhileD)
  have "(k', v) \<in> set m" using \<open>(k', v) \<in> set ?b\<close> by (auto simp: map_before_def dest: set_takeWhileD)
  then show "map_find m k' = Some v" using entries_std_map [OF ord] by (auto simp flip: std_map.entries_find)
  assume "map_find m j = Some w" and "j < k"
  then have mem: "(j, w) \<in> set m" using entries_std_map [OF ord] by (auto simp flip: std_map.entries_find)
  have sorted: "sorted_wrt (\<lambda>p q. fst p < fst q) m" using ord by (simp add: map_ordered_def sorted_wrt_map)
  have "(j, w) \<in> set ?b"
  proof (rule ccontr)
    assume "(j, w) \<notin> set ?b"
    then have r: "(j, w) \<in> set (dropWhile (\<lambda>p. fst p < k) m)" using mem split by (metis Un_iff set_append)
    obtain x xs where d: "dropWhile (\<lambda>p. fst p < k) m = x # xs" using r by (cases "dropWhile (\<lambda>p. fst p < k) m") auto
    have "\<not> fst x < k" using d by (metis (mono_tags, lifting) hd_dropWhile list.distinct(1) list.sel(1))
    moreover have "sorted_wrt (\<lambda>p q. fst p < fst q) (x # xs)" using sorted split d by (metis sorted_wrt_append)
    ultimately show False using r d \<open>j < k\<close> by auto
  qed
  moreover have "sorted_wrt (\<lambda>p q. fst p < fst q) ?b" using sorted split by (metis sorted_wrt_append)
  then have "sorted_wrt (\<lambda>p q. fst p < fst q) (butlast ?b @ [(k', v)])" using ne l by (metis append_butlast_last_id)
  moreover have "set ?b = insert (k', v) (set (butlast ?b))"
    using append_butlast_last_id [OF ne] l by (metis Un_insert_right append_Nil2 list.simps(15) set_append)
  ultimately show "j \<le> k'" by (auto simp: sorted_wrt_append)
qed

lemma map_before_empty:
  assumes "map_ordered m" and "map_before k m = []" and "map_find m j = Some w"
  shows "k \<le> j"
proof -
  have mem: "(j, w) \<in> set m" using assms(1,3) entries_std_map by (auto simp flip: std_map.entries_find)
  show ?thesis
  proof (cases m)
    case Nil
    then show ?thesis using mem by simp
  next
    case (Cons x xs)
    then have "\<not> fst x < k" using assms(2) by (auto simp: map_before_def split: if_splits)
    then show ?thesis using mem assms(1) Cons by (auto simp: map_ordered_def)
  qed
qed

section \<open>\<open>std::set\<close>\<close>

text \<open>An ordered set; \<open>set_lower_bound\<close> is the iterator to the first element not below the key.\<close>

definition set_ordered :: "'a :: linorder list \<Rightarrow> bool" where
  "set_ordered s \<longleftrightarrow> sorted_wrt (<) s"

definition set_emplace :: "'a :: linorder \<Rightarrow> 'a list \<Rightarrow> 'a list" where
  "set_emplace x s = insort_insert x s"

definition set_erase :: "'a \<Rightarrow> 'a list \<Rightarrow> 'a list" where
  "set_erase x s = filter (\<lambda>y. y \<noteq> x) s"

definition set_lower_bound :: "'a :: linorder \<Rightarrow> 'a list \<Rightarrow> 'a list" where
  "set_lower_bound x s = dropWhile (\<lambda>y. y < x) s"

lemma set_ordered_iff: "set_ordered s \<longleftrightarrow> sorted s \<and> distinct s"
  by (simp add: set_ordered_def strict_sorted_iff)

lemma set_set_emplace [simp]: "set (set_emplace x s) = insert x (set s)"
  by (simp add: set_emplace_def set_insort_insert)

lemma ordered_set_emplace: "set_ordered s \<Longrightarrow> set_ordered (set_emplace x s)"
  by (simp add: set_ordered_iff set_emplace_def sorted_insort_insert distinct_insort_insert)

lemma set_set_erase [simp]: "set (set_erase x s) = set s - {x}"
  by (auto simp: set_erase_def)

lemma ordered_set_erase: "set_ordered s \<Longrightarrow> set_ordered (set_erase x s)"
  by (simp add: set_ordered_def set_erase_def sorted_wrt_filter)

lemma lower_bound_set:
  assumes "set_ordered s"
  shows "set (set_lower_bound x s) = {y \<in> set s. x \<le> y}"
proof -
  have s: "sorted s" using assms by (simp add: set_ordered_iff)
  then show ?thesis
    unfolding set_lower_bound_def
  proof (induction s)
    case (Cons y s)
    then show ?case by (auto simp: not_less)
  qed simp
qed

end
