(* ===== verification/Heap_Blocks.thy ===== *)
theory Heap_Blocks
  imports Prelude
begin

text \<open>
  The abstract heap: blocks (offset, size) that tile an interval, coloured idle or used. Splitting a
  block and joining two neighbours keep the tiling; the idle blocks are coalesced when no two of them
  touch.
\<close>

type_synonym block = "nat \<times> nat"

definition tiling :: "block set \<Rightarrow> nat \<Rightarrow> bool" where
  "tiling B n \<longleftrightarrow>
     (\<forall>b \<in> B. 0 < snd b \<and> fst b + snd b \<le> n) \<and>
     (\<forall>b \<in> B. \<forall>c \<in> B. b \<noteq> c \<longrightarrow> fst b + snd b \<le> fst c \<or> fst c + snd c \<le> fst b) \<and>
     (\<Union>b \<in> B. {fst b..<fst b + snd b}) = {0..<n}"

definition coalesced :: "block set \<Rightarrow> bool" where
  "coalesced I \<longleftrightarrow> (\<forall>b \<in> I. \<forall>c \<in> I. fst b + snd b \<noteq> fst c)"

definition disjoint_blocks :: "block set \<Rightarrow> bool" where
  "disjoint_blocks U \<longleftrightarrow> (\<forall>b \<in> U. \<forall>c \<in> U. b \<noteq> c \<longrightarrow>
     {fst b..<fst b + snd b} \<inter> {fst c..<fst c + snd c} = {})"

lemma tilingD:
  assumes "tiling B n" and "b \<in> B"
  shows "0 < snd b" and "fst b + snd b \<le> n"
    and "c \<in> B \<Longrightarrow> b = c \<or> fst b + snd b \<le> fst c \<or> fst c + snd c \<le> fst b"
  using assms by (auto simp: tiling_def)

lemma tilingI:
  assumes "\<And>b. b \<in> B \<Longrightarrow> 0 < snd b \<and> fst b + snd b \<le> n"
    and "\<And>b c. b \<in> B \<Longrightarrow> c \<in> B \<Longrightarrow> b \<noteq> c \<Longrightarrow> fst b + snd b \<le> fst c \<or> fst c + snd c \<le> fst b"
    and "(\<Union>b \<in> B. {fst b..<fst b + snd b}) = {0..<n}"
  shows "tiling B n"
  using assms by (simp add: tiling_def)

lemma tiling_cover: "tiling B n \<Longrightarrow> (\<Union>b \<in> B. {fst b..<fst b + snd b}) = {0..<n}"
  by (simp add: tiling_def)

lemma tiling_inside:
  assumes "tiling B n" and "b \<in> B" and "c \<in> B" and "fst b \<le> fst c" and "fst c < fst b + snd b"
  shows "c = b"
  using tilingD(3) [OF assms(1,2,3)] tilingD(1) [OF assms(1,3)] assms(4,5) by auto

lemma tiling_offset:
  assumes "tiling B n" and "(p, s) \<in> B" and "(p, t) \<in> B"
  shows "s = t"
  using tiling_inside [OF assms] tilingD(1) [OF assms(1,2)] by simp

lemma tiling_disjoint:
  assumes "tiling B n" and "U \<subseteq> B"
  shows "disjoint_blocks U"
  unfolding disjoint_blocks_def
proof (intro ballI impI)
  fix b c assume "b \<in> U" "c \<in> U" "b \<noteq> c"
  then have "fst b + snd b \<le> fst c \<or> fst c + snd c \<le> fst b" using tilingD(3) [OF assms(1), of b c] assms(2) by blast
  then show "{fst b..<fst b + snd b} \<inter> {fst c..<fst c + snd c} = {}" by auto
qed

lemma tiling_split:
  assumes t: "tiling B n" and b: "(p, s) \<in> B" and "0 < a" and "a < s"
  shows "tiling (insert (p, a) (insert (p + a, s - a) (B - {(p, s)}))) n"
proof (rule tilingI)
  note ps = tilingD [OF t b, simplified]
  have ap: "p + s \<le> fst c \<or> fst c + snd c \<le> p" if "c \<in> B - {(p, s)}" for c
    using ps(3) [of c] that by auto
  show "0 < snd b \<and> fst b + snd b \<le> n" if "b \<in> insert (p, a) (insert (p + a, s - a) (B - {(p, s)}))" for b
    using that ps(2) assms(3,4) tilingD(1,2) [OF t, of b] by auto
  show "fst b + snd b \<le> fst c \<or> fst c + snd c \<le> fst b"
    if bc: "b \<in> insert (p, a) (insert (p + a, s - a) (B - {(p, s)}))"
      "c \<in> insert (p, a) (insert (p + a, s - a) (B - {(p, s)}))" "b \<noteq> c" for b c
  proof -
    consider "b \<in> B - {(p, s)}" "c \<in> B - {(p, s)}" | "b \<in> B - {(p, s)}" "c = (p, a) \<or> c = (p + a, s - a)"
      | "c \<in> B - {(p, s)}" "b = (p, a) \<or> b = (p + a, s - a)"
      | "b = (p, a) \<or> b = (p + a, s - a)" "c = (p, a) \<or> c = (p + a, s - a)"
      using bc(1,2) by blast
    then show ?thesis
    proof cases
      case 1
      then show ?thesis using tilingD(3) [OF t, of b c] bc(3) by blast
    next
      case 2
      then show ?thesis using ap [OF 2(1)] assms(3,4) by auto
    next
      case 3
      then show ?thesis using ap [OF 3(1)] assms(3,4) by auto
    next
      case 4
      then show ?thesis using bc(3) by auto
    qed
  qed
  have "{p..<p + a} \<union> {p + a..<p + s} = {p..<p + s}" using assms(4) by auto
  moreover have "(\<Union>b \<in> B. {fst b..<fst b + snd b}) = {p..<p + s} \<union> (\<Union>b \<in> B - {(p, s)}. {fst b..<fst b + snd b})"
    using b by force
  ultimately show "(\<Union>b \<in> insert (p, a) (insert (p + a, s - a) (B - {(p, s)})). {fst b..<fst b + snd b}) = {0..<n}"
    using tiling_cover [OF t] assms(4) by (simp add: Un_assoc [symmetric])
qed

lemma tiling_join:
  assumes t: "tiling B n" and b: "(p, s) \<in> B" and c: "(p + s, r) \<in> B"
  shows "tiling (insert (p, s + r) (B - {(p, s), (p + s, r)})) n"
proof (rule tilingI)
  note ps = tilingD [OF t b, simplified] and qs = tilingD [OF t c, simplified]
  have ap: "p + s + r \<le> fst c \<or> fst c + snd c \<le> p" if "c \<in> B - {(p, s), (p + s, r)}" for c
    using ps(3) [of c] qs(3) [of c] tilingD(1) [OF t, of c] that by auto
  show "0 < snd b \<and> fst b + snd b \<le> n" if "b \<in> insert (p, s + r) (B - {(p, s), (p + s, r)})" for b
    using that ps(1) qs(2) tilingD(1,2) [OF t, of b] by auto
  show "fst b + snd b \<le> fst c \<or> fst c + snd c \<le> fst b"
    if bc: "b \<in> insert (p, s + r) (B - {(p, s), (p + s, r)})"
      "c \<in> insert (p, s + r) (B - {(p, s), (p + s, r)})" "b \<noteq> c" for b c
  proof -
    consider "b \<in> B - {(p, s), (p + s, r)}" "c \<in> B - {(p, s), (p + s, r)}"
      | "b \<in> B - {(p, s), (p + s, r)}" "c = (p, s + r)" | "c \<in> B - {(p, s), (p + s, r)}" "b = (p, s + r)"
      using bc by (metis insertE)
    then show ?thesis
    proof cases
      case 1
      then show ?thesis using tilingD(3) [OF t, of b c] bc(3) by blast
    next
      case 2
      then show ?thesis using ap [OF 2(1)] by auto
    next
      case 3
      then show ?thesis using ap [OF 3(1)] by auto
    qed
  qed
  have "{p..<p + s} \<union> {p + s..<p + s + r} = {p..<p + (s + r)}" by auto
  moreover have "(\<Union>b \<in> B. {fst b..<fst b + snd b}) =
      {p..<p + s} \<union> {p + s..<p + s + r} \<union> (\<Union>b \<in> B - {(p, s), (p + s, r)}. {fst b..<fst b + snd b})"
    using b c by force
  ultimately show "(\<Union>b \<in> insert (p, s + r) (B - {(p, s), (p + s, r)}). {fst b..<fst b + snd b}) = {0..<n}"
    using tiling_cover [OF t] by simp
qed

section \<open>Idle and used blocks\<close>

definition heap :: "block set \<Rightarrow> block set \<Rightarrow> nat \<Rightarrow> bool" where
  "heap I U n \<longleftrightarrow> tiling (I \<union> U) n \<and> I \<inter> U = {} \<and> coalesced I \<and> (\<forall>b \<in> I \<union> U. 16 dvd fst b)"

text \<open>Taking the front of an idle block.\<close>

definition take_front :: "block set \<Rightarrow> nat \<Rightarrow> nat \<Rightarrow> nat \<Rightarrow> block set" where
  "take_front I p s a = I - {(p, s)} \<union> (if a < s then {(p + a, s - a)} else {})"

lemma heap_take_front:
  assumes h: "heap I U n" and b: "(p, s) \<in> I" and a: "0 < a" "a \<le> s" "16 dvd a"
  shows "heap (take_front I p s a) (insert (p, a) U) n"
    and "(p, r) \<notin> U" and "a < s \<Longrightarrow> (p + a, r) \<notin> I \<union> U"
proof -
  have t: "tiling (I \<union> U) n" and dis: "I \<inter> U = {}" and co: "coalesced I" and al: "\<forall>b \<in> I \<union> U. 16 dvd fst b"
    using h by (simp_all add: heap_def)
  have nu: "(p, r) \<notin> U" for r using tiling_offset [OF t, of p s r] b dis by blast
  then show "(p, r) \<notin> U" .
  have inner: "(p + a, r) \<notin> I \<union> U" if "a < s" for r
    using tiling_inside [OF t, of "(p, s)" "(p + a, r)"] b that a(1) by auto
  then show "a < s \<Longrightarrow> (p + a, r) \<notin> I \<union> U" .
  have til: "tiling (take_front I p s a \<union> insert (p, a) U) n"
  proof (cases "a < s")
    case True
    have "take_front I p s a \<union> insert (p, a) U = insert (p, a) (insert (p + a, s - a) (I \<union> U - {(p, s)}))"
      using True nu by (auto simp: take_front_def)
    then show ?thesis using tiling_split [OF t _ a(1) True, of p] b by simp
  next
    case False
    then have "take_front I p s a \<union> insert (p, a) U = I \<union> U" using b a(2) nu by (auto simp: take_front_def)
    then show ?thesis using t by simp
  qed
  have "take_front I p s a \<inter> insert (p, a) U = {}"
  proof -
    have "(p, a) \<notin> I - {(p, s)}" using tiling_offset [OF t, of p s a] b by auto
    then show ?thesis using dis a(1) inner unfolding take_front_def by (auto split: if_splits)
  qed
  moreover have "coalesced (take_front I p s a)"
    unfolding coalesced_def
  proof (intro ballI notI)
    fix b c assume bc: "b \<in> take_front I p s a" "c \<in> take_front I p s a" "fst b + snd b = fst c"
    show False
    proof (cases "b \<in> I")
      case bI: True
      show False
      proof (cases "c \<in> I")
        case True
        then show False using co bI bc(3) by (auto simp: coalesced_def)
      next
        case False
        then have c: "c = (p + a, s - a)" "a < s" using bc(2) by (auto simp: take_front_def split: if_splits)
        have "b \<noteq> (p, s)" using bc(1) inner c(2) bI by (auto simp: take_front_def)
        then have "fst b + snd b \<le> p \<or> p + s \<le> fst b"
          using tilingD(3) [OF t, of b "(p, s)"] bI b by auto
        moreover have "0 < snd b" using tilingD(1) [OF t, of b] bI by simp
        ultimately show False using c bc(3) a(1) by auto
      qed
    next
      case False
      then have b': "b = (p + a, s - a)" "a < s" using bc(1) by (auto simp: take_front_def split: if_splits)
      then have "p + s = fst c" using bc(3) by simp
      moreover have "c \<in> I" using bc(2) b' calculation by (auto simp: take_front_def)
      ultimately show False using co b unfolding coalesced_def by (metis fst_conv snd_conv)
    qed
  qed
  moreover have "\<forall>b \<in> take_front I p s a \<union> insert (p, a) U. 16 dvd fst b"
  proof -
    have "16 dvd p" using bspec [OF al, of "(p, s)"] b by simp
    then show ?thesis using al a(3) by (auto simp: take_front_def)
  qed
  ultimately show "heap (take_front I p s a) (insert (p, a) U) n" using til by (simp add: heap_def)
qed

text \<open>
  Giving a used block back: it is merged with the idle block that ends where it begins and with the
  idle block that begins where it ends.
\<close>

definition before_ok :: "block set \<Rightarrow> nat \<Rightarrow> block option \<Rightarrow> bool" where
  "before_ok I p pr \<longleftrightarrow> (case pr of None \<Rightarrow> \<forall>b \<in> I. fst b + snd b \<noteq> p | Some (q, t) \<Rightarrow> (q, t) \<in> I \<and> q + t = p)"

definition after_ok :: "block set \<Rightarrow> nat \<Rightarrow> nat option \<Rightarrow> bool" where
  "after_ok I e nx \<longleftrightarrow> (case nx of None \<Rightarrow> \<forall>r. (e, r) \<notin> I | Some r \<Rightarrow> (e, r) \<in> I)"

definition joined :: "nat \<Rightarrow> nat \<Rightarrow> block option \<Rightarrow> nat option \<Rightarrow> block" where
  "joined p s pr nx = ((case pr of None \<Rightarrow> p | Some (q, _) \<Rightarrow> q),
     s + (case pr of None \<Rightarrow> 0 | Some (_, t) \<Rightarrow> t) + (case nx of None \<Rightarrow> 0 | Some r \<Rightarrow> r))"

definition rest :: "block set \<Rightarrow> nat \<Rightarrow> block option \<Rightarrow> nat option \<Rightarrow> block set" where
  "rest I e pr nx = I - set_option pr - Pair e ` set_option nx"

definition give_back :: "block set \<Rightarrow> nat \<Rightarrow> nat \<Rightarrow> block option \<Rightarrow> nat option \<Rightarrow> block set" where
  "give_back I p s pr nx = insert (joined p s pr nx) (rest I (p + s) pr nx)"

lemma give_back_tiling:
  assumes t: "tiling (I \<union> U) n" and dis: "I \<inter> U = {}" and u: "(p, s) \<in> U"
    and pr: "before_ok I p pr" and nx: "after_ok I (p + s) nx"
  shows "tiling (give_back I p s pr nx \<union> (U - {(p, s)})) n"
proof -
  let ?U = "U - {(p, s)}"
  have uI: "(p, s) \<notin> I" using u dis by auto
  have step1: "\<exists>r. tiling (insert (p, s + r) ((case nx of None \<Rightarrow> I | Some r \<Rightarrow> I - {(p + s, r)}) \<union> ?U)) n \<and>
      r = (case nx of None \<Rightarrow> 0 | Some r \<Rightarrow> r)"
  proof (cases nx)
    case None
    have "insert (p, s) (I \<union> ?U) = I \<union> U" using u by auto
    then show ?thesis using t None by simp
  next
    case (Some r)
    then have r: "(p + s, r) \<in> I" using nx by (simp add: after_ok_def)
    have "(p + s, r) \<notin> U" using r dis by auto
    then have "I \<union> U - {(p, s), (p + s, r)} = I - {(p + s, r)} \<union> ?U" using uI by auto
    then show ?thesis using tiling_join [OF t, of p s r] u r Some by simp
  qed
  show ?thesis
  proof (cases pr)
    case None
    then show ?thesis using step1 by (cases nx) (simp_all add: give_back_def joined_def rest_def)
  next
    case (Some b)
    obtain q v where b: "b = (q, v)" by (cases b)
    have q: "(q, v) \<in> I" "q + v = p" using pr Some b by (simp_all add: before_ok_def)
    define r where "r = (case nx of None \<Rightarrow> 0 | Some r \<Rightarrow> r)"
    define J where "J = (case nx of None \<Rightarrow> I | Some r \<Rightarrow> I - {(p + s, r)})"
    have t1: "tiling (insert (p, s + r) (J \<union> ?U)) n" using step1 by (auto simp: r_def J_def)
    have v: "0 < v" "0 < s" using tilingD(1) [OF t] q u by force+
    have qJ: "(q, v) \<in> J" using q v by (auto simp: J_def split: option.splits)
    have pJ: "(p, s + r) \<notin> J"
    proof
      assume "(p, s + r) \<in> J"
      then have "(p, s + r) \<in> I" by (auto simp: J_def split: option.splits if_splits)
      then have "(p, s + r) = (p, s)" using tiling_offset [OF t, of p "s + r" s] u by auto
      then show False using \<open>(p, s + r) \<in> I\<close> uI by simp
    qed
    have pU: "(p, s + r) \<notin> ?U" using tiling_offset [OF t, of p s "s + r"] u by auto
    have qU: "(q, v) \<notin> ?U" using q dis by auto
    have "insert (p, s + r) (J \<union> ?U) - {(q, v), (q + v, s + r)} = J - {(q, v)} \<union> ?U"
      using pJ pU qU q(2) v by auto
    then have "tiling (insert (q, v + (s + r)) (J - {(q, v)} \<union> ?U)) n"
      using tiling_join [OF t1, of q v "s + r"] qJ q(2) by simp
    moreover have "give_back I p s pr nx \<union> ?U = insert (q, v + (s + r)) (J - {(q, v)} \<union> ?U)"
      unfolding give_back_def Some b J_def r_def by (cases nx) (auto simp: ac_simps joined_def rest_def)
    ultimately show ?thesis by simp
  qed
qed

lemma joined_bounds:
  assumes "before_ok I p pr" and "after_ok I (p + s) nx" and "0 < s"
  shows "fst (joined p s pr nx) \<le> p" and "p + s \<le> fst (joined p s pr nx) + snd (joined p s pr nx)"
    and "fst (joined p s pr nx) = p \<and> pr = None \<or> (\<exists>t. (fst (joined p s pr nx), t) \<in> I \<and> fst (joined p s pr nx) + t = p)"
    and "fst (joined p s pr nx) + snd (joined p s pr nx) = p + s \<and> nx = None \<or>
      (\<exists>r. (p + s, r) \<in> I \<and> fst (joined p s pr nx) + snd (joined p s pr nx) = p + s + r)"
  using assms by (auto simp: joined_def before_ok_def after_ok_def split: option.splits prod.splits)

lemma heap_give_back:
  assumes h: "heap I U n" and u: "(p, s) \<in> U" and pr: "before_ok I p pr" and nx: "after_ok I (p + s) nx"
  shows "heap (give_back I p s pr nx) (U - {(p, s)}) n"
    and "(fst (joined p s pr nx), r) \<notin> rest I (p + s) pr nx"
proof -
  let ?j = "joined p s pr nx" and ?R = "rest I (p + s) pr nx"
  have t: "tiling (I \<union> U) n" and dis: "I \<inter> U = {}" and co: "coalesced I" and al: "\<forall>b \<in> I \<union> U. 16 dvd fst b"
    using h by (simp_all add: heap_def)
  have s: "0 < s" using tilingD(1) [OF t, of "(p, s)"] u by simp
  note jb = joined_bounds [OF pr nx s]
  have t': "tiling (give_back I p s pr nx \<union> (U - {(p, s)})) n" by (rule give_back_tiling [OF t dis u pr nx])
  have R: "?R \<subseteq> I" by (auto simp: rest_def)
  have notin: "(fst ?j, r) \<notin> ?R" for r
  proof
    assume r: "(fst ?j, r) \<in> ?R"
    then have rI: "(fst ?j, r) \<in> I" using R by auto
    from jb(3) show False
    proof (elim disjE exE conjE)
      assume "fst ?j = p"
      then have "(p, r) \<in> I" using rI by simp
      then have "r = s" using tiling_offset [OF t, of p r s] u by auto
      then show False using \<open>(p, r) \<in> I\<close> u dis by auto
    next
      fix v assume v: "(fst ?j, v) \<in> I" "fst ?j + v = p"
      then have "r = v" using tiling_offset [OF t, of "fst ?j" r v] rI by auto
      moreover have "0 < v" using tilingD(1) [OF t, of "(fst ?j, v)"] v by simp
      ultimately show False
        using r v pr by (auto simp: rest_def joined_def before_ok_def split: option.splits prod.splits)
    qed
  qed
  then show "(fst ?j, r) \<notin> ?R" .
  have "coalesced (insert ?j ?R)"
    unfolding coalesced_def
  proof (intro ballI notI)
    fix b c assume bc: "b \<in> insert ?j ?R" "c \<in> insert ?j ?R" "fst b + snd b = fst c"
    have no: "fst x + snd x \<noteq> fst y" if "x \<in> I" "y \<in> I" for x y using co that by (simp add: coalesced_def)
    consider "b \<in> I" "c \<in> I" | "b = ?j" "c = ?j" | "b = ?j" "c \<in> ?R" | "b \<in> ?R" "c = ?j" using bc(1,2) R by auto
    then show False
    proof cases
      case 1
      then show False using no bc(3) by blast
    next
      case 2
      then show False using bc(3) jb(1,2) s by simp
    next
      case 3
      have cI: "c \<in> I" using 3 R by auto
      from jb(4) show False
      proof (elim disjE exE conjE)
        assume "fst ?j + snd ?j = p + s" "nx = None"
        then show False using nx cI 3 bc(3) by (cases c) (auto simp: after_ok_def)
      next
        fix r assume "(p + s, r) \<in> I" "fst ?j + snd ?j = p + s + r"
        then show False using no [of "(p + s, r)" c] cI 3 bc(3) by auto
      qed
    next
      case 4
      have bI: "b \<in> I" using 4 R by auto
      from jb(3) show False
      proof (elim disjE exE conjE)
        assume "fst ?j = p" "pr = None"
        then show False using pr bI 4 bc(3) by (auto simp: before_ok_def)
      next
        fix v assume "(fst ?j, v) \<in> I"
        then show False using no [of b "(fst ?j, v)"] bI 4 bc(3) by auto
      qed
    qed
  qed
  moreover have "insert ?j ?R \<inter> (U - {(p, s)}) = {}"
  proof -
    have "?j \<notin> U - {(p, s)}"
    proof
      assume j: "?j \<in> U - {(p, s)}"
      have "(p, s) = ?j \<or> p + s \<le> fst ?j \<or> fst ?j + snd ?j \<le> p"
        using tilingD(3) [OF t, of "(p, s)" ?j] u j by auto
      then show False using jb(1,2) s j by auto
    qed
    then show ?thesis using R dis by auto
  qed
  moreover have "16 dvd fst ?j"
    using jb(3)
  proof (elim disjE exE conjE)
    assume "fst ?j = p"
    then show ?thesis using bspec [OF al, of "(p, s)"] u by simp
  next
    fix v assume "(fst ?j, v) \<in> I"
    then show ?thesis using bspec [OF al, of "(fst ?j, v)"] by simp
  qed
  ultimately show "heap (give_back I p s pr nx) (U - {(p, s)}) n"
    using t' al R unfolding heap_def give_back_def by auto
qed

text \<open>Coalesced idle blocks that fill the whole interval are one block.\<close>

lemma coalesced_single:
  assumes t: "tiling I n" and co: "coalesced I" and n: "0 < n"
  shows "I = {(0, n)}"
proof -
  have cover: "\<exists>b \<in> I. fst b \<le> x \<and> x < fst b + snd b" if "x < n" for x
  proof -
    have "x \<in> (\<Union>b \<in> I. {fst b..<fst b + snd b})" unfolding tiling_cover [OF t] using that by simp
    then show ?thesis by auto
  qed
  obtain b where b: "b \<in> I" "fst b \<le> 0" "0 < fst b + snd b" using cover [OF n] by auto
  have "snd b = n"
  proof (rule ccontr)
    assume "snd b \<noteq> n"
    then have "snd b < n" using tilingD(2) [OF t b(1)] b(2) by simp
    then obtain c where c: "c \<in> I" "fst c \<le> snd b" "snd b < fst c + snd c" using cover by blast
    have "b \<noteq> c" using c b(2) by auto
    then have "fst b + snd b \<le> fst c \<or> fst c + snd c \<le> fst b" using tilingD(3) [OF t b(1) c(1)] by blast
    then have "fst b + snd b \<le> fst c" using b(2) c(3) by simp
    then have "fst b + snd b = fst c" using c(2) b(2) by simp
    then show False using co b(1) c(1) by (simp add: coalesced_def)
  qed
  then have e: "b = (0, n)" using b(2) by (cases b) simp
  have "c = b" if "c \<in> I" for c
  proof -
    have "b = c \<or> n \<le> fst c \<or> fst c + snd c \<le> 0" using tilingD(3) [OF t b(1) that] unfolding e by simp
    then show ?thesis using tilingD(1,2) [OF t that] by auto
  qed
  then show ?thesis using b(1) unfolding e by blast
qed

end
