(* ===== verification/Allocator.thy ===== *)
theory Allocator
  imports Prelude
begin

text \<open>
  The contract between a heap and the code that allocates from it: an allocation is refused without
  effect or adds one live range, a release of a live address removes exactly that range and any
  other release is refused without effect, and live ranges never overlap.
\<close>

locale allocator =
  fixes alloc :: "u64 \<Rightarrow> 's \<Rightarrow> u64 \<times> 's" and free :: "u64 \<Rightarrow> 's \<Rightarrow> int \<times> 's"
    and live :: "'s \<Rightarrow> u64 \<Rightarrow> u64 option" and invar :: "'s \<Rightarrow> bool"
  assumes alloc_cases: "invar m \<Longrightarrow> alloc n m = (x, m') \<Longrightarrow>
      x = 0 \<and> m' = m \<or>
      x \<noteq> 0 \<and> invar m' \<and> live m x = None \<and> (\<exists>a. unat n \<le> unat a \<and> live m' = (live m)(x \<mapsto> a))"
    and free_cases: "invar m \<Longrightarrow> free x m = (c, m') \<Longrightarrow>
      live m x = None \<and> c = - 1 \<and> m' = m \<or>
      live m x \<noteq> None \<and> c = 0 \<and> invar m' \<and> live m' = (live m)(x := None)"
    and live_apart: "invar m \<Longrightarrow> live m x = Some s \<Longrightarrow> live m y = Some t \<Longrightarrow> x \<noteq> y \<Longrightarrow>
      {unat x..<unat x + unat s} \<inter> {unat y..<unat y + unat t} = {}"
begin

lemma alloc_invar: "invar m \<Longrightarrow> alloc n m = (x, m') \<Longrightarrow> invar m'"
  using alloc_cases by blast

lemma free_invar: "invar m \<Longrightarrow> free x m = (c, m') \<Longrightarrow> invar m'"
  using free_cases by blast

text \<open>An allocation that is taken back at once leaves the live ranges as they were.\<close>

lemma rollback:
  assumes inv: "invar m" and a: "alloc n m = (x, m')" and x: "x \<noteq> 0"
  shows "\<exists>m''. free x m' = (0, m'') \<and> invar m'' \<and> live m'' = live m"
proof -
  obtain s where i: "invar m'" "live m x = None" "live m' = (live m)(x \<mapsto> s)"
    using alloc_cases [OF inv a] x by auto
  obtain c m'' where f: "free x m' = (c, m'')" by (cases "free x m'")
  have "live m' x \<noteq> None" using i(3) by simp
  then have "c = 0" "invar m''" "live m'' = (live m')(x := None)" using free_cases [OF i(1) f] by auto
  moreover have "((live m)(x \<mapsto> s))(x := None) = live m" using i(2) by (auto simp: fun_eq_iff)
  ultimately show ?thesis using f i(3) by simp
qed

text \<open>A new allocation keeps clear of every range that was live before.\<close>

lemma alloc_apart:
  assumes inv: "invar m" and a: "alloc n m = (x, m')" and x: "x \<noteq> 0" and y: "live m y = Some t"
  obtains s where "live m' x = Some s" and "unat n \<le> unat s" and "live m' y = Some t"
    and "{unat x..<unat x + unat s} \<inter> {unat y..<unat y + unat t} = {}"
proof -
  obtain s where i: "invar m'" "live m x = None" "live m' = (live m)(x \<mapsto> s)" "unat n \<le> unat s"
    using alloc_cases [OF inv a] x by auto
  have "x \<noteq> y" using i(2) y by auto
  then have "live m' y = Some t" using i(3) y by simp
  then show thesis using that i live_apart [OF i(1), of x s y t] \<open>x \<noteq> y\<close> by simp
qed

end

end
