(* ===== verification/Heap_Manager.thy ===== *)
theory Heap_Manager
  imports Std_Containers Heap_Blocks Allocator
begin

unbundle bit_operations_syntax

text \<open>
  The heap manager of the SHMEM host library (\<open>src/host/mem/shmem_mgr.cpp\<close>). It keeps the idle ranges
  twice, by address and by size, and the used ranges by address. A \<open>memory_range\<close> is the pair of its
  size and its offset, whose lexicographic order is the source's comparator. Pointers are addresses,
  with 0 for \<open>nullptr\<close>; \<open>heap_size\<close> stands for \<open>g_state.heap_size\<close>. Every operation runs under the
  spin lock, so it is one step. Erasing the end iterator of the size tree, which the source does not
  exclude, is \<open>Oob\<close>.
\<close>

section \<open>Model\<close>

type_synonym memory_range = "u64 \<times> u64"

definition range_size_first_comparator :: "memory_range \<Rightarrow> memory_range \<Rightarrow> bool" where
  "range_size_first_comparator mr1 mr2 =
     (if fst mr1 \<noteq> fst mr2 then fst mr1 < fst mr2 else snd mr1 < snd mr2)"

record memory_manager =
  mm_base :: u64
  mm_size :: u64
  mm_address_idle :: "(u64, u64) std_map"
  mm_address_used :: "(u64, u64) std_map"
  mm_size_idle :: "memory_range list"

definition new_memory_manager :: "u64 \<Rightarrow> u64 \<Rightarrow> memory_manager" where
  "new_memory_manager base sz = \<lparr> mm_base = base, mm_size = sz, mm_address_idle = [(0, sz)],
     mm_address_used = [], mm_size_idle = [(sz, 0)] \<rparr>"

definition allocated_size_align_up :: "u64 \<Rightarrow> u64" where
  "allocated_size_align_up input_size = (input_size + 16 - 1) AND NOT (16 - 1)"

definition allocate :: "u64 \<Rightarrow> u64 \<Rightarrow> memory_manager \<Rightarrow> u64 \<times> memory_manager" where
  "allocate heap_size sz m =
     (if sz = 0 \<or> sz > heap_size then (0, m)
      else let aligned_size = allocated_size_align_up sz in
        case set_lower_bound (aligned_size, 0) (mm_size_idle m) of
          [] \<Rightarrow> (0, m)
        | (tgt_size, tgt_offset) # _ \<Rightarrow>
          (case map_find (mm_address_idle m) tgt_offset of
             None \<Rightarrow> (0, m)
           | Some _ \<Rightarrow>
             let size_idle = set_erase (tgt_size, tgt_offset) (mm_size_idle m);
                 address_idle = map_erase tgt_offset (mm_address_idle m);
                 address_used = map_emplace tgt_offset aligned_size (mm_address_used m)
             in (mm_base m + tgt_offset,
                 if tgt_size > aligned_size
                 then m\<lparr>mm_address_used := address_used,
                        mm_address_idle := map_emplace (tgt_offset + aligned_size)
                          (tgt_size - aligned_size) address_idle,
                        mm_size_idle := set_emplace (tgt_size - aligned_size, tgt_offset + aligned_size)
                          size_idle\<rparr>
                 else m\<lparr>mm_address_used := address_used, mm_address_idle := address_idle,
                        mm_size_idle := size_idle\<rparr>)))"

text \<open>\<open>alignment_matches\<close> returns its verdict and the out-parameter \<open>head_skip\<close> as it leaves it.\<close>

definition alignment_matches :: "memory_range \<Rightarrow> u64 \<Rightarrow> u64 \<Rightarrow> u64 \<Rightarrow> bool \<times> u64" where
  "alignment_matches mr alignment sz head_skip =
     (case mr of (mr_size, mr_offset) \<Rightarrow>
      if mr_size < sz then (False, head_skip)
      else if mr_offset AND (alignment - 1) = 0 then (True, 0)
      else let aligned_offset = (mr_offset + alignment - 1) AND NOT (alignment - 1);
               head_skip' = aligned_offset - mr_offset
           in (mr_size \<ge> sz + head_skip', head_skip'))"

fun first_match :: "u64 \<Rightarrow> u64 \<Rightarrow> memory_range list \<Rightarrow> u64 \<Rightarrow> (memory_range \<times> u64) option" where
  "first_match alignment sz [] head_skip = None"
| "first_match alignment sz (mr # rs) head_skip =
     (case alignment_matches mr alignment sz head_skip of
        (True, head_skip') \<Rightarrow> Some (mr, head_skip')
      | (False, head_skip') \<Rightarrow> first_match alignment sz rs head_skip')"

definition aligned_allocate :: "u64 \<Rightarrow> u64 \<Rightarrow> u64 \<Rightarrow> memory_manager \<Rightarrow> u64 \<times> memory_manager" where
  "aligned_allocate heap_size alignment sz m =
     (if sz = 0 \<or> alignment = 0 \<or> sz > heap_size then (0, m)
      else if alignment AND (alignment - 1) \<noteq> 0 then (0, m)
      else let aligned_size = allocated_size_align_up sz in
        case first_match alignment aligned_size (set_lower_bound (aligned_size, 0) (mm_size_idle m)) 0 of
          None \<Rightarrow> (0, m)
        | Some ((tgt_size, tgt_offset), head_skip) \<Rightarrow>
          let s0 = set_erase (tgt_size, tgt_offset) (mm_size_idle m);
              a0 = mm_address_idle m;
              (s1, a1) = (if head_skip > 0
                then (set_emplace (head_skip, tgt_offset) s0, map_emplace tgt_offset head_skip a0)
                else (s0, a0));
              (s2, a2) = (if head_skip + aligned_size < tgt_size
                then (set_emplace (tgt_size - head_skip - aligned_size, tgt_offset + head_skip + aligned_size) s1,
                      map_emplace (tgt_offset + head_skip + aligned_size)
                        (tgt_size - head_skip - aligned_size) a1)
                else (s1, a1))
          in (mm_base m + (tgt_offset + head_skip),
              m\<lparr>mm_size_idle := s2, mm_address_idle := a2,
                mm_address_used := map_emplace (tgt_offset + head_skip) aligned_size (mm_address_used m)\<rparr>))"

definition out_of_heap :: "memory_manager \<Rightarrow> u64 \<Rightarrow> bool" where
  "out_of_heap m address \<longleftrightarrow> address < mm_base m \<or> address \<ge> mm_base m + mm_size m"

definition merge_before ::
  "u64 \<Rightarrow> u64 \<Rightarrow> (u64, u64) std_map \<Rightarrow> memory_range list \<Rightarrow>
     u64 \<times> u64 \<times> (u64, u64) std_map \<times> memory_range list" where
  "merge_before offset sz address_idle size_idle =
     (if map_before offset address_idle \<noteq> [] then
        (case last (map_before offset address_idle) of (prev_offset, prev_size) \<Rightarrow>
           if prev_offset + prev_size = offset
           then (prev_offset, sz + prev_size, map_erase prev_offset address_idle,
                 set_erase (prev_size, prev_offset) size_idle)
           else (offset, sz, address_idle, size_idle))
      else (offset, sz, address_idle, size_idle))"

definition merge_after ::
  "u64 \<Rightarrow> u64 \<Rightarrow> (u64, u64) std_map \<Rightarrow> memory_range list \<Rightarrow>
     u64 \<times> (u64, u64) std_map \<times> memory_range list" where
  "merge_after next_offset final_size address_idle size_idle =
     (case map_find address_idle next_offset of
        None \<Rightarrow> (final_size, address_idle, size_idle)
      | Some next_size \<Rightarrow> (final_size + next_size, map_erase next_offset address_idle,
          set_erase (next_size, next_offset) size_idle))"

definition release :: "u64 \<Rightarrow> memory_manager \<Rightarrow> int \<times> memory_manager" where
  "release address m =
     (if out_of_heap m address then (- 1, m)
      else let offset = address - mm_base m in
        case map_find (mm_address_used m) offset of
          None \<Rightarrow> (- 1, m)
        | Some sz \<Rightarrow>
          let (final_offset, size1, a1, s1) =
                merge_before offset sz (mm_address_idle m) (mm_size_idle m);
              (final_size, a2, s2) = merge_after (offset + sz) size1 a1 s1
          in (0, m\<lparr>mm_address_used := map_erase offset (mm_address_used m),
                   mm_address_idle := map_emplace final_offset final_size a2,
                   mm_size_idle := set_emplace (final_size, final_offset) s2\<rparr>))"

definition allocated_size :: "u64 \<Rightarrow> memory_manager \<Rightarrow> u64 option" where
  "allocated_size address m =
     (if out_of_heap m address then None else map_find (mm_address_used m) (address - mm_base m))"

definition erase_found :: "memory_range \<Rightarrow> memory_range list \<Rightarrow> (unit, memory_range list) res" where
  "erase_found mr size_idle = (if mr \<in> set size_idle then Inr (set_erase mr size_idle) else Inl Oob)"

definition reduce_size_in_lock ::
  "u64 \<Rightarrow> u64 \<Rightarrow> u64 \<Rightarrow> memory_manager \<Rightarrow> (unit, memory_manager) res" where
  "reduce_size_in_lock offset old_size new_size m =
     (let m' = m\<lparr>mm_address_used := map_assign offset new_size (mm_address_used m)\<rparr> in
      case map_find (mm_address_idle m') (offset + old_size) of
        None \<Rightarrow> Inr (m'\<lparr>mm_address_idle := map_emplace (offset + new_size) (old_size - new_size) (mm_address_idle m'),
                     mm_size_idle := set_emplace (old_size - new_size, offset + new_size) (mm_size_idle m')\<rparr>)
      | Some next_size \<Rightarrow>
          rbind (erase_found (next_size, offset + old_size) (mm_size_idle m')) (\<lambda>s.
          Inr (m'\<lparr>mm_address_idle := map_assign (offset + old_size) (next_size + (old_size - new_size)) (mm_address_idle m'),
                  mm_size_idle := set_emplace (next_size + (old_size - new_size), offset + old_size) s\<rparr>)))"

definition expend_size_in_lock ::
  "u64 \<Rightarrow> u64 \<Rightarrow> u64 \<Rightarrow> memory_manager \<Rightarrow> (unit, bool \<times> memory_manager) res" where
  "expend_size_in_lock offset old_size new_size m =
     (let delta = new_size - old_size in
      case map_find (mm_address_idle m) (offset + old_size) of
        None \<Rightarrow> Inr (False, m)
      | Some next_size \<Rightarrow>
          if next_size < delta then Inr (False, m)
          else let m' = m\<lparr>mm_address_used := map_assign offset new_size (mm_address_used m)\<rparr> in
            rbind (erase_found (next_size, offset + old_size) (mm_size_idle m')) (\<lambda>s.
            if next_size = delta
            then Inr (True, m'\<lparr>mm_size_idle := s, mm_address_idle := map_erase (offset + old_size) (mm_address_idle m')\<rparr>)
            else Inr (True, m'\<lparr>mm_address_idle := map_assign (offset + old_size) (next_size - delta) (mm_address_idle m'),
                    mm_size_idle := set_emplace (next_size - delta, offset + old_size) s\<rparr>)))"

definition change_size :: "u64 \<Rightarrow> u64 \<Rightarrow> memory_manager \<Rightarrow> (unit, bool \<times> memory_manager) res" where
  "change_size address sz m =
     (if out_of_heap m address then Inr (False, m)
      else if sz = 0 then Inr (True, snd (release address m))
      else let offset = address - mm_base m in
        case map_find (mm_address_used m) offset of
          None \<Rightarrow> Inr (False, m)
        | Some old_size \<Rightarrow>
          if old_size = sz then Inr (True, m)
          else if old_size > sz
          then rbind (reduce_size_in_lock offset old_size sz m) (\<lambda>m'. Inr (True, m'))
          else expend_size_in_lock offset old_size sz m)"

lemma comparator_order: "range_size_first_comparator mr1 mr2 \<longleftrightarrow> mr1 < mr2"
  by (cases mr1; cases mr2) (auto simp: range_size_first_comparator_def)

section \<open>The trees as blocks\<close>

definition blocks :: "(u64 \<times> u64) set \<Rightarrow> block set" where
  "blocks A = (\<lambda>(p, s). (unat p, unat s)) ` A"

definition heap_inv :: "memory_manager \<Rightarrow> bool" where
  "heap_inv m \<longleftrightarrow> map_ordered (mm_address_idle m) \<and> map_ordered (mm_address_used m) \<and>
     set_ordered (mm_size_idle m) \<and> prod.swap ` set (mm_size_idle m) = set (mm_address_idle m) \<and>
     heap (blocks (set (mm_address_idle m))) (blocks (set (mm_address_used m))) (unat (mm_size m)) \<and>
     mm_base m \<noteq> 0 \<and> unat (mm_base m) + unat (mm_size m) < 2 ^ 64"

lemma block_inj: "inj (\<lambda>(p :: u64, s :: u64). (unat p, unat s))"
  by (auto simp: inj_def simp flip: word_unat_eq_iff)

lemma blocks_simps [simp]:
  "blocks (insert (p, s) A) = insert (unat p, unat s) (blocks A)"
  "blocks (A - B) = blocks A - blocks B" "blocks (A \<union> B) = blocks A \<union> blocks B" "blocks {} = {}"
  by (auto simp: blocks_def image_set_diff [OF block_inj])

lemma blocks_mem: "(unat p, unat s) \<in> blocks A \<longleftrightarrow> (p, s) \<in> A"
  by (auto simp: blocks_def simp flip: word_unat_eq_iff)

lemma blocks_memE: "(q, t) \<in> blocks A \<Longrightarrow> (\<And>p s. q = unat p \<Longrightarrow> t = unat s \<Longrightarrow> (p, s) \<in> A \<Longrightarrow> P) \<Longrightarrow> P"
  by (auto simp: blocks_def)

lemma set_emplace_fresh:
  assumes "map_ordered m" and "\<forall>w. (k, w) \<notin> set m"
  shows "set (map_emplace k v m) = insert (k, v) (set m)"
proof -
  have "map_find m k = None"
    using assms entries_std_map [of m] std_map.entries_find [of k _ m] by (cases "map_find m k") auto
  then show ?thesis
    using assms std_map.entries_emplace [of m k v] entries_std_map [of m] entries_std_map [OF ordered_emplace [of m k v]]
    by simp
qed

lemma set_erase_entry:
  assumes "map_ordered m" and "(k, v) \<in> set m"
  shows "set (map_erase k m) = set m - {(k, v)}"
proof -
  have "map_find m k = Some v" using assms by (simp add: entries_std_map flip: std_map.entries_find)
  then show ?thesis
    using assms std_map.entries_erase [of m k v] entries_std_map [of m] entries_std_map [OF std_map.invar_erase [of m k]]
    by simp
qed

lemma find_entry: "map_ordered m \<Longrightarrow> map_find m k = Some v \<longleftrightarrow> (k, v) \<in> set m"
  by (simp add: entries_std_map flip: std_map.entries_find)

lemma align_up_unat:
  assumes "unat sz + 15 < 2 ^ 64"
  shows "unat (allocated_size_align_up sz) = (unat sz + 15) div 16 * 16"
proof -
  have e: "unat (sz + 15) = unat sz + 15" using assms by (subst unat_add_lem [THEN iffD1]) simp_all
  let ?x = "sz + 15"
  have "?x AND NOT 15 = ?x - take_bit 4 ?x"
  proof -
    have "(?x AND NOT 15) AND (?x AND 15) = 0" by (rule bit_word_eqI) (auto simp: bit_simps)
    then have "(?x AND NOT 15) + (?x AND 15) = (?x AND NOT 15) OR (?x AND 15)" by (rule disjunctive_add_eq_or)
    also have "\<dots> = ?x" by (rule bit_word_eqI) (auto simp: bit_simps)
    finally have "(?x AND NOT 15) + (?x AND 15) = ?x" .
    moreover have "?x AND 15 = take_bit 4 ?x" by (simp add: take_bit_eq_mask mask_eq_exp_minus_1)
    ultimately show ?thesis by (simp add: eq_diff_eq)
  qed
  moreover have "take_bit 4 ?x \<le> ?x" by (simp add: word_le_nat_alt unsigned_take_bit_eq take_bit_nat_def)
  moreover have "unat (take_bit 4 ?x) = (unat sz + 15) mod 16" by (simp add: unsigned_take_bit_eq take_bit_nat_def e)
  ultimately have "unat (?x AND NOT 15) = unat sz + 15 - (unat sz + 15) mod 16" by (simp add: unat_sub e)
  then show ?thesis by (simp add: allocated_size_align_up_def minus_mod_eq_div_mult add.commute)
qed

lemma align_up_bounds:
  assumes "unat sz + 15 < 2 ^ 64" and "sz \<noteq> 0"
  shows "unat sz \<le> unat (allocated_size_align_up sz)" and "unat (allocated_size_align_up sz) < unat sz + 16"
    and "16 dvd unat (allocated_size_align_up sz)" and "0 < unat (allocated_size_align_up sz)"
proof -
  have "0 < unat sz" using assms(2) by (simp add: unat_gt_0)
  then show "unat sz \<le> unat (allocated_size_align_up sz)" "unat (allocated_size_align_up sz) < unat sz + 16"
    "16 dvd unat (allocated_size_align_up sz)" "0 < unat (allocated_size_align_up sz)"
    by (simp_all add: align_up_unat [OF assms(1)])
qed

section \<open>Allocation\<close>

lemma inv_facts:
  assumes "heap_inv m"
  shows "map_ordered (mm_address_idle m)" and "map_ordered (mm_address_used m)" and "set_ordered (mm_size_idle m)"
    and "(s, p) \<in> set (mm_size_idle m) \<longleftrightarrow> (p, s) \<in> set (mm_address_idle m)"
    and "heap (blocks (set (mm_address_idle m))) (blocks (set (mm_address_used m))) (unat (mm_size m))"
proof -
  have "prod.swap ` set (mm_size_idle m) = set (mm_address_idle m)" using assms by (simp add: heap_inv_def)
  then show "(s, p) \<in> set (mm_size_idle m) \<longleftrightarrow> (p, s) \<in> set (mm_address_idle m)" by (metis pair_in_swap_image)
qed (use assms in \<open>simp_all add: heap_inv_def\<close>)

lemma entry_in_heap:
  assumes "heap_inv m" and "(p, s) \<in> set (mm_address_idle m) \<union> set (mm_address_used m)"
  shows "unat p + unat s \<le> unat (mm_size m)" and "0 < unat s"
proof -
  have t: "tiling (blocks (set (mm_address_idle m)) \<union> blocks (set (mm_address_used m))) (unat (mm_size m))"
    using assms(1) by (simp add: heap_inv_def heap_def)
  have b: "(unat p, unat s) \<in> blocks (set (mm_address_idle m)) \<union> blocks (set (mm_address_used m))"
    using assms(2) by (auto simp: blocks_mem)
  show "unat p + unat s \<le> unat (mm_size m)" "0 < unat s" using tilingD(1,2) [OF t b] by simp_all
qed

lemma swap_remove: "prod.swap ` (A - {(s, p)}) = prod.swap ` A - {(p, s)}"
  by force

lemma unat_add_below: "unat (a :: u64) + unat b \<le> unat (c :: u64) \<Longrightarrow> unat (a + b) = unat a + unat b"
  using unsigned_less [of c, where ?'a = nat] by (intro unat_add_lem [THEN iffD1]) simp

text \<open>The best fit: the smallest idle range that is large enough, the lowest among equals.\<close>

lemma lower_bound_best_fit:
  assumes inv: "heap_inv m"
  shows "set_lower_bound (a, 0) (mm_size_idle m) = [] \<Longrightarrow> (p, s) \<in> set (mm_address_idle m) \<Longrightarrow> s < a"
    and "set_lower_bound (a, 0) (mm_size_idle m) = (t, o1) # rs \<Longrightarrow> (o1, t) \<in> set (mm_address_idle m) \<and> a \<le> t"
    and "set_lower_bound (a, 0) (mm_size_idle m) = (t, o1) # rs \<Longrightarrow> (p, s) \<in> set (mm_address_idle m) \<Longrightarrow> a \<le> s \<Longrightarrow> t \<le> s"
proof -
  note lb = lower_bound_set [OF inv_facts(3) [OF inv], of "(a, 0)"]
  note mem = inv_facts(4) [OF inv]
  show "s < a" if "set_lower_bound (a, 0) (mm_size_idle m) = []" "(p, s) \<in> set (mm_address_idle m)"
  proof (rule ccontr)
    assume "\<not> s < a"
    then have "(s, p) \<in> set (set_lower_bound (a, 0) (mm_size_idle m))" using lb that(2) mem by auto
    then show False using that(1) by simp
  qed
  show "(o1, t) \<in> set (mm_address_idle m) \<and> a \<le> t" if "set_lower_bound (a, 0) (mm_size_idle m) = (t, o1) # rs"
  proof -
    have "(t, o1) \<in> set (set_lower_bound (a, 0) (mm_size_idle m))" using that by simp
    then show ?thesis using lb mem by (auto simp: less_eq_prod_def)
  qed
  show "t \<le> s" if "set_lower_bound (a, 0) (mm_size_idle m) = (t, o1) # rs" "(p, s) \<in> set (mm_address_idle m)" "a \<le> s"
  proof -
    have "(s, p) \<in> set ((t, o1) # rs)" using lb that mem by auto
    moreover have "sorted ((t, o1) # rs)"
      using inv_facts(3) [OF inv] that(1) unfolding set_lower_bound_def set_ordered_iff by (metis sorted_dropWhile)
    ultimately show ?thesis by (auto simp: less_eq_prod_def)
  qed
qed

text \<open>
  \<open>allocate\<close> either changes nothing because no idle range is large enough, or takes the front of the
  best fitting one.
\<close>

lemma allocate_refines:
  assumes inv: "heap_inv m" and sz: "sz \<noteq> 0" "sz \<le> heap_size" "unat sz + 15 < 2 ^ 64"
    and a: "a = allocated_size_align_up sz"
  shows "(allocate heap_size sz m = (0, m) \<and> (\<forall>(p, s) \<in> set (mm_address_idle m). s < a)) \<or>
    (\<exists>p s m'. allocate heap_size sz m = (mm_base m + p, m') \<and> (p, s) \<in> set (mm_address_idle m) \<and> a \<le> s \<and>
       (\<forall>(q, t) \<in> set (mm_address_idle m). a \<le> t \<longrightarrow> s \<le> t) \<and>
       blocks (set (mm_address_idle m')) = take_front (blocks (set (mm_address_idle m))) (unat p) (unat s) (unat a) \<and>
       set (mm_address_used m') = insert (p, a) (set (mm_address_used m)) \<and>
       (\<forall>w. (p, w) \<notin> set (mm_address_used m)) \<and>
       mm_base m' = mm_base m \<and> mm_size m' = mm_size m \<and> heap_inv m')"
proof (cases "set_lower_bound (a, 0) (mm_size_idle m)")
  case Nil
  then show ?thesis
    using sz lower_bound_best_fit(1) [OF inv Nil] by (auto simp: allocate_def a [symmetric] not_less)
next
  case (Cons x rs)
  obtain s p where x: "x = (s, p)" by (cases x)
  let ?I = "mm_address_idle m" and ?U = "mm_address_used m" and ?S = "mm_size_idle m"
  note lb = Cons [unfolded x]
  note f = inv_facts [OF inv]
  have mem: "(p, s) \<in> set ?I" and le: "a \<le> s" using lower_bound_best_fit(2) [OF inv lb] by auto
  have best: "\<forall>(q, t) \<in> set ?I. a \<le> t \<longrightarrow> s \<le> t" using lower_bound_best_fit(3) [OF inv lb] by auto
  have up: "0 < unat a" "16 dvd unat a" using align_up_bounds [OF sz(3,1)] by (simp_all add: a)
  have bm: "(unat p, unat s) \<in> blocks (set ?I)" using mem by (simp add: blocks_mem)
  have leN: "unat a \<le> unat s" using le by (simp add: word_le_nat_alt)
  note tf = heap_take_front [OF f(5) bm up(1) leN up(2)]
  have freshU: "\<forall>w. (p, w) \<notin> set ?U" using tf(2) blocks_mem by metis
  have used: "set (map_emplace p a ?U) = insert (p, a) (set ?U)" by (rule set_emplace_fresh [OF f(2) freshU])
  have erased: "set (map_erase p ?I) = set ?I - {(p, s)}" by (rule set_erase_entry [OF f(1) mem])
  have found: "map_find ?I p = Some s" using find_entry [OF f(1)] mem by simp
  define m' where "m' = snd (allocate heap_size sz m)"
  have g: "\<not> heap_size < sz" using sz(2) by simp
  have run: "allocate heap_size sz m = (mm_base m + p, m')"
    using sz(1) g lb found by (simp add: allocate_def m'_def a [symmetric] Let_def)
  have parts: "mm_address_used m' = map_emplace p a ?U" "mm_base m' = mm_base m" "mm_size m' = mm_size m"
    "mm_address_idle m' = (if a < s then map_emplace (p + a) (s - a) (map_erase p ?I) else map_erase p ?I)"
    "mm_size_idle m' = (if a < s then set_emplace (s - a, p + a) (set_erase (s, p) ?S) else set_erase (s, p) ?S)"
    using sz(1) g lb found by (simp_all add: allocate_def m'_def a [symmetric] Let_def)
  have pa: "unat (p + a) = unat p + unat a" "unat (s - a) = unat s - unat a"
    using entry_in_heap(1) [OF inv, of p s] mem leN unat_add_below [of p a "mm_size m"] le by (simp_all add: unat_sub)
  have inner: "\<forall>w. (p + a, w) \<notin> set (map_erase p ?I)" if "a < s"
  proof (intro allI notI)
    fix w assume "(p + a, w) \<in> set (map_erase p ?I)"
    then have "(unat p + unat a, unat w) \<in> blocks (set ?I)" using erased pa blocks_mem [of "p + a" w] by auto
    then show False using tf(3) that by (simp add: word_less_nat_alt)
  qed
  have ordE: "map_ordered (map_erase p ?I)" using f(1) by (rule std_map.invar_erase)
  have idle: "set (mm_address_idle m') = (if a < s then insert (p + a, s - a) (set ?I - {(p, s)}) else set ?I - {(p, s)})"
    using set_emplace_fresh [OF ordE inner, of "s - a"] erased by (simp add: parts)
  have bl: "blocks (set (mm_address_idle m')) = take_front (blocks (set ?I)) (unat p) (unat s) (unat a)"
    using pa by (simp add: idle take_front_def word_less_nat_alt)
  have "heap_inv m'"
    unfolding heap_inv_def
  proof (intro conjI)
    show "map_ordered (mm_address_idle m')" using ordE by (simp add: parts ordered_emplace)
    show "map_ordered (mm_address_used m')" using f(2) by (simp add: parts ordered_emplace)
    show "set_ordered (mm_size_idle m')" using f(3) by (simp add: parts ordered_set_emplace ordered_set_erase)
    show "prod.swap ` set (mm_size_idle m') = set (mm_address_idle m')"
      using inv unfolding idle parts(5) by (simp add: heap_inv_def swap_remove)
    show "heap (blocks (set (mm_address_idle m'))) (blocks (set (mm_address_used m'))) (unat (mm_size m'))"
      using tf(1) unfolding bl by (simp add: parts(1,3) used)
  qed (use inv in \<open>simp_all add: heap_inv_def parts\<close>)
  then show ?thesis
    using run mem le best bl used freshU by (intro disjI2 exI [of _ p] exI [of _ s] exI [of _ m']) (simp add: parts)
qed

section \<open>Release\<close>

text \<open>\<open>release\<close> gives a used range back, merged with its idle neighbours.\<close>

lemma merge_before_spec:
  assumes inv: "heap_inv m" and u: "(p, s) \<in> set (mm_address_used m)"
    and r: "merge_before p s (mm_address_idle m) (mm_size_idle m) = (fo, s1, a1, l1)"
  shows "\<exists>pr. before_ok (blocks (set (mm_address_idle m))) (unat p) (map_option (\<lambda>(q, t). (unat q, unat t)) pr) \<and>
    fo = (case pr of None \<Rightarrow> p | Some (q, t) \<Rightarrow> q) \<and> s1 = s + (case pr of None \<Rightarrow> 0 | Some (q, t) \<Rightarrow> t) \<and>
    set a1 = set (mm_address_idle m) - set_option pr \<and> map_ordered a1 \<and>
    set l1 = set (mm_size_idle m) - prod.swap ` set_option pr \<and> set_ordered l1"
proof -
  let ?I = "mm_address_idle m" and ?b = "map_before p (mm_address_idle m)"
  note f = inv_facts [OF inv]
  have lt: "unat q + unat t \<le> unat p" if "(q, t) \<in> set ?I" "q < p" for q t
  proof -
    have t: "tiling (blocks (set ?I) \<union> blocks (set (mm_address_used m))) (unat (mm_size m))" and
        dis: "blocks (set ?I) \<inter> blocks (set (mm_address_used m)) = {}" using f(5) by (simp_all add: heap_def)
    have "(unat q, unat t) \<in> blocks (set ?I)" "(unat p, unat s) \<in> blocks (set (mm_address_used m))"
      using that(1) u by (simp_all add: blocks_mem)
    then show ?thesis
      using tilingD(3) [OF t, of "(unat q, unat t)" "(unat p, unat s)"] dis that(2) by (auto simp: word_less_nat_alt)
  qed
  have sum: "unat (q + t) = unat q + unat t" if "(q, t) \<in> set ?I" for q t
    using entry_in_heap(1) [OF inv, of q t] that by (intro unat_add_below) auto
  show ?thesis
  proof (cases "?b \<noteq> [] \<and> fst (last ?b) + snd (last ?b) = p")
    case True
    obtain q t where l: "last ?b = (q, t)" by (cases "last ?b")
    have qt: "(q, t) \<in> set ?I" using map_before_last(1) [OF f(1) _ l] True find_entry [OF f(1)] by simp
    have "unat q + unat t = unat p" using sum [OF qt] True l by auto
    then have "before_ok (blocks (set ?I)) (unat p) (Some (unat q, unat t))"
      using qt by (simp add: before_ok_def blocks_mem)
    then show ?thesis
      using r True l f set_erase_entry [OF f(1) qt] std_map.invar_erase [OF f(1)] ordered_set_erase
      by (intro exI [of _ "Some (q, t)"]) (auto simp: merge_before_def)
  next
    case False
    have none: "fst b + snd b \<noteq> unat p" if bI: "b \<in> blocks (set ?I)" for b
    proof
      assume e: "fst b + snd b = unat p"
      obtain q t where qt: "(q, t) \<in> set ?I" and b: "b = (unat q, unat t)" using bI by (auto simp: blocks_def)
      have qlt: "q < p" using e b entry_in_heap(2) [OF inv, of q t] qt by (simp add: word_less_nat_alt)
      have ne: "?b \<noteq> []" using map_before_empty [OF f(1) _ , of p q t] find_entry [OF f(1)] qt qlt by force
      obtain k v where l: "last ?b = (k, v)" by (cases "last ?b")
      note bl = map_before_last [OF f(1) ne l]
      have kv: "(k, v) \<in> set ?I" using bl(1) find_entry [OF f(1)] by simp
      have "q \<le> k" using bl(3) [of q t] find_entry [OF f(1)] qt qlt by simp
      have "(k, v) = (q, t)"
      proof (rule ccontr)
        assume "(k, v) \<noteq> (q, t)"
        then have "(unat k, unat v) \<noteq> (unat q, unat t)" by (auto simp flip: word_unat_eq_iff)
        moreover have "(unat k, unat v) \<in> blocks (set ?I)" "(unat q, unat t) \<in> blocks (set ?I)"
          using kv qt by (simp_all add: blocks_mem)
        ultimately have "unat k + unat v \<le> unat q \<or> unat q + unat t \<le> unat k"
          using f(5) tilingD(3) [of "blocks (set ?I) \<union> blocks (set (mm_address_used m))" "unat (mm_size m)"
              "(unat k, unat v)" "(unat q, unat t)"] by (auto simp: heap_def)
        moreover have "unat k < unat p" "unat q \<le> unat k" "0 < unat v"
          using bl(2) \<open>q \<le> k\<close> entry_in_heap(2) [OF inv, of k v] kv by (simp_all add: word_less_nat_alt word_le_nat_alt)
        ultimately show False using e b by simp
      qed
      then have "last ?b = (q, t)" using l by simp
      then have "fst (last ?b) + snd (last ?b) = p" using e b sum [OF qt] by (simp add: word_unat_eq_iff)
      then show False using False ne by simp
    qed
    then have "before_ok (blocks (set ?I)) (unat p) None" by (simp add: before_ok_def)
    then show ?thesis
      using r False f by (intro exI [of _ None]) (auto simp: merge_before_def split: prod.splits if_splits)
  qed
qed

lemma release_refines:
  assumes inv: "heap_inv m" and u: "(p, s) \<in> set (mm_address_used m)"
  shows "\<exists>m' pr nx. release (mm_base m + p) m = (0, m') \<and>
    before_ok (blocks (set (mm_address_idle m))) (unat p) pr \<and>
    after_ok (blocks (set (mm_address_idle m))) (unat p + unat s) nx \<and>
    blocks (set (mm_address_idle m')) = give_back (blocks (set (mm_address_idle m))) (unat p) (unat s) pr nx \<and>
    set (mm_address_used m') = set (mm_address_used m) - {(p, s)} \<and>
    mm_base m' = mm_base m \<and> mm_size m' = mm_size m \<and> heap_inv m'"
proof -
  let ?I = "mm_address_idle m" and ?U = "mm_address_used m" and ?S = "mm_size_idle m"
  let ?BI = "blocks (set ?I)"
  note f = inv_facts [OF inv]
  have ps: "unat p + unat s \<le> unat (mm_size m)" "0 < unat s" using entry_in_heap [OF inv, of p s] u by auto
  have bs: "unat (mm_base m) + unat (mm_size m) < 2 ^ 64" using inv by (simp add: heap_inv_def)
  have base: "unat (mm_base m + p) = unat (mm_base m) + unat p" "unat (mm_base m + mm_size m) = unat (mm_base m) + unat (mm_size m)"
    using ps bs by (auto intro: unat_add_lem [THEN iffD1])
  have "\<not> out_of_heap m (mm_base m + p)" using base ps by (simp add: out_of_heap_def word_less_nat_alt word_le_nat_alt)
  moreover have found: "map_find ?U p = Some s" using find_entry [OF f(2)] u by simp
  moreover obtain fo s1 a1 l1 where mb: "merge_before p s ?I ?S = (fo, s1, a1, l1)" by (metis prod_cases4)
  moreover obtain fs a2 l2 where ma: "merge_after (p + s) s1 a1 l1 = (fs, a2, l2)" by (metis prod_cases3)
  ultimately have run: "release (mm_base m + p) m = (0, m\<lparr>mm_address_used := map_erase p ?U,
      mm_address_idle := map_emplace fo fs a2, mm_size_idle := set_emplace (fs, fo) l2\<rparr>)"
    by (simp add: release_def)
  from merge_before_spec [OF inv u mb] obtain pr where
      pr: "before_ok ?BI (unat p) (map_option (\<lambda>(q, t). (unat q, unat t)) pr)"
    and fo: "fo = (case pr of None \<Rightarrow> p | Some (q, t) \<Rightarrow> q)" and s1: "s1 = s + (case pr of None \<Rightarrow> 0 | Some (q, t) \<Rightarrow> t)"
    and a1: "set a1 = set ?I - set_option pr" "map_ordered a1"
    and l1: "set l1 = set ?S - prod.swap ` set_option pr" "set_ordered l1" by blast
  let ?pr = "map_option (\<lambda>(q, t). (unat q, unat t)) pr"
  have pq: "unat q + unat t = unat p" if "pr = Some (q, t)" for q t using pr that by (simp add: before_ok_def)
  have psu: "unat (p + s) = unat p + unat s" using ps(1) by (rule unat_add_below)
  define nx where "nx = map_find a1 (p + s)"
  have nxI: "nx = Some r \<Longrightarrow> (p + s, r) \<in> set ?I" for r using find_entry [OF a1(2)] a1(1) by (auto simp: nx_def)
  have nx0: "nx = None \<Longrightarrow> (p + s, r) \<notin> set ?I" for r
  proof
    assume "nx = None" and r: "(p + s, r) \<in> set ?I"
    then have "(p + s, r) \<notin> set a1" using find_entry [OF a1(2), of "p + s" r] by (auto simp: nx_def)
    then have "pr = Some (p + s, r)" using r a1(1) by (auto split: option.splits)
    then show False using pq [of "p + s" r] psu ps(2) by simp
  qed
  have after: "after_ok ?BI (unat p + unat s) (map_option unat nx)"
  proof (cases nx)
    case None
    have "(unat p + unat s, r) \<notin> ?BI" for r
      using nx0 [OF None] psu by (auto simp: blocks_def simp flip: psu word_unat_eq_iff)
    then show ?thesis using None by (simp add: after_ok_def)
  next
    case (Some r)
    then show ?thesis using nxI [OF Some] psu blocks_mem [of "p + s" r "set ?I"] by (simp add: after_ok_def)
  qed
  let ?nx = "map_option unat nx"
  have a2: "set a2 = set a1 - Pair (p + s) ` set_option nx" "map_ordered a2"
    "set l2 = set l1 - (\<lambda>r. (r, p + s)) ` set_option nx" "set_ordered l2"
    "fs = s1 + (case nx of None \<Rightarrow> 0 | Some r \<Rightarrow> r)"
    using ma a1(2) l1(2) set_erase_entry [OF a1(2), of "p + s"] find_entry [OF a1(2), of "p + s"]
      std_map.invar_erase [OF a1(2), of "p + s"] ordered_set_erase [OF l1(2)]
    by (auto simp: merge_after_def nx_def [symmetric] split: option.splits)
  have sz: "unat (mm_size m) < 2 ^ 64" using unsigned_less [of "mm_size m", where ?'a = nat] by simp
  have s1u: "unat s1 = unat s + (case ?pr of None \<Rightarrow> 0 | Some (q, t) \<Rightarrow> t)"
  proof (cases pr)
    case None
    then show ?thesis by (simp add: s1)
  next
    case (Some b)
    obtain q t where b: "b = (q, t)" by (cases b)
    have "unat s + unat t \<le> unat (mm_size m)" using pq [of q t] Some b ps(1) by simp
    then show ?thesis using unat_add_below [of s t "mm_size m"] by (simp add: s1 Some b)
  qed
  have fsu: "unat fs = unat s1 + (case ?nx of None \<Rightarrow> 0 | Some r \<Rightarrow> r)"
  proof (cases nx)
    case None
    then show ?thesis by (simp add: a2(5))
  next
    case (Some r)
    have "unat p + unat s + unat r \<le> unat (mm_size m)"
      using entry_in_heap(1) [OF inv, of "p + s" r] nxI [OF Some] psu by simp
    moreover have "unat s1 \<le> unat s + unat p" using s1u pq by (cases pr) auto
    ultimately have "unat s1 + unat r < 2 ^ 64" using sz by linarith
    then show ?thesis using Some unat_add_lem [of s1 r] by (simp add: a2(5))
  qed
  have fou: "unat fo = fst (joined (unat p) (unat s) ?pr ?nx)" by (cases pr) (auto simp: fo joined_def)
  have j: "joined (unat p) (unat s) ?pr ?nx = (unat fo, unat fs)"
    unfolding prod_eq_iff using fou by (simp add: fsu s1u joined_def)
  have restS: "set a2 = set ?I - set_option pr - Pair (p + s) ` set_option nx" using a1(1) a2(1) by simp
  have rest: "blocks (set a2) = rest ?BI (unat p + unat s) ?pr ?nx"
    unfolding restS rest_def by (cases pr; cases nx) (auto simp: psu simp del: blocks_simps(1) simp: blocks_simps)
  have uB: "(unat p, unat s) \<in> blocks (set ?U)" using u by (simp add: blocks_mem)
  note gb = heap_give_back [OF f(5) uB pr after]
  have fresh: "\<forall>w. (fo, w) \<notin> set a2"
    using gb(2) blocks_mem [of fo _ "set a2"] rest fou by metis
  have idle: "set (map_emplace fo fs a2) = insert (fo, fs) (set a2)" by (rule set_emplace_fresh [OF a2(2) fresh])
  have used: "set (map_erase p ?U) = set ?U - {(p, s)}" by (rule set_erase_entry [OF f(2) u])
  have bl: "blocks (set (map_emplace fo fs a2)) = give_back ?BI (unat p) (unat s) ?pr ?nx"
    by (simp add: idle rest give_back_def j)
  have sw: "prod.swap ` set l2 = set a2"
    unfolding restS a2(3) l1(1) using inv by (cases pr; cases nx) (auto simp: heap_inv_def swap_remove image_iff)
  define m' where "m' = m\<lparr>mm_address_used := map_erase p ?U, mm_address_idle := map_emplace fo fs a2,
      mm_size_idle := set_emplace (fs, fo) l2\<rparr>"
  have "heap_inv m'"
    using inv a2(2,4) f(2) bl gb(1) sw idle used
    by (simp add: heap_inv_def m'_def ordered_emplace ordered_set_emplace std_map.invar_erase)
  moreover have "blocks (set (mm_address_idle m')) = give_back ?BI (unat p) (unat s) ?pr ?nx"
    "set (mm_address_used m') = set ?U - {(p, s)}" "mm_base m' = mm_base m" "mm_size m' = mm_size m"
    using bl used by (simp_all add: m'_def)
  ultimately show ?thesis using run [folded m'_def] pr after by blast
qed

section \<open>Allocations as the client sees them\<close>

text \<open>The live allocations, by address.\<close>

definition live :: "memory_manager \<Rightarrow> u64 \<Rightarrow> u64 option" where
  "live m address = allocated_size address m"

lemma live_entry:
  assumes inv: "heap_inv m"
  shows "live m x = Some s \<longleftrightarrow> (x - mm_base m, s) \<in> set (mm_address_used m)"
    and "(p, s) \<in> set (mm_address_used m) \<Longrightarrow> live m (mm_base m + p) = Some s \<and> unat (mm_base m + p) = unat (mm_base m) + unat p"
proof -
  note f = find_entry [OF inv_facts(2) [OF inv]]
  have bs: "unat (mm_base m) + unat (mm_size m) < 2 ^ 64" using inv by (simp add: heap_inv_def)
  have in_heap: "\<not> out_of_heap m x \<and> unat x = unat (mm_base m) + unat (x - mm_base m)"
    if "(x - mm_base m, s) \<in> set (mm_address_used m)" for x s
  proof -
    have "unat (x - mm_base m) + unat s \<le> unat (mm_size m)" "0 < unat s"
      using entry_in_heap [OF inv, of "x - mm_base m" s] that by auto
    then have "unat (mm_base m + (x - mm_base m)) = unat (mm_base m) + unat (x - mm_base m)"
        "unat (mm_base m + mm_size m) = unat (mm_base m) + unat (mm_size m)"
        "unat (x - mm_base m) < unat (mm_size m)"
      using bs unat_add_lem [of "mm_base m" "x - mm_base m"] unat_add_lem [of "mm_base m" "mm_size m"] by simp_all
    then show ?thesis by (simp add: out_of_heap_def word_less_nat_alt word_le_nat_alt)
  qed
  show "live m x = Some s \<longleftrightarrow> (x - mm_base m, s) \<in> set (mm_address_used m)"
    using in_heap [of x s] f by (auto simp: live_def allocated_size_def split: if_splits)
  then show "live m (mm_base m + p) = Some s \<and> unat (mm_base m + p) = unat (mm_base m) + unat p"
    if "(p, s) \<in> set (mm_address_used m)"
    using in_heap [of "mm_base m + p" s] that f by (simp add: live_def allocated_size_def)
qed

lemma live_disjoint:
  assumes inv: "heap_inv m" and "live m x = Some s" and "live m y = Some t" and "x \<noteq> y"
  shows "{unat x..<unat x + unat s} \<inter> {unat y..<unat y + unat t} = {}"
proof -
  have e: "(x - mm_base m, s) \<in> set (mm_address_used m)" "(y - mm_base m, t) \<in> set (mm_address_used m)"
    using live_entry(1) [OF inv] assms(2,3) by auto
  then have b: "(unat (x - mm_base m), unat s) \<in> blocks (set (mm_address_used m))"
    "(unat (y - mm_base m), unat t) \<in> blocks (set (mm_address_used m))" by (simp_all add: blocks_mem)
  have ne: "(unat (x - mm_base m), unat s) \<noteq> (unat (y - mm_base m), unat t)"
    using assms(4) by (auto simp flip: word_unat_eq_iff)
  have "disjoint_blocks (blocks (set (mm_address_used m)))"
    using inv by (auto simp: heap_inv_def heap_def intro: tiling_disjoint)
  then have "{unat (x - mm_base m)..<unat (x - mm_base m) + unat s} \<inter> {unat (y - mm_base m)..<unat (y - mm_base m) + unat t} = {}"
    using b ne unfolding disjoint_blocks_def by fastforce
  moreover have "unat x = unat (mm_base m) + unat (x - mm_base m)" "unat y = unat (mm_base m) + unat (y - mm_base m)"
    using live_entry(2) [OF inv e(1)] live_entry(2) [OF inv e(2)] by simp_all
  ultimately show ?thesis by (auto simp: disjoint_iff)
qed

lemma live_eqI:
  assumes "heap_inv m" "heap_inv m'" "mm_base m' = mm_base m"
    and "\<And>p s. (p, s) \<in> set (mm_address_used m') \<longleftrightarrow> M (mm_base m + p) = Some s"
  shows "live m' = M"
proof
  fix x
  have "live m' x = Some s \<longleftrightarrow> M x = Some s" for s
    using live_entry(1) [OF assms(2), of x s] assms(3) assms(4) [of "x - mm_base m" s] by simp
  then show "live m' x = M x" by (metis option.exhaust)
qed

text \<open>What the client may rely on, from the refinement of the two operations.\<close>

lemma allocate_live:
  assumes inv: "heap_inv m" and h: "unat heap_size + 15 < 2 ^ 64" and r: "allocate heap_size sz m = (x, m')"
  shows "x = 0 \<and> m' = m \<and> (sz \<noteq> 0 \<longrightarrow> sz \<le> heap_size \<longrightarrow>
        (\<forall>(p, s) \<in> set (mm_address_idle m). s < allocated_size_align_up sz)) \<or>
    x \<noteq> 0 \<and> heap_inv m' \<and> live m x = None \<and> live m' = (live m)(x \<mapsto> allocated_size_align_up sz) \<and>
      unat sz \<le> unat (allocated_size_align_up sz) \<and> 16 dvd unat (x - mm_base m) \<and>
      unat (mm_base m) \<le> unat x \<and> unat x + unat (allocated_size_align_up sz) \<le> unat (mm_base m) + unat (mm_size m) \<and>
      mm_base m' = mm_base m \<and> mm_size m' = mm_size m"
proof (cases "sz = 0 \<or> sz > heap_size")
  case True
  then show ?thesis using r by (auto simp: allocate_def not_le)
next
  case False
  let ?a = "allocated_size_align_up sz"
  have sz: "sz \<noteq> 0" "sz \<le> heap_size" using False by auto
  have b: "unat sz + 15 < 2 ^ 64" using sz(2) h by (simp add: word_le_nat_alt)
  from allocate_refines [OF inv sz b refl] show ?thesis
  proof (elim disjE exE conjE)
    assume "allocate heap_size sz m = (0, m)" and "\<forall>(p, s) \<in> set (mm_address_idle m). s < ?a"
    then show ?thesis using r by auto
  next
    fix p s n
    assume q: "allocate heap_size sz m = (mm_base m + p, n)" "(p, s) \<in> set (mm_address_idle m)" "?a \<le> s"
      and U: "set (mm_address_used n) = insert (p, ?a) (set (mm_address_used m))" "\<forall>w. (p, w) \<notin> set (mm_address_used m)"
      and n: "mm_base n = mm_base m" "mm_size n = mm_size m" "heap_inv n"
    have x: "x = mm_base m + p" "m' = n" using q(1) r by auto
    have pin: "(p, ?a) \<in> set (mm_address_used n)" using U(1) by simp
    have bu: "unat (mm_base m + p) = unat (mm_base m) + unat p" using live_entry(2) [OF n(3) pin] n(1) by simp
    have "mm_base m \<noteq> 0" using inv by (simp add: heap_inv_def)
    then have "x \<noteq> 0" using bu x by (metis add_is_0 unat_eq_zero)
    moreover have "live m x = None"
      using live_entry(1) [OF inv, of x] U(2) x(1) by (cases "live m x") auto
    moreover have "live m' = (live m)(x \<mapsto> ?a)"
    proof (rule live_eqI [OF inv])
      show "(p', s') \<in> set (mm_address_used m') \<longleftrightarrow> ((live m)(x \<mapsto> ?a)) (mm_base m + p') = Some s'" for p' s'
        using U live_entry(1) [OF inv, of "mm_base m + p'" s'] x by (auto simp: fun_upd_def)
    qed (use n x in simp_all)
    moreover have "16 dvd unat (x - mm_base m)"
      using inv_facts(5) [OF n(3)] pin blocks_mem [of p ?a "set (mm_address_used n)"] x by (force simp: heap_def)
    moreover have "unat p + unat ?a \<le> unat (mm_size m)" using entry_in_heap(1) [OF n(3), of p ?a] pin n(2) by simp
    ultimately show ?thesis using n x bu align_up_bounds(1) [OF b sz(1)] by simp
  qed
qed

lemma release_live:
  assumes inv: "heap_inv m" and r: "release x m = (c, m')"
  shows "live m x = None \<and> c = - 1 \<and> m' = m \<or>
    live m x \<noteq> None \<and> c = 0 \<and> heap_inv m' \<and> live m' = (live m)(x := None) \<and>
      mm_base m' = mm_base m \<and> mm_size m' = mm_size m"
proof (cases "live m x")
  case None
  then show ?thesis using r by (auto simp: live_def allocated_size_def release_def split: if_splits)
next
  case (Some s)
  then have u: "(x - mm_base m, s) \<in> set (mm_address_used m)" using live_entry(1) [OF inv] by simp
  from release_refines [OF inv u] obtain n where n: "release x m = (0, n)"
    "set (mm_address_used n) = set (mm_address_used m) - {(x - mm_base m, s)}"
    "mm_base n = mm_base m" "mm_size n = mm_size m" "heap_inv n" by auto
  have "live n = (live m)(x := None)"
  proof (rule live_eqI [OF inv n(5,3)])
    fix p' s'
    have "s' = s" if "(p', s') \<in> set (mm_address_used m)" and "mm_base m + p' = x"
    proof -
      have "p' = x - mm_base m" using that(2) by auto
      then have "map_find (mm_address_used m) p' = Some s'" "map_find (mm_address_used m) p' = Some s"
        using that(1) u find_entry [OF inv_facts(2) [OF inv]] by simp_all
      then show ?thesis by simp
    qed
    moreover have "p' = x - mm_base m \<longleftrightarrow> mm_base m + p' = x" by auto
    moreover have "live m (mm_base m + p') = Some s' \<longleftrightarrow> (p', s') \<in> set (mm_address_used m)"
      using live_entry(1) [OF inv, of "mm_base m + p'" s'] by simp
    ultimately show "(p', s') \<in> set (mm_address_used n) \<longleftrightarrow> ((live m)(x := None)) (mm_base m + p') = Some s'"
      unfolding n(2) fun_upd_apply Diff_iff singleton_iff prod.inject by (cases "mm_base m + p' = x") simp_all
  qed
  then show ?thesis using n r Some by auto
qed

text \<open>The heap manager keeps the allocator's contract, for every global heap size that cannot wrap.\<close>

definition heap_limit :: "u64 \<Rightarrow> u64" where
  "heap_limit heap_size = min heap_size (2 ^ 64 - 16)"

lemma heap_limit: "unat (heap_limit heap_size) + 15 < 2 ^ 64"
proof -
  have "heap_limit heap_size \<le> 2 ^ 64 - 16" by (simp add: heap_limit_def)
  then have "unat (heap_limit heap_size) \<le> 2 ^ 64 - 16" by (simp add: word_le_nat_alt)
  then show ?thesis by simp
qed

interpretation hm: allocator "allocate (heap_limit heap_size)" release live heap_inv for heap_size
proof unfold_locales
  fix m m' n x
  assume "heap_inv m" "allocate (heap_limit heap_size) n m = (x, m')"
  from allocate_live [OF this(1) heap_limit this(2)]
  show "x = 0 \<and> m' = m \<or> x \<noteq> 0 \<and> heap_inv m' \<and> live m x = None \<and> (\<exists>a. unat n \<le> unat a \<and> live m' = (live m)(x \<mapsto> a))"
    by blast
next
  fix m m' x c
  assume "heap_inv m" "release x m = (c, m')"
  from release_live [OF this]
  show "live m x = None \<and> c = - 1 \<and> m' = m \<or> live m x \<noteq> None \<and> c = 0 \<and> heap_inv m' \<and> live m' = (live m)(x := None)"
    by blast
next
  fix m x s y t
  assume "heap_inv m" "live m x = Some s" "live m y = Some t" "x \<noteq> y"
  then show "{unat x..<unat x + unat s} \<inter> {unat y..<unat y + unat t} = {}" by (rule live_disjoint)
qed

section \<open>Runs\<close>

text \<open>The states a heap reaches by allocating and releasing, in any order and with any arguments.\<close>

inductive heap_run :: "u64 \<Rightarrow> memory_manager \<Rightarrow> memory_manager \<Rightarrow> bool" for heap_size where
  start: "heap_run heap_size m m"
| allocated: "heap_run heap_size m m' \<Longrightarrow> allocate heap_size sz m' = (x, m'') \<Longrightarrow> heap_run heap_size m m''"
| released: "heap_run heap_size m m' \<Longrightarrow> release x m' = (c, m'') \<Longrightarrow> heap_run heap_size m m''"

lemma distinct_single:
  assumes "distinct xs" and "set xs = {x}"
  shows "xs = [x]"
proof -
  have "length xs = 1" using distinct_card [OF assms(1)] assms(2) by simp
  then show ?thesis using assms(2) by (cases xs) auto
qed

lemma new_heap_inv:
  assumes "base \<noteq> 0" and "sz \<noteq> 0" and "unat base + unat sz < 2 ^ 64"
  shows "heap_inv (new_memory_manager base sz)"
proof -
  have "0 < unat sz" using assms(2) by (simp add: unat_gt_0)
  then have "heap {(0, unat sz)} {} (unat sz)" by (auto simp: heap_def tiling_def coalesced_def)
  then show ?thesis
    using assms by (simp add: heap_inv_def new_memory_manager_def map_ordered_def set_ordered_def)
qed

lemma heap_run_inv:
  assumes "heap_run heap_size m m'" and "heap_inv m" and "unat heap_size + 15 < 2 ^ 64"
  shows "heap_inv m' \<and> mm_base m' = mm_base m \<and> mm_size m' = mm_size m"
  using assms
proof (induction rule: heap_run.induct)
  case (allocated m m' sz x m'')
  then show ?case using allocate_live [of m' heap_size sz x m''] by auto
next
  case (released m m' x c m'')
  then show ?case using release_live [of m' x c m''] by auto
qed simp

text \<open>
  C31 No two live allocations share a byte. However a heap is used through \<open>allocate\<close> and
  \<open>release\<close>, the ranges that are live lie inside the heap, begin at multiples of 16 from its base and
  are pairwise disjoint.
\<close>

theorem heap_live_ranges:
  assumes "heap_run heap_size (new_memory_manager base n) m" and "base \<noteq> 0" and "n \<noteq> 0"
    and "unat base + unat n < 2 ^ 64" and "unat heap_size + 15 < 2 ^ 64"
    and "live m x = Some s" and "live m y = Some t" and "x \<noteq> y"
  shows "unat base \<le> unat x \<and> unat x + unat s \<le> unat base + unat n \<and> 16 dvd unat x - unat base \<and>
    {unat x..<unat x + unat s} \<inter> {unat y..<unat y + unat t} = {}"
proof -
  have inv: "heap_inv m" and same: "mm_base m = base" "mm_size m = n"
    using heap_run_inv [OF assms(1) new_heap_inv [OF assms(2,3,4)] assms(5)] by (simp_all add: new_memory_manager_def)
  have e: "(x - base, s) \<in> set (mm_address_used m)" using live_entry(1) [OF inv] assms(6) same by simp
  have u: "unat x = unat base + unat (x - base)" using live_entry(2) [OF inv e] same by simp
  moreover have "unat (x - base) + unat s \<le> unat n" using entry_in_heap(1) [OF inv, of "x - base" s] e same by simp
  moreover have "16 dvd unat (x - base)"
    using inv_facts(5) [OF inv] e blocks_mem [of "x - base" s "set (mm_address_used m)"] by (force simp: heap_def)
  ultimately show ?thesis using live_disjoint [OF inv assms(6-8)] by simp
qed

text \<open>
  What \<open>allocate\<close> promises. A non-null result is a fresh address of a range at least as large
  as asked for, every other live range stays as it is, and the range comes from the best fitting idle
  range; null leaves the heap unchanged and means that the request was zero, above the global heap
  size, or larger than every idle range.
\<close>

theorem allocate_correct:
  assumes "heap_run heap_size (new_memory_manager base n) m" and "base \<noteq> 0" and "n \<noteq> 0"
    and "unat base + unat n < 2 ^ 64" and "unat heap_size + 15 < 2 ^ 64"
    and "allocate heap_size sz m = (x, m')"
  shows "(if x = 0 then m' = m \<and> (sz = 0 \<or> sz > heap_size \<or>
            (\<forall>(p, s) \<in> set (mm_address_idle m). unat s < (unat sz + 15) div 16 * 16))
      else live m x = None \<and> live m' = (live m)(x \<mapsto> allocated_size_align_up sz) \<and>
        unat sz \<le> unat (allocated_size_align_up sz) \<and> unat (allocated_size_align_up sz) < unat sz + 16)"
proof -
  have inv: "heap_inv m" using heap_run_inv [OF assms(1) new_heap_inv [OF assms(2,3,4)] assms(5)] by simp
  show ?thesis
  proof (cases "sz = 0 \<or> sz > heap_size")
    case True
    then show ?thesis using assms(6) by (auto simp: allocate_def)
  next
    case False
    then have b: "unat sz + 15 < 2 ^ 64" using assms(5) by (simp add: word_le_nat_alt not_less)
    have e: "(s :: u64) < allocated_size_align_up sz \<longleftrightarrow> unat s < (unat sz + 15) div 16 * 16" for s
      by (simp add: word_less_nat_alt align_up_unat [OF b])
    show ?thesis
      using allocate_live [OF inv assms(5,6)] False align_up_bounds [OF b] by (auto simp: e)
  qed
qed

text \<open>
  What \<open>release\<close> promises. On the address of a live range it answers 0 and ends exactly that
  range; on every other address it answers -1 and changes nothing.
\<close>

theorem release_correct:
  assumes "heap_run heap_size (new_memory_manager base n) m" and "base \<noteq> 0" and "n \<noteq> 0"
    and "unat base + unat n < 2 ^ 64" and "unat heap_size + 15 < 2 ^ 64"
  shows "if live m x = None then release x m = (- 1, m)
    else \<exists>m'. release x m = (0, m') \<and> live m' = (live m)(x := None)"
proof -
  have inv: "heap_inv m" using heap_run_inv [OF assms(1) new_heap_inv [OF assms(2,3,4)] assms(5)] by simp
  obtain c m' where r: "release x m = (c, m')" by (cases "release x m")
  show ?thesis using release_live [OF inv r] r by auto
qed

text \<open>
  C32 No memory is lost. When every live range has been released, in whatever order, the manager is
  back in the state of a new heap: one idle range of the full size in both trees.
\<close>

theorem heap_recovers:
  assumes "heap_run heap_size (new_memory_manager base n) m" and "base \<noteq> 0" and "n \<noteq> 0"
    and "unat base + unat n < 2 ^ 64" and "unat heap_size + 15 < 2 ^ 64" and "\<forall>x. live m x = None"
  shows "m = new_memory_manager base n"
proof -
  have inv: "heap_inv m" and same: "mm_base m = base" "mm_size m = n"
    using heap_run_inv [OF assms(1) new_heap_inv [OF assms(2,3,4)] assms(5)] by (simp_all add: new_memory_manager_def)
  note f = inv_facts [OF inv]
  have "(p, s) \<notin> set (mm_address_used m)" for p s using live_entry(2) [OF inv, of p s] assms(6) by auto
  then have none: "mm_address_used m = []" by (cases "mm_address_used m") auto
  have "0 < unat n" using assms(3) by (simp add: unat_gt_0)
  then have b: "blocks (set (mm_address_idle m)) = {(0, unat n)}"
    using f(5) none same by (intro coalesced_single) (simp_all add: heap_def)
  have "(p, s) \<in> set (mm_address_idle m) \<longleftrightarrow> p = 0 \<and> s = n" for p s
    unfolding blocks_mem [symmetric, of p s] b by (auto simp: unat_eq_zero simp flip: word_unat_eq_iff)
  then have I: "set (mm_address_idle m) = {(0, n)}" by auto
  have "distinct (mm_address_idle m)" using f(1) by (auto simp: map_ordered_def strict_sorted_iff distinct_map)
  then have "mm_address_idle m = [(0, n)]" using I by (rule distinct_single)
  moreover have "set (mm_size_idle m) = {(n, 0)}" using f(4) I by auto
  then have "mm_size_idle m = [(n, 0)]" using f(3) by (intro distinct_single) (simp_all add: set_ordered_iff)
  ultimately show ?thesis using none same by (cases m) (simp add: new_memory_manager_def)
qed

section \<open>Aligned allocation\<close>

lemma round_up:
  fixes p b :: u64
  assumes "unat p + unat b < 2 ^ 64"
  shows "unat p \<le> unat ((p + b) AND NOT b)" and "unat ((p + b) AND NOT b) \<le> unat p + unat b"
    and "((p + b) AND NOT b) AND b = 0"
proof -
  let ?x = "p + b"
  have u: "unat ?x = unat p + unat b" using assms by (subst unat_add_lem [THEN iffD1]) simp_all
  have "(?x AND NOT b) AND (?x AND b) = 0" by (rule bit_word_eqI) (auto simp: bit_simps)
  then have "(?x AND NOT b) + (?x AND b) = (?x AND NOT b) OR (?x AND b)" by (rule disjunctive_add_eq_or)
  also have "\<dots> = ?x" by (rule bit_word_eqI) (auto simp: bit_simps)
  finally have e: "?x AND NOT b = ?x - (?x AND b)" by (simp add: eq_diff_eq)
  have le: "?x AND b \<le> ?x" "?x AND b \<le> b" by (rule word_and_le2, rule word_and_le1)
  then have "unat (?x AND NOT b) = unat p + unat b - unat (?x AND b)" unfolding e by (simp add: unat_sub u)
  then show "unat p \<le> unat (?x AND NOT b)" "unat (?x AND NOT b) \<le> unat p + unat b"
    using le(2) by (simp_all add: word_le_nat_alt)
  show "(?x AND NOT b) AND b = 0" by (rule bit_word_eqI) (auto simp: bit_simps)
qed

lemma first_match_elem:
  "first_match al a rs h0 = Some (mr, h) \<Longrightarrow> mr \<in> set rs \<and> (\<exists>h'. alignment_matches mr al a h' = (True, h))"
  by (induction rs arbitrary: h0) (auto split: prod.splits bool.splits)

lemma alignment_matches_spec:
  assumes "alignment_matches (s, p) al a h' = (True, h)" and "al \<noteq> 0"
    and "unat p + unat s + unat al \<le> 2 ^ 64"
  shows "unat h + unat a \<le> unat s" and "(p + h) AND (al - 1) = 0"
proof -
  have b: "unat (al - 1) = unat al - 1" "0 < unat al" using assms(2) unat_pred by (simp_all add: unat_gt_0)
  have le: "a \<le> s" using assms(1) by (auto simp: alignment_matches_def not_less split: if_splits)
  have "unat h + unat a \<le> unat s \<and> (p + h) AND (al - 1) = 0"
  proof (cases "p AND (al - 1) = 0")
    case True
    then have "h = 0" using assms(1) by (auto simp: alignment_matches_def split: if_splits)
    then show ?thesis using True le by (simp add: word_le_nat_alt)
  next
    case False
    let ?y = "(p + (al - 1)) AND NOT (al - 1)"
    have h: "h = ?y - p" "a + h \<le> s"
      using assms(1) False by (auto simp: alignment_matches_def Let_def algebra_simps split: if_splits)
    have "unat p + unat (al - 1) < 2 ^ 64" using assms(3) b by simp
    note ru = round_up [OF this]
    have hu: "unat h = unat ?y - unat p" using ru(1) unfolding h(1) by (simp add: unat_sub word_le_nat_alt)
    then have "unat h \<le> unat al - 1" using ru(2) b by simp
    then have "unat a + unat h < 2 ^ 64" using le b assms(3) by (simp add: word_le_nat_alt)
    then have "unat (a + h) = unat a + unat h" using unat_add_lem [of a h] by simp
    then show ?thesis using h ru(3) by (simp add: word_le_nat_alt)
  qed
  then show "unat h + unat a \<le> unat s" "(p + h) AND (al - 1) = 0" by auto
qed

lemma inside_idle:
  assumes inv: "heap_inv m" and i: "(p, s) \<in> set (mm_address_idle m)" and u: "(q, t) \<in> set (mm_address_used m)"
  shows "unat q + unat t \<le> unat p \<or> unat p + unat s \<le> unat q"
proof -
  have "tiling (blocks (set (mm_address_idle m)) \<union> blocks (set (mm_address_used m))) (unat (mm_size m))"
    and "blocks (set (mm_address_idle m)) \<inter> blocks (set (mm_address_used m)) = {}"
    using inv by (simp_all add: heap_inv_def heap_def)
  moreover have "(unat p, unat s) \<in> blocks (set (mm_address_idle m))" "(unat q, unat t) \<in> blocks (set (mm_address_used m))"
    using i u by (simp_all add: blocks_mem)
  ultimately show ?thesis
    using tilingD(3) [of _ "unat (mm_size m)" "(unat p, unat s)" "(unat q, unat t)"] by fastforce
qed

lemma live_add:
  assumes inv: "heap_inv m" and b: "mm_base m' = mm_base m" "mm_size m' = mm_size m"
    and used: "mm_address_used m' = map_emplace p a (mm_address_used m)" and fresh: "\<forall>w. (p, w) \<notin> set (mm_address_used m)"
    and p: "unat p < unat (mm_size m)"
  shows "live m' = (live m)(mm_base m + p \<mapsto> a) \<and> live m (mm_base m + p) = None \<and>
    unat (mm_base m + p) = unat (mm_base m) + unat p"
proof -
  have bs: "unat (mm_base m) + unat (mm_size m) < 2 ^ 64" using inv by (simp add: heap_inv_def)
  have bp: "unat (mm_base m + p) = unat (mm_base m) + unat p" "unat (mm_base m + mm_size m) = unat (mm_base m) + unat (mm_size m)"
    using bs p unat_add_lem [of "mm_base m" p] unat_add_lem [of "mm_base m" "mm_size m"] by simp_all
  then have ih: "\<not> out_of_heap m (mm_base m + p)" using p by (simp add: out_of_heap_def word_less_nat_alt word_le_nat_alt)
  have none: "map_find (mm_address_used m) p = None"
    using fresh find_entry [OF inv_facts(2) [OF inv], of p] by (cases "map_find (mm_address_used m) p") auto
  have "live m' y = ((live m)(mm_base m + p \<mapsto> a)) y" for y
  proof -
    have "y - mm_base m = p \<longleftrightarrow> y = mm_base m + p" by (auto simp: algebra_simps)
    then show ?thesis
      using ih none std_map.find_emplace [OF inv_facts(2) [OF inv], of p a "y - mm_base m"] b
      by (auto simp: live_def allocated_size_def used out_of_heap_def)
  qed
  moreover have "live m (mm_base m + p) = None" using none by (simp add: live_def allocated_size_def)
  ultimately show ?thesis using bp(1) by auto
qed

lemma aligned_allocate_live:
  assumes inv: "heap_inv m" and h: "unat heap_size + 15 < 2 ^ 64" and al: "unat (mm_size m) + unat al \<le> 2 ^ 64"
    and r: "aligned_allocate heap_size al sz m = (x, m')" and x: "m' \<noteq> m \<or> x \<noteq> 0"
  obtains a p where "unat sz \<le> unat a" and "x = mm_base m + p" and "live m' = (live m)(x \<mapsto> a)" and "live m x = None"
    and "unat x = unat (mm_base m) + unat p" and "p AND (al - 1) = 0" and "unat p + unat a \<le> unat (mm_size m)"
    and "\<forall>(q, t) \<in> set (mm_address_used m). unat q + unat t \<le> unat p \<or> unat p + unat a \<le> unat q"
proof -
  let ?a = "allocated_size_align_up sz" and ?L = "set_lower_bound (allocated_size_align_up sz, 0) (mm_size_idle m)"
  have ok: "sz \<noteq> 0" "al \<noteq> 0" "\<not> heap_size < sz" "al AND (al - 1) = 0"
    using r x by (auto simp: aligned_allocate_def split: if_splits)
  then have b: "unat sz + 15 < 2 ^ 64" using h by (simp add: word_le_nat_alt not_less)
  obtain s p hd where fm: "first_match al ?a ?L 0 = Some ((s, p), hd)"
    using r x ok by (auto simp: aligned_allocate_def Let_def split: option.splits)
  obtain h' where mem: "(s, p) \<in> set ?L" and am: "alignment_matches (s, p) al ?a h' = (True, hd)"
    using first_match_elem [OF fm] by blast
  have idle: "(p, s) \<in> set (mm_address_idle m)"
    using mem lower_bound_set [OF inv_facts(3) [OF inv], of "(?a, 0)"] inv_facts(4) [OF inv, of s p] by auto
  note ps = entry_in_heap [OF inv, of p s, OF UnI1 [OF idle]]
  have "unat p + unat s + unat al \<le> 2 ^ 64" using ps(1) al by simp
  note ms = alignment_matches_spec [OF am ok(2) this]
  have pu: "unat (p + hd) = unat p + unat hd" using unat_add_below [of p hd "mm_size m"] ms(1) ps(1) by simp
  have apos: "0 < unat ?a" by (rule align_up_bounds(4) [OF b ok(1)])
  have run: "x = mm_base m + (p + hd)" "mm_base m' = mm_base m" "mm_size m' = mm_size m"
      "mm_address_used m' = map_emplace (p + hd) ?a (mm_address_used m)"
    using r ok fm by (auto simp: aligned_allocate_def Let_def split: prod.splits if_splits)
  have apart: "\<forall>(q, t) \<in> set (mm_address_used m). unat q + unat t \<le> unat (p + hd) \<or> unat (p + hd) + unat ?a \<le> unat q"
    using inside_idle [OF inv idle] ms(1) pu by fastforce
  have fresh: "\<forall>w. (p + hd, w) \<notin> set (mm_address_used m)"
    using apart apos entry_in_heap(2) [OF inv, of "p + hd"] by fastforce
  have lt: "unat (p + hd) + unat ?a \<le> unat (mm_size m)" using pu ms(1) ps(1) by simp
  then have "unat (p + hd) < unat (mm_size m)" using apos by simp
  note la = live_add [OF inv run(2,3,4) fresh this, folded run(1)]
  show thesis
    by (rule that [of ?a "p + hd"]) (use la run(1) ms(2) lt apart align_up_bounds(1) [OF b ok(1)] in simp_all)
qed

text \<open>Sums of multiples of a power of two.\<close>

lemma single_bit:
  "0 < n \<Longrightarrow> n AND (n - 1) = 0 \<Longrightarrow> \<exists>k. n = 2 ^ k" for n :: nat
proof (induction n rule: less_induct)
  case (less n)
  show ?case
  proof (cases "even n")
    case True
    then obtain m where m: "n = 2 * m" by blast
    then have "0 < m" "(n - 1) div 2 = m - 1" using less.prems(1) by simp_all
    then have "n AND (n - 1) = 2 * (m AND (m - 1))" using m by (subst and_nat_rec) simp
    then obtain k where "m = 2 ^ k" using less.IH [of m] less.prems m \<open>0 < m\<close> by auto
    then have "n = 2 ^ Suc k" using m by simp
    then show ?thesis by blast
  next
    case False
    then obtain m where m: "n = 2 * m + 1" by (rule oddE)
    then have "n AND (n - 1) = 2 * m" by (subst and_nat_rec) simp
    then have "n = 2 ^ 0" using less.prems(2) m by simp
    then show ?thesis by blast
  qed
qed

lemma aligned_add:
  fixes al :: u64
  assumes "al \<noteq> 0" "al AND (al - 1) = 0" "p AND (al - 1) = 0"
  shows "(b + p) AND (al - 1) = 0 \<longleftrightarrow> b AND (al - 1) = 0"
proof -
  have "unat al AND (unat al - 1) = 0"
    using assms(1,2) by (metis unsigned_0 unsigned_and_eq unat_minus_one)
  moreover have "0 < unat al" using assms(1) by (simp add: unat_gt_0)
  ultimately obtain k where "unat al = 2 ^ k" using single_bit by blast
  moreover have "of_nat (unat al) = al" by simp
  ultimately have "al = of_nat (2 ^ k)" by metis
  then have "al = 2 ^ k" by simp
  then have m: "al - 1 = mask k" by (simp add: mask_eq_exp_minus_1)
  have "(2 :: nat) ^ k < 2 ^ 64" using unsigned_less [of al, where 'a = nat] \<open>unat al = 2 ^ k\<close> by simp
  then have "k < 64" by (rule power_less_imp_less_exp [rotated]) simp
  then have dv: "(2 :: nat) ^ k dvd 2 ^ 64" by (intro le_imp_power_dvd) simp
  have z: "x AND (al - 1) = 0 \<longleftrightarrow> 2 ^ k dvd unat x" for x :: u64
  proof -
    have "x AND (al - 1) = 0 \<longleftrightarrow> unat (take_bit k x) = 0"
      by (simp only: m take_bit_eq_mask [symmetric] unat_eq_zero)
    also have "\<dots> \<longleftrightarrow> 2 ^ k dvd unat x" by (simp only: unsigned_take_bit_eq take_bit_eq_0_iff)
    finally show ?thesis .
  qed
  have "2 ^ k dvd unat (b + p) \<longleftrightarrow> 2 ^ k dvd unat b + unat p"
    using dvd_mod_iff [OF dv, of "unat b + unat p"] by (simp add: unat_word_ariths)
  then show ?thesis using assms(3) by (simp add: z dvd_add_left_iff)
qed

text \<open>
  C33 What \<open>aligned_allocate\<close> promises. On a heap that was used through \<open>allocate\<close> and \<open>release\<close>, for an
  alignment of at most \<open>2 ^ 64\<close> with the size of the heap, a non-null result has an offset from the base that is a
  multiple of the alignment - so its address is one exactly when the base is, which is less than the header of
  \<open>aclshmem_align\<close> says -, lies inside the heap, is at least as large as asked for and disjoint from every live
  range; the other live ranges stay as they are. Null leaves the heap unchanged.
\<close>

theorem aligned_allocate_correct:
  assumes "heap_run heap_size (new_memory_manager base n) m" and "base \<noteq> 0" and "n \<noteq> 0"
    and "unat base + unat n < 2 ^ 64" and "unat heap_size + 15 < 2 ^ 64" and "unat n + unat al \<le> 2 ^ 64"
    and r: "aligned_allocate heap_size al sz m = (x, m')"
  shows "if x = 0 then m' = m
    else \<exists>a. unat sz \<le> unat a \<and> live m x = None \<and> live m' = (live m)(x \<mapsto> a) \<and> (x - base) AND (al - 1) = 0 \<and>
      (x AND (al - 1) = 0 \<longleftrightarrow> base AND (al - 1) = 0) \<and>
      unat base \<le> unat x \<and> unat x + unat a \<le> unat base + unat n \<and>
      (\<forall>y t. live m y = Some t \<longrightarrow> {unat x..<unat x + unat a} \<inter> {unat y..<unat y + unat t} = {})"
proof -
  have inv: "heap_inv m" and same: "mm_base m = base" "mm_size m = n"
    using heap_run_inv [OF assms(1) new_heap_inv [OF assms(2,3,4)] assms(5)] by (simp_all add: new_memory_manager_def)
  show ?thesis
  proof (cases "m' \<noteq> m \<or> x \<noteq> 0")
    case True
    have al: "unat (mm_size m) + unat al \<le> 2 ^ 64" using assms(6) same by simp
    obtain a p where a: "unat sz \<le> unat a" "x = base + p" "live m' = (live m)(x \<mapsto> a)" "live m x = None"
      "unat x = unat base + unat p" "p AND (al - 1) = 0" "unat p + unat a \<le> unat n"
      and apart: "\<forall>(q, t) \<in> set (mm_address_used m). unat q + unat t \<le> unat p \<or> unat p + unat a \<le> unat q"
      by (rule aligned_allocate_live [OF inv assms(5) al r True, unfolded same])
    have "{unat x..<unat x + unat a} \<inter> {unat y..<unat y + unat t} = {}" if "live m y = Some t" for y t
    proof -
      have e: "(y - base, t) \<in> set (mm_address_used m)" using live_entry(1) [OF inv] that same by simp
      then have "unat y = unat base + unat (y - base)" using live_entry(2) [OF inv e] same by simp
      moreover have "unat (y - base) + unat t \<le> unat p \<or> unat p + unat a \<le> unat (y - base)" using apart e by auto
      ultimately show ?thesis using a(5) by (auto simp: disjoint_iff)
    qed
    moreover have "x \<noteq> 0" using a(5) assms(2) by (metis add_is_0 unat_eq_zero)
    moreover have "x AND (al - 1) = 0 \<longleftrightarrow> base AND (al - 1) = 0"
    proof -
      have ok: "al \<noteq> 0" "al AND (al - 1) = 0" using r True by (auto simp: aligned_allocate_def split: if_splits)
      show ?thesis unfolding a(2) by (rule aligned_add [OF ok a(6)])
    qed
    ultimately show ?thesis using a by auto
  qed auto
qed

section \<open>Examples and findings\<close>

definition ex_heap :: memory_manager where
  "ex_heap = new_memory_manager 4096 256"

definition ex_heap1 :: memory_manager where
  "ex_heap1 = snd (allocate 256 100 ex_heap)"

definition ex_heap2 :: memory_manager where
  "ex_heap2 = snd (allocate 256 16 ex_heap1)"

lemma ex_heap_steps:
  "allocate 256 100 ex_heap = (4096, ex_heap1)" "allocate 256 16 ex_heap1 = (4208, ex_heap2)"
  by code_simp+

lemma ex_heap_run: "heap_run 256 (new_memory_manager 4096 256) ex_heap1" "heap_run 256 (new_memory_manager 4096 256) ex_heap2"
proof -
  show r: "heap_run 256 (new_memory_manager 4096 256) ex_heap1"
    by (rule heap_run.allocated [OF heap_run.start ex_heap_steps(1) [unfolded ex_heap_def]])
  show "heap_run 256 (new_memory_manager 4096 256) ex_heap2"
    by (rule heap_run.allocated [OF r ex_heap_steps(2)])
qed

lemma ex_live: "live ex_heap2 4096 = Some 112" "live ex_heap2 4208 = Some 16"
  by code_simp+

theorem heap_live_ranges_witness:
  "live ex_heap2 4096 = Some 112 \<and> live ex_heap2 4208 = Some 16 \<and> {4096..<4208 :: nat} \<inter> {4208..<4224} = {}"
  using heap_live_ranges [OF ex_heap_run(2) _ _ _ _ ex_live] ex_live by simp

theorem allocate_correct_witness:
  "allocate 256 16 ex_heap1 = (4208, ex_heap2) \<and> live ex_heap1 4208 = None"
  using allocate_correct [OF ex_heap_run(1) _ _ _ _ ex_heap_steps(2)] ex_heap_steps(2) by simp

theorem release_correct_witness:
  "\<exists>m'. release 4096 ex_heap2 = (0, m') \<and> live m' = (live ex_heap2)(4096 := None)"
  using release_correct [OF ex_heap_run(2), of 4096] ex_live by simp

theorem aligned_allocate_correct_witness:
  "\<exists>x m' a. aligned_allocate 256 64 32 ex_heap1 = (x, m') \<and> x = 4224 \<and> live m' = (live ex_heap1)(x \<mapsto> a) \<and> 32 \<le> unat a"
proof -
  have "fst (aligned_allocate 256 64 32 ex_heap1) = 4224" by code_simp
  then obtain m' where r: "aligned_allocate 256 64 32 ex_heap1 = (4224, m')" by (metis prod.collapse)
  show ?thesis using aligned_allocate_correct [OF ex_heap_run(1) _ _ _ _ _ r] r by auto
qed

text \<open>On a base that is not aligned the address is not either.\<close>

lemma aligned_allocate_base_unaligned:
  "fst (aligned_allocate 256 64 32 (new_memory_manager 4112 256)) = 4112" "(4112 :: u64) AND (64 - 1) \<noteq> 0"
  by code_simp+

text \<open>Releasing both blocks of the example in order.\<close>

definition ex_heap3 :: memory_manager where
  "ex_heap3 = snd (release 4096 ex_heap2)"

definition ex_heap4 :: memory_manager where
  "ex_heap4 = snd (release 4208 ex_heap3)"

theorem heap_recovers_witness: "heap_run 256 (new_memory_manager 4096 256) ex_heap4 \<and> ex_heap4 = new_memory_manager 4096 256"
proof -
  have s: "release 4096 ex_heap2 = (0, ex_heap3)" "release 4208 ex_heap3 = (0, ex_heap4)" by code_simp+
  have r: "heap_run 256 (new_memory_manager 4096 256) ex_heap4"
    by (rule heap_run.released [OF heap_run.released [OF ex_heap_run(2) s(1)] s(2)])
  have "mm_address_used ex_heap4 = []" by code_simp
  then have "\<forall>x. live ex_heap4 x = None" by (simp add: live_def allocated_size_def map_find_def)
  then show ?thesis using heap_recovers [OF r] r by simp
qed

text \<open>
  Findings. \<open>aligned_allocate\<close> leaves the address entry of the idle range it consumes in
  \<open>address_idle_tree_\<close>. In the run below two blocks of 128 bytes fill the heap; the first is released
  and taken again with alignment 64, the second is released and merged with the stale entry, and the
  next \<open>allocate\<close> hands out an address that the aligned allocation still owns.
\<close>

definition ex_stale :: memory_manager where
  "ex_stale =
     (let (x, m) = allocate 256 128 ex_heap; (y, m) = allocate 256 128 m; (_, m) = release x m;
          (q, m) = aligned_allocate 256 64 128 m; (_, m) = release y m in m)"

theorem aligned_allocate_double_allocation:
  "live ex_stale 4096 = Some 128 \<and> fst (allocate 256 256 ex_stale) = 4096"
  by code_simp

text \<open>
  \<open>change_size\<close> moves no offset. Shrinking a block whose successor is idle lengthens that idle range at
  its end, past the end of the heap; growing a block shortens the idle successor at its end, so the
  idle range still begins inside the grown block.
\<close>

theorem reduce_size_leaves_heap:
  "case change_size 4096 32 (snd (allocate 256 64 ex_heap)) of
     Inr (True, m) \<Rightarrow> fst (allocate 256 224 m) = 4160 \<and> live (snd (allocate 256 224 m)) 4160 = Some 224
   | _ \<Rightarrow> False"
  by code_simp

theorem expend_size_overlaps:
  "case change_size 4096 64 (snd (allocate 256 32 ex_heap)) of
     Inr (True, m) \<Rightarrow> live m 4096 = Some 64 \<and> fst (allocate 256 16 m) = 4128
   | _ \<Rightarrow> False"
  by code_simp

end
