(* ===== verification/Heap_Api.thy ===== *)
theory Heap_Api
  imports Heap_Manager
begin

text \<open>
  The symmetric-heap calls of the host library (\<open>src/host/mem/shmem_mm.cpp\<close>) on top of the heap manager.
  The two global managers and the heap fields of \<open>g_state\<close> form the world. What the calls ask of other
  parts enters as an environment: the result of the control barrier, of \<open>aclrtMemset\<close>, of the two
  operations of \<open>init_manager\<close>, and whether the build has \<open>HAS_ACLRT_MEM_FABRIC_HANDLE\<close>. The debug-only
  symmetry check is left out. \<open>std::make_shared\<close> never yields a null pointer.
\<close>

section \<open>Model\<close>

datatype aclshmem_mem_type_t = HOST_SIDE | DEVICE_SIDE

record heap_world =
  hw_device :: "memory_manager option"
  hw_host :: "memory_manager option"
  hw_heap_base :: u64
  hw_host_heap_base :: u64
  hw_heap_size :: u64

record heap_env =
  he_barrier :: int
  he_memset :: int
  he_setup_heap :: "heap_world \<Rightarrow> int \<times> heap_world"
  he_update_device_state :: "heap_world \<Rightarrow> int"
  he_fabric_handle :: bool

definition memory_manager_initialize ::
  "u64 \<Rightarrow> u64 \<Rightarrow> aclshmem_mem_type_t \<Rightarrow> heap_world \<Rightarrow> int \<times> heap_world" where
  "memory_manager_initialize base sz mem_type w =
     (if mem_type = HOST_SIDE then (0, w\<lparr>hw_host := Some (new_memory_manager base sz)\<rparr>)
      else (0, w\<lparr>hw_device := Some (new_memory_manager base sz)\<rparr>))"

definition memory_manager_destroy :: "heap_world \<Rightarrow> heap_world" where
  "memory_manager_destroy w = w\<lparr>hw_device := None, hw_host := None\<rparr>"

text \<open>The end of every allocation: a failed barrier takes the allocation back.\<close>

definition after_barrier :: "int \<Rightarrow> u64 \<times> memory_manager \<Rightarrow> u64 \<times> memory_manager" where
  "after_barrier ret = (\<lambda>(ptr, m). if ret \<noteq> 0 \<and> ptr \<noteq> 0 then (0, snd (release ptr m)) else (ptr, m))"

definition after_memset :: "int \<Rightarrow> u64 \<times> memory_manager \<Rightarrow> u64 \<times> memory_manager" where
  "after_memset ret = (\<lambda>(ptr, m). if ptr \<noteq> 0 \<and> ret \<noteq> 0 then (0, snd (release ptr m)) else (ptr, m))"

definition multiply_overflow :: "u64 \<Rightarrow> u64 \<Rightarrow> u64 \<Rightarrow> bool" where
  "multiply_overflow a b limit \<longleftrightarrow> a = 0 \<or> b = 0 \<or> limit = 0 \<or> a > limit div b"

definition aclshmem_malloc :: "heap_env \<Rightarrow> u64 \<Rightarrow> heap_world \<Rightarrow> u64 \<times> heap_world" where
  "aclshmem_malloc env sz w =
     (case hw_device w of None \<Rightarrow> (0, w)
      | Some m \<Rightarrow>
        let (ptr, m') = after_barrier (he_barrier env) (allocate (hw_heap_size w) sz m)
        in (ptr, w\<lparr>hw_device := Some m'\<rparr>))"

definition aclshmem_calloc :: "heap_env \<Rightarrow> u64 \<Rightarrow> u64 \<Rightarrow> heap_world \<Rightarrow> u64 \<times> heap_world" where
  "aclshmem_calloc env nmemb sz w =
     (case hw_device w of None \<Rightarrow> (0, w)
      | Some m \<Rightarrow>
        if multiply_overflow nmemb sz (hw_heap_size w) then (0, w)
        else let (ptr, m') = after_barrier (he_barrier env)
               (after_memset (he_memset env) (allocate (hw_heap_size w) (nmemb * sz) m))
             in (ptr, w\<lparr>hw_device := Some m'\<rparr>))"

definition aclshmem_align :: "heap_env \<Rightarrow> u64 \<Rightarrow> u64 \<Rightarrow> heap_world \<Rightarrow> u64 \<times> heap_world" where
  "aclshmem_align env alignment sz w =
     (case hw_device w of None \<Rightarrow> (0, w)
      | Some m \<Rightarrow>
        let (ptr, m') = after_barrier (he_barrier env) (aligned_allocate (hw_heap_size w) alignment sz m)
        in (ptr, w\<lparr>hw_device := Some m'\<rparr>))"

definition aclshmem_free :: "heap_env \<Rightarrow> u64 \<Rightarrow> heap_world \<Rightarrow> heap_world" where
  "aclshmem_free env ptr w =
     (case hw_device w of None \<Rightarrow> w
      | Some m \<Rightarrow>
        if ptr = 0 then w
        else if he_barrier env \<noteq> 0 then w
        else w\<lparr>hw_device := Some (snd (release ptr m))\<rparr>)"

definition aclshmemx_get_heap_base :: "aclshmem_mem_type_t \<Rightarrow> heap_world \<Rightarrow> u64" where
  "aclshmemx_get_heap_base mem_type w =
     (if mem_type = HOST_SIDE then hw_host_heap_base w else hw_heap_base w)"

definition support_host_mem_type :: "heap_env \<Rightarrow> aclshmem_mem_type_t \<Rightarrow> bool" where
  "support_host_mem_type env mem_type \<longleftrightarrow> \<not> (\<not> he_fabric_handle env \<and> mem_type = HOST_SIDE)"

text \<open>The manager of a memory type; the host heap is set up on its first use.\<close>

definition getory_manager ::
  "heap_env \<Rightarrow> aclshmem_mem_type_t \<Rightarrow> heap_world \<Rightarrow> memory_manager option \<times> heap_world" where
  "getory_manager env mem_type w =
     (if mem_type = HOST_SIDE then
        (if hw_host w \<noteq> None then (hw_host w, w)
         else let (ret, w1) = he_setup_heap env w in
           if ret \<noteq> 0 then (None, w1)
           else let (ret2, w2) = memory_manager_initialize (hw_host_heap_base w1) (hw_heap_size w1) HOST_SIDE w1 in
             if ret2 \<noteq> 0 then (None, w2)
             else if he_update_device_state env w2 \<noteq> 0 then (None, w2)
             else (hw_host w2, w2))
      else if hw_device w = None then (None, w) else (hw_device w, w))"

definition put_manager :: "aclshmem_mem_type_t \<Rightarrow> memory_manager \<Rightarrow> heap_world \<Rightarrow> heap_world" where
  "put_manager mem_type m w =
     (if mem_type = HOST_SIDE then w\<lparr>hw_host := Some m\<rparr> else w\<lparr>hw_device := Some m\<rparr>)"

definition aclshmemx_malloc :: "heap_env \<Rightarrow> u64 \<Rightarrow> aclshmem_mem_type_t \<Rightarrow> heap_world \<Rightarrow> u64 \<times> heap_world" where
  "aclshmemx_malloc env sz mem_type w =
     (if \<not> support_host_mem_type env mem_type then (0, w)
      else case getory_manager env mem_type w of (None, w') \<Rightarrow> (0, w')
      | (Some m, w') \<Rightarrow>
        let (ptr, m') = after_barrier (he_barrier env) (allocate (hw_heap_size w') sz m)
        in (ptr, put_manager mem_type m' w'))"

definition aclshmemx_calloc ::
  "heap_env \<Rightarrow> u64 \<Rightarrow> u64 \<Rightarrow> aclshmem_mem_type_t \<Rightarrow> heap_world \<Rightarrow> u64 \<times> heap_world" where
  "aclshmemx_calloc env nmemb sz mem_type w =
     (if \<not> support_host_mem_type env mem_type then (0, w)
      else case getory_manager env mem_type w of (None, w') \<Rightarrow> (0, w')
      | (Some m, w') \<Rightarrow>
        if multiply_overflow nmemb sz (hw_heap_size w') then (0, w')
        else let (ptr, m') = after_barrier (he_barrier env)
               (after_memset (he_memset env) (allocate (hw_heap_size w') (nmemb * sz) m))
             in (ptr, put_manager mem_type m' w'))"

definition aclshmemx_align ::
  "heap_env \<Rightarrow> u64 \<Rightarrow> u64 \<Rightarrow> aclshmem_mem_type_t \<Rightarrow> heap_world \<Rightarrow> u64 \<times> heap_world" where
  "aclshmemx_align env alignment sz mem_type w =
     (if \<not> support_host_mem_type env mem_type then (0, w)
      else case getory_manager env mem_type w of (None, w') \<Rightarrow> (0, w')
      | (Some m, w') \<Rightarrow>
        let (ptr, m') = after_barrier (he_barrier env) (aligned_allocate (hw_heap_size w') alignment sz m)
        in (ptr, put_manager mem_type m' w'))"

definition aclshmemx_free :: "heap_env \<Rightarrow> u64 \<Rightarrow> aclshmem_mem_type_t \<Rightarrow> heap_world \<Rightarrow> heap_world" where
  "aclshmemx_free env ptr mem_type w =
     (if \<not> support_host_mem_type env mem_type then w
      else if ptr = 0 then w
      else case (if mem_type = HOST_SIDE then hw_host w else hw_device w) of None \<Rightarrow> w
      | Some m \<Rightarrow>
        if he_barrier env \<noteq> 0 then w
        else put_manager mem_type (snd (release ptr m)) w)"

section \<open>What the calls promise\<close>

lemma heap_limit_id: "unat hs + 15 < 2 ^ 64 \<Longrightarrow> heap_limit hs = hs"
  by (simp add: heap_limit_def min_def word_le_nat_alt)

text \<open>An allocation with its possible roll-backs, through the allocator's contract.\<close>

lemma allocate_then_undo:
  assumes inv: "heap_inv m" and hs: "unat hs + 15 < 2 ^ 64"
    and r: "after_barrier b (after_memset c (allocate hs n m)) = (x, m')"
  shows "heap_inv m' \<and> (if x = 0 then live m' = live m
    else b = 0 \<and> c = 0 \<and> live m x = None \<and> (\<exists>a. unat n \<le> unat a \<and> live m' = (live m)(x \<mapsto> a)))"
proof -
  obtain y m1 where a: "allocate (heap_limit hs) n m = (y, m1)" by (cases "allocate (heap_limit hs) n m")
  show ?thesis
  proof (cases "y = 0")
    case True
    then have "m1 = m" using hm.alloc_cases [OF inv a] by auto
    then show ?thesis using r a True inv by (simp add: heap_limit_id [OF hs] after_barrier_def after_memset_def)
  next
    case False
    obtain m2 where u: "release y m1 = (0, m2)" "heap_inv m2" "live m2 = live m"
      using hm.rollback [OF inv a False] by blast
    show ?thesis
    proof (cases "b = 0 \<and> c = 0")
      case True
      then show ?thesis
        using r a False hm.alloc_cases [OF inv a] by (auto simp: heap_limit_id [OF hs] after_barrier_def after_memset_def)
    next
      case undo: False
      then have "x = 0 \<and> m' = m2"
        using r a u(1) False by (auto simp: heap_limit_id [OF hs] after_barrier_def after_memset_def split: if_splits)
      then show ?thesis using u by simp
    qed
  qed
qed

lemma after_memset_0: "after_memset 0 r = r"
  by (simp add: after_memset_def split: prod.splits)

text \<open>
  \<open>aclshmem_malloc\<close> is all or nothing. When it returns a pointer, the barrier has succeeded and
  exactly one live range was added, at least as large as asked for; when it returns null, for lack of
  space or because the barrier failed after a successful allocation, the live ranges are as before.
\<close>

theorem aclshmem_malloc_atomic:
  assumes "hw_device w = Some m" and "heap_inv m" and "unat (hw_heap_size w) + 15 < 2 ^ 64"
    and "aclshmem_malloc env sz w = (x, w')"
  shows "\<exists>m'. hw_device w' = Some m' \<and> heap_inv m' \<and> hw_host w' = hw_host w \<and>
    (if x = 0 then live m' = live m
     else he_barrier env = 0 \<and> live m x = None \<and> (\<exists>a. unat sz \<le> unat a \<and> live m' = (live m)(x \<mapsto> a)))"
proof -
  obtain y m' where r: "after_barrier (he_barrier env) (allocate (hw_heap_size w) sz m) = (y, m')"
    by (cases "after_barrier (he_barrier env) (allocate (hw_heap_size w) sz m)")
  then have e: "x = y" "w' = w\<lparr>hw_device := Some m'\<rparr>" using assms(1,4) by (simp_all add: aclshmem_malloc_def)
  have "after_barrier (he_barrier env) (after_memset 0 (allocate (hw_heap_size w) sz m)) = (y, m')"
    by (simp add: after_memset_0 r)
  from allocate_then_undo [OF assms(2,3) this] show ?thesis using e by (auto split: if_splits)
qed

text \<open>
  \<open>aclshmem_calloc\<close> never under-allocates. A non-null result owns at least nmemb times size bytes
  as a product of naturals: a request whose product would wrap is refused. Null leaves the live
  ranges as before, also after a failed memset or barrier.
\<close>

theorem aclshmem_calloc_exact:
  assumes "hw_device w = Some m" and "heap_inv m" and "unat (hw_heap_size w) + 15 < 2 ^ 64"
    and "aclshmem_calloc env nmemb sz w = (x, w')"
  shows "\<exists>m'. hw_device w' = Some m' \<and> heap_inv m' \<and>
    (if x = 0 then live m' = live m
     else he_barrier env = 0 \<and> he_memset env = 0 \<and>
       (\<exists>a. unat nmemb * unat sz \<le> unat a \<and> live m' = (live m)(x \<mapsto> a)))"
proof (cases "multiply_overflow nmemb sz (hw_heap_size w)")
  case True
  then show ?thesis using assms by (auto simp: aclshmem_calloc_def)
next
  case False
  then have nz: "sz \<noteq> 0" "\<not> nmemb > hw_heap_size w div sz" by (auto simp: multiply_overflow_def)
  have "unat nmemb \<le> unat (hw_heap_size w) div unat sz" using nz(2) by (simp add: not_less word_le_nat_alt unat_div)
  then have "unat nmemb * unat sz \<le> unat (hw_heap_size w)"
    by (meson div_times_less_eq_dividend le_trans mult_le_mono1)
  then have p: "unat (nmemb * sz) = unat nmemb * unat sz"
    using assms(3) unat_mult_lem [of nmemb sz] by simp
  obtain y m' where r: "after_barrier (he_barrier env) (after_memset (he_memset env) (allocate (hw_heap_size w) (nmemb * sz) m)) = (y, m')"
    by (metis surj_pair)
  then have e: "x = y" "w' = w\<lparr>hw_device := Some m'\<rparr>" using assms(1,4) False by (simp_all add: aclshmem_calloc_def)
  from allocate_then_undo [OF assms(2,3) r] show ?thesis using e p by (auto split: if_splits)
qed

text \<open>
  \<open>aclshmem_free\<close> ends exactly the range of its pointer when the barrier succeeds, and changes no
  live range when the pointer is null or not live or when the barrier fails.
\<close>

theorem aclshmem_free_exact:
  assumes "hw_device w = Some m" and "heap_inv m"
  shows "\<exists>m'. hw_device (aclshmem_free env x w) = Some m' \<and> heap_inv m' \<and>
    live m' = (if x \<noteq> 0 \<and> he_barrier env = 0 then (live m)(x := None) else live m)"
proof -
  obtain c m' where r: "release x m = (c, m')" by (cases "release x m")
  from hm.free_cases [OF assms(2) r] have "heap_inv m' \<and> live m' = (live m)(x := None)"
    using assms(2) by (auto simp: fun_eq_iff)
  then show ?thesis using assms r by (simp add: aclshmem_free_def)
qed

text \<open>
  On device memory the typed calls are the plain ones: with \<open>DEVICE_SIDE\<close>, \<open>aclshmemx_malloc\<close>,
  \<open>aclshmemx_calloc\<close>, \<open>aclshmemx_align\<close> and \<open>aclshmemx_free\<close> return and do the same in every world and
  environment.
\<close>

theorem aclshmemx_device:
  "aclshmemx_malloc env sz DEVICE_SIDE w = aclshmem_malloc env sz w \<and>
   aclshmemx_calloc env nmemb sz DEVICE_SIDE w = aclshmem_calloc env nmemb sz w \<and>
   aclshmemx_align env al sz DEVICE_SIDE w = aclshmem_align env al sz w \<and>
   aclshmemx_free env ptr DEVICE_SIDE w = aclshmem_free env ptr w"
  by (simp add: aclshmemx_malloc_def aclshmem_malloc_def aclshmemx_calloc_def aclshmem_calloc_def
      aclshmemx_align_def aclshmem_align_def aclshmemx_free_def aclshmem_free_def support_host_mem_type_def
      getory_manager_def put_manager_def split: option.splits)

definition ex_world :: heap_world where
  "ex_world = \<lparr> hw_device = Some ex_heap1, hw_host = None, hw_heap_base = 4096, hw_host_heap_base = 0, hw_heap_size = 256 \<rparr>"

definition ex_env :: "int \<Rightarrow> heap_env" where
  "ex_env b = \<lparr> he_barrier = b, he_memset = 0, he_setup_heap = (\<lambda>w. (1, w)), he_update_device_state = (\<lambda>w. 0),
     he_fabric_handle = False \<rparr>"

lemma ex_world_inv: "hw_device ex_world = Some ex_heap1" "heap_inv ex_heap1" "unat (hw_heap_size ex_world) + 15 < 2 ^ 64"
  using heap_run_inv [OF ex_heap_run(1) new_heap_inv] by (simp_all add: ex_world_def)

theorem aclshmem_malloc_atomic_witness:
  "\<exists>w' m'. aclshmem_malloc (ex_env 1) 16 ex_world = (0, w') \<and> hw_device w' = Some m' \<and> live m' = live ex_heap1"
proof -
  have "fst (aclshmem_malloc (ex_env 1) 16 ex_world) = 0" by code_simp
  then obtain w' where r: "aclshmem_malloc (ex_env 1) 16 ex_world = (0, w')" by (metis prod.collapse)
  then show ?thesis using aclshmem_malloc_atomic [OF ex_world_inv r] by auto
qed

theorem aclshmem_calloc_exact_witness:
  "\<exists>w' m' a. aclshmem_calloc (ex_env 0) 3 10 ex_world = (4208, w') \<and> hw_device w' = Some m' \<and> live m' 4208 = Some a \<and> 30 \<le> unat a"
proof -
  have "fst (aclshmem_calloc (ex_env 0) 3 10 ex_world) = 4208" by code_simp
  then obtain w' where r: "aclshmem_calloc (ex_env 0) 3 10 ex_world = (4208, w')" by (metis prod.collapse)
  then show ?thesis using aclshmem_calloc_exact [OF ex_world_inv r] by auto
qed

theorem aclshmem_free_exact_witness:
  "\<exists>m'. hw_device (aclshmem_free (ex_env 0) 4096 ex_world) = Some m' \<and> live m' = (live ex_heap1)(4096 := None)"
  using aclshmem_free_exact [OF ex_world_inv(1,2), of "ex_env 0" 4096] by (auto simp: ex_env_def)

end
