(* ===== verification/Team.thy ===== *)
theory Team
  imports Heap_Api "HOL-Library.Signed_Division" "HOL-Library.Monad_Syntax"
begin

text \<open>
  Teams of processing elements (\<open>src/host/team/shmem_team.cpp\<close>): the pool of teams, the mask of the
  occupied slots, the copies of the teams on the device, the strided and the two-dimensional split, the
  translation of element numbers, and the set-up and tear-down of the module. A call that has undefined
  behaviour (a division by zero, an index outside an array) is \<open>None\<close>. Shifts of the mask by 64 and more
  are undefined as well but are part of every scan of the pool, so their result is a parameter. The calls
  of the accelerator runtime, \<open>update_device_state\<close>, the host allocator and the contents of an
  uninitialised local variable are functions of the environment; the calls of the symmetric heap are those
  of the theory \<open>Heap_Api\<close>.
\<close>

section \<open>Constants and data\<close>

definition ACLSHMEM_MAX_PES :: int where "ACLSHMEM_MAX_PES = 16384"
definition ACLSHMEM_MAX_TEAMS :: int where "ACLSHMEM_MAX_TEAMS = 2048"
definition ACLSHMEM_TEAM_INVALID :: int where "ACLSHMEM_TEAM_INVALID = -1"
definition ACLSHMEM_TEAM_WORLD :: int where "ACLSHMEM_TEAM_WORLD = 0"

definition ACLSHMEM_SUCCESS :: int where "ACLSHMEM_SUCCESS = 0"
definition ACLSHMEM_INVALID_PARAM :: int where "ACLSHMEM_INVALID_PARAM = -1"
definition ACLSHMEM_INNER_ERROR :: int where "ACLSHMEM_INNER_ERROR = -4"
definition ACLSHMEM_NOT_SUPPORTED :: int where "ACLSHMEM_NOT_SUPPORTED = -100"

definition SYNC_ARRAY_SIZE :: u64 where "SYNC_ARRAY_SIZE = 64 * 5 * 8"
definition SYNC_POOL_SIZE :: u64 where "SYNC_POOL_SIZE = SYNC_ARRAY_SIZE * 2048"
definition SYNC_COUNTERS_SIZE :: u64 where "SYNC_COUNTERS_SIZE = 64 * 2048"
definition ACLSHMEM_CORE_SYNC_POOL_SIZE :: u64 where "ACLSHMEM_CORE_SYNC_POOL_SIZE = 48 * 6 * 64"
definition ACLSHMEM_CORE_SYNC_COUNTER_SIZE :: u64 where "ACLSHMEM_CORE_SYNC_COUNTER_SIZE = 64"

lemmas team_constants = ACLSHMEM_MAX_PES_def ACLSHMEM_MAX_TEAMS_def ACLSHMEM_TEAM_INVALID_def
  ACLSHMEM_TEAM_WORLD_def

lemmas team_codes = ACLSHMEM_SUCCESS_def ACLSHMEM_INVALID_PARAM_def ACLSHMEM_INNER_ERROR_def
  ACLSHMEM_NOT_SUPPORTED_def

record aclshmem_team_config_t =
  tc_version :: int
  tc_num_contexts :: int
  tc_uniqueid :: u64
  tc_padding :: string

record aclshmemx_team_t =
  tm_mype :: int
  tm_start :: int
  tm_stride :: int
  tm_size :: int
  tm_team_idx :: int
  tm_config :: aclshmem_team_config_t
  tm_pe_mapping :: "int \<Rightarrow> int"

text \<open>
  The globals the module works on: the scalar fields of \<open>g_state\<close> with the device pointers of the teams
  (zero is the null pointer), the id of the active instance, the mask, and the host pool, whose elements
  are those of the last \<open>calloc\<close>. The blocks of device memory that are allocated through the runtime are
  kept with their contents.
\<close>

datatype dev_block = Raw_block u64 | Team_block aclshmemx_team_t

record team_world =
  tw_initialized :: bool
  tw_mype :: int
  tw_npes :: int
  tw_instance :: u64
  tw_mask :: u64
  tw_pool :: "(int \<Rightarrow> aclshmemx_team_t option) option"
  tw_team_pools :: "int \<Rightarrow> u64"
  tw_sync_pool :: u64
  tw_sync_counter :: u64
  tw_core_sync_pool :: u64
  tw_core_sync_counter :: u64
  tw_heap :: heap_world
  tw_device :: "u64 \<Rightarrow> dev_block option"
  tw_calls :: nat

record team_env =
  te_shift_right :: "u64 \<Rightarrow> int \<Rightarrow> u64"
  te_shift_one :: "int \<Rightarrow> u64"
  te_calloc :: "team_world \<Rightarrow> bool"
  te_malloc :: "team_world \<Rightarrow> int \<times> u64"
  te_memcpy :: "team_world \<Rightarrow> int"
  te_memset :: "team_world \<Rightarrow> int"
  te_free :: "team_world \<Rightarrow> int"
  te_update :: "team_world \<Rightarrow> int"
  te_heap :: "team_world \<Rightarrow> heap_env"
  te_stack_team :: "team_world \<Rightarrow> aclshmemx_team_t"
  te_stack_handle :: "team_world \<Rightarrow> int"

section \<open>The runtime\<close>

definition tick :: "team_world \<Rightarrow> team_world" where
  "tick w = w\<lparr>tw_calls := Suc (tw_calls w)\<rparr>"

definition aclrtMalloc :: "team_env \<Rightarrow> u64 \<Rightarrow> team_world \<Rightarrow> int \<times> u64 \<times> team_world" where
  "aclrtMalloc env sz w =
     (let (ret, p) = te_malloc env w in
      if ret \<noteq> 0 then (ret, p, tick w)
      else (ret, p, tick (w\<lparr>tw_device := (tw_device w)(p \<mapsto> Raw_block sz)\<rparr>)))"

definition aclrtFree :: "team_env \<Rightarrow> u64 \<Rightarrow> team_world \<Rightarrow> int \<times> team_world" where
  "aclrtFree env p w =
     (let ret = te_free env w in
      if ret \<noteq> 0 then (ret, tick w)
      else (ret, tick (w\<lparr>tw_device := (tw_device w)(p := None)\<rparr>)))"

section \<open>The slots of the pool\<close>

definition shift_right :: "team_env \<Rightarrow> u64 \<Rightarrow> int \<Rightarrow> u64" where
  "shift_right env m k = (if k < 64 then drop_bit (nat k) m else te_shift_right env m k)"

definition shift_one :: "team_env \<Rightarrow> int \<Rightarrow> u64" where
  "shift_one env k = (if k < 64 then push_bit (nat k) 1 else te_shift_one env k)"

definition is_valid_team :: "team_env \<Rightarrow> int \<Rightarrow> team_world \<Rightarrow> bool" where
  "is_valid_team env team w \<longleftrightarrow>
     tw_initialized w \<and> tw_pool w \<noteq> None \<and> 0 \<le> team \<and> team < ACLSHMEM_MAX_TEAMS \<and>
     bit (shift_right env (tw_mask w) team) 0"

function free_slot :: "team_env \<Rightarrow> u64 \<Rightarrow> int \<Rightarrow> int option" where
  "free_slot env m i =
     (if i < ACLSHMEM_MAX_TEAMS then
        if \<not> bit (shift_right env m i) 0 then Some i else free_slot env m (i + 1)
      else None)"
  by pat_completeness auto
termination
  by (relation "measure (\<lambda>(env, m, i). nat (ACLSHMEM_MAX_TEAMS - i))") auto

declare free_slot.simps [simp del]

definition first_free_idx_fetch :: "team_env \<Rightarrow> team_world \<Rightarrow> int \<times> team_world" where
  "first_free_idx_fetch env w =
     (case free_slot env (tw_mask w) 0 of None \<Rightarrow> (-1, w)
      | Some i \<Rightarrow> (i, w\<lparr>tw_mask := tw_mask w OR shift_one env i\<rparr>))"

definition team_at :: "int \<Rightarrow> team_world \<Rightarrow> aclshmemx_team_t option" where
  "team_at k w = (case tw_pool w of None \<Rightarrow> None | Some pool \<Rightarrow> pool k)"

definition put_team :: "int \<Rightarrow> aclshmemx_team_t \<Rightarrow> team_world \<Rightarrow> team_world option" where
  "put_team k t w =
     (case tw_pool w of None \<Rightarrow> None
      | Some pool \<Rightarrow> if pool k = None then None else Some (w\<lparr>tw_pool := Some (pool(k \<mapsto> t))\<rparr>))"

text \<open>One access of the array \<open>pe_mapping\<close> of \<open>2 * ACLSHMEM_MAX_PES\<close> elements.\<close>

definition mapping_at :: "aclshmemx_team_t \<Rightarrow> int \<Rightarrow> int option" where
  "mapping_at t k = (if 0 \<le> k \<and> k < 2 * ACLSHMEM_MAX_PES then Some (tm_pe_mapping t k) else None)"

definition put_mapping :: "int \<Rightarrow> int \<Rightarrow> (int \<Rightarrow> int) \<Rightarrow> (int \<Rightarrow> int) option" where
  "put_mapping k v tbl = (if 0 \<le> k \<and> k < 2 * ACLSHMEM_MAX_PES then Some (tbl(k := v)) else None)"

definition i32 :: "int \<Rightarrow> int" where
  "i32 x = signed_take_bit 31 x"

section \<open>The copies on the device\<close>

definition device_team_destroy :: "team_env \<Rightarrow> int \<Rightarrow> team_world \<Rightarrow> team_world" where
  "device_team_destroy env team_idx w =
     (let p = tw_team_pools w team_idx in
      if p \<noteq> 0 then
        let (_, w1) = aclrtFree env p w
        in w1\<lparr>tw_team_pools := (tw_team_pools w1)(team_idx := 0)\<rparr>
      else w)"

definition sizeof_team :: u64 where
  "sizeof_team = 131160"

definition device_team_update ::
  "team_env \<Rightarrow> int \<Rightarrow> aclshmemx_team_t \<Rightarrow> team_world \<Rightarrow> int \<times> team_world" where
  "device_team_update env team_idx host_team w =
     (let (ret, p, w1) = aclrtMalloc env sizeof_team w in
      if ret \<noteq> 0 then (ret, w1)
      else if te_memcpy env w1 \<noteq> 0 then
        let (fret, w2) = aclrtFree env p (tick w1)
        in (if fret \<noteq> 0 then fret else ACLSHMEM_INNER_ERROR, w2)
      else (ACLSHMEM_SUCCESS, (tick w1)\<lparr>
             tw_device := (tw_device w1)(p \<mapsto> Team_block host_team),
             tw_team_pools := (tw_team_pools w1)(team_idx := p)\<rparr>))"

definition update_device_state :: "team_env \<Rightarrow> team_world \<Rightarrow> int \<times> team_world" where
  "update_device_state env w = (te_update env w, tick w)"

definition aclshmem_team_destroy :: "team_env \<Rightarrow> int \<Rightarrow> team_world \<Rightarrow> team_world" where
  "aclshmem_team_destroy env team w =
     (if \<not> is_valid_team env team w then w
      else let w1 = device_team_destroy env team w;
               w2 = w1\<lparr>tw_mask := tw_mask w1 XOR shift_one env team\<rparr>
           in snd (update_device_state env w2))"

section \<open>Splitting a team by a stride\<close>

definition aclshmem_team_split_strided_precheck ::
  "team_env \<Rightarrow> int \<Rightarrow> int \<Rightarrow> int \<Rightarrow> int \<Rightarrow> int option \<Rightarrow> team_world \<Rightarrow> int \<times> int option" where
  "aclshmem_team_split_strided_precheck env parent_team pe_start pe_stride pe_size new_team w =
     (if new_team = None then (ACLSHMEM_INVALID_PARAM, None)
      else if \<not> is_valid_team env parent_team w then (ACLSHMEM_INVALID_PARAM, Some ACLSHMEM_TEAM_INVALID)
      else if pe_start \<ge> ACLSHMEM_MAX_PES \<or> pe_stride \<ge> ACLSHMEM_MAX_PES \<or> pe_size > ACLSHMEM_MAX_PES
      then (ACLSHMEM_INVALID_PARAM, Some ACLSHMEM_TEAM_INVALID)
      else (ACLSHMEM_SUCCESS, Some ACLSHMEM_TEAM_INVALID))"

function split_mapping :: "int \<Rightarrow> int \<Rightarrow> int \<Rightarrow> int \<Rightarrow> (int \<Rightarrow> int) \<Rightarrow> (int \<Rightarrow> int) option" where
  "split_mapping start stride n i tbl =
     (if i < n then
        let temp_global_pe = i32 (start + i32 (i * stride)) in
        do { t1 \<leftarrow> put_mapping i temp_global_pe tbl;
             t2 \<leftarrow> put_mapping (temp_global_pe + ACLSHMEM_MAX_PES) i t1;
             split_mapping start stride n (i + 1) t2 }
      else Some tbl)"
  by pat_completeness auto
termination
  by (relation "measure (\<lambda>(start, stride, n, i, tbl). nat (n - i))") auto

declare split_mapping.simps [simp del]

text \<open>
  The end of a split: the slot, the copy on the device and the device state. A failure of the device calls
  destroys the team again.
\<close>

definition enter_team ::
  "team_env \<Rightarrow> aclshmemx_team_t \<Rightarrow> team_world \<Rightarrow> (int \<times> int option \<times> team_world) option" where
  "enter_team env my_team w =
     (let (idx, w1) = first_free_idx_fetch env w;
          my_team' = my_team\<lparr>tm_team_idx := idx\<rparr> in
      if idx = -1 then Some (ACLSHMEM_INNER_ERROR, Some ACLSHMEM_TEAM_INVALID, w1)
      else do {
        w2 \<leftarrow> put_team idx my_team' w1;
        let (ret, w3) = device_team_update env idx my_team' w2;
        if ret \<noteq> 0 then
          Some (ACLSHMEM_INNER_ERROR, Some ACLSHMEM_TEAM_INVALID, aclshmem_team_destroy env idx w3)
        else let (ret2, w4) = update_device_state env w3 in
          if ret2 \<noteq> 0 then
            Some (ACLSHMEM_INNER_ERROR, Some ACLSHMEM_TEAM_INVALID, aclshmem_team_destroy env idx w4)
          else Some (0, Some idx, w4) })"

definition aclshmem_team_split_strided ::
  "team_env \<Rightarrow> int \<Rightarrow> int \<Rightarrow> int \<Rightarrow> int \<Rightarrow> int option \<Rightarrow> team_world \<Rightarrow>
   (int \<times> int option \<times> team_world) option" where
  "aclshmem_team_split_strided env parent_team pe_start pe_stride pe_size new_team w =
     (if tw_instance w \<noteq> 0 then Some (ACLSHMEM_NOT_SUPPORTED, new_team, w)
      else let (ret, out) =
          aclshmem_team_split_strided_precheck env parent_team pe_start pe_stride pe_size new_team w in
      if ret \<noteq> ACLSHMEM_SUCCESS then Some (ret, out, w)
      else do {
        src_team \<leftarrow> team_at parent_team w;
        if pe_start < 0 \<or> pe_start \<ge> tm_size src_team \<or> pe_size \<le> 0 \<or> pe_size > tm_size src_team \<or> pe_stride < 1
        then Some (ACLSHMEM_INVALID_PARAM, out, w)
        else do {
          global_pe_start \<leftarrow> mapping_at src_team pe_start;
          let global_pe = tm_mype src_team;
          let global_pe_stride = i32 (tm_stride src_team * pe_stride);
          let global_pe_end = i32 (global_pe_start + i32 (global_pe_stride * (pe_size - 1)));
          if global_pe_start \<ge> tw_npes w \<or> global_pe_end \<ge> tw_npes w
          then Some (ACLSHMEM_INVALID_PARAM, out, w)
          else if global_pe_stride = 0 then None
          else let mype = i32 (global_pe - global_pe_start) sdiv global_pe_stride in
            if global_pe < global_pe_start \<or> i32 (global_pe - global_pe_start) smod global_pe_stride \<noteq> 0
               \<or> mype \<ge> pe_size
            then Some (ACLSHMEM_SUCCESS, out, w)
            else do {
              tbl \<leftarrow> split_mapping global_pe_start global_pe_stride pe_size 0
                       (tm_pe_mapping (te_stack_team env w));
              enter_team env ((te_stack_team env w)\<lparr>tm_mype := mype, tm_start := global_pe_start,
                tm_stride := global_pe_stride, tm_size := pe_size, tm_pe_mapping := tbl\<rparr>) w } } })"

section \<open>Splitting a team into rows and columns\<close>










section \<open>Queries\<close>

definition aclshmemi_team_pe_mapping :: "team_env \<Rightarrow> int \<Rightarrow> int \<Rightarrow> team_world \<Rightarrow> int option" where
  "aclshmemi_team_pe_mapping env team pe w =
     (if \<not> is_valid_team env team w then Some ACLSHMEM_INVALID_PARAM
      else do { t \<leftarrow> team_at team w; mapping_at t pe })"

definition aclshmem_team_translate_pe :: "team_env \<Rightarrow> int \<Rightarrow> int \<Rightarrow> int \<Rightarrow> team_world \<Rightarrow> int option" where
  "aclshmem_team_translate_pe env src_team src_pe dest_team w =
     (if tw_instance w \<noteq> 0 then Some ACLSHMEM_NOT_SUPPORTED
      else if \<not> is_valid_team env src_team w \<or> \<not> is_valid_team env dest_team w then Some (-1)
      else do {
        s \<leftarrow> team_at src_team w;
        if src_pe < 0 \<or> src_pe \<ge> tm_size s then Some (-1)
        else do {
          global_pe \<leftarrow> mapping_at s src_pe;
          d \<leftarrow> team_at dest_team w;
          mapping_at d (global_pe + ACLSHMEM_MAX_PES) } })"

definition aclshmem_my_pe :: "team_world \<Rightarrow> int" where
  "aclshmem_my_pe w = tw_mype w"

definition aclshmem_n_pes :: "team_world \<Rightarrow> int" where
  "aclshmem_n_pes w = tw_npes w"

definition aclshmem_team_my_pe :: "team_env \<Rightarrow> int \<Rightarrow> team_world \<Rightarrow> int option" where
  "aclshmem_team_my_pe env team w =
     (if tw_instance w \<noteq> 0 then Some ACLSHMEM_NOT_SUPPORTED
      else if is_valid_team env team w then map_option tm_mype (team_at team w) else Some (-1))"

definition aclshmem_team_n_pes :: "team_env \<Rightarrow> int \<Rightarrow> team_world \<Rightarrow> int option" where
  "aclshmem_team_n_pes env team w =
     (if tw_instance w \<noteq> 0 then Some ACLSHMEM_NOT_SUPPORTED
      else if is_valid_team env team w then map_option tm_size (team_at team w) else Some (-1))"

text \<open>The check of the pointer returns the value of the comparison, one, for a null pointer.\<close>

definition aclshmem_team_get_config ::
  "team_env \<Rightarrow> int \<Rightarrow> aclshmem_team_config_t option \<Rightarrow> team_world \<Rightarrow> (int \<times> aclshmem_team_config_t option) option" where
  "aclshmem_team_get_config env team config w =
     (if tw_instance w \<noteq> 0 then Some (ACLSHMEM_NOT_SUPPORTED, config)
      else if config = None then Some (1, None)
      else if is_valid_team env team w then map_option (\<lambda>t. (0, Some (tm_config t))) (team_at team w)
      else Some (ACLSHMEM_INVALID_PARAM, config))"

section \<open>Set-up and tear-down\<close>

function finalize_teams :: "team_env \<Rightarrow> int \<Rightarrow> int \<Rightarrow> team_world \<Rightarrow> team_world" where
  "finalize_teams env team_size i w =
     (if i < team_size then
        finalize_teams env team_size (i + 1)
          (if is_valid_team env i w then aclshmem_team_destroy env i w else w)
      else w)"
  by pat_completeness auto
termination
  by (relation "measure (\<lambda>(env, n, i, w). nat (n - i))") auto

declare finalize_teams.simps [simp del]

definition team_size :: "team_world \<Rightarrow> int" where
  "team_size w = (if tw_instance w = 0 then ACLSHMEM_MAX_TEAMS else 1)"

definition free_sync_counter :: "team_env \<Rightarrow> team_world \<Rightarrow> team_world" where
  "free_sync_counter env w =
     (if tw_sync_counter w \<noteq> 0
      then tick (w\<lparr>tw_heap := aclshmem_free (te_heap env w) (tw_sync_counter w) (tw_heap w), tw_sync_counter := 0\<rparr>)
      else w)"

definition free_sync_pool :: "team_env \<Rightarrow> team_world \<Rightarrow> team_world" where
  "free_sync_pool env w =
     (if tw_sync_pool w \<noteq> 0
      then tick (w\<lparr>tw_heap := aclshmem_free (te_heap env w) (tw_sync_pool w) (tw_heap w), tw_sync_pool := 0\<rparr>)
      else w)"

definition free_core_sync_counter :: "team_env \<Rightarrow> team_world \<Rightarrow> int \<times> team_world" where
  "free_core_sync_counter env w =
     (if tw_core_sync_counter w \<noteq> 0 then
        let (ret, w1) = aclrtFree env (tw_core_sync_counter w) w
        in if ret \<noteq> 0 then (ret, w1) else (0, w1\<lparr>tw_core_sync_counter := 0\<rparr>)
      else (0, w))"

definition free_core_sync_pool :: "team_env \<Rightarrow> team_world \<Rightarrow> int \<times> team_world" where
  "free_core_sync_pool env w =
     (if tw_core_sync_pool w \<noteq> 0 then
        let (ret, w1) = aclrtFree env (tw_core_sync_pool w) w
        in if ret \<noteq> 0 then (ret, w1) else (0, w1\<lparr>tw_core_sync_pool := 0\<rparr>)
      else (0, w))"

definition aclshmemi_team_finalize :: "team_env \<Rightarrow> team_world \<Rightarrow> int \<times> team_world" where
  "aclshmemi_team_finalize env w =
     (let w1 = finalize_teams env (team_size w) 0 w;
          w2 = free_sync_pool env (free_sync_counter env w1);
          (ret, w3) = free_core_sync_counter env w2 in
      if ret \<noteq> 0 then (ret, w3)
      else let (ret, w4) = free_core_sync_pool env w3 in
        if ret \<noteq> 0 then (ret, w4) else (0, w4\<lparr>tw_pool := None\<rparr>))"

text \<open>Every step of the set-up ends in the same way when it fails.\<close>

definition abort_init :: "team_env \<Rightarrow> team_world \<Rightarrow> int \<times> team_world" where
  "abort_init env w = (ACLSHMEM_INNER_ERROR, snd (aclshmemi_team_finalize env w))"

definition memset_or_abort :: "team_env \<Rightarrow> team_world \<Rightarrow> int \<times> team_world" where
  "memset_or_abort env w =
     (if te_memset env w \<noteq> 0 then abort_init env (tick w) else (ACLSHMEM_SUCCESS, tick w))"

definition aclshmemi_team_init_sync_pool :: "team_env \<Rightarrow> team_world \<Rightarrow> int \<times> team_world" where
  "aclshmemi_team_init_sync_pool env w =
     (let (p, h) = aclshmem_malloc (te_heap env w) SYNC_POOL_SIZE (tw_heap w);
          w1 = tick (w\<lparr>tw_heap := h, tw_sync_pool := p\<rparr>)
      in if p = 0 then abort_init env w1 else memset_or_abort env w1)"

definition aclshmemi_team_init_sync_counter :: "team_env \<Rightarrow> team_world \<Rightarrow> int \<times> team_world" where
  "aclshmemi_team_init_sync_counter env w =
     (let (p, h) = aclshmem_malloc (te_heap env w) SYNC_COUNTERS_SIZE (tw_heap w);
          w1 = tick (w\<lparr>tw_heap := h, tw_sync_counter := p\<rparr>)
      in if p = 0 then abort_init env w1 else memset_or_abort env w1)"

definition aclshmemi_team_init_core_sync_pool :: "team_env \<Rightarrow> team_world \<Rightarrow> int \<times> team_world" where
  "aclshmemi_team_init_core_sync_pool env w =
     (let (ret, p, w1) = aclrtMalloc env ACLSHMEM_CORE_SYNC_POOL_SIZE w;
          w2 = (if ret = 0 then w1\<lparr>tw_core_sync_pool := p\<rparr> else w1)
      in if ret \<noteq> 0 \<or> tw_core_sync_pool w2 = 0 then abort_init env w2 else memset_or_abort env w2)"

definition aclshmemi_team_init_core_sync_counter :: "team_env \<Rightarrow> team_world \<Rightarrow> int \<times> team_world" where
  "aclshmemi_team_init_core_sync_counter env w =
     (let (ret, p, w1) = aclrtMalloc env ACLSHMEM_CORE_SYNC_COUNTER_SIZE w;
          w2 = (if ret = 0 then w1\<lparr>tw_core_sync_counter := p\<rparr> else w1)
      in if ret \<noteq> 0 \<or> tw_core_sync_counter w2 = 0 then abort_init env w2 else memset_or_abort env w2)"

function constant_stride_mapping :: "int \<Rightarrow> int \<Rightarrow> int \<Rightarrow> int \<Rightarrow> (int \<Rightarrow> int) \<Rightarrow> (int \<Rightarrow> int) option" where
  "constant_stride_mapping start stride n i tbl =
     (if i < n then do {
        t1 \<leftarrow> put_mapping i (i32 (start + i32 (i * stride))) tbl;
        constant_stride_mapping start stride n (i + 1) t1 }
      else Some tbl)"
  by pat_completeness auto
termination
  by (relation "measure (\<lambda>(start, stride, n, i, tbl). nat (n - i))") auto

function world_mapping :: "int \<Rightarrow> int \<Rightarrow> (int \<Rightarrow> int) \<Rightarrow> (int \<Rightarrow> int) option" where
  "world_mapping n i tbl =
     (if i < n then do {
        t1 \<leftarrow> put_mapping (tbl i + ACLSHMEM_MAX_PES) i tbl;
        world_mapping n (i + 1) t1 }
      else Some tbl)"
  by pat_completeness auto
termination
  by (relation "measure (\<lambda>(n, i, tbl). nat (n - i))") auto

declare constant_stride_mapping.simps [simp del] world_mapping.simps [simp del]

definition aclshmemi_team_populate_from_world_pe_mapping :: "aclshmemx_team_t \<Rightarrow> aclshmemx_team_t option" where
  "aclshmemi_team_populate_from_world_pe_mapping t =
     map_option (\<lambda>tbl. t\<lparr>tm_pe_mapping := tbl\<rparr>) (world_mapping (tm_size t) 0 (tm_pe_mapping t))"

definition aclshmemi_team_populate_pe_mappings_from_constant_stride ::
  "aclshmemx_team_t \<Rightarrow> aclshmemx_team_t option" where
  "aclshmemi_team_populate_pe_mappings_from_constant_stride t =
     do { tbl \<leftarrow> constant_stride_mapping (tm_start t) (tm_stride t) (tm_size t) 0 (tm_pe_mapping t);
          aclshmemi_team_populate_from_world_pe_mapping (t\<lparr>tm_pe_mapping := tbl\<rparr>) }"

text \<open>An element of the pool before it is used: minus one and a table whose other elements are zero.\<close>

definition no_config :: aclshmem_team_config_t where
  "no_config = \<lparr>tc_version = 0, tc_num_contexts = 0, tc_uniqueid = 0, tc_padding = ''0'' @ replicate 47 (CHR 0x00)\<rparr>"

definition unused_team :: aclshmemx_team_t where
  "unused_team = \<lparr>tm_mype = -1, tm_start = -1, tm_stride = -1, tm_size = -1, tm_team_idx = -1,
     tm_config = no_config, tm_pe_mapping = (\<lambda>k. if k = 0 then -1 else 0)\<rparr>"

definition new_pool :: "int \<Rightarrow> int \<Rightarrow> aclshmemx_team_t option" where
  "new_pool n = (\<lambda>k. if 0 \<le> k \<and> k < n then Some unused_team else None)"

definition aclshmemi_team_init :: "team_env \<Rightarrow> int \<Rightarrow> int \<Rightarrow> team_world \<Rightarrow> (int \<times> team_world) option" where
  "aclshmemi_team_init env rank sz w =
     (if \<not> te_calloc env w then Some (ACLSHMEM_INNER_ERROR, w\<lparr>tw_pool := None\<rparr>)
      else do {
        let world0 = unused_team\<lparr>tm_team_idx := ACLSHMEM_TEAM_WORLD, tm_start := 0, tm_stride := 1,
              tm_size := sz, tm_mype := rank\<rparr>;
        world \<leftarrow> aclshmemi_team_populate_pe_mappings_from_constant_stride world0;
        let w0 = w\<lparr>tw_pool := Some ((new_pool (team_size w))(ACLSHMEM_TEAM_WORLD \<mapsto> world)),
              tw_mask := tw_mask w OR shift_one env ACLSHMEM_TEAM_WORLD\<rparr>;
        let (ret, w1) = device_team_update env ACLSHMEM_TEAM_WORLD world w0;
        if ret \<noteq> 0 then Some (ret, snd (aclshmemi_team_finalize env w1))
        else let (ret, w2) = aclshmemi_team_init_sync_pool env w1 in
        if ret \<noteq> 0 then Some (ret, w2)
        else let (ret, w3) = aclshmemi_team_init_sync_counter env w2 in
        if ret \<noteq> 0 then Some (ret, w3)
        else let (ret, w4) = aclshmemi_team_init_core_sync_pool env w3 in
        if ret \<noteq> 0 then Some (ret, w4)
        else Some (aclshmemi_team_init_core_sync_counter env w4) })"


section \<open>Slots\<close>

text \<open>The two supported hosts take the count of a variable shift modulo 64.\<close>

definition machine_shift :: "team_env \<Rightarrow> bool" where
  "machine_shift env \<longleftrightarrow> (\<forall>m k. 64 \<le> k \<longrightarrow>
     te_shift_right env m k = drop_bit (nat k mod 64) m \<and> te_shift_one env k = push_bit (nat k mod 64) 1)"

lemma shift_right_bit: "k < 64 \<Longrightarrow> bit (shift_right env m k) 0 \<longleftrightarrow> bit m (nat k)"
  by (simp add: shift_right_def bit_drop_bit_eq)

lemma valid_slot: "k < 64 \<Longrightarrow> is_valid_team env k w \<longleftrightarrow>
    tw_initialized w \<and> tw_pool w \<noteq> None \<and> 0 \<le> k \<and> bit (tw_mask w) (nat k)"
  by (auto simp: is_valid_team_def shift_right_bit team_constants)

lemma machine_shift_bit:
  assumes "machine_shift env" "0 \<le> k"
  shows "bit (shift_right env m k) 0 \<longleftrightarrow> bit m (nat k mod 64)"
proof (cases "k < 64")
  case True
  then have "nat k mod 64 = nat k" using assms(2) by simp
  then show ?thesis using True by (simp add: shift_right_bit)
next
  case False
  then show ?thesis using assms by (simp add: shift_right_def machine_shift_def bit_drop_bit_eq)
qed

lemma free_slot_Some: "free_slot env m i = Some k \<Longrightarrow>
    i \<le> k \<and> k < ACLSHMEM_MAX_TEAMS \<and> \<not> bit (shift_right env m k) 0 \<and>
    (\<forall>j. i \<le> j \<and> j < k \<longrightarrow> bit (shift_right env m j) 0)"
proof (induction env m i rule: free_slot.induct)
  case (1 env m i)
  show ?case
  proof (cases "i < ACLSHMEM_MAX_TEAMS \<and> bit (shift_right env m i) 0")
    case True
    then have "free_slot env m (i + 1) = Some k" using "1.prems" by (subst (asm) free_slot.simps) simp
    then show ?thesis using "1.IH" True by (smt (verit))
  next
    case False
    then have "k = i \<and> i < ACLSHMEM_MAX_TEAMS \<and> \<not> bit (shift_right env m i) 0"
      using "1.prems" by (subst (asm) free_slot.simps) (auto split: if_splits)
    then show ?thesis by auto
  qed
qed

lemma free_slot_None: "free_slot env m i = None \<Longrightarrow> i \<le> j \<Longrightarrow> j < ACLSHMEM_MAX_TEAMS \<Longrightarrow>
    bit (shift_right env m j) 0"
proof (induction env m i rule: free_slot.induct)
  case (1 env m i)
  have lt: "i < ACLSHMEM_MAX_TEAMS" and used: "bit (shift_right env m i) 0"
    and rest: "free_slot env m (i + 1) = None"
    using "1.prems" by (subst (asm) free_slot.simps, simp split: if_splits)+
  show ?case
  proof (cases "j = i")
    case True
    then show ?thesis using used by simp
  next
    case False
    then show ?thesis using "1.IH"[OF lt _ rest] used "1.prems" by simp
  qed
qed

text \<open>The slot a scan finds is one of the first 64, or there is none and these are taken.\<close>

lemma free_slot_cases:
  assumes "machine_shift env"
  obtains (none) "free_slot env m 0 = None" "\<forall>k<64. bit m k"
  | (slot) k where "free_slot env m 0 = Some (int k)" "k < 64" "\<not> bit m k" "\<forall>j<k. bit m j"
proof (cases "free_slot env m 0")
  case None
  have "bit m k" if "k < 64" for k
    using free_slot_None[OF None, of "int k"] that by (simp add: shift_right_bit team_constants)
  then show thesis using none None by simp
next
  case (Some k)
  note f = free_slot_Some[OF Some]
  have k0: "0 \<le> k" using f by simp
  have lt: "k < 64"
  proof (rule ccontr)
    assume "\<not> k < 64"
    then have "int (nat k mod 64) < k"
      using mod_less_divisor[of 64 "nat k"] by linarith
    then have "bit (shift_right env m (int (nat k mod 64))) 0" using f by simp
    then have "bit m (nat k mod 64)" by (simp add: shift_right_bit)
    then show False using f machine_shift_bit[OF assms k0] by simp
  qed
  have "\<not> bit m (nat k)" using f shift_right_bit[OF lt] by simp
  moreover have "bit m j" if "j < nat k" for j
    using f lt that shift_right_bit[of "int j" env m] by simp
  ultimately show thesis using slot[of "nat k"] Some k0 lt by auto
qed

section \<open>The invariant of the pool\<close>

definition team_wf :: "int \<Rightarrow> aclshmemx_team_t \<Rightarrow> bool" where
  "team_wf npes t \<longleftrightarrow>
     0 \<le> tm_mype t \<and> tm_mype t < tm_size t \<and> 0 \<le> tm_start t \<and> 1 \<le> tm_stride t \<and>
     tm_start t + tm_stride t * (tm_size t - 1) < npes \<and> tm_size t \<le> ACLSHMEM_MAX_PES \<and>
     (\<forall>i. 0 \<le> i \<and> i < tm_size t \<longrightarrow>
        tm_pe_mapping t i = tm_start t + i * tm_stride t \<and>
        tm_pe_mapping t (tm_start t + i * tm_stride t + ACLSHMEM_MAX_PES) = i)"

definition live_slot :: "int \<Rightarrow> team_world \<Rightarrow> bool" where
  "live_slot k w \<longleftrightarrow> 0 \<le> k \<and> k < 64 \<and> bit (tw_mask w) (nat k)"

definition mirrored :: "int \<Rightarrow> aclshmemx_team_t \<Rightarrow> team_world \<Rightarrow> bool" where
  "mirrored k t w \<longleftrightarrow>
     tw_team_pools w k \<noteq> 0 \<and> tw_device w (tw_team_pools w k) = Some (Team_block t)"

definition team_inv :: "team_world \<Rightarrow> bool" where
  "team_inv w \<longleftrightarrow>
     tw_initialized w \<and> tw_instance w = 0 \<and> 1 \<le> tw_npes w \<and> tw_npes w \<le> ACLSHMEM_MAX_PES \<and>
     tw_pool w \<noteq> None \<and> (\<forall>k. 0 \<le> k \<and> k < ACLSHMEM_MAX_TEAMS \<longrightarrow> team_at k w \<noteq> None) \<and>
     (\<forall>k. live_slot k w \<longrightarrow> (\<exists>t. team_at k w = Some t \<and> team_wf (tw_npes w) t \<and> tm_team_idx t = k \<and> mirrored k t w)) \<and>
     (\<forall>k. \<not> live_slot k w \<longrightarrow> tw_team_pools w k = 0) \<and>
     (\<forall>j k. live_slot j w \<and> live_slot k w \<and> tw_team_pools w j = tw_team_pools w k \<longrightarrow> j = k)"

definition fresh_malloc :: "team_env \<Rightarrow> bool" where
  "fresh_malloc env \<longleftrightarrow> (\<forall>w p. te_malloc env w = (0, p) \<longrightarrow> p \<noteq> 0 \<and> tw_device w p = None)"


section \<open>What the device calls change\<close>

lemma device_team_update_cases:
  assumes "fresh_malloc env" "device_team_update env k t w = (ret, w')"
  obtains (ok) p n where "ret = 0" "p \<noteq> 0" "tw_device w p = None"
      "w' = w\<lparr>tw_device := (tw_device w)(p \<mapsto> Team_block t),
               tw_team_pools := (tw_team_pools w)(k := p), tw_calls := n\<rparr>"
  | (bad) d n where "ret \<noteq> 0" "w' = w\<lparr>tw_device := d, tw_calls := n\<rparr>"
      "\<forall>q. tw_device w q \<noteq> None \<longrightarrow> d q = tw_device w q"
proof -
  obtain r p where m: "te_malloc env w = (r, p)" by fastforce
  have fresh: "p \<noteq> 0 \<and> tw_device w p = None" if "r = 0"
    using assms(1) m that by (simp add: fresh_malloc_def)
  show thesis
  proof (cases "r = 0")
    case False
    then show thesis using assms(2) m bad[where d = "tw_device w" and n = "Suc (tw_calls w)"]
      by (auto simp: device_team_update_def aclrtMalloc_def tick_def)
  next
    case True
    note f = fresh[OF True]
    let ?w1 = "tick (w\<lparr>tw_device := (tw_device w)(p \<mapsto> Raw_block sizeof_team)\<rparr>)"
    have u: "device_team_update env k t w =
        (if te_memcpy env ?w1 \<noteq> 0 then
           let (fret, w2) = aclrtFree env p (tick ?w1)
           in (if fret \<noteq> 0 then fret else ACLSHMEM_INNER_ERROR, w2)
         else (ACLSHMEM_SUCCESS, (tick ?w1)\<lparr>tw_device := (tw_device ?w1)(p \<mapsto> Team_block t),
                 tw_team_pools := (tw_team_pools ?w1)(k := p)\<rparr>))"
      using m True by (simp add: device_team_update_def aclrtMalloc_def)
    show thesis
    proof (cases "te_memcpy env ?w1 = 0")
      case True
      show thesis
      proof (rule ok)
        show "ret = 0" using assms(2) u True by (simp add: team_codes)
        show "w' = w\<lparr>tw_device := (tw_device w)(p \<mapsto> Team_block t),
               tw_team_pools := (tw_team_pools w)(k := p), tw_calls := Suc (Suc (tw_calls w))\<rparr>"
          using assms(2) u True by (auto simp: tick_def)
      qed (use f in simp_all)
    next
      case False
      let ?fret = "te_free env (tick ?w1)"
      let ?d = "if ?fret \<noteq> 0 then tw_device ?w1 else (tw_device ?w1)(p := None)"
      show thesis
      proof (rule bad)
        show "ret \<noteq> 0" using assms(2) u False by (auto simp: aclrtFree_def Let_def team_codes split: if_splits)
        show "w' = w\<lparr>tw_device := ?d, tw_calls := Suc (Suc (Suc (tw_calls w)))\<rparr>"
          using assms(2) u False by (auto simp: aclrtFree_def Let_def tick_def split: if_splits)
        show "\<forall>q. tw_device w q \<noteq> None \<longrightarrow> ?d q = tw_device w q"
          using f by (auto simp: tick_def)
      qed
    qed
  qed
qed

lemma destroy_slot:
  assumes "live_slot k w" "tw_initialized w" "tw_pool w \<noteq> None"
  obtains d n where
    "aclshmem_team_destroy env k w = w\<lparr>tw_device := d, tw_team_pools := (tw_team_pools w)(k := 0),
       tw_mask := tw_mask w XOR push_bit (nat k) 1, tw_calls := n\<rparr>"
    "\<forall>q. tw_team_pools w k = 0 \<or> q \<noteq> tw_team_pools w k \<longrightarrow> d q = tw_device w q"
    "tw_team_pools w k \<noteq> 0 \<and> te_free env w = 0 \<longrightarrow> d (tw_team_pools w k) = None"
proof -
  have v: "is_valid_team env k w" and lt: "k < 64"
    using assms by (auto simp: live_slot_def valid_slot)
  let ?p = "tw_team_pools w k"
  let ?d = "if ?p \<noteq> 0 \<and> te_free env w = 0 then (tw_device w)(?p := None) else tw_device w"
  let ?n = "if ?p \<noteq> 0 then Suc (Suc (tw_calls w)) else Suc (tw_calls w)"
  show thesis
  proof (rule that)
    show "aclshmem_team_destroy env k w = w\<lparr>tw_device := ?d, tw_team_pools := (tw_team_pools w)(k := 0),
       tw_mask := tw_mask w XOR push_bit (nat k) 1, tw_calls := ?n\<rparr>"
      using v lt by (auto simp: aclshmem_team_destroy_def device_team_destroy_def aclrtFree_def tick_def
          update_device_state_def shift_one_def Let_def fun_upd_idem)
  qed auto
qed

section \<open>States that hold the same teams\<close>

definition same_teams :: "team_world \<Rightarrow> team_world \<Rightarrow> bool" where
  "same_teams w w' \<longleftrightarrow>
     tw_initialized w' = tw_initialized w \<and> tw_npes w' = tw_npes w \<and> tw_mype w' = tw_mype w \<and>
     tw_instance w' = tw_instance w \<and> tw_mask w' = tw_mask w \<and> tw_team_pools w' = tw_team_pools w \<and>
     tw_pool w' \<noteq> None \<and> (\<forall>k. live_slot k w \<longrightarrow> team_at k w' = team_at k w) \<and>
     (\<forall>k. team_at k w \<noteq> None \<longrightarrow> team_at k w' \<noteq> None) \<and>
     (\<forall>q. tw_device w q \<noteq> None \<longrightarrow> tw_device w' q = tw_device w q)"

lemma same_teams_refl: "tw_pool w \<noteq> None \<Longrightarrow> same_teams w w"
  by (simp add: same_teams_def)

lemma same_teams_live: "same_teams w w' \<Longrightarrow> live_slot k w' \<longleftrightarrow> live_slot k w"
  by (simp add: same_teams_def live_slot_def)

lemma same_teams_mirrored: "same_teams w w' \<Longrightarrow> mirrored k t w \<Longrightarrow> mirrored k t w'"
  by (auto simp: same_teams_def mirrored_def)

lemma same_teams_inv:
  assumes "same_teams w w'" "team_inv w"
  shows "team_inv w'"
proof -
  have live: "live_slot k w' \<longleftrightarrow> live_slot k w" for k by (rule same_teams_live[OF assms(1)])
  have eqs: "tw_initialized w' = tw_initialized w" "tw_npes w' = tw_npes w" "tw_instance w' = tw_instance w"
    "tw_team_pools w' = tw_team_pools w" "tw_pool w' \<noteq> None"
    and at: "live_slot k w \<Longrightarrow> team_at k w' = team_at k w" "team_at k w \<noteq> None \<Longrightarrow> team_at k w' \<noteq> None" for k
    using assms(1) unfolding same_teams_def by blast+
  have team: "\<exists>t. team_at k w' = Some t \<and> team_wf (tw_npes w) t \<and> tm_team_idx t = k \<and> mirrored k t w'"
    if l: "live_slot k w" for k
  proof -
    obtain t where "team_at k w = Some t" "team_wf (tw_npes w) t" "tm_team_idx t = k" "mirrored k t w"
      using assms(2) l unfolding team_inv_def by blast
    then show ?thesis using at(1)[OF l] same_teams_mirrored[OF assms(1)] by auto
  qed
  show ?thesis
    unfolding team_inv_def live eqs(1-4)
    using assms(2) eqs(5) team at(2) by (simp add: team_inv_def)
qed

section \<open>Taking a slot\<close>

lemma bit_mask_or: "j < 64 \<Longrightarrow> k < 64 \<Longrightarrow> bit ((m :: u64) OR push_bit k 1) j \<longleftrightarrow> bit m j \<or> j = k"
  by (auto simp: bit_simps)

lemma bit_mask_xor: "j < 64 \<Longrightarrow> k < 64 \<Longrightarrow> bit ((m :: u64) XOR push_bit k 1) j \<longleftrightarrow> bit m j \<noteq> (j = k)"
  by (auto simp: bit_simps)

lemma mask_or_xor:
  assumes "k < 64" "\<not> bit (m :: u64) k"
  shows "(m OR push_bit k 1) XOR push_bit k 1 = m"
proof (rule bit_word_eqI)
  fix j assume "j < LENGTH(64)"
  then show "bit ((m OR push_bit k 1) XOR push_bit k 1) j = bit m j"
    using assms by (auto simp: bit_mask_xor bit_mask_or simp del: push_bit_of_1)
qed


lemma mirrored_fresh:
  assumes "mirrored j t w" "tw_device w p = None" "j \<noteq> k"
  shows "mirrored j t (w\<lparr>tw_mask := m, tw_pool := q, tw_device := (tw_device w)(p \<mapsto> b),
    tw_team_pools := (tw_team_pools w)(k := p), tw_calls := n\<rparr>)"
  using assms by (auto simp: mirrored_def)

text \<open>A team that went into slot \<open>k\<close>, with its copy at \<open>p\<close> on the device.\<close>

definition entered :: "int \<Rightarrow> u64 \<Rightarrow> aclshmemx_team_t \<Rightarrow> nat \<Rightarrow> team_world \<Rightarrow> team_world" where
  "entered k p t n w = w\<lparr>tw_mask := tw_mask w OR push_bit (nat k) 1,
     tw_pool := map_option (\<lambda>pool. pool(k \<mapsto> t)) (tw_pool w),
     tw_device := (tw_device w)(p \<mapsto> Team_block t),
     tw_team_pools := (tw_team_pools w)(k := p), tw_calls := n\<rparr>"

lemma entered_team_at: "tw_pool w \<noteq> None \<Longrightarrow> team_at j (entered k p t n w) = (if j = k then Some t else team_at j w)"
  by (auto simp: entered_def team_at_def)

lemma entered_live:
  assumes "0 \<le> k" "k < 64"
  shows "live_slot j (entered k p t n w) \<longleftrightarrow> live_slot j w \<or> j = k"
  using assms by (auto simp: entered_def live_slot_def bit_mask_or nat_eq_iff simp del: push_bit_of_1)

lemma entered_inv:
  assumes inv: "team_inv w" and k: "0 \<le> k" "k < 64" "\<not> live_slot k w"
    and t: "team_wf (tw_npes w) t" "tm_team_idx t = k" and p: "p \<noteq> 0" "tw_device w p = None"
  shows "team_inv (entered k p t n w)"
proof -
  have pool: "tw_pool w \<noteq> None" using inv by (simp add: team_inv_def)
  note simps = entered_live[OF k(1,2)] entered_team_at[OF pool]
  have ptr: "tw_team_pools (entered k p t n w) j = (if j = k then p else tw_team_pools w j)" for j
    by (simp add: entered_def)
  have old: "\<exists>t'. team_at j w = Some t' \<and> team_wf (tw_npes w) t' \<and> tm_team_idx t' = j \<and> mirrored j t' w"
    if "live_slot j w" for j using inv that by (simp add: team_inv_def)
  have distinct: "tw_team_pools w j \<noteq> p" if "live_slot j w" for j
    using old[OF that] p by (auto simp: mirrored_def)
  have new: "\<exists>t'. (if j = k then Some t else team_at j w) = Some t' \<and> team_wf (tw_npes w) t' \<and> tm_team_idx t' = j \<and>
      mirrored j t' (entered k p t n w)" if l: "live_slot j w \<or> j = k" for j
  proof (cases "j = k")
    case True
    then show ?thesis using t p by (simp add: mirrored_def entered_def)
  next
    case False
    then have "live_slot j w" using l by simp
    then obtain t' where t': "team_at j w = Some t'" "team_wf (tw_npes w) t'" "tm_team_idx t' = j" "mirrored j t' w"
      using old by blast
    have "mirrored j t' (entered k p t n w)"
      unfolding entered_def by (rule mirrored_fresh[OF t'(4) p(2) False])
    then show ?thesis using t' False by auto
  qed
  have fields: "tw_initialized (entered k p t n w)" "tw_instance (entered k p t n w) = 0"
    "tw_npes (entered k p t n w) = tw_npes w" "tw_pool (entered k p t n w) \<noteq> None"
    using inv by (simp_all add: entered_def team_inv_def)
  have null: "tw_team_pools (entered k p t n w) j = 0" if "\<not> (live_slot j w \<or> j = k)" for j
    using inv that by (simp add: ptr team_inv_def)
  have inj: "i = j" if "live_slot i w \<or> i = k" "live_slot j w \<or> j = k"
    "(if i = k then p else tw_team_pools w i) = (if j = k then p else tw_team_pools w j)" for i j
    using that inv distinct distinct[symmetric] k(3) unfolding team_inv_def by (smt (verit))
  show ?thesis
    unfolding team_inv_def simps fields(3)
  proof (intro conjI)
    show "\<forall>j i. (live_slot j w \<or> j = k) \<and> (live_slot i w \<or> i = k) \<and>
        tw_team_pools (entered k p t n w) j = tw_team_pools (entered k p t n w) i \<longrightarrow> j = i"
      unfolding ptr using inj by blast
  qed (use fields inv new null in \<open>auto simp: team_inv_def\<close>)
qed

lemma destroyed_inv:
  assumes inv: "team_inv w" and k: "live_slot k w"
  shows "team_inv (aclshmem_team_destroy env k w)"
proof -
  have init: "tw_initialized w" "tw_pool w \<noteq> None" using inv by (simp_all add: team_inv_def)
  obtain d n where w': "aclshmem_team_destroy env k w = w\<lparr>tw_device := d, tw_team_pools := (tw_team_pools w)(k := 0),
       tw_mask := tw_mask w XOR push_bit (nat k) 1, tw_calls := n\<rparr>" (is "_ = ?w'")
    and d: "\<forall>q. tw_team_pools w k = 0 \<or> q \<noteq> tw_team_pools w k \<longrightarrow> d q = tw_device w q"
    using destroy_slot[OF k init] by metis
  have live: "live_slot j ?w' \<longleftrightarrow> live_slot j w \<and> j \<noteq> k" for j
    using k by (auto simp: live_slot_def bit_mask_xor nat_eq_iff simp del: push_bit_of_1)
  have at: "team_at j ?w' = team_at j w" for j by (simp add: team_at_def)
  have m: "mirrored j t ?w'" if "live_slot j w \<and> j \<noteq> k" "mirrored j t w" for j t
    using that inv k d unfolding team_inv_def mirrored_def by simp metis
  have teams: "\<exists>t. team_at j w = Some t \<and> team_wf (tw_npes w) t \<and> tm_team_idx t = j \<and> mirrored j t ?w'"
    if l: "live_slot j w \<and> j \<noteq> k" for j
    using inv l m[OF l] unfolding team_inv_def by blast
  have inj: "i = j" if "live_slot i w \<and> i \<noteq> k" "live_slot j w \<and> j \<noteq> k"
    "tw_team_pools w i = tw_team_pools w j" for i j
    using that inv unfolding team_inv_def by blast
  show ?thesis
    unfolding w' team_inv_def live at
  proof (intro conjI)
    show "\<forall>j. live_slot j w \<and> j \<noteq> k \<longrightarrow> (\<exists>t. team_at j w = Some t \<and> team_wf (tw_npes ?w') t \<and> tm_team_idx t = j \<and>
        mirrored j t ?w')"
      using teams by simp
    show "\<forall>i j. (live_slot i w \<and> i \<noteq> k) \<and> (live_slot j w \<and> j \<noteq> k) \<and>
        tw_team_pools ?w' i = tw_team_pools ?w' j \<longrightarrow> i = j"
      using inj by auto
  qed (use inv in \<open>auto simp: team_inv_def\<close>)
qed


text \<open>Destroying a team that was entered but not handed out brings the old teams back.\<close>

lemma undo_slot:
  fixes w :: team_world
  assumes inv: "team_inv w" and k: "0 \<le> k" "k < 64" "\<not> live_slot k w"
    and d: "\<forall>q. tw_device w q \<noteq> None \<longrightarrow> d q = tw_device w q"
    and ptr: "pp = tw_team_pools w \<or> pp = (tw_team_pools w)(k := q0) \<and> tw_device w q0 = None"
    and pool: "tw_pool w = Some pool"
  shows "same_teams w (aclshmem_team_destroy env k (w\<lparr>tw_mask := tw_mask w OR push_bit (nat k) 1,
      tw_pool := Some (pool(k \<mapsto> t)), tw_device := d, tw_team_pools := pp, tw_calls := n\<rparr>))"
    (is "same_teams w (aclshmem_team_destroy env k ?w3)")
proof -
  have free: "\<not> bit (tw_mask w) (nat k)" using k by (simp add: live_slot_def)
  have init: "tw_initialized w" and null: "tw_team_pools w k = 0"
    using inv k by (simp_all add: team_inv_def)
  have "live_slot k ?w3" using k by (simp add: live_slot_def bit_mask_or nat_less_iff del: push_bit_of_1)
  moreover have "tw_initialized ?w3" "tw_pool ?w3 \<noteq> None" using init by simp_all
  ultimately obtain d' n' where w': "aclshmem_team_destroy env k ?w3 = ?w3\<lparr>tw_device := d',
       tw_team_pools := (tw_team_pools ?w3)(k := 0),
       tw_mask := tw_mask ?w3 XOR push_bit (nat k) 1, tw_calls := n'\<rparr>"
    and d': "\<forall>q. tw_team_pools ?w3 k = 0 \<or> q \<noteq> tw_team_pools ?w3 k \<longrightarrow> d' q = tw_device ?w3 q"
    by (rule destroy_slot)
  have mask: "(tw_mask w OR push_bit (nat k) 1) XOR push_bit (nat k) 1 = tw_mask w"
    by (rule mask_or_xor) (use k free in auto)
  have ptrs: "pp(k := 0) = tw_team_pools w" using ptr null by (auto simp: fun_upd_idem)
  have dev: "d' q = tw_device w q" if q: "tw_device w q \<noteq> None" for q
  proof -
    have "pp k = 0 \<or> q \<noteq> pp k" using ptr null q by auto
    then have "d' q = d q" using d' by auto
    then show ?thesis using d q by simp
  qed
  have at: "team_at j (aclshmem_team_destroy env k ?w3) = (if j = k then Some t else team_at j w)" for j
    unfolding w' using pool by (simp add: team_at_def)
  show ?thesis
    unfolding same_teams_def at
    using mask ptrs dev k(3) by (auto simp: w' simp del: push_bit_of_1)
qed

lemma enter_team_cases:
  assumes inv: "team_inv w" and ms: "machine_shift env" and fm: "fresh_malloc env"
  obtains (full) "enter_team env t w = Some (ACLSHMEM_INNER_ERROR, Some ACLSHMEM_TEAM_INVALID, w)"
      "\<forall>k<64. bit (tw_mask w) k"
  | (entered) k p n where
      "enter_team env t w = Some (0, Some k, entered k p (t\<lparr>tm_team_idx := k\<rparr>) n w)"
      "0 \<le> k" "k < 64" "\<not> live_slot k w" "p \<noteq> 0" "tw_device w p = None"
  | (undone) w' where
      "enter_team env t w = Some (ACLSHMEM_INNER_ERROR, Some ACLSHMEM_TEAM_INVALID, w')"
      "same_teams w w'"
  using ms
proof (cases rule: free_slot_cases[where m = "tw_mask w"])
  case none
  then show thesis using full by (simp add: enter_team_def first_free_idx_fetch_def)
next
  case (slot i)
  let ?k = "int i"
  let ?t = "t\<lparr>tm_team_idx := ?k\<rparr>"
  have k: "0 \<le> ?k" "?k < 64" "\<not> live_slot ?k w" using slot by (simp_all add: live_slot_def)
  obtain pool where pool: "tw_pool w = Some pool" using inv by (auto simp: team_inv_def)
  have known: "pool ?k \<noteq> None"
  proof -
    have "?k < ACLSHMEM_MAX_TEAMS" using k by (simp add: team_constants)
    then show ?thesis using inv pool by (auto simp: team_inv_def team_at_def)
  qed
  define w2 where "w2 = w\<lparr>tw_mask := tw_mask w OR push_bit i 1, tw_pool := Some (pool(?k \<mapsto> ?t))\<rparr>"
  have put: "put_team ?k ?t (w\<lparr>tw_mask := tw_mask w OR push_bit i 1\<rparr>) = Some w2"
    using pool known by (simp add: put_team_def w2_def)
  obtain ret w3 where upd: "device_team_update env ?k ?t w2 = (ret, w3)" by fastforce
  have run: "enter_team env t w =
      (if ret \<noteq> 0 then Some (ACLSHMEM_INNER_ERROR, Some ACLSHMEM_TEAM_INVALID, aclshmem_team_destroy env ?k w3)
       else if te_update env w3 \<noteq> 0
       then Some (ACLSHMEM_INNER_ERROR, Some ACLSHMEM_TEAM_INVALID, aclshmem_team_destroy env ?k (tick w3))
       else Some (0, Some ?k, tick w3))"
    using slot(1,2) put upd
    by (simp add: enter_team_def first_free_idx_fetch_def shift_one_def update_device_state_def
        del: push_bit_of_1)
  show thesis
    using fm upd
  proof (cases rule: device_team_update_cases)
    case (ok p n)
    have fresh: "tw_device w p = None" using ok(3) by (simp add: w2_def)
    have w3: "w3\<lparr>tw_calls := m\<rparr> = w\<lparr>tw_mask := tw_mask w OR push_bit (nat ?k) 1,
        tw_pool := Some (pool(?k \<mapsto> ?t)), tw_device := (tw_device w)(p \<mapsto> Team_block ?t),
        tw_team_pools := (tw_team_pools w)(?k := p), tw_calls := m\<rparr>" for m
      using ok(4) by (simp add: w2_def)
    show thesis
    proof (cases "te_update env w3 = 0")
      case True
      have "tick w3 = entered ?k p ?t (Suc (tw_calls w3)) w"
        using w3[of "Suc (tw_calls w3)"] pool by (simp add: tick_def entered_def)
      then show thesis using entered[of ?k] run True ok k fresh by simp
    next
      case False
      have "same_teams w (aclshmem_team_destroy env ?k (tick w3))"
        unfolding tick_def w3
        by (rule undo_slot[OF inv k _ _ pool, where ?q0.0 = p]) (use fresh in auto)
      then show thesis using undone run False ok by simp
    qed
  next
    case (bad d n)
    have w3: "w3 = w\<lparr>tw_mask := tw_mask w OR push_bit (nat ?k) 1, tw_pool := Some (pool(?k \<mapsto> ?t)),
        tw_device := d, tw_team_pools := tw_team_pools w, tw_calls := n\<rparr>"
      using bad(2) by (simp add: w2_def)
    have "same_teams w (aclshmem_team_destroy env ?k w3)"
      unfolding w3 by (rule undo_slot[OF inv k _ _ pool]) (use bad(3) in \<open>auto simp: w2_def\<close>)
    then show thesis using undone run bad(1) by simp
  qed
qed


section \<open>The mapping tables\<close>

lemma i32_id [simp]: "- 2147483648 \<le> x \<Longrightarrow> x < 2147483648 \<Longrightarrow> i32 x = x"
  by (simp add: i32_def signed_take_bit_int_eq_self)

lemma stride_bound:
  fixes i n stride :: int
  assumes "0 \<le> i" "i < n" "1 \<le> stride"
  shows "0 \<le> i * stride" "i * stride \<le> stride * (n - 1)"
proof -
  show "0 \<le> i * stride" using assms by simp
  have "i * stride \<le> (n - 1) * stride" using assms by (intro mult_right_mono) auto
  then show "i * stride \<le> stride * (n - 1)" by (simp add: mult.commute)
qed

definition table_ok :: "int \<Rightarrow> int \<Rightarrow> int \<Rightarrow> (int \<Rightarrow> int) \<Rightarrow> bool" where
  "table_ok start stride n tbl \<longleftrightarrow> (\<forall>i. 0 \<le> i \<and> i < n \<longrightarrow>
     tbl i = start + i * stride \<and> tbl (start + i * stride + ACLSHMEM_MAX_PES) = i)"

lemma split_mapping_some:
  assumes "0 \<le> start" "1 \<le> stride" "start + stride * (n - 1) < ACLSHMEM_MAX_PES" "n \<le> ACLSHMEM_MAX_PES"
    and "0 \<le> i" "i \<le> n"
    and "\<forall>j. 0 \<le> j \<and> j < i \<longrightarrow> tbl j = start + j * stride \<and> tbl (start + j * stride + ACLSHMEM_MAX_PES) = j"
  shows "\<exists>tbl'. split_mapping start stride n i tbl = Some tbl' \<and> table_ok start stride n tbl'"
  using assms
proof (induction start stride n i tbl rule: split_mapping.induct)
  case (1 start stride n i tbl)
  show ?case
  proof (cases "i < n")
    case False
    then have "i = n" using "1.prems" by simp
    then show ?thesis using "1.prems" by (subst split_mapping.simps) (simp add: table_ok_def)
  next
    case True
    have i: "0 \<le> i * stride" "i * stride \<le> stride * (n - 1)"
      using stride_bound[of i n stride] True "1.prems" by auto
    define g where "g = start + i * stride"
    have g01: "0 \<le> g" "g < ACLSHMEM_MAX_PES" using i "1.prems"(1,3) by (simp_all add: g_def)
    have "i32 (i * stride) = i * stride"
      using i g01 "1.prems"(1) by (intro i32_id) (simp_all add: g_def team_constants)
    then have g: "0 \<le> g" "g < ACLSHMEM_MAX_PES" "i32 (start + i32 (i * stride)) = g"
      using g01 by (simp_all add: g_def team_constants)
    let ?t1 = "tbl(i := g)" and ?t2 = "tbl(i := g, g + ACLSHMEM_MAX_PES := i)"
    have p1: "put_mapping i g tbl = Some ?t1" and p2: "put_mapping (g + ACLSHMEM_MAX_PES) i ?t1 = Some ?t2"
      using "1.prems" True g by (auto simp: put_mapping_def team_constants)
    have step: "split_mapping start stride n i tbl = split_mapping start stride n (i + 1) ?t2"
      using True p1 p2 by (subst split_mapping.simps) (simp add: g(3))
    have new: "?t2 j = start + j * stride \<and> ?t2 (start + j * stride + ACLSHMEM_MAX_PES) = j"
      if j: "0 \<le> j \<and> j < i + 1" for j
    proof (cases "j = i")
      case True
      have "g + ACLSHMEM_MAX_PES \<noteq> i" using g(1) "1.prems"(4) \<open>i < n\<close> by linarith
      then show ?thesis using True by (auto simp: g_def)
    next
      case False
      then have lt: "j < i" using j by simp
      have jb: "0 \<le> j * stride" using j "1.prems"(2) by simp
      have "j * stride < i * stride" using lt "1.prems"(2) by simp
      then have "start + j * stride \<noteq> g" unfolding g_def by linarith
      moreover have "start + j * stride + ACLSHMEM_MAX_PES \<noteq> i" "j \<noteq> g + ACLSHMEM_MAX_PES"
        using jb g "1.prems" \<open>i < n\<close> lt by linarith+
      ultimately show ?thesis using "1.prems"(7) lt j by auto
    qed
    show ?thesis unfolding step
      by (rule "1.IH"[OF True g(3)[symmetric] p1 p2])
        (use "1.prems" True new in auto)
  qed
qed

lemmas split_mapping_table = split_mapping_some[where i = 0, simplified]


section \<open>What a split does\<close>

text \<open>The numbers of a strided subset, and the position of a number in it.\<close>

definition in_stride :: "int \<Rightarrow> int \<Rightarrow> int \<Rightarrow> int \<Rightarrow> bool" where
  "in_stride start stride n g \<longleftrightarrow> start \<le> g \<and> stride dvd (g - start) \<and> (g - start) div stride < n"

lemma in_stride_iff:
  assumes "1 \<le> stride"
  shows "in_stride start stride n g \<longleftrightarrow> (\<exists>j. 0 \<le> j \<and> j < n \<and> g = start + j * stride)"
proof
  assume "in_stride start stride n g"
  then show "\<exists>j. 0 \<le> j \<and> j < n \<and> g = start + j * stride"
    using assms by (intro exI[of _ "(g - start) div stride"])
      (auto simp: in_stride_def pos_imp_zdiv_nonneg_iff)
next
  assume "\<exists>j. 0 \<le> j \<and> j < n \<and> g = start + j * stride"
  then show "in_stride start stride n g" using assms by (auto simp: in_stride_def)
qed

text \<open>A split of one existing team with arguments that name a part of it and a stride that fits an \<open>int\<close>.\<close>

definition split_args :: "aclshmemx_team_t \<Rightarrow> int \<Rightarrow> int \<Rightarrow> int \<Rightarrow> bool" where
  "split_args src pe_start pe_stride pe_size \<longleftrightarrow>
     0 \<le> pe_start \<and> pe_start < tm_size src \<and> 1 \<le> pe_size \<and> pe_size \<le> tm_size src \<and>
     1 \<le> pe_stride \<and> pe_stride < ACLSHMEM_MAX_PES"

definition stride_fits :: "aclshmemx_team_t \<Rightarrow> int \<Rightarrow> bool" where
  "stride_fits src pe_stride \<longleftrightarrow> tm_stride src * pe_stride < 2147483648"

lemma live_valid: "team_inv w \<Longrightarrow> live_slot k w \<Longrightarrow> is_valid_team env k w"
  by (auto simp: team_inv_def live_slot_def valid_slot)

lemma live_wf:
  assumes "team_inv w" "live_slot k w" "team_at k w = Some t"
  shows "team_wf (tw_npes w) t" "tm_team_idx t = k" "mirrored k t w"
  using assms unfolding team_inv_def by auto

lemma live_team:
  assumes "team_inv w" "live_slot k w"
  obtains t where "team_at k w = Some t" "team_wf (tw_npes w) t" "tm_team_idx t = k" "mirrored k t w"
  using assms unfolding team_inv_def by blast

lemma split_rejects:
  assumes inv: "team_inv w" and live: "live_slot parent w" and src: "team_at parent w = Some src"
    and bad: "\<not> split_args src pe_start pe_stride pe_size"
  shows "aclshmem_team_split_strided env parent pe_start pe_stride pe_size (Some h) w =
    Some (ACLSHMEM_INVALID_PARAM, Some ACLSHMEM_TEAM_INVALID, w)"
proof -
  have v: "is_valid_team env parent w" and inst: "tw_instance w = 0"
    using live_valid[OF inv live] inv by (simp_all add: team_inv_def)
  let ?far = "pe_start \<ge> ACLSHMEM_MAX_PES \<or> pe_stride \<ge> ACLSHMEM_MAX_PES \<or> pe_size > ACLSHMEM_MAX_PES"
  have pre: "aclshmem_team_split_strided_precheck env parent pe_start pe_stride pe_size (Some h) w =
      (if ?far then ACLSHMEM_INVALID_PARAM else ACLSHMEM_SUCCESS, Some ACLSHMEM_TEAM_INVALID)"
    using v by (simp add: aclshmem_team_split_strided_precheck_def)
  have outside: "pe_start < 0 \<or> pe_start \<ge> tm_size src \<or> pe_size \<le> 0 \<or> pe_size > tm_size src \<or> pe_stride < 1"
    if "\<not> ?far"
    using bad that by (auto simp: split_args_def)
  show ?thesis
  proof (cases ?far)
    case True
    then show ?thesis by (simp only: aclshmem_team_split_strided_def inst pre) (simp add: team_codes)
  next
    case False
    then show ?thesis using outside
      by (simp only: aclshmem_team_split_strided_def inst pre src) (simp add: team_codes)
  qed
qed

lemma split_end_bound:
  fixes stride st n sz npes :: int
  assumes "0 \<le> start" "1 \<le> stride" "start + stride * (sz - 1) < npes" "npes \<le> 16384"
    and "1 \<le> n" "n \<le> sz" "1 \<le> st" "st < 16384"
  shows "0 \<le> stride * st * (n - 1)" "stride * st * (n - 1) < 268435456"
proof -
  have pos: "0 \<le> stride * (n - 1)" using assms by simp
  have "stride * (n - 1) \<le> stride * (sz - 1)" using assms by simp
  then have small: "stride * (n - 1) < 16384" using assms by linarith
  have eq: "stride * st * (n - 1) = stride * (n - 1) * st" by (simp add: ac_simps)
  show "0 \<le> stride * st * (n - 1)" using pos assms by (simp add: eq)
  have "stride * (n - 1) * st \<le> 16384 * st" using small assms by (intro mult_right_mono) auto
  also have "\<dots> < 268435456" using assms by simp
  finally show "stride * st * (n - 1) < 268435456" by (simp add: eq)
qed


lemma split_strided_run:
  assumes inv: "team_inv w" and live: "live_slot parent w" and src: "team_at parent w = Some src"
    and args: "split_args src pe_start pe_stride pe_size" and fits: "stride_fits src pe_stride"
    and start: "start = tm_start src + pe_start * tm_stride src" and stride: "stride = tm_stride src * pe_stride"
  shows "\<exists>t. tm_start t = start \<and> tm_stride t = stride \<and> tm_size t = pe_size \<and>
      tm_mype t = (tm_mype src - start) div stride \<and>
      (start + stride * (pe_size - 1) < tw_npes w \<longrightarrow> table_ok start stride pe_size (tm_pe_mapping t)) \<and>
      aclshmem_team_split_strided env parent pe_start pe_stride pe_size (Some h) w =
        (if start \<ge> tw_npes w \<or> start + stride * (pe_size - 1) \<ge> tw_npes w
         then Some (ACLSHMEM_INVALID_PARAM, Some ACLSHMEM_TEAM_INVALID, w)
         else if \<not> in_stride start stride pe_size (tm_mype src)
         then Some (ACLSHMEM_SUCCESS, Some ACLSHMEM_TEAM_INVALID, w)
         else enter_team env t w)"
proof -
  have v: "is_valid_team env parent w" and wf: "team_wf (tw_npes w) src"
    by (rule live_valid[OF inv live], rule live_wf[OF inv live src])
  have npes: "tw_npes w \<le> 16384" and inst: "tw_instance w = 0"
    using inv by (simp_all add: team_inv_def team_constants)
  have pre: "aclshmem_team_split_strided_precheck env parent pe_start pe_stride pe_size (Some h) w =
      (ACLSHMEM_SUCCESS, Some ACLSHMEM_TEAM_INVALID)"
    using v args wf
    by (auto simp: aclshmem_team_split_strided_precheck_def split_args_def team_wf_def)
  have map: "mapping_at src pe_start = Some start"
    using args wf by (auto simp: mapping_at_def split_args_def team_wf_def start team_constants)
  have stride_pos: "1 \<le> stride" "stride < 2147483648"
    using wf args fits by (auto simp: stride team_wf_def split_args_def stride_fits_def
        intro: order_trans[OF _ mult_mono[of 1 _ 1]])
  have wfs: "0 \<le> tm_start src" "1 \<le> tm_stride src" "tm_start src + tm_stride src * (tm_size src - 1) < tw_npes w"
    and as: "0 \<le> pe_start" "pe_start < tm_size src"
    using wf args by (simp_all add: team_wf_def split_args_def)
  have start_bound: "0 \<le> start" "start < 16384"
    using stride_bound[OF as wfs(2)] wfs npes unfolding start by linarith+
  have len: "0 \<le> stride * (pe_size - 1)" "stride * (pe_size - 1) < 268435456"
    using split_end_bound[of "tm_start src" "tm_stride src" "tm_size src" "tw_npes w" pe_size pe_stride]
      wf args npes by (auto simp: team_wf_def split_args_def stride team_constants)
  have i32s: "i32 (tm_stride src * pe_stride) = stride" "i32 (stride * (pe_size - 1)) = stride * (pe_size - 1)"
    "i32 (start + stride * (pe_size - 1)) = start + stride * (pe_size - 1)"
    "i32 (tm_mype src - start) = tm_mype src - start"
    using stride_pos len start_bound wf by (auto simp: stride[symmetric] team_wf_def team_constants)
  let ?g = "tm_mype src"
  have divs: "(?g - start) smod stride = (?g - start) mod stride \<and> (?g - start) sdiv stride = (?g - start) div stride"
    if "\<not> ?g < start"
    using stride_pos that
    by (simp add: signed_divide_int_def signed_modulo_int_def sgn_if minus_mult_div_eq_mod[symmetric] mult.commute)
  have member: "(?g < start \<or> (?g - start) smod stride \<noteq> 0 \<or> (?g - start) sdiv stride \<ge> pe_size) \<longleftrightarrow>
      \<not> in_stride start stride pe_size ?g"
    using divs by (cases "?g < start") (auto simp: in_stride_def dvd_eq_mod_eq_0)
  let ?fit = "start + stride * (pe_size - 1) < tw_npes w" and ?stk = "te_stack_team env w"
  have small: "pe_size \<le> ACLSHMEM_MAX_PES" using args wf by (auto simp: split_args_def team_wf_def)
  have "\<exists>tbl. ?fit \<longrightarrow> split_mapping start stride pe_size 0 (tm_pe_mapping ?stk) = Some tbl \<and>
      table_ok start stride pe_size tbl"
    using split_mapping_table[of start stride pe_size "tm_pe_mapping ?stk"] start_bound(1) stride_pos(1) small args npes
    by (auto simp: split_args_def team_constants)
  then obtain tbl where tbl: "?fit \<Longrightarrow> split_mapping start stride pe_size 0 (tm_pe_mapping ?stk) = Some tbl"
    "?fit \<Longrightarrow> table_ok start stride pe_size tbl" by blast
  define t where "t = ?stk\<lparr>tm_mype := (?g - start) div stride, tm_start := start, tm_stride := stride,
      tm_size := pe_size, tm_pe_mapping := tbl\<rparr>"
  have inside: "\<not> (pe_start < 0 \<or> pe_start \<ge> tm_size src \<or> pe_size \<le> 0 \<or> pe_size > tm_size src \<or> pe_stride < 1)"
    using args by (simp add: split_args_def)
  have run: "aclshmem_team_split_strided env parent pe_start pe_stride pe_size (Some h) w =
      (if start \<ge> tw_npes w \<or> start + stride * (pe_size - 1) \<ge> tw_npes w
       then Some (ACLSHMEM_INVALID_PARAM, Some ACLSHMEM_TEAM_INVALID, w)
       else if \<not> in_stride start stride pe_size ?g
       then Some (ACLSHMEM_SUCCESS, Some ACLSHMEM_TEAM_INVALID, w)
       else do { tbl \<leftarrow> split_mapping start stride pe_size 0 (tm_pe_mapping ?stk);
         enter_team env (?stk\<lparr>tm_mype := (?g - start) sdiv stride, tm_start := start,
                tm_stride := stride, tm_size := pe_size, tm_pe_mapping := tbl\<rparr>) w })"
    using inside stride_pos(1)
    by (simp only: aclshmem_team_split_strided_def inst pre src Let_def member[symmetric]) (simp add: map i32s)
  have "aclshmem_team_split_strided env parent pe_start pe_stride pe_size (Some h) w =
      (if start \<ge> tw_npes w \<or> start + stride * (pe_size - 1) \<ge> tw_npes w
       then Some (ACLSHMEM_INVALID_PARAM, Some ACLSHMEM_TEAM_INVALID, w)
       else if \<not> in_stride start stride pe_size ?g
       then Some (ACLSHMEM_SUCCESS, Some ACLSHMEM_TEAM_INVALID, w)
       else enter_team env t w)"
    unfolding run using tbl(1) divs by (auto simp: t_def in_stride_def)
  then show ?thesis
    using tbl(2) by (intro exI[of _ t]) (simp add: t_def)
qed

lemma table_wf:
  assumes "table_ok (tm_start t) (tm_stride t) (tm_size t) (tm_pe_mapping t)"
    and "0 \<le> tm_start t" "1 \<le> tm_stride t" "tm_start t + tm_stride t * (tm_size t - 1) < npes"
    and "0 \<le> tm_mype t" "tm_mype t < tm_size t" "tm_size t \<le> ACLSHMEM_MAX_PES"
  shows "team_wf npes t"
  using assms by (simp add: team_wf_def table_ok_def)

text \<open>
  The outcomes of a split on a running library: the caller's numbers are rejected, this element is not part
  of the new team, the team was entered, or the pool or the device refused it.
\<close>

lemma split_strided_cases:
  assumes inv: "team_inv w" and ms: "machine_shift env" and fm: "fresh_malloc env"
    and live: "live_slot parent w" and src: "team_at parent w = Some src" and fits: "stride_fits src pe_stride"
    and start: "start = tm_start src + pe_start * tm_stride src" and stride: "stride = tm_stride src * pe_stride"
  obtains
    (rejected) "aclshmem_team_split_strided env parent pe_start pe_stride pe_size (Some h) w =
        Some (ACLSHMEM_INVALID_PARAM, Some ACLSHMEM_TEAM_INVALID, w)"
      "\<not> split_args src pe_start pe_stride pe_size \<or> start + stride * (pe_size - 1) \<ge> tw_npes w"
  | (outside) "aclshmem_team_split_strided env parent pe_start pe_stride pe_size (Some h) w =
        Some (ACLSHMEM_SUCCESS, Some ACLSHMEM_TEAM_INVALID, w)"
      "\<not> in_stride start stride pe_size (tm_mype src)"
  | (created) k p n t where "aclshmem_team_split_strided env parent pe_start pe_stride pe_size (Some h) w =
        Some (ACLSHMEM_SUCCESS, Some k, entered k p t n w)"
      "0 \<le> k" "k < 64" "\<not> live_slot k w" "p \<noteq> 0" "tw_device w p = None"
      "in_stride start stride pe_size (tm_mype src)"
      "tm_start t = start" "tm_stride t = stride" "tm_size t = pe_size" "tm_team_idx t = k"
      "tm_mype t = (tm_mype src - start) div stride" "team_wf (tw_npes w) t"
  | (refused) w' where "aclshmem_team_split_strided env parent pe_start pe_stride pe_size (Some h) w =
        Some (ACLSHMEM_INNER_ERROR, Some ACLSHMEM_TEAM_INVALID, w')"
      "same_teams w w'" "in_stride start stride pe_size (tm_mype src)"
proof (cases "split_args src pe_start pe_stride pe_size")
  case False
  then show thesis using rejected split_rejects[OF inv live src] by blast
next
  case args: True
  let ?split = "aclshmem_team_split_strided env parent pe_start pe_stride pe_size (Some h) w"
  obtain t where t: "tm_start t = start" "tm_stride t = stride" "tm_size t = pe_size"
      "tm_mype t = (tm_mype src - start) div stride"
      "start + stride * (pe_size - 1) < tw_npes w \<Longrightarrow> table_ok start stride pe_size (tm_pe_mapping t)"
    and run: "?split =
        (if start \<ge> tw_npes w \<or> start + stride * (pe_size - 1) \<ge> tw_npes w
         then Some (ACLSHMEM_INVALID_PARAM, Some ACLSHMEM_TEAM_INVALID, w)
         else if \<not> in_stride start stride pe_size (tm_mype src)
         then Some (ACLSHMEM_SUCCESS, Some ACLSHMEM_TEAM_INVALID, w)
         else enter_team env t w)"
    using split_strided_run[OF inv live src args fits start stride] by blast
  have wf: "team_wf (tw_npes w) src" by (rule live_wf[OF inv live src])
  have pos: "0 \<le> start" "1 \<le> stride" "1 \<le> pe_size" "pe_size \<le> ACLSHMEM_MAX_PES"
    using wf args by (auto simp: team_wf_def split_args_def start stride intro: order_trans[OF _ mult_mono[of 1 _ 1]])
  have len: "0 \<le> stride * (pe_size - 1)" using pos by simp
  show thesis
  proof (cases "start + stride * (pe_size - 1) < tw_npes w")
    case False
    then show thesis using rejected run by auto
  next
    case fit: True
    then have lt: "start < tw_npes w" using len by linarith
    show thesis
    proof (cases "in_stride start stride pe_size (tm_mype src)")
      case False
      then show thesis using outside run fit lt by auto
    next
      case member: True
      have enter: "?split = enter_team env t w" using run fit lt member by auto
      have "0 \<le> tm_mype t" "tm_mype t < pe_size"
        using member pos t(4) by (auto simp: in_stride_def pos_imp_zdiv_nonneg_iff)
      then have "team_wf (tw_npes w) (t\<lparr>tm_team_idx := k\<rparr>)" for k
        using t(5)[OF fit] pos fit by (intro table_wf) (simp_all add: t(1-3))
      note new = this
      show thesis
        using inv ms fm
      proof (cases rule: enter_team_cases[where t = t])
        case full
        have "same_teams w w" using inv by (intro same_teams_refl) (simp add: team_inv_def)
        then show thesis using refused[of w] full(1) enter member by simp
      next
        case (entered k p n)
        then show thesis using created[of k p "t\<lparr>tm_team_idx := k\<rparr>" n] enter member t(1-4) new[of k]
          by (simp add: team_codes)
      next
        case (undone w')
        then show thesis using refused[of w'] enter member by simp
      qed
    qed
  qed
qed


section \<open>Runs of the module\<close>

lemma dead_slot_invalid:
  assumes "team_inv w" "k < 64" "\<not> live_slot k w"
  shows "\<not> is_valid_team env k w"
  using assms by (auto simp: valid_slot live_slot_def)

lemma entered_same:
  assumes "\<not> live_slot k w" "tw_pool w \<noteq> None" "live_slot j w"
  shows "team_at j (entered k p t n w) = team_at j w"
  using assms by (auto simp: entered_team_at)

text \<open>The calls a client can make with a handle that the module handed out.\<close>

inductive team_step :: "team_env \<Rightarrow> team_world \<Rightarrow> team_world \<Rightarrow> bool" for env where
  split_strided: "aclshmem_team_split_strided env parent pe_start pe_stride pe_size (Some h) w = Some (ret, out, w') \<Longrightarrow>
    live_slot parent w \<Longrightarrow> team_at parent w = Some src \<Longrightarrow> stride_fits src pe_stride \<Longrightarrow> team_step env w w'"
| destroy: "live_slot k w \<Longrightarrow> team_step env w (aclshmem_team_destroy env k w)"
| stale_destroy: "k < 64 \<Longrightarrow> \<not> live_slot k w \<Longrightarrow> team_step env w (aclshmem_team_destroy env k w)"

lemma split_strided_inv:
  assumes inv: "team_inv w" and ms: "machine_shift env" and fm: "fresh_malloc env"
    and live: "live_slot parent w" and src: "team_at parent w = Some src" and fits: "stride_fits src pe_stride"
    and run: "aclshmem_team_split_strided env parent pe_start pe_stride pe_size (Some h) w = Some (ret, out, w')"
  shows "team_inv w'"
  using inv ms fm live src fits refl refl
proof (cases rule: split_strided_cases[where pe_start = pe_start and pe_size = pe_size and h = h])
  case rejected
  then show ?thesis using run inv by simp
next
  case outside
  then show ?thesis using run inv by simp
next
  case (created k p n t)
  have "team_inv (entered k p t n w)"
    using created by (intro entered_inv[OF inv]) auto
  then show ?thesis using run created(1) by simp
next
  case (refused v)
  then show ?thesis using run same_teams_inv[OF refused(2) inv] by simp
qed

lemma team_step_inv:
  assumes "team_step env w w'" "team_inv w" "machine_shift env" "fresh_malloc env"
  shows "team_inv w'"
  using assms(1)
proof cases
  case split_strided
  show ?thesis by (rule split_strided_inv[OF assms(2-4) split_strided(2-4) split_strided(1)])
next
  case (destroy k)
  then show ?thesis using destroyed_inv[OF assms(2)] by simp
next
  case (stale_destroy k)
  then have "aclshmem_team_destroy env k w = w"
    using dead_slot_invalid[OF assms(2)] by (simp add: aclshmem_team_destroy_def)
  then show ?thesis using stale_destroy(1) assms(2) by simp
qed

lemma team_run_inv:
  assumes "(team_step env)\<^sup>*\<^sup>* w w'" "team_inv w" "machine_shift env" "fresh_malloc env"
  shows "team_inv w'"
  using assms by (induction rule: rtranclp_induct) (auto intro: team_step_inv)

section \<open>The set-up\<close>

lemma constant_stride_mapping_some:
  assumes "0 \<le> i" "i \<le> n" "n \<le> ACLSHMEM_MAX_PES" "\<forall>j. 0 \<le> j \<and> j < i \<longrightarrow> tbl j = j"
  shows "\<exists>tbl'. constant_stride_mapping 0 1 n i tbl = Some tbl' \<and> (\<forall>j. 0 \<le> j \<and> j < n \<longrightarrow> tbl' j = j)"
  using assms
proof (induction "0 :: int" "1 :: int" n i tbl rule: constant_stride_mapping.induct)
  case (1 n i tbl)
  show ?case
  proof (cases "i < n")
    case False
    then show ?thesis using "1.prems" by (subst constant_stride_mapping.simps) auto
  next
    case True
    have p: "put_mapping i (i32 (0 + i32 (i * 1))) tbl = Some (tbl(i := i))"
      using True "1.prems" by (simp add: put_mapping_def team_constants)
    show ?thesis
      using "1.hyps"[OF True p] "1.prems" True p
      by (subst constant_stride_mapping.simps) (auto simp: less_le)
  qed
qed

lemma world_mapping_some:
  assumes "0 \<le> i" "i \<le> n" "n \<le> ACLSHMEM_MAX_PES" "\<forall>j. 0 \<le> j \<and> j < n \<longrightarrow> tbl j = j"
    and "\<forall>j. 0 \<le> j \<and> j < i \<longrightarrow> tbl (j + ACLSHMEM_MAX_PES) = j"
  shows "\<exists>tbl'. world_mapping n i tbl = Some tbl' \<and> table_ok 0 1 n tbl'"
  using assms
proof (induction n i tbl rule: world_mapping.induct)
  case (1 n i tbl)
  show ?case
  proof (cases "i < n")
    case False
    then show ?thesis using "1.prems" by (subst world_mapping.simps) (auto simp: table_ok_def)
  next
    case True
    have i: "tbl i = i" using "1.prems"(1,4) True by simp
    have p: "put_mapping (tbl i + ACLSHMEM_MAX_PES) i tbl = Some (tbl(i + ACLSHMEM_MAX_PES := i))"
      using True "1.prems" unfolding i by (simp add: put_mapping_def team_constants)
    have "\<exists>tbl'. world_mapping n (i + 1) (tbl(i + ACLSHMEM_MAX_PES := i)) = Some tbl' \<and> table_ok 0 1 n tbl'"
      by (rule "1.IH"[OF True p]) (use "1.prems" True in \<open>auto simp: team_constants\<close>)
    then show ?thesis using True p by (subst world_mapping.simps) simp
  qed
qed

lemma populate_world:
  assumes "1 \<le> n" "n \<le> ACLSHMEM_MAX_PES"
  shows "\<exists>tbl. aclshmemi_team_populate_pe_mappings_from_constant_stride
      (unused_team\<lparr>tm_team_idx := i, tm_start := 0, tm_stride := 1, tm_size := n, tm_mype := g\<rparr>) =
      Some (unused_team\<lparr>tm_team_idx := i, tm_start := 0, tm_stride := 1, tm_size := n, tm_mype := g, tm_pe_mapping := tbl\<rparr>) \<and>
    table_ok 0 1 n tbl"
proof -
  obtain t1 where t1: "constant_stride_mapping 0 1 n 0 (tm_pe_mapping unused_team) = Some t1"
    "\<forall>j. 0 \<le> j \<and> j < n \<longrightarrow> t1 j = j"
    using constant_stride_mapping_some[of 0 n "tm_pe_mapping unused_team"] assms by auto
  obtain t2 where "world_mapping n 0 t1 = Some t2" "table_ok 0 1 n t2"
    using world_mapping_some[of 0 n t1] assms t1(2) by auto
  then show ?thesis
    using t1(1) by (intro exI[of _ t2]) (simp add: aclshmemi_team_populate_pe_mappings_from_constant_stride_def
        aclshmemi_team_populate_from_world_pe_mapping_def)
qed


text \<open>What the later steps of the set-up leave alone, when they succeed.\<close>

definition keeps_teams :: "team_world \<Rightarrow> team_world \<Rightarrow> bool" where
  "keeps_teams w w' \<longleftrightarrow>
     tw_initialized w' = tw_initialized w \<and> tw_npes w' = tw_npes w \<and> tw_mype w' = tw_mype w \<and>
     tw_instance w' = tw_instance w \<and> tw_mask w' = tw_mask w \<and> tw_team_pools w' = tw_team_pools w \<and>
     tw_pool w' = tw_pool w \<and> (\<forall>q. tw_device w q \<noteq> None \<longrightarrow> tw_device w' q = tw_device w q)"

lemma keeps_teams_trans: "keeps_teams u v \<Longrightarrow> keeps_teams v w \<Longrightarrow> keeps_teams u w"
  by (auto simp: keeps_teams_def)

lemma keeps_same: "keeps_teams w w' \<Longrightarrow> tw_pool w \<noteq> None \<Longrightarrow>
    same_teams (w\<lparr>tw_initialized := b\<rparr>) (w'\<lparr>tw_initialized := b\<rparr>)"
  by (auto simp: keeps_teams_def same_teams_def team_at_def)

lemma aclrtMalloc_keeps: "fresh_malloc env \<Longrightarrow> aclrtMalloc env sz w = (ret, p, w') \<Longrightarrow> keeps_teams w w'"
  by (auto simp: aclrtMalloc_def fresh_malloc_def keeps_teams_def tick_def split: prod.splits if_splits)

lemma abort_init_code: "fst (abort_init env w) \<noteq> 0"
  by (simp add: abort_init_def team_codes)

lemma memset_or_abort_ok: "memset_or_abort env w = (0, w') \<Longrightarrow> keeps_teams w w'"
  using abort_init_code[of env "tick w"]
  by (auto simp: memset_or_abort_def team_codes keeps_teams_def tick_def split: if_splits)

lemma abort_or_memset_ok:
  assumes "(if c then abort_init env w else memset_or_abort env w) = (0, w')" "keeps_teams u w"
  shows "keeps_teams u w'"
  using assms abort_init_code[of env w] memset_or_abort_ok[of env w w'] keeps_teams_trans
  by (auto split: if_splits)

lemma init_sync_ok:
  "aclshmemi_team_init_sync_pool env w = (0, w') \<Longrightarrow> keeps_teams w w'"
  "aclshmemi_team_init_sync_counter env w = (0, w') \<Longrightarrow> keeps_teams w w'"
  by (auto simp: aclshmemi_team_init_sync_pool_def aclshmemi_team_init_sync_counter_def Let_def split: prod.splits
      elim!: abort_or_memset_ok) (simp_all add: keeps_teams_def tick_def)

lemma core_sync_ok:
  assumes "fresh_malloc env" and f: "\<And>p v. keeps_teams v (f p v)"
    and run: "(let (ret, p, w1) = aclrtMalloc env sz w; w2 = (if ret = 0 then f p w1 else w1)
      in if ret \<noteq> 0 \<or> b w2 then abort_init env w2 else memset_or_abort env w2) = (0, w')"
  shows "keeps_teams w w'"
proof -
  obtain ret p w1 where m: "aclrtMalloc env sz w = (ret, p, w1)" by (metis prod_cases3)
  let ?w2 = "if ret = 0 then f p w1 else w1"
  have "keeps_teams w ?w2"
    using aclrtMalloc_keeps[OF assms(1) m] f[of w1 p] keeps_teams_trans by auto
  moreover have "(if ret \<noteq> 0 \<or> b ?w2 then abort_init env ?w2 else memset_or_abort env ?w2) = (0, w')"
    using run by (simp only: m prod.case Let_def)
  ultimately show ?thesis by (rule abort_or_memset_ok[rotated])
qed

lemma init_core_sync_ok:
  assumes "fresh_malloc env"
  shows "aclshmemi_team_init_core_sync_pool env w = (0, w') \<Longrightarrow> keeps_teams w w'"
    and "aclshmemi_team_init_core_sync_counter env w = (0, w') \<Longrightarrow> keeps_teams w w'"
proof -
  show "aclshmemi_team_init_core_sync_pool env w = (0, w') \<Longrightarrow> keeps_teams w w'"
    unfolding aclshmemi_team_init_core_sync_pool_def
    by (erule core_sync_ok[OF assms, rotated]) (simp add: keeps_teams_def)
  show "aclshmemi_team_init_core_sync_counter env w = (0, w') \<Longrightarrow> keeps_teams w w'"
    unfolding aclshmemi_team_init_core_sync_counter_def
    by (erule core_sync_ok[OF assms, rotated]) (simp add: keeps_teams_def)
qed

text \<open>The globals before the module is set up.\<close>

definition before_init :: "int \<Rightarrow> int \<Rightarrow> team_world \<Rightarrow> bool" where
  "before_init rank n w \<longleftrightarrow> tw_instance w = 0 \<and> tw_npes w = n \<and> tw_mype w = rank \<and> tw_mask w = 0 \<and>
     (\<forall>k. tw_team_pools w k = 0) \<and> 0 \<le> rank \<and> rank < n \<and> n \<le> ACLSHMEM_MAX_PES"

definition world_team :: "int \<Rightarrow> int \<Rightarrow> aclshmemx_team_t \<Rightarrow> bool" where
  "world_team rank n t \<longleftrightarrow> tm_mype t = rank \<and> tm_start t = 0 \<and> tm_stride t = 1 \<and> tm_size t = n"

lemma team_init_chain:
  assumes fm: "fresh_malloc env" and u: "device_team_update env k t w0 = (ret0, w1)"
    and run: "(let (ret, w1) = device_team_update env k t w0 in
        if ret \<noteq> 0 then Some (ret, snd (aclshmemi_team_finalize env w1))
        else let (ret, w2) = aclshmemi_team_init_sync_pool env w1 in
        if ret \<noteq> 0 then Some (ret, w2)
        else let (ret, w3) = aclshmemi_team_init_sync_counter env w2 in
        if ret \<noteq> 0 then Some (ret, w3)
        else let (ret, w4) = aclshmemi_team_init_core_sync_pool env w3 in
        if ret \<noteq> 0 then Some (ret, w4)
        else Some (aclshmemi_team_init_core_sync_counter env w4)) = Some (0, w')"
  shows "ret0 = 0 \<and> keeps_teams w1 w'"
proof -
  have zero: "ret0 = 0" using run u by (auto split: if_splits)
  obtain r2 w2 r3 w3 r4 w4 where s: "aclshmemi_team_init_sync_pool env w1 = (r2, w2)"
    "aclshmemi_team_init_sync_counter env w2 = (r3, w3)" "aclshmemi_team_init_core_sync_pool env w3 = (r4, w4)"
    by (metis surj_pair)
  have "r2 = 0" "r3 = 0" "r4 = 0" "aclshmemi_team_init_core_sync_counter env w4 = (0, w')"
    using run u zero s by (auto split: if_splits)
  then show ?thesis
    using zero s init_sync_ok init_core_sync_ok[OF fm] keeps_teams_trans by metis
qed

lemma team_init_ok:
  assumes fm: "fresh_malloc env" and b: "before_init rank n w"
    and run: "aclshmemi_team_init env rank n w = Some (0, w')"
  shows "team_inv (w'\<lparr>tw_initialized := True\<rparr>) \<and> live_slot 0 (w'\<lparr>tw_initialized := True\<rparr>) \<and>
    (\<exists>t. team_at 0 (w'\<lparr>tw_initialized := True\<rparr>) = Some t \<and> world_team rank n t) \<and> tw_npes w' = n"
proof -
  let ?on = "\<lambda>w. w\<lparr>tw_initialized := True\<rparr>"
  have n: "1 \<le> n" "n \<le> ACLSHMEM_MAX_PES" using b by (auto simp: before_init_def)
  obtain tbl where pop: "aclshmemi_team_populate_pe_mappings_from_constant_stride
      (unused_team\<lparr>tm_team_idx := 0, tm_start := 0, tm_stride := 1, tm_size := n, tm_mype := rank\<rparr>) =
      Some (unused_team\<lparr>tm_team_idx := 0, tm_start := 0, tm_stride := 1, tm_size := n, tm_mype := rank, tm_pe_mapping := tbl\<rparr>)"
    and tbl: "table_ok 0 1 n tbl"
    using populate_world[OF n] by blast
  define t where "t = unused_team\<lparr>tm_team_idx := 0, tm_start := 0, tm_stride := 1, tm_size := n, tm_mype := rank, tm_pe_mapping := tbl\<rparr>"
  define w0 where "w0 = w\<lparr>tw_pool := Some ((new_pool 2048)(0 \<mapsto> t)), tw_mask := 1\<rparr>"
  have w0: "w\<lparr>tw_pool := Some ((new_pool (team_size w))(ACLSHMEM_TEAM_WORLD \<mapsto> t)),
      tw_mask := tw_mask w OR shift_one env ACLSHMEM_TEAM_WORLD\<rparr> = w0"
    using b by (simp add: w0_def before_init_def team_size_def team_constants shift_one_def)
  obtain ret w1 where u: "device_team_update env 0 t w0 = (ret, w1)" by fastforce
  have chain: "ret = 0 \<and> keeps_teams w1 w'"
  proof (rule team_init_chain[OF fm u])
    have c: "te_calloc env w" using run by (auto simp: aclshmemi_team_init_def team_codes split: if_splits)
    have z: "ACLSHMEM_TEAM_WORLD = 0" by (simp add: team_constants)
    show "(let (ret, w1) = device_team_update env 0 t w0 in
        if ret \<noteq> 0 then Some (ret, snd (aclshmemi_team_finalize env w1))
        else let (ret, w2) = aclshmemi_team_init_sync_pool env w1 in
        if ret \<noteq> 0 then Some (ret, w2)
        else let (ret, w3) = aclshmemi_team_init_sync_counter env w2 in
        if ret \<noteq> 0 then Some (ret, w3)
        else let (ret, w4) = aclshmemi_team_init_core_sync_pool env w3 in
        if ret \<noteq> 0 then Some (ret, w4)
        else Some (aclshmemi_team_init_core_sync_counter env w4)) = Some (0, w')"
      using run unfolding aclshmemi_team_init_def Let_def z pop w0[unfolded z, symmetric] t_def[symmetric]
      by (simp only: c not_True_eq_False if_False bind.bind_lunit pop[unfolded t_def[symmetric]])
  qed
  obtain p n' where p: "p \<noteq> 0" and w1: "w1 = w0\<lparr>tw_device := (tw_device w0)(p \<mapsto> Team_block t),
      tw_team_pools := (tw_team_pools w0)(0 := p), tw_calls := n'\<rparr>"
    using fm u chain by (cases rule: device_team_update_cases) auto
  have live: "live_slot k (?on w1) \<longleftrightarrow> k = 0" for k
    by (auto simp: live_slot_def w1 w0_def bit_1_iff)
  have at: "team_at k (?on w1) = ((new_pool 2048)(0 \<mapsto> t)) k" for k
    by (simp add: team_at_def w1 w0_def)
  have wf: "team_wf n t"
    using b tbl by (intro table_wf) (auto simp: t_def before_init_def team_constants)
  have m: "mirrored 0 t (?on w1)" using p by (simp add: mirrored_def w1)
  have inv: "team_inv (?on w1) \<and> live_slot 0 (?on w1) \<and> team_at 0 (?on w1) = Some t \<and> tw_pool w1 \<noteq> None"
    using b m wf n unfolding team_inv_def live at
    by (auto simp: w1 w0_def before_init_def new_pool_def team_constants t_def)
  have same: "same_teams (?on w1) (?on w')"
    using chain inv by (intro keeps_same) simp_all
  show ?thesis
    using same_teams_inv[OF same] inv same same_teams_live[OF same] b
    by (auto simp: same_teams_def world_team_def t_def w1 w0_def before_init_def)
qed


lemma team_step_npes:
  assumes "team_step env w w'" "team_inv w" "machine_shift env" "fresh_malloc env"
  shows "tw_npes w' = tw_npes w"
  using assms(1)
proof cases
  case (split_strided parent pe_start pe_stride pe_size h ret out src)
  from assms(2-4) split_strided(2-4) refl refl show ?thesis
  proof (cases rule: split_strided_cases[where pe_start = pe_start and pe_size = pe_size and h = h])
    case (created k p n t)
    then show ?thesis using split_strided(1) by (simp add: entered_def)
  next
    case (refused v)
    then show ?thesis using split_strided(1) by (simp add: same_teams_def)
  qed (use split_strided(1) in simp_all)
qed (auto simp: aclshmem_team_destroy_def device_team_destroy_def aclrtFree_def update_device_state_def
    tick_def Let_def)

lemma team_run_npes:
  assumes "(team_step env)\<^sup>*\<^sup>* w w'" "team_inv w" "machine_shift env" "fresh_malloc env"
  shows "tw_npes w' = tw_npes w"
  using assms
  by (induction rule: rtranclp_induct) (auto dest: team_run_inv team_step_npes)

lemma translate_shared:
  assumes inv: "team_inv w" and a: "live_slot a w" "team_at a w = Some s" and b: "live_slot b w" "team_at b w = Some d"
    and i: "0 \<le> i" "i < tm_size s" and j: "0 \<le> j" "j < tm_size d"
    and same: "tm_start s + i * tm_stride s = tm_start d + j * tm_stride d"
  shows "aclshmem_team_translate_pe env a i b w = Some j"
proof -
  note s = live_wf(1)[OF inv a] and d = live_wf(1)[OF inv b]
  have v: "is_valid_team env a w" "is_valid_team env b w" using inv a b live_valid by blast+
  have inst: "tw_instance w = 0" and n: "tw_npes w \<le> 16384" using inv by (simp_all add: team_inv_def team_constants)
  have g: "tm_pe_mapping s i = tm_start s + i * tm_stride s" using s i by (simp add: team_wf_def)
  have gj: "tm_pe_mapping d (tm_start d + j * tm_stride d + ACLSHMEM_MAX_PES) = j"
    using d j by (simp add: team_wf_def)
  have wfs: "1 \<le> tm_stride s" "0 \<le> tm_start s" "tm_start s + tm_stride s * (tm_size s - 1) < tw_npes w"
    "tm_size s \<le> 16384" using s by (simp_all add: team_wf_def team_constants)
  have bound: "0 \<le> tm_start s + i * tm_stride s" "tm_start s + i * tm_stride s < 16384"
    using stride_bound[OF i wfs(1)] wfs n by linarith+
  have m1: "mapping_at s i = Some (tm_start s + i * tm_stride s)"
    using i wfs g by (simp add: mapping_at_def team_constants)
  have m2: "mapping_at d (tm_start s + i * tm_stride s + ACLSHMEM_MAX_PES) = Some j"
    using bound gj same by (simp add: mapping_at_def team_constants)
  show ?thesis using v inst a(2) b(2) i m1 m2 by (simp add: aclshmem_team_translate_pe_def)
qed

section \<open>Rows and columns\<close>














text \<open>The handle \<open>h\<close> names a team with these numbers.\<close>

definition placed :: "team_world \<Rightarrow> int \<Rightarrow> int \<Rightarrow> int \<Rightarrow> int \<Rightarrow> int \<Rightarrow> bool" where
  "placed w h start stride n pos \<longleftrightarrow> live_slot h w \<and>
     (\<exists>t. team_at h w = Some t \<and> tm_start t = start \<and> tm_stride t = stride \<and> tm_size t = n \<and> tm_mype t = pos)"

text \<open>\<open>w'\<close> keeps every team of \<open>w\<close>.\<close>

definition teams_kept :: "team_world \<Rightarrow> team_world \<Rightarrow> bool" where
  "teams_kept w w' \<longleftrightarrow> team_inv w' \<and> tw_npes w' = tw_npes w \<and>
     (\<forall>k. live_slot k w \<longrightarrow> live_slot k w' \<and> team_at k w' = team_at k w)"


text \<open>A split with good arguments in which this element has a place either creates the team or is refused.\<close>

lemma split_member:
  assumes inv: "team_inv w" and ms: "machine_shift env" and fm: "fresh_malloc env"
    and live: "live_slot parent w" and src: "team_at parent w = Some src" and fits: "stride_fits src pe_stride"
    and args: "split_args src pe_start pe_stride pe_size"
    and start: "start = tm_start src + pe_start * tm_stride src" and stride: "stride = tm_stride src * pe_stride"
    and fit: "start + stride * (pe_size - 1) < tw_npes w"
    and member: "in_stride start stride pe_size (tm_mype src)"
  shows "\<exists>ret h w'. aclshmem_team_split_strided env parent pe_start pe_stride pe_size (Some h0) w = Some (ret, Some h, w') \<and>
    teams_kept w w' \<and>
    (ret = ACLSHMEM_SUCCESS \<and> \<not> live_slot h w \<and> placed w' h start stride pe_size ((tm_mype src - start) div stride) \<or>
     ret = ACLSHMEM_INNER_ERROR \<and> h = ACLSHMEM_TEAM_INVALID \<and> same_teams w w')"
  using inv ms fm live src fits start stride
proof (cases rule: split_strided_cases[where pe_size = pe_size and h = h0])
  case rejected
  then show ?thesis using args fit by auto
next
  case outside
  then show ?thesis using member by simp
next
  case (created k p n t)
  have pool: "tw_pool w \<noteq> None" using inv by (simp add: team_inv_def)
  have "team_inv (entered k p t n w)" using created by (intro entered_inv[OF inv]) auto
  then have "teams_kept w (entered k p t n w)"
    using entered_live[OF created(2,3)] entered_same[OF created(4) pool]
    by (auto simp: teams_kept_def entered_def)
  moreover have "placed (entered k p t n w) k start stride pe_size ((tm_mype src - start) div stride)"
    using created entered_live[OF created(2,3)] by (simp add: placed_def entered_team_at[OF pool])
  ultimately show ?thesis using created(1,4) by blast
next
  case (refused w')
  then have "teams_kept w w'"
    using same_teams_inv[OF refused(2) inv] same_teams_live[OF refused(2)]
    by (auto simp: teams_kept_def same_teams_def)
  then show ?thesis using refused by blast
qed





section \<open>An example run\<close>

definition ex_heap :: heap_world where
  "ex_heap = \<lparr>hw_device = Some (new_memory_manager 4096 8388608), hw_host = None, hw_heap_base = 4096,
     hw_host_heap_base = 0, hw_heap_size = 8388608\<rparr>"

definition ex_heap_env :: heap_env where
  "ex_heap_env = \<lparr>he_barrier = 0, he_memset = 0, he_setup_heap = (\<lambda>w. (0, w)), he_update_device_state = (\<lambda>_. 0),
     he_fabric_handle = True\<rparr>"

definition ex_env :: team_env where
  "ex_env = \<lparr>te_shift_right = (\<lambda>m k. drop_bit (nat k mod 64) m), te_shift_one = (\<lambda>k. push_bit (nat k mod 64) 1),
     te_calloc = (\<lambda>_. True),
     te_malloc = (\<lambda>w. let p = word_of_nat (Suc (tw_calls w)) in if p \<noteq> 0 \<and> tw_device w p = None then (0, p) else (1, 0)),
     te_memcpy = (\<lambda>_. 0), te_memset = (\<lambda>_. 0), te_free = (\<lambda>_. 0), te_update = (\<lambda>_. 0),
     te_heap = (\<lambda>_. ex_heap_env), te_stack_team = (\<lambda>_. unused_team), te_stack_handle = (\<lambda>_. 7)\<rparr>"

definition ex_before :: "int \<Rightarrow> int \<Rightarrow> team_world" where
  "ex_before rank n = \<lparr>tw_initialized = False, tw_mype = rank, tw_npes = n, tw_instance = 0, tw_mask = 0,
     tw_pool = None, tw_team_pools = (\<lambda>_. 0), tw_sync_pool = 0, tw_sync_counter = 0, tw_core_sync_pool = 0,
     tw_core_sync_counter = 0, tw_heap = ex_heap, tw_device = (\<lambda>_. None), tw_calls = 0\<rparr>"

definition ex_world :: "int \<Rightarrow> int \<Rightarrow> team_world" where
  "ex_world rank n = (snd (the (aclshmemi_team_init ex_env rank n (ex_before rank n))))\<lparr>tw_initialized := True\<rparr>"

lemma ex_env_ok: "machine_shift ex_env" "fresh_malloc ex_env"
  by (auto simp: machine_shift_def fresh_malloc_def ex_env_def Let_def split: if_splits)

lemma ex_init_runs: "map_option fst (aclshmemi_team_init ex_env 3 6 (ex_before 3 6)) = Some 0"
  by code_simp

lemma ex_init: "aclshmemi_team_init ex_env 3 6 (ex_before 3 6) =
    Some (0, snd (the (aclshmemi_team_init ex_env 3 6 (ex_before 3 6))))"
  using ex_init_runs by (cases "aclshmemi_team_init ex_env 3 6 (ex_before 3 6)") auto

lemma ex_before_ok: "before_init 3 6 (ex_before 3 6)"
  by (simp add: before_init_def ex_before_def team_constants)

lemma ex_world_ok: "team_inv (ex_world 3 6)" "live_slot 0 (ex_world 3 6)"
  "\<exists>t. team_at 0 (ex_world 3 6) = Some t \<and> world_team 3 6 t"
  using team_init_ok[OF ex_env_ok(2) ex_before_ok ex_init] by (simp_all add: ex_world_def)

lemma ex_npes: "tw_npes (ex_world 3 6) = 6"
  by code_simp

section \<open>Properties\<close>

text \<open>
  C34. A strided split of a team that covers all elements, as the world team does, is decided by membership. An
  element outside the progression gets the invalid handle, success, and an unchanged state. A member gets
  a new handle, which no live team had, of a team with the asked numbers in which its own number is its
  position in the progression; or the pool or the device refuses, the answer is the internal error, and
  the live teams and their copies on the device are as before.
\<close>

theorem split_strided_world:
  assumes "team_inv w" "machine_shift env" "fresh_malloc env"
    and "live_slot parent w" "team_at parent w = Some src" "tm_start src = 0" "tm_stride src = 1"
    and "split_args src pe_start pe_stride pe_size" "pe_start + pe_stride * (pe_size - 1) < tw_npes w"
  shows "\<exists>ret h w'. aclshmem_team_split_strided env parent pe_start pe_stride pe_size (Some h0) w = Some (ret, Some h, w') \<and>
    teams_kept w w' \<and>
    (if \<exists>j. 0 \<le> j \<and> j < pe_size \<and> tm_mype src = pe_start + j * pe_stride
     then (ret = ACLSHMEM_SUCCESS \<and> \<not> live_slot h w \<and>
             placed w' h pe_start pe_stride pe_size ((tm_mype src - pe_start) div pe_stride)) \<or>
          (ret = ACLSHMEM_INNER_ERROR \<and> h = ACLSHMEM_TEAM_INVALID \<and> same_teams w w')
     else ret = ACLSHMEM_SUCCESS \<and> h = ACLSHMEM_TEAM_INVALID \<and> w' = w)"
proof -
  have fits: "stride_fits src pe_stride" and pos: "1 \<le> pe_stride"
    using assms(7,8) by (auto simp: stride_fits_def split_args_def team_constants)
  have start: "pe_start = tm_start src + pe_start * tm_stride src" and stride: "pe_stride = tm_stride src * pe_stride"
    using assms(6,7) by simp_all
  have kept: "teams_kept w w" using assms(1) by (simp add: teams_kept_def)
  show ?thesis
  proof (cases "in_stride pe_start pe_stride pe_size (tm_mype src)")
    case True
    then show ?thesis
      using split_member[OF assms(1-5) fits assms(8) start stride assms(9) True] in_stride_iff[OF pos] by simp
  next
    case False
    have "aclshmem_team_split_strided env parent pe_start pe_stride pe_size (Some h0) w =
        Some (ACLSHMEM_SUCCESS, Some ACLSHMEM_TEAM_INVALID, w)"
      using assms(1-5) fits start stride
      by (cases rule: split_strided_cases[where pe_size = pe_size and h = h0]) (use False assms(8,9) in auto)
    then show ?thesis using kept False unfolding in_stride_iff[OF pos, symmetric] by simp
  qed
qed

theorem split_strided_world_witness:
  "\<exists>ret h w'. aclshmem_team_split_strided ex_env 0 1 2 2 (Some 0) (ex_world 3 6) = Some (ret, Some h, w') \<and>
    (ret = 0 \<and> placed w' h 1 2 2 1 \<or> ret = -4)"
proof -
  obtain t where t: "team_at 0 (ex_world 3 6) = Some t" "tm_mype t = 3" "tm_start t = 0" "tm_stride t = 1" "tm_size t = 6"
    using ex_world_ok(3) by (auto simp: world_team_def)
  have "\<exists>j. 0 \<le> j \<and> j < (2 :: int) \<and> 3 = 1 + j * 2" by (rule exI[of _ 1]) simp
  then show ?thesis
    using split_strided_world[OF ex_world_ok(1) ex_env_ok ex_world_ok(2) t(1,3,4), of 1 2 2 0] t ex_npes
    by (auto simp: split_args_def team_constants team_codes)
qed

text \<open>
  Translating an element number from one live team to another that also holds the element gives its
  number there, and translating back gives the number one began with.
\<close>

theorem translate_pe_roundtrip:
  assumes "team_inv w" "live_slot a w" "team_at a w = Some s" "live_slot b w" "team_at b w = Some d"
    and "0 \<le> i" "i < tm_size s" "0 \<le> j" "j < tm_size d"
    and "tm_start s + i * tm_stride s = tm_start d + j * tm_stride d"
  shows "aclshmem_team_translate_pe env a i b w = Some j \<and> aclshmem_team_translate_pe env b j a w = Some i"
  using translate_shared[OF assms] translate_shared[OF assms(1,4,5,2,3,8,9,6,7) assms(10)[symmetric]] by blast

theorem translate_pe_roundtrip_witness:
  "aclshmem_team_translate_pe ex_env 0 5 0 (ex_world 3 6) = Some 5"
proof -
  obtain t where t: "team_at 0 (ex_world 3 6) = Some t" "tm_size t = 6"
    using ex_world_ok(3) by (auto simp: world_team_def)
  show ?thesis
    using translate_pe_roundtrip[OF ex_world_ok(1,2) t(1) ex_world_ok(2) t(1), of 5 5 ex_env] t(2) by simp
qed

text \<open>
  C36. Live teams after a successful set-up and any number of strided splits of live teams, each with a stride
  whose product with the parent's fits an \<open>int\<close>, and of destroys of handles below 64 (what a larger handle or
  stride does is shown under \<open>handle_64_is_the_world\<close> and \<open>stride_wraps_to_zero\<close>). The own number of every live team is
  below its size, its size at most the number of elements, its start and all its global numbers below it, its index its
  slot, its stride at least one and, unless the team has only one element, at most the number of elements less one;
  the mapping back to the team inverts the mapping to the world; and the device holds an equal copy at the pointer of
  the slot.
\<close>

theorem live_teams_in_range:
  assumes "fresh_malloc env" "machine_shift env" "before_init rank n w0"
    and "aclshmemi_team_init env rank n w0 = Some (0, w1)"
    and "(team_step env)\<^sup>*\<^sup>* (w1\<lparr>tw_initialized := True\<rparr>) w" and "live_slot k w"
  shows "\<exists>t. team_at k w = Some t \<and> 0 \<le> tm_mype t \<and> tm_mype t < tm_size t \<and> tm_size t \<le> n \<and>
    0 \<le> tm_start t \<and> tm_start t < n \<and> 1 \<le> tm_stride t \<and> (tm_size t \<noteq> 1 \<longrightarrow> tm_stride t \<le> n - 1) \<and> tm_team_idx t = k \<and>
    (\<forall>i. 0 \<le> i \<and> i < tm_size t \<longrightarrow> 0 \<le> tm_pe_mapping t i \<and> tm_pe_mapping t i < n \<and>
       tm_pe_mapping t (tm_pe_mapping t i + ACLSHMEM_MAX_PES) = i) \<and>
    tw_device w (tw_team_pools w k) = Some (Team_block t)"
proof -
  let ?w1 = "w1\<lparr>tw_initialized := True\<rparr>"
  have inv1: "team_inv ?w1" using team_init_ok[OF assms(1,3,4)] by simp
  have n1: "tw_npes ?w1 = n" using team_init_ok[OF assms(1,3,4)] by simp
  have inv: "team_inv w" by (rule team_run_inv[OF assms(5) inv1 assms(2,1)])
  have n: "tw_npes w = n" using team_run_npes[OF assms(5) inv1 assms(2,1)] n1 by simp
  obtain t where t: "team_at k w = Some t" "team_wf n t" "tm_team_idx t = k" "mirrored k t w"
    using live_team[OF inv assms(6)] n by metis
  have wf: "0 \<le> tm_mype t" "tm_mype t < tm_size t" "0 \<le> tm_start t" "1 \<le> tm_stride t"
    "tm_start t + tm_stride t * (tm_size t - 1) < n"
    and tbl: "0 \<le> i \<Longrightarrow> i < tm_size t \<Longrightarrow> tm_pe_mapping t i = tm_start t + i * tm_stride t \<and>
      tm_pe_mapping t (tm_start t + i * tm_stride t + ACLSHMEM_MAX_PES) = i" for i
    using t(2) by (simp_all add: team_wf_def)
  have "1 * (tm_size t - 1) \<le> tm_stride t * (tm_size t - 1)"
    by (rule mult_right_mono) (use wf in linarith)+
  then have "tm_size t - 1 \<le> tm_stride t * (tm_size t - 1)" by simp
  then have "tm_size t \<le> n" "tm_start t < n" using wf(1-3,5) by linarith+
  moreover have "tm_stride t \<le> n - 1" if "tm_size t \<noteq> 1"
  proof -
    have "tm_stride t * 1 \<le> tm_stride t * (tm_size t - 1)"
      by (rule mult_left_mono) (use wf that in linarith)+
    then show ?thesis using wf(3,5) by linarith
  qed
  moreover have "0 \<le> tm_pe_mapping t i \<and> tm_pe_mapping t i < n \<and> tm_pe_mapping t (tm_pe_mapping t i + ACLSHMEM_MAX_PES) = i"
    if i: "0 \<le> i" "i < tm_size t" for i
  proof -
    have "0 \<le> tm_start t + i * tm_stride t" "tm_start t + i * tm_stride t < n"
      using stride_bound[OF i wf(4)] wf(3,5) by linarith+
    then show ?thesis using tbl[OF i] by simp
  qed
  ultimately show ?thesis using t wf by (simp add: mirrored_def)
qed

theorem live_teams_in_range_witness:
  "\<exists>t. team_at 0 (ex_world 3 6) = Some t \<and> tm_mype t < tm_size t \<and>
    tw_device (ex_world 3 6) (tw_team_pools (ex_world 3 6) 0) = Some (Team_block t)"
  using live_teams_in_range[OF ex_env_ok(2,1) ex_before_ok ex_init rtranclp.rtrancl_refl, of 0] ex_world_ok(2)
  unfolding ex_world_def by blast




section \<open>Where the code departs from its interface\<close>

text \<open>
  In a world of eight elements, element 4 belongs to the even elements from 2 on and has number 1 there. A
  split of that team into itself names element 4 again, but the code takes its number in the parent for
  its global number and answers that it is not a member.
\<close>

definition even_team :: aclshmemx_team_t where
  "even_team = \<lparr>tm_mype = 1, tm_start = 2, tm_stride = 2, tm_size = 3, tm_team_idx = 1, tm_config = no_config,
     tm_pe_mapping = (\<lambda>k. if k = 0 then 2 else if k = 1 then 4 else if k = 2 then 6
       else if k = 16386 then 0 else if k = 16388 then 1 else if k = 16390 then 2 else 0)\<rparr>"

definition nested_world :: team_world where
  "nested_world = (ex_before 4 8)\<lparr>tw_initialized := True, tw_mask := 3,
     tw_pool := Some ((new_pool 2048)(1 \<mapsto> even_team))\<rparr>"

lemma nested_split_misses_member:
  "aclshmemi_team_pe_mapping ex_env 1 1 nested_world = Some (tw_mype nested_world) \<and>
   map_option (\<lambda>(ret, h, w). (ret, h)) (aclshmem_team_split_strided ex_env 1 0 1 3 (Some 0) nested_world) = Some (0, Some (-1))"
  by code_simp

text \<open>The mask has 64 bits, the handles go up to 2047: handle 64 passes for valid, and destroying it ends the world team.\<close>

lemma handle_64_is_the_world:
  "is_valid_team ex_env 64 nested_world \<and>
   \<not> is_valid_team ex_env 0 (aclshmem_team_destroy ex_env 64 nested_world)"
  by code_simp

text \<open>Strides of teams of one element multiply without bound: the third split divides by a stride that wrapped to zero.\<close>

definition single_team :: "int \<Rightarrow> aclshmemx_team_t" where
  "single_team stride = \<lparr>tm_mype = 0, tm_start = 0, tm_stride = stride, tm_size = 1, tm_team_idx = 1,
     tm_config = no_config, tm_pe_mapping = (\<lambda>k. 0)\<rparr>"

lemma stride_wraps_to_zero:
  "map_option (\<lambda>(ret, h, w). (ret, map_option tm_stride (team_at 2 w)))
     (aclshmem_team_split_strided ex_env 1 0 8192 1 (Some 0)
        (nested_world\<lparr>tw_pool := Some ((new_pool 2048)(1 \<mapsto> single_team 8192))\<rparr>)) = Some (0, Some 67108864) \<and>
   aclshmem_team_split_strided ex_env 1 0 8192 1 (Some 0)
     (nested_world\<lparr>tw_pool := Some ((new_pool 2048)(1 \<mapsto> single_team 67108864))\<rparr>) = None"
  by code_simp

text \<open>
  The set-up tears down while \<open>is_aclshmem_initialized\<close> is still false, so that no team counts as valid: when
  the heap has no room for the synchronisation pool, the copy of the world team stays on the device.
\<close>

lemma failed_init_keeps_device_copy:
  "map_option (\<lambda>(ret, w). (ret, tw_pool w = None, tw_team_pools w 0 \<noteq> 0, tw_mask w))
     (aclshmemi_team_init ex_env 0 1 ((ex_before 0 1)\<lparr>tw_heap := ex_heap\<lparr>hw_device := None\<rparr>\<rparr>)) =
   Some (-4, True, True, 1)"
  by code_simp

end
