(* ===== verification/Message_Packer.thy ===== *)
theory Message_Packer
  imports Prelude
begin

text \<open>
  The wire format of the configuration store
  (\<open>src/host/bootstrap/config_store/store_message_packer.cpp\<close>): a message is its total size, a user word, a type,
  and two counted lists of counted byte strings, all integers little-endian. Strings are their bytes. The
  parser works on a buffer of which \<open>bufferLen\<close> bytes belong to the message; a read beyond the memory that is
  really there is \<open>Oob\<close>. Offsets are natural numbers: the checks keep them within a few bytes of
  \<open>bufferLen\<close>. A message that was rejected is not used by any caller.
\<close>

section \<open>Messages\<close>

definition MAX_KEY_COUNT :: u64 where "MAX_KEY_COUNT = 10"
definition MAX_KEY_SIZE :: u64 where "MAX_KEY_SIZE = 2048"
definition MAX_VALUE_COUNT :: u64 where "MAX_VALUE_COUNT = 10"
definition MAX_VALUE_SIZE :: u64 where "MAX_VALUE_SIZE = 64 * 1024 * 1024"

lemmas packer_limits = MAX_KEY_COUNT_def MAX_KEY_SIZE_def MAX_VALUE_COUNT_def MAX_VALUE_SIZE_def

datatype MessageType = SET | GET | ADD | REMOVE | APPEND | CAS | INVALID_MSG

fun type_code :: "MessageType \<Rightarrow> u16" where
  "type_code SET = 0"
| "type_code GET = 1"
| "type_code ADD = 2"
| "type_code REMOVE = 3"
| "type_code APPEND = 4"
| "type_code CAS = 5"
| "type_code INVALID_MSG = 6"

text \<open>The type is a signed 16-bit integer that must lie between \<open>SET\<close> and \<open>INVALID_MSG\<close>.\<close>

definition type_of_code :: "u16 \<Rightarrow> MessageType option" where
  "type_of_code c =
     (if sint c < 0 \<or> sint c > 6 then None
      else Some ([SET, GET, ADD, REMOVE, APPEND, CAS, INVALID_MSG] ! unat c))"

type_synonym bytes = "u8 list"

record SmemMessage =
  mt :: MessageType
  userDef :: u64
  keys :: "bytes list"
  vals :: "bytes list"

definition new_message :: "MessageType \<Rightarrow> SmemMessage" where
  "new_message t = \<lparr>mt = t, userDef = -1, keys = [], vals = []\<rparr>"

section \<open>Packing\<close>

definition PackValue :: "bytes \<Rightarrow> nat \<Rightarrow> 'a::len word \<Rightarrow> bytes" where
  "PackValue dest size_of_T value = dest @ le_bytes size_of_T value"

definition PackString :: "bytes \<Rightarrow> bytes \<Rightarrow> bytes" where
  "PackString dest str =
     (let dest1 = PackValue dest 8 (of_nat (length str) :: u64) in if str \<noteq> [] then dest1 @ str else dest1)"

definition PackBytes :: "bytes \<Rightarrow> bytes \<Rightarrow> bytes" where
  "PackBytes dest bs = PackValue dest 8 (of_nat (length bs) :: u64) @ bs"

definition baseSize :: u64 where
  "baseSize = 4 * 8 + 2"

definition totalSize :: "SmemMessage \<Rightarrow> u64" where
  "totalSize message =
     foldl (\<lambda>total value. total + (8 + of_nat (length value)))
       (foldl (\<lambda>total key. total + (8 + of_nat (length key))) baseSize (keys message)) (vals message)"

definition Pack :: "SmemMessage \<Rightarrow> bytes" where
  "Pack message =
     (let result = PackValue [] 8 (totalSize message);
          result = PackValue result 8 (userDef message);
          result = PackValue result 2 (type_code (mt message));
          result = PackValue result 8 (of_nat (length (keys message)) :: u64);
          result = foldl PackString result (keys message);
          result = PackValue result 8 (of_nat (length (vals message)) :: u64)
      in foldl PackBytes result (vals message))"

section \<open>Parsing\<close>

definition read_mem :: "bytes \<Rightarrow> nat \<Rightarrow> nat \<Rightarrow> (int, bytes) res" where
  "read_mem mem off n =
     (if n = 0 then Inr [] else if off + n \<le> length mem then Inr (take n (drop off mem)) else Inl Oob)"

definition read_u64 :: "bytes \<Rightarrow> nat \<Rightarrow> (int, u64) res" where
  "read_u64 mem off = rbind (read_mem mem off 8) (\<lambda>bs. Inr (le_word bs))"

definition Full :: "bytes \<Rightarrow> nat \<Rightarrow> (int, bool) res" where
  "Full mem bufferLen =
     (if bufferLen < unat baseSize then Inr False
      else rbind (read_u64 mem 0) (\<lambda>total. Inr (unat total \<le> bufferLen)))"

definition MessageSize :: "bytes \<Rightarrow> (int, int) res" where
  "MessageSize buffer =
     (if length buffer < 8 then Inr (-1) else rbind (read_u64 buffer 0) (\<lambda>w. Inr (sint w)))"

fun unpack_items :: "u64 \<Rightarrow> bytes \<Rightarrow> nat \<Rightarrow> nat \<Rightarrow> nat \<Rightarrow> bytes list \<Rightarrow> (int, nat \<times> bytes list) res" where
  "unpack_items maxSize mem bufferLen 0 off acc = Inr (off, acc)"
| "unpack_items maxSize mem bufferLen (Suc n) off acc =
     rbind (read_u64 mem off) (\<lambda>sz.
       if sz > maxSize \<or> off + 8 + unat sz > bufferLen then fail (-1)
       else rbind (read_mem mem (off + 8) (unat sz)) (\<lambda>item.
         unpack_items maxSize mem bufferLen n (off + 8 + unat sz) (acc @ [item])))"

definition Unpack :: "bytes \<Rightarrow> nat \<Rightarrow> SmemMessage \<Rightarrow> (int, int \<times> SmemMessage) res" where
  "Unpack mem bufferLen message =
     rbind (Full mem bufferLen) (\<lambda>full.
     if \<not> full then fail (-1) else
     rbind (read_u64 mem 0) (\<lambda>total.
     rbind (read_u64 mem 8) (\<lambda>user.
     rbind (read_mem mem 16 2) (\<lambda>type_bytes.
     case type_of_code (le_word type_bytes) of None \<Rightarrow> fail (-1) | Some t \<Rightarrow>
     rbind (read_u64 mem 18) (\<lambda>keyCount.
     if keyCount > MAX_KEY_COUNT then fail (-1) else
     rbind (unpack_items MAX_KEY_SIZE mem bufferLen (unat keyCount) 26 (keys message)) (\<lambda>(off, ks).
     rbind (read_u64 mem off) (\<lambda>valueCount.
     if valueCount > MAX_VALUE_COUNT then fail (-1) else
     rbind (unpack_items MAX_VALUE_SIZE mem bufferLen (unat valueCount) (off + 8) (vals message)) (\<lambda>(end, vs).
     if unat total \<noteq> end then fail (-1)
     else Inr (sint total, \<lparr>mt = t, userDef = user, keys = ks, vals = vs\<rparr>)))))))))"

section \<open>Byte images of words\<close>

lemma le_bytes_nth: "k < n \<Longrightarrow> le_bytes n w ! k = ucast (drop_bit (8 * k) w)"
proof (induction n arbitrary: k w)
  case (Suc n)
  then show ?case by (cases k) (simp_all add: add.commute)
qed simp

lemma bit_le_word: "bit (le_word bs :: 'a::len word) i \<longleftrightarrow> i < LENGTH('a) \<and> i < 8 * length bs \<and> bit (bs ! (i div 8)) (i mod 8)"
proof (induction bs arbitrary: i)
  case (Cons b bs)
  show ?case
  proof (cases "i < 8")
    case True
    then show ?thesis by (auto simp: bit_simps dest: bit_imp_le_length)
  next
    case False
    have "\<not> bit b i" using False bit_imp_le_length[of b i] by auto
    moreover have "i div 8 = Suc ((i - 8) div 8)" "i mod 8 = (i - 8) mod 8"
      using False by (simp_all add: le_div_geq le_mod_geq)
    ultimately show ?thesis using False Cons.IH[of "i - 8"] by (auto simp: bit_simps)
  qed
qed simp

lemma le_bytes_le_word:
  assumes "8 * length bs \<le> LENGTH('a::len)"
  shows "le_bytes (length bs) (le_word bs :: 'a word) = bs"
proof (rule nth_equalityI)
  fix k assume k: "k < length (le_bytes (length bs) (le_word bs :: 'a word))"
  show "le_bytes (length bs) (le_word bs :: 'a word) ! k = bs ! k"
  proof (rule bit_word_eqI)
    fix i assume i: "i < LENGTH(8)"
    have "8 * k + i < 8 * length bs" using i k by simp
    then show "bit (le_bytes (length bs) (le_word bs :: 'a word) ! k) i = bit (bs ! k) i"
      using i k assms by (auto simp: le_bytes_nth bit_ucast_iff bit_drop_bit_eq bit_le_word)
  qed
qed simp

section \<open>The image of a message\<close>

definition item :: "bytes \<Rightarrow> bytes" where
  "item x = le_bytes 8 (of_nat (length x) :: u64) @ x"

definition items :: "bytes list \<Rightarrow> bytes" where
  "items xs = concat (map item xs)"

lemma items_simps [simp]: "items [] = []" "items (x # xs) = item x @ items xs"
  by (simp_all add: items_def)

lemma length_item [simp]: "length (item x) = 8 + length x"
  by (simp add: item_def)

lemma foldl_PackString: "foldl PackString dest xs = dest @ items xs"
  by (induction xs arbitrary: dest) (simp_all add: PackString_def PackValue_def item_def Let_def)

lemma foldl_PackBytes: "foldl PackBytes dest xs = dest @ items xs"
  by (induction xs arbitrary: dest) (simp_all add: PackBytes_def PackValue_def item_def)

lemma Pack_image:
  "Pack m = le_bytes 8 (totalSize m) @ le_bytes 8 (userDef m) @ le_bytes 2 (type_code (mt m)) @
     le_bytes 8 (of_nat (length (keys m)) :: u64) @ items (keys m) @
     le_bytes 8 (of_nat (length (vals m)) :: u64) @ items (vals m)"
  by (simp add: Pack_def PackValue_def foldl_PackString foldl_PackBytes Let_def)

lemma length_Pack: "length (Pack m) = 34 + length (items (keys m)) + length (items (vals m))"
  by (simp add: Pack_image)

lemma foldl_sizes:
  "foldl (\<lambda>total x. total + (8 + of_nat (length x))) (w :: u64) xs = w + of_nat (length (items xs))"
  by (induction xs arbitrary: w) (simp_all add: algebra_simps)

lemma totalSize_length: "totalSize m = of_nat (length (Pack m))"
  by (simp add: totalSize_def foldl_sizes baseSize_def length_Pack)

text \<open>The messages the format is made for; the last condition is implied by the others for the limits of the code.\<close>

definition packable :: "SmemMessage \<Rightarrow> bool" where
  "packable m \<longleftrightarrow> length (keys m) \<le> unat MAX_KEY_COUNT \<and> length (vals m) \<le> unat MAX_VALUE_COUNT \<and>
     (\<forall>k \<in> set (keys m). length k \<le> unat MAX_KEY_SIZE) \<and> (\<forall>v \<in> set (vals m). length v \<le> unat MAX_VALUE_SIZE)"

lemma length_items_bound: "\<forall>x \<in> set xs. length x \<le> b \<Longrightarrow> length (items xs) \<le> length xs * (8 + b)"
  by (induction xs) auto

lemma packable_small:
  assumes "packable m"
  shows "length (Pack m) < 2 ^ 30"
proof -
  have k: "length (items (keys m)) \<le> length (keys m) * (8 + 2048)"
    and v: "length (items (vals m)) \<le> length (vals m) * (8 + 67108864)"
    using assms by (intro length_items_bound; simp add: packable_def packer_limits)+
  have "length (keys m) \<le> 10" "length (vals m) \<le> 10"
    using assms by (simp_all add: packable_def packer_limits)
  then have "length (keys m) * (8 + 2048) \<le> 10 * (8 + 2048)" "length (vals m) * (8 + 67108864) \<le> 10 * (8 + 67108864)"
    by (intro mult_right_mono; simp)+
  then show ?thesis using k v by (simp add: length_Pack)
qed

section \<open>Reading back\<close>

text \<open>The bytes of \<open>mem\<close> from \<open>off\<close> on begin with \<open>bs\<close>.\<close>

definition holds :: "bytes \<Rightarrow> nat \<Rightarrow> bytes \<Rightarrow> bool" where
  "holds mem off bs \<longleftrightarrow> take (length bs) (drop off mem) = bs"

lemma holds_append: "holds mem off (xs @ ys) \<longleftrightarrow> holds mem off xs \<and> holds mem (off + length xs) ys"
proof -
  let ?a = "take (length xs) (drop off mem)" and ?b = "take (length ys) (drop (off + length xs) mem)"
  have split: "take (length (xs @ ys)) (drop off mem) = ?a @ ?b"
    by (simp add: take_add add.commute)
  have "?a @ ?b = xs @ ys \<longleftrightarrow> ?a = xs \<and> ?b = ys"
  proof
    assume e: "?a @ ?b = xs @ ys"
    then have "length (?a @ ?b) = length (xs @ ys)" by (rule arg_cong)
    then have "length ?a + length ?b = length xs + length ys" by (simp only: length_append)
    moreover have "length ?a \<le> length xs" "length ?b \<le> length ys" by (simp_all only: length_take min.cobounded2)
    ultimately have "length ?a = length xs" by linarith
    then show "?a = xs \<and> ?b = ys" using e append_eq_append_conv[of ?a xs ?b ys] by blast
  qed simp
  then show ?thesis unfolding holds_def split by simp
qed

lemma holds_Nil [simp]: "holds mem off []"
  by (simp add: holds_def)

lemma holds_bound: "holds mem off bs \<Longrightarrow> bs \<noteq> [] \<Longrightarrow> off + length bs \<le> length mem"
proof -
  assume h: "holds mem off bs" "bs \<noteq> []"
  have "length (take (length bs) (drop off mem)) = length bs" using h(1) by (simp only: holds_def)
  then have "length bs \<le> length mem - off" by simp
  then show ?thesis using h(2) by (cases "off \<le> length mem") auto
qed

lemma holds_read: "holds mem off bs \<Longrightarrow> n = length bs \<Longrightarrow> read_mem mem off n = Inr bs"
  using holds_bound[of mem off bs] by (auto simp: holds_def read_mem_def)

lemma read_holds: "read_mem mem off n = Inr bs \<Longrightarrow> holds mem off bs \<and> length bs = n"
  by (auto simp: holds_def read_mem_def split: if_splits)

lemma holds_u64: "holds mem off (le_bytes 8 (w :: u64)) \<Longrightarrow> read_u64 mem off = Inr w"
  by (simp add: read_u64_def holds_read le_word_le_bytes)

lemma read_u64_holds: "read_u64 mem off = Inr w \<Longrightarrow> holds mem off (le_bytes 8 w)"
proof -
  assume "read_u64 mem off = Inr w"
  then obtain bs where bs: "read_mem mem off 8 = Inr bs" "w = le_word bs"
    by (auto simp: read_u64_def rbind_eq_Inr)
  have "le_bytes (length bs) w = bs"
    unfolding bs(2) by (rule le_bytes_le_word) (simp add: read_holds[OF bs(1)])
  then show "holds mem off (le_bytes 8 w)" using read_holds[OF bs(1)] by simp
qed

lemma unpack_items_read:
  assumes "\<forall>x \<in> set xs. length x \<le> unat maxSize" "holds mem off (items xs)" "off + length (items xs) \<le> bufferLen"
  shows "unpack_items maxSize mem bufferLen (length xs) off acc = Inr (off + length (items xs), acc @ xs)"
  using assms
proof (induction xs arbitrary: off acc)
  case Nil
  then show ?case by simp
next
  case (Cons x xs)
  have small: "length x < 2 ^ 64" "unat (of_nat (length x) :: u64) = length x"
  proof -
    have "length x < 2 ^ 64"
      using Cons.prems(1) unsigned_less[of maxSize, where ?'a = nat] by simp
    then show "length x < 2 ^ 64" "unat (of_nat (length x) :: u64) = length x"
      by (simp_all only: unat_of_nat_u64)
  qed
  have h: "holds mem off (le_bytes 8 (of_nat (length x) :: u64))" "holds mem (off + 8) x"
    "holds mem (off + 8 + length x) (items xs)"
    using Cons.prems(2) by (simp_all add: item_def holds_append add.assoc)
  have le: "\<not> of_nat (length x) > maxSize"
    using Cons.prems(1) small(2) by (simp add: word_less_nat_alt)
  have "unpack_items maxSize mem bufferLen (length xs) (off + 8 + length x) (acc @ [x]) =
      Inr (off + 8 + length x + length (items xs), (acc @ [x]) @ xs)"
    using Cons.prems h by (intro Cons.IH) auto
  then show ?case
    using holds_u64[OF h(1)] holds_read[OF h(2)] le small(2) Cons.prems(3) by (simp add: add.assoc)
qed

lemma unpack_items_holds:
  assumes "unpack_items maxSize mem bufferLen n off acc = Inr (off', acc')"
  shows "\<exists>xs. acc' = acc @ xs \<and> length xs = n \<and> holds mem off (items xs) \<and> off' = off + length (items xs) \<and>
    (\<forall>x \<in> set xs. length x \<le> unat maxSize)"
  using assms
proof (induction n arbitrary: off acc)
  case 0
  then show ?case by simp
next
  case (Suc n)
  obtain sz x where sz: "read_u64 mem off = Inr sz" "sz \<le> maxSize"
    and x: "read_mem mem (off + 8) (unat sz) = Inr x"
    and rest: "unpack_items maxSize mem bufferLen n (off + 8 + unat sz) (acc @ [x]) = Inr (off', acc')"
    using Suc.prems by (auto simp: vec_eqs split: if_splits)
  obtain xs where xs: "acc' = (acc @ [x]) @ xs" "length xs = n" "holds mem (off + 8 + unat sz) (items xs)"
    "off' = off + 8 + unat sz + length (items xs)" "\<forall>x \<in> set xs. length x \<le> unat maxSize"
    using Suc.IH[OF rest] by blast
  have len: "length x = unat sz" and h: "holds mem (off + 8) x" using read_holds[OF x] by simp_all
  have "(of_nat (length x) :: u64) = sz" by (simp add: len)
  then have "holds mem off (item x)"
    using read_u64_holds[OF sz(1)] h by (simp add: item_def holds_append)
  then have "holds mem off (items (x # xs))"
    using xs(3) len by (simp add: holds_append add.assoc)
  moreover have "length x \<le> unat maxSize" using sz(2) by (simp add: len word_le_nat_alt)
  ultimately show ?case
    using xs len by (intro exI[of _ "x # xs"]) simp
qed

section \<open>Parsing and packing\<close>

lemma type_of_type_code [simp]: "type_of_code (type_code t) = Some t"
  by (cases t) (simp_all add: type_of_code_def)

lemma type_code_of_type:
  assumes "type_of_code c = Some t"
  shows "type_code t = c"
proof -
  have s: "0 \<le> sint c" "sint c \<le> 6" and t: "t = [SET, GET, ADD, REMOVE, APPEND, CAS, INVALID_MSG] ! unat c"
    using assms by (auto simp: type_of_code_def split: if_splits)
  have "uint c = sint c" using s by (simp add: uint_sint take_bit_int_eq_self)
  then have "unat c \<le> 6" using s(2) by (simp add: unat_eq_nat_uint nat_le_iff)
  then have "unat c \<in> {0, 1, 2, 3, 4, 5, 6}" by auto
  then show ?thesis using t by (auto simp: word_unat_eq_iff)
qed

lemma holds_Pack:
  "holds mem 0 (Pack m) \<longleftrightarrow>
     holds mem 0 (le_bytes 8 (totalSize m)) \<and> holds mem 8 (le_bytes 8 (userDef m)) \<and>
     holds mem 16 (le_bytes 2 (type_code (mt m))) \<and> holds mem 18 (le_bytes 8 (of_nat (length (keys m)) :: u64)) \<and>
     holds mem 26 (items (keys m)) \<and>
     holds mem (26 + length (items (keys m))) (le_bytes 8 (of_nat (length (vals m)) :: u64)) \<and>
     holds mem (34 + length (items (keys m))) (items (vals m))"
  by (simp add: Pack_image holds_append add.commute add.left_commute)

lemma unat_totalSize: "packable m \<Longrightarrow> unat (totalSize m) = length (Pack m)"
  using packable_small[of m] by (simp add: totalSize_length unat_of_nat_u64)

lemma Full_ok:
  assumes "packable m" "holds mem 0 (Pack m)" "length (Pack m) \<le> n"
  shows "Full mem n = Inr True"
proof -
  have "read_u64 mem 0 = Inr (totalSize m)" using assms(2) by (intro holds_u64) (simp add: holds_Pack)
  moreover have "34 \<le> n" using assms(3) by (simp add: length_Pack)
  ultimately show ?thesis using unat_totalSize[OF assms(1)] assms(3) by (simp add: Full_def baseSize_def)
qed

lemma count_ok: "length xs \<le> unat m \<Longrightarrow> unat (of_nat (length xs) :: u64) = length xs \<and> \<not> of_nat (length xs) > (m :: u64)"
  using unsigned_less[of m, where ?'a = nat] by (simp add: word_less_nat_alt unat_of_nat_u64)

lemma Unpack_holds:
  assumes p: "packable m" and h: "holds mem 0 (Pack m)" and n: "length (Pack m) \<le> n"
    and empty: "keys m0 = []" "vals m0 = []"
  shows "Unpack mem n m0 = Inr (int (length (Pack m)), m)"
proof -
  note hs = h[unfolded holds_Pack]
  have r: "read_u64 mem 0 = Inr (totalSize m)" "read_u64 mem 8 = Inr (userDef m)"
    "read_mem mem 16 2 = Inr (le_bytes 2 (type_code (mt m)))"
    "read_u64 mem 18 = Inr (of_nat (length (keys m)))"
    "read_u64 mem (26 + length (items (keys m))) = Inr (of_nat (length (vals m)))"
    using hs by (auto intro: holds_u64 holds_read)
  have ks: "unpack_items MAX_KEY_SIZE mem n (length (keys m)) 26 [] = Inr (26 + length (items (keys m)), keys m)"
    using unpack_items_read[of "keys m" MAX_KEY_SIZE mem 26 n "[]"] p hs n
    by (simp add: packable_def length_Pack)
  have vs: "unpack_items MAX_VALUE_SIZE mem n (length (vals m)) (34 + length (items (keys m))) [] =
      Inr (length (Pack m), vals m)"
    using unpack_items_read[of "vals m" MAX_VALUE_SIZE mem "34 + length (items (keys m))" n "[]"] p hs n
    by (simp add: packable_def length_Pack)
  have code: "type_of_code (le_word (le_bytes 2 (type_code (mt m)))) = Some (mt m)"
    by (simp add: le_word_le_bytes)
  have total: "unat (totalSize m) = length (Pack m)" by (rule unat_totalSize[OF p])
  have small: "unat (totalSize m) < 2 ^ 63" using packable_small[OF p] by (simp add: total)
  have signed: "sint (totalSize m) = int (length (Pack m))"
  proof -
    have u: "uint (totalSize m) = int (length (Pack m))" by (simp add: total[symmetric])
    show ?thesis using small total by (simp add: sint_uint u signed_take_bit_int_eq_self)
  qed
  have counts: "unat (of_nat (length (keys m)) :: u64) = length (keys m)" "\<not> of_nat (length (keys m)) > MAX_KEY_COUNT"
    "unat (of_nat (length (vals m)) :: u64) = length (vals m)" "\<not> of_nat (length (vals m)) > MAX_VALUE_COUNT"
    using count_ok[of "keys m" MAX_KEY_COUNT] count_ok[of "vals m" MAX_VALUE_COUNT] p by (simp_all add: packable_def)
  show ?thesis
    unfolding Unpack_def
    by (simp add: Full_ok[OF p h n] r ks vs code total signed counts empty)
qed


lemma Unpack_inv:
  assumes run: "Unpack mem n m0 = Inr (r, m)" and empty: "keys m0 = []" "vals m0 = []"
  shows "packable m \<and> r = int (length (Pack m)) \<and> length (Pack m) \<le> n \<and> holds mem 0 (Pack m)"
proof -
  from run obtain total user tb keyCount off valueCount where
    full: "Full mem n = Inr True" and total: "read_u64 mem 0 = Inr total" and user: "read_u64 mem 8 = Inr user"
    and tb: "read_mem mem 16 2 = Inr tb" and t: "type_of_code (le_word tb) = Some (mt m)"
    and kc: "read_u64 mem 18 = Inr keyCount" "keyCount \<le> MAX_KEY_COUNT"
    and ks: "unpack_items MAX_KEY_SIZE mem n (unat keyCount) 26 [] = Inr (off, keys m)"
    and vc: "read_u64 mem off = Inr valueCount" "valueCount \<le> MAX_VALUE_COUNT"
    and vs: "unpack_items MAX_VALUE_SIZE mem n (unat valueCount) (off + 8) [] = Inr (unat total, vals m)"
    and r: "r = sint total" and u: "userDef m = user"
    unfolding Unpack_def empty
    by (auto simp: rbind_eq_Inr not_less split: if_splits option.splits prod.splits)
  from unpack_items_holds[OF ks] unpack_items_holds[OF vs]
  have k: "length (keys m) = unat keyCount" "holds mem 26 (items (keys m))" "off = 26 + length (items (keys m))"
      "\<forall>x \<in> set (keys m). length x \<le> unat MAX_KEY_SIZE"
    and v: "length (vals m) = unat valueCount" "holds mem (off + 8) (items (vals m))"
      "unat total = off + 8 + length (items (vals m))" "\<forall>x \<in> set (vals m). length x \<le> unat MAX_VALUE_SIZE"
    by auto
  have p: "packable m"
    using k v kc(2) vc(2) by (simp add: packable_def word_le_nat_alt)
  have len: "unat total = length (Pack m)" using v(3) k(3) by (simp add: length_Pack)
  then have total_eq: "totalSize m = total" by (simp add: totalSize_length flip: len)
  have counts: "(of_nat (length (keys m)) :: u64) = keyCount" "(of_nat (length (vals m)) :: u64) = valueCount"
    by (simp_all add: k(1) v(1))
  have tb2: "le_bytes 2 (le_word tb :: u16) = tb"
    using le_bytes_le_word[where 'a = 16, of tb] read_holds[OF tb] by simp
  have code: "le_bytes 2 (type_code (mt m)) = tb"
    unfolding type_code_of_type[OF t] by (rule tb2)
  have "holds mem 0 (Pack m)"
    unfolding holds_Pack total_eq u counts code
    using read_u64_holds[OF total] read_u64_holds[OF user] read_holds[OF tb] read_u64_holds[OF kc(1)] k(2,3)
      read_u64_holds[OF vc(1)] v(2) by (simp add: add.commute)
  moreover have "length (Pack m) \<le> n"
    using full total len by (auto simp: Full_def split: if_splits)
  moreover have "r = int (length (Pack m))"
    using Unpack_holds[OF p calculation empty] run by simp
  ultimately show ?thesis using p by simp
qed

text \<open>How far the parser reads: a count or a size that begins inside the message.\<close>

lemma unpack_items_reads:
  assumes "off + 8 \<le> length mem" "n + 8 \<le> length mem"
  shows "unpack_items maxSize mem n c off acc \<noteq> Inl Oob \<and>
    (\<forall>off' acc'. unpack_items maxSize mem n c off acc = Inr (off', acc') \<longrightarrow> off' \<le> max off n)"
  using assms(1)
proof (induction c arbitrary: off acc)
  case 0
  then show ?case by simp
next
  case (Suc c)
  obtain sz where sz: "read_u64 mem off = Inr sz"
    using Suc.prems by (simp add: read_u64_def read_mem_def)
  show ?case
  proof (cases "sz > maxSize \<or> off + 8 + unat sz > n")
    case True
    then show ?thesis using sz by simp
  next
    case False
    then have le: "off + 8 + unat sz \<le> n" by simp
    then have "off + 8 + unat sz \<le> length mem" using assms(2) by simp
    then obtain x where x: "read_mem mem (off + 8) (unat sz) = Inr x"
      by (cases "unat sz = 0") (auto simp: read_mem_def)
    have "unpack_items maxSize mem n (Suc c) off acc =
        unpack_items maxSize mem n c (off + 8 + unat sz) (acc @ [x])"
      using sz x False by simp
    moreover have "off + 8 + unat sz + 8 \<le> length mem" using le assms(2) by simp
    ultimately show ?thesis using Suc.IH[of "off + 8 + unat sz" "acc @ [x]"] le by fastforce
  qed
qed

lemma Unpack_reads:
  assumes "n + 16 \<le> length mem"
  shows "Unpack mem n m0 \<noteq> Inl Oob"
proof (cases "n < 34")
  case True
  then show ?thesis by (simp add: Unpack_def Full_def baseSize_def)
next
  case False
  have r: "\<exists>w. read_u64 mem off = Inr w" if "off \<le> n" for off
    using that assms by (simp add: read_u64_def read_mem_def)
  obtain total user kc where w: "read_u64 mem 0 = Inr total" "read_u64 mem 8 = Inr user" "read_u64 mem 18 = Inr kc"
    using r[of 0] r[of 8] r[of 18] False by auto
  obtain tb where tb: "read_mem mem 16 2 = Inr tb" using assms False by (simp add: read_mem_def)
  have ks: "unpack_items MAX_KEY_SIZE mem n c 26 acc \<noteq> Inl Oob"
    "unpack_items MAX_KEY_SIZE mem n c 26 acc = Inr (off, ks) \<Longrightarrow> off \<le> n" for c acc off ks
    using unpack_items_reads[of 26 mem n MAX_KEY_SIZE c acc] False assms by auto
  have vs: "unpack_items MAX_VALUE_SIZE mem n c (off + 8) acc \<noteq> Inl Oob" if "off \<le> n" for c off acc
    using unpack_items_reads[of "off + 8" mem n MAX_VALUE_SIZE c acc] that assms by simp
  have rs: "off \<le> n \<Longrightarrow> read_u64 mem off = Inl Oob \<Longrightarrow> False"
    and vs': "off \<le> n \<Longrightarrow> unpack_items MAX_VALUE_SIZE mem n c (off + 8) acc = Inl Oob \<Longrightarrow> False" for off c acc
    using r[of off] vs[of off] by auto
  show ?thesis
    unfolding Unpack_def
    using w tb ks(1) by (auto simp: Full_def baseSize_def False rbind_eq_Oob split: option.splits if_splits
        dest!: ks(2) dest: rs vs')
qed

section \<open>Properties\<close>

text \<open>
  C37. A packed message parses back, whatever follows it in the buffer: the answer is its length and the
  message itself, for every message within the limits of the format.
\<close>

theorem Unpack_Pack:
  assumes "packable m" "length (Pack m) \<le> n" "keys m0 = []" "vals m0 = []"
  shows "Unpack (Pack m @ rest) n m0 = Inr (int (length (Pack m)), m)"
  by (rule Unpack_holds[OF assms(1) _ assms(2-4)]) (simp add: holds_def)

definition ex_message :: SmemMessage where
  "ex_message = \<lparr>mt = SET, userDef = -1, keys = [[107, 49]], vals = [[1, 2, 3], []]\<rparr>"

lemma ex_packable: "packable ex_message"
  by (simp add: packable_def ex_message_def packer_limits)

theorem Unpack_Pack_witness:
  "Unpack (Pack ex_message @ [9]) 64 (new_message INVALID_MSG) = Inr (int (length (Pack ex_message)), ex_message)"
  by (rule Unpack_Pack[OF ex_packable]) (simp_all add: length_Pack ex_message_def new_message_def)

text \<open>
  The parser accepts only what the packer writes: when it answers, the message is within the limits, the
  answer is the length of its image, the image lies within the \<open>bufferLen\<close> bytes of the message and is
  there byte for byte.
\<close>

theorem Unpack_canonical:
  assumes "Unpack mem n m0 = Inr (r, m)" "keys m0 = []" "vals m0 = []"
  shows "packable m \<and> r = int (length (Pack m)) \<and> length (Pack m) \<le> n \<and> take (length (Pack m)) mem = Pack m"
  using Unpack_inv[OF assms] by (simp add: holds_def)

theorem Unpack_canonical_witness:
  "take (length (Pack ex_message)) (Pack ex_message @ [9]) = Pack ex_message \<and> length (Pack ex_message) \<le> 64"
proof -
  have "Unpack (Pack ex_message @ [9]) 64 (new_message INVALID_MSG) = Inr (int (length (Pack ex_message)), ex_message)"
    by (rule Unpack_holds[OF ex_packable]) (simp_all add: holds_def length_Pack ex_message_def new_message_def)
  from Unpack_canonical[OF this] show ?thesis by (simp add: new_message_def)
qed

text \<open>
  The parser reads counts and sizes before it compares them with \<open>bufferLen\<close>, but never more than 16
  bytes beyond it: on memory that goes on for 16 bytes behind the message, no input whatsoever makes it read
  outside.
\<close>

theorem Unpack_overread:
  assumes "n + 16 \<le> length mem"
  shows "Unpack mem n m0 \<noteq> Inl Oob"
  by (rule Unpack_reads[OF assms])

theorem Unpack_overread_witness:
  "Unpack (replicate 50 0) 34 (new_message INVALID_MSG) \<noteq> Inl Oob"
  by (rule Unpack_overread) simp

text \<open>Without those bytes it does: a message of 34 bytes that announces one empty key.\<close>

lemma Unpack_reads_past_end:
  "Unpack (le_bytes 8 (34 :: u64) @ le_bytes 8 (0 :: u64) @ le_bytes 2 (0 :: u16) @ le_bytes 8 (1 :: u64) @ le_bytes 8 (0 :: u64))
     34 (new_message INVALID_MSG) = Inl Oob"
  by code_simp

end
