(* ===== verification/Store_Server.thy ===== *)
theory Store_Server
  imports Message_Packer "HOL-Library.AList" "HOL-Library.Char_ord"
begin

text \<open>
  The key-value server of the configuration store
  (\<open>src/host/bootstrap/config_store/store_tcp_config_server.cpp\<close>): the six request handlers, the waiters of keys
  that do not exist yet, and one round of the timer thread. A handler changes the maps under the lock of the
  store, so that one call is one step; the replies it sends after unlocking are logged with it. The identity
  of a request context is a number. The walk of an unordered container is in an order the environment
  chooses, and a reply whose buffer cannot be allocated is not sent. Waiter ids are numbered without the
  wrap of the 64-bit counter; the body of a request is never null.
\<close>

section \<open>Numbers and strings\<close>

definition str :: "string \<Rightarrow> bytes" where
  "str s = map of_char s"

function nat_digits :: "nat \<Rightarrow> bytes" where
  "nat_digits n = (if n < 10 then [48 + of_nat n] else nat_digits (n div 10) @ [48 + of_nat (n mod 10)])"
  by pat_completeness auto
termination by (relation "measure id") auto

declare nat_digits.simps [simp del]

text \<open>\<open>std::to_string\<close> of a \<open>long\<close>.\<close>

definition to_string :: "int \<Rightarrow> bytes" where
  "to_string v = (if v < 0 then 45 # nat_digits (nat (- v)) else nat_digits (nat v))"

definition isspace :: "u8 \<Rightarrow> bool" where
  "isspace c \<longleftrightarrow> c = 32 \<or> 9 \<le> c \<and> c \<le> 13"

definition isdigit :: "u8 \<Rightarrow> bool" where
  "isdigit c \<longleftrightarrow> 48 \<le> c \<and> c \<le> 57"

definition digits_value :: "bytes \<Rightarrow> nat" where
  "digits_value ds = foldl (\<lambda>n c. 10 * n + (unat c - 48)) 0 ds"

text \<open>\<open>strtol\<close> with base ten on the characters before the first null: value, the rest, and the range error.\<close>

definition strtol :: "bytes \<Rightarrow> int \<times> bytes \<times> bool" where
  "strtol s =
     (let t = dropWhile isspace s;
          neg = (t \<noteq> [] \<and> hd t = 45);
          u = (if t \<noteq> [] \<and> (hd t = 45 \<or> hd t = 43) then tl t else t);
          ds = takeWhile isdigit u;
          n = int (digits_value ds);
          v = (if neg then - n else n) in
      if ds = [] then (0, s, False)
      else if v < - (2 ^ 63) then (- (2 ^ 63), dropWhile isdigit u, True)
      else if v \<ge> 2 ^ 63 then (2 ^ 63 - 1, dropWhile isdigit u, True)
      else (v, dropWhile isdigit u, False))"

definition StrToLong :: "bytes \<Rightarrow> int option" where
  "StrToLong src =
     (let s = takeWhile (\<lambda>c. c \<noteq> 0) src; (v, remain, erange) = strtol s in
      if v = 0 \<and> s \<noteq> [48] \<or> remain \<noteq> [] \<or> erange then None else Some v)"

section \<open>The state of the server\<close>

definition SUCCESS :: int where "SUCCESS = 0"
definition INVALID_MESSAGE :: int where "INVALID_MESSAGE = -400"
definition INVALID_KEY :: int where "INVALID_KEY = -401"
definition NOT_EXIST :: int where "NOT_EXIST = -404"
definition TIMEOUT :: int where "TIMEOUT = -601"
definition SM_INVALID_PARAM :: int where "SM_INVALID_PARAM = -2000"
definition SMEM_ERROR :: int where "SMEM_ERROR = -3"

lemmas store_codes = SUCCESS_def INVALID_MESSAGE_def INVALID_KEY_def NOT_EXIST_def TIMEOUT_def
  SM_INVALID_PARAM_def SMEM_ERROR_def

definition MAX_KEY_LEN_SERVER :: nat where "MAX_KEY_LEN_SERVER = 2048"

record StoreWaitContext =
  wc_id :: nat
  wc_timeoutMs :: int
  wc_key :: bytes
  wc_reqCtx :: nat

record reply =
  rp_ctx :: nat
  rp_code :: int
  rp_body :: bytes

record AccStoreServer =
  kvStore :: "bytes \<Rightarrow> bytes option"
  waitCtx :: "nat \<Rightarrow> StoreWaitContext option"
  keyWaiters :: "bytes \<Rightarrow> nat list option"
  timedWaiters :: "(int \<times> nat list) list"
  idGen :: nat
  replies :: "reply list"

record store_env =
  se_create :: "bytes \<Rightarrow> bool"
  se_ids :: "nat list \<Rightarrow> nat list"
  se_times :: "int list \<Rightarrow> int list"

definition new_server :: AccStoreServer where
  "new_server = \<lparr>kvStore = (\<lambda>_. None), waitCtx = (\<lambda>_. None), keyWaiters = (\<lambda>_. None), timedWaiters = [],
     idGen = 1, replies = []\<rparr>"

section \<open>Replies and waiters\<close>

definition ReplyWithMessage :: "store_env \<Rightarrow> nat \<Rightarrow> int \<Rightarrow> bytes \<Rightarrow> AccStoreServer \<Rightarrow> AccStoreServer" where
  "ReplyWithMessage env ctx code message s =
     (if se_create env message
      then s\<lparr>replies := replies s @ [\<lparr>rp_ctx = ctx, rp_code = code, rp_body = message\<rparr>]\<rparr> else s)"

text \<open>One id of the loop of \<open>GetOutWaitersInLock\<close>.\<close>

definition erase_timed :: "int \<Rightarrow> nat \<Rightarrow> (int \<times> nat list) list \<Rightarrow> (int \<times> nat list) list" where
  "erase_timed t wid timed =
     (case map_of timed t of None \<Rightarrow> timed
      | Some ids \<Rightarrow>
        let ids' = removeAll wid ids in
        if ids' = [] then AList.delete t timed else AList.update t ids' timed)"

definition get_out :: "nat \<Rightarrow> nat list \<times> AccStoreServer \<Rightarrow> nat list \<times> AccStoreServer" where
  "get_out wid = (\<lambda>(reqCtx, s).
     case waitCtx s wid of None \<Rightarrow> (reqCtx, s)
     | Some c \<Rightarrow> (reqCtx @ [wc_reqCtx c],
         s\<lparr>timedWaiters := erase_timed (wc_timeoutMs c) (wc_id c) (timedWaiters s),
           waitCtx := (waitCtx s)(wid := None)\<rparr>))"

definition GetOutWaitersInLock :: "store_env \<Rightarrow> nat list \<Rightarrow> AccStoreServer \<Rightarrow> nat list \<times> AccStoreServer" where
  "GetOutWaitersInLock env ids s = fold get_out (se_ids env ids) ([], s)"

definition wake_response :: "bytes \<Rightarrow> bytes" where
  "wake_response value = Pack ((new_message GET)\<lparr>vals := [value]\<rparr>)"

definition WakeupWaiters :: "store_env \<Rightarrow> nat list \<Rightarrow> bytes \<Rightarrow> AccStoreServer \<Rightarrow> AccStoreServer" where
  "WakeupWaiters env waiters value s =
     fold (\<lambda>ctx. ReplyWithMessage env ctx SUCCESS (wake_response value)) waiters s"

text \<open>The waiters of a key that is about to exist leave the three maps.\<close>

definition take_key_waiters :: "store_env \<Rightarrow> bytes \<Rightarrow> AccStoreServer \<Rightarrow> nat list \<times> AccStoreServer" where
  "take_key_waiters env key s =
     (case keyWaiters s key of None \<Rightarrow> ([], s)
      | Some ids \<Rightarrow>
        let (waiters, s') = GetOutWaitersInLock env ids s
        in (waiters, s'\<lparr>keyWaiters := (keyWaiters s')(key := None)\<rparr>))"

definition put_value :: "bytes \<Rightarrow> bytes \<Rightarrow> AccStoreServer \<Rightarrow> AccStoreServer" where
  "put_value key value s = s\<lparr>kvStore := (kvStore s)(key \<mapsto> value)\<rparr>"

section \<open>The handlers\<close>

definition invalid_body :: "store_env \<Rightarrow> nat \<Rightarrow> string \<Rightarrow> AccStoreServer \<Rightarrow> int \<times> AccStoreServer" where
  "invalid_body env ctx text s = (SM_INVALID_PARAM, ReplyWithMessage env ctx INVALID_MESSAGE (str text) s)"

definition SetHandler :: "store_env \<Rightarrow> nat \<Rightarrow> SmemMessage \<Rightarrow> AccStoreServer \<Rightarrow> int \<times> AccStoreServer" where
  "SetHandler env ctx request s =
     (if length (keys request) \<noteq> 1 \<or> length (vals request) \<noteq> 1
      then invalid_body env ctx ''invalid request: key value should be one'' s
      else let key = keys request ! 0; value = vals request ! 0 in
      if length key > MAX_KEY_LEN_SERVER then (INVALID_KEY, s)
      else
        let (waiters, s1) = (if kvStore s key = None then take_key_waiters env key s else ([], s));
            s2 = put_value key value s1;
            s3 = ReplyWithMessage env ctx SUCCESS (str ''success'') s2
        in (0, WakeupWaiters env waiters value s3))"

definition add_waiter :: "nat \<Rightarrow> nat list option \<Rightarrow> nat list option" where
  "add_waiter wid = (\<lambda>ids. case ids of Some xs \<Rightarrow> Some (List.insert wid xs) | None \<Rightarrow> Some [wid])"

definition GetHandler :: "store_env \<Rightarrow> int \<Rightarrow> nat \<Rightarrow> SmemMessage \<Rightarrow> AccStoreServer \<Rightarrow> int \<times> AccStoreServer" where
  "GetHandler env now ctx request s =
     (if length (keys request) \<noteq> 1 \<or> vals request \<noteq> []
      then invalid_body env ctx ''invalid request: key should be one and no values.'' s
      else let key = keys request ! 0; wait = sint (userDef request) in
      if length key > MAX_KEY_LEN_SERVER then (INVALID_KEY, s)
      else case kvStore s key of
        Some value \<Rightarrow> (0, ReplyWithMessage env ctx SUCCESS (Pack ((new_message (mt request))\<lparr>vals := [value]\<rparr>)) s)
      | None \<Rightarrow>
        if wait = 0 then (SMEM_ERROR, ReplyWithMessage env ctx NOT_EXIST (str ''<not exist>'') s)
        else if wait > 2 ^ 31 - 1 then (SMEM_ERROR, s)
        else
          let timeoutMs = now + wait; wid = idGen s;
              s1 = s\<lparr>idGen := wid + 1,
                 waitCtx := (waitCtx s)(wid \<mapsto> \<lparr>wc_id = wid, wc_timeoutMs = timeoutMs, wc_key = key, wc_reqCtx = ctx\<rparr>),
                 keyWaiters := (keyWaiters s)(key := add_waiter wid (keyWaiters s key))\<rparr>
          in (0, if wait > 0
                 then s1\<lparr>timedWaiters := AList.update timeoutMs
                   (the (add_waiter wid (map_of (timedWaiters s1) timeoutMs))) (timedWaiters s1)\<rparr>
                 else s1))"

definition i64 :: "int \<Rightarrow> int" where
  "i64 x = signed_take_bit 63 x"

definition AddHandler :: "store_env \<Rightarrow> nat \<Rightarrow> SmemMessage \<Rightarrow> AccStoreServer \<Rightarrow> int \<times> AccStoreServer" where
  "AddHandler env ctx request s =
     (if length (keys request) \<noteq> 1 \<or> length (vals request) \<noteq> 1
      then invalid_body env ctx ''invalid request: key value should be one.'' s
      else let key = keys request ! 0; value = vals request ! 0 in
      if length key > MAX_KEY_LEN_SERVER then (INVALID_KEY, s)
      else case StrToLong value of None \<Rightarrow> (SMEM_ERROR, s)
      | Some valueNum \<Rightarrow>
        if value \<noteq> to_string valueNum
        then (SMEM_ERROR, ReplyWithMessage env ctx INVALID_MESSAGE (str ''invalid request: value should be a number.'') s)
        else case kvStore s key of
          None \<Rightarrow>
            let (waiters, s1) = take_key_waiters env key s;
                s2 = put_value key value s1;
                s3 = ReplyWithMessage env ctx SUCCESS (to_string valueNum) s2
            in (0, WakeupWaiters env waiters value s3)
        | Some old \<Rightarrow>
            (case StrToLong old of None \<Rightarrow> (SMEM_ERROR, s)
             | Some stored \<Rightarrow>
               let sum = i64 (stored + valueNum)
               in (0, ReplyWithMessage env ctx SUCCESS (to_string sum) (put_value key (to_string sum) s))))"

definition RemoveHandler :: "store_env \<Rightarrow> nat \<Rightarrow> SmemMessage \<Rightarrow> AccStoreServer \<Rightarrow> int \<times> AccStoreServer" where
  "RemoveHandler env ctx request s =
     (if length (keys request) \<noteq> 1 \<or> vals request \<noteq> []
      then invalid_body env ctx ''invalid request: key should be one and no values.'' s
      else let key = keys request ! 0 in
      if length key > MAX_KEY_LEN_SERVER then (INVALID_KEY, s)
      else
        let removed = (kvStore s key \<noteq> None);
            s1 = (if removed then s\<lparr>kvStore := (kvStore s)(key := None)\<rparr> else s)
        in (0, ReplyWithMessage env ctx (if removed then SUCCESS else NOT_EXIST)
                 (str (if removed then ''success'' else ''not exist'')) s1))"

text \<open>The vector that was moved into the store is empty when the waiters of \<open>AppendHandler\<close> are woken with it.\<close>

definition AppendHandler :: "store_env \<Rightarrow> nat \<Rightarrow> SmemMessage \<Rightarrow> AccStoreServer \<Rightarrow> int \<times> AccStoreServer" where
  "AppendHandler env ctx request s =
     (if length (keys request) \<noteq> 1 \<or> length (vals request) \<noteq> 1
      then invalid_body env ctx ''invalid request: key & value should be one.'' s
      else let key = keys request ! 0; value = vals request ! 0 in
      if length key > MAX_KEY_LEN_SERVER then (INVALID_KEY, s)
      else case kvStore s key of
        Some old \<Rightarrow>
          (0, ReplyWithMessage env ctx SUCCESS (to_string (int (length (old @ value)))) (put_value key (old @ value) s))
      | None \<Rightarrow>
          let (waiters, s1) = take_key_waiters env key s;
              s2 = put_value key value s1; moved = [];
              s3 = ReplyWithMessage env ctx SUCCESS (to_string (int (length value))) s2
          in (0, WakeupWaiters env waiters moved s3))"

definition CasHandler :: "store_env \<Rightarrow> nat \<Rightarrow> SmemMessage \<Rightarrow> AccStoreServer \<Rightarrow> int \<times> AccStoreServer" where
  "CasHandler env ctx request s =
     (if length (keys request) \<noteq> 1 \<or> length (vals request) \<noteq> 2
      then invalid_body env ctx ''invalid request: count(key)=1 & count(value)=2'' s
      else let key = keys request ! 0; expected = vals request ! 0; exchange = vals request ! 1 in
      if length key > MAX_KEY_LEN_SERVER then (INVALID_KEY, s)
      else
        let (exists, waiters, s1) =
          (case kvStore s key of
             Some old \<Rightarrow> if expected = old then (old, [], put_value key exchange s) else (old, [], s)
           | None \<Rightarrow>
             if expected = [] then
               let (waiters, s') = take_key_waiters env key (put_value key exchange s) in ([], waiters, s')
             else ([], [], s));
            response = Pack ((new_message (mt request))\<lparr>vals := [exists]\<rparr>);
            s2 = ReplyWithMessage env ctx SUCCESS response s1
        in (0, WakeupWaiters env waiters exchange s2))"

text \<open>The table of the handlers.\<close>

definition handle :: "store_env \<Rightarrow> int \<Rightarrow> nat \<Rightarrow> SmemMessage \<Rightarrow> AccStoreServer \<Rightarrow> int \<times> AccStoreServer" where
  "handle env now ctx request s =
     (case mt request of
        SET \<Rightarrow> SetHandler env ctx request s
      | GET \<Rightarrow> GetHandler env now ctx request s
      | ADD \<Rightarrow> AddHandler env ctx request s
      | REMOVE \<Rightarrow> RemoveHandler env ctx request s
      | APPEND \<Rightarrow> AppendHandler env ctx request s
      | CAS \<Rightarrow> CasHandler env ctx request s
      | INVALID_MSG \<Rightarrow>
          (SMEM_ERROR, ReplyWithMessage env ctx INVALID_MESSAGE (str ''invalid request message type'') s))"

text \<open>A request is parsed from a buffer of exactly its length with slack behind it, as the network layer hands it over.\<close>

definition ReceiveMessageHandler ::
  "store_env \<Rightarrow> int \<Rightarrow> nat \<Rightarrow> bytes \<Rightarrow> nat \<Rightarrow> AccStoreServer \<Rightarrow> (int, int \<times> AccStoreServer) res" where
  "ReceiveMessageHandler env now ctx mem dataLen s =
     (case Unpack mem dataLen (new_message INVALID_MSG) of
        Inl (Ret _) \<Rightarrow> Inr (SMEM_ERROR, ReplyWithMessage env ctx INVALID_MESSAGE (str ''invalid request'') s)
      | Inl e \<Rightarrow> Inl e
      | Inr (_, request) \<Rightarrow>
        Inr (handle env now ctx request s))"

text \<open>
  One round of the timer thread. The deadlines are visited in the order of the unordered map, and the first
  one that has not passed ends the visit.
\<close>

definition expired :: "store_env \<Rightarrow> int \<Rightarrow> AccStoreServer \<Rightarrow> int list" where
  "expired env now s = takeWhile (\<lambda>t. t \<le> now) (se_times env (map fst (timedWaiters s)))"

definition TimerRound :: "store_env \<Rightarrow> int \<Rightarrow> AccStoreServer \<Rightarrow> AccStoreServer" where
  "TimerRound env now s =
     (let ts = expired env now s;
          timeoutIds = remdups (concat (map (\<lambda>t. the (map_of (timedWaiters s) t)) ts));
          s1 = s\<lparr>timedWaiters := fold AList.delete ts (timedWaiters s)\<rparr>;
          (contexts, s2) = GetOutWaitersInLock env timeoutIds s1
      in fold (\<lambda>ctx. ReplyWithMessage env ctx TIMEOUT (str ''<timeout>'')) contexts s2)"

section \<open>Tickets\<close>

text \<open>
  Every request holds one ticket: in the hand of the handler that received it, at a waiter, or spent on a
  reply. The steps of the handlers move tickets and never copy one.
\<close>

definition answered :: "nat \<Rightarrow> AccStoreServer \<Rightarrow> nat" where
  "answered ctx s = length (filter (\<lambda>r. rp_ctx r = ctx) (replies s))"

definition pending :: "nat \<Rightarrow> AccStoreServer \<Rightarrow> nat set" where
  "pending ctx s = {i. \<exists>c. waitCtx s i = Some c \<and> wc_reqCtx c = ctx}"

definition tickets :: "nat \<Rightarrow> nat list \<Rightarrow> AccStoreServer \<Rightarrow> nat" where
  "tickets ctx hand s = answered ctx s + card (pending ctx s) + count_list hand ctx"

text \<open>The environment: replies can be sent, and unordered containers are walked completely.\<close>

definition can_reply :: "store_env \<Rightarrow> bool" where
  "can_reply env \<longleftrightarrow> (\<forall>b. se_create env b)"

definition walks :: "store_env \<Rightarrow> bool" where
  "walks env \<longleftrightarrow> (\<forall>xs. mset (se_ids env xs) = mset xs) \<and> (\<forall>ts. mset (se_times env ts) = mset ts)"

lemma pending_finite: "finite (dom (waitCtx s)) \<Longrightarrow> finite (pending ctx s)"
  by (rule finite_subset) (auto simp: pending_def)

lemma count_list_append: "count_list (xs @ ys) x = count_list xs x + count_list ys x"
  by (induction xs) auto

lemma get_out_fields:
  "get_out wid (h, s) = (h', s') \<Longrightarrow> kvStore s' = kvStore s \<and> keyWaiters s' = keyWaiters s \<and> idGen s' = idGen s \<and>
     replies s' = replies s \<and> waitCtx s' = (waitCtx s)(wid := None)"
  by (auto simp: get_out_def fun_upd_idem split: option.splits)

lemma get_out_hand: "fst (get_out wid (h, s)) = h @ (case waitCtx s wid of None \<Rightarrow> [] | Some c \<Rightarrow> [wc_reqCtx c])"
  by (simp add: get_out_def split: option.splits)

lemma get_out_tickets:
  assumes "finite (dom (waitCtx s))" "get_out wid (h, s) = (h', s')"
  shows "tickets ctx h' s' = tickets ctx h s"
proof -
  note f = get_out_fields[OF assms(2)]
  have h': "h' = h @ (case waitCtx s wid of None \<Rightarrow> [] | Some c \<Rightarrow> [wc_reqCtx c])"
    using get_out_hand[of wid h s] assms(2) by simp
  have pend: "pending ctx s' = pending ctx s - {wid}" using f by (auto simp: pending_def split: if_splits)
  have ans: "answered ctx s' = answered ctx s" using f by (simp add: answered_def)
  show ?thesis
  proof (cases "waitCtx s wid")
    case None
    then have "wid \<notin> pending ctx s" by (simp add: pending_def)
    then show ?thesis using None h' pend ans by (simp add: tickets_def)
  next
    case (Some c)
    have member: "wid \<in> pending ctx s \<longleftrightarrow> wc_reqCtx c = ctx" using Some by (simp add: pending_def)
    have "card (pending ctx s) = card (pending ctx s - {wid}) + (if wc_reqCtx c = ctx then 1 else 0)"
      using card_Suc_Diff1[OF pending_finite[OF assms(1)], of wid ctx] member by auto
    then show ?thesis using Some h' pend ans by (simp add: tickets_def count_list_append)
  qed
qed

lemma fold_get_out_fields:
  "fold get_out ids (h, s) = (h', s') \<Longrightarrow> kvStore s' = kvStore s \<and> keyWaiters s' = keyWaiters s \<and> idGen s' = idGen s \<and>
     replies s' = replies s \<and> waitCtx s' = (\<lambda>i. if i \<in> set ids then None else waitCtx s i)"
proof (induction ids arbitrary: h s)
  case (Cons i ids)
  obtain h1 s1 where g: "get_out i (h, s) = (h1, s1)" by fastforce
  then show ?case using Cons.IH[of h1 s1] Cons.prems get_out_fields[OF g] by (auto simp: fun_eq_iff)
qed simp

lemma fold_get_out_tickets:
  "finite (dom (waitCtx s)) \<Longrightarrow> fold get_out ids (h, s) = (h', s') \<Longrightarrow> tickets ctx h' s' = tickets ctx h s"
proof (induction ids arbitrary: h s)
  case (Cons i ids)
  obtain h1 s1 where g: "get_out i (h, s) = (h1, s1)" by fastforce
  have "dom (waitCtx s1) \<subseteq> dom (waitCtx s)" using get_out_fields[OF g] by (auto split: if_splits)
  then have "finite (dom (waitCtx s1))" using Cons.prems(1) finite_subset by blast
  then show ?case using Cons.IH[of s1 h1] Cons.prems get_out_tickets[OF Cons.prems(1) g] g by simp
qed simp

lemma fold_get_out_shift:
  "fold get_out ids (h, s) = (h @ fst (fold get_out ids ([], s)), snd (fold get_out ids ([], s)))"
proof (induction ids arbitrary: h s)
  case (Cons i ids)
  let ?new = "case waitCtx s i of None \<Rightarrow> [] | Some c \<Rightarrow> [wc_reqCtx c]" and ?t = "snd (get_out i ([], s))"
  have step: "get_out i (h, s) = (h @ ?new, ?t)" for h
    by (simp add: get_out_def split: option.splits)
  have "fold get_out (i # ids) (g, s) = ((g @ ?new) @ fst (fold get_out ids ([], ?t)), snd (fold get_out ids ([], ?t)))" for g
    using Cons.IH[of "g @ ?new" ?t] by (simp add: step[of g])
  from this[of h] this[of "[]"] show ?case by simp
qed simp

lemma GetOut_tickets:
  assumes "finite (dom (waitCtx s))" "GetOutWaitersInLock env ids s = (ws, s')"
  shows "tickets ctx (h @ ws) s' = tickets ctx h s"
proof -
  have "fold get_out (se_ids env ids) (h, s) = (h @ ws, s')"
    using assms(2) fold_get_out_shift[of "se_ids env ids" h s] by (simp add: GetOutWaitersInLock_def)
  then show ?thesis by (rule fold_get_out_tickets[OF assms(1)])
qed

lemma Reply_fields:
  "kvStore (ReplyWithMessage env c code b s) = kvStore s" "keyWaiters (ReplyWithMessage env c code b s) = keyWaiters s"
  "waitCtx (ReplyWithMessage env c code b s) = waitCtx s" "idGen (ReplyWithMessage env c code b s) = idGen s"
  "timedWaiters (ReplyWithMessage env c code b s) = timedWaiters s"
  by (simp_all add: ReplyWithMessage_def)

lemma Reply_tickets:
  "tickets ctx h (ReplyWithMessage env c code b s) \<le> tickets ctx (c # h) s"
  "can_reply env \<Longrightarrow> tickets ctx h (ReplyWithMessage env c code b s) = tickets ctx (c # h) s"
  by (auto simp: tickets_def ReplyWithMessage_def answered_def pending_def can_reply_def)

lemma fold_Reply_fields:
  "kvStore (fold (\<lambda>c. ReplyWithMessage env c code b) cs s) = kvStore s"
  "keyWaiters (fold (\<lambda>c. ReplyWithMessage env c code b) cs s) = keyWaiters s"
  "waitCtx (fold (\<lambda>c. ReplyWithMessage env c code b) cs s) = waitCtx s"
  "idGen (fold (\<lambda>c. ReplyWithMessage env c code b) cs s) = idGen s"
  "timedWaiters (fold (\<lambda>c. ReplyWithMessage env c code b) cs s) = timedWaiters s"
  by (induction cs arbitrary: s) (simp_all add: Reply_fields)

lemma fold_Reply_tickets:
  "tickets ctx h (fold (\<lambda>c. ReplyWithMessage env c code b) cs s) \<le> tickets ctx (h @ cs) s"
proof (induction cs arbitrary: s)
  case (Cons c cs)
  have "tickets ctx (h @ cs) (ReplyWithMessage env c code b s) \<le> tickets ctx (c # h @ cs) s"
    by (rule Reply_tickets(1))
  moreover have "tickets ctx (c # h @ cs) s = tickets ctx (h @ c # cs) s"
    by (simp add: tickets_def count_list_append)
  ultimately show ?case using Cons.IH[of "ReplyWithMessage env c code b s"] by simp
qed simp

lemma fold_Reply_tickets_eq:
  assumes "can_reply env"
  shows "tickets ctx h (fold (\<lambda>c. ReplyWithMessage env c code b) cs s) = tickets ctx (h @ cs) s"
proof (induction cs arbitrary: s)
  case (Cons c cs)
  have "tickets ctx (h @ cs) (ReplyWithMessage env c code b s) = tickets ctx (c # h @ cs) s"
    by (rule Reply_tickets(2)[OF assms])
  moreover have "tickets ctx (c # h @ cs) s = tickets ctx (h @ c # cs) s"
    by (simp add: tickets_def count_list_append)
  ultimately show ?case using Cons.IH[of "ReplyWithMessage env c code b s"] by simp
qed simp

section \<open>The invariant of the waiters\<close>

text \<open>
  A waiter is registered under its key, its key does not exist, and an id listed under a key belongs to that
  key. Ids listed under a deadline are waiters with that deadline.
\<close>

definition waiters_inv :: "AccStoreServer \<Rightarrow> bool" where
  "waiters_inv s \<longleftrightarrow> finite (dom (waitCtx s)) \<and>
     (\<forall>i c. waitCtx s i = Some c \<longrightarrow> wc_id c = i \<and> i < idGen s \<and> kvStore s (wc_key c) = None \<and>
        (\<exists>ids. keyWaiters s (wc_key c) = Some ids \<and> i \<in> set ids)) \<and>
     (\<forall>k ids. keyWaiters s k = Some ids \<longrightarrow> (\<forall>i \<in> set ids. i < idGen s \<and> (\<forall>c. waitCtx s i = Some c \<longrightarrow> wc_key c = k)))"

definition timed_inv :: "AccStoreServer \<Rightarrow> bool" where
  "timed_inv s \<longleftrightarrow> distinct (map fst (timedWaiters s)) \<and>
     (\<forall>t ids. map_of (timedWaiters s) t = Some ids \<longrightarrow>
        (\<forall>i \<in> set ids. \<exists>c. waitCtx s i = Some c \<and> wc_timeoutMs c = t))"

definition server_inv :: "AccStoreServer \<Rightarrow> bool" where
  "server_inv s \<longleftrightarrow> waiters_inv s \<and> timed_inv s"

lemma new_server_inv: "server_inv new_server"
  by (simp add: server_inv_def waiters_inv_def timed_inv_def new_server_def)

lemma Reply_inv [simp]: "server_inv (ReplyWithMessage env c code b s) = server_inv s"
  by (simp add: server_inv_def waiters_inv_def timed_inv_def Reply_fields)

lemma fold_Reply_inv [simp]: "server_inv (fold (\<lambda>c. ReplyWithMessage env c code b) cs s) = server_inv s"
  by (simp add: server_inv_def waiters_inv_def timed_inv_def fold_Reply_fields)

lemma Wakeup_inv [simp]: "server_inv (WakeupWaiters env ws v s) = server_inv s"
  by (simp add: WakeupWaiters_def)

lemma map_of_erase: "map_of (erase_timed t i al) u =
    (if u = t then (case map_of al t of None \<Rightarrow> None
       | Some ids \<Rightarrow> if removeAll i ids = [] then None else Some (removeAll i ids)) else map_of al u)"
  by (auto simp: erase_timed_def Let_def AList.delete_conv' AList.update_conv' split: option.splits)

lemma distinct_erase: "distinct (map fst al) \<Longrightarrow> distinct (map fst (erase_timed t i al))"
  by (auto simp: erase_timed_def Let_def AList.distinct_delete AList.distinct_update split: option.splits)

lemma get_out_timed:
  assumes "timed_inv s" "\<forall>c. waitCtx s i = Some c \<longrightarrow> wc_id c = i" "get_out i (h, s) = (h', s')"
  shows "timed_inv s'"
proof (cases "waitCtx s i")
  case None
  then show ?thesis using assms by (simp add: get_out_def)
next
  case (Some c)
  have s': "timedWaiters s' = erase_timed (wc_timeoutMs c) i (timedWaiters s)" "waitCtx s' = (waitCtx s)(i := None)"
    using Some assms(2,3) by (auto simp: get_out_def)
  have "\<exists>d. waitCtx s' j = Some d \<and> wc_timeoutMs d = t"
    if e: "map_of (timedWaiters s') t = Some ids" and j: "j \<in> set ids" for t ids j
  proof -
    obtain ids0 where old: "map_of (timedWaiters s) t = Some ids0" "j \<in> set ids0" "t = wc_timeoutMs c \<longrightarrow> j \<noteq> i"
      using e j unfolding s' map_of_erase by (auto split: if_splits option.splits)
    then obtain d where d: "waitCtx s j = Some d" "wc_timeoutMs d = t"
      using assms(1) unfolding timed_inv_def by blast
    then have "j \<noteq> i" using old(3) Some by auto
    then show ?thesis using d s' by simp
  qed
  then show ?thesis using assms(1) distinct_erase by (auto simp: timed_inv_def s')
qed

lemma fold_get_out_timed:
  "timed_inv s \<Longrightarrow> \<forall>i c. waitCtx s i = Some c \<longrightarrow> wc_id c = i \<Longrightarrow> fold get_out ids (h, s) = (h', s') \<Longrightarrow> timed_inv s'"
proof (induction ids arbitrary: h s)
  case (Cons i ids)
  obtain h1 s1 where g: "get_out i (h, s) = (h1, s1)" by fastforce
  have "timed_inv s1" by (rule get_out_timed[OF Cons.prems(1) _ g]) (use Cons.prems(2) in blast)
  moreover have "\<forall>i c. waitCtx s1 i = Some c \<longrightarrow> wc_id c = i"
    using get_out_fields[OF g] Cons.prems(2) by (auto split: if_splits)
  ultimately show ?case using Cons.IH[of s1 h1] Cons.prems(3) g by simp
qed simp

text \<open>Taking some waiters out keeps the invariant.\<close>

lemma GetOut_inv:
  assumes "server_inv s" "GetOutWaitersInLock env ids s = (ws, s')"
  shows "server_inv s' \<and> kvStore s' = kvStore s \<and> keyWaiters s' = keyWaiters s \<and> replies s' = replies s \<and> idGen s' = idGen s \<and>
    waitCtx s' = (\<lambda>i. if i \<in> set (se_ids env ids) then None else waitCtx s i)"
proof -
  have run: "fold get_out (se_ids env ids) ([], s) = (ws, s')" using assms(2) by (simp add: GetOutWaitersInLock_def)
  note f = fold_get_out_fields[OF run]
  have "\<forall>i c. waitCtx s i = Some c \<longrightarrow> wc_id c = i" using assms(1) by (simp add: server_inv_def waiters_inv_def)
  then have t: "timed_inv s'" using fold_get_out_timed[OF _ _ run] assms(1) by (simp add: server_inv_def)
  have "dom (waitCtx s') \<subseteq> dom (waitCtx s)" using f by (auto split: if_splits)
  moreover have "finite (dom (waitCtx s))" using assms(1) by (simp add: server_inv_def waiters_inv_def)
  ultimately have "finite (dom (waitCtx s'))" by (rule finite_subset)
  then have "waiters_inv s'"
    using assms(1) f by (auto simp: server_inv_def waiters_inv_def split: if_splits)
  then show ?thesis using t f by (simp add: server_inv_def)
qed

lemma walks_set: "walks env \<Longrightarrow> set (se_ids env xs) = set xs" "walks env \<Longrightarrow> set (se_times env ts) = set ts"
  by (metis mset_eq_setD walks_def)+

text \<open>The waiters of one key.\<close>

definition waits_for :: "bytes \<Rightarrow> AccStoreServer \<Rightarrow> nat set" where
  "waits_for key s = {i. \<exists>c. waitCtx s i = Some c \<and> wc_key c = key}"

lemma take_key_waiters_spec:
  assumes inv: "server_inv s" and w: "walks env" and run: "take_key_waiters env key s = (ws, s')"
  shows "server_inv s' \<and> kvStore s' = kvStore s \<and> replies s' = replies s \<and> idGen s' = idGen s \<and>
    waitCtx s' = (\<lambda>i. if i \<in> waits_for key s then None else waitCtx s i) \<and>
    (\<forall>ctx h. tickets ctx (h @ ws) s' = tickets ctx h s)"
proof (cases "keyWaiters s key")
  case None
  then have none: "waits_for key s = {}"
    using inv by (fastforce simp: server_inv_def waiters_inv_def waits_for_def)
  have "s' = s" "ws = []" using None run by (simp_all add: take_key_waiters_def)
  then show ?thesis using inv none by simp
next
  case (Some ids)
  obtain s1 where g: "GetOutWaitersInLock env ids s = (ws, s1)" and s': "s' = s1\<lparr>keyWaiters := (keyWaiters s1)(key := None)\<rparr>"
    using run Some by (auto simp: take_key_waiters_def split: prod.splits)
  note gi = GetOut_inv[OF inv g, unfolded walks_set(1)[OF w]]
  have ids: "i \<in> set ids \<longleftrightarrow> i \<in> waits_for key s" if nn: "waitCtx s i \<noteq> None" for i
  proof -
    obtain c where c: "waitCtx s i = Some c" using nn by blast
    have "wc_key c = key" if "i \<in> set ids"
      using inv Some c that by (auto simp: server_inv_def waiters_inv_def)
    moreover have "i \<in> set ids" if "wc_key c = key"
      using inv Some c that by (fastforce simp: server_inv_def waiters_inv_def)
    ultimately show ?thesis using c by (auto simp: waits_for_def)
  qed
  have wait: "waitCtx s1 = (\<lambda>i. if i \<in> waits_for key s then None else waitCtx s i)"
  proof
    fix i
    show "waitCtx s1 i = (if i \<in> waits_for key s then None else waitCtx s i)"
      using gi ids[of i] by (cases "waitCtx s i = None") auto
  qed
  have none: "waitCtx s1 i = Some c \<Longrightarrow> wc_key c \<noteq> key" for i c
    unfolding wait by (auto simp: waits_for_def split: if_splits)
  have "waiters_inv s1" using gi by (simp add: server_inv_def)
  then have "waiters_inv s'"
    using none unfolding waiters_inv_def s' by auto
  moreover have "timed_inv s'"
  proof -
    have "timed_inv s1" using gi by (simp add: server_inv_def)
    then show ?thesis by (simp add: s' timed_inv_def)
  qed
  moreover have "tickets ctx (h @ ws) s' = tickets ctx h s" for ctx h
  proof -
    have "finite (dom (waitCtx s))" using inv by (simp add: server_inv_def waiters_inv_def)
    from GetOut_tickets[OF this g, of ctx h] show ?thesis
      by (simp add: s' tickets_def answered_def pending_def)
  qed
  ultimately show ?thesis using gi wait by (simp add: s' server_inv_def)
qed

lemma put_value_inv:
  assumes "server_inv s" "waits_for key s = {}"
  shows "server_inv (put_value key v s)"
  using assms by (fastforce simp: server_inv_def waiters_inv_def timed_inv_def put_value_def waits_for_def)

lemma put_value_tickets [simp]: "tickets ctx h (put_value key v s) = tickets ctx h s"
  by (simp add: tickets_def answered_def pending_def put_value_def)

lemma present_no_waiters: "server_inv s \<Longrightarrow> kvStore s key \<noteq> None \<Longrightarrow> waits_for key s = {}"
  by (auto simp: server_inv_def waiters_inv_def waits_for_def)


section \<open>What every handler keeps\<close>

text \<open>
  The outcome of a handler for the tickets: with the request's own ticket in hand it leaves the invariant
  and copies no ticket; none is lost, but the own one when the handler does not answer success.
\<close>

definition keeps_tickets :: "store_env \<Rightarrow> nat \<Rightarrow> AccStoreServer \<Rightarrow> int \<times> AccStoreServer \<Rightarrow> bool" where
  "keeps_tickets env own s out \<longleftrightarrow> server_inv (snd out) \<and>
     (\<forall>ctx. tickets ctx [] (snd out) \<le> tickets ctx [own] s) \<and>
     (can_reply env \<longrightarrow> (\<forall>ctx. ctx \<noteq> own \<or> fst out = 0 \<longrightarrow> tickets ctx [] (snd out) = tickets ctx [own] s))"

lemma keeps_tickets_silent: "server_inv s \<Longrightarrow> ret \<noteq> 0 \<Longrightarrow> keeps_tickets env own s (ret, s)"
  by (simp add: keeps_tickets_def tickets_def)

lemma keeps_tickets_reply:
  assumes "server_inv s'" "\<forall>ctx h. tickets ctx h s' = tickets ctx h s"
  shows "keeps_tickets env own s (ret, ReplyWithMessage env own code b s')"
  using assms Reply_tickets[where h = "[]" and c = own and env = env and code = code and b = b and s = s']
  by (simp add: keeps_tickets_def)

lemma keeps_tickets_wake:
  assumes "server_inv s'" "\<forall>ctx h. tickets ctx (h @ ws) s' = tickets ctx h s"
  shows "keeps_tickets env own s (ret, WakeupWaiters env ws v (ReplyWithMessage env own code b s'))"
proof -
  let ?r = "ReplyWithMessage env own code b s'"
  have "tickets ctx [] (WakeupWaiters env ws v ?r) \<le> tickets ctx [own] s" for ctx
  proof -
    have "tickets ctx [] (WakeupWaiters env ws v ?r) \<le> tickets ctx ([] @ ws) ?r"
      unfolding WakeupWaiters_def by (rule fold_Reply_tickets)
    also have "\<dots> \<le> tickets ctx ([own] @ ws) s'" using Reply_tickets(1)[of ctx ws] by simp
    finally show ?thesis using assms(2)[rule_format, of ctx "[own]"] by simp
  qed
  moreover have "tickets ctx [] (WakeupWaiters env ws v ?r) = tickets ctx [own] s" if "can_reply env" for ctx
  proof -
    have "tickets ctx [] (WakeupWaiters env ws v ?r) = tickets ctx ([] @ ws) ?r"
      unfolding WakeupWaiters_def by (rule fold_Reply_tickets_eq[OF that])
    also have "\<dots> = tickets ctx ([own] @ ws) s'" using Reply_tickets(2)[OF that, of ctx ws] by simp
    finally show ?thesis using assms(2)[rule_format, of ctx "[own]"] by simp
  qed
  ultimately show ?thesis using assms(1) by (simp add: keeps_tickets_def)
qed

text \<open>The branch in which a handler creates its key.\<close>

lemma keeps_tickets_create:
  assumes inv: "server_inv s" and w: "walks env" and take: "take_key_waiters env key s = (ws, s1)"
  shows "keeps_tickets env own s (ret, WakeupWaiters env ws v (ReplyWithMessage env own code b (put_value key x s1)))"
proof (rule keeps_tickets_wake)
  note t = take_key_waiters_spec[OF inv w take]
  have "waits_for key s1 = {}" using t by (auto simp: waits_for_def split: if_splits)
  then show "server_inv (put_value key x s1)" using t by (intro put_value_inv) simp_all
  show "\<forall>ctx h. tickets ctx (h @ ws) (put_value key x s1) = tickets ctx h s" using t by simp
qed

lemma keeps_tickets_change:
  assumes "server_inv s" "kvStore s key \<noteq> None"
  shows "keeps_tickets env own s (ret, ReplyWithMessage env own code b (put_value key x s))"
  using assms present_no_waiters by (intro keeps_tickets_reply) (simp_all add: put_value_inv)

lemma keeps_tickets_invalid: "server_inv s \<Longrightarrow> keeps_tickets env own s (invalid_body env own text s)"
  unfolding invalid_body_def by (rule keeps_tickets_reply) simp_all

lemma SetHandler_tickets:
  assumes "server_inv s" "walks env"
  shows "keeps_tickets env own s (SetHandler env own request s)"
proof -
  let ?key = "keys request ! 0" and ?v = "vals request ! 0"
  obtain ws s1 where take: "take_key_waiters env ?key s = (ws, s1)" by fastforce
  show ?thesis
    using keeps_tickets_create[OF assms take, of own 0 ?v SUCCESS "str ''success''" ?v]
      keeps_tickets_change[OF assms(1), of ?key env own 0 SUCCESS "str ''success''" ?v]
      keeps_tickets_invalid[OF assms(1)] keeps_tickets_silent[OF assms(1), of INVALID_KEY] take
    by (auto simp: SetHandler_def Let_def WakeupWaiters_def store_codes)
qed


lemma RemoveHandler_tickets:
  assumes inv: "server_inv s"
  shows "keeps_tickets env own s (RemoveHandler env own request s)"
proof -
  let ?key = "keys request ! 0"
  have "server_inv (s\<lparr>kvStore := (kvStore s)(?key := None)\<rparr>)"
    using inv by (auto simp: server_inv_def waiters_inv_def timed_inv_def)
  moreover have "tickets ctx h (s\<lparr>kvStore := (kvStore s)(?key := None)\<rparr>) = tickets ctx h s" for ctx h
    by (simp add: tickets_def answered_def pending_def)
  ultimately show ?thesis
    using keeps_tickets_invalid[OF inv] keeps_tickets_silent[OF inv, of INVALID_KEY]
      keeps_tickets_reply[of "s\<lparr>kvStore := (kvStore s)(?key := None)\<rparr>" s] keeps_tickets_reply[of s s] inv
    by (auto simp: RemoveHandler_def Let_def store_codes)
qed

lemma AppendHandler_tickets:
  assumes "server_inv s" "walks env"
  shows "keeps_tickets env own s (AppendHandler env own request s)"
proof -
  let ?key = "keys request ! 0" and ?v = "vals request ! 0"
  obtain ws s1 where take: "take_key_waiters env ?key s = (ws, s1)" by fastforce
  show ?thesis
    using keeps_tickets_create[OF assms take] keeps_tickets_change[OF assms(1), of ?key]
      keeps_tickets_invalid[OF assms(1)] keeps_tickets_silent[OF assms(1), of INVALID_KEY] take
    by (auto simp: AppendHandler_def Let_def store_codes split: option.splits)
qed

lemma AddHandler_tickets:
  assumes "server_inv s" "walks env"
  shows "keeps_tickets env own s (AddHandler env own request s)"
proof -
  let ?key = "keys request ! 0" and ?v = "vals request ! 0"
  obtain ws s1 where take: "take_key_waiters env ?key s = (ws, s1)" by fastforce
  have same: "keeps_tickets env own s (ret, ReplyWithMessage env own code b s)" for ret code b
    by (rule keeps_tickets_reply[OF assms(1)]) simp
  show ?thesis
    using keeps_tickets_create[OF assms take] keeps_tickets_change[OF assms(1), of ?key] same
      keeps_tickets_invalid[OF assms(1)] keeps_tickets_silent[OF assms(1)] take
    by (auto simp: AddHandler_def Let_def store_codes split: option.splits)
qed

lemma take_key_waiters_put:
  "take_key_waiters env key (put_value key v s) = (fst (take_key_waiters env key s), put_value key v (snd (take_key_waiters env key s)))"
proof -
  have step: "get_out i (h, put_value key v s) = (fst (get_out i (h, s)), put_value key v (snd (get_out i (h, s))))" for i h s
    by (simp add: get_out_def put_value_def split: option.splits)
  have "fold get_out ids (h, put_value key v s) =
      (fst (fold get_out ids (h, s)), put_value key v (snd (fold get_out ids (h, s))))" for ids h s
  proof (induction ids arbitrary: h s)
    case (Cons i ids)
    show ?case using Cons.IH[of "fst (get_out i (h, s))" "snd (get_out i (h, s))"] by (simp add: step)
  qed simp
  then show ?thesis
    by (auto simp: take_key_waiters_def GetOutWaitersInLock_def put_value_def split: option.splits prod.splits)
qed

lemma CasHandler_tickets:
  assumes "server_inv s" "walks env"
  shows "keeps_tickets env own s (CasHandler env own request s)"
proof -
  let ?key = "keys request ! 0" and ?v = "vals request ! 1"
  obtain ws s1 where take: "take_key_waiters env ?key s = (ws, s1)" by fastforce
  have same: "keeps_tickets env own s (ret, ReplyWithMessage env own code b s)" for ret code b
    by (rule keeps_tickets_reply[OF assms(1)]) simp
  show ?thesis
    using keeps_tickets_create[OF assms take] keeps_tickets_change[OF assms(1), of ?key] same
      keeps_tickets_invalid[OF assms(1)] keeps_tickets_silent[OF assms(1)]
    by (auto simp: CasHandler_def Let_def store_codes take_key_waiters_put take WakeupWaiters_def split: option.splits)
qed


text \<open>A request that has to wait keeps its ticket at the new waiter.\<close>

definition enter_waiter :: "int \<Rightarrow> bytes \<Rightarrow> nat \<Rightarrow> AccStoreServer \<Rightarrow> AccStoreServer" where
  "enter_waiter t key ctx s = s\<lparr>idGen := idGen s + 1,
     waitCtx := (waitCtx s)(idGen s \<mapsto> \<lparr>wc_id = idGen s, wc_timeoutMs = t, wc_key = key, wc_reqCtx = ctx\<rparr>),
     keyWaiters := (keyWaiters s)(key := add_waiter (idGen s) (keyWaiters s key))\<rparr>"

lemma fresh_id: "server_inv s \<Longrightarrow> waitCtx s (idGen s) = None"
  by (cases "waitCtx s (idGen s)") (auto simp: server_inv_def waiters_inv_def)

lemma enter_waiter_inv:
  assumes inv: "server_inv s" and absent: "kvStore s key = None"
  shows "server_inv (enter_waiter t key ctx s)"
proof -
  let ?s = "enter_waiter t key ctx s"
  have w: "waiters_inv s" and tm: "timed_inv s" using inv by (simp_all add: server_inv_def)
  have old: "i < idGen s \<and> (\<forall>c. waitCtx s i = Some c \<longrightarrow> wc_key c = k)"
    if "keyWaiters s k = Some ids" "i \<in> set ids" for k ids i
    using w that unfolding waiters_inv_def by blast
  have keys: "keyWaiters ?s k = Some ids \<Longrightarrow> i \<in> set ids \<Longrightarrow>
      i = idGen s \<and> k = key \<or> (\<exists>ids0. keyWaiters s k = Some ids0 \<and> i \<in> set ids0)" for k ids i
    by (auto simp: enter_waiter_def add_waiter_def split: if_splits option.splits)
  have wait: "waitCtx ?s i = Some c \<Longrightarrow> i \<noteq> idGen s \<Longrightarrow> waitCtx s i = Some c" for i c
    by (simp add: enter_waiter_def)
  have "waiters_inv ?s"
    unfolding waiters_inv_def
  proof (intro conjI allI impI ballI)
    show "finite (dom (waitCtx ?s))" using w by (simp add: enter_waiter_def waiters_inv_def)
  next
    fix i c assume c: "waitCtx ?s i = Some c"
    show "wc_id c = i" "i < idGen ?s" "kvStore ?s (wc_key c) = None"
      "\<exists>ids. keyWaiters ?s (wc_key c) = Some ids \<and> i \<in> set ids"
    proof -
      have "wc_id c = i \<and> i < idGen ?s \<and> kvStore ?s (wc_key c) = None \<and>
          (\<exists>ids. keyWaiters ?s (wc_key c) = Some ids \<and> i \<in> set ids)"
      proof (cases "i = idGen s")
        case True
        then show ?thesis using c absent by (auto simp: enter_waiter_def add_waiter_def split: option.splits)
      next
        case False
        then obtain ids where o: "wc_id c = i" "i < idGen s" "kvStore s (wc_key c) = None"
          "keyWaiters s (wc_key c) = Some ids" "i \<in> set ids"
          using w wait[OF c] unfolding waiters_inv_def by blast
        then show ?thesis by (auto simp: enter_waiter_def add_waiter_def)
      qed
      then show "wc_id c = i" "i < idGen ?s" "kvStore ?s (wc_key c) = None"
        "\<exists>ids. keyWaiters ?s (wc_key c) = Some ids \<and> i \<in> set ids" by blast+
    qed
  next
    fix k ids i assume k: "keyWaiters ?s k = Some ids" "i \<in> set ids"
    show "i < idGen ?s" using keys[OF k] old by (auto simp: enter_waiter_def less_Suc_eq)
    fix c assume c: "waitCtx ?s i = Some c"
    show "wc_key c = k" using keys[OF k] old c by (auto simp: enter_waiter_def split: if_splits)
  qed
  moreover have "timed_inv ?s"
    using tm fresh_id[OF inv] unfolding timed_inv_def by (fastforce simp: enter_waiter_def)
  ultimately show ?thesis by (simp add: server_inv_def)
qed

lemma enter_waiter_tickets:
  assumes inv: "server_inv s"
  shows "tickets c [] (enter_waiter t key ctx s) = tickets c [ctx] s"
proof -
  have fin: "finite (pending c s)" using inv by (intro pending_finite) (simp add: server_inv_def waiters_inv_def)
  have "idGen s \<notin> pending c s" using fresh_id[OF inv] by (simp add: pending_def)
  moreover have "pending c (enter_waiter t key ctx s) = (if c = ctx then insert (idGen s) (pending c s) else pending c s)"
    using fresh_id[OF inv] by (auto simp: pending_def enter_waiter_def)
  ultimately show ?thesis using fin by (simp add: tickets_def answered_def enter_waiter_def)
qed

definition enter_timed :: "int \<Rightarrow> nat \<Rightarrow> AccStoreServer \<Rightarrow> AccStoreServer" where
  "enter_timed t wid s =
     s\<lparr>timedWaiters := AList.update t (the (add_waiter wid (map_of (timedWaiters s) t))) (timedWaiters s)\<rparr>"

lemma enter_timed_inv:
  assumes "server_inv s" "waitCtx s wid = Some c" "wc_timeoutMs c = t"
  shows "server_inv (enter_timed t wid s)"
proof -
  have "timed_inv (enter_timed t wid s)"
    using assms unfolding timed_inv_def server_inv_def
    by (auto simp: enter_timed_def AList.distinct_update AList.update_conv' add_waiter_def split: if_splits option.splits)
  then show ?thesis using assms(1) by (simp add: server_inv_def waiters_inv_def enter_timed_def)
qed

lemma enter_timed_tickets: "tickets c h (enter_timed t wid s) = tickets c h s"
  by (simp add: enter_timed_def tickets_def answered_def pending_def)

lemma GetHandler_wait:
  assumes "length (keys request) = 1" "vals request = []" "length (keys request ! 0) \<le> MAX_KEY_LEN_SERVER"
    and "kvStore s (keys request ! 0) = None" "sint (userDef request) \<noteq> 0" "sint (userDef request) \<le> 2 ^ 31 - 1"
  shows "GetHandler env now ctx request s =
    (let s1 = enter_waiter (now + sint (userDef request)) (keys request ! 0) ctx s
     in (0, if sint (userDef request) > 0 then enter_timed (now + sint (userDef request)) (idGen s) s1 else s1))"
  using assms by (simp add: GetHandler_def Let_def enter_waiter_def enter_timed_def)

lemma GetHandler_tickets:
  assumes inv: "server_inv s"
  shows "keeps_tickets env own s (GetHandler env now own request s)"
proof (cases "length (keys request) = 1 \<and> vals request = [] \<and> length (keys request ! 0) \<le> MAX_KEY_LEN_SERVER \<and>
    kvStore s (keys request ! 0) = None \<and> sint (userDef request) \<noteq> 0 \<and> sint (userDef request) \<le> 2 ^ 31 - 1")
  case True
  let ?t = "now + sint (userDef request)"
  let ?s1 = "enter_waiter ?t (keys request ! 0) own s"
  have i1: "server_inv ?s1" using True by (intro enter_waiter_inv[OF inv]) simp
  have "waitCtx ?s1 (idGen s) = Some \<lparr>wc_id = idGen s, wc_timeoutMs = ?t, wc_key = keys request ! 0, wc_reqCtx = own\<rparr>"
    by (simp add: enter_waiter_def)
  then have i2: "server_inv (enter_timed ?t (idGen s) ?s1)" by (rule enter_timed_inv[OF i1]) simp
  show ?thesis
    using True i1 i2 by (simp add: GetHandler_wait Let_def keeps_tickets_def enter_timed_tickets enter_waiter_tickets[OF inv])
next
  case False
  have same: "keeps_tickets env own s (ret, ReplyWithMessage env own code b s)" for ret code b
    by (rule keeps_tickets_reply[OF inv]) simp
  show ?thesis
    using False same keeps_tickets_invalid[OF inv] keeps_tickets_silent[OF inv]
    by (auto simp: GetHandler_def Let_def store_codes split: option.splits)
qed


lemma handle_tickets:
  assumes "server_inv s" "walks env"
  shows "keeps_tickets env own s (handle env now own m s)"
proof -
  have same: "keeps_tickets env own s (ret, ReplyWithMessage env own code b s)" for ret code b
    by (rule keeps_tickets_reply[OF assms(1)]) simp
  show ?thesis
    using same SetHandler_tickets[OF assms(1,2)] GetHandler_tickets[OF assms(1)] AddHandler_tickets[OF assms(1,2)]
      RemoveHandler_tickets[OF assms(1)] AppendHandler_tickets[OF assms(1,2)] CasHandler_tickets[OF assms(1,2)]
    by (cases "mt m") (simp_all add: handle_def)
qed

lemma ReceiveMessageHandler_tickets:
  assumes "server_inv s" "walks env" "ReceiveMessageHandler env now own mem len s = Inr out"
  shows "keeps_tickets env own s out"
proof -
  have same: "keeps_tickets env own s (ret, ReplyWithMessage env own code b s)" for ret code b
    by (rule keeps_tickets_reply[OF assms(1)]) simp
  show ?thesis
    using assms(3) same handle_tickets[OF assms(1,2)]
    by (auto simp: ReceiveMessageHandler_def split: sum.splits fault.splits)
qed

section \<open>The timer\<close>

lemma map_of_fold_delete: "map_of (fold AList.delete ts al) t = (if t \<in> set ts then None else map_of al t)"
  by (induction ts arbitrary: al) (auto simp: AList.delete_conv')

lemma distinct_fold_delete: "distinct (map fst al) \<Longrightarrow> distinct (map fst (fold AList.delete ts al))"
  by (induction ts arbitrary: al) (auto simp: AList.distinct_delete)

lemma expired_in: "walks env \<Longrightarrow> t \<in> set (expired env now s) \<Longrightarrow> t \<le> now \<and> t \<in> fst ` set (timedWaiters s)"
  using walks_set(2)[of env "map fst (timedWaiters s)"] by (auto simp: expired_def dest: set_takeWhileD)

lemma TimerRound_keeps:
  assumes inv: "server_inv s" and w: "walks env"
  shows "server_inv (TimerRound env now s) \<and> kvStore (TimerRound env now s) = kvStore s \<and>
    tickets ctx [] (TimerRound env now s) \<le> tickets ctx [] s \<and>
    (can_reply env \<longrightarrow> tickets ctx [] (TimerRound env now s) = tickets ctx [] s) \<and>
    (\<forall>i c. waitCtx s i = Some c \<and> waitCtx (TimerRound env now s) i = None \<longrightarrow> wc_timeoutMs c \<le> now)"
proof -
  let ?ts = "expired env now s"
  let ?ids = "remdups (concat (map (\<lambda>t. the (map_of (timedWaiters s) t)) ?ts))"
  define s1 where "s1 = s\<lparr>timedWaiters := fold AList.delete ?ts (timedWaiters s)\<rparr>"
  obtain ws s2 where g: "GetOutWaitersInLock env ?ids s1 = (ws, s2)" by fastforce
  have s': "TimerRound env now s = fold (\<lambda>ctx. ReplyWithMessage env ctx TIMEOUT (str ''<timeout>'')) ws s2"
    by (simp add: TimerRound_def s1_def[symmetric] g)
  have tm: "timed_inv s" using inv by (simp add: server_inv_def)
  have "timed_inv s1"
    using tm unfolding timed_inv_def s1_def by (auto simp: map_of_fold_delete distinct_fold_delete split: if_splits)
  then have inv1: "server_inv s1" using inv by (simp add: server_inv_def waiters_inv_def s1_def)
  have fin: "finite (dom (waitCtx s1))" using inv1 by (simp add: server_inv_def waiters_inv_def)
  note gi = GetOut_inv[OF inv1 g]
  have t1: "tickets ctx ([] @ ws) s2 = tickets ctx [] s"
    using GetOut_tickets[OF fin g, of ctx "[]"] by (simp add: s1_def tickets_def answered_def pending_def)
  have early: "wc_timeoutMs c \<le> now" if c: "waitCtx s i = Some c" and gone: "waitCtx (TimerRound env now s) i = None" for i c
  proof -
    have "i \<in> set ?ids" using gone gi walks_set(1)[OF w] c by (auto simp: s' fold_Reply_fields s1_def split: if_splits)
    then obtain t where t: "t \<in> set ?ts" "i \<in> set (the (map_of (timedWaiters s) t))" by auto
    then obtain ids where "map_of (timedWaiters s) t = Some ids"
      using expired_in[OF w t(1)] by (metis imageE map_of_eq_None_iff not_Some_eq)
    then have "wc_timeoutMs c = t" using tm t(2) c unfolding timed_inv_def by fastforce
    then show ?thesis using expired_in[OF w t(1)] by simp
  qed
  have "tickets ctx [] (TimerRound env now s) \<le> tickets ctx ([] @ ws) s2" unfolding s' by (rule fold_Reply_tickets)
  moreover have "can_reply env \<Longrightarrow> tickets ctx [] (TimerRound env now s) = tickets ctx ([] @ ws) s2"
    unfolding s' by (rule fold_Reply_tickets_eq)
  ultimately show ?thesis using gi early t1 by (auto simp: s' fold_Reply_fields s1_def)
qed

section \<open>Runs of the server\<close>

datatype store_event = Receive int nat bytes nat | Tick int

fun store_run :: "store_env \<Rightarrow> store_event list \<Rightarrow> AccStoreServer \<Rightarrow> (int, (nat \<times> int) list \<times> AccStoreServer) res" where
  "store_run env [] s = Inr ([], s)"
| "store_run env (Receive now ctx mem len # es) s =
     rbind (ReceiveMessageHandler env now ctx mem len s) (\<lambda>(ret, s1).
     rbind (store_run env es s1) (\<lambda>(results, s2). Inr ((ctx, ret) # results, s2)))"
| "store_run env (Tick now # es) s = store_run env es (TimerRound env now s)"

fun event_ctxs :: "store_event list \<Rightarrow> nat list" where
  "event_ctxs [] = []"
| "event_ctxs (Receive now ctx mem len # es) = ctx # event_ctxs es"
| "event_ctxs (Tick now # es) = event_ctxs es"

lemma store_run_tickets:
  assumes "store_run env es s = Inr (results, s')" "server_inv s" "walks env"
  shows "server_inv s' \<and> map fst results = event_ctxs es \<and>
    tickets ctx [] s' \<le> tickets ctx [] s + count_list (event_ctxs es) ctx \<and>
    (can_reply env \<and> (\<forall>ret. (ctx, ret) \<in> set results \<longrightarrow> ret = 0) \<longrightarrow>
       tickets ctx [] s' = tickets ctx [] s + count_list (event_ctxs es) ctx)"
  using assms(1,2)
proof (induction es arbitrary: s results)
  case Nil
  then show ?case by simp
next
  case (Cons e es)
  show ?case
  proof (cases e)
    case (Receive now own mem len)
    obtain ret s1 rs where run: "ReceiveMessageHandler env now own mem len s = Inr (ret, s1)"
      "store_run env es s1 = Inr (rs, s')" "results = (own, ret) # rs"
      using Cons.prems(1) by (auto simp: Receive rbind_eq_Inr)
    have k: "keeps_tickets env own s (ret, s1)"
      by (rule ReceiveMessageHandler_tickets[OF Cons.prems(2) assms(3) run(1)])
    then have ih: "server_inv s' \<and> map fst rs = event_ctxs es \<and>
      tickets ctx [] s' \<le> tickets ctx [] s1 + count_list (event_ctxs es) ctx \<and>
      (can_reply env \<and> (\<forall>ret. (ctx, ret) \<in> set rs \<longrightarrow> ret = 0) \<longrightarrow>
         tickets ctx [] s' = tickets ctx [] s1 + count_list (event_ctxs es) ctx)"
      by (intro Cons.IH[OF run(2)]) (simp add: keeps_tickets_def)
    have own: "tickets ctx [own] s = tickets ctx [] s + (if own = ctx then 1 else 0)" by (simp add: tickets_def)
    have le: "tickets ctx [] s1 \<le> tickets ctx [own] s" using k by (simp add: keeps_tickets_def)
    have eq: "tickets ctx [] s1 = tickets ctx [own] s"
      if "can_reply env" "\<forall>ret. (ctx, ret) \<in> set results \<longrightarrow> ret = 0"
      using k that run(3) by (cases "ctx = own") (simp_all add: keeps_tickets_def)
    show ?thesis using ih le eq own run(3) by (auto simp: Receive)
  next
    case (Tick now)
    have run: "store_run env es (TimerRound env now s) = Inr (results, s')" using Cons.prems(1) by (simp add: Tick)
    note t = TimerRound_keeps[OF Cons.prems(2) assms(3), of now ctx]
    then show ?thesis using Cons.IH[OF run] by (simp add: Tick)
  qed
qed


lemma new_server_tickets: "tickets ctx [] new_server = 0"
  by (simp add: tickets_def answered_def pending_def new_server_def)

lemma count_list_distinct: "distinct xs \<Longrightarrow> count_list xs x = (if x \<in> set xs then 1 else 0)"
  by (induction xs) auto

section \<open>Who is woken\<close>

lemma fold_get_out_ctxs:
  "waitCtx s i = Some c \<Longrightarrow> i \<in> set ids \<Longrightarrow> wc_reqCtx c \<in> set (fst (fold get_out ids (h, s)))"
proof (induction ids arbitrary: h s)
  case (Cons j ids)
  obtain h1 s1 where g: "get_out j (h, s) = (h1, s1)" by fastforce
  show ?case
  proof (cases "i = j")
    case True
    then have "wc_reqCtx c \<in> set h1" using Cons.prems(1) g by (auto simp: get_out_def)
    then show ?thesis using fold_get_out_shift[of ids h1 s1] g by simp
  next
    case False
    then have "waitCtx s1 i = Some c" using get_out_fields[OF g] Cons.prems(1) by simp
    then show ?thesis using Cons.IH[of s1 h1] Cons.prems(2) False g by simp
  qed
qed simp

lemma take_key_waiters_ctxs:
  assumes "server_inv s" "walks env" "waitCtx s i = Some c" "take_key_waiters env (wc_key c) s = (ws, s')"
  shows "wc_reqCtx c \<in> set ws"
proof -
  obtain ids where ids: "keyWaiters s (wc_key c) = Some ids" "i \<in> set ids"
    using assms(1,3) unfolding server_inv_def waiters_inv_def by blast
  have "i \<in> set (se_ids env ids)" using ids(2) walks_set(1)[OF assms(2)] by simp
  then show ?thesis
    using fold_get_out_ctxs[OF assms(3), of "se_ids env ids" "[]"] assms(4) ids(1)
    by (auto simp: take_key_waiters_def GetOutWaitersInLock_def split: prod.splits)
qed

lemma fold_Reply_replies:
  "can_reply env \<Longrightarrow> replies (fold (\<lambda>c. ReplyWithMessage env c code b) cs s) =
     replies s @ map (\<lambda>c. \<lparr>rp_ctx = c, rp_code = code, rp_body = b\<rparr>) cs"
  by (induction cs arbitrary: s) (simp_all add: ReplyWithMessage_def can_reply_def)

lemma wake_response_unpacks:
  assumes "length v \<le> unat MAX_VALUE_SIZE"
  shows "Unpack (wake_response v) (length (wake_response v)) (new_message INVALID_MSG) =
    Inr (int (length (wake_response v)), (new_message GET)\<lparr>vals := [v]\<rparr>)"
  unfolding wake_response_def
  by (rule Unpack_holds) (use assms in \<open>simp_all add: packable_def new_message_def holds_def packer_limits\<close>)

section \<open>The store as a map\<close>

text \<open>
  The contract of the store without its waiters: what a request does to the map and what it is answered; no
  answer means that it waits or is dropped.
\<close>

definition kv_spec :: "SmemMessage \<Rightarrow> (bytes \<Rightarrow> bytes option) \<Rightarrow> (bytes \<Rightarrow> bytes option) \<times> (int \<times> bytes) option" where
  "kv_spec m kv =
     (let k = keys m ! 0; v = vals m ! 0 in
      case mt m of
        SET \<Rightarrow> (kv(k \<mapsto> v), Some (SUCCESS, str ''success''))
      | GET \<Rightarrow> (kv, case kv k of Some x \<Rightarrow> Some (SUCCESS, wake_response x)
          | None \<Rightarrow> if userDef m = 0 then Some (NOT_EXIST, str ''<not exist>'') else None)
      | ADD \<Rightarrow>
          (case StrToLong v of None \<Rightarrow> (kv, None)
           | Some n \<Rightarrow>
             if v \<noteq> to_string n then (kv, Some (INVALID_MESSAGE, str ''invalid request: value should be a number.''))
             else case kv k of None \<Rightarrow> (kv(k \<mapsto> v), Some (SUCCESS, to_string n))
             | Some old \<Rightarrow>
               (case StrToLong old of None \<Rightarrow> (kv, None)
                | Some o' \<Rightarrow> (kv(k \<mapsto> to_string (i64 (o' + n))), Some (SUCCESS, to_string (i64 (o' + n))))))
      | REMOVE \<Rightarrow> (if kv k = None then (kv, Some (NOT_EXIST, str ''not exist'')) else (kv(k := None), Some (SUCCESS, str ''success'')))
      | APPEND \<Rightarrow> (let x = (case kv k of None \<Rightarrow> v | Some old \<Rightarrow> old @ v) in (kv(k \<mapsto> x), Some (SUCCESS, to_string (int (length x)))))
      | CAS \<Rightarrow>
          (let exists = (case kv k of None \<Rightarrow> [] | Some old \<Rightarrow> old);
               swap = (case kv k of None \<Rightarrow> v = [] | Some old \<Rightarrow> v = old)
           in (if swap then kv(k \<mapsto> vals m ! 1) else kv, Some (SUCCESS, Pack ((new_message CAS)\<lparr>vals := [exists]\<rparr>))))
      | INVALID_MSG \<Rightarrow> (kv, Some (INVALID_MESSAGE, str ''invalid request message type'')))"

text \<open>A request of the right shape for its type.\<close>

definition well_formed :: "SmemMessage \<Rightarrow> bool" where
  "well_formed m \<longleftrightarrow> mt m \<noteq> INVALID_MSG \<and> length (keys m) = 1 \<and> length (keys m ! 0) \<le> MAX_KEY_LEN_SERVER \<and>
     length (vals m) = (case mt m of GET \<Rightarrow> 0 | REMOVE \<Rightarrow> 0 | CAS \<Rightarrow> 2 | _ \<Rightarrow> 1)"

text \<open>When a request waits instead, and what the waiters of a key that it creates are sent.\<close>

definition kv_waits :: "SmemMessage \<Rightarrow> (bytes \<Rightarrow> bytes option) \<Rightarrow> bool" where
  "kv_waits m kv \<longleftrightarrow> mt m = GET \<and> kv (keys m ! 0) = None \<and> userDef m \<noteq> 0 \<and> sint (userDef m) \<le> 2 ^ 31 - 1"

definition wake_value :: "SmemMessage \<Rightarrow> bytes \<Rightarrow> bytes" where
  "wake_value m v = (if mt m = APPEND then [] else v)"

text \<open>The requests that wait for a key, each once for every waiter it has.\<close>

definition waiting_requests :: "bytes \<Rightarrow> AccStoreServer \<Rightarrow> nat multiset" where
  "waiting_requests key s = image_mset (\<lambda>i. wc_reqCtx (the (waitCtx s i))) (mset_set (waits_for key s))"

text \<open>
  The contract of one request on the whole server: the map; the answers, the own one before those of the woken
  waiters; the waiters; and the deadline of a new waiter.
\<close>

definition implements :: "int \<Rightarrow> nat \<Rightarrow> SmemMessage \<Rightarrow> AccStoreServer \<Rightarrow> AccStoreServer \<Rightarrow> bool" where
  "implements now ctx m s s' \<longleftrightarrow>
     (let k = keys m ! 0; kv = kvStore s; (kv', resp) = kv_spec m kv;
          created = (kv k = None \<and> kv' k \<noteq> None); waits = kv_waits m kv; deadline = now + sint (userDef m)
      in kvStore s' = kv' \<and>
         (\<exists>woken. mset woken = (if created then waiting_requests k s else {#}) \<and>
            replies s' = replies s @
              (case resp of None \<Rightarrow> [] | Some (code, b) \<Rightarrow> [\<lparr>rp_ctx = ctx, rp_code = code, rp_body = b\<rparr>]) @
              map (\<lambda>c. \<lparr>rp_ctx = c, rp_code = SUCCESS, rp_body = wake_response (wake_value m (the (kv' k)))\<rparr>) woken) \<and>
         waitCtx s' = (\<lambda>i. if created \<and> i \<in> waits_for k s then None
            else if waits \<and> i = idGen s
              then Some \<lparr>wc_id = i, wc_timeoutMs = deadline, wc_key = k, wc_reqCtx = ctx\<rparr>
            else waitCtx s i) \<and>
         (waits \<and> sint (userDef m) > 0 \<longrightarrow> (\<exists>ids. map_of (timedWaiters s') deadline = Some ids \<and> idGen s \<in> set ids)))"

lemma take_key_waiters_fields:
  "kvStore (snd (take_key_waiters env key s)) = kvStore s" "replies (snd (take_key_waiters env key s)) = replies s"
  by (auto simp: take_key_waiters_def GetOutWaitersInLock_def dest: fold_get_out_fields split: option.splits prod.splits)

lemma take_fields: "take_key_waiters env key s = (ws, s') \<Longrightarrow> kvStore s' = kvStore s \<and> replies s' = replies s"
  using take_key_waiters_fields[of env key s] by simp

lemma fold_get_out_mset:
  assumes "finite (dom (waitCtx s))"
  shows "mset (fst (fold get_out ids (h, s))) =
    mset h + image_mset (\<lambda>i. wc_reqCtx (the (waitCtx s i))) (mset_set {i \<in> set ids. waitCtx s i \<noteq> None})"
  using assms
proof (induction ids arbitrary: h s)
  case (Cons i ids)
  let ?f = "\<lambda>s i. wc_reqCtx (the (waitCtx s i))" and ?D = "\<lambda>s ids. {i \<in> set ids. waitCtx s i \<noteq> None}"
  obtain h1 s1 where g: "get_out i (h, s) = (h1, s1)" by fastforce
  have w1: "waitCtx s1 = (waitCtx s)(i := None)" using get_out_fields[OF g] by simp
  have fin: "finite (dom (waitCtx s1))" using Cons.prems w1 by simp
  have IH: "mset (fst (fold get_out ids (h1, s1))) = mset h1 + image_mset (?f s1) (mset_set (?D s1 ids))"
    by (rule Cons.IH[OF fin])
  have "image_mset (?f s1) (mset_set (?D s1 ids)) = image_mset (?f s) (mset_set (?D s1 ids))"
    by (rule image_mset_cong) (auto simp: w1 split: if_splits)
  moreover have "mset h1 + image_mset (?f s) (mset_set (?D s1 ids)) = mset h + image_mset (?f s) (mset_set (?D s (i # ids)))"
  proof (cases "waitCtx s i")
    case None
    then have "?D s (i # ids) = ?D s1 ids" by (auto simp: w1)
    then show ?thesis using None g by (simp add: get_out_def)
  next
    case (Some c)
    then have "?D s (i # ids) = insert i (?D s1 ids)" "i \<notin> ?D s1 ids" by (auto simp: w1 split: if_splits)
    then show ?thesis using Some g by (auto simp: get_out_def)
  qed
  ultimately show ?case using IH g by simp
qed simp

lemma take_key_waiters_mset:
  assumes inv: "server_inv s" and w: "walks env" and take: "take_key_waiters env key s = (ws, s')"
  shows "mset ws = waiting_requests key s"
proof (cases "keyWaiters s key")
  case None
  then have "waits_for key s = {}" using inv by (fastforce simp: server_inv_def waiters_inv_def waits_for_def)
  then show ?thesis using None take by (simp add: take_key_waiters_def waiting_requests_def)
next
  case (Some ids)
  have fin: "finite (dom (waitCtx s))" using inv by (simp add: server_inv_def waiters_inv_def)
  have "{i \<in> set (se_ids env ids). waitCtx s i \<noteq> None} = waits_for key s"
    using inv Some unfolding walks_set(1)[OF w] by (fastforce simp: server_inv_def waiters_inv_def waits_for_def)
  moreover have "ws = fst (fold get_out (se_ids env ids) ([], s))"
    using take Some by (auto simp: take_key_waiters_def GetOutWaitersInLock_def split: prod.splits)
  ultimately show ?thesis using fold_get_out_mset[OF fin, of "se_ids env ids" "[]"] by (simp add: waiting_requests_def)
qed

lemma Wakeup_Nil [simp]: "WakeupWaiters env [] v s = s"
  by (simp add: WakeupWaiters_def)

lemma Wakeup_kv [simp]: "kvStore (WakeupWaiters env ws v s) = kvStore s"
  by (simp add: WakeupWaiters_def fold_Reply_fields)

lemma put_value_fields [simp]:
  "kvStore (put_value k v s) = (kvStore s)(k \<mapsto> v)" "replies (put_value k v s) = replies s"
  "waitCtx (put_value k v s) = waitCtx s"
  by (simp_all add: put_value_def)

text \<open>The three ways a handler ends: it answers, it creates the key, or it stays silent.\<close>

lemma implements_reply:
  assumes "can_reply env" "kv_spec m (kvStore s) = (kvStore s0, Some (code, b))" "\<not> kv_waits m (kvStore s)"
    and "kvStore s (keys m ! 0) = None \<longrightarrow> kvStore s0 (keys m ! 0) = None" "replies s0 = replies s" "waitCtx s0 = waitCtx s"
  shows "implements now ctx m s (ReplyWithMessage env ctx code b s0)"
  using assms by (auto simp: implements_def Let_def Reply_fields) (simp_all add: ReplyWithMessage_def can_reply_def)

lemma implements_create:
  assumes env: "can_reply env" "walks env" and inv: "server_inv s"
    and take: "take_key_waiters env (keys m ! 0) s = (ws, s1)" and absent: "kvStore s (keys m ! 0) = None"
    and spec: "kv_spec m (kvStore s) = ((kvStore s)(keys m ! 0 \<mapsto> x), Some (code, b))"
    and waits: "\<not> kv_waits m (kvStore s)" and v: "v = wake_value m x"
  shows "implements now ctx m s (WakeupWaiters env ws v (ReplyWithMessage env ctx code b (put_value (keys m ! 0) x s1)))"
  using take_key_waiters_spec[OF inv env(2) take] take_key_waiters_mset[OF inv env(2) take] assms
  by (auto simp: implements_def Let_def WakeupWaiters_def fold_Reply_fields fold_Reply_replies[OF env(1)] Reply_fields)
    (auto simp: ReplyWithMessage_def can_reply_def intro!: exI[of _ ws])

lemma implements_silent:
  "kv_spec m (kvStore s) = (kvStore s, None) \<Longrightarrow> \<not> kv_waits m (kvStore s) \<Longrightarrow> implements now ctx m s s"
  by (auto simp: implements_def Let_def)

lemmas implements_intros = implements_reply implements_create implements_silent

text \<open>Each handler implements the contract.\<close>

lemma handlers_implement:
  assumes env: "can_reply env" "walks env" and inv: "server_inv s" and wf: "well_formed m"
  shows "mt m = SET \<Longrightarrow> implements now ctx m s (snd (SetHandler env ctx m s))"
    and "mt m = REMOVE \<Longrightarrow> implements now ctx m s (snd (RemoveHandler env ctx m s))"
    and "mt m = APPEND \<Longrightarrow> implements now ctx m s (snd (AppendHandler env ctx m s))"
    and "mt m = ADD \<Longrightarrow> implements now ctx m s (snd (AddHandler env ctx m s))"
    and "mt m = CAS \<Longrightarrow> implements now ctx m s (snd (CasHandler env ctx m s))"
proof -
  note simps = well_formed_def kv_spec_def kv_waits_def wake_value_def Let_def
  show "mt m = SET \<Longrightarrow> implements now ctx m s (snd (SetHandler env ctx m s))"
    using assms by (auto simp: SetHandler_def simps split: prod.splits intro!: implements_intros)
  show "mt m = REMOVE \<Longrightarrow> implements now ctx m s (snd (RemoveHandler env ctx m s))"
    using assms by (auto simp: RemoveHandler_def simps intro!: implements_intros)
  show "mt m = APPEND \<Longrightarrow> implements now ctx m s (snd (AppendHandler env ctx m s))"
    using assms by (auto simp: AppendHandler_def simps split: prod.splits option.splits intro!: implements_intros)
  show "mt m = ADD \<Longrightarrow> implements now ctx m s (snd (AddHandler env ctx m s))"
    using assms by (auto simp: AddHandler_def simps split: prod.splits option.splits intro!: implements_intros)
  show "mt m = CAS \<Longrightarrow> implements now ctx m s (snd (CasHandler env ctx m s))"
    using assms
    by (auto simp: CasHandler_def simps take_key_waiters_put split: prod.splits option.splits intro!: implements_intros)
qed

lemma Get_implements:
  assumes "can_reply env" "server_inv s" "well_formed m" "mt m = GET"
  shows "implements now ctx m s (snd (GetHandler env now ctx m s))"
proof (cases "kv_waits m (kvStore s)")
  case True
  have z: "sint (userDef m) = 0 \<longleftrightarrow> userDef m = 0" by (metis signed_0 signed_word_eqI)
  have "\<exists>ids. map_of (timedWaiters (enter_timed t i s0)) t = Some ids \<and> i \<in> set ids" for t i s0
    by (auto simp: enter_timed_def AList.update_conv' add_waiter_def split: option.splits)
  moreover have "snd (GetHandler env now ctx m s) =
      (let s1 = enter_waiter (now + sint (userDef m)) (keys m ! 0) ctx s
       in if sint (userDef m) > 0 then enter_timed (now + sint (userDef m)) (idGen s) s1 else s1)"
    using GetHandler_wait[of m s env now ctx] True assms(3,4) z by (simp add: well_formed_def kv_waits_def Let_def)
  ultimately show ?thesis
    using True assms(4)
    by (auto simp: implements_def kv_spec_def kv_waits_def Let_def enter_waiter_def enter_timed_def fun_eq_iff)
next
  case False
  have z: "sint (userDef m) = 0 \<longleftrightarrow> userDef m = 0" by (metis signed_0 signed_word_eqI)
  show ?thesis
    using assms False z
    by (auto simp: GetHandler_def well_formed_def kv_spec_def kv_waits_def Let_def wake_response_def
        split: option.splits intro!: implements_reply implements_silent)
qed

lemma handle_implements:
  assumes "can_reply env" "walks env" "server_inv s" "well_formed m"
  shows "implements now ctx m s (snd (handle env now ctx m s))"
  using assms handlers_implement[OF assms] Get_implements[OF assms(1,3,4)]
  by (cases "mt m") (simp_all add: handle_def well_formed_def)


section \<open>Numbers print and parse\<close>

lemma digit_char:
  assumes "d < 10"
  shows "unat (48 + of_nat d :: u8) = 48 + d" "isdigit (48 + of_nat d)" "\<not> isspace (48 + of_nat d)"
    "(48 + of_nat d :: u8) \<noteq> 0" "(48 + of_nat d :: u8) \<noteq> 45" "(48 + of_nat d :: u8) \<noteq> 43"
    "(48 + of_nat d :: u8) = 48 \<longleftrightarrow> d = 0"
proof -
  have "d \<in> {0, 1, 2, 3, 4, 5, 6, 7, 8, 9}" using assms by auto
  then show "unat (48 + of_nat d :: u8) = 48 + d" "isdigit (48 + of_nat d)" "\<not> isspace (48 + of_nat d)"
    "(48 + of_nat d :: u8) \<noteq> 0" "(48 + of_nat d :: u8) \<noteq> 45" "(48 + of_nat d :: u8) \<noteq> 43"
    "(48 + of_nat d :: u8) = 48 \<longleftrightarrow> d = 0"
    by (auto simp: isdigit_def isspace_def)
qed

lemma nat_digits_ne: "nat_digits n \<noteq> []"
  by (subst nat_digits.simps) simp

lemma nat_digits_chars: "c \<in> set (nat_digits n) \<Longrightarrow> \<exists>d<10. c = 48 + of_nat d"
proof (induction n rule: nat_digits.induct)
  case (1 n)
  have mod: "n mod 10 < 10" by simp
  show ?case
  proof (cases "n < 10")
    case True
    then show ?thesis using "1.prems" by (subst (asm) nat_digits.simps) auto
  next
    case False
    then have "c \<in> set (nat_digits (n div 10)) \<or> c = 48 + of_nat (n mod 10)"
      using "1.prems" by (subst (asm) nat_digits.simps) auto
    then show ?thesis using "1.IH"[OF False] mod by blast
  qed
qed

lemma digits_value_nat_digits: "digits_value (nat_digits n) = n"
proof (induction n rule: nat_digits.induct)
  case (1 n)
  show ?case
  proof (cases "n < 10")
    case True
    then show ?thesis by (subst nat_digits.simps) (simp add: digits_value_def digit_char(1))
  next
    case False
    have "digits_value (nat_digits n) = 10 * digits_value (nat_digits (n div 10)) + n mod 10"
      using False by (subst nat_digits.simps) (simp add: digits_value_def digit_char(1))
    then show ?thesis using "1.IH"[OF False] by simp
  qed
qed

lemma nat_digits_zero: "nat_digits n = [48] \<longleftrightarrow> n = 0"
  using digits_value_nat_digits[of n] by (auto simp: digits_value_def nat_digits.simps[of 0])

lemma nat_digits_props:
  "\<forall>c \<in> set (nat_digits n). isdigit c \<and> \<not> isspace c \<and> c \<noteq> 0 \<and> c \<noteq> 45 \<and> c \<noteq> 43"
proof
  fix c assume "c \<in> set (nat_digits n)"
  then obtain d where "d < 10" "c = 48 + of_nat d" using nat_digits_chars by blast
  then show "isdigit c \<and> \<not> isspace c \<and> c \<noteq> 0 \<and> c \<noteq> 45 \<and> c \<noteq> 43" using digit_char(2-6)[of d] by simp
qed

lemma StrToLong_to_string:
  assumes "- (2 ^ 63) \<le> v" "v < 2 ^ 63"
  shows "StrToLong (to_string v) = Some v"
proof -
  define n where "n = nat \<bar>v\<bar>"
  let ?ds = "nat_digits n"
  obtain c cs where ds: "?ds = c # cs" using nat_digits_ne[of n] by (cases ?ds) auto
  have all: "\<forall>c \<in> set ?ds. isdigit c \<and> \<not> isspace c \<and> c \<noteq> 0 \<and> c \<noteq> 45 \<and> c \<noteq> 43" by (rule nat_digits_props)
  then have c: "\<not> isspace c" "c \<noteq> 45" "c \<noteq> 43" by (simp_all add: ds)
  have take: "takeWhile isdigit ?ds = ?ds" "dropWhile isdigit ?ds = []" "takeWhile (\<lambda>c. c \<noteq> 0) ?ds = ?ds"
    using all by (simp_all add: takeWhile_eq_all_conv dropWhile_eq_Nil_conv)
  have ne: "?ds \<noteq> []" by (rule nat_digits_ne)
  show ?thesis
  proof (cases "v < 0")
    case True
    then have s: "to_string v = 45 # ?ds" and nv: "- int n = v" by (simp_all add: to_string_def n_def)
    have "strtol (45 # ?ds) = (v, [], False)"
      using assms ne nv by (simp add: strtol_def Let_def isspace_def take digits_value_nat_digits)
    then show ?thesis using True by (simp add: s take StrToLong_def Let_def)
  next
    case False
    then have s: "to_string v = ?ds" and nv: "int n = v" by (simp_all add: to_string_def n_def)
    have "dropWhile isspace ?ds = ?ds" using c by (simp add: ds)
    moreover have "hd ?ds \<noteq> 45" "hd ?ds \<noteq> 43" using c by (simp_all add: ds)
    ultimately have "strtol ?ds = (v, [], False)"
      using assms ne nv by (simp add: strtol_def Let_def take digits_value_nat_digits)
    moreover have "v = 0 \<longrightarrow> ?ds = [48]" using nat_digits_zero[of n] nv by simp
    ultimately show ?thesis by (simp add: s take StrToLong_def Let_def)
  qed
qed


section \<open>Counters\<close>

definition add_request :: "bytes \<Rightarrow> int \<Rightarrow> SmemMessage" where
  "add_request key n = (new_message ADD)\<lparr>keys := [key], vals := [to_string n]\<rparr>"

fun add_run :: "store_env \<Rightarrow> bytes \<Rightarrow> (nat \<times> int) list \<Rightarrow> AccStoreServer \<Rightarrow> AccStoreServer" where
  "add_run env key [] s = s"
| "add_run env key ((ctx, n) # xs) s = add_run env key xs (snd (handle env 0 ctx (add_request key n) s))"

definition in_long :: "int \<Rightarrow> bool" where
  "in_long v \<longleftrightarrow> - (2 ^ 63) \<le> v \<and> v < 2 ^ 63"

lemma i64_id: "in_long v \<Longrightarrow> i64 v = v"
  by (simp add: in_long_def i64_def signed_take_bit_int_eq_self)

lemma add_step:
  assumes "can_reply env" "walks env" "server_inv s" "length key \<le> MAX_KEY_LEN_SERVER" "in_long n" "in_long (v + n)"
    and "kvStore s key = None \<and> v = 0 \<or> kvStore s key = Some (to_string v) \<and> in_long v"
    and "s' = snd (handle env 0 ctx (add_request key n) s)"
  shows "kvStore s' key = Some (to_string (v + n))"
    and "\<exists>woken. replies s' = replies s @ \<lparr>rp_ctx = ctx, rp_code = SUCCESS, rp_body = to_string (v + n)\<rparr> # woken"
    and "server_inv s'"
proof -
  show "server_inv s'"
    using handle_tickets[OF assms(3,2)] by (simp add: assms(8) keeps_tickets_def)
  have wf: "well_formed (add_request key n)" using assms(4) by (simp add: well_formed_def add_request_def new_message_def)
  have n: "StrToLong (to_string n) = Some n" using assms(5) by (intro StrToLong_to_string) (simp_all add: in_long_def)
  have v: "in_long v \<Longrightarrow> StrToLong (to_string v) = Some v" by (intro StrToLong_to_string) (simp_all add: in_long_def)
  have spec: "fst (kv_spec (add_request key n) (kvStore s)) key = Some (to_string (v + n)) \<and>
      snd (kv_spec (add_request key n) (kvStore s)) = Some (SUCCESS, to_string (v + n))"
    using assms(7) n v i64_id[OF assms(6)]
    by (auto simp: kv_spec_def add_request_def new_message_def Let_def)
  have "implements 0 ctx (add_request key n) s s'"
    unfolding assms(8) by (rule handle_implements[OF assms(1-3) wf])
  then show "kvStore s' key = Some (to_string (v + n))"
    "\<exists>woken. replies s' = replies s @ \<lparr>rp_ctx = ctx, rp_code = SUCCESS, rp_body = to_string (v + n)\<rparr> # woken"
    using spec by (auto simp: implements_def Let_def split: prod.splits)
qed

lemma add_run_replies:
  assumes "can_reply env" "walks env" "length key \<le> MAX_KEY_LEN_SERVER"
    and "\<forall>j \<le> length xs. in_long (v + sum_list (map snd (take j xs)))" "\<forall>x \<in> set xs. in_long (snd x)"
    and "kvStore s key = None \<and> v = 0 \<or> kvStore s key = Some (to_string v) \<and> in_long v"
    and "server_inv s"
  shows "(xs \<noteq> [] \<longrightarrow> kvStore (add_run env key xs s) key = Some (to_string (v + sum_list (map snd xs)))) \<and>
    set (replies s) \<subseteq> set (replies (add_run env key xs s)) \<and>
    (\<forall>j < length xs. \<lparr>rp_ctx = fst (xs ! j), rp_code = SUCCESS, rp_body = to_string (v + sum_list (map snd (take (Suc j) xs)))\<rparr>
       \<in> set (replies (add_run env key xs s)))"
  using assms(4-7)
proof (induction xs arbitrary: s v)
  case Nil
  then show ?case by simp
next
  case (Cons x xs)
  obtain ctx n where x: "x = (ctx, n)" by fastforce
  define s1 where "s1 = snd (handle env 0 ctx (add_request key n) s)"
  have n: "in_long n" "in_long (v + n)"
    using Cons.prems(2) Cons.prems(1)[rule_format, of 1] by (simp_all add: x)
  note step = add_step[OF assms(1,2) Cons.prems(4) assms(3) n Cons.prems(3) s1_def]
  have "\<forall>j \<le> length xs. in_long ((v + n) + sum_list (map snd (take j xs)))"
    using Cons.prems(1)[rule_format, of "Suc j" for j] by (auto simp: x add.assoc)
  then have ih: "(xs \<noteq> [] \<longrightarrow> kvStore (add_run env key xs s1) key = Some (to_string ((v + n) + sum_list (map snd xs)))) \<and>
    set (replies s1) \<subseteq> set (replies (add_run env key xs s1)) \<and>
    (\<forall>j < length xs. \<lparr>rp_ctx = fst (xs ! j), rp_code = SUCCESS, rp_body = to_string ((v + n) + sum_list (map snd (take (Suc j) xs)))\<rparr>
       \<in> set (replies (add_run env key xs s1)))"
    using Cons.prems(2) step(1,3) n(2) by (intro Cons.IH) auto
  have run: "add_run env key (x # xs) s = add_run env key xs s1" by (simp add: x s1_def)
  have "\<lparr>rp_ctx = fst ((x # xs) ! j), rp_code = SUCCESS, rp_body = to_string (v + sum_list (map snd (take (Suc j) (x # xs))))\<rparr>
       \<in> set (replies (add_run env key xs s1))" if "j < length (x # xs)" for j
    using that ih step(2) by (cases j) (auto simp: x add.assoc)
  then show ?case
    unfolding run using ih step by (cases xs) (auto simp: x add.assoc)
qed

section \<open>Properties\<close>

definition ex_store_env :: store_env where
  "ex_store_env = \<lparr>se_create = (\<lambda>_. True), se_ids = (\<lambda>xs. xs), se_times = (\<lambda>ts. ts)\<rparr>"

lemma ex_store_env_ok: "can_reply ex_store_env" "walks ex_store_env"
  by (simp_all add: can_reply_def walks_def ex_store_env_def)

text \<open>
  C38 Every request is answered at most once, and one that was accepted is answered exactly once or still waits,
  for a key that does not exist: whatever the requests, their bytes, the order and the timer rounds, no
  waiter is lost and none is woken twice.
\<close>

theorem store_exactly_once:
  assumes "walks env" "store_run env es new_server = Inr (results, s)" "distinct (event_ctxs es)"
  shows "answered ctx s + card (pending ctx s) \<le> 1 \<and>
    (can_reply env \<and> (ctx, 0) \<in> set results \<longrightarrow> answered ctx s + card (pending ctx s) = 1) \<and>
    (\<forall>i \<in> pending ctx s. \<exists>c. waitCtx s i = Some c \<and> kvStore s (wc_key c) = None)"
proof -
  note t = store_run_tickets[OF assms(2) new_server_inv assms(1), of ctx, unfolded new_server_tickets]
  have c: "count_list (event_ctxs es) ctx = (if ctx \<in> set (event_ctxs es) then 1 else 0)"
    by (rule count_list_distinct[OF assms(3)])
  have "tickets ctx [] s = 1" if ok: "can_reply env" "(ctx, 0) \<in> set results"
  proof -
    have d: "distinct (map fst results)" using t assms(3) by simp
    have "ret = 0" if "(ctx, ret) \<in> set results" for ret
      using d ok(2) that by (meson eq_key_imp_eq_value)
    moreover have "ctx \<in> set (event_ctxs es)" using ok(2) t by (metis fst_conv image_eqI set_map)
    ultimately show ?thesis using t ok(1) c by simp
  qed
  moreover have "tickets ctx [] s \<le> 1" using t c by (auto split: if_splits)
  moreover have "\<exists>c. waitCtx s i = Some c \<and> kvStore s (wc_key c) = None" if "i \<in> pending ctx s" for i
    using that t by (auto simp: pending_def server_inv_def waiters_inv_def)
  ultimately show ?thesis by (simp add: tickets_def)
qed

definition ex_request :: "SmemMessage \<Rightarrow> nat \<Rightarrow> store_event" where
  "ex_request m ctx = Receive 1000 ctx (Pack m @ replicate 16 0) (length (Pack m))"

definition ex_store_events :: "store_event list" where
  "ex_store_events = [ex_request ((new_message GET)\<lparr>keys := [[107]]\<rparr>) 1, ex_request ((new_message GET)\<lparr>keys := [[107]], userDef := 50\<rparr>) 2,
     Tick 2000, ex_request ((new_message SET)\<lparr>keys := [[107]], vals := [[7]]\<rparr>) 3]"

lemma ex_store_run: "(case store_run ex_store_env ex_store_events new_server of Inr (results, s) \<Rightarrow> results = [(1, 0), (2, 0), (3, 0)] \<and>
    map (\<lambda>r. (rp_ctx r, rp_code r)) (replies s) = [(2, TIMEOUT), (3, SUCCESS), (1, SUCCESS)] | _ \<Rightarrow> False)"
  by code_simp

theorem store_exactly_once_witness:
  "\<exists>s. store_run ex_store_env ex_store_events new_server = Inr ([(1, 0), (2, 0), (3, 0)], s) \<and>
     answered 1 s + card (pending 1 s) = 1"
proof -
  obtain s where run: "store_run ex_store_env ex_store_events new_server = Inr ([(1, 0), (2, 0), (3, 0)], s)"
    using ex_store_run by (auto split: sum.splits)
  have "distinct (event_ctxs ex_store_events)" by (simp add: ex_store_events_def ex_request_def)
  from store_exactly_once[OF ex_store_env_ok(2) run this, of 1] show ?thesis using run ex_store_env_ok(1) by auto
qed

section \<open>Creating a key\<close>

text \<open>The branch of the handlers that creates a key takes its waiters out and answers them with the new value.\<close>

lemma handle_creates:
  assumes "well_formed m" "mt m \<in> {SET, ADD, CAS}" "kvStore s (keys m ! 0) = None"
    and "s' = snd (handle env now ctx m s)" "kvStore s' (keys m ! 0) = Some v"
  shows "\<exists>ws s1 body. take_key_waiters env (keys m ! 0) s = (ws, s1) \<and>
    s' = WakeupWaiters env ws v (ReplyWithMessage env ctx SUCCESS body (put_value (keys m ! 0) v s1))"
proof -
  obtain ws s1 where t: "take_key_waiters env (keys m ! 0) s = (ws, s1)" by fastforce
  consider "mt m = SET" | "mt m = ADD" | "mt m = CAS" using assms(2) by auto
  then have "\<exists>body. s' = WakeupWaiters env ws v (ReplyWithMessage env ctx SUCCESS body (put_value (keys m ! 0) v s1))"
  proof cases
    case 1
    then show ?thesis
      using assms t by (auto simp: handle_def SetHandler_def well_formed_def Let_def Reply_fields take_fields)
  next
    case 2
    then show ?thesis
      using assms t by (auto simp: handle_def AddHandler_def well_formed_def Let_def Reply_fields take_fields
          split: option.splits if_splits)
  next
    case 3
    then show ?thesis
      using assms t by (auto simp: handle_def CasHandler_def well_formed_def Let_def Reply_fields take_key_waiters_put
          split: if_splits)
  qed
  then show ?thesis using t by blast
qed

lemma handle_other_keys:
  assumes "can_reply env" "walks env" "server_inv s" "well_formed m" "k \<noteq> keys m ! 0"
  shows "kvStore (snd (handle env now ctx m s)) k = kvStore s k"
proof -
  have "kvStore (snd (handle env now ctx m s)) = fst (kv_spec m (kvStore s))"
    using handle_implements[OF assms(1-4), of now ctx] by (auto simp: implements_def Let_def split: prod.splits)
  then show ?thesis
    using assms(5) by (auto simp: kv_spec_def Let_def split: MessageType.splits option.splits)
qed

text \<open>
  C39 A waiter does not wait for ever on a key that comes to exist: the request that sets, adds or
  compares-and-swaps the key into existence takes every waiter of the key out of the server and sends it the
  value that was stored, in a message from which the client unpacks exactly that value.
\<close>

theorem created_key_wakes_waiters:
  assumes "server_inv s" "walks env" "can_reply env" "well_formed m" "mt m \<in> {SET, ADD, CAS}"
    and "waitCtx s i = Some c" "s' = snd (handle env now ctx m s)" "kvStore s' (wc_key c) = Some v"
  shows "waitCtx s' i = None \<and>
    \<lparr>rp_ctx = wc_reqCtx c, rp_code = SUCCESS, rp_body = wake_response v\<rparr> \<in> set (replies s') \<and>
    (length v \<le> unat MAX_VALUE_SIZE \<longrightarrow>
      Unpack (wake_response v) (length (wake_response v)) (new_message INVALID_MSG) =
        Inr (int (length (wake_response v)), (new_message GET)\<lparr>vals := [v]\<rparr>))"
proof -
  have absent: "kvStore s (wc_key c) = None" using assms(1,6) by (auto simp: server_inv_def waiters_inv_def)
  have key: "wc_key c = keys m ! 0"
    using handle_other_keys[OF assms(3,2,1,4), of "wc_key c" now ctx] absent assms(7,8) by fastforce
  obtain ws s1 body where t: "take_key_waiters env (wc_key c) s = (ws, s1)"
    and s': "s' = WakeupWaiters env ws v (ReplyWithMessage env ctx SUCCESS body (put_value (wc_key c) v s1))"
    using handle_creates[OF assms(4,5), of s s' env now ctx v] absent assms(7,8) key by auto
  have "wc_reqCtx c \<in> set ws" by (rule take_key_waiters_ctxs[OF assms(1,2,6) t])
  then have "\<lparr>rp_ctx = wc_reqCtx c, rp_code = SUCCESS, rp_body = wake_response v\<rparr> \<in> set (replies s')"
    by (auto simp: s' WakeupWaiters_def fold_Reply_replies[OF assms(3)])
  moreover have "waitCtx s' i = None"
    using take_key_waiters_spec[OF assms(1,2) t] assms(6)
    by (auto simp: s' WakeupWaiters_def fold_Reply_fields Reply_fields put_value_def waits_for_def)
  ultimately show ?thesis using wake_response_unpacks by blast
qed

definition get_key :: SmemMessage where "get_key = (new_message GET)\<lparr>keys := [[107]]\<rparr>"
definition set_key :: SmemMessage where "set_key = (new_message SET)\<lparr>keys := [[107]], vals := [[7]]\<rparr>"
definition append_key :: SmemMessage where "append_key = (new_message APPEND)\<lparr>keys := [[107]], vals := [[7]]\<rparr>"
definition waiting :: AccStoreServer where "waiting = snd (handle ex_store_env 0 1 get_key new_server)"

lemma waiting_inv: "server_inv waiting"
  using handle_tickets[OF new_server_inv ex_store_env_ok(2), of 1 0 get_key] by (simp add: waiting_def keeps_tickets_def)

lemma waiting_ctx: "waitCtx waiting 1 = Some \<lparr>wc_id = 1, wc_timeoutMs = -1, wc_key = [107], wc_reqCtx = 1\<rparr>"
  by code_simp

theorem created_key_wakes_waiters_witness:
  "waitCtx (snd (handle ex_store_env 0 2 set_key waiting)) 1 = None \<and>
   \<lparr>rp_ctx = 1, rp_code = SUCCESS, rp_body = wake_response [7]\<rparr> \<in> set (replies (snd (handle ex_store_env 0 2 set_key waiting)))"
proof -
  have wf: "well_formed set_key" "mt set_key \<in> {SET, ADD, CAS}"
    by (simp_all add: well_formed_def set_key_def new_message_def MAX_KEY_LEN_SERVER_def)
  have "kvStore (snd (handle ex_store_env 0 2 set_key waiting)) [107] = Some [7]" by code_simp
  then show ?thesis
    using created_key_wakes_waiters[OF waiting_inv ex_store_env_ok(2) ex_store_env_ok(1) wf waiting_ctx,
        of "snd (handle ex_store_env 0 2 set_key waiting)" 0 2 "[7]"] by simp
qed

text \<open>
  The value that \<open>AppendHandler\<close> hands to \<open>WakeupWaiters\<close> was moved into the store: the waiter of the key
  gets an empty value although the key holds one byte.
\<close>

lemma append_wakes_with_nothing:
  "kvStore (snd (handle ex_store_env 0 2 append_key waiting)) [107] = Some [7] \<and>
   \<lparr>rp_ctx = 1, rp_code = SUCCESS, rp_body = wake_response []\<rparr> \<in> set (replies (snd (handle ex_store_env 0 2 append_key waiting)))"
  by code_simp

text \<open>
  The timer thread stops at the first deadline that has not passed, in the order of a hash map: a waiter whose
  deadline 10 passed long ago stays when the later deadline 5000 comes first.
\<close>

lemma timer_misses_expired:
  "expired (ex_store_env\<lparr>se_times := rev\<rparr>) 1000 (new_server\<lparr>timedWaiters := [(10, [1]), (5000, [2])]\<rparr>) = []"
  by code_simp

text \<open>
  C40 The store is a map with waiters. In a server whose waiters are registered consistently a well-formed request
  changes the map as its specification says. The replies of the step are exactly: the specified answer, or none where
  the specification is silent; then, when the request brings its key into existence, one to every waiter of the key,
  with the value that was stored (with an empty one after \<open>APPEND\<close>, see \<open>append_wakes_with_nothing\<close>). These waiters
  leave the server; a \<open>GET\<close> of a missing key with a timeout enters one, under its deadline when the timeout is
  positive; no other waiter changes.
\<close>

theorem handle_refines_map:
  assumes "can_reply env" "walks env" "server_inv s" "well_formed m" and s': "s' = snd (handle env now ctx m s)"
    and k: "k = keys m ! 0" and spec: "kv_spec m (kvStore s) = (kv', resp)"
    and created: "created \<longleftrightarrow> kvStore s k = None \<and> kv' k \<noteq> None"
    and waits: "waits \<longleftrightarrow> mt m = GET \<and> kvStore s k = None \<and> userDef m \<noteq> 0 \<and> sint (userDef m) \<le> 2 ^ 31 - 1"
    and deadline: "deadline = now + sint (userDef m)"
  shows "kvStore s' = kv' \<and>
    (\<exists>woken. mset woken = (if created then waiting_requests k s else {#}) \<and>
       replies s' = replies s @
         (case resp of None \<Rightarrow> [] | Some (code, b) \<Rightarrow> [\<lparr>rp_ctx = ctx, rp_code = code, rp_body = b\<rparr>]) @
         map (\<lambda>c. \<lparr>rp_ctx = c, rp_code = SUCCESS,
           rp_body = wake_response (if mt m = APPEND then [] else the (kv' k))\<rparr>) woken) \<and>
    waitCtx s' = (\<lambda>i. if created \<and> i \<in> waits_for k s then None
       else if waits \<and> i = idGen s then Some \<lparr>wc_id = i, wc_timeoutMs = deadline, wc_key = k, wc_reqCtx = ctx\<rparr>
       else waitCtx s i) \<and>
    (waits \<and> sint (userDef m) > 0 \<longrightarrow> (\<exists>ids. map_of (timedWaiters s') deadline = Some ids \<and> idGen s \<in> set ids))"
  using handle_implements[OF assms(1-4), of now ctx]
  unfolding s' k created waits deadline implements_def Let_def kv_waits_def wake_value_def spec prod.case .

text \<open>One request waits for the key; the append creates it, answers, and wakes the waiter.\<close>

theorem handle_refines_map_witness:
  "kvStore (snd (handle ex_store_env 0 2 append_key waiting)) [107] = Some [7] \<and>
   replies (snd (handle ex_store_env 0 2 append_key waiting)) = replies waiting @
     [\<lparr>rp_ctx = 2, rp_code = SUCCESS, rp_body = to_string 1\<rparr>, \<lparr>rp_ctx = 1, rp_code = SUCCESS, rp_body = wake_response []\<rparr>] \<and>
   waitCtx (snd (handle ex_store_env 0 2 append_key waiting)) 1 = None"
proof -
  let ?s' = "snd (handle ex_store_env 0 2 append_key waiting)"
  have wf: "well_formed append_key"
    by (simp add: well_formed_def append_key_def new_message_def MAX_KEY_LEN_SERVER_def)
  have absent: "kvStore waiting [107] = None" by code_simp
  then have spec: "kv_spec append_key (kvStore waiting) = ((kvStore waiting)([107] \<mapsto> [7]), Some (SUCCESS, to_string 1))"
    by (simp add: kv_spec_def append_key_def new_message_def)
  have key: "[107] = keys append_key ! 0" "mt append_key = APPEND" by (simp_all add: append_key_def new_message_def)
  have "waitCtx waiting = (\<lambda>_. None)(1 \<mapsto> \<lparr>wc_id = 1, wc_timeoutMs = -1, wc_key = [107], wc_reqCtx = 1\<rparr>)"
    by (simp add: waiting_def handle_def GetHandler_def get_key_def new_message_def new_server_def MAX_KEY_LEN_SERVER_def Let_def)
  then have who: "waits_for [107] waiting = {1}" "waiting_requests [107] waiting = {#1#}"
    by (auto simp: waits_for_def waiting_requests_def split: if_splits)
  have created: "True \<longleftrightarrow> kvStore waiting [107] = None \<and> ((kvStore waiting)([107] \<mapsto> [7])) [107] \<noteq> None"
    by (simp add: absent)
  have waits: "False \<longleftrightarrow> mt append_key = GET \<and> kvStore waiting [107] = None \<and> userDef append_key \<noteq> 0 \<and>
      sint (userDef append_key) \<le> 2 ^ 31 - 1"
    by (simp add: key(2))
  note r = handle_refines_map[OF ex_store_env_ok(1,2) waiting_inv wf refl key(1) spec created waits refl, of 0 2]
  obtain woken where woken: "mset woken = {#1#}" and out: "replies ?s' = replies waiting @
      [\<lparr>rp_ctx = 2, rp_code = SUCCESS, rp_body = to_string 1\<rparr>] @
      map (\<lambda>c. \<lparr>rp_ctx = c, rp_code = SUCCESS, rp_body = wake_response []\<rparr>) woken"
    using r unfolding key(2) who by auto
  have gone: "waitCtx ?s' 1 = None" and kv: "kvStore ?s' [107] = Some [7]"
    using r unfolding who by simp_all
  have "woken = [1]" using woken by (cases woken) auto
  then show ?thesis using gone kv out by simp
qed

text \<open>
  Counters: the additions to a fresh key, from whatever clients and in whatever order the server takes
  them, answer the running sums, so that no addition is lost and the last answer is the value of the key.
\<close>

lemma add_requests_count:
  assumes "can_reply env" "walks env" "server_inv s" "length key \<le> MAX_KEY_LEN_SERVER" "kvStore s key = None" "xs \<noteq> []"
    and "\<forall>j \<le> length xs. in_long (sum_list (map snd (take j xs)))" "\<forall>x \<in> set xs. in_long (snd x)"
  shows "kvStore (add_run env key xs s) key = Some (to_string (sum_list (map snd xs))) \<and>
    (\<forall>j < length xs. \<lparr>rp_ctx = fst (xs ! j), rp_code = SUCCESS, rp_body = to_string (sum_list (map snd (take (Suc j) xs)))\<rparr>
       \<in> set (replies (add_run env key xs s)))"
  using add_run_replies[OF assms(1,2,4), of xs 0 s] assms(3,5-8) by simp

end
