(* ===== verification/Spec2Isabelle.thy ===== *)
theory Spec2Isabelle
  imports Combine_Compose Combine_Wave Dispatch_Wave Frontend_Api Team Store_Server
begin

text \<open>
  \<^bold>\<open>What the program is.\<close> The repository holds the SHMEM library (processing elements, PEs, with a symmetric
  heap) and, under \<open>examples/inc/dispatch_combine/single_inc/pull_combine\<close>, a protocol for expert routing in
  which one PE, the INC, serves the others, the workers. In a wave every worker publishes a slot with its
  tokens and their experts; the INC pulls the slots, compiles them into the rows of the destinations and a
  journal (\<^emph>\<open>dispatch\<close>); the workers compute partial rows; the INC pulls them, adds those of one token and
  writes the sum to the token's owner (\<^emph>\<open>combine\<close>). The session front end is the API of the two;
  buffers come from the symmetric heap, groups of PEs are teams, and PEs find each other through a
  configuration store.

  \<^bold>\<open>Which theory models what.\<close> \<open>Prelude\<close> has the result type \<open>res\<close> (a value, an error of the program, a read out
  of bounds, a hang), the loops \<open>mfold\<close> over it, byte images and their codecs. Paths below
  without a directory are in \<open>pull_combine\<close>; the others are in \<open>src/shmem/src/host\<close>.
  \<^item> \<open>Dispatch_Abi\<close>: the records of \<open>inc_dc_pull_dispatch_v2_abi.h\<close>, their images, the hash, the journal states.
  \<^item> \<open>Dispatch_Slot\<close>: \<open>BuildSlot\<close>, \<open>ValidateReady\<close>, \<open>ParseReadyAndSlot\<close> of \<open>inc_dc_pull_dispatch_v2.cpp\<close>. A slot is the
    list of its bytes; a read behind it is \<open>Oob\<close>.
  \<^item> \<open>Dispatch_Layout\<close>, \<open>Dispatch_Journal\<close>: \<open>CompileLayout\<close> and its phases, with the layout so far as state; then
    what the compiled layout is (rows, journal, expert rows, independence of the arrival).
  \<^item> \<open>Combine_Plan\<close>, \<open>Combine_Reduction\<close>: \<open>CompileCombinePullPlan\<close> and the validation of registrations, READY
    records and notices of \<open>inc_dc_pull_combine_v2.cpp\<close>; what the compiled plan is.
  \<^item> \<open>Combine_Compose\<close>: the plan compiler accepts every compiled layout.
  \<^item> \<open>Combine_Coordinator\<close>: \<open>CombineV2Coordinator\<close> as a state machine; the object and the heap of the layouts it
    points to are one state.
  \<^item> \<open>Device_Arith\<close>, \<open>Combine_Device\<close>, \<open>Combine_Kernel\<close>, \<open>Combine_Tiles\<close>, \<open>Combine_Tasks\<close>, \<open>Combine_Poll\<close>,
    \<open>Combine_Publish\<close>, \<open>Combine_Wave\<close>: the kernel of \<open>inc_dc_pull_combine_v2_device_kernel.cpp\<close> in its order: the
    arithmetic and the hash of the device; the checks of READY records, notices and registrations; the launch, the
    journal and the distributed validation of the plan; the reduction of a tile with the double buffer
    and the events of the pipes; the split of the work and both reduction paths; the polling; the records
    for the workers and the last transition of the journal; the wave as a whole.
  \<^item> \<open>Dispatch_Device\<close>, \<open>Dispatch_Parse\<close>, \<open>Dispatch_Prefix\<close>, \<open>Dispatch_Fill\<close>, \<open>Dispatch_Wave\<close>: the
    kernel of \<open>inc_dc_pull_dispatch_v2_device_kernel.cpp\<close> up to the filled tables: the checks of the launch, READY
    records, headers and metadata; the handshake of the blocks that parse one source and the parsers; the prefix phase,
    the reservation and the last transition of the journal; the second phase, which writes journal, row map, rows and
    expert assignments at the positions of the prefix phase; then all three against the host library.
  \<^item> \<open>Frontend_Api\<close>: \<open>inc_dc_pull_v2_api.cpp\<close> over an abstract table of backend entries.
  \<^item> \<open>Std_Containers\<close>, \<open>Heap_Blocks\<close>, \<open>Allocator\<close>, \<open>Heap_Manager\<close>, \<open>Heap_Api\<close>: the memory manager of
    \<open>mem/shmem_mgr.cpp\<close> with its two trees of idle ranges, against the specification of a heap tiled by blocks, and
    the calls of \<open>mem/shmem_mm.cpp\<close> (\<open>aclshmem_malloc\<close>, \<open>calloc\<close>, \<open>align\<close>, \<open>free\<close> and their extended forms) on top.
  \<^item> \<open>Team\<close>: \<open>team/shmem_team.cpp\<close>, the tables of the teams of all PEs, with the splits and the translation.
  \<^item> \<open>Message_Packer\<close>, \<open>Store_Server\<close>: \<open>bootstrap/config_store\<close>: the wire format, and the handlers and waiters of the
    server as a machine whose events are requests and expiring timers.

  \<^bold>\<open>How the parts meet.\<close> The slot parser delivers the sources of \<open>CompileLayout\<close> (\<open>source_ok\<close>); its layout is what
  the plan compiler, the coordinator and the kernel read (\<open>CompileLayout_gives_plan\<close>, \<open>plan_sealed\<close>); the kernel
  accepts the plans of the host and the same READY records (\<open>kernel_accepts_compiled_plan\<close>,
  \<open>device_ready_as_host\<close>), and what it accepted keeps its reads, writes and sums right
  (\<open>kernel_reads_in_slots\<close>, \<open>kernel_writes_once\<close>, \<open>kernel_reduces_tasks\<close>). The dispatch kernel accepts the
  slots of the host's parser, plans the host's layout and fills the host's tables (\<open>device_accepts_as_host\<close>,
  \<open>device_plans_layout\<close>, \<open>device_fills_layout\<close>). Interfaces are locales: \<open>codec\<close>
  (\<open>Prelude\<close>, interpreted for words, headers, tokens and assignments), \<open>dictionary\<close> (\<open>Std_Containers\<close>, for the
  ordered maps), \<open>allocator\<close> (\<open>Allocator\<close>, for the heap manager; the calls of the heap
  rest on it).

  \<^bold>\<open>What the lemmas show.\<close> For every component: the functional behaviour of its operations, errors included; the
  invariant every operation preserves; absence of reads out of bounds; the specification it refines. The
  properties are marked C1, C2, ... in the theories, each followed by a witness where it has a premise.

  \<^bold>\<open>Integers, loops, fuel.\<close> Machine integers are words and wrap; counters of loops over containers are natural
  numbers. Chains of pulls are walked with fuel: the number of pulls and one more. That is enough because a
  chain has distinct members (\<open>good_chain_fuel\<close>, and \<open>CompileCombinePullPlan_returns\<close> for the plan
  compiler); running out would be \<open>Hang\<close>, and the theorems exclude it. The strided loops of the
  validation count in words that wrap (\<open>strided_loop\<close>, of which not returning is \<open>Hang\<close>); those over tasks and
  sources, whose counters cannot wrap for the tasks of a valid launch and fewer than \<open>2\<^sup>3\<^sup>2 - 128\<close> blocks, recurse on
  the distance to their bound. Loops that wait have a list of passes, one entry for
  each look at memory that others change; the list ends where the cycle limit does, so a wait always ends and
  the theorems say with what.

  \<^bold>\<open>Parameters.\<close> The driver and runtime calls of the heap and the teams, the backend of the front end, the
  vector unit and the GET of the kernel, the delivery of the store's messages and what the memory of a polled
  record holds are arguments of the definitions. Transfers of one cache line are atomic and fill their
  buffer when issued; cache maintenance and barriers of the pipes have no effect in the model; the phases of the
  kernel are separated by the barrier of all blocks.

  \<^bold>\<open>Not modelled.\<close> The end-to-end programs and probes (they build inputs and launch; of one the checks of the
  received records are in \<open>Combine_Publish\<close>); the end of the dispatch kernel, which writes the filled tables back, sends
  them to the workers, relays the payload through the queues of the device and publishes completions; the push of READY records by the workers, the timelines of the kernels; the data plane of the devices, transports, topology, memory segments, initialisation, bootstrap
  plugins and sockets, the TCP links below the store server and its client, barriers and one-sided calls of the
  host (each is mostly calls of drivers, sockets or intrinsics); logging, profiling, Python bindings, the
  examples and tests.
\<close>

end
